(* ===== verification/Prelude.thy ===== *)
theory Prelude
  imports Main "HOL-Library.Word" "HOL-Library.Monad_Syntax"
begin

text \<open>
  What every component shares: the kernel's error numbers, the result type in which
  every early return and every panic is a value, the checked arithmetic of the
  \<^verbatim>\<open>usize\<close> type in a build with overflow checks, the constants of
  \<^verbatim>\<open>crates/utils/common\<close>, and generic lemmas on lists and words.

  A \<^verbatim>\<open>usize\<close> is a natural number below 2 to the power 64.  Addition, subtraction and
  multiplication are checked (the default build profile panics on overflow), shifts to
  the left drop the high bits.  A function of the kernel that can only return or panic
  is an option, with None for the panic.  A function that returns the \<^verbatim>\<open>KResult\<close> type is
  a value of type \<^typ>\<open>'f + 'a\<close> whose left side is an error number or a panic.
\<close>

unbundle bit_operations_syntax

named_theorems checked "the checked arithmetic of usize, unfolded"

named_theorems res_simps "the result type, unfolded"

section \<open>Error numbers\<close>

datatype errno =
    UNSUPPORTED | BREAK | EPERM | ENOENT | ESRCH | EINTR | EIO | ENXIO | ENOEXEC | EBADF
  | ECHILD | EAGAIN | ENOMEM | EACCES | EFAULT | EBUSY | EEXIST | EXDEV | ENODEV | ENOTDIR
  | EISDIR | EINVAL | EMFILE | ENOTTY | ENOSPC | ESPIPE | ERANGE | EOVERFLOW
  | ENAMETOOLONG | ENOTEMPTY

text \<open>The constant behind each error, and \<^verbatim>\<open>Error::as_isize\<close>.\<close>

fun as_isize :: "errno \<Rightarrow> int" where
  "as_isize UNSUPPORTED = -1024"
| "as_isize BREAK = -1023"
| "as_isize EPERM = -1"
| "as_isize ENOENT = -2"
| "as_isize ESRCH = -3"
| "as_isize EINTR = -4"
| "as_isize EIO = -5"
| "as_isize ENXIO = -6"
| "as_isize ENOEXEC = -8"
| "as_isize EBADF = -9"
| "as_isize ECHILD = -10"
| "as_isize EAGAIN = -11"
| "as_isize ENOMEM = -12"
| "as_isize EACCES = -13"
| "as_isize EFAULT = -14"
| "as_isize EBUSY = -16"
| "as_isize EEXIST = -17"
| "as_isize EXDEV = -18"
| "as_isize ENODEV = -19"
| "as_isize ENOTDIR = -20"
| "as_isize EISDIR = -21"
| "as_isize EINVAL = -22"
| "as_isize EMFILE = -24"
| "as_isize ENOTTY = -25"
| "as_isize ENOSPC = -28"
| "as_isize ESPIPE = -29"
| "as_isize ERANGE = -34"
| "as_isize EOVERFLOW = -75"
| "as_isize ENAMETOOLONG = -78"
| "as_isize ENOTEMPTY = -93"

section \<open>Results\<close>

datatype fault = Errno errno | Panic

type_synonym 'a res = "fault + 'a"

abbreviation Ok :: "'a \<Rightarrow> 'a res" where
  "Ok x \<equiv> Inr x"

abbreviation Err :: "errno \<Rightarrow> 'a res" where
  "Err e \<equiv> Inl (Errno e)"

abbreviation Panicked :: "'a res" where
  "Panicked \<equiv> Inl Panic"

definition rbind :: "'a res \<Rightarrow> ('a \<Rightarrow> 'b res) \<Rightarrow> 'b res" where
  "rbind r f = (case r of Inl e \<Rightarrow> Inl e | Inr x \<Rightarrow> f x)"

text \<open>A value that the code unwraps: None is the panic.\<close>

definition unwrap :: "'a option \<Rightarrow> 'a res" where
  "unwrap v = (case v of None \<Rightarrow> Inl Panic | Some x \<Rightarrow> Inr x)"

definition ok_or :: "errno \<Rightarrow> 'a option \<Rightarrow> 'a res" where
  "ok_or e v = (case v of None \<Rightarrow> Inl (Errno e) | Some x \<Rightarrow> Inr x)"

lemma rbind_simps [simp]:
  "rbind (Inr x) f = f x"
  "rbind (Inl e) f = Inl e"
  by (simp_all add: rbind_def)

lemma unwrap_simps [simp]:
  "unwrap None = Inl Panic"
  "unwrap (Some x) = Inr x"
  by (simp_all add: unwrap_def)

lemma ok_or_simps [simp]:
  "ok_or e None = Inl (Errno e)"
  "ok_or e (Some x) = Inr x"
  by (simp_all add: ok_or_def)

lemma rbind_eq_Inr [res_simps]: "rbind r f = Inr y \<longleftrightarrow> (\<exists>x. r = Inr x \<and> f x = Inr y)"
  by (cases r) auto

lemma unwrap_eq_Inr [res_simps]: "unwrap v = Inr y \<longleftrightarrow> v = Some y"
  by (cases v) auto

lemma ok_or_eq_Inr [res_simps]: "ok_or e v = Inr y \<longleftrightarrow> v = Some y"
  by (cases v) auto

lemma rbind_cong [fundef_cong]:
  "r = s \<Longrightarrow> (\<And>x. s = Inr x \<Longrightarrow> f x = g x) \<Longrightarrow> rbind r f = rbind s g"
  by (cases s) auto

lemma bind_eq_Some_conv [res_simps]:
  "Option.bind v f = Some y \<longleftrightarrow> (\<exists>x. v = Some x \<and> f x = Some y)"
  by (cases v) auto

section \<open>Arithmetic of usize\<close>

definition usize_limit :: nat where
  "usize_limit = 18446744073709551616"

lemma usize_limit_pow: "usize_limit = 2 ^ 64"
  by (simp add: usize_limit_def)

definition uadd :: "nat \<Rightarrow> nat \<Rightarrow> nat option" where
  "uadd a b = (if a + b < usize_limit then Some (a + b) else None)"

definition usub :: "nat \<Rightarrow> nat \<Rightarrow> nat option" where
  "usub a b = (if b \<le> a then Some (a - b) else None)"

definition umul :: "nat \<Rightarrow> nat \<Rightarrow> nat option" where
  "umul a b = (if a * b < usize_limit then Some (a * b) else None)"

definition shl64 :: "nat \<Rightarrow> nat \<Rightarrow> nat" where
  "shl64 a n = (a * 2 ^ n) mod usize_limit"

definition div_ceil :: "nat \<Rightarrow> nat \<Rightarrow> nat" where
  "div_ceil a b = a div b + (if a mod b = 0 then 0 else 1)"

text \<open>A debug assertion or an assertion: the panic is None.\<close>

definition guard :: "bool \<Rightarrow> unit option" where
  "guard b = (if b then Some () else None)"

declare usize_limit_def [checked] uadd_def [checked] usub_def [checked] umul_def [checked]
declare guard_def [checked]

lemma guard_simps [simp]:
  "guard True = Some ()"
  "guard False = None"
  by (simp_all add: guard_def)

lemma guard_eq_Some [res_simps]: "guard b = Some u \<longleftrightarrow> b"
  by (simp add: guard_def)

lemma guard_bind [simp]: "Option.bind (guard b) f = (if b then f () else None)"
  by (simp add: guard_def)

lemma uadd_eq_Some: "uadd a b = Some c \<longleftrightarrow> c = a + b \<and> a + b < usize_limit"
  by (auto simp: uadd_def)

lemma usub_eq_Some: "usub a b = Some c \<longleftrightarrow> c = a - b \<and> b \<le> a"
  by (auto simp: usub_def)

lemma umul_eq_Some: "umul a b = Some c \<longleftrightarrow> c = a * b \<and> a * b < usize_limit"
  by (auto simp: umul_def)

lemmas checked_eq_Some = uadd_eq_Some usub_eq_Some umul_eq_Some

lemma shl64_id: "a * 2 ^ n < usize_limit \<Longrightarrow> shl64 a n = a * 2 ^ n"
  by (simp add: shl64_def)

lemma div_ceil_ge: "0 < b \<Longrightarrow> a \<le> div_ceil a b * b"
proof -
  assume "0 < b"
  have a: "a = a div b * b + a mod b" by simp
  have le: "a mod b \<le> b" using \<open>0 < b\<close> by (simp add: less_imp_le)
  have "a mod b \<noteq> 0 \<Longrightarrow> div_ceil a b * b = a div b * b + b"
    "a mod b = 0 \<Longrightarrow> div_ceil a b * b = a div b * b"
    by (simp_all add: div_ceil_def)
  then show ?thesis using a le by linarith
qed

lemma div_ceil_le_iff: "0 < b \<Longrightarrow> div_ceil a b \<le> k \<longleftrightarrow> a \<le> k * b"
proof
  assume b: "0 < b" and "div_ceil a b \<le> k"
  then have "div_ceil a b * b \<le> k * b" by simp
  with div_ceil_ge [OF b, of a] show "a \<le> k * b" by linarith
next
  assume b: "0 < b" and le: "a \<le> k * b"
  show "div_ceil a b \<le> k"
  proof (cases "a mod b = 0")
    case True
    with le b show ?thesis
      by (simp add: div_ceil_def) (metis div_le_mono nonzero_mult_div_cancel_right not_less_zero)
  next
    case False
    then have "a \<noteq> k * b" by auto
    with le have "a < k * b" by simp
    then have "a div b < k" using b by (simp add: div_less_iff_less_mult)
    with False show ?thesis by (simp add: div_ceil_def)
  qed
qed

section \<open>Constants\<close>

text \<open>The constants of \<^verbatim>\<open>config.rs\<close>.\<close>

definition PTR_SIZE :: nat where "PTR_SIZE = 8"
definition MEMORY_END :: nat where "MEMORY_END = 0x88000000"
definition MEMORY_SIZE :: nat where "MEMORY_SIZE = 0x8000000"
definition PA_TO_VA :: nat where "PA_TO_VA = 0xFFFFFFFF00000000"
definition PAGE_SIZE_BITS :: nat where "PAGE_SIZE_BITS = 12"
definition PAGE_SIZE :: nat where "PAGE_SIZE = 4096"
definition PAGE_OFFSET_MASK :: nat where "PAGE_OFFSET_MASK = 4095"
definition PTE_PER_PAGE :: nat where "PTE_PER_PAGE = 512"
definition USER_STACK_SIZE :: nat where "USER_STACK_SIZE = 8 * 1024 * 1024"
definition MMAP_START :: nat where "MMAP_START = 0x2000000000"
definition LOW_ADDRESS_END :: nat where "LOW_ADDRESS_END = 0x4000000000"
definition TASK_LIMIT :: nat where "TASK_LIMIT = 256"
definition MAX_PATHNAME_LEN :: nat where "MAX_PATHNAME_LEN = 4 * 4096"

lemmas const_defs =
  PTR_SIZE_def MEMORY_END_def MEMORY_SIZE_def PA_TO_VA_def PAGE_SIZE_BITS_def PAGE_SIZE_def
  PAGE_OFFSET_MASK_def PTE_PER_PAGE_def USER_STACK_SIZE_def MMAP_START_def
  LOW_ADDRESS_END_def TASK_LIMIT_def MAX_PATHNAME_LEN_def

lemma page_size_pos [simp]: "0 < PAGE_SIZE"
  by (simp add: PAGE_SIZE_def)

section \<open>Bits of natural numbers and words\<close>

lemma and_mask_mod: "(a::nat) AND (2 ^ n - 1) = a mod 2 ^ n"
  by (metis mask_eq_exp_minus_1 take_bit_eq_mask take_bit_eq_mod)

lemma and_4095_mod: "(a::nat) AND 4095 = a mod 4096"
  using and_mask_mod [of a 12] by simp

lemma and_511_mod: "(a::nat) AND 511 = a mod 512"
  using and_mask_mod [of a 9] by simp

section \<open>Lists\<close>

lemma distinct_map_fst_mem:
  "distinct (map fst xs) \<Longrightarrow> (k, v) \<in> set xs \<Longrightarrow> (k, w) \<in> set xs \<Longrightarrow> v = w"
  by (metis map_of_is_SomeI option.inject)

lemma list_update_take_drop:
  "i < length xs \<Longrightarrow> xs[i := v] = take i xs @ v # drop (Suc i) xs"
  by (simp add: upd_conv_take_nth_drop)

lemma sorted_wrt_conj:
  "sorted_wrt (\<lambda>x y. R x y \<and> Q x y) xs \<longleftrightarrow> sorted_wrt R xs \<and> sorted_wrt Q xs"
  by (induction xs) auto

lemma map_of_rev_distinct: "distinct (map fst xs) \<Longrightarrow> map_of (rev xs) = map_of xs"
  by (subst map_of_inject_set) (simp_all add: rev_map [symmetric])

end
