(* ===== verification/IdAllocator.thy ===== *)
theory IdAllocator
  imports Prelude
begin

text \<open>
  The recycling allocator of \<^verbatim>\<open>crates/utils/idallocator\<close>, which hands out process and
  thread identifiers, and the contract \<open>id_source\<close> of such an allocator.  The set of
  identifiers in use is not stored by the code; it is a ghost argument of the
  contract and of the reachability relation.
\<close>

record recycle_allocator =
  current :: nat
  recycled :: "nat list"

definition begin_with :: "nat \<Rightarrow> recycle_allocator" where
  "begin_with b = \<lparr>current = b, recycled = []\<rparr>"

definition ra_new :: recycle_allocator where
  "ra_new = \<lparr>current = 0, recycled = []\<rparr>"

definition ra_alloc :: "recycle_allocator \<Rightarrow> (nat \<times> recycle_allocator) option" where
  "ra_alloc a =
     (case rev (recycled a) of
        i # r \<Rightarrow> Some (i, a\<lparr>recycled := rev r\<rparr>)
      | [] \<Rightarrow> do {
          c \<leftarrow> uadd (current a) 1;
          Some (c - 1, a\<lparr>current := c\<rparr>)
        })"

definition ra_dealloc :: "nat \<Rightarrow> recycle_allocator \<Rightarrow> recycle_allocator option" where
  "ra_dealloc i a = do {
     guard (i < current a);
     guard (i \<notin> set (recycled a));
     Some (a\<lparr>recycled := recycled a @ [i]\<rparr>)
   }"

definition ra_release :: "recycle_allocator \<Rightarrow> recycle_allocator" where
  "ra_release a = a\<lparr>recycled := []\<rparr>"

section \<open>The contract of an identifier source\<close>

text \<open>
  \<open>ok L s\<close>: the identifiers in \<open>L\<close> are in use.  An allocation returns one that is not,
  and giving back one that is in use is always accepted.
\<close>

locale id_source =
  fixes alloc :: "'s \<Rightarrow> (nat \<times> 's) option"
    and dealloc :: "nat \<Rightarrow> 's \<Rightarrow> 's option"
    and ok :: "nat set \<Rightarrow> 's \<Rightarrow> bool"
  assumes alloc_fresh: "ok L s \<Longrightarrow> alloc s = Some (i, s') \<Longrightarrow> i \<notin> L"
    and alloc_ok: "ok L s \<Longrightarrow> alloc s = Some (i, s') \<Longrightarrow> ok (insert i L) s'"
    and dealloc_ok: "ok L s \<Longrightarrow> i \<in> L \<Longrightarrow> \<exists>s'. dealloc i s = Some s' \<and> ok (L - {i}) s'"
begin

lemma dealloc_SomeD: "ok L s \<Longrightarrow> i \<in> L \<Longrightarrow> dealloc i s = Some s' \<Longrightarrow> ok (L - {i}) s'"
  using dealloc_ok by fastforce

lemma dealloc_total: "ok L s \<Longrightarrow> i \<in> L \<Longrightarrow> dealloc i s \<noteq> None"
  using dealloc_ok by fastforce

text \<open>Taking an identifier and giving it back at once leaves the set in use as it was.\<close>

lemma alloc_dealloc:
  assumes "ok L s" "alloc s = Some (i, s')"
  shows "\<exists>s''. dealloc i s' = Some s'' \<and> ok L s''"
proof -
  have "i \<notin> L" "ok (insert i L) s'"
    using alloc_fresh [OF assms] alloc_ok [OF assms] by auto
  moreover from this obtain s'' where "dealloc i s' = Some s''" "ok (insert i L - {i}) s''"
    using dealloc_ok by blast
  ultimately show ?thesis by auto
qed

end

section \<open>The recycling allocator is one\<close>

text \<open>
  Everything between the first identifier and the counter is either in use or waiting
  to be reused, never both.
\<close>

definition ra_inv :: "nat \<Rightarrow> nat set \<Rightarrow> recycle_allocator \<Rightarrow> bool" where
  "ra_inv b L a \<longleftrightarrow> b \<le> current a \<and> distinct (recycled a)
     \<and> L \<inter> set (recycled a) = {} \<and> L \<union> set (recycled a) = {b..<current a}"

lemma ra_inv_begin: "ra_inv b {} (begin_with b)"
  by (simp add: ra_inv_def begin_with_def)

lemma ra_alloc_cases:
  assumes "ra_alloc a = Some (i, a')"
  obtains (reuse) r where "recycled a = r @ [i]" "a' = a\<lparr>recycled := r\<rparr>"
  | (fresh) "recycled a = []" "i = current a" "a' = a\<lparr>current := current a + 1\<rparr>"
proof (cases "rev (recycled a)")
  case Nil
  then show thesis
    using assms fresh by (auto simp: ra_alloc_def checked_eq_Some res_simps)
next
  case (Cons j r)
  then have "recycled a = rev r @ [j]" by (metis rev.simps(2) rev_rev_ident)
  then show thesis
    using assms Cons reuse by (auto simp: ra_alloc_def)
qed

lemma ra_alloc_inv:
  assumes "ra_inv b L a" "ra_alloc a = Some (i, a')"
  shows "i \<notin> L" "b \<le> i" "ra_inv b (insert i L) a'"
proof -
  from assms(2) have "i \<notin> L \<and> b \<le> i \<and> ra_inv b (insert i L) a'"
  proof (cases rule: ra_alloc_cases)
    case (reuse r)
    have "i \<in> L \<union> set (recycled a)" using reuse by simp
    then have "i \<in> {b..<current a}" using assms(1) unfolding ra_inv_def by blast
    then show ?thesis using assms(1) reuse by (auto simp: ra_inv_def)
  next
    case fresh
    then show ?thesis using assms(1) by (auto simp: ra_inv_def)
  qed
  then show "i \<notin> L" "b \<le> i" "ra_inv b (insert i L) a'" by auto
qed

lemma ra_dealloc_inv:
  assumes "ra_inv b L a" "i \<in> L"
  shows "\<exists>a'. ra_dealloc i a = Some a' \<and> ra_inv b (L - {i}) a'"
proof -
  have "i \<in> {b..<current a}" "i \<notin> set (recycled a)"
    using assms by (auto simp: ra_inv_def)
  then show ?thesis
    using assms by (auto simp: ra_dealloc_def ra_inv_def)
qed

interpretation ra: id_source ra_alloc ra_dealloc "ra_inv b" for b
  by unfold_locales (auto dest: ra_alloc_inv ra_dealloc_inv)

text \<open>The states an allocator reaches when only identifiers in use are given back.\<close>

inductive ra_reach :: "nat \<Rightarrow> nat set \<Rightarrow> recycle_allocator \<Rightarrow> bool" for b where
  ra_start: "ra_reach b {} (begin_with b)"
| ra_take: "ra_reach b L a \<Longrightarrow> ra_alloc a = Some (i, a') \<Longrightarrow> ra_reach b (insert i L) a'"
| ra_give: "ra_reach b L a \<Longrightarrow> i \<in> L \<Longrightarrow> ra_dealloc i a = Some a' \<Longrightarrow> ra_reach b (L - {i}) a'"

lemma ra_reach_inv: "ra_reach b L a \<Longrightarrow> ra_inv b L a"
  by (induction rule: ra_reach.induct)
     (auto simp: ra_inv_begin intro: ra.alloc_ok ra.dealloc_SomeD)

text \<open>
  C39: In every state the identifier allocator reaches, an allocation returns an
  identifier that is not in use and not below the first one, it advances the counter
  only when every identifier below the counter is in use, and giving back an identifier
  in use never fails an assertion.
\<close>

theorem recycle_allocator_correct:
  assumes "ra_reach b L a"
  shows "(\<forall>i a'. ra_alloc a = Some (i, a') \<longrightarrow>
            i \<notin> L \<and> b \<le> i \<and> (i = current a \<longrightarrow> L = {b..<current a}))
         \<and> (\<forall>i\<in>L. ra_dealloc i a \<noteq> None)
         \<and> (current a + 1 < usize_limit \<longrightarrow> ra_alloc a \<noteq> None)"
proof (intro conjI allI impI ballI)
  have inv: "ra_inv b L a" using assms by (rule ra_reach_inv)
  fix i a' assume al: "ra_alloc a = Some (i, a')"
  show "i \<notin> L" "b \<le> i" using ra_alloc_inv [OF inv al] by auto
  assume "i = current a"
  from al this have "recycled a = []"
    using inv by (cases rule: ra_alloc_cases) (auto simp: ra_inv_def)
  then show "L = {b..<current a}" using inv by (simp add: ra_inv_def)
next
  fix i assume "i \<in> L"
  then show "ra_dealloc i a \<noteq> None" using ra_reach_inv [OF assms] by (rule ra.dealloc_total [rotated])
next
  assume "current a + 1 < usize_limit"
  then show "ra_alloc a \<noteq> None" by (auto simp: ra_alloc_def uadd_def split: list.splits)
qed

lemma ra_demo_reach:
  "ra_reach 1 {2} \<lparr>current = 3, recycled = [1]\<rparr>"
proof -
  have "ra_reach 1 {1} \<lparr>current = 2, recycled = []\<rparr>"
    using ra_take [OF ra_start [of 1], of 1 "\<lparr>current = 2, recycled = []\<rparr>"]
    by (simp add: ra_alloc_def begin_with_def checked)
  then have "ra_reach 1 {2, 1} \<lparr>current = 3, recycled = []\<rparr>"
    by (rule ra_take) (simp add: ra_alloc_def checked)
  then have "ra_reach 1 ({2, 1} - {1}) \<lparr>current = 3, recycled = [1]\<rparr>"
    by (rule ra_give) (simp_all add: ra_dealloc_def checked)
  moreover have "{2, 1} - {1} = {2::nat}" by auto
  ultimately show ?thesis by simp
qed

theorem recycle_allocator_correct_witness:
  "ra_alloc \<lparr>current = 3, recycled = [1]\<rparr> = Some (1, \<lparr>current = 3, recycled = []\<rparr>)
   \<and> (1::nat) \<notin> {2} \<and> ra_dealloc 2 \<lparr>current = 3, recycled = [1]\<rparr> \<noteq> None
   \<and> ra_alloc \<lparr>current = 3, recycled = [1]\<rparr> \<noteq> None"
  using recycle_allocator_correct [OF ra_demo_reach]
  by (simp add: ra_alloc_def usize_limit_def)

end
