(* ===== verification/Btree.thy ===== *)
theory Btree
  imports Prelude
begin

text \<open>
  The ordered maps of the standard library (\<^verbatim>\<open>BTreeMap\<close> and \<^verbatim>\<open>BTreeSet\<close>) as
  association lists with strictly increasing keys, and the contract \<open>kv_map\<close> their
  clients rely on.  The kernel keeps its memory areas, file descriptors, cached pages,
  directory entries and processes in such maps.
\<close>

type_synonym ('k, 'v) btree = "('k \<times> 'v) list"

definition bt_inv :: "('k::linorder, 'v) btree \<Rightarrow> bool" where
  "bt_inv m = sorted_wrt (<) (map fst m)"

definition bt_get :: "('k, 'v) btree \<Rightarrow> 'k \<Rightarrow> 'v option" where
  "bt_get m k = map_of m k"

fun bt_insert :: "'k::linorder \<Rightarrow> 'v \<Rightarrow> ('k, 'v) btree \<Rightarrow> ('k, 'v) btree" where
  "bt_insert k v [] = [(k, v)]"
| "bt_insert k v ((a, b) # m) =
     (if k < a then (k, v) # (a, b) # m
      else if k = a then (k, v) # m
      else (a, b) # bt_insert k v m)"

fun bt_remove :: "'k \<Rightarrow> ('k, 'v) btree \<Rightarrow> ('k, 'v) btree" where
  "bt_remove k [] = []"
| "bt_remove k ((a, b) # m) = (if k = a then m else (a, b) # bt_remove k m)"

definition bt_contains :: "('k, 'v) btree \<Rightarrow> 'k \<Rightarrow> bool" where
  "bt_contains m k = (bt_get m k \<noteq> None)"

definition bt_keys :: "('k, 'v) btree \<Rightarrow> 'k list" where
  "bt_keys m = map fst m"

text \<open>\<^verbatim>\<open>split_off\<close> keeps the keys below the given one and returns the rest.\<close>

definition bt_split_off :: "'k::linorder \<Rightarrow> ('k, 'v) btree \<Rightarrow> ('k, 'v) btree \<times> ('k, 'v) btree" where
  "bt_split_off k m = (filter (\<lambda>(a, b). a < k) m, filter (\<lambda>(a, b). k \<le> a) m)"

text \<open>\<^verbatim>\<open>range(lo..hi)\<close>.\<close>

definition bt_range :: "'k::linorder \<Rightarrow> 'k \<Rightarrow> ('k, 'v) btree \<Rightarrow> ('k, 'v) btree" where
  "bt_range lo hi m = filter (\<lambda>(a, b). lo \<le> a \<and> a < hi) m"

text \<open>
  The neighbours of a cursor: the last entry with a key at most \<open>k\<close>, the last with a
  smaller key, and the first with a larger one.
\<close>

definition bt_last_le :: "'k::linorder \<Rightarrow> ('k, 'v) btree \<Rightarrow> ('k \<times> 'v) option" where
  "bt_last_le k m = (case filter (\<lambda>(a, b). a \<le> k) m of [] \<Rightarrow> None | xs \<Rightarrow> Some (last xs))"

definition bt_last_less :: "'k::linorder \<Rightarrow> ('k, 'v) btree \<Rightarrow> ('k \<times> 'v) option" where
  "bt_last_less k m = (case filter (\<lambda>(a, b). a < k) m of [] \<Rightarrow> None | xs \<Rightarrow> Some (last xs))"

definition bt_first_ge :: "'k::linorder \<Rightarrow> ('k, 'v) btree \<Rightarrow> ('k \<times> 'v) option" where
  "bt_first_ge k m = (case filter (\<lambda>(a, b). k \<le> a) m of [] \<Rightarrow> None | x # xs \<Rightarrow> Some x)"

section \<open>The invariant\<close>

lemma bt_inv_Nil [simp]: "bt_inv []"
  by (simp add: bt_inv_def)

lemma bt_inv_Cons: "bt_inv ((k, v) # m) \<longleftrightarrow> (\<forall>a\<in>fst ` set m. k < a) \<and> bt_inv m"
  by (simp add: bt_inv_def)

lemma bt_inv_distinct: "bt_inv m \<Longrightarrow> distinct (map fst m)"
  by (simp add: bt_inv_def strict_sorted_iff)

lemma bt_inv_filter: "bt_inv m \<Longrightarrow> bt_inv (filter P m)"
  by (simp add: bt_inv_def sorted_wrt_map sorted_wrt_filter)

lemma keys_bt_insert [simp]: "fst ` set (bt_insert k v m) = insert k (fst ` set m)"
  by (induction k v m rule: bt_insert.induct) auto

lemma bt_insert_inv [simp, intro]: "bt_inv m \<Longrightarrow> bt_inv (bt_insert k v m)"
  by (induction k v m rule: bt_insert.induct) (auto simp: bt_inv_Cons)

lemma keys_bt_remove: "fst ` set (bt_remove k m) \<subseteq> fst ` set m"
  by (induction k m rule: bt_remove.induct) auto

lemma bt_remove_inv [simp, intro]: "bt_inv m \<Longrightarrow> bt_inv (bt_remove k m)"
proof (induction k m rule: bt_remove.induct)
  case (2 k a b m)
  then show ?case
    using keys_bt_remove [of k m] by (auto simp: bt_inv_Cons dest!: subsetD)
qed simp

lemma bt_get_Nil [simp]: "bt_get [] k = None"
  by (simp add: bt_get_def)

lemma bt_get_Cons: "bt_get ((a, b) # m) k = (if k = a then Some b else bt_get m k)"
  by (simp add: bt_get_def)

lemma bt_get_insert [simp]: "bt_get (bt_insert k v m) = (bt_get m)(k \<mapsto> v)"
  by (induction k v m rule: bt_insert.induct) (auto simp: bt_get_Cons fun_eq_iff)

lemma bt_get_notin: "k \<notin> fst ` set m \<Longrightarrow> bt_get m k = None"
  by (simp add: bt_get_def map_of_eq_None_iff)

lemma bt_get_remove: "bt_inv m \<Longrightarrow> bt_get (bt_remove k m) = (bt_get m)(k := None)"
proof (induction k m rule: bt_remove.induct)
  case (2 k a b m)
  show ?case
  proof (cases "k = a")
    case True
    with "2.prems" have "k \<notin> fst ` set m" by (auto simp: bt_inv_Cons)
    then show ?thesis using True by (auto simp: fun_eq_iff bt_get_Cons bt_get_notin)
  next
    case False
    with 2 show ?thesis by (auto simp: fun_eq_iff bt_get_Cons bt_inv_Cons)
  qed
qed (simp add: fun_eq_iff)

lemma bt_get_in: "bt_inv m \<Longrightarrow> bt_get m k = Some v \<longleftrightarrow> (k, v) \<in> set m"
  by (simp add: bt_get_def bt_inv_distinct)

lemma dom_bt_get: "dom (bt_get m) = fst ` set m"
proof -
  have "bt_get m = map_of m" by (simp add: fun_eq_iff bt_get_def)
  then show ?thesis by (simp add: dom_map_of_conv_image_fst)
qed

lemma bt_contains_iff: "bt_contains m k \<longleftrightarrow> k \<in> fst ` set m"
  using dom_bt_get [of m] by (auto simp: bt_contains_def dom_def)

lemma bt_get_filter:
  "bt_inv m \<Longrightarrow> bt_get (filter (\<lambda>(a, b). P a) m) k = (if P k then bt_get m k else None)"
  by (induction m) (auto simp: bt_get_Cons bt_inv_Cons bt_get_notin)

lemma bt_get_retain:
  assumes "bt_inv m"
  shows "bt_get (filter (\<lambda>(a, b). Q a b) m) k =
     (case bt_get m k of None \<Rightarrow> None | Some v \<Rightarrow> if Q k v then Some v else None)"
proof -
  let ?f = "filter (\<lambda>(a, b). Q a b) m"
  have eq: "bt_get ?f k = Some v \<longleftrightarrow> bt_get m k = Some v \<and> Q k v" for v
    unfolding bt_get_in [OF assms] bt_get_in [OF bt_inv_filter [OF assms]] by auto
  show ?thesis
  proof (cases "bt_get ?f k")
    case None
    then have "\<not> Q k v" if "bt_get m k = Some v" for v using eq [of v] that by simp
    then show ?thesis unfolding None by (cases "bt_get m k") auto
  next
    case (Some v)
    then show ?thesis using eq [of v] by simp
  qed
qed

lemma bt_get_split_off:
  assumes "bt_inv m" and "bt_split_off k m = (lo, hi)"
  shows "bt_get lo a = (if a < k then bt_get m a else None)"
    and "bt_get hi a = (if k \<le> a then bt_get m a else None)"
    and "bt_inv lo" and "bt_inv hi"
  using assms by (auto simp: bt_split_off_def bt_get_filter bt_inv_filter)

lemma bt_keys_sorted: "bt_inv m \<Longrightarrow> sorted_wrt (<) (bt_keys m)"
  by (simp add: bt_inv_def bt_keys_def)

lemma bt_remove_notin: "k \<notin> fst ` set m \<Longrightarrow> bt_remove k m = m"
  by (induction k m rule: bt_remove.induct) auto

lemma bt_remove_Nil: "bt_inv m \<Longrightarrow> bt_get m k = Some v \<Longrightarrow> bt_remove k m = [] \<Longrightarrow> m = [(k, v)]"
  by (cases m) (auto simp: bt_get_Cons split: if_splits)

lemma bt_remove_insert:
  assumes "bt_inv m" "k \<notin> fst ` set m"
  shows "bt_remove k (bt_insert k v m) = m"
  using assms by (induction k v m rule: bt_insert.induct) (auto simp: bt_inv_Cons)

lemma set_bt_insert:
  assumes "bt_inv m"
  shows "set (bt_insert k v m) = insert (k, v) {x \<in> set m. fst x \<noteq> k}"
  using assms
proof (induction k v m rule: bt_insert.induct)
  case (2 k v a b m)
  have lt: "\<And>x. x \<in> set m \<Longrightarrow> a < fst x" using "2.prems" by (auto simp: bt_inv_Cons)
  consider "k < a" | "k = a" | "a < k" by fastforce
  then show ?case
  proof cases
    case 1
    then have "\<And>x. x \<in> set m \<Longrightarrow> fst x \<noteq> k" using lt by fastforce
    with 1 show ?thesis by auto
  next
    case 2
    then have "\<And>x. x \<in> set m \<Longrightarrow> fst x \<noteq> k" using lt by fastforce
    with 2 show ?thesis by auto
  next
    case 3
    have "bt_inv m" using "2.prems" by (simp add: bt_inv_Cons)
    then show ?thesis using 3 "2.IH" by auto
  qed
qed simp

lemma set_bt_remove:
  assumes "bt_inv m"
  shows "set (bt_remove k m) = {x \<in> set m. fst x \<noteq> k}"
  using assms by (induction k m rule: bt_remove.induct) (auto simp: bt_inv_Cons)

lemma set_split_key:
  assumes "bt_inv m" "(k, a) \<in> set m"
  shows "set m = insert (k, a) {x \<in> set m. fst x \<noteq> k}"
  using assms(2) distinct_map_fst_mem [OF bt_inv_distinct [OF assms(1)], of k] by auto

lemma length_bt_insert: "length (bt_insert k v m) = length m + (if k \<in> fst ` set m then 0 else 1)"
  if "bt_inv m"
  using that by (induction k v m rule: bt_insert.induct) (auto simp: bt_inv_Cons)

lemma bt_ext: "bt_inv m \<Longrightarrow> bt_inv n \<Longrightarrow> bt_get m = bt_get n \<Longrightarrow> m = n"
proof (induction m arbitrary: n)
  case Nil
  from Nil.prems(3) have "bt_get n k = None" for k using bt_get_Nil by metis
  then have "dom (bt_get n) = {}" by (simp add: dom_def)
  then show ?case using dom_bt_get [of n] by simp
next
  case (Cons x m)
  obtain k v where x: "x = (k, v)" by (cases x)
  have dom: "fst ` set (x # m) = fst ` set n"
    using Cons.prems(3) dom_bt_get [of "x # m"] dom_bt_get [of n] by simp
  then obtain k' v' n' where n: "n = (k', v') # n'" by (cases n) auto
  have "k \<in> insert k' (fst ` set n')" "k' \<in> insert k (fst ` set m)"
    using dom unfolding x n by auto
  then have "k = k'"
    using Cons.prems(1,2) unfolding x n by (auto simp: bt_inv_Cons dest: less_asym)
  moreover have "v = v'"
    using Cons.prems(3) \<open>k = k'\<close> unfolding x n by (metis bt_get_Cons option.inject)
  moreover have "bt_get m = bt_get n'"
  proof
    fix a
    show "bt_get m a = bt_get n' a"
    proof (cases "a = k")
      case True
      then have "a \<notin> fst ` set m" "a \<notin> fst ` set n'"
        using Cons.prems(1,2) \<open>k = k'\<close> unfolding x n by (auto simp: bt_inv_Cons)
      then show ?thesis by (simp add: bt_get_notin)
    next
      case False
      then show ?thesis
        using fun_cong [OF Cons.prems(3), of a] \<open>k = k'\<close> unfolding x n by (simp add: bt_get_Cons)
    qed
  qed
  ultimately show ?case
    using Cons.IH [of n'] Cons.prems(1,2) unfolding x n by (simp add: bt_inv_Cons)
qed

lemma bt_insert_same: "bt_inv m \<Longrightarrow> (k, a) \<in> set m \<Longrightarrow> bt_insert k a m = m"
proof (rule bt_ext)
  assume "bt_inv m" "(k, a) \<in> set m"
  then have "bt_get m k = Some a" by (simp add: bt_get_in)
  then show "bt_get (bt_insert k a m) = bt_get m" by (auto simp: fun_eq_iff)
qed auto

lemma bt_split_at: "bt_inv m \<Longrightarrow> filter (\<lambda>(a, b). a < k) m @ filter (\<lambda>(a, b). k \<le> a) m = m"
proof (induction m)
  case (Cons x m)
  obtain a b where x: "x = (a, b)" by (cases x)
  show ?case
  proof (cases "a < k")
    case False
    then have "filter (\<lambda>(a, b). a < k) m = []" "filter (\<lambda>(a, b). k \<le> a) m = m"
      using Cons.prems by (auto simp: x bt_inv_Cons filter_empty_conv filter_id_conv)
    then show ?thesis using False by (simp add: x)
  qed (use Cons in \<open>simp add: x bt_inv_Cons\<close>)
qed simp

section \<open>Neighbours\<close>

lemma sorted_last_max:
  assumes "bt_inv m" "x \<in> set m"
  shows "fst x \<le> fst (last m)"
  using assms
proof (induction m)
  case (Cons y m)
  show ?case
  proof (cases "m = []")
    case False
    with Cons have "x \<in> set m \<Longrightarrow> fst x \<le> fst (last m)" by (cases y) (auto simp: bt_inv_Cons)
    moreover have "fst y < fst (last m)"
      using Cons.prems(1) False by (cases y) (auto simp: bt_inv_Cons)
    ultimately show ?thesis using Cons.prems(2) False by auto
  qed (use Cons.prems in auto)
qed simp

lemma bt_last_le_Some:
  assumes "bt_inv m" "bt_last_le k m = Some (a, b)"
  shows "(a, b) \<in> set m" "a \<le> k" "\<And>x. x \<in> fst ` set m \<Longrightarrow> x \<le> k \<Longrightarrow> x \<le> a"
proof -
  let ?f = "filter (\<lambda>(a, b). a \<le> k) m"
  have ne: "?f \<noteq> []" and l: "last ?f = (a, b)"
    using assms(2) by (auto simp: bt_last_le_def split: list.splits)
  then have "(a, b) \<in> set ?f" by (metis last_in_set)
  then show "(a, b) \<in> set m" "a \<le> k" by auto
  show "x \<le> a" if x: "x \<in> fst ` set m" "x \<le> k" for x
  proof -
    obtain y where "(x, y) \<in> set ?f" using x by auto
    from sorted_last_max [OF bt_inv_filter [OF assms(1)] this] l show ?thesis by simp
  qed
qed

lemma bt_last_le_None:
  assumes "bt_last_le k m = None" "x \<in> fst ` set m"
  shows "k < x"
proof -
  have "filter (\<lambda>(a, b). a \<le> k) m = []"
    using assms(1) by (auto simp: bt_last_le_def split: list.splits)
  then show ?thesis using assms(2) by (fastforce simp: filter_empty_conv)
qed

lemma bt_last_less_Some:
  assumes "bt_inv m" "bt_last_less k m = Some (a, b)"
  shows "(a, b) \<in> set m" "a < k" "\<And>x. x \<in> fst ` set m \<Longrightarrow> x < k \<Longrightarrow> x \<le> a"
proof -
  let ?f = "filter (\<lambda>(a, b). a < k) m"
  have ne: "?f \<noteq> []" and l: "last ?f = (a, b)"
    using assms(2) by (auto simp: bt_last_less_def split: list.splits)
  then have "(a, b) \<in> set ?f" by (metis last_in_set)
  then show "(a, b) \<in> set m" "a < k" by auto
  show "x \<le> a" if x: "x \<in> fst ` set m" "x < k" for x
  proof -
    obtain y where "(x, y) \<in> set ?f" using x by auto
    from sorted_last_max [OF bt_inv_filter [OF assms(1)] this] l show ?thesis by simp
  qed
qed

lemma bt_last_less_None:
  assumes "bt_last_less k m = None" "x \<in> fst ` set m"
  shows "k \<le> x"
proof -
  have "filter (\<lambda>(a, b). a < k) m = []"
    using assms(1) by (auto simp: bt_last_less_def split: list.splits)
  then show ?thesis using assms(2) by (fastforce simp: filter_empty_conv)
qed

lemma bt_first_ge_Some:
  assumes "bt_inv m" "bt_first_ge k m = Some (a, b)"
  shows "(a, b) \<in> set m" "k \<le> a" "\<And>x. x \<in> fst ` set m \<Longrightarrow> k \<le> x \<Longrightarrow> a \<le> x"
proof -
  let ?f = "filter (\<lambda>(a, b). k \<le> a) m"
  obtain r where f: "?f = (a, b) # r"
    using assms(2) by (auto simp: bt_first_ge_def split: list.splits)
  then have "(a, b) \<in> set ?f" by simp
  then show "(a, b) \<in> set m" "k \<le> a" by auto
  show "a \<le> x" if x: "x \<in> fst ` set m" "k \<le> x" for x
  proof -
    obtain y where y: "(x, y) \<in> set ?f" using x by auto
    have "bt_inv ?f" using assms(1) by (rule bt_inv_filter)
    with y show ?thesis unfolding f by (auto simp: bt_inv_Cons intro: less_imp_le)
  qed
qed

lemma bt_first_ge_None:
  assumes "bt_first_ge k m = None" "x \<in> fst ` set m"
  shows "x < k"
proof -
  have "filter (\<lambda>(a, b). k \<le> a) m = []"
    using assms(1) by (auto simp: bt_first_ge_def split: list.splits)
  then show ?thesis using assms(2) by (fastforce simp: filter_empty_conv)
qed

section \<open>The contract of a map\<close>

text \<open>
  What a client of an ordered map relies on: lookup after insertion and removal, and
  that both keep the representation invariant.
\<close>

locale kv_map =
  fixes get :: "'m \<Rightarrow> 'k \<Rightarrow> 'v option"
    and ins :: "'k \<Rightarrow> 'v \<Rightarrow> 'm \<Rightarrow> 'm"
    and rem :: "'k \<Rightarrow> 'm \<Rightarrow> 'm"
    and inv :: "'m \<Rightarrow> bool"
  assumes get_ins: "inv m \<Longrightarrow> get (ins k v m) = (get m)(k \<mapsto> v)"
    and get_rem: "inv m \<Longrightarrow> get (rem k m) = (get m)(k := None)"
    and inv_ins: "inv m \<Longrightarrow> inv (ins k v m)"
    and inv_rem: "inv m \<Longrightarrow> inv (rem k m)"
begin

lemma inv_fold_ins: "inv m \<Longrightarrow> inv (fold (\<lambda>(k, v). ins k v) kvs m)"
  by (induction kvs arbitrary: m) (auto simp: inv_ins)

lemma get_fold_ins:
  "inv m \<Longrightarrow> get (fold (\<lambda>(k, v). ins k v) kvs m) = get m ++ map_of (rev kvs)"
proof (induction kvs arbitrary: m)
  case (Cons kv kvs)
  obtain k v where kv: "kv = (k, v)" by (cases kv)
  show ?case
    using Cons.IH [OF inv_ins [OF Cons.prems], of k v] get_ins [OF Cons.prems, of k v]
    by (auto simp: kv map_add_def fun_eq_iff split: option.splits)
qed simp

lemma inv_fold_rem: "inv m \<Longrightarrow> inv (fold rem ks m)"
  by (induction ks arbitrary: m) (auto simp: inv_rem)

lemma get_fold_rem: "inv m \<Longrightarrow> get (fold rem ks m) = (get m) |` (- set ks)"
proof (induction ks arbitrary: m)
  case (Cons k ks)
  show ?case
    using Cons.IH [OF inv_rem [OF Cons.prems], of k] get_rem [OF Cons.prems, of k]
    by (auto simp: restrict_map_def fun_eq_iff)
qed (simp add: restrict_map_def)

end

interpretation bt: kv_map bt_get bt_insert bt_remove bt_inv
  by unfold_locales (simp_all add: bt_get_remove)

end
