(* ===== verification/FileTable.thy ===== *)
theory FileTable
  imports Btree
begin

text \<open>
  Open files and file descriptor tables (libkernel/src/fs/file.rs and the flags of
  utils/defines/src/fs.rs).  Pipes, directory streams and open seekable files are shared
  objects behind reference counts; a descriptor holds their identity.  The table is a
  \<^verbatim>\<open>BTreeMap\<close> from descriptor numbers.
\<close>

section \<open>Flags\<close>

type_synonym open_flags = "32 word"

definition O_RDONLY :: open_flags where "O_RDONLY = 0x0"
definition O_WRONLY :: open_flags where "O_WRONLY = 0x1"
definition O_RDWR :: open_flags where "O_RDWR = 0x2"
definition O_CREATE :: open_flags where "O_CREATE = 0x40"
definition O_EXCL :: open_flags where "O_EXCL = 0x80"
definition O_NOCTTY :: open_flags where "O_NOCTTY = 0x100"
definition O_TRUNCATE :: open_flags where "O_TRUNCATE = 0x200"
definition O_APPEND :: open_flags where "O_APPEND = 0x400"
definition O_NONBLOCK :: open_flags where "O_NONBLOCK = 0x800"
definition O_DSYNC :: open_flags where "O_DSYNC = 0x1000"
definition O_ASYNC :: open_flags where "O_ASYNC = 0x2000"
definition O_DIRECT :: open_flags where "O_DIRECT = 0x4000"
definition O_LARGEFILE :: open_flags where "O_LARGEFILE = 0x8000"
definition O_DIRECTORY :: open_flags where "O_DIRECTORY = 0x10000"
definition O_CLOEXEC :: open_flags where "O_CLOEXEC = 0x80000"

lemmas open_flag_defs =
  O_RDONLY_def O_WRONLY_def O_RDWR_def O_CREATE_def O_EXCL_def O_NOCTTY_def O_TRUNCATE_def
  O_APPEND_def O_NONBLOCK_def O_DSYNC_def O_ASYNC_def O_DIRECT_def O_LARGEFILE_def
  O_DIRECTORY_def O_CLOEXEC_def

text \<open>All the flags of the \<^verbatim>\<open>bitflags\<close> type, and its conversions from bits.\<close>

definition open_flags_all :: open_flags where
  "open_flags_all = fold (OR)
     [O_RDONLY, O_WRONLY, O_RDWR, O_CREATE, O_EXCL, O_NOCTTY, O_TRUNCATE, O_APPEND, O_NONBLOCK,
      O_DSYNC, O_ASYNC, O_DIRECT, O_LARGEFILE, O_DIRECTORY, O_CLOEXEC] 0"

definition open_flags_from_bits :: "32 word \<Rightarrow> open_flags option" where
  "open_flags_from_bits b = (if b AND open_flags_all = b then Some b else None)"

definition has_flag :: "'a::len word \<Rightarrow> 'a word \<Rightarrow> bool" where
  "has_flag fs x \<longleftrightarrow> fs AND x = x"

definition set_flag :: "'a::len word \<Rightarrow> bool \<Rightarrow> 'a word \<Rightarrow> 'a word" where
  "set_flag x b fs = (if b then fs OR x else fs AND NOT x)"

definition with_read_only :: "open_flags \<Rightarrow> open_flags" where
  "with_read_only fs = fs AND NOT (O_WRONLY OR O_RDWR)"

definition with_write_only :: "open_flags \<Rightarrow> open_flags" where
  "with_write_only fs = (fs AND NOT O_RDWR) OR O_WRONLY"

text \<open>The access mode; the mode 3 is declared unreachable.\<close>

definition read_write :: "open_flags \<Rightarrow> (bool \<times> bool) option" where
  "read_write fs =
     (let m = fs AND 3 in
      if m = 0 then Some (True, False)
      else if m = 1 then Some (False, True)
      else if m = 2 then Some (True, True)
      else None)"

section \<open>Descriptors\<close>

datatype pipe_end = ReadEnd nat | WriteEnd nat

datatype kfile = PipeFile pipe_end | DirFile nat | SeekableFile nat | StreamFile nat

record file_descriptor =
  fd_file :: kfile
  fd_flags :: open_flags

definition fd_new :: "kfile \<Rightarrow> open_flags \<Rightarrow> file_descriptor" where
  "fd_new f fl = \<lparr>fd_file = f, fd_flags = fl\<rparr>"

definition fd_readable :: "file_descriptor \<Rightarrow> bool option" where
  "fd_readable d = map_option fst (read_write (fd_flags d))"

definition fd_writable :: "file_descriptor \<Rightarrow> bool option" where
  "fd_writable d = map_option snd (read_write (fd_flags d))"

definition set_close_on_exec :: "bool \<Rightarrow> file_descriptor \<Rightarrow> file_descriptor" where
  "set_close_on_exec b d = d\<lparr>fd_flags := set_flag O_CLOEXEC b (fd_flags d)\<rparr>"

section \<open>The descriptor table\<close>

definition MAX_FD_NUM :: nat where "MAX_FD_NUM = 1024"
definition RLIM_INFINITY :: nat where "RLIM_INFINITY = usize_limit - 1"

record rlimit =
  rlim_curr :: nat
  rlim_max :: nat

record fd_table =
  files :: "(nat, file_descriptor) btree"
  fd_rlimit :: rlimit

text \<open>The descriptors 0, 1 and 2 are the stream \<open>tty\<close>, the file found at \<^verbatim>\<open>/dev/tty\<close>.\<close>

definition with_stdio :: "nat \<Rightarrow> fd_table" where
  "with_stdio tty =
     \<lparr>files = [(0, fd_new (StreamFile tty) O_RDONLY), (1, fd_new (StreamFile tty) O_WRONLY),
               (2, fd_new (StreamFile tty) O_WRONLY)],
      fd_rlimit = \<lparr>rlim_curr = MAX_FD_NUM, rlim_max = RLIM_INFINITY\<rparr>\<rparr>"

text \<open>The loop of \<^verbatim>\<open>add_from\<close> over the descriptors in use from \<open>from\<close> on.\<close>

fun first_free :: "nat \<Rightarrow> nat list \<Rightarrow> nat option" where
  "first_free new_fd [] = Some new_fd"
| "first_free new_fd (k # ks) =
     (if new_fd \<noteq> k then Some new_fd else do { n \<leftarrow> uadd new_fd 1; first_free n ks })"

definition add_from :: "file_descriptor \<Rightarrow> nat \<Rightarrow> fd_table \<Rightarrow> (nat option \<times> fd_table) option" where
  "add_from desc from t =
     (if rlim_curr (fd_rlimit t) \<le> length (files t) then Some (None, t)
      else do {
        n \<leftarrow> first_free from (bt_keys (filter (\<lambda>(k, d). from \<le> k) (files t)));
        Some (Some n, t\<lparr>files := bt_insert n desc (files t)\<rparr>)
      })"

definition fd_add :: "file_descriptor \<Rightarrow> fd_table \<Rightarrow> (nat option \<times> fd_table) option" where
  "fd_add desc t = add_from desc 0 t"

text \<open>
  The loops of \<^verbatim>\<open>add_many\<close>: the numbers that differ from the running key, then numbers after
  the last key, until \<open>n\<close> of them are found.
\<close>

fun gaps_loop :: "nat \<Rightarrow> nat \<Rightarrow> nat list \<Rightarrow> nat list \<Rightarrow> (nat \<times> nat list) option" where
  "gaps_loop n new_fd ret [] = Some (new_fd, ret)"
| "gaps_loop n new_fd ret (k # ks) =
     (if new_fd \<noteq> k then
        (if n \<le> length ret then Some (new_fd, ret)
         else do { m \<leftarrow> uadd new_fd 1; gaps_loop n m (ret @ [new_fd]) ks })
      else do { m \<leftarrow> uadd new_fd 1; gaps_loop n m ret ks })"

fun tail_loop :: "nat \<Rightarrow> nat \<Rightarrow> nat list \<Rightarrow> nat list option" where
  "tail_loop 0 new_fd ret = Some ret"
| "tail_loop (Suc n) new_fd ret = do { m \<leftarrow> uadd new_fd 1; tail_loop n m (ret @ [new_fd]) }"

definition add_many :: "file_descriptor list \<Rightarrow> fd_table \<Rightarrow> (nat list option \<times> fd_table) option" where
  "add_many descs t = do {
     total \<leftarrow> uadd (length (files t)) (length descs);
     (if rlim_curr (fd_rlimit t) < total then Some (None, t)
      else do {
        (new_fd, ret) \<leftarrow> gaps_loop (length descs) 0 [] (bt_keys (files t));
        ret \<leftarrow> tail_loop (length descs - length ret) new_fd ret;
        Some (Some ret, t\<lparr>files := fold (\<lambda>(k, d). bt_insert k d) (zip ret descs) (files t)\<rparr>)
      })
   }"

definition fd_get :: "nat \<Rightarrow> fd_table \<Rightarrow> file_descriptor option" where
  "fd_get fd t = bt_get (files t) fd"

definition fd_insert :: "nat \<Rightarrow> file_descriptor \<Rightarrow> fd_table \<Rightarrow> file_descriptor option \<times> fd_table" where
  "fd_insert fd desc t = (bt_get (files t) fd, t\<lparr>files := bt_insert fd desc (files t)\<rparr>)"

definition fd_remove :: "nat \<Rightarrow> fd_table \<Rightarrow> file_descriptor option \<times> fd_table" where
  "fd_remove fd t = (bt_get (files t) fd, t\<lparr>files := bt_remove fd (files t)\<rparr>)"

definition close_on_exec :: "fd_table \<Rightarrow> fd_table" where
  "close_on_exec t = t\<lparr>files := filter (\<lambda>(fd, d). \<not> has_flag (fd_flags d) O_CLOEXEC) (files t)\<rparr>"

definition fd_limit :: "fd_table \<Rightarrow> nat" where
  "fd_limit t = rlim_curr (fd_rlimit t)"

section \<open>Access modes\<close>

lemma has_flag_zero [simp]: "has_flag fs 0"
  by (simp add: has_flag_def)

text \<open>Restricting the mode gives a mode for which the access rights are defined.\<close>

lemma restricted_mode:
  "read_write (with_read_only fs) = Some (True, False)"
  "read_write (with_write_only fs) = Some (False, True)"
proof -
  have "with_read_only fs AND 3 = 0"
    by (simp add: with_read_only_def open_flag_defs and.assoc)
  then show "read_write (with_read_only fs) = Some (True, False)" by (simp add: read_write_def)
  have "with_write_only fs AND 3 = (fs AND 1) OR 1"
    by (simp add: with_write_only_def open_flag_defs and.assoc bit.conj_disj_distrib2)
  also have "\<dots> = 1" by (auto simp: bit_eq_iff bit_simps)
  finally show "read_write (with_write_only fs) = Some (False, True)" by (simp add: read_write_def)
qed

section \<open>Allocation of descriptors\<close>

text \<open>The keys are in order, and none is the greatest number there is.\<close>

definition fd_ok :: "fd_table \<Rightarrow> bool" where
  "fd_ok t \<longleftrightarrow> bt_inv (files t) \<and> (\<forall>k\<in>fst ` set (files t). Suc k < usize_limit)"

lemma with_stdio_ok: "fd_ok (with_stdio tty)"
  by (simp add: fd_ok_def with_stdio_def bt_inv_def usize_limit_def)

lemma first_free_least:
  assumes "sorted_wrt (<) ks" "\<forall>k\<in>set ks. new_fd \<le> k \<and> Suc k < usize_limit"
  shows "\<exists>n. first_free new_fd ks = Some n \<and> new_fd \<le> n \<and> n \<notin> set ks \<and> {new_fd..<n} \<subseteq> set ks"
  using assms
proof (induction ks arbitrary: new_fd)
  case (Cons k ks)
  show ?case
  proof (cases "new_fd = k")
    case False
    with Cons.prems have "\<forall>j\<in>set (k # ks). new_fd < j" by fastforce
    then show ?thesis using False by (intro exI [of _ new_fd]) auto
  next
    case True
    have "\<exists>n. first_free (Suc k) ks = Some n \<and> Suc k \<le> n \<and> n \<notin> set ks \<and> {Suc k..<n} \<subseteq> set ks"
      using Cons.prems by (intro Cons.IH) auto
    then obtain n where n: "first_free (Suc k) ks = Some n" "Suc k \<le> n" "n \<notin> set ks" "{Suc k..<n} \<subseteq> set ks"
      by blast
    have "uadd k 1 = Some (Suc k)" using Cons.prems(2) by (simp add: uadd_def)
    moreover have "{k..<n} = insert k {Suc k..<n}" using n(2) by auto
    ultimately show ?thesis using True n by (intro exI [of _ n]) auto
  qed
qed simp

lemma add_from_free:
  assumes "fd_ok t" "length (files t) < rlim_curr (fd_rlimit t)"
  obtains n where "add_from desc from t = Some (Some n, t\<lparr>files := bt_insert n desc (files t)\<rparr>)"
    "from \<le> n" "n \<notin> fst ` set (files t)" "{from..<n} \<subseteq> fst ` set (files t)"
proof -
  let ?ks = "bt_keys (filter (\<lambda>(k, d). from \<le> k) (files t))"
  have st: "set ?ks = {k \<in> fst ` set (files t). from \<le> k}" by (auto simp: bt_keys_def)
  have "sorted_wrt (<) ?ks" using assms(1) by (intro bt_keys_sorted bt_inv_filter) (simp add: fd_ok_def)
  then obtain n where n: "first_free from ?ks = Some n" "from \<le> n" "n \<notin> set ?ks" "{from..<n} \<subseteq> set ?ks"
    using first_free_least [of ?ks "from"] assms(1) unfolding st fd_ok_def by blast
  show thesis
    using that [of n] n assms(2) unfolding st by (auto simp: add_from_def)
qed

text \<open>
  C38: Opening a descriptor.  When the table holds as many descriptors as the soft limit
  allows nothing is added.  Otherwise the new descriptor gets the smallest free number from
  \<open>from\<close> on, every other number keeps its descriptor and the table stays well formed.
\<close>

theorem fd_add_correct:
  assumes "fd_ok t"
  shows "if rlim_curr (fd_rlimit t) \<le> length (files t) then add_from desc from t = Some (None, t)
     else \<exists>n t'. add_from desc from t = Some (Some n, t') \<and> from \<le> n \<and> fd_get n t = None
        \<and> (\<forall>j. from \<le> j \<and> j < n \<longrightarrow> fd_get j t \<noteq> None)
        \<and> (\<forall>j. fd_get j t' = (if j = n then Some desc else fd_get j t))
        \<and> fd_rlimit t' = fd_rlimit t \<and> length (files t') = Suc (length (files t)) \<and> bt_inv (files t')"
proof (cases "rlim_curr (fd_rlimit t) \<le> length (files t)")
  case True
  then show ?thesis by (simp add: add_from_def)
next
  case False
  then obtain n where n: "add_from desc from t = Some (Some n, t\<lparr>files := bt_insert n desc (files t)\<rparr>)"
    "from \<le> n" "n \<notin> fst ` set (files t)" "{from..<n} \<subseteq> fst ` set (files t)"
    using add_from_free [OF assms, of desc "from"] by (metis not_le)
  have "fd_get j t \<noteq> None" if "from \<le> j" "j < n" for j
  proof -
    have "j \<in> dom (bt_get (files t))" using n(4) that by (auto simp: dom_bt_get)
    then show ?thesis by (auto simp: fd_get_def)
  qed
  then show ?thesis
    using False n(1-3) assms bt_get_notin [OF n(3)]
    by (auto simp: fd_get_def fd_ok_def length_bt_insert)
qed

theorem fd_add_correct_witness:
  "\<exists>t'. add_from (fd_new (DirFile 7) O_RDONLY) 1 (with_stdio 0) = Some (Some 3, t')
     \<and> fd_get 3 t' = Some (fd_new (DirFile 7) O_RDONLY)"
proof -
  have lim: "\<not> rlim_curr (fd_rlimit (with_stdio 0)) \<le> length (files (with_stdio 0))"
    by (simp add: with_stdio_def MAX_FD_NUM_def)
  then obtain n t' where n: "add_from (fd_new (DirFile 7) O_RDONLY) 1 (with_stdio 0) = Some (Some n, t')"
    "1 \<le> n" "fd_get n (with_stdio 0) = None" "\<forall>j. 1 \<le> j \<and> j < n \<longrightarrow> fd_get j (with_stdio 0) \<noteq> None"
    "\<forall>j. fd_get j t' = (if j = n then Some (fd_new (DirFile 7) O_RDONLY) else fd_get j (with_stdio 0))"
    using fd_add_correct [OF with_stdio_ok, of 0 "fd_new (DirFile 7) O_RDONLY" 1] by auto
  have "fd_get 3 (with_stdio 0) = None" "fd_get 1 (with_stdio 0) \<noteq> None" "fd_get 2 (with_stdio 0) \<noteq> None"
    by (simp_all add: with_stdio_def fd_get_def bt_get_def)
  moreover from this n(3) have "n \<noteq> 1" "n \<noteq> 2" by metis+
  moreover have "\<not> 3 < n" using n(4) [rule_format, of 3] calculation(1) by auto
  ultimately have "n = 3" using n(2) by linarith
  then show ?thesis using n by auto
qed

section \<open>Adding several descriptors\<close>

lemma gaps_loop_dense:
  "a + m < usize_limit \<Longrightarrow> gaps_loop n a ret [a..<a + m] = Some (a + m, ret)"
proof (induction m arbitrary: a)
  case (Suc m)
  have "[a..<a + Suc m] = a # [Suc a..<Suc a + m]" by (simp add: upt_rec)
  moreover have "uadd a 1 = Some (Suc a)" using Suc.prems by (simp add: uadd_def)
  ultimately show ?case using Suc.IH [of "Suc a"] Suc.prems by simp
qed simp

lemma tail_loop_upt:
  "a + n < usize_limit \<Longrightarrow> tail_loop n a ret = Some (ret @ [a..<a + n])"
proof (induction n arbitrary: a ret)
  case (Suc n)
  have "uadd a 1 = Some (Suc a)" using Suc.prems by (simp add: uadd_def)
  then show ?case using Suc.IH [of "Suc a" "ret @ [a]"] Suc.prems by (simp add: upt_rec [of a])
qed simp

text \<open>
  Adding several descriptors at once to a table without gaps, as a process has it that
  has not closed any descriptor: they get the numbers after the last one in order, nothing
  else changes, and nothing is added when they do not all fit below the soft limit.
\<close>

theorem add_many_correct:
  assumes "fd_ok t" "bt_keys (files t) = [0..<length (files t)]"
    "length (files t) + length descs < usize_limit"
  shows "if rlim_curr (fd_rlimit t) < length (files t) + length descs then add_many descs t = Some (None, t)
     else \<exists>t'. add_many descs t = Some (Some [length (files t)..<length (files t) + length descs], t')
        \<and> bt_inv (files t') \<and> fd_rlimit t' = fd_rlimit t
        \<and> (\<forall>i<length descs. fd_get (length (files t) + i) t' = Some (descs ! i))
        \<and> (\<forall>fd<length (files t). fd_get fd t' = fd_get fd t)"
proof (cases "rlim_curr (fd_rlimit t) < length (files t) + length descs")
  case True
  then show ?thesis using assms(3) by (simp add: add_many_def uadd_def)
next
  case False
  let ?n = "length (files t)" and ?k = "length descs"
  define t' where "t' = t\<lparr>files := fold (\<lambda>(k, d). bt_insert k d) (zip [?n..<?n + ?k] descs) (files t)\<rparr>"
  have r: "add_many descs t = Some (Some [?n..<?n + ?k], t')"
    using False assms(3) gaps_loop_dense [of 0 ?n ?k "[]"] tail_loop_upt [of ?n ?k "[]"]
    by (simp add: add_many_def uadd_def assms(2) t'_def)
  have inv: "bt_inv (files t)" using assms(1) by (simp add: fd_ok_def)
  let ?kvs = "zip [?n..<?n + ?k] descs"
  have g: "fd_get fd t' = (bt_get (files t) ++ map_of ?kvs) fd" for fd
    using bt.get_fold_ins [OF inv, of ?kvs] by (simp add: fd_get_def t'_def map_of_rev_distinct [of ?kvs])
  have "fd_get (?n + i) t' = Some (descs ! i)" if "i < ?k" for i
    using map_of_zip_nth [of "[?n..<?n + ?k]" descs i] that by (simp add: g map_add_def)
  moreover have "fd_get fd t' = fd_get fd t" if "fd < ?n" for fd
  proof -
    have "map_of ?kvs fd = None" using that by (auto simp: map_of_eq_None_iff dest: set_zip_leftD)
    then show ?thesis unfolding g map_add_def by (simp only: option.case fd_get_def)
  qed
  moreover have "bt_inv (files t')" using bt.inv_fold_ins [OF inv] by (simp add: t'_def)
  ultimately show ?thesis using False r by (auto simp: t'_def)
qed

theorem add_many_correct_witness:
  "\<exists>t'. add_many [fd_new (PipeFile (ReadEnd 9)) O_RDONLY, fd_new (PipeFile (WriteEnd 9)) O_WRONLY] (with_stdio 0)
      = Some (Some [3, 4], t')"
proof -
  let ?ds = "[fd_new (PipeFile (ReadEnd 9)) O_RDONLY, fd_new (PipeFile (WriteEnd 9)) O_WRONLY]"
  have "bt_keys (files (with_stdio 0)) = [0..<length (files (with_stdio 0))]" "length (files (with_stdio 0)) = 3"
    "rlim_curr (fd_rlimit (with_stdio 0)) = 1024"
    by (simp_all add: with_stdio_def bt_keys_def upt_rec MAX_FD_NUM_def)
  then show ?thesis
    using add_many_correct [OF with_stdio_ok, of 0 ?ds] by (auto simp: upt_rec usize_limit_def)
qed

text \<open>
  With a gap in the table the running number and the keys get out of step: a number that
  is in use is handed out again and its descriptor is lost.
\<close>

lemma add_many_overwrites:
  "fd_ok \<lparr>files = [(0, a), (1, b), (3, c)], fd_rlimit = \<lparr>rlim_curr = 1024, rlim_max = RLIM_INFINITY\<rparr>\<rparr>
   \<and> add_many [d, e] \<lparr>files = [(0, a), (1, b), (3, c)], fd_rlimit = \<lparr>rlim_curr = 1024, rlim_max = RLIM_INFINITY\<rparr>\<rparr>
      = Some (Some [2, 3], \<lparr>files = [(0, a), (1, b), (2, d), (3, e)],
                            fd_rlimit = \<lparr>rlim_curr = 1024, rlim_max = RLIM_INFINITY\<rparr>\<rparr>)"
  by (simp add: add_many_def fd_ok_def bt_inv_def bt_keys_def uadd_def usize_limit_def numeral_2_eq_2)

section \<open>Descriptors across exec\<close>

text \<open>
  Executing a program closes exactly the descriptors that were marked: a descriptor whose
  mark was set is gone, one whose mark was cleared is kept as it is, and marking a descriptor
  changes no other flag of it.
\<close>

theorem close_on_exec_correct:
  assumes "bt_inv (files t)"
  shows "fd_get fd (close_on_exec t) =
       (case fd_get fd t of
          None \<Rightarrow> None
        | Some d \<Rightarrow> if has_flag (fd_flags d) O_CLOEXEC then None else Some d)
     \<and> bt_inv (files (close_on_exec t))
     \<and> has_flag (fd_flags (set_close_on_exec b d)) O_CLOEXEC = b
     \<and> fd_flags (set_close_on_exec b d) AND NOT O_CLOEXEC = fd_flags d AND NOT O_CLOEXEC
     \<and> fd_file (set_close_on_exec b d) = fd_file d"
proof -
  have g: "fd_get fd (close_on_exec t) = (case fd_get fd t of None \<Rightarrow> None
      | Some d \<Rightarrow> if has_flag (fd_flags d) O_CLOEXEC then None else Some d)"
    using bt_get_retain [OF assms, of "\<lambda>_ d. \<not> has_flag (fd_flags d) O_CLOEXEC"]
    by (simp add: fd_get_def close_on_exec_def split: option.splits)
  have "\<not> has_flag (fd_flags d AND NOT O_CLOEXEC) O_CLOEXEC"
    by (simp add: has_flag_def and.assoc O_CLOEXEC_def)
  moreover have "has_flag (fd_flags d OR O_CLOEXEC) O_CLOEXEC"
    "(fd_flags d OR O_CLOEXEC) AND NOT O_CLOEXEC = fd_flags d AND NOT O_CLOEXEC"
    by (auto simp: has_flag_def bit_eq_iff bit_simps)
  ultimately show ?thesis
    using g bt_inv_filter [OF assms] by (simp add: close_on_exec_def set_close_on_exec_def set_flag_def)
qed

theorem close_on_exec_correct_witness:
  "fd_get 1 (close_on_exec ((with_stdio 0)\<lparr>files := [(1, set_close_on_exec True (fd_new (DirFile 7) O_RDONLY)),
       (2, fd_new (DirFile 7) O_RDONLY)]\<rparr>)) = None
   \<and> fd_get 2 (close_on_exec ((with_stdio 0)\<lparr>files := [(1, set_close_on_exec True (fd_new (DirFile 7) O_RDONLY)),
       (2, fd_new (DirFile 7) O_RDONLY)]\<rparr>)) = Some (fd_new (DirFile 7) O_RDONLY)"
proof -
  let ?d = "fd_new (DirFile 7) O_RDONLY" and ?m = "set_close_on_exec True (fd_new (DirFile 7) O_RDONLY)"
  let ?t = "(with_stdio 0)\<lparr>files := [(1, ?m), (2, ?d)]\<rparr>"
  have inv: "bt_inv (files ?t)" by (simp add: bt_inv_def)
  note c = close_on_exec_correct [OF inv, of _ True ?d]
  have g: "fd_get 1 ?t = Some ?m" "fd_get 2 ?t = Some ?d" by (simp_all add: fd_get_def bt_get_def)
  have "has_flag (fd_flags ?m) O_CLOEXEC" using c by blast
  then have "fd_get 1 (close_on_exec ?t) = None" using c [of 1] g(1) by (simp only: option.case if_True)
  moreover have "\<not> has_flag (fd_flags ?d) O_CLOEXEC" by (simp add: fd_new_def open_flag_defs has_flag_def)
  then have "fd_get 2 (close_on_exec ?t) = Some ?d" using c [of 2] g(2) by (simp only: option.case if_False)
  ultimately show ?thesis by blast
qed

end
