(* ===== verification/TrapContext.thy ===== *)
theory TrapContext
  imports Prelude
begin

text \<open>
  The registers saved on a trap from user mode (libkernel/src/trap/context.rs).  The
  general registers are a list of 31 numbers without the constant register x0; the
  \<^verbatim>\<open>sstatus\<close> register is a 64-bit word.  What the assembly reads from the processor, the
  floating point registers, \<^verbatim>\<open>sstatus\<close> and \<^verbatim>\<open>tp\<close>, is a parameter.
\<close>

section \<open>Floating point state\<close>

datatype fs_state = FS_Off | FS_Initial | FS_Clean | FS_Dirty

fun fs_bits :: "fs_state \<Rightarrow> 64 word" where
  "fs_bits FS_Off = 0"
| "fs_bits FS_Initial = 1"
| "fs_bits FS_Clean = 2"
| "fs_bits FS_Dirty = 3"

record float_context =
  user_fx :: "64 word list"
  fcsr :: "32 word"
  fx_valid :: bool

definition float_new :: float_context where
  "float_new = \<lparr>user_fx = replicate 32 0, fcsr = 0, fx_valid = False\<rparr>"

text \<open>The floating point registers of the processor.\<close>

record fpu =
  fpu_regs :: "64 word list"
  fpu_csr :: "32 word"

definition float_save :: "fpu \<Rightarrow> float_context \<Rightarrow> float_context" where
  "float_save f c = c\<lparr>user_fx := fpu_regs f, fcsr := fpu_csr f\<rparr>"

definition float_restore :: "float_context \<Rightarrow> fpu" where
  "float_restore c = \<lparr>fpu_regs = user_fx c, fpu_csr = fcsr c\<rparr>"

section \<open>The context\<close>

record trap_context =
  user_regs :: "nat list"
  sstatus :: "64 word"
  sepc :: nat
  kernel_sp :: nat
  kernel_ra :: nat
  kernel_tp :: nat
  kernel_s :: "nat list"
  float_ctx :: float_context

definition tc_sp :: "trap_context \<Rightarrow> nat" where "tc_sp c = user_regs c ! 1"
definition set_sp :: "nat \<Rightarrow> trap_context \<Rightarrow> trap_context" where
  "set_sp v c = c\<lparr>user_regs := (user_regs c)[1 := v]\<rparr>"
definition tc_a0 :: "trap_context \<Rightarrow> nat" where "tc_a0 c = user_regs c ! 9"
definition set_a0 :: "nat \<Rightarrow> trap_context \<Rightarrow> trap_context" where
  "set_a0 v c = c\<lparr>user_regs := (user_regs c)[9 := v]\<rparr>"
definition set_a1 :: "nat \<Rightarrow> trap_context \<Rightarrow> trap_context" where
  "set_a1 v c = c\<lparr>user_regs := (user_regs c)[10 := v]\<rparr>"
definition set_ra :: "nat \<Rightarrow> trap_context \<Rightarrow> trap_context" where
  "set_ra v c = c\<lparr>user_regs := (user_regs c)[0 := v]\<rparr>"

definition get_fs :: "trap_context \<Rightarrow> fs_state option" where
  "get_fs c =
     (let b = drop_bit 13 (sstatus c) AND 3 in
      if b = 0 then Some FS_Off else if b = 1 then Some FS_Initial
      else if b = 2 then Some FS_Clean else if b = 3 then Some FS_Dirty else None)"

definition set_fs_bits :: "fs_state \<Rightarrow> 64 word \<Rightarrow> 64 word" where
  "set_fs_bits f s = (s AND NOT (push_bit 13 3)) OR push_bit 13 (fs_bits f)"

definition set_fs :: "fs_state \<Rightarrow> trap_context \<Rightarrow> trap_context" where
  "set_fs f c = c\<lparr>sstatus := set_fs_bits f (sstatus c)\<rparr>"

definition app_init_sstatus :: "64 word \<Rightarrow> 64 word" where
  "app_init_sstatus s =
     (let s = set_fs_bits FS_Clean s;
          s = s AND NOT (push_bit 1 1);
          s = s OR push_bit 5 1
      in s AND NOT (push_bit 8 1))"

definition app_init_context :: "64 word \<Rightarrow> nat \<Rightarrow> nat \<Rightarrow> nat \<Rightarrow> trap_context" where
  "app_init_context s tp entry sp =
     set_sp sp \<lparr>user_regs = replicate 31 0, sstatus = app_init_sstatus s, sepc = entry,
       kernel_sp = 0, kernel_ra = 0, kernel_tp = tp, kernel_s = replicate 12 0, float_ctx = float_new\<rparr>"

section \<open>Fields of the status register\<close>

lemma three_mask: "(3::64 word) = mask 2"
  by (simp add: mask_eq_exp_minus_1)

lemma fs_bits_and [simp]: "fs_bits f AND mask 2 = fs_bits f"
  by (cases f) (simp_all add: mask_eq_exp_minus_1)

lemma bit_fs_bits: "bit (fs_bits f) n \<Longrightarrow> n < 2"
  using arg_cong [OF fs_bits_and [of f], of "\<lambda>w. bit w n"] by (simp add: bit_simps del: fs_bits_and)

text \<open>Setting the floating point state is read back, and touches its two bits only.\<close>

lemma set_fs_get [simp]: "get_fs (set_fs f c) = Some f"
proof -
  have "drop_bit 13 (set_fs_bits f s) AND mask 2 = fs_bits f" for s
    by (auto simp: set_fs_bits_def three_mask bit_eq_iff bit_simps dest: bit_fs_bits)
  then have "drop_bit 13 (sstatus (set_fs f c)) AND 3 = fs_bits f" by (simp add: set_fs_def three_mask)
  then show ?thesis by (cases f) (simp_all add: get_fs_def)
qed

lemma set_fs_other: "n \<noteq> 13 \<Longrightarrow> n \<noteq> 14 \<Longrightarrow> bit (sstatus (set_fs f c)) n = bit (sstatus c) n"
  using bit_fs_bits [of f "n - 13"]
  by (auto simp: set_fs_def set_fs_bits_def three_mask bit_simps dest: bit_imp_le_length)

lemma app_init_sstatus_bits:
  "\<not> bit (app_init_sstatus s) 1" "bit (app_init_sstatus s) 5" "\<not> bit (app_init_sstatus s) 8"
  by (simp_all add: app_init_sstatus_def Let_def bit_simps)

lemma app_init_regs:
  "length (user_regs (app_init_context s tp entry sp)) = 31"
  "tc_sp (app_init_context s tp entry sp) = sp" "sepc (app_init_context s tp entry sp) = entry"
  by (simp_all add: app_init_context_def set_sp_def tc_sp_def)

end
