(* ===== verification/Signals.thy ===== *)
theory Signals
  imports FileTable TrapContext
begin

text \<open>
  Signals (libkernel/src/signal, the numbers of utils/defines/src/signal.rs), their
  delivery on the way back to user mode (libkernel/src/trap/mod.rs) and the system calls
  on them (kernel/src/syscall/signal.rs).  A signal set is a 64-bit word in which the
  kernel's signal with number n, counted from 0, is bit n.  The process status, which
  delivery may change, is the 16-bit word of libkernel/src/process/mod.rs.
\<close>

section \<open>Signals and signal sets\<close>

datatype signal =
    SIGHUP | SIGINT | SIGQUIT | SIGILL | SIGTRAP | SIGABRT | SIGBUS | SIGFPE | SIGKILL | SIGUSR1
  | SIGSEGV | SIGUSR2 | SIGPIPE | SIGALRM | SIGTERM | SIGSTKFLT | SIGCHLD | SIGCONT | SIGSTOP
  | SIGTSTP | SIGTTIN | SIGTTOU | SIGURG | SIGXCPU | SIGXFSZ | SIGVTALRM | SIGPROF | SIGWINCH
  | SIGIO | SIGPWR | SIGSYS

text \<open>The numbers user programs use.\<close>

fun signum :: "signal \<Rightarrow> nat" where
  "signum SIGHUP = 1"
| "signum SIGINT = 2"
| "signum SIGQUIT = 3"
| "signum SIGILL = 4"
| "signum SIGTRAP = 5"
| "signum SIGABRT = 6"
| "signum SIGBUS = 7"
| "signum SIGFPE = 8"
| "signum SIGKILL = 9"
| "signum SIGUSR1 = 10"
| "signum SIGSEGV = 11"
| "signum SIGUSR2 = 12"
| "signum SIGPIPE = 13"
| "signum SIGALRM = 14"
| "signum SIGTERM = 15"
| "signum SIGSTKFLT = 16"
| "signum SIGCHLD = 17"
| "signum SIGCONT = 18"
| "signum SIGSTOP = 19"
| "signum SIGTSTP = 20"
| "signum SIGTTIN = 21"
| "signum SIGTTOU = 22"
| "signum SIGURG = 23"
| "signum SIGXCPU = 24"
| "signum SIGXFSZ = 25"
| "signum SIGVTALRM = 26"
| "signum SIGPROF = 27"
| "signum SIGWINCH = 28"
| "signum SIGIO = 29"
| "signum SIGPWR = 30"
| "signum SIGSYS = 31"

text \<open>The discriminant of the enumeration, one less.\<close>

definition sig_index :: "signal \<Rightarrow> nat" where
  "sig_index s = signum s - 1"

definition all_signals :: "signal list" where
  "all_signals =
     [SIGHUP, SIGINT, SIGQUIT, SIGILL, SIGTRAP, SIGABRT, SIGBUS, SIGFPE, SIGKILL, SIGUSR1,
      SIGSEGV, SIGUSR2, SIGPIPE, SIGALRM, SIGTERM, SIGSTKFLT, SIGCHLD, SIGCONT, SIGSTOP,
      SIGTSTP, SIGTTIN, SIGTTOU, SIGURG, SIGXCPU, SIGXFSZ, SIGVTALRM, SIGPROF, SIGWINCH,
      SIGIO, SIGPWR, SIGSYS]"

definition sig_from_user :: "nat \<Rightarrow> signal option" where
  "sig_from_user n = find (\<lambda>s. signum s = n) all_signals"

definition sig_to_user :: "signal \<Rightarrow> nat" where
  "sig_to_user s = sig_index s + 1"

type_synonym signal_set = "64 word"

definition ksig_all :: signal_set where
  "ksig_all = fold (\<lambda>s w. w OR push_bit (sig_index s) 1) all_signals 0"

definition ksig_of :: "signal \<Rightarrow> signal_set" where
  "ksig_of s = push_bit (sig_index s) 1 AND ksig_all"

definition ksig_from_user :: "64 word \<Rightarrow> signal_set" where
  "ksig_from_user b = drop_bit 1 b AND ksig_all"

definition ksig_to_user :: "signal_set \<Rightarrow> 64 word" where
  "ksig_to_user s = push_bit 1 s"

definition trailing_zeros :: "64 word \<Rightarrow> nat" where
  "trailing_zeros w = length (takeWhile (\<lambda>n. \<not> bit w n) [0..<64])"

definition first_pending :: "signal_set \<Rightarrow> signal option" where
  "first_pending s = sig_from_user (trailing_zeros s + 1)"

section \<open>Actions\<close>

definition SA_RESTORER :: "32 word" where "SA_RESTORER = 0x04000000"
definition SA_NODEFER :: "32 word" where "SA_NODEFER = 0x40000000"
definition SIG_ERR :: nat where "SIG_ERR = usize_limit - 1"
definition SIG_DFL :: nat where "SIG_DFL = 0"
definition SIG_IGN :: nat where "SIG_IGN = 1"
definition SIGSET_SIZE :: nat where "SIGSET_SIZE = 64"
definition SIGSET_SIZE_BYTES :: nat where "SIGSET_SIZE_BYTES = SIGSET_SIZE div 8"

record signal_action =
  sa_handler :: nat
  sa_flags :: "32 word"
  sa_restorer :: nat
  sa_mask :: "64 word"

definition action_new :: signal_action where
  "action_new = \<lparr>sa_handler = 0, sa_flags = 0, sa_restorer = 0, sa_mask = 0\<rparr>"

definition kmask :: "signal_action \<Rightarrow> signal_set" where
  "kmask a = ksig_from_user (sa_mask a)"

datatype default_handler = Terminate | Ignore | CoreDump | Stop | Continue

fun default_handler_new :: "signal \<Rightarrow> default_handler" where
  "default_handler_new s =
     (if s \<in> {SIGABRT, SIGBUS, SIGILL, SIGQUIT, SIGSEGV, SIGSYS, SIGTRAP, SIGXCPU, SIGXFSZ} then CoreDump
      else if s \<in> {SIGCHLD, SIGURG, SIGWINCH} then Ignore
      else if s \<in> {SIGSTOP, SIGTSTP, SIGTTIN, SIGTTOU} then Stop
      else if s = SIGCONT then Continue
      else Terminate)"

type_synonym signal_handlers = "signal_action list"

definition handlers_new :: signal_handlers where
  "handlers_new = replicate SIGSET_SIZE action_new"

definition action :: "signal_handlers \<Rightarrow> signal \<Rightarrow> signal_action" where
  "action h s = h ! sig_index s"

definition set_action :: "signal \<Rightarrow> signal_action \<Rightarrow> signal_handlers \<Rightarrow> signal_handlers" where
  "set_action s a h = h[sig_index s := a]"

section \<open>The process status\<close>

type_synonym process_status = "16 word"

definition ps_normal :: process_status where "ps_normal = 0"

definition ps_exited :: "8 word \<Rightarrow> process_status" where
  "ps_exited code = push_bit 8 1 OR ucast code"

definition ps_zombie :: "8 word \<Rightarrow> process_status" where
  "ps_zombie code = push_bit 8 2 OR ucast code"

definition is_exited :: "process_status \<Rightarrow> bool" where
  "is_exited s \<longleftrightarrow> s AND push_bit 8 255 = push_bit 8 1"

definition is_zombie :: "process_status \<Rightarrow> bool" where
  "is_zombie s \<longleftrightarrow> s AND push_bit 8 255 = push_bit 8 2"

definition ps_exit_code :: "process_status \<Rightarrow> 8 word option" where
  "ps_exit_code s = (if s = ps_normal then None else Some (ucast (s AND 255)))"

text \<open>Marking a process as exited asserts that it was not marked before.\<close>

definition exit_process :: "8 word \<Rightarrow> process_status \<Rightarrow> process_status option" where
  "exit_process code s = do { guard (s = ps_normal); Some (ps_exited code) }"

section \<open>Delivery\<close>

record thread_inner =
  signal_mask :: signal_set
  pending_signal :: signal_set

record signal_context =
  old_mask :: signal_set
  old_trap_context :: trap_context

text \<open>The size in bytes of the two structures with their C layout.\<close>

definition SIGNAL_CONTEXT_SIZE :: nat where "SIGNAL_CONTEXT_SIZE = 656"

text \<open>
  What a thread does with its first pending signal before it returns to user mode.
  \<open>writable a\<close> says whether the user memory from \<open>a\<close> on passes the check for a
  signal context; the context written there is part of the result.
\<close>

record signal_state =
  ss_inner :: thread_inner
  ss_context :: trap_context
  ss_status :: process_status

definition enter_handler ::
  "fpu \<Rightarrow> signal \<Rightarrow> signal_action \<Rightarrow> thread_inner \<Rightarrow> trap_context
     \<Rightarrow> (thread_inner \<times> trap_context \<times> signal_context) option" where
  "enter_handler fp s act inner c = do {
     let mask = signal_mask inner OR kmask act;
     let mask' = (if has_flag (sa_flags act) SA_NODEFER then mask else set_flag (ksig_of s) True mask);
     let c1 = c\<lparr>float_ctx := (float_ctx c)\<lparr>fx_valid := False\<rparr>\<rparr>;
     fs \<leftarrow> get_fs c1;
     let (saved, c2) = (if fs = FS_Dirty
        then (c\<lparr>float_ctx := (float_save fp (float_ctx c))\<lparr>fx_valid := True\<rparr>\<rparr>, set_fs FS_Clean c1)
        else (c, c1));
     sp \<leftarrow> usub (tc_sp c2) SIGNAL_CONTEXT_SIZE;
     Some (inner\<lparr>signal_mask := mask'\<rparr>,
       set_a0 (sig_to_user s) (set_ra (sa_restorer act) (set_sp sp (c2\<lparr>sepc := sa_handler act\<rparr>))),
       \<lparr>old_mask = signal_mask inner, old_trap_context = saved\<rparr>)
   }"

definition check_signal ::
  "fpu \<Rightarrow> (nat \<Rightarrow> bool) \<Rightarrow> signal_handlers \<Rightarrow> signal_state
     \<Rightarrow> (bool \<times> signal_state \<times> (nat \<times> signal_context) option) option" where
  "check_signal fp writable h st =
     (let inner = ss_inner st in
      case first_pending (pending_signal inner AND (NOT (signal_mask inner) AND ksig_all)) of
        None \<Rightarrow> Some (False, st, None)
      | Some s \<Rightarrow>
          let inner = inner\<lparr>pending_signal := pending_signal inner AND NOT (ksig_of s)\<rparr>;
              act = action h s;
              st = st\<lparr>ss_inner := inner\<rparr> in
          if sa_handler act = SIG_ERR then None
          else if sa_handler act = SIG_DFL then
            (case default_handler_new s of
               Ignore \<Rightarrow> Some (False, st, None)
             | Stop \<Rightarrow> None
             | Continue \<Rightarrow> None
             | _ \<Rightarrow> do {
                 ps \<leftarrow> exit_process (of_nat (sig_index s) + 128) (ss_status st);
                 Some (True, st\<lparr>ss_status := ps\<rparr>, None)
               })
          else if sa_handler act = SIG_IGN then Some (False, st, None)
          else do {
            (inner, c, sc) \<leftarrow> enter_handler fp s act inner (ss_context st);
            sp \<leftarrow> usub (tc_sp (old_trap_context sc)) SIGNAL_CONTEXT_SIZE;
            let st = st\<lparr>ss_inner := inner, ss_context := c\<rparr>;
            (if sp \<noteq> 0 \<and> writable sp then Some (False, st, Some (sp, sc))
             else do {
               ps \<leftarrow> exit_process (of_nat (sig_index s) + 128) (ss_status st);
               Some (True, st\<lparr>ss_status := ps\<rparr>, None)
             })
          })"

section \<open>System calls\<close>

text \<open>
  A user pointer argument is None for NULL, and otherwise the outcome of checking it: the
  value read, or whether it may be written.  What is written to user memory is part of the
  result.
\<close>

definition sys_rt_sigaction ::
  "nat \<Rightarrow> signal_action res option \<Rightarrow> unit res option \<Rightarrow> signal_handlers
     \<Rightarrow> nat res \<times> signal_handlers \<times> signal_action option" where
  "sys_rt_sigaction n new_act old_act h =
     (case sig_from_user (n mod 256) of
        None \<Rightarrow> (Err EINVAL, h, None)
      | Some s \<Rightarrow>
          if s = SIGKILL \<or> s = SIGSTOP then (Err EINVAL, h, None)
          else (case old_act of
              Some (Inl e) \<Rightarrow> (Inl e, h, None)
            | _ \<Rightarrow>
                let written = (if old_act = None then None else Some (action h s)) in
                (case new_act of
                   None \<Rightarrow> (Ok 0, h, written)
                 | Some (Inl e) \<Rightarrow> (Inl e, h, written)
                 | Some (Inr act) \<Rightarrow>
                     if has_flag (sa_flags act) SA_RESTORER then (Ok 0, set_action s act h, written)
                     else (Panicked, h, written))))"

datatype mask_how = Block | Unblock | SetMask

definition how_from_user :: "nat \<Rightarrow> mask_how option" where
  "how_from_user n =
     (if n = 0 then Some Block else if n = 1 then Some Unblock else if n = 2 then Some SetMask else None)"

definition sys_rt_sigprocmask ::
  "nat \<Rightarrow> 64 word res option \<Rightarrow> unit res option \<Rightarrow> nat \<Rightarrow> thread_inner
     \<Rightarrow> nat res \<times> thread_inner \<times> 64 word option" where
  "sys_rt_sigprocmask how new_set old_set set_size t =
     (if SIGSET_SIZE_BYTES < set_size then (Err EINVAL, t, None)
      else (case old_set of
          Some (Inl e) \<Rightarrow> (Inl e, t, None)
        | _ \<Rightarrow>
            let written = (if old_set = None then None else Some (ksig_to_user (signal_mask t))) in
            (case how_from_user how of
               None \<Rightarrow> (Err EINVAL, t, written)
             | Some how \<Rightarrow>
                 (case new_set of
                    None \<Rightarrow> (Ok 0, t, written)
                  | Some (Inl e) \<Rightarrow> (Inl e, t, written)
                  | Some (Inr b) \<Rightarrow>
                      let n = ksig_from_user b in
                      (Ok 0, t\<lparr>signal_mask := (case how of
                          Block \<Rightarrow> signal_mask t OR n
                        | Unblock \<Rightarrow> signal_mask t AND NOT n
                        | SetMask \<Rightarrow> n)\<rparr>, written)))))"


section \<open>Numbers and sets\<close>

lemma all_signals_complete [simp]: "s \<in> set all_signals"
  by (cases s) (simp_all add: all_signals_def)

lemma signum_inj: "signum s = signum t \<Longrightarrow> s = t"
proof -
  have "distinct (map signum all_signals)" by (simp add: all_signals_def)
  then have "inj_on signum (set all_signals)" by (simp add: distinct_map)
  then show "signum s = signum t \<Longrightarrow> s = t" by (auto dest: inj_onD)
qed

lemma signum_range: "1 \<le> signum s \<and> signum s \<le> 31"
  by (cases s) simp_all

lemma sig_index_less [simp]: "sig_index s < 31"
  using signum_range [of s] unfolding sig_index_def by linarith

lemma sig_from_user_iff: "sig_from_user n = Some s \<longleftrightarrow> signum s = n"
proof
  assume "sig_from_user n = Some s"
  then show "signum s = n" by (auto simp: sig_from_user_def find_Some_iff)
next
  assume n: "signum s = n"
  then obtain t where t: "sig_from_user n = Some t"
    by (cases "sig_from_user n") (auto simp: sig_from_user_def find_None_iff)
  then have "signum t = n" by (auto simp: sig_from_user_def find_Some_iff)
  with n t show "sig_from_user n = Some s" using signum_inj [of s t] by simp
qed

lemma sig_from_user_None: "31 < n \<Longrightarrow> sig_from_user n = None"
  using sig_from_user_iff [of n] signum_range by (metis leD not_None_eq)

lemma sig_to_user_signum [simp]: "sig_to_user s = signum s"
  using signum_range [of s] by (simp add: sig_to_user_def sig_index_def)

lemma sig_from_index: "n < 31 \<Longrightarrow> \<exists>s. sig_from_user (n + 1) = Some s \<and> sig_index s = n"
proof -
  assume n: "n < 31"
  have "map signum all_signals = [1..<32]" "length all_signals = 31"
    by (simp_all add: all_signals_def upt_rec)
  then have "signum (all_signals ! n) = [1..<32] ! n" using n by (metis nth_map)
  then have "signum (all_signals ! n) = n + 1" using n by simp
  then show ?thesis by (intro exI [of _ "all_signals ! n"]) (simp add: sig_from_user_iff sig_index_def)
qed

lemma ksig_all_mask: "ksig_all = mask 31"
  by (simp add: ksig_all_def all_signals_def sig_index_def mask_eq_exp_minus_1)

lemma bit_ksig_all [simp]: "bit ksig_all n \<longleftrightarrow> n < 31"
  by (auto simp: ksig_all_mask bit_mask_iff)

lemma bit_ksig_of [simp]: "bit (ksig_of s) n \<longleftrightarrow> n = sig_index s"
  using sig_index_less [of s] by (auto simp: ksig_of_def bit_simps simp del: sig_index_less)

lemma trailing_zeros_bit:
  assumes "w \<noteq> 0"
  shows "bit w (trailing_zeros w)" "n < trailing_zeros w \<Longrightarrow> \<not> bit w n"
proof -
  let ?t = "takeWhile (\<lambda>n. \<not> bit w n) [0..<64]"
  obtain m where m: "bit w m" "m < 64" using assms by (auto simp: bit_eq_iff dest: bit_imp_le_length)
  have "length ?t < 64"
  proof (rule ccontr)
    assume "\<not> length ?t < 64"
    then have "length ?t = length [0..<64]" using length_takeWhile_le [of "\<lambda>n. \<not> bit w n" "[0..<64]"] by simp
    then have "?t = [0..<64]" by (metis takeWhile_eq_take take_all order_refl)
    then have "\<forall>n\<in>set [0..<64]. \<not> bit w n" by (metis takeWhile_eq_all_conv)
    then show False using m by simp
  qed
  then show "bit w (trailing_zeros w)"
    using nth_length_takeWhile [of "\<lambda>n. \<not> bit w n" "[0..<64]"] by (simp add: trailing_zeros_def)
  assume n: "n < trailing_zeros w"
  then have "?t ! n = n" using takeWhile_nth [of n "\<lambda>n. \<not> bit w n" "[0..<64]"] \<open>length ?t < 64\<close>
    by (simp add: trailing_zeros_def)
  then show "\<not> bit w n"
    using n set_takeWhileD [of n "\<lambda>n. \<not> bit w n" "[0..<64]"] nth_mem [of n ?t]
    by (simp add: trailing_zeros_def)
qed

lemma trailing_zeros_0 [simp]: "trailing_zeros 0 = 64"
  by (simp add: trailing_zeros_def takeWhile_eq_all_conv [THEN iffD2])

lemma first_pending_Some:
  assumes "first_pending w = Some s"
  shows "bit w (sig_index s)" "n < sig_index s \<Longrightarrow> \<not> bit w n"
proof -
  have s: "signum s = trailing_zeros w + 1" using assms by (simp add: first_pending_def sig_from_user_iff)
  then have "trailing_zeros w = sig_index s" by (simp add: sig_index_def)
  moreover have "w \<noteq> 0"
  proof
    assume "w = 0"
    then have "trailing_zeros w = 64" by simp
    then show False using s signum_range [of s] by simp
  qed
  ultimately show "bit w (sig_index s)" "n < sig_index s \<Longrightarrow> \<not> bit w n"
    using trailing_zeros_bit [of w] by simp_all
qed

lemma first_pending_exists:
  assumes "w AND ksig_all = w" "w \<noteq> 0"
  shows "\<exists>s. first_pending w = Some s"
proof -
  have "bit (w AND ksig_all) (trailing_zeros w)" using trailing_zeros_bit(1) [OF assms(2)] assms(1) by simp
  then have "trailing_zeros w < 31" by (simp add: bit_and_iff)
  then show ?thesis using sig_from_index by (auto simp: first_pending_def)
qed

lemma first_pending_zero [simp]: "first_pending 0 = None"
  by (simp add: first_pending_def sig_from_user_None)

text \<open>
  C36: Signal numbers and signal sets.  The kernel's numbering and the users' numbering of
  the signals are inverse to each other, the set of a single signal holds that signal only,
  and a set of known signals survives the conversion to user space and back.  The signal
  chosen from a set of known signals is the one with the smallest number, and there is one
  unless the set is empty.
\<close>

theorem signal_sets_correct:
  assumes "w AND ksig_all = w"
  shows "(sig_from_user n = Some s \<longleftrightarrow> sig_to_user s = n)
     \<and> (bit (ksig_of s) (sig_index t) \<longleftrightarrow> s = t)
     \<and> ksig_from_user (ksig_to_user w) = w
     \<and> (first_pending w = None \<longleftrightarrow> w = 0)
     \<and> (first_pending w = Some s \<longleftrightarrow> bit w (sig_index s) \<and> (\<forall>t. bit w (sig_index t) \<longrightarrow> signum s \<le> signum t))"
proof (intro conjI)
  show "sig_from_user n = Some s \<longleftrightarrow> sig_to_user s = n" by (simp add: sig_from_user_iff)
  have idx: "sig_index a = sig_index b \<longleftrightarrow> a = b" for a b
    using signum_range [of a] signum_range [of b] signum_inj [of a b] by (auto simp: sig_index_def)
  then show "bit (ksig_of s) (sig_index t) \<longleftrightarrow> s = t" by auto
  have w: "bit w n \<Longrightarrow> n < 31" for n using assms by (metis bit_and_iff bit_ksig_all)
  show "ksig_from_user (ksig_to_user w) = w"
    unfolding ksig_from_user_def ksig_to_user_def
    by (rule bit_word_eqI, unfold bit_and_iff bit_drop_bit_eq comp_def bit_push_bit_iff) (auto dest: w)
  show "first_pending w = None \<longleftrightarrow> w = 0"
    by (cases "w = 0") (use first_pending_exists [OF assms] in auto)
  show "first_pending w = Some s \<longleftrightarrow> bit w (sig_index s) \<and> (\<forall>t. bit w (sig_index t) \<longrightarrow> signum s \<le> signum t)"
    (is "?L \<longleftrightarrow> ?R")
  proof
    assume L: ?L
    have "signum s \<le> signum t" if "bit w (sig_index t)" for t
    proof -
      have "sig_index s \<le> sig_index t" using first_pending_Some(2) [OF L, of "sig_index t"] that by (metis not_less)
      then show ?thesis using signum_range [of t] unfolding sig_index_def by linarith
    qed
    then show ?R using first_pending_Some(1) [OF L] by blast
  next
    assume R: ?R
    then have "w \<noteq> 0" by auto
    then obtain t where t: "first_pending w = Some t" using first_pending_exists [OF assms] by blast
    have "sig_index t \<le> sig_index s" using first_pending_Some(2) [OF t, of "sig_index s"] R by (metis not_less)
    moreover have "sig_index s \<le> sig_index t"
      using R first_pending_Some(1) [OF t] by (auto simp: sig_index_def intro: diff_le_mono)
    ultimately show ?L using t idx by (metis antisym)
  qed
qed

theorem signal_sets_correct_witness:
  "first_pending (ksig_of SIGTERM OR ksig_of SIGINT) = Some SIGINT"
proof -
  let ?w = "ksig_of SIGTERM OR ksig_of SIGINT"
  have b: "bit ?w (sig_index t) \<longleftrightarrow> t = SIGTERM \<or> t = SIGINT" for t
    by (cases t) (simp_all add: bit_or_iff sig_index_def)
  have "?w AND ksig_all = ?w" by (rule bit_word_eqI) (auto simp: bit_simps)
  from signal_sets_correct [OF this, of 0 SIGINT SIGINT] show ?thesis unfolding b by auto
qed

section \<open>The process status\<close>

lemma status_fields:
  assumes "bit k 0 \<or> bit k 1" "\<And>n. bit k n \<Longrightarrow> n < 2"
  shows "(push_bit 8 k OR ucast (c::8 word)) AND push_bit 8 255 = (push_bit 8 k :: 16 word)"
    "(push_bit 8 k OR ucast c) AND 255 = (ucast c :: 16 word)" "(push_bit 8 k OR ucast c) \<noteq> (0 :: 16 word)"
proof -
  have m: "(255::16 word) = mask 8" by (simp add: mask_eq_exp_minus_1)
  show "(push_bit 8 k OR ucast c) AND push_bit 8 255 = (push_bit 8 k :: 16 word)"
    "(push_bit 8 k OR ucast c) AND 255 = (ucast c :: 16 word)"
    unfolding m using assms(2) by (auto simp: bit_eq_iff bit_simps dest: bit_imp_le_length)
  have "bit (push_bit 8 k OR ucast c :: 16 word) 8 \<or> bit (push_bit 8 k OR ucast c :: 16 word) 9"
    using assms(1) by (auto simp: bit_simps)
  then show "(push_bit 8 k OR ucast c) \<noteq> (0 :: 16 word)" by auto
qed

lemma status_numbers:
  "bit (1::16 word) n \<Longrightarrow> n < 2" "bit (2::16 word) n \<Longrightarrow> n < 2"
  using bit_exp_iff [where 'a = "16 word", of 1 n] by (simp_all add: bit_1_iff)

lemma ps_facts:
  "ps_exit_code ps_normal = None \<and> \<not> is_exited ps_normal \<and> \<not> is_zombie ps_normal
   \<and> ps_exit_code (ps_exited c) = Some c \<and> is_exited (ps_exited c) \<and> \<not> is_zombie (ps_exited c)
   \<and> ps_exit_code (ps_zombie c) = Some c \<and> is_zombie (ps_zombie c) \<and> \<not> is_exited (ps_zombie c)
   \<and> exit_process c ps_normal = Some (ps_exited c)
   \<and> exit_process c (ps_exited d) = None \<and> exit_process c (ps_zombie d) = None"
proof -
  have e: "ps_exited c AND push_bit 8 255 = push_bit 8 1" "ps_exited c AND 255 = ucast c" "ps_exited c \<noteq> 0" for c
    unfolding ps_exited_def using status_numbers(1) by (intro status_fields; simp)+
  have z: "ps_zombie c AND push_bit 8 255 = push_bit 8 2" "ps_zombie c AND 255 = ucast c" "ps_zombie c \<noteq> 0" for c
    unfolding ps_zombie_def using status_numbers(2) by (intro status_fields; simp)+
  have u: "ucast (ucast c :: 16 word) = c" for c :: "8 word"
    by (rule bit_word_eqI) (auto simp: bit_simps)
  show ?thesis
    unfolding is_exited_def is_zombie_def ps_exit_code_def exit_process_def ps_normal_def e z
    by (simp add: e z u)
qed

text \<open>
  C37: The process status.  A process marked as exited, and a zombie, carry every exit code
  unchanged and are recognised as what they are; the status of a running process has no exit
  code.  A running process can be marked as exited; marking a process that is not running
  any more is a panic.
\<close>

theorem process_status_correct:
  "ps_exit_code ps_normal = None \<and> \<not> is_exited ps_normal \<and> \<not> is_zombie ps_normal
   \<and> ps_exit_code (ps_exited c) = Some c \<and> is_exited (ps_exited c) \<and> \<not> is_zombie (ps_exited c)
   \<and> ps_exit_code (ps_zombie c) = Some c \<and> is_zombie (ps_zombie c) \<and> \<not> is_exited (ps_zombie c)
   \<and> exit_process c ps_normal = Some (ps_exited c)
   \<and> exit_process c (ps_exited d) = None \<and> exit_process c (ps_zombie d) = None"
  by (rule ps_facts)

section \<open>Delivery\<close>

lemma set_regs_simps [simp]:
  "length (user_regs (set_sp v c)) = length (user_regs c)" "length (user_regs (set_a0 v c)) = length (user_regs c)"
  "length (user_regs (set_ra v c)) = length (user_regs c)"
  "sepc (set_sp v c) = sepc c" "sepc (set_a0 v c) = sepc c" "sepc (set_ra v c) = sepc c"
  "tc_sp (set_a0 v c) = tc_sp c" "tc_sp (set_ra v c) = tc_sp c" "tc_a0 (set_sp v c) = tc_a0 c" "tc_a0 (set_ra v c) = tc_a0 c"
  by (simp_all add: set_sp_def set_a0_def set_ra_def tc_sp_def tc_a0_def)



lemma tc_update_simps [simp]:
  "tc_sp (c\<lparr>sepc := v\<rparr>) = tc_sp c" "tc_sp (c\<lparr>float_ctx := f\<rparr>) = tc_sp c" "tc_a0 (c\<lparr>float_ctx := f\<rparr>) = tc_a0 c"
  "tc_sp (set_fs g c) = tc_sp c" "user_regs (set_fs g c) = user_regs c"
  by (simp_all add: tc_sp_def tc_a0_def set_fs_def)

lemma get_fs_float [simp]: "get_fs (c\<lparr>float_ctx := g\<rparr>) = get_fs c"
  by (simp add: get_fs_def)





definition demo_signal_state :: signal_state where
  "demo_signal_state = \<lparr>ss_inner = \<lparr>signal_mask = 0, pending_signal = ksig_of SIGUSR1\<rparr>,
     ss_context = app_init_context 0 0 0x1000 0x20000, ss_status = ps_normal\<rparr>"


text \<open>
  Signals without a handler.  If nothing unmasked is pending the thread is left alone.  An
  ignored signal is only taken off the pending set.  A signal whose default is to terminate marks
  a running process as exited with 127 plus the user's signal number, one less than the customary
  128 plus the number; if the process was marked before, the kernel panics.
\<close>

theorem check_signal_default:
  assumes "\<forall>s. first_pending (pending_signal (ss_inner st) AND (NOT (signal_mask (ss_inner st)) AND ksig_all)) = Some s
      \<longrightarrow> sa_handler (action h s) = SIG_DFL \<or> sa_handler (action h s) = SIG_IGN"
  shows "check_signal fp writable h st =
     (case first_pending (pending_signal (ss_inner st) AND (NOT (signal_mask (ss_inner st)) AND ksig_all)) of
        None \<Rightarrow> Some (False, st, None)
      | Some s \<Rightarrow>
          let st1 = st\<lparr>ss_inner := (ss_inner st)\<lparr>pending_signal := pending_signal (ss_inner st) AND NOT (ksig_of s)\<rparr>\<rparr> in
          if sa_handler (action h s) = SIG_IGN \<or> default_handler_new s = Ignore then Some (False, st1, None)
          else if default_handler_new s \<in> {Terminate, CoreDump} \<and> ss_status st = ps_normal
          then Some (True, st1\<lparr>ss_status := ps_exited (of_nat (127 + signum s))\<rparr>, None)
          else None)"
proof -
  have k: "of_nat (sig_index s) = (of_nat (signum s) - 1 :: 8 word)" for s
    using signum_range [of s] by (simp add: sig_index_def of_nat_diff)
  have facts: "SIG_DFL \<noteq> SIG_ERR" "SIG_IGN \<noteq> SIG_ERR" "SIG_IGN \<noteq> SIG_DFL"
    by (simp_all add: SIG_DFL_def SIG_ERR_def SIG_IGN_def usize_limit_def)
  show ?thesis
  proof (cases "first_pending (pending_signal (ss_inner st) AND (NOT (signal_mask (ss_inner st)) AND ksig_all))")
    case None
    then show ?thesis by (simp add: check_signal_def Let_def)
  next
    case (Some s)
    then have "sa_handler (action h s) = SIG_DFL \<or> sa_handler (action h s) = SIG_IGN" using assms by blast
    then show ?thesis
      using facts Some
      by (cases "default_handler_new s")
         (auto simp: check_signal_def Let_def exit_process_def k simp del: default_handler_new.simps)
  qed
qed

theorem check_signal_default_witness:
  "check_signal \<lparr>fpu_regs = [], fpu_csr = 0\<rparr> (\<lambda>_. True) handlers_new
     (demo_signal_state\<lparr>ss_inner := \<lparr>signal_mask = 0, pending_signal = ksig_of SIGTERM\<rparr>\<rparr>)
   = Some (True, demo_signal_state\<lparr>ss_inner := \<lparr>signal_mask = 0, pending_signal = 0\<rparr>,
       ss_status := ps_exited 142\<rparr>, None)"
proof -
  let ?st = "demo_signal_state\<lparr>ss_inner := \<lparr>signal_mask = 0, pending_signal = ksig_of SIGTERM\<rparr>\<rparr>"
  have h: "sa_handler (action handlers_new s) = SIG_DFL" for s
    using sig_index_less [of s]
    by (simp add: action_def handlers_new_def SIGSET_SIZE_def action_new_def SIG_DFL_def del: sig_index_less)
  have w: "pending_signal (ss_inner ?st) AND (NOT (signal_mask (ss_inner ?st)) AND ksig_all) = ksig_of SIGTERM"
    by (rule bit_word_eqI) (auto simp: bit_simps)
  have fp: "first_pending (ksig_of SIGTERM) = Some SIGTERM"
    by (simp add: ksig_of_def ksig_all_mask mask_eq_exp_minus_1 sig_index_def first_pending_def
        trailing_zeros_def sig_from_user_iff upt_rec bit_simps)
  have z: "ksig_of SIGTERM AND NOT (ksig_of SIGTERM) = 0" by simp
  have n: "SIG_DFL \<noteq> SIG_IGN" by (simp add: SIG_DFL_def SIG_IGN_def)
  have "\<forall>s. first_pending (pending_signal (ss_inner ?st) AND (NOT (signal_mask (ss_inner ?st)) AND ksig_all)) = Some s
      \<longrightarrow> sa_handler (action handlers_new s) = SIG_DFL \<or> sa_handler (action handlers_new s) = SIG_IGN"
    using h by blast
  from check_signal_default [OF this, of "\<lparr>fpu_regs = [], fpu_csr = 0\<rparr>" "\<lambda>_. True"]
  show ?thesis unfolding w fp by (simp add: h n z Let_def demo_signal_state_def)
qed

section \<open>The mask\<close>

text \<open>
  Changing the signal mask.  A set that is too large, or an unknown way of combining, is an
  error and the mask is kept; a bad pointer is the error of its check.  Otherwise the new mask
  holds exactly the signals it should: those of the old mask or the argument, those of the old
  mask not in the argument, or those of the argument.  The old mask is reported as it was.
\<close>

theorem sigprocmask_correct:
  assumes "signal_mask t AND ksig_all = signal_mask t" "set_size \<le> SIGSET_SIZE_BYTES"
  shows "(\<forall>e. sys_rt_sigprocmask how (Some (Inl e)) (Some (Inr ())) set_size t =
           ((if how < 3 then Inl e else Err EINVAL), t, Some (ksig_to_user (signal_mask t))))
     \<and> (\<forall>e. sys_rt_sigprocmask how new_set (Some (Inl e)) set_size t = (Inl e, t, None))
     \<and> (3 \<le> how \<longrightarrow> fst (sys_rt_sigprocmask how new_set None set_size t) = Err EINVAL
          \<and> fst (snd (sys_rt_sigprocmask how new_set None set_size t)) = t)
     \<and> (how < 3 \<longrightarrow> (\<exists>m. sys_rt_sigprocmask how (Some (Inr b)) (Some (Inr ())) set_size t =
            (Ok 0, t\<lparr>signal_mask := m\<rparr>, Some (ksig_to_user (signal_mask t)))
          \<and> m AND ksig_all = m
          \<and> (\<forall>s. bit m (sig_index s) \<longleftrightarrow>
               (if how = 0 then bit (signal_mask t) (sig_index s) \<or> bit b (signum s)
                else if how = 1 then bit (signal_mask t) (sig_index s) \<and> \<not> bit b (signum s)
                else bit b (signum s)))))"
proof -
  let ?n = "ksig_from_user b"
  define m where "m = (if how = 0 then signal_mask t OR ?n else if how = 1 then signal_mask t AND NOT ?n else ?n)"
  have "how < 3 \<longleftrightarrow> how = 0 \<or> how = 1 \<or> how = 2" by auto
  then have r: "how < 3 \<Longrightarrow> sys_rt_sigprocmask how (Some (Inr b)) (Some (Inr ())) set_size t =
      (Ok 0, t\<lparr>signal_mask := m\<rparr>, Some (ksig_to_user (signal_mask t)))"
    using assms(2) by (auto simp: sys_rt_sigprocmask_def how_from_user_def m_def Let_def)
  have n: "bit ?n (sig_index s) \<longleftrightarrow> bit b (signum s)" for s
    using signum_range [of s] sig_index_less [of s] by (simp add: ksig_from_user_def bit_simps sig_index_def)
  have na: "?n AND ksig_all = ?n" by (simp add: ksig_from_user_def and.assoc)
  have sub: "bit w k \<Longrightarrow> k < 31" if "w AND ksig_all = w" for w k using that by (metis bit_and_iff bit_ksig_all)
  have "m AND ksig_all = m"
    by (rule bit_word_eqI) (auto simp: m_def bit_simps dest: sub [OF na] sub [OF assms(1)] split: if_splits)
  moreover have "bit m (sig_index s) \<longleftrightarrow>
      (if how = 0 then bit (signal_mask t) (sig_index s) \<or> bit b (signum s)
       else if how = 1 then bit (signal_mask t) (sig_index s) \<and> \<not> bit b (signum s) else bit b (signum s))" for s
  proof -
    have "sig_index s < 64" using sig_index_less [of s] by linarith
    then show ?thesis using n [of s] by (simp add: m_def bit_simps)
  qed
  ultimately show ?thesis
    using r assms(2) by (auto simp: sys_rt_sigprocmask_def how_from_user_def Let_def)
qed

theorem sigprocmask_correct_witness:
  "\<exists>m. sys_rt_sigprocmask 0 (Some (Inr 0x200)) (Some (Inr ())) 8 \<lparr>signal_mask = ksig_of SIGHUP, pending_signal = 0\<rparr>
     = (Ok 0, \<lparr>signal_mask = m, pending_signal = 0\<rparr>, Some (ksig_to_user (ksig_of SIGHUP)))
     \<and> bit m (sig_index SIGKILL) \<and> bit m (sig_index SIGHUP) \<and> \<not> bit m (sig_index SIGINT)"
proof -
  let ?t = "\<lparr>signal_mask = ksig_of SIGHUP, pending_signal = 0\<rparr>"
  have ok: "signal_mask ?t AND ksig_all = signal_mask ?t" by (rule bit_word_eqI) (auto simp: bit_simps)
  have sz: "8 \<le> SIGSET_SIZE_BYTES" by (simp add: SIGSET_SIZE_BYTES_def SIGSET_SIZE_def)
  obtain m where m: "sys_rt_sigprocmask 0 (Some (Inr 0x200)) (Some (Inr ())) 8 ?t =
      (Ok 0, ?t\<lparr>signal_mask := m\<rparr>, Some (ksig_to_user (signal_mask ?t)))"
    "\<forall>s. bit m (sig_index s) \<longleftrightarrow> bit (signal_mask ?t) (sig_index s) \<or> bit (0x200 :: 64 word) (signum s)"
    using sigprocmask_correct [OF ok sz, of 0 None "0x200"] by auto
  have "bit m (sig_index SIGKILL)" "bit m (sig_index SIGHUP)" "\<not> bit m (sig_index SIGINT)"
    unfolding m(2) [rule_format] by (simp_all add: sig_index_def)
  then show ?thesis using m(1) by (intro exI [of _ m]) simp
qed

end
