(* ===== verification/Address.thy ===== *)
theory Address
  imports Prelude
begin

text \<open>
  Addresses and page numbers of \<^verbatim>\<open>crates/libkernel/src/memory/address.rs\<close> and the
  translation between physical addresses and the kernel's linear mapping of
  \<^verbatim>\<open>memory/mod.rs\<close>.  The four new types of the source (physical and virtual addresses
  and page numbers) are natural numbers below 2 to the power 64.
\<close>

type_synonym phys_addr = nat
type_synonym virt_addr = nat
type_synonym ppn = nat
type_synonym vpn = nat

section \<open>Physical addresses\<close>

definition pa_floor :: "phys_addr \<Rightarrow> ppn" where
  "pa_floor a = a div PAGE_SIZE"

definition pa_ceil :: "phys_addr \<Rightarrow> ppn" where
  "pa_ceil a = div_ceil a PAGE_SIZE"

definition ppn_page_start :: "ppn \<Rightarrow> phys_addr" where
  "ppn_page_start p = shl64 p PAGE_SIZE_BITS"

section \<open>Virtual addresses\<close>

definition page_offset :: "virt_addr \<Rightarrow> nat" where
  "page_offset a = a AND PAGE_OFFSET_MASK"

definition vpn_floor :: "virt_addr \<Rightarrow> vpn" where
  "vpn_floor a = drop_bit PAGE_SIZE_BITS a"

definition vpn_ceil :: "virt_addr \<Rightarrow> vpn" where
  "vpn_ceil a = div_ceil a PAGE_SIZE"

definition page_start :: "vpn \<Rightarrow> virt_addr" where
  "page_start p = shl64 p PAGE_SIZE_BITS"

definition with_offset :: "vpn \<Rightarrow> nat \<Rightarrow> virt_addr option" where
  "with_offset p off = uadd (page_start p) off"

text \<open>
  The three table indexes of a page number, filled from the last to the first: each
  step of the loop takes the low nine bits and shifts them out.
\<close>

fun indexes_loop :: "nat \<Rightarrow> nat \<Rightarrow> nat list \<Rightarrow> nat list" where
  "indexes_loop 0 v acc = acc"
| "indexes_loop (Suc n) v acc =
     indexes_loop n (drop_bit 9 v) ((v AND (PTE_PER_PAGE - 1)) # acc)"

definition indexes :: "vpn \<Rightarrow> nat list" where
  "indexes v = indexes_loop 3 v []"

text \<open>The iterator over page numbers: \<^verbatim>\<open>Step\<close> for virtual and physical page numbers.\<close>

definition steps_between :: "nat \<Rightarrow> nat \<Rightarrow> nat \<times> nat option" where
  "steps_between s e =
     (let r = usub e s in (case r of None \<Rightarrow> usize_limit - 1 | Some n \<Rightarrow> n, r))"

definition forward_checked :: "nat \<Rightarrow> nat \<Rightarrow> nat option" where
  "forward_checked s n = uadd s n"

definition backward_checked :: "nat \<Rightarrow> nat \<Rightarrow> nat option" where
  "backward_checked s n = usub s n"

section \<open>The linear mapping of the kernel\<close>

definition kernel_va_to_pa :: "virt_addr \<Rightarrow> phys_addr option" where
  "kernel_va_to_pa va = usub va PA_TO_VA"

definition kernel_pa_to_va :: "phys_addr \<Rightarrow> virt_addr option" where
  "kernel_pa_to_va pa = uadd pa PA_TO_VA"

definition kernel_vpn_to_ppn :: "vpn \<Rightarrow> ppn option" where
  "kernel_vpn_to_ppn v = usub v (PA_TO_VA div PAGE_SIZE)"

definition kernel_ppn_to_vpn :: "ppn \<Rightarrow> vpn option" where
  "kernel_ppn_to_vpn p = uadd p (PA_TO_VA div PAGE_SIZE)"

section \<open>Lemmas\<close>

lemma page_offset_mod: "page_offset a = a mod 4096"
  by (simp add: page_offset_def PAGE_OFFSET_MASK_def and_4095_mod)

lemma vpn_floor_div: "vpn_floor a = a div 4096"
  by (simp add: vpn_floor_def PAGE_SIZE_BITS_def drop_bit_eq_div)

lemma page_start_mult: "p < 2 ^ 52 \<Longrightarrow> page_start p = p * 4096"
  by (simp add: page_start_def PAGE_SIZE_BITS_def shl64_def usize_limit_def)

lemma indexes_eq: "indexes v = [v div 262144 mod 512, v div 512 mod 512, v mod 512]"
  by (simp add: indexes_def numeral_3_eq_3 PTE_PER_PAGE_def and_511_mod
      drop_bit_eq_div div_mult2_eq [symmetric])

lemma indexes_bound: "i \<in> set (indexes v) \<Longrightarrow> i < 512"
  by (auto simp: indexes_eq)

text \<open>
  The three nine-bit indexes of a Sv39 virtual page number (27 bits) determine it:
  the page number is rebuilt from them, each is a valid index of a table of 512
  entries, and two page numbers with the same indexes are equal.
\<close>

theorem indexes_roundtrip:
  assumes "v < 2 ^ 27"
  shows "(\<exists>i j k. indexes v = [i, j, k] \<and> i < PTE_PER_PAGE \<and> j < PTE_PER_PAGE \<and> k < PTE_PER_PAGE
            \<and> v = (i * 512 + j) * 512 + k)
         \<and> (\<forall>w < 2 ^ 27. indexes w = indexes v \<longleftrightarrow> w = v)"
proof (intro conjI allI impI)
  have split: "x = (x div 262144 mod 512 * 512 + x div 512 mod 512) * 512 + x mod 512"
    if "x < 2 ^ 27" for x :: nat
  proof -
    have "x div 262144 < 512" using that by (simp add: div_less_iff_less_mult)
    then have "x div 262144 mod 512 = x div 512 div 512"
      by (simp add: div_mult2_eq [symmetric])
    then show ?thesis by simp
  qed
  show "\<exists>i j k. indexes v = [i, j, k] \<and> i < PTE_PER_PAGE \<and> j < PTE_PER_PAGE \<and> k < PTE_PER_PAGE
           \<and> v = (i * 512 + j) * 512 + k"
  proof (intro exI conjI)
    show "indexes v = [v div 262144 mod 512, v div 512 mod 512, v mod 512]" by (rule indexes_eq)
    show "v = (v div 262144 mod 512 * 512 + v div 512 mod 512) * 512 + v mod 512"
      using assms by (rule split)
  qed (simp_all add: PTE_PER_PAGE_def)
  fix w :: nat assume w: "w < 2 ^ 27"
  show "indexes w = indexes v \<longleftrightarrow> w = v"
  proof
    assume "indexes w = indexes v"
    then have "w div 262144 mod 512 = v div 262144 mod 512" "w div 512 mod 512 = v div 512 mod 512"
      "w mod 512 = v mod 512" by (simp_all add: indexes_eq)
    then show "w = v" by (subst split [OF w], subst split [OF assms]) simp
  qed simp
qed

theorem indexes_roundtrip_witness:
  "indexes 134217727 = [511, 511, 511] \<and> indexes 262657 = [1, 1, 1]
   \<and> (\<exists>i j k. indexes 262657 = [i, j, k] \<and> i < PTE_PER_PAGE \<and> j < PTE_PER_PAGE \<and> k < PTE_PER_PAGE
        \<and> (262657::nat) = (i * 512 + j) * 512 + k)
   \<and> (indexes 262656 = indexes 262657 \<longleftrightarrow> (262656::nat) = 262657)"
  using indexes_roundtrip [of 262657] by (simp add: indexes_eq)

text \<open>
  A 64-bit virtual address splits into its page and its offset and is rebuilt from
  them without overflow, the offset stays within the page, and rounding up gives the
  least page boundary that is not below the address.
\<close>

theorem address_page_roundtrip:
  assumes "a < usize_limit"
  shows "with_offset (vpn_floor a) (page_offset a) = Some a
         \<and> page_offset a < PAGE_SIZE
         \<and> (vpn_ceil a \<le> k \<longleftrightarrow> a \<le> k * PAGE_SIZE)"
proof (intro conjI)
  have "a div 4096 < 2 ^ 52"
    using assms by (simp add: usize_limit_def div_less_iff_less_mult)
  then have "page_start (vpn_floor a) + page_offset a = a"
    by (simp add: vpn_floor_div page_start_mult page_offset_mod)
  then show "with_offset (vpn_floor a) (page_offset a) = Some a"
    using assms by (simp add: with_offset_def uadd_def)
  show "page_offset a < PAGE_SIZE"
    by (simp add: page_offset_mod PAGE_SIZE_def)
  show "vpn_ceil a \<le> k \<longleftrightarrow> a \<le> k * PAGE_SIZE"
    by (simp add: vpn_ceil_def div_ceil_le_iff)
qed

theorem address_page_roundtrip_witness:
  "with_offset (vpn_floor 0x12345) (page_offset 0x12345) = Some 0x12345
   \<and> vpn_floor 0x12345 = 0x12 \<and> page_offset 0x12345 = 0x345 \<and> vpn_ceil 0x12345 = 0x13
   \<and> page_offset 0x12345 < PAGE_SIZE
   \<and> (vpn_ceil 0x12345 \<le> 0x12 \<longleftrightarrow> (0x12345::nat) \<le> 0x12 * PAGE_SIZE)"
  using address_page_roundtrip [of "0x12345" "0x12"]
  by (simp add: usize_limit_def vpn_floor_div page_offset_mod vpn_ceil_def div_ceil_def PAGE_SIZE_def)

text \<open>
  The frames of physical memory seen through the linear mapping: the kernel address of
  an offset in a frame translates back to the physical address.
\<close>

lemma kernel_frame_address:
  assumes "p < 2 ^ 20" "off < 4096"
  shows "Option.bind (kernel_ppn_to_vpn p) (\<lambda>v. with_offset v off)
           = Some (PA_TO_VA + (p * 4096 + off))"
    and "kernel_va_to_pa (PA_TO_VA + (p * 4096 + off)) = Some (p * 4096 + off)"
    and "Option.bind (kernel_ppn_to_vpn p) kernel_vpn_to_ppn = Some p"
proof -
  have v: "kernel_ppn_to_vpn p = Some (p + 0xFFFFFFFF00000)"
    using assms(1) by (simp add: kernel_ppn_to_vpn_def uadd_def usize_limit_def PA_TO_VA_def PAGE_SIZE_def)
  have "page_start (p + 0xFFFFFFFF00000) = (p + 0xFFFFFFFF00000) * 4096"
    using assms(1) by (simp add: page_start_mult)
  then show "Option.bind (kernel_ppn_to_vpn p) (\<lambda>v. with_offset v off)
           = Some (PA_TO_VA + (p * 4096 + off))"
    using assms by (simp add: v with_offset_def uadd_def usize_limit_def PA_TO_VA_def)
  show "kernel_va_to_pa (PA_TO_VA + (p * 4096 + off)) = Some (p * 4096 + off)"
    by (simp add: kernel_va_to_pa_def usub_def)
  show "Option.bind (kernel_ppn_to_vpn p) kernel_vpn_to_ppn = Some p"
    by (simp add: v kernel_vpn_to_ppn_def usub_def PA_TO_VA_def PAGE_SIZE_def)
qed

end
