(* ===== verification/Frame.thy ===== *)
theory Frame
  imports Address
begin

text \<open>
  Physical memory and the frame allocator of
  \<^verbatim>\<open>crates/libkernel/src/memory/frame_allocator.rs\<close>.  The buddy allocator is a
  third-party crate: its operations are the fields of a \<open>platform\<close>, its state is the
  type parameter \<open>'fa\<close>, and what the kernel relies on is the hypothesis \<open>buddy_spec\<close>.
  The address of the end of the kernel image comes from the linker and is a field of
  the platform too.  Memory is a byte store over physical addresses; a frame is accessed
  at the physical address behind its kernel virtual address.
\<close>

record 'fa platform =
  ekernel :: virt_addr
  ba_alloc :: "'fa \<Rightarrow> nat \<Rightarrow> (nat \<times> 'fa) option"
  ba_dealloc :: "'fa \<Rightarrow> nat \<Rightarrow> nat \<Rightarrow> 'fa"
  ba_add_frame :: "'fa \<Rightarrow> nat \<Rightarrow> nat \<Rightarrow> 'fa"

type_synonym memory = "nat \<Rightarrow> 8 word"

record 'fa machine =
  mem :: memory
  falloc :: 'fa

section \<open>Bytes and words of memory\<close>

definition rd64 :: "memory \<Rightarrow> nat \<Rightarrow> 64 word" where
  "rd64 m a =
     ucast (m a) OR push_bit 8 (ucast (m (a + 1))) OR push_bit 16 (ucast (m (a + 2)))
     OR push_bit 24 (ucast (m (a + 3))) OR push_bit 32 (ucast (m (a + 4)))
     OR push_bit 40 (ucast (m (a + 5))) OR push_bit 48 (ucast (m (a + 6)))
     OR push_bit 56 (ucast (m (a + 7)))"

definition wr64 :: "nat \<Rightarrow> 64 word \<Rightarrow> memory \<Rightarrow> memory" where
  "wr64 a v m = (\<lambda>x. if a \<le> x \<and> x < a + 8 then ucast (drop_bit (8 * (x - a)) v) else m x)"

definition fill :: "nat \<Rightarrow> nat \<Rightarrow> 8 word \<Rightarrow> memory \<Rightarrow> memory" where
  "fill a n v m = (\<lambda>x. if a \<le> x \<and> x < a + n then v else m x)"

definition rd_bytes :: "memory \<Rightarrow> nat \<Rightarrow> nat \<Rightarrow> 8 word list" where
  "rd_bytes m a n = map m [a..<a + n]"

definition wr_bytes :: "nat \<Rightarrow> 8 word list \<Rightarrow> memory \<Rightarrow> memory" where
  "wr_bytes a bs m = (\<lambda>x. if a \<le> x \<and> x < a + length bs then bs ! (x - a) else m x)"

section \<open>The frame allocator\<close>

definition physical_memory_begin_frame :: "'fa platform \<Rightarrow> ppn option" where
  "physical_memory_begin_frame P = map_option pa_ceil (kernel_va_to_pa (ekernel P))"

text \<open>The result of an allocation is None when the memory is used up.\<close>

definition allocator_alloc :: "'fa platform \<Rightarrow> nat \<Rightarrow> 'fa \<Rightarrow> (ppn option \<times> 'fa) option" where
  "allocator_alloc P num s = do {
     b \<leftarrow> physical_memory_begin_frame P;
     (case ba_alloc P s num of
        None \<Rightarrow> Some (None, s)
      | Some (first, s') \<Rightarrow> do { p \<leftarrow> uadd first b; Some (Some p, s') })
   }"

definition allocator_dealloc :: "'fa platform \<Rightarrow> ppn \<Rightarrow> ppn \<Rightarrow> 'fa \<Rightarrow> 'fa option" where
  "allocator_dealloc P start fin s = do {
     b \<leftarrow> physical_memory_begin_frame P;
     f \<leftarrow> usub start b;
     n \<leftarrow> usub fin start;
     Some (ba_dealloc P s f n)
   }"

definition init_frame_allocator :: "'fa platform \<Rightarrow> 'fa \<Rightarrow> 'fa option" where
  "init_frame_allocator P s = do {
     b \<leftarrow> physical_memory_begin_frame P;
     n \<leftarrow> usub (pa_floor MEMORY_END) b;
     Some (ba_add_frame P s 0 n)
   }"

definition frame_dealloc :: "'fa platform \<Rightarrow> ppn \<Rightarrow> ppn \<Rightarrow> 'fa machine \<Rightarrow> 'fa machine option" where
  "frame_dealloc P start fin M = do {
     s \<leftarrow> allocator_dealloc P start fin (falloc M);
     Some (M\<lparr>falloc := s\<rparr>)
   }"

section \<open>Frames\<close>

text \<open>
  The physical address behind the reference that \<^verbatim>\<open>as_ref_at\<close> and \<^verbatim>\<open>as_mut_at\<close> build for
  an offset of a frame.
\<close>

definition frame_at :: "ppn \<Rightarrow> nat \<Rightarrow> phys_addr option" where
  "frame_at p off = do {
     v \<leftarrow> kernel_ppn_to_vpn p;
     a \<leftarrow> with_offset v off;
     kernel_va_to_pa a
   }"

definition frame_clear :: "ppn \<Rightarrow> 'fa machine \<Rightarrow> 'fa machine option" where
  "frame_clear p M = do {
     a \<leftarrow> frame_at p 0;
     Some (M\<lparr>mem := fill a PAGE_SIZE 0 (mem M)\<rparr>)
   }"

definition frame_copy_from :: "ppn \<Rightarrow> ppn \<Rightarrow> 'fa machine \<Rightarrow> 'fa machine option" where
  "frame_copy_from p src M = do {
     d \<leftarrow> frame_at p 0;
     a \<leftarrow> frame_at src 0;
     Some (M\<lparr>mem := wr_bytes d (rd_bytes (mem M) a PAGE_SIZE) (mem M)\<rparr>)
   }"

definition frame_alloc :: "'fa platform \<Rightarrow> 'fa machine \<Rightarrow> (ppn option \<times> 'fa machine) option" where
  "frame_alloc P M = do {
     (r, s) \<leftarrow> allocator_alloc P 1 (falloc M);
     (case r of
        None \<Rightarrow> Some (None, M\<lparr>falloc := s\<rparr>)
      | Some p \<Rightarrow> do {
          M' \<leftarrow> frame_clear p (M\<lparr>falloc := s\<rparr>);
          Some (Some p, M')
        })
   }"

text \<open>Dropping a frame.\<close>

definition frame_drop :: "'fa platform \<Rightarrow> ppn \<Rightarrow> 'fa machine \<Rightarrow> 'fa machine option" where
  "frame_drop P p M = do {
     e \<leftarrow> uadd p 1;
     frame_dealloc P p e M
   }"

fun frames_drop :: "'fa platform \<Rightarrow> ppn list \<Rightarrow> 'fa machine \<Rightarrow> 'fa machine option" where
  "frames_drop P [] M = Some M"
| "frames_drop P (p # ps) M = do { M' \<leftarrow> frame_drop P p M; frames_drop P ps M' }"

text \<open>\<^verbatim>\<open>Frame::alloc().unwrap()\<close>, the way the page table and the areas allocate.\<close>

definition frame_alloc_unwrap :: "'fa platform \<Rightarrow> 'fa machine \<Rightarrow> (ppn \<times> 'fa machine) option" where
  "frame_alloc_unwrap P M = do {
     (r, M') \<leftarrow> frame_alloc P M;
     p \<leftarrow> r;
     Some (p, M')
   }"

text \<open>Runs of frames for DMA.\<close>

definition continuous_frames_alloc ::
  "'fa platform \<Rightarrow> nat \<Rightarrow> 'fa machine \<Rightarrow> (ppn option \<times> 'fa machine) option" where
  "continuous_frames_alloc P num M = do {
     guard (1 \<le> num);
     (r, s) \<leftarrow> allocator_alloc P num (falloc M);
     (case r of
        None \<Rightarrow> Some (None, M\<lparr>falloc := s\<rparr>)
      | Some p \<Rightarrow> do {
          v \<leftarrow> kernel_ppn_to_vpn p;
          a \<leftarrow> kernel_va_to_pa (page_start v);
          n \<leftarrow> umul num PAGE_SIZE;
          Some (Some p, M\<lparr>falloc := s, mem := fill a n 0 (mem M)\<rparr>)
        })
   }"

definition continuous_frames_drop :: "'fa platform \<Rightarrow> ppn \<Rightarrow> nat \<Rightarrow> 'fa machine \<Rightarrow> 'fa machine option" where
  "continuous_frames_drop P p num M = do {
     e \<leftarrow> uadd p num;
     frame_dealloc P p e M
   }"

section \<open>Lemmas on memory\<close>

lemma wr64_outside: "x < a \<or> a + 8 \<le> x \<Longrightarrow> wr64 a v m x = m x"
  by (auto simp: wr64_def)

lemma rd64_wr64_same: "rd64 (wr64 a v m) a = v"
proof (rule bit_word_eqI)
  fix n assume "n < LENGTH(64)"
  then have "n < 64" by simp
  define q r where "q = n div 8" and "r = n mod 8"
  then have n: "n = 8 * q + r" and r: "r < 8" by simp_all
  then have "q < 8" using \<open>n < 64\<close> by linarith
  then consider "q = 0" | "q = 1" | "q = 2" | "q = 3" | "q = 4" | "q = 5" | "q = 6" | "q = 7"
    by linarith
  then show "bit (rd64 (wr64 a v m) a) n \<longleftrightarrow> bit v n"
    using r by cases (simp_all add: n rd64_def wr64_def bit_simps)
qed

lemma rd64_cong: "(\<And>i. i < 8 \<Longrightarrow> m (a + i) = m' (a + i)) \<Longrightarrow> rd64 m a = rd64 m' a"
proof -
  assume eq: "\<And>i. i < 8 \<Longrightarrow> m (a + i) = m' (a + i)"
  have "m a = m' a" using eq [of 0] by simp
  moreover have "m (a + 1) = m' (a + 1)" by (rule eq) simp
  moreover have "m (a + 2) = m' (a + 2)" by (rule eq) simp
  moreover have "m (a + 3) = m' (a + 3)" by (rule eq) simp
  moreover have "m (a + 4) = m' (a + 4)" by (rule eq) simp
  moreover have "m (a + 5) = m' (a + 5)" by (rule eq) simp
  moreover have "m (a + 6) = m' (a + 6)" by (rule eq) simp
  moreover have "m (a + 7) = m' (a + 7)" by (rule eq) simp
  ultimately show ?thesis by (simp only: rd64_def)
qed

lemma rd64_wr64_other: "a + 8 \<le> b \<or> b + 8 \<le> a \<Longrightarrow> rd64 (wr64 b v m) a = rd64 m a"
  by (rule rd64_cong) (auto simp: wr64_def)

lemma rd64_fill_zero: "b \<le> a \<Longrightarrow> a + 8 \<le> b + n \<Longrightarrow> rd64 (fill b n 0 m) a = 0"
  by (simp add: rd64_def fill_def)

lemma rd64_fill_other: "a + 8 \<le> b \<or> b + n \<le> a \<Longrightarrow> rd64 (fill b n v m) a = rd64 m a"
  by (rule rd64_cong) (auto simp: fill_def)

lemma length_rd_bytes [simp]: "length (rd_bytes m a n) = n"
  by (simp add: rd_bytes_def)

lemma rd_bytes_wr_bytes_same: "rd_bytes (wr_bytes a bs m) a (length bs) = bs"
  by (rule nth_equalityI) (auto simp: rd_bytes_def wr_bytes_def)

lemma rd_bytes_wr_bytes_other:
  "a + n \<le> b \<or> b + length bs \<le> a \<Longrightarrow> rd_bytes (wr_bytes b bs m) a n = rd_bytes m a n"
  by (auto simp: rd_bytes_def wr_bytes_def)

lemma frame_at_eq: "p < 2 ^ 20 \<Longrightarrow> off < 4096 \<Longrightarrow> frame_at p off = Some (p * 4096 + off)"
  using kernel_frame_address [of p off]
  by (cases "kernel_ppn_to_vpn p") (auto simp: frame_at_def)

lemma frame_at_0: "p < 2 ^ 20 \<Longrightarrow> frame_at p 0 = Some (p * 4096)"
  using frame_at_eq [of p 0] by simp

section \<open>What the kernel relies on of the buddy allocator\<close>

text \<open>
  \<open>free\<close> gives the frames the allocator may still hand out.  An allocation takes frames
  that were free and none of them is free afterwards; giving back one frame makes at
  most that frame free again.  The kernel image lies in the linear mapping.
\<close>

definition buddy_spec :: "'fa platform \<Rightarrow> ('fa \<Rightarrow> nat set) \<Rightarrow> bool" where
  "buddy_spec P free \<longleftrightarrow> physical_memory_begin_frame P \<noteq> None
   \<and> (\<forall>s n f s'. ba_alloc P s n = Some (f, s') \<longrightarrow>
        {f..<f + n} \<subseteq> free s \<and> free s' \<subseteq> free s - {f..<f + n})
   \<and> (\<forall>s f. free (ba_dealloc P s f 1) \<subseteq> insert f (free s))"

text \<open>The frames that can still be allocated, as physical page numbers.\<close>

definition avail :: "'fa platform \<Rightarrow> ('fa \<Rightarrow> nat set) \<Rightarrow> 'fa machine \<Rightarrow> ppn set" where
  "avail P free M = (\<lambda>f. f + the (physical_memory_begin_frame P)) ` free (falloc M)"

text \<open>All of them lie in physical memory.\<close>

definition avail_ok :: "'fa platform \<Rightarrow> ('fa \<Rightarrow> nat set) \<Rightarrow> 'fa machine \<Rightarrow> bool" where
  "avail_ok P free M \<longleftrightarrow> avail P free M \<subseteq> {..<MEMORY_END div PAGE_SIZE}"

text \<open>The frames the allocator manages.\<close>

definition frame_in :: "'fa platform \<Rightarrow> ppn \<Rightarrow> bool" where
  "frame_in P p \<longleftrightarrow> the (physical_memory_begin_frame P) \<le> p \<and> p < MEMORY_END div PAGE_SIZE"

lemma frame_in_bound: "frame_in P p \<Longrightarrow> p < 2 ^ 20"
  by (simp add: frame_in_def const_defs)

lemma frame_in_avail: "avail_ok P free M \<Longrightarrow> p \<in> avail P free M \<Longrightarrow> frame_in P p"
  by (auto simp: avail_ok_def avail_def frame_in_def)

lemma avail_mem [simp]: "avail P free (M\<lparr>mem := x\<rparr>) = avail P free M"
  by (simp add: avail_def)

lemma avail_ok_mem [simp]: "avail_ok P free (M\<lparr>mem := x\<rparr>) = avail_ok P free M"
  by (simp add: avail_ok_def)

lemma avail_ok_bound: "avail_ok P free M \<Longrightarrow> p \<in> avail P free M \<Longrightarrow> p < 2 ^ 20"
  by (fastforce simp: avail_ok_def const_defs)

lemma avail_ok_mono: "avail_ok P free M \<Longrightarrow> avail P free M' \<subseteq> avail P free M \<Longrightarrow> avail_ok P free M'"
  by (auto simp: avail_ok_def)

lemma frame_alloc_unwrapD:
  assumes bs: "buddy_spec P free" and ok: "avail_ok P free M"
    and al: "frame_alloc_unwrap P M = Some (p, M')"
  shows "p \<in> avail P free M" "avail P free M' \<subseteq> avail P free M - {p}" "p < 2 ^ 20"
    "mem M' = fill (p * 4096) 4096 0 (mem M)" "avail_ok P free M'"
proof -
  obtain b f s' where b: "physical_memory_begin_frame P = Some b"
    and ba: "ba_alloc P (falloc M) 1 = Some (f, s')" and p: "p = f + b"
    and M': "frame_clear p (M\<lparr>falloc := s'\<rparr>) = Some M'"
    using al by (auto simp: frame_alloc_unwrap_def frame_alloc_def allocator_alloc_def res_simps
        uadd_eq_Some split: option.splits prod.splits)
  have f: "f \<in> free (falloc M)" "free s' \<subseteq> free (falloc M) - {f}"
    using bs ba unfolding buddy_spec_def by fastforce+
  show pin: "p \<in> avail P free M" using f(1) by (auto simp: avail_def b p)
  then show p20: "p < 2 ^ 20" using ok by (rule avail_ok_bound [rotated])
  have "M' = M\<lparr>falloc := s', mem := fill (p * 4096) 4096 0 (mem M)\<rparr>"
    using M' p20 by (auto simp: frame_clear_def frame_at_0 PAGE_SIZE_def)
  then show "mem M' = fill (p * 4096) 4096 0 (mem M)"
    and sub: "avail P free M' \<subseteq> avail P free M - {p}"
    using f(2) by (auto simp: avail_def b p)
  show "avail_ok P free M'" using ok sub by (auto simp: avail_ok_def)
qed

text \<open>The allocator can hand out \<open>n\<close> more frames one by one.\<close>

fun can_alloc :: "'fa platform \<Rightarrow> nat \<Rightarrow> 'fa \<Rightarrow> bool" where
  "can_alloc P 0 s = True"
| "can_alloc P (Suc n) s =
     (case ba_alloc P s 1 of None \<Rightarrow> False | Some (f, s') \<Rightarrow> can_alloc P n s')"

lemma can_alloc_less: "can_alloc P (Suc n) s \<Longrightarrow> can_alloc P n s"
  by (induction n arbitrary: s) (auto split: option.splits)

lemma can_alloc_mono: "can_alloc P n s \<Longrightarrow> m \<le> n \<Longrightarrow> can_alloc P m s"
  by (induction n) (auto simp: le_Suc_eq simp del: can_alloc.simps dest: can_alloc_less)

text \<open>An allocation panics only when the allocator has nothing left.\<close>

lemma frame_alloc_unwrap_total:
  assumes bs: "buddy_spec P free" and ok: "avail_ok P free M"
    and can: "can_alloc P (Suc n) (falloc M)"
  obtains p M' where "frame_alloc_unwrap P M = Some (p, M')" "can_alloc P n (falloc M')"
proof -
  obtain b where b: "physical_memory_begin_frame P = Some b"
    using bs by (auto simp: buddy_spec_def)
  obtain f s' where ba: "ba_alloc P (falloc M) 1 = Some (f, s')" and n: "can_alloc P n s'"
    using can by (auto split: option.splits)
  have "f \<in> free (falloc M)" using bs ba unfolding buddy_spec_def by fastforce
  then have "f + b \<in> avail P free M" by (auto simp: avail_def b)
  then have "f + b < 2 ^ 20" using ok by (rule avail_ok_bound [rotated])
  then have "frame_alloc_unwrap P M
      = Some (f + b, M\<lparr>falloc := s', mem := fill ((f + b) * 4096) PAGE_SIZE 0 (mem M)\<rparr>)"
    by (simp add: frame_alloc_unwrap_def frame_alloc_def allocator_alloc_def b ba [simplified]
        uadd_def usize_limit_def frame_clear_def frame_at_0)
  then show thesis using n that by simp
qed

text \<open>Giving frames back.\<close>

lemma frame_drop_ok:
  assumes bs: "buddy_spec P free" and ok: "avail_ok P free M" and p: "frame_in P p"
  obtains M' where "frame_drop P p M = Some M'" "mem M' = mem M" "avail_ok P free M'"
    "avail P free M' \<subseteq> insert p (avail P free M)"
proof -
  obtain b where b: "physical_memory_begin_frame P = Some b" using bs by (auto simp: buddy_spec_def)
  have pb: "b \<le> p" "p < 0x88000" using p by (auto simp: frame_in_def b const_defs)
  let ?M = "M\<lparr>falloc := ba_dealloc P (falloc M) (p - b) 1\<rparr>"
  have "frame_drop P p M = Some ?M"
    using pb by (simp add: frame_drop_def frame_dealloc_def allocator_dealloc_def b uadd_def usub_def usize_limit_def)
  moreover have av: "avail P free ?M \<subseteq> insert p (avail P free M)"
  proof -
    have "free (ba_dealloc P (falloc M) (p - b) 1) \<subseteq> insert (p - b) (free (falloc M))"
      using bs by (auto simp: buddy_spec_def)
    then show ?thesis using pb(1) by (auto simp: avail_def b dest!: subsetD)
  qed
  moreover have "avail_ok P free ?M" using av ok pb by (auto simp: avail_ok_def const_defs dest!: subsetD)
  ultimately show thesis using that [of ?M] by simp
qed

lemma frames_drop_ok:
  assumes "buddy_spec P free" "avail_ok P free M" "\<forall>p\<in>set ps. frame_in P p"
  shows "\<exists>M'. frames_drop P ps M = Some M' \<and> mem M' = mem M \<and> avail_ok P free M'
     \<and> avail P free M' \<subseteq> set ps \<union> avail P free M"
  using assms(2,3)
proof (induction ps arbitrary: M)
  case (Cons p ps)
  obtain M1 where m1: "frame_drop P p M = Some M1" "mem M1 = mem M" "avail_ok P free M1"
    "avail P free M1 \<subseteq> insert p (avail P free M)"
    using frame_drop_ok [OF assms(1) Cons.prems(1), of p] Cons.prems(2) by auto
  obtain M2 where "frames_drop P ps M1 = Some M2" "mem M2 = mem M1" "avail_ok P free M2"
    "avail P free M2 \<subseteq> set ps \<union> avail P free M1"
    using Cons.IH [OF m1(3)] Cons.prems(2) by auto
  then show ?case using m1 by auto
qed simp

section \<open>A concrete platform\<close>

text \<open>
  A free-list allocator with a kernel image that ends at physical address 0x80400000:
  it satisfies what the kernel relies on, and the examples evaluate on it.
\<close>

definition list_platform :: "nat list platform" where
  "list_platform = \<lparr>
     ekernel = 0xFFFFFFFF80400000,
     ba_alloc = (\<lambda>s n. if n = 1 then (case s of [] \<Rightarrow> None | x # xs \<Rightarrow> Some (x, removeAll x xs)) else None),
     ba_dealloc = (\<lambda>s f n. if n = 1 then f # s else s),
     ba_add_frame = (\<lambda>s a b. s @ [a..<b])\<rparr>"

lemma list_platform_begin: "physical_memory_begin_frame list_platform = Some 0x80400"
  by (simp add: physical_memory_begin_frame_def list_platform_def kernel_va_to_pa_def usub_def
      PA_TO_VA_def pa_ceil_def div_ceil_def PAGE_SIZE_def)

lemma list_platform_alloc [simp]:
  "ba_alloc list_platform [] n = None"
  "ba_alloc list_platform (x # xs) (Suc 0) = Some (x, removeAll x xs)"
  by (simp_all add: list_platform_def)

lemma list_platform_spec: "buddy_spec list_platform set"
proof -
  have "ba_alloc list_platform s n = Some (f, s') \<Longrightarrow> {f..<f + n} \<subseteq> set s \<and> set s' \<subseteq> set s - {f..<f + n}"
    for s n f s'
    by (cases s) (auto simp: list_platform_def split: if_splits)
  moreover have "set (ba_dealloc list_platform s f 1) \<subseteq> insert f (set s)" for s f
    by (auto simp: list_platform_def)
  ultimately show ?thesis by (simp add: buddy_spec_def list_platform_begin)
qed

lemma list_platform_avail: "avail list_platform set M = (\<lambda>f. f + 0x80400) ` set (falloc M)"
  by (simp add: avail_def list_platform_begin)

end
