(* ===== verification/PageTable.thy ===== *)
theory PageTable
  imports Frame
begin

text \<open>
  The Sv39 page table of \<^verbatim>\<open>memory_space/page_table.rs\<close>: page table entries, the walk
  that creates missing tables, mapping and unmapping.  The abstract state is the
  function from virtual page numbers to the frame and flags of their leaf entry, and
  the lemmas show that mapping and unmapping update that function at one page and touch
  no memory but the tables.
\<close>

section \<open>Entries\<close>

type_synonym pte_flags = "16 word"
type_synonym map_permission = "8 word"

definition PTE_V :: pte_flags where "PTE_V = 0x1"
definition PTE_R :: pte_flags where "PTE_R = 0x2"
definition PTE_W :: pte_flags where "PTE_W = 0x4"
definition PTE_X :: pte_flags where "PTE_X = 0x8"
definition PTE_U :: pte_flags where "PTE_U = 0x10"
definition PTE_G :: pte_flags where "PTE_G = 0x20"
definition PTE_A :: pte_flags where "PTE_A = 0x40"
definition PTE_D :: pte_flags where "PTE_D = 0x80"
definition PTE_COW :: pte_flags where "PTE_COW = 0x100"

text \<open>\<^verbatim>\<open>from_bits_truncate\<close> keeps the bits that have a name.\<close>

definition pte_flags_truncate :: "16 word \<Rightarrow> pte_flags" where
  "pte_flags_truncate w = w AND 0x1FF"

definition pte_flags_from :: "map_permission \<Rightarrow> pte_flags" where
  "pte_flags_from mp = pte_flags_truncate (ucast mp)"

definition pte_new :: "ppn \<Rightarrow> pte_flags \<Rightarrow> 64 word" where
  "pte_new p f = push_bit 10 (of_nat p) OR ucast f"

definition pte_empty :: "64 word" where
  "pte_empty = 0"

definition pte_ppn :: "64 word \<Rightarrow> ppn" where
  "pte_ppn w = unat (drop_bit 10 w AND mask 44)"

definition pte_get_flags :: "64 word \<Rightarrow> pte_flags" where
  "pte_get_flags w = pte_flags_truncate (ucast w)"

definition is_valid :: "64 word \<Rightarrow> bool" where
  "is_valid w \<longleftrightarrow> pte_get_flags w AND PTE_V = PTE_V"

section \<open>Tables\<close>

record page_table =
  root_frame :: ppn
  frames :: "ppn list"

definition with_root :: "'fa platform \<Rightarrow> 'fa machine \<Rightarrow> (page_table \<times> 'fa machine) option" where
  "with_root P M = do {
     (f, M) \<leftarrow> frame_alloc_unwrap P M;
     Some (\<lparr>root_frame = f, frames = []\<rparr>, M)
   }"

text \<open>
  \<^verbatim>\<open>clear\<close>: the vector of frames is cut to its first element, dropping the rest in
  order, and the lower half of the root table is zeroed.
\<close>

definition pt_clear :: "'fa platform \<Rightarrow> page_table \<Rightarrow> 'fa machine \<Rightarrow> (page_table \<times> 'fa machine) option" where
  "pt_clear P pt M = do {
     M \<leftarrow> frames_drop P (drop 1 (frames pt)) M;
     a \<leftarrow> frame_at (root_frame pt) 0;
     Some (pt\<lparr>frames := take 1 (frames pt)\<rparr>,
           M\<lparr>mem := fill a (PAGE_SIZE div 2) 0 (mem M)\<rparr>)
   }"

definition pte_slot :: "ppn \<Rightarrow> nat \<Rightarrow> phys_addr option" where
  "pte_slot p line = do {
     a \<leftarrow> frame_at p 0;
     guard (line < PTE_PER_PAGE);
     Some (a + line * 8)
   }"

fun copy_lines :: "ppn \<Rightarrow> ppn \<Rightarrow> nat list \<Rightarrow> 'fa machine \<Rightarrow> 'fa machine option" where
  "copy_lines u_root k_root [] M = Some M"
| "copy_lines u_root k_root (line # ls) M = do {
     u \<leftarrow> pte_slot u_root line;
     k \<leftarrow> pte_slot k_root line;
     copy_lines u_root k_root ls (M\<lparr>mem := wr64 u (rd64 (mem M) k) (mem M)\<rparr>)
   }"

text \<open>\<^verbatim>\<open>map_kernel_areas\<close>, with the root frame of the kernel's own table.\<close>

definition map_kernel_areas :: "ppn \<Rightarrow> page_table \<Rightarrow> 'fa machine \<Rightarrow> 'fa machine option" where
  "map_kernel_areas kernel_root pt M = copy_lines (root_frame pt) kernel_root [508, 510, 511] M"

text \<open>
  The loop of \<^verbatim>\<open>find_pte_create\<close> over the enumerated indexes.  The reference to the
  leaf entry is its address.
\<close>

fun find_pte_loop ::
  "'fa platform \<Rightarrow> nat \<Rightarrow> nat list \<Rightarrow> ppn \<Rightarrow> page_table \<Rightarrow> 'fa machine
     \<Rightarrow> (phys_addr option \<times> page_table \<times> 'fa machine) option" where
  "find_pte_loop P i [] p pt M = Some (None, pt, M)"
| "find_pte_loop P i (idx # idxs) p pt M = do {
     a \<leftarrow> pte_slot p idx;
     if i = 2 then Some (Some a, pt, M)
     else if \<not> is_valid (rd64 (mem M) a) then do {
       (f, M) \<leftarrow> frame_alloc_unwrap P M;
       let M = M\<lparr>mem := wr64 a (pte_new f PTE_V) (mem M)\<rparr>;
       find_pte_loop P (i + 1) idxs (pte_ppn (rd64 (mem M) a)) (pt\<lparr>frames := frames pt @ [f]\<rparr>) M
     } else find_pte_loop P (i + 1) idxs (pte_ppn (rd64 (mem M) a)) pt M
   }"

definition find_pte_create ::
  "'fa platform \<Rightarrow> vpn \<Rightarrow> page_table \<Rightarrow> 'fa machine
     \<Rightarrow> (phys_addr option \<times> page_table \<times> 'fa machine) option" where
  "find_pte_create P v pt M = find_pte_loop P 0 (indexes v) (root_frame pt) pt M"

definition pt_map ::
  "'fa platform \<Rightarrow> vpn \<Rightarrow> ppn \<Rightarrow> pte_flags \<Rightarrow> page_table \<Rightarrow> 'fa machine
     \<Rightarrow> (page_table \<times> 'fa machine) option" where
  "pt_map P v p f pt M = do {
     (r, pt, M) \<leftarrow> find_pte_create P v pt M;
     a \<leftarrow> r;
     guard (\<not> is_valid (rd64 (mem M) a));
     Some (pt, M\<lparr>mem := wr64 a (pte_new p (f OR PTE_V)) (mem M)\<rparr>)
   }"

definition pt_unmap ::
  "'fa platform \<Rightarrow> vpn \<Rightarrow> page_table \<Rightarrow> 'fa machine \<Rightarrow> (page_table \<times> 'fa machine) option" where
  "pt_unmap P v pt M = do {
     (r, pt, M) \<leftarrow> find_pte_create P v pt M;
     a \<leftarrow> r;
     guard (is_valid (rd64 (mem M) a));
     Some (pt, M\<lparr>mem := wr64 a pte_empty (mem M)\<rparr>)
   }"

text \<open>The value of the \<^verbatim>\<open>satp\<close> register: mode 8 is Sv39.\<close>

definition token :: "page_table \<Rightarrow> 64 word" where
  "token pt = push_bit 60 8 OR of_nat (root_frame pt)"

definition activate :: "page_table \<Rightarrow> 64 word \<Rightarrow> 64 word \<times> bool" where
  "activate pt satp = (if token pt \<noteq> satp then (token pt, True) else (satp, False))"

section \<open>Lemmas on entries\<close>

text \<open>The flags a caller can hold: only named bits.\<close>

definition flags_ok :: "pte_flags \<Rightarrow> bool" where
  "flags_ok f \<longleftrightarrow> f AND 0x1FF = f"

lemma mask_9_16: "(0x1FF::16 word) = mask 9"
  by (simp add: mask_eq_exp_minus_1)

lemma flags_ok_bit: "flags_ok f \<Longrightarrow> bit f n \<Longrightarrow> n < 9"
  unfolding flags_ok_def mask_9_16 by (metis bit_and_iff bit_mask_iff)

lemma flags_ok_or: "flags_ok f \<Longrightarrow> flags_ok g \<Longrightarrow> flags_ok (f OR g)"
  by (simp add: flags_ok_def bit.conj_disj_distrib2)

lemma flags_ok_V [simp]: "flags_ok PTE_V"
  by (simp add: flags_ok_def PTE_V_def)

lemma flags_ok_from [simp]: "flags_ok (pte_flags_from mp)"
  by (simp add: flags_ok_def pte_flags_from_def pte_flags_truncate_def)

lemma pte_ppn_new:
  assumes "p < 2 ^ 44" "flags_ok f"
  shows "pte_ppn (pte_new p f) = p"
proof -
  have "drop_bit 10 (pte_new p f) AND mask 44 = (of_nat p :: 64 word)"
  proof (rule bit_word_eqI)
    fix n assume "n < LENGTH(64)"
    have "\<not> bit f (10 + n)" using flags_ok_bit [OF assms(2), of "10 + n"] by auto
    moreover have "bit p n \<Longrightarrow> n < 44"
      using assms(1) by (metis bit_take_bit_iff take_bit_nat_eq_self)
    ultimately show "bit (drop_bit 10 (pte_new p f) AND mask 44) n \<longleftrightarrow> bit (of_nat p :: 64 word) n"
      by (auto simp: pte_new_def bit_simps)
  qed
  then show ?thesis
    using assms(1) by (simp add: pte_ppn_def unat_of_nat take_bit_nat_eq_self unsigned_of_nat)
qed

lemma pte_flags_new:
  assumes "flags_ok f"
  shows "pte_get_flags (pte_new p f) = f"
proof -
  have "ucast (pte_new p f) AND 0x1FF = f"
    unfolding mask_9_16
  proof (rule bit_word_eqI)
    fix n assume "n < LENGTH(16)"
    show "bit ((ucast (pte_new p f) :: 16 word) AND mask 9) n \<longleftrightarrow> bit f n"
      using flags_ok_bit [OF assms, of n] by (auto simp: pte_new_def bit_simps)
  qed
  then show ?thesis by (simp add: pte_get_flags_def pte_flags_truncate_def)
qed

lemma is_valid_new: "flags_ok f \<Longrightarrow> is_valid (pte_new p f) \<longleftrightarrow> f AND PTE_V = PTE_V"
  by (simp add: is_valid_def pte_flags_new)

lemma is_valid_new_V [simp]: "flags_ok f \<Longrightarrow> is_valid (pte_new p (f OR PTE_V))"
  by (simp add: is_valid_new flags_ok_or word_ao_absorbs)

lemma is_valid_new_V' [simp]: "is_valid (pte_new p PTE_V)"
  using is_valid_new [of PTE_V p] by simp

lemma is_valid_0 [simp]: "\<not> is_valid 0"
  by (simp add: is_valid_def pte_get_flags_def pte_flags_truncate_def PTE_V_def)

text \<open>
  A page table entry returns the frame number (44 bits) and the flags it was built
  from, and it is valid exactly when its valid flag is set.
\<close>

theorem pte_roundtrip:
  assumes "p < 2 ^ 44" "flags_ok f"
  shows "pte_ppn (pte_new p f) = p \<and> pte_get_flags (pte_new p f) = f
         \<and> (is_valid (pte_new p f) \<longleftrightarrow> f AND PTE_V = PTE_V)"
  using assms by (simp add: pte_ppn_new pte_flags_new is_valid_new)

theorem pte_roundtrip_witness:
  "pte_ppn (pte_new 0x80200 (PTE_V OR PTE_R OR PTE_U)) = 0x80200
   \<and> pte_get_flags (pte_new 0x80200 (PTE_V OR PTE_R OR PTE_U)) = 0x13
   \<and> is_valid (pte_new 0x80200 (PTE_V OR PTE_R OR PTE_U))"
  using pte_roundtrip [of "0x80200" "PTE_V OR PTE_R OR PTE_U"]
  by (simp add: flags_ok_def PTE_V_def PTE_R_def PTE_U_def)

section \<open>The entries of memory\<close>

text \<open>The view of memory as tables of 512 entries, one table for each frame.\<close>

type_synonym tables = "ppn \<Rightarrow> nat \<Rightarrow> 64 word"

definition ptes :: "memory \<Rightarrow> tables" where
  "ptes m = (\<lambda>p i. if i < 512 then rd64 m (p * 4096 + i * 8) else 0)"

lemma page_disjoint:
  fixes p q i j :: nat
  assumes "p \<noteq> q" "i < 512" "j < 512"
  shows "p * 4096 + i * 8 + 8 \<le> q * 4096 + j * 8 \<or> q * 4096 + j * 8 + 8 \<le> p * 4096 + i * 8"
  using assms by (cases "p < q") linarith+

lemma ptes_wr64:
  assumes "i < 512"
  shows "ptes (wr64 (p * 4096 + i * 8) v m) = (ptes m)(p := (ptes m p)(i := v))"
proof (intro ext)
  fix q j
  show "ptes (wr64 (p * 4096 + i * 8) v m) q j = ((ptes m)(p := (ptes m p)(i := v))) q j"
  proof (cases "q = p \<and> j = i")
    case True
    then show ?thesis using assms by (simp add: ptes_def rd64_wr64_same)
  next
    case False
    show ?thesis
    proof (cases "j < 512")
      case True
      have "q * 4096 + j * 8 + 8 \<le> p * 4096 + i * 8 \<or> p * 4096 + i * 8 + 8 \<le> q * 4096 + j * 8"
        using False page_disjoint [of p q i j] assms True by (cases "p = q") auto
      then show ?thesis using False by (auto simp: ptes_def rd64_wr64_other)
    qed (use False assms in \<open>auto simp: ptes_def\<close>)
  qed
qed

lemma ptes_fill:
  "ptes (fill (f * 4096) 4096 0 m) = (ptes m)(f := (\<lambda>_. 0))"
proof (intro ext)
  fix q j
  show "ptes (fill (f * 4096) 4096 0 m) q j = ((ptes m)(f := (\<lambda>_. 0))) q j"
  proof (cases "q = f")
    case True
    then show ?thesis by (simp add: ptes_def rd64_fill_zero)
  next
    case False
    have "q * 4096 + j * 8 + 8 \<le> f * 4096 \<or> f * 4096 + 4096 \<le> q * 4096 + j * 8" if "j < 512"
      using False that by (cases "q < f") linarith+
    then show ?thesis using False by (simp add: ptes_def rd64_fill_other)
  qed
qed

lemma pte_slot_eq: "p < 2 ^ 20 \<Longrightarrow> i < 512 \<Longrightarrow> pte_slot p i = Some (p * 4096 + i * 8)"
  by (simp add: pte_slot_def frame_at_0 PTE_PER_PAGE_def)

lemma rd64_ptes: "i < 512 \<Longrightarrow> rd64 m (p * 4096 + i * 8) = ptes m p i"
  by (simp add: ptes_def)

section \<open>The walk\<close>

definition walk1 :: "tables \<Rightarrow> ppn \<Rightarrow> nat \<Rightarrow> ppn option" where
  "walk1 e r i = (if is_valid (e r i) then Some (pte_ppn (e r i)) else None)"

definition walk2 :: "tables \<Rightarrow> ppn \<Rightarrow> nat \<Rightarrow> nat \<Rightarrow> ppn option" where
  "walk2 e r i j = Option.bind (walk1 e r i) (\<lambda>p. walk1 e p j)"

definition walk3 :: "tables \<Rightarrow> ppn \<Rightarrow> nat \<Rightarrow> nat \<Rightarrow> nat \<Rightarrow> (ppn \<times> pte_flags) option" where
  "walk3 e r i j k = Option.bind (walk2 e r i j)
     (\<lambda>q. if is_valid (e q k) then Some (pte_ppn (e q k), pte_get_flags (e q k)) else None)"

text \<open>What a page table maps a page to: the frame and flags of the valid leaf entry.\<close>

definition pt_lookup :: "memory \<Rightarrow> page_table \<Rightarrow> vpn \<Rightarrow> (ppn \<times> pte_flags) option" where
  "pt_lookup m pt v =
     walk3 (ptes m) (root_frame pt) (indexes v ! 0) (indexes v ! 1) (indexes v ! 2)"

text \<open>
  The tables below the lower half of the root, which hold the user's mappings, and
  that they form a tree: no table is reached twice.
\<close>

definition user_tables :: "tables \<Rightarrow> ppn \<Rightarrow> ppn set" where
  "user_tables e r = {p. \<exists>i<256. walk1 e r i = Some p} \<union> {q. \<exists>i<256. \<exists>j<512. walk2 e r i j = Some q}"

definition is_tree :: "tables \<Rightarrow> ppn \<Rightarrow> bool" where
  "is_tree e r \<longleftrightarrow> r \<notin> user_tables e r
   \<and> (\<forall>i<256. \<forall>i'<256. \<forall>p. walk1 e r i = Some p \<longrightarrow> walk1 e r i' = Some p \<longrightarrow> i = i')
   \<and> (\<forall>i<256. \<forall>i'<256. \<forall>j<512. \<forall>j'<512. \<forall>q. walk2 e r i j = Some q \<longrightarrow> walk2 e r i' j' = Some q
        \<longrightarrow> i = i' \<and> j = j')
   \<and> (\<forall>i<256. \<forall>i'<256. \<forall>j<512. \<forall>p. walk1 e r i = Some p \<longrightarrow> walk2 e r i' j \<noteq> Some p)"

text \<open>
  The well-formedness of a user page table in a machine: the tables of the tree are among
  the frames it owns, which are distinct frames of the allocator that it cannot hand out.
\<close>

definition pt_ok :: "'fa platform \<Rightarrow> ('fa \<Rightarrow> nat set) \<Rightarrow> page_table \<Rightarrow> 'fa machine \<Rightarrow> bool" where
  "pt_ok P free pt M \<longleftrightarrow>
     is_tree (ptes (mem M)) (root_frame pt)
   \<and> distinct (root_frame pt # frames pt)
   \<and> user_tables (ptes (mem M)) (root_frame pt) \<subseteq> set (frames pt)
   \<and> (\<forall>p\<in>set (root_frame pt # frames pt). frame_in P p \<and> p \<notin> avail P free M)
   \<and> avail_ok P free M"

lemma pt_ok_bound: "pt_ok P free pt M \<Longrightarrow> p \<in> set (root_frame pt # frames pt) \<Longrightarrow> p < 2 ^ 20"
  unfolding pt_ok_def using frame_in_bound by blast

lemma pt_ok_root: "pt_ok P free pt M \<Longrightarrow> root_frame pt < 2 ^ 20"
  by (rule pt_ok_bound) auto

lemma is_treeD:
  assumes "is_tree e r"
  shows "r \<notin> user_tables e r"
    and "\<And>i i' p. i < 256 \<Longrightarrow> i' < 256 \<Longrightarrow> walk1 e r i = Some p \<Longrightarrow> walk1 e r i' = Some p \<Longrightarrow> i = i'"
    and "\<And>i i' j j' q. i < 256 \<Longrightarrow> i' < 256 \<Longrightarrow> j < 512 \<Longrightarrow> j' < 512 \<Longrightarrow>
           walk2 e r i j = Some q \<Longrightarrow> walk2 e r i' j' = Some q \<Longrightarrow> i = i' \<and> j = j'"
    and "\<And>i i' j p. i < 256 \<Longrightarrow> i' < 256 \<Longrightarrow> j < 512 \<Longrightarrow> walk1 e r i = Some p \<Longrightarrow>
           walk2 e r i' j = Some p \<Longrightarrow> False"
  using assms unfolding is_tree_def by blast+

section \<open>How writes change the walk\<close>

lemma user_tables_walk1: "i < 256 \<Longrightarrow> walk1 e r i = Some p \<Longrightarrow> p \<in> user_tables e r"
  by (auto simp: user_tables_def)

lemma user_tables_walk2: "i < 256 \<Longrightarrow> j < 512 \<Longrightarrow> walk2 e r i j = Some q \<Longrightarrow> q \<in> user_tables e r"
  by (auto simp: user_tables_def)

lemma pt_ok_walk:
  assumes "pt_ok P free pt M" "i < 256"
  shows "walk1 (ptes (mem M)) (root_frame pt) i = Some p \<Longrightarrow> p \<in> set (frames pt)"
    "j < 512 \<Longrightarrow> walk2 (ptes (mem M)) (root_frame pt) i j = Some q \<Longrightarrow> q \<in> set (frames pt)"
proof -
  have "user_tables (ptes (mem M)) (root_frame pt) \<subseteq> set (frames pt)" using assms(1) by (simp add: pt_ok_def)
  then show "walk1 (ptes (mem M)) (root_frame pt) i = Some p \<Longrightarrow> p \<in> set (frames pt)"
    "j < 512 \<Longrightarrow> walk2 (ptes (mem M)) (root_frame pt) i j = Some q \<Longrightarrow> q \<in> set (frames pt)"
    using user_tables_walk1 [OF assms(2)] user_tables_walk2 [OF assms(2)] by blast+
qed

lemma walk1_upd: "walk1 (e(t := x)) r i = (if r = t then (if is_valid (x i) then Some (pte_ppn (x i)) else None) else walk1 e r i)"
  by (simp add: walk1_def)

text \<open>A frame outside the tree may change freely.\<close>

lemma walks_outside:
  assumes "t \<noteq> r" "t \<notin> user_tables e r" "i < 256" "j < 512"
  shows "walk1 (e(t := x)) r i = walk1 e r i" "walk2 (e(t := x)) r i j = walk2 e r i j"
    "walk3 (e(t := x)) r i j k = walk3 e r i j k"
proof -
  show w1: "walk1 (e(t := x)) r i = walk1 e r i" using assms(1) by (simp add: walk1_upd)
  show w2: "walk2 (e(t := x)) r i j = walk2 e r i j"
    unfolding walk2_def w1 using user_tables_walk1 [OF assms(3), of e r] assms(2)
    by (cases "walk1 e r i") (auto simp: walk1_upd)
  show "walk3 (e(t := x)) r i j k = walk3 e r i j k"
    unfolding walk3_def w2 using user_tables_walk2 [OF assms(3,4), of e r] assms(2)
    by (cases "walk2 e r i j") auto
qed

lemma tree_cong:
  assumes "\<And>i. i < 256 \<Longrightarrow> walk1 e' r i = walk1 e r i"
    and "\<And>i j. i < 256 \<Longrightarrow> j < 512 \<Longrightarrow> walk2 e' r i j = walk2 e r i j"
  shows "user_tables e' r = user_tables e r" "is_tree e' r \<longleftrightarrow> is_tree e r"
proof -
  show u: "user_tables e' r = user_tables e r"
    by (simp add: user_tables_def assms cong: conj_cong)
  show "is_tree e' r \<longleftrightarrow> is_tree e r"
    unfolding is_tree_def u by (simp add: assms cong: imp_cong)
qed

lemma tree_outside:
  assumes "t \<noteq> r" "t \<notin> user_tables e r"
  shows "user_tables (e(t := x)) r = user_tables e r" "is_tree (e(t := x)) r \<longleftrightarrow> is_tree e r"
  using tree_cong [of "e(t := x)" r e] walks_outside(1) [OF assms, of _ 0] walks_outside(2) [OF assms]
  by auto

text \<open>A new table below the root.\<close>

lemma add_level1:
  assumes tree: "is_tree e r" and i: "i < 256" "\<not> is_valid (e r i)"
    and f: "f \<noteq> r" "f \<notin> user_tables e r" "e f = (\<lambda>_. 0)" "f < 2 ^ 44"
    and e': "e' = e(r := (e r)(i := pte_new f PTE_V))"
  shows "i' < 256 \<Longrightarrow> walk1 e' r i' = (if i' = i then Some f else walk1 e r i')"
    and "i' < 256 \<Longrightarrow> j' < 512 \<Longrightarrow> walk2 e' r i' j' = walk2 e r i' j'"
    and "i' < 256 \<Longrightarrow> j' < 512 \<Longrightarrow> walk3 e' r i' j' k' = walk3 e r i' j' k'"
    and "user_tables e' r = insert f (user_tables e r)" and "is_tree e' r"
proof -
  have ppn: "pte_ppn (pte_new f PTE_V) = f" using f(4) by (simp add: pte_ppn_new)
  have r: "r \<notin> user_tables e r" using is_treeD(1) [OF tree] .
  have none: "walk1 e r i = None" using i by (simp add: walk1_def)
  show w1: "walk1 e' r i' = (if i' = i then Some f else walk1 e r i')" if "i' < 256" for i'
    by (simp add: e' walk1_def ppn)
  show w2: "walk2 e' r i' j' = walk2 e r i' j'" if "i' < 256" "j' < 512" for i' j'
    using w1 [OF that(1)] user_tables_walk1 [OF that(1), of e r] r f none
    by (cases "walk1 e r i'") (auto simp: walk2_def walk1_def e')
  show w3: "walk3 e' r i' j' k' = walk3 e r i' j' k'" if "i' < 256" "j' < 512" for i' j' k'
    using w2 [OF that] user_tables_walk2 [OF that, of e r] r
    by (cases "walk2 e r i' j'") (auto simp: walk3_def e')
  show u: "user_tables e' r = insert f (user_tables e r)"
  proof (rule set_eqI)
    fix x
    have "(\<exists>i'<256. walk1 e' r i' = Some x) \<longleftrightarrow> x = f \<or> (\<exists>i'<256. walk1 e r i' = Some x)"
    proof
      assume "\<exists>i'<256. walk1 e' r i' = Some x"
      then show "x = f \<or> (\<exists>i'<256. walk1 e r i' = Some x)" using w1 by (auto split: if_splits)
    next
      assume "x = f \<or> (\<exists>i'<256. walk1 e r i' = Some x)"
      then show "\<exists>i'<256. walk1 e' r i' = Some x"
      proof
        assume "x = f"
        then show ?thesis using w1 [OF i(1)] i(1) by auto
      next
        assume "\<exists>i'<256. walk1 e r i' = Some x"
        then obtain i' where i': "i' < 256" "walk1 e r i' = Some x" by blast
        then have "walk1 e' r i' = Some x" using w1 [OF i'(1)] none by (cases "i' = i") simp_all
        then show ?thesis using i'(1) by blast
      qed
    qed
    then show "x \<in> user_tables e' r \<longleftrightarrow> x \<in> insert f (user_tables e r)"
      by (simp add: user_tables_def w2 cong: conj_cong)
  qed
  have fresh: "walk1 e r i' \<noteq> Some f" "j < 512 \<Longrightarrow> walk2 e r i' j \<noteq> Some f" if "i' < 256" for i' j
    using that f(2) by (auto simp: user_tables_def)
  show "is_tree e' r"
    unfolding is_tree_def u
  proof (intro conjI allI impI)
    show "r \<notin> insert f (user_tables e r)" using r f by auto
  next
    fix i1 i2 p :: nat assume "i1 < 256" "i2 < 256" "walk1 e' r i1 = Some p" "walk1 e' r i2 = Some p"
    then show "i1 = i2"
      using w1 [of i1] w1 [of i2] fresh(1) [of i1] fresh(1) [of i2] is_treeD(2) [OF tree, of i1 i2 p]
      by (simp split: if_splits)
  next
    fix i1 i2 j1 j2 q :: nat
    assume "i1 < 256" "i2 < 256" "j1 < 512" "j2 < 512" "walk2 e' r i1 j1 = Some q" "walk2 e' r i2 j2 = Some q"
    then show "i1 = i2" "j1 = j2"
      using w2 [of i1 j1] w2 [of i2 j2] is_treeD(3) [OF tree, of i1 i2 j1 j2 q] by simp_all
  next
    fix i1 i2 j p :: nat assume "i1 < 256" "i2 < 256" "j < 512" "walk1 e' r i1 = Some p"
    then show "walk2 e' r i2 j \<noteq> Some p"
      using w1 [of i1] w2 [of i2 j] fresh(2) [of i2 j] is_treeD(4) [OF tree, of i1 i2 j p]
      by (auto split: if_splits)
  qed
qed

text \<open>A new table below a table of the first level.\<close>

lemma add_level2:
  assumes tree: "is_tree e r" and i: "i < 256" "walk1 e r i = Some p"
    and j: "j < 512" "\<not> is_valid (e p j)"
    and f: "f \<noteq> r" "f \<notin> user_tables e r" "e f = (\<lambda>_. 0)" "f < 2 ^ 44"
    and e': "e' = e(p := (e p)(j := pte_new f PTE_V))"
  shows "i' < 256 \<Longrightarrow> walk1 e' r i' = walk1 e r i'"
    and "i' < 256 \<Longrightarrow> j' < 512 \<Longrightarrow> walk2 e' r i' j' = (if i' = i \<and> j' = j then Some f else walk2 e r i' j')"
    and "i' < 256 \<Longrightarrow> j' < 512 \<Longrightarrow> walk3 e' r i' j' k' = walk3 e r i' j' k'"
    and "user_tables e' r = insert f (user_tables e r)" and "is_tree e' r"
proof -
  have ppn: "pte_ppn (pte_new f PTE_V) = f" using f(4) by (simp add: pte_ppn_new)
  have p: "p \<in> user_tables e r" using user_tables_walk1 [OF i] .
  then have pr: "p \<noteq> r" "p \<noteq> f" using is_treeD(1) [OF tree] f by auto
  have none: "walk2 e r i j = None" using i j by (simp add: walk2_def walk1_def)
  have inj1: "i' = i" if "i' < 256" "walk1 e r i' = Some p" for i'
    using is_treeD(2) [OF tree] i that by blast
  have lev: "walk2 e r i' j' \<noteq> Some p" if "i' < 256" "j' < 512" for i' j'
    using is_treeD(4) [OF tree] i that by blast
  show w1: "walk1 e' r i' = walk1 e r i'" if "i' < 256" for i'
    using pr by (simp add: e' walk1_def)
  show w2: "walk2 e' r i' j' = (if i' = i \<and> j' = j then Some f else walk2 e r i' j')"
    if "i' < 256" "j' < 512" for i' j'
    using w1 [OF that(1)] inj1 [OF that(1)] i
    by (cases "walk1 e r i'") (auto simp: walk2_def walk1_def e' ppn)
  show w3: "walk3 e' r i' j' k' = walk3 e r i' j' k'" if "i' < 256" "j' < 512" for i' j' k'
    using w2 [OF that] lev [OF that] none f(3) pr
    by (cases "walk2 e r i' j'") (auto simp: walk3_def e')
  show u: "user_tables e' r = insert f (user_tables e r)"
  proof (rule set_eqI)
    fix x
    have "(\<exists>i'<256. \<exists>j'<512. walk2 e' r i' j' = Some x)
          \<longleftrightarrow> x = f \<or> (\<exists>i'<256. \<exists>j'<512. walk2 e r i' j' = Some x)"
    proof
      assume "\<exists>i'<256. \<exists>j'<512. walk2 e' r i' j' = Some x"
      then show "x = f \<or> (\<exists>i'<256. \<exists>j'<512. walk2 e r i' j' = Some x)" using w2 by (auto split: if_splits)
    next
      assume "x = f \<or> (\<exists>i'<256. \<exists>j'<512. walk2 e r i' j' = Some x)"
      then show "\<exists>i'<256. \<exists>j'<512. walk2 e' r i' j' = Some x"
      proof
        assume "x = f"
        then show ?thesis using w2 [OF i(1) j(1)] i(1) j(1) by auto
      next
        assume "\<exists>i'<256. \<exists>j'<512. walk2 e r i' j' = Some x"
        then obtain i' j' where i': "i' < 256" "j' < 512" "walk2 e r i' j' = Some x" by blast
        then have "walk2 e' r i' j' = Some x"
          using w2 [OF i'(1,2)] none by (cases "i' = i \<and> j' = j") simp_all
        then show ?thesis using i'(1,2) by blast
      qed
    qed
    then show "x \<in> user_tables e' r \<longleftrightarrow> x \<in> insert f (user_tables e r)"
      by (auto simp: user_tables_def w1 cong: conj_cong)
  qed
  have fresh: "walk1 e r i' \<noteq> Some f" "j < 512 \<Longrightarrow> walk2 e r i' j \<noteq> Some f" if "i' < 256" for i' j
    using that f(2) by (auto simp: user_tables_def)
  show "is_tree e' r"
    unfolding is_tree_def u
  proof (intro conjI allI impI)
    show "r \<notin> insert f (user_tables e r)" using is_treeD(1) [OF tree] f by auto
  next
    fix i1 i2 p :: nat assume "i1 < 256" "i2 < 256" "walk1 e' r i1 = Some p" "walk1 e' r i2 = Some p"
    then show "i1 = i2" using w1 [of i1] w1 [of i2] is_treeD(2) [OF tree, of i1 i2 p] by simp
  next
    fix i1 i2 j1 j2 q :: nat
    assume "i1 < 256" "i2 < 256" "j1 < 512" "j2 < 512" "walk2 e' r i1 j1 = Some q" "walk2 e' r i2 j2 = Some q"
    then show "i1 = i2" "j1 = j2"
      using w2 [of i1 j1] w2 [of i2 j2] fresh(2) [of i1 j1] fresh(2) [of i2 j2]
        is_treeD(3) [OF tree, of i1 i2 j1 j2 q] by (simp_all split: if_splits)
  next
    fix i1 i2 j p :: nat assume "i1 < 256" "i2 < 256" "j < 512" "walk1 e' r i1 = Some p"
    then show "walk2 e' r i2 j \<noteq> Some p"
      using w1 [of i1] w2 [of i2 j] fresh(1) [of i1] is_treeD(4) [OF tree, of i1 i2 j p]
      by (auto split: if_splits)
  qed
qed

text \<open>A leaf entry.\<close>

lemma set_leaf:
  assumes tree: "is_tree e r" and q: "i < 256" "j < 512" "walk2 e r i j = Some q"
    and e': "e' = e(q := (e q)(k := w))"
  shows "i' < 256 \<Longrightarrow> walk1 e' r i' = walk1 e r i'"
    and "i' < 256 \<Longrightarrow> j' < 512 \<Longrightarrow> walk2 e' r i' j' = walk2 e r i' j'"
    and "i' < 256 \<Longrightarrow> j' < 512 \<Longrightarrow> walk3 e' r i' j' k' =
           (if i' = i \<and> j' = j \<and> k' = k then
              (if is_valid w then Some (pte_ppn w, pte_get_flags w) else None)
            else walk3 e r i' j' k')"
    and "user_tables e' r = user_tables e r" and "is_tree e' r"
proof -
  have "q \<in> user_tables e r" using user_tables_walk2 [OF q] .
  then have qr: "q \<noteq> r" using is_treeD(1) [OF tree] by auto
  have lev: "walk1 e r i' \<noteq> Some q" if "i' < 256" for i'
    using is_treeD(4) [OF tree] q that by blast
  have inj2: "i' = i \<and> j' = j" if "i' < 256" "j' < 512" "walk2 e r i' j' = Some q" for i' j'
    using is_treeD(3) [OF tree] q that by blast
  show w1: "walk1 e' r i' = walk1 e r i'" if "i' < 256" for i'
    using qr by (simp add: e' walk1_def)
  show w2: "walk2 e' r i' j' = walk2 e r i' j'" if "i' < 256" "j' < 512" for i' j'
    using w1 [OF that(1)] lev [OF that(1)]
    by (cases "walk1 e r i'") (auto simp: walk2_def walk1_def e')
  show "walk3 e' r i' j' k' =
           (if i' = i \<and> j' = j \<and> k' = k then
              (if is_valid w then Some (pte_ppn w, pte_get_flags w) else None)
            else walk3 e r i' j' k')" if "i' < 256" "j' < 512"
    using w2 [OF that] inj2 [OF that] q
    by (cases "walk2 e r i' j'") (auto simp: walk3_def e')
  show "user_tables e' r = user_tables e r" "is_tree e' r"
    using tree_cong [OF w1 w2] tree by auto
qed

section \<open>Correctness of mapping and unmapping\<close>

text \<open>The pages of the user half of the address space.\<close>

definition user_vpn :: "vpn \<Rightarrow> bool" where
  "user_vpn v \<longleftrightarrow> v < 2 ^ 26"

lemma user_vpn_indexes:
  assumes "user_vpn v"
  obtains i j k where "indexes v = [i, j, k]" "i < 256" "j < 512" "k < 512"
proof
  show "indexes v = [v div 262144 mod 512, v div 512 mod 512, v mod 512]" by (rule indexes_eq)
  have "v div 262144 < 256" using assms by (simp add: user_vpn_def div_less_iff_less_mult)
  then show "v div 262144 mod 512 < 256" by simp
qed simp_all

lemma user_vpn_inj:
  assumes "user_vpn v" "user_vpn w" "indexes v = indexes w"
  shows "v = w"
proof -
  have split: "x = (x div 262144 mod 512 * 512 + x div 512 mod 512) * 512 + x mod 512"
    if "x < 2 ^ 26" for x :: nat
  proof -
    have "x div 262144 < 512" using that by (simp add: div_less_iff_less_mult)
    then have "x div 262144 mod 512 = x div 512 div 512" by (simp add: div_mult2_eq [symmetric])
    then show ?thesis by simp
  qed
  from assms(3) have "v div 262144 mod 512 = w div 262144 mod 512"
    "v div 512 mod 512 = w div 512 mod 512" "v mod 512 = w mod 512" by (simp_all add: indexes_eq)
  then show ?thesis
    using split [of v] split [of w] assms(1,2) by (metis user_vpn_def)
qed

text \<open>
  What one step of the walk keeps: the tree and its bookkeeping, every mapping, all
  memory outside the tables, and the frames that can be allocated only shrink.
\<close>

definition pt_ext :: "'fa platform \<Rightarrow> ('fa \<Rightarrow> nat set) \<Rightarrow> page_table \<Rightarrow> 'fa machine \<Rightarrow> page_table \<Rightarrow> 'fa machine \<Rightarrow> bool" where
  "pt_ext P free pt M pt' M' \<longleftrightarrow>
     root_frame pt' = root_frame pt
   \<and> (\<forall>i<256. \<forall>j<512. \<forall>k. walk3 (ptes (mem M')) (root_frame pt) i j k = walk3 (ptes (mem M)) (root_frame pt) i j k)
   \<and> (\<forall>x. x div 4096 \<notin> set (root_frame pt # frames pt') \<longrightarrow> mem M' x = mem M x)
   \<and> set (frames pt) \<subseteq> set (frames pt')
   \<and> set (frames pt') \<subseteq> set (frames pt) \<union> avail P free M
   \<and> avail P free M' \<subseteq> avail P free M"

lemma pt_ext_refl: "pt_ext P free pt M pt M"
  by (auto simp: pt_ext_def)

lemma pt_ext_trans:
  "pt_ext P free pt M pt1 M1 \<Longrightarrow> pt_ext P free pt1 M1 pt2 M2 \<Longrightarrow> pt_ext P free pt M pt2 M2"
proof -
  assume a: "pt_ext P free pt M pt1 M1" and b: "pt_ext P free pt1 M1 pt2 M2"
  have r: "root_frame pt1 = root_frame pt" "root_frame pt2 = root_frame pt"
    using a b by (simp_all add: pt_ext_def)
  have s: "set (frames pt) \<subseteq> set (frames pt1)" "set (frames pt1) \<subseteq> set (frames pt2)"
    using a b by (simp_all add: pt_ext_def)
  have m: "mem M2 x = mem M x" if "x div 4096 \<notin> set (root_frame pt # frames pt2)" for x
    using a b that s(2) r unfolding pt_ext_def by auto
  have av: "avail P free M1 \<subseteq> avail P free M" "avail P free M2 \<subseteq> avail P free M1"
    "set (frames pt1) \<subseteq> set (frames pt) \<union> avail P free M"
    "set (frames pt2) \<subseteq> set (frames pt1) \<union> avail P free M1"
    using a b by (simp_all add: pt_ext_def)
  show ?thesis
    unfolding pt_ext_def
  proof (intro conjI allI impI)
    show "set (frames pt2) \<subseteq> set (frames pt) \<union> avail P free M" using av by blast
    show "avail P free M2 \<subseteq> avail P free M" using av by blast
    show "set (frames pt) \<subseteq> set (frames pt2)" using s by blast
  qed (use a b r m in \<open>simp_all add: pt_ext_def\<close>)
qed

lemma wr64_slot_outside:
  assumes "i < 512" "x div 4096 \<noteq> p"
  shows "wr64 (p * 4096 + i * 8) v m x = m x"
proof (rule wr64_outside)
  show "x < p * 4096 + i * 8 \<or> p * 4096 + i * 8 + 8 \<le> x"
  proof (rule ccontr)
    assume "\<not> ?thesis"
    then have "p * 4096 \<le> x" "x < p * 4096 + 4096" using assms(1) by linarith+
    then have "x div 4096 = p" by (simp add: div_nat_eqI)
    with assms(2) show False ..
  qed
qed

lemma fill_page_outside: "x div 4096 \<noteq> p \<Longrightarrow> fill (p * 4096) 4096 v m x = m x"
  unfolding fill_def by (auto simp: div_nat_eqI)

text \<open>The machine after a missing table was created at a slot.\<close>

lemma create_table_mem:
  assumes "i < 512" "mem M1 = fill (f * 4096) 4096 0 (mem M)" "f \<noteq> t"
  shows "ptes (wr64 (t * 4096 + i * 8) w (mem M1))
           = ((ptes (mem M))(f := (\<lambda>_. 0)))(t := (ptes (mem M) t)(i := w))"
    and "x div 4096 \<noteq> t \<Longrightarrow> x div 4096 \<noteq> f \<Longrightarrow> wr64 (t * 4096 + i * 8) w (mem M1) x = mem M x"
proof -
  show "ptes (wr64 (t * 4096 + i * 8) w (mem M1))
           = ((ptes (mem M))(f := (\<lambda>_. 0)))(t := (ptes (mem M) t)(i := w))"
    using assms(1,3) by (simp add: ptes_wr64 ptes_fill assms(2))
  show "wr64 (t * 4096 + i * 8) w (mem M1) x = mem M x" if "x div 4096 \<noteq> t" "x div 4096 \<noteq> f"
    using that assms(1) by (simp add: assms(2) wr64_slot_outside fill_page_outside)
qed

text \<open>One step of the loop: after it the next table exists.\<close>

definition level_step ::
  "'fa platform \<Rightarrow> ppn \<Rightarrow> nat \<Rightarrow> page_table \<Rightarrow> 'fa machine \<Rightarrow> (ppn \<times> page_table \<times> 'fa machine) option" where
  "level_step P t idx pt M = do {
     a \<leftarrow> pte_slot t idx;
     if \<not> is_valid (rd64 (mem M) a) then do {
       (f, M) \<leftarrow> frame_alloc_unwrap P M;
       let M = M\<lparr>mem := wr64 a (pte_new f PTE_V) (mem M)\<rparr>;
       Some (pte_ppn (rd64 (mem M) a), pt\<lparr>frames := frames pt @ [f]\<rparr>, M)
     } else Some (pte_ppn (rd64 (mem M) a), pt, M)
   }"

lemma find_pte_loop_step:
  "i \<noteq> 2 \<Longrightarrow> find_pte_loop P i (idx # idxs) t pt M = do {
     (p, pt, M) \<leftarrow> level_step P t idx pt M;
     find_pte_loop P (i + 1) idxs p pt M
   }"
proof (cases "pte_slot t idx")
  case (Some a)
  assume "i \<noteq> 2"
  then show ?thesis
    by (cases "frame_alloc_unwrap P M") (auto simp: level_step_def Some Let_def)
qed (simp add: level_step_def)

lemma find_pte_create_levels:
  assumes "indexes v = [i, j, k]"
  shows "find_pte_create P v pt M = do {
     (p, pt, M) \<leftarrow> level_step P (root_frame pt) i pt M;
     (q, pt, M) \<leftarrow> level_step P p j pt M;
     a \<leftarrow> pte_slot q k;
     Some (Some a, pt, M)
   }"
  by (simp add: find_pte_create_def assms find_pte_loop_step del: find_pte_loop.simps)
     (simp add: numeral_2_eq_2)

lemma level_step_SomeD:
  assumes ls: "level_step P t idx pt M = Some (q, pt', M')" and t: "t < 2 ^ 20" "idx < 512"
  shows "is_valid (ptes (mem M) t idx) \<and> q = pte_ppn (ptes (mem M) t idx) \<and> pt' = pt \<and> M' = M
   \<or> (\<exists>f M1. \<not> is_valid (ptes (mem M) t idx) \<and> frame_alloc_unwrap P M = Some (f, M1)
      \<and> q = pte_ppn (pte_new f PTE_V) \<and> pt' = pt\<lparr>frames := frames pt @ [f]\<rparr>
      \<and> M' = M1\<lparr>mem := wr64 (t * 4096 + idx * 8) (pte_new f PTE_V) (mem M1)\<rparr>)"
proof (cases "is_valid (ptes (mem M) t idx)")
  case True
  then show ?thesis
    using ls t by (auto simp: level_step_def pte_slot_eq rd64_ptes)
next
  case False
  show ?thesis
  proof (cases "frame_alloc_unwrap P M")
    case None
    then show ?thesis using ls t False by (simp add: level_step_def pte_slot_eq rd64_ptes)
  next
    case (Some x)
    obtain f M1 where x: "x = (f, M1)" by (cases x)
    show ?thesis using ls t False Some
      by (auto simp: x level_step_def pte_slot_eq rd64_ptes Let_def ptes_wr64)
  qed
qed
text \<open>The bookkeeping of a new table.\<close>

lemma create_ok:
  assumes bs: "buddy_spec P free" and ok: "pt_ok P free pt M"
    and al: "frame_alloc_unwrap P M = Some (f, M1)"
    and t: "t \<in> set (root_frame pt # frames pt)" "idx < 512"
    and M': "M' = M1\<lparr>mem := wr64 (t * 4096 + idx * 8) w (mem M1)\<rparr>"
    and pt': "pt' = pt\<lparr>frames := frames pt @ [f]\<rparr>"
    and tree: "is_tree (ptes (mem M')) (root_frame pt)"
    and ut: "user_tables (ptes (mem M')) (root_frame pt) = insert f (user_tables (ptes (mem M)) (root_frame pt))"
    and w3: "\<And>i j k. i < 256 \<Longrightarrow> j < 512 \<Longrightarrow>
      walk3 (ptes (mem M')) (root_frame pt) i j k = walk3 (ptes (mem M)) (root_frame pt) i j k"
  shows "pt_ok P free pt' M'" "pt_ext P free pt M pt' M'"
proof -
  have aok: "avail_ok P free M" using ok by (simp add: pt_ok_def)
  note fa = frame_alloc_unwrapD [OF bs aok al]
  have old: "frame_in P p" "p \<notin> avail P free M" if "p \<in> set (root_frame pt # frames pt)" for p
    using ok that by (auto simp: pt_ok_def)
  then have new: "f \<notin> set (root_frame pt # frames pt)" using fa(1) by blast
  have av: "avail P free M' \<subseteq> avail P free M - {f}" using fa(2) by (simp add: M')
  have mm: "mem M' x = mem M x" if "x div 4096 \<notin> set (root_frame pt # frames pt')" for x
  proof -
    have "x div 4096 \<noteq> t" "x div 4096 \<noteq> f" using that t(1) by (auto simp: pt')
    moreover have "f \<noteq> t" using t(1) new by auto
    ultimately show ?thesis using create_table_mem(2) [OF t(2) fa(4)] by (simp add: M')
  qed
  have "\<forall>p\<in>set (root_frame pt' # frames pt'). frame_in P p \<and> p \<notin> avail P free M'"
  proof
    fix p assume "p \<in> set (root_frame pt' # frames pt')"
    then consider "p = f" | "p \<in> set (root_frame pt # frames pt)" by (auto simp: pt')
    then show "frame_in P p \<and> p \<notin> avail P free M'"
      using frame_in_avail [OF aok fa(1)] av old by cases blast+
  qed
  moreover have "distinct (root_frame pt' # frames pt')" using ok new by (auto simp: pt_ok_def pt')
  moreover have "user_tables (ptes (mem M')) (root_frame pt') \<subseteq> set (frames pt')"
    using ok by (auto simp: pt_ok_def pt' ut)
  moreover have "avail_ok P free M'" using fa(5) by (simp add: M')
  moreover have "is_tree (ptes (mem M')) (root_frame pt')" using tree by (simp add: pt')
  ultimately show "pt_ok P free pt' M'" unfolding pt_ok_def by blast
  show "pt_ext P free pt M pt' M'"
    unfolding pt_ext_def
  proof (intro conjI allI impI)
    show "mem M' x = mem M x" if "x div 4096 \<notin> set (root_frame pt # frames pt')" for x
      using that by (rule mm)
    show "set (frames pt') \<subseteq> set (frames pt) \<union> avail P free M" using fa(1) by (auto simp: pt')
    show "avail P free M' \<subseteq> avail P free M" using av by blast
  qed (use w3 in \<open>auto simp: pt'\<close>)
qed

lemma level1_step:
  assumes bs: "buddy_spec P free" and ok: "pt_ok P free pt M" and i: "i < 256"
    and ls: "level_step P (root_frame pt) i pt M = Some (q, pt', M')"
  shows "pt_ok P free pt' M'" "pt_ext P free pt M pt' M'"
    "walk1 (ptes (mem M')) (root_frame pt) i = Some q"
proof -
  let ?r = "root_frame pt" and ?e = "ptes (mem M)"
  have r: "?r < 2 ^ 20" and tree: "is_tree ?e ?r" and aok: "avail_ok P free M"
    using ok pt_ok_root [OF ok] by (auto simp: pt_ok_def)
  have i5: "i < 512" using i by simp
  have "pt_ok P free pt' M' \<and> pt_ext P free pt M pt' M' \<and> walk1 (ptes (mem M')) ?r i = Some q"
    using level_step_SomeD [OF ls r i5]
  proof (elim disjE exE conjE)
    assume old: "is_valid (ptes (mem M) ?r i)" "q = pte_ppn (ptes (mem M) ?r i)" "pt' = pt" "M' = M"
    show ?thesis using ok old by (simp add: pt_ext_refl walk1_def)
  next
    fix f M1
    assume new: "\<not> is_valid (ptes (mem M) ?r i)" "frame_alloc_unwrap P M = Some (f, M1)"
      and f: "q = pte_ppn (pte_new f PTE_V)" and pt0: "pt' = pt\<lparr>frames := frames pt @ [f]\<rparr>"
      and M0: "M' = M1\<lparr>mem := wr64 (?r * 4096 + i * 8) (pte_new f PTE_V) (mem M1)\<rparr>"
    note fa = frame_alloc_unwrapD [OF bs aok new(2)]
    have f44: "f < 2 ^ 44" using fa(3) by simp
    then have qf: "q = f" using f by (simp add: pte_ppn_new)
    have q: "f \<noteq> ?r" "f \<notin> user_tables ?e ?r"
      using ok fa(1) by (auto simp: pt_ok_def)
    let ?ez = "?e(f := (\<lambda>_. 0))"
    have e': "ptes (mem M') = ?ez(?r := (?ez ?r)(i := pte_new f PTE_V))"
      using create_table_mem(1) [OF i5 fa(4), of ?r] q by (simp add: M0)
    have t0: "is_tree ?ez ?r" "user_tables ?ez ?r = user_tables ?e ?r"
      using tree_outside [OF q] tree by simp_all
    have nv: "\<not> is_valid (?ez ?r i)" using new(1) q by simp
    have q0: "f \<notin> user_tables ?ez ?r" unfolding t0(2) by (rule q(2))
    note lev = add_level1 [OF t0(1) i nv q(1) q0 _ f44 e']
    have tr: "is_tree (ptes (mem M')) ?r" using lev(5) by simp
    have ut: "user_tables (ptes (mem M')) ?r = insert f (user_tables ?e ?r)"
      using lev(4) unfolding t0(2) by simp
    have w3: "walk3 (ptes (mem M')) ?r a b c = walk3 ?e ?r a b c" if "a < 256" "b < 512" for a b c
      using lev(3) [OF _ that] walks_outside(3) [OF q that] by simp
    have "root_frame pt \<in> set (root_frame pt # frames pt)" by simp
    note cr = create_ok [OF bs ok new(2) this i5 M0 pt0 tr ut w3]
    show ?thesis using lev(1) [OF _ i] cr by (simp add: qf)
  qed
  then show "pt_ok P free pt' M'" "pt_ext P free pt M pt' M'" "walk1 (ptes (mem M')) ?r i = Some q"
    by auto
qed

lemma level2_step:
  assumes bs: "buddy_spec P free" and ok: "pt_ok P free pt M" and ij: "i < 256" "j < 512"
    and p: "walk1 (ptes (mem M)) (root_frame pt) i = Some p"
    and ls: "level_step P p j pt M = Some (q, pt', M')"
  shows "pt_ok P free pt' M'" "pt_ext P free pt M pt' M'"
    "walk2 (ptes (mem M')) (root_frame pt) i j = Some q"
proof -
  let ?r = "root_frame pt" and ?e = "ptes (mem M)"
  have tree: "is_tree ?e ?r" and aok: "avail_ok P free M"
    using ok by (auto simp: pt_ok_def)
  have pin: "p \<in> set (frames pt)" using pt_ok_walk(1) [OF ok ij(1) p] .
  then have p20: "p < 2 ^ 20" using pt_ok_bound [OF ok, of p] by simp
  have "pt_ok P free pt' M' \<and> pt_ext P free pt M pt' M' \<and> walk2 (ptes (mem M')) ?r i j = Some q"
    using level_step_SomeD [OF ls p20 ij(2)]
  proof (elim disjE exE conjE)
    assume old: "is_valid (ptes (mem M) p j)" "q = pte_ppn (ptes (mem M) p j)" "pt' = pt" "M' = M"
    have "walk2 ?e ?r i j = Some q" using old(1,2) by (simp add: walk2_def p walk1_def [of _ p])
    then show ?thesis using ok old(3,4) by (simp add: pt_ext_refl)
  next
    fix f M1
    assume new: "\<not> is_valid (ptes (mem M) p j)" "frame_alloc_unwrap P M = Some (f, M1)"
      and f: "q = pte_ppn (pte_new f PTE_V)" and pt0: "pt' = pt\<lparr>frames := frames pt @ [f]\<rparr>"
      and M0: "M' = M1\<lparr>mem := wr64 (p * 4096 + j * 8) (pte_new f PTE_V) (mem M1)\<rparr>"
    note fa = frame_alloc_unwrapD [OF bs aok new(2)]
    have f44: "f < 2 ^ 44" using fa(3) by simp
    then have qf: "q = f" using f by (simp add: pte_ppn_new)
    have q: "f \<noteq> ?r" "f \<notin> user_tables ?e ?r"
      using ok fa(1) by (auto simp: pt_ok_def)
    have qp: "f \<noteq> p" using pin ok fa(1) by (auto simp: pt_ok_def)
    let ?ez = "?e(f := (\<lambda>_. 0))"
    have e': "ptes (mem M') = ?ez(p := (?ez p)(j := pte_new f PTE_V))"
      using create_table_mem(1) [OF ij(2) fa(4), of p] qp by (simp add: M0)
    have t0: "is_tree ?ez ?r" "user_tables ?ez ?r = user_tables ?e ?r"
      using tree_outside [OF q] tree by simp_all
    have p0: "walk1 ?ez ?r i = Some p" using walks_outside(1) [OF q ij] p by simp
    have nv: "\<not> is_valid (?ez p j)" using new(1) qp by simp
    have q0: "f \<notin> user_tables ?ez ?r" unfolding t0(2) by (rule q(2))
    note lev = add_level2 [OF t0(1) ij(1) p0 ij(2) nv q(1) q0 _ f44 e']
    have tr: "is_tree (ptes (mem M')) ?r" using lev(5) by simp
    have ut: "user_tables (ptes (mem M')) ?r = insert f (user_tables ?e ?r)"
      using lev(4) unfolding t0(2) by simp
    have w3: "walk3 (ptes (mem M')) ?r a b c = walk3 ?e ?r a b c" if "a < 256" "b < 512" for a b c
      using lev(3) [OF _ that] walks_outside(3) [OF q that] by simp
    have "p \<in> set (root_frame pt # frames pt)" using pin by simp
    note cr = create_ok [OF bs ok new(2) this ij(2) M0 pt0 tr ut w3]
    show ?thesis using lev(2) [OF _ ij] cr by (simp add: qf)
  qed
  then show "pt_ok P free pt' M'" "pt_ext P free pt M pt' M'" "walk2 (ptes (mem M')) ?r i j = Some q"
    by auto
qed

lemma find_pte_createD:
  assumes bs: "buddy_spec P free" and ok: "pt_ok P free pt M"
    and ix: "indexes v = [i, j, k]" "i < 256" "j < 512" "k < 512"
    and fp: "find_pte_create P v pt M = Some (r, pt', M')"
  obtains q where "r = Some (q * 4096 + k * 8)" "walk2 (ptes (mem M')) (root_frame pt) i j = Some q"
    "pt_ok P free pt' M'" "pt_ext P free pt M pt' M'"
proof -
  obtain p pt1 M1 where l1: "level_step P (root_frame pt) i pt M = Some (p, pt1, M1)"
    using fp by (auto simp: find_pte_create_levels [OF ix(1)] bind_eq_Some_conv)
  obtain q where l2: "level_step P p j pt1 M1 = Some (q, pt', M')" and r: "\<exists>a. pte_slot q k = Some a \<and> r = Some a"
    using fp by (auto simp: find_pte_create_levels [OF ix(1)] bind_eq_Some_conv l1)
  note s1 = level1_step [OF bs ok ix(2) l1]
  have root: "root_frame pt1 = root_frame pt" using s1(2) by (simp add: pt_ext_def)
  have "walk1 (ptes (mem M1)) (root_frame pt1) i = Some p" using s1(3) root by simp
  note s2 = level2_step [OF bs s1(1) ix(2,3) this l2]
  have root': "root_frame pt' = root_frame pt" using s2(2) root by (simp add: pt_ext_def)
  have w: "walk2 (ptes (mem M')) (root_frame pt) i j = Some q" using s2(3) root by simp
  have "q \<in> set (frames pt')" using pt_ok_walk(2) [OF s2(1) ix(2,3)] w root' by simp
  then have "q < 2 ^ 20" using pt_ok_bound [OF s2(1), of q] by simp
  then have "r = Some (q * 4096 + k * 8)" using r ix(4) by (simp add: pte_slot_eq)
  then show thesis using that w s2(1) pt_ext_trans [OF s1(2) s2(2)] by blast
qed

text \<open>Writing a leaf entry.\<close>

lemma leaf_ok:
  assumes ok: "pt_ok P free pt M" and ix: "i < 256" "j < 512" "k < 512"
    and q: "walk2 (ptes (mem M)) (root_frame pt) i j = Some q"
    and M': "M' = M\<lparr>mem := wr64 (q * 4096 + k * 8) w (mem M)\<rparr>"
  shows "pt_ok P free pt M'"
    and "i' < 256 \<Longrightarrow> j' < 512 \<Longrightarrow> walk3 (ptes (mem M')) (root_frame pt) i' j' k' =
           (if i' = i \<and> j' = j \<and> k' = k then
              (if is_valid w then Some (pte_ppn w, pte_get_flags w) else None)
            else walk3 (ptes (mem M)) (root_frame pt) i' j' k')"
    and "x div 4096 \<notin> set (root_frame pt # frames pt) \<Longrightarrow> mem M' x = mem M x"
proof -
  have tree: "is_tree (ptes (mem M)) (root_frame pt)" using ok by (simp add: pt_ok_def)
  have e: "ptes (mem M') = (ptes (mem M))(q := (ptes (mem M) q)(k := w))"
    using ix(3) by (simp add: M' ptes_wr64)
  note lf = set_leaf [OF tree ix(1,2) q e]
  have "avail P free M' = avail P free M" "avail_ok P free M' = avail_ok P free M"
    by (simp_all add: M')
  then show "pt_ok P free pt M'" using ok lf(4,5) unfolding pt_ok_def by auto
  show "walk3 (ptes (mem M')) (root_frame pt) i' j' k' =
           (if i' = i \<and> j' = j \<and> k' = k then
              (if is_valid w then Some (pte_ppn w, pte_get_flags w) else None)
            else walk3 (ptes (mem M)) (root_frame pt) i' j' k')" if "i' < 256" "j' < 512"
    using that by (rule lf(3))
  have "q \<in> set (frames pt)" using pt_ok_walk(2) [OF ok ix(1,2) q] .
  then show "mem M' x = mem M x" if "x div 4096 \<notin> set (root_frame pt # frames pt)"
    using that ix(3) by (auto simp: M' intro: wr64_slot_outside)
qed

lemma pt_lookup_walk: "indexes v = [i, j, k] \<Longrightarrow> pt_lookup m pt v = walk3 (ptes m) (root_frame pt) i j k"
  by (simp add: pt_lookup_def)

text \<open>
  The effect of an operation on a page table, seen from its users: the well-formedness
  is kept, one page changes, memory outside the tables is untouched, and new tables
  come from the frames that were available.
\<close>

definition pt_step ::
  "'fa platform \<Rightarrow> ('fa \<Rightarrow> nat set) \<Rightarrow> vpn \<Rightarrow> (ppn \<times> pte_flags) option
     \<Rightarrow> page_table \<Rightarrow> 'fa machine \<Rightarrow> page_table \<Rightarrow> 'fa machine \<Rightarrow> bool" where
  "pt_step P free v x pt M pt' M' \<longleftrightarrow>
     pt_ok P free pt' M' \<and> root_frame pt' = root_frame pt
   \<and> (\<forall>w. user_vpn w \<longrightarrow> pt_lookup (mem M') pt' w = (if w = v then x else pt_lookup (mem M) pt w))
   \<and> (\<forall>a. a div 4096 \<notin> set (root_frame pt # frames pt') \<longrightarrow> mem M' a = mem M a)
   \<and> set (frames pt) \<subseteq> set (frames pt') \<and> set (frames pt') \<subseteq> set (frames pt) \<union> avail P free M
   \<and> avail P free M' \<subseteq> avail P free M"

lemma leaf_step:
  assumes bs: "buddy_spec P free" and ok: "pt_ok P free pt M" and v: "user_vpn v"
    and fp: "find_pte_create P v pt M = Some (r, pt', M1)" and a: "r = Some a"
    and M': "M' = M1\<lparr>mem := wr64 a w (mem M1)\<rparr>"
  shows "is_valid (rd64 (mem M1) a) \<longleftrightarrow> pt_lookup (mem M) pt v \<noteq> None"
    and "pt_step P free v (if is_valid w then Some (pte_ppn w, pte_get_flags w) else None) pt M pt' M'"
proof -
  obtain i j k where ix: "indexes v = [i, j, k]" "i < 256" "j < 512" "k < 512"
    using user_vpn_indexes [OF v] .
  obtain q where r: "r = Some (q * 4096 + k * 8)" and q: "walk2 (ptes (mem M1)) (root_frame pt) i j = Some q"
    and ok': "pt_ok P free pt' M1" and ext: "pt_ext P free pt M pt' M1"
    using find_pte_createD [OF bs ok ix fp] .
  have a': "a = q * 4096 + k * 8" using a r by simp
  have root: "root_frame pt' = root_frame pt" using ext by (simp add: pt_ext_def)
  have w3: "walk3 (ptes (mem M1)) (root_frame pt) i' j' k' = walk3 (ptes (mem M)) (root_frame pt) i' j' k'"
    if "i' < 256" "j' < 512" for i' j' k' using ext that by (simp add: pt_ext_def)
  have "pt_lookup (mem M) pt v = walk3 (ptes (mem M1)) (root_frame pt) i j k"
    by (simp add: pt_lookup_walk [OF ix(1)] w3 [OF ix(2,3)])
  then show "is_valid (rd64 (mem M1) a) \<longleftrightarrow> pt_lookup (mem M) pt v \<noteq> None"
    using ix(4) q by (simp add: a' rd64_ptes walk3_def)
  have q': "walk2 (ptes (mem M1)) (root_frame pt') i j = Some q" using q root by simp
  note lf = leaf_ok [OF ok' ix(2-4) q' M' [unfolded a']]
  have lk: "pt_lookup (mem M') pt' u = (if u = v then (if is_valid w then Some (pte_ppn w, pte_get_flags w) else None)
      else pt_lookup (mem M) pt u)" if u: "user_vpn u" for u
  proof -
    obtain i' j' k' where iu: "indexes u = [i', j', k']" "i' < 256" "j' < 512" "k' < 512"
      using user_vpn_indexes [OF u] .
    have "u = v \<longleftrightarrow> i' = i \<and> j' = j \<and> k' = k"
      using user_vpn_inj [OF u v] iu(1) ix(1) by auto
    then show ?thesis
      using lf(2) [OF iu(2,3), of k'] w3 [OF iu(2,3), of k']
      by (simp add: pt_lookup_walk [OF iu(1)] root)
  qed
  have "avail P free M' = avail P free M1" by (simp add: M')
  then show "pt_step P free v (if is_valid w then Some (pte_ppn w, pte_get_flags w) else None) pt M pt' M'"
    unfolding pt_step_def using lf(1,3) lk ext root by (simp add: pt_ext_def)
qed

lemma pt_map_Some:
  assumes bs: "buddy_spec P free" and ok: "pt_ok P free pt M" and v: "user_vpn v"
    and p: "p < 2 ^ 44" and f: "flags_ok f" and map: "pt_map P v p f pt M = Some (pt', M')"
  shows "pt_lookup (mem M) pt v = None" "pt_step P free v (Some (p, f OR PTE_V)) pt M pt' M'"
proof -
  obtain a M1 where fp: "find_pte_create P v pt M = Some (Some a, pt', M1)"
    and nv: "\<not> is_valid (rd64 (mem M1) a)"
    and M': "M' = M1\<lparr>mem := wr64 a (pte_new p (f OR PTE_V)) (mem M1)\<rparr>"
    using map by (auto simp: pt_map_def bind_eq_Some_conv split: if_splits)
  note ls = leaf_step [OF bs ok v fp refl M']
  have fl: "flags_ok (f OR PTE_V)" using f by (simp add: flags_ok_or)
  show "pt_lookup (mem M) pt v = None" using ls(1) nv by blast
  show "pt_step P free v (Some (p, f OR PTE_V)) pt M pt' M'"
    using ls(2) f p fl by (simp add: pte_ppn_new pte_flags_new)
qed

lemma pt_unmap_Some:
  assumes bs: "buddy_spec P free" and ok: "pt_ok P free pt M" and v: "user_vpn v"
    and unmap: "pt_unmap P v pt M = Some (pt', M')"
  shows "pt_lookup (mem M) pt v \<noteq> None" "pt_step P free v None pt M pt' M'"
proof -
  obtain a M1 where fp: "find_pte_create P v pt M = Some (Some a, pt', M1)"
    and nv: "is_valid (rd64 (mem M1) a)"
    and M': "M' = M1\<lparr>mem := wr64 a pte_empty (mem M1)\<rparr>"
    using unmap by (auto simp: pt_unmap_def bind_eq_Some_conv split: if_splits)
  note ls = leaf_step [OF bs ok v fp refl M']
  show "pt_lookup (mem M) pt v \<noteq> None" using ls(1) nv by blast
  show "pt_step P free v None pt M pt' M'" using ls(2) by (simp add: pte_empty_def)
qed

text \<open>The walk returns when two more frames can be had.\<close>

lemma level_step_total:
  assumes bs: "buddy_spec P free" and aok: "avail_ok P free M" and t: "t < 2 ^ 20" "idx < 512"
    and can: "can_alloc P (Suc n) (falloc M)"
  obtains q pt' M' where "level_step P t idx pt M = Some (q, pt', M')" "can_alloc P n (falloc M')"
proof (cases "is_valid (ptes (mem M) t idx)")
  case True
  then have "level_step P t idx pt M = Some (pte_ppn (ptes (mem M) t idx), pt, M)"
    using t by (simp add: level_step_def pte_slot_eq rd64_ptes)
  then show thesis using can_alloc_less [OF can] that by blast
next
  case False
  obtain f M1 where al: "frame_alloc_unwrap P M = Some (f, M1)" "can_alloc P n (falloc M1)"
    using frame_alloc_unwrap_total [OF bs aok can] .
  have "level_step P t idx pt M =
      Some (pte_ppn (pte_new f PTE_V), pt\<lparr>frames := frames pt @ [f]\<rparr>,
            M1\<lparr>mem := wr64 (t * 4096 + idx * 8) (pte_new f PTE_V) (mem M1)\<rparr>)"
    using False t al(1) by (simp add: level_step_def pte_slot_eq rd64_ptes Let_def ptes_wr64)
  then show thesis using that al(2) by simp
qed

lemma find_pte_create_total:
  assumes bs: "buddy_spec P free" and ok: "pt_ok P free pt M" and v: "user_vpn v"
    and can: "can_alloc P (Suc (Suc n)) (falloc M)"
  obtains a pt' M' where "find_pte_create P v pt M = Some (Some a, pt', M')" "can_alloc P n (falloc M')"
proof -
  obtain i j k where ix: "indexes v = [i, j, k]" "i < 256" "j < 512" "k < 512"
    using user_vpn_indexes [OF v] .
  have i5: "i < 512" using ix(2) by simp
  have r: "root_frame pt < 2 ^ 20" and aok: "avail_ok P free M" using ok pt_ok_root [OF ok] by (auto simp: pt_ok_def)
  obtain p pt1 M1 where l1: "level_step P (root_frame pt) i pt M = Some (p, pt1, M1)"
    and c1: "can_alloc P (Suc n) (falloc M1)"
    using level_step_total [OF bs aok r i5 can] .
  note s1 = level1_step [OF bs ok ix(2) l1]
  have root: "root_frame pt1 = root_frame pt" using s1(2) by (simp add: pt_ext_def)
  have w1: "walk1 (ptes (mem M1)) (root_frame pt1) i = Some p" using s1(3) root by simp
  have p20: "p < 2 ^ 20" and aok1: "avail_ok P free M1"
    using s1(1) pt_ok_walk(1) [OF s1(1) ix(2) w1] pt_ok_bound [OF s1(1), of p] by (auto simp: pt_ok_def)
  obtain q pt2 M2 where l2: "level_step P p j pt1 M1 = Some (q, pt2, M2)"
    and c2: "can_alloc P n (falloc M2)"
    using level_step_total [OF bs aok1 p20 ix(3) c1] .
  note s2 = level2_step [OF bs s1(1) ix(2,3) w1 l2]
  have "root_frame pt2 = root_frame pt1" using s2(2) by (simp add: pt_ext_def)
  then have "q \<in> set (frames pt2)" using pt_ok_walk(2) [OF s2(1) ix(2,3)] s2(3) by simp
  then have "q < 2 ^ 20" using pt_ok_bound [OF s2(1), of q] by simp
  then have "find_pte_create P v pt M = Some (Some (q * 4096 + k * 8), pt2, M2)"
    using ix(4) by (simp add: find_pte_create_levels [OF ix(1)] l1 l2 pte_slot_eq)
  then show thesis using that c2 by blast
qed

lemma pt_map_total:
  assumes bs: "buddy_spec P free" and ok: "pt_ok P free pt M" and v: "user_vpn v"
    and can: "can_alloc P (Suc (Suc n)) (falloc M)" and none: "pt_lookup (mem M) pt v = None"
  obtains pt' M' where "pt_map P v p f pt M = Some (pt', M')" "can_alloc P n (falloc M')"
proof -
  obtain a pt1 M1 where fp: "find_pte_create P v pt M = Some (Some a, pt1, M1)"
    and c: "can_alloc P n (falloc M1)"
    using find_pte_create_total [OF bs ok v can] .
  have "\<not> is_valid (rd64 (mem M1) a)"
    using leaf_step(1) [OF bs ok v fp refl refl] none by blast
  then have "pt_map P v p f pt M = Some (pt1, M1\<lparr>mem := wr64 a (pte_new p (f OR PTE_V)) (mem M1)\<rparr>)"
    by (simp add: pt_map_def fp)
  then show thesis using that c by simp
qed

text \<open>The walk to a page that is mapped changes nothing.\<close>

lemma find_pte_create_mapped:
  assumes ok: "pt_ok P free pt M" and v: "user_vpn v" and some: "pt_lookup (mem M) pt v \<noteq> None"
  obtains a where "find_pte_create P v pt M = Some (Some a, pt, M)"
proof -
  obtain i j k where ix: "indexes v = [i, j, k]" "i < 256" "j < 512" "k < 512"
    using user_vpn_indexes [OF v] .
  let ?r = "root_frame pt" and ?e = "ptes (mem M)"
  obtain q where q: "walk2 ?e ?r i j = Some q"
    using some by (auto simp: pt_lookup_walk [OF ix(1)] walk3_def bind_eq_Some_conv)
  then obtain p where p: "walk1 ?e ?r i = Some p" "walk1 ?e p j = Some q"
    by (auto simp: walk2_def bind_eq_Some_conv)
  have i5: "i < 512" using ix(2) by simp
  note b = pt_ok_bound [OF ok]
  have pb: "p < 2 ^ 20" using pt_ok_walk(1) [OF ok ix(2) p(1)] b by simp
  have qb: "q < 2 ^ 20" using pt_ok_walk(2) [OF ok ix(2,3) q] b by simp
  have rb: "?r < 2 ^ 20" using pt_ok_root [OF ok] .
  have "level_step P ?r i pt M = Some (p, pt, M)" "level_step P p j pt M = Some (q, pt, M)"
    using p rb pb i5 ix(3) by (auto simp: level_step_def pte_slot_eq rd64_ptes walk1_def split: if_splits)
  then have "find_pte_create P v pt M = Some (Some (q * 4096 + k * 8), pt, M)"
    using qb ix(4) by (simp add: find_pte_create_levels [OF ix(1)] pte_slot_eq)
  then show thesis using that by blast
qed

lemma pt_unmap_total:
  assumes bs: "buddy_spec P free" and ok: "pt_ok P free pt M" and v: "user_vpn v"
    and some: "pt_lookup (mem M) pt v \<noteq> None"
  obtains M' where "pt_unmap P v pt M = Some (pt, M')" "falloc M' = falloc M"
proof -
  obtain a where fp: "find_pte_create P v pt M = Some (Some a, pt, M)"
    using find_pte_create_mapped [OF ok v some] .
  have "is_valid (rd64 (mem M) a)"
    using leaf_step(1) [OF bs ok v fp refl refl] some by blast
  then have "pt_unmap P v pt M = Some (pt, M\<lparr>mem := wr64 a pte_empty (mem M)\<rparr>)"
    by (simp add: pt_unmap_def fp)
  then show thesis using that by simp
qed

text \<open>A new root table maps nothing.\<close>

lemma with_root_ok:
  assumes bs: "buddy_spec P free" and aok: "avail_ok P free M" and wr: "with_root P M = Some (pt, M')"
  shows "pt_ok P free pt M'" "\<And>v. user_vpn v \<Longrightarrow> pt_lookup (mem M') pt v = None"
    "root_frame pt \<in> avail P free M" "frames pt = []"
proof -
  obtain r where al: "frame_alloc_unwrap P M = Some (r, M')" and pt: "pt = \<lparr>root_frame = r, frames = []\<rparr>"
    using wr by (auto simp: with_root_def bind_eq_Some_conv)
  note fa = frame_alloc_unwrapD [OF bs aok al]
  have z: "ptes (mem M') r = (\<lambda>_. 0)" by (simp add: fa(4) ptes_fill)
  have w: "walk1 (ptes (mem M')) r i = None" "walk2 (ptes (mem M')) r i j = None"
    "walk3 (ptes (mem M')) r i j k = None" for i j k
    by (simp_all add: walk1_def walk2_def walk3_def z)
  then have "is_tree (ptes (mem M')) r" "user_tables (ptes (mem M')) r = {}"
    by (simp_all add: is_tree_def user_tables_def)
  moreover have "r \<notin> avail P free M'" "frame_in P r" using fa(1,2) frame_in_avail aok by blast+
  ultimately show "pt_ok P free pt M'" using fa(5) by (simp add: pt_ok_def pt)
  show "pt_lookup (mem M') pt v = None" if "user_vpn v" for v by (simp add: pt_lookup_def w pt)
  show "root_frame pt \<in> avail P free M" "frames pt = []" using fa(1) by (simp_all add: pt)
qed

text \<open>The kernel's entries lie in the upper half of the root table.\<close>

lemma root_upper_ok:
  assumes ok: "pt_ok P free pt M" and l: "256 \<le> l" "l < 512"
    and M': "M' = M\<lparr>mem := wr64 (root_frame pt * 4096 + l * 8) w (mem M)\<rparr>"
  shows "pt_ok P free pt M'" "\<And>v. user_vpn v \<Longrightarrow> pt_lookup (mem M') pt v = pt_lookup (mem M) pt v"
    "\<And>x. x div 4096 \<noteq> root_frame pt \<Longrightarrow> mem M' x = mem M x"
proof -
  let ?r = "root_frame pt" and ?e = "ptes (mem M)"
  have tree: "is_tree ?e ?r" using ok by (simp add: pt_ok_def)
  have e: "ptes (mem M') = ?e(?r := (?e ?r)(l := w))" using l(2) by (simp add: M' ptes_wr64)
  have r: "?r \<notin> user_tables ?e ?r" using is_treeD(1) [OF tree] .
  have w1: "walk1 (ptes (mem M')) ?r i = walk1 ?e ?r i" if "i < 256" for i
    using that l(1) by (simp add: e walk1_def)
  have w2: "walk2 (ptes (mem M')) ?r i j = walk2 ?e ?r i j" if "i < 256" "j < 512" for i j
    unfolding walk2_def w1 [OF that(1)] using user_tables_walk1 [OF that(1), of ?e ?r] r
    by (cases "walk1 ?e ?r i") (auto simp: e walk1_def)
  have w3: "walk3 (ptes (mem M')) ?r i j k = walk3 ?e ?r i j k" if "i < 256" "j < 512" for i j k
    unfolding walk3_def w2 [OF that] using user_tables_walk2 [OF that, of ?e ?r] r
    by (cases "walk2 ?e ?r i j") (auto simp: e)
  have "avail P free M' = avail P free M" "avail_ok P free M' = avail_ok P free M"
    by (simp_all add: M')
  then show "pt_ok P free pt M'"
    using ok tree_cong [OF w1 w2] unfolding pt_ok_def by auto
  show "pt_lookup (mem M') pt v = pt_lookup (mem M) pt v" if "user_vpn v" for v
  proof -
    obtain i j k where ix: "indexes v = [i, j, k]" "i < 256" "j < 512" "k < 512"
      using user_vpn_indexes [OF \<open>user_vpn v\<close>] .
    then show ?thesis using w3 by (simp add: pt_lookup_walk)
  qed
  show "mem M' x = mem M x" if "x div 4096 \<noteq> ?r" for x
    using that l(2) by (simp add: M' wr64_slot_outside)
qed

lemma copy_lines_ok:
  assumes "pt_ok P free pt M" "\<forall>l\<in>set ls. 256 \<le> l \<and> l < 512" "k < 2 ^ 20"
  shows "\<exists>M'. copy_lines (root_frame pt) k ls M = Some M' \<and> pt_ok P free pt M'
     \<and> (\<forall>v. user_vpn v \<longrightarrow> pt_lookup (mem M') pt v = pt_lookup (mem M) pt v)
     \<and> (\<forall>x. x div 4096 \<noteq> root_frame pt \<longrightarrow> mem M' x = mem M x) \<and> falloc M' = falloc M"
  using assms
proof (induction ls arbitrary: M)
  case (Cons l ls)
  have l: "256 \<le> l" "l < 512" and r: "root_frame pt < 2 ^ 20"
    using Cons.prems pt_ok_root [OF Cons.prems(1)] by auto
  let ?M = "M\<lparr>mem := wr64 (root_frame pt * 4096 + l * 8) (rd64 (mem M) (k * 4096 + l * 8)) (mem M)\<rparr>"
  note ro = root_upper_ok [OF Cons.prems(1) l, of ?M, OF refl]
  obtain M' where "copy_lines (root_frame pt) k ls ?M = Some M'" "pt_ok P free pt M'"
    "\<forall>v. user_vpn v \<longrightarrow> pt_lookup (mem M') pt v = pt_lookup (mem ?M) pt v"
    "\<forall>x. x div 4096 \<noteq> root_frame pt \<longrightarrow> mem M' x = mem ?M x" "falloc M' = falloc ?M"
    using Cons.IH [OF ro(1)] Cons.prems(2,3) by auto
  then show ?case
    using l r Cons.prems(3) ro(2,3) by (simp add: pte_slot_eq)
qed simp

lemma map_kernel_areas_ok:
  assumes "pt_ok P free pt M" "k < 2 ^ 20"
  shows "\<exists>M'. map_kernel_areas k pt M = Some M' \<and> pt_ok P free pt M'
     \<and> (\<forall>v. user_vpn v \<longrightarrow> pt_lookup (mem M') pt v = pt_lookup (mem M) pt v)
     \<and> (\<forall>x. x div 4096 \<noteq> root_frame pt \<longrightarrow> mem M' x = mem M x) \<and> falloc M' = falloc M"
  unfolding map_kernel_areas_def using assms by (intro copy_lines_ok) auto

text \<open>A page table depends on the memory of its own tables only.\<close>

lemma walks_agree:
  assumes "\<And>t. t \<in> insert r (user_tables e r) \<Longrightarrow> e' t = e t" "i < 256" "j < 512"
  shows "walk1 e' r i = walk1 e r i" "walk2 e' r i j = walk2 e r i j" "walk3 e' r i j k = walk3 e r i j k"
proof -
  show w1: "walk1 e' r i = walk1 e r i" using assms(1) [of r] by (simp add: walk1_def)
  show w2: "walk2 e' r i j = walk2 e r i j"
    unfolding walk2_def w1 using user_tables_walk1 [OF assms(2), of e r] assms(1)
    by (cases "walk1 e r i") (auto simp: walk1_def)
  show "walk3 e' r i j k = walk3 e r i j k"
    unfolding walk3_def w2 using user_tables_walk2 [OF assms(2,3), of e r] assms(1)
    by (cases "walk2 e r i j") auto
qed

lemma ptes_page_eq:
  assumes "\<And>x. x div 4096 = t \<Longrightarrow> m' x = m x"
  shows "ptes m' t = ptes m t"
proof
  fix i
  have "rd64 m' (t * 4096 + i * 8) = rd64 m (t * 4096 + i * 8)" if "i < 512"
    using that by (intro rd64_cong assms) (simp add: div_nat_eqI)
  then show "ptes m' t i = ptes m t i" by (simp add: ptes_def)
qed

lemma pt_ok_frame:
  assumes ok: "pt_ok P free pt M"
    and eq: "\<And>x. x div 4096 \<in> set (root_frame pt # frames pt) \<Longrightarrow> mem M' x = mem M x"
    and av: "avail_ok P free M'" "avail P free M' \<inter> set (root_frame pt # frames pt) = {}"
  shows "pt_ok P free pt M'" "user_vpn v \<Longrightarrow> pt_lookup (mem M') pt v = pt_lookup (mem M) pt v"
proof -
  let ?r = "root_frame pt" and ?e = "ptes (mem M)" and ?f = "ptes (mem M')"
  have fr: "user_tables ?e ?r \<subseteq> set (frames pt)" using ok by (simp add: pt_ok_def)
  have ag: "?f t = ?e t" if "t \<in> insert ?r (user_tables ?e ?r)" for t
    using that fr by (intro ptes_page_eq eq) auto
  note w = walks_agree [of ?r ?e ?f, OF ag]
  have tc: "user_tables ?f ?r = user_tables ?e ?r" "is_tree ?f ?r \<longleftrightarrow> is_tree ?e ?r"
    using tree_cong [of ?f ?r ?e] w(1) [of _ 0] w(2) by auto
  show "pt_ok P free pt M'" using ok av tc unfolding pt_ok_def by auto
  show "pt_lookup (mem M') pt v = pt_lookup (mem M) pt v" if "user_vpn v"
  proof -
    obtain i j k where ix: "indexes v = [i, j, k]" "i < 256" "j < 512" "k < 512"
      using user_vpn_indexes [OF \<open>user_vpn v\<close>] .
    then show ?thesis using w(3) by (simp add: pt_lookup_walk)
  qed
qed

section \<open>Properties\<close>

text \<open>
  C3: Mapping a user page that is not mapped, while two more frames can be allocated,
  succeeds.  The page table then maps exactly that page in addition, to the given frame
  with the given flags and the valid flag, its tree of tables stays well formed, memory
  outside its tables is unchanged, and every table it gained was an available frame.
\<close>

theorem pt_map_correct:
  assumes "buddy_spec P free" "pt_ok P free pt M" "user_vpn v" "p < 2 ^ 44" "flags_ok f"
    and "can_alloc P 2 (falloc M)" "pt_lookup (mem M) pt v = None"
  shows "\<exists>pt' M'. pt_map P v p f pt M = Some (pt', M')
           \<and> pt_step P free v (Some (p, f OR PTE_V)) pt M pt' M'"
proof -
  have "can_alloc P (Suc (Suc 0)) (falloc M)" using assms(6) by (simp add: numeral_2_eq_2)
  then obtain pt' M' where "pt_map P v p f pt M = Some (pt', M')"
    using pt_map_total [OF assms(1-3) _ assms(7)] by blast
  then show ?thesis using pt_map_Some(2) [OF assms(1-5)] by blast
qed

definition demo_pt :: page_table where
  "demo_pt = \<lparr>root_frame = 0x80400, frames = []\<rparr>"

definition demo_M :: "nat list machine" where
  "demo_M = \<lparr>mem = fill (0x80400 * 4096) 4096 0 (\<lambda>_. 0), falloc = [1, 2, 3]\<rparr>"

lemma demo_root: "with_root list_platform \<lparr>mem = \<lambda>_. 0, falloc = [0, 1, 2, 3]\<rparr> = Some (demo_pt, demo_M)"
  by (simp add: with_root_def frame_alloc_unwrap_def frame_alloc_def allocator_alloc_def
      list_platform_begin uadd_def usize_limit_def frame_clear_def frame_at_0 demo_pt_def demo_M_def
      PAGE_SIZE_def)

lemma demo_ok:
  "pt_ok list_platform set demo_pt demo_M" "user_vpn v \<Longrightarrow> pt_lookup (mem demo_M) demo_pt v = None"
proof -
  have "avail_ok list_platform set \<lparr>mem = \<lambda>_. 0, falloc = [0, 1, 2, 3]\<rparr>"
    by (auto simp: avail_ok_def list_platform_avail const_defs)
  from with_root_ok [OF list_platform_spec this demo_root]
  show "pt_ok list_platform set demo_pt demo_M"
    "user_vpn v \<Longrightarrow> pt_lookup (mem demo_M) demo_pt v = None" by blast+
qed

theorem pt_map_correct_witness:
  "\<exists>pt' M'. pt_map list_platform 5 0x80500 (PTE_R OR PTE_U) demo_pt demo_M = Some (pt', M')
     \<and> pt_lookup (mem M') pt' 5 = Some (0x80500, 0x13) \<and> pt_lookup (mem M') pt' 6 = None"
proof -
  have u: "user_vpn 5" "user_vpn 6" by (simp_all add: user_vpn_def)
  have fl: "flags_ok (PTE_R OR PTE_U)" by (simp add: flags_ok_def PTE_R_def PTE_U_def)
  have can: "can_alloc list_platform 2 (falloc demo_M)" by (simp add: demo_M_def numeral_2_eq_2)
  have fv: "PTE_R OR PTE_U OR PTE_V = 0x13" by (simp add: PTE_R_def PTE_U_def PTE_V_def)
  obtain pt' M' where m: "pt_map list_platform 5 0x80500 (PTE_R OR PTE_U) demo_pt demo_M = Some (pt', M')"
    and st: "pt_step list_platform set 5 (Some (0x80500, PTE_R OR PTE_U OR PTE_V)) demo_pt demo_M pt' M'"
    using pt_map_correct [OF list_platform_spec demo_ok(1) u(1) _ fl can demo_ok(2) [OF u(1)], of "0x80500"]
    by (auto simp: or.assoc)
  have "pt_lookup (mem M') pt' 5 = Some (0x80500, 0x13)" "pt_lookup (mem M') pt' 6 = None"
    using st u demo_ok(2) [OF u(2)] unfolding pt_step_def fv by simp_all
  then show ?thesis using m by blast
qed

text \<open>
  C40: Unmapping a mapped user page always succeeds, allocates nothing and removes exactly
  that page; unmapping a page that is not mapped, like mapping one that is, fails a debug
  assertion and never silently changes the table.
\<close>

theorem pt_unmap_correct:
  assumes "buddy_spec P free" "pt_ok P free pt M" "user_vpn v"
  shows "(pt_lookup (mem M) pt v \<noteq> None \<longrightarrow>
            (\<exists>M'. pt_unmap P v pt M = Some (pt, M') \<and> falloc M' = falloc M
                \<and> pt_step P free v None pt M pt M'))
         \<and> (pt_lookup (mem M) pt v = None \<longrightarrow> pt_unmap P v pt M = None)
         \<and> (p < 2 ^ 44 \<and> flags_ok f \<and> pt_lookup (mem M) pt v \<noteq> None \<longrightarrow> pt_map P v p f pt M = None)"
proof (intro conjI impI)
  assume a: "pt_lookup (mem M) pt v \<noteq> None"
  then obtain M' where "pt_unmap P v pt M = Some (pt, M')" "falloc M' = falloc M"
    using pt_unmap_total [OF assms] by blast
  then show "\<exists>M'. pt_unmap P v pt M = Some (pt, M') \<and> falloc M' = falloc M \<and> pt_step P free v None pt M pt M'"
    using pt_unmap_Some(2) [OF assms] by blast
next
  assume n: "pt_lookup (mem M) pt v = None"
  show "pt_unmap P v pt M = None"
  proof (rule ccontr)
    assume "pt_unmap P v pt M \<noteq> None"
    then obtain pt' M' where "pt_unmap P v pt M = Some (pt', M')" by auto
    from pt_unmap_Some(1) [OF assms this] n show False by simp
  qed
next
  assume a: "p < 2 ^ 44 \<and> flags_ok f \<and> pt_lookup (mem M) pt v \<noteq> None"
  show "pt_map P v p f pt M = None"
  proof (rule ccontr)
    assume "pt_map P v p f pt M \<noteq> None"
    then obtain pt' M' where "pt_map P v p f pt M = Some (pt', M')" by auto
    from pt_map_Some(1) [OF assms _ _ this] a show False by simp
  qed
qed

lemma demo_mapped:
  obtains pt M where "pt_ok list_platform set pt M" "pt_lookup (mem M) pt 5 = Some (0x80500, 0x13)"
proof -
  have u: "user_vpn 5" by (simp add: user_vpn_def)
  have fl: "flags_ok (PTE_R OR PTE_U)" by (simp add: flags_ok_def PTE_R_def PTE_U_def)
  have can: "can_alloc list_platform (Suc (Suc 0)) (falloc demo_M)" by (simp add: demo_M_def)
  have fv: "(PTE_R OR PTE_U) OR PTE_V = 0x13" by (simp add: PTE_R_def PTE_U_def PTE_V_def)
  obtain pt M where m: "pt_map list_platform 5 0x80500 (PTE_R OR PTE_U) demo_pt demo_M = Some (pt, M)"
    using pt_map_total [OF list_platform_spec demo_ok(1) u can demo_ok(2) [OF u]] by blast
  have "(0x80500::nat) < 2 ^ 44" by simp
  from pt_map_Some(2) [OF list_platform_spec demo_ok(1) u this fl m] u
  show thesis using that [of pt M] unfolding pt_step_def fv by simp
qed

theorem pt_unmap_correct_witness:
  "pt_unmap list_platform 7 demo_pt demo_M = None
   \<and> (\<exists>pt M M'. pt_lookup (mem M) pt 5 = Some (0x80500, 0x13) \<and> pt_unmap list_platform 5 pt M = Some (pt, M')
        \<and> pt_lookup (mem M') pt 5 = None)"
proof -
  have u: "user_vpn 5" "user_vpn 7" by (simp_all add: user_vpn_def)
  have "pt_unmap list_platform 7 demo_pt demo_M = None"
    using pt_unmap_correct [OF list_platform_spec demo_ok(1) u(2)] demo_ok(2) [OF u(2)] by blast
  moreover obtain pt M where d: "pt_ok list_platform set pt M" "pt_lookup (mem M) pt 5 = Some (0x80500, 0x13)"
    using demo_mapped .
  then obtain M' where m: "pt_unmap list_platform 5 pt M = Some (pt, M')" "pt_step list_platform set 5 None pt M pt M'"
    using pt_unmap_correct [OF list_platform_spec d(1) u(1)] by auto
  have "pt_lookup (mem M') pt 5 = None" using m(2) u(1) by (simp add: pt_step_def)
  ultimately show ?thesis using d(2) m(1) by blast
qed

text \<open>
  \<^verbatim>\<open>clear\<close> leaves the user no mapping, whatever the tables below the root held; it keeps
  the first frame of the vector, although only the root has to stay.
\<close>

lemma pt_clear_unmaps:
  assumes "root_frame pt < 2 ^ 20" "pt_clear P pt M = Some (pt', M')" "user_vpn v"
  shows "pt_lookup (mem M') pt' v = None" "frames pt' = take 1 (frames pt)"
proof -
  obtain i j k where ix: "indexes v = [i, j, k]" "i < 256" "j < 512" "k < 512"
    using user_vpn_indexes [OF assms(3)] .
  obtain M1 where M': "M' = M1\<lparr>mem := fill (root_frame pt * 4096) 2048 0 (mem M1)\<rparr>"
    and pt': "pt' = pt\<lparr>frames := take 1 (frames pt)\<rparr>"
    using assms(1,2) by (auto simp: pt_clear_def frame_at_0 PAGE_SIZE_def bind_eq_Some_conv)
  have "ptes (mem M') (root_frame pt) i = 0" using ix(2) by (simp add: M' ptes_def rd64_fill_zero)
  then have "walk1 (ptes (mem M')) (root_frame pt) i = None" by (simp add: walk1_def)
  then show "pt_lookup (mem M') pt' v = None"
    by (simp add: pt_lookup_walk [OF ix(1)] walk3_def walk2_def pt')
  show "frames pt' = take 1 (frames pt)" by (simp add: pt')
qed

text \<open>Clearing a table succeeds and leaves a well-formed table that maps nothing.\<close>

lemma pt_clear_ok:
  assumes bs: "buddy_spec P free" and ok: "pt_ok P free pt M"
  obtains M' where "pt_clear P pt M = Some (pt\<lparr>frames := take 1 (frames pt)\<rparr>, M')"
    "pt_ok P free (pt\<lparr>frames := take 1 (frames pt)\<rparr>) M'"
    "\<And>v. user_vpn v \<Longrightarrow> pt_lookup (mem M') (pt\<lparr>frames := take 1 (frames pt)\<rparr>) v = None"
    "\<And>x. x div 4096 \<noteq> root_frame pt \<Longrightarrow> mem M' x = mem M x"
    "avail P free M' \<subseteq> set (drop 1 (frames pt)) \<union> avail P free M"
proof -
  let ?pt = "pt\<lparr>frames := take 1 (frames pt)\<rparr>" and ?r = "root_frame pt"
  have o: "avail_ok P free M" "distinct (?r # frames pt)" "\<And>p. p \<in> set (?r # frames pt) \<Longrightarrow> frame_in P p \<and> p \<notin> avail P free M"
    using ok unfolding pt_ok_def by blast+
  have split: "set (frames pt) = set (take 1 (frames pt)) \<union> set (drop 1 (frames pt))"
    by (metis append_take_drop_id set_append)
  have dj: "set (take 1 (frames pt)) \<inter> set (drop 1 (frames pt)) = {}"
    using o(2) by (simp add: set_take_disj_set_drop_if_distinct)
  have "\<forall>p\<in>set (drop 1 (frames pt)). frame_in P p" using o(3) in_set_dropD by fastforce
  then obtain M1 where d: "frames_drop P (drop 1 (frames pt)) M = Some M1" "mem M1 = mem M" "avail_ok P free M1"
    "avail P free M1 \<subseteq> set (drop 1 (frames pt)) \<union> avail P free M"
    using frames_drop_ok [OF bs o(1)] by blast
  let ?M = "M1\<lparr>mem := fill (?r * 4096) 2048 0 (mem M1)\<rparr>"
  have cl: "pt_clear P pt M = Some (?pt, ?M)"
    using pt_ok_root [OF ok] by (simp add: pt_clear_def d(1) [simplified] frame_at_0 PAGE_SIZE_def)
  have "ptes (mem ?M) ?r i = 0" if "i < 256" for i using that by (simp add: ptes_def rd64_fill_zero)
  then have w: "walk1 (ptes (mem ?M)) ?r i = None" "walk2 (ptes (mem ?M)) ?r i j = None" if "i < 256" for i j
    using that by (simp_all add: walk1_def walk2_def)
  then have "is_tree (ptes (mem ?M)) ?r" "user_tables (ptes (mem ?M)) ?r = {}"
    by (simp_all add: is_tree_def user_tables_def)
  moreover have "frame_in P p \<and> p \<notin> avail P free ?M" if "p \<in> set (?r # take 1 (frames pt))" for p
    using that o(2,3) d(4) dj split by auto
  ultimately have ok': "pt_ok P free ?pt ?M" using o(2) d(3) split by (simp add: pt_ok_def)
  have out: "mem ?M x = mem M x" if "x div 4096 \<noteq> ?r" for x
  proof -
    have "\<not> (?r * 4096 \<le> x \<and> x < ?r * 4096 + 2048)"
    proof
      assume "?r * 4096 \<le> x \<and> x < ?r * 4096 + 2048"
      then have "x div 4096 = ?r" by (auto intro: div_nat_eqI)
      then show False using that by simp
    qed
    then show ?thesis by (auto simp: fill_def d(2))
  qed
  show thesis
    by (rule that [OF cl ok' pt_clear_unmaps(1) [OF pt_ok_root [OF ok] cl] out]) (use d(4) in simp_all)
qed

end
