(* ===== verification/VmArea.thy ===== *)
theory VmArea
  imports PageTable Btree
begin

text \<open>
  The framed areas of a user address space, \<^verbatim>\<open>memory_space/vm_area.rs\<close>.  An area owns
  the frames of its \<open>unbacked_map\<close>; the frames of its \<open>backed_pages\<close> belong to the page
  cache of a file.  A file is known by a number, and the pages its cache holds are an
  argument of the operation that maps them.
\<close>

datatype area_type = Lazy | Mmap

record vm_area =
  vpn_start :: vpn
  vpn_end :: vpn
  perm :: map_permission
  area_ty :: area_type
  unbacked_map :: "(vpn, ppn) btree"
  backed_inode :: "nat option"
  backed_pages :: "(vpn, unit) btree"
  backed_inode_page_id :: nat

definition vm_area_new :: "vpn \<Rightarrow> vpn \<Rightarrow> map_permission \<Rightarrow> area_type \<Rightarrow> vm_area" where
  "vm_area_new s e p t = \<lparr>vpn_start = s, vpn_end = e, perm = p, area_ty = t, unbacked_map = [],
     backed_inode = None, backed_pages = [], backed_inode_page_id = 0\<rparr>"

definition area_len :: "vm_area \<Rightarrow> nat option" where
  "area_len a = umul (vpn_end a - vpn_start a) PAGE_SIZE"

definition area_is_empty :: "vm_area \<Rightarrow> bool option" where
  "area_is_empty a = map_option (\<lambda>n. n = 0) (area_len a)"

text \<open>Mapping the pages of a file that are in its page cache.\<close>

fun map_cached ::
  "'fa platform \<Rightarrow> nat \<Rightarrow> (nat, ppn) btree \<Rightarrow> vm_area \<Rightarrow> page_table \<Rightarrow> 'fa machine
     \<Rightarrow> (vm_area \<times> page_table \<times> 'fa machine) option" where
  "map_cached P first [] a pt M = Some (a, pt, M)"
| "map_cached P first ((page_id, p) # ps) a pt M = do {
     d \<leftarrow> usub page_id first;
     v \<leftarrow> uadd (vpn_start a) d;
     (pt, M) \<leftarrow> pt_map P v p (pte_flags_from (perm a)) pt M;
     map_cached P first ps (a\<lparr>backed_pages := bt_insert v () (backed_pages a)\<rparr>) pt M
   }"

definition init_backed_inode ::
  "'fa platform \<Rightarrow> nat \<Rightarrow> (nat, ppn) btree \<Rightarrow> nat \<Rightarrow> vm_area \<Rightarrow> page_table \<Rightarrow> 'fa machine
     \<Rightarrow> (vm_area \<times> page_table \<times> 'fa machine) option" where
  "init_backed_inode P inode cache inode_page_id a pt M = do {
     n \<leftarrow> usub (vpn_end a) (vpn_start a);
     e \<leftarrow> uadd inode_page_id n;
     (a, pt, M) \<leftarrow> map_cached P inode_page_id (bt_range inode_page_id e cache) a pt M;
     Some (a\<lparr>backed_inode := Some inode, backed_inode_page_id := inode_page_id\<rparr>, pt, M)
   }"

definition ensure_allocated ::
  "'fa platform \<Rightarrow> vpn \<Rightarrow> vm_area \<Rightarrow> page_table \<Rightarrow> 'fa machine
     \<Rightarrow> (ppn \<times> vm_area \<times> page_table \<times> 'fa machine) option" where
  "ensure_allocated P v a pt M = do {
     guard (area_ty a = Lazy);
     (case bt_get (unbacked_map a) v of
        Some p \<Rightarrow> Some (p, a, pt, M)
      | None \<Rightarrow> do {
          (p, M) \<leftarrow> frame_alloc_unwrap P M;
          (pt, M) \<leftarrow> pt_map P v p (pte_flags_from (perm a)) pt M;
          Some (p, a\<lparr>unbacked_map := bt_insert v p (unbacked_map a)\<rparr>, pt, M)
        })
   }"

text \<open>
  The loop of \<^verbatim>\<open>map_with_data\<close> over the pages of the area, with the position in the data
  and the offset in the first page.
\<close>

fun map_data_loop ::
  "'fa platform \<Rightarrow> 8 word list \<Rightarrow> vpn list \<Rightarrow> nat \<Rightarrow> nat \<Rightarrow> vm_area \<Rightarrow> page_table \<Rightarrow> 'fa machine
     \<Rightarrow> (vm_area \<times> page_table \<times> 'fa machine) option" where
  "map_data_loop P data [] start off a pt M = Some (a, pt, M)"
| "map_data_loop P data (v # vs) start off a pt M = do {
     (p, M) \<leftarrow> frame_alloc_unwrap P M;
     let a = a\<lparr>unbacked_map := bt_insert v p (unbacked_map a)\<rparr>;
     (pt, M) \<leftarrow> pt_map P v p (pte_flags_from (perm a)) pt M;
     r \<leftarrow> usub (length data) start;
     s \<leftarrow> usub PAGE_SIZE off;
     let n = min r s;
     kv \<leftarrow> kernel_ppn_to_vpn p;
     ka \<leftarrow> kernel_va_to_pa (page_start kv);
     let M = M\<lparr>mem := wr_bytes (ka + off) (take n (drop start data)) (mem M)\<rparr>;
     map_data_loop P data vs (start + n) 0 a pt M
   }"

definition map_with_data ::
  "'fa platform \<Rightarrow> 8 word list \<Rightarrow> nat \<Rightarrow> vm_area \<Rightarrow> page_table \<Rightarrow> 'fa machine
     \<Rightarrow> (vm_area \<times> page_table \<times> 'fa machine) option" where
  "map_with_data P data off a pt M = do {
     l \<leftarrow> area_len a;
     n \<leftarrow> uadd (length data) off;
     guard (n \<le> l);
     map_data_loop P data [vpn_start a..<vpn_end a] 0 off a pt M
   }"

fun unmap_pages ::
  "'fa platform \<Rightarrow> vpn list \<Rightarrow> page_table \<Rightarrow> 'fa machine \<Rightarrow> (page_table \<times> 'fa machine) option" where
  "unmap_pages P [] pt M = Some (pt, M)"
| "unmap_pages P (v # vs) pt M = do { (pt, M) \<leftarrow> pt_unmap P v pt M; unmap_pages P vs pt M }"

definition area_unmap ::
  "'fa platform \<Rightarrow> vm_area \<Rightarrow> page_table \<Rightarrow> 'fa machine \<Rightarrow> (vm_area \<times> page_table \<times> 'fa machine) option" where
  "area_unmap P a pt M = do {
     (pt, M) \<leftarrow> unmap_pages P (bt_keys (unbacked_map a) @ bt_keys (backed_pages a)) pt M;
     M \<leftarrow> frames_drop P (map snd (unbacked_map a)) M;
     Some (a\<lparr>unbacked_map := [], backed_inode := None, backed_pages := [], backed_inode_page_id := 0\<rparr>, pt, M)
   }"

definition area_shrink ::
  "'fa platform \<Rightarrow> vpn \<Rightarrow> vm_area \<Rightarrow> page_table \<Rightarrow> 'fa machine \<Rightarrow> (vm_area \<times> page_table \<times> 'fa machine) option" where
  "area_shrink P new_end a pt M = do {
     guard (area_ty a = Lazy);
     let (keep, split) = bt_split_off new_end (unbacked_map a);
     (pt, M) \<leftarrow> unmap_pages P (bt_keys split) pt M;
     M \<leftarrow> frames_drop P (map snd split) M;
     Some (a\<lparr>unbacked_map := keep, vpn_end := new_end\<rparr>, pt, M)
   }"

definition area_expand :: "vpn \<Rightarrow> vm_area \<Rightarrow> vm_area" where
  "area_expand new_end a = a\<lparr>vpn_end := new_end\<rparr>"

section \<open>Allocating a page\<close>

text \<open>
  The effect of mapping a new frame \<open>p\<close> at a page: the frame was available and is none of
  the tables, it is zeroed, and nothing else outside the tables changes.
\<close>

definition page_added ::
  "'fa platform \<Rightarrow> ('fa \<Rightarrow> nat set) \<Rightarrow> vpn \<Rightarrow> ppn \<Rightarrow> pte_flags \<Rightarrow> page_table \<Rightarrow> 'fa machine
     \<Rightarrow> page_table \<Rightarrow> 'fa machine \<Rightarrow> bool" where
  "page_added P free v p f pt M pt' M' \<longleftrightarrow>
     pt_ok P free pt' M' \<and> root_frame pt' = root_frame pt
   \<and> (\<forall>w. user_vpn w \<longrightarrow> pt_lookup (mem M') pt' w = (if w = v then Some (p, f OR PTE_V) else pt_lookup (mem M) pt w))
   \<and> (\<forall>x. x div 4096 \<notin> set (root_frame pt # frames pt') \<longrightarrow>
        mem M' x = (if x div 4096 = p then 0 else mem M x))
   \<and> p \<in> avail P free M \<and> p \<notin> set (root_frame pt # frames pt') \<and> frame_in P p
   \<and> set (frames pt) \<subseteq> set (frames pt') \<and> set (frames pt') \<subseteq> set (frames pt) \<union> avail P free M
   \<and> avail P free M' \<subseteq> avail P free M - {p}"

lemma alloc_frame_ok:
  assumes bs: "buddy_spec P free" and ok: "pt_ok P free pt M"
    and al: "frame_alloc_unwrap P M = Some (p, M1)"
  shows "p \<notin> set (root_frame pt # frames pt)" "pt_ok P free pt M1"
    "user_vpn w \<Longrightarrow> pt_lookup (mem M1) pt w = pt_lookup (mem M) pt w"
    "mem M1 x = (if x div 4096 = p then 0 else mem M x)"
proof -
  have aok: "avail_ok P free M" and old: "\<And>q. q \<in> set (root_frame pt # frames pt) \<Longrightarrow> q \<notin> avail P free M"
    using ok by (auto simp: pt_ok_def)
  note fa = frame_alloc_unwrapD [OF bs aok al]
  show pn: "p \<notin> set (root_frame pt # frames pt)" using old fa(1) by blast
  have eq: "mem M1 x = mem M x" if "x div 4096 \<in> set (root_frame pt # frames pt)" for x
    using that pn by (auto simp: fa(4) intro!: fill_page_outside)
  have dj: "avail P free M1 \<inter> set (root_frame pt # frames pt) = {}" using fa(2) old by blast
  show "pt_ok P free pt M1" "user_vpn w \<Longrightarrow> pt_lookup (mem M1) pt w = pt_lookup (mem M) pt w"
    using pt_ok_frame [OF ok eq fa(5) dj] by blast+
  show "mem M1 x = (if x div 4096 = p then 0 else mem M x)"
  proof (cases "x div 4096 = p")
    case True
    then have "p * 4096 \<le> x" "x < p * 4096 + 4096"
      using div_mult_mod_eq [of x 4096] mod_less_divisor [of 4096 x] by auto
    then show ?thesis using True by (simp add: fa(4) fill_def)
  qed (simp add: fa(4) fill_page_outside)
qed

lemma alloc_map_page:
  assumes bs: "buddy_spec P free" and ok: "pt_ok P free pt M" and v: "user_vpn v" and f: "flags_ok f"
    and al: "frame_alloc_unwrap P M = Some (p, M1)"
    and map: "pt_map P v p f pt M1 = Some (pt', M')"
  shows "page_added P free v p f pt M pt' M'" "pt_lookup (mem M) pt v = None"
proof -
  have aok: "avail_ok P free M" using ok by (auto simp: pt_ok_def)
  note fa = frame_alloc_unwrapD [OF bs aok al]
  note af = alloc_frame_ok [OF bs ok al]
  have p44: "p < 2 ^ 44" using fa(3) by simp
  note pm = pt_map_Some [OF bs af(2) v p44 f map]
  show "pt_lookup (mem M) pt v = None" using pm(1) af(3) [OF v] by simp
  have st: "pt_step P free v (Some (p, f OR PTE_V)) pt M1 pt' M'" using pm(2) .
  then have fr: "set (frames pt') \<subseteq> set (frames pt) \<union> avail P free M1" by (simp add: pt_step_def)
  have "p \<notin> set (frames pt')" using fr af(1) fa(2) by auto
  moreover have "set (frames pt') \<subseteq> set (frames pt) \<union> avail P free M" using fr fa(2) by blast
  moreover have "avail P free M' \<subseteq> avail P free M - {p}"
    using st fa(2) unfolding pt_step_def by blast
  ultimately show "page_added P free v p f pt M pt' M'"
    using st fa(1) frame_in_avail [OF aok fa(1)] af(1,3,4) unfolding page_added_def pt_step_def by simp
qed

lemma ensure_allocated_new:
  assumes bs: "buddy_spec P free" and ok: "pt_ok P free pt M" and v: "user_vpn v"
    and none: "bt_get (unbacked_map a) v = None"
    and en: "ensure_allocated P v a pt M = Some (p, a', pt', M')"
  shows "area_ty a = Lazy" "a' = a\<lparr>unbacked_map := bt_insert v p (unbacked_map a)\<rparr>"
    "page_added P free v p (pte_flags_from (perm a)) pt M pt' M'" "pt_lookup (mem M) pt v = None"
proof -
  obtain M1 where al: "frame_alloc_unwrap P M = Some (p, M1)"
    and map: "pt_map P v p (pte_flags_from (perm a)) pt M1 = Some (pt', M')"
    and a': "a' = a\<lparr>unbacked_map := bt_insert v p (unbacked_map a)\<rparr>" and lazy: "area_ty a = Lazy"
    using en none by (auto simp: ensure_allocated_def bind_eq_Some_conv split: if_splits)
  show "area_ty a = Lazy" "a' = a\<lparr>unbacked_map := bt_insert v p (unbacked_map a)\<rparr>"
    using a' lazy by simp_all
  show "page_added P free v p (pte_flags_from (perm a)) pt M pt' M'" "pt_lookup (mem M) pt v = None"
    using alloc_map_page [OF bs ok v flags_ok_from al map] by auto
qed

lemma ensure_allocated_old:
  assumes "area_ty a = Lazy" "bt_get (unbacked_map a) v = Some p"
  shows "ensure_allocated P v a pt M = Some (p, a, pt, M)"
  using assms by (simp add: ensure_allocated_def)

lemma ensure_allocated_total:
  assumes bs: "buddy_spec P free" and ok: "pt_ok P free pt M" and v: "user_vpn v"
    and lazy: "area_ty a = Lazy" and free: "bt_get (unbacked_map a) v = None \<Longrightarrow> pt_lookup (mem M) pt v = None"
    and can: "can_alloc P (Suc (Suc (Suc n))) (falloc M)"
  obtains p a' pt' M' where "ensure_allocated P v a pt M = Some (p, a', pt', M')" "can_alloc P n (falloc M')"
proof (cases "bt_get (unbacked_map a) v")
  case (Some p)
  have "can_alloc P n (falloc M)" using can by (rule can_alloc_mono) simp
  then show thesis using that ensure_allocated_old [OF lazy Some] by blast
next
  case None
  have aok: "avail_ok P free M" using ok by (auto simp: pt_ok_def)
  obtain p M1 where al: "frame_alloc_unwrap P M = Some (p, M1)" and c1: "can_alloc P (Suc (Suc n)) (falloc M1)"
    using frame_alloc_unwrap_total [OF bs aok can] .
  note af = alloc_frame_ok [OF bs ok al]
  obtain pt' M' where map: "pt_map P v p (pte_flags_from (perm a)) pt M1 = Some (pt', M')"
    and c2: "can_alloc P n (falloc M')"
    using pt_map_total [OF bs af(2) v c1, of p "pte_flags_from (perm a)"] af(3) [OF v] free [OF None]
    by (metis (no_types))
  have "ensure_allocated P v a pt M = Some (p, a\<lparr>unbacked_map := bt_insert v p (unbacked_map a)\<rparr>, pt', M')"
    using None lazy by (simp add: ensure_allocated_def al map)
  then show thesis using that c2 by blast
qed

section \<open>Well-formed areas\<close>

definition area_ok :: "vpn \<Rightarrow> vm_area \<Rightarrow> bool" where
  "area_ok k a \<longleftrightarrow> vpn_start a = k \<and> vpn_start a \<le> vpn_end a \<and> vpn_end a \<le> 2 ^ 26
   \<and> bt_inv (unbacked_map a) \<and> fst ` set (unbacked_map a) \<subseteq> {vpn_start a..<vpn_end a}
   \<and> bt_inv (backed_pages a) \<and> fst ` set (backed_pages a) \<subseteq> {vpn_start a..<vpn_end a}
   \<and> (area_ty a = Lazy \<longrightarrow> backed_pages a = []) \<and> (area_ty a = Mmap \<longrightarrow> unbacked_map a = [])"

definition area_pages :: "vm_area \<Rightarrow> vpn set" where
  "area_pages a = fst ` set (unbacked_map a) \<union> fst ` set (backed_pages a)"

lemma area_ok_new: "s \<le> e \<Longrightarrow> e \<le> 2 ^ 26 \<Longrightarrow> area_ok s (vm_area_new s e p t)"
  by (simp add: area_ok_def vm_area_new_def)

lemma area_pages_new [simp]: "area_pages (vm_area_new s e p t) = {}"
  by (simp add: area_pages_def vm_area_new_def)

lemma area_ok_pages: "area_ok k a \<Longrightarrow> area_pages a \<subseteq> {vpn_start a..<vpn_end a}"
  by (auto simp: area_ok_def area_pages_def)

lemma area_ok_insert:
  assumes "area_ok k a" "area_ty a = Lazy" "vpn_start a \<le> v" "v < vpn_end a"
  shows "area_ok k (a\<lparr>unbacked_map := bt_insert v p (unbacked_map a)\<rparr>)"
  using assms by (auto simp: area_ok_def)

end
