(* ===== verification/MemorySpace.thy ===== *)
theory MemorySpace
  imports VmArea
begin

text \<open>
  The address space of a process, \<^verbatim>\<open>memory_space/mod.rs\<close>: a page table and the areas by
  their first page.  The pages a file has in its cache are the argument \<open>cache\<close>, from
  file numbers to cached frames.  Flushing the translation buffer has no effect on the
  model's state.
\<close>

record memory_space =
  ms_table :: page_table
  user_areas :: "(vpn, vm_area) btree"

definition PERM_R :: map_permission where "PERM_R = 0x2"
definition PERM_W :: map_permission where "PERM_W = 0x4"
definition PERM_X :: map_permission where "PERM_X = 0x8"
definition PERM_U :: map_permission where "PERM_U = 0x10"
definition PERM_G :: map_permission where "PERM_G = 0x20"

text \<open>\<^verbatim>\<open>MapPermission::from(MmapProt)\<close>: the protection bits are one position lower.\<close>

definition perm_from_prot :: "32 word \<Rightarrow> map_permission" where
  "perm_from_prot prot = (ucast (push_bit 1 prot) AND 0x3E) OR PERM_U"

definition MAP_FIXED :: "32 word" where "MAP_FIXED = 0x10"

section \<open>Construction\<close>

definition new_bare :: "'fa platform \<Rightarrow> 'fa machine \<Rightarrow> (memory_space \<times> 'fa machine) option" where
  "new_bare P M = do {
     (pt, M) \<leftarrow> with_root P M;
     Some (\<lparr>ms_table = pt, user_areas = []\<rparr>, M)
   }"

definition empty_user :: "'fa platform \<Rightarrow> ppn \<Rightarrow> 'fa machine \<Rightarrow> (memory_space \<times> 'fa machine) option" where
  "empty_user P kernel_root M = do {
     (ms, M) \<leftarrow> new_bare P M;
     M \<leftarrow> map_kernel_areas kernel_root (ms_table ms) M;
     Some (ms, M)
   }"

text \<open>
  Inserting an area under its first page drops an area that was there, and with it the
  frames that area owns.
\<close>

definition insert_area ::
  "'fa platform \<Rightarrow> vm_area \<Rightarrow> memory_space \<Rightarrow> 'fa machine \<Rightarrow> (memory_space \<times> 'fa machine) option" where
  "insert_area P a ms M = do {
     M \<leftarrow> (case bt_get (user_areas ms) (vpn_start a) of
             None \<Rightarrow> Some M
           | Some old \<Rightarrow> frames_drop P (map snd (unbacked_map old)) M);
     Some (ms\<lparr>user_areas := bt_insert (vpn_start a) a (user_areas ms)\<rparr>, M)
   }"

definition user_map ::
  "'fa platform \<Rightarrow> vpn \<Rightarrow> vpn \<Rightarrow> map_permission \<Rightarrow> memory_space \<Rightarrow> 'fa machine
     \<Rightarrow> (memory_space \<times> 'fa machine) option" where
  "user_map P s e p ms M = insert_area P (vm_area_new s e p Lazy) ms M"

definition user_map_with_file ::
  "'fa platform \<Rightarrow> (nat \<Rightarrow> (nat, ppn) btree) \<Rightarrow> vpn \<Rightarrow> vpn \<Rightarrow> map_permission \<Rightarrow> nat \<Rightarrow> nat
     \<Rightarrow> memory_space \<Rightarrow> 'fa machine \<Rightarrow> (memory_space \<times> 'fa machine) option" where
  "user_map_with_file P cache s e p inode page_id ms M = do {
     (a, pt, M) \<leftarrow> init_backed_inode P inode (cache inode) page_id (vm_area_new s e p Mmap) (ms_table ms) M;
     insert_area P a (ms\<lparr>ms_table := pt\<rparr>) M
   }"

definition user_map_with_data ::
  "'fa platform \<Rightarrow> vpn \<Rightarrow> vpn \<Rightarrow> map_permission \<Rightarrow> 8 word list \<Rightarrow> nat
     \<Rightarrow> memory_space \<Rightarrow> 'fa machine \<Rightarrow> (memory_space \<times> 'fa machine) option" where
  "user_map_with_data P s e p data off ms M = do {
     (a, pt, M) \<leftarrow> map_with_data P data off (vm_area_new s e p Lazy) (ms_table ms) M;
     insert_area P a (ms\<lparr>ms_table := pt\<rparr>) M
   }"

fun kernel_map_loop ::
  "'fa platform \<Rightarrow> map_permission \<Rightarrow> vpn list \<Rightarrow> page_table \<Rightarrow> 'fa machine \<Rightarrow> (page_table \<times> 'fa machine) option" where
  "kernel_map_loop P p [] pt M = Some (pt, M)"
| "kernel_map_loop P p (v # vs) pt M = do {
     q \<leftarrow> kernel_vpn_to_ppn v;
     (pt, M) \<leftarrow> pt_map P v q (pte_flags_from p) pt M;
     kernel_map_loop P p vs pt M
   }"

definition kernel_map ::
  "'fa platform \<Rightarrow> virt_addr \<Rightarrow> virt_addr \<Rightarrow> map_permission \<Rightarrow> memory_space \<Rightarrow> 'fa machine
     \<Rightarrow> (memory_space \<times> 'fa machine) option" where
  "kernel_map P start_va end_va p ms M = do {
     (pt, M) \<leftarrow> kernel_map_loop P p [vpn_floor start_va..<vpn_ceil end_va] (ms_table ms) M;
     Some (ms\<lparr>ms_table := pt\<rparr>, M)
   }"

text \<open>The sections of the kernel image, from the linker.\<close>

record sections =
  stext :: virt_addr
  etext :: virt_addr
  srodata :: virt_addr
  erodata :: virt_addr
  sdata :: virt_addr
  edata :: virt_addr
  sstack :: virt_addr
  estack :: virt_addr
  sbss :: virt_addr
  ebss :: virt_addr

definition MMIO :: "(nat \<times> nat) list" where
  "MMIO = [(0x10000000, 0x1000), (0x02000000, 0x10000), (0xc000000, 0x400000)]"

fun kernel_map_all ::
  "'fa platform \<Rightarrow> (virt_addr \<times> virt_addr \<times> map_permission) list \<Rightarrow> memory_space \<Rightarrow> 'fa machine
     \<Rightarrow> (memory_space \<times> 'fa machine) option" where
  "kernel_map_all P [] ms M = Some (ms, M)"
| "kernel_map_all P ((s, e, p) # rs) ms M = do {
     (ms, M) \<leftarrow> kernel_map P s e p ms M;
     kernel_map_all P rs ms M
   }"

fun map_mmio ::
  "'fa platform \<Rightarrow> (nat \<times> nat) list \<Rightarrow> memory_space \<Rightarrow> 'fa machine \<Rightarrow> (memory_space \<times> 'fa machine) option" where
  "map_mmio P [] ms M = Some (ms, M)"
| "map_mmio P ((start, len) # rs) ms M = do {
     s \<leftarrow> kernel_pa_to_va start;
     t \<leftarrow> uadd start len;
     e \<leftarrow> kernel_pa_to_va t;
     (ms, M) \<leftarrow> kernel_map P s e (PERM_R OR PERM_W OR PERM_G) ms M;
     map_mmio P rs ms M
   }"

definition new_kernel :: "'fa platform \<Rightarrow> sections \<Rightarrow> 'fa machine \<Rightarrow> (memory_space \<times> 'fa machine) option" where
  "new_kernel P S M = do {
     (ms, M) \<leftarrow> new_bare P M;
     top \<leftarrow> kernel_pa_to_va MEMORY_END;
     (ms, M) \<leftarrow> kernel_map_all P
       [(stext S, etext S, PERM_R OR PERM_X OR PERM_G),
        (srodata S, erodata S, PERM_R OR PERM_G),
        (sdata S, edata S, PERM_R OR PERM_W OR PERM_G),
        (sstack S, estack S, PERM_R OR PERM_W OR PERM_G),
        (sbss S, ebss S, PERM_R OR PERM_W OR PERM_G),
        (ekernel P, top, PERM_R OR PERM_W OR PERM_G)] ms M;
     map_mmio P MMIO ms M
   }"

section \<open>Copying\<close>

text \<open>The pages an area of the parent owns are copied one by one into the child's area.\<close>

fun copy_pages ::
  "'fa platform \<Rightarrow> (vpn, ppn) btree \<Rightarrow> vm_area \<Rightarrow> page_table \<Rightarrow> 'fa machine
     \<Rightarrow> (vm_area \<times> page_table \<times> 'fa machine) option" where
  "copy_pages P [] a pt M = Some (a, pt, M)"
| "copy_pages P ((v, src) # ps) a pt M = do {
     (dst, a, pt, M) \<leftarrow> ensure_allocated P v a pt M;
     M \<leftarrow> frame_copy_from dst src M;
     copy_pages P ps a pt M
   }"

definition copy_area ::
  "'fa platform \<Rightarrow> (nat \<Rightarrow> (nat, ppn) btree) \<Rightarrow> vm_area \<Rightarrow> memory_space \<Rightarrow> 'fa machine
     \<Rightarrow> (memory_space \<times> 'fa machine) option" where
  "copy_area P cache src ms M = do {
     (ms, M) \<leftarrow> (case backed_inode src of
         Some i \<Rightarrow> user_map_with_file P cache (vpn_start src) (vpn_end src) (perm src) i
                     (backed_inode_page_id src) ms M
       | None \<Rightarrow> user_map P (vpn_start src) (vpn_end src) (perm src) ms M);
     dst \<leftarrow> bt_get (user_areas ms) (vpn_start src);
     (dst, pt, M) \<leftarrow> copy_pages P (unbacked_map src) dst (ms_table ms) M;
     Some (\<lparr>ms_table = pt, user_areas = bt_insert (vpn_start src) dst (user_areas ms)\<rparr>, M)
   }"

fun copy_areas ::
  "'fa platform \<Rightarrow> (nat \<Rightarrow> (nat, ppn) btree) \<Rightarrow> vm_area list \<Rightarrow> memory_space \<Rightarrow> 'fa machine
     \<Rightarrow> (memory_space \<times> 'fa machine) option" where
  "copy_areas P cache [] ms M = Some (ms, M)"
| "copy_areas P cache (a # as) ms M = do {
     (ms, M) \<leftarrow> copy_area P cache a ms M;
     copy_areas P cache as ms M
   }"

definition from_other ::
  "'fa platform \<Rightarrow> (nat \<Rightarrow> (nat, ppn) btree) \<Rightarrow> ppn \<Rightarrow> memory_space \<Rightarrow> 'fa machine
     \<Rightarrow> (memory_space \<times> 'fa machine) option" where
  "from_other P cache kernel_root parent M = do {
     (ms, M) \<leftarrow> new_bare P M;
     (ms, M) \<leftarrow> copy_areas P cache (map snd (user_areas parent)) ms M;
     M \<leftarrow> map_kernel_areas kernel_root (ms_table ms) M;
     Some (ms, M)
   }"

section \<open>Changing the areas\<close>

definition set_user_brk ::
  "'fa platform \<Rightarrow> vpn \<Rightarrow> vpn \<Rightarrow> memory_space \<Rightarrow> 'fa machine \<Rightarrow> (memory_space \<times> 'fa machine) option" where
  "set_user_brk P heap_start new_end ms M =
     (case bt_get (user_areas ms) heap_start of
        Some a \<Rightarrow>
          (if new_end \<le> vpn_end a then do {
             (a, pt, M) \<leftarrow> area_shrink P new_end a (ms_table ms) M;
             Some (\<lparr>ms_table = pt, user_areas = bt_insert heap_start a (user_areas ms)\<rparr>, M)
           } else Some (ms\<lparr>user_areas := bt_insert heap_start (area_expand new_end a) (user_areas ms)\<rparr>, M))
      | None \<Rightarrow> user_map P heap_start new_end (PERM_R OR PERM_W OR PERM_U) ms M)"

text \<open>
  The search for a free range: the loop of the cursor over the areas behind \<open>start\<close>.
\<close>

fun find_gap :: "nat \<Rightarrow> vm_area list \<Rightarrow> vpn \<Rightarrow> (vpn \<times> vpn) res" where
  "find_gap len [] start =
     rbind (unwrap (uadd (page_start start) len)) (\<lambda>end_va.
       if end_va \<le> LOW_ADDRESS_END then Ok (start, vpn_ceil end_va) else Err ENOMEM)"
| "find_gap len (a # as) start =
     rbind (unwrap (uadd (page_start start) len)) (\<lambda>end_va.
       if end_va \<le> page_start (vpn_start a) then Ok (start, vpn_ceil end_va)
       else find_gap len as (vpn_end a))"

definition try_find_mmap_area :: "nat \<Rightarrow> nat \<Rightarrow> 32 word \<Rightarrow> memory_space \<Rightarrow> (vpn \<times> vpn) res" where
  "try_find_mmap_area addr len flags ms =
     (if flags AND MAP_FIXED = MAP_FIXED then
        (if addr AND PAGE_OFFSET_MASK \<noteq> 0 then Err EINVAL else Err UNSUPPORTED)
      else
        let start = vpn_floor (max MMAP_START addr);
            start' = (case bt_last_le start (user_areas ms) of
                        Some (_, a) \<Rightarrow> max start (vpn_end a) | None \<Rightarrow> start)
        in find_gap len (map snd (filter (\<lambda>(k, a). start < k) (user_areas ms))) start')"

definition try_map ::
  "'fa platform \<Rightarrow> nat \<Rightarrow> nat \<Rightarrow> map_permission \<Rightarrow> 32 word \<Rightarrow> memory_space \<Rightarrow> 'fa machine
     \<Rightarrow> (vpn \<times> memory_space \<times> 'fa machine) res" where
  "try_map P addr len p flags ms M =
     rbind (try_find_mmap_area addr len flags ms) (\<lambda>(s, e).
     rbind (unwrap (user_map P s e p ms M)) (\<lambda>(ms, M).
     Ok (s, ms, M)))"

definition try_map_inode ::
  "'fa platform \<Rightarrow> (nat \<Rightarrow> (nat, ppn) btree) \<Rightarrow> nat \<Rightarrow> nat \<Rightarrow> map_permission \<Rightarrow> 32 word \<Rightarrow> nat \<Rightarrow> nat
     \<Rightarrow> memory_space \<Rightarrow> 'fa machine \<Rightarrow> (vpn \<times> memory_space \<times> 'fa machine) res" where
  "try_map_inode P cache addr len p flags inode page_id ms M =
     rbind (try_find_mmap_area addr len flags ms) (\<lambda>(s, e).
     rbind (unwrap (user_map_with_file P cache s e p inode page_id ms M)) (\<lambda>(ms, M).
     Ok (s, ms, M)))"

text \<open>
  The first loop of \<^verbatim>\<open>unmap\<close>: which areas lie in the range; an area that overlaps it in
  part is not implemented and panics.
\<close>

fun areas_to_unmap :: "vpn \<Rightarrow> vpn \<Rightarrow> vm_area list \<Rightarrow> vpn list option" where
  "areas_to_unmap s e [] = Some []"
| "areas_to_unmap s e (a # as) =
     (if s \<le> vpn_start a \<and> vpn_end a \<le> e then map_option (Cons (vpn_start a)) (areas_to_unmap s e as)
      else if vpn_end a \<le> s then areas_to_unmap s e as
      else if e \<le> vpn_start a then Some []
      else None)"

fun unmap_areas ::
  "'fa platform \<Rightarrow> vpn list \<Rightarrow> memory_space \<Rightarrow> 'fa machine \<Rightarrow> (memory_space \<times> 'fa machine) option" where
  "unmap_areas P [] ms M = Some (ms, M)"
| "unmap_areas P (v # vs) ms M = do {
     a \<leftarrow> bt_get (user_areas ms) v;
     (a, pt, M) \<leftarrow> area_unmap P a (ms_table ms) M;
     unmap_areas P vs \<lparr>ms_table = pt, user_areas = bt_remove v (user_areas ms)\<rparr> M
   }"

definition ms_unmap ::
  "'fa platform \<Rightarrow> virt_addr \<Rightarrow> virt_addr \<Rightarrow> memory_space \<Rightarrow> 'fa machine \<Rightarrow> (memory_space \<times> 'fa machine) option" where
  "ms_unmap P va_start va_end ms M =
     (let s = vpn_floor va_start; e = vpn_ceil va_end;
          before = (case bt_last_less s (user_areas ms) of None \<Rightarrow> [] | Some (_, a) \<Rightarrow> [a]);
          from_s = map snd (filter (\<lambda>(k, a). s \<le> k) (user_areas ms))
      in do {
        to_unmap \<leftarrow> areas_to_unmap s e (before @ from_s);
        unmap_areas P to_unmap ms M
      })"

definition remove_area_with_start_vpn ::
  "'fa platform \<Rightarrow> vpn \<Rightarrow> memory_space \<Rightarrow> 'fa machine \<Rightarrow> (memory_space \<times> 'fa machine) option" where
  "remove_area_with_start_vpn P v ms M =
     (case bt_get (user_areas ms) v of
        None \<Rightarrow> Some (ms, M)
      | Some a \<Rightarrow> do {
          (a, pt, M) \<leftarrow> area_unmap P a (ms_table ms) M;
          Some (\<lparr>ms_table = pt, user_areas = bt_remove v (user_areas ms)\<rparr>, M)
        })"

fun drop_areas :: "'fa platform \<Rightarrow> vm_area list \<Rightarrow> 'fa machine \<Rightarrow> 'fa machine option" where
  "drop_areas P [] M = Some M"
| "drop_areas P (a # as) M = do {
     M \<leftarrow> frames_drop P (map snd (unbacked_map a)) M;
     drop_areas P as M
   }"

definition recycle_user_pages ::
  "'fa platform \<Rightarrow> memory_space \<Rightarrow> 'fa machine \<Rightarrow> (memory_space \<times> 'fa machine) option" where
  "recycle_user_pages P ms M = do {
     M \<leftarrow> drop_areas P (map snd (user_areas ms)) M;
     (pt, M) \<leftarrow> pt_clear P (ms_table ms) M;
     Some (\<lparr>ms_table = pt, user_areas = []\<rparr>, M)
   }"

definition handle_memory_exception ::
  "'fa platform \<Rightarrow> virt_addr \<Rightarrow> bool \<Rightarrow> memory_space \<Rightarrow> 'fa machine
     \<Rightarrow> (bool \<times> memory_space \<times> 'fa machine) option" where
  "handle_memory_exception P addr maybe_cow ms M =
     (if maybe_cow then None
      else let v = vpn_floor addr in
        (case bt_last_le v (user_areas ms) of
           None \<Rightarrow> Some (False, ms, M)
         | Some (k, a) \<Rightarrow>
             if vpn_end a \<le> v then Some (False, ms, M)
             else (case area_ty a of
                 Lazy \<Rightarrow> do {
                   (p, a, pt, M) \<leftarrow> ensure_allocated P v a (ms_table ms) M;
                   Some (True, \<lparr>ms_table = pt, user_areas = bt_insert k a (user_areas ms)\<rparr>, M)
                 }
               | Mmap \<Rightarrow> None)))"

section \<open>Well-formed areas\<close>

text \<open>The areas are in order and do not overlap.\<close>

definition areas_ok :: "(vpn, vm_area) btree \<Rightarrow> bool" where
  "areas_ok m \<longleftrightarrow> bt_inv m \<and> (\<forall>(k, a)\<in>set m. area_ok k a)
     \<and> sorted_wrt (\<lambda>x y. vpn_end (snd x) \<le> fst y) m"

lemma areas_ok_inv: "areas_ok m \<Longrightarrow> bt_inv m"
  by (simp add: areas_ok_def)

lemma areas_ok_area: "areas_ok m \<Longrightarrow> (k, a) \<in> set m \<Longrightarrow> area_ok k a"
  by (auto simp: areas_ok_def)

lemma sorted_wrt_two:
  assumes "sorted_wrt R xs" "x \<in> set xs" "y \<in> set xs" "x \<noteq> y"
  shows "R x y \<or> R y x"
  using assms by (induction xs) auto

lemma areas_ok_apart:
  assumes "areas_ok m" "(k, a) \<in> set m" "(k', a') \<in> set m" "k < k'"
  shows "vpn_end a \<le> k'"
proof -
  have "vpn_end a \<le> k' \<or> vpn_end a' \<le> k"
    using sorted_wrt_two [of "\<lambda>x y. vpn_end (snd x) \<le> fst y" m "(k, a)" "(k', a')"] assms
    by (auto simp: areas_ok_def)
  moreover have "k' \<le> vpn_end a'" using areas_ok_area [OF assms(1,3)] by (simp add: area_ok_def)
  ultimately show ?thesis using assms(4) by linarith
qed

lemma areas_okI:
  assumes "bt_inv m" "\<And>k a. (k, a) \<in> set m \<Longrightarrow> area_ok k a"
    and "\<And>k a k' a'. (k, a) \<in> set m \<Longrightarrow> (k', a') \<in> set m \<Longrightarrow> k < k' \<Longrightarrow> vpn_end a \<le> k'"
  shows "areas_ok m"
proof -
  have "sorted_wrt (\<lambda>x y. fst x < fst y) m" using assms(1) by (simp add: bt_inv_def sorted_wrt_map)
  then have "sorted_wrt (\<lambda>x y. vpn_end (snd x) \<le> fst y) m"
    by (rule sorted_wrt_mono_rel [rotated]) (use assms(3) in auto)
  then show ?thesis using assms(1,2) by (auto simp: areas_ok_def)
qed

lemma areas_ok_remove: "areas_ok m \<Longrightarrow> areas_ok (bt_remove k m)"
  by (rule areas_okI) (auto simp: areas_ok_inv set_bt_remove dest: areas_ok_area intro: areas_ok_apart)

text \<open>The area that holds a page is the last one that does not start behind it.\<close>

lemma areas_ok_unique:
  assumes "areas_ok m" "(k, a) \<in> set m" "(k', a') \<in> set m"
    and "v \<in> {vpn_start a..<vpn_end a}" "v \<in> {vpn_start a'..<vpn_end a'}"
  shows "k = k' \<and> a = a'"
proof -
  have s: "vpn_start a = k" "vpn_start a' = k'"
    using areas_ok_area [OF assms(1,2)] areas_ok_area [OF assms(1,3)] by (simp_all add: area_ok_def)
  have "k = k'"
    using areas_ok_apart [OF assms(1-3)] areas_ok_apart [OF assms(1,3,2)] assms(4,5) s
    by (cases k k' rule: linorder_cases) auto
  moreover have "a = a'"
    using assms(2,3) \<open>k = k'\<close> bt_inv_distinct [OF areas_ok_inv [OF assms(1)]]
    by (auto dest: distinct_map_fst_mem)
  ultimately show ?thesis by simp
qed

section \<open>The search for a free range\<close>

text \<open>
  The areas the loop still has to look at: in order, without overlap, all behind the
  current start.
\<close>

definition gap_chain :: "vpn \<Rightarrow> vm_area list \<Rightarrow> bool" where
  "gap_chain start as \<longleftrightarrow> (\<forall>a\<in>set as. start \<le> vpn_start a)
     \<and> sorted_wrt (\<lambda>a b. vpn_end a \<le> vpn_start b) as
     \<and> (\<forall>a\<in>set as. vpn_start a \<le> vpn_end a \<and> vpn_end a \<le> 2 ^ 26)"

lemma gap_chain_Cons: "gap_chain start (a # as) \<Longrightarrow> gap_chain (vpn_end a) as"
  by (auto simp: gap_chain_def)

lemma find_gap_Ok:
  assumes "gap_chain start as" "start < 2 ^ 52" "find_gap len as start = Ok (s, e)"
  shows "start \<le> s \<and> e = vpn_ceil (s * 4096 + len) \<and> e \<le> 2 ^ 26
     \<and> (\<forall>a\<in>set as. vpn_end a \<le> s \<or> e \<le> vpn_start a)"
  using assms
proof (induction as arbitrary: start)
  case Nil
  then have "s = start" "e = vpn_ceil (start * 4096 + len)" "start * 4096 + len \<le> LOW_ADDRESS_END"
    by (auto simp: page_start_mult res_simps uadd_eq_Some split: if_splits)
  moreover from this have "e \<le> 2 ^ 26"
    by (simp add: vpn_ceil_def div_ceil_le_iff LOW_ADDRESS_END_def PAGE_SIZE_def)
  ultimately show ?case by simp
next
  case (Cons a as)
  have sa: "start \<le> vpn_start a" "vpn_start a \<le> vpn_end a" "vpn_end a \<le> 2 ^ 26"
    using Cons.prems(1) by (auto simp: gap_chain_def)
  show ?case
  proof (cases "start * 4096 + len \<le> vpn_start a * 4096")
    case True
    then have r: "s = start" "e = vpn_ceil (start * 4096 + len)"
      using Cons.prems(2,3) sa by (auto simp: page_start_mult res_simps uadd_eq_Some)
    have e: "e \<le> vpn_start a" using True by (simp add: r vpn_ceil_def div_ceil_le_iff PAGE_SIZE_def)
    have "\<forall>b\<in>set as. vpn_end a \<le> vpn_start b" using Cons.prems(1) by (simp add: gap_chain_def)
    then have "\<forall>b\<in>set (a # as). vpn_end b \<le> s \<or> e \<le> vpn_start b" using e sa by fastforce
    then show ?thesis using r e sa by simp
  next
    case False
    then have "find_gap len as (vpn_end a) = Ok (s, e)"
      using Cons.prems(2,3) sa by (auto simp: page_start_mult res_simps uadd_eq_Some)
    from Cons.IH [OF gap_chain_Cons [OF Cons.prems(1)] _ this] sa
    show ?thesis by auto
  qed
qed

lemma find_gap_Err:
  assumes "gap_chain start as" "start < 2 ^ 52" "find_gap len as start = Inl x"
  shows "x = Errno ENOMEM \<and>
      (\<forall>s\<ge>start. s * 4096 + len \<le> LOW_ADDRESS_END \<longrightarrow>
         \<not> (\<forall>a\<in>set as. vpn_end a \<le> s \<or> s * 4096 + len \<le> vpn_start a * 4096))
    \<or> x = Panic \<and> usize_limit \<le> max LOW_ADDRESS_END (start * 4096) + len"
  using assms
proof (induction as arbitrary: start)
  case Nil
  show ?case
  proof (cases "start * 4096 + len < usize_limit")
    case True
    then have "x = Errno ENOMEM" "\<not> start * 4096 + len \<le> LOW_ADDRESS_END"
      using Nil.prems by (auto simp: page_start_mult uadd_def split: if_splits)
    then show ?thesis by auto
  next
    case False
    then have "x = Panic" using Nil.prems by (auto simp: page_start_mult uadd_def)
    then show ?thesis using False by simp
  qed
next
  case (Cons a as)
  have sa: "start \<le> vpn_start a" "vpn_start a \<le> vpn_end a" "vpn_end a \<le> 2 ^ 26"
    using Cons.prems(1) by (auto simp: gap_chain_def)
  show ?case
  proof (cases "start * 4096 + len < usize_limit")
    case False
    then have "x = Panic" using Cons.prems by (auto simp: page_start_mult uadd_def)
    then show ?thesis using False by simp
  next
    case True
    then have nf: "\<not> start * 4096 + len \<le> vpn_start a * 4096"
      and r: "find_gap len as (vpn_end a) = Inl x"
      using Cons.prems(2,3) sa by (auto simp: page_start_mult uadd_def split: if_splits)
    have "vpn_end a * 4096 \<le> LOW_ADDRESS_END" using sa by (simp add: LOW_ADDRESS_END_def)
    moreover have "vpn_end a < 2 ^ 52" using sa by simp
    ultimately have ih: "x = Errno ENOMEM \<and>
        (\<forall>s\<ge>vpn_end a. s * 4096 + len \<le> LOW_ADDRESS_END \<longrightarrow>
           \<not> (\<forall>a\<in>set as. vpn_end a \<le> s \<or> s * 4096 + len \<le> vpn_start a * 4096))
      \<or> x = Panic \<and> usize_limit \<le> LOW_ADDRESS_END + len"
      using Cons.IH [OF gap_chain_Cons [OF Cons.prems(1)] _ r] by (simp add: max_absorb1)
    show ?thesis
    proof (cases "x = Panic")
      case True
      then show ?thesis using ih by auto
    next
      case False
      have "\<not> (\<forall>b\<in>set (a # as). vpn_end b \<le> s \<or> s * 4096 + len \<le> vpn_start b * 4096)"
        if s: "start \<le> s" "s * 4096 + len \<le> LOW_ADDRESS_END" for s
        using ih False s nf by (cases "vpn_end a \<le> s") auto
      then show ?thesis using ih False by blast
    qed
  qed
qed

text \<open>The start of the search and the areas behind it.\<close>

lemma search_start:
  assumes ok: "areas_ok m" and st: "start < 2 ^ 52"
    and s': "start' = (case bt_last_le start m of Some (_, a) \<Rightarrow> max start (vpn_end a) | None \<Rightarrow> start)"
    and as: "as = map snd (filter (\<lambda>(k, a). start < k) m)"
  shows "gap_chain start' as" "start \<le> start'" "start' < 2 ^ 52" "start' * 4096 \<le> max LOW_ADDRESS_END (start * 4096)"
    and "\<And>s. start' \<le> s \<Longrightarrow> (\<forall>a\<in>set as. Q s a) \<Longrightarrow> (\<And>a. vpn_end a \<le> s \<Longrightarrow> Q s a) \<Longrightarrow>
           (\<forall>(k, a)\<in>set m. Q s a)"
    and "\<And>s. start \<le> s \<Longrightarrow> (\<forall>(k, a)\<in>set m. vpn_end a \<le> s \<or> s * 4096 + len \<le> vpn_start a * 4096) \<Longrightarrow>
           0 < len \<Longrightarrow> start' \<le> s"
proof -
  have inv: "bt_inv m" using ok by (rule areas_ok_inv)
  have key: "area_ok k a" if "(k, a) \<in> set m" for k a using ok that by (rule areas_ok_area)
  have before: "vpn_end a \<le> start'" if "(k, a) \<in> set m" "k \<le> start" for k a
  proof (cases "bt_last_le start m")
    case None
    have "start < k" using bt_last_le_None [OF None, of k] that(1) by force
    then show ?thesis using that(2) by simp
  next
    case (Some x)
    obtain l b where x: "x = (l, b)" by (cases x)
    note ll = bt_last_le_Some [OF inv Some [unfolded x]]
    have "k \<le> l" using ll(3) [of k] that by force
    show ?thesis
    proof (cases "k = l")
      case True
      then have "a = b" using that(1) ll(1) bt_inv_distinct [OF inv] by (auto dest: distinct_map_fst_mem)
      then show ?thesis using Some by (simp add: s' x)
    next
      case False
      then have "vpn_end a \<le> l" using areas_ok_apart [OF ok that(1) ll(1)] \<open>k \<le> l\<close> by simp
      then show ?thesis using ll(2) Some by (simp add: s' x)
    qed
  qed
  have after: "start' \<le> k" if k: "(k, a) \<in> set m" "start < k" for k a
  proof (cases "bt_last_le start m")
    case (Some x)
    obtain l b where x: "x = (l, b)" by (cases x)
    note ll = bt_last_le_Some [OF inv Some [unfolded x]]
    have "vpn_end b \<le> k" using areas_ok_apart [OF ok ll(1) k(1)] ll(2) k(2) by simp
    then show ?thesis using Some k(2) by (simp add: s' x)
  qed (use k in \<open>simp add: s'\<close>)
  show le: "start \<le> start'" by (auto simp: s' split: option.splits)
  have "start' \<le> max start (2 ^ 26)"
  proof (cases "bt_last_le start m")
    case (Some x)
    obtain l b where x: "x = (l, b)" by (cases x)
    have "vpn_end b \<le> 2 ^ 26"
      using key [OF bt_last_le_Some(1) [OF inv Some [unfolded x]]] by (simp add: area_ok_def)
    then show ?thesis using Some by (simp add: s' x)
  qed (simp add: s')
  then show "start' < 2 ^ 52" "start' * 4096 \<le> max LOW_ADDRESS_END (start * 4096)"
    using st by (auto simp: LOW_ADDRESS_END_def)
  have "sorted_wrt (\<lambda>x y. vpn_end (snd x) \<le> vpn_start (snd y)) (filter (\<lambda>(k, a). start < k) m)"
  proof (rule sorted_wrt_mono_rel)
    show "sorted_wrt (\<lambda>x y. vpn_end (snd x) \<le> fst y) (filter (\<lambda>(k, a). start < k) m)"
      using ok by (auto simp: areas_ok_def intro: sorted_wrt_filter)
    fix x y assume "x \<in> set (filter (\<lambda>(k, a). start < k) m)" "y \<in> set (filter (\<lambda>(k, a). start < k) m)"
      "vpn_end (snd x) \<le> fst y"
    then show "vpn_end (snd x) \<le> vpn_start (snd y)" using key [of "fst y" "snd y"] by (auto simp: area_ok_def)
  qed
  then show "gap_chain start' as"
    using after key unfolding gap_chain_def as by (fastforce simp: sorted_wrt_map area_ok_def)
  show "\<forall>(k, a)\<in>set m. Q s a"
    if s: "start' \<le> s" "\<forall>a\<in>set as. Q s a" "\<And>a. vpn_end a \<le> s \<Longrightarrow> Q s a" for s
  proof (clarify)
    fix k a assume ka: "(k, a) \<in> set m"
    show "Q s a"
    proof (cases "k \<le> start")
      case True
      then show ?thesis using before [OF ka] s(1) by (intro s(3)) simp
    next
      case False
      then show ?thesis using s(2) ka by (force simp: as)
    qed
  qed
  show "start' \<le> s" if s: "start \<le> s" "0 < len"
    "\<forall>(k, a)\<in>set m. vpn_end a \<le> s \<or> s * 4096 + len \<le> vpn_start a * 4096" for s
  proof (cases "bt_last_le start m")
    case (Some x)
    obtain l b where x: "x = (l, b)" by (cases x)
    note ll = bt_last_le_Some [OF inv Some [unfolded x]]
    have "vpn_start b \<le> start" using key [OF ll(1)] ll(2) by (simp add: area_ok_def)
    then have "vpn_end b \<le> s" using s ll(1) by fastforce
    then show ?thesis using Some s(1) by (simp add: s' x)
  qed (use s in \<open>simp add: s'\<close>)
qed

lemma try_find_Ok:
  assumes ok: "areas_ok (user_areas ms)" and addr: "addr < usize_limit"
    and t: "try_find_mmap_area addr len flags ms = Ok (s, e)"
  shows "MMAP_START \<le> s * PAGE_SIZE" "vpn_floor addr \<le> s" "e = vpn_ceil (s * PAGE_SIZE + len)" "e \<le> 2 ^ 26"
    "\<forall>(k, a)\<in>set (user_areas ms). vpn_end a \<le> s \<or> e \<le> vpn_start a"
proof -
  let ?m = "user_areas ms"
  define start where "start = vpn_floor (max MMAP_START addr)"
  define start' where "start' = (case bt_last_le start ?m of Some (_, a) \<Rightarrow> max start (vpn_end a) | None \<Rightarrow> start)"
  define as where "as = map snd (filter (\<lambda>(k, a). start < k) ?m)"
  have r: "find_gap len as start' = Ok (s, e)"
    using t unfolding try_find_mmap_area_def Let_def start'_def as_def start_def by (simp split: if_splits)
  have st: "start < 2 ^ 52" "MMAP_START \<le> s * PAGE_SIZE \<and> vpn_floor addr \<le> s \<longleftrightarrow> start \<le> s"
    using addr unfolding start_def MMAP_START_def usize_limit_def PAGE_SIZE_def vpn_floor_div
    by (auto simp: max_def div_less_iff_less_mult)
  note ss = search_start [OF ok st(1) start'_def as_def]
  have g: "start' \<le> s" "e = vpn_ceil (s * 4096 + len)" "e \<le> 2 ^ 26" "\<forall>a\<in>set as. vpn_end a \<le> s \<or> e \<le> vpn_start a"
    using find_gap_Ok [OF ss(1,3) r] by auto
  show "\<forall>(k, a)\<in>set ?m. vpn_end a \<le> s \<or> e \<le> vpn_start a"
    using ss(5) [of s "\<lambda>s a. vpn_end a \<le> s \<or> e \<le> vpn_start a"] g(1,4) by blast
  have "start \<le> s" using ss(2) g(1) by simp
  then show "MMAP_START \<le> s * PAGE_SIZE" "vpn_floor addr \<le> s" using st(2) by blast+
  show "e = vpn_ceil (s * PAGE_SIZE + len)" "e \<le> 2 ^ 26" using g by (simp_all add: PAGE_SIZE_def)
qed

text \<open>
  C6: The search for a mapping address.  For any address and any non-zero length, unless a fixed
  mapping is asked for: the range it returns lies between the start of the mapping zone
  and the end of the user half, not before the page of the address hint, is exactly long
  enough, and overlaps no area.  It reports that memory is exhausted only when no such
  range exists, no other error, and it panics only when the length is so large that the
  end of a candidate range overflows.
\<close>

theorem mmap_search_correct:
  assumes "areas_ok (user_areas ms)" "addr < usize_limit" "0 < len" "flags AND MAP_FIXED \<noteq> MAP_FIXED"
  shows "case try_find_mmap_area addr len flags ms of
     Inr (s, e) \<Rightarrow> MMAP_START \<le> s * PAGE_SIZE \<and> vpn_floor addr \<le> s
       \<and> e = vpn_ceil (s * PAGE_SIZE + len) \<and> e * PAGE_SIZE \<le> LOW_ADDRESS_END
       \<and> (\<forall>(k, a)\<in>set (user_areas ms). vpn_end a \<le> s \<or> e \<le> vpn_start a)
   | Inl (Errno err) \<Rightarrow> err = ENOMEM \<and>
       \<not> (\<exists>s. MMAP_START \<le> s * PAGE_SIZE \<and> vpn_floor addr \<le> s \<and> s * PAGE_SIZE + len \<le> LOW_ADDRESS_END
          \<and> (\<forall>(k, a)\<in>set (user_areas ms). vpn_end a \<le> s \<or> s * PAGE_SIZE + len \<le> vpn_start a * PAGE_SIZE))
   | Inl Panic \<Rightarrow> usize_limit \<le> max LOW_ADDRESS_END addr + len"
proof -
  let ?m = "user_areas ms"
  define start where "start = vpn_floor (max MMAP_START addr)"
  define start' where "start' = (case bt_last_le start ?m of Some (_, a) \<Rightarrow> max start (vpn_end a) | None \<Rightarrow> start)"
  define as where "as = map snd (filter (\<lambda>(k, a). start < k) ?m)"
  have r: "try_find_mmap_area addr len flags ms = find_gap len as start'"
    unfolding try_find_mmap_area_def Let_def start'_def as_def start_def using assms(4) by simp
  have st: "start < 2 ^ 52" "start * 4096 \<le> max MMAP_START addr"
    "MMAP_START \<le> s * PAGE_SIZE \<and> vpn_floor addr \<le> s \<longleftrightarrow> start \<le> s" for s
    using assms(2) unfolding start_def MMAP_START_def usize_limit_def PAGE_SIZE_def vpn_floor_div
    by (auto simp: max_def div_less_iff_less_mult)
  note ss = search_start [OF assms(1) st(1) start'_def as_def]
  show ?thesis
  proof (cases "find_gap len as start'")
    case (Inr x)
    obtain s e where x: "x = (s, e)" by (cases x)
    have "try_find_mmap_area addr len flags ms = Ok (s, e)" using r Inr x by simp
    then show ?thesis
      using try_find_Ok [OF assms(1,2), of len flags s e] by (simp add: PAGE_SIZE_def LOW_ADDRESS_END_def)
  next
    case (Inl x)
    from find_gap_Err [OF ss(1,3) Inl] show ?thesis
    proof (elim disjE conjE)
      assume x: "x = Errno ENOMEM" and no: "\<forall>s\<ge>start'. s * 4096 + len \<le> LOW_ADDRESS_END \<longrightarrow>
         \<not> (\<forall>a\<in>set as. vpn_end a \<le> s \<or> s * 4096 + len \<le> vpn_start a * 4096)"
      have none: False if "start \<le> s" "s * 4096 + len \<le> LOW_ADDRESS_END"
        "\<forall>(k, a)\<in>set ?m. vpn_end a \<le> s \<or> s * 4096 + len \<le> vpn_start a * 4096" for s
      proof -
        have "start' \<le> s" using ss(6) [of s len] that assms(3) by blast
        moreover have "\<forall>a\<in>set as. vpn_end a \<le> s \<or> s * 4096 + len \<le> vpn_start a * 4096"
          using that(3) by (auto simp: as_def)
        ultimately show False using no that(2) by blast
      qed
      have "\<not> (\<exists>s. MMAP_START \<le> s * PAGE_SIZE \<and> vpn_floor addr \<le> s \<and> s * PAGE_SIZE + len \<le> LOW_ADDRESS_END
          \<and> (\<forall>(k, a)\<in>set ?m. vpn_end a \<le> s \<or> s * PAGE_SIZE + len \<le> vpn_start a * PAGE_SIZE))"
        using none st(3) unfolding PAGE_SIZE_def by blast
      then show ?thesis by (simp add: r Inl x)
    next
      assume x: "x = Panic" and big: "usize_limit \<le> max LOW_ADDRESS_END (start' * 4096) + len"
      have "start * 4096 \<le> max LOW_ADDRESS_END addr"
        using st(2) by (auto simp: MMAP_START_def LOW_ADDRESS_END_def max_def split: if_splits)
      then have "usize_limit \<le> max LOW_ADDRESS_END addr + len" using big ss(4) by linarith
      then show ?thesis by (simp add: r Inl x)
    qed
  qed
qed

definition demo_areas :: "(vpn, vm_area) btree" where
  "demo_areas = [(0x1FFFFFF, vm_area_new 0x1FFFFFF 0x2000001 PERM_U Lazy)]"

theorem mmap_search_correct_witness:
  "try_find_mmap_area 0 5000 0 \<lparr>ms_table = demo_pt, user_areas = demo_areas\<rparr> = Ok (0x2000001, 0x2000003)
   \<and> list_all (\<lambda>(k, a). vpn_end a \<le> 0x2000001 \<or> 0x2000003 \<le> vpn_start a) demo_areas"
proof -
  have ok: "areas_ok demo_areas"
    by (simp add: areas_ok_def bt_inv_def demo_areas_def area_ok_new)
  have e: "try_find_mmap_area 0 5000 0 \<lparr>ms_table = demo_pt, user_areas = demo_areas\<rparr> = Ok (0x2000001, 0x2000003)"
    by (simp add: try_find_mmap_area_def MAP_FIXED_def demo_areas_def bt_last_le_def vpn_floor_div
        MMAP_START_def vm_area_new_def page_start_mult uadd_def usize_limit_def LOW_ADDRESS_END_def
        vpn_ceil_def div_ceil_def PAGE_SIZE_def)
  then show ?thesis
    using mmap_search_correct [of "\<lparr>ms_table = demo_pt, user_areas = demo_areas\<rparr>" 0 5000 0] ok
    by (simp add: usize_limit_def MAP_FIXED_def list_all_iff)
qed

text \<open>A length near the end of the 64-bit range makes the search panic.\<close>

lemma mmap_huge_length_panics:
  "try_find_mmap_area 0 0xFFFFFFFFFFFFF000 0 \<lparr>ms_table = pt, user_areas = []\<rparr> = Panicked"
  by (simp add: try_find_mmap_area_def MAP_FIXED_def bt_last_le_def vpn_floor_div
      MMAP_START_def page_start_mult uadd_def usize_limit_def)

section \<open>The invariant of an address space\<close>

text \<open>The frame and permission of a page that an area owns.\<close>

definition ms_owns :: "(vpn, vm_area) btree \<Rightarrow> vpn \<Rightarrow> ppn \<Rightarrow> map_permission \<Rightarrow> bool" where
  "ms_owns m v p pr \<longleftrightarrow> (\<exists>(k, a)\<in>set m. bt_get (unbacked_map a) v = Some p \<and> perm a = pr)"

definition ms_pages :: "(vpn, vm_area) btree \<Rightarrow> vpn set" where
  "ms_pages m = (\<Union>(k, a)\<in>set m. area_pages a)"

text \<open>
  The page table maps exactly the pages of the areas; an owned page is mapped to its
  frame with the permission of its area; owned frames are used once, are no tables and
  cannot be handed out.
\<close>

definition ms_ok :: "'fa platform \<Rightarrow> ('fa \<Rightarrow> nat set) \<Rightarrow> memory_space \<Rightarrow> 'fa machine \<Rightarrow> bool" where
  "ms_ok P free ms M \<longleftrightarrow>
     areas_ok (user_areas ms) \<and> pt_ok P free (ms_table ms) M
   \<and> (\<forall>v. user_vpn v \<longrightarrow> (pt_lookup (mem M) (ms_table ms) v \<noteq> None \<longleftrightarrow> v \<in> ms_pages (user_areas ms)))
   \<and> (\<forall>v p pr. ms_owns (user_areas ms) v p pr \<longrightarrow>
        pt_lookup (mem M) (ms_table ms) v = Some (p, pte_flags_from pr OR PTE_V)
        \<and> p \<notin> set (root_frame (ms_table ms) # frames (ms_table ms)) \<and> frame_in P p \<and> p \<notin> avail P free M)
   \<and> (\<forall>v v' p pr pr'. ms_owns (user_areas ms) v p pr \<longrightarrow> ms_owns (user_areas ms) v' p pr' \<longrightarrow> v = v')"

lemma ms_okD:
  assumes "ms_ok P free ms M"
  shows "areas_ok (user_areas ms)" "pt_ok P free (ms_table ms) M"
    and "\<And>v. user_vpn v \<Longrightarrow> pt_lookup (mem M) (ms_table ms) v \<noteq> None \<longleftrightarrow> v \<in> ms_pages (user_areas ms)"
    and "\<And>v p pr. ms_owns (user_areas ms) v p pr \<Longrightarrow>
        pt_lookup (mem M) (ms_table ms) v = Some (p, pte_flags_from pr OR PTE_V)"
    and "\<And>v p pr. ms_owns (user_areas ms) v p pr \<Longrightarrow>
        p \<notin> set (root_frame (ms_table ms) # frames (ms_table ms)) \<and> frame_in P p \<and> p \<notin> avail P free M"
    and "\<And>v v' p pr pr'. ms_owns (user_areas ms) v p pr \<Longrightarrow> ms_owns (user_areas ms) v' p pr' \<Longrightarrow> v = v'"
  using assms unfolding ms_ok_def by blast+

lemma ms_owns_page: "ms_owns m v p pr \<Longrightarrow> v \<in> ms_pages m"
proof -
  assume "ms_owns m v p pr"
  then obtain k a where ka: "(k, a) \<in> set m" "bt_get (unbacked_map a) v = Some p"
    by (auto simp: ms_owns_def)
  then have "v \<in> fst ` set (unbacked_map a)" using dom_bt_get [of "unbacked_map a"] by blast
  then show ?thesis using ka(1) by (auto simp: ms_pages_def area_pages_def)
qed

lemma ms_pages_user: "areas_ok m \<Longrightarrow> v \<in> ms_pages m \<Longrightarrow> user_vpn v"
proof -
  assume "areas_ok m" "v \<in> ms_pages m"
  then obtain k a where "area_ok k a" "v \<in> area_pages a"
    by (auto simp: ms_pages_def areas_ok_def)
  then show ?thesis using area_ok_pages [of k a] by (force simp: user_vpn_def area_ok_def)
qed

text \<open>Replacing the area under a key.\<close>

lemma ms_owns_update:
  assumes "bt_inv m" "(k, a) \<in> set m"
  shows "ms_owns (bt_insert k a' m) v p pr \<longleftrightarrow>
     (bt_get (unbacked_map a') v = Some p \<and> perm a' = pr)
     \<or> (\<exists>k' b. (k', b) \<in> set m \<and> k' \<noteq> k \<and> bt_get (unbacked_map b) v = Some p \<and> perm b = pr)"
  unfolding ms_owns_def set_bt_insert [OF assms(1)] by auto

lemma ms_pages_update:
  assumes "bt_inv m"
  shows "ms_pages (bt_insert k a' m) = area_pages a' \<union> (\<Union>(k', b)\<in>{x \<in> set m. fst x \<noteq> k}. area_pages b)"
  unfolding ms_pages_def set_bt_insert [OF assms(1)] by auto

lemma areas_ok_update:
  assumes ok: "areas_ok m" and ka: "(k, a) \<in> set m" and a': "area_ok k a'" "vpn_end a' \<le> vpn_end a"
  shows "areas_ok (bt_insert k a' m)"
proof (rule areas_okI)
  show "bt_inv (bt_insert k a' m)" using areas_ok_inv [OF ok] by blast
  note st = set_bt_insert [OF areas_ok_inv [OF ok], of k a']
  show "area_ok i b" if "(i, b) \<in> set (bt_insert k a' m)" for i b
    using that a' areas_ok_area [OF ok] unfolding st by auto
  show "vpn_end b \<le> j" if "(i, b) \<in> set (bt_insert k a' m)" "(j, c) \<in> set (bt_insert k a' m)" "i < j" for i b j c
    using that a'(2) areas_ok_apart [OF ok ka, of j] areas_ok_apart [OF ok, of i b k a]
      areas_ok_apart [OF ok, of i b j] ka unfolding st by (auto intro: le_trans)
qed

lemma page_of_area:
  assumes ok: "areas_ok m" and ka: "(k, a) \<in> set m" and v: "k \<le> v" "v < vpn_end a"
  shows "v \<in> ms_pages m \<longleftrightarrow> v \<in> area_pages a"
    and "ms_owns m v p pr \<longleftrightarrow> bt_get (unbacked_map a) v = Some p \<and> perm a = pr"
proof -
  have va: "v \<in> {vpn_start a..<vpn_end a}" using areas_ok_area [OF ok ka] v by (simp add: area_ok_def)
  have only: "b = a" if "(j, b) \<in> set m" "v \<in> area_pages b" for j b
    using areas_ok_unique [OF ok ka that(1) va] area_ok_pages [OF areas_ok_area [OF ok that(1)]] that(2)
    by blast
  show "v \<in> ms_pages m \<longleftrightarrow> v \<in> area_pages a"
    using only ka by (auto simp: ms_pages_def)
  show "ms_owns m v p pr \<longleftrightarrow> bt_get (unbacked_map a) v = Some p \<and> perm a = pr"
  proof
    assume "ms_owns m v p pr"
    then obtain j b where jb: "(j, b) \<in> set m" "bt_get (unbacked_map b) v = Some p" "perm b = pr"
      by (auto simp: ms_owns_def)
    then have "v \<in> area_pages b" using dom_bt_get [of "unbacked_map b"] by (auto simp: area_pages_def)
    then show "bt_get (unbacked_map a) v = Some p \<and> perm a = pr" using only [OF jb(1)] jb by simp
  qed (use ka in \<open>auto simp: ms_owns_def\<close>)
qed

section \<open>Page faults\<close>

text \<open>What a new page in an area changes of the space.\<close>

lemma ms_add_page:
  assumes ok: "ms_ok P free ms M" and ka: "(k, a) \<in> set (user_areas ms)" and lazy: "area_ty a = Lazy"
    and v: "k \<le> v" "v < vpn_end a" and none: "bt_get (unbacked_map a) v = None"
    and pa: "page_added P free v p (pte_flags_from (perm a)) (ms_table ms) M pt' M'"
    and ms': "ms' = \<lparr>ms_table = pt', user_areas = bt_insert k (a\<lparr>unbacked_map := bt_insert v p (unbacked_map a)\<rparr>) (user_areas ms)\<rparr>"
  shows "ms_ok P free ms' M'"
    and "ms_owns (user_areas ms') w q pr \<longleftrightarrow> ms_owns (user_areas ms) w q pr \<or> (w = v \<and> q = p \<and> pr = perm a)"
proof -
  let ?m = "user_areas ms" and ?a = "a\<lparr>unbacked_map := bt_insert v p (unbacked_map a)\<rparr>"
  note d = ms_okD [OF ok]
  have inv: "bt_inv ?m" using areas_ok_inv [OF d(1)] .
  have aok: "area_ok k a" using areas_ok_area [OF d(1) ka] .
  then have vs: "vpn_start a \<le> v" using v by (simp add: area_ok_def)
  have a': "area_ok k ?a" using area_ok_insert [OF aok lazy vs v(2)] .
  have areas: "areas_ok (bt_insert k ?a ?m)" using areas_ok_update [OF d(1) ka a'] by simp
  have uniq: "b = a" if "(k, b) \<in> set ?m" for b
    using that ka bt_inv_distinct [OF inv] by (auto dest: distinct_map_fst_mem)
  have owns: "ms_owns (bt_insert k ?a ?m) w q pr \<longleftrightarrow> ms_owns ?m w q pr \<or> (w = v \<and> q = p \<and> pr = perm a)" for w q pr
  proof -
    have "ms_owns ?m w q pr \<longleftrightarrow> (bt_get (unbacked_map a) w = Some q \<and> perm a = pr)
       \<or> (\<exists>k' b. (k', b) \<in> set ?m \<and> k' \<noteq> k \<and> bt_get (unbacked_map b) w = Some q \<and> perm b = pr)"
      using ka uniq unfolding ms_owns_def by blast
    then show ?thesis using none by (auto simp: ms_owns_update [OF inv ka] split: if_splits)
  qed
  have pages: "ms_pages (bt_insert k ?a ?m) = insert v (ms_pages ?m)"
  proof -
    have "ms_pages ?m = area_pages a \<union> (\<Union>(k', b)\<in>{x \<in> set ?m. fst x \<noteq> k}. area_pages b)"
      unfolding ms_pages_def by (subst set_split_key [OF inv ka]) simp
    then show ?thesis by (simp add: ms_pages_update [OF inv] area_pages_def)
  qed
  show "ms_owns (user_areas ms') w q pr \<longleftrightarrow> ms_owns ?m w q pr \<or> (w = v \<and> q = p \<and> pr = perm a)"
    by (simp add: ms' owns)
  have uv: "user_vpn v" using v(2) aok by (simp add: area_ok_def user_vpn_def)
  have lk: "pt_lookup (mem M') pt' w = (if w = v then Some (p, pte_flags_from (perm a) OR PTE_V)
      else pt_lookup (mem M) (ms_table ms) w)" if "user_vpn w" for w
    using pa that by (simp add: page_added_def)
  have notv: "w \<noteq> v" if "ms_owns ?m w q pr" for w q pr
    using that page_of_area(2) [OF d(1) ka v] none by auto
  have newp: "\<not> ms_owns ?m w p pr" for w pr
    using d(5) pa by (auto simp: page_added_def)
  have old: "q \<notin> set (root_frame pt' # frames pt') \<and> frame_in P q \<and> q \<notin> avail P free M'" if "ms_owns ?m w q pr" for w q pr
    using d(5) [OF that] pa unfolding page_added_def by auto
  show "ms_ok P free ms' M'"
    unfolding ms_ok_def ms' memory_space.simps owns pages
  proof (intro conjI allI impI)
    show "areas_ok (bt_insert k ?a ?m)" by (rule areas)
    show "pt_ok P free pt' M'" using pa by (simp add: page_added_def)
    fix w
    show "pt_lookup (mem M') pt' w \<noteq> None \<longleftrightarrow> w \<in> insert v (ms_pages ?m)" if "user_vpn w"
      using lk [OF that] d(3) [OF that] by auto
    fix q pr assume o: "ms_owns ?m w q pr \<or> (w = v \<and> q = p \<and> pr = perm a)"
    show "pt_lookup (mem M') pt' w = Some (q, pte_flags_from pr OR PTE_V)"
      using o
    proof
      assume o: "ms_owns ?m w q pr"
      then have "user_vpn w" using ms_pages_user [OF d(1) ms_owns_page] by blast
      then show ?thesis using lk notv [OF o] d(4) [OF o] by simp
    qed (use lk [OF uv] in simp)
    show "q \<notin> set (root_frame pt' # frames pt')" "frame_in P q" "q \<notin> avail P free M'"
      using o old pa by (auto simp: page_added_def)
    fix w' pr' assume "ms_owns ?m w' q pr' \<or> (w' = v \<and> q = p \<and> pr' = perm a)"
    then show "w = w'" using o d(6) newp by blast
  qed
qed

lemma last_le_area:
  assumes ok: "areas_ok m" and ka: "(k, a) \<in> set m" and v: "k \<le> v" "v < vpn_end a"
  shows "bt_last_le v m = Some (k, a)"
proof (cases "bt_last_le v m")
  case None
  then have "v < k" using bt_last_le_None [OF None, of k] ka by force
  with v(1) show ?thesis by simp
next
  case (Some x)
  obtain l b where x: "x = (l, b)" by (cases x)
  note ll = bt_last_le_Some [OF areas_ok_inv [OF ok] Some [unfolded x]]
  have "k \<le> l" using ll(3) [of k] ka v(1) by force
  moreover have "\<not> k < l" using areas_ok_apart [OF ok ka ll(1)] ll(2) v(2) by auto
  ultimately have "l = k" by simp
  then have "b = a" using ll(1) ka bt_inv_distinct [OF areas_ok_inv [OF ok]]
    by (auto dest: distinct_map_fst_mem)
  then show ?thesis using Some x \<open>l = k\<close> by simp
qed

lemma handle_fault_outside:
  assumes ok: "areas_ok (user_areas ms)"
    and out: "\<forall>(k, a)\<in>set (user_areas ms). \<not> (k \<le> vpn_floor addr \<and> vpn_floor addr < vpn_end a)"
  shows "handle_memory_exception P addr False ms M = Some (False, ms, M)"
proof (cases "bt_last_le (vpn_floor addr) (user_areas ms)")
  case (Some x)
  obtain l b where x: "x = (l, b)" by (cases x)
  note ll = bt_last_le_Some [OF areas_ok_inv [OF ok] Some [unfolded x]]
  have "vpn_end b \<le> vpn_floor addr" using out ll(1,2) by fastforce
  then show ?thesis using Some by (simp add: handle_memory_exception_def x)
qed (simp add: handle_memory_exception_def)

lemma handle_fault_inside:
  assumes bs: "buddy_spec P free" and ok: "ms_ok P free ms M" and can: "can_alloc P 3 (falloc M)"
    and ka: "(k, a) \<in> set (user_areas ms)" and v: "k \<le> vpn_floor addr" "vpn_floor addr < vpn_end a"
    and lazy: "area_ty a = Lazy"
  obtains p ms' M' where "handle_memory_exception P addr False ms M = Some (True, ms', M')"
    "ms_ok P free ms' M'"
    "pt_lookup (mem M') (ms_table ms') (vpn_floor addr) = Some (p, pte_flags_from (perm a) OR PTE_V)"
    "\<And>w. user_vpn w \<Longrightarrow> w \<noteq> vpn_floor addr \<Longrightarrow> pt_lookup (mem M') (ms_table ms') w = pt_lookup (mem M) (ms_table ms) w"
    "\<And>w q pr x. ms_owns (user_areas ms) w q pr \<Longrightarrow> x div 4096 = q \<Longrightarrow> mem M' x = mem M x"
    "\<And>x. bt_get (unbacked_map a) (vpn_floor addr) = None \<Longrightarrow> x div 4096 = p \<Longrightarrow> mem M' x = 0"
proof -
  let ?v = "vpn_floor addr" and ?m = "user_areas ms" and ?pt = "ms_table ms"
  note d = ms_okD [OF ok]
  have aok: "area_ok k a" using areas_ok_area [OF d(1) ka] .
  have uv: "user_vpn ?v" using v(2) aok by (simp add: area_ok_def user_vpn_def)
  have ll: "bt_last_le ?v ?m = Some (k, a)" using last_le_area [OF d(1) ka v] .
  have nomap: "pt_lookup (mem M) ?pt ?v = None" if "bt_get (unbacked_map a) ?v = None"
  proof -
    have "?v \<notin> fst ` set (unbacked_map a)" using that dom_bt_get [of "unbacked_map a"] by blast
    moreover have "backed_pages a = []" using aok lazy by (simp add: area_ok_def)
    ultimately have "?v \<notin> area_pages a" by (simp add: area_pages_def)
    then show ?thesis using d(3) [OF uv] page_of_area(1) [OF d(1) ka v] by blast
  qed
  have "can_alloc P (Suc (Suc (Suc 0))) (falloc M)" using can by (simp add: numeral_3_eq_3)
  then obtain p a' pt' M' where en: "ensure_allocated P ?v a ?pt M = Some (p, a', pt', M')"
    using ensure_allocated_total [OF bs d(2) uv lazy nomap] by metis
  let ?ms = "\<lparr>ms_table = pt', user_areas = bt_insert k a' ?m\<rparr>"
  have r: "handle_memory_exception P addr False ms M = Some (True, ?ms, M')"
    using v(2) lazy by (simp add: handle_memory_exception_def Let_def ll en)
  show thesis
  proof (cases "bt_get (unbacked_map a) ?v")
    case (Some q)
    then have eq: "p = q" "a' = a" "pt' = ?pt" "M' = M" using en ensure_allocated_old [OF lazy Some, of P ?pt M] by simp_all
    have "bt_insert k a ?m = ?m" using areas_ok_inv [OF d(1)] ka by (rule bt_insert_same)
    then have ms: "?ms = ms" by (simp add: eq)
    have "ms_owns ?m ?v p (perm a)" using page_of_area(2) [OF d(1) ka v] Some eq by simp
    then show thesis
      by (intro that [of ms M p]) (use r ms eq ok d(4) Some in auto)
  next
    case None
    note en' = ensure_allocated_new [OF bs d(2) uv None en]
    note mp = ms_add_page [OF ok ka lazy v None en'(3), of ?ms]
    have okk: "ms_ok P free ?ms M'" using mp(1) en'(2) by simp
    have pa: "page_added P free ?v p (pte_flags_from (perm a)) ?pt M pt' M'" using en'(3) .
    have keep: "mem M' x = mem M x" if "ms_owns ?m w q pr" "x div 4096 = q" for w q pr x
    proof -
      have "q \<notin> set (root_frame ?pt # frames pt')" "q \<noteq> p"
        using d(5) [OF that(1)] pa unfolding page_added_def by auto
      then show ?thesis using pa that(2) unfolding page_added_def by auto
    qed
    have zero: "mem M' x = 0" if "x div 4096 = p" for x
      using pa that unfolding page_added_def by auto
    show thesis
      by (intro that [of ?ms M' p]) (use r okk pa uv keep zero in \<open>auto simp: page_added_def\<close>)
  qed
qed

text \<open>
  C5: A page fault that is not marked as a possible copy on write, which is a \<^verbatim>\<open>todo!\<close> panic.  At an
  address outside every area it is reported as unhandled and changes nothing.  A fault inside a lazily allocated area succeeds while three more frames can be
  allocated: the space stays well formed, the faulting page is then mapped with the
  permission of its area, a page that was not there yet is filled with zeros, and neither
  another mapping nor the contents of another page changes.
\<close>

theorem page_fault_correct:
  assumes "buddy_spec P free" "ms_ok P free ms M" "can_alloc P 3 (falloc M)"
  shows "((\<forall>(k, a)\<in>set (user_areas ms). \<not> (k \<le> vpn_floor addr \<and> vpn_floor addr < vpn_end a)) \<longrightarrow>
            handle_memory_exception P addr False ms M = Some (False, ms, M))
       \<and> (\<forall>(k, a)\<in>set (user_areas ms). k \<le> vpn_floor addr \<and> vpn_floor addr < vpn_end a \<and> area_ty a = Lazy \<longrightarrow>
            (\<exists>p ms' M'. handle_memory_exception P addr False ms M = Some (True, ms', M')
               \<and> ms_ok P free ms' M'
               \<and> pt_lookup (mem M') (ms_table ms') (vpn_floor addr) = Some (p, pte_flags_from (perm a) OR PTE_V)
               \<and> (\<forall>w. user_vpn w \<and> w \<noteq> vpn_floor addr \<longrightarrow>
                    pt_lookup (mem M') (ms_table ms') w = pt_lookup (mem M) (ms_table ms) w)
               \<and> (\<forall>w q pr x. ms_owns (user_areas ms) w q pr \<and> x div PAGE_SIZE = q \<longrightarrow> mem M' x = mem M x)
               \<and> (bt_get (unbacked_map a) (vpn_floor addr) = None \<longrightarrow>
                    (\<forall>x. x div PAGE_SIZE = p \<longrightarrow> mem M' x = 0))))"
proof (rule conjI; clarify)
  assume "\<forall>(k, a)\<in>set (user_areas ms). \<not> (k \<le> vpn_floor addr \<and> vpn_floor addr < vpn_end a)"
  then show "handle_memory_exception P addr False ms M = Some (False, ms, M)"
    using handle_fault_outside [OF ms_okD(1) [OF assms(2)]] by blast
next
  fix k a assume ka: "(k, a) \<in> set (user_areas ms)" "k \<le> vpn_floor addr" "vpn_floor addr < vpn_end a" "area_ty a = Lazy"
  show "\<exists>p ms' M'. handle_memory_exception P addr False ms M = Some (True, ms', M')
               \<and> ms_ok P free ms' M'
               \<and> pt_lookup (mem M') (ms_table ms') (vpn_floor addr) = Some (p, pte_flags_from (perm a) OR PTE_V)
               \<and> (\<forall>w. user_vpn w \<and> w \<noteq> vpn_floor addr \<longrightarrow>
                    pt_lookup (mem M') (ms_table ms') w = pt_lookup (mem M) (ms_table ms) w)
               \<and> (\<forall>w q pr x. ms_owns (user_areas ms) w q pr \<and> x div PAGE_SIZE = q \<longrightarrow> mem M' x = mem M x)
               \<and> (bt_get (unbacked_map a) (vpn_floor addr) = None \<longrightarrow>
                    (\<forall>x. x div PAGE_SIZE = p \<longrightarrow> mem M' x = 0))"
    by (rule handle_fault_inside [OF assms ka]) (unfold PAGE_SIZE_def, blast)
qed

text \<open>A space with one lazily allocated area and nothing mapped yet.\<close>

lemma ms_ok_fresh:
  assumes "pt_ok P free pt M" "\<And>v. user_vpn v \<Longrightarrow> pt_lookup (mem M) pt v = None"
    and "areas_ok m" "\<And>k a. (k, a) \<in> set m \<Longrightarrow> unbacked_map a = [] \<and> backed_pages a = []"
  shows "ms_ok P free \<lparr>ms_table = pt, user_areas = m\<rparr> M"
proof -
  have "\<not> ms_owns m v p pr" for v p pr using assms(4) by (force simp: ms_owns_def)
  moreover have "ms_pages m = {}" using assms(4) by (force simp: ms_pages_def area_pages_def)
  ultimately show ?thesis using assms(1-3) by (simp add: ms_ok_def)
qed

definition demo_ms :: memory_space where
  "demo_ms = \<lparr>ms_table = demo_pt, user_areas = [(0x10, vm_area_new 0x10 0x20 (PERM_R OR PERM_W OR PERM_U) Lazy)]\<rparr>"

lemma demo_ms_ok: "ms_ok list_platform set demo_ms demo_M"
  unfolding demo_ms_def
proof (rule ms_ok_fresh [OF demo_ok])
  show "areas_ok [(0x10, vm_area_new 0x10 0x20 (PERM_R OR PERM_W OR PERM_U) Lazy)]"
    by (simp add: areas_ok_def bt_inv_def area_ok_new)
qed (auto simp: vm_area_new_def)

theorem page_fault_correct_witness:
  "handle_memory_exception list_platform 0x5000 False demo_ms demo_M = Some (False, demo_ms, demo_M)
   \<and> (\<exists>p ms' M'. handle_memory_exception list_platform 0x12345 False demo_ms demo_M = Some (True, ms', M')
        \<and> pt_lookup (mem M') (ms_table ms') 0x12 = Some (p, 0x17)
        \<and> (\<forall>x. x div PAGE_SIZE = p \<longrightarrow> mem M' x = 0))"
proof -
  have can: "can_alloc list_platform 3 (falloc demo_M)" by (simp add: demo_M_def numeral_3_eq_3)
  have fl: "pte_flags_from (PERM_R OR PERM_W OR PERM_U) OR PTE_V = 0x17"
    by (simp add: pte_flags_from_def pte_flags_truncate_def PERM_R_def PERM_W_def PERM_U_def PTE_V_def)
  have v: "vpn_floor 0x5000 = 5" "vpn_floor 0x12345 = 0x12" by (simp_all add: vpn_floor_div)
  note pf = page_fault_correct [OF list_platform_spec demo_ms_ok can]
  have "handle_memory_exception list_platform 0x5000 False demo_ms demo_M = Some (False, demo_ms, demo_M)"
    using pf [of "0x5000"] by (simp add: v demo_ms_def)
  moreover have "\<exists>p ms' M'. handle_memory_exception list_platform 0x12345 False demo_ms demo_M = Some (True, ms', M')
        \<and> pt_lookup (mem M') (ms_table ms') 0x12 = Some (p, 0x17) \<and> (\<forall>x. x div PAGE_SIZE = p \<longrightarrow> mem M' x = 0)"
    using pf [of "0x12345"] unfolding v
    by (simp add: demo_ms_def vm_area_new_def fl) blast
  ultimately show ?thesis by blast
qed

end
