(* ===== verification/SpaceUnmap.thy ===== *)
theory SpaceUnmap
  imports MemorySpace
begin

text \<open>
  Unmapping: removing whole areas from an address space gives their pages and frames
  back and leaves every other page alone.
\<close>

section \<open>Pages\<close>

lemma unmap_pages_ok:
  assumes bs: "buddy_spec P free" and "pt_ok P free pt M" "distinct vs"
    and "\<forall>v\<in>set vs. user_vpn v \<and> pt_lookup (mem M) pt v \<noteq> None"
  shows "\<exists>M'. unmap_pages P vs pt M = Some (pt, M') \<and> falloc M' = falloc M \<and> pt_ok P free pt M'
     \<and> (\<forall>w. user_vpn w \<longrightarrow> pt_lookup (mem M') pt w = (if w \<in> set vs then None else pt_lookup (mem M) pt w))
     \<and> (\<forall>x. x div 4096 \<notin> set (root_frame pt # frames pt) \<longrightarrow> mem M' x = mem M x)"
  using assms(2-4)
proof (induction vs arbitrary: M)
  case (Cons v vs)
  have v: "user_vpn v" "pt_lookup (mem M) pt v \<noteq> None" using Cons.prems(3) by auto
  obtain M1 where um: "pt_unmap P v pt M = Some (pt, M1)" and f1: "falloc M1 = falloc M"
    using pt_unmap_total [OF bs Cons.prems(1) v] .
  have st: "pt_step P free v None pt M pt M1" using pt_unmap_Some(2) [OF bs Cons.prems(1) v(1) um] .
  have "\<forall>w\<in>set vs. user_vpn w \<and> pt_lookup (mem M1) pt w \<noteq> None"
    using Cons.prems(2,3) st by (auto simp: pt_step_def)
  then obtain M' where m: "unmap_pages P vs pt M1 = Some (pt, M')" "falloc M' = falloc M1" "pt_ok P free pt M'"
    "\<forall>w. user_vpn w \<longrightarrow> pt_lookup (mem M') pt w = (if w \<in> set vs then None else pt_lookup (mem M1) pt w)"
    "\<forall>x. x div 4096 \<notin> set (root_frame pt # frames pt) \<longrightarrow> mem M' x = mem M1 x"
    using Cons.IH [of M1] st Cons.prems(2) by (auto simp: pt_step_def)
  have "unmap_pages P (v # vs) pt M = Some (pt, M')" by (simp add: um m(1))
  moreover have "pt_lookup (mem M') pt w = (if w \<in> set (v # vs) then None else pt_lookup (mem M) pt w)"
    if "user_vpn w" for w
    using m(4) that st by (auto simp: pt_step_def)
  moreover have "mem M' x = mem M x" if "x div 4096 \<notin> set (root_frame pt # frames pt)" for x
    using m(5) that st by (simp add: pt_step_def)
  ultimately show ?case using m(2,3) f1 by auto
qed simp

text \<open>
  When pages leave a space and their frames go back to the allocator, what is left is
  still a well-formed space.
\<close>

lemma ms_ok_removed:
  assumes ok: "ms_ok P free ms M" and areas: "areas_ok m'"
    and owns: "\<And>v p pr. ms_owns m' v p pr \<Longrightarrow> ms_owns (user_areas ms) v p pr \<and> v \<notin> S"
    and pages: "ms_pages m' = ms_pages (user_areas ms) - S"
    and pt: "pt_ok P free (ms_table ms) M'"
    and lk: "\<And>w. user_vpn w \<Longrightarrow> pt_lookup (mem M') (ms_table ms) w
                = (if w \<in> S then None else pt_lookup (mem M) (ms_table ms) w)"
    and av: "avail P free M' \<subseteq> avail P free M \<union> {p. \<exists>v\<in>S. \<exists>pr. ms_owns (user_areas ms) v p pr}"
  shows "ms_ok P free \<lparr>ms_table = ms_table ms, user_areas = m'\<rparr> M'"
  unfolding ms_ok_def memory_space.simps
proof (intro conjI allI impI)
  note d = ms_okD [OF ok]
  show "areas_ok m'" by (rule areas)
  show "pt_ok P free (ms_table ms) M'" by (rule pt)
  show "pt_lookup (mem M') (ms_table ms) v \<noteq> None \<longleftrightarrow> v \<in> ms_pages m'" if "user_vpn v" for v
    using lk [OF that] d(3) [OF that] pages by auto
  fix v p pr assume o: "ms_owns m' v p pr"
  have o': "ms_owns (user_areas ms) v p pr" "v \<notin> S" using owns [OF o] by auto
  have "user_vpn v" using ms_pages_user [OF d(1) ms_owns_page [OF o'(1)]] .
  then show "pt_lookup (mem M') (ms_table ms) v = Some (p, pte_flags_from pr OR PTE_V)"
    using lk o'(2) d(4) [OF o'(1)] by simp
  show "p \<notin> set (root_frame (ms_table ms) # frames (ms_table ms))" "frame_in P p"
    using d(5) [OF o'(1)] by auto
  show "p \<notin> avail P free M'"
  proof
    assume "p \<in> avail P free M'"
    then obtain w pr' where "w \<in> S" "ms_owns (user_areas ms) w p pr'" using av d(5) [OF o'(1)] by blast
    then show False using d(6) [OF o'(1)] o'(2) by blast
  qed
  show "v = v'" if "ms_owns m' v' p pr'" for v' pr' using d(6) [OF o'(1)] owns [OF that] by blast
qed

section \<open>Areas\<close>

lemma area_pages_disjoint:
  assumes "areas_ok m" "(k, a) \<in> set m" "(j, b) \<in> set m" "j \<noteq> k" "v \<in> area_pages b"
  shows "v \<notin> area_pages a"
proof
  assume "v \<in> area_pages a"
  then have "v \<in> {vpn_start a..<vpn_end a}" "v \<in> {vpn_start b..<vpn_end b}"
    using area_ok_pages [OF areas_ok_area [OF assms(1,2)]] area_ok_pages [OF areas_ok_area [OF assms(1,3)]]
      assms(5) by auto
  then show False using areas_ok_unique [OF assms(1-3)] assms(4) by blast
qed

lemma owned_keys: "bt_get (unbacked_map a) v = Some p \<Longrightarrow> v \<in> area_pages a"
  using dom_bt_get [of "unbacked_map a"] by (auto simp: area_pages_def)

text \<open>Pages are taken out of the tables and their frames given back.\<close>

lemma release_pages:
  assumes bs: "buddy_spec P free" and ok: "ms_ok P free ms M"
    and vs: "distinct vs" "set vs \<subseteq> ms_pages (user_areas ms)"
    and ps: "\<forall>p\<in>set ps. \<exists>v\<in>set vs. \<exists>pr. ms_owns (user_areas ms) v p pr"
  obtains M1 M' where "unmap_pages P vs (ms_table ms) M = Some (ms_table ms, M1)" "frames_drop P ps M1 = Some M'"
    "pt_ok P free (ms_table ms) M'"
    "\<And>w. user_vpn w \<Longrightarrow> pt_lookup (mem M') (ms_table ms) w = (if w \<in> set vs then None else pt_lookup (mem M) (ms_table ms) w)"
    "\<And>x. x div 4096 \<notin> set (root_frame (ms_table ms) # frames (ms_table ms)) \<Longrightarrow> mem M' x = mem M x"
    "avail P free M' \<subseteq> avail P free M \<union> {p. \<exists>v\<in>set vs. \<exists>pr. ms_owns (user_areas ms) v p pr}"
proof -
  let ?m = "user_areas ms" and ?pt = "ms_table ms"
  note d = ms_okD [OF ok]
  have "\<forall>v\<in>set vs. user_vpn v \<and> pt_lookup (mem M) ?pt v \<noteq> None"
    using vs(2) ms_pages_user [OF d(1)] d(3) by blast
  from unmap_pages_ok [OF bs d(2) vs(1) this]
  obtain M1 where m1: "unmap_pages P vs ?pt M = Some (?pt, M1)" "falloc M1 = falloc M" "pt_ok P free ?pt M1"
    "\<And>w. user_vpn w \<Longrightarrow> pt_lookup (mem M1) ?pt w = (if w \<in> set vs then None else pt_lookup (mem M) ?pt w)"
    "\<And>x. x div 4096 \<notin> set (root_frame ?pt # frames ?pt) \<Longrightarrow> mem M1 x = mem M x"
    by blast
  have av1: "avail P free M1 = avail P free M" "avail_ok P free M1" using m1(2,3) by (simp_all add: avail_def pt_ok_def)
  have "\<forall>p\<in>set ps. frame_in P p" using ps d(5) by blast
  from frames_drop_ok [OF bs av1(2) this]
  obtain M' where m2: "frames_drop P ps M1 = Some M'" "mem M' = mem M1" "avail_ok P free M'"
    "avail P free M' \<subseteq> set ps \<union> avail P free M" using av1(1) by auto
  have "avail P free M \<inter> set (root_frame ?pt # frames ?pt) = {}" using d(2) unfolding pt_ok_def by blast
  moreover have "p \<notin> set (root_frame ?pt # frames ?pt)" if "p \<in> set ps" for p using ps that d(5) by blast
  ultimately have dj: "avail P free M' \<inter> set (root_frame ?pt # frames ?pt) = {}" using m2(4) by blast
  have "pt_ok P free ?pt M'" using pt_ok_frame(1) [OF m1(3) _ m2(3) dj] m2(2) by simp
  then show thesis by (rule that [OF m1(1) m2(1)]) (use m1(4,5) m2(2,4) ps in auto)
qed

lemma area_unmap_ok:
  assumes bs: "buddy_spec P free" and ok: "ms_ok P free ms M" and ka: "(k, a) \<in> set (user_areas ms)"
  obtains a' M' where "area_unmap P a (ms_table ms) M = Some (a', ms_table ms, M')"
    "ms_ok P free \<lparr>ms_table = ms_table ms, user_areas = bt_remove k (user_areas ms)\<rparr> M'"
    "\<And>w. user_vpn w \<Longrightarrow> pt_lookup (mem M') (ms_table ms) w
        = (if w \<in> area_pages a then None else pt_lookup (mem M) (ms_table ms) w)"
    "\<And>x. x div 4096 \<notin> set (root_frame (ms_table ms) # frames (ms_table ms)) \<Longrightarrow> mem M' x = mem M x"
    "avail P free M' \<subseteq> avail P free M \<union> {p. \<exists>v pr. ms_owns (user_areas ms) v p pr}"
proof -
  let ?m = "user_areas ms" and ?pt = "ms_table ms"
  let ?vs = "bt_keys (unbacked_map a) @ bt_keys (backed_pages a)"
  note d = ms_okD [OF ok]
  have inv: "bt_inv ?m" and aok: "area_ok k a" using areas_ok_inv [OF d(1)] areas_ok_area [OF d(1) ka] by auto
  have sv: "set ?vs = area_pages a" by (simp add: bt_keys_def area_pages_def)
  have dist: "distinct ?vs"
    using aok bt_inv_distinct [of "unbacked_map a"] bt_inv_distinct [of "backed_pages a"]
    by (cases "area_ty a") (auto simp: area_ok_def bt_keys_def)
  have pg: "set ?vs \<subseteq> ms_pages ?m" unfolding sv using ka by (auto simp: ms_pages_def)
  have own: "\<forall>p\<in>set (map snd (unbacked_map a)). \<exists>v\<in>set ?vs. \<exists>pr. ms_owns ?m v p pr"
  proof
    fix p assume "p \<in> set (map snd (unbacked_map a))"
    then obtain v where "(v, p) \<in> set (unbacked_map a)" by auto
    then have g: "bt_get (unbacked_map a) v = Some p" using aok by (simp add: bt_get_in area_ok_def)
    then show "\<exists>v\<in>set ?vs. \<exists>pr. ms_owns ?m v p pr" unfolding sv using ka owned_keys [OF g] by (auto simp: ms_owns_def)
  qed
  obtain M1 M' where r: "unmap_pages P ?vs ?pt M = Some (?pt, M1)" "frames_drop P (map snd (unbacked_map a)) M1 = Some M'"
    "pt_ok P free ?pt M'"
    "\<And>w. user_vpn w \<Longrightarrow> pt_lookup (mem M') ?pt w = (if w \<in> area_pages a then None else pt_lookup (mem M) ?pt w)"
    "\<And>x. x div 4096 \<notin> set (root_frame ?pt # frames ?pt) \<Longrightarrow> mem M' x = mem M x"
    "avail P free M' \<subseteq> avail P free M \<union> {p. \<exists>v\<in>area_pages a. \<exists>pr. ms_owns ?m v p pr}"
    using release_pages [OF bs ok dist pg own, unfolded sv] by blast
  have "ms_ok P free \<lparr>ms_table = ?pt, user_areas = bt_remove k ?m\<rparr> M'"
  proof (rule ms_ok_removed [OF ok _ _ _ r(3,4,6)])
    show "areas_ok (bt_remove k ?m)" using d(1) by (rule areas_ok_remove)
    show "ms_owns ?m v p pr \<and> v \<notin> area_pages a" if "ms_owns (bt_remove k ?m) v p pr" for v p pr
      using that area_pages_disjoint [OF d(1) ka] owned_keys
      unfolding ms_owns_def set_bt_remove [OF inv] by fastforce
    show "ms_pages (bt_remove k ?m) = ms_pages ?m - area_pages a"
    proof -
      have "ms_pages ?m = area_pages a \<union> ms_pages (bt_remove k ?m)"
        unfolding ms_pages_def set_bt_remove [OF inv] by (subst set_split_key [OF inv ka]) simp
      moreover have "area_pages a \<inter> ms_pages (bt_remove k ?m) = {}"
        unfolding ms_pages_def set_bt_remove [OF inv] using area_pages_disjoint [OF d(1) ka] by fastforce
      ultimately show ?thesis by blast
    qed
  qed
  moreover have "avail P free M' \<subseteq> avail P free M \<union> {p. \<exists>v pr. ms_owns ?m v p pr}" using r(6) by blast
  ultimately show thesis using that r(1,2,4,5) by (simp add: area_unmap_def)
qed

lemma unmap_areas_ok:
  assumes bs: "buddy_spec P free" and "ms_ok P free ms M" "distinct ks" "set ks \<subseteq> fst ` set (user_areas ms)"
  shows "\<exists>M'. unmap_areas P ks ms M
        = Some (\<lparr>ms_table = ms_table ms, user_areas = fold bt_remove ks (user_areas ms)\<rparr>, M')
     \<and> ms_ok P free \<lparr>ms_table = ms_table ms, user_areas = fold bt_remove ks (user_areas ms)\<rparr> M'
     \<and> (\<forall>w. user_vpn w \<longrightarrow> pt_lookup (mem M') (ms_table ms) w =
          (if \<exists>(k, a)\<in>set (user_areas ms). k \<in> set ks \<and> w \<in> area_pages a then None
           else pt_lookup (mem M) (ms_table ms) w))
     \<and> (\<forall>x. x div 4096 \<notin> set (root_frame (ms_table ms) # frames (ms_table ms)) \<longrightarrow> mem M' x = mem M x)
     \<and> avail P free M' \<subseteq> avail P free M \<union> {p. \<exists>v pr. ms_owns (user_areas ms) v p pr}"
  using assms(2-4)
proof (induction ks arbitrary: ms M)
  case (Cons k ks)
  let ?m = "user_areas ms" and ?pt = "ms_table ms"
  have inv: "bt_inv ?m" using areas_ok_inv [OF ms_okD(1) [OF Cons.prems(1)]] .
  obtain a where ka: "(k, a) \<in> set ?m" using Cons.prems(3) by auto
  then have g: "bt_get ?m k = Some a" using inv by (simp add: bt_get_in)
  let ?ms = "\<lparr>ms_table = ?pt, user_areas = bt_remove k ?m\<rparr>"
  obtain a' M1 where m1: "area_unmap P a ?pt M = Some (a', ?pt, M1)" "ms_ok P free ?ms M1"
    "\<And>w. user_vpn w \<Longrightarrow> pt_lookup (mem M1) ?pt w = (if w \<in> area_pages a then None else pt_lookup (mem M) ?pt w)"
    "\<And>x. x div 4096 \<notin> set (root_frame ?pt # frames ?pt) \<Longrightarrow> mem M1 x = mem M x"
    "avail P free M1 \<subseteq> avail P free M \<union> {p. \<exists>v pr. ms_owns ?m v p pr}"
    by (rule area_unmap_ok [OF bs Cons.prems(1) ka]) blast
  have sub: "set ks \<subseteq> fst ` set (user_areas ?ms)"
    using Cons.prems(2,3) by (fastforce simp: set_bt_remove [OF inv])
  obtain M' where m2: "unmap_areas P ks ?ms M1 = Some (\<lparr>ms_table = ?pt, user_areas = fold bt_remove ks (bt_remove k ?m)\<rparr>, M')"
    "ms_ok P free \<lparr>ms_table = ?pt, user_areas = fold bt_remove ks (bt_remove k ?m)\<rparr> M'"
    "\<And>w. user_vpn w \<Longrightarrow> pt_lookup (mem M') ?pt w =
          (if \<exists>(j, b)\<in>set (bt_remove k ?m). j \<in> set ks \<and> w \<in> area_pages b then None else pt_lookup (mem M1) ?pt w)"
    "\<And>x. x div 4096 \<notin> set (root_frame ?pt # frames ?pt) \<Longrightarrow> mem M' x = mem M1 x"
    "avail P free M' \<subseteq> avail P free M1 \<union> {p. \<exists>v pr. ms_owns (bt_remove k ?m) v p pr}"
    using Cons.IH [OF m1(2) _ sub] Cons.prems(2) by auto
  have "unmap_areas P (k # ks) ms M = Some (\<lparr>ms_table = ?pt, user_areas = fold bt_remove (k # ks) ?m\<rparr>, M')"
    by (simp add: g m1(1) m2(1))
  moreover have "pt_lookup (mem M') ?pt w = (if \<exists>(j, b)\<in>set ?m. j \<in> set (k # ks) \<and> w \<in> area_pages b then None
      else pt_lookup (mem M) ?pt w)" if "user_vpn w" for w
  proof -
    have "(\<exists>(j, b)\<in>set ?m. j \<in> set (k # ks) \<and> w \<in> area_pages b) \<longleftrightarrow>
        w \<in> area_pages a \<or> (\<exists>(j, b)\<in>set (bt_remove k ?m). j \<in> set ks \<and> w \<in> area_pages b)"
    proof -
      have sm: "set ?m = insert (k, a) (set (bt_remove k ?m))" and "\<forall>(j, b)\<in>set (bt_remove k ?m). j \<noteq> k"
        using set_split_key [OF inv ka] by (auto simp: set_bt_remove [OF inv])
      then show ?thesis unfolding sm by auto
    qed
    then show ?thesis using m2(3) [OF that] m1(3) [OF that] by simp
  qed
  moreover have "{p. \<exists>v pr. ms_owns (bt_remove k ?m) v p pr} \<subseteq> {p. \<exists>v pr. ms_owns ?m v p pr}"
    by (auto simp: ms_owns_def set_bt_remove [OF inv])
  then have "avail P free M' \<subseteq> avail P free M \<union> {p. \<exists>v pr. ms_owns ?m v p pr}" using m1(5) m2(5) by blast
  ultimately show ?case using m1(4) m2(2,4) by auto
next
  case Nil
  then show ?case by (cases ms) simp
qed

section \<open>Ranges\<close>

definition in_range :: "vpn \<Rightarrow> vpn \<Rightarrow> vm_area \<Rightarrow> bool" where
  "in_range s e a \<longleftrightarrow> s \<le> vpn_start a \<and> vpn_end a \<le> e"

definition off_range :: "vpn \<Rightarrow> vpn \<Rightarrow> vm_area \<Rightarrow> bool" where
  "off_range s e a \<longleftrightarrow> vpn_end a \<le> s \<or> e \<le> vpn_start a"

lemma areas_to_unmap_Cons:
  "areas_to_unmap s e (a # as) =
     (if in_range s e a then map_option (Cons (vpn_start a)) (areas_to_unmap s e as)
      else if vpn_end a \<le> s then areas_to_unmap s e as
      else if e \<le> vpn_start a then Some [] else None)"
  by (simp add: in_range_def)

lemma areas_to_unmap_eq:
  assumes "sorted_wrt (\<lambda>a b. vpn_start a < vpn_start b \<and> vpn_end a \<le> vpn_start b) as"
    and "\<forall>a\<in>set as. vpn_start a \<le> vpn_end a"
  shows "areas_to_unmap s e as =
     (if \<forall>a\<in>set as. in_range s e a \<or> off_range s e a then Some (map vpn_start (filter (in_range s e) as)) else None)"
  using assms
proof (induction as)
  case (Cons a as)
  have ih: "areas_to_unmap s e as =
     (if \<forall>a\<in>set as. in_range s e a \<or> off_range s e a then Some (map vpn_start (filter (in_range s e) as)) else None)"
    using Cons by auto
  show ?case
  proof (cases "\<not> in_range s e a \<and> \<not> vpn_end a \<le> s \<and> e \<le> vpn_start a")
    case True
    have "\<forall>b\<in>set as. off_range s e b \<and> \<not> in_range s e b"
    proof
      fix b assume "b \<in> set as"
      then have "vpn_start a < vpn_start b" "vpn_start b \<le> vpn_end b" using Cons.prems by auto
      then show "off_range s e b \<and> \<not> in_range s e b" using True by (auto simp: off_range_def in_range_def)
    qed
    then have "filter (in_range s e) as = []" "\<forall>b\<in>set as. in_range s e b \<or> off_range s e b"
      by (auto simp: filter_empty_conv)
    then show ?thesis using True by (auto simp: in_range_def off_range_def)
  next
    case False
    then show ?thesis
      by (auto simp: ih areas_to_unmap_Cons off_range_def simp del: areas_to_unmap.simps)
  qed
qed simp

text \<open>
  The search starts at the last area before the range; the ones before that area end
  before the range.
\<close>

lemma ms_unmap_areas:
  assumes ok: "areas_ok (user_areas ms)" and s: "s = vpn_floor va_start" and e: "e = vpn_ceil va_end"
  shows "ms_unmap P va_start va_end ms M =
     (if \<forall>(k, a)\<in>set (user_areas ms). in_range s e a \<or> off_range s e a
      then unmap_areas P (map fst (filter (\<lambda>(k, a). in_range s e a) (user_areas ms))) ms M else None)"
proof -
  let ?m = "user_areas ms"
  have inv: "bt_inv ?m" using ok by (rule areas_ok_inv)
  have key: "vpn_start a = k" "vpn_start a \<le> vpn_end a" if "(k, a) \<in> set ?m" for k a
    using areas_ok_area [OF ok that] by (auto simp: area_ok_def)
  define lo where "lo = filter (\<lambda>(k, a). k < s) ?m"
  define hi where "hi = filter (\<lambda>(k, a). s \<le> k) ?m"
  define before where "before = (case bt_last_less s ?m of None \<Rightarrow> [] | Some x \<Rightarrow> [x])"
  have split: "?m = lo @ hi" using bt_split_at [OF inv, of s] by (simp add: lo_def hi_def)
  have nin: "\<not> in_range s e a" if "(k, a) \<in> set lo" for k a
    using that key [of k a] by (auto simp: lo_def in_range_def)
  have bsub: "set before \<subseteq> set lo"
  proof (cases "bt_last_less s ?m")
    case (Some x)
    then show ?thesis
      using bt_last_less_Some(1,2) [OF inv, of s "fst x" "snd x"] by (cases x) (simp add: before_def lo_def)
  qed (simp add: before_def)
  have left: "off_range s e a" if ka: "(k, a) \<in> set lo" "(k, a) \<notin> set before" for k a
  proof (cases "bt_last_less s ?m")
    case None
    then show ?thesis using bt_last_less_None [OF None, of k] ka(1) by (force simp: lo_def)
  next
    case (Some x)
    obtain l b where x: "x = (l, b)" by (cases x)
    note ll = bt_last_less_Some [OF inv Some [unfolded x]]
    have km: "(k, a) \<in> set ?m" "k < s" using ka(1) by (auto simp: lo_def)
    have "k \<le> l" using ll(3) [of k] km by force
    moreover have "k \<noteq> l"
      using ka(2) Some distinct_map_fst_mem [OF bt_inv_distinct [OF inv] ll(1)] km(1) by (auto simp: before_def x)
    ultimately have "vpn_end a \<le> l" using areas_ok_apart [OF ok km(1) ll(1)] by simp
    then show ?thesis using ll(2) by (simp add: off_range_def)
  qed
  let ?as = "map snd (before @ hi)"
  have "sorted_wrt (\<lambda>x y. fst x < fst y) (lo @ hi)" "sorted_wrt (\<lambda>x y. vpn_end (snd x) \<le> fst y) (lo @ hi)"
    using inv ok unfolding split [symmetric] by (simp_all add: bt_inv_def sorted_wrt_map areas_ok_def)
  then have "sorted_wrt (\<lambda>x y. fst x < fst y \<and> vpn_end (snd x) \<le> fst y) (before @ hi)"
    using bsub
    by (cases "bt_last_less s ?m") (force simp: sorted_wrt_append before_def sorted_wrt_conj)+
  then have "sorted_wrt (\<lambda>x y. vpn_start (snd x) < vpn_start (snd y) \<and> vpn_end (snd x) \<le> vpn_start (snd y)) (before @ hi)"
  proof (rule sorted_wrt_mono_rel [rotated])
    fix x y assume "x \<in> set (before @ hi)" "y \<in> set (before @ hi)" "fst x < fst y \<and> vpn_end (snd x) \<le> fst y"
    moreover from this have "x \<in> set ?m" "y \<in> set ?m" using bsub split by auto
    ultimately show "vpn_start (snd x) < vpn_start (snd y) \<and> vpn_end (snd x) \<le> vpn_start (snd y)"
      using key [of "fst x" "snd x"] key [of "fst y" "snd y"] by simp
  qed
  then have srt: "sorted_wrt (\<lambda>a b. vpn_start a < vpn_start b \<and> vpn_end a \<le> vpn_start b) ?as"
    unfolding sorted_wrt_map .
  have sub: "set (before @ hi) \<subseteq> set ?m" using bsub split by auto
  have ne: "\<forall>a\<in>set ?as. vpn_start a \<le> vpn_end a" using sub key(2) by fastforce
  have all: "in_range s e a \<or> off_range s e a"
    if "\<forall>a\<in>set ?as. in_range s e a \<or> off_range s e a" "(k, a) \<in> set ?m" for k a
  proof (cases "(k, a) \<in> set (before @ hi)")
    case True
    then show ?thesis using that(1) by force
  next
    case False
    then show ?thesis using that(2) left [of k a] split by auto
  qed
  have cond: "(\<forall>a\<in>set ?as. in_range s e a \<or> off_range s e a) \<longleftrightarrow> (\<forall>(k, a)\<in>set ?m. in_range s e a \<or> off_range s e a)"
    (is "?L \<longleftrightarrow> ?R")
  proof
    show "?L \<Longrightarrow> ?R" using all by blast
    show "?R \<Longrightarrow> ?L" using sub by force
  qed
  have "filter (\<lambda>(k, a). in_range s e a) lo = []" "filter (in_range s e) (map snd before) = []"
    using nin bsub by (auto simp: filter_empty_conv)
  then have ks: "map vpn_start (filter (in_range s e) ?as) = map fst (filter (\<lambda>(k, a). in_range s e a) ?m)"
    using key(1) unfolding split by (auto simp: filter_map o_def case_prod_unfold split intro!: map_cong)
  have "ms_unmap P va_start va_end ms M = Option.bind (areas_to_unmap s e ?as) (\<lambda>ks. unmap_areas P ks ms M)"
    by (auto simp: ms_unmap_def s e before_def hi_def Let_def split: option.splits)
  then show ?thesis unfolding areas_to_unmap_eq [OF srt ne] cond ks by simp
qed

section \<open>The property\<close>

lemma set_fold_remove: "bt_inv m \<Longrightarrow> set (fold bt_remove ks m) = {x \<in> set m. fst x \<notin> set ks}"
  by (induction ks arbitrary: m) (auto simp: set_bt_remove)

text \<open>
  C7: Unmapping an address range.  If some area overlaps the range only in part the call
  panics, since splitting areas is not implemented.  Otherwise it succeeds: exactly the
  areas inside the range are removed, no page of the range is mapped afterwards, every
  page outside the range keeps its mapping, the space stays well formed, and the pages
  that are still owned keep their contents.
\<close>

theorem munmap_correct:
  assumes "buddy_spec P free" "ms_ok P free ms M" "s = vpn_floor va_start" "e = vpn_ceil va_end"
  shows "if \<forall>(k, a)\<in>set (user_areas ms). in_range s e a \<or> off_range s e a then
       (\<exists>ms' M'. ms_unmap P va_start va_end ms M = Some (ms', M') \<and> ms_ok P free ms' M'
          \<and> set (user_areas ms') = {(k, a) \<in> set (user_areas ms). \<not> in_range s e a}
          \<and> (\<forall>v. user_vpn v \<longrightarrow> pt_lookup (mem M') (ms_table ms') v =
               (if s \<le> v \<and> v < e then None else pt_lookup (mem M) (ms_table ms) v))
          \<and> (\<forall>v p pr x. ms_owns (user_areas ms') v p pr \<and> x div PAGE_SIZE = p \<longrightarrow> mem M' x = mem M x))
     else ms_unmap P va_start va_end ms M = None"
proof (cases "\<forall>(k, a)\<in>set (user_areas ms). in_range s e a \<or> off_range s e a")
  case False
  then show ?thesis unfolding ms_unmap_areas [OF ms_okD(1) [OF assms(2)] assms(3,4)] by (simp only: if_False simp_thms)
next
  case True
  let ?m = "user_areas ms" and ?pt = "ms_table ms"
  define ks where "ks = map fst (filter (\<lambda>(k, a). in_range s e a) ?m)"
  note d = ms_okD [OF assms(2)]
  have inv: "bt_inv ?m" using areas_ok_inv [OF d(1)] .
  have ks: "distinct ks" "set ks \<subseteq> fst ` set ?m"
    using bt_inv_distinct [OF inv] by (auto simp: ks_def distinct_map_filter)
  have kin: "k \<in> set ks \<longleftrightarrow> in_range s e a" if "(k, a) \<in> set ?m" for k a
  proof -
    have "k \<in> set ks \<longleftrightarrow> (\<exists>b. (k, b) \<in> set ?m \<and> in_range s e b)" by (force simp: ks_def)
    then show ?thesis using eq_key_imp_eq_value [OF bt_inv_distinct [OF inv] that] that by blast
  qed
  obtain M' where m: "unmap_areas P ks ms M = Some (\<lparr>ms_table = ?pt, user_areas = fold bt_remove ks ?m\<rparr>, M')"
    "ms_ok P free \<lparr>ms_table = ?pt, user_areas = fold bt_remove ks ?m\<rparr> M'"
    "\<And>w. user_vpn w \<Longrightarrow> pt_lookup (mem M') ?pt w =
        (if \<exists>(k, a)\<in>set ?m. k \<in> set ks \<and> w \<in> area_pages a then None else pt_lookup (mem M) ?pt w)"
    "\<And>x. x div 4096 \<notin> set (root_frame ?pt # frames ?pt) \<Longrightarrow> mem M' x = mem M x"
    using unmap_areas_ok [OF assms(1,2) ks] by blast
  let ?ms = "\<lparr>ms_table = ?pt, user_areas = fold bt_remove ks ?m\<rparr>"
  have "ms_unmap P va_start va_end ms M = Some (?ms, M')"
    using True m(1) by (simp add: ms_unmap_areas [OF d(1) assms(3,4)] ks_def)
  moreover have "set (fold bt_remove ks ?m) = {(k, a) \<in> set ?m. \<not> in_range s e a}"
    using kin by (auto simp: set_fold_remove [OF inv])
  moreover have "pt_lookup (mem M') ?pt v = (if s \<le> v \<and> v < e then None else pt_lookup (mem M) ?pt v)"
    if v: "user_vpn v" for v
  proof -
    have rng: "vpn_start a \<le> v" "v < vpn_end a" if "(k, a) \<in> set ?m" "v \<in> area_pages a" for k a
      using area_ok_pages [OF areas_ok_area [OF d(1) that(1)]] that(2) by auto
    show ?thesis
    proof (cases "v \<in> ms_pages ?m")
      case False
      then have "pt_lookup (mem M) ?pt v = None" using d(3) [OF v] by blast
      then show ?thesis using m(3) [OF v] by simp
    next
      case True': True
      then obtain k a where ka: "(k, a) \<in> set ?m" "v \<in> area_pages a" by (auto simp: ms_pages_def)
      have "(\<exists>(j, b)\<in>set ?m. j \<in> set ks \<and> v \<in> area_pages b) \<longleftrightarrow> in_range s e a"
        using area_pages_disjoint [OF d(1) ka(1)] ka kin by fastforce
      moreover have "in_range s e a \<longleftrightarrow> s \<le> v \<and> v < e"
        using rng [OF ka] True ka(1) by (fastforce simp: in_range_def off_range_def)
      ultimately show ?thesis using m(3) [OF v] by simp
    qed
  qed
  moreover have "mem M' x = mem M x" if "ms_owns (fold bt_remove ks ?m) v p pr" "x div PAGE_SIZE = p" for v p pr x
    using ms_okD(5) [OF m(2)] that m(4) by (auto simp: PAGE_SIZE_def)
  ultimately show ?thesis using True m(2) by (auto simp: Let_def)
qed

theorem munmap_correct_witness:
  "ms_unmap list_platform 0x11000 0x13000 demo_ms demo_M = None
   \<and> (\<exists>ms' M'. ms_unmap list_platform 0x10000 0x21000 demo_ms demo_M = Some (ms', M')
        \<and> user_areas ms' = [] \<and> pt_lookup (mem M') (ms_table ms') 0x12 = None)"
proof -
  have v: "vpn_floor 0x11000 = 0x11" "vpn_ceil 0x13000 = 0x13" "vpn_floor 0x10000 = 0x10" "vpn_ceil 0x21000 = 0x21"
    by (simp_all add: vpn_floor_div vpn_ceil_def div_ceil_def PAGE_SIZE_def)
  have "ms_unmap list_platform 0x11000 0x13000 demo_ms demo_M = None"
    using munmap_correct [OF list_platform_spec demo_ms_ok v(1) [symmetric] v(2) [symmetric]]
    by (simp add: demo_ms_def vm_area_new_def in_range_def off_range_def)
  moreover have inside: "\<forall>(k, a)\<in>set (user_areas demo_ms). in_range 0x10 0x21 a"
    by (simp add: demo_ms_def vm_area_new_def in_range_def)
  then have cond: "\<forall>(k, a)\<in>set (user_areas demo_ms). in_range 0x10 0x21 a \<or> off_range 0x10 0x21 a"
    by auto
  obtain ms' M' where m: "ms_unmap list_platform 0x10000 0x21000 demo_ms demo_M = Some (ms', M')"
    "set (user_areas ms') = {(k, a) \<in> set (user_areas demo_ms). \<not> in_range 0x10 0x21 a}"
    "\<forall>v. user_vpn v \<longrightarrow> pt_lookup (mem M') (ms_table ms') v =
       (if 0x10 \<le> v \<and> v < 0x21 then None else pt_lookup (mem demo_M) (ms_table demo_ms) v)"
    using munmap_correct [OF list_platform_spec demo_ms_ok v(3) [symmetric] v(4) [symmetric]]
    unfolding if_P [OF cond] by blast
  have "set (user_areas ms') = {}" using m(2) inside by auto
  moreover have "pt_lookup (mem M') (ms_table ms') 0x12 = None" using m(3) by (simp add: user_vpn_def)
  ultimately show ?thesis using m(1) by auto
qed

end
