(* ===== verification/SpaceFork.thy ===== *)
theory SpaceFork
  imports SpaceUnmap
begin

text \<open>
  Copying an address space for a forked process (\<open>MemorySpace::from_other\<close>,
  memory/memory_space/mod.rs).  The definitions are those of \<open>MemorySpace\<close>; this theory
  shows that the copy has the same areas, that every page has the same contents in a frame
  of its own, and that the copied space is left as it was.
\<close>

section \<open>What the copy may change\<close>

text \<open>
  A space grows: its tables come from the frames that were available, and only those
  frames and its own tables are written.
\<close>

definition grown ::
  "'fa platform \<Rightarrow> ('fa \<Rightarrow> nat set) \<Rightarrow> page_table \<Rightarrow> 'fa machine \<Rightarrow> page_table \<Rightarrow> 'fa machine \<Rightarrow> bool" where
  "grown P free pt M pt' M' \<longleftrightarrow> root_frame pt' = root_frame pt
   \<and> set (frames pt') \<subseteq> set (frames pt) \<union> avail P free M
   \<and> avail P free M' \<subseteq> avail P free M
   \<and> (\<forall>x. x div 4096 \<notin> set (root_frame pt # frames pt) \<union> avail P free M \<longrightarrow> mem M' x = mem M x)"

lemma grown_refl: "grown P free pt M pt M"
  by (simp add: grown_def)

lemma grown_trans:
  assumes "grown P free pt M pt1 M1" "grown P free pt1 M1 pt2 M2"
  shows "grown P free pt M pt2 M2"
proof -
  have "mem M2 x = mem M x" if x: "x div 4096 \<notin> set (root_frame pt # frames pt) \<union> avail P free M" for x
  proof -
    have "x div 4096 \<notin> set (root_frame pt1 # frames pt1) \<union> avail P free M1"
      using x assms(1) unfolding grown_def by auto
    then have "mem M2 x = mem M1 x" using assms(2) unfolding grown_def by blast
    then show ?thesis using x assms(1) unfolding grown_def by simp
  qed
  then show ?thesis using assms unfolding grown_def by - (elim conjE, intro conjI allI impI, simp, blast, blast, blast)
qed

lemma page_added_grown: "page_added P free v p f pt M pt' M' \<Longrightarrow> grown P free pt M pt' M'"
  unfolding page_added_def grown_def by auto

lemma grown_write:
  assumes "grown P free pt M pt' M'" "p \<in> avail P free M" "falloc M'' = falloc M'"
    and "\<And>x. x div 4096 \<noteq> p \<Longrightarrow> mem M'' x = mem M' x"
  shows "grown P free pt M pt' M''"
proof -
  have "avail P free M'' = avail P free M'" using assms(3) by (simp add: avail_def)
  moreover have "mem M'' x = mem M' x" if "x div 4096 \<notin> set (root_frame pt # frames pt) \<union> avail P free M" for x
    using that assms(2) by (intro assms(4)) blast
  ultimately show ?thesis using assms(1) unfolding grown_def by simp
qed

text \<open>A space is well formed as long as its tables say the same.\<close>

lemma ms_ok_lookups:
  assumes ok: "ms_ok P free ms M" and pt: "pt_ok P free (ms_table ms) M'"
    and lk: "\<And>v. user_vpn v \<Longrightarrow> pt_lookup (mem M') (ms_table ms) v = pt_lookup (mem M) (ms_table ms) v"
    and av: "avail P free M' \<subseteq> avail P free M"
  shows "ms_ok P free ms M'"
  unfolding ms_ok_def
proof (intro conjI allI impI)
  note d = ms_okD [OF ok]
  show "areas_ok (user_areas ms)" "pt_ok P free (ms_table ms) M'" using d(1) pt by blast+
  fix w
  show "pt_lookup (mem M') (ms_table ms) w \<noteq> None \<longleftrightarrow> w \<in> ms_pages (user_areas ms)" if "user_vpn w"
    using d(3) [OF that] lk [OF that] by simp
  fix q pr assume o: "ms_owns (user_areas ms) w q pr"
  show "pt_lookup (mem M') (ms_table ms) w = Some (q, pte_flags_from pr OR PTE_V)"
    using d(4) [OF o] lk [OF ms_pages_user [OF d(1) ms_owns_page [OF o]]] by simp
  show "q \<notin> set (root_frame (ms_table ms) # frames (ms_table ms))" "frame_in P q" "q \<notin> avail P free M'"
    using d(5) [OF o] av by auto
  fix w' pr' assume "ms_owns (user_areas ms) w' q pr'"
  then show "w = w'" using d(6) o by blast
qed

text \<open>Writes to other frames do not matter.\<close>

lemma ms_ok_frame:
  assumes ok: "ms_ok P free ms M"
    and eq: "\<And>x. x div 4096 \<in> set (root_frame (ms_table ms) # frames (ms_table ms)) \<Longrightarrow> mem M' x = mem M x"
    and av: "avail P free M' \<subseteq> avail P free M"
  shows "ms_ok P free ms M'" "user_vpn v \<Longrightarrow> pt_lookup (mem M') (ms_table ms) v = pt_lookup (mem M) (ms_table ms) v"
proof -
  note d = ms_okD [OF ok]
  have "avail_ok P free M" "\<forall>p\<in>set (root_frame (ms_table ms) # frames (ms_table ms)). p \<notin> avail P free M"
    using d(2) by (simp_all add: pt_ok_def)
  then have av': "avail_ok P free M'" "avail P free M' \<inter> set (root_frame (ms_table ms) # frames (ms_table ms)) = {}"
    using av avail_ok_mono by blast+
  have pf: "pt_ok P free (ms_table ms) M'"
    "\<And>v. user_vpn v \<Longrightarrow> pt_lookup (mem M') (ms_table ms) v = pt_lookup (mem M) (ms_table ms) v"
    using pt_ok_frame [OF d(2) eq av'] by blast+
  show "user_vpn v \<Longrightarrow> pt_lookup (mem M') (ms_table ms) v = pt_lookup (mem M) (ms_table ms) v"
    using pf(2) by blast
  show "ms_ok P free ms M'" using ms_ok_lookups [OF ok pf av] .
qed

lemma frame_copy_ok:
  assumes "p < 2 ^ 20" "s < 2 ^ 20"
  obtains M' where "frame_copy_from p s M = Some M'" "falloc M' = falloc M"
    "\<And>x. x div 4096 \<noteq> p \<Longrightarrow> mem M' x = mem M x"
    "\<And>i. i < 4096 \<Longrightarrow> mem M' (p * 4096 + i) = mem M (s * 4096 + i)"
proof -
  let ?m = "wr_bytes (p * 4096) (rd_bytes (mem M) (s * 4096) PAGE_SIZE) (mem M)"
  have r: "frame_copy_from p s M = Some (M\<lparr>mem := ?m\<rparr>)"
    using assms by (simp add: frame_copy_from_def frame_at_0)
  have out: "?m x = mem M x" if "x div 4096 \<noteq> p" for x
  proof -
    have "\<not> (p * 4096 \<le> x \<and> x < p * 4096 + 4096)"
      using that by (auto simp: div_nat_eqI)
    then show ?thesis by (auto simp: wr_bytes_def rd_bytes_def PAGE_SIZE_def)
  qed
  have "?m (p * 4096 + i) = mem M (s * 4096 + i)" if "i < 4096" for i
    using that by (simp add: wr_bytes_def rd_bytes_def PAGE_SIZE_def)
  then show thesis using that [OF r] out by simp
qed

section \<open>Copying the pages of an area\<close>

lemma bt_insert_append:
  assumes "\<forall>j\<in>fst ` set m. j < k"
  shows "bt_insert k a m = m @ [(k, a)]" "bt_insert k a (m @ [(k, b)]) = m @ [(k, a)]"
  using assms by (induction m rule: bt_insert.induct) auto

lemma values_bt_insert: "snd ` set (bt_insert k v m) \<subseteq> insert v (snd ` set m)"
  by (induction m rule: bt_insert.induct) auto

lemma ms_append_page:
  assumes bs: "buddy_spec P free" and ok: "ms_ok P free \<lparr>ms_table = pt, user_areas = m @ [(k, a)]\<rparr> M"
    and lt: "\<forall>j\<in>fst ` set m. j < k" and lazy: "area_ty a = Lazy"
    and v: "k \<le> v" "v < vpn_end a" "v \<notin> fst ` set (unbacked_map a)"
    and s: "s < 2 ^ 20" "s \<notin> avail P free M \<union> set (root_frame pt # frames pt)"
    and can: "can_alloc P (3 + n) (falloc M)"
  obtains p pt' M1 M' where
    "ensure_allocated P v a pt M = Some (p, a\<lparr>unbacked_map := bt_insert v p (unbacked_map a)\<rparr>, pt', M1)"
    "frame_copy_from p s M1 = Some M'" "can_alloc P n (falloc M')" "grown P free pt M pt' M'"
    "ms_ok P free \<lparr>ms_table = pt', user_areas = m @ [(k, a\<lparr>unbacked_map := bt_insert v p (unbacked_map a)\<rparr>)]\<rparr> M'"
    "\<forall>i<4096. mem M' (p * 4096 + i) = mem M (s * 4096 + i)"
    "p \<in> avail P free M"
proof -
  let ?ms = "\<lparr>ms_table = pt, user_areas = m @ [(k, a)]\<rparr>"
  note d = ms_okD [OF ok, unfolded memory_space.simps]
  have ka: "(k, a) \<in> set (m @ [(k, a)])" by simp
  have aok: "area_ok k a" using areas_ok_area [OF d(1) ka] .
  have uv: "user_vpn v" using v(2) aok by (simp add: area_ok_def user_vpn_def)
  have none: "bt_get (unbacked_map a) v = None" using v(3) by (rule bt_get_notin)
  have "v \<notin> area_pages a" using v(3) aok lazy by (simp add: area_ok_def area_pages_def)
  then have nomap: "pt_lookup (mem M) pt v = None"
    using d(3) [OF uv] page_of_area(1) [OF d(1) ka v(1,2)] by blast
  have can': "can_alloc P (Suc (Suc (Suc n))) (falloc M)" using can by (simp add: numeral_3_eq_3)
  obtain p a' pt' M1 where en: "ensure_allocated P v a pt M = Some (p, a', pt', M1)" and c1: "can_alloc P n (falloc M1)"
    using ensure_allocated_total [OF bs d(2) uv lazy nomap can'] .
  note en' = ensure_allocated_new [OF bs d(2) uv none en]
  let ?a = "a\<lparr>unbacked_map := bt_insert v p (unbacked_map a)\<rparr>" and ?ms' = "\<lparr>ms_table = pt', user_areas = m @ [(k, a')]\<rparr>"
  have pa: "page_added P free v p (pte_flags_from (perm a)) pt M pt' M1" using en'(3) .
  have ok1: "ms_ok P free ?ms' M1" and own: "ms_owns (m @ [(k, a')]) v p (perm a)"
    using ms_add_page [OF ok, unfolded memory_space.simps, OF ka lazy v(1,2) none pa, of ?ms'] en'(2)
      bt_insert_append(2) [OF lt] by simp_all
  have p: "p \<notin> set (root_frame pt' # frames pt')" "frame_in P p"
    using ms_okD(5) [OF ok1, unfolded memory_space.simps, OF own] by auto
  obtain M' where cp: "frame_copy_from p s M1 = Some M'" "falloc M' = falloc M1"
    "\<And>x. x div 4096 \<noteq> p \<Longrightarrow> mem M' x = mem M1 x"
    "\<And>i. i < 4096 \<Longrightarrow> mem M' (p * 4096 + i) = mem M1 (s * 4096 + i)"
    using frame_copy_ok [OF frame_in_bound [OF p(2)] s(1), where M = M1] by blast
  have pav: "p \<in> avail P free M" using pa by (simp add: page_added_def)
  have g: "grown P free pt M pt' M'" using grown_write [OF page_added_grown [OF pa] pav cp(2,3)] .
  have ok': "ms_ok P free ?ms' M'"
  proof (rule ms_ok_frame(1) [OF ok1])
    show "mem M' x = mem M1 x" if "x div 4096 \<in> set (root_frame (ms_table ?ms') # frames (ms_table ?ms'))" for x
      using that p(1) by (intro cp(3)) auto
  qed (simp add: avail_def cp(2))
  have src: "mem M' (p * 4096 + i) = mem M (s * 4096 + i)"
    if "i < 4096" for i
  proof -
    have "(s * 4096 + i) div 4096 = s" using that by simp
    then show ?thesis using page_added_grown [OF pa] s(2) cp(4) [OF that] unfolding grown_def by simp
  qed
  show thesis
    by (rule that [OF en [unfolded en'(2)] cp(1) _ g ok' [unfolded en'(2)] _ pav]) (use c1 cp(2) src in simp_all)
qed

text \<open>The pages of the copy hold what the source pages held.\<close>

definition copied :: "(vpn, ppn) btree \<Rightarrow> memory \<Rightarrow> (vpn, ppn) btree \<Rightarrow> memory \<Rightarrow> bool" where
  "copied ps mm qs mm' \<longleftrightarrow> (\<forall>(v, s)\<in>set ps. \<exists>q. bt_get qs v = Some q
      \<and> (\<forall>i<4096. mm' (q * 4096 + i) = mm (s * 4096 + i)))"

lemma grown_keeps:
  assumes "ms_ok P free ms M" "grown P free (ms_table ms) M pt' M'" "ms_owns (user_areas ms) v q pr" "i < 4096"
  shows "mem M' (q * 4096 + i) = mem M (q * 4096 + i)"
proof -
  have "(q * 4096 + i) div 4096 = q" using assms(4) by simp
  then show ?thesis using ms_okD(5) [OF assms(1,3)] assms(2) unfolding grown_def by simp
qed

text \<open>The frames that are copied belong to somebody else.\<close>

definition foreign :: "'fa platform \<Rightarrow> ('fa \<Rightarrow> nat set) \<Rightarrow> page_table \<Rightarrow> 'fa machine \<Rightarrow> (vpn, ppn) btree \<Rightarrow> bool" where
  "foreign P free pt M ps \<longleftrightarrow>
     (\<forall>(v, s)\<in>set ps. s < 2 ^ 20 \<and> s \<notin> avail P free M \<union> set (root_frame pt # frames pt))"

lemma foreign_grown:
  assumes "foreign P free pt M ps" "grown P free pt M pt' M'"
  shows "foreign P free pt' M' ps"
    and "(v, s) \<in> set ps \<Longrightarrow> i < 4096 \<Longrightarrow> mem M' (s * 4096 + i) = mem M (s * 4096 + i)"
proof -
  show "foreign P free pt' M' ps"
    unfolding foreign_def
  proof (clarify, intro conjI)
    fix v s assume "(v, s) \<in> set ps"
    then have "s < 2 ^ 20" "s \<notin> avail P free M \<union> set (root_frame pt # frames pt)"
      using assms(1) by (auto simp: foreign_def)
    then show "s < 2 ^ 20" "s \<notin> avail P free M' \<union> set (root_frame pt' # frames pt')"
      using assms(2) unfolding grown_def by auto
  qed
  assume "(v, s) \<in> set ps" "i < 4096"
  then have "(s * 4096 + i) div 4096 = s" "s \<notin> avail P free M \<union> set (root_frame pt # frames pt)"
    using assms(1) by (auto simp: foreign_def)
  then show "mem M' (s * 4096 + i) = mem M (s * 4096 + i)" using assms(2) unfolding grown_def by simp
qed

lemma copied_source:
  "foreign P free pt M ps \<Longrightarrow> grown P free pt M pt' M' \<Longrightarrow> copied ps (mem M') qs mm \<longleftrightarrow> copied ps (mem M) qs mm"
  unfolding copied_def by (intro ball_cong refl) (auto simp: foreign_grown(2))

lemma copy_pages_ok:
  assumes bs: "buddy_spec P free"
  shows "ms_ok P free \<lparr>ms_table = pt, user_areas = m @ [(k, a)]\<rparr> M \<Longrightarrow> \<forall>j\<in>fst ` set m. j < k \<Longrightarrow>
     area_ty a = Lazy \<Longrightarrow> distinct (map fst ps) \<Longrightarrow> foreign P free pt M ps \<Longrightarrow>
     \<forall>v\<in>fst ` set ps. k \<le> v \<and> v < vpn_end a \<and> v \<notin> fst ` set (unbacked_map a) \<Longrightarrow>
     can_alloc P (3 * length ps + n) (falloc M) \<Longrightarrow>
     \<exists>um pt' M'. copy_pages P ps a pt M = Some (a\<lparr>unbacked_map := um\<rparr>, pt', M') \<and> can_alloc P n (falloc M')
       \<and> grown P free pt M pt' M' \<and> ms_ok P free \<lparr>ms_table = pt', user_areas = m @ [(k, a\<lparr>unbacked_map := um\<rparr>)]\<rparr> M'
       \<and> fst ` set um = fst ` set (unbacked_map a) \<union> fst ` set ps
       \<and> bt_get (unbacked_map a) \<subseteq>\<^sub>m bt_get um \<and> copied ps (mem M) um (mem M')
       \<and> snd ` set um \<subseteq> snd ` set (unbacked_map a) \<union> avail P free M"
proof (induction ps arbitrary: a pt M)
  case Nil
  then show ?case
    by (intro exI [of _ "unbacked_map a"] exI [of _ pt] exI [of _ M]) (simp add: grown_refl copied_def)
next
  case (Cons x ps)
  obtain v s where x: "x = (v, s)" by (cases x)
  have s: "s < 2 ^ 20" "s \<notin> avail P free M \<union> set (root_frame pt # frames pt)"
    using Cons.prems(5) by (auto simp: x foreign_def)
  have v: "k \<le> v" "v < vpn_end a" "v \<notin> fst ` set (unbacked_map a)" using Cons.prems(6) by (auto simp: x)
  have can: "can_alloc P (3 + (3 * length ps + n)) (falloc M)" using Cons.prems(7) by (simp add: add.assoc)
  obtain p pt' M1 M' where ap:
    "ensure_allocated P v a pt M = Some (p, a\<lparr>unbacked_map := bt_insert v p (unbacked_map a)\<rparr>, pt', M1)"
    "frame_copy_from p s M1 = Some M'" "can_alloc P (3 * length ps + n) (falloc M')" "grown P free pt M pt' M'"
    "ms_ok P free \<lparr>ms_table = pt', user_areas = m @ [(k, a\<lparr>unbacked_map := bt_insert v p (unbacked_map a)\<rparr>)]\<rparr> M'"
    "\<forall>i<4096. mem M' (p * 4096 + i) = mem M (s * 4096 + i)" "p \<in> avail P free M"
    using ms_append_page [OF bs Cons.prems(1-3) v s can] .
  let ?a = "a\<lparr>unbacked_map := bt_insert v p (unbacked_map a)\<rparr>"
  have fo: "foreign P free pt M ps" using Cons.prems(5) by (simp add: foreign_def)
  have dom: "\<forall>w\<in>fst ` set ps. k \<le> w \<and> w < vpn_end ?a \<and> w \<notin> fst ` set (unbacked_map ?a)"
    using Cons.prems(4,6) by (auto simp: x)
  have lazy: "area_ty ?a = Lazy" and dist: "distinct (map fst ps)" using Cons.prems(3,4) by simp_all
  obtain um pt2 M2 where ih: "copy_pages P ps ?a pt' M' = Some (?a\<lparr>unbacked_map := um\<rparr>, pt2, M2)" "can_alloc P n (falloc M2)"
    "grown P free pt' M' pt2 M2" "ms_ok P free \<lparr>ms_table = pt2, user_areas = m @ [(k, ?a\<lparr>unbacked_map := um\<rparr>)]\<rparr> M2"
    "fst ` set um = fst ` set (unbacked_map ?a) \<union> fst ` set ps"
    "bt_get (unbacked_map ?a) \<subseteq>\<^sub>m bt_get um" "copied ps (mem M') um (mem M2)"
    "snd ` set um \<subseteq> snd ` set (unbacked_map ?a) \<union> avail P free M'"
    using Cons.IH [OF ap(5) Cons.prems(2) lazy dist foreign_grown(1) [OF fo ap(4)] dom ap(3)]
    by (elim exE conjE)
  have getv: "bt_get um v = Some p" using ih(6) by (auto simp: map_le_def)
  have own: "ms_owns (user_areas \<lparr>ms_table = pt', user_areas = m @ [(k, ?a)]\<rparr>) v p (perm a)"
    by (auto simp: ms_owns_def)
  have keep: "mem M2 (p * 4096 + i) = mem M (s * 4096 + i)" if "i < 4096" for i
    using grown_keeps [OF ap(5) _ own that, of pt2 M2] ih(3) ap(6) that by simp
  have "bt_get (unbacked_map a) \<subseteq>\<^sub>m bt_get (unbacked_map ?a)"
    using bt_get_notin [OF v(3)] by (auto simp: map_le_def)
  then have le: "bt_get (unbacked_map a) \<subseteq>\<^sub>m bt_get um" using ih(6) by (rule map_le_trans)
  have "copied (x # ps) (mem M) um (mem M2)"
    using ih(7) getv keep unfolding copied_source [OF fo ap(4)] by (simp add: copied_def x)
  moreover have "snd ` set um \<subseteq> snd ` set (unbacked_map a) \<union> avail P free M"
  proof -
    have "avail P free M' \<subseteq> avail P free M" using ap(4) by (simp add: grown_def)
    moreover have "snd ` set (unbacked_map ?a) \<subseteq> insert p (snd ` set (unbacked_map a))"
      using values_bt_insert [of v p "unbacked_map a"] by simp
    ultimately show ?thesis using ih(8) ap(7) by blast
  qed
  ultimately show ?case
    using ih(1,2,4,5) le grown_trans [OF ap(4) ih(3)]
    by (intro exI [of _ um] exI [of _ pt2] exI [of _ M2]) (auto simp: x ap(1,2))
qed

section \<open>Copying the areas\<close>

lemma ms_ok_append_new:
  assumes ok: "ms_ok P free \<lparr>ms_table = pt, user_areas = m\<rparr> M"
    and lt: "\<forall>(j, b)\<in>set m. j < k \<and> vpn_end b \<le> k" and e: "k \<le> e" "e \<le> 2 ^ 26"
  shows "ms_ok P free \<lparr>ms_table = pt, user_areas = m @ [(k, vm_area_new k e pr Lazy)]\<rparr> M"
proof -
  let ?m = "m @ [(k, vm_area_new k e pr Lazy)]"
  have "ms_owns ?m = ms_owns m" by (intro ext) (auto simp: ms_owns_def vm_area_new_def)
  moreover have "ms_pages ?m = ms_pages m" by (simp add: ms_pages_def)
  moreover have "areas_ok ?m"
    using ms_okD(1) [OF ok] lt area_ok_new [OF e]
    by (auto simp: areas_ok_def bt_inv_def sorted_wrt_append)
  ultimately show ?thesis using ok by (simp add: ms_ok_def)
qed

text \<open>An area and its copy.\<close>

definition area_copy :: "memory \<Rightarrow> memory \<Rightarrow> vpn \<times> vm_area \<Rightarrow> vpn \<times> vm_area \<Rightarrow> bool" where
  "area_copy mm mm' x y \<longleftrightarrow> fst y = fst x \<and> vpn_start (snd y) = vpn_start (snd x) \<and> vpn_end (snd y) = vpn_end (snd x)
   \<and> perm (snd y) = perm (snd x) \<and> area_ty (snd y) = area_ty (snd x) \<and> backed_pages (snd y) = []
   \<and> fst ` set (unbacked_map (snd y)) = fst ` set (unbacked_map (snd x))
   \<and> copied (unbacked_map (snd x)) mm (unbacked_map (snd y)) mm'"

definition anonymous :: "vm_area \<Rightarrow> bool" where
  "anonymous a \<longleftrightarrow> area_ty a = Lazy \<and> backed_inode a = None"

lemma copy_area_ok:
  assumes bs: "buddy_spec P free" and ok: "ms_ok P free \<lparr>ms_table = pt, user_areas = m\<rparr> M"
    and lt: "\<forall>(j, b)\<in>set m. j < k \<and> vpn_end b \<le> k" and src: "area_ok k s" "anonymous s"
    and fo: "foreign P free pt M (unbacked_map s)"
    and can: "can_alloc P (3 * length (unbacked_map s) + n) (falloc M)"
  obtains d pt' M' where "copy_area P cache s \<lparr>ms_table = pt, user_areas = m\<rparr> M
      = Some (\<lparr>ms_table = pt', user_areas = m @ [(k, d)]\<rparr>, M')"
    "ms_ok P free \<lparr>ms_table = pt', user_areas = m @ [(k, d)]\<rparr> M'" "grown P free pt M pt' M'"
    "can_alloc P n (falloc M')" "area_copy (mem M) (mem M') (k, s) (k, d)"
    "snd ` set (unbacked_map d) \<subseteq> avail P free M"
proof -
  let ?a = "vm_area_new k (vpn_end s) (perm s) Lazy"
  have k: "vpn_start s = k" "k \<le> vpn_end s" "vpn_end s \<le> 2 ^ 26" "bt_inv (unbacked_map s)"
    "fst ` set (unbacked_map s) \<subseteq> {k..<vpn_end s}" using src(1) by (auto simp: area_ok_def)
  have lk: "\<forall>j\<in>fst ` set m. j < k" using lt by auto
  have ok1: "ms_ok P free \<lparr>ms_table = pt, user_areas = m @ [(k, ?a)]\<rparr> M"
    using ms_ok_append_new [OF ok lt k(2,3)] .
  have dom: "\<forall>v\<in>fst ` set (unbacked_map s). k \<le> v \<and> v < vpn_end ?a \<and> v \<notin> fst ` set (unbacked_map ?a)"
    using k(5) by (auto simp: vm_area_new_def)
  obtain um pt' M' where cp: "copy_pages P (unbacked_map s) ?a pt M = Some (?a\<lparr>unbacked_map := um\<rparr>, pt', M')"
    "can_alloc P n (falloc M')" "grown P free pt M pt' M'"
    "ms_ok P free \<lparr>ms_table = pt', user_areas = m @ [(k, ?a\<lparr>unbacked_map := um\<rparr>)]\<rparr> M'"
    "fst ` set um = fst ` set (unbacked_map ?a) \<union> fst ` set (unbacked_map s)"
    "copied (unbacked_map s) (mem M) um (mem M')" "snd ` set um \<subseteq> avail P free M"
    using copy_pages_ok [OF bs ok1 lk _ bt_inv_distinct [OF k(4)] fo dom can] by (auto simp: vm_area_new_def)
  have none: "bt_get m k = None" using lk by (intro bt_get_notin) auto
  have "user_map P (vpn_start s) (vpn_end s) (perm s) \<lparr>ms_table = pt, user_areas = m\<rparr> M
      = Some (\<lparr>ms_table = pt, user_areas = m @ [(k, ?a)]\<rparr>, M)"
    using bt_insert_append(1) [OF lk, of ?a] none
    by (simp add: user_map_def insert_area_def k(1)) (simp add: vm_area_new_def)
  moreover have "bt_get (m @ [(k, ?a)]) k = Some ?a"
    using bt_get_insert [of k ?a m] by (simp add: bt_insert_append(1) [OF lk])
  ultimately have "copy_area P cache s \<lparr>ms_table = pt, user_areas = m\<rparr> M
      = Some (\<lparr>ms_table = pt', user_areas = m @ [(k, ?a\<lparr>unbacked_map := um\<rparr>)]\<rparr>, M')"
    using src(2) cp(1) bt_insert_append(2) [OF lk] by (simp add: copy_area_def anonymous_def k(1))
  moreover have "area_copy (mem M) (mem M') (k, s) (k, ?a\<lparr>unbacked_map := um\<rparr>)"
    using cp(5,6) k(1) src(2) by (simp add: area_copy_def vm_area_new_def anonymous_def)
  ultimately show thesis using that [OF _ cp(4,3,2)] cp(7) by simp
qed

lemma area_copy_later:
  assumes ac: "area_copy mm (mem M) x y" and y: "y \<in> set (user_areas ms)" "bt_inv (unbacked_map (snd y))"
    and ok: "ms_ok P free ms M" and gr: "grown P free (ms_table ms) M pt' M'"
  shows "area_copy mm (mem M') x y"
proof -
  have "mem M' (q * 4096 + i) = mem M (q * 4096 + i)"
    if "bt_get (unbacked_map (snd y)) v = Some q" "i < 4096" for v q i
  proof -
    have "ms_owns (user_areas ms) v q (perm (snd y))"
      unfolding ms_owns_def using y(1) that(1) by (intro bexI [of _ y]) (auto split: prod.split)
    then show ?thesis using grown_keeps [OF ok gr] that(2) by blast
  qed
  then have "copied ps mm (unbacked_map (snd y)) (mem M')" if "copied ps mm (unbacked_map (snd y)) (mem M)" for ps
    using that unfolding copied_def by fastforce
  then show ?thesis using ac by (simp add: area_copy_def)
qed

definition area_frames :: "(vpn, vm_area) btree \<Rightarrow> nat" where
  "area_frames m = sum_list (map (\<lambda>(k, a). length (unbacked_map a)) m)"

lemma copy_areas_ok:
  assumes bs: "buddy_spec P free"
  shows "ms_ok P free \<lparr>ms_table = pt, user_areas = m\<rparr> M \<Longrightarrow> areas_ok as \<Longrightarrow>
     \<forall>(k, a)\<in>set as. anonymous a \<and> foreign P free pt M (unbacked_map a) \<Longrightarrow>
     \<forall>(j, b)\<in>set m. \<forall>k\<in>fst ` set as. j < k \<and> vpn_end b \<le> k \<Longrightarrow>
     can_alloc P (3 * area_frames as + n) (falloc M) \<Longrightarrow>
     \<exists>m' pt' M'. copy_areas P cache (map snd as) \<lparr>ms_table = pt, user_areas = m\<rparr> M
         = Some (\<lparr>ms_table = pt', user_areas = m @ m'\<rparr>, M')
       \<and> ms_ok P free \<lparr>ms_table = pt', user_areas = m @ m'\<rparr> M' \<and> grown P free pt M pt' M'
       \<and> can_alloc P n (falloc M') \<and> list_all2 (area_copy (mem M) (mem M')) as m'
       \<and> (\<forall>(k, d)\<in>set m'. snd ` set (unbacked_map d) \<subseteq> avail P free M)"
proof (induction as arbitrary: m pt M)
  case Nil
  then show ?case
    by (intro exI [of _ "[]"] exI [of _ pt] exI [of _ M]) (simp add: grown_refl area_frames_def)
next
  case (Cons x as)
  obtain k a where x: "x = (k, a)" by (cases x)
  have ao: "area_ok k a" "anonymous a" "foreign P free pt M (unbacked_map a)"
    using Cons.prems(2,3) by (auto simp: x areas_ok_def)
  have lt: "\<forall>(j, b)\<in>set m. j < k \<and> vpn_end b \<le> k" using Cons.prems(4) by (auto simp: x)
  have can: "can_alloc P (3 * length (unbacked_map a) + (3 * area_frames as + n)) (falloc M)"
    using Cons.prems(5) by (simp add: x area_frames_def algebra_simps)
  obtain d pt1 M1 where ca: "copy_area P cache a \<lparr>ms_table = pt, user_areas = m\<rparr> M
      = Some (\<lparr>ms_table = pt1, user_areas = m @ [(k, d)]\<rparr>, M1)"
    "ms_ok P free \<lparr>ms_table = pt1, user_areas = m @ [(k, d)]\<rparr> M1" "grown P free pt M pt1 M1"
    "can_alloc P (3 * area_frames as + n) (falloc M1)" "area_copy (mem M) (mem M1) (k, a) (k, d)"
    "snd ` set (unbacked_map d) \<subseteq> avail P free M"
    using copy_area_ok [OF bs Cons.prems(1) lt ao can] .
  have aok: "areas_ok as" and after: "\<forall>j\<in>fst ` set as. k < j \<and> vpn_end a \<le> j"
    using Cons.prems(2) by (auto simp: x areas_ok_def bt_inv_Cons)
  have fo: "\<forall>(j, b)\<in>set as. anonymous b \<and> foreign P free pt1 M1 (unbacked_map b)"
    using Cons.prems(3) foreign_grown(1) [OF _ ca(3)] by auto
  have lt': "\<forall>(j, b)\<in>set (m @ [(k, d)]). \<forall>l\<in>fst ` set as. j < l \<and> vpn_end b \<le> l"
    using Cons.prems(4) after ca(5) by (auto simp: x area_copy_def)
  obtain m' pt' M' where ih: "copy_areas P cache (map snd as) \<lparr>ms_table = pt1, user_areas = m @ [(k, d)]\<rparr> M1
         = Some (\<lparr>ms_table = pt', user_areas = (m @ [(k, d)]) @ m'\<rparr>, M')"
    "ms_ok P free \<lparr>ms_table = pt', user_areas = (m @ [(k, d)]) @ m'\<rparr> M'" "grown P free pt1 M1 pt' M'"
    "can_alloc P n (falloc M')" "list_all2 (area_copy (mem M1) (mem M')) as m'"
    "\<forall>(k, d)\<in>set m'. snd ` set (unbacked_map d) \<subseteq> avail P free M1"
    using Cons.IH [OF ca(2) aok fo lt' ca(4)] by blast
  have "bt_inv (unbacked_map d)"
    using areas_ok_area [OF ms_okD(1) [OF ca(2)], of k d] by (simp add: area_ok_def)
  then have "area_copy (mem M) (mem M') (k, a) (k, d)"
    using area_copy_later [OF ca(5) _ _ ca(2)] ih(3) by simp
  moreover have "list_all2 (area_copy (mem M) (mem M')) as m'"
    using ih(5)
  proof (rule list.rel_mono_strong)
    fix y z assume y: "y \<in> set as" and yz: "area_copy (mem M1) (mem M') y z"
    have "foreign P free pt M (unbacked_map (snd y))" using Cons.prems(3) y by auto
    then show "area_copy (mem M) (mem M') y z"
      using yz copied_source [OF _ ca(3)] by (simp add: area_copy_def)
  qed
  moreover have "\<forall>(k, d)\<in>set m'. snd ` set (unbacked_map d) \<subseteq> avail P free M"
    using ih(6) ca(3) unfolding grown_def by blast
  ultimately show ?case
    using ih(1,2,4) ca(1,6) grown_trans [OF ca(3) ih(3)]
    by (intro exI [of _ "(k, d) # m'"] exI [of _ pt'] exI [of _ M']) (simp add: x)
qed

section \<open>The property\<close>

lemma new_bare_total:
  assumes bs: "buddy_spec P free" and aok: "avail_ok P free M" and can: "can_alloc P (Suc n) (falloc M)"
  obtains pt M' where "new_bare P M = Some (\<lparr>ms_table = pt, user_areas = []\<rparr>, M')"
    "ms_ok P free \<lparr>ms_table = pt, user_areas = []\<rparr> M'" "can_alloc P n (falloc M')"
    "root_frame pt \<in> avail P free M" "frames pt = []" "avail P free M' \<subseteq> avail P free M"
    "\<And>x. x div 4096 \<noteq> root_frame pt \<Longrightarrow> mem M' x = mem M x"
proof -
  obtain r M' where al: "frame_alloc_unwrap P M = Some (r, M')" "can_alloc P n (falloc M')"
    using frame_alloc_unwrap_total [OF bs aok can] .
  let ?pt = "\<lparr>root_frame = r, frames = []\<rparr>"
  have wr: "with_root P M = Some (?pt, M')" by (simp add: with_root_def al(1))
  note w = with_root_ok [OF bs aok wr] and fa = frame_alloc_unwrapD [OF bs aok al(1)]
  have "ms_ok P free \<lparr>ms_table = ?pt, user_areas = []\<rparr> M'"
    by (rule ms_ok_fresh) (use w in \<open>simp_all add: areas_ok_def\<close>)
  moreover have "mem M' x = mem M x" if "x div 4096 \<noteq> r" for x
    using that by (simp add: fa(4) fill_page_outside)
  ultimately show thesis using that [of ?pt M'] wr al(2) w(3,4) fa(2) by (auto simp: new_bare_def)
qed

lemma list_all2_mem: "list_all2 R xs ys \<Longrightarrow> x \<in> set xs \<Longrightarrow> \<exists>y\<in>set ys. R x y"
  by (induction rule: list_all2_induct) auto

lemma area_copies_shape:
  "list_all2 (area_copy mm mm') m m' \<Longrightarrow>
     map (\<lambda>(k, a). (k, vpn_end a, perm a, area_ty a)) m' = map (\<lambda>(k, a). (k, vpn_end a, perm a, area_ty a)) m"
  by (induction rule: list_all2_induct) (auto simp: area_copy_def)

lemma area_copies_pages:
  "list_all2 (area_copy mm mm') m m' \<Longrightarrow> (\<And>k a. (k, a) \<in> set m \<Longrightarrow> backed_pages a = []) \<Longrightarrow> ms_pages m' = ms_pages m"
proof (induction rule: list_all2_induct)
  case (Cons x xs y ys)
  have "area_pages (snd y) = area_pages (snd x)"
    using Cons.hyps(1) Cons.prems [of "fst x" "snd x"] by (simp add: area_copy_def area_pages_def)
  moreover have "ms_pages ys = ms_pages xs" using Cons.IH Cons.prems by auto
  ultimately show ?case by (simp add: ms_pages_def case_prod_unfold)
qed (simp add: ms_pages_def)

lemma area_copies_own:
  assumes "list_all2 (area_copy mm mm') m m'" "ms_owns m v p pr"
  shows "\<exists>q. ms_owns m' v q pr \<and> (\<forall>i<4096. mm' (q * 4096 + i) = mm (p * 4096 + i))"
proof -
  obtain x where x: "x \<in> set m" "bt_get (unbacked_map (snd x)) v = Some p" "perm (snd x) = pr"
    using assms(2) by (auto simp: ms_owns_def)
  obtain y where y: "y \<in> set m'" "area_copy mm mm' x y" using list_all2_mem [OF assms(1) x(1)] by blast
  have "(v, p) \<in> set (unbacked_map (snd x))" using x(2) map_of_SomeD by (simp add: bt_get_def)
  then obtain q where q: "bt_get (unbacked_map (snd y)) v = Some q" "\<forall>i<4096. mm' (q * 4096 + i) = mm (p * 4096 + i)"
    using y(2) unfolding area_copy_def copied_def by blast
  have "ms_owns m' v q pr" unfolding ms_owns_def
    using y x(3) q(1) by (intro bexI [of _ y]) (auto simp: area_copy_def)
  then show ?thesis using q(2) by blast
qed

text \<open>
  C4: Forking an address space whose areas have no file behind them.  The copy succeeds while
  one frame for its root table and three frames per copied page can be allocated.  The parent
  and the child are then both well formed; only frames that were available have been written;
  the child has the same areas and maps the same pages; each page a parent's area owns has a
  frame of its own in the child, with the same permission and the same contents; and no frame
  is owned by both.
\<close>

theorem fork_correct:
  assumes "buddy_spec P free" "ms_ok P free parent M" "kernel_root < 2 ^ 20"
    "\<forall>(k, a)\<in>set (user_areas parent). anonymous a"
    "can_alloc P (1 + 3 * area_frames (user_areas parent)) (falloc M)"
  shows "\<exists>child M'. from_other P cache kernel_root parent M = Some (child, M')
     \<and> ms_ok P free parent M' \<and> ms_ok P free child M'
     \<and> (\<forall>x. x div PAGE_SIZE \<notin> avail P free M \<longrightarrow> mem M' x = mem M x)
     \<and> map (\<lambda>(k, a). (k, vpn_end a, perm a, area_ty a)) (user_areas child)
         = map (\<lambda>(k, a). (k, vpn_end a, perm a, area_ty a)) (user_areas parent)
     \<and> (\<forall>v. user_vpn v \<longrightarrow> (pt_lookup (mem M') (ms_table child) v = None
             \<longleftrightarrow> pt_lookup (mem M) (ms_table parent) v = None))
     \<and> (\<forall>v p pr. ms_owns (user_areas parent) v p pr \<longrightarrow> (\<exists>q. ms_owns (user_areas child) v q pr
           \<and> (\<forall>i<PAGE_SIZE. mem M' (q * PAGE_SIZE + i) = mem M (p * PAGE_SIZE + i))))
     \<and> (\<forall>v w p pr q pr'. ms_owns (user_areas parent) v p pr \<and> ms_owns (user_areas child) w q pr' \<longrightarrow> p \<noteq> q)"
proof -
  let ?pm = "user_areas parent" and ?pt = "ms_table parent"
  note d = ms_okD [OF assms(2)]
  have aok: "avail_ok P free M" using d(2) by (simp add: pt_ok_def)
  obtain pt1 M1 where nb: "new_bare P M = Some (\<lparr>ms_table = pt1, user_areas = []\<rparr>, M1)"
    "ms_ok P free \<lparr>ms_table = pt1, user_areas = []\<rparr> M1" "can_alloc P (3 * area_frames ?pm) (falloc M1)"
    "root_frame pt1 \<in> avail P free M" "frames pt1 = []" "avail P free M1 \<subseteq> avail P free M"
    "\<And>x. x div 4096 \<noteq> root_frame pt1 \<Longrightarrow> mem M1 x = mem M x"
    using new_bare_total [OF assms(1) aok, of "3 * area_frames ?pm"] assms(5) by (metis plus_1_eq_Suc)
  have src: "s < 2 ^ 20 \<and> s \<notin> avail P free M" if "(k, a) \<in> set ?pm" "(v, s) \<in> set (unbacked_map a)" for k a v s
  proof -
    have "bt_inv (unbacked_map a)" using areas_ok_area [OF d(1) that(1)] by (simp add: area_ok_def)
    then have "ms_owns ?pm v s (perm a)"
      unfolding ms_owns_def using that by (intro bexI [of _ "(k, a)"]) (simp_all add: bt_get_in)
    then show ?thesis using d(5) frame_in_bound by blast
  qed
  have fo: "\<forall>(k, a)\<in>set ?pm. anonymous a \<and> foreign P free pt1 M1 (unbacked_map a)"
    using assms(4) src nb(4-6) by (fastforce simp: foreign_def)
  obtain m' pt' M2 where ca: "copy_areas P cache (map snd ?pm) \<lparr>ms_table = pt1, user_areas = []\<rparr> M1
      = Some (\<lparr>ms_table = pt', user_areas = m'\<rparr>, M2)" "ms_ok P free \<lparr>ms_table = pt', user_areas = m'\<rparr> M2"
    "grown P free pt1 M1 pt' M2" "list_all2 (area_copy (mem M1) (mem M2)) ?pm m'"
    "\<forall>(k, d)\<in>set m'. snd ` set (unbacked_map d) \<subseteq> avail P free M1"
    using copy_areas_ok [OF assms(1) nb(2) d(1) fo, of 0 cache] nb(3) by auto
  let ?child = "\<lparr>ms_table = pt', user_areas = m'\<rparr>"
  note dc = ms_okD [OF ca(2), unfolded memory_space.simps]
  obtain M3 where mk: "map_kernel_areas kernel_root pt' M2 = Some M3" "pt_ok P free pt' M3"
    "\<And>v. user_vpn v \<Longrightarrow> pt_lookup (mem M3) pt' v = pt_lookup (mem M2) pt' v"
    "\<And>x. x div 4096 \<noteq> root_frame pt' \<Longrightarrow> mem M3 x = mem M2 x" "falloc M3 = falloc M2"
    using map_kernel_areas_ok [OF dc(2) assms(3)] by blast
  have av: "avail P free M3 = avail P free M2" "avail P free M2 \<subseteq> avail P free M1" "root_frame pt' = root_frame pt1"
    using mk(5) ca(3) by (simp_all add: avail_def grown_def)
  have wr: "mem M3 x = mem M x" if "x div 4096 \<notin> avail P free M" for x
  proof -
    have "x div 4096 \<noteq> root_frame pt1" "x div 4096 \<notin> avail P free M1" using that nb(4,6) by auto
    then show ?thesis using mk(4) nb(5,7) ca(3) av(3) unfolding grown_def by simp
  qed
  have "\<forall>p\<in>set (root_frame ?pt # frames ?pt). p \<notin> avail P free M" using d(2) by (simp add: pt_ok_def)
  then have okp: "ms_ok P free parent M3"
    using wr av nb(6) by (intro ms_ok_frame(1) [OF assms(2)]) auto
  have okc: "ms_ok P free ?child M3"
    by (rule ms_ok_lookups [OF ca(2)]) (use mk av in auto)
  have own: "\<exists>q. ms_owns m' v q pr \<and> (\<forall>i<4096. mem M3 (q * 4096 + i) = mem M (p * 4096 + i))"
    if o: "ms_owns ?pm v p pr" for v p pr
  proof -
    obtain q where q: "ms_owns m' v q pr" "\<And>i. i < 4096 \<Longrightarrow> mem M2 (q * 4096 + i) = mem M1 (p * 4096 + i)"
      using area_copies_own [OF ca(4) o] by blast
    have "mem M3 (q * 4096 + i) = mem M (p * 4096 + i)" if "i < 4096" for i
    proof -
      have "p \<noteq> root_frame pt1" "q \<noteq> root_frame pt'" using d(5) [OF o] dc(5) [OF q(1)] nb(4) by auto
      then show ?thesis using mk(4) [of "q * 4096 + i"] nb(7) [of "p * 4096 + i"] q(2) [OF that] that by simp
    qed
    then show ?thesis using q(1) by blast
  qed
  have sep: "p \<noteq> q" if "ms_owns ?pm v p pr" "ms_owns m' w q pr'" for v w p pr q pr'
  proof -
    have "q \<in> avail P free M1" using that(2) ca(5) map_of_SomeD by (force simp: ms_owns_def bt_get_def)
    then show ?thesis using d(5) [OF that(1)] nb(6) by auto
  qed
  have "backed_pages a = []" if "(k, a) \<in> set ?pm" for k a
    using areas_ok_area [OF d(1) that] assms(4) that by (auto simp: area_ok_def anonymous_def)
  then have "ms_pages m' = ms_pages ?pm" using area_copies_pages [OF ca(4)] by blast
  then have lk: "pt_lookup (mem M3) pt' v = None \<longleftrightarrow> pt_lookup (mem M) ?pt v = None" if "user_vpn v" for v
    using mk(3) [OF that] d(3) [OF that] dc(3) [OF that] by auto
  have "from_other P cache kernel_root parent M = Some (?child, M3)"
    by (simp add: from_other_def nb(1) ca(1) mk(1))
  then show ?thesis
    using okp okc wr lk own sep area_copies_shape [OF ca(4)] unfolding PAGE_SIZE_def
    by (intro exI [of _ ?child] exI [of _ M3]) (simp del: ex_simps all_simps, blast)
qed

theorem fork_correct_witness:
  "\<exists>child M'. from_other list_platform (\<lambda>_. []) 0x80200 demo_ms demo_M = Some (child, M')
     \<and> ms_ok list_platform set demo_ms M' \<and> ms_ok list_platform set child M'
     \<and> map (\<lambda>(k, a). (k, vpn_end a)) (user_areas child) = [(0x10, 0x20)]"
proof -
  have "\<forall>(k, a)\<in>set (user_areas demo_ms). anonymous a"
    by (simp add: demo_ms_def vm_area_new_def anonymous_def)
  moreover have "can_alloc list_platform (1 + 3 * area_frames (user_areas demo_ms)) (falloc demo_M)"
    by (simp add: demo_ms_def demo_M_def vm_area_new_def area_frames_def list_platform_def)
  ultimately obtain child M' where c: "from_other list_platform (\<lambda>_. []) 0x80200 demo_ms demo_M = Some (child, M')"
    "ms_ok list_platform set demo_ms M'" "ms_ok list_platform set child M'"
    "map (\<lambda>(k, a). (k, vpn_end a, perm a, area_ty a)) (user_areas child)
       = map (\<lambda>(k, a). (k, vpn_end a, perm a, area_ty a)) (user_areas demo_ms)"
    using fork_correct [OF list_platform_spec demo_ms_ok, of "0x80200" "\<lambda>_. []"] by auto
  have "map (\<lambda>(k, a). (k, vpn_end a)) (user_areas child)
      = map (\<lambda>(k, e, p, t). (k, e)) (map (\<lambda>(k, a). (k, vpn_end a, perm a, area_ty a)) (user_areas child))"
    by (simp add: case_prod_unfold)
  then have "map (\<lambda>(k, a). (k, vpn_end a)) (user_areas child) = [(0x10, 0x20)]"
    unfolding c(4) by (simp add: demo_ms_def vm_area_new_def)
  then show ?thesis using c(1-3) by (intro exI [of _ child] exI [of _ M'] conjI)
qed

end
