(* ===== verification/UserStack.thy ===== *)
theory UserStack
  imports SpaceFork
begin

text \<open>
  The user stack of a thread (libkernel/src/thread/mod.rs) and the arguments, environment and
  auxiliary vector that a new program finds on it (memory/memory_space/init_stack.rs).  The
  two readings of the clock that serve as random bytes are arguments.  A store through a
  frame is a store to physical memory; it is not confined to the frame.
\<close>

section \<open>The stacks of the threads\<close>

definition user_stack_high_addr :: "nat \<Rightarrow> vpn option" where
  "user_stack_high_addr tid = do {
     d \<leftarrow> umul tid (USER_STACK_SIZE + PAGE_SIZE);
     a \<leftarrow> usub LOW_ADDRESS_END d;
     Some (vpn_floor a)
   }"

definition user_stack_low_addr :: "nat \<Rightarrow> vpn option" where
  "user_stack_low_addr tid = do {
     h \<leftarrow> user_stack_high_addr tid;
     usub h (vpn_floor USER_STACK_SIZE)
   }"

definition alloc_user_stack ::
  "'fa platform \<Rightarrow> nat \<Rightarrow> memory_space \<Rightarrow> 'fa machine \<Rightarrow> (vpn \<times> vpn \<times> memory_space \<times> 'fa machine) option" where
  "alloc_user_stack P tid ms M = do {
     low \<leftarrow> user_stack_low_addr tid;
     high \<leftarrow> user_stack_high_addr tid;
     (ms, M) \<leftarrow> user_map P low high (PERM_R OR PERM_W OR PERM_U) ms M;
     Some (low, high, ms, M)
   }"

definition dealloc_user_stack ::
  "'fa platform \<Rightarrow> nat \<Rightarrow> memory_space \<Rightarrow> 'fa machine \<Rightarrow> (memory_space \<times> 'fa machine) option" where
  "dealloc_user_stack P tid ms M = do {
     low \<leftarrow> user_stack_low_addr tid;
     remove_area_with_start_vpn P low ms M
   }"

section \<open>Pushing on the stack of a new program\<close>

type_synonym bytes = "8 word list"

definition AT_PHDR :: nat where "AT_PHDR = 3"
definition AT_PHENT :: nat where "AT_PHENT = 4"
definition AT_PHNUM :: nat where "AT_PHNUM = 5"
definition AT_PAGESZ :: nat where "AT_PAGESZ = 6"
definition AT_BASE :: nat where "AT_BASE = 7"
definition AT_ENTRY :: nat where "AT_ENTRY = 9"
definition AT_RANDOM :: nat where "AT_RANDOM = 25"

record stack_init_ctx =
  user_sp :: nat
  ctx_area :: vm_area
  ctx_table :: page_table
  ctx_page :: "ppn option"

definition stack_init_new :: "vpn \<Rightarrow> vm_area \<Rightarrow> page_table \<Rightarrow> stack_init_ctx" where
  "stack_init_new user_sp_page a pt =
     \<lparr>user_sp = page_start user_sp_page, ctx_area = a, ctx_table = pt, ctx_page = None\<rparr>"

definition sp_down ::
  "'fa platform \<Rightarrow> nat \<Rightarrow> stack_init_ctx \<Rightarrow> 'fa machine \<Rightarrow> (stack_init_ctx \<times> 'fa machine) option" where
  "sp_down P len c M = do {
     sp \<leftarrow> usub (user_sp c) len;
     s \<leftarrow> uadd sp len;
     (if s mod PAGE_SIZE = 0 then do {
        (p, a, pt, M) \<leftarrow> ensure_allocated P (vpn_floor sp) (ctx_area c) (ctx_table c) M;
        Some (\<lparr>user_sp = sp, ctx_area = a, ctx_table = pt, ctx_page = Some p\<rparr>, M)
      } else Some (c\<lparr>user_sp := sp\<rparr>, M))
   }"

definition push_byte ::
  "'fa platform \<Rightarrow> 8 word \<Rightarrow> stack_init_ctx \<Rightarrow> 'fa machine \<Rightarrow> (stack_init_ctx \<times> 'fa machine) option" where
  "push_byte P b c M = do {
     (c, M) \<leftarrow> sp_down P 1 c M;
     p \<leftarrow> ctx_page c;
     a \<leftarrow> frame_at p (page_offset (user_sp c));
     Some (c, M\<lparr>mem := (mem M)(a := b)\<rparr>)
   }"

definition push_usize ::
  "'fa platform \<Rightarrow> nat \<Rightarrow> stack_init_ctx \<Rightarrow> 'fa machine \<Rightarrow> (stack_init_ctx \<times> 'fa machine) option" where
  "push_usize P n c M = do {
     (c, M) \<leftarrow> sp_down P PTR_SIZE c M;
     p \<leftarrow> ctx_page c;
     a \<leftarrow> frame_at p (page_offset (user_sp c));
     Some (c, M\<lparr>mem := wr64 a (of_nat n) (mem M)\<rparr>)
   }"

fun push_bytes ::
  "'fa platform \<Rightarrow> bytes \<Rightarrow> stack_init_ctx \<Rightarrow> 'fa machine \<Rightarrow> (stack_init_ctx \<times> 'fa machine) option" where
  "push_bytes P [] c M = Some (c, M)"
| "push_bytes P (b # bs) c M = do { (c, M) \<leftarrow> push_byte P b c M; push_bytes P bs c M }"

definition push_str ::
  "'fa platform \<Rightarrow> bytes \<Rightarrow> stack_init_ctx \<Rightarrow> 'fa machine \<Rightarrow> (nat \<times> stack_init_ctx \<times> 'fa machine) option" where
  "push_str P s c M = do {
     (c, M) \<leftarrow> push_byte P 0 c M;
     (c, M) \<leftarrow> push_bytes P (rev s) c M;
     Some (user_sp c, c, M)
   }"

fun push_strs ::
  "'fa platform \<Rightarrow> bytes list \<Rightarrow> stack_init_ctx \<Rightarrow> 'fa machine
     \<Rightarrow> (nat list \<times> stack_init_ctx \<times> 'fa machine) option" where
  "push_strs P [] c M = Some ([], c, M)"
| "push_strs P (s # ss) c M = do {
     (p, c, M) \<leftarrow> push_str P s c M;
     (ps, c, M) \<leftarrow> push_strs P ss c M;
     Some (p # ps, c, M)
   }"

fun push_usizes ::
  "'fa platform \<Rightarrow> nat list \<Rightarrow> stack_init_ctx \<Rightarrow> 'fa machine \<Rightarrow> (stack_init_ctx \<times> 'fa machine) option" where
  "push_usizes P [] c M = Some (c, M)"
| "push_usizes P (n # ns) c M = do { (c, M) \<leftarrow> push_usize P n c M; push_usizes P ns c M }"

definition push_ptrs ::
  "'fa platform \<Rightarrow> nat list \<Rightarrow> stack_init_ctx \<Rightarrow> 'fa machine \<Rightarrow> (stack_init_ctx \<times> 'fa machine) option" where
  "push_ptrs P ps c M = push_usizes P (rev ps) c M"

fun push_auxv ::
  "'fa platform \<Rightarrow> (nat \<times> nat) list \<Rightarrow> stack_init_ctx \<Rightarrow> 'fa machine \<Rightarrow> (stack_init_ctx \<times> 'fa machine) option" where
  "push_auxv P [] c M = Some (c, M)"
| "push_auxv P ((ty, v) # xs) c M = do {
     (c, M) \<leftarrow> push_usize P v c M;
     (c, M) \<leftarrow> push_usize P ty c M;
     push_auxv P xs c M
   }"

definition init_stack_impl ::
  "'fa platform \<Rightarrow> nat \<Rightarrow> nat \<Rightarrow> bytes list \<Rightarrow> bytes list \<Rightarrow> (nat \<times> nat) list \<Rightarrow> stack_init_ctx \<Rightarrow> 'fa machine
     \<Rightarrow> (nat \<times> nat \<times> stack_init_ctx \<times> 'fa machine) option" where
  "init_stack_impl P t1 t2 args envs auxv c M = do {
     (c, M) \<leftarrow> push_usize P 0 c M;
     (c, M) \<leftarrow> push_usize P t1 c M;
     (c, M) \<leftarrow> push_usize P t2 c M;
     let random_pos = user_sp c;
     (envps, c, M) \<leftarrow> push_strs P envs c M;
     (c, M) \<leftarrow> push_usize P 0 c M;
     (argps, c, M) \<leftarrow> push_strs P args c M;
     let c = c\<lparr>user_sp := user_sp c - user_sp c mod 8\<rparr>;
     (c, M) \<leftarrow> push_usize P 0 c M;
     (c, M) \<leftarrow> push_usize P 0 c M;
     (c, M) \<leftarrow> push_usize P AT_RANDOM c M;
     (c, M) \<leftarrow> push_usize P random_pos c M;
     (c, M) \<leftarrow> push_auxv P auxv c M;
     (c, M) \<leftarrow> push_usize P 0 c M;
     (c, M) \<leftarrow> push_ptrs P envps c M;
     (c, M) \<leftarrow> push_usize P 0 c M;
     (c, M) \<leftarrow> push_ptrs P argps c M;
     let argv_base = user_sp c;
     (c, M) \<leftarrow> push_usize P (length args) c M;
     Some (user_sp c, argv_base, c, M)
   }"

definition init_stack ::
  "'fa platform \<Rightarrow> nat \<Rightarrow> nat \<Rightarrow> nat \<Rightarrow> bytes list \<Rightarrow> bytes list \<Rightarrow> (nat \<times> nat) list
     \<Rightarrow> memory_space \<Rightarrow> 'fa machine \<Rightarrow> (nat \<times> nat \<times> memory_space \<times> 'fa machine) option" where
  "init_stack P t1 t2 tid args envs auxv ms M = do {
     (low, high, ms, M) \<leftarrow> alloc_user_stack P tid ms M;
     a \<leftarrow> bt_get (user_areas ms) low;
     (sp, argv_base, c, M) \<leftarrow> init_stack_impl P t1 t2 args envs auxv (stack_init_new high a (ms_table ms)) M;
     Some (sp, argv_base, \<lparr>ms_table = ctx_table c, user_areas = bt_insert low (ctx_area c) (user_areas ms)\<rparr>, M)
   }"

section \<open>The image of the stack\<close>

text \<open>
  What the pushes mean to the program: a stack pointer and the bytes of its virtual memory.
\<close>

type_synonym image = "nat \<times> memory"

definition im_byte :: "8 word \<Rightarrow> image \<Rightarrow> image" where
  "im_byte b = (\<lambda>(sp, m). (sp - 1, m(sp - 1 := b)))"

definition im_word :: "nat \<Rightarrow> image \<Rightarrow> image" where
  "im_word n = (\<lambda>(sp, m). (sp - 8, wr64 (sp - 8) (of_nat n) m))"

definition im_str :: "bytes \<Rightarrow> image \<Rightarrow> image" where
  "im_str s i = fold im_byte (rev s) (im_byte 0 i)"

fun im_strs :: "bytes list \<Rightarrow> image \<Rightarrow> nat list \<times> image" where
  "im_strs [] i = ([], i)"
| "im_strs (s # ss) i = (let i = im_str s i; (ps, j) = im_strs ss i in (fst i # ps, j))"

section \<open>The pushes implement the image\<close>

text \<open>
  The state of the pushes at stack pointer \<open>sp\<close>: the area of the stack, with the pages from
  the stack pointer to the top, is the last of the space, its frames were available at the
  start, and three frames are left for each page down to \<open>b\<close>.
\<close>

definition stack_inv ::
  "'fa platform \<Rightarrow> ('fa \<Rightarrow> nat set) \<Rightarrow> (vpn, vm_area) btree \<Rightarrow> page_table \<Rightarrow> 'fa machine \<Rightarrow> vpn \<Rightarrow> map_permission \<Rightarrow> vpn \<Rightarrow> vpn
     \<Rightarrow> nat \<Rightarrow> stack_init_ctx \<Rightarrow> 'fa machine \<Rightarrow> bool" where
  "stack_inv P free m0 pt0 M0 k pr b hi sp c M \<longleftrightarrow>
     user_sp c = sp \<and> b * 4096 \<le> sp \<and> sp \<le> hi * 4096
   \<and> ms_ok P free \<lparr>ms_table = ctx_table c, user_areas = m0 @ [(k, ctx_area c)]\<rparr> M
   \<and> area_ty (ctx_area c) = Lazy \<and> vpn_end (ctx_area c) = hi \<and> perm (ctx_area c) = pr
   \<and> fst ` set (unbacked_map (ctx_area c)) = {sp div 4096..<hi}
   \<and> snd ` set (unbacked_map (ctx_area c)) \<subseteq> avail P free M0
   \<and> (sp mod 4096 \<noteq> 0 \<longrightarrow> ctx_page c = bt_get (unbacked_map (ctx_area c)) (sp div 4096))
   \<and> grown P free pt0 M0 (ctx_table c) M
   \<and> can_alloc P (3 * (sp div 4096 - b)) (falloc M)"

definition shows_image :: "stack_init_ctx \<Rightarrow> 'fa machine \<Rightarrow> nat \<Rightarrow> vpn \<Rightarrow> memory \<Rightarrow> bool" where
  "shows_image c M lo hi m \<longleftrightarrow>
     (\<forall>va. lo \<le> va \<and> va < hi * 4096 \<longrightarrow> (\<exists>p. bt_get (unbacked_map (ctx_area c)) (va div 4096) = Some p
        \<and> mem M (p * 4096 + va mod 4096) = m va))"

lemma div_4096_down:
  fixes sp len :: nat
  assumes "len \<le> sp" "0 < len" "len \<le> 4096" "sp mod 4096 = 0 \<or> len \<le> sp mod 4096"
  shows "(sp - len) div 4096 = (if sp mod 4096 = 0 then sp div 4096 - 1 else sp div 4096)"
    "(sp - len) mod 4096 + len = (if sp mod 4096 = 0 then 4096 else sp mod 4096)"
    "sp mod 4096 = 0 \<Longrightarrow> 0 < sp div 4096"
proof -
  have e: "sp = sp div 4096 * 4096 + sp mod 4096" by simp
  show pos: "sp mod 4096 = 0 \<Longrightarrow> 0 < sp div 4096" using e assms(1,2) by (cases "sp div 4096") auto
  have "(sp - len) div 4096 = (if sp mod 4096 = 0 then sp div 4096 - 1 else sp div 4096)
      \<and> (sp - len) mod 4096 + len = (if sp mod 4096 = 0 then 4096 else sp mod 4096)"
  proof (cases "sp mod 4096 = 0")
    case True
    then have "sp - len = (sp div 4096 - 1) * 4096 + (4096 - len)"
      using e assms pos [OF True] by (simp add: algebra_simps)
    moreover have "((sp div 4096 - 1) * 4096 + (4096 - len)) div 4096 = sp div 4096 - 1"
      "((sp div 4096 - 1) * 4096 + (4096 - len)) mod 4096 = 4096 - len"
      using assms(2) by simp_all
    ultimately show ?thesis using True assms(3) by simp
  next
    case False
    let ?r = "sp mod 4096 - len"
    have "sp - len = sp div 4096 * 4096 + ?r" "?r < 4096" using e assms False by linarith+
    then have "(sp - len) div 4096 = sp div 4096" "(sp - len) mod 4096 = ?r" by simp_all
    then show ?thesis using False assms(4) by simp
  qed
  then show "(sp - len) div 4096 = (if sp mod 4096 = 0 then sp div 4096 - 1 else sp div 4096)"
    "(sp - len) mod 4096 + len = (if sp mod 4096 = 0 then 4096 else sp mod 4096)" by blast+
qed

lemma same_page:
  fixes sp va :: nat
  assumes "sp \<le> va" "sp mod 4096 + (va - sp) < 4096"
  shows "va div 4096 = sp div 4096" "va mod 4096 = sp mod 4096 + (va - sp)"
proof -
  have "sp = sp div 4096 * 4096 + sp mod 4096" by simp
  then have "va = sp div 4096 * 4096 + (sp mod 4096 + (va - sp))" using assms(1) by linarith
  moreover have "(q * 4096 + r) div 4096 = q" "(q * 4096 + r) mod 4096 = r" if "r < 4096" for q r :: nat
    using that by simp_all
  ultimately show "va div 4096 = sp div 4096" "va mod 4096 = sp mod 4096 + (va - sp)"
    using assms(2) by metis+
qed

text \<open>Lowering the pointer brings in the page below.\<close>

lemma stack_new_page:
  assumes bs: "buddy_spec P free" and inv: "stack_inv P free m0 pt0 M0 k pr b hi sp c M"
    and lt: "\<forall>j\<in>fst ` set m0. j < k" and v: "sp div 4096 = Suc v" "b \<le> v" "k \<le> b"
  obtains p pt' M' where
    "ensure_allocated P v (ctx_area c) (ctx_table c) M
       = Some (p, (ctx_area c)\<lparr>unbacked_map := bt_insert v p (unbacked_map (ctx_area c))\<rparr>, pt', M')"
    "ms_ok P free \<lparr>ms_table = pt', user_areas = m0 @ [(k, (ctx_area c)\<lparr>unbacked_map := bt_insert v p (unbacked_map (ctx_area c))\<rparr>)]\<rparr> M'"
    "grown P free (ctx_table c) M pt' M'" "can_alloc P (3 * (v - b)) (falloc M')" "p \<in> avail P free M"
proof -
  let ?a = "ctx_area c" and ?pt = "ctx_table c"
  have ok: "ms_ok P free \<lparr>ms_table = ?pt, user_areas = m0 @ [(k, ?a)]\<rparr> M" and lazy: "area_ty ?a = Lazy"
    and keys: "fst ` set (unbacked_map ?a) = {Suc v..<hi}" and hi: "vpn_end ?a = hi"
    and can: "can_alloc P (3 * (Suc v - b)) (falloc M)" and sp: "sp \<le> hi * 4096"
    using inv v(1) by (simp_all add: stack_inv_def)
  note d = ms_okD [OF ok, unfolded memory_space.simps]
  have ka: "(k, ?a) \<in> set (m0 @ [(k, ?a)])" by simp
  have aok: "area_ok k ?a" using areas_ok_area [OF d(1) ka] .
  have "sp div 4096 \<le> hi" using sp by (metis div_le_mono nonzero_mult_div_cancel_right zero_neq_numeral)
  then have vr: "k \<le> v" "v < vpn_end ?a" using v hi by simp_all
  have uv: "user_vpn v" using vr(2) aok by (simp add: area_ok_def user_vpn_def)
  have none: "bt_get (unbacked_map ?a) v = None" using keys by (intro bt_get_notin) simp
  have "v \<notin> area_pages ?a" using keys aok lazy by (simp add: area_ok_def area_pages_def)
  then have nomap: "pt_lookup (mem M) ?pt v = None"
    using d(3) [OF uv] page_of_area(1) [OF d(1) ka vr] by blast
  have "3 * (Suc v - b) = Suc (Suc (Suc (3 * (v - b))))" using v(2) by simp
  then have can': "can_alloc P (Suc (Suc (Suc (3 * (v - b))))) (falloc M)" using can by simp
  obtain p a' pt' M1 where en: "ensure_allocated P v ?a ?pt M = Some (p, a', pt', M1)"
    and c1: "can_alloc P (3 * (v - b)) (falloc M1)"
    using ensure_allocated_total [OF bs d(2) uv lazy nomap can'] .
  note en' = ensure_allocated_new [OF bs d(2) uv none en]
  have pa: "page_added P free v p (pte_flags_from (perm ?a)) ?pt M pt' M1" using en'(3) .
  have "ms_ok P free \<lparr>ms_table = pt', user_areas = m0 @ [(k, a')]\<rparr> M1"
    using ms_add_page(1) [OF ok, unfolded memory_space.simps, OF ka lazy vr none pa] en'(2)
      bt_insert_append(2) [OF lt] by simp
  moreover have "p \<in> avail P free M" using pa by (simp add: page_added_def)
  ultimately show thesis using that [OF en [unfolded en'(2)]] page_added_grown [OF pa] c1 en'(2) by simp
qed

lemma image_page:
  assumes "stack_inv P free m0 pt0 M0 k pr b hi sp c M" "bt_get (unbacked_map (ctx_area c)) v = Some p"
  shows "p \<notin> avail P free M" "p \<in> avail P free M0" "frame_in P p"
    "p \<notin> set (root_frame (ctx_table c) # frames (ctx_table c))"
    "bt_get (unbacked_map (ctx_area c)) w = Some p \<Longrightarrow> w = v"
proof -
  have ok: "ms_ok P free \<lparr>ms_table = ctx_table c, user_areas = m0 @ [(k, ctx_area c)]\<rparr> M"
    using assms(1) by (simp add: stack_inv_def)
  note d = ms_okD [OF ok, unfolded memory_space.simps]
  have o: "ms_owns (m0 @ [(k, ctx_area c)]) u q (perm (ctx_area c))"
    if "bt_get (unbacked_map (ctx_area c)) u = Some q" for u q
    unfolding ms_owns_def using that by (intro bexI [of _ "(k, ctx_area c)"]) simp_all
  show "p \<notin> avail P free M" "frame_in P p" "p \<notin> set (root_frame (ctx_table c) # frames (ctx_table c))"
    using d(5) [OF o [OF assms(2)]] by auto
  show "bt_get (unbacked_map (ctx_area c)) w = Some p \<Longrightarrow> w = v" using d(6) [OF o o] assms(2) by blast
  have "p \<in> snd ` set (unbacked_map (ctx_area c))" using assms(2) by (force simp: bt_get_def dest: map_of_SomeD)
  then show "p \<in> avail P free M0" using assms(1) unfolding stack_inv_def by blast
qed

lemma sp_down_ok:
  assumes bs: "buddy_spec P free" and inv: "stack_inv P free m0 pt0 M0 k pr b hi sp c M"
    and im: "shows_image c M sp hi m"
    and lt: "\<forall>j\<in>fst ` set m0. j < k" and kb: "k \<le> b" and hi: "hi \<le> 2 ^ 26"
    and len: "b * 4096 + len \<le> sp" "0 < len" "len \<le> 4096" "sp mod 4096 = 0 \<or> len \<le> sp mod 4096"
  obtains c' M' p where "sp_down P len c M = Some (c', M')" "ctx_page c' = Some p"
    "bt_get (unbacked_map (ctx_area c')) ((sp - len) div 4096) = Some p"
    "stack_inv P free m0 pt0 M0 k pr b hi (sp - len) c' M'" "shows_image c' M' sp hi m"
proof -
  let ?a = "ctx_area c"
  have i: "user_sp c = sp" "sp \<le> hi * 4096" "fst ` set (unbacked_map ?a) = {sp div 4096..<hi}"
    "sp mod 4096 \<noteq> 0 \<Longrightarrow> ctx_page c = bt_get (unbacked_map ?a) (sp div 4096)"
    using inv by (simp_all add: stack_inv_def)
  have "sp \<le> 2 ^ 26 * 4096" using i(2) hi by (meson le_trans mult_le_mono1)
  then have ch: "usub (user_sp c) len = Some (sp - len)" "uadd (sp - len) len = Some sp"
    using len(1) i(1) by (simp_all add: checked)
  note dd = div_4096_down [OF _ len(2-4)]
  have lsp: "len \<le> sp" using len(1) by linarith
  have bl: "b * 4096 \<le> sp - len" "sp - len \<le> hi * 4096" using len(1) i(2) by linarith+
  show thesis
  proof (cases "sp mod 4096 = 0")
    case False
    have dv: "(sp - len) div 4096 = sp div 4096" using dd(1) [OF lsp] False by simp
    have "sp div 4096 \<in> fst ` set (unbacked_map ?a)"
    proof -
      have "sp < hi * 4096" using i(2) False by (cases "sp = hi * 4096") auto
      then show ?thesis unfolding i(3) by (simp add: div_less_iff_less_mult)
    qed
    then obtain p where p: "bt_get (unbacked_map ?a) (sp div 4096) = Some p"
      using dom_bt_get [of "unbacked_map ?a"] by blast
    have "stack_inv P free m0 pt0 M0 k pr b hi (sp - len) (c\<lparr>user_sp := sp - len\<rparr>) M"
      using inv bl unfolding stack_inv_def by (simp add: dv i(4) [OF False])
    moreover have "sp_down P len c M = Some (c\<lparr>user_sp := sp - len\<rparr>, M)"
      using False by (simp add: sp_down_def ch PAGE_SIZE_def)
    moreover have "shows_image (c\<lparr>user_sp := sp - len\<rparr>) M sp hi m" using im by (simp add: shows_image_def)
    ultimately show thesis using that p i(4) [OF False] dv by simp
  next
    case True
    let ?v = "(sp - len) div 4096"
    have dv: "sp div 4096 = Suc ?v" using dd(1,3) [OF lsp] True by simp
    have bv: "b \<le> ?v" using bl(1) by (simp add: less_eq_div_iff_mult_less_eq)
    obtain p pt' M' where n: "ensure_allocated P ?v ?a (ctx_table c) M
       = Some (p, ?a\<lparr>unbacked_map := bt_insert ?v p (unbacked_map ?a)\<rparr>, pt', M')"
      "ms_ok P free \<lparr>ms_table = pt', user_areas = m0 @ [(k, ?a\<lparr>unbacked_map := bt_insert ?v p (unbacked_map ?a)\<rparr>)]\<rparr> M'"
      "grown P free (ctx_table c) M pt' M'" "can_alloc P (3 * (?v - b)) (falloc M')" "p \<in> avail P free M"
      using stack_new_page [OF bs inv lt dv bv kb] .
    let ?c = "\<lparr>user_sp = sp - len, ctx_area = ?a\<lparr>unbacked_map := bt_insert ?v p (unbacked_map ?a)\<rparr>,
       ctx_table = pt', ctx_page = Some p\<rparr>"
    have sd: "sp_down P len c M = Some (?c, M')"
      using True by (simp add: sp_down_def ch PAGE_SIZE_def vpn_floor_div n(1))
    have g: "grown P free pt0 M0 (ctx_table c) M" using inv by (simp add: stack_inv_def)
    have "p \<in> avail P free M0" using n(5) g unfolding grown_def by blast
    moreover have "snd ` set (unbacked_map ?a) \<subseteq> avail P free M0" using inv by (simp add: stack_inv_def)
    ultimately have "snd ` set (bt_insert ?v p (unbacked_map ?a)) \<subseteq> avail P free M0"
      using values_bt_insert [of ?v p "unbacked_map ?a"] by blast
    moreover have "{?v..<hi} = insert ?v {sp div 4096..<hi}"
    proof -
      have "sp div 4096 \<le> hi" using i(2) by (metis div_le_mono nonzero_mult_div_cancel_right zero_neq_numeral)
      then show ?thesis using dv by auto
    qed
    ultimately have inv': "stack_inv P free m0 pt0 M0 k pr b hi (sp - len) ?c M'"
      using inv bl n(2,4) grown_trans [OF g n(3)] unfolding stack_inv_def by simp
    have "shows_image ?c M' sp hi m"
      unfolding shows_image_def
    proof (intro allI impI)
      fix va assume va: "sp \<le> va \<and> va < hi * 4096"
      then obtain q where q: "bt_get (unbacked_map ?a) (va div 4096) = Some q" "mem M (q * 4096 + va mod 4096) = m va"
        using im unfolding shows_image_def by blast
      have "sp div 4096 \<le> va div 4096" using va div_le_mono by blast
      then have ne: "va div 4096 \<noteq> ?v" using dv by linarith
      note ip = image_page [OF inv q(1)]
      have "(q * 4096 + va mod 4096) div 4096 = q" by simp
      then have "mem M' (q * 4096 + va mod 4096) = mem M (q * 4096 + va mod 4096)"
        using n(3) ip(1,4) unfolding grown_def by simp
      then show "\<exists>p. bt_get (unbacked_map (ctx_area ?c)) (va div 4096) = Some p \<and> mem M' (p * 4096 + va mod 4096) = m va"
        using q ne by simp
    qed
    then show thesis using that [OF sd _ _ inv'] by simp
  qed
qed

lemma write_ok:
  assumes inv: "stack_inv P free m0 pt0 M0 k pr b hi sp c M" and im: "shows_image c M (sp + len) hi m"
    and p: "bt_get (unbacked_map (ctx_area c)) (sp div 4096) = Some p" and len: "sp mod 4096 + len \<le> 4096"
    and a: "a = p * 4096 + sp mod 4096"
    and mm: "\<And>x. mm x = (if a \<le> x \<and> x < a + len then g (x - a) else mem M x)"
    and m': "\<And>x. m' x = (if sp \<le> x \<and> x < sp + len then g (x - sp) else m x)"
  shows "stack_inv P free m0 pt0 M0 k pr b hi sp c (M\<lparr>mem := mm\<rparr>)" "shows_image c (M\<lparr>mem := mm\<rparr>) sp hi m'"
proof -
  note ip = image_page [OF inv p]
  have out: "mm x = mem M x" if "x div 4096 \<noteq> p" for x
  proof -
    have "\<not> (a \<le> x \<and> x < a + len)"
    proof
      assume "a \<le> x \<and> x < a + len"
      then have "p * 4096 \<le> x" "x < p * 4096 + 4096" using len a by linarith+
      then have "x div 4096 = p" by (auto intro: div_nat_eqI)
      then show False using that by simp
    qed
    then show ?thesis unfolding mm by (rule if_not_P)
  qed
  have i: "grown P free pt0 M0 (ctx_table c) M"
    "ms_ok P free \<lparr>ms_table = ctx_table c, user_areas = m0 @ [(k, ctx_area c)]\<rparr> M"
    using inv by (simp_all add: stack_inv_def)
  have "grown P free pt0 M0 (ctx_table c) (M\<lparr>mem := mm\<rparr>)"
    using grown_write [OF i(1) ip(2), of "M\<lparr>mem := mm\<rparr>"] out by simp
  moreover have "ms_ok P free \<lparr>ms_table = ctx_table c, user_areas = m0 @ [(k, ctx_area c)]\<rparr> (M\<lparr>mem := mm\<rparr>)"
  proof (rule ms_ok_frame(1) [OF i(2)])
    fix x assume "x div 4096 \<in> set (root_frame (ms_table \<lparr>ms_table = ctx_table c, user_areas = m0 @ [(k, ctx_area c)]\<rparr>)
      # frames (ms_table \<lparr>ms_table = ctx_table c, user_areas = m0 @ [(k, ctx_area c)]\<rparr>))"
    then have "x div 4096 \<noteq> p" using ip(4) by auto
    then show "mem (M\<lparr>mem := mm\<rparr>) x = mem M x" using out by simp
  qed simp
  ultimately show "stack_inv P free m0 pt0 M0 k pr b hi sp c (M\<lparr>mem := mm\<rparr>)"
    using inv unfolding stack_inv_def by simp
  show "shows_image c (M\<lparr>mem := mm\<rparr>) sp hi m'"
    unfolding shows_image_def
  proof (intro allI impI)
    fix va assume va: "sp \<le> va \<and> va < hi * 4096"
    show "\<exists>p. bt_get (unbacked_map (ctx_area c)) (va div 4096) = Some p
        \<and> mem (M\<lparr>mem := mm\<rparr>) (p * 4096 + va mod 4096) = m' va"
    proof (cases "va < sp + len")
      case True
      have "sp mod 4096 + (va - sp) < 4096" using True va len by linarith
      then have dm: "va div 4096 = sp div 4096" "va mod 4096 = sp mod 4096 + (va - sp)"
        using same_page [of sp va] va by blast+
      have rr: "va - sp < len" using True va by linarith
      have "mm (a + (va - sp)) = g (va - sp)" using mm [of "a + (va - sp)"] rr by simp
      moreover have "m' va = g (va - sp)" using m' [of va] True va by simp
      moreover have "p * 4096 + va mod 4096 = a + (va - sp)" using dm(2) a by linarith
      ultimately show ?thesis using p dm(1) by (intro exI [of _ p]) simp
    next
      case False
      then obtain q where q: "bt_get (unbacked_map (ctx_area c)) (va div 4096) = Some q" "mem M (q * 4096 + va mod 4096) = m va"
        using im va unfolding shows_image_def by (meson not_less)
      have "\<not> (a \<le> q * 4096 + va mod 4096 \<and> q * 4096 + va mod 4096 < a + len)"
      proof
        assume r: "a \<le> q * 4096 + va mod 4096 \<and> q * 4096 + va mod 4096 < a + len"
        have qd: "(q * 4096 + va mod 4096) div 4096 = q" by simp
        have "p * 4096 \<le> q * 4096 + va mod 4096" "q * 4096 + va mod 4096 < p * 4096 + 4096" using r len a by linarith+
        then have "(q * 4096 + va mod 4096) div 4096 = p" by (auto intro: div_nat_eqI)
        then have "q = p" using qd by simp
        then have "va div 4096 = sp div 4096" using image_page(5) [OF inv p] q(1) by simp
        moreover have "va mod 4096 < sp mod 4096 + len" using r a \<open>q = p\<close> by linarith
        ultimately have "va < sp + len"
          by (metis add.assoc div_mult_mod_eq nat_add_left_cancel_less)
        then show False using False by simp
      qed
      then have "mm (q * 4096 + va mod 4096) = mem M (q * 4096 + va mod 4096)" unfolding mm by (rule if_not_P)
      moreover have "m' va = m va" using m' [of va] False by simp
      ultimately show ?thesis using q by (intro exI [of _ q]) simp
    qed
  qed
qed

subsection \<open>One push after the other\<close>

definition stack_env :: "'fa platform \<Rightarrow> ('fa \<Rightarrow> nat set) \<Rightarrow> (vpn, vm_area) btree \<Rightarrow> vpn \<Rightarrow> vpn \<Rightarrow> vpn \<Rightarrow> bool" where
  "stack_env P free m0 k b hi \<longleftrightarrow> buddy_spec P free \<and> (\<forall>j\<in>fst ` set m0. j < k) \<and> k \<le> b \<and> hi \<le> 2 ^ 26"

definition stack_rel ::
  "'fa platform \<Rightarrow> ('fa \<Rightarrow> nat set) \<Rightarrow> (vpn, vm_area) btree \<Rightarrow> page_table \<Rightarrow> 'fa machine \<Rightarrow> vpn \<Rightarrow> map_permission \<Rightarrow> vpn \<Rightarrow> vpn
     \<Rightarrow> stack_init_ctx \<Rightarrow> 'fa machine \<Rightarrow> image \<Rightarrow> bool" where
  "stack_rel P free m0 pt0 M0 k pr b hi c M i \<longleftrightarrow>
     stack_inv P free m0 pt0 M0 k pr b hi (fst i) c M \<and> shows_image c M (fst i) hi (snd i)"

lemma stack_rel_sp: "stack_rel P free m0 pt0 M0 k pr b hi c M i \<Longrightarrow> user_sp c = fst i"
  by (simp add: stack_rel_def stack_inv_def)

lemma push_ok:
  assumes env: "stack_env P free m0 k b hi" and rel: "stack_rel P free m0 pt0 M0 k pr b hi c M (sp, m)"
    and len: "b * 4096 + len \<le> sp" "0 < len" "len \<le> 4096" "sp mod 4096 = 0 \<or> len \<le> sp mod 4096"
  obtains c' M' p where "sp_down P len c M = Some (c', M')" "ctx_page c' = Some p"
    "frame_at p (page_offset (user_sp c')) = Some (p * 4096 + (sp - len) mod 4096)"
    "\<And>mm m' g. (\<And>x. mm x = (if p * 4096 + (sp - len) mod 4096 \<le> x \<and> x < p * 4096 + (sp - len) mod 4096 + len
         then g (x - (p * 4096 + (sp - len) mod 4096)) else mem M' x))
       \<Longrightarrow> (\<And>x. m' x = (if sp - len \<le> x \<and> x < sp - len + len then g (x - (sp - len)) else m x))
       \<Longrightarrow> stack_rel P free m0 pt0 M0 k pr b hi c' (M'\<lparr>mem := mm\<rparr>) (sp - len, m')"
proof -
  have inv: "stack_inv P free m0 pt0 M0 k pr b hi sp c M" and im: "shows_image c M sp hi m"
    using rel by (simp_all add: stack_rel_def)
  have e: "buddy_spec P free" "\<forall>j\<in>fst ` set m0. j < k" "k \<le> b" "hi \<le> 2 ^ 26"
    using env by (simp_all add: stack_env_def)
  obtain c' M' p where d: "sp_down P len c M = Some (c', M')" "ctx_page c' = Some p"
    "bt_get (unbacked_map (ctx_area c')) ((sp - len) div 4096) = Some p"
    "stack_inv P free m0 pt0 M0 k pr b hi (sp - len) c' M'" "shows_image c' M' sp hi m"
    using sp_down_ok [OF e(1) inv im e(2-4) len] .
  have us: "user_sp c' = sp - len" using d(4) by (simp add: stack_inv_def)
  have p20: "p < 2 ^ 20" using frame_in_bound [OF image_page(3) [OF d(4,3)]] .
  have fa: "frame_at p (page_offset (user_sp c')) = Some (p * 4096 + (sp - len) mod 4096)"
    using frame_at_eq [OF p20, of "(sp - len) mod 4096"] by (simp add: us page_offset_mod)
  have lsp: "len \<le> sp" using len(1) by linarith
  have fit: "(sp - len) mod 4096 + len \<le> 4096"
    using div_4096_down(2) [OF lsp len(2-4)] mod_less_divisor [of 4096 sp] by (auto split: if_splits)
  have im': "shows_image c' M' (sp - len + len) hi m" using d(5) lsp by simp
  show thesis
  proof (rule that [OF d(1,2) fa])
    fix mm m' g
    assume mm: "\<And>x. mm x = (if p * 4096 + (sp - len) mod 4096 \<le> x \<and> x < p * 4096 + (sp - len) mod 4096 + len
         then g (x - (p * 4096 + (sp - len) mod 4096)) else mem M' x)"
      and m': "\<And>x. m' x = (if sp - len \<le> x \<and> x < sp - len + len then g (x - (sp - len)) else m x)"
    show "stack_rel P free m0 pt0 M0 k pr b hi c' (M'\<lparr>mem := mm\<rparr>) (sp - len, m')"
      using write_ok [OF d(4) im' d(3) fit refl mm m'] by (simp add: stack_rel_def)
  qed
qed

lemma push_byte_ok:
  assumes "stack_env P free m0 k b hi" "stack_rel P free m0 pt0 M0 k pr b hi c M i" "b * 4096 + 1 \<le> fst i"
  shows "\<exists>c' M'. push_byte P v c M = Some (c', M') \<and> stack_rel P free m0 pt0 M0 k pr b hi c' M' (im_byte v i)"
proof -
  obtain sp m where i: "i = (sp, m)" by (cases i)
  have len: "b * 4096 + 1 \<le> sp" "0 < (1::nat)" "1 \<le> (4096::nat)" "sp mod 4096 = 0 \<or> 1 \<le> sp mod 4096"
    using assms(3) i by auto
  obtain c' M' p where d: "sp_down P 1 c M = Some (c', M')" "ctx_page c' = Some p"
    "frame_at p (page_offset (user_sp c')) = Some (p * 4096 + (sp - 1) mod 4096)"
    and w: "\<And>mm m' g. (\<And>x. mm x = (if p * 4096 + (sp - 1) mod 4096 \<le> x \<and> x < p * 4096 + (sp - 1) mod 4096 + 1
         then g (x - (p * 4096 + (sp - 1) mod 4096)) else mem M' x))
       \<Longrightarrow> (\<And>x. m' x = (if sp - 1 \<le> x \<and> x < sp - 1 + 1 then g (x - (sp - 1)) else m x))
       \<Longrightarrow> stack_rel P free m0 pt0 M0 k pr b hi c' (M'\<lparr>mem := mm\<rparr>) (sp - 1, m')"
    by (rule push_ok [OF assms(1) assms(2) [unfolded i] len]) blast
  have "stack_rel P free m0 pt0 M0 k pr b hi c' (M'\<lparr>mem := (mem M')(p * 4096 + (sp - 1) mod 4096 := v)\<rparr>) (sp - 1, m(sp - 1 := v))"
    by (rule w [where g = "\<lambda>_. v"]) auto
  then show ?thesis by (simp add: push_byte_def d i im_byte_def del: One_nat_def)
qed

lemma push_usize_ok:
  assumes "stack_env P free m0 k b hi" "stack_rel P free m0 pt0 M0 k pr b hi c M i" "b * 4096 + 8 \<le> fst i" "fst i mod 8 = 0"
  shows "\<exists>c' M'. push_usize P n c M = Some (c', M') \<and> stack_rel P free m0 pt0 M0 k pr b hi c' M' (im_word n i)"
proof -
  obtain sp m where i: "i = (sp, m)" by (cases i)
  have "sp mod 4096 mod 8 = 0" using assms(4) i by (simp add: mod_mod_cancel)
  then have "sp mod 4096 = 0 \<or> 8 \<le> sp mod 4096" by (cases "sp mod 4096 < 8") auto
  then have len: "b * 4096 + 8 \<le> sp" "0 < (8::nat)" "8 \<le> (4096::nat)" "sp mod 4096 = 0 \<or> 8 \<le> sp mod 4096"
    using assms(3) i by auto
  obtain c' M' p where d: "sp_down P 8 c M = Some (c', M')" "ctx_page c' = Some p"
    "frame_at p (page_offset (user_sp c')) = Some (p * 4096 + (sp - 8) mod 4096)"
    and w: "\<And>mm m' g. (\<And>x. mm x = (if p * 4096 + (sp - 8) mod 4096 \<le> x \<and> x < p * 4096 + (sp - 8) mod 4096 + 8
         then g (x - (p * 4096 + (sp - 8) mod 4096)) else mem M' x))
       \<Longrightarrow> (\<And>x. m' x = (if sp - 8 \<le> x \<and> x < sp - 8 + 8 then g (x - (sp - 8)) else m x))
       \<Longrightarrow> stack_rel P free m0 pt0 M0 k pr b hi c' (M'\<lparr>mem := mm\<rparr>) (sp - 8, m')"
    by (rule push_ok [OF assms(1) assms(2) [unfolded i] len]) blast
  have "stack_rel P free m0 pt0 M0 k pr b hi c' (M'\<lparr>mem := wr64 (p * 4096 + (sp - 8) mod 4096) (of_nat n) (mem M')\<rparr>)
      (sp - 8, wr64 (sp - 8) (of_nat n) m)"
    by (rule w [where g = "\<lambda>i. ucast (drop_bit (8 * i) (of_nat n :: 64 word))"]) (simp_all only: wr64_def)
  then show ?thesis by (simp add: push_usize_def PTR_SIZE_def d i im_word_def)
qed

lemma fst_im [simp]: "fst (im_byte v i) = fst i - 1" "fst (im_word n i) = fst i - 8"
  by (simp_all add: im_byte_def im_word_def case_prod_unfold)

lemma fst_fold_im_byte: "fst (fold im_byte bs i) = fst i - length bs"
  by (induction bs arbitrary: i) simp_all

lemma fst_fold_im_word: "fst (fold im_word ns i) = fst i - 8 * length ns"
  by (induction ns arbitrary: i) simp_all

lemma push_bytes_ok:
  assumes "stack_env P free m0 k b hi"
  shows "stack_rel P free m0 pt0 M0 k pr b hi c M i \<Longrightarrow> b * 4096 + length bs \<le> fst i \<Longrightarrow>
    \<exists>c' M'. push_bytes P bs c M = Some (c', M') \<and> stack_rel P free m0 pt0 M0 k pr b hi c' M' (fold im_byte bs i)"
proof (induction bs arbitrary: c M i)
  case (Cons x bs)
  have "b * 4096 + 1 \<le> fst i" using Cons.prems(2) by simp
  then obtain c1 M1 where 1: "push_byte P x c M = Some (c1, M1)"
    "stack_rel P free m0 pt0 M0 k pr b hi c1 M1 (im_byte x i)"
    using push_byte_ok [OF assms Cons.prems(1)] by blast
  have "b * 4096 + length bs \<le> fst (im_byte x i)" using Cons.prems(2) by simp
  then show ?case using Cons.IH [OF 1(2)] 1(1) by simp
qed simp

lemma push_usizes_ok:
  assumes "stack_env P free m0 k b hi"
  shows "stack_rel P free m0 pt0 M0 k pr b hi c M i \<Longrightarrow> b * 4096 + 8 * length ns \<le> fst i \<Longrightarrow> fst i mod 8 = 0 \<Longrightarrow>
    \<exists>c' M'. push_usizes P ns c M = Some (c', M') \<and> stack_rel P free m0 pt0 M0 k pr b hi c' M' (fold im_word ns i)"
proof (induction ns arbitrary: c M i)
  case (Cons x ns)
  have b8: "b * 4096 + 8 \<le> fst i" using Cons.prems(2) by simp
  then obtain c1 M1 where 1: "push_usize P x c M = Some (c1, M1)"
    "stack_rel P free m0 pt0 M0 k pr b hi c1 M1 (im_word x i)"
    using push_usize_ok [OF assms Cons.prems(1) _ Cons.prems(3)] by blast
  have "b * 4096 + 8 * length ns \<le> fst (im_word x i)" using Cons.prems(2) by simp
  moreover have "fst (im_word x i) mod 8 = 0" using Cons.prems(3) b8 by (simp add: mod_eq_0_iff_dvd dvd_diff_nat)
  ultimately show ?case using Cons.IH [OF 1(2)] 1(1) by simp
qed simp

lemma push_auxv_words: "push_auxv P xs c M = push_usizes P (concat (map (\<lambda>(ty, v). [v, ty]) xs)) c M"
proof (induction xs arbitrary: c M)
  case (Cons x xs)
  then show ?case by (cases x) (simp add: Option.bind_assoc case_prod_unfold)
qed simp

definition strs_size :: "bytes list \<Rightarrow> nat" where
  "strs_size ss = sum_list (map (\<lambda>s. length s + 1) ss)"

lemma fst_im_str: "fst (im_str s i) = fst i - (length s + 1)"
  by (simp add: im_str_def fst_fold_im_byte)

lemma im_strs_size: "length (fst (im_strs ss i)) = length ss" "fst (snd (im_strs ss i)) = fst i - strs_size ss"
  by (induction ss arbitrary: i) (simp_all add: strs_size_def Let_def case_prod_unfold fst_im_str)

lemma push_strs_ok:
  assumes "stack_env P free m0 k b hi"
  shows "stack_rel P free m0 pt0 M0 k pr b hi c M i \<Longrightarrow> b * 4096 + strs_size ss \<le> fst i \<Longrightarrow>
    \<exists>c' M'. push_strs P ss c M = Some (fst (im_strs ss i), c', M')
       \<and> stack_rel P free m0 pt0 M0 k pr b hi c' M' (snd (im_strs ss i))"
proof (induction ss arbitrary: c M i)
  case (Cons s ss)
  have sz: "b * 4096 + (length s + 1) + strs_size ss \<le> fst i" using Cons.prems(2) by (simp add: strs_size_def)
  obtain c1 M1 where 1: "push_byte P 0 c M = Some (c1, M1)" "stack_rel P free m0 pt0 M0 k pr b hi c1 M1 (im_byte 0 i)"
    using push_byte_ok [OF assms Cons.prems(1), of 0] sz by auto
  have "b * 4096 + length (rev s) \<le> fst (im_byte 0 i)" using sz by simp
  then obtain c2 M2 where 2: "push_bytes P (rev s) c1 M1 = Some (c2, M2)" "stack_rel P free m0 pt0 M0 k pr b hi c2 M2 (im_str s i)"
    using push_bytes_ok [OF assms 1(2)] unfolding im_str_def by blast
  have "push_str P s c M = Some (fst (im_str s i), c2, M2)"
    using stack_rel_sp [OF 2(2)] by (simp add: push_str_def 1(1) 2(1))
  moreover have "b * 4096 + strs_size ss \<le> fst (im_str s i)" using sz by (simp add: fst_im_str)
  ultimately show ?case using Cons.IH [OF 2(2)] by (auto simp: Let_def case_prod_unfold)
qed simp

section \<open>What the program reads\<close>

definition words_at :: "memory \<Rightarrow> nat \<Rightarrow> nat list \<Rightarrow> bool" where
  "words_at m a ns \<longleftrightarrow> (\<forall>i<length ns. rd64 m (a + 8 * i) = of_nat (ns ! i))"

definition cstring :: "memory \<Rightarrow> nat \<Rightarrow> bytes \<Rightarrow> bool" where
  "cstring m p s \<longleftrightarrow> (\<forall>i<length s. m (p + i) = s ! i) \<and> m (p + length s) = 0"

definition above :: "image \<Rightarrow> image \<Rightarrow> bool" where
  "above i j \<longleftrightarrow> fst j \<le> fst i \<and> (\<forall>x\<ge>fst i. snd j x = snd i x)"

lemma above_refl: "above i i"
  by (simp add: above_def)

lemma above_trans: "above i j \<Longrightarrow> above j l \<Longrightarrow> above i l"
  unfolding above_def by force

lemma above_im_byte: "1 \<le> fst i \<Longrightarrow> above i (im_byte b i)"
  by (auto simp: above_def im_byte_def case_prod_unfold)

lemma above_im_word: "8 \<le> fst i \<Longrightarrow> above i (im_word n i)"
  by (auto simp: above_def im_word_def case_prod_unfold wr64_def)

lemma words_at_above: "above i j \<Longrightarrow> fst i \<le> a \<Longrightarrow> words_at (snd i) a ns \<Longrightarrow> words_at (snd j) a ns"
  unfolding words_at_def
proof (intro allI impI)
  fix l assume a: "above i j" "fst i \<le> a" "\<forall>l<length ns. rd64 (snd i) (a + 8 * l) = of_nat (ns ! l)" "l < length ns"
  have "rd64 (snd j) (a + 8 * l) = rd64 (snd i) (a + 8 * l)"
    using a(1,2) by (intro rd64_cong) (simp add: above_def)
  then show "rd64 (snd j) (a + 8 * l) = of_nat (ns ! l)" using a(3,4) by simp
qed

lemma cstring_above: "above i j \<Longrightarrow> fst i \<le> p \<Longrightarrow> cstring (snd i) p s \<Longrightarrow> cstring (snd j) p s"
  by (simp add: cstring_def above_def)

lemma fold_im_word_words:
  "8 * length ns \<le> fst i \<Longrightarrow>
     words_at (snd (fold im_word ns i)) (fst (fold im_word ns i)) (rev ns) \<and> above i (fold im_word ns i)"
proof (induction ns rule: rev_induct)
  case (snoc n ns)
  let ?j = "fold im_word ns i"
  have ih: "words_at (snd ?j) (fst ?j) (rev ns)" "above i ?j" using snoc by simp_all
  have j: "8 \<le> fst ?j" using snoc.prems by (simp add: fst_fold_im_word)
  have ab: "above ?j (im_word n ?j)" using above_im_word [OF j] .
  have w: "words_at (snd (im_word n ?j)) (fst ?j) (rev ns)" using words_at_above [OF ab _ ih(1)] by simp
  have "words_at (snd (im_word n ?j)) (fst (im_word n ?j)) (n # rev ns)"
    unfolding words_at_def
  proof (intro allI impI)
    fix l assume l: "l < length (n # rev ns)"
    show "rd64 (snd (im_word n ?j)) (fst (im_word n ?j) + 8 * l) = of_nat ((n # rev ns) ! l)"
    proof (cases l)
      case 0
      then show ?thesis by (simp add: im_word_def case_prod_unfold rd64_wr64_same)
    next
      case (Suc k)
      then have "fst (im_word n ?j) + 8 * l = fst ?j + 8 * k" using j by simp
      then show ?thesis using w l Suc by (simp add: words_at_def)
    qed
  qed
  then show ?case using above_trans [OF ih(2) ab] by simp
qed (simp add: words_at_def above_refl)

lemma fold_im_byte_bytes:
  "length s \<le> fst i \<Longrightarrow> (\<forall>l<length s. snd (fold im_byte (rev s) i) (fst (fold im_byte (rev s) i) + l) = s ! l)
     \<and> above i (fold im_byte (rev s) i)"
proof (induction s)
  case (Cons c s)
  let ?j = "fold im_byte (rev s) i"
  have ih: "\<forall>l<length s. snd ?j (fst ?j + l) = s ! l" "above i ?j" using Cons by simp_all
  have j: "1 \<le> fst ?j" using Cons.prems by (simp add: fst_fold_im_byte)
  have ab: "above ?j (im_byte c ?j)" using above_im_byte [OF j] .
  have "snd (im_byte c ?j) (fst (im_byte c ?j) + l) = (c # s) ! l" if "l < length (c # s)" for l
  proof (cases l)
    case 0
    then show ?thesis by (simp add: im_byte_def case_prod_unfold)
  next
    case (Suc k)
    then have "fst (im_byte c ?j) + l = fst ?j + k" using j by simp
    then show ?thesis using ih(1) ab that Suc by (simp add: above_def)
  qed
  then show ?case using above_trans [OF ih(2) ab] by simp
qed (simp add: above_refl)

lemma im_str_cstring:
  assumes "length s + 1 \<le> fst i"
  shows "cstring (snd (im_str s i)) (fst (im_str s i)) s" "above i (im_str s i)"
proof -
  let ?j = "im_byte 0 i" and ?l = "im_str s i"
  have b: "\<forall>l<length s. snd ?l (fst ?l + l) = s ! l" "above ?j ?l"
    using fold_im_byte_bytes [of s ?j] assms by (simp_all add: im_str_def)
  have "above i ?j" using assms by (intro above_im_byte) simp
  then show "above i ?l" using b(2) above_trans by blast
  have e: "fst ?l + length s = fst ?j" using assms by (simp add: fst_im_str)
  have "snd ?j (fst ?j) = 0" by (simp add: im_byte_def case_prod_unfold)
  then have "snd ?l (fst ?l + length s) = 0" using b(2) e by (simp add: above_def)
  then show "cstring (snd ?l) (fst ?l) s" using b(1) by (simp add: cstring_def)
qed

lemma im_strs_cstrings:
  "strs_size ss \<le> fst i \<Longrightarrow>
     list_all2 (cstring (snd (snd (im_strs ss i)))) (fst (im_strs ss i)) ss \<and> above i (snd (im_strs ss i))
     \<and> list_all (\<lambda>p. fst (snd (im_strs ss i)) \<le> p) (fst (im_strs ss i))"
proof (induction ss arbitrary: i)
  case (Cons s ss)
  let ?j = "im_str s i"
  have sz: "length s + 1 \<le> fst i" "strs_size ss \<le> fst ?j"
    using Cons.prems by (simp_all add: strs_size_def fst_im_str)
  note cs = im_str_cstring [OF sz(1)]
  note ih = Cons.IH [OF sz(2)]
  then have "cstring (snd (snd (im_strs ss ?j))) (fst ?j) s" using cstring_above [OF _ order_refl cs(1)] by blast
  moreover have "fst (snd (im_strs ss ?j)) \<le> fst ?j" using ih by (simp add: above_def)
  ultimately show ?case using ih above_trans [OF cs(2)] by (simp add: Let_def case_prod_unfold)
qed (simp add: above_refl)

section \<open>The whole stack\<close>

lemma push_usizes_append:
  "push_usizes P (xs @ ys) c M = Option.bind (push_usizes P xs c M) (\<lambda>(c, M). push_usizes P ys c M)"
  by (induction xs arbitrary: c M) (simp_all add: Option.bind_assoc case_prod_unfold)

definition vectors :: "nat \<Rightarrow> (nat \<times> nat) list \<Rightarrow> nat list \<Rightarrow> nat list \<Rightarrow> nat list" where
  "vectors r auxv envps argps =
     argps @ 0 # envps @ 0 # concat (map (\<lambda>(ty, v). [ty, v]) (rev auxv)) @ [r, AT_RANDOM, 0, 0]"

lemma init_stack_words:
  "init_stack_impl P t1 t2 args envs auxv c M = do {
     (c, M) \<leftarrow> push_usizes P [0, t1, t2] c M;
     (envps, c', M) \<leftarrow> push_strs P envs c M;
     (c', M) \<leftarrow> push_usizes P [0] c' M;
     (argps, c', M) \<leftarrow> push_strs P args c' M;
     (c', M) \<leftarrow> push_usizes P (rev (vectors (user_sp c) auxv envps argps)) (c'\<lparr>user_sp := user_sp c' - user_sp c' mod 8\<rparr>) M;
     (c'', M) \<leftarrow> push_usizes P [length args] c' M;
     Some (user_sp c'', user_sp c', c'', M)
   }"
proof -
  have r: "rev (vectors r auxv envps argps)
      = [0, 0, AT_RANDOM, r] @ concat (map (\<lambda>(ty, v). [v, ty]) auxv) @ [0] @ rev envps @ [0] @ rev argps" for r envps argps
    by (simp add: vectors_def rev_concat rev_map comp_def case_prod_unfold)
  show ?thesis
    by (simp add: init_stack_impl_def r push_usizes_append push_auxv_words push_ptrs_def Option.bind_assoc
        case_prod_unfold Let_def)
qed

text \<open>Rounding the pointer down stays in its page.\<close>

lemma align_ok:
  assumes rel: "stack_rel P free m0 pt0 M0 k pr b hi c M i"
  shows "\<exists>j. fst j = fst i - fst i mod 8 \<and> above i j \<and> stack_rel P free m0 pt0 M0 k pr b hi (c\<lparr>user_sp := fst j\<rparr>) M j"
proof (cases "fst i mod 8 = 0")
  case True
  have "c\<lparr>user_sp := fst i\<rparr> = c" using stack_rel_sp [OF rel] by (cases c) simp
  then show ?thesis using rel True above_refl by (intro exI [of _ i]) simp
next
  case False
  obtain sp m where i: "i = (sp, m)" by (cases i)
  let ?sp = "sp - sp mod 8"
  have inv: "stack_inv P free m0 pt0 M0 k pr b hi sp c M" and im: "shows_image c M sp hi m"
    using rel i by (simp_all add: stack_rel_def)
  have b: "b * 4096 \<le> sp" "sp \<le> hi * 4096" using inv by (simp_all add: stack_inv_def)
  have nz: "sp mod 4096 \<noteq> 0"
  proof
    assume "sp mod 4096 = 0"
    then have "sp mod 4096 mod 8 = 0" by simp
    then show False using False i by (simp add: mod_mod_cancel)
  qed
  have le: "sp mod 8 \<le> sp mod 4096"
  proof -
    have "sp mod 4096 mod 8 = sp mod 8" by (simp add: mod_mod_cancel)
    then show ?thesis by (metis mod_less_eq_dividend)
  qed
  have dv: "?sp div 4096 = sp div 4096" "?sp mod 4096 \<noteq> 0 \<Longrightarrow> sp mod 4096 \<noteq> 0"
    using div_4096_down(1) [of "sp mod 8" sp] le nz False i by (simp_all add: less_imp_le)
  have bs: "b * 4096 \<le> ?sp"
  proof -
    have "b \<le> sp div 4096" using b(1) by (simp add: less_eq_div_iff_mult_less_eq)
    then have "b * 4096 \<le> ?sp div 4096 * 4096" using dv(1) by simp
    then show ?thesis using div_times_less_eq_dividend [of ?sp 4096] by linarith
  qed
  have keys: "fst ` set (unbacked_map (ctx_area c)) = {sp div 4096..<hi}"
    and pg: "ctx_page c = bt_get (unbacked_map (ctx_area c)) (sp div 4096)"
    using inv nz by (simp_all add: stack_inv_def)
  have "sp < hi * 4096" using b(2) nz by (cases "sp = hi * 4096") auto
  then have "sp div 4096 \<in> dom (bt_get (unbacked_map (ctx_area c)))"
    unfolding dom_bt_get keys by (simp add: div_less_iff_less_mult)
  then obtain p where p: "bt_get (unbacked_map (ctx_area c)) (sp div 4096) = Some p" by blast
  let ?m = "\<lambda>va. if sp \<le> va then m va else mem M (p * 4096 + va mod 4096)"
  have "stack_inv P free m0 pt0 M0 k pr b hi ?sp (c\<lparr>user_sp := ?sp\<rparr>) M"
    using inv bs b(2) pg unfolding stack_inv_def by (simp add: dv(1))
  moreover have "shows_image (c\<lparr>user_sp := ?sp\<rparr>) M ?sp hi ?m"
    unfolding shows_image_def
  proof (intro allI impI)
    fix va assume va: "?sp \<le> va \<and> va < hi * 4096"
    show "\<exists>q. bt_get (unbacked_map (ctx_area (c\<lparr>user_sp := ?sp\<rparr>))) (va div 4096) = Some q
        \<and> mem M (q * 4096 + va mod 4096) = ?m va"
    proof (cases "sp \<le> va")
      case True
      then show ?thesis using im va by (simp add: shows_image_def)
    next
      case False
      then have "?sp div 4096 \<le> va div 4096" "va div 4096 \<le> sp div 4096" using va by (simp_all add: div_le_mono)
      then have "va div 4096 = sp div 4096" using dv(1) by simp
      then show ?thesis using p False by simp
    qed
  qed
  moreover have "above (sp, m) (?sp, ?m)" by (simp add: above_def)
  ultimately show ?thesis using i by (intro exI [of _ "(?sp, ?m)"]) (simp add: stack_rel_def)
qed

definition stack_size :: "bytes list \<Rightarrow> bytes list \<Rightarrow> (nat \<times> nat) list \<Rightarrow> nat" where
  "stack_size args envs auxv =
     95 + strs_size envs + strs_size args + 16 * length auxv + 8 * (length envs + length args)"

lemma length_vectors: "length (vectors r auxv envps argps) = length argps + length envps + 2 * length auxv + 6"
proof -
  have "length (concat (map (\<lambda>(ty, v). [ty, v]) xs)) = 2 * length xs" for xs :: "(nat \<times> nat) list"
    by (induction xs) auto
  then show ?thesis by (simp add: vectors_def)
qed

lemma push_usizes_step:
  assumes "stack_env P free m0 k b hi" "stack_rel P free m0 pt0 M0 k pr b hi c M i"
    "b * 4096 + 8 * length ns \<le> fst i" "fst i mod 8 = 0"
  obtains c' M' j where "push_usizes P ns c M = Some (c', M')" "stack_rel P free m0 pt0 M0 k pr b hi c' M' j"
    "fst j + 8 * length ns = fst i" "fst j mod 8 = 0" "above i j" "words_at (snd j) (fst j) (rev ns)"
proof -
  let ?j = "fold im_word ns i"
  have l: "8 * length ns \<le> fst i" using assms(3) by linarith
  have f: "fst ?j + 8 * length ns = fst i" using l by (simp add: fst_fold_im_word)
  have "fst ?j mod 8 = 0" using assms(4) unfolding fst_fold_im_word by (simp add: mod_eq_0_iff_dvd dvd_diff_nat)
  moreover obtain c' M' where "push_usizes P ns c M = Some (c', M')" "stack_rel P free m0 pt0 M0 k pr b hi c' M' ?j"
    using push_usizes_ok [OF assms] by blast
  ultimately show thesis using fold_im_word_words [OF l] by (intro that [OF _ _ f]) simp_all
qed

lemma push_strs_step:
  assumes "stack_env P free m0 k b hi" "stack_rel P free m0 pt0 M0 k pr b hi c M i" "b * 4096 + strs_size ss \<le> fst i"
  obtains ps c' M' j where "push_strs P ss c M = Some (ps, c', M')" "stack_rel P free m0 pt0 M0 k pr b hi c' M' j"
    "fst j + strs_size ss = fst i" "above i j" "list_all2 (cstring (snd j)) ps ss" "list_all (\<lambda>p. fst j \<le> p) ps"
    "length ps = length ss"
proof -
  have l: "strs_size ss \<le> fst i" using assms(3) by linarith
  have "fst (snd (im_strs ss i)) + strs_size ss = fst i" using l by (simp add: im_strs_size)
  then show thesis using that push_strs_ok [OF assms] im_strs_cstrings [OF l] im_strs_size(1) by metis
qed

lemma strings_above:
  assumes "list_all2 (cstring (snd i)) ps ss" "list_all (\<lambda>p. fst i \<le> p) ps" "above i j"
  shows "list_all2 (cstring (snd j)) ps ss \<and> list_all (\<lambda>p. fst j \<le> p) ps"
proof -
  have "fst j \<le> fst i" using assms(3) by (simp add: above_def)
  then show ?thesis
    using assms by (auto simp: list_all2_conv_all_nth list_all_length intro: cstring_above)
qed

lemma init_stack_impl_ok:
  assumes env: "stack_env P free m0 k b hi" and rel: "stack_rel P free m0 pt0 M0 k pr b hi c M (hi * 4096, m)"
    and sz: "b * 4096 + stack_size args envs auxv \<le> hi * 4096" and al: "strs_size envs mod 8 = 0"
  shows "\<exists>c' M' i argps envps r.
     init_stack_impl P t1 t2 args envs auxv c M = Some (fst i, fst i + 8, c', M')
     \<and> stack_rel P free m0 pt0 M0 k pr b hi c' M' i \<and> above (hi * 4096, m) i \<and> fst i mod 8 = 0
     \<and> words_at (snd i) (fst i) (length args # vectors r auxv envps argps)
     \<and> list_all2 (cstring (snd i)) argps args \<and> list_all2 (cstring (snd i)) envps envs \<and> words_at (snd i) r [t2, t1]
     \<and> list_all (\<lambda>p. fst i \<le> p) argps \<and> list_all (\<lambda>p. fst i \<le> p) envps \<and> fst i \<le> r"
proof -
  let ?rel = "stack_rel P free m0 pt0 M0 k pr b hi"
  have S: "b * 4096 + 95 + strs_size envs + strs_size args + 16 * length auxv + 8 * length envs + 8 * length args \<le> hi * 4096"
    using sz by (simp add: stack_size_def)
  have "b * 4096 + 8 * length [0, t1, t2] \<le> fst (hi * 4096, m)" "fst (hi * 4096, m) mod 8 = 0" using S by simp_all
  then obtain c1 M1 i1 where 1: "push_usizes P [0, t1, t2] c M = Some (c1, M1)" "?rel c1 M1 i1"
    "fst i1 + 24 = hi * 4096" "fst i1 mod 8 = 0" "above (hi * 4096, m) i1" "words_at (snd i1) (fst i1) [t2, t1, 0]"
    using push_usizes_step [OF env rel, where thesis = thesis and ns = "[0, t1, t2]"] by auto
  have "b * 4096 + strs_size envs \<le> fst i1" using S 1(3) by linarith
  then obtain envps c2 M2 i2 where 2: "push_strs P envs c1 M1 = Some (envps, c2, M2)" "?rel c2 M2 i2"
    "fst i2 + strs_size envs = fst i1" "above i1 i2" "list_all2 (cstring (snd i2)) envps envs"
    "list_all (\<lambda>p. fst i2 \<le> p) envps" "length envps = length envs"
    using push_strs_step [OF env 1(2)] by blast
  have "fst i2 mod 8 = 0" using 1(4) 2(3) al by presburger
  moreover have "b * 4096 + 8 * length [0::nat] \<le> fst i2" using S 1(3) 2(3) by simp
  ultimately obtain c3 M3 i3 where 3: "push_usizes P [0] c2 M2 = Some (c3, M3)" "?rel c3 M3 i3"
    "fst i3 + 8 = fst i2" "above i2 i3"
    using push_usizes_step [OF env 2(2), where thesis = thesis and ns = "[0]"] by auto
  have "b * 4096 + strs_size args \<le> fst i3" using S 1(3) 2(3) 3(3) by linarith
  then obtain argps c4 M4 i4 where 4: "push_strs P args c3 M3 = Some (argps, c4, M4)" "?rel c4 M4 i4"
    "fst i4 + strs_size args = fst i3" "above i3 i4" "list_all2 (cstring (snd i4)) argps args"
    "list_all (\<lambda>p. fst i4 \<le> p) argps" "length argps = length args"
    using push_strs_step [OF env 3(2)] by blast
  obtain i5 where 5: "fst i5 = fst i4 - fst i4 mod 8" "above i4 i5" "?rel (c4\<lparr>user_sp := fst i5\<rparr>) M4 i5"
    using align_ok [OF 4(2)] by blast
  have m5: "fst i5 mod 8 = 0" unfolding 5(1) by (simp add: minus_mod_eq_mult_div)
  have "fst i4 mod 8 \<le> 7" using mod_less_divisor [of 8 "fst i4"] by simp
  then have f5: "fst i4 \<le> fst i5 + 7" unfolding 5(1) by linarith
  let ?ws = "rev (vectors (fst i1) auxv envps argps)"
  have S5: "b * 4096 + 8 * length ?ws + 8 \<le> fst i5"
    using S 1(3) 2(3) 3(3) 4(3) f5 by (simp add: length_vectors 2(7) 4(7))
  then have s6: "b * 4096 + 8 * length ?ws \<le> fst i5" by linarith
  obtain c6 M6 i6 where 6: "push_usizes P ?ws (c4\<lparr>user_sp := fst i5\<rparr>) M4 = Some (c6, M6)" "?rel c6 M6 i6"
    "fst i6 + 8 * length ?ws = fst i5" "fst i6 mod 8 = 0" "above i5 i6" "words_at (snd i6) (fst i6) (rev ?ws)"
    using push_usizes_step [OF env 5(3) s6 m5] .
  have s7: "b * 4096 + 8 * length (?ws @ [length args]) \<le> fst i5" using S5 by simp
  obtain c7 M7 i7 where 7: "push_usizes P (?ws @ [length args]) (c4\<lparr>user_sp := fst i5\<rparr>) M4 = Some (c7, M7)"
    "?rel c7 M7 i7" "fst i7 + 8 * length (?ws @ [length args]) = fst i5" "fst i7 mod 8 = 0" "above i5 i7"
    "words_at (snd i7) (fst i7) (rev (?ws @ [length args]))"
    using push_usizes_step [OF env 5(3) s7 m5] .
  have pa: "push_usizes P [length args] c6 M6 = Some (c7, M7)" using 7(1) by (simp add: push_usizes_append 6(1))
  have f67: "fst i6 = fst i7 + 8" using 6(3) 7(3) by simp
  have e: "init_stack_impl P t1 t2 args envs auxv c M = Some (fst i7, fst i7 + 8, c7, M7)"
    unfolding init_stack_words 1(1) 2(1) 3(1) 4(1) Option.bind.bind_lunit prod.case
      stack_rel_sp [OF 1(2)] stack_rel_sp [OF 4(2)] 5(1) [symmetric] 6(1) pa
      stack_rel_sp [OF 6(2)] stack_rel_sp [OF 7(2)] f67 by simp
  have ab47: "above i4 i7" using above_trans [OF 5(2) 7(5)] .
  have ab27: "above i2 i7" using above_trans [OF above_trans [OF 3(4) 4(4)] ab47] .
  have ab17: "above i1 i7" using above_trans [OF 2(4) ab27] .
  have "words_at (snd i1) (fst i1) [t2, t1]" using 1(6) by (auto simp: words_at_def nth_Cons split: nat.splits)
  then have "words_at (snd i7) (fst i1) [t2, t1]" using words_at_above [OF ab17 order_refl] by blast
  moreover have "fst i7 \<le> fst i1" using ab17 by (simp add: above_def)
  moreover have "words_at (snd i7) (fst i7) (length args # vectors (fst i1) auxv envps argps)" using 7(6) by simp
  ultimately show ?thesis
    using e 7(2,4) above_trans [OF 1(5) ab17] strings_above [OF 2(5,6) ab27] strings_above [OF 4(5,6) ab47]
    by (intro exI [of _ c7] exI [of _ M7] exI [of _ i7] exI [of _ argps]
        exI [of _ envps] exI [of _ "fst i1"] conjI) blast+
qed

text \<open>The memory that a program sees through its page table.\<close>

definition user_mem :: "memory_space \<Rightarrow> 'fa machine \<Rightarrow> memory" where
  "user_mem ms M va = (case pt_lookup (mem M) (ms_table ms) (va div PAGE_SIZE) of
     None \<Rightarrow> 0 | Some (p, f) \<Rightarrow> mem M (p * PAGE_SIZE + va mod PAGE_SIZE))"

lemma stack_rel_user_mem:
  assumes rel: "stack_rel P free m0 pt0 M0 k pr b hi c M i" and va: "fst i \<le> va" "va < hi * 4096"
  defines "ms \<equiv> \<lparr>ms_table = ctx_table c, user_areas = m0 @ [(k, ctx_area c)]\<rparr>"
  shows "user_mem ms M va = snd i va"
    "\<exists>p. pt_lookup (mem M) (ms_table ms) (va div 4096) = Some (p, pte_flags_from pr OR PTE_V)"
proof -
  have ok: "ms_ok P free ms M" "perm (ctx_area c) = pr" using rel by (simp_all add: stack_rel_def stack_inv_def ms_def)
  obtain p where p: "bt_get (unbacked_map (ctx_area c)) (va div 4096) = Some p" "mem M (p * 4096 + va mod 4096) = snd i va"
    using rel va unfolding stack_rel_def shows_image_def by blast
  have "ms_owns (user_areas ms) (va div 4096) p pr"
    unfolding ms_owns_def ms_def using p(1) ok(2) by (intro bexI [of _ "(k, ctx_area c)"]) simp_all
  then have "pt_lookup (mem M) (ms_table ms) (va div 4096) = Some (p, pte_flags_from pr OR PTE_V)"
    using ms_okD(4) [OF ok(1)] by blast
  then show "user_mem ms M va = snd i va"
    "\<exists>p. pt_lookup (mem M) (ms_table ms) (va div 4096) = Some (p, pte_flags_from pr OR PTE_V)"
    using p(2) by (simp_all add: user_mem_def PAGE_SIZE_def)
qed

lemma user_stack_0: "user_stack_high_addr 0 = Some (2 ^ 26)" "user_stack_low_addr 0 = Some (2 ^ 26 - 2048)"
  by (simp_all add: user_stack_high_addr_def user_stack_low_addr_def const_defs checked vpn_floor_div)

abbreviation stack_perm :: map_permission where
  "stack_perm \<equiv> PERM_R OR PERM_W OR PERM_U"

lemma stack_start:
  assumes ok: "ms_ok P free ms M" and lt: "\<forall>(k, a)\<in>set (user_areas ms). k < 2 ^ 26 - 2048 \<and> vpn_end a \<le> 2 ^ 26 - 2048"
    and b: "b \<le> 2 ^ 26" and can: "can_alloc P (3 * (2 ^ 26 - b)) (falloc M)"
  shows "alloc_user_stack P 0 ms M = Some (2 ^ 26 - 2048, 2 ^ 26,
      ms\<lparr>user_areas := user_areas ms @ [(2 ^ 26 - 2048, vm_area_new (2 ^ 26 - 2048) (2 ^ 26) stack_perm Lazy)]\<rparr>, M)"
    "stack_rel P free (user_areas ms) (ms_table ms) M (2 ^ 26 - 2048) stack_perm b (2 ^ 26)
       (stack_init_new (2 ^ 26) (vm_area_new (2 ^ 26 - 2048) (2 ^ 26) stack_perm Lazy) (ms_table ms)) M (2 ^ 26 * 4096, m)"
proof -
  have keys: "\<forall>j\<in>fst ` set (user_areas ms). j < 2 ^ 26 - 2048" using lt by auto
  then have "bt_get (user_areas ms) (2 ^ 26 - 2048) = None" by (intro bt_get_notin) auto
  moreover have "bt_insert (2 ^ 26 - 2048) a (user_areas ms) = user_areas ms @ [(2 ^ 26 - 2048, a)]" for a
    using bt_insert_append(1) [OF keys] .
  ultimately show "alloc_user_stack P 0 ms M = Some (2 ^ 26 - 2048, 2 ^ 26,
      ms\<lparr>user_areas := user_areas ms @ [(2 ^ 26 - 2048, vm_area_new (2 ^ 26 - 2048) (2 ^ 26) stack_perm Lazy)]\<rparr>, M)"
    by (simp add: alloc_user_stack_def user_stack_0 user_map_def insert_area_def vm_area_new_def)
  have "ms_ok P free \<lparr>ms_table = ms_table ms, user_areas = user_areas ms\<rparr> M" using ok by (cases ms) simp
  note ok' = ms_ok_append_new [OF this lt, of "2 ^ 26" stack_perm]
  have ps: "page_start (2 ^ 26) = 2 ^ 26 * 4096" by (rule page_start_mult) simp
  show "stack_rel P free (user_areas ms) (ms_table ms) M (2 ^ 26 - 2048) stack_perm b (2 ^ 26)
       (stack_init_new (2 ^ 26) (vm_area_new (2 ^ 26 - 2048) (2 ^ 26) stack_perm Lazy) (ms_table ms)) M (2 ^ 26 * 4096, m)"
    using ok' b can grown_refl [of P free "ms_table ms" M]
    by (simp add: stack_rel_def stack_inv_def shows_image_def stack_init_new_def ps [simplified] vm_area_new_def)
qed

text \<open>
  C34: The stack of a new program.  With an environment whose strings fill a multiple of eight
  bytes, with everything fitting in the stack area, with the areas of the space below the stack
  area and with three frames for each page, the pushes succeed and leave a well-formed space.  Through its page table the program reads at
  its 8-aligned stack pointer the number of arguments, the argument pointers and a null, the
  environment pointers and a null, the auxiliary entries, the pair for the random bytes (with
  its two words in the opposite order of the other entries) and two nulls; each pointer
  leads to its null-terminated string; all of it is mapped readable and writable; and the
  pages the space had before are untouched.
\<close>

theorem init_stack_correct:
  assumes "buddy_spec P free" "ms_ok P free ms M"
    "\<forall>(k, a)\<in>set (user_areas ms). k < 2 ^ 26 - 2048 \<and> vpn_end a \<le> 2 ^ 26 - 2048"
    "strs_size envs mod 8 = 0" "stack_size args envs auxv \<le> USER_STACK_SIZE"
    "can_alloc P (3 * div_ceil (stack_size args envs auxv) PAGE_SIZE) (falloc M)"
  shows "\<exists>sp ms' M' argps envps r.
     init_stack P t1 t2 0 args envs auxv ms M = Some (sp, sp + 8, ms', M')
     \<and> ms_ok P free ms' M' \<and> sp mod 8 = 0
     \<and> words_at (user_mem ms' M') sp (length args # argps @ 0 # envps @ 0 #
          concat (map (\<lambda>(ty, v). [ty, v]) (rev auxv)) @ [r, AT_RANDOM, 0, 0])
     \<and> list_all2 (cstring (user_mem ms' M')) argps args
     \<and> list_all2 (cstring (user_mem ms' M')) envps envs
     \<and> words_at (user_mem ms' M') r [t2, t1]
     \<and> (\<forall>va. sp \<le> va \<and> va < LOW_ADDRESS_END \<longrightarrow> (\<exists>p.
          pt_lookup (mem M') (ms_table ms') (vpn_floor va) = Some (p, pte_flags_from (PERM_R OR PERM_W OR PERM_U) OR PTE_V)))
     \<and> (\<forall>v p pr i. ms_owns (user_areas ms) v p pr \<and> i < PAGE_SIZE \<longrightarrow>
          ms_owns (user_areas ms') v p pr \<and> mem M' (p * PAGE_SIZE + i) = mem M (p * PAGE_SIZE + i))"
proof -
  let ?hi = "2 ^ 26 :: nat" and ?k = "2 ^ 26 - 2048 :: nat" and ?n = "div_ceil (stack_size args envs auxv) 4096"
  define b where "b = ?hi - ?n"
  have n: "?n \<le> 2048" "stack_size args envs auxv \<le> ?n * 4096"
    using div_ceil_le_iff [of 4096 "stack_size args envs auxv" 2048] div_ceil_ge [of 4096 "stack_size args envs auxv"]
      assms(5) by (simp_all add: USER_STACK_SIZE_def)
  then have b: "b \<le> ?hi" "?k \<le> b" "?hi - b = ?n" "b * 4096 + stack_size args envs auxv \<le> ?hi * 4096"
    by (simp_all add: b_def)
  have can: "can_alloc P (3 * (?hi - b)) (falloc M)" using assms(6) b(3) by (simp add: PAGE_SIZE_def)
  have env: "stack_env P free (user_areas ms) ?k b ?hi"
    using assms(1,3) b(2) by (auto simp: stack_env_def)
  note start = stack_start [OF assms(2,3) b(1) can]
  let ?rel = "stack_rel P free (user_areas ms) (ms_table ms) M ?k stack_perm b ?hi"
  let ?c = "stack_init_new ?hi (vm_area_new ?k ?hi stack_perm Lazy) (ms_table ms)"
  let ?ms = "\<lambda>c. \<lparr>ms_table = ctx_table c, user_areas = user_areas ms @ [(?k, ctx_area c)]\<rparr>"
  obtain sp c' M' where ex: "init_stack_impl P t1 t2 args envs auxv ?c M = Some (sp, sp + 8, c', M')"
    using init_stack_impl_ok [OF env start(2) b(4) assms(4), of t1 t2] by blast
  let ?U = "user_mem (?ms c') M'"
  obtain i argps envps r where i: "fst i = sp" "?rel c' M' i" "above (?hi * 4096, ?U) i" "fst i mod 8 = 0"
    "words_at (snd i) (fst i) (length args # vectors r auxv envps argps)"
    "list_all2 (cstring (snd i)) argps args" "list_all2 (cstring (snd i)) envps envs" "words_at (snd i) r [t2, t1]"
    "list_all (\<lambda>p. fst i \<le> p) argps" "list_all (\<lambda>p. fst i \<le> p) envps" "fst i \<le> r"
    using init_stack_impl_ok [OF env start(2) b(4) assms(4), of t1 t2 ?U] ex by auto
  have eq: "above i (fst i, ?U)"
  proof -
    have "?U va = snd i va" if "fst i \<le> va" for va
      using that stack_rel_user_mem(1) [OF i(2)] i(3) by (cases "va < ?hi * 4096") (auto simp: above_def)
    then show ?thesis by (simp add: above_def)
  qed
  have keys: "\<forall>j\<in>fst ` set (user_areas ms). j < ?k" using assms(3) by auto
  have g: "bt_get (user_areas ms @ [(?k, a)]) ?k = Some a" for a
    using bt_get_insert [of ?k a "user_areas ms"] unfolding bt_insert_append(1) [OF keys] by simp
  have res: "init_stack P t1 t2 0 args envs auxv ms M = Some (sp, sp + 8, ?ms c', M')"
    unfolding init_stack_def start(1) by (simp add: g [simplified] ex [simplified] bt_insert_append(2) [OF keys, simplified])
  have inv: "ms_ok P free (?ms c') M'" "grown P free (ms_table ms) M (ctx_table c') M'"
    using i(2) by (simp_all add: stack_rel_def stack_inv_def)
  have own: "ms_owns (user_areas (?ms c')) v p pr \<and> mem M' (p * 4096 + j) = mem M (p * 4096 + j)"
    if "ms_owns (user_areas ms) v p pr" "j < 4096" for v p pr j
    using that grown_keeps [OF assms(2) inv(2)] by (auto simp: ms_owns_def)
  have map: "\<exists>p. pt_lookup (mem M') (ms_table (?ms c')) (vpn_floor va) = Some (p, pte_flags_from stack_perm OR PTE_V)"
    if "sp \<le> va" "va < LOW_ADDRESS_END" for va
    using stack_rel_user_mem(2) [OF i(2), of va] that i(1) by (simp add: LOW_ADDRESS_END_def vpn_floor_div)
  have w: "words_at ?U sp (length args # vectors r auxv envps argps)" "words_at ?U r [t2, t1]"
    using words_at_above [OF eq _ i(5)] words_at_above [OF eq i(11,8)] i(1) by simp_all
  have st: "list_all2 (cstring ?U) argps args" "list_all2 (cstring ?U) envps envs"
    using strings_above [OF i(6,9) eq] strings_above [OF i(7,10) eq] by simp_all
  have "sp mod 8 = 0" using i(1,4) by simp
  with res inv(1) w st own map show ?thesis
    unfolding PAGE_SIZE_def vectors_def
    by (intro exI [of _ sp] exI [of _ "?ms c'"] exI [of _ M'] exI [of _ argps] exI [of _ envps] exI [of _ r] conjI) blast+
qed

theorem init_stack_correct_witness:
  "\<exists>sp ms' M' argps envps r.
     init_stack list_platform 5 6 0 [[0x73, 0x68]] [[0x41, 0x3D, 0x62, 0x62, 0x62, 0x62, 0x62]] [(AT_PAGESZ, 4096)] demo_ms demo_M
       = Some (sp, sp + 8, ms', M')
     \<and> ms_ok list_platform set ms' M' \<and> sp mod 8 = 0
     \<and> words_at (user_mem ms' M') sp (1 # argps @ 0 # envps @ 0 # [AT_PAGESZ, 4096, r, AT_RANDOM, 0, 0])
     \<and> list_all2 (cstring (user_mem ms' M')) argps [[0x73, 0x68]]"
proof -
  have can: "can_alloc list_platform (3 * div_ceil (stack_size [[0x73, 0x68]] [[0x41, 0x3D, 0x62, 0x62, 0x62, 0x62, 0x62]]
      [(AT_PAGESZ, 4096)]) PAGE_SIZE) (falloc demo_M)"
    by (simp add: stack_size_def strs_size_def div_ceil_def PAGE_SIZE_def demo_M_def numeral_3_eq_3)
  have lt: "\<forall>(k, a)\<in>set (user_areas demo_ms). k < 2 ^ 26 - 2048 \<and> vpn_end a \<le> 2 ^ 26 - 2048"
    by (simp add: demo_ms_def vm_area_new_def)
  show ?thesis
    using init_stack_correct [OF list_platform_spec demo_ms_ok lt _ _ can, of 5 6]
    by (simp add: strs_size_def stack_size_def USER_STACK_SIZE_def)
      (elim exE conjE, intro exI conjI, assumption+)
qed

text \<open>
  With a stack pointer that is not aligned, a word that crosses into the next page is written
  past the end of the frame of the upper page, and no page is added below.
\<close>

lemma push_usize_straddles:
  assumes "user_sp c = v * 4096 + 4" "0 < v" "v < 2 ^ 26" "ctx_page c = Some p" "p < 2 ^ 20"
  shows "push_usize P n c M
     = Some (c\<lparr>user_sp := v * 4096 - 4\<rparr>, M\<lparr>mem := wr64 (p * 4096 + 4092) (of_nat n) (mem M)\<rparr>)"
proof -
  have sp: "v * 4096 + 4 - 8 = v * 4096 - 4" "v * 4096 - 4 + 8 = v * 4096 + 4" "8 \<le> v * 4096 + 4" using assms(2) by simp_all
  have "v * 4096 - 4 = (v - 1) * 4096 + 4092" using assms(2) by (simp add: algebra_simps)
  moreover have "((v - 1) * 4096 + 4092) mod 4096 = 4092" by simp
  ultimately have off: "(v * 4096 - 4) mod 4096 = 4092" by simp
  have "v * 4096 + 4 < usize_limit" using assms(3) by (simp add: usize_limit_def)
  then have "sp_down P PTR_SIZE c M = Some (c\<lparr>user_sp := v * 4096 - 4\<rparr>, M)"
    using sp assms(1) by (simp add: sp_down_def PTR_SIZE_def uadd_def usub_def PAGE_SIZE_def)
  moreover have "frame_at p (page_offset (v * 4096 - 4)) = Some (p * 4096 + 4092)"
    using frame_at_eq [OF assms(5), of 4092] off by (simp add: page_offset_mod)
  ultimately show ?thesis using assms(4) by (simp add: push_usize_def)
qed

end
