(* ===== verification/SpaceConfine.thy ===== *)
theory SpaceConfine
  imports UserStack
begin

text \<open>
  What an operation on one address space can do to the rest of the machine.  A space has its
  tables and the frames its areas own; an operation is confined when it writes only to those
  and to available frames, and when it takes what it gains from the available frames and
  gives back only what it had.  The operations of an address space are confined, so that
  the spaces of other processes, whose frames are different ones, stay as they are.
\<close>

text \<open>
  Dropping an address space gives back its tables and the frames of its areas.
\<close>

definition space_drop :: "'fa platform \<Rightarrow> memory_space \<Rightarrow> 'fa machine \<Rightarrow> 'fa machine option" where
  "space_drop P ms M = do {
     M \<leftarrow> frames_drop P (root_frame (ms_table ms) # frames (ms_table ms)) M;
     drop_areas P (map snd (user_areas ms)) M
   }"

definition owned :: "(vpn, vm_area) btree \<Rightarrow> ppn set" where
  "owned m = {p. \<exists>v pr. ms_owns m v p pr}"

lemma ownedI: "ms_owns m v p pr \<Longrightarrow> p \<in> owned m"
  unfolding owned_def by blast

lemma ownedD: "p \<in> owned m \<Longrightarrow> \<exists>v pr. ms_owns m v p pr"
  unfolding owned_def by blast

lemma owned_mono: "set m' \<subseteq> set m \<Longrightarrow> owned m' \<subseteq> owned m"
  unfolding owned_def ms_owns_def by blast

lemma owned_Nil [simp]: "owned [] = {}"
  by (simp add: owned_def ms_owns_def)

definition ms_frames :: "memory_space \<Rightarrow> ppn set" where
  "ms_frames ms = set (root_frame (ms_table ms) # frames (ms_table ms)) \<union> owned (user_areas ms)"

definition confined ::
  "'fa platform \<Rightarrow> ('fa \<Rightarrow> nat set) \<Rightarrow> memory_space \<Rightarrow> 'fa machine \<Rightarrow> memory_space \<Rightarrow> 'fa machine \<Rightarrow> bool" where
  "confined P free ms M ms' M' \<longleftrightarrow>
     ms_frames ms' \<union> avail P free M' \<subseteq> ms_frames ms \<union> avail P free M
   \<and> (\<forall>x. x div 4096 \<notin> ms_frames ms \<union> avail P free M \<longrightarrow> mem M' x = mem M x)"

lemma confined_refl: "confined P free ms M ms M"
  by (simp add: confined_def)

lemma confined_trans:
  "confined P free ms M ms1 M1 \<Longrightarrow> confined P free ms1 M1 ms2 M2 \<Longrightarrow> confined P free ms M ms2 M2"
  unfolding confined_def by (metis subset_iff subset_trans)

lemma ms_owns_frames: "ms_owns (user_areas ms) v p pr \<Longrightarrow> p \<in> ms_frames ms"
  by (simp add: ms_frames_def ownedI)

lemma ms_frames_ok:
  assumes "ms_ok P free ms M" "p \<in> ms_frames ms"
  shows "frame_in P p" "p \<notin> avail P free M"
  using ms_okD(5) [OF assms(1)] ms_okD(2) [OF assms(1)] assms(2) ownedD [of p "user_areas ms"]
  by (auto simp: ms_frames_def pt_ok_def)

text \<open>In a space of anonymous areas every mapped page is backed by a frame of the space.\<close>

lemma lookup_owned:
  assumes ok: "ms_ok P free ms M" and an: "\<forall>(k, a)\<in>set (user_areas ms). anonymous a"
    and v: "user_vpn v" and l: "pt_lookup (mem M) (ms_table ms) v = Some (p, f)"
  shows "p \<in> owned (user_areas ms)"
proof -
  note d = ms_okD [OF ok]
  have "v \<in> ms_pages (user_areas ms)" using d(3) [OF v] l by simp
  then obtain k a where ka: "(k, a) \<in> set (user_areas ms)" "v \<in> area_pages a" by (auto simp: ms_pages_def)
  have "backed_pages a = []" using an ka(1) areas_ok_area [OF d(1) ka(1)] by (auto simp: anonymous_def area_ok_def)
  then have "v \<in> dom (bt_get (unbacked_map a))" using ka(2) by (simp add: area_pages_def dom_bt_get)
  then obtain q where "bt_get (unbacked_map a) v = Some q" by blast
  then have o: "ms_owns (user_areas ms) v q (perm a)" using ka(1) by (auto simp: ms_owns_def)
  then have "q = p" using d(4) [OF o] l by simp
  then show ?thesis using ownedI [OF o] by simp
qed

text \<open>A space none of whose frames is touched.\<close>

lemma ms_ok_untouched:
  assumes ok: "ms_ok P free ms M" and av: "avail_ok P free M'" "avail P free M' \<inter> ms_frames ms = {}"
    and eq: "\<And>x. x div 4096 \<in> ms_frames ms \<Longrightarrow> mem M' x = mem M x"
  shows "ms_ok P free ms M'"
    "user_vpn v \<Longrightarrow> pt_lookup (mem M') (ms_table ms) v = pt_lookup (mem M) (ms_table ms) v"
proof -
  note d = ms_okD [OF ok]
  have tb: "set (root_frame (ms_table ms) # frames (ms_table ms)) \<subseteq> ms_frames ms" by (auto simp: ms_frames_def)
  have "mem M' x = mem M x" if "x div 4096 \<in> set (root_frame (ms_table ms) # frames (ms_table ms))" for x
    using eq that tb by blast
  moreover have "avail P free M' \<inter> set (root_frame (ms_table ms) # frames (ms_table ms)) = {}" using av(2) tb by blast
  ultimately have pf: "pt_ok P free (ms_table ms) M'"
    "\<And>v. user_vpn v \<Longrightarrow> pt_lookup (mem M') (ms_table ms) v = pt_lookup (mem M) (ms_table ms) v"
    using pt_ok_frame [OF d(2) _ av(1)] by blast+
  show "user_vpn v \<Longrightarrow> pt_lookup (mem M') (ms_table ms) v = pt_lookup (mem M) (ms_table ms) v" by (rule pf(2))
  show "ms_ok P free ms M'"
    unfolding ms_ok_def
  proof (intro conjI allI impI)
    show "areas_ok (user_areas ms)" "pt_ok P free (ms_table ms) M'" using d(1) pf(1) by blast+
    fix w
    show "pt_lookup (mem M') (ms_table ms) w \<noteq> None \<longleftrightarrow> w \<in> ms_pages (user_areas ms)" if "user_vpn w"
      using d(3) [OF that] pf(2) [OF that] by simp
    fix q pr assume o: "ms_owns (user_areas ms) w q pr"
    show "pt_lookup (mem M') (ms_table ms) w = Some (q, pte_flags_from pr OR PTE_V)"
      using d(4) [OF o] pf(2) [OF ms_pages_user [OF d(1) ms_owns_page [OF o]]] by simp
    show "q \<notin> set (root_frame (ms_table ms) # frames (ms_table ms))" "frame_in P q" "q \<notin> avail P free M'"
      using d(5) [OF o] av(2) ms_owns_frames [OF o] by auto
    fix w' pr' assume "ms_owns (user_areas ms) w' q pr'"
    then show "w = w'" using d(6) o by blast
  qed
qed

lemma confined_other:
  assumes ok: "ms_ok P free oth M" and c: "confined P free ms M ms' M'"
    and dj: "ms_frames oth \<inter> ms_frames ms = {}" and av: "avail_ok P free M'"
  shows "ms_ok P free oth M'" "ms_frames oth \<inter> ms_frames ms' = {}"
    "x div 4096 \<in> ms_frames oth \<Longrightarrow> mem M' x = mem M x"
proof -
  have "ms_frames oth \<inter> avail P free M = {}" using ms_frames_ok(2) [OF ok] by blast
  then have dj': "ms_frames oth \<inter> (ms_frames ms \<union> avail P free M) = {}" using dj by blast
  then have sub: "ms_frames oth \<inter> (ms_frames ms' \<union> avail P free M') = {}" using c unfolding confined_def by blast
  have eq: "mem M' x = mem M x" if "x div 4096 \<in> ms_frames oth" for x
    using c dj' that unfolding confined_def by blast
  show "ms_frames oth \<inter> ms_frames ms' = {}" using sub by blast
  show "x div 4096 \<in> ms_frames oth \<Longrightarrow> mem M' x = mem M x" by (rule eq)
  show "ms_ok P free oth M'" using ms_ok_untouched(1) [OF ok av _ eq] sub by blast
qed

lemma ms_ok_avail: "ms_ok P free ms M \<Longrightarrow> avail_ok P free M"
  using ms_okD(2) by (fastforce simp: pt_ok_def)

section \<open>The operations are confined\<close>

lemma page_added_confined:
  assumes pa: "page_added P free v p f (ms_table ms) M pt' M'"
    and own: "owned m' \<subseteq> insert p (owned (user_areas ms))"
  shows "confined P free ms M \<lparr>ms_table = pt', user_areas = m'\<rparr> M'"
proof -
  have g: "grown P free (ms_table ms) M pt' M'" using page_added_grown [OF pa] .
  have "p \<in> avail P free M" using pa by (simp add: page_added_def)
  then have "ms_frames \<lparr>ms_table = pt', user_areas = m'\<rparr> \<union> avail P free M' \<subseteq> ms_frames ms \<union> avail P free M"
    using g own by (auto simp: ms_frames_def grown_def)
  moreover have "mem M' x = mem M x" if "x div 4096 \<notin> ms_frames ms \<union> avail P free M" for x
    using g that by (auto simp: ms_frames_def grown_def)
  ultimately show ?thesis by (simp add: confined_def)
qed

text \<open>A handled or unhandled page fault.\<close>

lemma fault_confined:
  assumes bs: "buddy_spec P free" and ok: "ms_ok P free ms M"
    and h: "handle_memory_exception P addr cow ms M = Some (b, ms', M')"
  shows "ms_ok P free ms' M'" "confined P free ms M ms' M'"
proof -
  let ?v = "vpn_floor addr" and ?m = "user_areas ms"
  note d = ms_okD [OF ok]
  have nc: "\<not> cow" using h by (simp add: handle_memory_exception_def split: if_splits)
  have "ms_ok P free ms' M' \<and> confined P free ms M ms' M'"
  proof (cases "bt_last_le ?v ?m")
    case None
    then show ?thesis using h nc ok by (simp add: handle_memory_exception_def confined_refl)
  next
    case (Some x)
    obtain k a where x: "x = (k, a)" by (cases x)
    note ll = bt_last_le_Some [OF areas_ok_inv [OF d(1)] Some [unfolded x]]
    show ?thesis
    proof (cases "vpn_end a \<le> ?v")
      case True
      then show ?thesis using h nc ok Some x by (simp add: handle_memory_exception_def confined_refl)
    next
      case False
      then have v: "k \<le> ?v" "?v < vpn_end a" and ka: "(k, a) \<in> set ?m" using ll by auto
      have lazy: "area_ty a = Lazy" using h nc Some x False
        by (cases "area_ty a") (simp_all add: handle_memory_exception_def)
      obtain p a' pt' where en: "ensure_allocated P ?v a (ms_table ms) M = Some (p, a', pt', M')"
        and ms': "ms' = \<lparr>ms_table = pt', user_areas = bt_insert k a' ?m\<rparr>"
        using h nc Some x False lazy by (auto simp: handle_memory_exception_def bind_eq_Some_conv)
      have inv: "bt_inv ?m" using areas_ok_inv [OF d(1)] .
      have uv: "user_vpn ?v" using v(2) areas_ok_area [OF d(1) ka] by (simp add: area_ok_def user_vpn_def)
      show ?thesis
      proof (cases "bt_get (unbacked_map a) ?v")
        case (Some q)
        then have "a' = a" "pt' = ms_table ms" "M' = M"
          using en ensure_allocated_old [OF lazy Some, of P "ms_table ms" M] by simp_all
        then have "ms' = ms" using ms' bt_insert_same [OF inv ka] by simp
        then show ?thesis using ok \<open>M' = M\<close> by (simp add: confined_refl)
      next
        case None
        note en' = ensure_allocated_new [OF bs d(2) uv None en]
        note mp = ms_add_page [OF ok ka lazy v None en'(3)]
        have "ms_ok P free ms' M'" using mp(1) ms' en'(2) by simp
        moreover have "confined P free ms M ms' M'"
          unfolding ms' by (rule page_added_confined [OF en'(3)]) (use mp(2) ms' en'(2) in \<open>auto simp: owned_def\<close>)
        ultimately show ?thesis by blast
      qed
    qed
  qed
  then show "ms_ok P free ms' M'" "confined P free ms M ms' M'" by blast+
qed

text \<open>Removing areas.\<close>

lemma removed_confined:
  assumes sub: "set m' \<subseteq> set (user_areas ms)"
    and eq: "\<And>x. x div 4096 \<notin> set (root_frame (ms_table ms) # frames (ms_table ms)) \<Longrightarrow> mem M' x = mem M x"
    and av: "avail P free M' \<subseteq> avail P free M \<union> owned (user_areas ms)"
  shows "confined P free ms M \<lparr>ms_table = ms_table ms, user_areas = m'\<rparr> M'"
proof -
  have "ms_frames \<lparr>ms_table = ms_table ms, user_areas = m'\<rparr> \<subseteq> ms_frames ms"
    using owned_mono [OF sub] by (auto simp: ms_frames_def)
  then show ?thesis using eq av by (auto simp: confined_def ms_frames_def)
qed

lemma unmap_confined:
  assumes bs: "buddy_spec P free" and ok: "ms_ok P free ms M" and u: "ms_unmap P va_start va_end ms M = Some (ms', M')"
  shows "ms_ok P free ms' M'" "confined P free ms M ms' M'"
proof -
  let ?s = "vpn_floor va_start" and ?e = "vpn_ceil va_end" and ?m = "user_areas ms"
  let ?ks = "map fst (filter (\<lambda>(k, a). in_range ?s ?e a) ?m)"
  have inv: "bt_inv ?m" using areas_ok_inv [OF ms_okD(1) [OF ok]] .
  have eq: "unmap_areas P ?ks ms M = Some (ms', M')"
    using u unfolding ms_unmap_areas [OF ms_okD(1) [OF ok] refl refl] by (simp split: if_splits)
  have ks: "distinct ?ks" "set ?ks \<subseteq> fst ` set ?m"
    using bt_inv_distinct [OF bt_inv_filter [OF inv]] by auto
  let ?ms = "\<lparr>ms_table = ms_table ms, user_areas = fold bt_remove ?ks ?m\<rparr>"
  obtain M1 where m: "unmap_areas P ?ks ms M = Some (?ms, M1)" "ms_ok P free ?ms M1"
    "\<And>x. x div 4096 \<notin> set (root_frame (ms_table ms) # frames (ms_table ms)) \<Longrightarrow> mem M1 x = mem M x"
    "avail P free M1 \<subseteq> avail P free M \<union> owned ?m"
    using unmap_areas_ok [OF bs ok ks] unfolding owned_def by blast
  have "set (fold bt_remove ?ks ?m) \<subseteq> set ?m" using set_fold_remove [OF inv] by auto
  then have "confined P free ms M ?ms M1" using removed_confined m(3,4) by blast
  then show "ms_ok P free ms' M'" "confined P free ms M ms' M'" using m(1,2) eq by simp_all
qed

lemma remove_area_confined:
  assumes bs: "buddy_spec P free" and ok: "ms_ok P free ms M"
  obtains ms' M' where "remove_area_with_start_vpn P v ms M = Some (ms', M')" "ms_ok P free ms' M'"
    "confined P free ms M ms' M'"
proof (cases "bt_get (user_areas ms) v")
  case None
  then show thesis using that ok by (simp add: remove_area_with_start_vpn_def confined_refl)
next
  case (Some a)
  have inv: "bt_inv (user_areas ms)" using areas_ok_inv [OF ms_okD(1) [OF ok]] .
  have ka: "(v, a) \<in> set (user_areas ms)" using Some inv by (simp add: bt_get_in)
  let ?ms = "\<lparr>ms_table = ms_table ms, user_areas = bt_remove v (user_areas ms)\<rparr>"
  obtain a' M' where u: "area_unmap P a (ms_table ms) M = Some (a', ms_table ms, M')"
    "ms_ok P free ?ms M'"
    "\<And>w. user_vpn w \<Longrightarrow> pt_lookup (mem M') (ms_table ms) w
        = (if w \<in> area_pages a then None else pt_lookup (mem M) (ms_table ms) w)"
    "\<And>x. x div 4096 \<notin> set (root_frame (ms_table ms) # frames (ms_table ms)) \<Longrightarrow> mem M' x = mem M x"
    "avail P free M' \<subseteq> avail P free M \<union> owned (user_areas ms)"
    unfolding owned_def by (rule area_unmap_ok [OF bs ok ka]) blast
  have "confined P free ms M ?ms M'"
    using removed_confined [of "bt_remove v (user_areas ms)" ms M' M] u(4,5) by (auto simp: set_bt_remove [OF inv])
  then show thesis using that u(1,2) Some by (simp add: remove_area_with_start_vpn_def)
qed

text \<open>Taking a space down.\<close>

lemma drop_areas_frames: "drop_areas P as M = frames_drop P (concat (map (\<lambda>a. map snd (unbacked_map a)) as)) M"
proof -
  have app: "frames_drop P (ps @ qs) M = Option.bind (frames_drop P ps M) (frames_drop P qs)" for ps qs M
    by (induction ps arbitrary: M) (simp, simp add: Option.bind_assoc cong: Option.bind_cong)
  show ?thesis by (induction as arbitrary: M) (simp, simp add: app cong: Option.bind_cong)
qed

lemma area_frames_owned:
  assumes "areas_ok m" "p \<in> set (concat (map (\<lambda>a. map snd (unbacked_map a)) (map snd m)))"
  shows "p \<in> owned m"
proof -
  obtain k a v where a: "(k, a) \<in> set m" "(v, p) \<in> set (unbacked_map a)" using assms(2) by auto
  then have "bt_get (unbacked_map a) v = Some p"
    using areas_ok_area [OF assms(1) a(1)] by (simp add: bt_get_in area_ok_def)
  then have "ms_owns m v p (perm a)" using a(1) by (auto simp: ms_owns_def)
  then show ?thesis by (rule ownedI)
qed

lemma recycle_confined:
  assumes bs: "buddy_spec P free" and ok: "ms_ok P free ms M"
  obtains ms' M' where "recycle_user_pages P ms M = Some (ms', M')" "ms_ok P free ms' M'"
    "confined P free ms M ms' M'" "user_areas ms' = []"
proof -
  note d = ms_okD [OF ok]
  let ?ps = "concat (map (\<lambda>a. map snd (unbacked_map a)) (map snd (user_areas ms)))"
  let ?pt = "ms_table ms"
  have own: "set ?ps \<subseteq> owned (user_areas ms)" using area_frames_owned [OF d(1)] by blast
  then have "\<forall>p\<in>set ?ps. frame_in P p" using own d(5) ownedD by blast
  then obtain M1 where m1: "frames_drop P ?ps M = Some M1" "mem M1 = mem M" "avail_ok P free M1"
    "avail P free M1 \<subseteq> set ?ps \<union> avail P free M"
    using frames_drop_ok [OF bs ms_ok_avail [OF ok]] by blast
  have tb: "\<And>p. p \<in> set (root_frame ?pt # frames ?pt) \<Longrightarrow> p \<notin> avail P free M" using d(2) unfolding pt_ok_def by blast
  have "avail P free M1 \<inter> set (root_frame ?pt # frames ?pt) = {}" using m1(4) own d(5) tb ownedD by blast
  then have pt1: "pt_ok P free ?pt M1" using pt_ok_frame(1) [OF d(2) _ m1(3)] m1(2) by simp
  let ?pt' = "?pt\<lparr>frames := take 1 (frames ?pt)\<rparr>"
  obtain M' where m2: "pt_clear P ?pt M1 = Some (?pt', M')" "pt_ok P free ?pt' M'"
    "\<And>v. user_vpn v \<Longrightarrow> pt_lookup (mem M') ?pt' v = None"
    "\<And>x. x div 4096 \<noteq> root_frame ?pt \<Longrightarrow> mem M' x = mem M1 x"
    "avail P free M' \<subseteq> set (drop 1 (frames ?pt)) \<union> avail P free M1"
    by (rule pt_clear_ok [OF bs pt1]) blast
  let ?ms = "\<lparr>ms_table = ?pt', user_areas = []\<rparr>"
  have okk: "ms_ok P free ?ms M'"
    using m2(2,3) by (intro ms_ok_fresh) (auto simp: areas_ok_def)
  have "set (take 1 (frames ?pt)) \<subseteq> set (frames ?pt)" "set (drop 1 (frames ?pt)) \<subseteq> set (frames ?pt)"
    by (rule set_take_subset set_drop_subset)+
  moreover have "set ?ps \<subseteq> ms_frames ms" "set (root_frame ?pt # frames ?pt) \<subseteq> ms_frames ms"
    using own by (auto simp: ms_frames_def)
  moreover have "ms_frames ?ms = set (root_frame ?pt # take 1 (frames ?pt))" by (simp add: ms_frames_def)
  ultimately have "ms_frames ?ms \<union> avail P free M' \<subseteq> ms_frames ms \<union> avail P free M"
    using m1(4) m2(5) by (simp only: set_simps) blast
  moreover have "mem M' x = mem M x" if "x div 4096 \<notin> ms_frames ms \<union> avail P free M" for x
    using that m2(4) m1(2) by (auto simp: ms_frames_def)
  ultimately have "confined P free ms M ?ms M'" by (simp add: confined_def)
  then show thesis using that okk m1(1) m2(1) by (simp add: recycle_user_pages_def drop_areas_frames)
qed

text \<open>Giving back everything.\<close>

lemma space_drop_ok:
  assumes bs: "buddy_spec P free" and ok: "ms_ok P free ms M"
  obtains M' where "space_drop P ms M = Some M'" "mem M' = mem M" "avail_ok P free M'"
    "avail P free M' \<subseteq> ms_frames ms \<union> avail P free M"
proof -
  note d = ms_okD [OF ok]
  let ?ts = "root_frame (ms_table ms) # frames (ms_table ms)"
  let ?ps = "concat (map (\<lambda>a. map snd (unbacked_map a)) (map snd (user_areas ms)))"
  have own: "set ?ps \<subseteq> owned (user_areas ms)" using area_frames_owned [OF d(1)] by blast
  have "\<forall>p\<in>set ?ts. frame_in P p" using d(2) unfolding pt_ok_def by blast
  then obtain M1 where m1: "frames_drop P ?ts M = Some M1" "mem M1 = mem M" "avail_ok P free M1"
    "avail P free M1 \<subseteq> set ?ts \<union> avail P free M"
    using frames_drop_ok [OF bs ms_ok_avail [OF ok]] by blast
  have "\<forall>p\<in>set ?ps. frame_in P p" using own d(5) ownedD by blast
  then obtain M' where m2: "frames_drop P ?ps M1 = Some M'" "mem M' = mem M1" "avail_ok P free M'"
    "avail P free M' \<subseteq> set ?ps \<union> avail P free M1"
    using frames_drop_ok [OF bs m1(3)] by blast
  have "set ?ps \<subseteq> ms_frames ms" "set ?ts \<subseteq> ms_frames ms" using own by (auto simp: ms_frames_def)
  then have "avail P free M' \<subseteq> ms_frames ms \<union> avail P free M" using m1(4) m2(4) by blast
  moreover have "space_drop P ms M = Some M'"
    unfolding space_drop_def using m1(1) m2(1) by (simp add: drop_areas_frames)
  ultimately show thesis using that m1(2) m2(2,3) by simp
qed

lemma dealloc_stack_confined:
  assumes bs: "buddy_spec P free" and ok: "ms_ok P free ms M" and t: "user_stack_low_addr t \<noteq> None"
  obtains ms' M' where "dealloc_user_stack P t ms M = Some (ms', M')" "ms_ok P free ms' M'" "confined P free ms M ms' M'"
proof -
  obtain low where "user_stack_low_addr t = Some low" using t by blast
  then show thesis
    using that remove_area_confined [OF bs ok, of low] by (simp add: dealloc_user_stack_def) metis
qed

section \<open>Growing a space\<close>

text \<open>A well-formed result that is confined to the space: such steps compose.\<close>

definition space_step ::
  "'fa platform \<Rightarrow> ('fa \<Rightarrow> nat set) \<Rightarrow> memory_space \<Rightarrow> 'fa machine \<Rightarrow> memory_space \<Rightarrow> 'fa machine \<Rightarrow> bool" where
  "space_step P free ms M ms' M' \<longleftrightarrow> ms_ok P free ms' M' \<and> confined P free ms M ms' M'"

lemma space_step_refl: "ms_ok P free ms M \<Longrightarrow> space_step P free ms M ms M"
  by (simp add: space_step_def confined_refl)

lemma space_step_trans [trans]:
  "space_step P free ms M ms1 M1 \<Longrightarrow> space_step P free ms1 M1 ms2 M2 \<Longrightarrow> space_step P free ms M ms2 M2"
  unfolding space_step_def using confined_trans by blast

lemma step_page:
  assumes bs: "buddy_spec P free" and ok: "ms_ok P free ms M" and ka: "(k, a) \<in> set (user_areas ms)"
    and v: "k \<le> v" "v < vpn_end a"
    and en: "ensure_allocated P v a (ms_table ms) M = Some (p, a', pt', M')"
  defines "ms' \<equiv> \<lparr>ms_table = pt', user_areas = bt_insert k a' (user_areas ms)\<rparr>"
  shows "space_step P free ms M ms' M'" "ms_owns (user_areas ms') v p (perm a)"
    "vpn_start a' = vpn_start a" "vpn_end a' = vpn_end a" "perm a' = perm a" "backed_inode a' = backed_inode a"
    "area_ty a' = area_ty a"
proof -
  note d = ms_okD [OF ok]
  have inv: "bt_inv (user_areas ms)" using areas_ok_inv [OF d(1)] .
  have lazy: "area_ty a = Lazy" using en by (simp add: ensure_allocated_def split: if_splits)
  have uv: "user_vpn v" using v(2) areas_ok_area [OF d(1) ka] by (simp add: area_ok_def user_vpn_def)
  have "space_step P free ms M ms' M' \<and> ms_owns (user_areas ms') v p (perm a) \<and> vpn_start a' = vpn_start a
      \<and> vpn_end a' = vpn_end a \<and> perm a' = perm a \<and> backed_inode a' = backed_inode a \<and> area_ty a' = area_ty a"
  proof (cases "bt_get (unbacked_map a) v")
    case (Some q)
    then have eq: "a' = a" "pt' = ms_table ms" "M' = M" "p = q"
      using en ensure_allocated_old [OF lazy Some, of P "ms_table ms" M] by simp_all
    have "ms' = ms" by (simp add: ms'_def eq bt_insert_same [OF inv ka])
    moreover have "ms_owns (user_areas ms) v p (perm a)" using ka Some by (auto simp: ms_owns_def eq)
    ultimately show ?thesis using ok by (simp add: eq space_step_refl)
  next
    case None
    note en' = ensure_allocated_new [OF bs d(2) uv None en]
    have ms': "ms' = \<lparr>ms_table = pt', user_areas = bt_insert k (a\<lparr>unbacked_map := bt_insert v p (unbacked_map a)\<rparr>) (user_areas ms)\<rparr>"
      by (simp add: ms'_def en'(2))
    note mp = ms_add_page [OF ok ka lazy v None en'(3) ms']
    have "confined P free ms M ms' M'"
      unfolding ms'_def by (rule page_added_confined [OF en'(3)]) (use mp(2) in \<open>auto simp: owned_def ms'_def\<close>)
    then show ?thesis using mp(1) mp(2) by (simp add: space_step_def en'(2))
  qed
  then show "space_step P free ms M ms' M'" "ms_owns (user_areas ms') v p (perm a)" "vpn_start a' = vpn_start a"
    "vpn_end a' = vpn_end a" "perm a' = perm a" "backed_inode a' = backed_inode a" "area_ty a' = area_ty a" by blast+
qed

lemma step_write:
  assumes ok: "ms_ok P free ms M" and own: "ms_owns (user_areas ms) v p pr"
    and M': "falloc M' = falloc M" "\<And>x. x div 4096 \<noteq> p \<Longrightarrow> mem M' x = mem M x"
  shows "space_step P free ms M ms M'"
proof -
  have p: "p \<notin> set (root_frame (ms_table ms) # frames (ms_table ms))" using ms_okD(5) [OF ok own] by auto
  have av: "avail P free M' = avail P free M" by (simp add: avail_def M'(1))
  have "mem M' x = mem M x" if "x div 4096 \<in> set (root_frame (ms_table ms) # frames (ms_table ms))" for x
    using that p by (intro M'(2)) auto
  then have "ms_ok P free ms M'" using ms_ok_frame(1) [OF ok, of M'] av by simp
  moreover have "mem M' x = mem M x" if "x div 4096 \<notin> ms_frames ms" for x
    using that ms_owns_frames [OF own] by (intro M'(2)) auto
  then have "confined P free ms M ms M'" by (simp add: confined_def av)
  ultimately show ?thesis by (simp add: space_step_def)
qed

lemma frame_copy_writes:
  assumes "frame_copy_from p s M = Some M'" "p < 2 ^ 20"
  shows "falloc M' = falloc M" "x div 4096 \<noteq> p \<Longrightarrow> mem M' x = mem M x"
proof -
  obtain a where M': "M' = M\<lparr>mem := wr_bytes (p * 4096) (rd_bytes (mem M) a PAGE_SIZE) (mem M)\<rparr>"
    using assms by (auto simp: frame_copy_from_def frame_at_0 bind_eq_Some_conv)
  show "falloc M' = falloc M" by (simp add: M')
  assume "x div 4096 \<noteq> p"
  then have "\<not> (p * 4096 \<le> x \<and> x < p * 4096 + 4096)" by (auto simp: div_nat_eqI)
  then show "mem M' x = mem M x" by (auto simp: M' wr_bytes_def rd_bytes_def PAGE_SIZE_def)
qed

lemma bt_insert_twice: "bt_inv m \<Longrightarrow> bt_insert k b (bt_insert k a m) = bt_insert k b m"
  by (rule bt_ext) simp_all

lemma step_copy_pages:
  assumes bs: "buddy_spec P free"
  shows "ms_ok P free ms M \<Longrightarrow> (k, a) \<in> set (user_areas ms) \<Longrightarrow> \<forall>v\<in>fst ` set ps. k \<le> v \<and> v < vpn_end a \<Longrightarrow>
     copy_pages P ps a (ms_table ms) M = Some (a', pt', M') \<Longrightarrow>
     space_step P free ms M \<lparr>ms_table = pt', user_areas = bt_insert k a' (user_areas ms)\<rparr> M'
     \<and> vpn_end a' = vpn_end a \<and> backed_inode a' = backed_inode a \<and> area_ty a' = area_ty a"
proof (induction ps arbitrary: ms a M)
  case Nil
  have "bt_inv (user_areas ms)" using areas_ok_inv [OF ms_okD(1) [OF Nil.prems(1)]] .
  then show ?case using Nil.prems by (cases ms) (simp add: bt_insert_same space_step_refl)
next
  case (Cons x ps)
  obtain v s where x: "x = (v, s)" by (cases x)
  obtain p a1 pt1 M1 M2 where e: "ensure_allocated P v a (ms_table ms) M = Some (p, a1, pt1, M1)"
    "frame_copy_from p s M1 = Some M2" "copy_pages P ps a1 pt1 M2 = Some (a', pt', M')"
    using Cons.prems(4) by (auto simp: x bind_eq_Some_conv)
  have v: "k \<le> v" "v < vpn_end a" using Cons.prems(3) by (auto simp: x)
  note sp = step_page [OF bs Cons.prems(1,2) v e(1)]
  let ?ms1 = "\<lparr>ms_table = pt1, user_areas = bt_insert k a1 (user_areas ms)\<rparr>"
  have inv: "bt_inv (user_areas ms)" using areas_ok_inv [OF ms_okD(1) [OF Cons.prems(1)]] .
  have ok1: "ms_ok P free ?ms1 M1" using sp(1) by (simp add: space_step_def)
  have "frame_in P p" using ms_okD(5) [OF ok1] sp(2) by blast
  then have s2: "space_step P free ?ms1 M1 ?ms1 M2"
    using step_write [OF ok1 sp(2)] frame_copy_writes [OF e(2) frame_in_bound] by blast
  have "ms_ok P free ?ms1 M2" using s2 by (simp add: space_step_def)
  then have ih: "space_step P free ?ms1 M2 \<lparr>ms_table = pt', user_areas = bt_insert k a' (user_areas ?ms1)\<rparr> M'"
    "vpn_end a' = vpn_end a1" "backed_inode a' = backed_inode a1" "area_ty a' = area_ty a1"
    using Cons.IH [of ?ms1 M2 a1] e(3) Cons.prems(3) sp(4) inv by (auto simp: set_bt_insert)
  have "space_step P free ms M \<lparr>ms_table = pt', user_areas = bt_insert k a' (user_areas ?ms1)\<rparr> M'"
    using space_step_trans [OF space_step_trans [OF sp(1) s2] ih(1)] .
  then show ?case using ih(2-4) sp(3-7) inv by (simp add: bt_insert_twice)
qed

text \<open>A new area in a range that is free.\<close>

lemma step_new_area:
  fixes pr :: map_permission
  assumes ok: "ms_ok P free ms M" and e: "k \<le> e" "e \<le> 2 ^ 26"
    and gap: "\<forall>(j, b)\<in>set (user_areas ms). vpn_end b \<le> k \<or> e \<le> j" "k < e \<or> k \<notin> fst ` set (user_areas ms)"
  defines "ms' \<equiv> ms\<lparr>user_areas := bt_insert k (vm_area_new k e pr Lazy) (user_areas ms)\<rparr>"
  shows "space_step P free ms M ms' M" "user_map P k e pr ms M = Some (ms', M)"
proof -
  let ?m = "user_areas ms" and ?a = "vm_area_new k e pr Lazy"
  let ?r = "{x \<in> set ?m. fst x \<noteq> k}"
  note d = ms_okD [OF ok]
  have inv: "bt_inv ?m" using areas_ok_inv [OF d(1)] .
  have st: "set (bt_insert k ?a ?m) = insert (k, ?a) ?r" by (rule set_bt_insert [OF inv])
  have ao: "area_ok j b" "j \<le> vpn_end b" if "(j, b) \<in> set ?m" for j b
    using areas_ok_area [OF d(1) that] by (simp, simp add: area_ok_def)
  have old: "unbacked_map b = []" "backed_pages b = []" if kb: "(k, b) \<in> set ?m" for b
  proof -
    have "vpn_end b \<le> k \<or> e \<le> k" "k < e" using kb gap by (blast, force)
    then have "vpn_end b \<le> k" by simp
    then show "unbacked_map b = []" "backed_pages b = []" using ao(1) [OF kb] by (auto simp: area_ok_def)
  qed
  have "areas_ok (bt_insert k ?a ?m)"
  proof (rule areas_okI)
    show "area_ok j b" if "(j, b) \<in> set (bt_insert k ?a ?m)" for j b
      using that ao(1) area_ok_new [OF e] by (auto simp: st)
    show "vpn_end b \<le> j'" if jb: "(j, b) \<in> set (bt_insert k ?a ?m)" "(j', b') \<in> set (bt_insert k ?a ?m)" "j < j'" for j b j' b'
    proof -
      consider "j = k" "b = ?a" "(j', b') \<in> set ?m" | "j' = k" "(j, b) \<in> set ?m" | "(j, b) \<in> set ?m" "(j', b') \<in> set ?m"
        using jb by (auto simp: st)
      then show ?thesis
      proof cases
        case 1
        then have "vpn_end b' \<le> k \<or> e \<le> j'" "j' \<le> vpn_end b'" using gap(1) ao(2) by auto
        then show ?thesis using jb(3) 1 by (auto simp: vm_area_new_def)
      next
        case 2
        then have "vpn_end b \<le> k \<or> e \<le> j" using gap(1) by auto
        then show ?thesis using jb(3) 2 e(1) by auto
      next
        case 3
        then show ?thesis using jb(3) areas_ok_apart [OF d(1)] by blast
      qed
    qed
  qed (use inv in blast)
  moreover have ow: "ms_owns (bt_insert k ?a ?m) = ms_owns ?m"
  proof (intro ext)
    fix v p q
    have "bt_get (unbacked_map ?a) v = None" by (simp add: vm_area_new_def)
    moreover have "bt_get (unbacked_map b) v = None" if "(k, b) \<in> set ?m" for b using old(1) [OF that] by simp
    ultimately show "ms_owns (bt_insert k ?a ?m) v p q = ms_owns ?m v p q"
      unfolding ms_owns_def st by (auto split: prod.splits) (metis option.distinct(1))+
  qed
  moreover have "ms_pages (bt_insert k ?a ?m) = ms_pages ?m"
  proof -
    have "area_pages ?a = {}" by (simp add: vm_area_new_def area_pages_def)
    moreover have "area_pages b = {}" if "(k, b) \<in> set ?m" for b using old [OF that] by (simp add: area_pages_def)
    ultimately show ?thesis unfolding ms_pages_def st by (auto split: prod.splits)
  qed
  ultimately have "ms_ok P free ms' M" using ok by (simp add: ms_ok_def ms'_def)
  moreover have "ms_frames ms' = ms_frames ms" by (simp add: ms_frames_def ms'_def owned_def ow)
  ultimately show "space_step P free ms M ms' M" by (simp add: space_step_def confined_def)
  have "(case bt_get ?m k of None \<Rightarrow> Some M | Some old \<Rightarrow> frames_drop P (map snd (unbacked_map old)) M) = Some M"
  proof (cases "bt_get ?m k")
    case (Some b)
    then show ?thesis using old(1) [of b] bt_get_in [OF inv, of k b] by simp
  qed simp
  then show "user_map P k e pr ms M = Some (ms', M)"
    by (simp add: user_map_def insert_area_def ms'_def) (simp add: vm_area_new_def)
qed

lemma try_map_step:
  assumes ok: "ms_ok P free ms M" and len: "0 < len" and addr: "addr < usize_limit"
    and t: "try_map P addr len pr flags ms M = Ok (s, ms', M')"
  shows "space_step P free ms M ms' M'" "M' = M"
    "\<exists>e. user_areas ms' = bt_insert s (vm_area_new s e pr Lazy) (user_areas ms)"
proof -
  obtain e where f: "try_find_mmap_area addr len flags ms = Ok (s, e)" and u: "user_map P s e pr ms M = Some (ms', M')"
    using t by (auto simp: try_map_def res_simps split: prod.splits)
  note tf = try_find_Ok [OF ms_okD(1) [OF ok] addr f]
  have "\<not> s * 4096 + len \<le> s * 4096" using len by simp
  then have "\<not> e \<le> s" unfolding tf(3) vpn_ceil_def PAGE_SIZE_def using div_ceil_le_iff [of 4096 "s * 4096 + len" s] by simp
  then have se: "s < e" by simp
  have "\<forall>(j, b)\<in>set (user_areas ms). vpn_end b \<le> s \<or> e \<le> j"
    using tf(5) areas_ok_area [OF ms_okD(1) [OF ok]] by (fastforce simp: area_ok_def)
  note na = step_new_area [OF ok _ tf(4) this, of pr]
  show "space_step P free ms M ms' M'" "M' = M"
    "\<exists>e. user_areas ms' = bt_insert s (vm_area_new s e pr Lazy) (user_areas ms)" using na u se by auto
qed

text \<open>A fresh space: its frames all come from the free ones.\<close>

definition fresh_space ::
  "'fa platform \<Rightarrow> ('fa \<Rightarrow> nat set) \<Rightarrow> 'fa machine \<Rightarrow> memory_space \<Rightarrow> 'fa machine \<Rightarrow> bool" where
  "fresh_space P free M ms M' \<longleftrightarrow> ms_ok P free ms M' \<and> ms_frames ms \<union> avail P free M' \<subseteq> avail P free M
     \<and> (\<forall>x. x div 4096 \<notin> avail P free M \<longrightarrow> mem M' x = mem M x)"

lemma fresh_step: "fresh_space P free M ms M' \<Longrightarrow> space_step P free ms M' ms2 M2 \<Longrightarrow> fresh_space P free M ms2 M2"
  unfolding fresh_space_def space_step_def confined_def by (metis subset_iff subset_trans)

lemma new_bare_fresh:
  assumes bs: "buddy_spec P free" and aok: "avail_ok P free M" and nb: "new_bare P M = Some (ms, M')"
  shows "fresh_space P free M ms M'" "user_areas ms = []"
proof -
  obtain r where al: "frame_alloc_unwrap P M = Some (r, M')" and ms: "ms = \<lparr>ms_table = \<lparr>root_frame = r, frames = []\<rparr>, user_areas = []\<rparr>"
    using nb by (auto simp: new_bare_def with_root_def bind_eq_Some_conv)
  let ?pt = "\<lparr>root_frame = r, frames = []\<rparr>"
  have wr: "with_root P M = Some (?pt, M')" by (simp add: with_root_def al(1))
  note w = with_root_ok [OF bs aok wr] and fa = frame_alloc_unwrapD [OF bs aok al(1)]
  have "ms_ok P free ms M'" unfolding ms by (rule ms_ok_fresh) (use w in \<open>simp_all add: areas_ok_def\<close>)
  moreover have "mem M' x = mem M x" if "x div 4096 \<notin> avail P free M" for x
  proof -
    have "x div 4096 \<noteq> r" using that fa(1) by blast
    then have "\<not> (r * 4096 \<le> x \<and> x < r * 4096 + 4096)" by (auto simp: div_nat_eqI)
    then show ?thesis by (auto simp: fa(4) fill_def)
  qed
  ultimately show "fresh_space P free M ms M'" "user_areas ms = []" using fa by (auto simp: fresh_space_def ms ms_frames_def)
qed

lemma step_copy_areas:
  assumes bs: "buddy_spec P free"
  shows "ms_ok P free ms M \<Longrightarrow> areas_ok as \<Longrightarrow> \<forall>(k, a)\<in>set as. anonymous a \<Longrightarrow>
     \<forall>(j, b)\<in>set (user_areas ms). anonymous b \<and> (\<forall>k\<in>fst ` set as. j < k \<and> vpn_end b \<le> k) \<Longrightarrow>
     copy_areas P cache (map snd as) ms M = Some (ms', M') \<Longrightarrow>
     space_step P free ms M ms' M' \<and> (\<forall>(j, b)\<in>set (user_areas ms'). anonymous b)"
proof (induction as arbitrary: ms M)
  case Nil
  then show ?case by (auto simp: space_step_refl)
next
  case (Cons x as)
  obtain k a where x: "x = (k, a)" by (cases x)
  have ao: "area_ok k a" "anonymous a" using Cons.prems(2,3) by (auto simp: x areas_ok_def)
  then have k: "vpn_start a = k" "k \<le> vpn_end a" "vpn_end a \<le> 2 ^ 26" "fst ` set (unbacked_map a) \<subseteq> {k..<vpn_end a}"
    by (auto simp: area_ok_def)
  have gap: "\<forall>(j, b)\<in>set (user_areas ms). vpn_end b \<le> k \<or> vpn_end a \<le> j" "k < vpn_end a \<or> k \<notin> fst ` set (user_areas ms)"
    using Cons.prems(4) by (fastforce simp: x)+
  let ?a = "vm_area_new k (vpn_end a) (perm a) Lazy" and ?ms1 = "ms\<lparr>user_areas := bt_insert k
    (vm_area_new k (vpn_end a) (perm a) Lazy) (user_areas ms)\<rparr>"
  note na = step_new_area [OF Cons.prems(1) k(2,3) gap, of "perm a"]
  have ok1: "ms_ok P free ?ms1 M" using na(1) by (simp add: space_step_def)
  have inv: "bt_inv (user_areas ms)" using areas_ok_inv [OF ms_okD(1) [OF Cons.prems(1)]] .
  obtain d pt M1 where cp: "copy_pages P (unbacked_map a) ?a (ms_table ms) M = Some (d, pt, M1)"
    and rest: "copy_areas P cache (map snd as) \<lparr>ms_table = pt, user_areas = bt_insert k d (user_areas ?ms1)\<rparr> M1 = Some (ms', M')"
    using Cons.prems(5) na(2) ao(2) by (auto simp: x copy_area_def anonymous_def k(1) bind_eq_Some_conv)
  let ?ms2 = "\<lparr>ms_table = pt, user_areas = bt_insert k d (user_areas ?ms1)\<rparr>"
  have "(k, ?a) \<in> set (user_areas ?ms1)" by (simp add: set_bt_insert [OF inv])
  moreover have "\<forall>v\<in>fst ` set (unbacked_map a). k \<le> v \<and> v < vpn_end ?a" using k(4) by (auto simp: vm_area_new_def)
  ultimately have s2: "space_step P free ?ms1 M ?ms2 M1" and dd: "vpn_end d = vpn_end a" "anonymous d"
    using step_copy_pages [OF bs ok1, of k ?a "unbacked_map a" d pt M1] cp by (simp_all add: vm_area_new_def anonymous_def)
  have after: "\<forall>j\<in>fst ` set as. k < j \<and> vpn_end a \<le> j" and aok: "areas_ok as"
    using Cons.prems(2) by (auto simp: x areas_ok_def bt_inv_Cons)
  have "\<forall>(j, b)\<in>set (user_areas ?ms2). anonymous b \<and> (\<forall>k\<in>fst ` set as. j < k \<and> vpn_end b \<le> k)"
    using Cons.prems(4) after dd by (auto simp: bt_insert_twice [OF inv] set_bt_insert [OF inv] x)
  moreover have "ms_ok P free ?ms2 M1" using s2 by (simp add: space_step_def)
  ultimately have "space_step P free ?ms2 M1 ms' M' \<and> (\<forall>(j, b)\<in>set (user_areas ms'). anonymous b)"
    using Cons.IH [OF _ aok _ _ rest] Cons.prems(3) by simp
  then show ?case using space_step_trans [OF space_step_trans [OF na(1) s2]] by blast
qed

lemma from_other_fresh:
  assumes bs: "buddy_spec P free" and ok: "ms_ok P free par M" and kr: "kernel_root < 2 ^ 20"
    and an: "\<forall>(k, a)\<in>set (user_areas par). anonymous a" and f: "from_other P cache kernel_root par M = Some (ms, M')"
  shows "fresh_space P free M ms M'" "\<forall>(k, a)\<in>set (user_areas ms). anonymous a"
proof -
  obtain ms1 M1 M2 where s: "new_bare P M = Some (ms1, M1)"
    "copy_areas P cache (map snd (user_areas par)) ms1 M1 = Some (ms, M2)" "map_kernel_areas kernel_root (ms_table ms) M2 = Some M'"
    using f by (auto simp: from_other_def bind_eq_Some_conv)
  note nb = new_bare_fresh [OF bs ms_ok_avail [OF ok] s(1)]
  have ok1: "ms_ok P free ms1 M1" using nb(1) by (simp add: fresh_space_def)
  have sc: "space_step P free ms1 M1 ms M2" and an': "\<forall>(k, a)\<in>set (user_areas ms). anonymous a"
    using step_copy_areas [OF bs ok1 ms_okD(1) [OF ok] an _ s(2)] nb(2) by auto
  show "\<forall>(k, a)\<in>set (user_areas ms). anonymous a" by (rule an')
  note fr = fresh_step [OF nb(1) sc]
  have ok2: "ms_ok P free ms M2" using sc by (simp add: space_step_def)
  obtain M3 where mk: "map_kernel_areas kernel_root (ms_table ms) M2 = Some M3" "pt_ok P free (ms_table ms) M3"
    "\<And>v. user_vpn v \<Longrightarrow> pt_lookup (mem M3) (ms_table ms) v = pt_lookup (mem M2) (ms_table ms) v"
    "\<And>x. x div 4096 \<noteq> root_frame (ms_table ms) \<Longrightarrow> mem M3 x = mem M2 x" "falloc M3 = falloc M2"
    using map_kernel_areas_ok [OF ms_okD(2) [OF ok2] kr] by blast
  have M': "M' = M3" using s(3) mk(1) by simp
  have av: "avail P free M' = avail P free M2" by (simp add: avail_def M' mk(5))
  have "ms_ok P free ms M'" by (rule ms_ok_lookups [OF ok2]) (use mk av in \<open>auto simp: M'\<close>)
  moreover have "root_frame (ms_table ms) \<in> ms_frames ms" by (simp add: ms_frames_def)
  moreover have "mem M' x = mem M2 x" if "x div 4096 \<notin> ms_frames ms" for x using that calculation(2) by (auto simp: M' intro!: mk(4))
  ultimately have "space_step P free ms M2 ms M'" by (simp add: space_step_def confined_def av)
  then show "fresh_space P free M ms M'" by (rule fresh_step [OF fr])
qed

end
