(* ===== verification/ElfLoad.thy ===== *)
theory ElfLoad
  imports SpaceConfine
begin

text \<open>
  Loading an executable into an address space (\<open>load_elf_sections\<close> of
  memory/memory_space/mod.rs).  The parser is a third-party crate; what it delivers is the
  record \<open>elf\<close>, with the file range of a program header as the crate computes it.  An error
  leaves the segments loaded so far in the space, so the space is part of the result.  For the
  files the loader is meant for, the space holds exactly the segments afterwards
  (\<open>load_elf_correct\<close>).
\<close>

definition PT_LOAD :: nat where "PT_LOAD = 1"
definition PT_INTERP :: nat where "PT_INTERP = 3"
definition PF_X :: "32 word" where "PF_X = 1"
definition PF_W :: "32 word" where "PF_W = 2"
definition PF_R :: "32 word" where "PF_R = 4"

record program_header =
  p_type :: nat
  p_flags :: "32 word"
  p_vaddr :: nat
  p_memsz :: nat
  file_range :: "nat \<times> nat"

record elf =
  elf_entry :: nat
  e_phentsize :: nat
  e_phnum :: nat
  e_phoff :: nat
  interpreter :: "bytes option"
  program_headers :: "program_header list"

definition segment_perm :: "program_header \<Rightarrow> map_permission" where
  "segment_perm ph =
     PERM_U OR (if p_flags ph AND PF_R \<noteq> 0 then PERM_R else 0)
       OR (if p_flags ph AND PF_W \<noteq> 0 then PERM_W else 0)
       OR (if p_flags ph AND PF_X \<noteq> 0 then PERM_X else 0)"

definition load_segment ::
  "'fa platform \<Rightarrow> bytes \<Rightarrow> program_header \<Rightarrow> memory_space \<Rightarrow> 'fa machine
     \<Rightarrow> (virt_addr \<times> memory_space \<times> 'fa machine) option" where
  "load_segment P elf_data ph ms M = do {
     end_va \<leftarrow> uadd (p_vaddr ph) (p_memsz ph);
     let (s, e) = file_range ph;
     guard (s \<le> e \<and> e \<le> length elf_data);
     (ms, M) \<leftarrow> user_map_with_data P (vpn_floor (p_vaddr ph)) (vpn_ceil end_va) (segment_perm ph)
        (take (e - s) (drop s elf_data)) (page_offset (p_vaddr ph)) ms M;
     Some (end_va, ms, M)
   }"

fun load_segments ::
  "'fa platform \<Rightarrow> bytes \<Rightarrow> program_header list \<Rightarrow> virt_addr \<Rightarrow> virt_addr option \<Rightarrow> memory_space \<Rightarrow> 'fa machine
     \<Rightarrow> ((errno + virt_addr \<times> virt_addr option) \<times> memory_space \<times> 'fa machine) option" where
  "load_segments P elf_data [] elf_end ph_start ms M = Some (Inr (elf_end, ph_start), ms, M)"
| "load_segments P elf_data (ph # phs) elf_end ph_start ms M =
     (if p_type ph = PT_INTERP then Some (Inl UNSUPPORTED, ms, M)
      else if p_type ph = PT_LOAD then do {
        (end_va, ms, M) \<leftarrow> load_segment P elf_data ph ms M;
        load_segments P elf_data phs (max elf_end end_va)
          (case ph_start of None \<Rightarrow> Some (p_vaddr ph) | Some v \<Rightarrow> Some v) ms M
      }
      else load_segments P elf_data phs elf_end ph_start ms M)"

definition load_elf_sections ::
  "'fa platform \<Rightarrow> elf \<Rightarrow> bytes \<Rightarrow> memory_space \<Rightarrow> 'fa machine
     \<Rightarrow> ((errno + virt_addr \<times> (nat \<times> nat) list \<times> nat) \<times> memory_space \<times> 'fa machine) option" where
  "load_elf_sections P elf elf_data ms M =
     (let auxv = [(AT_PHENT, e_phentsize elf), (AT_PHNUM, e_phnum elf), (AT_PAGESZ, PAGE_SIZE),
            (AT_BASE, 0), (AT_ENTRY, elf_entry elf)] in
      if interpreter elf \<noteq> None then Some (Inl UNSUPPORTED, ms, M)
      else do {
        (r, ms, M) \<leftarrow> load_segments P elf_data (program_headers elf) 0 None ms M;
        (case r of
           Inl e \<Rightarrow> Some (Inl e, ms, M)
         | Inr (elf_end, None) \<Rightarrow> Some (Inl ENOEXEC, ms, M)
         | Inr (elf_end, Some ph_start) \<Rightarrow> do {
             ph_addr \<leftarrow> uadd ph_start (e_phoff elf);
             Some (Inr (elf_end, auxv @ [(AT_PHDR, ph_addr)], elf_entry elf), ms, M)
           })
      })"

section \<open>Pages filled from the file\<close>

text \<open>A byte of a range that starts with the data at \<open>base\<close> and holds zeros otherwise.\<close>

definition data_byte :: "bytes \<Rightarrow> virt_addr \<Rightarrow> virt_addr \<Rightarrow> 8 word" where
  "data_byte data base va = (if base \<le> va \<and> va < base + length data then data ! (va - base) else 0)"

lemma frame_pointer:
  assumes "p < 2 ^ 20"
  obtains kv where "kernel_ppn_to_vpn p = Some kv" "kernel_va_to_pa (page_start kv) = Some (p * 4096)"
proof -
  have v: "kernel_ppn_to_vpn p = Some (p + 0xFFFFFFFF00000)"
    using assms by (simp add: kernel_ppn_to_vpn_def uadd_def usize_limit_def PA_TO_VA_def PAGE_SIZE_def)
  have "page_start (p + 0xFFFFFFFF00000) = (p + 0xFFFFFFFF00000) * 4096" using assms by (intro page_start_mult) simp
  then have "kernel_va_to_pa (page_start (p + 0xFFFFFFFF00000)) = Some (p * 4096)"
    by (simp add: kernel_va_to_pa_def usub_def PA_TO_VA_def)
  then show thesis using that v by blast
qed

text \<open>One page of the area: a frame is allocated, mapped and filled at an offset.\<close>

lemma ms_data_page:
  assumes bs: "buddy_spec P free" and ok: "ms_ok P free \<lparr>ms_table = pt, user_areas = m @ [(k, a)]\<rparr> M"
    and lt: "\<forall>j\<in>fst ` set m. j < k" and lazy: "area_ty a = Lazy"
    and v: "k \<le> v" "v < vpn_end a" "v \<notin> fst ` set (unbacked_map a)"
    and fit: "off + length bs \<le> 4096" and can: "can_alloc P (3 + n) (falloc M)"
  obtains p pt' M1 M2 where "frame_alloc_unwrap P M = Some (p, M1)" "pt_map P v p (pte_flags_from (perm a)) pt M1 = Some (pt', M2)"
    "p < 2 ^ 20" "can_alloc P n (falloc M2)" "grown P free pt M pt' (M2\<lparr>mem := wr_bytes (p * 4096 + off) bs (mem M2)\<rparr>)"
    "ms_ok P free \<lparr>ms_table = pt', user_areas = m @ [(k, a\<lparr>unbacked_map := bt_insert v p (unbacked_map a)\<rparr>)]\<rparr>
       (M2\<lparr>mem := wr_bytes (p * 4096 + off) bs (mem M2)\<rparr>)"
    "\<forall>i<4096. wr_bytes (p * 4096 + off) bs (mem M2) (p * 4096 + i) = data_byte bs off i"
proof -
  note d = ms_okD [OF ok, unfolded memory_space.simps]
  have ka: "(k, a) \<in> set (m @ [(k, a)])" by simp
  have aok: "area_ok k a" using areas_ok_area [OF d(1) ka] .
  have uv: "user_vpn v" using v(2) aok by (simp add: area_ok_def user_vpn_def)
  have none: "bt_get (unbacked_map a) v = None" using v(3) by (rule bt_get_notin)
  have "v \<notin> area_pages a" using v(3) aok lazy by (simp add: area_ok_def area_pages_def)
  then have nomap: "pt_lookup (mem M) pt v = None"
    using d(3) [OF uv] page_of_area(1) [OF d(1) ka v(1,2)] by blast
  have can': "can_alloc P (Suc (Suc (Suc n))) (falloc M)" using can by (simp add: numeral_3_eq_3)
  obtain p a' pt' M2 where en: "ensure_allocated P v a pt M = Some (p, a', pt', M2)" and c1: "can_alloc P n (falloc M2)"
    using ensure_allocated_total [OF bs d(2) uv lazy nomap can'] .
  note en' = ensure_allocated_new [OF bs d(2) uv none en]
  obtain M1 where al: "frame_alloc_unwrap P M = Some (p, M1)" "pt_map P v p (pte_flags_from (perm a)) pt M1 = Some (pt', M2)"
    using en none lazy by (auto simp: ensure_allocated_def bind_eq_Some_conv)
  let ?a = "a\<lparr>unbacked_map := bt_insert v p (unbacked_map a)\<rparr>"
  let ?ms' = "\<lparr>ms_table = pt', user_areas = m @ [(k, ?a)]\<rparr>" and ?M = "M2\<lparr>mem := wr_bytes (p * 4096 + off) bs (mem M2)\<rparr>"
  have pa: "page_added P free v p (pte_flags_from (perm a)) pt M pt' M2" using en'(3) .
  have ok1: "ms_ok P free ?ms' M2" and own: "ms_owns (m @ [(k, ?a)]) v p (perm a)"
    using ms_add_page [OF ok, unfolded memory_space.simps, OF ka lazy v(1,2) none pa, of ?ms'] en'(2)
      bt_insert_append(2) [OF lt] by simp_all
  have p: "p \<notin> set (root_frame pt' # frames pt')" "frame_in P p"
    using ms_okD(5) [OF ok1, unfolded memory_space.simps, OF own] by auto
  have out: "wr_bytes (p * 4096 + off) bs (mem M2) x = mem M2 x" if "x div 4096 \<noteq> p" for x
  proof -
    have "\<not> (p * 4096 \<le> x \<and> x < p * 4096 + 4096)" using that by (auto simp: div_nat_eqI)
    then have "\<not> (p * 4096 + off \<le> x \<and> x < p * 4096 + off + length bs)" using fit by linarith
    then show ?thesis by (auto simp: wr_bytes_def)
  qed
  have g: "grown P free pt M pt' ?M"
    using grown_write [OF page_added_grown [OF pa], of p ?M] pa out by (simp add: page_added_def)
  have ok': "ms_ok P free ?ms' ?M"
  proof (rule ms_ok_frame(1) [OF ok1])
    show "mem ?M x = mem M2 x" if "x div 4096 \<in> set (root_frame (ms_table ?ms') # frames (ms_table ?ms'))" for x
      using that p(1) by (auto intro!: out)
  qed (simp add: avail_def)
  have "wr_bytes (p * 4096 + off) bs (mem M2) (p * 4096 + i) = data_byte bs off i" if "i < 4096" for i
  proof -
    have "(p * 4096 + i) div 4096 = p" using that by simp
    moreover have "root_frame pt' = root_frame pt" using pa by (simp add: page_added_def)
    ultimately have "mem M2 (p * 4096 + i) = 0" using pa p(1) by (simp add: page_added_def)
    then show ?thesis by (auto simp: wr_bytes_def data_byte_def)
  qed
  then show thesis using that [OF al frame_in_bound [OF p(2)] c1 g ok'] by blast
qed

text \<open>
  Where the loop stands at page \<open>v\<close>: the data that is left belongs at \<open>off\<close> in this page, or
  none is left.
\<close>

definition data_left :: "bytes \<Rightarrow> virt_addr \<Rightarrow> vpn \<Rightarrow> nat \<Rightarrow> nat \<Rightarrow> bool" where
  "data_left data base v start off \<longleftrightarrow> start \<le> length data \<and> off < 4096
     \<and> (v * 4096 + off = base + start \<and> (off = 0 \<or> start = 0)
        \<or> off = 0 \<and> start = length data \<and> base + length data \<le> v * 4096)"

lemma data_left_step:
  assumes "data_left data base v start off"
  defines "n \<equiv> min (length data - start) (4096 - off)"
  shows "data_left data base (Suc v) (start + n) 0" "off + n \<le> 4096"
    "i < 4096 \<Longrightarrow> data_byte (take n (drop start data)) off i = data_byte data base (v * 4096 + i)"
proof -
  show "data_left data base (Suc v) (start + n) 0" "off + n \<le> 4096"
    using assms(1) unfolding data_left_def n_def by (auto simp: min_def)
  assume i: "i < 4096"
  have len: "length (take n (drop start data)) = n" by (simp add: n_def)
  consider (here) "v * 4096 + off = base + start" "off = 0 \<or> start = 0" "start \<le> length data" "off < 4096"
    | (over) "off = 0" "start = length data" "base + length data \<le> v * 4096"
    using assms(1) unfolding data_left_def by blast
  then show "data_byte (take n (drop start data)) off i = data_byte data base (v * 4096 + i)"
  proof cases
    case here
    show ?thesis
    proof (cases "off \<le> i \<and> i < off + n")
      case True
      then have "v * 4096 + i - base = start + (i - off)" "base \<le> v * 4096 + i" using here(1) by linarith+
      moreover have "start + (i - off) < length data" using True here(3) by (auto simp: n_def)
      moreover have "v * 4096 + i < base + length data" using calculation by linarith
      moreover have "take n (drop start data) ! (i - off) = data ! (start + (i - off))"
        using True here(3) by (simp add: less_diff_conv2)
      ultimately show ?thesis using True unfolding data_byte_def len by presburger
    next
      case False
      then have "\<not> (base \<le> v * 4096 + i \<and> v * 4096 + i < base + length data)"
        using here i unfolding n_def by (auto simp: min_def split: if_splits)
      then show ?thesis using False unfolding data_byte_def len by presburger
    qed
  next
    case over
    then have "n = 0" by (simp add: n_def)
    then show ?thesis using over by (simp add: data_byte_def)
  qed
qed

lemma map_data_loop_ok:
  assumes bs: "buddy_spec P free" and lt: "\<forall>j\<in>fst ` set m. j < k"
  shows "ms_ok P free \<lparr>ms_table = pt, user_areas = m @ [(k, a)]\<rparr> M \<Longrightarrow> area_ty a = Lazy \<Longrightarrow> k \<le> v \<Longrightarrow>
     vpn_end a = v + c \<Longrightarrow> \<forall>w\<in>fst ` set (unbacked_map a). w < v \<Longrightarrow> data_left data base v start off \<Longrightarrow>
     can_alloc P (3 * c + n) (falloc M) \<Longrightarrow>
     \<exists>um pt' M'. map_data_loop P data [v..<v + c] start off a pt M = Some (a\<lparr>unbacked_map := um\<rparr>, pt', M')
       \<and> can_alloc P n (falloc M') \<and> grown P free pt M pt' M'
       \<and> ms_ok P free \<lparr>ms_table = pt', user_areas = m @ [(k, a\<lparr>unbacked_map := um\<rparr>)]\<rparr> M'
       \<and> bt_get (unbacked_map a) \<subseteq>\<^sub>m bt_get um
       \<and> (\<forall>w. v \<le> w \<and> w < v + c \<longrightarrow> (\<exists>p. bt_get um w = Some p
             \<and> (\<forall>i<4096. mem M' (p * 4096 + i) = data_byte data base (w * 4096 + i))))"
proof (induction c arbitrary: a pt M v start off)
  case 0
  then show ?case by (intro exI [of _ "unbacked_map a"] exI [of _ pt] exI [of _ M]) (auto simp: grown_refl)
next
  case (Suc c)
  define l where "l = min (length data - start) (4096 - off)"
  note st = data_left_step [OF Suc.prems(6), folded l_def]
  have v: "v < vpn_end a" "v \<notin> fst ` set (unbacked_map a)" using Suc.prems(4,5) by auto
  have can: "can_alloc P (3 + (3 * c + n)) (falloc M)" using Suc.prems(7) by (simp add: add.assoc)
  have len: "off + length (take l (drop start data)) \<le> 4096" using st(2) by simp
  obtain p pt1 M1 M2 where dp: "frame_alloc_unwrap P M = Some (p, M1)" "pt_map P v p (pte_flags_from (perm a)) pt M1 = Some (pt1, M2)"
    "p < 2 ^ 20" "can_alloc P (3 * c + n) (falloc M2)"
    "grown P free pt M pt1 (M2\<lparr>mem := wr_bytes (p * 4096 + off) (take l (drop start data)) (mem M2)\<rparr>)"
    "ms_ok P free \<lparr>ms_table = pt1, user_areas = m @ [(k, a\<lparr>unbacked_map := bt_insert v p (unbacked_map a)\<rparr>)]\<rparr>
       (M2\<lparr>mem := wr_bytes (p * 4096 + off) (take l (drop start data)) (mem M2)\<rparr>)"
    "\<forall>i<4096. wr_bytes (p * 4096 + off) (take l (drop start data)) (mem M2) (p * 4096 + i) = data_byte (take l (drop start data)) off i"
    using ms_data_page [OF bs Suc.prems(1) lt Suc.prems(2,3) v len can] .
  let ?a = "a\<lparr>unbacked_map := bt_insert v p (unbacked_map a)\<rparr>"
  let ?M = "M2\<lparr>mem := wr_bytes (p * 4096 + off) (take l (drop start data)) (mem M2)\<rparr>"
  have pre: "area_ty ?a = Lazy" "k \<le> Suc v" "vpn_end ?a = Suc v + c" "\<forall>w\<in>fst ` set (unbacked_map ?a). w < Suc v"
    "can_alloc P (3 * c + n) (falloc ?M)"
    using Suc.prems(2-5) dp(4) by (auto simp: less_Suc_eq)
  obtain um pt' M' where ih: "map_data_loop P data [Suc v..<Suc v + c] (start + l) 0 ?a pt1 ?M = Some (?a\<lparr>unbacked_map := um\<rparr>, pt', M')"
    "can_alloc P n (falloc M')" "grown P free pt1 ?M pt' M'"
    "ms_ok P free \<lparr>ms_table = pt', user_areas = m @ [(k, ?a\<lparr>unbacked_map := um\<rparr>)]\<rparr> M'" "bt_get (unbacked_map ?a) \<subseteq>\<^sub>m bt_get um"
    "\<forall>w. Suc v \<le> w \<and> w < Suc v + c \<longrightarrow> (\<exists>p. bt_get um w = Some p
             \<and> (\<forall>i<4096. mem M' (p * 4096 + i) = data_byte data base (w * 4096 + i)))"
    using Suc.IH [OF dp(6) pre(1-4) st(1) pre(5)] by (elim exE conjE)
  obtain kv where kv: "kernel_ppn_to_vpn p = Some kv" "kernel_va_to_pa (page_start kv) = Some (p * 4096)"
    using frame_pointer [OF dp(3)] .
  have sub: "usub (length data) start = Some (length data - start)" "usub PAGE_SIZE off = Some (4096 - off)"
    using Suc.prems(6) by (simp_all add: data_left_def usub_def PAGE_SIZE_def)
  have up: "[v..<v + Suc c] = v # [Suc v..<Suc v + c]" using upt_conv_Cons [of v "v + Suc c"] by simp
  have loop: "map_data_loop P data [v..<v + Suc c] start off a pt M = Some (a\<lparr>unbacked_map := um\<rparr>, pt', M')"
    unfolding up map_data_loop.simps using ih(1) by (simp add: dp(1,2) kv sub l_def [symmetric] del: upt_Suc)
  have getv: "bt_get um v = Some p" using ih(5) by (auto simp: map_le_def)
  have own: "ms_owns (user_areas \<lparr>ms_table = pt1, user_areas = m @ [(k, ?a)]\<rparr>) v p (perm a)" by (auto simp: ms_owns_def)
  have "mem M' (p * 4096 + i) = data_byte data base (v * 4096 + i)" if "i < 4096" for i
    using grown_keeps [OF dp(6) _ own that, of pt' M'] ih(3) dp(7) st(3) [OF that] that by simp
  then have pages: "\<forall>w. v \<le> w \<and> w < v + Suc c \<longrightarrow> (\<exists>p. bt_get um w = Some p
             \<and> (\<forall>i<4096. mem M' (p * 4096 + i) = data_byte data base (w * 4096 + i)))"
    using ih(6) getv by (metis Suc_leI add_Suc_shift le_neq_implies_less)
  have "bt_get (unbacked_map a) \<subseteq>\<^sub>m bt_get (unbacked_map ?a)" using bt_get_notin [OF v(2)] by (auto simp: map_le_def)
  then have "bt_get (unbacked_map a) \<subseteq>\<^sub>m bt_get um" using ih(5) by (rule map_le_trans)
  then show ?case
    using loop ih(2,4) pages grown_trans [OF dp(5) ih(3)] by (intro exI [of _ um] exI [of _ pt'] exI [of _ M']) simp
qed

section \<open>Loading a segment\<close>

definition segment_end :: "program_header \<Rightarrow> virt_addr" where
  "segment_end ph = p_vaddr ph + p_memsz ph"

definition segment_data :: "bytes \<Rightarrow> program_header \<Rightarrow> bytes" where
  "segment_data elf_data ph = (case file_range ph of (s, e) \<Rightarrow> take (e - s) (drop s elf_data))"

text \<open>The segments the loader is meant for: inside the file, with memory for their bytes, in the user half.\<close>

definition segment_ok :: "bytes \<Rightarrow> program_header \<Rightarrow> bool" where
  "segment_ok elf_data ph \<longleftrightarrow> (case file_range ph of (s, e) \<Rightarrow> s \<le> e \<and> e \<le> length elf_data \<and> e - s \<le> p_memsz ph)
     \<and> 0 < p_memsz ph \<and> segment_end ph \<le> LOW_ADDRESS_END"

definition segment_pages :: "program_header \<Rightarrow> nat" where
  "segment_pages ph = vpn_ceil (segment_end ph) - vpn_floor (p_vaddr ph)"

text \<open>A segment and the area that holds it.\<close>

definition segment_loaded :: "bytes \<Rightarrow> memory \<Rightarrow> program_header \<Rightarrow> vpn \<times> vm_area \<Rightarrow> bool" where
  "segment_loaded elf_data mm ph x \<longleftrightarrow> fst x = vpn_floor (p_vaddr ph) \<and> vpn_end (snd x) = vpn_ceil (segment_end ph)
     \<and> perm (snd x) = segment_perm ph \<and> area_ty (snd x) = Lazy
     \<and> (\<forall>v. vpn_floor (p_vaddr ph) \<le> v \<and> v < vpn_ceil (segment_end ph) \<longrightarrow> (\<exists>p. bt_get (unbacked_map (snd x)) v = Some p
          \<and> (\<forall>i<4096. mm (p * 4096 + i) = data_byte (segment_data elf_data ph) (p_vaddr ph) (v * 4096 + i))))"

lemma segment_facts:
  assumes "segment_ok elf_data ph"
  shows "vpn_floor (p_vaddr ph) < vpn_ceil (segment_end ph)" "vpn_ceil (segment_end ph) \<le> 2 ^ 26"
    "length (segment_data elf_data ph) + p_vaddr ph mod 4096 \<le> segment_pages ph * 4096"
    "segment_pages ph * 4096 < usize_limit"
proof -
  have end_le: "segment_end ph \<le> vpn_ceil (segment_end ph) * 4096"
    using div_ceil_ge [of 4096 "segment_end ph"] by (simp add: vpn_ceil_def PAGE_SIZE_def)
  have pos: "p_vaddr ph < segment_end ph" and len: "length (segment_data elf_data ph) \<le> p_memsz ph"
    using assms by (auto simp: segment_ok_def segment_end_def segment_data_def split: prod.splits)
  have vd: "p_vaddr ph = vpn_floor (p_vaddr ph) * 4096 + p_vaddr ph mod 4096" by (simp add: vpn_floor_div)
  then show lt: "vpn_floor (p_vaddr ph) < vpn_ceil (segment_end ph)" using end_le pos by linarith
  have "segment_pages ph * 4096 + vpn_floor (p_vaddr ph) * 4096 = vpn_ceil (segment_end ph) * 4096"
    using lt unfolding segment_pages_def by (simp add: diff_mult_distrib)
  then show "length (segment_data elf_data ph) + p_vaddr ph mod 4096 \<le> segment_pages ph * 4096"
    using end_le vd len unfolding segment_end_def by linarith
  show le: "vpn_ceil (segment_end ph) \<le> 2 ^ 26"
    using assms by (simp add: segment_ok_def vpn_ceil_def div_ceil_le_iff LOW_ADDRESS_END_def PAGE_SIZE_def)
  show "segment_pages ph * 4096 < usize_limit" using le by (simp add: segment_pages_def usize_limit_def)
qed

lemma load_segment_ok:
  assumes bs: "buddy_spec P free" and ok: "ms_ok P free \<lparr>ms_table = pt, user_areas = m\<rparr> M"
    and lt: "\<forall>(j, b)\<in>set m. j < vpn_floor (p_vaddr ph) \<and> vpn_end b \<le> vpn_floor (p_vaddr ph)" and seg: "segment_ok elf_data ph"
    and can: "can_alloc P (3 * segment_pages ph + n) (falloc M)"
  obtains d pt' M' where "load_segment P elf_data ph \<lparr>ms_table = pt, user_areas = m\<rparr> M
      = Some (segment_end ph, \<lparr>ms_table = pt', user_areas = m @ [(vpn_floor (p_vaddr ph), d)]\<rparr>, M')"
    "ms_ok P free \<lparr>ms_table = pt', user_areas = m @ [(vpn_floor (p_vaddr ph), d)]\<rparr> M'" "grown P free pt M pt' M'"
    "can_alloc P n (falloc M')" "segment_loaded elf_data (mem M') ph (vpn_floor (p_vaddr ph), d)"
proof -
  let ?k = "vpn_floor (p_vaddr ph)" and ?e = "vpn_ceil (segment_end ph)" and ?data = "segment_data elf_data ph"
  let ?a = "vm_area_new ?k ?e (segment_perm ph) Lazy"
  note sf = segment_facts [OF seg]
  have lk: "\<forall>j\<in>fst ` set m. j < ?k" using lt by auto
  have ke: "?k \<le> ?e" "?e = ?k + segment_pages ph" using sf(1) by (simp_all add: segment_pages_def)
  have ok1: "ms_ok P free \<lparr>ms_table = pt, user_areas = m @ [(?k, ?a)]\<rparr> M" using ms_ok_append_new [OF ok lt ke(1) sf(2)] .
  have pre: "area_ty ?a = Lazy" "vpn_end ?a = ?k + segment_pages ph" "\<forall>w\<in>fst ` set (unbacked_map ?a). w < ?k"
    using ke(2) by (simp_all add: vm_area_new_def)
  have dl: "data_left ?data (p_vaddr ph) ?k 0 (p_vaddr ph mod 4096)" by (simp add: data_left_def vpn_floor_div)
  obtain um pt' M' where lp:
    "map_data_loop P ?data [?k..<?k + segment_pages ph] 0 (p_vaddr ph mod 4096) ?a pt M = Some (?a\<lparr>unbacked_map := um\<rparr>, pt', M')"
    "can_alloc P n (falloc M')" "grown P free pt M pt' M'" "ms_ok P free \<lparr>ms_table = pt', user_areas = m @ [(?k, ?a\<lparr>unbacked_map := um\<rparr>)]\<rparr> M'"
    "\<forall>w. ?k \<le> w \<and> w < ?k + segment_pages ph \<longrightarrow> (\<exists>p. bt_get um w = Some p
       \<and> (\<forall>i<4096. mem M' (p * 4096 + i) = data_byte ?data (p_vaddr ph) (w * 4096 + i)))"
    using map_data_loop_ok [OF bs lk ok1 pre(1) order_refl pre(2,3) dl can] by (elim exE conjE)
  have none: "bt_get m ?k = None" using lk by (intro bt_get_notin) auto
  have "area_len ?a = Some (segment_pages ph * 4096)"
    using sf(4) by (simp add: area_len_def umul_def PAGE_SIZE_def vm_area_new_def segment_pages_def)
  moreover have "uadd (length ?data) (p_vaddr ph mod 4096) = Some (length ?data + p_vaddr ph mod 4096)"
    using sf(3,4) by (simp add: uadd_def)
  moreover have "vpn_start ?a = ?k" "vpn_end ?a = ?k + segment_pages ph" using ke(2) by (simp_all add: vm_area_new_def)
  ultimately have mp: "map_with_data P ?data (p_vaddr ph mod 4096) ?a pt M = Some (?a\<lparr>unbacked_map := um\<rparr>, pt', M')"
    using sf(3) lp(1) by (simp add: map_with_data_def)
  have "user_map_with_data P ?k ?e (segment_perm ph) ?data (page_offset (p_vaddr ph)) \<lparr>ms_table = pt, user_areas = m\<rparr> M
      = Some (\<lparr>ms_table = pt', user_areas = m @ [(?k, ?a\<lparr>unbacked_map := um\<rparr>)]\<rparr>, M')"
    using mp bt_insert_append(1) [OF lk] none
    by (simp add: user_map_with_data_def page_offset_mod insert_area_def) (simp add: vm_area_new_def)
  moreover have "uadd (p_vaddr ph) (p_memsz ph) = Some (segment_end ph)"
    using seg by (simp add: uadd_def segment_ok_def segment_end_def LOW_ADDRESS_END_def usize_limit_def)
  ultimately have ld: "load_segment P elf_data ph \<lparr>ms_table = pt, user_areas = m\<rparr> M
      = Some (segment_end ph, \<lparr>ms_table = pt', user_areas = m @ [(?k, ?a\<lparr>unbacked_map := um\<rparr>)]\<rparr>, M')"
    using seg by (auto simp: load_segment_def segment_data_def segment_ok_def split: prod.splits)
  have "segment_loaded elf_data (mem M') ph (?k, ?a\<lparr>unbacked_map := um\<rparr>)"
    using lp(5) ke(2) by (simp add: segment_loaded_def vm_area_new_def)
  then show thesis by (rule that [OF ld lp(4,3,2)])
qed

text \<open>What is loaded stays while the space grows.\<close>

lemma segment_loaded_later:
  assumes sl: "segment_loaded elf_data (mem M) ph y" and y: "y \<in> set (user_areas ms)"
    and ok: "ms_ok P free ms M" and gr: "grown P free (ms_table ms) M pt' M'"
  shows "segment_loaded elf_data (mem M') ph y"
proof -
  have "mem M' (q * 4096 + i) = mem M (q * 4096 + i)" if "bt_get (unbacked_map (snd y)) v = Some q" "i < 4096" for v q i
  proof -
    have "ms_owns (user_areas ms) v q (perm (snd y))"
      unfolding ms_owns_def using y that(1) by (intro bexI [of _ y]) (auto split: prod.split)
    then show ?thesis using grown_keeps [OF ok gr] that(2) by blast
  qed
  then show ?thesis using sl unfolding segment_loaded_def by (metis (no_types, lifting))
qed

section \<open>Loading the segments\<close>

abbreviation loads :: "program_header list \<Rightarrow> program_header list" where
  "loads \<equiv> filter (\<lambda>ph. p_type ph = PT_LOAD)"

lemma load_segments_ok:
  assumes bs: "buddy_spec P free"
  shows "ms_ok P free \<lparr>ms_table = pt, user_areas = m\<rparr> M \<Longrightarrow> \<forall>ph\<in>set phs. p_type ph \<noteq> PT_INTERP \<Longrightarrow>
     \<forall>ph\<in>set (loads phs). segment_ok elf_data ph \<Longrightarrow>
     sorted_wrt (\<lambda>x y. vpn_ceil (segment_end x) \<le> vpn_floor (p_vaddr y)) (loads phs) \<Longrightarrow>
     \<forall>(j, b)\<in>set m. \<forall>ph\<in>set (loads phs). j < vpn_floor (p_vaddr ph) \<and> vpn_end b \<le> vpn_floor (p_vaddr ph) \<Longrightarrow>
     can_alloc P (3 * sum_list (map segment_pages (loads phs)) + n) (falloc M) \<Longrightarrow>
     \<exists>m' pt' M'. load_segments P elf_data phs elf_end ph_start \<lparr>ms_table = pt, user_areas = m\<rparr> M
         = Some (Inr (fold max (map segment_end (loads phs)) elf_end,
              case ph_start of Some v \<Rightarrow> Some v | None \<Rightarrow> (case loads phs of [] \<Rightarrow> None | ph # _ \<Rightarrow> Some (p_vaddr ph))),
             \<lparr>ms_table = pt', user_areas = m @ m'\<rparr>, M')
       \<and> ms_ok P free \<lparr>ms_table = pt', user_areas = m @ m'\<rparr> M' \<and> grown P free pt M pt' M'
       \<and> can_alloc P n (falloc M') \<and> list_all2 (segment_loaded elf_data (mem M')) (loads phs) m'"
proof (induction phs arbitrary: m pt M elf_end ph_start)
  case Nil
  then show ?case by (intro exI [of _ "[]"] exI [of _ pt] exI [of _ M]) (simp add: grown_refl split: option.split)
next
  case (Cons ph phs)
  have ni: "p_type ph \<noteq> PT_INTERP" "\<forall>ph\<in>set phs. p_type ph \<noteq> PT_INTERP" using Cons.prems(2) by auto
  show ?case
  proof (cases "p_type ph = PT_LOAD")
    case False
    then have eq: "loads (ph # phs) = loads phs" by simp
    show ?thesis using Cons.IH [OF Cons.prems(1) ni(2) Cons.prems(3-6) [unfolded eq]] ni(1) False unfolding eq by simp
  next
    case True
    let ?k = "vpn_floor (p_vaddr ph)"
    have seg: "segment_ok elf_data ph" and lt: "\<forall>(j, b)\<in>set m. j < ?k \<and> vpn_end b \<le> ?k"
      and can: "can_alloc P (3 * segment_pages ph + (3 * sum_list (map segment_pages (loads phs)) + n)) (falloc M)"
      using Cons.prems(3,5,6) True by (auto simp: algebra_simps)
    obtain d pt1 M1 where ls: "load_segment P elf_data ph \<lparr>ms_table = pt, user_areas = m\<rparr> M
        = Some (segment_end ph, \<lparr>ms_table = pt1, user_areas = m @ [(?k, d)]\<rparr>, M1)"
      "ms_ok P free \<lparr>ms_table = pt1, user_areas = m @ [(?k, d)]\<rparr> M1" "grown P free pt M pt1 M1"
      "can_alloc P (3 * sum_list (map segment_pages (loads phs)) + n) (falloc M1)" "segment_loaded elf_data (mem M1) ph (?k, d)"
      using load_segment_ok [OF bs Cons.prems(1) lt seg can] .
    have so: "\<forall>ph\<in>set (loads phs). segment_ok elf_data ph"
      "sorted_wrt (\<lambda>x y. vpn_ceil (segment_end x) \<le> vpn_floor (p_vaddr y)) (loads phs)"
      using Cons.prems(3,4) True by auto
    have "\<forall>x\<in>set (loads phs). vpn_ceil (segment_end ph) \<le> vpn_floor (p_vaddr x)" using Cons.prems(4) True by auto
    moreover have "?k < vpn_ceil (segment_end ph)" "vpn_end d = vpn_ceil (segment_end ph)"
      using segment_facts(1) [OF seg] ls(5) by (simp_all add: segment_loaded_def)
    ultimately have lt': "\<forall>(j, b)\<in>set (m @ [(?k, d)]). \<forall>x\<in>set (loads phs). j < vpn_floor (p_vaddr x) \<and> vpn_end b \<le> vpn_floor (p_vaddr x)"
      using Cons.prems(5) True by fastforce
    obtain m' pt' M' where ih:
      "load_segments P elf_data phs (max elf_end (segment_end ph)) (case ph_start of None \<Rightarrow> Some (p_vaddr ph) | Some v \<Rightarrow> Some v)
          \<lparr>ms_table = pt1, user_areas = m @ [(?k, d)]\<rparr> M1
         = Some (Inr (fold max (map segment_end (loads phs)) (max elf_end (segment_end ph)),
              case (case ph_start of None \<Rightarrow> Some (p_vaddr ph) | Some v \<Rightarrow> Some v) of Some v \<Rightarrow> Some v
              | None \<Rightarrow> (case loads phs of [] \<Rightarrow> None | ph # _ \<Rightarrow> Some (p_vaddr ph))),
             \<lparr>ms_table = pt', user_areas = (m @ [(?k, d)]) @ m'\<rparr>, M')"
      "ms_ok P free \<lparr>ms_table = pt', user_areas = (m @ [(?k, d)]) @ m'\<rparr> M'" "grown P free pt1 M1 pt' M'"
      "can_alloc P n (falloc M')" "list_all2 (segment_loaded elf_data (mem M')) (loads phs) m'"
      using Cons.IH [OF ls(2) ni(2) so lt' ls(4), of "max elf_end (segment_end ph)"
          "case ph_start of None \<Rightarrow> Some (p_vaddr ph) | Some v \<Rightarrow> Some v"] by (elim exE conjE)
    have "segment_loaded elf_data (mem M') ph (?k, d)" using segment_loaded_later [OF ls(5) _ ls(2)] ih(3) by simp
    then show ?thesis
      using ih ls(1) True ni(1) grown_trans [OF ls(3) ih(3)]
      by (intro exI [of _ "(?k, d) # m'"] exI [of _ pt'] exI [of _ M']) (simp add: max.commute split: option.splits)
  qed
qed

lemma fold_max_ends: "xs \<noteq> [] \<Longrightarrow> fold max xs 0 = Max (set xs)" for xs :: "nat list"
  using Max.set_eq_fold [of 0 xs] by simp

lemma list_all2_source: "list_all2 R xs ys \<Longrightarrow> y \<in> set ys \<Longrightarrow> \<exists>x\<in>set xs. R x y"
  by (induction rule: list_all2_induct) auto

lemma segments_shape:
  "list_all2 (segment_loaded elf_data mm) L m' \<Longrightarrow> map (\<lambda>(k, a). (k, vpn_end a, perm a, area_ty a)) m'
     = map (\<lambda>ph. (vpn_floor (p_vaddr ph), vpn_ceil (segment_end ph), segment_perm ph, Lazy)) L"
  by (induction rule: list_all2_induct) (auto simp: segment_loaded_def)

text \<open>What a segment in an area means for the program.\<close>

lemma segment_in_memory:
  assumes ok: "ms_ok P free ms M" and a: "x \<in> set (user_areas ms)" and sl: "segment_loaded elf_data (mem M) ph x"
    and va: "vpn_floor (p_vaddr ph) \<le> va div 4096" "va div 4096 < vpn_ceil (segment_end ph)"
  shows "\<exists>p. pt_lookup (mem M) (ms_table ms) (va div 4096) = Some (p, pte_flags_from (segment_perm ph) OR PTE_V)"
    "user_mem ms M va = data_byte (segment_data elf_data ph) (p_vaddr ph) va"
proof -
  obtain p where p: "bt_get (unbacked_map (snd x)) (va div 4096) = Some p"
    "\<forall>i<4096. mem M (p * 4096 + i) = data_byte (segment_data elf_data ph) (p_vaddr ph) (va div 4096 * 4096 + i)"
    using sl va unfolding segment_loaded_def by blast
  have "ms_owns (user_areas ms) (va div 4096) p (segment_perm ph)"
    unfolding ms_owns_def using a p(1) sl by (intro bexI [of _ x]) (auto simp: segment_loaded_def split: prod.split)
  then have lk: "pt_lookup (mem M) (ms_table ms) (va div 4096) = Some (p, pte_flags_from (segment_perm ph) OR PTE_V)"
    using ms_okD(4) [OF ok] by blast
  then show "\<exists>p. pt_lookup (mem M) (ms_table ms) (va div 4096) = Some (p, pte_flags_from (segment_perm ph) OR PTE_V)" by blast
  have "mem M (p * 4096 + va mod 4096) = data_byte (segment_data elf_data ph) (p_vaddr ph) (va div 4096 * 4096 + va mod 4096)"
    using p(2) by simp
  then show "user_mem ms M va = data_byte (segment_data elf_data ph) (p_vaddr ph) va"
    using lk by (simp add: user_mem_def PAGE_SIZE_def)
qed

text \<open>
  C12: Loading an executable into a well-formed address space without areas.  Suppose the file names no
  interpreter, it has at least one loadable segment, the address of its program headers does not
  overflow, its loadable segments are in increasing order without a common page, each with its bytes inside the
  file, no more of them than its size in memory, which is positive, and inside the user half, and
  suppose three frames per page can be allocated.  Then the load succeeds.  The space is well formed
  and its areas are exactly the segments, with the permissions of their flags; every page of a segment
  is mapped, the bytes of the segment stand at its address, and the rest of its pages is zero; no
  other page is mapped; and no memory besides the tables of the space and free frames is written.
  The result is the largest end of a segment, the entry point, and the auxiliary vector with the
  address of the program headers behind the start of the first segment.
\<close>

theorem load_elf_correct:
  assumes bs: "buddy_spec P free" and ok: "ms_ok P free ms M" "user_areas ms = []"
    and elf: "interpreter elf = None" "\<forall>ph\<in>set (program_headers elf). p_type ph \<noteq> PT_INTERP" "loads (program_headers elf) \<noteq> []"
    and segs: "\<forall>ph\<in>set (loads (program_headers elf)). segment_ok elf_data ph"
      "sorted_wrt (\<lambda>x y. vpn_ceil (segment_end x) \<le> vpn_floor (p_vaddr y)) (loads (program_headers elf))"
    and phdr: "p_vaddr (hd (loads (program_headers elf))) + e_phoff elf < usize_limit"
    and can: "can_alloc P (3 * sum_list (map segment_pages (loads (program_headers elf)))) (falloc M)"
  shows "\<exists>ms' M'. load_elf_sections P elf elf_data ms M
      = Some (Inr (Max (segment_end ` set (loads (program_headers elf))),
            [(AT_PHENT, e_phentsize elf), (AT_PHNUM, e_phnum elf), (AT_PAGESZ, PAGE_SIZE), (AT_BASE, 0), (AT_ENTRY, elf_entry elf),
             (AT_PHDR, p_vaddr (hd (loads (program_headers elf))) + e_phoff elf)], elf_entry elf), ms', M')
    \<and> ms_ok P free ms' M'
    \<and> map (\<lambda>(k, a). (k, vpn_end a, perm a, area_ty a)) (user_areas ms')
        = map (\<lambda>ph. (vpn_floor (p_vaddr ph), vpn_ceil (segment_end ph), segment_perm ph, Lazy)) (loads (program_headers elf))
    \<and> (\<forall>ph\<in>set (loads (program_headers elf)). \<forall>va. vpn_floor (p_vaddr ph) \<le> va div PAGE_SIZE \<and> va div PAGE_SIZE < vpn_ceil (segment_end ph) \<longrightarrow>
         (\<exists>p. pt_lookup (mem M') (ms_table ms') (va div PAGE_SIZE) = Some (p, pte_flags_from (segment_perm ph) OR PTE_V))
         \<and> user_mem ms' M' va = data_byte (segment_data elf_data ph) (p_vaddr ph) va)
    \<and> (\<forall>v. user_vpn v \<and> (\<forall>ph\<in>set (loads (program_headers elf)). \<not> (vpn_floor (p_vaddr ph) \<le> v \<and> v < vpn_ceil (segment_end ph)))
         \<longrightarrow> pt_lookup (mem M') (ms_table ms') v = None)
    \<and> (\<forall>x. x div PAGE_SIZE \<notin> ms_frames ms \<union> avail P free M \<longrightarrow> mem M' x = mem M x)"
proof -
  let ?L = "loads (program_headers elf)"
  obtain pt where ms: "ms = \<lparr>ms_table = pt, user_areas = []\<rparr>" using ok(2) by (cases ms) simp
  have none: "\<forall>(j, b)\<in>set []. \<forall>ph\<in>set ?L. j < vpn_floor (p_vaddr ph) \<and> vpn_end b \<le> vpn_floor (p_vaddr ph)" by simp
  have can0: "can_alloc P (3 * sum_list (map segment_pages ?L) + 0) (falloc M)" using can by simp
  obtain m' pt' M' where ls: "load_segments P elf_data (program_headers elf) 0 None ms M
         = Some (Inr (fold max (map segment_end ?L) 0, case ?L of [] \<Rightarrow> None | ph # _ \<Rightarrow> Some (p_vaddr ph)),
             \<lparr>ms_table = pt', user_areas = m'\<rparr>, M')"
    and ok': "ms_ok P free \<lparr>ms_table = pt', user_areas = m'\<rparr> M'" and gr: "grown P free pt M pt' M'"
    and all: "list_all2 (segment_loaded elf_data (mem M')) ?L m'"
    using load_segments_ok [OF bs ok(1) [unfolded ms] elf(2) segs none can0, of 0 None]
    unfolding ms append_Nil option.case by (elim exE conjE)
  let ?ms = "\<lparr>ms_table = pt', user_areas = m'\<rparr>"
  have "fold max (map segment_end ?L) 0 = Max (segment_end ` set ?L)" using fold_max_ends [of "map segment_end ?L"] elf(3) by simp
  moreover have "(case ?L of [] \<Rightarrow> None | ph # _ \<Rightarrow> Some (p_vaddr ph)) = Some (p_vaddr (hd ?L))"
    using elf(3) by (auto split: list.split)
  ultimately have res: "load_elf_sections P elf elf_data ms M
      = Some (Inr (Max (segment_end ` set ?L),
            [(AT_PHENT, e_phentsize elf), (AT_PHNUM, e_phnum elf), (AT_PAGESZ, PAGE_SIZE), (AT_BASE, 0), (AT_ENTRY, elf_entry elf),
             (AT_PHDR, p_vaddr (hd ?L) + e_phoff elf)], elf_entry elf), ?ms, M')"
    using ls elf(1) phdr by (simp add: load_elf_sections_def uadd_def)
  have pages: "(\<exists>p. pt_lookup (mem M') (ms_table ?ms) (va div PAGE_SIZE) = Some (p, pte_flags_from (segment_perm ph) OR PTE_V))
         \<and> user_mem ?ms M' va = data_byte (segment_data elf_data ph) (p_vaddr ph) va"
    if ph: "ph \<in> set ?L" and va: "vpn_floor (p_vaddr ph) \<le> va div PAGE_SIZE \<and> va div PAGE_SIZE < vpn_ceil (segment_end ph)" for ph va
  proof -
    obtain x where x: "x \<in> set (user_areas ?ms)" "segment_loaded elf_data (mem M') ph x" using list_all2_mem [OF all ph] by auto
    show ?thesis using segment_in_memory [OF ok' x] va unfolding PAGE_SIZE_def by blast
  qed
  have other: "pt_lookup (mem M') (ms_table ?ms) v = None"
    if v: "user_vpn v" "\<forall>ph\<in>set ?L. \<not> (vpn_floor (p_vaddr ph) \<le> v \<and> v < vpn_ceil (segment_end ph))" for v
  proof -
    have "v \<notin> area_pages a" if ka: "(k, a) \<in> set m'" for k a
    proof -
      obtain ph where ph: "ph \<in> set ?L" "segment_loaded elf_data (mem M') ph (k, a)"
        using list_all2_source [OF all ka] by auto
      have "k = vpn_floor (p_vaddr ph)" "vpn_end a = vpn_ceil (segment_end ph)" using ph(2) by (simp_all add: segment_loaded_def)
      moreover have "area_pages a \<subseteq> {k..<vpn_end a}"
        using area_ok_pages [OF areas_ok_area [OF ms_okD(1) [OF ok'], of k a]] areas_ok_area [OF ms_okD(1) [OF ok'], of k a] ka
        by (simp add: area_ok_def)
      ultimately show ?thesis using bspec [OF v(2) ph(1)] by auto
    qed
    then show ?thesis using ms_okD(3) [OF ok' v(1)] by (auto simp: ms_pages_def)
  qed
  have mem: "mem M' x = mem M x" if "x div PAGE_SIZE \<notin> ms_frames ms \<union> avail P free M" for x
    using that gr by (auto simp: grown_def ms_frames_def PAGE_SIZE_def ms)
  show ?thesis using res ok' segments_shape [OF all] pages other mem by (intro exI [of _ ?ms] exI [of _ M']) simp
qed

subsection \<open>An example\<close>

definition demo_elf :: elf where
  "demo_elf = \<lparr>elf_entry = 0x1F10, e_phentsize = 56, e_phnum = 2, e_phoff = 64, interpreter = None, program_headers =
     [\<lparr>p_type = 4, p_flags = PF_R, p_vaddr = 0, p_memsz = 0, file_range = (0, 0)\<rparr>,
      \<lparr>p_type = PT_LOAD, p_flags = PF_R OR PF_X, p_vaddr = 0x1F10, p_memsz = 0x20, file_range = (2, 6)\<rparr>]\<rparr>"

theorem load_elf_correct_witness:
  "\<exists>ms' M'. load_elf_sections list_platform demo_elf [0, 0, 1, 2, 3, 4, 5] \<lparr>ms_table = demo_pt, user_areas = []\<rparr> demo_M
      = Some (Inr (0x1F30, [(AT_PHENT, 56), (AT_PHNUM, 2), (AT_PAGESZ, PAGE_SIZE), (AT_BASE, 0), (AT_ENTRY, 0x1F10), (AT_PHDR, 0x1F50)],
          0x1F10), ms', M')
    \<and> (\<exists>p. pt_lookup (mem M') (ms_table ms') 1 = Some (p, 0x1B))
    \<and> map (user_mem ms' M') [0x1F0F, 0x1F10, 0x1F13, 0x1F14] = [0, 1, 4, 0]
    \<and> pt_lookup (mem M') (ms_table ms') 2 = None"
proof -
  let ?ph = "\<lparr>p_type = PT_LOAD, p_flags = PF_R OR PF_X, p_vaddr = 0x1F10, p_memsz = 0x20, file_range = (2, 6)\<rparr>"
  let ?ms = "\<lparr>ms_table = demo_pt, user_areas = []\<rparr>" and ?data = "[0, 0, 1, 2, 3, 4, 5] :: bytes"
  have ok: "ms_ok list_platform set ?ms demo_M" by (rule ms_ok_fresh [OF demo_ok]) (simp_all add: areas_ok_def)
  have L: "loads (program_headers demo_elf) = [?ph]" by (simp add: demo_elf_def PT_LOAD_def)
  have v: "vpn_floor 0x1F10 = 1" "segment_end ?ph = 0x1F30" "vpn_ceil 0x1F30 = 2" "segment_pages ?ph = 1"
    by (simp_all add: vpn_floor_div segment_end_def vpn_ceil_def div_ceil_def PAGE_SIZE_def segment_pages_def)
  have seg: "segment_ok ?data ?ph" by (simp add: segment_ok_def segment_end_def LOW_ADDRESS_END_def)
  have fl: "pte_flags_from (segment_perm ?ph) OR PTE_V = 0x1B"
    by (simp add: segment_perm_def pte_flags_from_def pte_flags_truncate_def PERM_R_def PERM_W_def PERM_X_def PERM_U_def PTE_V_def
        PF_R_def PF_W_def PF_X_def)
  have "interpreter demo_elf = None" "\<forall>ph\<in>set (program_headers demo_elf). p_type ph \<noteq> PT_INTERP" "loads (program_headers demo_elf) \<noteq> []"
    "\<forall>ph\<in>set (loads (program_headers demo_elf)). segment_ok ?data ph"
    "sorted_wrt (\<lambda>x y. vpn_ceil (segment_end x) \<le> vpn_floor (p_vaddr y)) (loads (program_headers demo_elf))"
    "p_vaddr (hd (loads (program_headers demo_elf))) + e_phoff demo_elf < usize_limit"
    "can_alloc list_platform (3 * sum_list (map segment_pages (loads (program_headers demo_elf)))) (falloc demo_M)"
    unfolding L using seg v(4) by (simp_all add: demo_elf_def PT_INTERP_def PT_LOAD_def usize_limit_def demo_M_def numeral_3_eq_3)
  from load_elf_correct [OF list_platform_spec ok _ this, unfolded L]
  obtain ms' M' where r: "load_elf_sections list_platform demo_elf ?data ?ms demo_M
      = Some (Inr (Max (segment_end ` set [?ph]),
            [(AT_PHENT, e_phentsize demo_elf), (AT_PHNUM, e_phnum demo_elf), (AT_PAGESZ, PAGE_SIZE), (AT_BASE, 0), (AT_ENTRY, elf_entry demo_elf),
             (AT_PHDR, p_vaddr (hd [?ph]) + e_phoff demo_elf)], elf_entry demo_elf), ms', M')"
    and pg: "\<forall>ph\<in>set [?ph]. \<forall>va. vpn_floor (p_vaddr ph) \<le> va div PAGE_SIZE \<and> va div PAGE_SIZE < vpn_ceil (segment_end ph) \<longrightarrow>
         (\<exists>p. pt_lookup (mem M') (ms_table ms') (va div PAGE_SIZE) = Some (p, pte_flags_from (segment_perm ph) OR PTE_V))
         \<and> user_mem ms' M' va = data_byte (segment_data ?data ph) (p_vaddr ph) va"
    and ot: "\<forall>v. user_vpn v \<and> (\<forall>ph\<in>set [?ph]. \<not> (vpn_floor (p_vaddr ph) \<le> v \<and> v < vpn_ceil (segment_end ph)))
         \<longrightarrow> pt_lookup (mem M') (ms_table ms') v = None"
    by (elim meta_impE exE conjE) simp_all
  have page: "(\<exists>p. pt_lookup (mem M') (ms_table ms') 1 = Some (p, 0x1B)) \<and> user_mem ms' M' va = data_byte [1, 2, 3, 4] 0x1F10 va"
    if "va div 4096 = 1" for va
  proof -
    have "segment_data ?data ?ph = [1, 2, 3, 4]" by (simp add: segment_data_def)
    then show ?thesis using pg [THEN bspec, of ?ph, THEN spec, of va] that v fl by (simp add: PAGE_SIZE_def)
  qed
  have "user_mem ms' M' 0x1F0F = 0" "user_mem ms' M' 0x1F10 = 1" "user_mem ms' M' 0x1F13 = 4" "user_mem ms' M' 0x1F14 = 0"
    using page by (simp_all add: data_byte_def)
  moreover have "\<exists>p. pt_lookup (mem M') (ms_table ms') 1 = Some (p, 0x1B)" using page [of 4096] by simp
  moreover have "pt_lookup (mem M') (ms_table ms') 2 = None" using ot v by (simp add: user_vpn_def)
  moreover have "load_elf_sections list_platform demo_elf ?data ?ms demo_M
      = Some (Inr (0x1F30, [(AT_PHENT, 56), (AT_PHNUM, 2), (AT_PAGESZ, PAGE_SIZE), (AT_BASE, 0), (AT_ENTRY, 0x1F10), (AT_PHDR, 0x1F50)],
          0x1F10), ms', M')"
    using r v by (simp add: demo_elf_def)
  ultimately show ?thesis by (intro exI [of _ ms'] exI [of _ M'] conjI) simp_all
qed

end
