(* ===== verification/Process.thy ===== *)
theory Process
  imports IdAllocator Signals ElfLoad
begin

text \<open>
  Processes and threads (libkernel/src/process, libkernel/src/thread) and the system calls
  on them (kernel/src/syscall/process.rs, thread.rs).  A reference to a process is its
  identifier, and the process manager is the store of the processes: a process is in it
  from its creation until its parent has waited for it.  Dropping the last reference to a
  process gives back its identifier and its memory; the model does so when the parent
  waits for it, the point at which the kernel removes it from the manager.

  The threads of a process are kept by their number, and are visited in that order.  What
  the hardware supplies when a program starts (the status register, the thread pointer and
  two readings of the clock) is the record \<open>hart_env\<close>; the parser of executables is the
  argument \<open>parse\<close>; notifying the event on which a parent waits counts up a number.
\<close>

section \<open>Threads\<close>

datatype thread_status = Ready | Running | Blocking | Terminated

record thread =
  tid :: nat
  th_status :: thread_status
  exit_code :: "8 word"
  th_inner :: thread_inner
  trap_ctx :: trap_context
  clear_child_tid :: nat

definition thread_new :: "nat \<Rightarrow> trap_context \<Rightarrow> signal_set \<Rightarrow> thread" where
  "thread_new t c m = \<lparr>tid = t, th_status = Ready, exit_code = 0,
     th_inner = \<lparr>signal_mask = m, pending_signal = 0\<rparr>, trap_ctx = c, clear_child_tid = 0\<rparr>"

section \<open>Processes\<close>

record process_inner =
  space :: memory_space
  heap_range :: "virt_addr \<times> virt_addr"
  parent :: "nat option"
  children :: "nat list"
  cwd :: nat
  fds :: fd_table
  handlers :: signal_handlers
  tid_allocator :: recycle_allocator
  threads :: "(nat, thread) btree"

record process =
  pid :: nat
  name :: bytes
  wait4_event :: nat
  status :: process_status
  exit_signal :: "signal option"
  inner :: process_inner

record 'fa kernel =
  machine :: "'fa machine"
  pid_allocator :: recycle_allocator
  manager :: "(nat, process) btree"
  shutdown :: bool
  kernel_root :: ppn
  root_dir :: nat

record hart_env =
  env_sstatus :: "64 word"
  env_tp :: nat
  env_time1 :: nat
  env_time2 :: nat

definition INITPROC_PID :: nat where "INITPROC_PID = 1"

definition main_thread :: "process_inner \<Rightarrow> thread option" where
  "main_thread i = bt_get (threads i) 0"

definition inner_set_user_brk ::
  "'fa platform \<Rightarrow> virt_addr \<Rightarrow> process_inner \<Rightarrow> 'fa machine \<Rightarrow> (virt_addr \<times> process_inner \<times> 'fa machine) option" where
  "inner_set_user_brk P new_brk i M =
     (if new_brk \<le> fst (heap_range i) \<or> LOW_ADDRESS_END < new_brk then Some (snd (heap_range i), i, M)
      else do {
        (ms, M) \<leftarrow> set_user_brk P (vpn_floor (fst (heap_range i))) (vpn_ceil new_brk) (space i) M;
        Some (new_brk, i\<lparr>space := ms, heap_range := (fst (heap_range i), new_brk)\<rparr>, M)
      })"

text \<open>The first thread that neither masks the signal nor has it pending receives it.  The code asks
  the threads in the order of a hash map, which is not fixed; here it is that of their numbers.\<close>

definition receives :: "signal \<Rightarrow> thread \<Rightarrow> bool" where
  "receives s t \<longleftrightarrow> \<not> has_flag (signal_mask (th_inner t)) (ksig_of s)
     \<and> \<not> has_flag (pending_signal (th_inner t)) (ksig_of s)"

definition add_pending :: "signal \<Rightarrow> thread \<Rightarrow> thread" where
  "add_pending s t =
     t\<lparr>th_inner := (th_inner t)\<lparr>pending_signal := pending_signal (th_inner t) OR ksig_of s\<rparr>\<rparr>"

fun give_signal :: "signal \<Rightarrow> (nat, thread) btree \<Rightarrow> (nat, thread) btree" where
  "give_signal s [] = []"
| "give_signal s ((k, t) # ts) =
     (if receives s t then (k, add_pending s t) # ts else (k, t) # give_signal s ts)"

definition receive_signal :: "signal \<Rightarrow> process_inner \<Rightarrow> process_inner" where
  "receive_signal s i = i\<lparr>threads := give_signal s (threads i)\<rparr>"

section \<open>The process manager\<close>

definition pm_get :: "nat \<Rightarrow> 'fa kernel \<Rightarrow> process option" where
  "pm_get p K = bt_get (manager K) p"

definition pm_add :: "nat \<Rightarrow> process \<Rightarrow> 'fa kernel \<Rightarrow> 'fa kernel" where
  "pm_add p proc K = K\<lparr>manager := bt_insert p proc (manager K)\<rparr>"

definition pm_remove :: "nat \<Rightarrow> 'fa kernel \<Rightarrow> 'fa kernel" where
  "pm_remove p K = K\<lparr>manager := bt_remove p (manager K)\<rparr>"

definition init_proc :: "'fa kernel \<Rightarrow> process option" where
  "init_proc K = pm_get INITPROC_PID K"

text \<open>Changing what is behind the reference to a process, under its lock.\<close>

definition lock_inner_with :: "nat \<Rightarrow> (process_inner \<Rightarrow> process_inner) \<Rightarrow> 'fa kernel \<Rightarrow> 'fa kernel option" where
  "lock_inner_with p f K = do {
     proc \<leftarrow> pm_get p K;
     Some (pm_add p (proc\<lparr>inner := f (inner proc)\<rparr>) K)
   }"

section \<open>Creation\<close>

definition process_name_from_args :: "bytes option \<Rightarrow> bytes list \<Rightarrow> bytes option" where
  "process_name_from_args path_fallback args =
     (case args of
        [] \<Rightarrow> path_fallback
      | [arg0] \<Rightarrow> Some arg0
      | arg0 # arg1 # _ \<Rightarrow> Some (arg0 @ 0x20 # arg1))"

definition start_context :: "hart_env \<Rightarrow> nat \<Rightarrow> nat \<Rightarrow> nat \<Rightarrow> nat \<Rightarrow> trap_context" where
  "start_context e entry sp argc argv =
     set_a1 argv (set_a0 argc (app_init_context (env_sstatus e) (env_tp e) entry sp))"

text \<open>
  \<open>loaded\<close> is the outcome of looking up and reading the file of the executable.
\<close>

definition from_path ::
  "'fa platform \<Rightarrow> (bytes \<Rightarrow> elf option) \<Rightarrow> hart_env \<Rightarrow> errno + bytes \<Rightarrow> bytes \<Rightarrow> bytes list \<Rightarrow> fd_table
     \<Rightarrow> 'fa kernel \<Rightarrow> ((errno + process) \<times> 'fa kernel) option" where
  "from_path P parse e loaded path args stdio K =
     (case loaded of
        Inl err \<Rightarrow> Some (Inl err, K)
      | Inr elf_data \<Rightarrow>
          (case parse elf_data of
             None \<Rightarrow> Some (Inl ENOEXEC, K)
           | Some elf \<Rightarrow> do {
               (ms, M) \<leftarrow> empty_user P (kernel_root K) (machine K);
               (r, ms, M) \<leftarrow> load_elf_sections P elf elf_data ms M;
               (case r of
                  Inl err \<Rightarrow> do {
                    M \<leftarrow> space_drop P ms M;
                    Some (Inl err, K\<lparr>machine := M\<rparr>)
                  }
                | Inr (elf_end, auxv, entry) \<Rightarrow> do {
                    nm \<leftarrow> process_name_from_args (Some path) args;
                    (sp, argv_base, ms, M) \<leftarrow> init_stack P (env_time1 e) (env_time2 e) 0 args [] auxv ms M;
                    let brk = page_start (vpn_ceil elf_end);
                    (t, ta) \<leftarrow> ra_alloc ra_new;
                    guard (t = 0);
                    (p, pa) \<leftarrow> ra_alloc (pid_allocator K);
                    Some (Inr \<lparr>pid = p, name = nm, wait4_event = 0, status = ps_normal, exit_signal = None,
                        inner = \<lparr>space = ms, heap_range = (brk, brk), parent = None, children = [],
                          cwd = root_dir K, fds = stdio, handlers = handlers_new, tid_allocator = ta,
                          threads = [(t, thread_new t (start_context e entry sp (length args) argv_base) 0)]\<rparr>\<rparr>,
                      K\<lparr>machine := M, pid_allocator := pa\<rparr>)
                  })
             }))"

definition init_process ::
  "'fa platform \<Rightarrow> (bytes \<Rightarrow> elf option) \<Rightarrow> hart_env \<Rightarrow> errno + bytes \<Rightarrow> bytes \<Rightarrow> fd_table \<Rightarrow> 'fa kernel
     \<Rightarrow> 'fa kernel option" where
  "init_process P parse e loaded path stdio K = do {
     (r, K) \<leftarrow> from_path P parse e loaded path [path] stdio K;
     (case r of
        Inl err \<Rightarrow> None
      | Inr proc \<Rightarrow> Some (pm_add INITPROC_PID proc K))
   }"

definition fork ::
  "'fa platform \<Rightarrow> (nat \<Rightarrow> (nat, ppn) btree) \<Rightarrow> nat \<Rightarrow> nat option \<Rightarrow> signal option \<Rightarrow> 'fa kernel
     \<Rightarrow> (nat \<times> 'fa kernel) option" where
  "fork P cache self stack exit_sig K = do {
     p \<leftarrow> pm_get self K;
     guard (length (threads (inner p)) = 1);
     t \<leftarrow> main_thread (inner p);
     let ctx = set_a0 0 (case stack of Some s \<Rightarrow> set_sp s (trap_ctx t) | None \<Rightarrow> trap_ctx t);
     (c, pa) \<leftarrow> ra_alloc (pid_allocator K);
     (ms, M) \<leftarrow> from_other P cache (kernel_root K) (space (inner p)) (machine K);
     let child = \<lparr>pid = c, name = name p, wait4_event = 0, status = status p, exit_signal = exit_sig,
        inner = (inner p)\<lparr>space := ms, parent := Some self, children := [],
          threads := [(tid t, thread_new (tid t) ctx (signal_mask (th_inner t)))]\<rparr>\<rparr>;
     let K = pm_add c child (K\<lparr>machine := M, pid_allocator := pa\<rparr>);
     K \<leftarrow> lock_inner_with self (\<lambda>i. i\<lparr>children := children i @ [c]\<rparr>) K;
     Some (c, K)
   }"

section \<open>Executing a program\<close>

definition exec ::
  "'fa platform \<Rightarrow> (bytes \<Rightarrow> elf option) \<Rightarrow> hart_env \<Rightarrow> nat \<Rightarrow> bytes \<Rightarrow> bytes list \<Rightarrow> bytes list \<Rightarrow> 'fa kernel
     \<Rightarrow> ((errno + unit) \<times> 'fa kernel) option" where
  "exec P parse e self elf_data args envs K =
     (case parse elf_data of
        None \<Rightarrow> Some (Inl ENOEXEC, K)
      | Some elf \<Rightarrow> do {
          p \<leftarrow> pm_get self K;
          let i = inner p;
          guard (length (threads i) = 1);
          guard (length (children i) = 0);
          (ms, M) \<leftarrow> recycle_user_pages P (space i) (machine K);
          (r, ms, M) \<leftarrow> load_elf_sections P elf elf_data ms M;
          (case r of
             Inl err \<Rightarrow> do {
               st \<leftarrow> exit_process (- 10) (status p);
               Some (Inl err, pm_add self (p\<lparr>status := st, inner := i\<lparr>space := ms\<rparr>\<rparr>) (K\<lparr>machine := M\<rparr>))
             }
           | Inr (elf_end, auxv, entry) \<Rightarrow> do {
               let brk = page_start (vpn_ceil elf_end);
               (sp, argv_base, ms, M) \<leftarrow> init_stack P (env_time1 e) (env_time2 e) 0 args envs auxv ms M;
               t \<leftarrow> main_thread i;
               let t = t\<lparr>trap_ctx := start_context e entry sp (length args) argv_base\<rparr>;
               let i = i\<lparr>space := ms, heap_range := (brk, brk), fds := close_on_exec (fds i),
                 handlers := handlers_new, threads := bt_insert 0 t (threads i)\<rparr>;
               let nm = (case process_name_from_args None args of None \<Rightarrow> name p | Some n \<Rightarrow> n);
               Some (Inr (), pm_add self (p\<lparr>name := nm, inner := i\<rparr>) (K\<lparr>machine := M\<rparr>))
             })
        })"

section \<open>Exit\<close>

text \<open>The children of a process that exits are handed to the first process.\<close>

fun adopt :: "nat list \<Rightarrow> 'fa kernel \<Rightarrow> 'fa kernel option" where
  "adopt [] K = Some K"
| "adopt (c # cs) K = do {
     K \<leftarrow> lock_inner_with c (\<lambda>i. i\<lparr>parent := Some INITPROC_PID\<rparr>) K;
     K \<leftarrow> lock_inner_with INITPROC_PID (\<lambda>i. i\<lparr>children := children i @ [c]\<rparr>) K;
     adopt cs K
   }"

definition notify_parent :: "nat option \<Rightarrow> signal option \<Rightarrow> 'fa kernel \<Rightarrow> 'fa kernel option" where
  "notify_parent par sig K =
     (case par of
        None \<Rightarrow> Some K
      | Some q \<Rightarrow> do {
          K \<leftarrow> (case sig of None \<Rightarrow> Some K | Some s \<Rightarrow> lock_inner_with q (receive_signal s) K);
          pp \<leftarrow> pm_get q K;
          Some (pm_add q (pp\<lparr>wait4_event := wait4_event pp + 1\<rparr>) K)
        })"

definition exit_thread :: "'fa platform \<Rightarrow> nat \<Rightarrow> nat \<Rightarrow> 'fa kernel \<Rightarrow> 'fa kernel option" where
  "exit_thread P self t K = do {
     p \<leftarrow> pm_get self K;
     let i = inner p;
     th \<leftarrow> bt_get (threads i) t;
     ta \<leftarrow> ra_dealloc t (tid_allocator i);
     (ms, M) \<leftarrow> dealloc_user_stack P t (space i) (machine K);
     let i = i\<lparr>threads := bt_remove t (threads i), tid_allocator := ta, space := ms\<rparr>;
     (if threads i \<noteq> [] then Some (pm_add self (p\<lparr>inner := i\<rparr>) (K\<lparr>machine := M\<rparr>))
      else do {
        (ms, M) \<leftarrow> recycle_user_pages P ms M;
        let cs = children i;
        let par = parent i;
        let code = (case ps_exit_code (status p) of Some c \<Rightarrow> c | None \<Rightarrow> exit_code th);
        let i = i\<lparr>cwd := root_dir K, space := ms, threads := [], tid_allocator := ra_release ta,
          children := [], parent := None\<rparr>;
        let K = pm_add self (p\<lparr>status := ps_zombie code, inner := i\<rparr>) (K\<lparr>machine := M\<rparr>);
        K \<leftarrow> (if self = INITPROC_PID
             then do { guard (length cs = 0); Some (K\<lparr>shutdown := True\<rparr>) }
             else do { q \<leftarrow> init_proc K; adopt cs K });
        notify_parent par (exit_signal p) K
      })
   }"

section \<open>System calls\<close>

definition sys_exit :: "nat \<Rightarrow> nat \<Rightarrow> 32 word \<Rightarrow> 'fa kernel \<Rightarrow> (errno \<times> 'fa kernel) option" where
  "sys_exit self t code K = do {
     p \<leftarrow> pm_get self K;
     th \<leftarrow> bt_get (threads (inner p)) t;
     K \<leftarrow> lock_inner_with self (\<lambda>i. i\<lparr>threads := bt_insert t (th\<lparr>exit_code := ucast (code AND 0xff)\<rparr>) (threads i)\<rparr>) K;
     Some (BREAK, K)
   }"

definition sys_exit_group :: "nat \<Rightarrow> 32 word \<Rightarrow> 'fa kernel \<Rightarrow> (errno \<times> 'fa kernel) option" where
  "sys_exit_group self code K = do {
     p \<leftarrow> pm_get self K;
     st \<leftarrow> exit_process (ucast (code AND 0xff)) (status p);
     Some (BREAK, pm_add self (p\<lparr>status := st\<rparr>) K)
   }"

definition sys_getpid :: "nat \<Rightarrow> 'fa kernel \<Rightarrow> nat option" where
  "sys_getpid self K = map_option pid (pm_get self K)"

definition sys_getppid :: "nat \<Rightarrow> 'fa kernel \<Rightarrow> nat option" where
  "sys_getppid self K = do {
     p \<leftarrow> pm_get self K;
     (case parent (inner p) of None \<Rightarrow> Some 0 | Some q \<Rightarrow> map_option pid (pm_get q K))
   }"

definition CLONE_VM :: "32 word" where "CLONE_VM = 0x100"
definition CLONE_FS :: "32 word" where "CLONE_FS = 0x200"
definition CLONE_FILES :: "32 word" where "CLONE_FILES = 0x400"
definition CLONE_SIGHAND :: "32 word" where "CLONE_SIGHAND = 0x800"
definition CLONE_THREAD :: "32 word" where "CLONE_THREAD = 0x10000"
definition CLONE_SYSVSEM :: "32 word" where "CLONE_SYSVSEM = 0x40000"
definition CLONE_SETTLS :: "32 word" where "CLONE_SETTLS = 0x80000"
definition CLONE_PARENT_SETTID :: "32 word" where "CLONE_PARENT_SETTID = 0x100000"
definition CLONE_CHILD_CLEARTID :: "32 word" where "CLONE_CHILD_CLEARTID = 0x200000"
definition CLONE_DETACHED :: "32 word" where "CLONE_DETACHED = 0x400000"

definition thread_flags :: "32 word" where
  "thread_flags = CLONE_VM OR CLONE_FS OR CLONE_FILES OR CLONE_SIGHAND OR CLONE_THREAD OR CLONE_SYSVSEM
     OR CLONE_SETTLS OR CLONE_PARENT_SETTID OR CLONE_CHILD_CLEARTID"

definition clone_flags_all :: "32 word" where
  "clone_flags_all = thread_flags OR CLONE_DETACHED"

text \<open>
  Creating a task: the identifier of the new process, whose main thread is then scheduled.
\<close>

definition sys_clone ::
  "'fa platform \<Rightarrow> (nat \<Rightarrow> (nat, ppn) btree) \<Rightarrow> nat \<Rightarrow> nat \<Rightarrow> nat \<Rightarrow> 'fa kernel \<Rightarrow> ((errno + nat) \<times> 'fa kernel) option" where
  "sys_clone P cache self flags user_stack K =
     (if 2 ^ 32 \<le> flags then Some (Inl UNSUPPORTED, K)
      else let fl = (word_of_nat flags :: 32 word); cf = fl AND NOT 0xff; sn = unat (fl AND 0xff) in
        if cf AND NOT clone_flags_all \<noteq> 0 then Some (Inl UNSUPPORTED, K)
        else if has_flag cf CLONE_THREAD then do {
          guard (has_flag cf thread_flags);
          (if sn \<noteq> 0 then Some (Inl EINVAL, K) else None)
        }
        else do {
          guard (cf AND thread_flags = 0);
          (case (if sn = 0 then Inr None
                 else (case sig_from_user sn of
                     None \<Rightarrow> Inl (Some UNSUPPORTED)
                   | Some s \<Rightarrow> if s \<noteq> SIGCHLD then Inl None else Inr (Some s))) of
             Inl None \<Rightarrow> None
           | Inl (Some err) \<Rightarrow> Some (Inl err, K)
           | Inr sig \<Rightarrow> do {
               (c, K) \<leftarrow> fork P cache self (if user_stack = 0 then None else Some user_stack) sig K;
               child \<leftarrow> pm_get c K;
               t \<leftarrow> main_thread (inner child);
               Some (Inr c, K)
             })
        })"

definition WNOHANG :: "32 word" where "WNOHANG = 1"
definition WIMTRACED :: "32 word" where "WIMTRACED = 2"
definition WCONTINUED :: "32 word" where "WCONTINUED = 8"

text \<open>
  The search of \<^verbatim>\<open>sys_wait4\<close> through the children: whether one has the wanted identifier, and
  the index of the last of them that is a zombie.
\<close>

fun scan_children :: "int \<Rightarrow> nat \<Rightarrow> nat list \<Rightarrow> bool \<times> nat option \<Rightarrow> 'fa kernel \<Rightarrow> (bool \<times> nat option) option" where
  "scan_children wanted idx [] acc K = Some acc"
| "scan_children wanted idx (c # cs) acc K = do {
     cp \<leftarrow> pm_get c K;
     scan_children wanted (Suc idx) cs
       (if wanted = -1 \<or> pid cp = nat wanted
        then (True, if is_zombie (status cp) then Some idx else snd acc) else acc) K
   }"

definition remove_at :: "nat \<Rightarrow> 'a list \<Rightarrow> 'a list" where
  "remove_at n xs = take n xs @ drop (Suc n) xs"

text \<open>
  One round of the loop of \<^verbatim>\<open>sys_wait4\<close>.  The result is None when the thread has to wait for
  the event; the number written for the caller is part of the result, and whether the address
  for it passes its check is an argument.  The memory and the identifier of the child are given
  back here, where the code does it when the last pointer to the process is dropped.
\<close>

definition wait4_round ::
  "'fa platform \<Rightarrow> nat \<Rightarrow> int \<Rightarrow> unit res option \<Rightarrow> 32 word \<Rightarrow> 'fa kernel
     \<Rightarrow> (nat res option \<times> 32 word option \<times> 'fa kernel) option" where
  "wait4_round P self wanted wstatus options K = do {
     p \<leftarrow> pm_get self K;
     (has_proper_child, child_index) \<leftarrow> scan_children wanted 0 (children (inner p)) (False, None) K;
     (if \<not> has_proper_child then Some (Some (Err ECHILD), None, K)
      else (case child_index of
          Some n \<Rightarrow> do {
            let c = children (inner p) ! n;
            K \<leftarrow> lock_inner_with self (\<lambda>i. i\<lparr>children := remove_at n (children i)\<rparr>) K;
            cp \<leftarrow> pm_get c K;
            let K = pm_remove c K;
            code \<leftarrow> ps_exit_code (status cp);
            pa \<leftarrow> ra_dealloc (pid cp) (pid_allocator K);
            M \<leftarrow> space_drop P (space (inner cp)) (machine K);
            let K = K\<lparr>machine := M, pid_allocator := pa\<rparr>;
            Some (case wstatus of
                None \<Rightarrow> (Some (Ok (pid cp)), None, K)
              | Some (Inl e) \<Rightarrow> (Some (Inl e), None, K)
              | Some (Inr _) \<Rightarrow> (Some (Ok (pid cp)), Some (push_bit 8 (ucast code)), K))
          }
        | None \<Rightarrow> if has_flag options WNOHANG then Some (Some (Ok 0), None, K) else Some (None, None, K)))
   }"

definition sys_wait4 ::
  "'fa platform \<Rightarrow> nat \<Rightarrow> int \<Rightarrow> unit res option \<Rightarrow> nat \<Rightarrow> nat \<Rightarrow> 'fa kernel
     \<Rightarrow> (nat res option \<times> 32 word option \<times> 'fa kernel) option" where
  "sys_wait4 P self wanted wstatus options rusage K = do {
     guard (wanted = -1 \<or> 0 < wanted);
     guard (rusage = 0);
     let fl = (word_of_nat options :: 32 word);
     (if fl AND NOT (WNOHANG OR WIMTRACED OR WCONTINUED) \<noteq> 0 then Some (Some (Err EINVAL), None, K)
      else wait4_round P self wanted wstatus fl K)
   }"

definition sys_set_tid_address :: "nat \<Rightarrow> nat \<Rightarrow> nat \<Rightarrow> 'fa kernel \<Rightarrow> (nat \<times> 'fa kernel) option" where
  "sys_set_tid_address self t ptr K = do {
     p \<leftarrow> pm_get self K;
     th \<leftarrow> bt_get (threads (inner p)) t;
     K \<leftarrow> lock_inner_with self (\<lambda>i. i\<lparr>threads := bt_insert t (th\<lparr>clear_child_tid := ptr\<rparr>) (threads i)\<rparr>) K;
     Some (tid th, K)
   }"

definition sys_setpgid :: "nat \<Rightarrow> nat \<Rightarrow> nat" where "sys_setpgid p pgid = INITPROC_PID"
definition sys_getpgid :: "nat \<Rightarrow> nat" where "sys_getpgid p = INITPROC_PID"

definition sys_gettid :: "nat \<Rightarrow> nat \<Rightarrow> 'fa kernel \<Rightarrow> nat option" where
  "sys_gettid self t K = do { p \<leftarrow> pm_get self K; map_option tid (bt_get (threads (inner p)) t) }"

end
