(* ===== verification/ProcessTree.thy ===== *)
theory ProcessTree
  imports Process
begin

text \<open>
  The tree of the processes.  An abstract tree gives each process its children, its parent
  and whether it is a zombie; forking, exiting and waiting are three operations on it.  The
  kernel's operations implement them, and every kernel state that is reached from the start
  of the first process is a tree whose nodes are the identifiers in use.
\<close>

section \<open>Abstract trees\<close>

record node =
  n_children :: "nat list"
  n_parent :: "nat option"
  n_zombie :: bool

type_synonym tree = "nat \<rightharpoonup> node"

definition edge :: "tree \<Rightarrow> nat \<Rightarrow> nat \<Rightarrow> bool" where
  "edge t p c \<longleftrightarrow> (\<exists>n. t p = Some n \<and> c \<in> set (n_children n))"

text \<open>
  The first process has no parent and is nobody's child; a child is the child of one process
  only and names it as its parent, unless it is a zombie that has already dropped the
  reference; and everyone descends from the first process.
\<close>

definition tree_wf :: "tree \<Rightarrow> bool" where
  "tree_wf t \<longleftrightarrow>
     (\<exists>n. t 1 = Some n \<and> n_parent n = None)
   \<and> (\<forall>p n. t p = Some n \<longrightarrow> distinct (n_children n) \<and> (n_zombie n \<longrightarrow> n_children n = []))
   \<and> (\<forall>p c. edge t p c \<longrightarrow> c \<noteq> 1 \<and> (\<exists>m. t c = Some m \<and> (n_parent m = Some p \<or> n_zombie m \<and> n_parent m = None)))
   \<and> (\<forall>c m p. t c = Some m \<longrightarrow> n_parent m = Some p \<longrightarrow> edge t p c)
   \<and> (\<forall>p p' c. edge t p c \<longrightarrow> edge t p' c \<longrightarrow> p = p')
   \<and> (\<forall>c m. t c = Some m \<longrightarrow> (edge t)\<^sup>*\<^sup>* 1 c)"

lemma tree_wfD:
  assumes "tree_wf t"
  shows "\<exists>n. t 1 = Some n \<and> n_parent n = None"
    "t p = Some n \<Longrightarrow> distinct (n_children n)" "t p = Some n \<Longrightarrow> n_zombie n \<Longrightarrow> n_children n = []"
    "edge t p c \<Longrightarrow> c \<noteq> 1"
    "edge t p c \<Longrightarrow> \<exists>m. t c = Some m \<and> (n_parent m = Some p \<or> n_zombie m \<and> n_parent m = None)"
    "t c = Some m \<Longrightarrow> n_parent m = Some p \<Longrightarrow> edge t p c"
    "edge t p c \<Longrightarrow> edge t p' c \<Longrightarrow> p = p'"
    "t c = Some m \<Longrightarrow> (edge t)\<^sup>*\<^sup>* 1 c"
  using assms unfolding tree_wf_def by blast+

definition t_fork :: "nat \<Rightarrow> nat \<Rightarrow> tree \<Rightarrow> tree" where
  "t_fork self c t = (case t self of
     None \<Rightarrow> t
   | Some n \<Rightarrow> t(c \<mapsto> \<lparr>n_children = [], n_parent = Some self, n_zombie = False\<rparr>,
       self \<mapsto> n\<lparr>n_children := n_children n @ [c]\<rparr>))"

definition t_exit :: "nat \<Rightarrow> tree \<Rightarrow> tree" where
  "t_exit self t = (case t self of
     None \<Rightarrow> t
   | Some n \<Rightarrow> (\<lambda>x.
       if x = self then Some \<lparr>n_children = [], n_parent = None, n_zombie = True\<rparr>
       else map_option (\<lambda>m. m\<lparr>n_children := (if x = 1 then n_children m @ n_children n else n_children m),
         n_parent := (if x \<in> set (n_children n) then Some 1 else n_parent m)\<rparr>) (t x)))"

definition t_reap :: "nat \<Rightarrow> nat \<Rightarrow> tree \<Rightarrow> tree" where
  "t_reap p c t = (case t p of
     None \<Rightarrow> t
   | Some n \<Rightarrow> t(p \<mapsto> n\<lparr>n_children := remove1 c (n_children n)\<rparr>, c := None))"

lemma edge_fork:
  assumes "t self = Some n" "t c = None" "self \<noteq> c"
  shows "edge (t_fork self c t) p x \<longleftrightarrow> edge t p x \<or> (p = self \<and> x = c)"
  using assms by (auto simp: edge_def t_fork_def)

lemma rtranclp_sub: "R\<^sup>*\<^sup>* x y \<Longrightarrow> (\<And>p c. R p c \<Longrightarrow> S p c) \<Longrightarrow> S\<^sup>*\<^sup>* x y"
  by (induction rule: rtranclp_induct) (auto intro: rtranclp.rtrancl_into_rtrancl)

lemma t_fork_wf:
  assumes wf: "tree_wf t" and self: "t self = Some n" "\<not> n_zombie n" and c: "t c = None"
  shows "tree_wf (t_fork self c t)"
proof -
  note d = tree_wfD [OF wf]
  have ne: "self \<noteq> c" "c \<noteq> 1" using self(1) c d(1) by auto
  note ed = edge_fork [OF self(1) c ne(1)]
  have nc: "\<not> edge t p c" "\<not> edge t c x" for p x using d(5) [of p c] c by (auto simp: edge_def)
  have val: "t_fork self c t x = (if x = self then Some (n\<lparr>n_children := n_children n @ [c]\<rparr>)
      else if x = c then Some \<lparr>n_children = [], n_parent = Some self, n_zombie = False\<rparr> else t x)" for x
    using self(1) ne(1) by (simp add: t_fork_def)
  have cn: "c \<notin> set (n_children n)" using nc(1) [of self] self(1) by (auto simp: edge_def)
  show ?thesis
    unfolding tree_wf_def ed
  proof (intro conjI allI impI)
    show "\<exists>n. t_fork self c t 1 = Some n \<and> n_parent n = None"
      using d(1) ne self(1) by (auto simp: val)
    fix p m assume m: "t_fork self c t p = Some m"
    show "distinct (n_children m)" using m d(2) [of p] d(2) [OF self(1)] cn by (auto simp: val split: if_splits)
    show "n_children m = []" if "n_zombie m" using m that d(3) [of p] self(2) by (auto simp: val split: if_splits)
    show "(\<lambda>p c'. edge t p c' \<or> p = self \<and> c' = c)\<^sup>*\<^sup>* 1 p"
    proof (cases "p = c")
      case True
      have "(\<lambda>p c'. edge t p c' \<or> p = self \<and> c' = c)\<^sup>*\<^sup>* 1 self" using d(8) [OF self(1)] by (rule rtranclp_sub) blast
      then show ?thesis using True by (auto intro: rtranclp.rtrancl_into_rtrancl)
    next
      case False
      then obtain m' where "t p = Some m'" using m self(1) by (auto simp: val split: if_splits)
      then have "(edge t)\<^sup>*\<^sup>* 1 p" using d(8) by blast
      then show ?thesis by (rule rtranclp_sub) blast
    qed
    fix q assume q: "n_parent m = Some q"
    show "edge t q p \<or> q = self \<and> p = c"
      using m q d(6) [of p _ q] d(6) [OF self(1), of q] by (auto simp: val split: if_splits)
  next
    fix p x assume e: "edge t p x \<or> p = self \<and> x = c"
    show "x \<noteq> 1" using e d(4) ne(2) by blast
    show "\<exists>m. t_fork self c t x = Some m \<and> (n_parent m = Some p \<or> n_zombie m \<and> n_parent m = None)"
      using e d(5) [of p x] ne(1) self(1) nc(1) by (auto simp: val)
    fix p' assume "edge t p' x \<or> p' = self \<and> x = c"
    then show "p = p'" using e d(7) nc(1) by blast
  qed
qed

lemma edge_exit:
  assumes "t self = Some n" "self \<noteq> 1" "t 1 = Some r"
  shows "edge (t_exit self t) p x \<longleftrightarrow> p \<noteq> self \<and> (edge t p x \<or> (p = 1 \<and> edge t self x))"
proof -
  consider "p = self" | "p = 1" "p \<noteq> self" | "p \<noteq> 1" "p \<noteq> self" by blast
  then show ?thesis
  proof cases
    case 1
    then show ?thesis using assms(1) by (simp add: edge_def t_exit_def)
  next
    case 2
    then show ?thesis using assms by (auto simp: edge_def t_exit_def)
  next
    case 3
    then show ?thesis using assms(1) by (cases "t p") (auto simp: edge_def t_exit_def)
  qed
qed

lemma no_self_edge:
  assumes wf: "tree_wf t"
  shows "\<not> edge t x x"
proof
  note d = tree_wfD [OF wf]
  assume e: "edge t x x"
  obtain n where "t x = Some n" using e by (auto simp: edge_def)
  then have "(edge t)\<^sup>*\<^sup>* 1 x" using d(8) by blast
  moreover have "y \<noteq> x" if "(edge t)\<^sup>*\<^sup>* 1 y" for y
    using that
  proof (induction rule: rtranclp_induct)
    case base
    show ?case using d(4) [OF e] by simp
  next
    case (step y z)
    show ?case
    proof
      assume "z = x"
      then have "y = x" using d(7) step.hyps(2) e by blast
      then show False using step.IH by simp
    qed
  qed
  ultimately show False by blast
qed

lemma t_exit_wf:
  assumes wf: "tree_wf t" and self: "t self = Some n" and one: "self = 1 \<Longrightarrow> n_children n = []"
  shows "tree_wf (t_exit self t)"
proof (cases "self = 1")
  case True
  have val: "t_exit self t = t(self \<mapsto> \<lparr>n_children = [], n_parent = None, n_zombie = True\<rparr>)"
    using self one [OF True] by (auto simp: t_exit_def True fun_eq_iff map_option_case split: option.splits)
  note d = tree_wfD [OF wf]
  have n: "n_parent n = None" using d(1) self True by simp
  have ed: "edge (t_exit self t) = edge t" using self one [OF True] by (auto simp: edge_def val fun_eq_iff)
  show ?thesis
    unfolding tree_wf_def ed
  proof (intro conjI allI impI)
    show "\<exists>n. t_exit self t 1 = Some n \<and> n_parent n = None" unfolding val using True by simp
    fix p m assume m: "t_exit self t p = Some m"
    show "distinct (n_children m)" "n_zombie m \<Longrightarrow> n_children m = []"
      using m d(2,3) [of p] by (auto simp: val split: if_splits)
    show "(edge t)\<^sup>*\<^sup>* 1 p" using m d(8) [of p] self by (auto simp: val split: if_splits)
    fix q assume "n_parent m = Some q"
    then show "edge t q p" using m d(6) [of p _ q] by (auto simp: val split: if_splits)
  next
    fix p x assume e: "edge t p x"
    show "x \<noteq> 1" using d(4) [OF e] .
    show "\<exists>m. t_exit self t x = Some m \<and> (n_parent m = Some p \<or> n_zombie m \<and> n_parent m = None)"
      unfolding val using d(5) [OF e] d(4) [OF e] True by auto
    fix p' assume "edge t p' x"
    then show "p = p'" using d(7) e by blast
  qed
next
  case False
  note d = tree_wfD [OF wf]
  obtain r where r: "t 1 = Some r" "n_parent r = None" using d(1) by blast
  note ed = edge_exit [OF self False r(1)]
  have val: "t_exit self t x = (if x = self then Some \<lparr>n_children = [], n_parent = None, n_zombie = True\<rparr>
       else map_option (\<lambda>m. m\<lparr>n_children := (if x = 1 then n_children m @ n_children n else n_children m),
         n_parent := (if edge t self x then Some 1 else n_parent m)\<rparr>) (t x))" for x
    using self by (simp add: t_exit_def edge_def)
  have selfe: "\<not> edge t self self" using no_self_edge [OF wf] .
  have reach: "(\<lambda>p x. p \<noteq> self \<and> (edge t p x \<or> p = 1 \<and> edge t self x))\<^sup>*\<^sup>* 1 c" if "(edge t)\<^sup>*\<^sup>* 1 c" for c
    using that
  proof (induction rule: rtranclp_induct)
    case (step y z)
    let ?e = "\<lambda>p x. p \<noteq> self \<and> (edge t p x \<or> p = 1 \<and> edge t self x)"
    show ?case
    proof (cases "y = self")
      case True
      then have "?e 1 z" using step.hyps(2) False by simp
      then show ?thesis by (rule r_into_rtranclp)
    next
      case False
      then show ?thesis using step by (auto intro: rtranclp.rtrancl_into_rtrancl)
    qed
  qed simp
  show ?thesis
    unfolding tree_wf_def ed
  proof (intro conjI allI impI)
    show "\<exists>n. t_exit self t 1 = Some n \<and> n_parent n = None"
      using r False d(4) by (auto simp: val)
    fix p m assume m: "t_exit self t p = Some m"
    show "distinct (n_children m)"
    proof (cases "p = 1")
      case True
      have "set (n_children r) \<inter> set (n_children n) = {}"
        using d(7) [of 1 _ self] r(1) self False by (auto simp: edge_def)
      then show ?thesis using m True False r(1) d(2) [OF r(1)] d(2) [OF self] by (auto simp: val)
    next
      case False
      then show ?thesis using m d(2) [of p] by (auto simp: val split: if_splits)
    qed
    show "n_children m = []" if z: "n_zombie m"
    proof (cases "p = 1")
      case True
      then have rz: "n_zombie r" using m z False r(1) by (auto simp: val)
      then have "n_children r = []" using d(3) [OF r(1)] by blast
      moreover have "\<not> (edge t)\<^sup>*\<^sup>* 1 self"
      proof
        assume "(edge t)\<^sup>*\<^sup>* 1 self"
        then obtain y where "edge t 1 y" using False by (metis converse_rtranclpE)
        then show False using \<open>n_children r = []\<close> r(1) by (simp add: edge_def)
      qed
      ultimately show ?thesis using d(8) [OF self] by blast
    next
      case False
      then show ?thesis using m z d(3) [of p] by (auto simp: val split: if_splits)
    qed
    obtain m' where "t p = Some m'" using m self by (auto simp: val split: if_splits)
    then show "(\<lambda>p x. p \<noteq> self \<and> (edge t p x \<or> p = 1 \<and> edge t self x))\<^sup>*\<^sup>* 1 p" using reach d(8) by blast
    fix q assume q: "n_parent m = Some q"
    then have ps: "p \<noteq> self" using m by (auto simp: val)
    show "q \<noteq> self"
    proof
      assume qs: "q = self"
      then have "\<not> edge t self p" using m q ps False by (auto simp: val)
      moreover from this have "edge t self p" using m q ps qs d(6) [of p _ self] by (auto simp: val)
      ultimately show False by simp
    qed
    show "edge t q p \<or> q = 1 \<and> edge t self p"
      using m q ps d(6) [of p _ q] by (auto simp: val split: if_splits)
  next
    fix p x assume e: "p \<noteq> self \<and> (edge t p x \<or> p = 1 \<and> edge t self x)"
    show "x \<noteq> 1" using e d(4) by blast
    show "\<exists>m. t_exit self t x = Some m \<and> (n_parent m = Some p \<or> n_zombie m \<and> n_parent m = None)"
    proof (cases "edge t self x")
      case True
      then have "x \<noteq> self" using selfe by blast
      moreover have "p = 1" using e True d(7) by blast
      moreover obtain m where "t x = Some m" using d(5) [OF True] by blast
      ultimately show ?thesis using True by (simp add: val)
    next
      case False
      then obtain m where "t x = Some m" "n_parent m = Some p \<or> n_zombie m \<and> n_parent m = None"
        using e d(5) by blast
      then show ?thesis using False by (auto simp: val)
    qed
    fix p' assume "p' \<noteq> self \<and> (edge t p' x \<or> p' = 1 \<and> edge t self x)"
    then show "p = p'" using e d(7) by blast
  qed
qed

lemma t_reap_wf:
  assumes wf: "tree_wf t" and e: "edge t p c" and z: "t c = Some m" "n_zombie m"
  shows "tree_wf (t_reap p c t)"
proof -
  note d = tree_wfD [OF wf]
  obtain n where n: "t p = Some n" "c \<in> set (n_children n)" using e by (auto simp: edge_def)
  have leaf: "n_children m = []" "\<not> edge t c x" for x using d(3) [OF z] z(1) by (auto simp: edge_def)
  have ne: "p \<noteq> c" "c \<noteq> 1" using n leaf(1) z(1) d(4) [OF e] by auto
  have val: "t_reap p c t x = (if x = c then None else if x = p then Some (n\<lparr>n_children := remove1 c (n_children n)\<rparr>) else t x)" for x
    using n(1) by (simp add: t_reap_def)
  have ed: "edge (t_reap p c t) q x \<longleftrightarrow> edge t q x \<and> x \<noteq> c" for q x
  proof (cases "q = p")
    case True
    then show ?thesis using n ne(1) d(2) [OF n(1)] by (auto simp: edge_def val)
  next
    case False
    then have "\<not> edge t q c" using d(7) [OF e, of q] by blast
    then show ?thesis using False leaf(2) by (cases "q = c") (auto simp: edge_def val)
  qed
  show ?thesis
    unfolding tree_wf_def ed
  proof (intro conjI allI impI)
    show "\<exists>n. t_reap p c t 1 = Some n \<and> n_parent n = None" using d(1) ne n(1) by (auto simp: val)
    fix q k assume k: "t_reap p c t q = Some k"
    then have qc: "q \<noteq> c" by (auto simp: val)
    show "distinct (n_children k)" "n_zombie k \<Longrightarrow> n_children k = []"
      using k d(2,3) [of q] d(2,3) [OF n(1)] by (auto simp: val split: if_splits)
    have "(edge t)\<^sup>*\<^sup>* 1 q" using k n(1) d(8) [of q] by (auto simp: val split: if_splits)
    then show "(\<lambda>q x. edge t q x \<and> x \<noteq> c)\<^sup>*\<^sup>* 1 q" using qc
    proof (induction rule: rtranclp_induct)
      case (step y w)
      then have "y \<noteq> c" using leaf(2) by blast
      then show ?case using step by (auto intro: rtranclp.rtrancl_into_rtrancl)
    qed simp
    fix u assume u: "n_parent k = Some u"
    show "edge t u q" using k u d(6) [of q _ u] d(6) [OF n(1), of u] by (auto simp: val split: if_splits)
    show "q \<noteq> c" by (rule qc)
  next
    fix q x assume ee: "edge t q x \<and> x \<noteq> c"
    show "x \<noteq> 1" using ee d(4) by blast
    show "\<exists>m. t_reap p c t x = Some m \<and> (n_parent m = Some q \<or> n_zombie m \<and> n_parent m = None)"
      using ee d(5) [of q x] n(1) by (auto simp: val)
    fix q' assume "edge t q' x \<and> x \<noteq> c"
    then show "q = q'" using ee d(7) by blast
  qed
qed

section \<open>The tree of a kernel state\<close>

definition node_of :: "process \<Rightarrow> node" where
  "node_of p = \<lparr>n_children = children (inner p), n_parent = parent (inner p), n_zombie = is_zombie (status p)\<rparr>"

definition tree_of :: "'fa kernel \<Rightarrow> tree" where
  "tree_of K = (\<lambda>p. map_option node_of (pm_get p K))"

text \<open>
  A process has its key as its identifier, its threads have theirs, exactly the zombies have
  no threads, and the thread identifiers in use are those of the threads.
\<close>

definition proc_ok :: "nat \<Rightarrow> process \<Rightarrow> bool" where
  "proc_ok p q \<longleftrightarrow> pid q = p \<and> bt_inv (threads (inner q)) \<and> (\<forall>(k, t)\<in>set (threads (inner q)). tid t = k)
   \<and> (is_zombie (status q) \<longleftrightarrow> threads (inner q) = [])
   \<and> (threads (inner q) \<noteq> [] \<longrightarrow> ra_inv 0 (fst ` set (threads (inner q))) (tid_allocator (inner q)))"

definition kernel_ok :: "'fa kernel \<Rightarrow> bool" where
  "kernel_ok K \<longleftrightarrow> bt_inv (manager K) \<and> ra_inv 1 (dom (tree_of K)) (pid_allocator K)
   \<and> (\<forall>p q. pm_get p K = Some q \<longrightarrow> proc_ok p q) \<and> tree_wf (tree_of K)"

lemma kernel_okD:
  assumes "kernel_ok K"
  shows "bt_inv (manager K)" "ra_inv 1 (dom (tree_of K)) (pid_allocator K)"
    "pm_get p K = Some q \<Longrightarrow> proc_ok p q" "tree_wf (tree_of K)"
  using assms by (simp_all add: kernel_ok_def)

lemma pm_get_simps [simp]:
  "pm_get p (pm_add q x K) = (if p = q then Some x else pm_get p K)"
  "pm_get p (K\<lparr>machine := M\<rparr>) = pm_get p K" "pm_get p (K\<lparr>pid_allocator := a\<rparr>) = pm_get p K"
  "pm_get p (K\<lparr>shutdown := b\<rparr>) = pm_get p K"
  by (simp_all add: pm_get_def pm_add_def)

lemma pm_get_remove: "bt_inv (manager K) \<Longrightarrow> pm_get p (pm_remove q K) = (if p = q then None else pm_get p K)"
  by (simp add: pm_get_def pm_remove_def bt_get_remove)

lemma pm_fields [simp]:
  "machine (pm_add q x K) = machine K" "pid_allocator (pm_add q x K) = pid_allocator K"
  "shutdown (pm_add q x K) = shutdown K" "kernel_root (pm_add q x K) = kernel_root K" "root_dir (pm_add q x K) = root_dir K"
  "machine (pm_remove q K) = machine K" "pid_allocator (pm_remove q K) = pid_allocator K"
  "shutdown (pm_remove q K) = shutdown K" "kernel_root (pm_remove q K) = kernel_root K" "root_dir (pm_remove q K) = root_dir K"
  by (simp_all add: pm_add_def pm_remove_def)

lemma pm_add_inv [simp]: "bt_inv (manager K) \<Longrightarrow> bt_inv (manager (pm_add q x K))"
  by (simp add: pm_add_def bt_insert_inv)

lemma pm_remove_inv [simp]: "bt_inv (manager K) \<Longrightarrow> bt_inv (manager (pm_remove q K))"
  by (simp add: pm_remove_def bt_remove_inv)

lemma tree_of_simps [simp]:
  "tree_of (pm_add p q K) = (tree_of K)(p \<mapsto> node_of q)"
  "tree_of (K\<lparr>machine := M\<rparr>) = tree_of K" "tree_of (K\<lparr>pid_allocator := a\<rparr>) = tree_of K"
  "tree_of (K\<lparr>shutdown := b\<rparr>) = tree_of K"
  by (auto simp: tree_of_def fun_eq_iff)

lemma tree_of_Some: "pm_get p K = Some q \<Longrightarrow> tree_of K p = Some (node_of q)"
  by (simp add: tree_of_def)

lemma tree_of_SomeD: "tree_of K p = Some n \<Longrightarrow> \<exists>q. pm_get p K = Some q \<and> n = node_of q"
  by (auto simp: tree_of_def)

lemma lock_inner_with_Some:
  "pm_get p K = Some q \<Longrightarrow> lock_inner_with p f K = Some (pm_add p (q\<lparr>inner := f (inner q)\<rparr>) K)"
  by (simp add: lock_inner_with_def)

text \<open>Replacing a process by one with the same place in the tree.\<close>

lemma kernel_ok_update:
  assumes ok: "kernel_ok K" and p: "pm_get p K = Some q" and q': "proc_ok p q'" "node_of q' = node_of q"
  shows "kernel_ok (pm_add p q' K)" "tree_of (pm_add p q' K) = tree_of K"
proof -
  show t: "tree_of (pm_add p q' K) = tree_of K" using tree_of_Some [OF p] q'(2) by (simp add: fun_upd_idem)
  have "bt_inv (manager (pm_add p q' K))" using ok by (simp add: kernel_ok_def)
  then show "kernel_ok (pm_add p q' K)"
    using ok q'(1) unfolding kernel_ok_def t by simp
qed

lemma kernel_ok_fields [simp]:
  "kernel_ok (K\<lparr>machine := M\<rparr>) = kernel_ok K" "kernel_ok (K\<lparr>shutdown := b\<rparr>) = kernel_ok K"
  by (simp_all add: kernel_ok_def)

section \<open>Fork\<close>

lemma ps_not_zombie [simp]: "\<not> is_zombie (ps_exited c)" "\<not> is_zombie ps_normal" "is_zombie (ps_zombie c)"
  using ps_facts [of c] by simp_all

lemma fork_tree:
  assumes ok: "kernel_ok K" and f: "fork P cache self stack sig K = Some (c, K')"
  shows "pm_get c K = None" "kernel_ok K'" "tree_of K' = t_fork self c (tree_of K)"
    "dom (tree_of K') = insert c (dom (tree_of K))"
proof -
  obtain p t pa ms M where p: "pm_get self K = Some p" and th: "length (threads (inner p)) = 1"
    and t: "main_thread (inner p) = Some t" and ra: "ra_alloc (pid_allocator K) = Some (c, pa)"
    and fo: "from_other P cache (kernel_root K) (space (inner p)) (machine K) = Some (ms, M)"
    using f by (auto simp: fork_def bind_eq_Some_conv Let_def split: if_splits)
  define ctx where "ctx = set_a0 0 (case stack of Some s \<Rightarrow> set_sp s (trap_ctx t) | None \<Rightarrow> trap_ctx t)"
  define child where "child = \<lparr>pid = c, name = name p, wait4_event = 0, status = status p, exit_signal = sig,
        inner = (inner p)\<lparr>space := ms, parent := Some self, children := [],
          threads := [(tid t, thread_new (tid t) ctx (signal_mask (th_inner t)))]\<rparr>\<rparr>"
  define K1 where "K1 = pm_add c child (K\<lparr>machine := M, pid_allocator := pa\<rparr>)"
  note d = kernel_okD [OF ok]
  have self: "self \<in> dom (tree_of K)" using tree_of_Some [OF p] by blast
  note al = ra_alloc_inv [OF d(2) ra]
  have ne: "self \<noteq> c" using al(1) self by blast
  have g1: "pm_get self K1 = Some p" using p ne by (simp add: K1_def)
  define p' where "p' = p\<lparr>inner := (inner p)\<lparr>children := children (inner p) @ [c]\<rparr>\<rparr>"
  have K': "K' = pm_add self p' K1"
    using f lock_inner_with_Some [OF g1, of "\<lambda>i. i\<lparr>children := children i @ [c]\<rparr>"]
    by (simp add: fork_def p th [simplified] t ra fo Let_def child_def ctx_def K1_def p'_def)
  show none: "pm_get c K = None" using al(1) by (auto simp: tree_of_def dom_def)
  have pok: "proc_ok self p" using d(3) [OF p] .
  have tin: "(0, t) \<in> set (threads (inner p))" using t pok by (simp add: main_thread_def proc_ok_def bt_get_in)
  then have tl: "threads (inner p) = [(0, t)]" using th by (cases "threads (inner p)") auto
  then have t0: "tid t = 0" "\<not> is_zombie (status p)" using pok by (simp_all add: proc_ok_def)
  have cok: "proc_ok c child" using pok tl t0 by (simp add: proc_ok_def child_def thread_new_def bt_inv_Cons)
  have pok': "proc_ok self p'" using pok by (simp add: proc_ok_def p'_def)
  have nc: "node_of child = \<lparr>n_children = [], n_parent = Some self, n_zombie = False\<rparr>"
    using t0(2) by (simp add: node_of_def child_def)
  have np: "node_of p' = (node_of p)\<lparr>n_children := n_children (node_of p) @ [c]\<rparr>"
    by (simp add: node_of_def p'_def)
  have t1: "tree_of K' = (tree_of K)(c \<mapsto> node_of child, self \<mapsto> node_of p')"
    by (simp add: K' K1_def)
  show tr: "tree_of K' = t_fork self c (tree_of K)"
    unfolding t1 nc np by (simp add: t_fork_def tree_of_Some [OF p])
  show dm: "dom (tree_of K') = insert c (dom (tree_of K))" unfolding t1 using self by auto
  have "tree_wf (tree_of K')"
    unfolding tr using t_fork_wf [OF d(4) tree_of_Some [OF p]] t0(2) none by (simp add: node_of_def tree_of_def)
  moreover have "ra_inv 1 (dom (tree_of K')) (pid_allocator K')" using al(3) by (simp add: dm) (simp add: K' K1_def)
  moreover have "bt_inv (manager K')" using d(1) by (simp add: K' K1_def)
  moreover have "proc_ok x q" if "pm_get x K' = Some q" for x q
    using that d(3) [of x q] cok pok' by (auto simp: K' K1_def split: if_splits)
  ultimately show "kernel_ok K'" by (simp add: kernel_ok_def)
qed

section \<open>Exit\<close>

lemma give_signal_keys [simp]: "map fst (give_signal s ts) = map fst ts"
  by (induction ts rule: give_signal.induct) auto

lemma give_signal_tids: "\<forall>(k, t)\<in>set ts. tid t = k \<Longrightarrow> \<forall>(k, t)\<in>set (give_signal s ts). tid t = k"
  by (induction ts rule: give_signal.induct) (auto simp: add_pending_def)

lemma proc_ok_notified:
  assumes "proc_ok p q"
  shows "proc_ok p (q\<lparr>inner := receive_signal s (inner q)\<rparr>)" "proc_ok p (q\<lparr>wait4_event := n\<rparr>)"
proof -
  have k: "fst ` set (give_signal s (threads (inner q))) = fst ` set (threads (inner q))"
    by (metis give_signal_keys image_set)
  have "give_signal s (threads (inner q)) = [] \<longleftrightarrow> threads (inner q) = []"
    by (metis give_signal_keys map_is_Nil_conv)
  then show "proc_ok p (q\<lparr>inner := receive_signal s (inner q)\<rparr>)"
    using assms give_signal_tids [of "threads (inner q)" s] k
    by (simp add: proc_ok_def receive_signal_def bt_inv_def)
  show "proc_ok p (q\<lparr>wait4_event := n\<rparr>)" using assms by (simp add: proc_ok_def)
qed

definition notified :: "signal option \<Rightarrow> process \<Rightarrow> process" where
  "notified sig q = q\<lparr>inner := (case sig of None \<Rightarrow> inner q | Some s \<Rightarrow> receive_signal s (inner q)),
     wait4_event := wait4_event q + 1\<rparr>"

lemma notify_parent_Some:
  assumes "pm_get q K = Some pp"
  shows "\<exists>K'. notify_parent (Some q) sig K = Some K' \<and> machine K' = machine K \<and> pid_allocator K' = pid_allocator K
     \<and> shutdown K' = shutdown K \<and> kernel_root K' = kernel_root K
     \<and> (bt_inv (manager K) \<longrightarrow> bt_inv (manager K'))
     \<and> (\<forall>x. pm_get x K' = (if x = q then Some (notified sig pp) else pm_get x K))"
proof (cases sig)
  case None
  then show ?thesis using assms by (simp add: notify_parent_def notified_def)
next
  case (Some s)
  then show ?thesis using assms by (simp add: notify_parent_def lock_inner_with_Some notified_def)
qed

lemma notified_node [simp]: "node_of (notified sig q) = node_of q"
  by (simp add: node_of_def notified_def receive_signal_def split: option.splits)

lemma notified_ok: "proc_ok p q \<Longrightarrow> proc_ok p (notified sig q)"
proof (cases sig)
  case (Some s)
  assume "proc_ok p q"
  then have "proc_ok p (q\<lparr>inner := receive_signal s (inner q), wait4_event := wait4_event q + 1\<rparr>)"
    using proc_ok_notified(2) [OF proc_ok_notified(1)] by simp
  then show ?thesis by (simp add: notified_def Some)
qed (simp add: notified_def proc_ok_def)

text \<open>The first process takes the children over.\<close>

lemma adopt_Some:
  assumes "pm_get 1 K = Some r" "\<forall>c\<in>set cs. c \<noteq> 1 \<and> pm_get c K \<noteq> None"
  shows "\<exists>K'. adopt cs K = Some K' \<and> machine K' = machine K \<and> pid_allocator K' = pid_allocator K
     \<and> shutdown K' = shutdown K \<and> kernel_root K' = kernel_root K \<and> (bt_inv (manager K) \<longrightarrow> bt_inv (manager K'))
     \<and> (\<forall>x. pm_get x K' =
         (if x = 1 then Some (r\<lparr>inner := (inner r)\<lparr>children := children (inner r) @ cs\<rparr>\<rparr>)
          else map_option (\<lambda>q. if x \<in> set cs then q\<lparr>inner := (inner q)\<lparr>parent := Some 1\<rparr>\<rparr> else q) (pm_get x K)))"
  using assms
proof (induction cs arbitrary: K r)
  case Nil
  then show ?case by (simp add: option.map_ident)
next
  case (Cons c cs)
  obtain q where q: "pm_get c K = Some q" and c1: "c \<noteq> 1" using Cons.prems(2) by auto
  let ?q = "q\<lparr>inner := (inner q)\<lparr>parent := Some 1\<rparr>\<rparr>"
  let ?r = "r\<lparr>inner := (inner r)\<lparr>children := children (inner r) @ [c]\<rparr>\<rparr>"
  let ?K1 = "pm_add c ?q K" and ?K2 = "pm_add 1 ?r (pm_add c ?q K)"
  have s1: "lock_inner_with c (\<lambda>i. i\<lparr>parent := Some INITPROC_PID\<rparr>) K = Some ?K1"
    by (simp add: lock_inner_with_Some [OF q] INITPROC_PID_def)
  have g1: "pm_get INITPROC_PID ?K1 = Some r" using Cons.prems(1) c1 by (simp add: INITPROC_PID_def)
  have s2: "lock_inner_with INITPROC_PID (\<lambda>i. i\<lparr>children := children i @ [c]\<rparr>) ?K1 = Some ?K2"
    using lock_inner_with_Some [OF g1, of "\<lambda>i. i\<lparr>children := children i @ [c]\<rparr>"] by (simp add: INITPROC_PID_def)
  have p1: "pm_get 1 ?K2 = Some ?r" by simp
  have p2: "\<forall>c\<in>set cs. c \<noteq> 1 \<and> pm_get c ?K2 \<noteq> None" using Cons.prems(2) by auto
  obtain K' where K': "adopt cs ?K2 = Some K'" "machine K' = machine ?K2" "pid_allocator K' = pid_allocator ?K2"
    "shutdown K' = shutdown ?K2 \<and> kernel_root K' = kernel_root ?K2" "bt_inv (manager ?K2) \<longrightarrow> bt_inv (manager K')"
    "\<forall>x. pm_get x K' =
         (if x = 1 then Some (?r\<lparr>inner := (inner ?r)\<lparr>children := children (inner ?r) @ cs\<rparr>\<rparr>)
          else map_option (\<lambda>q. if x \<in> set cs then q\<lparr>inner := (inner q)\<lparr>parent := Some 1\<rparr>\<rparr> else q) (pm_get x ?K2))"
    using Cons.IH [OF p1 p2] by blast
  have "pm_get x K' = (if x = 1 then Some (r\<lparr>inner := (inner r)\<lparr>children := children (inner r) @ c # cs\<rparr>\<rparr>)
      else map_option (\<lambda>q. if x \<in> set (c # cs) then q\<lparr>inner := (inner q)\<lparr>parent := Some 1\<rparr>\<rparr> else q) (pm_get x K))" for x
    using K'(6) q c1 by (cases "x = c") simp_all
  then show ?case using K'(1-5) s1 s2 by (intro exI [of _ K']) simp
qed

definition zombie_of :: "'fa kernel \<Rightarrow> memory_space \<Rightarrow> thread \<Rightarrow> process \<Rightarrow> process" where
  "zombie_of K ms th p =
     p\<lparr>status := ps_zombie (case ps_exit_code (status p) of Some c \<Rightarrow> c | None \<Rightarrow> exit_code th),
       inner := (inner p)\<lparr>cwd := root_dir K, space := ms, threads := [],
         tid_allocator := ra_release (the (ra_dealloc (tid th) (tid_allocator (inner p)))), children := [], parent := None\<rparr>\<rparr>"

lemma zombie_of_ok:
  "proc_ok x p \<Longrightarrow> proc_ok x (zombie_of K ms th p)"
  "node_of (zombie_of K ms th p) = \<lparr>n_children = [], n_parent = None, n_zombie = True\<rparr>"
  by (simp_all add: zombie_of_def proc_ok_def node_of_def)

text \<open>What the exit of \<open>p\<close> changes of another process \<open>x\<close>.\<close>

definition inherit :: "nat list \<Rightarrow> nat \<Rightarrow> process \<Rightarrow> process" where
  "inherit cs x q = q\<lparr>inner := (inner q)\<lparr>parent := (if x \<in> set cs then Some 1 else parent (inner q)),
     children := (if x = 1 then children (inner q) @ cs else children (inner q))\<rparr>\<rparr>"

definition after_exit :: "process \<Rightarrow> nat \<Rightarrow> process \<Rightarrow> process" where
  "after_exit p x q = (if parent (inner p) = Some x then notified (exit_signal p) else id) (inherit (children (inner p)) x q)"

lemma inherit_Nil: "inherit [] x = id"
  by (intro ext) (simp add: inherit_def)

lemma after_exit_node:
  "node_of (after_exit p x q) = (node_of q)\<lparr>
     n_children := (if x = 1 then n_children (node_of q) @ n_children (node_of p) else n_children (node_of q)),
     n_parent := (if x \<in> set (n_children (node_of p)) then Some 1 else n_parent (node_of q))\<rparr>"
proof -
  have "node_of (after_exit p x q) = node_of (inherit (children (inner p)) x q)" by (simp add: after_exit_def)
  then show ?thesis by (simp add: node_of_def inherit_def)
qed

lemma after_exit_ok: "proc_ok x q \<Longrightarrow> proc_ok x (after_exit p x q)"
proof -
  assume "proc_ok x q"
  then have "proc_ok x (inherit (children (inner p)) x q)" by (simp add: proc_ok_def inherit_def)
  then show ?thesis by (simp add: after_exit_def notified_ok)
qed

lemma only_thread:
  assumes "proc_ok self p" "threads (inner p) = [(t, th)]"
  shows "tid th = t" "\<exists>ta. ra_dealloc t (tid_allocator (inner p)) = Some ta" "\<not> is_zombie (status p)"
proof -
  show "tid th = t" "\<not> is_zombie (status p)" using assms by (simp_all add: proc_ok_def)
  have "ra_inv 0 {t} (tid_allocator (inner p))" using assms by (simp add: proc_ok_def)
  then show "\<exists>ta. ra_dealloc t (tid_allocator (inner p)) = Some ta"
    by (auto simp: ra_inv_def ra_dealloc_def)
qed

lemma exit_thread_last:
  assumes ok: "kernel_ok K" and p: "pm_get self K = Some p" and th: "threads (inner p) = [(t, th)]"
    and mem: "dealloc_user_stack P t (space (inner p)) (machine K) = Some (ms1, M1)" "recycle_user_pages P ms1 M1 = Some (ms2, M2)"
    and one: "self = 1 \<Longrightarrow> children (inner p) = []"
  shows "\<exists>K'. exit_thread P self t K = Some K' \<and> machine K' = M2 \<and> pid_allocator K' = pid_allocator K
     \<and> shutdown K' = (shutdown K \<or> self = 1) \<and> kernel_root K' = kernel_root K \<and> bt_inv (manager K')
     \<and> pm_get self K' = Some (zombie_of K ms2 th p)
     \<and> (\<forall>x. x \<noteq> self \<longrightarrow> pm_get x K' = map_option (after_exit p x) (pm_get x K))"
proof -
  note d = kernel_okD [OF ok] and w = tree_wfD [OF kernel_okD(4) [OF ok]]
  let ?cs = "children (inner p)" and ?par = "parent (inner p)" and ?z = "zombie_of K ms2 th p"
  let ?K1 = "pm_add self ?z (K\<lparr>machine := M2\<rparr>)"
  obtain ta where ta: "ra_dealloc t (tid_allocator (inner p)) = Some ta" and tt: "tid th = t"
    using only_thread [OF d(3) [OF p] th] by blast
  have tp: "tree_of K self = Some (node_of p)" using tree_of_Some [OF p] .
  have ed: "edge (tree_of K) self c" if "c \<in> set ?cs" for c using that tp by (auto simp: edge_def node_of_def)
  have cs: "c \<noteq> 1 \<and> pm_get c ?K1 \<noteq> None" if c: "c \<in> set ?cs" for c
  proof -
    have "c \<noteq> 1" "\<exists>m. tree_of K c = Some m" using w(4,5) [OF ed [OF c]] by blast+
    then show ?thesis using tree_of_SomeD by fastforce
  qed
  obtain r where r: "pm_get 1 K = Some r" "parent (inner r) = None"
    using w(1) tree_of_SomeD by (fastforce simp: node_of_def)
  have par: "x \<noteq> self \<and> (\<exists>q. pm_get x K = Some q)" if "?par = Some x" for x
  proof -
    have e: "edge (tree_of K) x self" using w(6) [OF tp, of x] that by (simp add: node_of_def)
    then have "x \<noteq> self" using no_self_edge [OF d(4)] by blast
    moreover have "\<exists>n. tree_of K x = Some n" using e by (auto simp: edge_def)
    ultimately show ?thesis using tree_of_SomeD by blast
  qed
  have unf: "exit_thread P self t K = do {
       K \<leftarrow> (if self = INITPROC_PID then do { guard (length ?cs = 0); Some (?K1\<lparr>shutdown := True\<rparr>) }
          else do { q \<leftarrow> init_proc ?K1; adopt ?cs ?K1 });
       notify_parent ?par (exit_signal p) K }"
    by (simp add: exit_thread_def p th bt_get_Cons ta mem zombie_of_def tt Let_def)
  have "\<exists>K2. (if self = INITPROC_PID then do { guard (length ?cs = 0); Some (?K1\<lparr>shutdown := True\<rparr>) }
          else do { q \<leftarrow> init_proc ?K1; adopt ?cs ?K1 }) = Some K2 \<and> machine K2 = M2 \<and> pid_allocator K2 = pid_allocator K
     \<and> shutdown K2 = (shutdown K \<or> self = 1) \<and> kernel_root K2 = kernel_root K \<and> bt_inv (manager K2) \<and> pm_get self K2 = Some ?z
     \<and> (\<forall>x. x \<noteq> self \<longrightarrow> pm_get x K2 = map_option (inherit ?cs x) (pm_get x K))"
  proof (cases "self = 1")
    case True
    then show ?thesis using one [OF True] d(1)
      by (simp add: INITPROC_PID_def option.map_id inherit_Nil)
  next
    case False
    have g1: "pm_get 1 ?K1 = Some r" using r(1) False by simp
    obtain K2 where K2: "adopt ?cs ?K1 = Some K2" "machine K2 = machine ?K1" "pid_allocator K2 = pid_allocator ?K1"
      "shutdown K2 = shutdown ?K1 \<and> kernel_root K2 = kernel_root ?K1" "bt_inv (manager ?K1) \<longrightarrow> bt_inv (manager K2)"
      "\<forall>x. pm_get x K2 = (if x = 1 then Some (r\<lparr>inner := (inner r)\<lparr>children := children (inner r) @ ?cs\<rparr>\<rparr>)
          else map_option (\<lambda>q. if x \<in> set ?cs then q\<lparr>inner := (inner q)\<lparr>parent := Some 1\<rparr>\<rparr> else q) (pm_get x ?K1))"
      using adopt_Some [OF g1] cs by blast
    have "self \<notin> set ?cs" using ed no_self_edge [OF d(4)] by blast
    then have s: "pm_get self K2 = Some ?z" using K2(6) False by simp
    have "1 \<notin> set ?cs" using cs by blast
    then have "pm_get x K2 = map_option (inherit ?cs x) (pm_get x K)" if "x \<noteq> self" for x
      using K2(6) that r(1) by (cases "x = 1"; cases "pm_get x K") (simp_all add: inherit_def)
    moreover have "init_proc ?K1 = Some r" using g1 by (simp add: init_proc_def INITPROC_PID_def)
    moreover have "self \<noteq> INITPROC_PID" using False by (simp add: INITPROC_PID_def)
    ultimately show ?thesis using K2(1-5) s False d(1) by (intro exI [of _ K2]) simp
  qed
  then obtain K2 where e2: "(if self = INITPROC_PID then do { guard (length ?cs = 0); Some (?K1\<lparr>shutdown := True\<rparr>) }
          else do { q \<leftarrow> init_proc ?K1; adopt ?cs ?K1 }) = Some K2"
    and K2: "machine K2 = M2" "pid_allocator K2 = pid_allocator K" "shutdown K2 = (shutdown K \<or> self = 1) \<and> kernel_root K2 = kernel_root K"
      "bt_inv (manager K2)" "pm_get self K2 = Some ?z"
      "\<And>x. x \<noteq> self \<Longrightarrow> pm_get x K2 = map_option (inherit ?cs x) (pm_get x K)"
    by blast
  have ex: "exit_thread P self t K = notify_parent ?par (exit_signal p) K2" unfolding unf e2 by simp
  show ?thesis
  proof (cases ?par)
    case None
    then have "after_exit p x = inherit ?cs x" for x by (intro ext) (simp add: after_exit_def)
    then show ?thesis using ex K2 None by (intro exI [of _ K2]) (simp add: notify_parent_def)
  next
    case (Some x)
    obtain q where q: "x \<noteq> self" "pm_get x K = Some q" using par [OF Some] by blast
    obtain K3 where K3: "notify_parent (Some x) (exit_signal p) K2 = Some K3" "machine K3 = machine K2"
      "pid_allocator K3 = pid_allocator K2" "shutdown K3 = shutdown K2 \<and> kernel_root K3 = kernel_root K2" "bt_inv (manager K2) \<longrightarrow> bt_inv (manager K3)"
      "\<forall>y. pm_get y K3 = (if y = x then Some (notified (exit_signal p) (inherit ?cs x q)) else pm_get y K2)"
      using notify_parent_Some [of x K2 _ "exit_signal p"] K2(6) [OF q(1)] q(2) by auto
    have "pm_get y K3 = map_option (after_exit p y) (pm_get y K)" if "y \<noteq> self" for y
      using K3(6) K2(6) [OF that] q Some by (cases "y = x"; cases "pm_get y K") (simp_all add: after_exit_def)
    then show ?thesis using ex K3 K2(1-5) Some q(1) by (intro exI [of _ K3]) simp
  qed
qed

lemma exit_thread_last_ok:
  assumes ok: "kernel_ok K" and p: "pm_get self K = Some p" and th: "threads (inner p) = [(t, th)]"
    and one: "self = 1 \<Longrightarrow> children (inner p) = []"
    and K': "pid_allocator K' = pid_allocator K" "bt_inv (manager K')" "pm_get self K' = Some (zombie_of K ms2 th p)"
      "\<forall>x. x \<noteq> self \<longrightarrow> pm_get x K' = map_option (after_exit p x) (pm_get x K)"
  shows "tree_of K' = t_exit self (tree_of K)" "kernel_ok K'"
proof -
  note d = kernel_okD [OF ok]
  have tp: "tree_of K self = Some (node_of p)" using tree_of_Some [OF p] .
  show tr: "tree_of K' = t_exit self (tree_of K)"
  proof
    fix x
    show "tree_of K' x = t_exit self (tree_of K) x"
    proof (cases "x = self")
      case True
      then show ?thesis using tree_of_Some [OF K'(3)] tp by (simp add: t_exit_def zombie_of_ok(2))
    next
      case False
      then have "tree_of K' x = map_option (node_of \<circ> after_exit p x) (pm_get x K)"
        using K'(4) by (simp add: tree_of_def option.map_comp)
      moreover have "t_exit self (tree_of K) x = map_option ((\<lambda>m. m\<lparr>
          n_children := (if x = 1 then n_children m @ n_children (node_of p) else n_children m),
          n_parent := (if x \<in> set (n_children (node_of p)) then Some 1 else n_parent m)\<rparr>) \<circ> node_of) (pm_get x K)"
        unfolding t_exit_def tp using False by (simp add: tree_of_def option.map_comp)
      ultimately show ?thesis by (simp add: comp_def after_exit_node)
    qed
  qed
  have "tree_wf (tree_of K')" unfolding tr by (rule t_exit_wf [OF d(4) tp]) (use one in \<open>simp add: node_of_def\<close>)
  moreover have "dom (tree_of K') = dom (tree_of K)"
    unfolding tr using tp by (auto simp: t_exit_def dom_def)
  moreover have "proc_ok x q'" if px: "pm_get x K' = Some q'" for x q'
  proof (cases "x = self")
    case True
    then show ?thesis using px K'(3) zombie_of_ok(1) [OF d(3) [OF p], of K ms2 th] by simp
  next
    case False
    then obtain q where "pm_get x K = Some q" "q' = after_exit p x q" using px K'(4) by auto
    then show ?thesis using after_exit_ok [OF d(3)] by blast
  qed
  ultimately show "kernel_ok K'" using d(2) K'(1,2) by (simp add: kernel_ok_def)
qed

section \<open>Waiting\<close>

definition wants :: "int \<Rightarrow> nat \<Rightarrow> bool" where
  "wants wanted c \<longleftrightarrow> wanted = -1 \<or> c = nat wanted"

lemma scan_children_Some:
  fixes wanted :: int
  assumes "\<forall>c\<in>set cs. \<exists>q. pm_get c K = Some q \<and> pid q = c"
  defines "good \<equiv> \<lambda>c. wants wanted c \<and> (\<exists>q. pm_get c K = Some q \<and> is_zombie (status q))"
  shows "\<exists>r. scan_children wanted i cs acc K = Some (fst acc \<or> (\<exists>c\<in>set cs. wants wanted c), r)
     \<and> (r = None \<longleftrightarrow> snd acc = None \<and> \<not> (\<exists>c\<in>set cs. good c))
     \<and> (\<forall>j. r = Some j \<longrightarrow> snd acc = Some j \<or> (\<exists>k<length cs. j = i + k \<and> good (cs ! k)))"
  using assms(1)
proof (induction cs arbitrary: i acc)
  case (Cons c cs)
  obtain q where q: "pm_get c K = Some q" "pid q = c" using Cons.prems by auto
  define acc' where "acc' = (if wants wanted c then (True, if is_zombie (status q) then Some i else snd acc) else acc)"
  have e: "scan_children wanted i (c # cs) acc K = scan_children wanted (Suc i) cs acc' K"
    using q by (simp add: acc'_def wants_def)
  have g: "good c \<longleftrightarrow> wants wanted c \<and> is_zombie (status q)" using q by (simp add: good_def)
  have f: "fst acc' = (fst acc \<or> wants wanted c)" "snd acc' = (if good c then Some i else snd acc)"
    by (simp_all add: acc'_def g)
  obtain r where r: "scan_children wanted (Suc i) cs acc' K = Some (fst acc' \<or> (\<exists>c\<in>set cs. wants wanted c), r)"
    "r = None \<longleftrightarrow> snd acc' = None \<and> \<not> (\<exists>c\<in>set cs. good c)"
    "\<And>j. r = Some j \<Longrightarrow> snd acc' = Some j \<or> (\<exists>k<length cs. j = Suc i + k \<and> good (cs ! k))"
    using Cons.IH [of "Suc i" acc'] Cons.prems by auto
  have "snd acc = Some j \<or> (\<exists>k<length (c # cs). j = i + k \<and> good ((c # cs) ! k))" if rj: "r = Some j" for j
    using r(3) [OF rj]
  proof (elim disjE exE conjE)
    assume "snd acc' = Some j"
    then show ?thesis by (cases "good c") (auto simp: f)
  next
    fix k assume "k < length cs" "j = Suc i + k" "good (cs ! k)"
    then show ?thesis by (intro disjI2 exI [of _ "Suc k"]) simp
  qed
  then show ?case using r(1,2) unfolding e f by (intro exI [of _ r]) auto
qed (simp add: prod_eq_iff)

lemma remove_at_remove1: "distinct xs \<Longrightarrow> n < length xs \<Longrightarrow> remove_at n xs = remove1 (xs ! n) xs"
  unfolding remove_at_def
proof (induction xs arbitrary: n)
  case (Cons x xs)
  then show ?case by (cases n) auto
qed simp

text \<open>The state after a process \<open>c\<close> is collected by its parent.\<close>

definition reaped :: "nat \<Rightarrow> process \<Rightarrow> nat \<Rightarrow> recycle_allocator \<Rightarrow> 'fa machine \<Rightarrow> 'fa kernel \<Rightarrow> 'fa kernel" where
  "reaped self p c pa M K = (pm_remove c (pm_add self (p\<lparr>inner := (inner p)\<lparr>children := remove1 c (children (inner p))\<rparr>\<rparr>) K))
     \<lparr>machine := M, pid_allocator := pa\<rparr>"

lemma tree_of_reaped:
  assumes ok: "kernel_ok K" and p: "pm_get self K = Some p" and c: "c \<noteq> self"
  shows "tree_of (reaped self p c pa M K) = t_reap self c (tree_of K)"
proof -
  have inv: "bt_inv (manager (pm_add self q K))" for q using kernel_okD(1) [OF ok] by simp
  show ?thesis
    using tree_of_Some [OF p] c
    by (auto simp: tree_of_def fun_eq_iff t_reap_def reaped_def pm_get_remove [OF inv] node_of_def)
qed

lemma reaped_ok:
  assumes ok: "kernel_ok K" and p: "pm_get self K = Some p" and c: "c \<in> set (children (inner p))"
    and cp: "pm_get c K = Some cp" "is_zombie (status cp)"
  obtains pa where "ra_dealloc c (pid_allocator K) = Some pa" "\<And>M. kernel_ok (reaped self p c pa M K)"
proof -
  note d = kernel_okD [OF ok]
  have e: "edge (tree_of K) self c" using tree_of_Some [OF p] c by (auto simp: edge_def node_of_def)
  have ne: "c \<noteq> self" using no_self_edge [OF d(4)] e by blast
  have tc: "tree_of K c = Some (node_of cp)" using tree_of_Some [OF cp(1)] .
  then have "c \<in> dom (tree_of K)" by blast
  then obtain pa where pa: "ra_dealloc c (pid_allocator K) = Some pa" "ra_inv 1 (dom (tree_of K) - {c}) pa"
    using ra_dealloc_inv [OF d(2)] by blast
  let ?p = "p\<lparr>inner := (inner p)\<lparr>children := remove1 c (children (inner p))\<rparr>\<rparr>"
  have "kernel_ok (reaped self p c pa M K)" for M
  proof -
    let ?K = "reaped self p c pa M K"
    note tr = tree_of_reaped [OF ok p ne, of pa M]
    have inv: "bt_inv (manager (pm_add self q K))" for q using d(1) by simp
    have "bt_inv (manager ?K)" using d(1) by (simp add: reaped_def)
    moreover have "dom (tree_of ?K) = dom (tree_of K) - {c}"
      unfolding tr using tree_of_Some [OF p] ne by (auto simp: t_reap_def)
    then have "ra_inv 1 (dom (tree_of ?K)) (pid_allocator ?K)" using pa(2) by (simp add: reaped_def)
    moreover have "proc_ok x q" if "pm_get x ?K = Some q" for x q
      using that d(3) [of x q] d(3) [OF p]
      by (auto simp: reaped_def pm_get_remove [OF inv] proc_ok_def split: if_splits)
    moreover have "tree_wf (tree_of ?K)"
      unfolding tr by (rule t_reap_wf [OF d(4) e tc]) (use cp(2) in \<open>simp add: node_of_def\<close>)
    ultimately show ?thesis by (simp add: kernel_ok_def)
  qed
  then show thesis using that pa(1) by blast
qed

lemma wait4_round_cases:
  assumes ok: "kernel_ok K" and p: "pm_get self K = Some p"
  shows "\<not> (\<exists>c\<in>set (children (inner p)). wants wanted c) \<Longrightarrow> wait4_round P self wanted wstatus options K = Some (Some (Err ECHILD), None, K)"
    "\<exists>c\<in>set (children (inner p)). wants wanted c \<Longrightarrow>
     \<not> (\<exists>c\<in>set (children (inner p)). wants wanted c \<and> (\<exists>q. pm_get c K = Some q \<and> is_zombie (status q))) \<Longrightarrow>
     wait4_round P self wanted wstatus options K =
       Some (if has_flag options WNOHANG then Some (Ok 0) else None, None, K)"
    "\<exists>c\<in>set (children (inner p)). wants wanted c \<and> (\<exists>q. pm_get c K = Some q \<and> is_zombie (status q)) \<Longrightarrow>
     \<exists>c q pa. c \<in> set (children (inner p)) \<and> wants wanted c \<and> c \<noteq> self \<and> pm_get c K = Some q \<and> is_zombie (status q)
       \<and> ra_dealloc c (pid_allocator K) = Some pa \<and> (\<forall>M. kernel_ok (reaped self p c pa M K))
       \<and> wait4_round P self wanted wstatus options K = do {
           code \<leftarrow> ps_exit_code (status q);
           M \<leftarrow> space_drop P (space (inner q)) (machine K);
           Some (case wstatus of
                None \<Rightarrow> (Some (Ok c), None, reaped self p c pa M K)
              | Some (Inl e) \<Rightarrow> (Some (Inl e), None, reaped self p c pa M K)
              | Some (Inr _) \<Rightarrow> (Some (Ok c), Some (push_bit 8 (ucast code)), reaped self p c pa M K)) }"
proof -
  note d = kernel_okD [OF ok] and w = tree_wfD [OF kernel_okD(4) [OF ok]]
  let ?cs = "children (inner p)"
  have tp: "tree_of K self = Some (node_of p)" using tree_of_Some [OF p] .
  have ed: "edge (tree_of K) self c" if "c \<in> set ?cs" for c using that tp by (auto simp: edge_def node_of_def)
  have ch: "\<forall>c\<in>set ?cs. \<exists>q. pm_get c K = Some q \<and> pid q = c"
  proof
    fix c assume "c \<in> set ?cs"
    then obtain m where "tree_of K c = Some m" using w(5) ed by blast
    then show "\<exists>q. pm_get c K = Some q \<and> pid q = c" using tree_of_SomeD d(3) by (fastforce simp: proc_ok_def)
  qed
  have ne: "c \<noteq> self" if "c \<in> set ?cs" for c using no_self_edge [OF d(4)] ed [OF that] by blast
  obtain r where r: "scan_children wanted 0 ?cs (False, None) K = Some (\<exists>c\<in>set ?cs. wants wanted c, r)"
    "r = None \<longleftrightarrow> \<not> (\<exists>c\<in>set ?cs. wants wanted c \<and> (\<exists>q. pm_get c K = Some q \<and> is_zombie (status q)))"
    "\<And>j. r = Some j \<Longrightarrow> j < length ?cs \<and> wants wanted (?cs ! j) \<and> (\<exists>q. pm_get (?cs ! j) K = Some q \<and> is_zombie (status q))"
    using scan_children_Some [OF ch, of wanted 0 "(False, None)"] by auto
  show "wait4_round P self wanted wstatus options K = Some (Some (Err ECHILD), None, K)"
    if "\<not> (\<exists>c\<in>set ?cs. wants wanted c)"
    using that by (simp add: wait4_round_def p r(1))
  show "wait4_round P self wanted wstatus options K = Some (if has_flag options WNOHANG then Some (Ok 0) else None, None, K)"
    if "\<exists>c\<in>set ?cs. wants wanted c"
      "\<not> (\<exists>c\<in>set ?cs. wants wanted c \<and> (\<exists>q. pm_get c K = Some q \<and> is_zombie (status q)))"
  proof -
    have "r = None" using r(2) that(2) by blast
    then show ?thesis using that(1) by (simp add: wait4_round_def p r(1))
  qed
  assume z: "\<exists>c\<in>set ?cs. wants wanted c \<and> (\<exists>q. pm_get c K = Some q \<and> is_zombie (status q))"
  then obtain j where j: "r = Some j" using r(2) by blast
  let ?c = "?cs ! j"
  obtain q where q: "j < length ?cs" "wants wanted ?c" "pm_get ?c K = Some q" "is_zombie (status q)" using r(3) [OF j] by blast
  have c: "?c \<in> set ?cs" using q(1) by simp
  obtain pa where pa: "ra_dealloc ?c (pid_allocator K) = Some pa" "\<And>M. kernel_ok (reaped self p ?c pa M K)"
    using reaped_ok [OF ok p c q(3,4)] by blast
  have pq: "pid q = ?c" using ch c q(3) by fastforce
  have rem: "remove_at j ?cs = remove1 ?c ?cs"
    using remove_at_remove1 [OF _ q(1)] w(2) [OF tp] by (simp add: node_of_def)
  have "\<exists>c\<in>set ?cs. wants wanted c" using z by blast
  then have "wait4_round P self wanted wstatus options K = do {
           code \<leftarrow> ps_exit_code (status q);
           M \<leftarrow> space_drop P (space (inner q)) (machine K);
           Some (case wstatus of
                None \<Rightarrow> (Some (Ok ?c), None, reaped self p ?c pa M K)
              | Some (Inl e) \<Rightarrow> (Some (Inl e), None, reaped self p ?c pa M K)
              | Some (Inr _) \<Rightarrow> (Some (Ok ?c), Some (push_bit 8 (ucast code)), reaped self p ?c pa M K)) }"
    using q(3) ne [OF c] pa(1)
    by (simp add: wait4_round_def p r(1) j lock_inner_with_Some [OF p] pq rem reaped_def Let_def
        cong: Option.bind_cong option.case_cong sum.case_cong)
  then show "\<exists>c q pa. c \<in> set (children (inner p)) \<and> wants wanted c \<and> c \<noteq> self \<and> pm_get c K = Some q \<and> is_zombie (status q)
       \<and> ra_dealloc c (pid_allocator K) = Some pa \<and> (\<forall>M. kernel_ok (reaped self p c pa M K))
       \<and> wait4_round P self wanted wstatus options K = do {
           code \<leftarrow> ps_exit_code (status q);
           M \<leftarrow> space_drop P (space (inner q)) (machine K);
           Some (case wstatus of
                None \<Rightarrow> (Some (Ok c), None, reaped self p c pa M K)
              | Some (Inl e) \<Rightarrow> (Some (Inl e), None, reaped self p c pa M K)
              | Some (Inr _) \<Rightarrow> (Some (Ok c), Some (push_bit 8 (ucast code)), reaped self p c pa M K)) }"
    using c q(2-4) ne [OF c] pa by (intro exI [of _ ?c] exI [of _ q] exI [of _ pa]) simp
qed

end
