(* ===== verification/SpaceBrk.thy ===== *)
theory SpaceBrk
  imports SpaceConfine
begin

text \<open>
  Moving the end of the heap (\<^verbatim>\<open>MemorySpace::set_user_brk\<close>, with the shrinking and expanding of
  an area).  As its comment says, the code relies on there being room: an area that is made
  larger is not checked against the areas behind it.
\<close>

section \<open>Shrinking and expanding an area\<close>

lemma ms_owns_split:
  assumes ok: "areas_ok m" and ka: "(k, a) \<in> set m"
  shows "ms_owns (bt_insert k b m) v p pr \<longleftrightarrow>
     bt_get (unbacked_map b) v = Some p \<and> perm b = pr \<or> ms_owns (bt_remove k m) v p pr"
    "ms_owns m v p pr \<longleftrightarrow> bt_get (unbacked_map a) v = Some p \<and> perm a = pr \<or> ms_owns (bt_remove k m) v p pr"
    "ms_pages (bt_insert k b m) = area_pages b \<union> ms_pages (bt_remove k m)"
    "ms_pages m = area_pages a \<union> ms_pages (bt_remove k m)"
proof -
  have inv: "bt_inv m" using areas_ok_inv [OF ok] .
  have e: "set (bt_insert k b m) = insert (k, b) (set (bt_remove k m))" "set m = insert (k, a) (set (bt_remove k m))"
    using set_split_key [OF inv ka] by (simp_all add: set_bt_insert [OF inv] set_bt_remove [OF inv])
  show "ms_owns (bt_insert k b m) v p pr \<longleftrightarrow>
     bt_get (unbacked_map b) v = Some p \<and> perm b = pr \<or> ms_owns (bt_remove k m) v p pr"
    "ms_pages (bt_insert k b m) = area_pages b \<union> ms_pages (bt_remove k m)"
    unfolding ms_owns_def ms_pages_def e(1) by simp_all
  show "ms_owns m v p pr \<longleftrightarrow> bt_get (unbacked_map a) v = Some p \<and> perm a = pr \<or> ms_owns (bt_remove k m) v p pr"
    "ms_pages m = area_pages a \<union> ms_pages (bt_remove k m)"
    unfolding ms_owns_def [of m] ms_pages_def [of m] e(2) by (simp_all add: ms_owns_def ms_pages_def)
qed

lemma shrink_ok:
  assumes bs: "buddy_spec P free" and ok: "ms_ok P free ms M" and ka: "(k, a) \<in> set (user_areas ms)"
    and lazy: "area_ty a = Lazy" and e: "k \<le> e" "e \<le> vpn_end a"
  defines "a' \<equiv> a\<lparr>unbacked_map := filter (\<lambda>(v, p). v < e) (unbacked_map a), vpn_end := e\<rparr>"
  obtains M' where "area_shrink P e a (ms_table ms) M = Some (a', ms_table ms, M')"
    "space_step P free ms M \<lparr>ms_table = ms_table ms, user_areas = bt_insert k a' (user_areas ms)\<rparr> M'"
    "\<And>w. user_vpn w \<Longrightarrow> pt_lookup (mem M') (ms_table ms) w
        = (if e \<le> w \<and> w < vpn_end a then None else pt_lookup (mem M) (ms_table ms) w)"
    "\<And>x. x div 4096 \<notin> set (root_frame (ms_table ms) # frames (ms_table ms)) \<Longrightarrow> mem M' x = mem M x"
proof -
  let ?m = "user_areas ms" and ?pt = "ms_table ms"
  let ?sp = "filter (\<lambda>(v, p). e \<le> v) (unbacked_map a)"
  note d = ms_okD [OF ok]
  have inv: "bt_inv ?m" and aok: "area_ok k a" using areas_ok_inv [OF d(1)] areas_ok_area [OF d(1) ka] by auto
  then have ua: "bt_inv (unbacked_map a)" "fst ` set (unbacked_map a) \<subseteq> {k..<vpn_end a}" "backed_pages a = []"
    using lazy by (auto simp: area_ok_def)
  let ?vs = "bt_keys ?sp"
  have dist: "distinct ?vs" using bt_inv_distinct [OF bt_inv_filter [OF ua(1)]] by (simp add: bt_keys_def)
  have pages: "area_pages a = fst ` set (unbacked_map a)" by (simp add: area_pages_def ua(3))
  have vs: "set ?vs = {v \<in> area_pages a. e \<le> v}" by (auto simp: bt_keys_def pages)
  have sub: "set ?vs \<subseteq> ms_pages ?m" using ka by (auto simp: vs ms_pages_def)
  have own: "\<forall>p\<in>set (map snd ?sp). \<exists>v\<in>set ?vs. \<exists>pr. ms_owns ?m v p pr"
  proof
    fix p assume "p \<in> set (map snd ?sp)"
    then obtain v where v: "(v, p) \<in> set ?sp" by auto
    then have g: "bt_get (unbacked_map a) v = Some p" using ua(1) by (auto simp: bt_get_in)
    have "v \<in> set ?vs" using v by (force simp: bt_keys_def)
    then show "\<exists>v\<in>set ?vs. \<exists>pr. ms_owns ?m v p pr" using ka g by (auto simp: ms_owns_def)
  qed
  obtain M1 M' where r: "unmap_pages P ?vs ?pt M = Some (?pt, M1)" "frames_drop P (map snd ?sp) M1 = Some M'"
    "pt_ok P free ?pt M'"
    "\<And>w. user_vpn w \<Longrightarrow> pt_lookup (mem M') ?pt w = (if w \<in> set ?vs then None else pt_lookup (mem M) ?pt w)"
    "\<And>x. x div 4096 \<notin> set (root_frame ?pt # frames ?pt) \<Longrightarrow> mem M' x = mem M x"
    "avail P free M' \<subseteq> avail P free M \<union> {p. \<exists>v\<in>set ?vs. \<exists>pr. ms_owns ?m v p pr}"
    using release_pages [OF bs ok dist sub own] by blast
  have a'k: "area_ok k a'"
    using aok e bt_inv_filter [OF ua(1), of "\<lambda>(v, p). v < e"] ua(2,3) lazy by (auto simp: area_ok_def a'_def)
  have get': "bt_get (unbacked_map a') v = (if v < e then bt_get (unbacked_map a) v else None)" for v
    using bt_get_filter [OF ua(1), of "\<lambda>v. v < e"] by (simp add: a'_def)
  have pages': "area_pages a' = area_pages a - set ?vs" by (auto simp: vs pages area_pages_def a'_def ua(3))
  have other: "v \<notin> area_pages a" if "v \<in> ms_pages (bt_remove k ?m)" for v
    using that area_pages_disjoint [OF d(1) ka] by (auto simp: ms_pages_def set_bt_remove [OF inv])
  let ?m' = "bt_insert k a' ?m"
  have ok': "ms_ok P free \<lparr>ms_table = ?pt, user_areas = ?m'\<rparr> M'"
  proof (rule ms_ok_removed [OF ok _ _ _ r(3,4,6)])
    show "areas_ok ?m'" using areas_ok_update [OF d(1) ka a'k] e(2) by (simp add: a'_def)
    show "ms_pages ?m' = ms_pages ?m - set ?vs"
      using other by (auto simp: ms_owns_split(3) [OF d(1) ka] ms_owns_split(4) [OF d(1) ka] pages' vs)
    show "ms_owns ?m v p pr \<and> v \<notin> set ?vs" if o: "ms_owns ?m' v p pr" for v p pr
    proof -
      have "perm a' = perm a" by (simp add: a'_def)
      then have "ms_owns ?m v p pr" using o get' by (auto simp: ms_owns_split(1,2) [OF d(1) ka] split: if_splits)
      moreover have "v \<notin> set ?vs"
        using o unfolding ms_owns_split(1) [OF d(1) ka]
      proof
        assume "ms_owns (bt_remove k ?m) v p pr"
        then show ?thesis using other [OF ms_owns_page] by (auto simp: vs)
      qed (auto simp: get' vs split: if_splits)
      ultimately show ?thesis by blast
    qed
  qed
  moreover have "owned ?m' \<subseteq> owned ?m"
  proof
    fix p assume "p \<in> owned ?m'"
    then obtain v pr where o: "ms_owns ?m' v p pr" using ownedD by blast
    have "perm a' = perm a" by (simp add: a'_def)
    then have "ms_owns ?m v p pr" using o get' by (auto simp: ms_owns_split(1,2) [OF d(1) ka] split: if_splits)
    then show "p \<in> owned ?m" by (rule ownedI)
  qed
  moreover have "avail P free M' \<subseteq> avail P free M \<union> owned ?m" using r(6) ownedI by blast
  ultimately have step: "space_step P free ms M \<lparr>ms_table = ?pt, user_areas = ?m'\<rparr> M'"
    using r(5) by (auto simp: space_step_def confined_def ms_frames_def)
  have lk: "pt_lookup (mem M') ?pt w = (if e \<le> w \<and> w < vpn_end a then None else pt_lookup (mem M) ?pt w)"
    if "user_vpn w" for w
  proof (cases "e \<le> w \<and> w < vpn_end a \<and> w \<notin> area_pages a")
    case True
    then have "w \<notin> ms_pages ?m" using page_of_area(1) [OF d(1) ka, of w] e(1) by simp
    then have "pt_lookup (mem M) ?pt w = None" using d(3) [OF that] by blast
    then show ?thesis using True r(4) [OF that] by simp
  next
    case False
    have "w < vpn_end a" if "w \<in> area_pages a" using that ua(2) pages by auto
    then show ?thesis using False r(4) [OF that] by (auto simp: vs)
  qed
  have "area_shrink P e a ?pt M = Some (a', ?pt, M')"
    using r(1,2) lazy by (simp add: area_shrink_def bt_split_off_def a'_def)
  then show thesis by (rule that [OF _ step lk r(5)])
qed

lemma expand_ok:
  assumes ok: "ms_ok P free ms M" and ka: "(k, a) \<in> set (user_areas ms)" and e: "vpn_end a \<le> e" "e \<le> 2 ^ 26"
    and room: "\<forall>(j, b)\<in>set (user_areas ms). k < j \<longrightarrow> e \<le> j"
  shows "space_step P free ms M (ms\<lparr>user_areas := bt_insert k (area_expand e a) (user_areas ms)\<rparr>) M"
proof -
  let ?m = "user_areas ms" and ?a = "area_expand e a"
  note d = ms_okD [OF ok]
  have inv: "bt_inv ?m" and aok: "area_ok k a" using areas_ok_inv [OF d(1)] areas_ok_area [OF d(1) ka] by auto
  have a': "area_ok k ?a" using aok e by (auto simp: area_ok_def area_expand_def)
  have st: "set (bt_insert k ?a ?m) = insert (k, ?a) {x \<in> set ?m. fst x \<noteq> k}" by (rule set_bt_insert [OF inv])
  have "areas_ok (bt_insert k ?a ?m)"
  proof (rule areas_okI)
    show "area_ok j b" if "(j, b) \<in> set (bt_insert k ?a ?m)" for j b
      using that a' areas_ok_area [OF d(1)] by (auto simp: st)
    show "vpn_end b \<le> j'" if jb: "(j, b) \<in> set (bt_insert k ?a ?m)" "(j', b') \<in> set (bt_insert k ?a ?m)" "j < j'" for j b j' b'
    proof (cases "j = k")
      case True
      then have "b = ?a" "(j', b') \<in> set ?m" using jb by (auto simp: st)
      then show ?thesis using room True jb(3) by (auto simp: area_expand_def)
    next
      case False
      then have "(j, b) \<in> set ?m" "\<exists>c. (j', c) \<in> set ?m" using jb ka by (auto simp: st)
      then show ?thesis using areas_ok_apart [OF d(1)] jb(3) by blast
    qed
  qed (use inv in blast)
  moreover have ow: "ms_owns (bt_insert k ?a ?m) = ms_owns ?m"
    by (intro ext) (simp add: ms_owns_split(1,2) [OF d(1) ka], simp add: area_expand_def)
  moreover have "ms_pages (bt_insert k ?a ?m) = ms_pages ?m"
    by (simp add: ms_owns_split(3,4) [OF d(1) ka], simp add: area_expand_def area_pages_def)
  ultimately have "ms_ok P free (ms\<lparr>user_areas := bt_insert k ?a ?m\<rparr>) M" using ok by (simp add: ms_ok_def)
  then show ?thesis by (simp add: space_step_def confined_def ms_frames_def owned_def ow)
qed

section \<open>The end of the heap\<close>

lemma set_brk_ok:
  assumes "buddy_spec P free" "ms_ok P free ms M" "heap_start < new_end" "new_end \<le> 2 ^ 26"
    and "\<forall>(j, b)\<in>set (user_areas ms). heap_start < j \<longrightarrow> new_end \<le> j"
    and "case bt_get (user_areas ms) heap_start of
           None \<Rightarrow> \<forall>(j, b)\<in>set (user_areas ms). j < heap_start \<longrightarrow> vpn_end b \<le> heap_start
         | Some a \<Rightarrow> anonymous a"
  shows "\<exists>ms' M'. set_user_brk P heap_start new_end ms M = Some (ms', M') \<and> space_step P free ms M ms' M'
     \<and> (\<exists>a. bt_get (user_areas ms') heap_start = Some a \<and> vpn_start a = heap_start \<and> vpn_end a = new_end \<and> anonymous a)
     \<and> (\<forall>k. k \<noteq> heap_start \<longrightarrow> bt_get (user_areas ms') k = bt_get (user_areas ms) k)
     \<and> (\<forall>v. user_vpn v \<longrightarrow> pt_lookup (mem M') (ms_table ms') v =
          (if new_end \<le> v \<and> (\<exists>a. bt_get (user_areas ms) heap_start = Some a \<and> v < vpn_end a) then None
           else pt_lookup (mem M) (ms_table ms) v))
     \<and> (\<forall>va. va div PAGE_SIZE < 2 ^ 26 \<and> pt_lookup (mem M') (ms_table ms') (va div PAGE_SIZE) \<noteq> None
          \<and> (\<forall>(k, a)\<in>set (user_areas ms). anonymous a) \<longrightarrow> user_mem ms' M' va = user_mem ms M va)"
proof (cases "bt_get (user_areas ms) heap_start")
  case None
  let ?m = "user_areas ms"
  have nk: "heap_start \<notin> fst ` set ?m" using None by (simp flip: dom_bt_get add: domIff)
  have gap: "\<forall>(j, b)\<in>set ?m. vpn_end b \<le> heap_start \<or> new_end \<le> j"
  proof (clarify)
    fix j b assume jb: "(j, b) \<in> set ?m" "\<not> new_end \<le> j"
    then have "j \<noteq> heap_start" "\<not> heap_start < j" using nk assms(5) by (force, auto)
    then show "vpn_end b \<le> heap_start" using assms(6) jb(1) None by auto
  qed
  note na = step_new_area [OF assms(2) _ assms(4) gap, of "PERM_R OR PERM_W OR PERM_U"]
  have "set_user_brk P heap_start new_end ms M = Some (ms\<lparr>user_areas := bt_insert heap_start
      (vm_area_new heap_start new_end (PERM_R OR PERM_W OR PERM_U) Lazy) ?m\<rparr>, M)"
    using na(2) assms(3) by (simp add: set_user_brk_def None)
  then show ?thesis using na(1) assms(3) None by (auto simp: vm_area_new_def anonymous_def user_mem_def)
next
  case (Some a)
  let ?m = "user_areas ms"
  note d = ms_okD [OF assms(2)]
  have ka: "(heap_start, a) \<in> set ?m" using Some bt_get_in [OF areas_ok_inv [OF d(1)]] by blast
  have an: "anonymous a" and aok: "area_ok heap_start a" using assms(6) Some areas_ok_area [OF d(1) ka] by auto
  show ?thesis
  proof (cases "new_end \<le> vpn_end a")
    case True
    let ?a = "a\<lparr>unbacked_map := filter (\<lambda>(v, p). v < new_end) (unbacked_map a), vpn_end := new_end\<rparr>"
    have lazy: "area_ty a = Lazy" using an by (simp add: anonymous_def)
    obtain M' where sh: "area_shrink P new_end a (ms_table ms) M = Some (?a, ms_table ms, M')"
      "space_step P free ms M \<lparr>ms_table = ms_table ms, user_areas = bt_insert heap_start ?a ?m\<rparr> M'"
      "\<And>w. user_vpn w \<Longrightarrow> pt_lookup (mem M') (ms_table ms) w
          = (if new_end \<le> w \<and> w < vpn_end a then None else pt_lookup (mem M) (ms_table ms) w)"
      "\<And>x. x div 4096 \<notin> set (root_frame (ms_table ms) # frames (ms_table ms)) \<Longrightarrow> mem M' x = mem M x"
      using shrink_ok [OF assms(1,2) ka lazy less_imp_le [OF assms(3)] True] by blast
    let ?ms = "\<lparr>ms_table = ms_table ms, user_areas = bt_insert heap_start ?a ?m\<rparr>"
    have "set_user_brk P heap_start new_end ms M = Some (?ms, M')"
      using True by (simp add: set_user_brk_def Some sh(1))
    moreover have "user_mem ?ms M' va = user_mem ms M va"
      if va: "va div 4096 < 2 ^ 26" "pt_lookup (mem M') (ms_table ms) (va div 4096) \<noteq> None"
        "\<forall>(k, a)\<in>set ?m. anonymous a" for va
    proof -
      have u: "user_vpn (va div 4096)" using va(1) by (simp add: user_vpn_def)
      have eq: "pt_lookup (mem M') (ms_table ms) (va div 4096) = pt_lookup (mem M) (ms_table ms) (va div 4096)"
        using sh(3) [OF u] va(2) by (auto split: if_splits)
      obtain p f where pf: "pt_lookup (mem M) (ms_table ms) (va div 4096) = Some (p, f)" using eq va(2) by auto
      have "p \<in> owned ?m" using lookup_owned [OF assms(2) va(3) u pf] .
      then have "p \<notin> set (root_frame (ms_table ms) # frames (ms_table ms))" using ownedD d(5) by blast
      then have "mem M' (p * 4096 + va mod 4096) = mem M (p * 4096 + va mod 4096)" by (intro sh(4)) simp
      then show ?thesis using pf eq by (simp add: user_mem_def PAGE_SIZE_def)
    qed
    ultimately show ?thesis using sh(2,3) an aok Some
      by (intro exI [of _ ?ms] exI [of _ M']) (auto simp: anonymous_def area_ok_def PAGE_SIZE_def)
  next
    case False
    let ?ms = "ms\<lparr>user_areas := bt_insert heap_start (area_expand new_end a) ?m\<rparr>"
    have le: "vpn_end a \<le> new_end" using False by simp
    have "space_step P free ms M ?ms M" using expand_ok [OF assms(2) ka le assms(4,5)] .
    moreover have "set_user_brk P heap_start new_end ms M = Some (?ms, M)" using False by (simp add: set_user_brk_def Some)
    ultimately show ?thesis using an aok Some le
      by (intro exI [of _ ?ms] exI [of _ M]) (auto simp: anonymous_def area_ok_def area_expand_def user_mem_def)
  qed
qed

text \<open>
  C8: Moving the end of the heap of a well-formed space to a page behind its start, in the user half.
  Suppose no area starts between the start of the heap and the new end other than the heap itself,
  which is an anonymous area if it exists; if it does not, no area reaches over its start.  Then the call
  succeeds, and the area at the start of the heap reaches exactly to the new end, which is made
  if there was none.  No other area changes, the pages that were mapped behind the new
  end of the heap are unmapped and every other page keeps its mapping; if every area of the space
  is anonymous, so that no page of a file is mapped, every page that is still mapped keeps its
  contents too.  Only memory of this space and free memory is written, and the space stays well
  formed.
\<close>

theorem set_user_brk_correct:
  assumes "buddy_spec P free" "ms_ok P free ms M" "heap_start < new_end" "new_end \<le> 2 ^ 26"
    and "\<forall>(j, b)\<in>set (user_areas ms). heap_start < j \<longrightarrow> new_end \<le> j"
    and "case bt_get (user_areas ms) heap_start of
           None \<Rightarrow> \<forall>(j, b)\<in>set (user_areas ms). j < heap_start \<longrightarrow> vpn_end b \<le> heap_start
         | Some a \<Rightarrow> anonymous a"
  shows "\<exists>ms' M'. set_user_brk P heap_start new_end ms M = Some (ms', M') \<and> space_step P free ms M ms' M'
     \<and> (\<exists>a. bt_get (user_areas ms') heap_start = Some a \<and> vpn_start a = heap_start \<and> vpn_end a = new_end \<and> anonymous a)
     \<and> (\<forall>k. k \<noteq> heap_start \<longrightarrow> bt_get (user_areas ms') k = bt_get (user_areas ms) k)
     \<and> (\<forall>v. user_vpn v \<longrightarrow> pt_lookup (mem M') (ms_table ms') v =
          (if new_end \<le> v \<and> (\<exists>a. bt_get (user_areas ms) heap_start = Some a \<and> v < vpn_end a) then None
           else pt_lookup (mem M) (ms_table ms) v))
     \<and> (\<forall>va. va div PAGE_SIZE < 2 ^ 26 \<and> pt_lookup (mem M') (ms_table ms') (va div PAGE_SIZE) \<noteq> None
          \<and> (\<forall>(k, a)\<in>set (user_areas ms). anonymous a) \<longrightarrow> user_mem ms' M' va = user_mem ms M va)"
  by (rule set_brk_ok [OF assms])

theorem set_user_brk_correct_witness:
  "\<exists>ms' M'. set_user_brk list_platform 0x10 0x18 demo_ms demo_M = Some (ms', M')
     \<and> (\<exists>a. bt_get (user_areas ms') 0x10 = Some a \<and> vpn_end a = 0x18)"
proof -
  have h: "(0x10 :: nat) < 0x18" "(0x18 :: nat) \<le> 2 ^ 26" by simp_all
  have r: "\<forall>(j, b)\<in>set (user_areas demo_ms). 0x10 < j \<longrightarrow> 0x18 \<le> j" by (simp add: demo_ms_def)
  have a: "case bt_get (user_areas demo_ms) 0x10 of
           None \<Rightarrow> \<forall>(j, b)\<in>set (user_areas demo_ms). j < 0x10 \<longrightarrow> vpn_end b \<le> 0x10 | Some a \<Rightarrow> anonymous a"
    by (simp add: demo_ms_def bt_get_Cons vm_area_new_def anonymous_def)
  show ?thesis
    using set_user_brk_correct [OF list_platform_spec demo_ms_ok h r a]
    by (elim exE conjE) (intro exI conjI, assumption+)
qed

text \<open>Without the room the heap grows over the area behind it.\<close>

lemma brk_overlaps:
  "\<exists>ms'. set_user_brk P 0x10 0x38
       \<lparr>ms_table = pt, user_areas = [(0x10, vm_area_new 0x10 0x20 0x16 Lazy), (0x30, vm_area_new 0x30 0x40 0x16 Lazy)]\<rparr> M
         = Some (ms', M) \<and> \<not> areas_ok (user_areas ms')"
  by (simp add: set_user_brk_def bt_get_Cons vm_area_new_def area_expand_def areas_ok_def)

end
