(* ===== verification/MemSyscalls.thy ===== *)
theory MemSyscalls
  imports ProcessTree SpaceBrk
begin

text \<open>
  The memory system calls (kernel/src/syscall/memory.rs) on the current process.  The log
  lines are not modelled.  What the file system knows of an open file is an argument: its
  mode, and the number of its inode when that inode has a page cache.
\<close>

section \<open>Definitions\<close>

definition PROT_READ :: "32 word" where "PROT_READ = 1"
definition PROT_WRITE :: "32 word" where "PROT_WRITE = 2"
definition PROT_EXEC :: "32 word" where "PROT_EXEC = 4"

definition mmap_prot_all :: "32 word" where "mmap_prot_all = PROT_READ OR PROT_WRITE OR PROT_EXEC"

definition MAP_SHARED :: "32 word" where "MAP_SHARED = 1"
definition MAP_PRIVATE :: "32 word" where "MAP_PRIVATE = 2"
definition MAP_ANONYMOUS :: "32 word" where "MAP_ANONYMOUS = 0x20"
definition MAP_DENYWRITE :: "32 word" where "MAP_DENYWRITE = 0x800"
definition MAP_EXECUTABLE :: "32 word" where "MAP_EXECUTABLE = 0x1000"

definition mmap_flags_all :: "32 word" where
  "mmap_flags_all = MAP_SHARED OR MAP_PRIVATE OR MAP_FIXED OR MAP_ANONYMOUS OR MAP_DENYWRITE OR MAP_EXECUTABLE"

definition set_space :: "nat \<Rightarrow> memory_space \<Rightarrow> 'fa machine \<Rightarrow> 'fa kernel \<Rightarrow> 'fa kernel option" where
  "set_space self ms M K = lock_inner_with self (\<lambda>i. i\<lparr>space := ms\<rparr>) (K\<lparr>machine := M\<rparr>)"

definition private_anonymous_map ::
  "'fa platform \<Rightarrow> nat \<Rightarrow> nat \<Rightarrow> nat \<Rightarrow> 32 word \<Rightarrow> 32 word \<Rightarrow> 'fa kernel \<Rightarrow> (vpn \<times> 'fa kernel) res" where
  "private_anonymous_map P self addr len prot flags K =
     rbind (unwrap (pm_get self K)) (\<lambda>p.
     rbind (try_map P addr len (perm_from_prot prot) flags (space (inner p)) (machine K)) (\<lambda>(v, ms, M).
     rbind (unwrap (set_space self ms M K)) (\<lambda>K. Ok (v, K))))"

record file_info =
  fi_regular :: bool
  fi_cached_inode :: "nat option"

definition shared_file_map ::
  "'fa platform \<Rightarrow> (nat \<Rightarrow> (nat, ppn) btree) \<Rightarrow> (kfile \<Rightarrow> file_info) \<Rightarrow> nat \<Rightarrow> nat \<Rightarrow> nat \<Rightarrow> 32 word \<Rightarrow> 32 word
     \<Rightarrow> nat \<Rightarrow> nat \<Rightarrow> 'fa kernel \<Rightarrow> (vpn \<times> 'fa kernel) res" where
  "shared_file_map P cache info self addr len prot flags fd file_page_id K =
     rbind (unwrap (pm_get self K)) (\<lambda>p.
     rbind (ok_or EBADF (fd_get fd (fds (inner p)))) (\<lambda>desc.
     rbind (unwrap (read_write (fd_flags desc))) (\<lambda>(readable, writable).
     if \<not> fi_regular (info (fd_file desc)) \<or> \<not> readable
        \<or> ((\<not> writable \<or> has_flag (fd_flags desc) O_APPEND) \<and> has_flag prot PROT_WRITE)
     then Err EACCES
     else rbind (case fd_file desc of
                   SeekableFile _ \<Rightarrow> ok_or EACCES (fi_cached_inode (info (fd_file desc)))
                 | _ \<Rightarrow> Err EACCES) (\<lambda>inode.
          rbind (try_map_inode P cache addr len (perm_from_prot prot) flags inode file_page_id
              (space (inner p)) (machine K)) (\<lambda>(v, ms, M).
          rbind (unwrap (set_space self ms M K)) (\<lambda>K. Ok (v, K)))))))"

definition sys_mmap ::
  "'fa platform \<Rightarrow> (nat \<Rightarrow> (nat, ppn) btree) \<Rightarrow> (kfile \<Rightarrow> file_info) \<Rightarrow> nat \<Rightarrow> nat \<Rightarrow> nat \<Rightarrow> 32 word \<Rightarrow> 32 word
     \<Rightarrow> nat \<Rightarrow> nat \<Rightarrow> 'fa kernel \<Rightarrow> (nat \<times> 'fa kernel) res" where
  "sys_mmap P cache info self addr len prot flags fd offset K =
     (if len = 0 then Err EINVAL
      else if \<not> has_flag mmap_prot_all prot then Err EINVAL
      else if \<not> has_flag mmap_flags_all flags then Err UNSUPPORTED
      else if offset AND PAGE_OFFSET_MASK \<noteq> 0 then Err EINVAL
      else rbind
        (if has_flag flags MAP_SHARED then
           (if has_flag flags MAP_ANONYMOUS then Panicked
            else shared_file_map P cache info self addr len prot flags fd (offset div PAGE_SIZE) K)
         else if \<not> has_flag flags MAP_PRIVATE then Err EINVAL
         else if has_flag flags MAP_ANONYMOUS then
           (if fd \<noteq> usize_limit - 1 \<or> offset \<noteq> 0 then Err EINVAL
            else private_anonymous_map P self addr len prot flags K)
         else Panicked)
        (\<lambda>(v, K). Ok (page_start v, K)))"

text \<open>The sum of address and length in the log line of the code is left out.\<close>

definition sys_munmap :: "'fa platform \<Rightarrow> nat \<Rightarrow> nat \<Rightarrow> nat \<Rightarrow> 'fa kernel \<Rightarrow> (nat \<times> 'fa kernel) res" where
  "sys_munmap P self addr len K =
     (if addr AND PAGE_OFFSET_MASK \<noteq> 0 \<or> len = 0 \<or> LOW_ADDRESS_END < min (addr + len) (usize_limit - 1) then Err EINVAL
      else
        rbind (unwrap (pm_get self K)) (\<lambda>p.
        rbind (unwrap (uadd addr len)) (\<lambda>va_end.
        rbind (unwrap (ms_unmap P addr va_end (space (inner p)) (machine K))) (\<lambda>(ms, M).
        rbind (unwrap (set_space self ms M K)) (\<lambda>K. Ok (0, K))))))"

definition sys_brk :: "'fa platform \<Rightarrow> nat \<Rightarrow> nat \<Rightarrow> 'fa kernel \<Rightarrow> (nat \<times> 'fa kernel) res" where
  "sys_brk P self brk K =
     rbind (unwrap (pm_get self K)) (\<lambda>p.
     rbind (unwrap (inner_set_user_brk P brk (inner p) (machine K))) (\<lambda>(r, i, M).
     Ok (r, pm_add self (p\<lparr>inner := i\<rparr>) (K\<lparr>machine := M\<rparr>))))"

end
