(* ===== verification/System.thy ===== *)
theory System
  imports MemSyscalls
begin

text \<open>
  The processes with their address spaces on one machine.  The steps are those a process takes
  through clone, exit, wait4, mmap without MAP_SHARED, munmap, brk where the heap has room to
  grow, and a page fault, and its own stores to memory.  Every such step keeps the tree of
  processes, keeps every address space well formed and the frames of the spaces apart, and no
  step of one process changes what another one sees in its memory.

  These are not all the steps of the kernel.  Replacing the program (exec), the calls on files
  and the delivery of signals are not among them; a shared mapping of a file is left out because
  the pages of a file belong to several spaces, which \<open>spaces_ok\<close> excludes (every area is
  anonymous there); and a brk without room is left out because it breaks the invariant (lemma
  \<open>brk_overlaps\<close> of SpaceBrk).  That the start of the first process (\<open>init_process\<close>) reaches a
  state with the invariant is not shown; the system of two processes at the end of the theory
  has it.
\<close>

section \<open>The spaces of a kernel state\<close>

definition space_of :: "process \<Rightarrow> memory_space" where
  "space_of q = space (inner q)"

definition spaces_ok :: "'fa platform \<Rightarrow> ('fa \<Rightarrow> nat set) \<Rightarrow> 'fa kernel \<Rightarrow> bool" where
  "spaces_ok P free K \<longleftrightarrow> kernel_root K < 2 ^ 20
   \<and> (\<forall>p q. pm_get p K = Some q \<longrightarrow> ms_ok P free (space_of q) (machine K)
        \<and> (\<forall>(k, a)\<in>set (user_areas (space_of q)). anonymous a))
   \<and> (\<forall>p q p' q'. pm_get p K = Some q \<longrightarrow> pm_get p' K = Some q' \<longrightarrow> p \<noteq> p' \<longrightarrow>
        ms_frames (space_of q) \<inter> ms_frames (space_of q') = {})"

lemma spaces_okD:
  assumes "spaces_ok P free K"
  shows "kernel_root K < 2 ^ 20" "pm_get p K = Some q \<Longrightarrow> ms_ok P free (space_of q) (machine K)"
    "pm_get p K = Some q \<Longrightarrow> \<forall>(k, a)\<in>set (user_areas (space_of q)). anonymous a"
    "pm_get p K = Some q \<Longrightarrow> pm_get p' K = Some q' \<Longrightarrow> p \<noteq> p' \<Longrightarrow> ms_frames (space_of q) \<inter> ms_frames (space_of q') = {}"
  using assms unfolding spaces_ok_def by blast+

text \<open>Memory that a process sees.\<close>

definition sees_same :: "process \<Rightarrow> 'fa machine \<Rightarrow> process \<Rightarrow> 'fa machine \<Rightarrow> bool" where
  "sees_same q M q' M' \<longleftrightarrow> (\<forall>va < LOW_ADDRESS_END.
      pt_lookup (mem M') (ms_table (space_of q')) (va div PAGE_SIZE) = pt_lookup (mem M) (ms_table (space_of q)) (va div PAGE_SIZE)
    \<and> user_mem (space_of q') M' va = user_mem (space_of q) M va)"

lemma untouched_same:
  assumes ok: "ms_ok P free (space_of q) M" and an: "\<forall>(k, a)\<in>set (user_areas (space_of q)). anonymous a"
    and av: "avail_ok P free M'" "avail P free M' \<inter> ms_frames (space_of q) = {}"
    and eq: "\<And>x. x div 4096 \<in> ms_frames (space_of q) \<Longrightarrow> mem M' x = mem M x" and s: "space_of q' = space_of q"
  shows "sees_same q M q' M'"
  unfolding sees_same_def s
proof (intro allI impI conjI)
  fix va assume "va < LOW_ADDRESS_END"
  then have u: "user_vpn (va div 4096)" by (simp add: LOW_ADDRESS_END_def user_vpn_def)
  show l: "pt_lookup (mem M') (ms_table (space_of q)) (va div PAGE_SIZE) = pt_lookup (mem M) (ms_table (space_of q)) (va div PAGE_SIZE)"
    using ms_ok_untouched(2) [OF ok av eq u] by (simp add: PAGE_SIZE_def)
  show "user_mem (space_of q) M' va = user_mem (space_of q) M va"
  proof (cases "pt_lookup (mem M) (ms_table (space_of q)) (va div 4096)")
    case None
    then show ?thesis using l by (simp add: user_mem_def PAGE_SIZE_def)
  next
    case (Some x)
    obtain p f where x: "x = (p, f)" by (cases x)
    have "p \<in> ms_frames (space_of q)" using lookup_owned [OF ok an u Some [unfolded x]] by (simp add: ms_frames_def)
    then have "mem M' (p * 4096 + va mod 4096) = mem M (p * 4096 + va mod 4096)" by (intro eq) simp
    then show ?thesis using l Some x by (simp add: user_mem_def PAGE_SIZE_def)
  qed
qed

text \<open>The effect of a step of one process on the spaces.\<close>

definition alive :: "nat \<Rightarrow> 'fa kernel \<Rightarrow> bool" where
  "alive x K \<longleftrightarrow> (\<exists>q. pm_get x K = Some q \<and> \<not> is_zombie (status q))"

definition isolated :: "'fa platform \<Rightarrow> ('fa \<Rightarrow> nat set) \<Rightarrow> nat \<Rightarrow> 'fa kernel \<Rightarrow> 'fa kernel \<Rightarrow> bool" where
  "isolated P free self K K' \<longleftrightarrow> spaces_ok P free K'
   \<and> (\<forall>x q q'. x \<noteq> self \<longrightarrow> pm_get x K = Some q \<longrightarrow> pm_get x K' = Some q' \<longrightarrow> sees_same q (machine K) q' (machine K'))
   \<and> (\<forall>x. x \<noteq> self \<longrightarrow> alive x K \<longrightarrow> alive x K')"

lemma space_step_isolated:
  assumes ok: "spaces_ok P free K" and p: "pm_get self K = Some p"
    and st: "space_step P free (space_of p) (machine K) (space_of p') (machine K')"
    and an: "\<forall>(k, a)\<in>set (user_areas (space_of p')). anonymous a" and self: "pm_get self K' = Some p'"
    and others: "\<And>x. x \<noteq> self \<Longrightarrow> pm_get x K' = map_option (f x) (pm_get x K)"
    and f: "\<And>x q. space_of (f x q) = space_of q \<and> status (f x q) = status q" and root: "kernel_root K' = kernel_root K"
  shows "isolated P free self K K'"
proof -
  note d = spaces_okD [OF ok]
  let ?M = "machine K" and ?M' = "machine K'"
  have ok': "ms_ok P free (space_of p') ?M'" and c: "confined P free (space_of p) ?M (space_of p') ?M'"
    using st by (simp_all add: space_step_def)
  have av: "avail_ok P free ?M'" using ms_ok_avail [OF ok'] .
  have before: "\<exists>q0. pm_get x K = Some q0 \<and> space_of q = space_of q0" if x: "pm_get x K' = Some q" "x \<noteq> self" for x q
    using others [OF x(2)] x(1) f by (cases "pm_get x K") auto
  have dj: "ms_frames (space_of q) \<inter> ms_frames (space_of p) = {}" if "pm_get x K = Some q" "x \<noteq> self" for x q
    using d(4) [OF that(1) p that(2)] .
  note co = confined_other [OF d(2) c dj av]
  have dj': "ms_frames (space_of q) \<inter> ms_frames (space_of p') = {}" if "pm_get x K' = Some q" "x \<noteq> self" for x q
    using before [OF that] co(2) that(2) by metis
  have "ms_ok P free (space_of q) ?M' \<and> (\<forall>(k, a)\<in>set (user_areas (space_of q)). anonymous a)"
    if q: "pm_get x K' = Some q" for x q
  proof (cases "x = self")
    case True
    then show ?thesis using q self ok' an by simp
  next
    case False
    obtain q0 where q0: "pm_get x K = Some q0" "space_of q = space_of q0" using before [OF q False] by blast
    then show ?thesis using co(1) [OF q0(1) q0(1) False] d(3) [OF q0(1)] by simp
  qed
  moreover have "ms_frames (space_of q) \<inter> ms_frames (space_of r) = {}"
    if qr: "pm_get x K' = Some q" "pm_get y K' = Some r" "x \<noteq> y" for x y q r
  proof -
    consider "x = self" | "y = self" | "x \<noteq> self" "y \<noteq> self" by blast
    then show ?thesis
    proof cases
      case 3
      then show ?thesis using before [OF qr(1)] before [OF qr(2)] d(4) qr(3) by metis
    qed (use qr self dj' in auto)
  qed
  ultimately have "spaces_ok P free K'" using d(1) root by (simp add: spaces_ok_def)
  moreover have "sees_same q ?M q' ?M'" if x: "x \<noteq> self" "pm_get x K = Some q" "pm_get x K' = Some q'" for x q q'
  proof (rule untouched_same [OF d(2,3) [OF x(2)] av])
    have "ms_frames (space_of q) \<inter> avail P free ?M = {}" using ms_frames_ok(2) [OF d(2) [OF x(2)]] by blast
    then show "avail P free ?M' \<inter> ms_frames (space_of q) = {}" using c dj [OF x(2,1)] unfolding confined_def by blast
    show "mem ?M' y = mem ?M y" if "y div 4096 \<in> ms_frames (space_of q)" for y using co(3) [OF x(2) x(2,1) that] .
    show "space_of q' = space_of q" using before [OF x(3,1)] x(2) by auto
  qed
  moreover have "alive x K'" if "x \<noteq> self" "alive x K" for x using that others f by (auto simp: alive_def)
  ultimately show ?thesis by (simp add: isolated_def)
qed

text \<open>A new process, and a process that is collected.\<close>

lemma fork_isolated:
  assumes ok: "spaces_ok P free K" and c: "pm_get c K = None"
    and fr: "fresh_space P free (machine K) (space_of child) (machine K')"
    and an: "\<forall>(k, a)\<in>set (user_areas (space_of child)). anonymous a"
    and K': "\<And>x. pm_get x K' = (if x = c then Some child else map_option (f x) (pm_get x K))"
    and f: "\<And>x q. space_of (f x q) = space_of q \<and> status (f x q) = status q" and root: "kernel_root K' = kernel_root K"
  shows "isolated P free self K K'"
proof -
  note d = spaces_okD [OF ok]
  let ?M = "machine K" and ?M' = "machine K'"
  have okc: "ms_ok P free (space_of child) ?M'" and sub: "ms_frames (space_of child) \<union> avail P free ?M' \<subseteq> avail P free ?M"
    and eq: "\<And>x. x div 4096 \<notin> avail P free ?M \<Longrightarrow> mem ?M' x = mem ?M x" using fr by (auto simp: fresh_space_def)
  have av: "avail_ok P free ?M'" using ms_ok_avail [OF okc] .
  have dj: "ms_frames (space_of q) \<inter> avail P free ?M = {}" if "pm_get x K = Some q" for x q
    using ms_frames_ok(2) [OF d(2) [OF that]] by blast
  have before: "\<exists>q0. pm_get x K = Some q0 \<and> space_of q = space_of q0" if "pm_get x K' = Some q" "x \<noteq> c" for x q
    using K' [of x] that f by (cases "pm_get x K") auto
  have mem: "mem ?M' y = mem ?M y" if "pm_get x K = Some q" "y div 4096 \<in> ms_frames (space_of q)" for x q y
    using dj [OF that(1)] that(2) by (intro eq) blast
  have "ms_ok P free (space_of q) ?M' \<and> (\<forall>(k, a)\<in>set (user_areas (space_of q)). anonymous a)"
    if q: "pm_get x K' = Some q" for x q
  proof (cases "x = c")
    case True
    then show ?thesis using q K' okc an by simp
  next
    case False
    obtain q0 where q0: "pm_get x K = Some q0" "space_of q = space_of q0" using before [OF q False] by blast
    have "ms_ok P free (space_of q0) ?M'"
      using ms_ok_untouched(1) [OF d(2) [OF q0(1)] av] dj [OF q0(1)] sub mem [OF q0(1)] by blast
    then show ?thesis using d(3) [OF q0(1)] q0(2) by simp
  qed
  moreover have "ms_frames (space_of q) \<inter> ms_frames (space_of r) = {}"
    if qr: "pm_get x K' = Some q" "pm_get y K' = Some r" "x \<noteq> y" for x y q r
  proof -
    have cc: "ms_frames (space_of child) \<inter> ms_frames (space_of r) = {}" if "pm_get y K' = Some r" "y \<noteq> c" for y r
      using before [OF that] dj sub by fastforce
    consider "x = c" | "y = c" | "x \<noteq> c" "y \<noteq> c" by blast
    then show ?thesis
    proof cases
      case 1
      then show ?thesis using qr K' [of c] cc [OF qr(2)] by simp
    next
      case 2
      then show ?thesis using qr K' [of c] cc [OF qr(1)] by (simp add: Int_commute)
    next
      case 3
      obtain q0 r0 where "pm_get x K = Some q0" "space_of q = space_of q0" "pm_get y K = Some r0" "space_of r = space_of r0"
        using before [OF qr(1) 3(1)] before [OF qr(2) 3(2)] by blast
      then show ?thesis using d(4) qr(3) by simp
    qed
  qed
  ultimately have "spaces_ok P free K'" using d(1) root by (simp add: spaces_ok_def)
  moreover have "sees_same q ?M q' ?M'" if x: "x \<noteq> self" "pm_get x K = Some q" "pm_get x K' = Some q'" for x q q'
  proof (rule untouched_same [OF d(2,3) [OF x(2)] av])
    show "avail P free ?M' \<inter> ms_frames (space_of q) = {}" using dj [OF x(2)] sub by blast
    show "mem ?M' y = mem ?M y" if "y div 4096 \<in> ms_frames (space_of q)" for y using mem [OF x(2) that] .
    have "x \<noteq> c" using x(2) c by auto
    then show "space_of q' = space_of q" using before [OF x(3)] x(2) by auto
  qed
  moreover have "alive x K'" if "alive x K" for x using that K' [of x] c f by (auto simp: alive_def)
  ultimately show ?thesis by (simp add: isolated_def)
qed

lemma reap_isolated:
  assumes ok: "spaces_ok P free K" and c: "pm_get c K = Some cp"
    and M': "mem (machine K') = mem (machine K)" "avail_ok P free (machine K')"
      "avail P free (machine K') \<subseteq> ms_frames (space_of cp) \<union> avail P free (machine K)"
    and K': "\<And>x. pm_get x K' = (if x = c then None else map_option (f x) (pm_get x K))"
    and f: "\<And>x q. space_of (f x q) = space_of q \<and> status (f x q) = status q" and root: "kernel_root K' = kernel_root K"
    and z: "is_zombie (status cp)"
  shows "isolated P free self K K'"
proof -
  note d = spaces_okD [OF ok]
  let ?M = "machine K" and ?M' = "machine K'"
  have before: "x \<noteq> c \<and> (\<exists>q0. pm_get x K = Some q0 \<and> space_of q = space_of q0)" if "pm_get x K' = Some q" for x q
    using K' [of x] that f by (cases "pm_get x K") (auto split: if_splits)
  have dj: "avail P free ?M' \<inter> ms_frames (space_of q) = {}" if "pm_get x K = Some q" "x \<noteq> c" for x q
    using ms_frames_ok(2) [OF d(2) [OF that(1)]] d(4) [OF that(1) c that(2)] M'(3) by blast
  have "ms_ok P free (space_of q) ?M' \<and> (\<forall>(k, a)\<in>set (user_areas (space_of q)). anonymous a)"
    if q: "pm_get x K' = Some q" for x q
  proof -
    obtain q0 where q0: "x \<noteq> c" "pm_get x K = Some q0" "space_of q = space_of q0" using before [OF q] by blast
    have "ms_ok P free (space_of q0) ?M'"
      by (rule ms_ok_untouched(1) [OF d(2) [OF q0(2)] M'(2) dj [OF q0(2,1)]]) (simp add: M'(1))
    then show ?thesis using d(3) [OF q0(2)] q0(3) by simp
  qed
  moreover have "ms_frames (space_of q) \<inter> ms_frames (space_of r) = {}"
    if qr: "pm_get x K' = Some q" "pm_get y K' = Some r" "x \<noteq> y" for x y q r
  proof -
    obtain q0 r0 where "pm_get x K = Some q0" "space_of q = space_of q0" "pm_get y K = Some r0" "space_of r = space_of r0"
      using before [OF qr(1)] before [OF qr(2)] by blast
    then show ?thesis using d(4) qr(3) by simp
  qed
  ultimately have "spaces_ok P free K'" using d(1) root by (simp add: spaces_ok_def)
  moreover have "sees_same q ?M q' ?M'" if x: "pm_get x K = Some q" "pm_get x K' = Some q'" for x q q'
  proof (rule untouched_same [OF d(2,3) [OF x(1)] M'(2)])
    show "avail P free ?M' \<inter> ms_frames (space_of q) = {}" using dj [OF x(1)] before [OF x(2)] by blast
    show "space_of q' = space_of q" using before [OF x(2)] x(1) by auto
  qed (simp add: M'(1))
  moreover have "alive x K'" if "alive x K" for x using that K' [of x] c f z by (auto simp: alive_def)
  ultimately show ?thesis by (auto simp: isolated_def)
qed

section \<open>The steps of a process\<close>

text \<open>
  The steps of the process \<open>self\<close> that this theory is about.  A shared file mapping is left out,
  since it shares memory on purpose.  The end of the heap is only moved where there is room for it.
  The calls on files and signals and exec are no steps here.
\<close>

definition brk_room :: "nat \<Rightarrow> nat \<Rightarrow> 'fa kernel \<Rightarrow> bool" where
  "brk_room self brk K \<longleftrightarrow> (\<forall>p. pm_get self K = Some p \<longrightarrow>
     (let h = vpn_floor (fst (heap_range (inner p))); m = user_areas (space_of p) in
       (\<forall>(j, b)\<in>set m. h < j \<longrightarrow> vpn_ceil brk \<le> j)
     \<and> (bt_get m h = None \<longrightarrow> (\<forall>(j, b)\<in>set m. j < h \<longrightarrow> vpn_end b \<le> h))))"

inductive kstep ::
  "'fa platform \<Rightarrow> (nat \<Rightarrow> (nat, ppn) btree) \<Rightarrow> nat \<Rightarrow> 'fa kernel \<Rightarrow> 'fa kernel \<Rightarrow> bool" for P cache where
  k_clone: "sys_clone P cache self flags stack K = Some (r, K') \<Longrightarrow> kstep P cache self K K'"
| k_exit_thread: "exit_thread P self t K = Some K' \<Longrightarrow> kstep P cache self K K'"
| k_exit: "sys_exit self t code K = Some (e, K') \<Longrightarrow> kstep P cache self K K'"
| k_exit_group: "sys_exit_group self gcode K = Some (e, K') \<Longrightarrow> kstep P cache self K K'"
| k_wait: "sys_wait4 P self wanted wstatus options rusage K = Some (w, n, K') \<Longrightarrow> kstep P cache self K K'"
| k_mmap: "sys_mmap P cache info self addr len prot mflags fd off K = Ok (va, K') \<Longrightarrow> addr < usize_limit \<Longrightarrow>
     \<not> has_flag mflags MAP_SHARED \<Longrightarrow> kstep P cache self K K'"
| k_munmap: "sys_munmap P self addr len K = Ok (z, K') \<Longrightarrow> kstep P cache self K K'"
| k_brk: "sys_brk P self brk K = Ok (b, K') \<Longrightarrow> brk_room self brk K \<Longrightarrow> kstep P cache self K K'"
| k_fault: "pm_get self K = Some p \<Longrightarrow> handle_memory_exception P addr cow (space_of p) (machine K) = Some (hit, ms, M) \<Longrightarrow>
     set_space self ms M K = Some K' \<Longrightarrow> kstep P cache self K K'"
| k_store: "pm_get self K = Some p \<Longrightarrow> va < LOW_ADDRESS_END \<Longrightarrow>
     pt_lookup (mem (machine K)) (ms_table (space_of p)) (va div PAGE_SIZE) = Some (f, fl) \<Longrightarrow>
     K' = K\<lparr>machine := (machine K)\<lparr>mem := (mem (machine K))(f * PAGE_SIZE + va mod PAGE_SIZE := byte)\<rparr>\<rparr> \<Longrightarrow>
     kstep P cache self K K'"

text \<open>A step that replaces the process itself.\<close>

lemma local_step:
  assumes ok: "kernel_ok K" "spaces_ok P free K" and p: "pm_get self K = Some p"
    and p': "proc_ok self p'" "node_of p' = node_of p" "\<forall>(k, a)\<in>set (user_areas (space_of p')). anonymous a"
    and st: "space_step P free (space_of p) (machine K) (space_of p') M"
    and K': "K' = pm_add self p' (K\<lparr>machine := M\<rparr>)"
  shows "kernel_ok K'" "isolated P free self K K'"
proof -
  show "kernel_ok K'" unfolding K' by (rule kernel_ok_update(1)) (use ok(1) p p' in simp_all)
  show "isolated P free self K K'"
  proof (rule space_step_isolated [OF ok(2) p])
    show "pm_get self K' = Some p'" by (simp add: K')
    show "pm_get x K' = map_option ((\<lambda>_. id) x) (pm_get x K)" if "x \<noteq> self" for x
      using that by (simp add: K' option.map_id0)
    show "kernel_root K' = kernel_root K" by (simp add: K')
    show "space_step P free (space_of p) (machine K) (space_of p') (machine K')" using st by (simp add: K')
  qed (use p'(3) in simp_all)
qed

lemma set_space_step:
  assumes ok: "kernel_ok K" "spaces_ok P free K" and p: "pm_get self K = Some p"
    and st: "space_step P free (space_of p) (machine K) ms M" and an: "\<forall>(k, a)\<in>set (user_areas ms). anonymous a"
    and K': "set_space self ms M K = Some K'"
  shows "kernel_ok K'" "isolated P free self K K'"
proof -
  let ?p = "p\<lparr>inner := (inner p)\<lparr>space := ms\<rparr>\<rparr>"
  have e: "K' = pm_add self ?p (K\<lparr>machine := M\<rparr>)" using K' p by (simp add: set_space_def lock_inner_with_def)
  have "proc_ok self ?p" "node_of ?p = node_of p" using kernel_okD(3) [OF ok(1) p] by (simp_all add: proc_ok_def node_of_def)
  moreover have "space_of ?p = ms" by (simp add: space_of_def)
  ultimately show "kernel_ok K'" "isolated P free self K K'" using local_step [OF ok p _ _ _ _ e] st an by simp_all
qed

lemma isolated_refl: "spaces_ok P free K \<Longrightarrow> isolated P free self K K"
  by (auto simp: isolated_def sees_same_def)

subsection \<open>Clone\<close>

lemma fork_step:
  assumes bs: "buddy_spec P free" and ok: "kernel_ok K" "spaces_ok P free K" and f: "fork P cache self stack sig K = Some (c, K')"
  shows "kernel_ok K'" "isolated P free self K K'"
proof -
  obtain p t pa ms M where p: "pm_get self K = Some p" and th: "length (threads (inner p)) = 1"
    and t: "main_thread (inner p) = Some t" and ra: "ra_alloc (pid_allocator K) = Some (c, pa)"
    and fo: "from_other P cache (kernel_root K) (space (inner p)) (machine K) = Some (ms, M)"
    using f by (auto simp: fork_def bind_eq_Some_conv Let_def split: if_splits)
  note ft = fork_tree [OF ok(1) f]
  show "kernel_ok K'" by (rule ft(2))
  have ne: "self \<noteq> c" using ft(1) p by auto
  note d = spaces_okD [OF ok(2)]
  have "fresh_space P free (machine K) ms M" "\<forall>(k, a)\<in>set (user_areas ms). anonymous a"
    using from_other_fresh [OF bs d(2) [OF p, unfolded space_of_def] d(1) d(3) [OF p, unfolded space_of_def] fo] .
  moreover obtain child where ch: "space_of child = ms" "machine K' = M" "kernel_root K' = kernel_root K"
    "\<And>x. pm_get x K' = (if x = c then Some child else
       map_option (\<lambda>q. if x = self then q\<lparr>inner := (inner q)\<lparr>children := children (inner q) @ [c]\<rparr>\<rparr> else q) (pm_get x K))"
  proof -
    define ctx where "ctx = set_a0 0 (case stack of Some s \<Rightarrow> set_sp s (trap_ctx t) | None \<Rightarrow> trap_ctx t)"
    define child where "child = \<lparr>pid = c, name = name p, wait4_event = 0, status = status p, exit_signal = sig,
        inner = (inner p)\<lparr>space := ms, parent := Some self, children := [],
          threads := [(tid t, thread_new (tid t) ctx (signal_mask (th_inner t)))]\<rparr>\<rparr>"
    define K1 where "K1 = pm_add c child (K\<lparr>machine := M, pid_allocator := pa\<rparr>)"
    have g1: "pm_get self K1 = Some p" using p ne by (simp add: K1_def)
    have K': "K' = pm_add self (p\<lparr>inner := (inner p)\<lparr>children := children (inner p) @ [c]\<rparr>\<rparr>) K1"
      using f lock_inner_with_Some [OF g1, of "\<lambda>i. i\<lparr>children := children i @ [c]\<rparr>"]
      by (simp add: fork_def p th [simplified] t ra fo Let_def child_def ctx_def K1_def)
    show thesis
    proof (rule that [of child])
      show "pm_get x K' = (if x = c then Some child else
         map_option (\<lambda>q. if x = self then q\<lparr>inner := (inner q)\<lparr>children := children (inner q) @ [c]\<rparr>\<rparr> else q) (pm_get x K))" for x
        using p ne by (cases "pm_get x K") (auto simp: K' K1_def)
    qed (simp_all add: child_def space_of_def K' K1_def)
  qed
  ultimately show "isolated P free self K K'"
    by (intro fork_isolated [OF ok(2) ft(1), of child K' "\<lambda>x q. if x = self then q\<lparr>inner := (inner q)\<lparr>children := children (inner q) @ [c]\<rparr>\<rparr> else q"])
      (simp_all add: space_of_def)
qed

lemma clone_step:
  assumes bs: "buddy_spec P free" and ok: "kernel_ok K" "spaces_ok P free K"
    and c: "sys_clone P cache self flags stack K = Some (r, K')"
  shows "kernel_ok K' \<and> isolated P free self K K'"
proof -
  have "K' = K \<or> (\<exists>st sig c. fork P cache self st sig K = Some (c, K'))"
    using c by (auto simp: sys_clone_def Let_def bind_eq_Some_conv split: if_splits sum.splits option.splits)
  then show ?thesis using fork_step [OF bs ok] isolated_refl [OF ok(2)] ok(1) by blast
qed

subsection \<open>Exit\<close>

lemma remove_area_areas:
  assumes "remove_area_with_start_vpn P v ms M = Some (ms', M')" "bt_inv (user_areas ms)"
  shows "set (user_areas ms') \<subseteq> set (user_areas ms)"
  using assms
  by (auto simp: remove_area_with_start_vpn_def bind_eq_Some_conv set_bt_remove split: option.splits)

lemma dealloc_stack_areas:
  "dealloc_user_stack P t ms M = Some (ms', M') \<Longrightarrow> bt_inv (user_areas ms) \<Longrightarrow> set (user_areas ms') \<subseteq> set (user_areas ms)"
  using remove_area_areas [of P _ ms M ms' M'] by (auto simp: dealloc_user_stack_def bind_eq_Some_conv)

lemma exit_last:
  assumes bs: "buddy_spec P free" and ok: "kernel_ok K" "spaces_ok P free K" and p: "pm_get self K = Some p"
    and th: "threads (inner p) = [(t, th)]" and low: "user_stack_low_addr t \<noteq> None" and one: "self = 1 \<Longrightarrow> children (inner p) = []"
  obtains K' ms where "exit_thread P self t K = Some K'" "pid_allocator K' = pid_allocator K" "kernel_root K' = kernel_root K"
    "bt_inv (manager K')" "shutdown K' = (shutdown K \<or> self = 1)" "pm_get self K' = Some (zombie_of K ms th p)"
    "\<forall>x. x \<noteq> self \<longrightarrow> pm_get x K' = map_option (after_exit p x) (pm_get x K)"
    "space_step P free (space (inner p)) (machine K) ms (machine K')" "user_areas ms = []"
proof -
  have okm: "ms_ok P free (space (inner p)) (machine K)" using spaces_okD(2) [OF ok(2) p] by (simp add: space_of_def)
  obtain ms1 M1 where ds: "dealloc_user_stack P t (space (inner p)) (machine K) = Some (ms1, M1)" "ms_ok P free ms1 M1"
    "confined P free (space (inner p)) (machine K) ms1 M1"
    using dealloc_stack_confined [OF bs okm low] .
  obtain ms2 M2 where rc: "recycle_user_pages P ms1 M1 = Some (ms2, M2)" "ms_ok P free ms2 M2" "confined P free ms1 M1 ms2 M2"
    "user_areas ms2 = []"
    using recycle_confined [OF bs ds(2)] .
  have st: "space_step P free (space (inner p)) (machine K) ms2 M2"
    using confined_trans [OF ds(3) rc(3)] rc(2) by (simp add: space_step_def)
  obtain K' where K': "exit_thread P self t K = Some K'" "machine K' = M2" "pid_allocator K' = pid_allocator K"
      "shutdown K' = (shutdown K \<or> self = 1)" "kernel_root K' = kernel_root K" "bt_inv (manager K')"
      "pm_get self K' = Some (zombie_of K ms2 th p)" "\<forall>x. x \<noteq> self \<longrightarrow> pm_get x K' = map_option (after_exit p x) (pm_get x K)"
    using exit_thread_last [OF ok(1) p th ds(1) rc(1) one] by blast
  show thesis by (rule that [OF K'(1,3,5,6,4,7,8) _ rc(4)]) (use st K'(2) in simp)
qed

lemma exit_last_Some:
  assumes ok: "kernel_ok K" and p: "pm_get self K = Some p" and th: "threads (inner p) = [(t, th)]"
    and e: "exit_thread P self t K = Some K'"
  shows "user_stack_low_addr t \<noteq> None" "self = 1 \<Longrightarrow> children (inner p) = []"
proof -
  show "user_stack_low_addr t \<noteq> None"
    using e by (auto simp: exit_thread_def p dealloc_user_stack_def bind_eq_Some_conv Let_def)
  show "children (inner p) = []" if s: "self = 1"
    using e p th unfolding s by (auto simp: exit_thread_def Let_def INITPROC_PID_def bt_get_Cons bind_eq_Some_conv split: if_splits)
qed

lemma exit_last_tree:
  assumes bs: "buddy_spec P free" and ok: "kernel_ok K" "spaces_ok P free K" and p: "pm_get self K = Some p"
    and th: "threads (inner p) = [(t, th)]" and e: "exit_thread P self t K = Some K'"
  shows "tree_of K' = t_exit self (tree_of K)"
proof -
  note ex = exit_last_Some [OF ok(1) p th e]
  obtain K2 ms where K2: "exit_thread P self t K = Some K2" "pid_allocator K2 = pid_allocator K" "bt_inv (manager K2)"
    "pm_get self K2 = Some (zombie_of K ms th p)" "\<forall>x. x \<noteq> self \<longrightarrow> pm_get x K2 = map_option (after_exit p x) (pm_get x K)"
    using exit_last [OF bs ok p th ex] by metis
  then show ?thesis using exit_thread_last_ok(1) [OF ok(1) p th ex(2) K2(2-5)] e by simp
qed

lemma exit_thread_step:
  assumes bs: "buddy_spec P free" and ok: "kernel_ok K" "spaces_ok P free K" and e: "exit_thread P self t K = Some K'"
  shows "kernel_ok K' \<and> isolated P free self K K'"
proof -
  obtain p th ta ms1 M1 where p: "pm_get self K = Some p" and th: "bt_get (threads (inner p)) t = Some th"
    and ta: "ra_dealloc t (tid_allocator (inner p)) = Some ta"
    and ds: "dealloc_user_stack P t (space (inner p)) (machine K) = Some (ms1, M1)"
    using e by (auto simp: exit_thread_def bind_eq_Some_conv Let_def split: if_splits)
  note d = spaces_okD [OF ok(2)]
  have pok: "proc_ok self p" using kernel_okD(3) [OF ok(1) p] .
  have inv: "bt_inv (threads (inner p))" using pok by (simp add: proc_ok_def)
  have tin: "(t, th) \<in> set (threads (inner p))" using th bt_get_in [OF inv] by blast
  have okm: "ms_ok P free (space (inner p)) (machine K)" using d(2) [OF p] by (simp add: space_of_def)
  have am: "bt_inv (user_areas (space (inner p)))" using areas_ok_inv [OF ms_okD(1) [OF okm]] .
  have "user_stack_low_addr t \<noteq> None" using ds by (auto simp: dealloc_user_stack_def bind_eq_Some_conv)
  then have st1: "space_step P free (space (inner p)) (machine K) ms1 M1"
    using dealloc_stack_confined [OF bs okm, of t] ds by (auto simp: space_step_def)
  have an1: "\<forall>(k, a)\<in>set (user_areas ms1). anonymous a"
    using dealloc_stack_areas [OF ds am] d(3) [OF p] by (auto simp: space_of_def)
  have rest: "set (bt_remove t (threads (inner p))) = {x \<in> set (threads (inner p)). fst x \<noteq> t}" by (rule set_bt_remove [OF inv])
  show ?thesis
  proof (cases "bt_remove t (threads (inner p)) = []")
    case False
    let ?p = "p\<lparr>inner := (inner p)\<lparr>threads := bt_remove t (threads (inner p)), tid_allocator := ta, space := ms1\<rparr>\<rparr>"
    have K': "K' = pm_add self ?p (K\<lparr>machine := M1\<rparr>)"
      using e False by (simp add: exit_thread_def p th ta ds Let_def)
    have ne: "threads (inner p) \<noteq> []" using tin by auto
    have "ra_inv 0 (fst ` set (threads (inner p)) - {t}) ta"
      using ra_dealloc_inv [of 0 "fst ` set (threads (inner p))" "tid_allocator (inner p)" t] pok tin ta ne
      by (force simp: proc_ok_def)
    moreover have "fst ` set (bt_remove t (threads (inner p))) = fst ` set (threads (inner p)) - {t}" by (auto simp: rest)
    ultimately have "proc_ok self ?p" using pok False ne inv by (auto simp: proc_ok_def rest)
    moreover have "node_of ?p = node_of p" "space_of ?p = ms1" by (simp_all add: node_of_def space_of_def)
    ultimately show ?thesis
      using local_step [OF ok p _ _ _ _ K'] st1 an1 by (simp add: space_of_def)
  next
    case True
    then have tl: "threads (inner p) = [(t, th)]" using bt_remove_Nil [OF inv th] by blast
    note ex = exit_last_Some [OF ok(1) p tl e]
    obtain K2 ms2 where K2: "exit_thread P self t K = Some K2" "pid_allocator K2 = pid_allocator K" "kernel_root K2 = kernel_root K"
      "bt_inv (manager K2)" "pm_get self K2 = Some (zombie_of K ms2 th p)"
      "\<forall>x. x \<noteq> self \<longrightarrow> pm_get x K2 = map_option (after_exit p x) (pm_get x K)"
      and st2: "space_step P free (space (inner p)) (machine K) ms2 (machine K2)" "user_areas ms2 = []"
      using exit_last [OF bs ok p tl ex] by metis
    have K': "K' = K2" using e K2(1) by simp
    have sp: "space_of (zombie_of K ms2 th p) = ms2" by (simp add: zombie_of_def space_of_def)
    have "isolated P free self K K2"
    proof (rule space_step_isolated [OF ok(2) p _ _ K2(5)])
      show "space_step P free (space_of p) (machine K) (space_of (zombie_of K ms2 th p)) (machine K2)"
        using st2(1) by (simp add: sp) (simp add: space_of_def)
      show "\<forall>(k, a)\<in>set (user_areas (space_of (zombie_of K ms2 th p))). anonymous a" by (simp add: sp st2(2))
      show "pm_get x K2 = map_option (after_exit p x) (pm_get x K)" if "x \<noteq> self" for x using K2(6) that by blast
      show "space_of (after_exit p x q) = space_of q \<and> status (after_exit p x q) = status q" for x q
        by (simp add: after_exit_def inherit_def notified_def receive_signal_def space_of_def split: option.split)
      show "kernel_root K2 = kernel_root K" by (rule K2(3))
    qed
    then show ?thesis using exit_thread_last_ok(2) [OF ok(1) p tl ex(2) K2(2,4,5,6)] K' by simp
  qed
qed

lemma sys_exit_step:
  assumes ok: "kernel_ok K" "spaces_ok P free K" and e: "sys_exit self t code K = Some (r, K')"
  shows "kernel_ok K' \<and> isolated P free self K K'"
proof -
  obtain p th where p: "pm_get self K = Some p" and th: "bt_get (threads (inner p)) t = Some th"
    using e by (auto simp: sys_exit_def bind_eq_Some_conv)
  let ?ts = "bt_insert t (th\<lparr>exit_code := ucast (code AND 0xff)\<rparr>) (threads (inner p))"
  let ?p = "p\<lparr>inner := (inner p)\<lparr>threads := ?ts\<rparr>\<rparr>"
  have K': "K' = pm_add self ?p (K\<lparr>machine := machine K\<rparr>)"
    using e by (simp add: sys_exit_def p th lock_inner_with_Some [OF p])
  have pok: "proc_ok self p" using kernel_okD(3) [OF ok(1) p] .
  then have inv: "bt_inv (threads (inner p))" by (simp add: proc_ok_def)
  have tin: "(t, th) \<in> set (threads (inner p))" using th bt_get_in [OF inv] by blast
  have ks: "fst ` set ?ts = fst ` set (threads (inner p))" using tin by force
  have "?ts \<noteq> []" using keys_bt_insert [of t _ "threads (inner p)"] by (metis image_empty insert_not_empty list.set(1))
  moreover have "threads (inner p) \<noteq> []" using tin by auto
  moreover have "\<forall>(k, t)\<in>set ?ts. tid t = k" using pok tin by (auto simp: set_bt_insert [OF inv] proc_ok_def)
  ultimately have "proc_ok self ?p" using pok unfolding proc_ok_def by (simp add: ks del: keys_bt_insert)
  moreover have "node_of ?p = node_of p" "space_of ?p = space_of p" by (simp_all add: node_of_def space_of_def)
  ultimately show ?thesis
    using local_step [OF ok p _ _ _ _ K'] spaces_okD(2,3) [OF ok(2) p] by (simp add: space_step_refl)
qed

lemma sys_exit_group_step:
  assumes ok: "kernel_ok K" "spaces_ok P free K" and e: "sys_exit_group self code K = Some (r, K')"
  shows "kernel_ok K' \<and> isolated P free self K K'"
proof -
  obtain p where p: "pm_get self K = Some p" and s: "status p = ps_normal"
    and K': "K' = pm_add self (p\<lparr>status := ps_exited (ucast (code AND 0xff))\<rparr>) (K\<lparr>machine := machine K\<rparr>)"
    using e by (auto simp: sys_exit_group_def exit_process_def bind_eq_Some_conv split: if_splits)
  let ?p = "p\<lparr>status := ps_exited (ucast (code AND 0xff))\<rparr>"
  have "proc_ok self ?p" "node_of ?p = node_of p" "space_of ?p = space_of p"
    using kernel_okD(3) [OF ok(1) p] s by (simp_all add: proc_ok_def node_of_def space_of_def)
  then show ?thesis
    using local_step [OF ok p _ _ _ _ K'] spaces_okD(2,3) [OF ok(2) p] by (simp add: space_step_refl)
qed

subsection \<open>Wait\<close>

definition collect_result :: "unit res option \<Rightarrow> nat \<Rightarrow> 8 word \<Rightarrow> nat res option \<times> 32 word option" where
  "collect_result wstatus c code = (case wstatus of
     None \<Rightarrow> (Some (Ok c), None)
   | Some (Inl e) \<Rightarrow> (Some (Inl e), None)
   | Some (Inr _) \<Rightarrow> (Some (Ok c), Some (push_bit 8 (ucast code))))"

abbreviation zombie_child :: "int \<Rightarrow> process \<Rightarrow> 'fa kernel \<Rightarrow> bool" where
  "zombie_child wanted p K \<equiv>
     \<exists>c\<in>set (children (inner p)). wants wanted c \<and> (\<exists>q. pm_get c K = Some q \<and> is_zombie (status q))"

lemma wait4_collects:
  assumes bs: "buddy_spec P free" and ok: "kernel_ok K" "spaces_ok P free K" and p: "pm_get self K = Some p"
    and z: "zombie_child wanted p K"
  obtains c q pa M code where "c \<in> set (children (inner p))" "wants wanted c" "c \<noteq> self" "pm_get c K = Some q"
    "ps_exit_code (status q) = Some code" "is_zombie (status q)"
    "kernel_ok (reaped self p c pa M K)" "mem M = mem (machine K)" "avail_ok P free M"
    "avail P free M \<subseteq> ms_frames (space_of q) \<union> avail P free (machine K)"
    "wait4_round P self wanted wstatus options K =
       Some (fst (collect_result wstatus c code), snd (collect_result wstatus c code), reaped self p c pa M K)"
proof -
  obtain c q pa where c: "c \<in> set (children (inner p))" "wants wanted c" "c \<noteq> self" "pm_get c K = Some q" "is_zombie (status q)"
    "\<forall>M. kernel_ok (reaped self p c pa M K)"
    and eq: "wait4_round P self wanted wstatus options K = do {
           code \<leftarrow> ps_exit_code (status q);
           M \<leftarrow> space_drop P (space (inner q)) (machine K);
           Some (case wstatus of
                None \<Rightarrow> (Some (Ok c), None, reaped self p c pa M K)
              | Some (Inl e) \<Rightarrow> (Some (Inl e), None, reaped self p c pa M K)
              | Some (Inr _) \<Rightarrow> (Some (Ok c), Some (push_bit 8 (ucast code)), reaped self p c pa M K)) }"
    using wait4_round_cases(3) [OF ok(1) p z, of P wstatus options] by (elim exE conjE)
  have "status q \<noteq> ps_normal" using c(5) by auto
  then obtain code where code: "ps_exit_code (status q) = Some code" by (auto simp: ps_exit_code_def)
  have okq: "ms_ok P free (space (inner q)) (machine K)" using spaces_okD(2) [OF ok(2) c(4)] by (simp add: space_of_def)
  obtain M where M: "space_drop P (space (inner q)) (machine K) = Some M" "mem M = mem (machine K)" "avail_ok P free M"
    "avail P free M \<subseteq> ms_frames (space_of q) \<union> avail P free (machine K)"
    using space_drop_ok [OF bs okq] unfolding space_of_def .
  have "wait4_round P self wanted wstatus options K =
       Some (fst (collect_result wstatus c code), snd (collect_result wstatus c code), reaped self p c pa M K)"
    unfolding eq using code M(1) by (simp add: collect_result_def split: option.split sum.split)
  then show thesis using that c code M(2-4) by blast
qed

lemma wait4_round_step:
  assumes bs: "buddy_spec P free" and ok: "kernel_ok K" "spaces_ok P free K"
    and r: "wait4_round P self wanted wstatus options K = Some (r, n, K')"
  shows "kernel_ok K' \<and> isolated P free self K K'"
proof -
  obtain p where p: "pm_get self K = Some p" using r by (auto simp: wait4_round_def bind_eq_Some_conv)
  show ?thesis
  proof (cases "zombie_child wanted p K")
    case False
    then have "K' = K" using wait4_round_cases(1,2) [OF ok(1) p, of wanted P wstatus options] r
      by (cases "\<exists>c\<in>set (children (inner p)). wants wanted c") (simp_all split: if_splits)
    then show ?thesis using ok isolated_refl by blast
  next
    case True
    obtain c q pa M code where c: "c \<noteq> self" "pm_get c K = Some q" "is_zombie (status q)" "kernel_ok (reaped self p c pa M K)"
      and M: "mem M = mem (machine K)" "avail_ok P free M" "avail P free M \<subseteq> ms_frames (space_of q) \<union> avail P free (machine K)"
      and eq: "wait4_round P self wanted wstatus options K =
        Some (fst (collect_result wstatus c code), snd (collect_result wstatus c code), reaped self p c pa M K)"
      using wait4_collects [OF bs ok p True] .
    have K': "K' = reaped self p c pa M K" using r eq by simp
    have inv: "bt_inv (manager (pm_add self x K))" for x using kernel_okD(1) [OF ok(1)] by simp
    have "isolated P free self K K'"
    proof (rule reap_isolated [OF ok(2) c(2)])
      show "pm_get x K' = (if x = c then None else map_option (\<lambda>q. if x = self then
          q\<lparr>inner := (inner q)\<lparr>children := remove1 c (children (inner q))\<rparr>\<rparr> else q) (pm_get x K))" for x
        using p c(1) by (cases "pm_get x K") (auto simp: K' reaped_def pm_get_remove [OF inv])
    qed (use c M in \<open>simp_all add: reaped_def space_of_def K'\<close>)
    then show ?thesis using c(4) K' by simp
  qed
qed

lemma wait4_step:
  assumes bs: "buddy_spec P free" and ok: "kernel_ok K" "spaces_ok P free K"
    and w: "sys_wait4 P self wanted wstatus options rusage K = Some (r, n, K')"
  shows "kernel_ok K' \<and> isolated P free self K K'"
proof -
  have "K' = K \<or> wait4_round P self wanted wstatus (word_of_nat options) K = Some (r, n, K')"
    using w by (auto simp: sys_wait4_def Let_def bind_eq_Some_conv split: if_splits)
  then show ?thesis using wait4_round_step [OF bs ok] isolated_refl [OF ok(2)] ok(1) by blast
qed

subsection \<open>Memory\<close>

lemma mmap_step:
  assumes ok: "kernel_ok K" "spaces_ok P free K" and addr: "addr < usize_limit" and pr: "\<not> has_flag flags MAP_SHARED"
    and m: "sys_mmap P cache info self addr len prot flags fd off K = Ok (va, K')"
  shows "kernel_ok K' \<and> isolated P free self K K'"
proof -
  obtain v where len: "len \<noteq> 0" and pa: "private_anonymous_map P self addr len prot flags K = Ok (v, K')"
    using m pr by (auto simp: sys_mmap_def res_simps split: if_splits)
  obtain p ms M where p: "pm_get self K = Some p"
    and tm: "try_map P addr len (perm_from_prot prot) flags (space_of p) (machine K) = Ok (v, ms, M)"
    and ss: "set_space self ms M K = Some K'"
    using pa by (auto simp: private_anonymous_map_def res_simps space_of_def split: prod.splits)
  note d = spaces_okD [OF ok(2)]
  have st: "space_step P free (space_of p) (machine K) ms M"
    and ar: "\<exists>e. user_areas ms = bt_insert v (vm_area_new v e (perm_from_prot prot) Lazy) (user_areas (space_of p))"
    using try_map_step [OF d(2) [OF p] _ addr tm] len by auto
  have inv: "bt_inv (user_areas (space_of p))" using areas_ok_inv [OF ms_okD(1) [OF d(2) [OF p]]] .
  have "\<forall>(k, a)\<in>set (user_areas ms). anonymous a"
    using ar d(3) [OF p] by (auto simp: set_bt_insert [OF inv] anonymous_def vm_area_new_def)
  then show ?thesis using set_space_step [OF ok p st _ ss] by blast
qed

lemma unmap_areas_subset:
  "bt_inv (user_areas ms) \<Longrightarrow> unmap_areas P ks ms M = Some (ms', M') \<Longrightarrow> set (user_areas ms') \<subseteq> set (user_areas ms)"
proof (induction ks arbitrary: ms M)
  case (Cons k ks)
  obtain pt M1 where "unmap_areas P ks \<lparr>ms_table = pt, user_areas = bt_remove k (user_areas ms)\<rparr> M1 = Some (ms', M')"
    using Cons.prems(2) by (auto simp: bind_eq_Some_conv)
  from Cons.IH [OF _ this] have "set (user_areas ms') \<subseteq> set (bt_remove k (user_areas ms))" using Cons.prems(1) by simp
  then show ?case using Cons.prems(1) by (auto simp: set_bt_remove)
qed simp

lemma munmap_step:
  assumes bs: "buddy_spec P free" and ok: "kernel_ok K" "spaces_ok P free K" and m: "sys_munmap P self addr len K = Ok (z, K')"
  shows "kernel_ok K' \<and> isolated P free self K K'"
proof -
  obtain p e ms M where p: "pm_get self K = Some p" and u: "ms_unmap P addr e (space_of p) (machine K) = Some (ms, M)"
    and ss: "set_space self ms M K = Some K'"
    using m by (auto simp: sys_munmap_def res_simps space_of_def split: if_splits prod.splits)
  note d = spaces_okD [OF ok(2)]
  have inv: "bt_inv (user_areas (space_of p))" using areas_ok_inv [OF ms_okD(1) [OF d(2) [OF p]]] .
  have "set (user_areas ms) \<subseteq> set (user_areas (space_of p))"
    using u unmap_areas_subset [OF inv] unfolding ms_unmap_areas [OF ms_okD(1) [OF d(2) [OF p]] refl refl] by (simp split: if_splits)
  then have "\<forall>(k, a)\<in>set (user_areas ms). anonymous a" using d(3) [OF p] by blast
  moreover have "space_step P free (space_of p) (machine K) ms M"
    using unmap_confined [OF bs d(2) [OF p] u] by (simp add: space_step_def)
  ultimately show ?thesis using set_space_step [OF ok p _ _ ss] by blast
qed

lemma fault_step:
  assumes bs: "buddy_spec P free" and ok: "kernel_ok K" "spaces_ok P free K" and p: "pm_get self K = Some p"
    and h: "handle_memory_exception P addr cow (space_of p) (machine K) = Some (hit, ms, M)" and ss: "set_space self ms M K = Some K'"
  shows "kernel_ok K' \<and> isolated P free self K K'"
proof -
  note d = spaces_okD [OF ok(2)]
  have inv: "bt_inv (user_areas (space_of p))" using areas_ok_inv [OF ms_okD(1) [OF d(2) [OF p]]] .
  have en: "anonymous a'" if "ensure_allocated P v a pt M1 = Some (q, a', pt', M2)" "anonymous a" for v a pt M1 q a' pt' M2
    using that by (auto simp: ensure_allocated_def anonymous_def bind_eq_Some_conv split: option.splits)
  have "\<forall>(k, a)\<in>set (user_areas ms). anonymous a"
  proof (cases "ms = space_of p")
    case False
    then obtain k a a' pt' q where l: "bt_last_le (vpn_floor addr) (user_areas (space_of p)) = Some (k, a)"
      and e: "ensure_allocated P (vpn_floor addr) a (ms_table (space_of p)) (machine K) = Some (q, a', pt', M)"
      and ms: "user_areas ms = bt_insert k a' (user_areas (space_of p))"
      using h by (auto simp: handle_memory_exception_def Let_def bind_eq_Some_conv split: if_splits option.splits area_type.splits)
    have "anonymous a" using bt_last_le_Some(1) [OF inv l] d(3) [OF p] by blast
    then show ?thesis using en [OF e] d(3) [OF p] by (auto simp: ms set_bt_insert [OF inv])
  qed (use d(3) [OF p] in simp)
  moreover have "space_step P free (space_of p) (machine K) ms M"
    using fault_confined [OF bs d(2) [OF p] h] by (simp add: space_step_def)
  ultimately show ?thesis using set_space_step [OF ok p _ _ ss] by blast
qed

lemma store_step:
  assumes ok: "kernel_ok K" "spaces_ok P free K" and p: "pm_get self K = Some p" and va: "va < LOW_ADDRESS_END"
    and l: "pt_lookup (mem (machine K)) (ms_table (space_of p)) (va div PAGE_SIZE) = Some (f, fl)"
    and K': "K' = K\<lparr>machine := (machine K)\<lparr>mem := (mem (machine K))(f * PAGE_SIZE + va mod PAGE_SIZE := b)\<rparr>\<rparr>"
  shows "kernel_ok K' \<and> isolated P free self K K'"
proof -
  note d = spaces_okD [OF ok(2)]
  have u: "user_vpn (va div PAGE_SIZE)" using va by (simp add: LOW_ADDRESS_END_def user_vpn_def PAGE_SIZE_def)
  obtain v pr where own: "ms_owns (user_areas (space_of p)) v f pr"
    using ownedD [OF lookup_owned [OF d(2,3) [OF p] u l]] by blast
  have st: "space_step P free (space_of p) (machine K) (space_of p) (machine K')"
    by (rule step_write [OF d(2) [OF p] own]) (auto simp: K' PAGE_SIZE_def)
  have "isolated P free self K K'"
  proof (rule space_step_isolated [OF ok(2) p st d(3) [OF p]])
    show "pm_get x K' = map_option ((\<lambda>_. id) x) (pm_get x K)" for x by (simp add: K' option.map_id0)
  qed (simp_all add: K' p)
  then show ?thesis using ok(1) by (simp add: K')
qed

lemma brk_step:
  assumes bs: "buddy_spec P free" and ok: "kernel_ok K" "spaces_ok P free K" and m: "sys_brk P self brk K = Ok (r, K')"
    and room: "brk_room self brk K"
  shows "kernel_ok K' \<and> isolated P free self K K'"
proof -
  obtain p i M where p: "pm_get self K = Some p" and b: "inner_set_user_brk P brk (inner p) (machine K) = Some (r, i, M)"
    and K': "K' = pm_add self (p\<lparr>inner := i\<rparr>) (K\<lparr>machine := M\<rparr>)"
    using m by (auto simp: sys_brk_def res_simps split: prod.splits)
  let ?h = "vpn_floor (fst (heap_range (inner p)))" and ?m = "user_areas (space_of p)"
  note d = spaces_okD [OF ok(2)]
  have pok: "proc_ok self p" using kernel_okD(3) [OF ok(1) p] .
  show ?thesis
  proof (cases "brk \<le> fst (heap_range (inner p)) \<or> LOW_ADDRESS_END < brk")
    case True
    then have "i = inner p" "M = machine K" using b by (auto simp: inner_set_user_brk_def)
    then show ?thesis
      using local_step [OF ok p _ _ _ _ K'] pok d(2,3) [OF p] by (simp add: space_step_refl)
  next
    case False
    obtain ms where su: "set_user_brk P ?h (vpn_ceil brk) (space_of p) (machine K) = Some (ms, M)"
      and i: "i = (inner p)\<lparr>space := ms, heap_range := (fst (heap_range (inner p)), brk)\<rparr>"
      using b False by (auto simp: inner_set_user_brk_def space_of_def bind_eq_Some_conv)
    have he: "?h < vpn_ceil brk"
    proof -
      have "?h * 4096 \<le> fst (heap_range (inner p))" by (simp add: vpn_floor_div PAGE_SIZE_def)
      then have "\<not> brk \<le> ?h * 4096" using False by linarith
      then show ?thesis using div_ceil_le_iff [of 4096 brk ?h] by (simp add: vpn_ceil_def PAGE_SIZE_def)
    qed
    have le: "vpn_ceil brk \<le> 2 ^ 26"
      using False by (simp add: vpn_ceil_def div_ceil_le_iff LOW_ADDRESS_END_def PAGE_SIZE_def)
    have rm: "\<forall>(j, b)\<in>set ?m. ?h < j \<longrightarrow> vpn_ceil brk \<le> j"
      and rn: "bt_get ?m ?h = None \<Longrightarrow> \<forall>(j, b)\<in>set ?m. j < ?h \<longrightarrow> vpn_end b \<le> ?h"
      using room p by (auto simp: brk_room_def Let_def)
    have inv: "bt_inv ?m" using areas_ok_inv [OF ms_okD(1) [OF d(2) [OF p]]] .
    have an: "case bt_get ?m ?h of None \<Rightarrow> \<forall>(j, b)\<in>set ?m. j < ?h \<longrightarrow> vpn_end b \<le> ?h | Some a \<Rightarrow> anonymous a"
      using rn d(3) [OF p] bt_get_in [OF inv] by (auto split: option.split)
    note br = set_brk_ok [OF bs d(2) [OF p] he le rm an]
    obtain a where st: "space_step P free (space_of p) (machine K) ms M" and a: "bt_get (user_areas ms) ?h = Some a" "anonymous a"
      and ot: "\<forall>k. k \<noteq> ?h \<longrightarrow> bt_get (user_areas ms) k = bt_get ?m k"
      using br su by auto
    have inv': "bt_inv (user_areas ms)" using areas_ok_inv [OF ms_okD(1)] st by (auto simp: space_step_def)
    have "anonymous c" if "(k, c) \<in> set (user_areas ms)" for k c
      using that a ot d(3) [OF p] unfolding bt_get_in [OF inv', symmetric]
      by (cases "k = ?h") (auto simp: bt_get_in [OF inv])
    then have an': "\<forall>(k, a)\<in>set (user_areas ms). anonymous a" by blast
    let ?p = "p\<lparr>inner := i\<rparr>"
    have "proc_ok self ?p" "node_of ?p = node_of p" "space_of ?p = ms"
      using pok by (simp_all add: i proc_ok_def node_of_def space_of_def)
    then show ?thesis using local_step [OF ok p _ _ _ _ K'] st an' by simp
  qed
qed

section \<open>Invariants and isolation\<close>

lemma kstep_ok:
  assumes bs: "buddy_spec P free" and st: "kstep P cache self K K'" and ok: "kernel_ok K" "spaces_ok P free K"
  shows "kernel_ok K' \<and> isolated P free self K K'"
  using st ok
proof cases
  case (k_clone flags stack r)
  then show ?thesis using clone_step [OF bs ok] by blast
next
  case (k_exit_thread t)
  then show ?thesis using exit_thread_step [OF bs ok] by blast
next
  case (k_exit t code e)
  then show ?thesis using sys_exit_step [OF ok] by blast
next
  case (k_exit_group gcode e)
  then show ?thesis using sys_exit_group_step [OF ok] by blast
next
  case (k_wait wanted wstatus options rusage w n)
  then show ?thesis using wait4_step [OF bs ok] by blast
next
  case (k_mmap info addr len prot mflags fd off va)
  then show ?thesis using mmap_step [OF ok] by blast
next
  case (k_munmap addr len z)
  then show ?thesis using munmap_step [OF bs ok] by blast
next
  case (k_brk brk b)
  then show ?thesis using brk_step [OF bs ok] by blast
next
  case (k_fault p addr cow hit ms M)
  then show ?thesis using fault_step [OF bs ok] by blast
next
  case (k_store p va f fl byte)
  then show ?thesis using store_step [OF ok] by blast
qed

abbreviation krun :: "'fa platform \<Rightarrow> (nat \<Rightarrow> (nat, ppn) btree) \<Rightarrow> nat set \<Rightarrow> 'fa kernel \<Rightarrow> 'fa kernel \<Rightarrow> bool" where
  "krun P cache S \<equiv> (\<lambda>K K'. \<exists>self\<in>S. kstep P cache self K K')\<^sup>*\<^sup>*"

lemma krun_ok:
  assumes bs: "buddy_spec P free" and run: "krun P cache S K K'" and ok: "kernel_ok K" "spaces_ok P free K"
  shows "kernel_ok K' \<and> spaces_ok P free K'"
  using run
proof (induction rule: rtranclp_induct)
  case (step K1 K2)
  then show ?case using kstep_ok [OF bs] by (auto simp: isolated_def)
qed (use ok in simp)

lemma sees_same_trans: "sees_same q M q1 M1 \<Longrightarrow> sees_same q1 M1 q2 M2 \<Longrightarrow> sees_same q M q2 M2"
  by (simp add: sees_same_def)

lemma krun_isolated:
  assumes bs: "buddy_spec P free" and run: "krun P cache (- {x}) K K'" and ok: "kernel_ok K" "spaces_ok P free K"
    and x: "pm_get x K = Some q" "\<not> is_zombie (status q)"
  shows "\<exists>q'. pm_get x K' = Some q' \<and> \<not> is_zombie (status q') \<and> sees_same q (machine K) q' (machine K')"
  using run
proof (induction rule: rtranclp_induct)
  case base
  then show ?case using x by (simp add: sees_same_def)
next
  case (step K1 K2)
  obtain self where s: "self \<noteq> x" "kstep P cache self K1 K2" using step.hyps(2) by auto
  obtain q1 where q1: "pm_get x K1 = Some q1" "\<not> is_zombie (status q1)" "sees_same q (machine K) q1 (machine K1)"
    using step.IH by blast
  have "isolated P free self K1 K2"
    using kstep_ok [OF bs s(2)] krun_ok [OF bs step.hyps(1) ok] by blast
  then have "alive x K2" and ss: "\<And>q2. pm_get x K2 = Some q2 \<Longrightarrow> sees_same q1 (machine K1) q2 (machine K2)"
    using s(1) q1(1,2) by (auto simp: isolated_def alive_def)
  then obtain q2 where "pm_get x K2 = Some q2" "\<not> is_zombie (status q2)" by (auto simp: alive_def)
  then show ?case using ss sees_same_trans [OF q1(3)] by blast
qed

text \<open>
  C9: The tree of processes.  On a well-formed state, a fork adds a child with an identifier that
  was not in use, the exit of the last thread of a process turns it into a zombie without
  children or parent whose children go to the first process, the exit of another thread leaves
  the tree alone, and a wait that returns the identifier of a child removes exactly that child.
  Whenever such a call returns, it has done the operation of the abstract tree (a wait that
  collects a child and then fails on the address for its status is not part of this).
\<close>

theorem process_tree_refinement:
  assumes "buddy_spec P free" "kernel_ok K" "spaces_ok P free K" "pm_get self K = Some p"
  shows "(\<forall>stack sig c K'. fork P cache self stack sig K = Some (c, K') \<longrightarrow>
        tree_of K c = None \<and> tree_of K' = t_fork self c (tree_of K))
   \<and> (\<forall>t th K'. threads (inner p) = [(t, th)] \<and> exit_thread P self t K = Some K' \<longrightarrow> tree_of K' = t_exit self (tree_of K))
   \<and> (\<forall>t K'. 1 < length (threads (inner p)) \<and> exit_thread P self t K = Some K' \<longrightarrow> tree_of K' = tree_of K)
   \<and> (\<forall>wanted wstatus options c n K'. wait4_round P self wanted wstatus options K = Some (Some (Ok c), n, K') \<and> c \<noteq> 0 \<longrightarrow>
        tree_of K' = t_reap self c (tree_of K))"
proof (intro conjI allI impI)
  fix stack sig c K' assume f: "fork P cache self stack sig K = Some (c, K')"
  then show "tree_of K c = None" "tree_of K' = t_fork self c (tree_of K)"
    using fork_tree(1,3) [OF assms(2) f] by (simp_all add: tree_of_def)
next
  fix t th K' assume a: "threads (inner p) = [(t, th)] \<and> exit_thread P self t K = Some K'"
  then show "tree_of K' = t_exit self (tree_of K)" using exit_last_tree [OF assms] by blast
next
  fix t K' assume a: "1 < length (threads (inner p)) \<and> exit_thread P self t K = Some K'"
  have inv: "bt_inv (threads (inner p))" using kernel_okD(3) [OF assms(2,4)] by (simp add: proc_ok_def)
  obtain th where "bt_get (threads (inner p)) t = Some th"
    using a by (auto simp: exit_thread_def assms(4) bind_eq_Some_conv Let_def)
  then have "bt_remove t (threads (inner p)) \<noteq> []" using a bt_remove_Nil [OF inv, of t th] by auto
  then show "tree_of K' = tree_of K"
    using a tree_of_Some [OF assms(4)]
    by (auto simp: exit_thread_def assms(4) bind_eq_Some_conv Let_def node_of_def fun_upd_idem_iff split: if_splits)
next
  fix wanted wstatus options c n K'
  assume a: "wait4_round P self wanted wstatus options K = Some (Some (Ok c), n, K') \<and> c \<noteq> 0"
  have z: "zombie_child wanted p K"
  proof (rule ccontr)
    assume "\<not> zombie_child wanted p K"
    then show False
      using wait4_round_cases(1,2) [OF assms(2,4), of wanted P wstatus options] a
      by (cases "\<exists>c\<in>set (children (inner p)). wants wanted c") (simp_all split: if_splits)
  qed
  obtain d q pa M code where d: "d \<noteq> self"
    and eq: "wait4_round P self wanted wstatus options K =
      Some (fst (collect_result wstatus d code), snd (collect_result wstatus d code), reaped self p d pa M K)"
    using wait4_collects [OF assms z] .
  then have "c = d" "K' = reaped self p d pa M K"
    using a by (auto simp: collect_result_def split: option.splits sum.splits)
  then show "tree_of K' = t_reap self c (tree_of K)" using tree_of_reaped [OF assms(2,4) d] by blast
qed

text \<open>
  C11: Waiting for a child.  With no child of the wanted identifier the call fails with ECHILD; if
  there are such children but none has exited, it returns 0 when asked not to hang and blocks
  otherwise; in these cases nothing changes.  If one is a zombie, the call always succeeds in
  collecting one of them: the state stays well formed, the child is out of the
  table and out of its parent's children and its identifier is free again, no other process
  changes except for that, and the exit code is what the status word carries in its second
  byte.  If the address for the status word is bad the caller gets the error, but the child is
  gone nevertheless.
\<close>

theorem wait4_correct:
  assumes "buddy_spec P free" "kernel_ok K" "spaces_ok P free K" "pm_get self K = Some p"
  shows "(if \<not> (\<exists>c\<in>set (children (inner p)). wants wanted c) then
        wait4_round P self wanted wstatus options K = Some (Some (Err ECHILD), None, K)
      else if \<not> zombie_child wanted p K then
        wait4_round P self wanted wstatus options K = Some (if has_flag options WNOHANG then Some (Ok 0) else None, None, K)
      else \<exists>c q code K'. c \<in> set (children (inner p)) \<and> wants wanted c \<and> pm_get c K = Some q \<and> is_zombie (status q)
        \<and> ps_exit_code (status q) = Some code
        \<and> wait4_round P self wanted wstatus options K =
            Some (fst (collect_result wstatus c code), snd (collect_result wstatus c code), K')
        \<and> kernel_ok K' \<and> spaces_ok P free K' \<and> mem (machine K') = mem (machine K)
        \<and> (\<forall>x. pm_get x K' = (if x = c then None
             else if x = self then Some (p\<lparr>inner := (inner p)\<lparr>children := remove1 c (children (inner p))\<rparr>\<rparr>) else pm_get x K)))"
proof -
  consider (no) "\<not> (\<exists>c\<in>set (children (inner p)). wants wanted c)"
    | (wait) "\<exists>c\<in>set (children (inner p)). wants wanted c" "\<not> zombie_child wanted p K"
    | (z) "\<exists>c\<in>set (children (inner p)). wants wanted c" "zombie_child wanted p K" by blast
  then show ?thesis
  proof cases
    case no
    then show ?thesis using wait4_round_cases(1) [OF assms(2,4)] by simp
  next
    case wait
    then show ?thesis unfolding if_not_P [OF wait(2)] using wait4_round_cases(2) [OF assms(2,4) wait(1)] by simp
  next
    case z
    obtain c q pa M code where c: "c \<in> set (children (inner p))" "wants wanted c" "c \<noteq> self" "pm_get c K = Some q"
      "ps_exit_code (status q) = Some code" "is_zombie (status q)" "kernel_ok (reaped self p c pa M K)" "mem M = mem (machine K)"
      and eq: "wait4_round P self wanted wstatus options K =
        Some (fst (collect_result wstatus c code), snd (collect_result wstatus c code), reaped self p c pa M K)"
      using wait4_collects [OF assms z(2)] .
    let ?K = "reaped self p c pa M K"
    have inv: "bt_inv (manager (pm_add self x K))" for x using kernel_okD(1) [OF assms(2)] by simp
    have get: "pm_get x ?K = (if x = c then None
             else if x = self then Some (p\<lparr>inner := (inner p)\<lparr>children := remove1 c (children (inner p))\<rparr>\<rparr>) else pm_get x K)" for x
      using c(3) by (simp add: reaped_def pm_get_remove [OF inv])
    have "spaces_ok P free ?K" using wait4_round_step [OF assms(1-3) eq] by (simp add: isolated_def)
    then have "\<exists>c q code K'. c \<in> set (children (inner p)) \<and> wants wanted c \<and> pm_get c K = Some q \<and> is_zombie (status q)
        \<and> ps_exit_code (status q) = Some code
        \<and> wait4_round P self wanted wstatus options K =
            Some (fst (collect_result wstatus c code), snd (collect_result wstatus c code), K')
        \<and> kernel_ok K' \<and> spaces_ok P free K' \<and> mem (machine K') = mem (machine K)
        \<and> (\<forall>x. pm_get x K' = (if x = c then None
             else if x = self then Some (p\<lparr>inner := (inner p)\<lparr>children := remove1 c (children (inner p))\<rparr>\<rparr>) else pm_get x K))"
      using c eq get by (intro exI [of _ c] exI [of _ q] exI [of _ code] exI [of _ ?K]) (simp add: reaped_def)
    then show ?thesis using z by (simp only: if_False simp_thms)
  qed
qed

text \<open>
  C10: The exit of the last thread of a process, in a state with the invariant of the processes and
  their memory.  Suppose the number of the thread is small enough for its stack to have an address,
  and that the process is not the first one with children left.
  Then the exit succeeds.  The process becomes a zombie with the code of the process if one was
  set and of the thread otherwise, without threads, children, parent or mapped areas, and its open
  files stay in its table.  Every other process stays as it is, with three exceptions: the first
  process gets the children appended to its own, the children name it as their parent, and the
  parent of the process is woken exactly once and receives the exit signal, if the process has one.
  When the first process exits the system shuts down.
\<close>

theorem exit_correct:
  assumes "buddy_spec P free" "kernel_ok K" "spaces_ok P free K" "pm_get self K = Some p" "threads (inner p) = [(t, th)]"
    and "user_stack_low_addr t \<noteq> None" "self = 1 \<longrightarrow> children (inner p) = []"
  shows "\<exists>K' z. exit_thread P self t K = Some K' \<and> kernel_ok K' \<and> spaces_ok P free K' \<and> shutdown K' = (shutdown K \<or> self = 1)
     \<and> pm_get self K' = Some z
     \<and> status z = ps_zombie (case ps_exit_code (status p) of Some c \<Rightarrow> c | None \<Rightarrow> exit_code th)
     \<and> threads (inner z) = [] \<and> children (inner z) = [] \<and> parent (inner z) = None \<and> user_areas (space (inner z)) = []
     \<and> fds (inner z) = fds (inner p)
     \<and> (\<forall>x. x \<noteq> self \<longrightarrow> pm_get x K' = map_option (\<lambda>q.
          let i = (inner q)\<lparr>parent := (if x \<in> set (children (inner p)) then Some 1 else parent (inner q)),
                children := (if x = 1 then children (inner q) @ children (inner p) else children (inner q))\<rparr>
          in if parent (inner p) = Some x
             then q\<lparr>inner := (case exit_signal p of None \<Rightarrow> i | Some s \<Rightarrow> receive_signal s i), wait4_event := wait4_event q + 1\<rparr>
             else q\<lparr>inner := i\<rparr>) (pm_get x K))"
proof -
  have one: "self = 1 \<Longrightarrow> children (inner p) = []" using assms(7) by blast
  obtain K' ms where K': "exit_thread P self t K = Some K'" "shutdown K' = (shutdown K \<or> self = 1)"
    "pm_get self K' = Some (zombie_of K ms th p)" "\<forall>x. x \<noteq> self \<longrightarrow> pm_get x K' = map_option (after_exit p x) (pm_get x K)"
    "user_areas ms = []"
    using exit_last [OF assms(1-6) one] by metis
  have ok: "kernel_ok K'" "spaces_ok P free K'"
    using exit_thread_step [OF assms(1-3) K'(1)] by (simp_all add: isolated_def)
  have ae: "after_exit p x = (\<lambda>q.
          let i = (inner q)\<lparr>parent := (if x \<in> set (children (inner p)) then Some 1 else parent (inner q)),
                children := (if x = 1 then children (inner q) @ children (inner p) else children (inner q))\<rparr>
          in if parent (inner p) = Some x
             then q\<lparr>inner := (case exit_signal p of None \<Rightarrow> i | Some s \<Rightarrow> receive_signal s i), wait4_event := wait4_event q + 1\<rparr>
             else q\<lparr>inner := i\<rparr>)" for x
    by (rule ext) (simp add: after_exit_def inherit_def notified_def Let_def split: option.split)
  have "status (zombie_of K ms th p) = ps_zombie (case ps_exit_code (status p) of Some c \<Rightarrow> c | None \<Rightarrow> exit_code th)"
    "threads (inner (zombie_of K ms th p)) = []" "children (inner (zombie_of K ms th p)) = []"
    "parent (inner (zombie_of K ms th p)) = None" "space (inner (zombie_of K ms th p)) = ms"
    "fds (inner (zombie_of K ms th p)) = fds (inner p)"
    by (simp_all add: zombie_of_def)
  then show ?thesis
    using K'(1,2,3,5) K'(4) [unfolded ae] ok by (intro exI [of _ K'] exI [of _ "zombie_of K ms th p"] conjI) simp_all
qed

text \<open>
  C1: The invariant of the processes and their memory.  A step is a clone, an exit, a wait4, an
  mmap without MAP_SHARED, a munmap, a brk whose new heap meets no other area, a page fault or a
  store of the program to its memory; there is no exec, no call on files or signals, and no shared
  mapping.  Along every sequence of such steps from a state with the invariant, whatever processes
  take them and in whatever order, the processes stay a tree (the first process at its root, a
  child under one parent only and naming it unless it is a zombie, everyone below the first
  process), the process identifiers in use are exactly those of the tree, every address space
  stays well formed with anonymous areas only, and no two processes share a page frame or a frame
  of their page tables.
\<close>

theorem system_invariant:
  assumes "buddy_spec P free" "kernel_ok K" "spaces_ok P free K" "krun P cache UNIV K K'"
  shows "kernel_ok K' \<and> spaces_ok P free K'"
  using krun_ok [OF assms(1,4,2,3)] .

text \<open>
  C2: Isolation, in a system without shared mappings (every area of every process is anonymous).
  However many steps the other processes take, with forks, exits, waits, page faults, mappings
  without MAP_SHARED, unmappings, moves of their heaps where there is room, and stores to their
  memory, a process that is no zombie and takes no step itself stays in the table, and at every
  address of the user half it finds the same page mapped and the same byte.
\<close>

theorem process_isolation:
  assumes "buddy_spec P free" "kernel_ok K" "spaces_ok P free K" "pm_get x K = Some q" "\<not> is_zombie (status q)"
    and "krun P cache (- {x}) K K'"
  shows "\<exists>q'. pm_get x K' = Some q' \<and> (\<forall>va < LOW_ADDRESS_END.
      pt_lookup (mem (machine K')) (ms_table (space (inner q'))) (va div PAGE_SIZE)
        = pt_lookup (mem (machine K)) (ms_table (space (inner q))) (va div PAGE_SIZE)
    \<and> user_mem (space (inner q')) (machine K') va = user_mem (space (inner q)) (machine K) va)"
  using krun_isolated [OF assms(1,6,2,3,4,5)] by (auto simp: sees_same_def space_of_def)

section \<open>A system of two processes\<close>

definition demo_space2 :: memory_space where
  "demo_space2 = \<lparr>ms_table = \<lparr>root_frame = 0x80410, frames = []\<rparr>, user_areas = []\<rparr>"

definition demo_thread :: thread where
  "demo_thread = thread_new 0 (app_init_context 0 0 0x1000 0x20000) 0"

definition demo_process :: "nat \<Rightarrow> memory_space \<Rightarrow> nat option \<Rightarrow> nat list \<Rightarrow> process" where
  "demo_process n ms par cs = \<lparr>pid = n, name = [], wait4_event = 0, status = ps_normal, exit_signal = Some SIGCHLD,
     inner = \<lparr>space = ms, heap_range = (0x10000, 0x20000), parent = par, children = cs, cwd = 0, fds = with_stdio 0,
       handlers = handlers_new, tid_allocator = \<lparr>current = 1, recycled = []\<rparr>, threads = [(0, demo_thread)]\<rparr>\<rparr>"

definition demo_K :: "nat list kernel" where
  "demo_K = \<lparr>machine = demo_M, pid_allocator = \<lparr>current = 3, recycled = []\<rparr>,
     manager = [(1, demo_process 1 demo_ms None [2]), (2, demo_process 2 demo_space2 (Some 1) [])],
     shutdown = False, kernel_root = 0x80200, root_dir = 0\<rparr>"

lemma demo_get: "pm_get x demo_K = (if x = 1 then Some (demo_process 1 demo_ms None [2])
    else if x = 2 then Some (demo_process 2 demo_space2 (Some 1) []) else None)"
  by (simp add: pm_get_def demo_K_def bt_get_Cons)

lemma demo_tree: "tree_of demo_K = [1 \<mapsto> \<lparr>n_children = [2], n_parent = None, n_zombie = False\<rparr>,
    2 \<mapsto> \<lparr>n_children = [], n_parent = Some 1, n_zombie = False\<rparr>]"
  by (auto simp: tree_of_def demo_get node_of_def demo_process_def fun_eq_iff)

lemma demo_kernel_ok: "kernel_ok demo_K"
proof -
  have ed: "edge (tree_of demo_K) p c \<longleftrightarrow> p = 1 \<and> c = 2" for p c
    by (auto simp: edge_def demo_tree split: if_splits)
  have "(edge (tree_of demo_K))\<^sup>*\<^sup>* 1 2" using ed by blast
  then have "tree_wf (tree_of demo_K)" unfolding tree_wf_def ed by (auto simp: demo_tree split: if_splits)
  moreover have "dom (tree_of demo_K) = {1, 2}" by (auto simp: demo_tree)
  then have "ra_inv 1 (dom (tree_of demo_K)) (pid_allocator demo_K)" by (auto simp: ra_inv_def demo_K_def)
  moreover have "proc_ok p q" if "pm_get p demo_K = Some q" for p q
    using that by (auto simp: demo_get proc_ok_def demo_process_def demo_thread_def thread_new_def bt_inv_Cons ra_inv_def split: if_splits)
  moreover have "bt_inv (manager demo_K)" by (simp add: demo_K_def bt_inv_Cons)
  ultimately show ?thesis by (simp add: kernel_ok_def)
qed

lemma demo_space2_ok: "ms_ok list_platform set demo_space2 demo_M"
proof -
  have zero: "fill a n 0 (\<lambda>_. 0) = (\<lambda>_. 0)" for a n by (simp add: fill_def fun_eq_iff)
  have "with_root list_platform \<lparr>mem = \<lambda>_. 0, falloc = [0x10, 1, 2, 3]\<rparr> = Some (ms_table demo_space2, demo_M)"
    by (simp add: with_root_def frame_alloc_unwrap_def frame_alloc_def allocator_alloc_def list_platform_begin uadd_def
        usize_limit_def frame_clear_def frame_at_0 demo_space2_def demo_M_def zero)
  moreover have "avail_ok list_platform set \<lparr>mem = \<lambda>_. 0, falloc = [0x10, 1, 2, 3]\<rparr>"
    by (auto simp: avail_ok_def list_platform_avail const_defs)
  ultimately have "pt_ok list_platform set (ms_table demo_space2) demo_M"
    "\<And>v. user_vpn v \<Longrightarrow> pt_lookup (mem demo_M) (ms_table demo_space2) v = None"
    using with_root_ok [OF list_platform_spec] by blast+
  from ms_ok_fresh [OF this, of "[]"] show ?thesis by (simp add: demo_space2_def areas_ok_def)
qed

lemma demo_spaces_ok: "spaces_ok list_platform set demo_K"
proof -
  have o: "owned (user_areas demo_ms) = {}" by (auto simp: owned_def ms_owns_def demo_ms_def vm_area_new_def)
  have f: "ms_frames demo_ms = {0x80400}" "ms_frames demo_space2 = {0x80410}"
    unfolding ms_frames_def o by (simp_all add: demo_ms_def demo_pt_def demo_space2_def)
  have sp: "space_of (demo_process n ms par cs) = ms" for n ms par cs by (simp add: space_of_def demo_process_def)
  have m: "machine demo_K = demo_M" "kernel_root demo_K = 0x80200" by (simp_all add: demo_K_def)
  have "\<forall>(k, a)\<in>set (user_areas demo_ms). anonymous a" by (simp add: demo_ms_def vm_area_new_def anonymous_def)
  moreover have "user_areas demo_space2 = []" by (simp add: demo_space2_def)
  ultimately show ?thesis
    unfolding spaces_ok_def m using demo_ms_ok demo_space2_ok by (auto simp: demo_get sp f split: if_splits)
qed

text \<open>The first process moves the end of its heap.\<close>

definition demo_K2 :: "nat list kernel" where
  "demo_K2 = snd (projr (sys_brk list_platform 1 0x30000 demo_K))"

lemma demo_brk: "sys_brk list_platform 1 0x30000 demo_K = Ok (0x30000, demo_K2)"
proof -
  have v: "vpn_floor 0x10000 = 0x10" "vpn_ceil 0x30000 = 0x30" by (simp_all add: vpn_floor_div vpn_ceil_def div_ceil_def PAGE_SIZE_def)
  show ?thesis
    unfolding demo_K2_def
    by (simp add: sys_brk_def demo_get demo_process_def inner_set_user_brk_def LOW_ADDRESS_END_def v set_user_brk_def demo_ms_def
        bt_get_Cons vm_area_new_def)
qed

lemma demo_run: "krun list_platform (\<lambda>_. []) (- {2}) demo_K demo_K2"
proof -
  have v: "vpn_floor 0x10000 = 0x10" "vpn_ceil 0x30000 = 0x30" by (simp_all add: vpn_floor_div vpn_ceil_def div_ceil_def PAGE_SIZE_def)
  have "brk_room 1 0x30000 demo_K"
    by (simp add: brk_room_def demo_get space_of_def demo_process_def v demo_ms_def bt_get_Cons)
  then have "kstep list_platform (\<lambda>_. []) 1 demo_K demo_K2" using k_brk [OF demo_brk] by blast
  then show ?thesis by (intro r_into_rtranclp bexI [of _ 1]) simp_all
qed

lemma krun_mono: "krun P cache S K K' \<Longrightarrow> S \<subseteq> T \<Longrightarrow> krun P cache T K K'"
  by (rule rtranclp_mono [THEN predicate2D]) auto

theorem system_invariant_witness: "kernel_ok demo_K2 \<and> spaces_ok list_platform set demo_K2"
  by (rule system_invariant [OF list_platform_spec demo_kernel_ok demo_spaces_ok krun_mono [OF demo_run]]) simp

text \<open>The first process takes a page fault, then the second one sets up its heap.\<close>

lemma demo_brk2:
  assumes "pm_get 2 K = pm_get 2 demo_K"
  shows "\<exists>K'. krun list_platform (\<lambda>_. []) (- {1}) K K' \<and> K' \<noteq> K"
proof -
  have v: "vpn_floor 0x10000 = 0x10" "vpn_ceil 0x30000 = 0x30" by (simp_all add: vpn_floor_div vpn_ceil_def div_ceil_def PAGE_SIZE_def)
  have p: "pm_get 2 K = Some (demo_process 2 demo_space2 (Some 1) [])" using assms by (simp add: demo_get)
  obtain ms where ms: "set_user_brk list_platform 0x10 0x30 demo_space2 (machine K) = Some (ms, machine K)"
    by (simp add: set_user_brk_def demo_space2_def user_map_def insert_area_def)
  define i where "i = (inner (demo_process 2 demo_space2 (Some 1) []))\<lparr>space := ms, heap_range := (0x10000, 0x30000)\<rparr>"
  let ?K = "pm_add 2 ((demo_process 2 demo_space2 (Some 1) [])\<lparr>inner := i\<rparr>) K"
  have b: "sys_brk list_platform 2 0x30000 K = Ok (0x30000, ?K)"
    using ms by (simp add: sys_brk_def p demo_process_def inner_set_user_brk_def LOW_ADDRESS_END_def v i_def)
  have "brk_room 2 0x30000 K"
    by (simp add: brk_room_def p space_of_def demo_process_def v demo_space2_def)
  then have "kstep list_platform (\<lambda>_. []) 2 K ?K" using k_brk [OF b] by blast
  then have "krun list_platform (\<lambda>_. []) (- {1}) K ?K" by (intro r_into_rtranclp bexI [of _ 2]) simp_all
  moreover have "pm_get 2 ?K \<noteq> pm_get 2 K" by (simp add: p i_def demo_process_def)
  then have "?K \<noteq> K" by (intro notI) (erule notE, erule arg_cong)
  ultimately show ?thesis by (intro exI [of _ ?K] conjI)
qed

theorem process_isolation_witness:
  "\<exists>K K' q q' p. krun list_platform (\<lambda>_. []) (- {1}) K K' \<and> K' \<noteq> K \<and> pm_get 1 K = Some q \<and> pm_get 1 K' = Some q'
     \<and> pt_lookup (mem (machine K)) (ms_table (space (inner q))) 0x12 = Some (p, 0x17)
     \<and> pt_lookup (mem (machine K')) (ms_table (space (inner q'))) 0x12 = Some (p, 0x17)
     \<and> user_mem (space (inner q')) (machine K') 0x12345 = user_mem (space (inner q)) (machine K) 0x12345"
proof -
  let ?a = "vm_area_new 0x10 0x20 (PERM_R OR PERM_W OR PERM_U) Lazy" and ?q = "demo_process 1 demo_ms None [2]"
  have p: "pm_get 1 demo_K = Some ?q" by (simp add: demo_get)
  have sp: "space_of ?q = demo_ms" "space (inner ?q) = demo_ms" by (simp_all add: space_of_def demo_process_def)
  have mc: "machine demo_K = demo_M" by (simp add: demo_K_def)
  have can: "can_alloc list_platform 3 (falloc demo_M)" by (simp add: demo_M_def numeral_3_eq_3)
  have fl: "pte_flags_from (PERM_R OR PERM_W OR PERM_U) OR PTE_V = 0x17"
    by (simp add: pte_flags_from_def pte_flags_truncate_def PERM_R_def PERM_W_def PERM_U_def PTE_V_def)
  have v: "vpn_floor 0x12345 = 0x12" by (simp add: vpn_floor_div)
  obtain f ms M where hm: "handle_memory_exception list_platform 0x12345 False demo_ms demo_M = Some (True, ms, M)"
    and lk: "pt_lookup (mem M) (ms_table ms) 0x12 = Some (f, 0x17)"
    by (rule handle_fault_inside [OF list_platform_spec demo_ms_ok can, of "0x10" ?a "0x12345"])
      (simp_all add: v demo_ms_def vm_area_new_def fl)
  let ?q1 = "?q\<lparr>inner := (inner ?q)\<lparr>space := ms\<rparr>\<rparr>"
  obtain K1 where K1: "set_space 1 ms M demo_K = Some K1" "pm_get 1 K1 = Some ?q1" "machine K1 = M" "pm_get 2 K1 = pm_get 2 demo_K"
    using p by (simp add: set_space_def lock_inner_with_def)
  have "kstep list_platform (\<lambda>_. []) 1 demo_K K1" using k_fault [OF p] hm K1(1) sp mc by metis
  then have "krun list_platform (\<lambda>_. []) UNIV demo_K K1" by (intro r_into_rtranclp bexI [of _ 1]) simp_all
  note ok = krun_ok [OF list_platform_spec this demo_kernel_ok demo_spaces_ok]
  have nz: "\<not> is_zombie (status ?q1)" by (simp add: demo_process_def)
  obtain K2 where run: "krun list_platform (\<lambda>_. []) (- {1}) K1 K2" and ne: "K2 \<noteq> K1" using demo_brk2 [OF K1(4)] by blast
  have lt: "(0x12345 :: nat) < LOW_ADDRESS_END" and dv: "(0x12345 :: nat) div PAGE_SIZE = 0x12"
    by (simp_all add: LOW_ADDRESS_END_def PAGE_SIZE_def)
  obtain q' where q': "pm_get 1 K2 = Some q'"
    "pt_lookup (mem (machine K2)) (ms_table (space (inner q'))) 0x12 = pt_lookup (mem (machine K1)) (ms_table (space (inner ?q1))) 0x12"
    "user_mem (space (inner q')) (machine K2) 0x12345 = user_mem (space (inner ?q1)) (machine K1) 0x12345"
    using process_isolation [OF list_platform_spec conjunct1 [OF ok] conjunct2 [OF ok] K1(2) nz run] lt dv by metis
  have lk1: "pt_lookup (mem (machine K1)) (ms_table (space (inner ?q1))) 0x12 = Some (f, 0x17)" using lk K1(3) by simp
  show ?thesis
    by (rule exI [of _ K1], rule exI [of _ K2], rule exI [of _ ?q1], rule exI [of _ q'], rule exI [of _ f])
      (intro conjI run ne K1(2) q'(1,3) lk1 trans [OF q'(2) lk1])
qed

theorem process_tree_refinement_witness:
  "\<exists>K'. exit_thread list_platform 2 0 demo_K = Some K' \<and> tree_of K' = t_exit 2 (tree_of demo_K)"
proof -
  have p: "pm_get 2 demo_K = Some (demo_process 2 demo_space2 (Some 1) [])" by (simp add: demo_get)
  have th: "threads (inner (demo_process 2 demo_space2 (Some 1) [])) = [(0, demo_thread)]" by (simp add: demo_process_def)
  have low: "user_stack_low_addr 0 \<noteq> None" using user_stack_0 by simp
  obtain K' where e: "exit_thread list_platform 2 0 demo_K = Some K'"
    using exit_last [OF list_platform_spec demo_kernel_ok demo_spaces_ok p th low] by (metis (no_types) numeral_eq_one_iff semiring_norm(85))
  then show ?thesis
    using process_tree_refinement [OF list_platform_spec demo_kernel_ok demo_spaces_ok p] th by blast
qed

theorem wait4_correct_witness:
  "wait4_round list_platform 1 5 None 0 demo_K = Some (Some (Err ECHILD), None, demo_K)
   \<and> wait4_round list_platform 1 2 None 0 demo_K = Some (None, None, demo_K)
   \<and> (\<exists>K K'. exit_thread list_platform 2 0 demo_K = Some K
        \<and> wait4_round list_platform 1 2 (Some (Ok ())) 0 K = Some (Some (Ok 2), Some 0, K') \<and> pm_get 2 K' = None)"
proof -
  let ?p = "demo_process 1 demo_ms None [2]"
  have p: "pm_get 1 demo_K = Some ?p" by (simp add: demo_get)
  have cs: "children (inner ?p) = [2]" by (simp add: demo_process_def)
  have no: "\<not> (\<exists>c\<in>set (children (inner ?p)). wants 5 c)" unfolding cs by (simp add: wants_def)
  have two: "\<not> \<not> (\<exists>c\<in>set (children (inner ?p)). wants 2 c)" unfolding cs by (simp add: wants_def)
  have nz: "\<not> zombie_child 2 ?p demo_K" unfolding cs by (simp add: demo_get) (simp add: demo_process_def)
  have nf: "\<not> has_flag 0 WNOHANG" by (simp add: has_flag_def WNOHANG_def)
  note w = wait4_correct [OF list_platform_spec demo_kernel_ok demo_spaces_ok p]
  have "wait4_round list_platform 1 5 None 0 demo_K = Some (Some (Err ECHILD), None, demo_K)"
    using w [of 5 None 0] unfolding if_P [OF no] .
  moreover have "wait4_round list_platform 1 2 None 0 demo_K = Some (None, None, demo_K)"
    using w [of 2 None 0] unfolding if_not_P [OF two] if_P [OF nz] if_not_P [OF nf] .
  moreover have "\<exists>K K'. exit_thread list_platform 2 0 demo_K = Some K
        \<and> wait4_round list_platform 1 2 (Some (Ok ())) 0 K = Some (Some (Ok 2), Some 0, K') \<and> pm_get 2 K' = None"
  proof -
    let ?c = "demo_process 2 demo_space2 (Some 1) []"
    have c: "pm_get 2 demo_K = Some ?c" "threads (inner ?c) = [(0, demo_thread)]" "user_stack_low_addr 0 \<noteq> None"
      using user_stack_0 by (simp_all add: demo_get demo_process_def)
    obtain K ms where K: "exit_thread list_platform 2 0 demo_K = Some K" "pm_get 2 K = Some (zombie_of demo_K ms demo_thread ?c)"
      "\<forall>x. x \<noteq> 2 \<longrightarrow> pm_get x K = map_option (after_exit ?c x) (pm_get x demo_K)"
      using exit_last [OF list_platform_spec demo_kernel_ok demo_spaces_ok c] by (metis (no_types) numeral_eq_one_iff semiring_norm(85))
    have ok: "kernel_ok K" "spaces_ok list_platform set K"
      using exit_thread_step [OF list_platform_spec demo_kernel_ok demo_spaces_ok K(1)] by (simp_all add: isolated_def)
    have st: "status (zombie_of demo_K ms demo_thread ?c) = ps_zombie 0"
      using ps_facts by (simp add: zombie_of_def demo_process_def demo_thread_def thread_new_def)
    obtain q where q: "pm_get 1 K = Some q" "children (inner q) = [2]"
    proof -
      have "n_children (node_of (after_exit ?c 1 ?p)) = [2]" by (simp add: after_exit_node) (simp add: node_of_def demo_process_def)
      moreover have "pm_get 1 K = Some (after_exit ?c 1 ?p)" using K(3) p by simp
      ultimately show thesis using that by (simp add: node_of_def)
    qed
    have some: "\<not> \<not> (\<exists>c\<in>set (children (inner q)). wants 2 c)" and z: "\<not> \<not> zombie_child 2 q K"
      unfolding q(2) using K(2) st ps_facts by (simp_all add: wants_def)
    obtain c' q' code K' where w': "c' \<in> set (children (inner q))" "pm_get c' K = Some q'" "ps_exit_code (status q') = Some code"
      "wait4_round list_platform 1 2 (Some (Ok ())) 0 K
        = Some (fst (collect_result (Some (Ok ())) c' code), snd (collect_result (Some (Ok ())) c' code), K')" "pm_get c' K' = None"
      using wait4_correct [OF list_platform_spec ok q(1), of 2 "Some (Ok ())" 0]
      unfolding if_not_P [OF some] if_not_P [OF z]
      by (elim exE conjE) (rule that, assumption, assumption, assumption, assumption, simp)
    have "c' = 2" "code = 0" using w'(1-3) K(2) st ps_facts by (auto simp: q(2))
    then show ?thesis using K(1) w'(4,5) by (simp add: collect_result_def)
  qed
  ultimately show ?thesis by blast
qed

theorem exit_correct_witness:
  "\<exists>K' z q. exit_thread list_platform 2 0 demo_K = Some K' \<and> pm_get 2 K' = Some z \<and> status z = ps_zombie 0
     \<and> pm_get 1 K' = Some q \<and> wait4_event q = 1
     \<and> threads (inner q) = [(0, demo_thread\<lparr>th_inner := \<lparr>signal_mask = 0, pending_signal = ksig_of SIGCHLD\<rparr>\<rparr>)]"
proof -
  let ?p = "demo_process 2 demo_space2 (Some 1) []"
  have p: "pm_get 2 demo_K = Some ?p" "pm_get 1 demo_K = Some (demo_process 1 demo_ms None [2])"
    by (simp_all add: demo_get)
  have th: "threads (inner ?p) = [(0, demo_thread)]" by (simp add: demo_process_def)
  have low: "user_stack_low_addr 0 \<noteq> None" using user_stack_0 by simp
  have z: "(case ps_exit_code (status ?p) of Some c \<Rightarrow> c | None \<Rightarrow> exit_code demo_thread) = 0"
    using ps_facts by (simp add: demo_process_def demo_thread_def thread_new_def)
  have one: "(2 :: nat) = 1 \<longrightarrow> children (inner ?p) = []" by simp
  obtain K' z where K': "exit_thread list_platform 2 0 demo_K = Some K'" "pm_get 2 K' = Some z" "status z = ps_zombie 0"
    and oth: "\<forall>x. x \<noteq> 2 \<longrightarrow> pm_get x K' = map_option (\<lambda>q.
          let i = (inner q)\<lparr>parent := (if x \<in> set (children (inner ?p)) then Some 1 else parent (inner q)),
                children := (if x = 1 then children (inner q) @ children (inner ?p) else children (inner q))\<rparr>
          in if parent (inner ?p) = Some x
             then q\<lparr>inner := (case exit_signal ?p of None \<Rightarrow> i | Some s \<Rightarrow> receive_signal s i), wait4_event := wait4_event q + 1\<rparr>
             else q\<lparr>inner := i\<rparr>) (pm_get x demo_K)"
    using exit_correct [OF list_platform_spec demo_kernel_ok demo_spaces_ok p(1) th low one, unfolded z] by (elim exE conjE)
  have free: "\<not> has_flag 0 (ksig_of SIGCHLD)"
    by (simp add: has_flag_def ksig_of_def sig_index_def ksig_all_mask mask_eq_exp_minus_1)
  have "1 \<noteq> (2 :: nat)" by simp
  with oth have "pm_get 1 K' = map_option (\<lambda>q.
          let i = (inner q)\<lparr>parent := (if 1 \<in> set (children (inner ?p)) then Some 1 else parent (inner q)),
                children := (if 1 = (1 :: nat) then children (inner q) @ children (inner ?p) else children (inner q))\<rparr>
          in if parent (inner ?p) = Some 1
             then q\<lparr>inner := (case exit_signal ?p of None \<Rightarrow> i | Some s \<Rightarrow> receive_signal s i), wait4_event := wait4_event q + 1\<rparr>
             else q\<lparr>inner := i\<rparr>) (Some (demo_process 1 demo_ms None [2]))" unfolding p(2) [symmetric] by blast
  then have "\<exists>q. pm_get 1 K' = Some q \<and> wait4_event q = 1
     \<and> threads (inner q) = [(0, demo_thread\<lparr>th_inner := \<lparr>signal_mask = 0, pending_signal = ksig_of SIGCHLD\<rparr>\<rparr>)]"
    using free by (simp add: demo_process_def Let_def receive_signal_def receives_def add_pending_def demo_thread_def thread_new_def)
  then show ?thesis using K' by blast
qed

end
