(* ===== verification/Fat.thy ===== *)
theory Fat
  imports Prelude "HOL-Library.State_Monad"
begin

text \<open>
  The on-disk structures of the FAT32 file system, \<^verbatim>\<open>crates/utils/fat32\<close>: the boot sector
  (\<^verbatim>\<open>bpb.rs\<close>), the file allocation table with its allocation hints (\<^verbatim>\<open>fat.rs\<close>) and the
  check of the boot sector when a file system is mounted (\<^verbatim>\<open>fat32_vfs/src/lib.rs\<close>).

  The block device is a parameter, a function from the number of a sector to its 512
  bytes: the trait \<^verbatim>\<open>BlockDevice\<close> has no operation that writes.  A \<^verbatim>\<open>u32\<close> is a natural
  number with checked arithmetic.  The boot sector is read through a cursor that every
  read moves, so the reader is a computation in the state monad whose state is the offset.

  A cluster chain is read by a loop that follows the table until an end mark.  A table
  with a cycle makes it run forever: the walk is a partial function whose value is None
  when it does not end, and Some None when it indexes outside the table (a panic).

  The specification of the table is in terms of chains: \<^verbatim>\<open>valid_chain\<close> relates a first
  cluster to the list of clusters of a file, and the lemmas show that allocation appends
  to one chain and freeing cuts the tail of one, while every other chain stays.
\<close>

section \<open>Arithmetic of u32 and little-endian numbers\<close>

definition u32_limit :: nat where
  "u32_limit = 4294967296"

definition add32 :: "nat \<Rightarrow> nat \<Rightarrow> nat option" where
  "add32 a b = (if a + b < u32_limit then Some (a + b) else None)"

definition mul32 :: "nat \<Rightarrow> nat \<Rightarrow> nat option" where
  "mul32 a b = (if a * b < u32_limit then Some (a * b) else None)"

definition as_u32 :: "nat \<Rightarrow> nat" where
  "as_u32 a = a mod u32_limit"

lemma as_u32_id [simp]: "a < u32_limit \<Longrightarrow> as_u32 a = a"
  by (simp add: as_u32_def)

lemma add32_eq_Some: "add32 a b = Some c \<longleftrightarrow> c = a + b \<and> a + b < u32_limit"
  by (auto simp: add32_def)

lemma mul32_eq_Some: "mul32 a b = Some c \<longleftrightarrow> c = a * b \<and> a * b < u32_limit"
  by (auto simp: mul32_def)

type_synonym bytes = "8 word list"

fun from_le_bytes :: "bytes \<Rightarrow> nat" where
  "from_le_bytes [] = 0"
| "from_le_bytes (b # bs) = unat b + 256 * from_le_bytes bs"

definition slice :: "'a list \<Rightarrow> nat \<Rightarrow> nat \<Rightarrow> 'a list" where
  "slice xs a b = take (b - a) (drop a xs)"

lemma from_le_bytes_bound: "from_le_bytes bs < 256 ^ length bs"
proof (induction bs)
  case (Cons b bs)
  have "unat b < 256" using unsigned_less [of b] by simp
  with Cons show ?case by simp
qed simp

lemma length_slice [simp]: "b \<le> length xs \<Longrightarrow> length (slice xs a b) = b - a"
  by (simp add: slice_def)

lemma from_le_bytes_4: "length bs = 4 \<Longrightarrow> from_le_bytes bs < u32_limit"
  using from_le_bytes_bound [of bs] by (simp add: u32_limit_def)

section \<open>The boot sector\<close>

definition SECTOR_SIZE :: nat where "SECTOR_SIZE = 512"
definition BOOT_SECTOR_ID :: nat where "BOOT_SECTOR_ID = 0"

record BiosParameterBlock =
  system_id :: bytes
  sector_size :: nat
  sector_per_cluster :: nat
  reserved_sector_count :: nat
  fat_count :: nat
  root_entry_count :: nat
  sector_count :: nat
  media :: nat
  fat_length :: nat
  sector_per_track :: nat
  head_count :: nat
  hidden_sector_count :: nat
  total_sector_count :: nat
  fat32_length :: nat
  ext_flags :: nat
  version :: nat
  root_cluster :: nat
  info_sector :: nat
  backup_boot :: nat

text \<open>The cursor of the boot sector.\<close>

definition read_byte_array :: "bytes \<Rightarrow> nat \<Rightarrow> (nat, bytes) state" where
  "read_byte_array src n = State (\<lambda>offset. (slice src offset (offset + n), offset + n))"

definition read_u8 :: "bytes \<Rightarrow> (nat, nat) state" where
  "read_u8 src = State (\<lambda>offset. (unat (src ! offset), offset + 1))"

definition read_u16 :: "bytes \<Rightarrow> (nat, nat) state" where
  "read_u16 src = State (\<lambda>offset. (from_le_bytes (slice src offset (offset + 2)), offset + 2))"

definition read_u32 :: "bytes \<Rightarrow> (nat, nat) state" where
  "read_u32 src = State (\<lambda>offset. (from_le_bytes (slice src offset (offset + 4)), offset + 4))"

definition load_fields :: "bytes \<Rightarrow> (nat, BiosParameterBlock) state" where
  "load_fields src = do {
     v_system_id \<leftarrow> read_byte_array src 8;
     v_sector_size \<leftarrow> read_u16 src;
     v_sector_per_cluster \<leftarrow> read_u8 src;
     v_reserved_sector_count \<leftarrow> read_u16 src;
     v_fat_count \<leftarrow> read_u8 src;
     v_root_entry_count \<leftarrow> read_u16 src;
     v_sector_count \<leftarrow> read_u16 src;
     v_media \<leftarrow> read_u8 src;
     v_fat_length \<leftarrow> read_u16 src;
     v_sector_per_track \<leftarrow> read_u16 src;
     v_head_count \<leftarrow> read_u16 src;
     v_hidden_sector_count \<leftarrow> read_u32 src;
     v_total_sector_count \<leftarrow> read_u32 src;
     v_fat32_length \<leftarrow> read_u32 src;
     v_ext_flags \<leftarrow> read_u16 src;
     v_version \<leftarrow> read_u16 src;
     v_root_cluster \<leftarrow> read_u32 src;
     v_info_sector \<leftarrow> read_u16 src;
     v_backup_boot \<leftarrow> read_u16 src;
     State_Monad.return \<lparr> system_id = v_system_id, sector_size = v_sector_size,
       sector_per_cluster = v_sector_per_cluster,
       reserved_sector_count = v_reserved_sector_count, fat_count = v_fat_count,
       root_entry_count = v_root_entry_count, sector_count = v_sector_count, media = v_media,
       fat_length = v_fat_length, sector_per_track = v_sector_per_track,
       head_count = v_head_count, hidden_sector_count = v_hidden_sector_count,
       total_sector_count = v_total_sector_count, fat32_length = v_fat32_length,
       ext_flags = v_ext_flags, version = v_version, root_cluster = v_root_cluster,
       info_sector = v_info_sector, backup_boot = v_backup_boot \<rparr>
   }"

text \<open>The structure is also logged.  The text is left out, with the panic that formatting it is when
  debug logging is on and the name of the system on the disk is not UTF-8.\<close>

definition BiosParameterBlock_new :: "bytes \<Rightarrow> BiosParameterBlock res" where
  "BiosParameterBlock_new src =
    (if from_le_bytes (slice src 510 512) \<noteq> 0xAA55 then Err EINVAL
     else (let (ret, offset) = run_state (load_fields src) 3
           in rbind (unwrap (guard (offset = 0x34))) (\<lambda>_. Ok ret)))"

text \<open>The check of the boot sector at mount time.  Its own arithmetic can overflow.\<close>

definition is_power_of_two :: "nat \<Rightarrow> bool" where
  "is_power_of_two n = (n \<noteq> 0 \<and> n AND (n - 1) = 0)"

definition is_valid_fat32_bpb :: "BiosParameterBlock \<Rightarrow> bool option" where
  "is_valid_fat32_bpb bpb =
    (if sector_size bpb \<noteq> SECTOR_SIZE \<or> sector_per_cluster bpb = 0
        \<or> \<not> is_power_of_two (sector_per_cluster bpb) \<or> 128 < sector_per_cluster bpb
        \<or> reserved_sector_count bpb = 0 \<or> fat_count bpb = 0 \<or> fat32_length bpb = 0
        \<or> total_sector_count bpb = 0 \<or> root_entry_count bpb \<noteq> 0 \<or> sector_count bpb \<noteq> 0
        \<or> fat_length bpb \<noteq> 0 \<or> version bpb \<noteq> 0
        \<or> reserved_sector_count bpb \<le> info_sector bpb
     then Some False
     else do {
       fat_sectors \<leftarrow> mul32 (fat_count bpb) (fat32_length bpb);
       data_start_sector \<leftarrow> add32 (reserved_sector_count bpb) fat_sectors;
       if total_sector_count bpb \<le> data_start_sector then Some False
       else do {
         let data_sectors = total_sector_count bpb - data_start_sector;
         let count_of_clusters = data_sectors div sector_per_cluster bpb;
         if count_of_clusters < 65526 then Some False
         else do {
           max_valid_cluster \<leftarrow> add32 count_of_clusters 1;
           Some (\<not> (root_cluster bpb < 2 \<or> max_valid_cluster < root_cluster bpb))
         }
       }
     })"

section \<open>The file allocation table\<close>

definition FAT_ENTRY_MASK :: nat where "FAT_ENTRY_MASK = 0x0fffffff"
definition RESERVED_FAT_ENTRY_COUNT :: nat where "RESERVED_FAT_ENTRY_COUNT = 2"
definition END_OF_CHAIN :: nat where "END_OF_CHAIN = 0x0fffffff"
definition CHAIN_LIMIT :: nat where "CHAIN_LIMIT = 0x0ffffff8"
definition INVALID_ALLOC_META :: nat where "INVALID_ALLOC_META = 0xFFFFFFFF"
definition FAT_ENTRY_SIZE :: nat where "FAT_ENTRY_SIZE = 4"

lemmas fat_consts =
  FAT_ENTRY_MASK_def RESERVED_FAT_ENTRY_COUNT_def END_OF_CHAIN_def CHAIN_LIMIT_def
  INVALID_ALLOC_META_def FAT_ENTRY_SIZE_def SECTOR_SIZE_def

record FatAllocMeta =
  free_count :: nat
  next_free :: nat

record FileAllocTable =
  data_start_sector_id :: nat
  cluster_len :: nat
  data_clusters_count :: nat
  alloc_meta :: FatAllocMeta
  fat_entries :: "nat list"

definition FatAllocMeta_invalid :: FatAllocMeta where
  "FatAllocMeta_invalid = \<lparr> free_count = INVALID_ALLOC_META, next_free = INVALID_ALLOC_META \<rparr>"

definition FatAllocMeta_new :: "bytes \<Rightarrow> FatAllocMeta" where
  "FatAllocMeta_new info =
    (if from_le_bytes (slice info 0 4) \<noteq> 0x41615252 then FatAllocMeta_invalid
     else if from_le_bytes (slice info 484 488) \<noteq> 0x61417272 then FatAllocMeta_invalid
     else (let free = from_le_bytes (slice info 488 492);
               next = from_le_bytes (slice info 492 496)
           in if from_le_bytes (slice info 508 512) \<noteq> 0xaa550000 then FatAllocMeta_invalid
              else \<lparr> free_count = free, next_free = next \<rparr>))"

text \<open>\<^verbatim>\<open>maintain_alloc_meta\<close>: the hints are kept when they are plausible, and are
  recomputed by a scan of the table otherwise.\<close>

fun scan_free :: "nat list \<Rightarrow> nat \<Rightarrow> FatAllocMeta \<Rightarrow> FatAllocMeta option" where
  "scan_free [] cluster_id meta = Some meta"
| "scan_free (entry # entries) cluster_id meta =
    (if entry AND FAT_ENTRY_MASK = 0
     then do {
       n \<leftarrow> add32 (free_count meta) 1;
       scan_free entries (cluster_id + 1)
         \<lparr> free_count = n, next_free = min (next_free meta) (as_u32 cluster_id) \<rparr>
     }
     else scan_free entries (cluster_id + 1) meta)"

definition maintain_alloc_meta :: "FileAllocTable \<Rightarrow> FileAllocTable option" where
  "maintain_alloc_meta F = do {
     total \<leftarrow> add32 (data_clusters_count F) RESERVED_FAT_ENTRY_COUNT;
     let meta = (let m = alloc_meta F in
       if data_clusters_count F < free_count m
          \<or> (next_free m \<noteq> INVALID_ALLOC_META
             \<and> \<not> (RESERVED_FAT_ENTRY_COUNT \<le> next_free m \<and> next_free m < total))
       then FatAllocMeta_invalid else m);
     meta' \<leftarrow> (if free_count meta = INVALID_ALLOC_META \<or> next_free meta = INVALID_ALLOC_META
       then scan_free (drop RESERVED_FAT_ENTRY_COUNT (fat_entries F)) RESERVED_FAT_ENTRY_COUNT
         \<lparr> free_count = 0, next_free = INVALID_ALLOC_META \<rparr>
       else Some meta);
     Some (F\<lparr> alloc_meta := meta' \<rparr>)
   }"

text \<open>\<^verbatim>\<open>FileAllocTable::new\<close>.\<close>

fun array_chunks :: "nat \<Rightarrow> bytes \<Rightarrow> bytes list" where
  "array_chunks n bs =
    (if n = 0 \<or> length bs < n then [] else take n bs # array_chunks n (drop n bs))"

declare array_chunks.simps [simp del]

fun push_entries :: "nat \<Rightarrow> bytes list \<Rightarrow> nat list \<Rightarrow> nat list option" where
  "push_entries clusters [] entries = Some entries"
| "push_entries clusters (chunk # chunks) entries = do {
     total \<leftarrow> add32 clusters RESERVED_FAT_ENTRY_COUNT;
     if total \<le> as_u32 (length entries) then Some entries
     else push_entries clusters chunks (entries @ [from_le_bytes chunk])
   }"

fun read_fat :: "(nat \<Rightarrow> bytes) \<Rightarrow> nat \<Rightarrow> nat list \<Rightarrow> nat list \<Rightarrow> nat list option" where
  "read_fat dev clusters [] entries = Some entries"
| "read_fat dev clusters (sector_id # ids) entries = do {
     entries' \<leftarrow> push_entries clusters (array_chunks FAT_ENTRY_SIZE (dev sector_id)) entries;
     read_fat dev clusters ids entries'
   }"

definition FileAllocTable_new :: "(nat \<Rightarrow> bytes) \<Rightarrow> BiosParameterBlock \<Rightarrow> FileAllocTable option" where
  "FileAllocTable_new dev bpb = do {
     let meta = FatAllocMeta_new (dev (info_sector bpb));
     let fat_start_sector_id = reserved_sector_count bpb;
     fat_sectors \<leftarrow> mul32 (fat_count bpb) (fat32_length bpb);
     data_start \<leftarrow> add32 fat_start_sector_id fat_sectors;
     data_sectors \<leftarrow> usub (total_sector_count bpb) data_start;
     _ \<leftarrow> guard (sector_per_cluster bpb \<noteq> 0);
     let clusters = data_sectors div sector_per_cluster bpb;
     _ \<leftarrow> umul (fat32_length bpb) SECTOR_SIZE;
     fat_end \<leftarrow> add32 fat_start_sector_id (fat32_length bpb);
     entries \<leftarrow> read_fat dev clusters [fat_start_sector_id..<fat_end] [];
     maintain_alloc_meta
       \<lparr> data_start_sector_id = data_start, cluster_len = sector_per_cluster bpb,
         data_clusters_count = clusters, alloc_meta = meta, fat_entries = entries \<rparr>
   }"

subsection \<open>Allocation\<close>

fun find_free :: "nat \<Rightarrow> nat list \<Rightarrow> nat option option" where
  "find_free cluster_id [] = Some None"
| "find_free cluster_id (entry # entries) =
    (if entry AND FAT_ENTRY_MASK = 0 then Some (Some cluster_id)
     else do { next \<leftarrow> add32 cluster_id 1; find_free next entries })"

definition find_free_cluster :: "nat list \<Rightarrow> nat \<Rightarrow> nat \<Rightarrow> nat option option" where
  "find_free_cluster entries start end' = do {
     _ \<leftarrow> guard (start \<le> end' \<and> end' \<le> length entries);
     find_free start (slice entries start end')
   }"

definition set_entry :: "nat list \<Rightarrow> nat \<Rightarrow> nat \<Rightarrow> nat list option" where
  "set_entry entries i v = (if i < length entries then Some (entries[i := v]) else None)"

definition alloc_cluster :: "nat option \<Rightarrow> FileAllocTable \<Rightarrow> (nat option \<times> FileAllocTable) option" where
  "alloc_cluster prev_cluster F = do {
     let meta = alloc_meta F;
     total \<leftarrow> add32 (data_clusters_count F) RESERVED_FAT_ENTRY_COUNT;
     let start = (if RESERVED_FAT_ENTRY_COUNT \<le> next_free meta \<and> next_free meta < total
       then next_free meta else RESERVED_FAT_ENTRY_COUNT);
     first \<leftarrow> find_free_cluster (fat_entries F) start total;
     ret \<leftarrow> (case first of
         Some c \<Rightarrow> Some (Some c)
       | None \<Rightarrow> if RESERVED_FAT_ENTRY_COUNT < start
                 then find_free_cluster (fat_entries F) RESERVED_FAT_ENTRY_COUNT start
                 else Some None);
     (case ret of
       None \<Rightarrow> Some (None, F)
     | Some cluster_id \<Rightarrow> do {
         next \<leftarrow> add32 cluster_id 1;
         let meta' = \<lparr> free_count = free_count meta - (if 0 < free_count meta then 1 else 0),
                       next_free = next \<rparr>;
         entries \<leftarrow> (case prev_cluster of
             None \<Rightarrow> Some (fat_entries F)
           | Some prev \<Rightarrow> set_entry (fat_entries F) prev cluster_id);
         entries' \<leftarrow> set_entry entries cluster_id END_OF_CHAIN;
         Some (Some cluster_id, F\<lparr> alloc_meta := meta', fat_entries := entries' \<rparr>)
       })
   }"

fun clear_entries :: "nat list \<Rightarrow> nat list \<Rightarrow> nat list option" where
  "clear_entries entries [] = Some entries"
| "clear_entries entries (c # cs) = do {
     entries' \<leftarrow> set_entry entries c 0;
     clear_entries entries' cs
   }"

definition free_clusters :: "nat list \<Rightarrow> nat option \<Rightarrow> FileAllocTable \<Rightarrow> FileAllocTable option" where
  "free_clusters clusters prev_cluster F =
    (if clusters = [] then Some F
     else do {
       entries \<leftarrow> (case prev_cluster of
           None \<Rightarrow> Some (fat_entries F)
         | Some prev \<Rightarrow> do {
             _ \<leftarrow> guard (prev < length (fat_entries F));
             _ \<leftarrow> guard (fat_entries F ! prev = hd clusters);
             set_entry (fat_entries F) prev END_OF_CHAIN
           });
       entries' \<leftarrow> clear_entries entries clusters;
       n \<leftarrow> add32 (free_count (alloc_meta F)) (as_u32 (length clusters));
       Some (F\<lparr> fat_entries := entries', alloc_meta := (alloc_meta F)\<lparr> free_count := n \<rparr> \<rparr>)
     })"

subsection \<open>Chains\<close>

partial_function (option) walk_chain :: "nat list \<Rightarrow> nat \<Rightarrow> nat list option option" where
  "walk_chain entries cur =
    (if cur < CHAIN_LIMIT
     then if cur < length entries
          then Option.bind (walk_chain entries (entries ! cur AND FAT_ENTRY_MASK))
                 (\<lambda>rest. Some (map_option (Cons cur) rest))
          else Some None
     else Some (Some []))"

definition cluster_chain :: "FileAllocTable \<Rightarrow> nat \<Rightarrow> nat list option option" where
  "cluster_chain F first_cluster_id =
    (if first_cluster_id < 2 then Some (Some [])
     else walk_chain (fat_entries F) first_cluster_id)"

definition cluster_sectors :: "FileAllocTable \<Rightarrow> nat \<Rightarrow> (nat \<times> nat) option" where
  "cluster_sectors F cluster_id = do {
     _ \<leftarrow> guard (2 \<le> cluster_id);
     off \<leftarrow> mul32 (cluster_id - RESERVED_FAT_ENTRY_COUNT) (cluster_len F);
     first_sector \<leftarrow> add32 (data_start_sector_id F) off;
     end_sector \<leftarrow> add32 first_sector (cluster_len F);
     Some (first_sector, end_sector)
   }"

definition bytes_per_cluster :: "FileAllocTable \<Rightarrow> nat" where
  "bytes_per_cluster F = cluster_len F * SECTOR_SIZE"


section \<open>Chains of clusters\<close>

fun is_chain :: "nat list \<Rightarrow> nat \<Rightarrow> nat list \<Rightarrow> bool" where
  "is_chain es c [] = (CHAIN_LIMIT \<le> c)"
| "is_chain es c (x # xs) =
    (x = c \<and> c < CHAIN_LIMIT \<and> c < length es \<and> is_chain es (es ! c AND FAT_ENTRY_MASK) xs)"

definition valid_chain :: "nat list \<Rightarrow> nat \<Rightarrow> nat list \<Rightarrow> bool" where
  "valid_chain es c cs \<longleftrightarrow> is_chain es c cs \<and> (\<forall>x \<in> set cs. 2 \<le> x)"

lemma walk_is_chain: "is_chain es c cs \<Longrightarrow> walk_chain es c = Some (Some cs)"
  by (induction es c cs rule: is_chain.induct) (simp_all add: walk_chain.simps)

lemma walk_chain_Some:
  assumes "walk_chain es c = Some r"
  shows "\<forall>cs. r = Some cs \<longrightarrow> is_chain es c cs"
  by (rule walk_chain.raw_induct [OF _ assms]) (auto simp: bind_eq_Some_conv split: if_splits)

lemma walk_chain_iff: "walk_chain es c = Some (Some cs) \<longleftrightarrow> is_chain es c cs"
  using walk_is_chain walk_chain_Some by blast

lemma is_chain_det: "is_chain es c cs \<Longrightarrow> is_chain es c ds \<Longrightarrow> cs = ds"
  by (metis walk_is_chain option.inject)

lemma is_chain_suffix: "is_chain es c (xs @ x # ys) \<Longrightarrow> is_chain es x (x # ys)"
  by (induction xs arbitrary: c) auto

lemma is_chain_distinct: "is_chain es c cs \<Longrightarrow> distinct cs"
proof (induction cs arbitrary: c)
  case (Cons x xs)
  have "x \<notin> set xs"
  proof
    assume "x \<in> set xs"
    then obtain us vs where xs: "xs = us @ x # vs" by (meson split_list)
    have "is_chain es x (x # vs)"
      using is_chain_suffix [of es c "x # us" x vs] Cons.prems unfolding xs append_Cons by blast
    moreover have "is_chain es x (x # xs)" using Cons.prems by simp
    ultimately have "x # xs = x # vs" by (rule is_chain_det [rotated])
    then show False using xs by simp
  qed
  with Cons show ?case by auto
qed simp

lemma is_chain_bound: "is_chain es c cs \<Longrightarrow> set cs \<subseteq> {..<length es}"
  by (induction es c cs rule: is_chain.induct) auto

lemma is_chain_length: "is_chain es c cs \<Longrightarrow> length cs \<le> length es"
  using is_chain_bound [of es c cs] is_chain_distinct [of es c cs]
  by (metis card_lessThan card_mono distinct_card finite_lessThan)

lemma is_chain_cong:
  "is_chain es c cs \<Longrightarrow> length es' = length es \<Longrightarrow> (\<And>x. x \<in> set cs \<Longrightarrow> es' ! x = es ! x)
    \<Longrightarrow> is_chain es' c cs"
  by (induction es c cs rule: is_chain.induct) auto

lemma is_chain_append:
  "is_chain es c (xs @ ys) \<longleftrightarrow>
    (if xs = [] then is_chain es c ys
     else hd xs = c \<and> (\<forall>x \<in> set xs. x < CHAIN_LIMIT \<and> x < length es)
       \<and> (\<forall>i. Suc i < length xs \<longrightarrow> es ! (xs ! i) AND FAT_ENTRY_MASK = xs ! Suc i)
       \<and> is_chain es (es ! last xs AND FAT_ENTRY_MASK) ys)"
proof (induction xs arbitrary: c)
  case (Cons x xs)
  show ?case
  proof (cases xs)
    case Nil
    then show ?thesis by auto
  next
    case (Cons y zs)
    have "(\<forall>i. Suc i < length (x # xs) \<longrightarrow> es ! ((x # xs) ! i) AND FAT_ENTRY_MASK = (x # xs) ! Suc i)
      \<longleftrightarrow> es ! x AND FAT_ENTRY_MASK = y
        \<and> (\<forall>i. Suc i < length xs \<longrightarrow> es ! (xs ! i) AND FAT_ENTRY_MASK = xs ! Suc i)"
      unfolding Cons by (auto simp: nth_Cons split: nat.splits)
    with Cons.IH Cons show ?thesis by auto
  qed
qed simp

text \<open>A cluster of a valid chain is not free: its entry is a cluster number above 1 or an
  end mark.\<close>

definition is_free :: "nat list \<Rightarrow> nat \<Rightarrow> bool" where
  "is_free es c \<longleftrightarrow> es ! c AND FAT_ENTRY_MASK = 0"

lemma valid_chain_not_free: "valid_chain es c cs \<Longrightarrow> x \<in> set cs \<Longrightarrow> \<not> is_free es x"
proof (induction cs arbitrary: c)
  case (Cons y ys)
  show ?case
  proof (cases "x = y")
    case True
    then show ?thesis using Cons.prems
      by (cases ys) (auto simp: valid_chain_def is_free_def fat_consts)
  next
    case False
    then show ?thesis using Cons by (auto simp: valid_chain_def)
  qed
qed simp

lemma valid_chain_other:
  assumes "valid_chain es c cs" "length es' = length es" "\<And>x. x \<in> set cs \<Longrightarrow> es' ! x = es ! x"
  shows "valid_chain es' c cs"
  using assms is_chain_cong [of es c cs es'] by (simp add: valid_chain_def)

subsection \<open>The walk ends exactly when it leaves the table\<close>

definition walk_step :: "nat list \<Rightarrow> nat \<Rightarrow> nat" where
  "walk_step es c = es ! c AND FAT_ENTRY_MASK"

definition walk_ends :: "nat list \<Rightarrow> nat \<Rightarrow> bool" where
  "walk_ends es c \<longleftrightarrow> CHAIN_LIMIT \<le> c \<or> length es \<le> c"

lemma walk_Some_ends:
  assumes "walk_chain es c = Some r"
  shows "\<exists>n. walk_ends es ((walk_step es ^^ n) c)"
proof (rule walk_chain.raw_induct [OF _ assms])
  fix walk es c and r :: "nat list option"
  assume IH: "\<And>es c r. walk es c = Some r \<Longrightarrow> \<exists>n. walk_ends es ((walk_step es ^^ n) c)"
    and step: "(if c < CHAIN_LIMIT
      then if c < length es
           then Option.bind (walk es (es ! c AND FAT_ENTRY_MASK)) (\<lambda>rest. Some (map_option (Cons c) rest))
           else Some None
      else Some (Some [])) = Some r"
  show "\<exists>n. walk_ends es ((walk_step es ^^ n) c)"
  proof (cases "walk_ends es c")
    case True
    then show ?thesis by (metis funpow_0)
  next
    case False
    then obtain r' where "walk es (walk_step es c) = Some r'"
      using step by (auto simp: walk_ends_def walk_step_def bind_eq_Some_conv split: if_splits)
    then obtain n where "walk_ends es ((walk_step es ^^ n) (walk_step es c))" using IH by blast
    then show ?thesis by (metis comp_apply funpow_Suc_right)
  qed
qed

lemma walk_ends_Some: "walk_ends es ((walk_step es ^^ n) c) \<Longrightarrow> \<exists>r. walk_chain es c = Some r"
proof (induction n arbitrary: c)
  case 0
  then show ?case by (auto simp: walk_ends_def walk_chain.simps [of es c])
next
  case (Suc n)
  then obtain r where "walk_chain es (walk_step es c) = Some r"
    by (metis comp_apply funpow_Suc_right)
  then show ?case by (auto simp: walk_step_def walk_chain.simps [of es c])
qed

text \<open>A walk that ends does so before it has seen every entry twice.\<close>

lemma walk_ends_early:
  assumes "walk_ends es ((walk_step es ^^ n) c)"
  shows "\<exists>k \<le> length es. walk_ends es ((walk_step es ^^ k) c)"
proof -
  let ?f = "\<lambda>i. (walk_step es ^^ i) c"
  define k where "k = (LEAST k. walk_ends es (?f k))"
  have end_k: "walk_ends es (?f k)" unfolding k_def using assms by (rule LeastI)
  have before: "\<not> walk_ends es (?f i)" if "i < k" for i
    using that unfolding k_def by (rule not_less_Least)
  have "inj_on ?f {..<k}"
  proof (rule linorder_inj_onI)
    fix i j :: nat
    assume ij: "i < j" "j \<in> {..<k}"
    show "?f i \<noteq> ?f j"
    proof
      assume eq: "?f i = ?f j"
      have shift: "?f (m + i) = ?f (m + j)" for m
        using eq by (simp add: funpow_add)
      have "?f (k - j + i) = ?f k" using shift [of "k - j"] ij by simp
      then have "walk_ends es (?f (k - j + i))" using end_k by simp
      moreover have "k - j + i < k" using ij by simp
      ultimately show False using before by blast
    qed
  qed auto
  moreover have "?f ` {..<k} \<subseteq> {..<length es}"
    using before by (fastforce simp: walk_ends_def not_le)
  ultimately have "k \<le> length es"
    by (metis card_inj_on_le card_lessThan finite_lessThan)
  with end_k show ?thesis by blast
qed

lemma walk_chain_returns:
  "walk_chain es c \<noteq> None \<longleftrightarrow> (\<exists>n \<le> length es. walk_ends es ((walk_step es ^^ n) c))"
  using walk_Some_ends walk_ends_Some walk_ends_early by (metis not_Some_eq)


section \<open>Allocation and freeing\<close>

definition fat_ok :: "FileAllocTable \<Rightarrow> bool" where
  "fat_ok F \<longleftrightarrow> length (fat_entries F) = data_clusters_count F + 2
    \<and> length (fat_entries F) \<le> CHAIN_LIMIT"

definition free_set :: "FileAllocTable \<Rightarrow> nat set" where
  "free_set F = {c. 2 \<le> c \<and> c < length (fat_entries F) \<and> is_free (fat_entries F) c}"

definition meta_exact :: "FileAllocTable \<Rightarrow> bool" where
  "meta_exact F \<longleftrightarrow> free_count (alloc_meta F) = card (free_set F)"

lemma finite_free_set [simp]: "finite (free_set F)"
  by (rule finite_subset [of _ "{..<length (fat_entries F)}"]) (auto simp: free_set_def)

lemma find_free_spec:
  "s + length es < u32_limit \<Longrightarrow>
    \<exists>r. find_free s es = Some r
      \<and> (r = None \<longrightarrow> (\<forall>i < length es. es ! i AND FAT_ENTRY_MASK \<noteq> 0))
      \<and> (\<forall>c. r = Some c \<longrightarrow> s \<le> c \<and> c < s + length es \<and> es ! (c - s) AND FAT_ENTRY_MASK = 0
            \<and> (\<forall>i < c - s. es ! i AND FAT_ENTRY_MASK \<noteq> 0))"
proof (induction es arbitrary: s)
  case (Cons e es)
  show ?case
  proof (cases "e AND FAT_ENTRY_MASK = 0")
    case True
    then show ?thesis by simp
  next
    case False
    from Cons.prems have "Suc s + length es < u32_limit" by simp
    from Cons.IH [OF this] obtain r where r: "find_free (Suc s) es = Some r"
      "r = None \<longrightarrow> (\<forall>i < length es. es ! i AND FAT_ENTRY_MASK \<noteq> 0)"
      "\<forall>c. r = Some c \<longrightarrow> Suc s \<le> c \<and> c < Suc s + length es \<and> es ! (c - Suc s) AND FAT_ENTRY_MASK = 0
            \<and> (\<forall>i < c - Suc s. es ! i AND FAT_ENTRY_MASK \<noteq> 0)" by blast
    have "find_free s (e # es) = Some r" using False r(1) Cons.prems by (simp add: add32_def)
    moreover have "r = None \<longrightarrow> (\<forall>i < length (e # es). (e # es) ! i AND FAT_ENTRY_MASK \<noteq> 0)"
      using False r(2) by (auto simp: nth_Cons split: nat.splits)
    moreover have "s \<le> c \<and> c < s + length (e # es) \<and> (e # es) ! (c - s) AND FAT_ENTRY_MASK = 0
            \<and> (\<forall>i < c - s. (e # es) ! i AND FAT_ENTRY_MASK \<noteq> 0)" if "r = Some c" for c
    proof -
      have c: "Suc s \<le> c" "c < Suc s + length es" "es ! (c - Suc s) AND FAT_ENTRY_MASK = 0"
        "\<forall>i < c - Suc s. es ! i AND FAT_ENTRY_MASK \<noteq> 0" using r(3) that by blast+
      then have "c - s = Suc (c - Suc s)" by simp
      then show ?thesis using c False by (auto simp: nth_Cons split: nat.splits)
    qed
    ultimately show ?thesis by blast
  qed
qed simp

lemma find_free_cluster_spec:
  assumes "s \<le> e" "e \<le> length es" "length es < u32_limit"
  shows "\<exists>r. find_free_cluster es s e = Some r
      \<and> (r = None \<longrightarrow> (\<forall>i. s \<le> i \<and> i < e \<longrightarrow> \<not> is_free es i))
      \<and> (\<forall>c. r = Some c \<longrightarrow> s \<le> c \<and> c < e \<and> is_free es c
            \<and> (\<forall>i. s \<le> i \<and> i < c \<longrightarrow> \<not> is_free es i))"
proof -
  have len: "length (slice es s e) = e - s" using assms by simp
  have nth: "slice es s e ! i = es ! (s + i)" if "i < e - s" for i
    using that assms by (simp add: slice_def add.commute)
  from find_free_spec [of s "slice es s e"] len assms
  obtain r where r: "find_free s (slice es s e) = Some r"
    "r = None \<longrightarrow> (\<forall>i < e - s. slice es s e ! i AND FAT_ENTRY_MASK \<noteq> 0)"
    "\<And>c. r = Some c \<Longrightarrow> s \<le> c \<and> c < s + (e - s) \<and> slice es s e ! (c - s) AND FAT_ENTRY_MASK = 0
      \<and> (\<forall>i < c - s. slice es s e ! i AND FAT_ENTRY_MASK \<noteq> 0)" by auto
  have none: "\<not> is_free es i" if "r = None" "s \<le> i" "i < e" for i
  proof -
    have "i - s < e - s" using that(2,3) by simp
    then show ?thesis using r(2) that nth [of "i - s"] unfolding is_free_def by fastforce
  qed
  have some: "s \<le> c \<and> c < e \<and> is_free es c \<and> (\<forall>i. s \<le> i \<and> i < c \<longrightarrow> \<not> is_free es i)"
    if "r = Some c" for c
  proof -
    note c = r(3) [OF that]
    have "\<not> is_free es i" if "s \<le> i" "i < c" for i
    proof -
      have "i - s < c - s" "i - s < e - s" using c that by auto
      then show ?thesis using c that nth [of "i - s"] unfolding is_free_def by fastforce
    qed
    then show ?thesis using c nth [of "c - s"] by (auto simp: is_free_def)
  qed
  have "find_free_cluster es s e = Some r" using r(1) assms by (simp add: find_free_cluster_def)
  then show ?thesis using none some by blast
qed

text \<open>The search of \<^verbatim>\<open>alloc_cluster\<close>: from the hint to the end, then from the first data
  cluster to the hint.\<close>

definition search_start :: "FileAllocTable \<Rightarrow> nat" where
  "search_start F = (let n = next_free (alloc_meta F) in
    if 2 \<le> n \<and> n < length (fat_entries F) then n else 2)"

definition link_cluster :: "nat option \<Rightarrow> nat \<Rightarrow> nat list \<Rightarrow> nat list" where
  "link_cluster prev c es = (case prev of None \<Rightarrow> es | Some p \<Rightarrow> es[p := c])[c := END_OF_CHAIN]"

lemma alloc_cluster_cases:
  assumes ok: "fat_ok F" and prev: "\<And>p. prev = Some p \<Longrightarrow> p < length (fat_entries F)"
  shows "(free_set F = {} \<and> alloc_cluster prev F = Some (None, F))
    \<or> (\<exists>c \<in> free_set F.
        (\<forall>i \<in> free_set F. search_start F \<le> i \<longrightarrow> search_start F \<le> c \<and> c \<le> i)
        \<and> alloc_cluster prev F = Some (Some c,
            F\<lparr> alloc_meta := \<lparr> free_count = free_count (alloc_meta F) - 1, next_free = c + 1 \<rparr>,
               fat_entries := link_cluster prev c (fat_entries F) \<rparr>))"
proof -
  let ?es = "fat_entries F" and ?s = "search_start F"
  have lim: "length ?es < u32_limit" using ok by (simp add: fat_ok_def fat_consts u32_limit_def)
  have total: "add32 (data_clusters_count F) 2 = Some (length ?es)"
    using ok lim by (simp add: fat_ok_def add32_def)
  have s: "2 \<le> ?s" "?s \<le> length ?es"
    using ok by (auto simp: search_start_def Let_def fat_ok_def)
  have start: "(if 2 \<le> next_free (alloc_meta F) \<and> next_free (alloc_meta F) < length ?es
      then next_free (alloc_meta F) else 2) = ?s"
    by (simp add: search_start_def Let_def)
  obtain r1 where r1: "find_free_cluster ?es ?s (length ?es) = Some r1"
    "r1 = None \<Longrightarrow> (\<forall>i. ?s \<le> i \<and> i < length ?es \<longrightarrow> \<not> is_free ?es i)"
    "\<And>c. r1 = Some c \<Longrightarrow> ?s \<le> c \<and> c < length ?es \<and> is_free ?es c \<and> (\<forall>i. ?s \<le> i \<and> i < c \<longrightarrow> \<not> is_free ?es i)"
    using find_free_cluster_spec [OF s(2) order_refl lim] by blast
  obtain r2 where r2: "find_free_cluster ?es 2 ?s = Some r2"
    "r2 = None \<Longrightarrow> (\<forall>i. 2 \<le> i \<and> i < ?s \<longrightarrow> \<not> is_free ?es i)"
    "\<And>c. r2 = Some c \<Longrightarrow> 2 \<le> c \<and> c < ?s \<and> is_free ?es c \<and> (\<forall>i. 2 \<le> i \<and> i < c \<longrightarrow> \<not> is_free ?es i)"
    using find_free_cluster_spec [OF s(1,2) lim] by blast
  have unfolded: "alloc_cluster prev F =
    (case (case r1 of Some c \<Rightarrow> Some c | None \<Rightarrow> if 2 < ?s then r2 else None) of
      None \<Rightarrow> Some (None, F)
    | Some c \<Rightarrow> Option.bind (add32 c 1) (\<lambda>next.
        Option.bind (case prev of None \<Rightarrow> Some ?es | Some p \<Rightarrow> set_entry ?es p c) (\<lambda>entries.
        Option.bind (set_entry entries c END_OF_CHAIN) (\<lambda>entries'.
        Some (Some c, F\<lparr> alloc_meta := \<lparr> free_count = free_count (alloc_meta F) - 1, next_free = next \<rparr>,
                         fat_entries := entries' \<rparr>)))))"
  proof -
    have dec: "n - (if 0 < n then 1 else 0) = n - 1" for n :: nat by simp
    show ?thesis
      unfolding alloc_cluster_def Let_def RESERVED_FAT_ENTRY_COUNT_def total Option.bind.simps start
        r1(1) r2(1) dec
      by (cases r1; cases "2 < ?s"; cases r2) simp_all
  qed
  have fin: "alloc_cluster prev F = Some (Some c,
      F\<lparr> alloc_meta := \<lparr> free_count = free_count (alloc_meta F) - 1, next_free = c + 1 \<rparr>,
         fat_entries := link_cluster prev c ?es \<rparr>)"
    if c: "c < length ?es" and
      pick: "r1 = Some c \<or> r1 = None \<and> 2 < ?s \<and> r2 = Some c" for c
  proof -
    have "add32 c 1 = Some (c + 1)" using c lim by (simp add: add32_def)
    then show ?thesis
      using c pick prev unfolding unfolded
      by (cases prev) (auto simp: set_entry_def link_cluster_def)
  qed
  show ?thesis
  proof (cases r1)
    case (Some c)
    with r1(3) s(1) have "c \<in> free_set F" by (auto simp: free_set_def)
    moreover have "\<forall>i \<in> free_set F. ?s \<le> i \<longrightarrow> ?s \<le> c \<and> c \<le> i"
      using r1(3) [OF Some] by (auto simp: free_set_def not_less [symmetric])
    ultimately show ?thesis using fin [of c] Some r1(3) by blast
  next
    case None
    note n1 = r1(2) [OF None]
    show ?thesis
    proof (cases "2 < ?s \<and> r2 \<noteq> None")
      case True
      then obtain c where c: "r2 = Some c" by blast
      with r2(3) s have "c \<in> free_set F" by (auto simp: free_set_def)
      moreover have "\<forall>i \<in> free_set F. ?s \<le> i \<longrightarrow> ?s \<le> c \<and> c \<le> i"
        using n1 by (auto simp: free_set_def)
      moreover have "c < length ?es" using r2(3) [OF c] s by simp
      ultimately show ?thesis using fin [of c] True None c by blast
    next
      case False
      then have "\<forall>i. 2 \<le> i \<and> i < ?s \<longrightarrow> \<not> is_free ?es i" using r2(2) s(1) by auto
      with n1 have "free_set F = {}" by (auto simp: free_set_def not_less [symmetric])
      moreover have "alloc_cluster prev F = Some (None, F)"
        using False None unfolding unfolded by auto
      ultimately show ?thesis by blast
    qed
  qed
qed

lemma mask_id: "c < CHAIN_LIMIT \<Longrightarrow> c AND FAT_ENTRY_MASK = c"
  using and_mask_mod [of c 28] by (simp add: fat_consts)

lemma mask_end [simp]: "END_OF_CHAIN AND FAT_ENTRY_MASK = END_OF_CHAIN"
  by (simp add: fat_consts)

lemma end_of_chain: "CHAIN_LIMIT \<le> END_OF_CHAIN" "END_OF_CHAIN \<noteq> 0"
  by (simp_all add: fat_consts)

lemma length_link [simp]: "length (link_cluster prev c es) = length es"
  by (simp add: link_cluster_def split: option.splits)

text \<open>What the new link does to the chain it extends, to the other chains and to the
  free clusters.\<close>

lemma link_extends:
  assumes cs: "cs = [] \<or> valid_chain es f cs" and c: "2 \<le> c" "c < length es" "is_free es c"
    and lim: "length es \<le> CHAIN_LIMIT"
  shows "valid_chain (link_cluster (if cs = [] then None else Some (last cs)) c es)
    (hd (cs @ [c])) (cs @ [c])"
proof (cases "cs = []")
  case True
  then show ?thesis using c lim
    by (simp add: valid_chain_def link_cluster_def end_of_chain)
next
  case False
  then have v: "valid_chain es f cs" using cs by simp
  then have chain: "is_chain es f (cs @ [])" by (simp add: valid_chain_def)
  have notin: "c \<notin> set cs" using valid_chain_not_free [OF v] c(3) by blast
  have dist: "distinct cs" using chain is_chain_distinct by simp
  let ?es = "es[last cs := c, c := END_OF_CHAIN]"
  from chain False have props: "hd cs = f" "\<forall>x \<in> set cs. x < CHAIN_LIMIT \<and> x < length es"
    "\<forall>i. Suc i < length cs \<longrightarrow> es ! (cs ! i) AND FAT_ENTRY_MASK = cs ! Suc i"
    unfolding is_chain_append if_not_P [OF False] by blast+
  have "?es ! (cs ! i) = es ! (cs ! i)" if "Suc i < length cs" for i
  proof -
    have "cs ! i \<noteq> last cs"
      using that dist False by (simp add: last_conv_nth nth_eq_iff_index_eq)
    moreover have "cs ! i \<noteq> c" using notin that by (metis Suc_lessD nth_mem)
    ultimately show ?thesis by simp
  qed
  then have links: "\<forall>i. Suc i < length cs \<longrightarrow> ?es ! (cs ! i) AND FAT_ENTRY_MASK = cs ! Suc i"
    using props(3) by simp
  have last: "last cs \<noteq> c" "last cs < length es" using notin False props(2) by auto
  then have "?es ! last cs AND FAT_ENTRY_MASK = c" using c lim by (simp add: mask_id)
  then have "is_chain ?es (hd cs) (cs @ [c])"
    unfolding is_chain_append using False props(2) links c lim by (simp add: end_of_chain)
  then show ?thesis using False v c by (auto simp: valid_chain_def link_cluster_def)
qed

lemma link_others:
  assumes "valid_chain es g ds" "is_free es c" "p \<notin> set ds"
  shows "valid_chain (link_cluster None c es) g ds"
    and "valid_chain (link_cluster (Some p) c es) g ds"
proof -
  have ne: "c \<noteq> x" "p \<noteq> x" if "x \<in> set ds" for x
    using assms valid_chain_not_free [OF assms(1) that] that by auto
  show "valid_chain (link_cluster None c es) g ds" "valid_chain (link_cluster (Some p) c es) g ds"
    by (rule valid_chain_other [OF assms(1)]; simp add: link_cluster_def ne)+
qed


lemma link_free_set:
  assumes c: "c \<in> free_set F" and p: "\<And>p. prev = Some p \<Longrightarrow> \<not> is_free (fat_entries F) p"
    and lim: "length (fat_entries F) \<le> CHAIN_LIMIT"
    and F': "fat_entries F' = link_cluster prev c (fat_entries F)"
  shows "free_set F' = free_set F - {c}"
proof -
  have c': "2 \<le> c" "c < length (fat_entries F)" "c < CHAIN_LIMIT"
    using c lim by (auto simp: free_set_def)
  have "is_free (fat_entries F') x \<longleftrightarrow> is_free (fat_entries F) x \<and> x \<noteq> c"
    if x: "x < length (fat_entries F)" for x
  proof (cases "x = c")
    case True
    then show ?thesis using c' x by (simp add: F' link_cluster_def is_free_def end_of_chain split: option.splits)
  next
    case False
    have "is_free (fat_entries F) x \<longleftrightarrow> is_free ((fat_entries F)[a := c]) x"
      if "prev = Some a" for a
      using p [OF that] c' x by (cases "a = x") (auto simp: is_free_def mask_id)
    then show ?thesis
      using False by (cases prev) (simp_all add: F' link_cluster_def is_free_def)
  qed
  then show ?thesis by (auto simp: free_set_def F')
qed

subsection \<open>Freeing\<close>

lemma clear_entries_Some:
  "set cs \<subseteq> {..<length es} \<Longrightarrow>
    \<exists>es'. clear_entries es cs = Some es' \<and> length es' = length es
      \<and> (\<forall>i < length es. es' ! i = (if i \<in> set cs then 0 else es ! i))"
proof (induction cs arbitrary: es)
  case (Cons c cs)
  then have "set cs \<subseteq> {..<length (es[c := 0])}" by simp
  from Cons.IH [OF this] obtain es' where
    "clear_entries (es[c := 0]) cs = Some es'" "length es' = length es"
    "\<forall>i < length es. es' ! i = (if i \<in> set cs then 0 else es[c := 0] ! i)" by auto
  moreover have "set_entry es c 0 = Some (es[c := 0])" using Cons.prems by (simp add: set_entry_def)
  ultimately show ?case by (auto simp: nth_list_update)
qed simp

text \<open>The file of the chain \<^verbatim>\<open>cs @ ds\<close> keeps the clusters \<^verbatim>\<open>cs\<close>: the entry of its last
  cluster becomes an end mark, the entries of \<^verbatim>\<open>ds\<close> become 0.\<close>

lemma free_clusters_eq:
  assumes v: "valid_chain (fat_entries F) f (cs @ ds)" and ds: "ds \<noteq> []"
    and raw: "cs \<noteq> [] \<Longrightarrow> fat_entries F ! last cs = hd ds"
    and count: "free_count (alloc_meta F) + length ds < u32_limit"
  shows "\<exists>es'. free_clusters ds (if cs = [] then None else Some (last cs)) F =
      Some (F\<lparr> fat_entries := es',
               alloc_meta := (alloc_meta F)\<lparr> free_count := free_count (alloc_meta F) + length ds \<rparr> \<rparr>)
    \<and> length es' = length (fat_entries F)
    \<and> (\<forall>i < length (fat_entries F). es' ! i =
        (if i \<in> set ds then 0 else if cs \<noteq> [] \<and> i = last cs then END_OF_CHAIN else fat_entries F ! i))"
proof -
  let ?es = "fat_entries F"
  let ?cut = "if cs = [] then ?es else ?es[last cs := END_OF_CHAIN]"
  have bound: "set (cs @ ds) \<subseteq> {..<length ?es}"
    using v is_chain_bound [of ?es f "cs @ ds"] by (simp add: valid_chain_def)
  then have "set ds \<subseteq> {..<length ?cut}" by simp
  from clear_entries_Some [OF this] obtain es' where
    es': "clear_entries ?cut ds = Some es'" "length es' = length ?cut"
    "\<forall>i < length ?cut. es' ! i = (if i \<in> set ds then 0 else ?cut ! i)" by blast
  have "add32 (free_count (alloc_meta F)) (as_u32 (length ds)) = Some (free_count (alloc_meta F) + length ds)"
    using count by (simp add: add32_def)
  moreover have "last cs < length ?es" if "cs \<noteq> []"
    using bound last_in_set [OF that] by auto
  ultimately have "free_clusters ds (if cs = [] then None else Some (last cs)) F =
      Some (F\<lparr> fat_entries := es',
               alloc_meta := (alloc_meta F)\<lparr> free_count := free_count (alloc_meta F) + length ds \<rparr> \<rparr>)"
    using ds raw es'(1) by (cases "cs = []") (simp_all add: free_clusters_def set_entry_def)
  then show ?thesis using es'(2,3) by (auto simp: nth_list_update)
qed

lemma cut_chain:
  assumes v: "valid_chain es f (cs @ ds)" and cs: "cs \<noteq> []"
    and len: "length es' = length es"
    and es': "\<forall>i < length es. es' ! i =
        (if i \<in> set ds then 0 else if cs \<noteq> [] \<and> i = last cs then END_OF_CHAIN else es ! i)"
  shows "valid_chain es' f cs"
proof -
  have chain: "is_chain es f (cs @ ds)" using v by (simp add: valid_chain_def)
  have dist: "distinct (cs @ ds)" using is_chain_distinct [OF chain] .
  from chain cs have props: "hd cs = f" "\<forall>x \<in> set cs. x < CHAIN_LIMIT \<and> x < length es"
    "\<forall>i. Suc i < length cs \<longrightarrow> es ! (cs ! i) AND FAT_ENTRY_MASK = cs ! Suc i"
    unfolding is_chain_append if_not_P [OF cs] by blast+
  have "es' ! (cs ! i) = es ! (cs ! i)" if i: "Suc i < length cs" for i
  proof -
    have "cs ! i \<noteq> last cs" using i dist cs by (simp add: last_conv_nth nth_eq_iff_index_eq)
    moreover have "cs ! i \<in> set cs" using i by simp
    ultimately show ?thesis using es' props(2) dist by auto
  qed
  moreover have "es' ! last cs = END_OF_CHAIN" using es' props(2) dist cs by (auto dest: last_in_set)
  ultimately have "is_chain es' f (cs @ [])"
    unfolding is_chain_append using cs props len by (simp add: end_of_chain)
  then show ?thesis using v by (simp add: valid_chain_def)
qed

lemma cut_free_set:
  assumes v: "valid_chain (fat_entries F) f (cs @ ds)"
    and len: "length (fat_entries F') = length (fat_entries F)"
    and es': "\<forall>i < length (fat_entries F). fat_entries F' ! i =
        (if i \<in> set ds then 0 else if cs \<noteq> [] \<and> i = last cs then END_OF_CHAIN else fat_entries F ! i)"
  shows "free_set F' = free_set F \<union> set ds"
    and "set ds \<inter> free_set F = {}"
proof -
  have bound: "set (cs @ ds) \<subseteq> {2..<length (fat_entries F)}"
    using v is_chain_bound by (fastforce simp: valid_chain_def)
  have used: "\<not> is_free (fat_entries F) x" if "x \<in> set (cs @ ds)" for x
    using valid_chain_not_free [OF v that] .
  then show "set ds \<inter> free_set F = {}" by (auto simp: free_set_def)
  have "is_free (fat_entries F') x \<longleftrightarrow> is_free (fat_entries F) x \<or> x \<in> set ds"
    if "x < length (fat_entries F)" for x
    using that es' used [of x] by (auto simp: is_free_def end_of_chain)
  then show "free_set F' = free_set F \<union> set ds"
    using bound len by (auto simp: free_set_def)
qed


section \<open>Correctness of the table\<close>

text \<open>C22: \<^verbatim>\<open>alloc_cluster\<close> never panics on a well-formed table.  It returns None, changing
  nothing, exactly when no data cluster is free.  Otherwise it takes one free cluster,
  the first one from the hint on if there is one there; the chain of the file that asks
  becomes its old chain followed by the new cluster (a new chain when the file had none);
  every other chain is unchanged; the free clusters lose exactly that cluster and an exact
  free count stays exact.\<close>

theorem alloc_cluster_correct:
  assumes ok: "fat_ok F" and cs: "cs = [] \<or> valid_chain (fat_entries F) f cs"
  shows "\<exists>r F'. alloc_cluster (if cs = [] then None else Some (last cs)) F = Some (r, F')
    \<and> fat_ok F' \<and> (r = None \<longleftrightarrow> free_set F = {}) \<and> (r = None \<longrightarrow> F' = F)
    \<and> (\<forall>c. r = Some c \<longrightarrow> c \<in> free_set F \<and> free_set F' = free_set F - {c}
        \<and> (\<forall>i \<in> free_set F. search_start F \<le> i \<longrightarrow> search_start F \<le> c \<and> c \<le> i)
        \<and> valid_chain (fat_entries F') (hd (cs @ [c])) (cs @ [c]))
    \<and> (\<forall>g ds. valid_chain (fat_entries F) g ds \<and> set ds \<inter> set cs = {} \<longrightarrow> valid_chain (fat_entries F') g ds)
    \<and> (meta_exact F \<longrightarrow> meta_exact F')"
proof -
  let ?prev = "if cs = [] then None else Some (last cs)"
  have p: "\<not> is_free (fat_entries F) p" "p < length (fat_entries F)" "p \<in> set cs" if "?prev = Some p" for p
  proof -
    from that have "cs \<noteq> []" "p = last cs" by (auto split: if_splits)
    with cs have v: "valid_chain (fat_entries F) f cs" and "p \<in> set cs" by auto
    then show "\<not> is_free (fat_entries F) p" "p < length (fat_entries F)" "p \<in> set cs"
      using valid_chain_not_free [OF v] is_chain_bound [of "fat_entries F" f cs]
      by (auto simp: valid_chain_def)
  qed
  from alloc_cluster_cases [OF ok p(2)] consider
      "free_set F = {}" "alloc_cluster ?prev F = Some (None, F)"
    | c where "c \<in> free_set F" "\<forall>i \<in> free_set F. search_start F \<le> i \<longrightarrow> search_start F \<le> c \<and> c \<le> i"
      "alloc_cluster ?prev F = Some (Some c,
          F\<lparr> alloc_meta := \<lparr> free_count = free_count (alloc_meta F) - 1, next_free = c + 1 \<rparr>,
             fat_entries := link_cluster ?prev c (fat_entries F) \<rparr>)" by blast
  then show ?thesis
  proof cases
    case 1
    then show ?thesis using ok by auto
  next
    case (2 c)
    let ?F = "F\<lparr> alloc_meta := \<lparr> free_count = free_count (alloc_meta F) - 1, next_free = c + 1 \<rparr>,
             fat_entries := link_cluster ?prev c (fat_entries F) \<rparr>"
    have lim: "length (fat_entries F) \<le> CHAIN_LIMIT" using ok by (simp add: fat_ok_def)
    have c: "2 \<le> c" "c < length (fat_entries F)" "is_free (fat_entries F) c"
      using 2(1) by (simp_all add: free_set_def)
    have free: "free_set ?F = free_set F - {c}"
      by (rule link_free_set [OF 2(1) p(1) lim]) simp_all
    have ext: "valid_chain (fat_entries ?F) (hd (cs @ [c])) (cs @ [c])"
      using link_extends [OF cs c lim] by simp
    have other: "valid_chain (fat_entries ?F) g ds"
      if "valid_chain (fat_entries F) g ds" "set ds \<inter> set cs = {}" for g ds
    proof (cases "cs = []")
      case True
      then show ?thesis using link_others(1) [OF that(1) c(3), of c] valid_chain_not_free [OF that(1)] c(3)
        by auto
    next
      case False
      then have "last cs \<notin> set ds" using that(2) last_in_set by blast
      then show ?thesis using link_others(2) [OF that(1) c(3)] False by simp
    qed
    have "fat_ok ?F" using ok by (simp add: fat_ok_def)
    moreover have "meta_exact F \<longrightarrow> meta_exact ?F"
      unfolding meta_exact_def free using 2(1) by (simp add: card_Diff_singleton)
    ultimately show ?thesis using 2 free ext other
      by (intro exI [of _ "Some c"] exI [of _ ?F]) blast
  qed
qed

lemma free_clusters_spec:
  assumes ok: "fat_ok F" and v: "valid_chain (fat_entries F) f (cs @ ds)" and ds: "ds \<noteq> []"
    and raw: "cs \<noteq> [] \<Longrightarrow> fat_entries F ! last cs = hd ds"
    and count: "free_count (alloc_meta F) \<le> data_clusters_count F"
  shows "\<exists>F'. free_clusters ds (if cs = [] then None else Some (last cs)) F = Some F'
    \<and> fat_ok F' \<and> (cs \<noteq> [] \<longrightarrow> valid_chain (fat_entries F') f cs)
    \<and> free_set F' = free_set F \<union> set ds
    \<and> (\<forall>g es. valid_chain (fat_entries F) g es \<and> set es \<inter> set (cs @ ds) = {} \<longrightarrow> valid_chain (fat_entries F') g es)
    \<and> (meta_exact F \<longrightarrow> meta_exact F')"
proof -
  have chain: "is_chain (fat_entries F) f (cs @ ds)" using v by (simp add: valid_chain_def)
  have "length ds \<le> length (fat_entries F)" using is_chain_length [OF chain] by simp
  then have "free_count (alloc_meta F) + length ds < u32_limit"
    using ok count by (simp add: fat_ok_def fat_consts u32_limit_def)
  from free_clusters_eq [OF v ds raw this] obtain es' where
    F': "free_clusters ds (if cs = [] then None else Some (last cs)) F =
      Some (F\<lparr> fat_entries := es',
               alloc_meta := (alloc_meta F)\<lparr> free_count := free_count (alloc_meta F) + length ds \<rparr> \<rparr>)"
      (is "_ = Some ?F")
    and len: "length es' = length (fat_entries F)"
    and es': "\<forall>i < length (fat_entries F). es' ! i =
        (if i \<in> set ds then 0 else if cs \<noteq> [] \<and> i = last cs then END_OF_CHAIN else fat_entries F ! i)"
    by blast
  have free: "free_set ?F = free_set F \<union> set ds" "set ds \<inter> free_set F = {}"
    using cut_free_set [OF v, of ?F] len es' by simp_all
  have "distinct ds" using is_chain_distinct [OF chain] by simp
  then have exact: "meta_exact F \<longrightarrow> meta_exact ?F"
    unfolding meta_exact_def free(1) using free(2) by (simp add: card_Un_disjoint Int_commute distinct_card)
  have other: "valid_chain (fat_entries ?F) g es"
    if "valid_chain (fat_entries F) g es" "set es \<inter> set (cs @ ds) = {}" for g es
  proof (rule valid_chain_other [OF that(1)])
    fix x assume x: "x \<in> set es"
    then have "x < length (fat_entries F)" using that(1) is_chain_bound by (auto simp: valid_chain_def)
    moreover have "x \<notin> set ds" "cs \<noteq> [] \<Longrightarrow> x \<noteq> last cs" using x that(2) last_in_set by auto
    ultimately show "fat_entries ?F ! x = fat_entries F ! x" using es' by auto
  qed (simp add: len)
  have "fat_ok ?F" using ok len by (simp add: fat_ok_def)
  moreover have "cs \<noteq> [] \<longrightarrow> valid_chain (fat_entries ?F) f cs"
    using cut_chain [OF v _ len es'] by simp
  ultimately show ?thesis using F' free(1) other exact by blast
qed

text \<open>C23: \<^verbatim>\<open>free_clusters\<close> on the tail of a file's chain.  When the entry before the tail
  is the bare number of the tail's first cluster and the recorded free count is not above the
  number of clusters, it does not panic; the file keeps exactly
  the clusters before the tail, the clusters of the tail become free and nothing else does,
  the chains of the other files are unchanged, and an exact free count stays exact.\<close>

theorem free_clusters_correct:
  assumes ok: "fat_ok F" and v: "valid_chain (fat_entries F) f (cs @ ds)" and ds: "ds \<noteq> []"
    and raw: "cs \<noteq> [] \<Longrightarrow> fat_entries F ! last cs = hd ds"
    and count: "free_count (alloc_meta F) \<le> data_clusters_count F"
  shows "\<exists>F'. free_clusters ds (if cs = [] then None else Some (last cs)) F = Some F'
    \<and> fat_ok F' \<and> (cs \<noteq> [] \<longrightarrow> valid_chain (fat_entries F') f cs)
    \<and> free_set F' = free_set F \<union> set ds
    \<and> (\<forall>g es. valid_chain (fat_entries F) g es \<and> set es \<inter> set (cs @ ds) = {} \<longrightarrow> valid_chain (fat_entries F') g es)
    \<and> (meta_exact F \<longrightarrow> meta_exact F')"
  using free_clusters_spec [OF ok v ds raw count] .

text \<open>C25: reading a chain ends exactly when the walk through the table leaves it, and then
  after no more steps than the table has entries; a cycle makes it run forever.  When it
  delivers a list, the list is the chain of the first cluster, without repetition.\<close>

theorem cluster_chain_terminates:
  "(cluster_chain F c \<noteq> None \<longleftrightarrow>
      c < 2 \<or> (\<exists>n \<le> length (fat_entries F). walk_ends (fat_entries F) ((walk_step (fat_entries F) ^^ n) c)))
    \<and> (cluster_chain F c = Some (Some cs) \<longleftrightarrow> (if c < 2 then cs = [] else is_chain (fat_entries F) c cs))
    \<and> (cluster_chain F c = Some (Some cs) \<longrightarrow> distinct cs \<and> length cs \<le> length (fat_entries F))"
  using walk_chain_returns [of "fat_entries F" c] walk_chain_iff [of "fat_entries F" c cs]
    is_chain_distinct is_chain_length
  by (cases "c < 2") (auto simp: cluster_chain_def)

lemma cyclic_chain_never_ends:
  assumes "fat_entries F ! c AND FAT_ENTRY_MASK = c" "2 \<le> c" "c < length (fat_entries F)" "c < CHAIN_LIMIT"
  shows "cluster_chain F c = None"
proof -
  have "(walk_step (fat_entries F) ^^ n) c = c" for n
    using assms(1) by (induction n) (simp_all add: walk_step_def)
  then have "\<not> walk_ends (fat_entries F) ((walk_step (fat_entries F) ^^ n) c)" for n
    using assms by (simp add: walk_ends_def)
  then show ?thesis using walk_chain_returns [of "fat_entries F" c] assms(2) by (auto simp: cluster_chain_def)
qed


subsection \<open>A small table\<close>

text \<open>Eight data clusters: a file in the clusters 2, 3 and 5, another one in the cluster 4.\<close>

definition demo_fat :: FileAllocTable where
  "demo_fat = \<lparr> data_start_sector_id = 100, cluster_len = 1, data_clusters_count = 8,
     alloc_meta = \<lparr> free_count = 4, next_free = 5 \<rparr>,
     fat_entries = [0x0ffffff8, 0x0fffffff, 3, 5, 0x0fffffff, 0x0fffffff, 0, 0, 0, 0] \<rparr>"

lemma demo_fat_ok:
  "fat_ok demo_fat" "valid_chain (fat_entries demo_fat) 2 [2, 3, 5]"
  "valid_chain (fat_entries demo_fat) 4 [4]" "6 \<in> free_set demo_fat"
  by (simp_all add: fat_ok_def demo_fat_def valid_chain_def fat_consts free_set_def is_free_def)

theorem alloc_cluster_correct_witness:
  "\<exists>c F'. alloc_cluster (Some 5) demo_fat = Some (Some c, F')
    \<and> valid_chain (fat_entries F') 2 [2, 3, 5, c] \<and> valid_chain (fat_entries F') 4 [4]"
proof -
  from alloc_cluster_correct [OF demo_fat_ok(1) disjI2 [OF demo_fat_ok(2)]] obtain r F' where
    r: "alloc_cluster (Some 5) demo_fat = Some (r, F')" "r = None \<longleftrightarrow> free_set demo_fat = {}"
    "\<forall>c. r = Some c \<longrightarrow> valid_chain (fat_entries F') 2 [2, 3, 5, c]"
    "valid_chain (fat_entries F') 4 [4]"
    using demo_fat_ok(3) by fastforce
  then obtain c where "r = Some c" using demo_fat_ok(4) by (cases r) auto
  with r show ?thesis by blast
qed

theorem free_clusters_correct_witness:
  "\<exists>F'. free_clusters [3, 5] (Some 2) demo_fat = Some F'
    \<and> valid_chain (fat_entries F') 2 [2] \<and> valid_chain (fat_entries F') 4 [4] \<and> {3, 5} \<subseteq> free_set F'"
proof -
  have "valid_chain (fat_entries demo_fat) 2 ([2] @ [3, 5])" using demo_fat_ok(2) by simp
  from free_clusters_correct [OF demo_fat_ok(1) this] demo_fat_ok(3) show ?thesis
    by (fastforce simp: demo_fat_def)
qed

theorem cluster_chain_terminates_witness:
  "cluster_chain demo_fat 2 = Some (Some [2, 3, 5]) \<and> distinct [2, 3, 5 :: nat]"
  using cluster_chain_terminates [of demo_fat 2 "[2, 3, 5]"] demo_fat_ok(2)
  by (simp add: valid_chain_def del: is_chain.simps)

end
