(* ===== verification/DirEntry.thy ===== *)
theory DirEntry
  imports Fat
begin

text \<open>
  Directory entries of FAT32: \<^verbatim>\<open>crates/utils/fat32/src/dir_entry.rs\<close>.  A raw entry is a list of
  32 bytes.  A file with a long name has several of them: the parts of the name in
  descending order, then the standard entry with the short name, whose checksum the parts
  repeat.  \<^verbatim>\<open>DirEntryBuilder\<close> consumes them one by one.

  A string is a list of characters that are the bytes of its UTF-8 encoding.  The
  conversion of UTF-16 units (the crate \<^verbatim>\<open>ecow\<close>) is a parameter, and so are the dates and
  times of the crate \<^verbatim>\<open>chrono\<close>.
\<close>

section \<open>Strings\<close>

definition cont_byte :: "nat \<Rightarrow> bool" where
  "cont_byte b \<longleftrightarrow> 0x80 \<le> b \<and> b \<le> 0xBF"

text \<open>The byte sequences that \<^verbatim>\<open>core::str::from_utf8\<close> accepts.\<close>

fun utf8_valid :: "nat list \<Rightarrow> bool" where
  "utf8_valid [] = True"
| "utf8_valid (a # bs) =
    (if a < 0x80 then utf8_valid bs
     else if 0xC2 \<le> a \<and> a \<le> 0xDF
       then (case bs of b # r \<Rightarrow> cont_byte b \<and> utf8_valid r | _ \<Rightarrow> False)
     else if 0xE0 \<le> a \<and> a \<le> 0xEF
       then (case bs of b # c # r \<Rightarrow> cont_byte b \<and> cont_byte c \<and> (a = 0xE0 \<longrightarrow> 0xA0 \<le> b) \<and> (a = 0xED \<longrightarrow> b \<le> 0x9F)
               \<and> utf8_valid r | _ \<Rightarrow> False)
     else if 0xF0 \<le> a \<and> a \<le> 0xF4
       then (case bs of b # c # d # r \<Rightarrow> cont_byte b \<and> cont_byte c \<and> cont_byte d \<and> (a = 0xF0 \<longrightarrow> 0x90 \<le> b)
               \<and> (a = 0xF4 \<longrightarrow> b \<le> 0x8F) \<and> utf8_valid r | _ \<Rightarrow> False)
     else False)"

definition from_utf8 :: "bytes \<Rightarrow> string option" where
  "from_utf8 bs = (if utf8_valid (map unat bs) then Some (map (\<lambda>b. char_of (unat b)) bs) else None)"

section \<open>Entries\<close>

definition DIR_ENTRY_SIZE :: nat where "DIR_ENTRY_SIZE = 32"
definition SNAME_MAX_LEN :: nat where "SNAME_MAX_LEN = 11"
definition LNAME_PART_LEN :: nat where "LNAME_PART_LEN = 13"

definition ATTR_DIRECTORY :: "8 word" where "ATTR_DIRECTORY = 0x10"
definition ATTR_LFN :: "8 word" where "ATTR_LFN = 0x0F"
definition ATTR_ALL :: "8 word" where "ATTR_ALL = 0x3F"

definition attr_from_bits :: "8 word \<Rightarrow> 8 word option" where
  "attr_from_bits b = (if b AND NOT ATTR_ALL = 0 then Some b else None)"

definition attr_contains :: "8 word \<Rightarrow> 8 word \<Rightarrow> bool" where
  "attr_contains a b \<longleftrightarrow> a AND b = b"

record DirEntry =
  short_name :: string
  long_name :: string
  attr :: "8 word"
  create_date :: nat
  create_time :: nat
  create_ten_ms :: nat
  modify_date :: nat
  modify_time :: nat
  access_date :: nat
  first_cluster_id :: nat
  file_size :: nat

definition entry_name :: "DirEntry \<Rightarrow> string" where
  "entry_name d = (if long_name d \<noteq> [] then long_name d else short_name d)"

definition is_dir :: "DirEntry \<Rightarrow> bool" where
  "is_dir d = attr_contains (attr d) ATTR_DIRECTORY"

definition take_name :: "DirEntry \<Rightarrow> string \<times> DirEntry" where
  "take_name d = (if long_name d \<noteq> [] then (long_name d, d\<lparr> long_name := [] \<rparr>)
     else (short_name d, d\<lparr> short_name := [] \<rparr>))"

subsection \<open>Dates and times\<close>

record ('d, 't) chrono =
  from_ymd_opt :: "nat \<Rightarrow> nat \<Rightarrow> nat \<Rightarrow> 'd option"
  default_date :: 'd
  from_hms_milli_opt :: "nat \<Rightarrow> nat \<Rightarrow> nat \<Rightarrow> nat \<Rightarrow> 't option"
  default_time :: 't
  timestamp :: "'d \<Rightarrow> 't \<Rightarrow> int"
  subsec_nanos :: "'d \<Rightarrow> 't \<Rightarrow> int"

record TimeSpec =
  ts_sec :: int
  ts_nsec :: int

definition fat_date_to_naive_date :: "('d, 't) chrono \<Rightarrow> nat \<Rightarrow> 'd" where
  "fat_date_to_naive_date ch date =
    (let year = 1980 + drop_bit 9 date;
         month = drop_bit 5 date AND 0x0F;
         day = date AND 0x1F
     in case from_ymd_opt ch year month day of Some ret \<Rightarrow> ret | None \<Rightarrow> default_date ch)"

definition fat_time_to_naive_time :: "('d, 't) chrono \<Rightarrow> nat \<Rightarrow> nat \<Rightarrow> 't" where
  "fat_time_to_naive_time ch time ten_ms =
    (let hour = drop_bit 11 time AND 0x1F;
         minute = drop_bit 5 time AND 0x3F;
         sec = (time AND 0x1F) * 2 + ten_ms div 100;
         ms = (ten_ms mod 100) * 10
     in case from_hms_milli_opt ch hour minute sec ms of Some ret \<Rightarrow> ret | None \<Rightarrow> default_time ch)"

definition date_time_spec :: "('d, 't) chrono \<Rightarrow> 'd \<Rightarrow> 't \<Rightarrow> TimeSpec" where
  "date_time_spec ch d t = \<lparr> ts_sec = timestamp ch d t, ts_nsec = subsec_nanos ch d t \<rparr>"

definition entry_create_time :: "('d, 't) chrono \<Rightarrow> DirEntry \<Rightarrow> TimeSpec" where
  "entry_create_time ch d = date_time_spec ch (fat_date_to_naive_date ch (create_date d))
     (fat_time_to_naive_time ch (create_time d) (create_ten_ms d))"

definition entry_modify_time :: "('d, 't) chrono \<Rightarrow> DirEntry \<Rightarrow> TimeSpec" where
  "entry_modify_time ch d = date_time_spec ch (fat_date_to_naive_date ch (modify_date d))
     (fat_time_to_naive_time ch (modify_time d) 0)"

definition entry_access_time :: "('d, 't) chrono \<Rightarrow> DirEntry \<Rightarrow> TimeSpec" where
  "entry_access_time ch d = date_time_spec ch (fat_date_to_naive_date ch (access_date d)) (default_time ch)"

section \<open>The standard entry\<close>

fun rposition :: "('a \<Rightarrow> bool) \<Rightarrow> 'a list \<Rightarrow> nat option" where
  "rposition P [] = None"
| "rposition P (x # xs) = (case rposition P xs of Some i \<Rightarrow> Some (Suc i) | None \<Rightarrow> if P x then Some 0 else None)"

definition trimmed_len :: "bytes \<Rightarrow> nat" where
  "trimmed_len bs = (case rposition (\<lambda>ch. ch \<noteq> 0x20) bs of None \<Rightarrow> 0 | Some idx \<Rightarrow> idx + 1)"

definition read_standard_entry :: "bytes \<Rightarrow> DirEntry res" where
  "read_standard_entry entry =
    (let body_len = trimmed_len (take 8 entry);
         ext_len = trimmed_len (slice entry 8 11)
     in case from_utf8 (take body_len entry) of
       None \<Rightarrow> Err EINVAL
     | Some body \<Rightarrow> (case from_utf8 (slice entry 8 (8 + ext_len)) of
         None \<Rightarrow> Err EINVAL
       | Some ext \<Rightarrow> (case attr_from_bits (entry ! 11) of
           None \<Rightarrow> Err EINVAL
         | Some a \<Rightarrow> Ok \<lparr> short_name = (if ext \<noteq> [] then body @ ''.'' @ ext else body),
             long_name = [], attr = a,
             create_date = from_le_bytes [entry ! 16, entry ! 17],
             create_time = from_le_bytes [entry ! 14, entry ! 15],
             create_ten_ms = unat (entry ! 13),
             modify_date = from_le_bytes [entry ! 24, entry ! 25],
             modify_time = from_le_bytes [entry ! 22, entry ! 23],
             access_date = from_le_bytes [entry ! 18, entry ! 19],
             first_cluster_id = from_le_bytes [entry ! 26, entry ! 27, entry ! 20, entry ! 21],
             file_size = from_le_bytes [entry ! 28, entry ! 29, entry ! 30, entry ! 31] \<rparr>)))"

text \<open>The checksum of the short name.  The inner addition is checked.\<close>

definition checked_add8 :: "8 word \<Rightarrow> 8 word \<Rightarrow> 8 word option" where
  "checked_add8 a b = (if unat a + unat b < 256 then Some (a + b) else None)"

fun checksum_loop :: "bytes \<Rightarrow> 8 word \<Rightarrow> 8 word option" where
  "checksum_loop [] checksum = Some checksum"
| "checksum_loop (byte # bs) checksum = do {
     rotated \<leftarrow> checked_add8 (drop_bit 1 checksum) (push_bit 7 (checksum AND 1));
     checksum_loop bs (rotated + byte)
   }"

definition calc_checksum :: "bytes \<Rightarrow> 8 word option" where
  "calc_checksum short = checksum_loop short 0"

section \<open>Long names\<close>

definition lfn_part :: "bytes \<Rightarrow> nat list" where
  "lfn_part entry = map from_le_bytes (array_chunks 2 (slice entry 1 11))
     @ map from_le_bytes (array_chunks 2 (slice entry 14 26))
     @ map from_le_bytes (array_chunks 2 (slice entry 28 32))"

record DirEntryBuilder =
  curr_order :: nat
  checksum :: "8 word"
  lfn_name :: "nat list"

datatype DirEntryBuilderResult = Builder DirEntryBuilder | Final DirEntry

definition read_lfn_entry :: "bytes \<Rightarrow> DirEntryBuilder \<Rightarrow> DirEntryBuilder res" where
  "read_lfn_entry entry b =
    (let order = unat (entry ! 0 AND 0x1F) in
     if order = 0 then Panicked
     else (let lname_offset = (order - 1) * LNAME_PART_LEN;
               is_first = (curr_order b = 0);
               is_final = (entry ! 0 AND 0x40 \<noteq> 0);
               sum = entry ! 13
       in if \<not> is_first \<and> order \<noteq> curr_order b - 1 then Err EINVAL
          else if is_first \<and> \<not> is_final then Err EINVAL
          else if \<not> is_first \<and> is_final then Err EINVAL
          else if entry ! 12 \<noteq> 0 \<or> entry ! 26 \<noteq> 0 \<or> entry ! 27 \<noteq> 0 then Err EINVAL
          else if \<not> is_first \<and> checksum b \<noteq> sum then Err EINVAL
          else (let name = (if is_first then replicate (lname_offset + LNAME_PART_LEN) 0 else lfn_name b)
            in if lname_offset + LNAME_PART_LEN \<le> length name
               then Ok \<lparr> curr_order = order, checksum = sum,
                 lfn_name = take lname_offset name @ lfn_part entry
                            @ drop (lname_offset + LNAME_PART_LEN) name \<rparr>
               else Panicked)))"

definition from_entry :: "bytes \<Rightarrow> DirEntryBuilderResult res" where
  "from_entry entry =
    (case attr_from_bits (entry ! 11) of
       None \<Rightarrow> Err EINVAL
     | Some a \<Rightarrow>
         if a = ATTR_LFN
         then rbind (read_lfn_entry entry \<lparr> curr_order = 0, checksum = 0, lfn_name = [] \<rparr>) (\<lambda>b. Ok (Builder b))
         else rbind (read_standard_entry entry) (\<lambda>d. Ok (Final d)))"

definition add_entry :: "(nat list \<Rightarrow> string option) \<Rightarrow> bytes \<Rightarrow> DirEntryBuilder \<Rightarrow> DirEntryBuilderResult res" where
  "add_entry from_utf16 entry b =
    (case attr_from_bits (entry ! 11) of
       None \<Rightarrow> Err EINVAL
     | Some a \<Rightarrow>
         if attr_contains a ATTR_LFN
         then rbind (read_lfn_entry entry b) (\<lambda>b'. Ok (Builder b'))
         else if curr_order b \<noteq> 1 then Err EINVAL
         else rbind (read_standard_entry entry) (\<lambda>d.
              rbind (unwrap (calc_checksum (take 11 entry))) (\<lambda>sum.
              if checksum b \<noteq> sum then Err EINVAL
              else rbind (ok_or EINVAL (from_utf16 (takeWhile (\<lambda>u. u \<noteq> 0) (lfn_name b)))) (\<lambda>name.
                   Ok (Final (d\<lparr> long_name := name \<rparr>))))))"


section \<open>Iterating over a directory\<close>

text \<open>\<^verbatim>\<open>FatDir::dir_entry_iter\<close>.  The iterator is lazy: its raw entries are a list in which
  None stands for a panic at the moment the iterator reaches it, and its items are results
  in which a panic is the last one.\<close>

fun sector_raw :: "bytes \<Rightarrow> nat list \<Rightarrow> bytes list \<times> bool" where
  "sector_raw buf [] = ([], False)"
| "sector_raw buf (i # is) =
    (if buf ! (i * DIR_ENTRY_SIZE) = 0 then ([], True)
     else (let (rest, stop) = sector_raw buf is
           in (slice buf (i * DIR_ENTRY_SIZE) (i * DIR_ENTRY_SIZE + DIR_ENTRY_SIZE) # rest, stop)))"

fun sectors_raw :: "(nat \<Rightarrow> bytes) \<Rightarrow> nat list \<Rightarrow> bytes list \<times> bool" where
  "sectors_raw dev [] = ([], False)"
| "sectors_raw dev (sector_id # ids) =
    (case sector_raw (dev sector_id) [0..<SECTOR_SIZE div DIR_ENTRY_SIZE] of
       (raw, True) \<Rightarrow> (raw, True)
     | (raw, False) \<Rightarrow> (let (rest, stop) = sectors_raw dev ids in (raw @ rest, stop)))"

fun raw_entries :: "(nat \<Rightarrow> bytes) \<Rightarrow> FileAllocTable \<Rightarrow> nat list \<Rightarrow> bytes option list" where
  "raw_entries dev F [] = []"
| "raw_entries dev F (c # cs) =
    (case cluster_sectors F c of
       None \<Rightarrow> [None]
     | Some (a, b) \<Rightarrow> (case sectors_raw dev [a..<b] of
         (raw, True) \<Rightarrow> map Some raw
       | (raw, False) \<Rightarrow> map Some raw @ raw_entries dev F cs))"

fun complete_entry ::
  "(nat list \<Rightarrow> string option) \<Rightarrow> DirEntryBuilder \<Rightarrow> bytes option list \<Rightarrow> (DirEntry res \<times> bytes option list) option" where
  "complete_entry u16 b [] = None"
| "complete_entry u16 b (None # raw) = Some (Panicked, [])"
| "complete_entry u16 b (Some e # raw) =
    (case add_entry u16 e b of
       Inr (Builder b') \<Rightarrow> complete_entry u16 b' raw
     | Inr (Final d) \<Rightarrow> Some (Ok d, raw)
     | Inl f \<Rightarrow> Some (Inl f, raw))"

fun next_entry ::
  "(nat list \<Rightarrow> string option) \<Rightarrow> bytes option list \<Rightarrow> (DirEntry res \<times> bytes option list) option" where
  "next_entry u16 [] = None"
| "next_entry u16 (None # raw) = Some (Panicked, [])"
| "next_entry u16 (Some e # raw) =
    (case from_entry e of
       Inr (Builder b) \<Rightarrow> complete_entry u16 b raw
     | Inr (Final d) \<Rightarrow> Some (Ok d, raw)
     | Inl f \<Rightarrow> Some (Inl f, raw))"

lemma complete_entry_shorter: "complete_entry u16 b raw = Some (r, raw') \<Longrightarrow> length raw' < length raw"
  by (induction u16 b raw rule: complete_entry.induct)
     (fastforce split: sum.splits DirEntryBuilderResult.splits)+

lemma next_entry_shorter: "next_entry u16 raw = Some (r, raw') \<Longrightarrow> length raw' < length raw"
  by (cases "(u16, raw)" rule: next_entry.cases)
     (auto split: sum.splits DirEntryBuilderResult.splits dest: complete_entry_shorter)

function iter_items :: "(nat list \<Rightarrow> string option) \<Rightarrow> bytes option list \<Rightarrow> DirEntry res list" where
  "iter_items u16 raw =
    (case next_entry u16 raw of
       None \<Rightarrow> []
     | Some (Inl Panic, _) \<Rightarrow> [Panicked]
     | Some (r, raw') \<Rightarrow> r # iter_items u16 raw')"
  by pat_completeness auto

termination
  by (relation "measure (\<lambda>(_, raw). length raw)") (auto dest: next_entry_shorter)

declare iter_items.simps [simp del]

definition dir_entry_iter ::
  "(nat list \<Rightarrow> string option) \<Rightarrow> (nat \<Rightarrow> bytes) \<Rightarrow> FileAllocTable \<Rightarrow> nat list \<Rightarrow> DirEntry res list" where
  "dir_entry_iter u16 dev F clusters = iter_items u16 (raw_entries dev F clusters)"

section \<open>The checksum\<close>

lemma low_bit_moved: "n < 8 \<Longrightarrow> bit (push_bit 7 (c AND (1 :: 8 word))) n \<longleftrightarrow> n = 7 \<and> bit c 0"
  unfolding bit_push_bit_iff bit_and_iff bit_1_iff by (cases "n = 7") (auto simp: possible_bit_word)

lemma rotate_step:
  fixes c :: "8 word"
  shows "checked_add8 (drop_bit 1 c) (push_bit 7 (c AND 1)) = Some (word_rotr 1 c)"
proof -
  have high: "\<not> bit c 8" using bit_imp_le_length [of c 8] by auto
  have disj: "drop_bit 1 c AND push_bit 7 (c AND 1) = 0"
  proof (rule bit_word_eqI)
    fix n assume "n < LENGTH(8)"
    then have n: "n < 8" by simp
    show "bit (drop_bit 1 c AND push_bit 7 (c AND 1)) n \<longleftrightarrow> bit (0 :: 8 word) n"
      unfolding bit_and_iff low_bit_moved [OF n] bit_drop_bit_eq comp_def using high by auto
  qed
  have "drop_bit 1 c + push_bit 7 (c AND 1) = drop_bit 1 c OR push_bit 7 (c AND 1)"
    using disj by (rule disjunctive_add_eq_or)
  also have "\<dots> = word_rotr 1 c"
  proof (rule bit_word_eqI)
    fix n assume "n < LENGTH(8)"
    then have n: "n < 8" by simp
    show "bit (drop_bit 1 c OR push_bit 7 (c AND 1)) n \<longleftrightarrow> bit (word_rotr 1 c) n"
      unfolding bit_or_iff low_bit_moved [OF n] bit_word_rotr_iff bit_drop_bit_eq comp_def
      using n high by (cases "n = 7") auto
  qed
  finally have eq: "drop_bit 1 c + push_bit 7 (c AND 1) = word_rotr 1 c" .
  have "unat (drop_bit 1 c) < 128"
    using unsigned_less [where 'a = nat, of c] by (simp add: unat_drop_bit_eq drop_bit_eq_div unat_div)
  moreover have "unat (push_bit 7 (c AND 1)) \<le> 128"
    by (cases "bit c 0") (simp_all add: and_one_eq odd_iff_mod_2_eq_one bit_0)
  ultimately show ?thesis unfolding checked_add8_def eq by simp
qed

lemma calc_checksum_eq: "calc_checksum short = Some (foldl (\<lambda>sum byte. word_rotr 1 sum + byte) 0 short)"
proof -
  have "checksum_loop bs c = Some (foldl (\<lambda>sum byte. word_rotr 1 sum + byte) c bs)" for bs c
    by (induction bs arbitrary: c) (simp_all only: checksum_loop.simps rotate_step Option.bind.simps foldl.simps)
  then show ?thesis by (simp add: calc_checksum_def)
qed

section \<open>Writing a long name and reading it back\<close>

definition unit_bytes :: "nat \<Rightarrow> bytes" where
  "unit_bytes u = [of_nat u, of_nat (u div 256)]"

definition lfn_entry :: "nat \<Rightarrow> bool \<Rightarrow> 8 word \<Rightarrow> nat list \<Rightarrow> bytes" where
  "lfn_entry order final cks part =
    [of_nat order OR (if final then 0x40 else 0)] @ concat (map unit_bytes (take 5 part)) @ [0x0F, 0, cks]
     @ concat (map unit_bytes (slice part 5 11)) @ [0, 0] @ concat (map unit_bytes (drop 11 part))"

definition pad_name :: "nat list \<Rightarrow> nat list" where
  "pad_name name = (if length name mod 13 = 0 then name
     else name @ 0 # replicate (12 - length name mod 13) 0xFFFF)"

fun lfn_parts :: "nat \<Rightarrow> nat \<Rightarrow> 8 word \<Rightarrow> nat list \<Rightarrow> bytes list" where
  "lfn_parts n 0 cks padded = []"
| "lfn_parts n (Suc k) cks padded =
    lfn_entry (Suc k) (Suc k = n) cks (slice padded (k * 13) (k * 13 + 13)) # lfn_parts n k cks padded"

definition lfn_entries :: "nat list \<Rightarrow> 8 word \<Rightarrow> bytes list" where
  "lfn_entries name cks = (let n = length (pad_name name) div 13 in lfn_parts n n cks (pad_name name))"

lemma unit_roundtrip: "u < 65536 \<Longrightarrow> from_le_bytes (unit_bytes u) = u"
  by (simp add: unit_bytes_def unsigned_of_nat take_bit_eq_mod)

lemma lfn_entry_fields:
  assumes "length part = 13" "\<forall>u \<in> set part. u < 65536"
  shows "lfn_part (lfn_entry order final cks part) = part"
    and "lfn_entry order final cks part ! 11 = 0x0F"
    and "lfn_entry order final cks part ! 12 = 0" "lfn_entry order final cks part ! 13 = cks"
    and "lfn_entry order final cks part ! 26 = 0" "lfn_entry order final cks part ! 27 = 0"
    and "lfn_entry order final cks part ! 0 = of_nat order OR (if final then 0x40 else 0)"
proof -
  obtain a b c d e f g h i j k l m where p: "part = [a, b, c, d, e, f, g, h, i, j, k, l, m]"
    using assms(1) by (auto simp: length_Suc_conv numeral_eq_Suc)
  have "from_le_bytes [of_nat u, of_nat (u div 256)] = u" if "u \<in> set part" for u
    using unit_roundtrip [of u] assms(2) that by (simp add: unit_bytes_def)
  then show "lfn_part (lfn_entry order final cks part) = part"
    unfolding p
    by (simp add: lfn_part_def lfn_entry_def slice_def unit_bytes_def array_chunks.simps del: from_le_bytes.simps)
  show "lfn_entry order final cks part ! 11 = 0x0F"
    "lfn_entry order final cks part ! 12 = 0" "lfn_entry order final cks part ! 13 = cks"
    "lfn_entry order final cks part ! 26 = 0" "lfn_entry order final cks part ! 27 = 0"
    "lfn_entry order final cks part ! 0 = of_nat order OR (if final then 0x40 else 0)"
    unfolding p by (simp_all add: lfn_entry_def slice_def unit_bytes_def)
qed

lemma order_bits:
  assumes "0 < n" "n < 32"
  shows "unat ((of_nat n OR (if final then 0x40 else 0)) AND (0x1F :: 8 word)) = n"
    and "((of_nat n OR (if final then 0x40 else 0)) AND (0x40 :: 8 word) \<noteq> 0) = final"
proof -
  have "n \<in> {1..31}" using assms by simp
  then have n: "n \<in> set [1..<32]" by simp
  have "\<forall>n \<in> set [1..<32]. \<forall>f \<in> {True, False}.
      unat ((of_nat n OR (if f then 0x40 else 0)) AND (0x1F :: 8 word)) = n
      \<and> ((of_nat n OR (if f then 0x40 else 0)) AND (0x40 :: 8 word) \<noteq> 0) = f"
    by (simp add: upt_rec)
  then show "unat ((of_nat n OR (if final then 0x40 else 0)) AND (0x1F :: 8 word)) = n"
    "((of_nat n OR (if final then 0x40 else 0)) AND (0x40 :: 8 word) \<noteq> 0) = final"
    using n by (cases final; blast)+
qed


text \<open>The builder after the parts \<^verbatim>\<open>n\<close> down to \<^verbatim>\<open>k + 1\<close> of a name.\<close>

definition partial_builder :: "nat \<Rightarrow> 8 word \<Rightarrow> nat list \<Rightarrow> DirEntryBuilder" where
  "partial_builder k cks padded = \<lparr> curr_order = Suc k, checksum = cks,
     lfn_name = replicate (k * 13) 0 @ drop (k * 13) padded \<rparr>"

lemma slice_part:
  assumes "length padded = n * 13" "Suc k \<le> n" "\<forall>u \<in> set padded. u < 65536"
  shows "length (slice padded (k * 13) (k * 13 + 13)) = 13"
    and "\<forall>u \<in> set (slice padded (k * 13) (k * 13 + 13)). u < 65536"
    and "slice padded (k * 13) (k * 13 + 13) @ drop (k * 13 + 13) padded = drop (k * 13) padded"
proof -
  have "Suc k * 13 \<le> n * 13" using assms(2) by (rule mult_le_mono1)
  then show "length (slice padded (k * 13) (k * 13 + 13)) = 13" using assms(1) by simp
  show "\<forall>u \<in> set (slice padded (k * 13) (k * 13 + 13)). u < 65536"
    using assms(3) by (auto simp: slice_def dest: in_set_takeD in_set_dropD)
  show "slice padded (k * 13) (k * 13 + 13) @ drop (k * 13 + 13) padded = drop (k * 13) padded"
    by (simp add: slice_def) (metis add.commute append_take_drop_id drop_drop)
qed

lemma first_part_read:
  assumes "length padded = Suc k * 13" "\<forall>u \<in> set padded. u < 65536" "Suc k < 32"
  shows "from_entry (lfn_entry (Suc k) True cks (slice padded (k * 13) (k * 13 + 13)))
    = Ok (Builder (partial_builder k cks padded))"
proof -
  note sl = slice_part [OF assms(1) order_refl assms(2)]
  note f = lfn_entry_fields [OF sl(1,2), of "Suc k" True cks]
  note o = order_bits [of "Suc k" True, simplified if_True, OF _ assms(3)]
  have "attr_from_bits (0x0F) = Some ATTR_LFN" by (simp add: attr_from_bits_def ATTR_LFN_def ATTR_ALL_def)
  moreover have "drop (k * 13 + 13) padded = []" using assms(1) by simp
  ultimately show ?thesis
    using o sl(3) unfolding from_entry_def read_lfn_entry_def f
    by (simp add: LNAME_PART_LEN_def partial_builder_def Let_def del: of_nat_Suc)
qed

lemma next_part_read:
  assumes "length padded = n * 13" "\<forall>u \<in> set padded. u < 65536" "n < 32" "Suc k < n"
  shows "add_entry u16 (lfn_entry (Suc k) False cks (slice padded (k * 13) (k * 13 + 13)))
      (partial_builder (Suc k) cks padded) = Ok (Builder (partial_builder k cks padded))"
proof -
  note sl = slice_part [OF assms(1) less_imp_le [OF assms(4)] assms(2)]
  note f = lfn_entry_fields [OF sl(1,2), of "Suc k" False cks]
  have "Suc k < 32" using assms(3,4) by simp
  note o = order_bits [of "Suc k" False, simplified if_False, OF _ this]
  have attr: "attr_from_bits (0x0F) = Some ATTR_LFN" "attr_contains ATTR_LFN ATTR_LFN"
    by (simp_all add: attr_from_bits_def attr_contains_def ATTR_LFN_def ATTR_ALL_def)
  have "k * 13 + 13 \<le> length (lfn_name (partial_builder (Suc k) cks padded))"
    by (simp add: partial_builder_def)
  moreover have "take (k * 13) (lfn_name (partial_builder (Suc k) cks padded)) = replicate (k * 13) 0"
    "drop (k * 13 + 13) (lfn_name (partial_builder (Suc k) cks padded)) = drop (k * 13 + 13) padded"
    by (simp_all add: partial_builder_def take_replicate add.commute)
  moreover have "curr_order (partial_builder (Suc k) cks padded) = Suc (Suc k)"
    "checksum (partial_builder (Suc k) cks padded) = cks" by (simp_all add: partial_builder_def)
  ultimately show ?thesis
    using o sl(3) attr unfolding add_entry_def read_lfn_entry_def f
    by (simp add: LNAME_PART_LEN_def Let_def partial_builder_def [of k] del: of_nat_Suc)
qed

lemma complete_parts:
  assumes "length padded = n * 13" "\<forall>u \<in> set padded. u < 65536" "n < 32"
  shows "k < n \<Longrightarrow> complete_entry u16 (partial_builder k cks padded) (map Some (lfn_parts n k cks padded) @ raw)
    = complete_entry u16 (partial_builder 0 cks padded) raw"
proof (induction k)
  case (Suc k)
  then show ?case using next_part_read [OF assms, of k u16 cks] by simp
qed simp

lemma pad_name_facts:
  assumes "name \<noteq> []" "\<forall>u \<in> set name. 0 < u \<and> u < 65536"
  shows "length (pad_name name) = length (pad_name name) div 13 * 13" "pad_name name \<noteq> []"
    "\<forall>u \<in> set (pad_name name). u < 65536" "takeWhile (\<lambda>u. u \<noteq> 0) (pad_name name) = name"
    "length (pad_name name) \<le> length name + 12"
proof -
  obtain q r where q: "q = length name div 13" and r: "r = length name mod 13" by blast
  have "length name = q * 13 + r" "r < 13" unfolding q r by simp_all
  then have "length (pad_name name) = (if r = 0 then q * 13 else (q + 1) * 13)"
    unfolding pad_name_def r [symmetric] by auto
  then have "length (pad_name name) mod 13 = 0" by simp
  then show "length (pad_name name) = length (pad_name name) div 13 * 13" by (metis div_mod_decomp add.right_neutral)
  show "pad_name name \<noteq> []" "\<forall>u \<in> set (pad_name name). u < 65536" "length (pad_name name) \<le> length name + 12"
    using assms by (auto simp: pad_name_def)
  have "takeWhile (\<lambda>u. u \<noteq> 0) name = name" using assms(2) by (auto simp: takeWhile_eq_all_conv)
  then show "takeWhile (\<lambda>u. u \<noteq> 0) (pad_name name) = name"
    using assms(2) by (auto simp: pad_name_def takeWhile_append)
qed


lemma long_name_read:
  assumes name: "name \<noteq> []" "\<forall>u \<in> set name. 0 < u \<and> u < 65536" "length name \<le> 403"
    and std: "read_standard_entry std = Ok d" "\<not> attr_contains (std ! 11) ATTR_LFN"
    and cks: "calc_checksum (take 11 std) = Some cks"
  shows "next_entry u16 (map Some (lfn_entries name cks @ [std]) @ raw)
    = Some (rbind (ok_or EINVAL (u16 name)) (\<lambda>s. Ok (d\<lparr> long_name := s \<rparr>)), raw)"
proof -
  let ?p = "pad_name name"
  note p = pad_name_facts [OF name(1,2)]
  obtain n where n: "length ?p = Suc n * 13"
    using p(1,2) by (metis length_0_conv mult_0 not0_implies_Suc)
  then have div: "length ?p div 13 = Suc n" by simp
  have lt: "Suc n < 32" using n p(5) name(3) by simp
  have attr: "attr_from_bits (std ! 11) = Some (std ! 11)"
    using std(1) by (auto simp: read_standard_entry_def attr_from_bits_def Let_def split: option.splits if_splits)
  have last: "lfn_name (partial_builder 0 cks ?p) = ?p" "curr_order (partial_builder 0 cks ?p) = 1"
    "checksum (partial_builder 0 cks ?p) = cks" by (simp_all add: partial_builder_def)
  have "add_entry u16 std (partial_builder 0 cks ?p)
      = rbind (ok_or EINVAL (u16 name)) (\<lambda>s. Ok (Final (d\<lparr> long_name := s \<rparr>)))"
    using std cks by (simp add: add_entry_def attr last p(4) del: neq0_conv)
  then have "complete_entry u16 (partial_builder 0 cks ?p) (Some std # raw)
      = Some (rbind (ok_or EINVAL (u16 name)) (\<lambda>s. Ok (d\<lparr> long_name := s \<rparr>)), raw)"
    by (cases "u16 name") simp_all
  then have "complete_entry u16 (partial_builder n cks ?p) (map Some (lfn_parts (Suc n) n cks ?p) @ Some std # raw)
      = Some (rbind (ok_or EINVAL (u16 name)) (\<lambda>s. Ok (d\<lparr> long_name := s \<rparr>)), raw)"
    using complete_parts [OF n p(3) lt lessI] by simp
  then show ?thesis
    using first_part_read [OF n p(3) lt, of cks] by (simp add: lfn_entries_def div Let_def)
qed

definition encode_file :: "nat list \<times> bytes \<Rightarrow> bytes list" where
  "encode_file f = (case f of (name, std) \<Rightarrow>
     (if name = [] then [] else lfn_entries name (the (calc_checksum (take 11 std)))) @ [std])"

text \<open>A file as it is on the disk: the units of its long name (none when it has only a
  short one) and its standard entry, which reads as the entry given.\<close>

definition file_reads_as :: "(nat list \<Rightarrow> string option) \<Rightarrow> nat list \<times> bytes \<Rightarrow> DirEntry \<Rightarrow> bool" where
  "file_reads_as u16 f d \<longleftrightarrow> (case f of (name, std) \<Rightarrow>
     (\<exists>d0 s. read_standard_entry std = Ok d0 \<and> d = d0\<lparr> long_name := s \<rparr>
        \<and> \<not> attr_contains (std ! 11) ATTR_LFN
        \<and> (\<forall>u \<in> set name. 0 < u \<and> u < 65536) \<and> length name \<le> 403
        \<and> (if name = [] then s = [] else u16 name = Some s)))"

lemma read_standard_long_name: "read_standard_entry std = Ok d \<Longrightarrow> long_name d = []"
  by (auto simp: read_standard_entry_def Let_def split: option.splits)

lemma next_file:
  assumes "file_reads_as u16 f d"
  shows "next_entry u16 (map Some (encode_file f) @ raw) = Some (Ok d, raw)"
proof -
  obtain name std d0 s where f: "f = (name, std)" "read_standard_entry std = Ok d0"
    "d = d0\<lparr> long_name := s \<rparr>" "\<not> attr_contains (std ! 11) ATTR_LFN"
    "\<forall>u \<in> set name. 0 < u \<and> u < 65536" "length name \<le> 403"
    "if name = [] then s = [] else u16 name = Some s"
    using assms by (cases f) (auto simp: file_reads_as_def)
  have attr: "attr_from_bits (std ! 11) = Some (std ! 11)" "std ! 11 \<noteq> ATTR_LFN"
    using f(2,4) by (auto simp: read_standard_entry_def attr_from_bits_def attr_contains_def Let_def
        split: option.splits if_splits)
  show ?thesis
  proof (cases "name = []")
    case True
    then have "d = d0" using f(3,7) read_standard_long_name [OF f(2)] by simp
    then show ?thesis using True f(1,2) attr by (simp add: encode_file_def from_entry_def)
  next
    case False
    obtain cks where "calc_checksum (take 11 std) = Some cks"
      by (cases "calc_checksum (take 11 std)") (simp_all add: calc_checksum_eq)
    then show ?thesis
      using long_name_read [OF False f(5,6,2,4), of cks u16 raw] False f(1,3,7) by (simp add: encode_file_def)
  qed
qed

text \<open>C27: the iterator over a directory reads back what a FAT32 writer puts there.  For
  every list of files, each with a valid standard entry and a long name of at most 403 nonzero
  16-bit units that decodes, written as the parts of its long name in descending order (the
  last part padded with a zero and 0xFFFF) followed by its standard entry, the iterator
  delivers exactly one entry per file, in order, with the fields of the standard entry and
  the decoded long name, and no error.\<close>

theorem dir_listing_roundtrip:
  assumes "list_all2 (file_reads_as u16) files entries"
  shows "iter_items u16 (map Some (concat (map encode_file files))) = map Ok entries"
  using assms
proof (induction files entries rule: list_all2_induct)
  case Nil
  then show ?case by (simp add: iter_items.simps)
next
  case (Cons f fs d ds)
  from next_file [OF Cons.hyps(1)] Cons.IH show ?case by (simp add: iter_items.simps [of u16 "map Some _ @ _"])
qed


text \<open>Two files: \<^verbatim>\<open>Hi.txt\<close> with a long name, and \<^verbatim>\<open>A\<close> with a short name only.\<close>

definition demo_u16 :: "nat list \<Rightarrow> string option" where
  "demo_u16 us = Some (map char_of us)"

definition demo_std :: "8 word list \<Rightarrow> bytes" where
  "demo_std short = short @ 0x20 # replicate 14 0 @ [2, 0, 5, 0, 0, 0]"

definition demo_files :: "(nat list \<times> bytes) list" where
  "demo_files = [([72, 105, 46, 116, 120, 116], demo_std [72, 73, 32, 32, 32, 32, 32, 32, 84, 88, 84]),
     ([], demo_std [65, 32, 32, 32, 32, 32, 32, 32, 32, 32, 32])]"

definition demo_entry :: "string \<Rightarrow> string \<Rightarrow> DirEntry" where
  "demo_entry short long = \<lparr> short_name = short, long_name = long, attr = 0x20, create_date = 0, create_time = 0,
     create_ten_ms = 0, modify_date = 0, modify_time = 0, access_date = 0, first_cluster_id = 2, file_size = 5 \<rparr>"

lemma demo_std_reads:
  "read_standard_entry (demo_std [72, 73, 32, 32, 32, 32, 32, 32, 84, 88, 84]) = Ok (demo_entry ''HI.TXT'' [])"
  "read_standard_entry (demo_std [65, 32, 32, 32, 32, 32, 32, 32, 32, 32, 32]) = Ok (demo_entry ''A'' [])"
  by code_simp+

lemma demo_std_facts:
  "\<not> attr_contains (demo_std [72, 73, 32, 32, 32, 32, 32, 32, 84, 88, 84] ! 11) ATTR_LFN"
  "\<not> attr_contains (demo_std [65, 32, 32, 32, 32, 32, 32, 32, 32, 32, 32] ! 11) ATTR_LFN"
  "demo_u16 [72, 105, 46, 116, 120, 116] = Some ''Hi.txt''"
  by code_simp+

theorem dir_listing_roundtrip_witness:
  "iter_items demo_u16 (map Some (concat (map encode_file demo_files)))
    = [Ok (demo_entry ''HI.TXT'' ''Hi.txt''), Ok (demo_entry ''A'' [])]"
proof -
  have "list_all2 (file_reads_as demo_u16) demo_files [demo_entry ''HI.TXT'' ''Hi.txt'', demo_entry ''A'' []]"
    using demo_std_reads demo_std_facts by (simp add: demo_files_def file_reads_as_def) (simp add: demo_entry_def)
  from dir_listing_roundtrip [OF this] show ?thesis by simp
qed

end
