(* ===== verification/Inode.thy ===== *)
theory Inode
  imports Btree DirEntry
begin

text \<open>
  Inodes and the page cache: \<^verbatim>\<open>crates/libkernel/src/fs/inode.rs\<close> and \<^verbatim>\<open>page_cache.rs\<close>.  The
  pages of a regular file are read through the cache, which asks the file system behind
  the inode (the trait \<^verbatim>\<open>BytesInodeBackend\<close>) for a page the first time it is touched.

  A cached page owns its frame, so its 4096 bytes are part of it; the frame allocator
  appears as the number of frames it can still give, since a page that cannot get a frame
  is a panic.  The buffer a read copies to is described by its length and by the operation
  that stores a piece at an offset: a kernel buffer cannot fail, a user buffer can fault.
  A write takes its pieces from a buffer in the same way.  The check of a user buffer is an
  argument without effects of its own: the pages it may fault in are not part of this state.  The
  clock is read once in a call, where the code reads it at each change of a time.

  The contents of a file are a function from offsets to bytes: what the cache holds where
  it holds a page, and what the backend delivers elsewhere.  \<^verbatim>\<open>page_backend\<close> is the contract
  with the backend.
\<close>

section \<open>The page cache\<close>

datatype PageState = Invalid | Synced | Dirty

record BackedPage =
  page_bytes :: bytes
  page_state :: PageState

type_synonym page_cache = "(nat, BackedPage) btree"

definition pc_create :: "nat \<Rightarrow> page_cache \<times> nat \<Rightarrow> (BackedPage \<times> page_cache \<times> nat) option" where
  "pc_create page_id s = (case s of (pages, frames) \<Rightarrow>
    (if frames = 0 then None
     else (let new_page = \<lparr> page_bytes = replicate PAGE_SIZE 0, page_state = Invalid \<rparr>
       in if bt_get pages page_id = None
          then Some (new_page, bt_insert page_id new_page pages, frames - 1)
          else None)))"

definition get_or_init_page :: "nat \<Rightarrow> page_cache \<times> nat \<Rightarrow> (BackedPage \<times> page_cache \<times> nat) option" where
  "get_or_init_page page_id s = (case bt_get (fst s) page_id of
     Some page \<Rightarrow> Some (page, s)
   | None \<Rightarrow> pc_create page_id s)"

text \<open>\<^verbatim>\<open>free_pages(start..)\<close>, the only range the callers use: the freed pages give their
  frames back.\<close>

definition free_pages_from :: "nat \<Rightarrow> page_cache \<times> nat \<Rightarrow> page_cache \<times> nat" where
  "free_pages_from start s = (case s of (pages, frames) \<Rightarrow>
    (let (kept, freed_part) = bt_split_off start pages in (kept, frames + length freed_part)))"

section \<open>Inodes\<close>

datatype InodeMode = Regular | Dir | SymbolLink | Socket | Fifo | BlockDevice | CharDevice

record InodeMeta =
  ino :: nat
  mode :: InodeMode
  page_cache :: page_cache
  data_len :: nat
  access_time :: TimeSpec
  modify_time :: TimeSpec
  change_time :: TimeSpec

definition zero_time :: TimeSpec where
  "zero_time = \<lparr> ts_sec = 0, ts_nsec = 0 \<rparr>"

definition InodeMeta_new :: "InodeMode \<Rightarrow> nat \<Rightarrow> InodeMeta \<times> nat" where
  "InodeMeta_new m inode_number =
    (\<lparr> ino = inode_number, mode = m, page_cache = [], data_len = 0, access_time = zero_time,
       modify_time = zero_time, change_time = zero_time \<rparr>, Suc inode_number)"

text \<open>A backend reads into a buffer it is given: the buffer afterwards, and its result.\<close>

type_synonym backend_read = "nat \<Rightarrow> bytes \<Rightarrow> bytes \<times> (fault + nat)"

record 'm read_buffer =
  rb_len :: nat
  rb_put :: "nat \<Rightarrow> bytes \<Rightarrow> 'm \<Rightarrow> fault + 'm"

record write_buffer =
  wb_len :: nat
  wb_get :: "nat \<Rightarrow> nat \<Rightarrow> bytes res"

definition kernel_read_buffer :: "nat \<Rightarrow> bytes read_buffer" where
  "kernel_read_buffer n = \<lparr> rb_len = n,
     rb_put = (\<lambda>i bs m. if i + length bs \<le> length m then Inr (take i m @ bs @ drop (i + length bs) m)
                        else Inl Panic) \<rparr>"

definition kernel_write_buffer :: "bytes \<Rightarrow> write_buffer" where
  "kernel_write_buffer bs = \<lparr> wb_len = length bs,
     wb_get = (\<lambda>i n. if i + n \<le> length bs then Inr (take n (drop i bs)) else Inl Panic) \<rparr>"

subsection \<open>Reading\<close>

definition load_page ::
  "backend_read \<Rightarrow> nat \<Rightarrow> page_cache \<times> nat \<Rightarrow> ((fault + BackedPage) \<times> page_cache \<times> nat) option" where
  "load_page rd page_id s = do {
     (page, pages, frames) \<leftarrow> get_or_init_page page_id s;
     if page_state page = Invalid
     then (case rd (shl64 page_id PAGE_SIZE_BITS) (page_bytes page) of
         (buf, Inl f) \<Rightarrow> Some (Inl f, bt_insert page_id (page\<lparr> page_bytes := buf \<rparr>) pages, frames)
       | (buf, Inr _) \<Rightarrow>
           (let page' = \<lparr> page_bytes = buf, page_state = Synced \<rparr>
            in Some (Inr page', bt_insert page_id page' pages, frames)))
     else Some (Inr page, pages, frames)
   }"

function read_loop ::
  "backend_read \<Rightarrow> 'm read_buffer \<Rightarrow> nat \<Rightarrow> nat \<Rightarrow> nat \<Rightarrow> page_cache \<times> nat \<Rightarrow> 'm
    \<Rightarrow> ((fault + nat) \<times> 'm \<times> page_cache \<times> nat) option" where
  "read_loop rd buf offset read_end nread s m =
    (if nread < read_end
     then (let page_id = drop_bit PAGE_SIZE_BITS (offset + nread);
               page_offset = (offset + nread) AND PAGE_OFFSET_MASK;
               copy_len = min (read_end - nread) (PAGE_SIZE - page_offset)
       in case load_page rd page_id s of
            None \<Rightarrow> None
          | Some (Inl f, s') \<Rightarrow> Some (Inl f, m, s')
          | Some (Inr page, s') \<Rightarrow>
              (case rb_put buf nread (slice (page_bytes page) page_offset (page_offset + copy_len)) m of
                 Inl f \<Rightarrow> Some (Inl f, m, s')
               | Inr m' \<Rightarrow> read_loop rd buf offset read_end (nread + copy_len) s' m'))
     else Some (Inr nread, m, s))"
  by pat_completeness auto

lemma in_page_offset_mod: "a AND PAGE_OFFSET_MASK = a mod 4096"
  by (simp add: PAGE_OFFSET_MASK_def and_4095_mod)

lemma page_id_div: "drop_bit PAGE_SIZE_BITS a = a div 4096"
  by (simp add: PAGE_SIZE_BITS_def drop_bit_eq_div)

termination read_loop
proof (relation "measure (\<lambda>(rd, buf, offset, read_end, nread, s, m). read_end - nread)")
  show "wf (measure (\<lambda>(rd, buf, offset, read_end, nread, s, m). read_end - nread))" by simp
qed (auto simp: in_page_offset_mod PAGE_SIZE_def min_def)

declare read_loop.simps [simp del]

definition read_at ::
  "backend_read \<Rightarrow> (nat \<Rightarrow> 'm \<Rightarrow> (fault + nat) \<times> 'm) \<Rightarrow> TimeSpec \<Rightarrow> 'm read_buffer \<Rightarrow> nat \<Rightarrow> InodeMeta \<Rightarrow> nat \<Rightarrow> 'm
    \<Rightarrow> ((fault + nat) \<times> 'm \<times> InodeMeta \<times> nat) option" where
  "read_at rd rd_direct now buf offset meta frames m =
    (if data_len meta < offset then Some (Inr 0, m, meta, frames)
     else if mode meta = Regular
     then (let read_end = min (rb_len buf) (data_len meta - offset) in
       case read_loop rd buf offset read_end 0 (page_cache meta, frames) m of
         None \<Rightarrow> None
       | Some (Inl f, m', pages, frames') \<Rightarrow> Some (Inl f, m', meta\<lparr> page_cache := pages \<rparr>, frames')
       | Some (Inr n, m', pages, frames') \<Rightarrow>
           Some (Inr n, m', meta\<lparr> page_cache := pages, access_time := now \<rparr>, frames'))
     else (let (r, m') = rd_direct offset m in Some (r, m', meta, frames)))"

subsection \<open>Writing\<close>

definition next_multiple_of :: "nat \<Rightarrow> nat \<Rightarrow> nat option" where
  "next_multiple_of a n = (if a mod n = 0 then Some a else uadd a (n - a mod n))"

definition dirty_page ::
  "backend_read \<Rightarrow> nat \<Rightarrow> nat \<Rightarrow> nat \<Rightarrow> nat \<Rightarrow> page_cache \<times> nat \<Rightarrow> ((fault + BackedPage) \<times> page_cache \<times> nat) option" where
  "dirty_page rd last_page lo hi page_id s = do {
     (page, pages, frames) \<leftarrow> get_or_init_page page_id s;
     if page_state page = Invalid
     then (if page_id \<le> last_page \<and> lo \<le> page_id \<and> page_id < hi
           then (case rd (shl64 page_id PAGE_SIZE_BITS) (page_bytes page) of
               (buf, Inl f) \<Rightarrow> Some (Inl f, bt_insert page_id (page\<lparr> page_bytes := buf \<rparr>) pages, frames)
             | (buf, Inr _) \<Rightarrow>
                 (let page' = \<lparr> page_bytes = buf, page_state = Dirty \<rparr>
                  in Some (Inr page', bt_insert page_id page' pages, frames)))
           else (let page' = page\<lparr> page_state := Dirty \<rparr>
                 in Some (Inr page', bt_insert page_id page' pages, frames)))
     else Some (Inr page, pages, frames)
   }"

function write_loop ::
  "backend_read \<Rightarrow> write_buffer \<Rightarrow> nat \<Rightarrow> nat \<Rightarrow> nat \<Rightarrow> nat \<Rightarrow> nat \<Rightarrow> page_cache \<times> nat
    \<Rightarrow> ((fault + nat) \<times> page_cache \<times> nat) option" where
  "write_loop rd buf last_page lo hi offset nwrite s =
    (if nwrite < wb_len buf
     then (let page_id = drop_bit PAGE_SIZE_BITS (offset + nwrite);
               page_offset = (offset + nwrite) AND PAGE_OFFSET_MASK;
               copy_len = min (wb_len buf - nwrite) (PAGE_SIZE - page_offset)
       in case dirty_page rd last_page lo hi page_id s of
            None \<Rightarrow> None
          | Some (Inl f, s') \<Rightarrow> Some (Inl f, s')
          | Some (Inr page, pages, frames) \<Rightarrow>
              (case wb_get buf nwrite copy_len of
                 Inl f \<Rightarrow> Some (Inl f, pages, frames)
               | Inr bs \<Rightarrow>
                   (let page' = page\<lparr> page_bytes := take page_offset (page_bytes page) @ bs
                                   @ drop (page_offset + copy_len) (page_bytes page) \<rparr>
                    in write_loop rd buf last_page lo hi offset (nwrite + copy_len)
                         (bt_insert page_id page' pages, frames))))
     else Some (Inr nwrite, s))"
  by pat_completeness auto

termination write_loop
proof (relation "measure (\<lambda>(rd, buf, last_page, lo, hi, offset, nwrite, s). wb_len buf - nwrite)")
  show "wf (measure (\<lambda>(rd, buf, last_page, lo, hi, offset, nwrite, s). wb_len buf - nwrite))" by simp
qed (auto simp: in_page_offset_mod PAGE_SIZE_def min_def)

declare write_loop.simps [simp del]

text \<open>The range that decides whether a page is read first is a range of byte offsets, and
  the code asks whether it contains the number of the page.\<close>

definition write_at ::
  "backend_read \<Rightarrow> (nat \<Rightarrow> fault + nat) \<Rightarrow> TimeSpec \<Rightarrow> write_buffer \<Rightarrow> nat \<Rightarrow> InodeMeta \<Rightarrow> nat
    \<Rightarrow> ((fault + nat) \<times> InodeMeta \<times> nat) option" where
  "write_at rd wr_direct now buf offset meta frames =
    (if mode meta = Regular
     then do {
       let last_page = drop_bit PAGE_SIZE_BITS (data_len meta);
       end_off \<leftarrow> uadd offset (wb_len buf);
       hi \<leftarrow> next_multiple_of end_off PAGE_SIZE;
       let lo = offset - (offset AND PAGE_OFFSET_MASK);
       (r, pages, frames') \<leftarrow> write_loop rd buf last_page lo hi offset 0 (page_cache meta, frames);
       (case r of
          Inl f \<Rightarrow> Some (Inl f, meta\<lparr> page_cache := pages \<rparr>, frames')
        | Inr n \<Rightarrow>
            (let meta' = meta\<lparr> page_cache := pages, access_time := now, modify_time := now \<rparr>
             in Some (Inr n, if data_len meta < end_off
                             then meta'\<lparr> data_len := end_off, change_time := now \<rparr> else meta', frames')))
     }
     else Some (wr_direct offset, meta, frames))"

definition resize ::
  "(nat \<Rightarrow> InodeMeta \<Rightarrow> 'b \<Rightarrow> ((fault + unit) \<times> InodeMeta \<times> 'b) option) \<Rightarrow> nat \<Rightarrow> InodeMeta \<Rightarrow> 'b \<Rightarrow> nat
    \<Rightarrow> ((fault + unit) \<times> InodeMeta \<times> 'b \<times> nat) option" where
  "resize trunc len meta b frames =
    (if mode meta \<noteq> Regular then None
     else (let last_page = drop_bit PAGE_SIZE_BITS (data_len meta);
               new_last = drop_bit PAGE_SIZE_BITS len;
               (pages, frames') = (if new_last < last_page
                  then free_pages_from (new_last + 1) (page_cache meta, frames) else (page_cache meta, frames))
       in case trunc len (meta\<lparr> page_cache := pages \<rparr>) b of
            None \<Rightarrow> None
          | Some (r, meta', b') \<Rightarrow> Some (r, meta', b', frames')))"


section \<open>The contents of a file\<close>

definition cached_page :: "page_cache \<Rightarrow> nat \<Rightarrow> bytes option" where
  "cached_page pages p = (case bt_get pages p of
     Some page \<Rightarrow> if page_state page = Invalid then None else Some (page_bytes page)
   | None \<Rightarrow> None)"

definition view :: "page_cache \<Rightarrow> (nat \<Rightarrow> 8 word) \<Rightarrow> nat \<Rightarrow> 8 word" where
  "view pages disk i = (case cached_page pages (i div PAGE_SIZE) of
     Some bs \<Rightarrow> bs ! (i mod PAGE_SIZE) | None \<Rightarrow> disk i)"

text \<open>A page that was never filled is still the cleared frame it was created with.\<close>

definition page_ok :: "BackedPage \<Rightarrow> bool" where
  "page_ok page \<longleftrightarrow> length (page_bytes page) = PAGE_SIZE
    \<and> (page_state page = Invalid \<longrightarrow> page_bytes page = replicate PAGE_SIZE 0)"

definition cache_ok :: "page_cache \<Rightarrow> bool" where
  "cache_ok pages \<longleftrightarrow> bt_inv pages \<and> (\<forall>p page. bt_get pages p = Some page \<longrightarrow> page_ok page)"

text \<open>The pages of a byte range, and those of them that still need a frame.\<close>

definition touched :: "nat \<Rightarrow> nat \<Rightarrow> nat set" where
  "touched a b = (\<lambda>i. i div PAGE_SIZE) ` {a..<b}"

definition missing :: "page_cache \<Rightarrow> nat \<Rightarrow> nat \<Rightarrow> nat" where
  "missing pages a b = card {p \<in> touched a b. bt_get pages p = None}"

lemma finite_touched [simp]: "finite (touched a b)"
  by (simp add: touched_def)

lemma page_split: "s < PAGE_SIZE \<Longrightarrow> (q * PAGE_SIZE + s) div PAGE_SIZE = q \<and> (q * PAGE_SIZE + s) mod PAGE_SIZE = s"
  by simp

text \<open>One step of a copy: from \<^verbatim>\<open>a\<close> to the end of its page or to \<^verbatim>\<open>b\<close>.\<close>

lemma chunk_facts:
  assumes "a < b" "c = min (b - a) (PAGE_SIZE - a mod PAGE_SIZE)"
  obtains q r where "a div PAGE_SIZE = q" "a mod PAGE_SIZE = r" "a = q * PAGE_SIZE + r" "r < PAGE_SIZE"
    "0 < c" "a + c \<le> b" "r + c \<le> PAGE_SIZE" "a + c < b \<Longrightarrow> r + c = PAGE_SIZE"
proof -
  have "a mod PAGE_SIZE < PAGE_SIZE" by simp
  then have "0 < c" "a + c \<le> b" "a mod PAGE_SIZE + c \<le> PAGE_SIZE"
    "a + c < b \<Longrightarrow> a mod PAGE_SIZE + c = PAGE_SIZE"
    using assms unfolding min_def by (simp_all split: if_splits)
  moreover have "a = a div PAGE_SIZE * PAGE_SIZE + a mod PAGE_SIZE" by simp
  ultimately show thesis using that [OF refl refl] by simp
qed

lemma touched_step:
  assumes "a < b" "c = min (b - a) (PAGE_SIZE - a mod PAGE_SIZE)"
  shows "touched a b = insert (a div PAGE_SIZE) (touched (a + c) b)"
    and "a div PAGE_SIZE \<notin> touched (a + c) b"
    and "\<And>i. a \<le> i \<Longrightarrow> i < a + c \<Longrightarrow> i div PAGE_SIZE = a div PAGE_SIZE \<and> i mod PAGE_SIZE = a mod PAGE_SIZE + (i - a)"
proof -
  obtain q r where q: "a div PAGE_SIZE = q" "a mod PAGE_SIZE = r" and a: "a = q * PAGE_SIZE + r" "r < PAGE_SIZE"
    and c: "0 < c" "a + c \<le> b" "r + c \<le> PAGE_SIZE" "a + c < b \<Longrightarrow> r + c = PAGE_SIZE"
    using chunk_facts [OF assms] by metis
  have in_page: "i div PAGE_SIZE = q \<and> i mod PAGE_SIZE = r + (i - a)" if "a \<le> i" "i < a + c" for i
  proof -
    have i: "i = q * PAGE_SIZE + (r + (i - a))" "r + (i - a) < PAGE_SIZE"
      using a(1) c(3) that by linarith+
    show ?thesis using page_split [OF i(2), of q] unfolding i(1) [symmetric] .
  qed
  then show "i div PAGE_SIZE = a div PAGE_SIZE \<and> i mod PAGE_SIZE = a mod PAGE_SIZE + (i - a)"
    if "a \<le> i" "i < a + c" for i using that unfolding q by blast
  have "{a..<b} = {a..<a + c} \<union> {a + c..<b}" using c by auto
  moreover have "(\<lambda>i. i div PAGE_SIZE) ` {a..<a + c} = {q}"
    using in_page c(1) by (force simp: image_iff intro: bexI [of _ a])
  ultimately show "touched a b = insert (a div PAGE_SIZE) (touched (a + c) b)"
    by (simp add: touched_def image_Un q)
  show "a div PAGE_SIZE \<notin> touched (a + c) b"
  proof
    assume "a div PAGE_SIZE \<in> touched (a + c) b"
    then obtain i where i: "a + c \<le> i" "i < b" "i div PAGE_SIZE = q" by (auto simp: touched_def q)
    then have "r + c = PAGE_SIZE" using c(4) by simp
    then have "(q + 1) * PAGE_SIZE \<le> i" using i(1) a(1) by (simp add: add_mult_distrib)
    then have "q + 1 \<le> i div PAGE_SIZE" by (simp add: less_eq_div_iff_mult_less_eq)
    then show False using i(3) by simp
  qed
qed

lemma touched_bound: "p \<in> touched a b \<Longrightarrow> b \<le> n * PAGE_SIZE \<Longrightarrow> p < n"
  by (auto simp: touched_def div_less_iff_less_mult)

lemma missing_step:
  assumes ab: "a < b" "c = min (b - a) (PAGE_SIZE - a mod PAGE_SIZE)"
    and dom: "\<And>p. bt_get pages' p = None \<longleftrightarrow> p \<noteq> a div PAGE_SIZE \<and> bt_get pages p = None"
  shows "missing pages a b = missing pages' (a + c) b + (if bt_get pages (a div PAGE_SIZE) = None then 1 else 0)"
proof -
  have eq: "{p \<in> touched (a + c) b. bt_get pages' p = None} = {p \<in> touched (a + c) b. bt_get pages p = None}"
    using dom touched_step(2) [OF ab] by auto
  have "{p \<in> touched a b. bt_get pages p = None} = (if bt_get pages (a div PAGE_SIZE) = None
      then insert (a div PAGE_SIZE) {p \<in> touched (a + c) b. bt_get pages p = None}
      else {p \<in> touched (a + c) b. bt_get pages p = None})"
    unfolding touched_step(1) [OF ab] by auto
  then show ?thesis
    using touched_step(2) [OF ab] unfolding missing_def eq by (auto simp: card_insert_if)
qed


text \<open>What a page holds before a write copies into it: its cached contents; else the file's
  bytes if the code reads the page first, and a cleared frame if it does not.\<close>

definition base_byte :: "(nat \<Rightarrow> 8 word) \<Rightarrow> page_cache \<Rightarrow> nat \<Rightarrow> nat \<Rightarrow> nat \<Rightarrow> nat \<Rightarrow> 8 word" where
  "base_byte disk pages last_page lo hi i =
    (let p = i div PAGE_SIZE in
     if cached_page pages p \<noteq> None then view pages disk i
     else if p \<le> last_page \<and> lo \<le> p \<and> p < hi then disk i else 0)"

section \<open>Reading and writing through the cache\<close>

text \<open>The contract with the backend: asked for one of the pages below a limit with a
  cleared buffer, it delivers the bytes of the file.\<close>

locale page_backend =
  fixes rd :: backend_read and disk :: "nat \<Rightarrow> 8 word" and limit :: nat
  assumes limit_ok: "limit * PAGE_SIZE \<le> usize_limit"
    and rd_page: "p < limit \<Longrightarrow> \<exists>n. rd (p * PAGE_SIZE) (replicate PAGE_SIZE 0)
      = (map (\<lambda>j. disk (p * PAGE_SIZE + j)) [0..<PAGE_SIZE], Inr n)"
begin

lemma rd_shifted:
  assumes "p < limit"
  shows "\<exists>n. rd (shl64 p PAGE_SIZE_BITS) (replicate PAGE_SIZE 0)
    = (map (\<lambda>j. disk (p * PAGE_SIZE + j)) [0..<PAGE_SIZE], Inr n)"
proof -
  have "Suc p * PAGE_SIZE \<le> limit * PAGE_SIZE" using assms by (intro mult_le_mono1) simp
  then have "p * PAGE_SIZE < usize_limit" using limit_ok page_size_pos by (simp only: mult_Suc)
  then have "shl64 p PAGE_SIZE_BITS = p * PAGE_SIZE"
    by (simp add: shl64_def PAGE_SIZE_BITS_def PAGE_SIZE_def)
  then show ?thesis using rd_page [OF assms] by simp
qed

lemma get_or_init:
  assumes ok: "cache_ok pages" and frames: "bt_get pages p = None \<Longrightarrow> 0 < frames"
  shows "\<exists>page pages' frames'. get_or_init_page p (pages, frames) = Some (page, pages', frames')
    \<and> cache_ok pages' \<and> page_ok page \<and> bt_get pages' = (bt_get pages)(p \<mapsto> page)
    \<and> frames' = frames - (if bt_get pages p = None then 1 else 0)
    \<and> (case cached_page pages p of Some bs \<Rightarrow> page_state page \<noteq> Invalid \<and> page_bytes page = bs
        | None \<Rightarrow> page_state page = Invalid \<and> page_bytes page = replicate PAGE_SIZE 0)"
proof (cases "bt_get pages p")
  case None
  then show ?thesis using ok frames
    by (simp add: get_or_init_page_def pc_create_def cached_page_def page_ok_def cache_ok_def Let_def)
next
  case (Some page)
  then have "page_ok page" using ok by (auto simp: cache_ok_def)
  then show ?thesis using Some ok
    by (auto simp: get_or_init_page_def cached_page_def page_ok_def fun_upd_idem split: option.splits)
qed

lemma view_page_bytes:
  "(\<forall>j < PAGE_SIZE. bs ! j = view pages disk (p * PAGE_SIZE + j)) \<Longrightarrow> length bs = PAGE_SIZE
    \<Longrightarrow> bs = map (\<lambda>j. view pages disk (p * PAGE_SIZE + j)) [0..<PAGE_SIZE]"
  by (simp add: list_eq_iff_nth_eq)

text \<open>A page that the cache fills shows the bytes it showed before.\<close>

lemma view_insert:
  assumes "page_state page \<noteq> Invalid"
    and "\<And>j. j < PAGE_SIZE \<Longrightarrow> page_bytes page ! j = view pages disk (p * PAGE_SIZE + j)"
    and "bt_get pages' = (bt_get pages)(p \<mapsto> page)"
  shows "view pages' disk = view pages disk"
proof
  fix i
  show "view pages' disk i = view pages disk i"
  proof (cases "i div PAGE_SIZE = p")
    case True
    then have i: "i = p * PAGE_SIZE + i mod PAGE_SIZE" by (metis div_mult_mod_eq)
    have "view pages' disk i = page_bytes page ! (i mod PAGE_SIZE)"
      using assms(1,3) True by (simp add: view_def cached_page_def)
    also have "\<dots> = view pages disk (p * PAGE_SIZE + i mod PAGE_SIZE)" by (rule assms(2)) simp
    finally show ?thesis using i by simp
  next
    case False
    then show ?thesis using assms(3) by (simp add: view_def cached_page_def)
  qed
qed

lemma view_of_cached:
  "cached_page pages p = Some bs \<Longrightarrow> j < PAGE_SIZE \<Longrightarrow> view pages disk (p * PAGE_SIZE + j) = bs ! j"
  "cached_page pages p = None \<Longrightarrow> j < PAGE_SIZE \<Longrightarrow> view pages disk (p * PAGE_SIZE + j) = disk (p * PAGE_SIZE + j)"
  by (simp_all add: view_def page_split)

lemma load_page_ok:
  assumes ok: "cache_ok pages" and frames: "bt_get pages p = None \<Longrightarrow> 0 < frames" and p: "p < limit"
  shows "\<exists>page pages' frames'. load_page rd p (pages, frames) = Some (Inr page, pages', frames')
    \<and> cache_ok pages' \<and> view pages' disk = view pages disk
    \<and> page_bytes page = map (\<lambda>j. view pages disk (p * PAGE_SIZE + j)) [0..<PAGE_SIZE]
    \<and> (\<forall>q. bt_get pages' q = None \<longleftrightarrow> q \<noteq> p \<and> bt_get pages q = None)
    \<and> frames' = frames - (if bt_get pages p = None then 1 else 0)"
proof -
  obtain page pages' frames' where g: "get_or_init_page p (pages, frames) = Some (page, pages', frames')"
    "cache_ok pages'" "page_ok page" "bt_get pages' = (bt_get pages)(p \<mapsto> page)"
    "frames' = frames - (if bt_get pages p = None then 1 else 0)"
    "case cached_page pages p of Some bs \<Rightarrow> page_state page \<noteq> Invalid \<and> page_bytes page = bs
        | None \<Rightarrow> page_state page = Invalid \<and> page_bytes page = replicate PAGE_SIZE 0"
    using get_or_init [OF ok frames] by blast
  show ?thesis
  proof (cases "cached_page pages p")
    case (Some bs)
    then have v: "page_state page \<noteq> Invalid" "page_bytes page = bs" using g(6) by simp_all
    have b: "\<And>j. j < PAGE_SIZE \<Longrightarrow> page_bytes page ! j = view pages disk (p * PAGE_SIZE + j)"
      using view_of_cached(1) [OF Some] v(2) by simp
    moreover have "length (page_bytes page) = PAGE_SIZE" using g(3) by (simp add: page_ok_def)
    ultimately have "page_bytes page = map (\<lambda>j. view pages disk (p * PAGE_SIZE + j)) [0..<PAGE_SIZE]"
      using view_page_bytes by blast
    moreover have "view pages' disk = view pages disk" by (rule view_insert [OF v(1) b g(4)])
    ultimately show ?thesis using g(1,2,4,5) v(1) by (simp add: load_page_def)
  next
    case None
    then have v: "page_state page = Invalid" "page_bytes page = replicate PAGE_SIZE 0" using g(6) by simp_all
    let ?bs = "map (\<lambda>j. disk (p * PAGE_SIZE + j)) [0..<PAGE_SIZE]"
    let ?page = "\<lparr> page_bytes = ?bs, page_state = Synced \<rparr>"
    let ?pages = "bt_insert p ?page pages'"
    have bs: "?bs = map (\<lambda>j. view pages disk (p * PAGE_SIZE + j)) [0..<PAGE_SIZE]"
      using view_of_cached(2) [OF None] by simp
    have "load_page rd p (pages, frames) = Some (Inr ?page, ?pages, frames')"
      using rd_shifted [OF p] v g(1) by (auto simp: load_page_def Let_def)
    moreover have "cache_ok ?pages" using g(2) by (auto simp: cache_ok_def page_ok_def)
    moreover have get: "bt_get ?pages = (bt_get pages)(p \<mapsto> ?page)" using g(4) by simp
    moreover have "view ?pages disk = view pages disk"
      by (rule view_insert [OF _ _ get]) (simp_all add: view_of_cached(2) [OF None])
    ultimately show ?thesis using bs g(5) by auto
  qed
qed


lemma read_loop_ok:
  assumes "cache_ok pages" "nread \<le> read_end" "read_end \<le> length m" "offset + read_end \<le> limit * PAGE_SIZE"
    "missing pages (offset + nread) (offset + read_end) \<le> frames"
  shows "\<exists>pages' frames'. read_loop rd (kernel_read_buffer n) offset read_end nread (pages, frames) m
      = Some (Inr read_end, take nread m @ map (\<lambda>i. view pages disk (offset + i)) [nread..<read_end]
          @ drop read_end m, pages', frames')
    \<and> cache_ok pages' \<and> view pages' disk = view pages disk
    \<and> frames' = frames - missing pages (offset + nread) (offset + read_end)"
  using assms
proof (induction "read_end - nread" arbitrary: nread pages frames m rule: less_induct)
  case less
  let ?buf = "kernel_read_buffer n"
  show ?case
  proof (cases "nread < read_end")
    case False
    then have "nread = read_end" using less.prems(2) by simp
    then show ?thesis using less.prems by (simp add: read_loop.simps missing_def touched_def)
  next
    case True
    define a b where "a = offset + nread" and "b = offset + read_end"
    define c where "c = min (b - a) (PAGE_SIZE - a mod PAGE_SIZE)"
    have lt: "a < b" using True by (simp add: a_def b_def)
    obtain p r where p: "a div PAGE_SIZE = p" "a mod PAGE_SIZE = r" "a = p * PAGE_SIZE + r"
      and c: "0 < c" "a + c \<le> b" "r + c \<le> PAGE_SIZE"
      using chunk_facts [OF lt c_def] by metis
    note step = touched_step [OF lt c_def, unfolded p(1,2)]
    note miss = missing_step [OF lt c_def, unfolded p(1)]
    have lim: "p < limit" using touched_bound [of p a b limit] step(1) less.prems(4) by (simp add: b_def)
    have "bt_get pages p = None \<Longrightarrow> 0 < frames"
      using less.prems(5) miss [of "bt_insert p undefined pages" pages] by (simp add: a_def b_def)
    from load_page_ok [OF less.prems(1) this lim] obtain page pages' frames' where
      l: "load_page rd p (pages, frames) = Some (Inr page, pages', frames')" "cache_ok pages'"
      "view pages' disk = view pages disk"
      "page_bytes page = map (\<lambda>j. view pages disk (p * PAGE_SIZE + j)) [0..<PAGE_SIZE]"
      "\<And>q. bt_get pages' q = None \<longleftrightarrow> q \<noteq> p \<and> bt_get pages q = None"
      "frames' = frames - (if bt_get pages p = None then 1 else 0)" by blast
    have sl: "slice (page_bytes page) r (r + c) = map (\<lambda>i. view pages disk (offset + i)) [nread..<nread + c]"
    proof (rule nth_equalityI)
      show "length (slice (page_bytes page) r (r + c)) = length (map (\<lambda>i. view pages disk (offset + i)) [nread..<nread + c])"
        using c(3) l(4) by simp
    next
      fix i assume "i < length (slice (page_bytes page) r (r + c))"
      then have i: "i < c" using c(3) l(4) by simp
      have eq: "p * PAGE_SIZE + (r + i) = offset + (nread + i)" using p(3) by (simp add: a_def)
      show "slice (page_bytes page) r (r + c) ! i = map (\<lambda>i. view pages disk (offset + i)) [nread..<nread + c] ! i"
        using i c(3) unfolding l(4) by (simp add: slice_def eq)
    qed
    define m1 where "m1 = take nread m @ map (\<lambda>i. view pages disk (offset + i)) [nread..<nread + c] @ drop (nread + c) m"
    have le: "nread + c \<le> read_end" using c(2) by (simp add: a_def b_def)
    then have put: "rb_put ?buf nread (slice (page_bytes page) r (r + c)) m = Inr m1"
      using less.prems(3) unfolding sl by (simp add: kernel_read_buffer_def m1_def)
    have "missing pages' (a + c) b \<le> frames'"
      using less.prems(5) miss [OF l(5)] unfolding l(6) a_def [symmetric] b_def [symmetric]
      by (cases "bt_get pages p") simp_all
    then have miss': "missing pages' (offset + (nread + c)) (offset + read_end) \<le> frames'"
      by (simp add: a_def b_def add.assoc)
    have len: "read_end \<le> length m1" using less.prems(3) le by (simp add: m1_def)
    have dec: "read_end - (nread + c) < read_end - nread" using c(1) le by linarith
    obtain pages'' frames'' where
      r: "read_loop rd ?buf offset read_end (nread + c) (pages', frames') m1
        = Some (Inr read_end, take (nread + c) m1 @ map (\<lambda>i. view pages' disk (offset + i)) [nread + c..<read_end]
            @ drop read_end m1, pages'', frames'')"
      "cache_ok pages''" "view pages'' disk = view pages' disk"
      "frames'' = frames' - missing pages' (offset + (nread + c)) (offset + read_end)"
      using less.hyps [OF dec l(2) le len less.prems(4) miss'] by blast
    have fr: "frames'' = frames - missing pages (offset + nread) (offset + read_end)"
      using miss [OF l(5)] r(4) unfolding l(6) a_def [symmetric] b_def [symmetric] by (simp add: a_def b_def add.assoc)
    have tk: "take (nread + c) m1 = take nread m @ map (\<lambda>i. view pages disk (offset + i)) [nread..<nread + c]"
      "drop read_end m1 = drop read_end m"
      using less.prems(2,3) le by (simp_all add: m1_def)
    have up: "[nread..<read_end] = [nread..<nread + c] @ [nread + c..<read_end]"
      using le upt_add_eq_append [of nread "nread + c" "read_end - (nread + c)"] by simp
    have cl: "min (read_end - nread) (PAGE_SIZE - (offset + nread) mod 4096) = c"
      by (simp add: c_def a_def b_def PAGE_SIZE_def)
    have "read_loop rd ?buf offset read_end nread (pages, frames) m
        = read_loop rd ?buf offset read_end (nread + c) (pages', frames') m1"
      unfolding read_loop.simps [of rd ?buf offset read_end nread] in_page_offset_mod page_id_div Let_def cl
      using True l(1) put p(1,2) by (simp add: a_def PAGE_SIZE_def)
    also have "\<dots> = Some (Inr read_end, take nread m @ map (\<lambda>i. view pages disk (offset + i)) [nread..<read_end]
          @ drop read_end m, pages'', frames'')"
      unfolding r(1) tk l(3) up map_append by simp
    finally show ?thesis using r(2,3) fr unfolding l(3) by blast
  qed
qed


lemma dirty_page_ok:
  assumes ok: "cache_ok pages" and frames: "bt_get pages p = None \<Longrightarrow> 0 < frames" and p: "p < limit"
  shows "\<exists>page pages' frames'. dirty_page rd last_page lo hi p (pages, frames) = Some (Inr page, pages', frames')
    \<and> cache_ok pages' \<and> page_state page \<noteq> Invalid \<and> bt_get pages' = (bt_get pages)(p \<mapsto> page)
    \<and> page_bytes page = map (\<lambda>j. base_byte disk pages last_page lo hi (p * PAGE_SIZE + j)) [0..<PAGE_SIZE]
    \<and> frames' = frames - (if bt_get pages p = None then 1 else 0)"
proof -
  obtain page pages' frames' where g: "get_or_init_page p (pages, frames) = Some (page, pages', frames')"
    "cache_ok pages'" "page_ok page" "bt_get pages' = (bt_get pages)(p \<mapsto> page)"
    "frames' = frames - (if bt_get pages p = None then 1 else 0)"
    "case cached_page pages p of Some bs \<Rightarrow> page_state page \<noteq> Invalid \<and> page_bytes page = bs
        | None \<Rightarrow> page_state page = Invalid \<and> page_bytes page = replicate PAGE_SIZE 0"
    using get_or_init [OF ok frames] by blast
  have div: "(p * PAGE_SIZE + j) div PAGE_SIZE = p" if "j < PAGE_SIZE" for j using page_split [OF that] by blast
  show ?thesis
  proof (cases "cached_page pages p")
    case (Some bs)
    then have v: "page_state page \<noteq> Invalid" "page_bytes page = bs" using g(6) by simp_all
    have "page_bytes page = map (\<lambda>j. base_byte disk pages last_page lo hi (p * PAGE_SIZE + j)) [0..<PAGE_SIZE]"
    proof (rule nth_equalityI)
      show "length (page_bytes page) = length (map (\<lambda>j. base_byte disk pages last_page lo hi (p * PAGE_SIZE + j)) [0..<PAGE_SIZE])"
        using g(3) by (simp add: page_ok_def)
    next
      fix j assume "j < length (page_bytes page)"
      then have j: "j < PAGE_SIZE" using g(3) by (simp add: page_ok_def)
      then show "page_bytes page ! j = map (\<lambda>j. base_byte disk pages last_page lo hi (p * PAGE_SIZE + j)) [0..<PAGE_SIZE] ! j"
        using view_of_cached(1) [OF Some j] v(2) Some by (simp add: base_byte_def div Let_def)
    qed
    then show ?thesis using g(1,2,4,5) v(1) by (simp add: dirty_page_def)
  next
    case None
    then have v: "page_state page = Invalid" "page_bytes page = replicate PAGE_SIZE 0" using g(6) by simp_all
    define page1 where "page1 = \<lparr> page_bytes = (if p \<le> last_page \<and> lo \<le> p \<and> p < hi
        then map (\<lambda>j. disk (p * PAGE_SIZE + j)) [0..<PAGE_SIZE] else replicate PAGE_SIZE 0), page_state = Dirty \<rparr>"
    have d: "dirty_page rd last_page lo hi p (pages, frames) = Some (Inr page1, bt_insert p page1 pages', frames')"
      using rd_shifted [OF p] v g(1) by (cases page) (auto simp: dirty_page_def page1_def Let_def)
    have b: "page_bytes page1 = map (\<lambda>j. base_byte disk pages last_page lo hi (p * PAGE_SIZE + j)) [0..<PAGE_SIZE]"
      using None by (auto simp: page1_def base_byte_def div Let_def list_eq_iff_nth_eq)
    have "cache_ok (bt_insert p page1 pages')" using g(2) by (auto simp: cache_ok_def page_ok_def page1_def)
    moreover have "bt_get (bt_insert p page1 pages') = (bt_get pages)(p \<mapsto> page1)" using g(4) by simp
    moreover have "page_state page1 \<noteq> Invalid" by (simp add: page1_def)
    ultimately show ?thesis using d b g(5) by blast
  qed
qed

lemma write_loop_ok:
  assumes "cache_ok pages" "nwrite \<le> length bs" "offset + length bs \<le> limit * PAGE_SIZE"
    "missing pages (offset + nwrite) (offset + length bs) \<le> frames"
  shows "\<exists>pages' frames'. write_loop rd (kernel_write_buffer bs) last_page lo hi offset nwrite (pages, frames)
      = Some (Inr (length bs), pages', frames') \<and> cache_ok pages'
    \<and> (\<forall>i. view pages' disk i =
        (if offset + nwrite \<le> i \<and> i < offset + length bs then bs ! (i - offset)
         else if i div PAGE_SIZE \<in> touched (offset + nwrite) (offset + length bs)
         then base_byte disk pages last_page lo hi i else view pages disk i))
    \<and> (\<forall>p. cached_page pages' p \<noteq> None \<longleftrightarrow> p \<in> touched (offset + nwrite) (offset + length bs) \<or> cached_page pages p \<noteq> None)"
  using assms
proof (induction "length bs - nwrite" arbitrary: nwrite pages frames rule: less_induct)
  case less
  let ?buf = "kernel_write_buffer bs"
  show ?case
  proof (cases "nwrite < length bs")
    case False
    then have "nwrite = length bs" using less.prems(2) by simp
    then show ?thesis using less.prems by (auto simp: write_loop.simps kernel_write_buffer_def touched_def)
  next
    case True
    define a b where "a = offset + nwrite" and "b = offset + length bs"
    define c where "c = min (b - a) (PAGE_SIZE - a mod PAGE_SIZE)"
    have lt: "a < b" using True by (simp add: a_def b_def)
    obtain p r where p: "a div PAGE_SIZE = p" "a mod PAGE_SIZE = r" "a = p * PAGE_SIZE + r"
      and c: "0 < c" "a + c \<le> b" "r + c \<le> PAGE_SIZE"
      using chunk_facts [OF lt c_def] by metis
    note step = touched_step [OF lt c_def, unfolded p(1,2)]
    note miss = missing_step [OF lt c_def, unfolded p(1)]
    have lim: "p < limit" using touched_bound [of p a b limit] step(1) less.prems(3) by (simp add: b_def)
    have "bt_get pages p = None \<Longrightarrow> 0 < frames"
      using less.prems(4) miss [of "bt_insert p undefined pages" pages] by (simp add: a_def b_def)
    from dirty_page_ok [OF less.prems(1) this lim, of last_page lo hi] obtain page pages' frames' where
      l: "dirty_page rd last_page lo hi p (pages, frames) = Some (Inr page, pages', frames')" "cache_ok pages'"
      "page_state page \<noteq> Invalid" "bt_get pages' = (bt_get pages)(p \<mapsto> page)"
      "page_bytes page = map (\<lambda>j. base_byte disk pages last_page lo hi (p * PAGE_SIZE + j)) [0..<PAGE_SIZE]"
      "frames' = frames - (if bt_get pages p = None then 1 else 0)" by blast
    have le: "nwrite + c \<le> length bs" using c(2) by (simp add: a_def b_def)
    define page1 where "page1 = page\<lparr> page_bytes := take r (page_bytes page) @ take c (drop nwrite bs)
        @ drop (r + c) (page_bytes page) \<rparr>"
    define pages1 where "pages1 = bt_insert p page1 pages'"
    have len: "length (page_bytes page1) = PAGE_SIZE" using l(5) c(3) le by (simp add: page1_def)
    have ok1: "cache_ok pages1" using l(2,3) len by (auto simp: pages1_def cache_ok_def page_ok_def page1_def)
    have get1: "bt_get pages1 = (bt_get pages)(p \<mapsto> page1)" by (simp add: pages1_def l(4))
    have inv1: "page_state page1 \<noteq> Invalid" using l(3) by (simp add: page1_def)
    have nth1: "page_bytes page1 ! j = (if r \<le> j \<and> j < r + c then bs ! (nwrite + (j - r))
        else base_byte disk pages last_page lo hi (p * PAGE_SIZE + j))" if "j < PAGE_SIZE" for j
      using that c(3) le l(5) by (auto simp: page1_def nth_append)
    have get: "wb_get ?buf nwrite c = Inr (take c (drop nwrite bs))" "wb_len ?buf = length bs"
      using le by (simp_all add: kernel_write_buffer_def)
    have "missing pages1 (a + c) b \<le> frames'"
      using less.prems(4) miss [of pages1 pages] unfolding l(6) a_def [symmetric] b_def [symmetric]
      by (cases "bt_get pages p") (simp_all add: get1)
    then have miss': "missing pages1 (offset + (nwrite + c)) (offset + length bs) \<le> frames'"
      by (simp add: a_def b_def add.assoc)
    have dec: "length bs - (nwrite + c) < length bs - nwrite" using c(1) le by linarith
    obtain pages2 frames2 where
      rec: "write_loop rd ?buf last_page lo hi offset (nwrite + c) (pages1, frames')
        = Some (Inr (length bs), pages2, frames2)" "cache_ok pages2"
      "\<forall>i. view pages2 disk i =
        (if offset + (nwrite + c) \<le> i \<and> i < offset + length bs then bs ! (i - offset)
         else if i div PAGE_SIZE \<in> touched (offset + (nwrite + c)) (offset + length bs)
         then base_byte disk pages1 last_page lo hi i else view pages1 disk i)"
      "\<forall>q. cached_page pages2 q \<noteq> None \<longleftrightarrow> q \<in> touched (offset + (nwrite + c)) (offset + length bs) \<or> cached_page pages1 q \<noteq> None"
      using less.hyps [OF dec ok1 le less.prems(3) miss'] by blast
    have acb: "offset + (nwrite + c) = a + c" "offset + length bs = b" "offset + nwrite = a"
      by (simp_all add: a_def b_def)
    have cl: "min (length bs - nwrite) (PAGE_SIZE - (offset + nwrite) mod 4096) = c"
      by (simp add: c_def a_def b_def PAGE_SIZE_def)
    have "write_loop rd ?buf last_page lo hi offset nwrite (pages, frames)
        = write_loop rd ?buf last_page lo hi offset (nwrite + c) (pages1, frames')"
      unfolding write_loop.simps [of rd ?buf last_page lo hi offset nwrite] in_page_offset_mod page_id_div Let_def get(2) cl
      using True l(1) get(1) p(1,2) by (simp add: a_def PAGE_SIZE_def page1_def pages1_def)
    moreover have "view pages2 disk i =
        (if a \<le> i \<and> i < b then bs ! (i - offset)
         else if i div PAGE_SIZE \<in> touched a b then base_byte disk pages last_page lo hi i else view pages disk i)" for i
    proof (cases "i div PAGE_SIZE = p")
      case True
      then have i: "i = p * PAGE_SIZE + i mod PAGE_SIZE" by (metis div_mult_mod_eq)
      have v1: "view pages1 disk i = page_bytes page1 ! (i mod PAGE_SIZE)"
        using get1 inv1 True by (simp add: view_def cached_page_def)
      also have "\<dots> = (if a \<le> i \<and> i < a + c then bs ! (i - offset) else base_byte disk pages last_page lo hi i)"
      proof -
        have "r \<le> i mod PAGE_SIZE \<longleftrightarrow> a \<le> i" "i mod PAGE_SIZE < r + c \<longleftrightarrow> i < a + c"
          "a \<le> i \<Longrightarrow> nwrite + (i mod PAGE_SIZE - r) = i - offset"
          using i p(3) unfolding a_def by linarith+
        then show ?thesis using nth1 [of "i mod PAGE_SIZE"] i by auto
      qed
      finally have v: "view pages1 disk i = (if a \<le> i \<and> i < a + c then bs ! (i - offset) else base_byte disk pages last_page lo hi i)" .
      have "p \<notin> touched (a + c) b" using step(2) .
      moreover have "\<not> (a + c \<le> i \<and> i < b)"
        using True step(2) by (auto simp: touched_def)
      ultimately show ?thesis using rec(3) v True step(1) c(2) unfolding acb by auto
    next
      case False
      then have "view pages1 disk i = view pages disk i" "base_byte disk pages1 last_page lo hi i = base_byte disk pages last_page lo hi i"
        using get1 by (simp_all add: view_def cached_page_def base_byte_def Let_def)
      moreover have "\<not> (a \<le> i \<and> i < a + c)" using step(3) False by blast
      ultimately show ?thesis using rec(3) False step(1) c(2) unfolding acb by auto
    qed
    moreover have "cached_page pages2 q \<noteq> None \<longleftrightarrow> q \<in> touched a b \<or> cached_page pages q \<noteq> None" for q
      using rec(4) step(1) get1 inv1 unfolding acb by (auto simp: cached_page_def)
    ultimately show ?thesis using rec(1,2) unfolding acb by (intro exI conjI) auto
  qed
qed


lemma read_at_ok:
  assumes "mode meta = Regular" "cache_ok (page_cache meta)" "offset \<le> data_len meta"
    "data_len meta \<le> limit * PAGE_SIZE" "length m = n"
    "missing (page_cache meta) offset (offset + min n (data_len meta - offset)) \<le> frames"
  shows "\<exists>pages' frames'. read_at rd rd_direct now (kernel_read_buffer n) offset meta frames m
      = Some (Inr (min n (data_len meta - offset)),
          map (\<lambda>i. view (page_cache meta) disk (offset + i)) [0..<min n (data_len meta - offset)]
            @ drop (min n (data_len meta - offset)) m,
          meta\<lparr> page_cache := pages', access_time := now \<rparr>, frames')
    \<and> cache_ok pages' \<and> view pages' disk = view (page_cache meta) disk
    \<and> frames' = frames - missing (page_cache meta) offset (offset + min n (data_len meta - offset))"
proof -
  let ?e = "min n (data_len meta - offset)"
  have "?e \<le> length m" "offset + ?e \<le> limit * PAGE_SIZE" using assms(3-5) by auto
  from read_loop_ok [OF assms(2) _ this, of 0 frames n] assms(6)
  obtain pages' frames' where
    "read_loop rd (kernel_read_buffer n) offset ?e 0 (page_cache meta, frames) m
      = Some (Inr ?e, map (\<lambda>i. view (page_cache meta) disk (offset + i)) [0..<?e] @ drop ?e m, pages', frames')"
    "cache_ok pages'" "view pages' disk = view (page_cache meta) disk"
    "frames' = frames - missing (page_cache meta) offset (offset + ?e)" by auto
  moreover have "rb_len (kernel_read_buffer n) = n" by (simp add: kernel_read_buffer_def)
  ultimately show ?thesis using assms(1,3) by (intro exI [of _ pages'] exI [of _ frames']) (simp add: read_at_def)
qed

lemma write_at_ok:
  assumes "mode meta = Regular" "cache_ok (page_cache meta)"
    and fits: "offset + length bs \<le> limit * PAGE_SIZE" "offset + length bs + PAGE_SIZE \<le> usize_limit"
    and "missing (page_cache meta) offset (offset + length bs) \<le> frames"
  shows "\<exists>meta' frames' hi. write_at rd wr_direct now (kernel_write_buffer bs) offset meta frames
      = Some (Inr (length bs), meta', frames')
    \<and> next_multiple_of (offset + length bs) PAGE_SIZE = Some hi
    \<and> cache_ok (page_cache meta') \<and> mode meta' = Regular
    \<and> data_len meta' = max (data_len meta) (offset + length bs)
    \<and> (\<forall>i. view (page_cache meta') disk i =
        (if offset \<le> i \<and> i < offset + length bs then bs ! (i - offset)
         else if i div PAGE_SIZE \<in> touched offset (offset + length bs)
         then base_byte disk (page_cache meta) (data_len meta div PAGE_SIZE) (offset - offset mod PAGE_SIZE) hi i
         else view (page_cache meta) disk i))
    \<and> (\<forall>p. cached_page (page_cache meta') p \<noteq> None
        \<longleftrightarrow> p \<in> touched offset (offset + length bs) \<or> cached_page (page_cache meta) p \<noteq> None)"
proof -
  have lt: "offset + length bs < usize_limit" using fits(2) page_size_pos by linarith
  have "\<exists>hi. next_multiple_of (offset + length bs) PAGE_SIZE = Some hi"
  proof (cases "(offset + length bs) mod PAGE_SIZE = 0")
    case False
    then have "PAGE_SIZE - (offset + length bs) mod PAGE_SIZE < PAGE_SIZE" by simp
    then have "offset + length bs + (PAGE_SIZE - (offset + length bs) mod PAGE_SIZE) < usize_limit"
      using fits(2) by linarith
    then show ?thesis using False by (simp add: next_multiple_of_def uadd_def)
  qed (simp add: next_multiple_of_def)
  then obtain hi where hi: "next_multiple_of (offset + length bs) PAGE_SIZE = Some hi" by blast
  have add: "uadd offset (length bs) = Some (offset + length bs)" using lt unfolding uadd_def by simp
  let ?last = "data_len meta div PAGE_SIZE" and ?lo = "offset - offset mod PAGE_SIZE"
  from write_loop_ok [OF assms(2) _ fits(1), of 0 frames ?last ?lo hi] assms(5)
  obtain pages' frames' where
    w: "write_loop rd (kernel_write_buffer bs) ?last ?lo hi offset 0 (page_cache meta, frames)
      = Some (Inr (length bs), pages', frames')" "cache_ok pages'"
    "\<forall>i. view pages' disk i =
        (if offset \<le> i \<and> i < offset + length bs then bs ! (i - offset)
         else if i div PAGE_SIZE \<in> touched offset (offset + length bs)
         then base_byte disk (page_cache meta) ?last ?lo hi i else view (page_cache meta) disk i)"
    "\<forall>p. cached_page pages' p \<noteq> None \<longleftrightarrow> p \<in> touched offset (offset + length bs) \<or> cached_page (page_cache meta) p \<noteq> None"
    by auto
  let ?meta = "meta\<lparr> page_cache := pages', access_time := now, modify_time := now \<rparr>"
  let ?meta' = "if data_len meta < offset + length bs
     then ?meta\<lparr> data_len := offset + length bs, change_time := now \<rparr> else ?meta"
  have page: "drop_bit PAGE_SIZE_BITS (data_len meta) = ?last" "offset AND PAGE_OFFSET_MASK = offset mod PAGE_SIZE"
    by (simp_all add: page_id_div in_page_offset_mod PAGE_SIZE_def)
  have "write_at rd wr_direct now (kernel_write_buffer bs) offset meta frames = Some (Inr (length bs), ?meta', frames')"
    using assms(1) add hi w(1) unfolding write_at_def page
    by (simp add: kernel_write_buffer_def [of bs] Let_def)
  moreover have "page_cache ?meta' = pages'" "mode ?meta' = Regular"
    "data_len ?meta' = max (data_len meta) (offset + length bs)" using assms(1) by simp_all
  ultimately show ?thesis using w(2-4) hi by metis
qed

end

end
