(* ===== verification/FatMount.thy ===== *)
theory FatMount
  imports Fat
begin

text \<open>
  What mounting reads from the disk: the layout of the boot sector, the table as a list of
  entries, the allocation hints, and the sectors of the data area.  The main property is
  that a boot sector that passes the check of \<^verbatim>\<open>new_fat32_fs\<close>, with a table long enough for
  its clusters, gives a well-formed table whose entries are the little-endian words of the
  first copy of the table and whose clusters are disjoint ranges of sectors of the disk.
\<close>

section \<open>The layout of the boot sector\<close>

definition field16 :: "bytes \<Rightarrow> nat \<Rightarrow> nat" where
  "field16 src i = from_le_bytes (slice src i (i + 2))"

definition field32 :: "bytes \<Rightarrow> nat \<Rightarrow> nat" where
  "field32 src i = from_le_bytes (slice src i (i + 4))"

definition bpb_at_offsets :: "bytes \<Rightarrow> BiosParameterBlock" where
  "bpb_at_offsets src = \<lparr> system_id = slice src 3 11, sector_size = field16 src 11,
     sector_per_cluster = unat (src ! 13), reserved_sector_count = field16 src 14,
     fat_count = unat (src ! 16), root_entry_count = field16 src 17,
     sector_count = field16 src 19, media = unat (src ! 21), fat_length = field16 src 22,
     sector_per_track = field16 src 24, head_count = field16 src 26,
     hidden_sector_count = field32 src 28, total_sector_count = field32 src 32,
     fat32_length = field32 src 36, ext_flags = field16 src 40, version = field16 src 42,
     root_cluster = field32 src 44, info_sector = field16 src 48, backup_boot = field16 src 50 \<rparr>"

lemma load_fields_run: "run_state (load_fields src) 3 = (bpb_at_offsets src, 0x34)"
  by (simp add: load_fields_def read_byte_array_def read_u8_def read_u16_def read_u32_def
      State_Monad.bind_def State_Monad.return_def bpb_at_offsets_def field16_def field32_def)

lemma bpb_new_eq:
  "BiosParameterBlock_new src =
    (if field16 src 510 = 0xAA55 then Ok (bpb_at_offsets src) else Err EINVAL)"
  by (simp add: BiosParameterBlock_new_def load_fields_run field16_def)

section \<open>Reading the table\<close>

lemma push_entries_eq:
  "clusters + 2 < u32_limit \<Longrightarrow> length es \<le> clusters + 2 \<Longrightarrow>
    push_entries clusters chunks es = Some (take (clusters + 2) (es @ map from_le_bytes chunks))"
proof (induction chunks arbitrary: es)
  case (Cons c chunks)
  have total: "add32 clusters RESERVED_FAT_ENTRY_COUNT = Some (clusters + 2)"
    using Cons.prems(1) by (simp add: add32_def RESERVED_FAT_ENTRY_COUNT_def)
  have len: "as_u32 (length es) = length es" using Cons.prems by simp
  show ?case
  proof (cases "length es = clusters + 2")
    case True
    then show ?thesis using total len by simp
  next
    case False
    then have "\<not> clusters + 2 \<le> length es" using Cons.prems by simp
    moreover have "length (es @ [from_le_bytes c]) \<le> clusters + 2" using False Cons.prems by simp
    ultimately show ?thesis using Cons.IH [of "es @ [from_le_bytes c]"] Cons.prems(1) total len by simp
  qed
qed simp

definition sector_entries :: "bytes \<Rightarrow> nat list" where
  "sector_entries s = map from_le_bytes (array_chunks FAT_ENTRY_SIZE s)"

lemma take_append_take: "length xs \<le> n \<Longrightarrow> take n (take n (xs @ ys) @ zs) = take n (xs @ ys @ zs)"
  by (cases "n \<le> length (xs @ ys)") (auto simp: min_def)

lemma read_fat_eq:
  "clusters + 2 < u32_limit \<Longrightarrow> length es \<le> clusters + 2 \<Longrightarrow>
    read_fat dev clusters ids es
      = Some (take (clusters + 2) (es @ concat (map (\<lambda>s. sector_entries (dev s)) ids)))"
proof (induction ids arbitrary: es)
  case (Cons s ids)
  let ?es = "take (clusters + 2) (es @ sector_entries (dev s))"
  have "push_entries clusters (array_chunks FAT_ENTRY_SIZE (dev s)) es = Some ?es"
    using push_entries_eq [OF Cons.prems] by (simp add: sector_entries_def)
  moreover have "read_fat dev clusters ids ?es
      = Some (take (clusters + 2) (?es @ concat (map (\<lambda>s. sector_entries (dev s)) ids)))"
    by (rule Cons.IH) (use Cons.prems in simp_all)
  ultimately show ?case using take_append_take [OF Cons.prems(2)] by simp
qed simp

lemma length_array_chunks: "0 < n \<Longrightarrow> length (array_chunks n bs) = length bs div n"
proof (induction n bs rule: array_chunks.induct)
  case (1 n bs)
  then show ?case
    by (cases "length bs < n") (simp_all add: array_chunks.simps [of n bs] le_div_geq)
qed

lemma nth_array_chunks:
  "0 < n \<Longrightarrow> i < length bs div n \<Longrightarrow> array_chunks n bs ! i = slice bs (n * i) (n * i + n)"
proof (induction n bs arbitrary: i rule: array_chunks.induct)
  case (1 n bs)
  have ge: "n \<le> length bs" using 1(2,3) by (metis div_less gr_implies_not0 not_le)
  show ?case
  proof (cases i)
    case 0
    then show ?thesis using 1(2) ge by (simp add: array_chunks.simps [of n bs] slice_def)
  next
    case (Suc k)
    then have "k < length (drop n bs) div n" using 1(2,3) ge by (simp add: le_div_geq)
    then show ?thesis using 1(1) [of k] 1(2) ge Suc
      by (simp add: array_chunks.simps [of n bs] slice_def add.commute)
  qed
qed

lemma sector_entries_512:
  assumes "length s = 512"
  shows "length (sector_entries s) = 128"
    and "i < 128 \<Longrightarrow> sector_entries s ! i = field32 s (4 * i)"
  using assms nth_array_chunks [of 4 i s]
  by (simp_all add: sector_entries_def length_array_chunks FAT_ENTRY_SIZE_def field32_def)

lemma nth_concat_uniform:
  "(\<And>x. x \<in> set xs \<Longrightarrow> length (f x) = n) \<Longrightarrow> 0 < n \<Longrightarrow> i < n * length xs \<Longrightarrow>
    concat (map f xs) ! i = f (xs ! (i div n)) ! (i mod n)"
proof (induction xs arbitrary: i)
  case (Cons x xs)
  show ?case
  proof (cases "i < n")
    case True
    then show ?thesis using Cons.prems(1) [of x] by (simp add: nth_append)
  next
    case False
    then have "i div n = Suc ((i - n) div n)" "i mod n = (i - n) mod n"
      using Cons.prems(2) by (simp_all add: le_div_geq le_mod_geq)
    moreover have "concat (map f xs) ! (i - n) = f (xs ! ((i - n) div n)) ! ((i - n) mod n)"
      by (rule Cons.IH) (use Cons.prems False in auto)
    ultimately show ?thesis using False Cons.prems(1) [of x] by (simp add: nth_append)
  qed
qed simp

lemma length_concat_uniform:
  "(\<And>x. x \<in> set xs \<Longrightarrow> length (f x) = n) \<Longrightarrow> length (concat (map f xs)) = n * length xs"
  by (induction xs) auto

section \<open>The allocation hints\<close>

lemma scan_free_eq:
  "free_count m + length es < u32_limit \<Longrightarrow> c + length es < u32_limit \<Longrightarrow>
    \<exists>m'. scan_free es c m = Some m'
      \<and> free_count m' = free_count m + card {i. i < length es \<and> is_free es i}
      \<and> next_free m' \<le> next_free m
      \<and> (next_free m' = next_free m \<or> (\<exists>i < length es. is_free es i \<and> next_free m' = c + i))
      \<and> (\<forall>i < length es. is_free es i \<longrightarrow> next_free m' \<le> c + i)"
proof (induction es arbitrary: c m)
  case (Cons e es)
  have split: "{i. i < length (e # es) \<and> is_free (e # es) i}
      = (if e AND FAT_ENTRY_MASK = 0 then {0} else {}) \<union> Suc ` {i. i < length es \<and> is_free es i}"
    (is "?l = ?r")
  proof (rule set_eqI)
    fix x
    show "x \<in> ?l \<longleftrightarrow> x \<in> ?r" by (cases x) (auto simp: is_free_def image_iff)
  qed
  have fin: "finite {i. i < length es \<and> is_free es i}" by simp
  have card: "card {i. i < length (e # es) \<and> is_free (e # es) i}
      = (if e AND FAT_ENTRY_MASK = 0 then 1 else 0) + card {i. i < length es \<and> is_free es i}"
    unfolding split using fin by (auto simp: card_image)
  define m1 where "m1 = (if e AND FAT_ENTRY_MASK = 0
    then \<lparr> free_count = free_count m + 1, next_free = min (next_free m) c \<rparr> else m)"
  have step: "scan_free (e # es) c m = scan_free es (c + 1) m1"
    using Cons.prems by (simp add: m1_def add32_def)
  have "free_count m1 + length es < u32_limit" "c + 1 + length es < u32_limit"
    using Cons.prems by (simp_all add: m1_def)
  from Cons.IH [OF this] obtain m' where m': "scan_free es (c + 1) m1 = Some m'"
    "free_count m' = free_count m1 + card {i. i < length es \<and> is_free es i}"
    "next_free m' \<le> next_free m1"
    "next_free m' = next_free m1 \<or> (\<exists>i < length es. is_free es i \<and> next_free m' = c + 1 + i)"
    "\<forall>i < length es. is_free es i \<longrightarrow> next_free m' \<le> c + 1 + i" by blast
  have free0: "is_free (e # es) 0 \<longleftrightarrow> e AND FAT_ENTRY_MASK = 0"
    and frees: "is_free (e # es) (Suc i) \<longleftrightarrow> is_free es i" for i
    by (simp_all add: is_free_def)
  have "free_count m' = free_count m + card {i. i < length (e # es) \<and> is_free (e # es) i}"
    using m'(2) card by (simp add: m1_def)
  moreover have "next_free m' \<le> next_free m" using m'(3) by (auto simp: m1_def split: if_splits)
  moreover have "next_free m' = next_free m
      \<or> (\<exists>i < length (e # es). is_free (e # es) i \<and> next_free m' = c + i)"
  proof (cases "next_free m' = next_free m1")
    case True
    then show ?thesis using free0 by (auto simp: m1_def min_def intro!: exI [of _ 0] split: if_splits)
  next
    case False
    then obtain i where "i < length es" "is_free es i" "next_free m' = c + 1 + i" using m'(4) by blast
    then show ?thesis using frees by (intro disjI2 exI [of _ "Suc i"]) auto
  qed
  moreover have "next_free m' \<le> c + i" if "i < length (e # es)" "is_free (e # es) i" for i
  proof (cases i)
    case 0
    then show ?thesis using that m'(3) free0 by (simp add: m1_def)
  next
    case (Suc k)
    then show ?thesis using that m'(5) frees by auto
  qed
  ultimately show ?case using step m'(1) by auto
qed simp

text \<open>The hints after \<^verbatim>\<open>maintain_alloc_meta\<close>: the count is at most the number of data
  clusters, and it is exact whenever the information sector gave no usable hint.\<close>

definition hints_usable :: "FileAllocTable \<Rightarrow> bool" where
  "hints_usable F \<longleftrightarrow> free_count (alloc_meta F) \<le> data_clusters_count F
    \<and> 2 \<le> next_free (alloc_meta F) \<and> next_free (alloc_meta F) < data_clusters_count F + 2"

lemma free_set_drop:
  "card (free_set F) = card {i. i < length (drop 2 (fat_entries F)) \<and> is_free (drop 2 (fat_entries F)) i}"
    (is "_ = card ?R")
proof -
  have "is_free (drop 2 (fat_entries F)) i = is_free (fat_entries F) (i + 2)"
    if "i < length (fat_entries F) - 2" for i
    using that by (simp add: is_free_def add.commute)
  then have "x \<in> free_set F \<longleftrightarrow> x \<in> (\<lambda>i. i + 2) ` ?R" for x
    by (cases "\<exists>k. x = k + 2") (auto simp: free_set_def image_iff dest: le_Suc_ex)
  then have "free_set F = (\<lambda>i. i + 2) ` ?R" by blast
  moreover have "inj_on (\<lambda>i::nat. i + 2) ?R" by (simp add: inj_on_def)
  ultimately show ?thesis by (simp only: card_image)
qed

lemma card_free_set: "fat_ok F \<Longrightarrow> card (free_set F) \<le> data_clusters_count F"
proof -
  assume "fat_ok F"
  then have "free_set F \<subseteq> {2..<data_clusters_count F + 2}" by (auto simp: free_set_def fat_ok_def)
  from card_mono [OF _ this] show ?thesis by simp
qed

lemma maintain_spec:
  assumes ok: "fat_ok F"
  shows "\<exists>m. maintain_alloc_meta F = Some (F\<lparr> alloc_meta := m \<rparr>)
    \<and> free_count m \<le> data_clusters_count F
    \<and> (if hints_usable F then m = alloc_meta F else free_count m = card (free_set F))"
proof -
  have lim: "length (fat_entries F) < u32_limit" "data_clusters_count F + 2 < u32_limit"
      "data_clusters_count F < INVALID_ALLOC_META"
    using ok by (simp_all add: fat_ok_def fat_consts u32_limit_def)
  have total: "add32 (data_clusters_count F) 2 = Some (data_clusters_count F + 2)"
    using lim by (simp add: add32_def)
  let ?m = "if data_clusters_count F < free_count (alloc_meta F)
          \<or> (next_free (alloc_meta F) \<noteq> INVALID_ALLOC_META
             \<and> \<not> (2 \<le> next_free (alloc_meta F) \<and> next_free (alloc_meta F) < data_clusters_count F + 2))
       then FatAllocMeta_invalid else alloc_meta F"
  let ?scan = "scan_free (drop 2 (fat_entries F)) 2 \<lparr> free_count = 0, next_free = INVALID_ALLOC_META \<rparr>"
  have inv: "\<not> INVALID_ALLOC_META < data_clusters_count F + 2" using ok
    by (simp add: fat_ok_def fat_consts)
  have eq: "maintain_alloc_meta F =
    Option.bind (if free_count ?m = INVALID_ALLOC_META \<or> next_free ?m = INVALID_ALLOC_META
      then ?scan else Some ?m) (\<lambda>m. Some (F\<lparr> alloc_meta := m \<rparr>))"
    by (simp add: maintain_alloc_meta_def RESERVED_FAT_ENTRY_COUNT_def total Let_def)
  show ?thesis
  proof (cases "hints_usable F")
    case True
    then have "?m = alloc_meta F" "free_count (alloc_meta F) \<noteq> INVALID_ALLOC_META"
      "next_free (alloc_meta F) \<noteq> INVALID_ALLOC_META"
      using lim inv by (auto simp: hints_usable_def)
    then show ?thesis using True eq by (simp add: hints_usable_def)
  next
    case False
    then have cond: "free_count ?m = INVALID_ALLOC_META \<or> next_free ?m = INVALID_ALLOC_META"
      by (auto simp: hints_usable_def FatAllocMeta_invalid_def)
    obtain m' where m': "?scan = Some m'"
      "free_count m' = card {i. i < length (drop 2 (fat_entries F)) \<and> is_free (drop 2 (fat_entries F)) i}"
    proof -
      have "2 + length (drop 2 (fat_entries F)) < u32_limit"
        using ok lim by (simp add: fat_ok_def)
      then show thesis
        using that scan_free_eq [of "\<lparr> free_count = 0, next_free = INVALID_ALLOC_META \<rparr>"
            "drop 2 (fat_entries F)" 2] by auto
    qed
    then have "maintain_alloc_meta F = Some (F\<lparr> alloc_meta := m' \<rparr>)"
      unfolding eq if_P [OF cond] by simp
    then show ?thesis using m'(2) free_set_drop [of F] card_free_set [OF ok] False by auto
  qed
qed


section \<open>Mounting\<close>

definition fat_clusters :: "BiosParameterBlock \<Rightarrow> nat" where
  "fat_clusters b =
    (total_sector_count b - (reserved_sector_count b + fat_count b * fat32_length b)) div sector_per_cluster b"

definition data_start :: "BiosParameterBlock \<Rightarrow> nat" where
  "data_start b = reserved_sector_count b + fat_count b * fat32_length b"

lemma valid_bpb_facts:
  assumes "is_valid_fat32_bpb b = Some True"
  shows "sector_per_cluster b \<noteq> 0" "0 < fat_count b" "fat_count b * fat32_length b < u32_limit"
    "data_start b < u32_limit" "data_start b < total_sector_count b"
    "2 \<le> root_cluster b" "root_cluster b \<le> fat_clusters b + 1" "65526 \<le> fat_clusters b"
  using assms
  by (auto simp: is_valid_fat32_bpb_def bind_eq_Some_conv mul32_eq_Some add32_eq_Some Let_def
      data_start_def fat_clusters_def split: if_splits)

lemma FileAllocTable_new_eq:
  assumes valid: "is_valid_fat32_bpb b = Some True" and clusters: "fat_clusters b + 2 < u32_limit"
  shows "FileAllocTable_new dev b = maintain_alloc_meta
     \<lparr> data_start_sector_id = data_start b, cluster_len = sector_per_cluster b,
       data_clusters_count = fat_clusters b, alloc_meta = FatAllocMeta_new (dev (info_sector b)),
       fat_entries = take (fat_clusters b + 2) (concat (map (\<lambda>s. sector_entries (dev s))
         [reserved_sector_count b..<reserved_sector_count b + fat32_length b])) \<rparr>"
proof -
  note v = valid_bpb_facts [OF valid]
  have "fat32_length b \<le> fat_count b * fat32_length b" using v(2) by simp
  then have len: "fat32_length b < u32_limit" "reserved_sector_count b + fat32_length b < u32_limit"
    using v(3,4) unfolding data_start_def by linarith+
  then have "fat32_length b * SECTOR_SIZE < usize_limit"
    by (simp add: u32_limit_def usize_limit_def SECTOR_SIZE_def)
  then have steps: "mul32 (fat_count b) (fat32_length b) = Some (fat_count b * fat32_length b)"
    "add32 (reserved_sector_count b) (fat_count b * fat32_length b) = Some (data_start b)"
    "usub (total_sector_count b) (data_start b) = Some (total_sector_count b - data_start b)"
    "umul (fat32_length b) SECTOR_SIZE = Some (fat32_length b * SECTOR_SIZE)"
    "add32 (reserved_sector_count b) (fat32_length b) = Some (reserved_sector_count b + fat32_length b)"
    using v len by (simp_all add: mul32_def add32_def usub_def umul_def data_start_def)
  have count: "(total_sector_count b - data_start b) div sector_per_cluster b = fat_clusters b"
    by (simp add: fat_clusters_def data_start_def)
  show ?thesis
    using v(1) by (simp add: FileAllocTable_new_def steps count Let_def read_fat_eq [OF clusters])
qed

lemma table_entries:
  assumes dev: "\<And>s. length (dev s) = SECTOR_SIZE" and cap: "n \<le> 128 * len"
  shows "length (take n (concat (map (\<lambda>s. sector_entries (dev s)) [a..<a + len]))) = n"
    and "i < n \<Longrightarrow> take n (concat (map (\<lambda>s. sector_entries (dev s)) [a..<a + len])) ! i
      = field32 (dev (a + i div 128)) (4 * (i mod 128))"
proof -
  have len: "length (sector_entries (dev s)) = 128" for s
    using sector_entries_512(1) dev by (simp add: SECTOR_SIZE_def)
  show "length (take n (concat (map (\<lambda>s. sector_entries (dev s)) [a..<a + len]))) = n"
    using length_concat_uniform [of "[a..<a + len]" "\<lambda>s. sector_entries (dev s)" 128] len cap by simp
  assume i: "i < n"
  then have "i < 128 * len" using cap by simp
  then have "i div 128 < len" by (simp add: div_less_iff_less_mult mult.commute)
  moreover have "concat (map (\<lambda>s. sector_entries (dev s)) [a..<a + len]) ! i
      = sector_entries (dev ([a..<a + len] ! (i div 128))) ! (i mod 128)"
    using nth_concat_uniform [of "[a..<a + len]" "\<lambda>s. sector_entries (dev s)" 128 i] len
      \<open>i < 128 * len\<close> by simp
  ultimately show "take n (concat (map (\<lambda>s. sector_entries (dev s)) [a..<a + len])) ! i
      = field32 (dev (a + i div 128)) (4 * (i mod 128))"
    using i sector_entries_512(2) dev by (simp add: SECTOR_SIZE_def)
qed

text \<open>The sectors of the data clusters: inside the disk, one range per cluster, in order.\<close>

definition sectors_ok :: "FileAllocTable \<Rightarrow> nat \<Rightarrow> bool" where
  "sectors_ok F lim \<longleftrightarrow> 0 < cluster_len F
    \<and> data_start_sector_id F + data_clusters_count F * cluster_len F \<le> lim \<and> lim < u32_limit"

lemma cluster_sectors_eq:
  assumes "sectors_ok F lim" "2 \<le> c" "c < data_clusters_count F + 2"
  shows "cluster_sectors F c = Some (data_start_sector_id F + (c - 2) * cluster_len F,
      data_start_sector_id F + (c - 2) * cluster_len F + cluster_len F)"
    and "data_start_sector_id F + (c - 2) * cluster_len F + cluster_len F \<le> lim"
proof -
  have "Suc (c - 2) * cluster_len F \<le> data_clusters_count F * cluster_len F"
    using assms(2,3) by (intro mult_le_mono1) simp
  then have le: "(c - 2) * cluster_len F + cluster_len F \<le> data_clusters_count F * cluster_len F" by simp
  with assms(1) show "data_start_sector_id F + (c - 2) * cluster_len F + cluster_len F \<le> lim"
    by (simp add: sectors_ok_def)
  then show "cluster_sectors F c = Some (data_start_sector_id F + (c - 2) * cluster_len F,
      data_start_sector_id F + (c - 2) * cluster_len F + cluster_len F)"
    using assms by (simp add: cluster_sectors_def sectors_ok_def mul32_def add32_def RESERVED_FAT_ENTRY_COUNT_def)
qed

lemma cluster_sectors_disjoint:
  assumes "sectors_ok F lim" "2 \<le> c" "c < d" "d < data_clusters_count F + 2"
    and "cluster_sectors F c = Some (a, a')" "cluster_sectors F d = Some (b, b')"
  shows "a' \<le> b"
proof -
  have "Suc (c - 2) * cluster_len F \<le> (d - 2) * cluster_len F"
    using assms(2,3) by (intro mult_le_mono1) simp
  then show ?thesis
    using cluster_sectors_eq(1) [OF assms(1), of c] cluster_sectors_eq(1) [OF assms(1), of d] assms by simp
qed

text \<open>C26: mounting.  When the boot sector has its signature and passes the check, and the
  table has room for an entry per cluster (with its two reserved entries no more than the largest
  cluster number \<open>CHAIN_LIMIT\<close> allows), the table is built without a panic and is
  well-formed: one entry per cluster, each the little-endian word at its place in the first
  copy of the table; the root directory starts at one of the clusters; the free count is
  plausible, and exact when the information sector gives no usable hint; every cluster is a
  range of sectors inside the data area of the disk, and two clusters share no sector.\<close>

theorem mount_fat_correct:
  assumes dev: "\<And>s. length (dev s) = SECTOR_SIZE"
    and b: "BiosParameterBlock_new (dev BOOT_SECTOR_ID) = Ok b"
    and valid: "is_valid_fat32_bpb b = Some True"
    and room: "fat_clusters b + 2 \<le> 128 * fat32_length b" "fat_clusters b + 2 \<le> CHAIN_LIMIT"
  shows "\<exists>F. FileAllocTable_new dev b = Some F \<and> fat_ok F \<and> data_clusters_count F = fat_clusters b
    \<and> (\<forall>i < fat_clusters b + 2. fat_entries F ! i
         = field32 (dev (reserved_sector_count b + i div 128)) (4 * (i mod 128)))
    \<and> 2 \<le> root_cluster b \<and> root_cluster b < length (fat_entries F)
    \<and> free_count (alloc_meta F) \<le> data_clusters_count F
    \<and> (FatAllocMeta_new (dev (info_sector b)) = FatAllocMeta_invalid \<longrightarrow> meta_exact F)
    \<and> (\<forall>c. 2 \<le> c \<and> c < length (fat_entries F) \<longrightarrow> (\<exists>a. cluster_sectors F c = Some (a, a + sector_per_cluster b)
         \<and> data_start b \<le> a \<and> a + sector_per_cluster b \<le> total_sector_count b))
    \<and> (\<forall>c d a a' s s'. 2 \<le> c \<and> c < d \<and> d < length (fat_entries F)
         \<and> cluster_sectors F c = Some (a, a') \<and> cluster_sectors F d = Some (s, s') \<longrightarrow> a' \<le> s)"
proof -
  note v = valid_bpb_facts [OF valid]
  let ?es = "take (fat_clusters b + 2) (concat (map (\<lambda>s. sector_entries (dev s))
         [reserved_sector_count b..<reserved_sector_count b + fat32_length b]))"
  let ?F = "\<lparr> data_start_sector_id = data_start b, cluster_len = sector_per_cluster b,
       data_clusters_count = fat_clusters b, alloc_meta = FatAllocMeta_new (dev (info_sector b)),
       fat_entries = ?es \<rparr>"
  have "fat_clusters b + 2 < u32_limit" using room(2) by (simp add: fat_consts u32_limit_def)
  note new = FileAllocTable_new_eq [OF valid this]
  have len: "length ?es = fat_clusters b + 2" by (rule table_entries(1) [OF dev room(1)])
  have ok: "fat_ok ?F" unfolding fat_ok_def FileAllocTable.simps len using room(2) by simp
  from maintain_spec [OF ok] obtain m where m: "maintain_alloc_meta ?F = Some (?F\<lparr> alloc_meta := m \<rparr>)"
    "free_count m \<le> data_clusters_count ?F"
    "if hints_usable ?F then m = alloc_meta ?F else free_count m = card (free_set ?F)" by blast
  let ?G = "?F\<lparr> alloc_meta := m \<rparr>"
  have "total_sector_count b = field32 (dev BOOT_SECTOR_ID) 32"
    using b by (auto simp: bpb_new_eq bpb_at_offsets_def split: if_splits)
  then have "total_sector_count b < u32_limit"
    using dev [of BOOT_SECTOR_ID] by (simp add: field32_def from_le_bytes_4 SECTOR_SIZE_def)
  moreover have "fat_clusters b * sector_per_cluster b \<le> total_sector_count b - data_start b"
    by (simp add: fat_clusters_def data_start_def)
  ultimately have sec: "sectors_ok ?G (total_sector_count b)"
    using v(1,5) by (simp add: sectors_ok_def)
  have "fat_ok ?G" using ok by (simp add: fat_ok_def)
  moreover have "\<forall>i < fat_clusters b + 2. fat_entries ?G ! i
         = field32 (dev (reserved_sector_count b + i div 128)) (4 * (i mod 128))"
    using table_entries(2) [OF dev room(1)] by simp
  moreover have "root_cluster b < length (fat_entries ?G)" using v(7) len by simp
  moreover have "meta_exact ?G" if "FatAllocMeta_new (dev (info_sector b)) = FatAllocMeta_invalid"
  proof -
    have "\<not> hints_usable ?F" using that room(2)
      by (simp add: hints_usable_def FatAllocMeta_invalid_def fat_consts)
    moreover have "free_set ?G = free_set ?F" by (simp add: free_set_def)
    ultimately show ?thesis using m(3) by (simp add: meta_exact_def)
  qed
  moreover have "\<exists>a. cluster_sectors ?G c = Some (a, a + sector_per_cluster b)
         \<and> data_start b \<le> a \<and> a + sector_per_cluster b \<le> total_sector_count b"
    if "2 \<le> c" "c < length (fat_entries ?G)" for c
    using cluster_sectors_eq [OF sec that(1)] that(2) len by simp
  moreover have "a' \<le> s" if "2 \<le> c" "c < d" "d < length (fat_entries ?G)"
    "cluster_sectors ?G c = Some (a, a')" "cluster_sectors ?G d = Some (s, s')" for c d a a' s s'
    using cluster_sectors_disjoint [OF sec that(1,2) _ that(4,5)] that(3) len by simp
  moreover have "free_count (alloc_meta ?G) \<le> data_clusters_count ?G" using m(2) by simp
  moreover have "FileAllocTable_new dev b = Some ?G" using new m(1) by simp
  moreover have "data_clusters_count ?G = fat_clusters b" by simp
  ultimately show ?thesis using v(6) by blast
qed


text \<open>A disk of 70000 sectors: 32 reserved sectors, one table of 544 sectors, one sector per
  cluster.\<close>

definition demo_boot :: bytes where
  "demo_boot =
    [0xEB, 0x58, 0x90, 77, 83, 87, 73, 78, 52, 46, 49, 0, 2, 1, 32, 0, 1, 0, 0, 0, 0, 0xF8, 0, 0, 0, 0, 0, 0,
     0, 0, 0, 0, 0x70, 0x11, 1, 0, 0x20, 2, 0, 0, 0, 0, 0, 0, 2, 0, 0, 0, 1, 0, 6, 0]
    @ replicate 458 0 @ [0x55, 0xAA]"

definition demo_dev :: "nat \<Rightarrow> bytes" where
  "demo_dev s = (if s = 0 then demo_boot else replicate 512 0)"

lemma demo_fields:
  "bpb_at_offsets demo_boot = \<lparr> system_id = [77, 83, 87, 73, 78, 52, 46, 49], sector_size = 512,
     sector_per_cluster = 1, reserved_sector_count = 32, fat_count = 1, root_entry_count = 0,
     sector_count = 0, media = 248, fat_length = 0, sector_per_track = 0, head_count = 0,
     hidden_sector_count = 0, total_sector_count = 70000, fat32_length = 544, ext_flags = 0, version = 0,
     root_cluster = 2, info_sector = 1, backup_boot = 6 \<rparr>"
  by (simp add: bpb_at_offsets_def field16_def field32_def slice_def demo_boot_def)

lemma demo_signature: "field16 demo_boot 510 = 0xAA55"
  by (simp add: field16_def slice_def demo_boot_def)

lemma demo_bpb:
  "BiosParameterBlock_new demo_boot = Ok (bpb_at_offsets demo_boot)"
  "is_valid_fat32_bpb (bpb_at_offsets demo_boot) = Some True"
  "fat_clusters (bpb_at_offsets demo_boot) = 69424" "fat32_length (bpb_at_offsets demo_boot) = 544"
  by (simp_all add: bpb_new_eq demo_signature demo_fields fat_clusters_def is_valid_fat32_bpb_def SECTOR_SIZE_def
      is_power_of_two_def mul32_def add32_def u32_limit_def)

theorem mount_fat_correct_witness:
  "\<exists>F. FileAllocTable_new demo_dev (bpb_at_offsets demo_boot) = Some F \<and> fat_ok F
    \<and> data_clusters_count F = 69424"
proof -
  have "length (demo_dev s) = SECTOR_SIZE" for s
    by (simp add: demo_dev_def demo_boot_def SECTOR_SIZE_def)
  moreover have "BiosParameterBlock_new (demo_dev BOOT_SECTOR_ID) = Ok (bpb_at_offsets demo_boot)"
    using demo_bpb(1) by (simp add: demo_dev_def BOOT_SECTOR_ID_def)
  moreover note demo_bpb(2)
  moreover have "fat_clusters (bpb_at_offsets demo_boot) + 2 \<le> 128 * fat32_length (bpb_at_offsets demo_boot)"
    "fat_clusters (bpb_at_offsets demo_boot) + 2 \<le> CHAIN_LIMIT"
    by (simp_all add: demo_bpb CHAIN_LIMIT_def)
  ultimately have "\<exists>F. FileAllocTable_new demo_dev (bpb_at_offsets demo_boot) = Some F \<and> fat_ok F
    \<and> data_clusters_count F = fat_clusters (bpb_at_offsets demo_boot)"
    using mount_fat_correct [of demo_dev "bpb_at_offsets demo_boot"] by metis
  then show ?thesis by (simp add: demo_bpb(3))
qed

text \<open>A table shorter than the number of clusters asks for passes mounting with a warning at
  most, and the first allocation that reaches its end panics.\<close>

lemma short_table_panics:
  assumes "data_clusters_count F + 2 < u32_limit" "length (fat_entries F) < data_clusters_count F + 2"
  shows "alloc_cluster prev F = None"
  using assms by (simp add: alloc_cluster_def find_free_cluster_def add32_def RESERVED_FAT_ENTRY_COUNT_def)

end
