(* ===== verification/FatVfs.thy ===== *)
theory FatVfs
  imports Inode FatMount
begin

text \<open>
  The FAT32 file system behind the virtual file system: \<^verbatim>\<open>crates/fs/fat32_vfs\<close>.  A file and
  a directory keep the clusters of their chain, read from the table when they are looked
  up.  The table is shared by all of them and is passed as a state; the static counter of
  inode numbers is passed as well.  The clock is the argument \<^verbatim>\<open>now\<close>.

  The contents of a file are the bytes of the sectors of its clusters, in order; the main
  property is that reading through the page cache delivers them.
\<close>

section \<open>Files\<close>

record FatFile =
  ff_meta :: InodeMeta
  ff_clusters :: "nat list"

definition SECTOR_COUNT_PER_PAGE :: nat where
  "SECTOR_COUNT_PER_PAGE = PAGE_SIZE div SECTOR_SIZE"

text \<open>Collecting the chain: a walk that never ends and one that leaves the table both give
  no list.\<close>

definition collect_chain :: "FileAllocTable \<Rightarrow> nat \<Rightarrow> nat list option" where
  "collect_chain F c = (case cluster_chain F c of Some r \<Rightarrow> r | None \<Rightarrow> None)"

definition FatFile_from_dir_entry ::
  "('d, 't) chrono \<Rightarrow> FileAllocTable \<Rightarrow> DirEntry \<Rightarrow> nat \<Rightarrow> (FatFile \<times> nat) option" where
  "FatFile_from_dir_entry ch F d inode_number = do {
     _ \<leftarrow> guard (\<not> is_dir d);
     clusters \<leftarrow> collect_chain F (first_cluster_id d);
     _ \<leftarrow> guard (file_size d \<le> length clusters * cluster_len F * SECTOR_SIZE);
     let (meta, inode_number') = InodeMeta_new Regular inode_number;
     Some (\<lparr> ff_meta = meta\<lparr> data_len := file_size d, access_time := entry_access_time ch d,
               change_time := entry_create_time ch d, modify_time := entry_modify_time ch d \<rparr>,
             ff_clusters = clusters \<rparr>, inode_number')
   }"

definition FatFile_create ::
  "TimeSpec \<Rightarrow> FileAllocTable \<times> nat \<Rightarrow> ((errno + FatFile) \<times> FileAllocTable \<times> nat) option" where
  "FatFile_create now s = (case s of (F, inode_number) \<Rightarrow> do {
     (r, F') \<leftarrow> alloc_cluster None F;
     (case r of
        None \<Rightarrow> Some (Inl ENOSPC, F', inode_number)
      | Some allocated_cluster \<Rightarrow>
          (let (meta, inode_number') = InodeMeta_new Regular inode_number
           in Some (Inr \<lparr> ff_meta = meta\<lparr> access_time := now, change_time := now, modify_time := now \<rparr>,
                           ff_clusters = [allocated_cluster] \<rparr>, F', inode_number')))
   })"

definition page_id_to_cluster_pos :: "FileAllocTable \<Rightarrow> nat \<Rightarrow> (nat \<times> nat) option" where
  "page_id_to_cluster_pos F page_id = do {
     n \<leftarrow> umul page_id SECTOR_COUNT_PER_PAGE;
     let sector_index = as_u32 n;
     _ \<leftarrow> guard (cluster_len F \<noteq> 0);
     Some (sector_index div cluster_len F, sector_index mod cluster_len F)
   }"

text \<open>The sectors of one cluster, until the page is full.\<close>

fun read_sectors :: "(nat \<Rightarrow> bytes) \<Rightarrow> nat list \<Rightarrow> nat \<Rightarrow> bytes \<Rightarrow> (bytes \<times> nat \<times> bool) option" where
  "read_sectors dev [] n_sectors page = Some (page, n_sectors, False)"
| "read_sectors dev (sector_id # ids) n_sectors page =
    (if (n_sectors + 1) * SECTOR_SIZE \<le> length page
     then (let page' = take (n_sectors * SECTOR_SIZE) page @ dev sector_id
                 @ drop ((n_sectors + 1) * SECTOR_SIZE) page
       in if SECTOR_COUNT_PER_PAGE \<le> n_sectors + 1 then Some (page', n_sectors + 1, True)
          else read_sectors dev ids (n_sectors + 1) page')
     else None)"

function read_page_loop ::
  "(nat \<Rightarrow> bytes) \<Rightarrow> FileAllocTable \<Rightarrow> nat list \<Rightarrow> nat \<Rightarrow> nat \<Rightarrow> nat \<Rightarrow> bytes \<Rightarrow> (bytes \<times> nat) option" where
  "read_page_loop dev F clusters cluster_index sector_offset n_sectors page =
    (if length clusters \<le> cluster_index then Some (page, n_sectors)
     else (case cluster_sectors F (clusters ! cluster_index) of
         None \<Rightarrow> None
       | Some (start, end_sector) \<Rightarrow>
           (case add32 start sector_offset of
              None \<Rightarrow> None
            | Some start' \<Rightarrow>
                (case read_sectors dev [start'..<end_sector] n_sectors page of
                   None \<Rightarrow> None
                 | Some (page', n_sectors', True) \<Rightarrow> Some (page', n_sectors')
                 | Some (page', n_sectors', False) \<Rightarrow>
                     read_page_loop dev F clusters (cluster_index + 1) 0 n_sectors' page'))))"
  by pat_completeness auto

termination
  by (relation "measure (\<lambda>(dev, F, clusters, cluster_index, _). length clusters - cluster_index)") auto

declare read_page_loop.simps [simp del]

definition read_page ::
  "(nat \<Rightarrow> bytes) \<Rightarrow> FileAllocTable \<Rightarrow> nat list \<Rightarrow> bytes \<Rightarrow> nat \<Rightarrow> (bytes \<times> nat) option" where
  "read_page dev F clusters page page_id = do {
     (cluster_index, sector_offset) \<leftarrow> page_id_to_cluster_pos F page_id;
     _ \<leftarrow> guard (length page = PAGE_SIZE);
     (page', n_sectors) \<leftarrow> read_page_loop dev F clusters cluster_index sector_offset 0 page;
     Some (page', n_sectors * SECTOR_SIZE)
   }"

text \<open>\<^verbatim>\<open>read_inode_at\<close> on a kernel buffer, as the cache calls it.\<close>

definition fat_read_inode_at :: "(nat \<Rightarrow> bytes) \<Rightarrow> FileAllocTable \<Rightarrow> nat list \<Rightarrow> backend_read" where
  "fat_read_inode_at dev F clusters offset buf =
    (if length buf = PAGE_SIZE \<and> offset AND PAGE_OFFSET_MASK = 0
     then (case read_page dev F clusters buf (drop_bit PAGE_SIZE_BITS offset) of
             None \<Rightarrow> (buf, Inl Panic)
           | Some (buf', n) \<Rightarrow> (buf', Inr n))
     else (buf, Inl Panic))"

definition fat_truncate ::
  "TimeSpec \<Rightarrow> nat \<Rightarrow> InodeMeta \<Rightarrow> nat list \<times> FileAllocTable
    \<Rightarrow> ((fault + unit) \<times> InodeMeta \<times> nat list \<times> FileAllocTable) option" where
  "fat_truncate now len meta s = (case s of (clusters, F) \<Rightarrow>
    (if len < data_len meta
     then do {
       _ \<leftarrow> guard (bytes_per_cluster F \<noteq> 0);
       let new_cluster_count = div_ceil len (bytes_per_cluster F);
       _ \<leftarrow> guard (new_cluster_count \<le> length clusters);
       F' \<leftarrow> free_clusters (drop new_cluster_count clusters)
              (if new_cluster_count = 0 then None else Some (clusters ! (new_cluster_count - 1))) F;
       Some (Inr (), meta\<lparr> data_len := len, change_time := now, modify_time := now \<rparr>,
             take new_cluster_count clusters, F')
     }
     else if data_len meta < len then None
     else Some (Inr (), meta, clusters, F)))"

section \<open>Directories\<close>

record FatDir =
  fd_meta :: InodeMeta
  fd_clusters :: "nat list"

definition clusters_disk_space :: "FileAllocTable \<Rightarrow> nat \<Rightarrow> nat option" where
  "clusters_disk_space F n = do { a \<leftarrow> umul n (cluster_len F); umul a SECTOR_SIZE }"

definition FatDir_new_root :: "FileAllocTable \<Rightarrow> nat \<Rightarrow> nat \<Rightarrow> (FatDir \<times> nat) option" where
  "FatDir_new_root F first_root_cluster_id inode_number = do {
     _ \<leftarrow> guard (2 \<le> first_root_cluster_id);
     clusters \<leftarrow> collect_chain F first_root_cluster_id;
     let (meta, inode_number') = InodeMeta_new Dir inode_number;
     len \<leftarrow> clusters_disk_space F (length clusters);
     Some (\<lparr> fd_meta = meta\<lparr> data_len := len \<rparr>, fd_clusters = clusters \<rparr>, inode_number')
   }"

definition FatDir_from_dir_entry ::
  "('d, 't) chrono \<Rightarrow> FileAllocTable \<Rightarrow> DirEntry \<Rightarrow> nat \<Rightarrow> (FatDir \<times> nat) option" where
  "FatDir_from_dir_entry ch F d inode_number = do {
     _ \<leftarrow> guard (is_dir d);
     let (meta, inode_number') = InodeMeta_new Dir inode_number;
     clusters \<leftarrow> collect_chain F (first_cluster_id d);
     len \<leftarrow> clusters_disk_space F (length clusters);
     Some (\<lparr> fd_meta = meta\<lparr> data_len := len, access_time := entry_access_time ch d,
               change_time := entry_create_time ch d, modify_time := entry_modify_time ch d \<rparr>,
             fd_clusters = clusters \<rparr>, inode_number')
   }"

definition FatDir_create ::
  "TimeSpec \<Rightarrow> FileAllocTable \<times> nat \<Rightarrow> ((errno + FatDir) \<times> FileAllocTable \<times> nat) option" where
  "FatDir_create now s = (case s of (F, inode_number) \<Rightarrow> do {
     (r, F') \<leftarrow> alloc_cluster None F;
     (case r of
        None \<Rightarrow> Some (Inl ENOSPC, F', inode_number)
      | Some allocated_cluster \<Rightarrow> do {
          let (meta, inode_number') = InodeMeta_new Dir inode_number;
          len \<leftarrow> clusters_disk_space F' 1;
          Some (Inr \<lparr> fd_meta = meta\<lparr> data_len := len, access_time := now, change_time := now, modify_time := now \<rparr>,
                      fd_clusters = [allocated_cluster] \<rparr>, F', inode_number')
        })
   })"

datatype fat_inode = FatDirInode FatDir | FatFileInode FatFile

fun lookup_items ::
  "('d, 't) chrono \<Rightarrow> FileAllocTable \<Rightarrow> string \<Rightarrow> nat \<Rightarrow> DirEntry res list \<Rightarrow> (fat_inode option \<times> nat) option" where
  "lookup_items ch F name inode_number [] = Some (None, inode_number)"
| "lookup_items ch F name inode_number (Inl Panic # items) = None"
| "lookup_items ch F name inode_number (Inl (Errno e) # items) = lookup_items ch F name inode_number items"
| "lookup_items ch F name inode_number (Inr d # items) =
    (if entry_name d \<noteq> name then lookup_items ch F name inode_number items
     else if is_dir d
     then map_option (\<lambda>(x, n). (Some (FatDirInode x), n)) (FatDir_from_dir_entry ch F d inode_number)
     else map_option (\<lambda>(x, n). (Some (FatFileInode x), n)) (FatFile_from_dir_entry ch F d inode_number))"

definition fat_lookup ::
  "('d, 't) chrono \<Rightarrow> (nat list \<Rightarrow> string option) \<Rightarrow> (nat \<Rightarrow> bytes) \<Rightarrow> FileAllocTable \<Rightarrow> TimeSpec \<Rightarrow> string
    \<Rightarrow> FatDir \<Rightarrow> nat \<Rightarrow> (fat_inode option \<times> FatDir \<times> nat) option" where
  "fat_lookup ch u16 dev F now name dir inode_number =
    map_option (\<lambda>(r, n). (r, dir\<lparr> fd_meta := (fd_meta dir)\<lparr> access_time := now \<rparr> \<rparr>, n))
      (lookup_items ch F name inode_number (dir_entry_iter u16 dev F (fd_clusters dir)))"

text \<open>\<^verbatim>\<open>read_dir\<close> adds to the children of the directory entry every name that is not there
  yet; the new children are numbered in the order of the iteration.\<close>

fun read_dir_items ::
  "('d, 't) chrono \<Rightarrow> FileAllocTable \<Rightarrow> string set \<Rightarrow> nat \<Rightarrow> DirEntry res list \<Rightarrow> ((string \<times> fat_inode) list \<times> nat) option" where
  "read_dir_items ch F present inode_number [] = Some ([], inode_number)"
| "read_dir_items ch F present inode_number (Inl Panic # items) = None"
| "read_dir_items ch F present inode_number (Inl (Errno e) # items) = read_dir_items ch F present inode_number items"
| "read_dir_items ch F present inode_number (Inr d # items) =
    (case take_name d of (name, d') \<Rightarrow>
      if name \<in> present then read_dir_items ch F present inode_number items
      else do {
        (node, n) \<leftarrow> (if is_dir d'
          then map_option (\<lambda>(x, n). (FatDirInode x, n)) (FatDir_from_dir_entry ch F d' inode_number)
          else map_option (\<lambda>(x, n). (FatFileInode x, n)) (FatFile_from_dir_entry ch F d' inode_number));
        (rest, n') \<leftarrow> read_dir_items ch F (insert name present) n items;
        Some ((name, node) # rest, n')
      })"

text \<open>\<^verbatim>\<open>new_fat32_fs\<close>: the table and the root directory of a device.\<close>

definition new_fat32_fs :: "(nat \<Rightarrow> bytes) \<Rightarrow> nat \<Rightarrow> (FileAllocTable \<times> FatDir \<times> nat) res" where
  "new_fat32_fs dev inode_number =
    rbind (BiosParameterBlock_new (dev BOOT_SECTOR_ID)) (\<lambda>bpb.
    rbind (unwrap (is_valid_fat32_bpb bpb)) (\<lambda>valid.
    if \<not> valid then Err EINVAL
    else rbind (unwrap (FileAllocTable_new dev bpb)) (\<lambda>F.
         rbind (unwrap (FatDir_new_root F (root_cluster bpb) inode_number)) (\<lambda>(root, n).
         Ok (F, root, n)))))"


section \<open>The contents of a chain\<close>

definition chain_sectors :: "FileAllocTable \<Rightarrow> nat list \<Rightarrow> nat list" where
  "chain_sectors F cs = concat (map (\<lambda>c. [data_start_sector_id F + (c - 2) * cluster_len F
     ..<data_start_sector_id F + (c - 2) * cluster_len F + cluster_len F]) cs)"

definition chain_bytes :: "(nat \<Rightarrow> bytes) \<Rightarrow> FileAllocTable \<Rightarrow> nat list \<Rightarrow> bytes" where
  "chain_bytes dev F cs = concat (map dev (chain_sectors F cs))"

definition chain_byte :: "(nat \<Rightarrow> bytes) \<Rightarrow> FileAllocTable \<Rightarrow> nat list \<Rightarrow> nat \<Rightarrow> 8 word" where
  "chain_byte dev F cs i = (if i < length (chain_bytes dev F cs) then chain_bytes dev F cs ! i else 0)"

definition chain_ok :: "(nat \<Rightarrow> bytes) \<Rightarrow> FileAllocTable \<Rightarrow> nat list \<Rightarrow> bool" where
  "chain_ok dev F cs \<longleftrightarrow> (\<forall>s. length (dev s) = SECTOR_SIZE) \<and> (\<exists>total. sectors_ok F total)
    \<and> (\<forall>c \<in> set cs. 2 \<le> c \<and> c < data_clusters_count F + 2)"

lemma SPP_8: "SECTOR_COUNT_PER_PAGE = 8"
  by (simp add: SECTOR_COUNT_PER_PAGE_def PAGE_SIZE_def SECTOR_SIZE_def)

lemma length_concat_dev:
  "(\<And>s. length (dev s) = SECTOR_SIZE) \<Longrightarrow> length (concat (map dev xs)) = length xs * SECTOR_SIZE"
  using length_concat_uniform [of xs dev SECTOR_SIZE] by (simp add: mult.commute)

lemma drop_past: "length xs = b \<Longrightarrow> b \<le> c \<Longrightarrow> drop c (xs @ drop b ys) = drop c ys"
  by simp

text \<open>Filling a page from a list of sectors.\<close>

lemma read_sectors_eq:
  assumes dev: "\<And>s. length (dev s) = SECTOR_SIZE" and "length page = PAGE_SIZE" "k < 8"
  shows "read_sectors dev ids k page =
    (let n = min (length ids) (8 - k)
     in Some (take (k * SECTOR_SIZE) page @ concat (map dev (take n ids)) @ drop ((k + n) * SECTOR_SIZE) page,
              k + n, k + n = 8))"
  using assms(2,3)
proof (induction ids arbitrary: k page)
  case Nil
  then show ?case by simp
next
  case (Cons s ids)
  let ?page = "take (k * SECTOR_SIZE) page @ dev s @ drop ((k + 1) * SECTOR_SIZE) page"
  have fits: "(k + 1) * SECTOR_SIZE \<le> length page"
    using Cons.prems by (simp add: PAGE_SIZE_def SECTOR_SIZE_def)
  then have len: "length ?page = PAGE_SIZE" "k * SECTOR_SIZE \<le> length page"
    using Cons.prems dev by (simp_all add: PAGE_SIZE_def SECTOR_SIZE_def)
  show ?case
  proof (cases "k = 7")
    case True
    then show ?thesis using fits by (simp add: SPP_8 Let_def)
  next
    case False
    then have k: "k + 1 < 8" using Cons.prems by simp
    let ?n = "min (length ids) (8 - (k + 1))"
    have tk: "take ((k + 1) * SECTOR_SIZE) ?page = take (k * SECTOR_SIZE) page @ dev s"
      using len(2) dev by (simp add: SECTOR_SIZE_def)
    have dr: "drop ((k + 1 + ?n) * SECTOR_SIZE) ?page = drop ((k + 1 + ?n) * SECTOR_SIZE) page"
      using drop_past [of "take (k * SECTOR_SIZE) page @ dev s" "(k + 1) * SECTOR_SIZE" "(k + 1 + ?n) * SECTOR_SIZE" page]
        len(2) dev by simp
    have "read_sectors dev (s # ids) k page = read_sectors dev ids (k + 1) ?page"
      using fits k by (simp add: SPP_8 Let_def)
    also have "\<dots> = Some (take ((k + 1) * SECTOR_SIZE) ?page @ concat (map dev (take ?n ids))
        @ drop ((k + 1 + ?n) * SECTOR_SIZE) ?page, k + 1 + ?n, k + 1 + ?n = 8)"
      using Cons.IH [OF len(1) k] by (simp only: Let_def)
    finally have eq: "read_sectors dev (s # ids) k page = Some (take (k * SECTOR_SIZE) page @ dev s
        @ concat (map dev (take ?n ids)) @ drop ((k + 1 + ?n) * SECTOR_SIZE) page, k + 1 + ?n, k + 1 + ?n = 8)"
      unfolding tk dr by simp
    have "min (length (s # ids)) (8 - k) = Suc ?n" using k by simp
    then show ?thesis unfolding eq Let_def by simp
  qed
qed


lemma length_chain_sectors: "length (chain_sectors F cs) = length cs * cluster_len F"
  by (induction cs) (simp_all add: chain_sectors_def)

lemma drop_chain_sectors:
  assumes "i < length cs" "j < cluster_len F"
  shows "drop (i * cluster_len F + j) (chain_sectors F cs) =
    [data_start_sector_id F + (cs ! i - 2) * cluster_len F + j
       ..<data_start_sector_id F + (cs ! i - 2) * cluster_len F + cluster_len F]
    @ drop ((i + 1) * cluster_len F) (chain_sectors F cs)"
  using assms(1)
proof (induction cs arbitrary: i)
  case (Cons c cs)
  show ?case
  proof (cases i)
    case 0
    then show ?thesis using assms(2) by (simp add: chain_sectors_def)
  next
    case (Suc k)
    then have "k < length cs" using Cons.prems by simp
    from Cons.IH [OF this] Suc show ?thesis
      by (simp add: chain_sectors_def add.commute add.left_commute)
  qed
qed simp

lemma read_page_loop_eq:
  assumes ok: "chain_ok dev F cs" and page: "length page = PAGE_SIZE" and k: "k < 8" and j: "j < cluster_len F"
  shows "read_page_loop dev F cs i j k page =
    (let ids = drop (i * cluster_len F + j) (chain_sectors F cs); n = min (length ids) (8 - k)
     in Some (take (k * SECTOR_SIZE) page @ concat (map dev (take n ids)) @ drop ((k + n) * SECTOR_SIZE) page, k + n))"
  using page k j
proof (induction "length cs - i" arbitrary: i j k page)
  case 0
  then have "length cs \<le> i" by simp
  moreover from this have "length (chain_sectors F cs) \<le> i * cluster_len F + j"
    unfolding length_chain_sectors by (simp add: trans_le_add1)
  ultimately show ?case by (simp add: read_page_loop.simps Let_def)
next
  case (Suc m)
  then have i: "i < length cs" by simp
  have dev: "\<And>s. length (dev s) = SECTOR_SIZE" using ok by (simp add: chain_ok_def)
  obtain total where sec: "sectors_ok F total" using ok by (auto simp: chain_ok_def)
  have c: "2 \<le> cs ! i" "cs ! i < data_clusters_count F + 2" using ok i by (auto simp: chain_ok_def)
  define a where "a = data_start_sector_id F + (cs ! i - 2) * cluster_len F"
  have cl: "cluster_sectors F (cs ! i) = Some (a, a + cluster_len F)" "a + cluster_len F \<le> total" "total < u32_limit"
    using cluster_sectors_eq [OF sec c] sec by (simp_all add: a_def sectors_ok_def)
  then have add: "add32 a j = Some (a + j)" using Suc.prems(3) by (simp add: add32_def)
  define ids1 where "ids1 = [a + j..<a + cluster_len F]"
  define rest where "rest = drop ((i + 1) * cluster_len F) (chain_sectors F cs)"
  have ids: "drop (i * cluster_len F + j) (chain_sectors F cs) = ids1 @ rest"
    using drop_chain_sectors [OF i Suc.prems(3)] by (simp add: ids1_def rest_def a_def)
  define n where "n = min (length ids1) (8 - k)"
  define page1 where "page1 = take (k * SECTOR_SIZE) page @ concat (map dev (take n ids1)) @ drop ((k + n) * SECTOR_SIZE) page"
  have rs: "read_sectors dev ids1 k page = Some (page1, k + n, k + n = 8)"
    using read_sectors_eq [OF dev Suc.prems(1,2)] by (simp add: page1_def n_def Let_def)
  have kn: "(k + n) * SECTOR_SIZE \<le> PAGE_SIZE"
    using Suc.prems(2) by (simp add: n_def PAGE_SIZE_def SECTOR_SIZE_def)
  have len1: "length page1 = PAGE_SIZE"
    using kn Suc.prems(1) by (simp add: page1_def length_concat_dev [OF dev] n_def add_mult_distrib)
  show ?case
  proof (cases "k + n = 8")
    case True
    have "read_page_loop dev F cs i j k page = Some (page1, k + n)"
      using i cl(1) add rs True by (simp add: read_page_loop.simps [of dev F cs i] ids1_def)
    moreover have "n = 8 - k" "n \<le> length ids1" using True by (simp_all add: n_def)
    moreover from this have "min (length (ids1 @ rest)) (8 - k) = n" by simp
    ultimately show ?thesis unfolding ids Let_def page1_def by simp
  next
    case False
    then have k1: "k + n < 8" and n: "n = length ids1" using Suc.prems(2) by (auto simp: n_def)
    have "0 < cluster_len F" using Suc.prems(3) by simp
    moreover have "m = length cs - (i + 1)" using Suc.hyps(2) by simp
    ultimately have IH: "read_page_loop dev F cs (i + 1) 0 (k + n) page1 =
      (let n' = min (length rest) (8 - (k + n))
       in Some (take ((k + n) * SECTOR_SIZE) page1 @ concat (map dev (take n' rest))
            @ drop ((k + n + n') * SECTOR_SIZE) page1, k + n + n'))"
      using Suc.hyps(1) [OF _ len1 k1] by (simp add: rest_def Let_def)
    define n' where "n' = min (length rest) (8 - (k + n))"
    have tk: "take ((k + n) * SECTOR_SIZE) page1 = take (k * SECTOR_SIZE) page @ concat (map dev ids1)"
      using kn Suc.prems(1) n
      by (simp add: page1_def length_concat_dev [OF dev] add_mult_distrib)
    have dr: "drop ((k + n + n') * SECTOR_SIZE) page1 = drop ((k + n + n') * SECTOR_SIZE) page"
      using drop_past [of "take (k * SECTOR_SIZE) page @ concat (map dev (take n ids1))" "(k + n) * SECTOR_SIZE"
          "(k + n + n') * SECTOR_SIZE" page] kn Suc.prems(1) n
      by (simp add: page1_def length_concat_dev [OF dev] add_mult_distrib)
    have "read_page_loop dev F cs i j k page = read_page_loop dev F cs (i + 1) 0 (k + n) page1"
      using i cl(1) add rs False by (simp add: read_page_loop.simps [of dev F cs i] ids1_def)
    also have "\<dots> = Some (take (k * SECTOR_SIZE) page @ concat (map dev ids1) @ concat (map dev (take n' rest))
        @ drop ((k + n + n') * SECTOR_SIZE) page, k + n + n')"
      unfolding IH Let_def n'_def [symmetric] tk dr by simp
    finally have eq: "read_page_loop dev F cs i j k page = Some (take (k * SECTOR_SIZE) page @ concat (map dev ids1)
        @ concat (map dev (take n' rest)) @ drop ((k + n + n') * SECTOR_SIZE) page, k + n + n')" .
    have "min (length (ids1 @ rest)) (8 - k) = n + n'" using n k1 by (simp add: n'_def)
    then show ?thesis unfolding ids eq Let_def using n by (simp add: add.assoc)
  qed
qed


lemma drop_concat_dev:
  "(\<And>s. length (dev s) = n) \<Longrightarrow> drop (a * n) (concat (map dev xs)) = concat (map dev (drop a xs))"
proof (induction xs arbitrary: a)
  case (Cons x xs)
  then show ?case by (cases a) simp_all
qed simp

lemma take_concat_dev:
  "(\<And>s. length (dev s) = n) \<Longrightarrow> take (a * n) (concat (map dev xs)) = concat (map dev (take a xs))"
proof (induction xs arbitrary: a)
  case (Cons x xs)
  then show ?case by (cases a) simp_all
qed simp

text \<open>A file of the FAT32 file system keeps the contract of the page cache, for the pages
  below 2 to the power 29 (the number of a sector of the file is a \<^verbatim>\<open>u32\<close>).\<close>

definition fat_page_limit :: "(nat \<Rightarrow> bytes) \<Rightarrow> FileAllocTable \<Rightarrow> nat list \<Rightarrow> nat" where
  "fat_page_limit dev F cs = (if chain_ok dev F cs then 536870912 else 0)"

lemma read_page_contents:
  assumes ok: "chain_ok dev F cs" and p: "p < 536870912"
  shows "\<exists>n. read_page dev F cs (replicate PAGE_SIZE 0) p
    = Some (map (\<lambda>j. chain_byte dev F cs (p * PAGE_SIZE + j)) [0..<PAGE_SIZE], n)"
proof -
  have dev: "\<And>s. length (dev s) = SECTOR_SIZE" using ok by (simp add: chain_ok_def)
  have pos: "0 < cluster_len F" using ok by (auto simp: chain_ok_def sectors_ok_def)
  have sec: "umul p SECTOR_COUNT_PER_PAGE = Some (p * 8)" "as_u32 (p * 8) = p * 8"
    using p by (simp_all add: umul_def SPP_8 usize_limit_def u32_limit_def)
  have pos_eq: "page_id_to_cluster_pos F p = Some (p * 8 div cluster_len F, p * 8 mod cluster_len F)"
    using sec pos by (simp add: page_id_to_cluster_pos_def Let_def)
  define ids where "ids = drop (p * 8) (chain_sectors F cs)"
  define n where "n = min (length ids) 8"
  have "p * 8 div cluster_len F * cluster_len F + p * 8 mod cluster_len F = p * 8" by simp
  then have loop: "read_page_loop dev F cs (p * 8 div cluster_len F) (p * 8 mod cluster_len F) 0 (replicate PAGE_SIZE 0)
      = Some (concat (map dev (take n ids)) @ replicate (PAGE_SIZE - n * SECTOR_SIZE) 0, n)"
    using read_page_loop_eq [OF ok, of "replicate PAGE_SIZE 0" 0 "p * 8 mod cluster_len F" "p * 8 div cluster_len F"] pos
    by (simp add: ids_def n_def Let_def)
  define B where "B = chain_bytes dev F cs"
  have lenB: "length B = length (chain_sectors F cs) * SECTOR_SIZE"
    unfolding B_def chain_bytes_def by (rule length_concat_dev [OF dev])
  have "p * PAGE_SIZE = p * 8 * SECTOR_SIZE" by (simp add: PAGE_SIZE_def SECTOR_SIZE_def)
  then have part: "concat (map dev (take n ids)) = take (n * SECTOR_SIZE) (drop (p * PAGE_SIZE) B)"
    unfolding B_def chain_bytes_def ids_def
    by (simp only: drop_concat_dev [OF dev] take_concat_dev [OF dev])
  have len: "length (take (n * SECTOR_SIZE) (drop (p * PAGE_SIZE) B)) = n * SECTOR_SIZE"
    unfolding part [symmetric] length_concat_dev [OF dev] by (simp add: n_def)
  have n8: "n * SECTOR_SIZE \<le> PAGE_SIZE" by (simp add: n_def PAGE_SIZE_def SECTOR_SIZE_def)
  have "concat (map dev (take n ids)) @ replicate (PAGE_SIZE - n * SECTOR_SIZE) 0
      = map (\<lambda>j. chain_byte dev F cs (p * PAGE_SIZE + j)) [0..<PAGE_SIZE]"
  proof (rule nth_equalityI)
    show "length (concat (map dev (take n ids)) @ replicate (PAGE_SIZE - n * SECTOR_SIZE) 0)
        = length (map (\<lambda>j. chain_byte dev F cs (p * PAGE_SIZE + j)) [0..<PAGE_SIZE])"
      using len n8 unfolding part by simp
  next
    fix j assume "j < length (concat (map dev (take n ids)) @ replicate (PAGE_SIZE - n * SECTOR_SIZE) 0)"
    then have j: "j < PAGE_SIZE" using len n8 unfolding part by simp
    show "(concat (map dev (take n ids)) @ replicate (PAGE_SIZE - n * SECTOR_SIZE) 0) ! j
        = map (\<lambda>j. chain_byte dev F cs (p * PAGE_SIZE + j)) [0..<PAGE_SIZE] ! j"
    proof (cases "j < n * SECTOR_SIZE")
      case True
      then have "p * PAGE_SIZE + j < length B" using len by simp
      then show ?thesis using True j len unfolding part
        by (simp add: nth_append chain_byte_def B_def [symmetric])
    next
      case False
      then have "n < 8" using j by (auto simp: PAGE_SIZE_def SECTOR_SIZE_def)
      then have "n = length (chain_sectors F cs) - p * 8" by (simp add: n_def ids_def)
      then have "length (chain_sectors F cs) \<le> p * 8 + n" by simp
      then have "length B \<le> (p * 8 + n) * SECTOR_SIZE" unfolding lenB by (rule mult_le_mono1)
      then have "length B \<le> p * PAGE_SIZE + j"
        using False by (simp add: PAGE_SIZE_def SECTOR_SIZE_def)
      then show ?thesis using False j len n8 unfolding part
        by (simp add: nth_append chain_byte_def B_def [symmetric])
    qed
  qed
  then show ?thesis using loop pos_eq by (simp add: read_page_def)
qed

interpretation fat: page_backend "fat_read_inode_at dev F cs" "chain_byte dev F cs" "fat_page_limit dev F cs"
  for dev F cs
proof
  show "fat_page_limit dev F cs * PAGE_SIZE \<le> usize_limit"
    by (simp add: fat_page_limit_def PAGE_SIZE_def usize_limit_def)
  fix p assume "p < fat_page_limit dev F cs"
  then have p: "chain_ok dev F cs" "p < 536870912" by (simp_all add: fat_page_limit_def split: if_splits)
  have "p * PAGE_SIZE AND PAGE_OFFSET_MASK = 0" "drop_bit PAGE_SIZE_BITS (p * PAGE_SIZE) = p"
    by (simp_all add: in_page_offset_mod page_id_div PAGE_SIZE_def)
  then show "\<exists>n. fat_read_inode_at dev F cs (p * PAGE_SIZE) (replicate PAGE_SIZE 0)
      = (map (\<lambda>j. chain_byte dev F cs (p * PAGE_SIZE + j)) [0..<PAGE_SIZE], Inr n)"
    using read_page_contents [OF p] by (auto simp: fat_read_inode_at_def)
qed


section \<open>Reading and writing a file\<close>

lemma missing_bound: "missing pages a b \<le> (b - a) div PAGE_SIZE + 2"
proof (cases "a < b")
  case True
  have sub: "touched a b \<subseteq> {a div PAGE_SIZE..(b - 1) div PAGE_SIZE}"
    by (auto simp: touched_def div_le_mono)
  have "(b - 1) div PAGE_SIZE \<le> (a + (b - a)) div PAGE_SIZE" using True by (intro div_le_mono) simp
  also have "\<dots> \<le> a div PAGE_SIZE + (b - a) div PAGE_SIZE + 1"
  proof -
    have "a mod PAGE_SIZE < PAGE_SIZE" "(b - a) mod PAGE_SIZE < PAGE_SIZE" by simp_all
    then have "a mod PAGE_SIZE + (b - a) mod PAGE_SIZE < 2 * PAGE_SIZE" by linarith
    then have "(a mod PAGE_SIZE + (b - a) mod PAGE_SIZE) div PAGE_SIZE < 2" by (rule less_mult_imp_div_less)
    then show ?thesis unfolding div_add1_eq [of a "b - a" PAGE_SIZE] by linarith
  qed
  finally have "card {a div PAGE_SIZE..(b - 1) div PAGE_SIZE} \<le> (b - a) div PAGE_SIZE + 2" by simp
  moreover have "missing pages a b \<le> card (touched a b)"
    unfolding missing_def by (rule card_mono) auto
  moreover have "card (touched a b) \<le> card {a div PAGE_SIZE..(b - 1) div PAGE_SIZE}"
    by (rule card_mono [OF _ sub]) simp
  ultimately show ?thesis by linarith
qed (simp add: missing_def touched_def)

lemma collect_chain_eq:
  assumes "cs = [] \<and> c < 2 \<or> valid_chain (fat_entries F) c cs \<and> cs \<noteq> []"
  shows "collect_chain F c = Some cs"
proof (cases "cs = []")
  case True
  then show ?thesis using assms by (auto simp: collect_chain_def cluster_chain_def valid_chain_def)
next
  case False
  then have v: "valid_chain (fat_entries F) c cs" using assms by blast
  then obtain xs where "cs = c # xs" using False by (cases cs) (auto simp: valid_chain_def)
  then have "2 \<le> c" using v by (auto simp: valid_chain_def)
  then show ?thesis using v walk_is_chain by (auto simp: collect_chain_def cluster_chain_def valid_chain_def)
qed

lemma view_empty [simp]: "view [] disk = disk"
  by (simp add: fun_eq_iff view_def cached_page_def)

text \<open>C18: opening a file of the disk and reading it.  A directory entry whose first cluster
  starts a valid chain that is long enough for the size of the file gives an inode; reading
  any range of it through the page cache, with frames for its pages, delivers exactly the
  bytes of the sectors of the chain, cut at the size of the file; the rest of the buffer is
  untouched, and the cache shows the same contents to the reads that follow.\<close>

theorem fat_file_read_correct:
  assumes chain: "cs = [] \<and> first_cluster_id d < 2
      \<or> valid_chain (fat_entries F) (first_cluster_id d) cs \<and> cs \<noteq> []"
    and ok: "chain_ok dev F cs" and reg: "\<not> is_dir d" "file_size d < u32_limit"
    and fits: "file_size d \<le> length cs * cluster_len F * SECTOR_SIZE"
    and range: "off \<le> file_size d" "length m = n" "n div PAGE_SIZE + 2 \<le> frames"
  shows "\<exists>f pages frames'. FatFile_from_dir_entry ch F d k = Some (f, Suc k) \<and> ff_clusters f = cs
    \<and> data_len (ff_meta f) = file_size d \<and> page_cache (ff_meta f) = []
    \<and> read_at (fat_read_inode_at dev F cs) rd_direct now (kernel_read_buffer n) off (ff_meta f) frames m
      = Some (Inr (min n (file_size d - off)),
          take n (drop off (take (file_size d) (chain_bytes dev F cs))) @ drop (file_size d - off) m,
          (ff_meta f)\<lparr> page_cache := pages, access_time := now \<rparr>, frames')
    \<and> cache_ok pages \<and> view pages (chain_byte dev F cs) = chain_byte dev F cs"
proof -
  let ?meta = "(fst (InodeMeta_new Regular k))\<lparr> data_len := file_size d, access_time := entry_access_time ch d,
               change_time := entry_create_time ch d, modify_time := entry_modify_time ch d \<rparr>"
  let ?f = "\<lparr> ff_meta = ?meta, ff_clusters = cs \<rparr>"
  have open': "FatFile_from_dir_entry ch F d k = Some (?f, Suc k)"
    using collect_chain_eq [OF chain] reg(1) fits by (simp add: FatFile_from_dir_entry_def InodeMeta_new_def Let_def)
  have meta: "mode ?meta = Regular" "page_cache ?meta = []" "data_len ?meta = file_size d"
    by (simp_all add: InodeMeta_new_def)
  let ?e = "min n (file_size d - off)"
  have lim: "data_len ?meta \<le> fat_page_limit dev F cs * PAGE_SIZE"
    using ok reg(2) meta(3) by (simp add: fat_page_limit_def PAGE_SIZE_def u32_limit_def)
  have "missing [] off (off + ?e) \<le> ?e div PAGE_SIZE + 2" using missing_bound [of "[]" off "off + ?e"] by simp
  also have "\<dots> \<le> n div PAGE_SIZE + 2" by (simp add: div_le_mono)
  finally have "missing (page_cache ?meta) off (off + ?e) \<le> frames" using range(3) meta(2) by simp
  with fat.read_at_ok [of ?meta off dev F cs m n frames rd_direct now] meta lim range(1,2)
  obtain pages frames' where
    r: "read_at (fat_read_inode_at dev F cs) rd_direct now (kernel_read_buffer n) off ?meta frames m
      = Some (Inr ?e, map (\<lambda>i. chain_byte dev F cs (off + i)) [0..<?e] @ drop ?e m,
          ?meta\<lparr> page_cache := pages, access_time := now \<rparr>, frames')"
    "cache_ok pages" "view pages (chain_byte dev F cs) = chain_byte dev F cs"
    by (auto simp: cache_ok_def)
  have len: "length (chain_bytes dev F cs) = length cs * cluster_len F * SECTOR_SIZE"
    using ok by (simp add: chain_bytes_def chain_ok_def length_concat_dev length_chain_sectors)
  have bytes: "map (\<lambda>i. chain_byte dev F cs (off + i)) [0..<?e] = take n (drop off (take (file_size d) (chain_bytes dev F cs)))"
    using fits range(1) len by (auto intro!: nth_equalityI simp: chain_byte_def)
  have "drop ?e m = drop (file_size d - off) m" using range(2) by (simp add: min_def)
  then show ?thesis using open' meta r unfolding bytes by (intro exI [of _ ?f] exI [of _ pages] exI [of _ frames']) simp
qed

lemma first_page_in_range:
  assumes "off < PAGE_SIZE" "next_multiple_of (off + n) PAGE_SIZE = Some hi" "p \<in> touched off (off + n)"
  shows "off - off mod PAGE_SIZE \<le> p" "p < hi"
proof -
  show "off - off mod PAGE_SIZE \<le> p" using assms(1) by simp
  obtain i where i: "off \<le> i" "i < off + n" "p = i div PAGE_SIZE" using assms(3) by (auto simp: touched_def)
  have "off + n \<le> hi"
  proof (cases "(off + n) mod PAGE_SIZE = 0")
    case True
    then show ?thesis using assms(2) by (simp add: next_multiple_of_def)
  next
    case False
    then have "hi = off + n + (PAGE_SIZE - (off + n) mod PAGE_SIZE)"
      using assms(2) by (simp only: next_multiple_of_def uadd_def if_False option.inject option.distinct split: if_splits)
    then show ?thesis by (rule ssubst) (rule le_add1)
  qed
  moreover have "p \<le> i" using i(3) by simp
  ultimately show "p < hi" using i(2) by linarith
qed

text \<open>C19: writing and reading back.  A write through the page cache of a file stores its
  whole buffer and extends the file when it ends past it.  Reading the range back delivers
  the bytes written, without needing another frame.  A byte of the file outside the range
  keeps its value when the write starts in the first page, when the byte's page was in the
  cache, or when the write does not touch the byte's page.\<close>

theorem fat_file_write_correct:
  assumes meta: "mode meta = Regular" "cache_ok (page_cache meta)" and ok: "chain_ok dev F cs"
    and fits: "off + length bs \<le> 536870912 * PAGE_SIZE" and frames: "length bs div PAGE_SIZE + 2 \<le> frames"
  shows "\<exists>meta' frames'. write_at (fat_read_inode_at dev F cs) wr_direct now (kernel_write_buffer bs) off meta frames
      = Some (Inr (length bs), meta', frames')
    \<and> cache_ok (page_cache meta') \<and> data_len meta' = max (data_len meta) (off + length bs)
    \<and> (\<forall>i. off \<le> i \<and> i < off + length bs \<longrightarrow> view (page_cache meta') (chain_byte dev F cs) i = bs ! (i - off))
    \<and> (\<forall>i < data_len meta. (i < off \<or> off + length bs \<le> i)
        \<and> (off < PAGE_SIZE \<or> cached_page (page_cache meta) (i div PAGE_SIZE) \<noteq> None
           \<or> i div PAGE_SIZE \<notin> touched off (off + length bs))
        \<longrightarrow> view (page_cache meta') (chain_byte dev F cs) i = view (page_cache meta) (chain_byte dev F cs) i)
    \<and> (data_len meta \<le> 536870912 * PAGE_SIZE \<longrightarrow> (\<forall>m. length m = length bs \<longrightarrow> (\<exists>meta'' frames''.
        read_at (fat_read_inode_at dev F cs) rd_direct now (kernel_read_buffer (length bs)) off meta' 0 m
          = Some (Inr (length bs), bs, meta'', frames''))))"
proof -
  have lim: "off + length bs \<le> fat_page_limit dev F cs * PAGE_SIZE" "off + length bs + PAGE_SIZE \<le> usize_limit"
    using ok fits by (simp_all add: fat_page_limit_def PAGE_SIZE_def usize_limit_def)
  have "missing (page_cache meta) off (off + length bs) \<le> frames"
    using missing_bound [of "page_cache meta" off "off + length bs"] frames by simp
  from fat.write_at_ok [OF meta lim this, of wr_direct now] obtain meta' frames' hi where
    w: "write_at (fat_read_inode_at dev F cs) wr_direct now (kernel_write_buffer bs) off meta frames
      = Some (Inr (length bs), meta', frames')"
    and hi: "next_multiple_of (off + length bs) PAGE_SIZE = Some hi"
    and m': "cache_ok (page_cache meta')" "mode meta' = Regular" "data_len meta' = max (data_len meta) (off + length bs)"
    and v: "\<forall>i. view (page_cache meta') (chain_byte dev F cs) i =
        (if off \<le> i \<and> i < off + length bs then bs ! (i - off)
         else if i div PAGE_SIZE \<in> touched off (off + length bs)
         then base_byte (chain_byte dev F cs) (page_cache meta) (data_len meta div PAGE_SIZE) (off - off mod PAGE_SIZE) hi i
         else view (page_cache meta) (chain_byte dev F cs) i)"
    and c: "\<forall>p. cached_page (page_cache meta') p \<noteq> None
        \<longleftrightarrow> p \<in> touched off (off + length bs) \<or> cached_page (page_cache meta) p \<noteq> None"
    by blast
  have new: "\<forall>i. off \<le> i \<and> i < off + length bs \<longrightarrow> view (page_cache meta') (chain_byte dev F cs) i = bs ! (i - off)"
    using v by simp
  have old: "view (page_cache meta') (chain_byte dev F cs) i = view (page_cache meta) (chain_byte dev F cs) i"
    if "i < data_len meta" "i < off \<or> off + length bs \<le> i"
      "off < PAGE_SIZE \<or> cached_page (page_cache meta) (i div PAGE_SIZE) \<noteq> None \<or> i div PAGE_SIZE \<notin> touched off (off + length bs)" for i
  proof -
    have "i div PAGE_SIZE \<le> data_len meta div PAGE_SIZE" using that(1) by (simp add: div_le_mono)
    moreover have "off < PAGE_SIZE \<Longrightarrow> i div PAGE_SIZE \<in> touched off (off + length bs)
        \<Longrightarrow> off - off mod PAGE_SIZE \<le> i div PAGE_SIZE \<and> i div PAGE_SIZE < hi"
      using first_page_in_range [OF _ hi] by blast
    ultimately show ?thesis
      using v that(2,3) by (auto simp: base_byte_def Let_def view_def [of "page_cache meta"])
  qed
  have reread: "\<exists>meta'' frames''.
        read_at (fat_read_inode_at dev F cs) rd_direct now (kernel_read_buffer (length bs)) off meta' 0 m
          = Some (Inr (length bs), bs, meta'', frames'')"
    if len: "data_len meta \<le> 536870912 * PAGE_SIZE" and m: "length m = length bs" for m
  proof -
    have e: "min (length bs) (data_len meta' - off) = length bs" "off \<le> data_len meta'" using m'(3) by auto
    have "{p \<in> touched off (off + length bs). bt_get (page_cache meta') p = None} = {}"
      using c by (force simp: cached_page_def split: option.splits)
    then have "missing (page_cache meta') off (off + length bs) \<le> 0" unfolding missing_def by simp
    moreover have "data_len meta' \<le> fat_page_limit dev F cs * PAGE_SIZE"
      using ok fits len m'(3) by (simp add: fat_page_limit_def)
    ultimately obtain pages frames'' where
      "read_at (fat_read_inode_at dev F cs) rd_direct now (kernel_read_buffer (length bs)) off meta' 0 m
        = Some (Inr (length bs), map (\<lambda>i. view (page_cache meta') (chain_byte dev F cs) (off + i)) [0..<length bs]
            @ drop (length bs) m, meta'\<lparr> page_cache := pages, access_time := now \<rparr>, frames'')"
      using fat.read_at_ok [OF m'(2,1) e(2), of dev F cs m "length bs" 0 rd_direct now] m unfolding e(1) by blast
    moreover have "map (\<lambda>i. view (page_cache meta') (chain_byte dev F cs) (off + i)) [0..<length bs] = bs"
      using new by (auto intro!: nth_equalityI)
    ultimately show ?thesis using m by simp
  qed
  show ?thesis using w m'(1,3) new old reread by (intro exI [of _ meta'] exI [of _ frames']) blast
qed

text \<open>A write that starts behind the first page clears the rest of a page that is not in the
  cache: the page is not read first, since the range of the test is in bytes and the number
  compared with it is that of a page.\<close>

lemma partial_write_loses_data:
  assumes meta: "mode meta = Regular" "cache_ok (page_cache meta)" and ok: "chain_ok dev F cs"
    and fits: "off + length bs \<le> 536870912 * PAGE_SIZE" and frames: "length bs div PAGE_SIZE + 2 \<le> frames"
    and p: "p \<in> touched off (off + length bs)" "cached_page (page_cache meta) p = None" "p < off - off mod PAGE_SIZE"
    and i: "i div PAGE_SIZE = p" "i < off \<or> off + length bs \<le> i"
  shows "\<exists>meta' frames'. write_at (fat_read_inode_at dev F cs) wr_direct now (kernel_write_buffer bs) off meta frames
      = Some (Inr (length bs), meta', frames') \<and> view (page_cache meta') (chain_byte dev F cs) i = 0"
proof -
  have lim: "off + length bs \<le> fat_page_limit dev F cs * PAGE_SIZE" "off + length bs + PAGE_SIZE \<le> usize_limit"
    using ok fits by (simp_all add: fat_page_limit_def PAGE_SIZE_def usize_limit_def)
  have "missing (page_cache meta) off (off + length bs) \<le> frames"
    using missing_bound [of "page_cache meta" off "off + length bs"] frames by simp
  from fat.write_at_ok [OF meta lim this, of wr_direct now] p i show ?thesis
    by (elim exE conjE) (auto simp: base_byte_def Let_def)
qed


section \<open>Shrinking a file\<close>

lemma div_ceil_mult: "0 < b \<Longrightarrow> len < k * b \<Longrightarrow> div_ceil len b \<le> k"
  by (simp add: div_ceil_le_iff)

text \<open>C24: shrinking a file.  When the file's clusters are a valid chain with bare links, long
  enough for the file, \<^verbatim>\<open>truncate\<close> to a smaller length does not panic: the file keeps the
  clusters needed for the new length and they are again a valid chain, the others become
  free, and the chains of the other files are unchanged.\<close>

theorem fat_truncate_correct:
  assumes ok: "fat_ok F" and v: "valid_chain (fat_entries F) c cs" and pos: "0 < cluster_len F"
    and bare: "\<forall>i. Suc i < length cs \<longrightarrow> fat_entries F ! (cs ! i) = cs ! Suc i"
    and count: "free_count (alloc_meta F) \<le> data_clusters_count F"
    and len: "len < data_len meta" "data_len meta \<le> length cs * bytes_per_cluster F"
  defines "n \<equiv> div_ceil len (bytes_per_cluster F)"
  shows "\<exists>F'. fat_truncate now len meta (cs, F)
      = Some (Inr (), meta\<lparr> data_len := len, change_time := now, modify_time := now \<rparr>, take n cs, F')
    \<and> n \<le> length cs \<and> len \<le> n * bytes_per_cluster F
    \<and> fat_ok F' \<and> (n \<noteq> 0 \<longrightarrow> valid_chain (fat_entries F') c (take n cs))
    \<and> free_set F' = free_set F \<union> set (drop n cs)
    \<and> (\<forall>g es. valid_chain (fat_entries F) g es \<and> set es \<inter> set cs = {} \<longrightarrow> valid_chain (fat_entries F') g es)"
proof -
  have b: "0 < bytes_per_cluster F" using pos by (simp add: bytes_per_cluster_def SECTOR_SIZE_def)
  have n: "n \<le> length cs" unfolding n_def by (rule div_ceil_mult [OF b]) (use len in linarith)
  have cap: "len \<le> n * bytes_per_cluster F" unfolding n_def by (rule div_ceil_ge [OF b])
  let ?prev = "if n = 0 then None else Some (cs ! (n - 1))"
  have eq: "fat_truncate now len meta (cs, F) = map_option (\<lambda>F'. (Inr (),
      meta\<lparr> data_len := len, change_time := now, modify_time := now \<rparr>, take n cs, F')) (free_clusters (drop n cs) ?prev F)"
    using len(1) b n unfolding fat_truncate_def n_def [symmetric]
    by (simp add: n_def [symmetric] Let_def map_conv_bind_option comp_def)
  show ?thesis
  proof (cases "n = length cs")
    case True
    then have "free_clusters (drop n cs) ?prev F = Some F" by (simp add: free_clusters_def)
    then show ?thesis using True eq n cap ok v by auto
  next
    case False
    then have dr: "drop n cs \<noteq> []" and nl: "n < length cs" using n by auto
    have prev: "?prev = (if take n cs = [] then None else Some (last (take n cs)))"
      using nl by (cases n) (auto simp: last_conv_nth)
    have raw: "fat_entries F ! last (take n cs) = hd (drop n cs)" if "take n cs \<noteq> []"
    proof -
      have "last (take n cs) = cs ! (n - 1)" "hd (drop n cs) = cs ! n" "0 < n"
        using that nl by (auto simp: last_conv_nth hd_drop_conv_nth)
      then show ?thesis using bare nl by (metis Suc_pred')
    qed
    have "valid_chain (fat_entries F) c (take n cs @ drop n cs)" using v by simp
    from free_clusters_spec [OF ok this dr raw count] obtain F' where
      F': "free_clusters (drop n cs) ?prev F = Some F'" "fat_ok F'"
      "take n cs \<noteq> [] \<longrightarrow> valid_chain (fat_entries F') c (take n cs)" "free_set F' = free_set F \<union> set (drop n cs)"
      "\<forall>g es. valid_chain (fat_entries F) g es \<and> set es \<inter> set (take n cs @ drop n cs) = {} \<longrightarrow> valid_chain (fat_entries F') g es"
      unfolding prev by blast
    then show ?thesis using eq n cap nl by auto
  qed
qed

text \<open>A file that was written past its clusters cannot be shrunk: the clusters to keep are
  more than it has, and slicing the list panics.\<close>

lemma truncate_written_file_panics:
  assumes "len < data_len meta" "0 < cluster_len F" "length cs * bytes_per_cluster F < len"
  shows "fat_truncate now len meta (cs, F) = None"
proof -
  have b: "0 < bytes_per_cluster F" using assms(2) by (simp add: bytes_per_cluster_def SECTOR_SIZE_def)
  have "\<not> div_ceil len (bytes_per_cluster F) \<le> length cs"
    using assms(3) div_ceil_le_iff [OF b] by (simp add: not_le)
  then show ?thesis using assms(1) by (simp add: fat_truncate_def Let_def)
qed


section \<open>A small file\<close>

text \<open>The file in the clusters 2, 3 and 5 of the small table, on a disk whose sectors are
  filled with their number.\<close>

definition demo_disk :: "nat \<Rightarrow> bytes" where
  "demo_disk s = replicate 512 (of_nat s)"

lemma demo_chain_ok: "chain_ok demo_disk demo_fat [2, 3, 5]"
  unfolding chain_ok_def sectors_ok_def
  by (auto simp: demo_disk_def demo_fat_def SECTOR_SIZE_def u32_limit_def intro!: exI [of _ 200])

definition demo_dir_entry :: DirEntry where
  "demo_dir_entry = (demo_entry ''A'' [])\<lparr> file_size := 1000 \<rparr>"

definition demo_chrono :: "(nat, nat) chrono" where
  "demo_chrono = \<lparr> from_ymd_opt = (\<lambda>y m d. Some (y + m + d)), default_date = 0,
     from_hms_milli_opt = (\<lambda>h m s ms. Some (h + m + s + ms)), default_time = 0,
     timestamp = (\<lambda>d t. int (d + t)), subsec_nanos = (\<lambda>d t. 0) \<rparr>"

theorem fat_file_read_correct_witness:
  "\<exists>f pages frames'. FatFile_from_dir_entry demo_chrono demo_fat demo_dir_entry 7 = Some (f, 8)
    \<and> read_at (fat_read_inode_at demo_disk demo_fat [2, 3, 5]) (\<lambda>_ m. (Inr 0, m)) zero_time (kernel_read_buffer 4) 510
        (ff_meta f) 2 [0, 0, 0, 0]
      = Some (Inr 4, [100, 100, 101, 101], (ff_meta f)\<lparr> page_cache := pages, access_time := zero_time \<rparr>, frames')"
proof -
  have chain: "[2, 3, 5] = [] \<and> first_cluster_id demo_dir_entry < 2
      \<or> valid_chain (fat_entries demo_fat) (first_cluster_id demo_dir_entry) [2, 3, 5] \<and> [2, 3, 5] \<noteq> []"
    using demo_fat_ok(2) by (simp add: demo_dir_entry_def demo_entry_def)
  have d: "\<not> is_dir demo_dir_entry" "file_size demo_dir_entry = 1000"
    by (simp_all add: demo_dir_entry_def demo_entry_def is_dir_def attr_contains_def ATTR_DIRECTORY_def)
  have "take 4 (drop 510 (take 1000 (chain_bytes demo_disk demo_fat [2, 3, 5]))) = [100, 100, 101, 101]"
    by (simp add: chain_bytes_def chain_sectors_def demo_fat_def demo_disk_def upt_rec)
      (simp add: numeral_eq_Suc)
  with fat_file_read_correct [OF chain demo_chain_ok d(1), of 510 "[0, 0, 0, 0]" 4 2 demo_chrono 7 "\<lambda>_ m. (Inr 0, m)" zero_time]
  show ?thesis by (simp add: d(2) u32_limit_def demo_fat_def SECTOR_SIZE_def PAGE_SIZE_def) blast
qed

definition demo_meta :: InodeMeta where
  "demo_meta = (fst (InodeMeta_new Regular 7))\<lparr> data_len := 1000 \<rparr>"

theorem fat_file_write_correct_witness:
  "\<exists>meta' frames'. write_at (fat_read_inode_at demo_disk demo_fat [2, 3, 5]) (\<lambda>_. Inr 0) zero_time
      (kernel_write_buffer [1, 2, 3]) 600 demo_meta 2 = Some (Inr 3, meta', frames')
    \<and> data_len meta' = 1000 \<and> view (page_cache meta') (chain_byte demo_disk demo_fat [2, 3, 5]) 601 = 2
    \<and> view (page_cache meta') (chain_byte demo_disk demo_fat [2, 3, 5]) 599
      = chain_byte demo_disk demo_fat [2, 3, 5] 599"
proof -
  have meta: "mode demo_meta = Regular" "cache_ok (page_cache demo_meta)" "data_len demo_meta = 1000"
    "page_cache demo_meta = []"
    by (simp_all add: demo_meta_def InodeMeta_new_def cache_ok_def)
  have f: "600 + length [1, 2, 3 :: 8 word] \<le> 536870912 * PAGE_SIZE" "length [1, 2, 3 :: 8 word] div PAGE_SIZE + 2 \<le> 2"
    by (simp_all add: PAGE_SIZE_def)
  obtain meta' frames' where w: "write_at (fat_read_inode_at demo_disk demo_fat [2, 3, 5]) (\<lambda>_. Inr 0) zero_time
      (kernel_write_buffer [1, 2, 3]) 600 demo_meta 2 = Some (Inr (length [1, 2, 3 :: 8 word]), meta', frames')"
    and l: "data_len meta' = max (data_len demo_meta) (600 + length [1, 2, 3 :: 8 word])"
    and n: "\<forall>i. 600 \<le> i \<and> i < 600 + length [1, 2, 3 :: 8 word]
      \<longrightarrow> view (page_cache meta') (chain_byte demo_disk demo_fat [2, 3, 5]) i = [1, 2, 3] ! (i - 600)"
    and o: "\<forall>i < data_len demo_meta. (i < 600 \<or> 600 + length [1, 2, 3 :: 8 word] \<le> i)
        \<and> (600 < PAGE_SIZE \<or> cached_page (page_cache demo_meta) (i div PAGE_SIZE) \<noteq> None
           \<or> i div PAGE_SIZE \<notin> touched 600 (600 + length [1, 2, 3 :: 8 word]))
        \<longrightarrow> view (page_cache meta') (chain_byte demo_disk demo_fat [2, 3, 5]) i
          = view (page_cache demo_meta) (chain_byte demo_disk demo_fat [2, 3, 5]) i"
    using fat_file_write_correct [OF meta(1,2) demo_chain_ok f, where wr_direct = "\<lambda>_. Inr 0" and now = zero_time
        and rd_direct = "\<lambda>_ m. (Inr 0, m)"] by (elim exE conjE) (rule that)
  have "view (page_cache meta') (chain_byte demo_disk demo_fat [2, 3, 5]) 601 = 2" using n by simp
  moreover have "view (page_cache meta') (chain_byte demo_disk demo_fat [2, 3, 5]) 599
      = chain_byte demo_disk demo_fat [2, 3, 5] 599" using o meta(3,4) by (simp add: PAGE_SIZE_def)
  moreover have "data_len meta' = 1000" "length [1, 2, 3 :: 8 word] = 3" using l meta(3) by simp_all
  ultimately show ?thesis using w by (intro exI [of _ meta'] exI [of _ frames']) simp
qed

theorem fat_truncate_correct_witness:
  "\<exists>F'. fat_truncate zero_time 600 demo_meta ([2, 3, 5], demo_fat)
      = Some (Inr (), demo_meta\<lparr> data_len := 600, change_time := zero_time, modify_time := zero_time \<rparr>, [2, 3], F')
    \<and> valid_chain (fat_entries F') 2 [2, 3] \<and> valid_chain (fat_entries F') 4 [4] \<and> 5 \<in> free_set F'"
proof -
  have n: "div_ceil 600 (bytes_per_cluster demo_fat) = 2"
    by (simp add: div_ceil_def bytes_per_cluster_def demo_fat_def SECTOR_SIZE_def)
  have bare: "\<forall>i. Suc i < length [2, 3, 5::nat] \<longrightarrow> fat_entries demo_fat ! ([2, 3, 5] ! i) = [2, 3, 5] ! Suc i"
  proof (intro allI impI)
    fix i assume "Suc i < length [2, 3, 5::nat]"
    then have "i = 0 \<or> i = 1" by auto
    then show "fat_entries demo_fat ! ([2, 3, 5] ! i) = [2, 3, 5] ! Suc i" by (auto simp: demo_fat_def)
  qed
  have pos: "0 < cluster_len demo_fat" "free_count (alloc_meta demo_fat) \<le> data_clusters_count demo_fat"
    "600 < data_len demo_meta" "data_len demo_meta \<le> length [2, 3, 5 :: nat] * bytes_per_cluster demo_fat"
    by (simp_all add: demo_fat_def demo_meta_def bytes_per_cluster_def SECTOR_SIZE_def)
  obtain F' where t: "fat_truncate zero_time 600 demo_meta ([2, 3, 5], demo_fat)
      = Some (Inr (), demo_meta\<lparr> data_len := 600, change_time := zero_time, modify_time := zero_time \<rparr>,
          take 2 [2, 3, 5], F')"
    and c: "(2::nat) \<noteq> 0 \<longrightarrow> valid_chain (fat_entries F') 2 (take 2 [2, 3, 5])"
    and fr: "free_set F' = free_set demo_fat \<union> set (drop 2 [2, 3, 5])"
    and o: "\<forall>g es. valid_chain (fat_entries demo_fat) g es \<and> set es \<inter> set [2, 3, 5] = {} \<longrightarrow> valid_chain (fat_entries F') g es"
    using fat_truncate_correct [OF demo_fat_ok(1,2) pos(1) bare pos(2,3,4), of zero_time, unfolded n]
    by (elim exE conjE) (rule that)
  have "valid_chain (fat_entries F') 4 [4]" using o demo_fat_ok(3) by simp
  moreover have "5 \<in> free_set F'" "valid_chain (fat_entries F') 2 [2, 3]" using fr c by simp_all
  moreover have "take 2 [2, 3, 5] = [2, 3 :: nat]" by simp
  ultimately show ?thesis using t by (intro exI [of _ F']) simp
qed

end
