(* ===== verification/Dentry.thy ===== *)
theory Dentry
  imports FatVfs "HOL-Library.Char_ord" "HOL-Library.List_Lexorder"
begin

text \<open>
  Directory entries, the cached tree of names: \<^verbatim>\<open>crates/libkernel/src/fs/dentry.rs\<close>, over the
  directories of \<^verbatim>\<open>fat32_vfs\<close> and \<^verbatim>\<open>tmpfs\<close>.

  The entries are shared objects that point to each other, so they live in an explicit
  store: an entry is known by its address, a directory entry holds the address of its parent
  and a sorted map from names to its children, and every new object gets the next address.
  Inodes live in a store of their own.  An operation takes the state of the file system and
  gives the result and the new state; None is a panic.
\<close>

section \<open>The state\<close>

datatype dref = DDir nat | DBytes nat

record dentry_dir =
  dd_parent :: "nat option"
  dd_name :: string
  dd_children :: "(string, dref) btree"
  dd_inode :: nat

record dentry_bytes =
  db_parent :: nat
  db_name :: string
  db_inode :: nat

text \<open>The implementations of the two traits of inodes.\<close>

datatype dir_inode = TmpDirI InodeMeta | FatDirI FatDir

datatype bytes_inode = FatFileI FatFile | MountsI InodeMeta | MeminfoI InodeMeta | TtyI InodeMeta | RtcI InodeMeta

record vfs =
  v_dirs :: "nat \<Rightarrow> dentry_dir option"
  v_files :: "nat \<Rightarrow> dentry_bytes option"
  v_next :: nat
  v_dir_inodes :: "nat \<Rightarrow> dir_inode option"
  v_bytes_inodes :: "nat \<Rightarrow> bytes_inode option"
  v_next_inode :: nat
  v_inode_number :: nat
  v_fat :: FileAllocTable

record ('d, 't) fs_env =
  e_chrono :: "('d, 't) chrono"
  e_utf16 :: "nat list \<Rightarrow> string option"
  e_dev :: "nat \<Rightarrow> bytes"
  e_now :: TimeSpec

definition new_dir_inode :: "dir_inode \<Rightarrow> vfs \<Rightarrow> nat \<times> vfs" where
  "new_dir_inode i v = (v_next_inode v,
     v\<lparr> v_dir_inodes := (v_dir_inodes v)(v_next_inode v \<mapsto> i), v_next_inode := Suc (v_next_inode v) \<rparr>)"

definition new_bytes_inode :: "bytes_inode \<Rightarrow> vfs \<Rightarrow> nat \<times> vfs" where
  "new_bytes_inode i v = (v_next_inode v,
     v\<lparr> v_bytes_inodes := (v_bytes_inodes v)(v_next_inode v \<mapsto> i), v_next_inode := Suc (v_next_inode v) \<rparr>)"

definition new_dentry_dir :: "nat option \<Rightarrow> string \<Rightarrow> nat \<Rightarrow> vfs \<Rightarrow> nat \<times> vfs" where
  "new_dentry_dir parent name inode v = (v_next v,
     v\<lparr> v_dirs := (v_dirs v)(v_next v \<mapsto> \<lparr> dd_parent = parent, dd_name = name, dd_children = [], dd_inode = inode \<rparr>),
        v_next := Suc (v_next v) \<rparr>)"

definition new_dentry_bytes :: "nat \<Rightarrow> string \<Rightarrow> nat \<Rightarrow> vfs \<Rightarrow> nat \<times> vfs" where
  "new_dentry_bytes parent name inode v = (v_next v,
     v\<lparr> v_files := (v_files v)(v_next v \<mapsto> \<lparr> db_parent = parent, db_name = name, db_inode = inode \<rparr>),
        v_next := Suc (v_next v) \<rparr>)"

definition set_children :: "nat \<Rightarrow> (string, dref) btree \<Rightarrow> vfs \<Rightarrow> vfs" where
  "set_children a cs v = (case v_dirs v a of
     None \<Rightarrow> v
   | Some d \<Rightarrow> v\<lparr> v_dirs := (v_dirs v)(a \<mapsto> d\<lparr> dd_children := cs \<rparr>) \<rparr>)"

section \<open>The directories behind an entry\<close>

fun dir_meta :: "dir_inode \<Rightarrow> InodeMeta" where
  "dir_meta (TmpDirI meta) = meta"
| "dir_meta (FatDirI dir) = fd_meta dir"

fun set_dir_meta :: "InodeMeta \<Rightarrow> dir_inode \<Rightarrow> dir_inode" where
  "set_dir_meta meta (TmpDirI _) = TmpDirI meta"
| "set_dir_meta meta (FatDirI dir) = FatDirI (dir\<lparr> fd_meta := meta \<rparr>)"

definition touch_dir :: "TimeSpec \<Rightarrow> nat \<Rightarrow> vfs \<Rightarrow> vfs" where
  "touch_dir now i v = (case v_dir_inodes v i of
     None \<Rightarrow> v
   | Some x \<Rightarrow> v\<lparr> v_dir_inodes := (v_dir_inodes v)(i \<mapsto> set_dir_meta ((dir_meta x)\<lparr> access_time := now \<rparr>) x) \<rparr>)"

definition TmpDir_new :: "TimeSpec \<Rightarrow> nat \<Rightarrow> InodeMeta \<times> nat" where
  "TmpDir_new now inode_number = (case InodeMeta_new Dir inode_number of (meta, n) \<Rightarrow>
     (meta\<lparr> access_time := now, change_time := now, modify_time := now \<rparr>, n))"

text \<open>\<^verbatim>\<open>DirInodeBackend::lookup\<close>: a new inode of one of the two kinds.\<close>

definition add_fat_inode :: "fat_inode \<Rightarrow> vfs \<Rightarrow> (nat + nat) \<times> vfs" where
  "add_fat_inode x v = (case x of
     FatDirInode d \<Rightarrow> (case new_dir_inode (FatDirI d) v of (i, v') \<Rightarrow> (Inl i, v'))
   | FatFileInode f \<Rightarrow> (case new_bytes_inode (FatFileI f) v of (i, v') \<Rightarrow> (Inr i, v')))"

definition inode_lookup :: "('d, 't) fs_env \<Rightarrow> string \<Rightarrow> nat \<Rightarrow> vfs \<Rightarrow> ((nat + nat) option \<times> vfs) option" where
  "inode_lookup env name i v = (case v_dir_inodes v i of
     None \<Rightarrow> None
   | Some (TmpDirI _) \<Rightarrow> Some (None, v)
   | Some (FatDirI dir) \<Rightarrow>
       (case fat_lookup (e_chrono env) (e_utf16 env) (e_dev env) (v_fat v) (e_now env) name dir (v_inode_number v) of
          None \<Rightarrow> None
        | Some (r, dir', n) \<Rightarrow>
            (let v' = v\<lparr> v_dir_inodes := (v_dir_inodes v)(i \<mapsto> FatDirI dir'), v_inode_number := n \<rparr>
             in case r of None \<Rightarrow> Some (None, v')
                | Some x \<Rightarrow> (case add_fat_inode x v' of (j, v'') \<Rightarrow> Some (Some j, v'')))))"

definition inode_mkdir :: "('d, 't) fs_env \<Rightarrow> nat \<Rightarrow> vfs \<Rightarrow> ((errno + nat) \<times> vfs) option" where
  "inode_mkdir env i v = (case v_dir_inodes v i of
     None \<Rightarrow> None
   | Some (TmpDirI _) \<Rightarrow> (case TmpDir_new (e_now env) (v_inode_number v) of (meta, n) \<Rightarrow>
       (case new_dir_inode (TmpDirI meta) (v\<lparr> v_inode_number := n \<rparr>) of (j, v') \<Rightarrow> Some (Inr j, v')))
   | Some (FatDirI _) \<Rightarrow> (case FatDir_create (e_now env) (v_fat v, v_inode_number v) of
         None \<Rightarrow> None
       | Some (Inl e, F, n) \<Rightarrow> Some (Inl e, v\<lparr> v_fat := F, v_inode_number := n \<rparr>)
       | Some (Inr d, F, n) \<Rightarrow>
           (case new_dir_inode (FatDirI d) (v\<lparr> v_fat := F, v_inode_number := n \<rparr>) of (j, v') \<Rightarrow> Some (Inr j, v'))))"

definition inode_mknod :: "('d, 't) fs_env \<Rightarrow> InodeMode \<Rightarrow> nat \<Rightarrow> vfs \<Rightarrow> ((errno + nat) \<times> vfs) option" where
  "inode_mknod env m i v = (case v_dir_inodes v i of
     None \<Rightarrow> None
   | Some (TmpDirI _) \<Rightarrow> None
   | Some (FatDirI _) \<Rightarrow>
       (if m \<noteq> Regular then None
        else (case FatFile_create (e_now env) (v_fat v, v_inode_number v) of
            None \<Rightarrow> None
          | Some (Inl e, F, n) \<Rightarrow> Some (Inl e, v\<lparr> v_fat := F, v_inode_number := n \<rparr>)
          | Some (Inr f, F, n) \<Rightarrow>
              (case new_bytes_inode (FatFileI f) (v\<lparr> v_fat := F, v_inode_number := n \<rparr>) of (j, v') \<Rightarrow> Some (Inr j, v')))))"

section \<open>Operations of a directory entry\<close>

definition entry_for :: "nat \<Rightarrow> string \<Rightarrow> nat + nat \<Rightarrow> vfs \<Rightarrow> dref \<times> vfs" where
  "entry_for parent name node v = (case node of
     Inl i \<Rightarrow> (case new_dentry_dir (Some parent) name i v of (a, v') \<Rightarrow> (DDir a, v'))
   | Inr i \<Rightarrow> (case new_dentry_bytes parent name i v of (a, v') \<Rightarrow> (DBytes a, v')))"

definition dentry_lookup :: "('d, 't) fs_env \<Rightarrow> nat \<Rightarrow> string \<Rightarrow> vfs \<Rightarrow> (dref option \<times> vfs) option" where
  "dentry_lookup env a component v = (case v_dirs v a of
     None \<Rightarrow> None
   | Some d \<Rightarrow>
       (let v1 = touch_dir (e_now env) (dd_inode d) v in
        if component = ''.'' then Some (Some (DDir a), v1)
        else if component = ''..'' then Some (Some (DDir (case dd_parent d of Some p \<Rightarrow> p | None \<Rightarrow> a)), v1)
        else (case bt_get (dd_children d) component of
            Some r \<Rightarrow> Some (Some r, v1)
          | None \<Rightarrow> (case inode_lookup env component (dd_inode d) v1 of
                None \<Rightarrow> None
              | Some (None, v2) \<Rightarrow> Some (None, v2)
              | Some (Some node, v2) \<Rightarrow>
                  (case entry_for a component node v2 of (r, v3) \<Rightarrow>
                     Some (Some r, set_children a (bt_insert component r (dd_children d)) v3))))))"

definition dentry_mkdir :: "('d, 't) fs_env \<Rightarrow> nat \<Rightarrow> string \<Rightarrow> vfs \<Rightarrow> ((errno + nat) \<times> vfs) option" where
  "dentry_mkdir env a component v = (case v_dirs v a of
     None \<Rightarrow> None
   | Some d \<Rightarrow>
       if component = ''.'' \<or> component = ''..'' then Some (Inl EINVAL, v)
       else if bt_get (dd_children d) component \<noteq> None then Some (Inl EEXIST, v)
       else (case inode_mkdir env (dd_inode d) v of
           None \<Rightarrow> None
         | Some (Inl e, v1) \<Rightarrow> Some (Inl e, v1)
         | Some (Inr i, v1) \<Rightarrow> (case new_dentry_dir (Some a) component i v1 of (b, v2) \<Rightarrow>
             Some (Inr b, set_children a (bt_insert component (DDir b) (dd_children d)) v2))))"

definition dentry_mknod :: "('d, 't) fs_env \<Rightarrow> nat \<Rightarrow> string \<Rightarrow> InodeMode \<Rightarrow> vfs \<Rightarrow> ((errno + nat) \<times> vfs) option" where
  "dentry_mknod env a component m v = (case v_dirs v a of
     None \<Rightarrow> None
   | Some d \<Rightarrow>
       if m = SymbolLink \<or> m = Dir \<or> component = ''.'' \<or> component = ''..'' then Some (Inl EINVAL, v)
       else if bt_get (dd_children d) component \<noteq> None then Some (Inl EEXIST, v)
       else (case inode_mknod env m (dd_inode d) v of
           None \<Rightarrow> None
         | Some (Inl e, v1) \<Rightarrow> Some (Inl e, v1)
         | Some (Inr i, v1) \<Rightarrow> (case new_dentry_bytes a component i v1 of (b, v2) \<Rightarrow>
             Some (Inr b, set_children a (bt_insert component (DBytes b) (dd_children d)) v2))))"

text \<open>The inodes of both file systems answer every \<^verbatim>\<open>unlink\<close> with success and do nothing.\<close>

definition dentry_unlink :: "nat \<Rightarrow> string \<Rightarrow> vfs \<Rightarrow> ((errno + unit) \<times> vfs) option" where
  "dentry_unlink a name v = (case v_dirs v a of
     None \<Rightarrow> None
   | Some d \<Rightarrow>
       if name = ''.'' \<or> name = ''..'' then Some (Inl EINVAL, v)
       else Some (Inr (), set_children a (bt_remove name (dd_children d)) v))"

definition dentry_remove_dir :: "nat \<Rightarrow> nat \<Rightarrow> vfs \<Rightarrow> ((errno + unit) \<times> vfs) option" where
  "dentry_remove_dir a child v = (case (v_dirs v a, v_dirs v child) of
     (Some d, Some c) \<Rightarrow>
       if dd_parent c \<noteq> Some a then None
       else if length (dd_children d) = 2 then Some (Inl ENOTEMPTY, v)
       else Some (Inr (), set_children a (bt_remove (dd_name c) (dd_children d)) v)
   | _ \<Rightarrow> None)"

fun add_children :: "nat \<Rightarrow> (string \<times> fat_inode) list \<Rightarrow> (string, dref) btree \<Rightarrow> vfs \<Rightarrow> (string, dref) btree \<times> vfs" where
  "add_children a [] cs v = (cs, v)"
| "add_children a ((name, x) # xs) cs v =
    (case add_fat_inode x v of (node, v1) \<Rightarrow>
      (case entry_for a name node v1 of (r, v2) \<Rightarrow> add_children a xs (bt_insert name r cs) v2))"

definition dentry_read_dir :: "('d, 't) fs_env \<Rightarrow> nat \<Rightarrow> vfs \<Rightarrow> vfs option" where
  "dentry_read_dir env a v = (case v_dirs v a of
     None \<Rightarrow> None
   | Some d \<Rightarrow> (case v_dir_inodes v (dd_inode d) of
       None \<Rightarrow> None
     | Some (TmpDirI _) \<Rightarrow> Some v
     | Some (FatDirI dir) \<Rightarrow>
         (case read_dir_items (e_chrono env) (v_fat v) (set (bt_keys (dd_children d))) (v_inode_number v)
                 (dir_entry_iter (e_utf16 env) (e_dev env) (v_fat v) (fd_clusters dir)) of
            None \<Rightarrow> None
          | Some (xs, n) \<Rightarrow> (case add_children a xs (dd_children d) (v\<lparr> v_inode_number := n \<rparr>) of (cs, v1) \<Rightarrow>
              Some (touch_dir (e_now env) (dd_inode d) (set_children a cs v1))))))"

text \<open>\<^verbatim>\<open>DEntryDir::rename\<close> and \<^verbatim>\<open>DEntryBytes::rename\<close>: the entry at the new place is a new object
  with the inode of the old one, and a directory starts with no children there.\<close>

definition dentry_rename_dir :: "nat \<Rightarrow> nat \<Rightarrow> string \<Rightarrow> vfs \<Rightarrow> ((errno + nat) \<times> vfs) option" where
  "dentry_rename_dir a new_dir new_name v = (case v_dirs v a of
     None \<Rightarrow> None
   | Some d \<Rightarrow> (case dd_parent d of
       None \<Rightarrow> Some (Inl EBUSY, v)
     | Some old_dir \<Rightarrow> (case (v_dirs v old_dir, v_dirs v new_dir) of
         (Some od, Some _) \<Rightarrow>
           (let v1 = set_children old_dir (bt_remove (dd_name d) (dd_children od)) v in
            case new_dentry_dir (Some new_dir) new_name (dd_inode d) v1 of (b, v2) \<Rightarrow>
              (case v_dirs v2 new_dir of
                 None \<Rightarrow> None
               | Some nd \<Rightarrow> Some (Inr 0, set_children new_dir (bt_insert new_name (DDir b) (dd_children nd)) v2)))
       | _ \<Rightarrow> None)))"

definition dentry_rename_bytes :: "nat \<Rightarrow> nat \<Rightarrow> string \<Rightarrow> vfs \<Rightarrow> ((errno + nat) \<times> vfs) option" where
  "dentry_rename_bytes a new_dir new_name v = (case v_files v a of
     None \<Rightarrow> None
   | Some f \<Rightarrow> (case (v_dirs v (db_parent f), v_dirs v new_dir) of
       (Some od, Some _) \<Rightarrow>
         (let v1 = set_children (db_parent f) (bt_remove (db_name f) (dd_children od)) v in
          case new_dentry_bytes new_dir new_name (db_inode f) v1 of (b, v2) \<Rightarrow>
            (case v_dirs v2 new_dir of
               None \<Rightarrow> None
             | Some nd \<Rightarrow> Some (Inr 0, set_children new_dir (bt_insert new_name (DBytes b) (dd_children nd)) v2)))
     | _ \<Rightarrow> None))"

text \<open>\<^verbatim>\<open>DEntryDir::path\<close>: the names from the root down.  A parent was created before its
  children, so its address is smaller, and the walk ends: the comparison of the two addresses is
  not in the code and always holds in a well-formed store (\<open>tree_ok\<close>).\<close>

function parent_names :: "vfs \<Rightarrow> nat \<Rightarrow> string list option" where
  "parent_names v a = (case v_dirs v a of
     None \<Rightarrow> None
   | Some d \<Rightarrow> (case dd_parent d of
       None \<Rightarrow> Some []
     | Some p \<Rightarrow> if p < a then map_option (\<lambda>ns. ns @ [dd_name d]) (parent_names v p) else None))"
  by pat_completeness auto

termination
  by (relation "measure snd") auto

declare parent_names.simps [simp del]

fun intersperse :: "string \<Rightarrow> string list \<Rightarrow> string" where
  "intersperse s [] = ''''"
| "intersperse s [x] = x"
| "intersperse s (x # y # xs) = x @ s @ intersperse s (y # xs)"

definition dentry_path :: "vfs \<Rightarrow> nat \<Rightarrow> string option" where
  "dentry_path v a = map_option (\<lambda>ns. ''/'' @ intersperse ''/'' ns) (parent_names v a)"

section \<open>A well-formed tree\<close>

text \<open>A name in the children of a directory leads to an entry that has this name and this
  parent.\<close>

definition linked :: "vfs \<Rightarrow> nat \<Rightarrow> string \<Rightarrow> dref \<Rightarrow> bool" where
  "linked v a name r = (case r of
     DDir b \<Rightarrow> (case v_dirs v b of Some e \<Rightarrow> dd_parent e = Some a \<and> dd_name e = name | None \<Rightarrow> False)
   | DBytes b \<Rightarrow> (case v_files v b of Some f \<Rightarrow> db_parent f = a \<and> db_name f = name | None \<Rightarrow> False))"

definition dir_ok :: "vfs \<Rightarrow> nat \<Rightarrow> dentry_dir \<Rightarrow> bool" where
  "dir_ok v a d \<longleftrightarrow> a < v_next v \<and> bt_inv (dd_children d)
     \<and> (\<forall>p. dd_parent d = Some p \<longrightarrow> p < a \<and> v_dirs v p \<noteq> None)
     \<and> v_dir_inodes v (dd_inode d) \<noteq> None
     \<and> (\<forall>name r. bt_get (dd_children d) name = Some r \<longrightarrow> linked v a name r)"

definition file_ok :: "vfs \<Rightarrow> nat \<Rightarrow> dentry_bytes \<Rightarrow> bool" where
  "file_ok v a f \<longleftrightarrow> a < v_next v \<and> v_dirs v (db_parent f) \<noteq> None \<and> v_bytes_inodes v (db_inode f) \<noteq> None"

definition tree_ok :: "vfs \<Rightarrow> bool" where
  "tree_ok v \<longleftrightarrow> (\<forall>a d. v_dirs v a = Some d \<longrightarrow> dir_ok v a d) \<and> (\<forall>a f. v_files v a = Some f \<longrightarrow> file_ok v a f)
     \<and> (\<forall>i. v_next_inode v \<le> i \<longrightarrow> v_dir_inodes v i = None \<and> v_bytes_inodes v i = None)"

lemma tree_okD:
  assumes "tree_ok v"
  shows "v_dirs v a = Some d \<Longrightarrow> dir_ok v a d" "v_files v b = Some f \<Longrightarrow> file_ok v b f"
  using assms by (auto simp: tree_ok_def)

lemma tree_ok_dir:
  assumes "tree_ok v" "v_dirs v a = Some d"
  shows "a < v_next v" "bt_inv (dd_children d)" "dd_parent d = Some p \<Longrightarrow> p < a \<and> v_dirs v p \<noteq> None"
    "v_dir_inodes v (dd_inode d) \<noteq> None" "bt_get (dd_children d) name = Some r \<Longrightarrow> linked v a name r"
  using tree_okD(1) [OF assms] by (auto simp: dir_ok_def)

lemma tree_ok_fresh:
  assumes "tree_ok v" "v_next v \<le> a"
  shows "v_dirs v a = None" "v_files v a = None"
proof -
  show "v_dirs v a = None"
    using tree_okD(1) [OF assms(1), of a] assms(2) by (cases "v_dirs v a") (auto simp: dir_ok_def)
  show "v_files v a = None"
    using tree_okD(2) [OF assms(1), of a] assms(2) by (cases "v_files v a") (auto simp: file_ok_def)
qed

text \<open>A step of the inodes: the entries stay, inodes are added or changed in place.\<close>

definition inode_step :: "vfs \<Rightarrow> vfs \<Rightarrow> bool" where
  "inode_step v v' \<longleftrightarrow> v_dirs v' = v_dirs v \<and> v_files v' = v_files v \<and> v_next v' = v_next v
     \<and> (\<forall>i. v_dir_inodes v i \<noteq> None \<longrightarrow> v_dir_inodes v' i \<noteq> None)
     \<and> (\<forall>i. v_bytes_inodes v i \<noteq> None \<longrightarrow> v_bytes_inodes v' i \<noteq> None)
     \<and> ((\<forall>i. v_next_inode v \<le> i \<longrightarrow> v_dir_inodes v i = None \<and> v_bytes_inodes v i = None)
        \<longrightarrow> (\<forall>i. v_next_inode v' \<le> i \<longrightarrow> v_dir_inodes v' i = None \<and> v_bytes_inodes v' i = None))"

lemma inode_step_refl [simp]: "inode_step v v"
  by (simp add: inode_step_def)

lemma inode_step_trans: "inode_step u v \<Longrightarrow> inode_step v w \<Longrightarrow> inode_step u w"
  unfolding inode_step_def by simp

lemma linked_cong: "v_dirs v' = v_dirs v \<Longrightarrow> v_files v' = v_files v \<Longrightarrow> linked v' = linked v"
  by (intro ext) (simp add: linked_def split: dref.split)

lemma tree_ok_inode_step: "inode_step v v' \<Longrightarrow> tree_ok v \<Longrightarrow> tree_ok v'"
  unfolding inode_step_def tree_ok_def dir_ok_def file_ok_def
  by (elim conjE) (simp add: linked_cong [of v' v])

lemma touch_dir_step [simp]: "inode_step v (touch_dir now i v)"
  by (auto simp: touch_dir_def inode_step_def split: option.split)

lemma touch_dir_same [simp]:
  "v_dirs (touch_dir now i v) = v_dirs v" "v_files (touch_dir now i v) = v_files v" "v_next (touch_dir now i v) = v_next v"
  by (auto simp: touch_dir_def split: option.split)

lemma new_dir_inode_step: "new_dir_inode x v = (i, v') \<Longrightarrow> inode_step v v' \<and> v_dir_inodes v' i \<noteq> None"
  by (auto simp: new_dir_inode_def inode_step_def)

lemma new_bytes_inode_step: "new_bytes_inode x v = (i, v') \<Longrightarrow> inode_step v v' \<and> v_bytes_inodes v' i \<noteq> None"
  by (auto simp: new_bytes_inode_def inode_step_def)

definition node_ok :: "vfs \<Rightarrow> nat + nat \<Rightarrow> bool" where
  "node_ok v node = (case node of Inl i \<Rightarrow> v_dir_inodes v i \<noteq> None | Inr i \<Rightarrow> v_bytes_inodes v i \<noteq> None)"

lemma add_fat_inode_step: "add_fat_inode x v = (node, v') \<Longrightarrow> inode_step v v' \<and> node_ok v' node"
  using new_dir_inode_step new_bytes_inode_step
  by (fastforce simp: add_fat_inode_def node_ok_def split: fat_inode.splits prod.splits)

lemma inode_step_update:
  assumes "v_dir_inodes v i \<noteq> None"
  shows "inode_step v (v\<lparr> v_dir_inodes := (v_dir_inodes v)(i \<mapsto> x), v_inode_number := n \<rparr>)"
  using assms by (auto simp: inode_step_def)

lemma inode_step_fat: "inode_step v (v\<lparr> v_fat := F, v_inode_number := n \<rparr>)"
  and inode_step_number: "inode_step v (v\<lparr> v_inode_number := n \<rparr>)"
  by (auto simp: inode_step_def)

lemma inode_lookup_step:
  assumes "inode_lookup env name i v = Some (r, v')"
  shows "inode_step v v' \<and> (\<forall>node. r = Some node \<longrightarrow> node_ok v' node)"
proof (cases "v_dir_inodes v i")
  case (Some x)
  show ?thesis
  proof (cases x)
    case (FatDirI dir)
    obtain q dir' n where look: "fat_lookup (e_chrono env) (e_utf16 env) (e_dev env) (v_fat v) (e_now env) name dir (v_inode_number v)
        = Some (q, dir', n)"
      using assms Some FatDirI by (auto simp: inode_lookup_def split: option.splits)
    let ?u = "v\<lparr> v_dir_inodes := (v_dir_inodes v)(i \<mapsto> FatDirI dir'), v_inode_number := n \<rparr>"
    have u: "inode_step v ?u" using Some by (intro inode_step_update) simp
    show ?thesis
    proof (cases q)
      case None
      then show ?thesis using assms Some FatDirI look u by (simp add: inode_lookup_def)
    next
      case (Some y)
      obtain node w where w: "add_fat_inode y ?u = (node, w)" by fastforce
      then have "r = Some node" "v' = w"
        using assms \<open>v_dir_inodes v i = Some x\<close> FatDirI look Some by (simp_all add: inode_lookup_def)
      then show ?thesis using add_fat_inode_step [OF w] inode_step_trans [OF u] by blast
    qed
  qed (use assms Some in \<open>simp add: inode_lookup_def\<close>)
qed (use assms in \<open>simp add: inode_lookup_def\<close>)

lemma inode_mkdir_step:
  assumes "inode_mkdir env i v = Some (r, v')"
  shows "inode_step v v' \<and> (\<forall>j. r = Inr j \<longrightarrow> v_dir_inodes v' j \<noteq> None)"
proof -
  have new: "inode_step v v' \<and> v_dir_inodes v' j \<noteq> None"
    if "new_dir_inode x u = (j, v')" "inode_step v u" for x u j
    using new_dir_inode_step [OF that(1)] inode_step_trans [OF that(2)] by blast
  show ?thesis
    using assms by (auto simp: inode_mkdir_def inode_step_fat inode_step_number
        split: option.splits dir_inode.splits prod.splits sum.splits dest!: new)
qed

lemma inode_mknod_step:
  assumes "inode_mknod env m i v = Some (r, v')"
  shows "inode_step v v' \<and> (\<forall>j. r = Inr j \<longrightarrow> v_bytes_inodes v' j \<noteq> None)"
proof -
  have new: "inode_step v v' \<and> v_bytes_inodes v' j \<noteq> None"
    if "new_bytes_inode x u = (j, v')" "inode_step v u" for x u j
    using new_bytes_inode_step [OF that(1)] inode_step_trans [OF that(2)] by blast
  show ?thesis
    using assms by (auto simp: inode_mknod_def inode_step_fat
        split: option.splits dir_inode.splits prod.splits sum.splits if_splits dest!: new)
qed

section \<open>Changing the tree\<close>

text \<open>A step of the tree keeps every entry with its parent, name and inode.\<close>

definition keeps_entries :: "vfs \<Rightarrow> vfs \<Rightarrow> bool" where
  "keeps_entries v v' \<longleftrightarrow>
     (\<forall>a d. v_dirs v a = Some d \<longrightarrow> (\<exists>cs. v_dirs v' a = Some (d\<lparr> dd_children := cs \<rparr>)))
     \<and> (\<forall>a f. v_files v a = Some f \<longrightarrow> v_files v' a = Some f)"

lemma same_children [simp]: "\<exists>cs. d = d\<lparr> dd_children := cs \<rparr>" for d :: dentry_dir
  by (rule exI [of _ "dd_children d"]) simp

lemma keeps_entries_refl [simp]: "keeps_entries v v"
  by (simp add: keeps_entries_def)

lemma keeps_entries_trans: "keeps_entries u v \<Longrightarrow> keeps_entries v w \<Longrightarrow> keeps_entries u w"
  unfolding keeps_entries_def by fastforce

lemma keeps_entries_inode_step: "inode_step v v' \<Longrightarrow> keeps_entries v v'"
  using keeps_entries_refl [of v] by (simp add: inode_step_def keeps_entries_def)

lemma linked_keeps: "keeps_entries v v' \<Longrightarrow> linked v a name r \<Longrightarrow> linked v' a name r"
  unfolding linked_def keeps_entries_def
  by (fastforce split: dref.splits option.splits)

lemma keeps_dir: "keeps_entries v v' \<Longrightarrow> v_dirs v a \<noteq> None \<Longrightarrow> v_dirs v' a \<noteq> None"
  unfolding keeps_entries_def by fastforce

lemma set_children_dirs:
  assumes "v_dirs v a = Some d"
  shows "v_dirs (set_children a cs v) = (v_dirs v)(a \<mapsto> d\<lparr> dd_children := cs \<rparr>)"
  using assms by (simp add: set_children_def)

lemma set_children_same [simp]:
  "v_files (set_children a cs v) = v_files v" "v_next (set_children a cs v) = v_next v"
  "v_dir_inodes (set_children a cs v) = v_dir_inodes v" "v_bytes_inodes (set_children a cs v) = v_bytes_inodes v"
  "v_next_inode (set_children a cs v) = v_next_inode v"
  by (auto simp: set_children_def split: option.split)

lemma keeps_set_children: "keeps_entries v (set_children a cs v)"
proof (cases "v_dirs v a")
  case (Some d)
  show ?thesis
    using keeps_entries_refl [of v] by (auto simp: keeps_entries_def set_children_dirs [OF Some] Some)
qed (simp add: set_children_def)

lemma tree_ok_set_children:
  assumes ok: "tree_ok v" and d: "v_dirs v a = Some d" and cs: "bt_inv cs"
    and links: "\<And>name r. bt_get cs name = Some r \<Longrightarrow> linked v a name r"
  shows "tree_ok (set_children a cs v)"
proof -
  let ?v = "set_children a cs v"
  note keep = keeps_set_children [of v a cs]
  have "dir_ok ?v b e" if be: "v_dirs ?v b = Some e" for b e
  proof -
    obtain e' where e': "v_dirs v b = Some e'" and e: "e = (if b = a then d\<lparr> dd_children := cs \<rparr> else e')"
      using be d by (cases "b = a") (simp_all add: set_children_dirs [OF d])
    have "dir_ok v b e'" by (rule tree_okD(1) [OF ok e'])
    then show ?thesis
      using e e' d cs links linked_keeps [OF keep] keeps_dir [OF keep] by (auto simp: dir_ok_def)
  qed
  moreover have "file_ok ?v b f" if "v_files ?v b = Some f" for b f
    using tree_okD(2) [OF ok, of b f] that keeps_dir [OF keep] by (auto simp: file_ok_def)
  ultimately show ?thesis using ok by (simp add: tree_ok_def)
qed

lemma new_dentry_dir_ok:
  assumes ok: "tree_ok v" and p: "\<And>q. p = Some q \<Longrightarrow> v_dirs v q \<noteq> None" and i: "v_dir_inodes v i \<noteq> None"
    and new: "new_dentry_dir p name i v = (a, v')"
  shows "tree_ok v'" "keeps_entries v v'" "a = v_next v" "v_next v' = Suc (v_next v)" "v_files v' = v_files v"
    "v_dirs v' = (v_dirs v)(a \<mapsto> \<lparr> dd_parent = p, dd_name = name, dd_children = [], dd_inode = i \<rparr>)"
proof -
  have new': "a = v_next v" "v_next v' = Suc (v_next v)" "v_files v' = v_files v"
    "v_dirs v' = (v_dirs v)(a \<mapsto> \<lparr> dd_parent = p, dd_name = name, dd_children = [], dd_inode = i \<rparr>)"
    "v_dir_inodes v' = v_dir_inodes v" "v_bytes_inodes v' = v_bytes_inodes v" "v_next_inode v' = v_next_inode v"
    using new by (auto simp: new_dentry_dir_def)
  then show "a = v_next v" "v_next v' = Suc (v_next v)" "v_files v' = v_files v"
    "v_dirs v' = (v_dirs v)(a \<mapsto> \<lparr> dd_parent = p, dd_name = name, dd_children = [], dd_inode = i \<rparr>)" by simp_all
  have fresh: "v_dirs v a = None" using tree_ok_fresh [OF ok] new' by simp
  show keep: "keeps_entries v v'"
    using keeps_entries_refl [of v] fresh by (auto simp: keeps_entries_def new')
  have "dir_ok v' b e" if "v_dirs v' b = Some e" for b e
  proof (cases "b = a")
    case True
    have "q < a" if "p = Some q" for q using p [OF that] tree_ok_dir(1) [OF ok, of q] new'(1) by auto
    then show ?thesis
      using True that p i keeps_dir [OF keep] by (auto simp: dir_ok_def new')
  next
    case False
    then have "dir_ok v b e" using that tree_okD(1) [OF ok] by (simp add: new')
    then show ?thesis
      using linked_keeps [OF keep] keeps_dir [OF keep] by (auto simp: dir_ok_def new'(2,5))
  qed
  moreover have "file_ok v' b f" if "v_files v' b = Some f" for b f
    using tree_okD(2) [OF ok, of b f] that keeps_dir [OF keep] by (auto simp: file_ok_def new'(2,3,6))
  ultimately show "tree_ok v'" using ok by (simp add: tree_ok_def new'(5,6,7))
qed

lemma new_dentry_bytes_ok:
  assumes ok: "tree_ok v" and p: "v_dirs v p \<noteq> None" and i: "v_bytes_inodes v i \<noteq> None"
    and new: "new_dentry_bytes p name i v = (a, v')"
  shows "tree_ok v'" "keeps_entries v v'" "a = v_next v" "v_next v' = Suc (v_next v)" "v_dirs v' = v_dirs v"
    "v_files v' = (v_files v)(a \<mapsto> \<lparr> db_parent = p, db_name = name, db_inode = i \<rparr>)"
proof -
  have new': "a = v_next v" "v_next v' = Suc (v_next v)" "v_dirs v' = v_dirs v"
    "v_files v' = (v_files v)(a \<mapsto> \<lparr> db_parent = p, db_name = name, db_inode = i \<rparr>)"
    "v_dir_inodes v' = v_dir_inodes v" "v_bytes_inodes v' = v_bytes_inodes v" "v_next_inode v' = v_next_inode v"
    using new by (auto simp: new_dentry_bytes_def)
  then show "a = v_next v" "v_next v' = Suc (v_next v)" "v_dirs v' = v_dirs v"
    "v_files v' = (v_files v)(a \<mapsto> \<lparr> db_parent = p, db_name = name, db_inode = i \<rparr>)" by simp_all
  have fresh: "v_files v a = None" using tree_ok_fresh [OF ok] new' by simp
  show keep: "keeps_entries v v'"
    using keeps_entries_refl [of v] fresh by (auto simp: keeps_entries_def new')
  have "dir_ok v' b e" if "v_dirs v' b = Some e" for b e
    using tree_okD(1) [OF ok, of b e] that linked_keeps [OF keep] by (auto simp: dir_ok_def new'(2,3,5))
  moreover have "file_ok v' b f" if "v_files v' b = Some f" for b f
    using tree_okD(2) [OF ok, of b f] that p i by (auto simp: file_ok_def new' split: if_splits)
  ultimately show "tree_ok v'" using ok by (simp add: tree_ok_def new'(5,6,7))
qed

section \<open>The names of a tree\<close>

text \<open>What the entries stand for: the map from a directory and a name to an entry.\<close>

definition entries :: "vfs \<Rightarrow> nat \<Rightarrow> string \<Rightarrow> dref option" where
  "entries v a name = (case v_dirs v a of None \<Rightarrow> None | Some d \<Rightarrow> bt_get (dd_children d) name)"

definition link_entry :: "nat \<Rightarrow> string \<Rightarrow> dref option \<Rightarrow> (nat \<Rightarrow> string \<Rightarrow> dref option) \<Rightarrow> nat \<Rightarrow> string \<Rightarrow> dref option" where
  "link_entry a name r E = E(a := (E a)(name := r))"

lemma entries_cong: "v_dirs v' = v_dirs v \<Longrightarrow> entries v' = entries v"
  by (simp add: entries_def fun_eq_iff)

lemma entries_inode_step: "inode_step v v' \<Longrightarrow> entries v' = entries v"
  unfolding inode_step_def by (elim conjE) (rule entries_cong)

lemma entries_set_children:
  assumes "v_dirs v a = Some d"
  shows "entries (set_children a cs v) = (entries v)(a := bt_get cs)"
  by (simp add: entries_def fun_eq_iff set_children_dirs [OF assms])

lemma entries_new_dir:
  assumes "tree_ok v" "new_dentry_dir p name i v = (a, v')"
  shows "entries v' = entries v"
  using tree_ok_fresh(1) [OF assms(1), of "v_next v"] assms(2)
  by (auto simp: entries_def fun_eq_iff new_dentry_dir_def)

lemma entries_new_bytes:
  assumes "new_dentry_bytes p name i v = (a, v')"
  shows "entries v' = entries v"
  using assms by (intro entries_cong) (auto simp: new_dentry_bytes_def)

lemma link_entry_same: "E a name = r \<Longrightarrow> link_entry a name r E = E"
  by (auto simp: link_entry_def fun_eq_iff)

lemma entries_linked: "tree_ok v \<Longrightarrow> entries v a name = Some r \<Longrightarrow> linked v a name r"
  using tree_ok_dir(5) [of v a] by (auto simp: entries_def split: option.splits)

text \<open>Linking an entry under a name of a directory, and removing a name.\<close>

lemma insert_child:
  assumes ok: "tree_ok v" and d: "v_dirs v a = Some d" and r: "linked v a name r"
  shows "tree_ok (set_children a (bt_insert name r (dd_children d)) v)"
    "entries (set_children a (bt_insert name r (dd_children d)) v) = link_entry a name (Some r) (entries v)"
proof -
  show "tree_ok (set_children a (bt_insert name r (dd_children d)) v)"
    by (rule tree_ok_set_children [OF ok d])
      (use r tree_ok_dir [OF ok d] in \<open>auto split: if_splits\<close>)
  show "entries (set_children a (bt_insert name r (dd_children d)) v) = link_entry a name (Some r) (entries v)"
    by (simp add: entries_set_children [OF d] link_entry_def fun_eq_iff entries_def d)
qed

lemma remove_child:
  assumes ok: "tree_ok v" and d: "v_dirs v a = Some d"
  shows "tree_ok (set_children a (bt_remove name (dd_children d)) v)"
    "entries (set_children a (bt_remove name (dd_children d)) v) = link_entry a name None (entries v)"
proof -
  note inv = tree_ok_dir(2) [OF ok d]
  show "tree_ok (set_children a (bt_remove name (dd_children d)) v)"
    by (rule tree_ok_set_children [OF ok d])
      (use inv tree_ok_dir(5) [OF ok d] in \<open>auto simp: bt_get_remove split: if_splits\<close>)
  show "entries (set_children a (bt_remove name (dd_children d)) v) = link_entry a name None (entries v)"
    by (simp add: entries_set_children [OF d] link_entry_def fun_eq_iff entries_def d bt_get_remove [OF inv])
qed

lemma entry_for_ok:
  assumes ok: "tree_ok v" and a: "v_dirs v a = Some d" and node: "node_ok v node"
    and new: "entry_for a name node v = (r, v')"
  shows "tree_ok v'" "keeps_entries v v'" "linked v' a name r" "v_dirs v' a = Some d" "entries v' = entries v"
    "v_next v' = Suc (v_next v)"
proof -
  have "tree_ok v' \<and> keeps_entries v v' \<and> linked v' a name r \<and> v_dirs v' a = Some d \<and> entries v' = entries v
    \<and> v_next v' = Suc (v_next v)"
  proof (cases node)
    case (Inl i)
    then obtain b where b: "new_dentry_dir (Some a) name i v = (b, v')" and r: "r = DDir b"
      using new by (auto simp: entry_for_def split: prod.splits)
    have i: "v_dir_inodes v i \<noteq> None" using node Inl by (simp add: node_ok_def)
    have "b \<noteq> a" using tree_ok_dir(1) [OF ok a] b by (auto simp: new_dentry_dir_def)
    then show ?thesis
      using new_dentry_dir_ok [OF ok _ i b] entries_new_dir [OF ok b] a r by (simp add: linked_def)
  next
    case (Inr i)
    then obtain b where b: "new_dentry_bytes a name i v = (b, v')" and r: "r = DBytes b"
      using new by (auto simp: entry_for_def split: prod.splits)
    have i: "v_bytes_inodes v i \<noteq> None" using node Inr by (simp add: node_ok_def)
    show ?thesis
      using new_dentry_bytes_ok [OF ok _ i b] entries_new_bytes [OF b] a r by (simp add: linked_def)
  qed
  then show "tree_ok v'" "keeps_entries v v'" "linked v' a name r" "v_dirs v' a = Some d" "entries v' = entries v"
    "v_next v' = Suc (v_next v)" by blast+
qed

lemma inode_step_ok:
  assumes "inode_step v v'"
  shows "tree_ok v \<Longrightarrow> tree_ok v'" "keeps_entries v v'" "entries v' = entries v" "v_dirs v' = v_dirs v"
    "v_files v' = v_files v" "v_next v' = v_next v"
  using assms tree_ok_inode_step keeps_entries_inode_step entries_inode_step by (auto simp: inode_step_def)

text \<open>The shape of the operations that link a new entry: make an inode, make an entry for it,
  insert the entry.\<close>

lemma link_new:
  assumes ok: "tree_ok v" and d: "v_dirs v a = Some d" and step: "inode_step v v1" and node: "node_ok v1 node"
    and new: "entry_for a name node v1 = (r, v2)"
    and v': "v' = set_children a (bt_insert name r (dd_children d)) v2"
  shows "tree_ok v' \<and> keeps_entries v v' \<and> entries v' = link_entry a name (Some r) (entries v) \<and> linked v' a name r
    \<and> v_next v' = Suc (v_next v)"
proof -
  note s = inode_step_ok [OF step]
  have d1: "v_dirs v1 a = Some d" using d s by simp
  note e = entry_for_ok [OF s(1) [OF ok] d1 node new]
  note i = insert_child [OF e(1,4,3)]
  have keep: "keeps_entries v2 v'" unfolding v' by (rule keeps_set_children)
  have "keeps_entries v v'" by (rule keeps_entries_trans [OF s(2) keeps_entries_trans [OF e(2) keep]])
  then show ?thesis using i e(5,6) s(3,6) linked_keeps [OF keep e(3)] by (simp add: v')
qed

lemma dentry_lookup_ok:
  assumes ok: "tree_ok v" and d: "v_dirs v a = Some d" and run: "dentry_lookup env a c v = Some (r, v')"
  shows "tree_ok v' \<and> keeps_entries v v' \<and> v_next v \<le> v_next v'
    \<and> (if c = ''.'' then r = Some (DDir a) \<and> entries v' = entries v
       else if c = ''..'' then r = Some (DDir (case dd_parent d of Some p \<Rightarrow> p | None \<Rightarrow> a)) \<and> entries v' = entries v
       else entries v' = link_entry a c r (entries v) \<and> (\<forall>x. entries v a c = Some x \<longrightarrow> r = Some x))"
proof -
  define v1 where "v1 = touch_dir (e_now env) (dd_inode d) v"
  have s1: "inode_step v v1" unfolding v1_def by simp
  note i1 = inode_step_ok [OF s1]
  have special: ?thesis if "c = ''.'' \<or> c = ''..''"
    using run that d i1 ok by (auto simp: dentry_lookup_def Let_def v1_def)
  have general: ?thesis if c: "c \<noteq> ''.''" "c \<noteq> ''..''"
  proof (cases "bt_get (dd_children d) c")
    case (Some x)
    then have "r = Some x" "v' = v1" using run c d by (simp_all add: dentry_lookup_def Let_def v1_def)
    moreover have "entries v a c = Some x" using Some d by (simp add: entries_def)
    ultimately show ?thesis using c i1 ok by (simp add: link_entry_same)
  next
    case None
    have E: "entries v a c = None" using None d by (simp add: entries_def)
    obtain q v2 where look: "inode_lookup env c (dd_inode d) v1 = Some (q, v2)"
      using run c d None by (auto simp: dentry_lookup_def Let_def v1_def split: option.splits)
    note step = inode_lookup_step [OF look]
    have s2: "inode_step v v2" using inode_step_trans [OF s1] step by blast
    note i2 = inode_step_ok [OF s2]
    show ?thesis
    proof (cases q)
      case None
      then have "r = None" "v' = v2"
        using run c d \<open>bt_get (dd_children d) c = None\<close> look by (simp_all add: dentry_lookup_def Let_def v1_def)
      then show ?thesis using c i2 ok E by (simp add: link_entry_same)
    next
      case (Some node)
      obtain x v3 where new: "entry_for a c node v2 = (x, v3)" by fastforce
      have "r = Some x" "v' = set_children a (bt_insert c x (dd_children d)) v3"
        using run c d \<open>bt_get (dd_children d) c = None\<close> look Some new
        by (simp_all add: dentry_lookup_def Let_def v1_def)
      moreover have "node_ok v2 node" using step Some by blast
      ultimately show ?thesis using link_new [OF ok d s2 _ new] c E by simp
    qed
  qed
  show ?thesis using special general by blast
qed

lemma dentry_mkdir_ok:
  assumes ok: "tree_ok v" and d: "v_dirs v a = Some d" and run: "dentry_mkdir env a c v = Some (r, v')"
  shows "tree_ok v' \<and> keeps_entries v v' \<and> v_next v \<le> v_next v'
    \<and> (case r of
         Inl e \<Rightarrow> entries v' = entries v
       | Inr b \<Rightarrow> c \<noteq> ''.'' \<and> c \<noteq> ''..'' \<and> entries v a c = None \<and> b = v_next v
           \<and> entries v' = link_entry a c (Some (DDir b)) (entries v))"
proof (cases "c = ''.'' \<or> c = ''..'' \<or> bt_get (dd_children d) c \<noteq> None")
  case True
  then show ?thesis using run d ok by (auto simp: dentry_mkdir_def split: if_splits)
next
  case False
  obtain q v1 where mk: "inode_mkdir env (dd_inode d) v = Some (q, v1)"
    using run False d by (auto simp: dentry_mkdir_def split: option.splits)
  note step = inode_mkdir_step [OF mk]
  show ?thesis
  proof (cases q)
    case (Inl e)
    then have "r = Inl e" "v' = v1" using run False d mk by (simp_all add: dentry_mkdir_def)
    then show ?thesis using inode_step_ok [OF conjunct1 [OF step]] ok by simp
  next
    case (Inr i)
    obtain b v2 where new: "new_dentry_dir (Some a) c i v1 = (b, v2)" by fastforce
    have r: "r = Inr b" "v' = set_children a (bt_insert c (DDir b) (dd_children d)) v2"
      using run False d mk Inr new by (simp_all add: dentry_mkdir_def)
    have e: "entry_for a c (Inl i) v1 = (DDir b, v2)" using new by (simp add: entry_for_def)
    have n: "node_ok v1 (Inl i)" using step Inr by (simp add: node_ok_def)
    have "tree_ok v' \<and> keeps_entries v v' \<and> entries v' = link_entry a c (Some (DDir b)) (entries v)
        \<and> linked v' a c (DDir b) \<and> v_next v' = Suc (v_next v)"
      by (rule link_new [OF ok d conjunct1 [OF step] n e r(2)])
    moreover have "b = v_next v" using new inode_step_ok(6) [OF conjunct1 [OF step]] by (simp add: new_dentry_dir_def)
    ultimately show ?thesis using False r d by (simp add: entries_def)
  qed
qed

lemma dentry_mknod_ok:
  assumes ok: "tree_ok v" and d: "v_dirs v a = Some d" and run: "dentry_mknod env a c m v = Some (r, v')"
  shows "tree_ok v' \<and> keeps_entries v v' \<and> v_next v \<le> v_next v'
    \<and> (case r of
         Inl e \<Rightarrow> entries v' = entries v
       | Inr b \<Rightarrow> c \<noteq> ''.'' \<and> c \<noteq> ''..'' \<and> entries v a c = None \<and> b = v_next v
           \<and> entries v' = link_entry a c (Some (DBytes b)) (entries v))"
proof (cases "m = SymbolLink \<or> m = Dir \<or> c = ''.'' \<or> c = ''..'' \<or> bt_get (dd_children d) c \<noteq> None")
  case True
  then show ?thesis using run d ok by (auto simp: dentry_mknod_def split: if_splits)
next
  case False
  obtain q v1 where mk: "inode_mknod env m (dd_inode d) v = Some (q, v1)"
    using run False d by (auto simp: dentry_mknod_def split: option.splits)
  note step = inode_mknod_step [OF mk]
  show ?thesis
  proof (cases q)
    case (Inl e)
    then have "r = Inl e" "v' = v1" using run False d mk by (simp_all add: dentry_mknod_def)
    then show ?thesis using inode_step_ok [OF conjunct1 [OF step]] ok by simp
  next
    case (Inr i)
    obtain b v2 where new: "new_dentry_bytes a c i v1 = (b, v2)" by fastforce
    have r: "r = Inr b" "v' = set_children a (bt_insert c (DBytes b) (dd_children d)) v2"
      using run False d mk Inr new by (simp_all add: dentry_mknod_def)
    have e: "entry_for a c (Inr i) v1 = (DBytes b, v2)" using new by (simp add: entry_for_def)
    have n: "node_ok v1 (Inr i)" using step Inr by (simp add: node_ok_def)
    have "tree_ok v' \<and> keeps_entries v v' \<and> entries v' = link_entry a c (Some (DBytes b)) (entries v)
        \<and> linked v' a c (DBytes b) \<and> v_next v' = Suc (v_next v)"
      by (rule link_new [OF ok d conjunct1 [OF step] n e r(2)])
    moreover have "b = v_next v" using new inode_step_ok(6) [OF conjunct1 [OF step]] by (simp add: new_dentry_bytes_def)
    ultimately show ?thesis using False r d by (simp add: entries_def)
  qed
qed

lemma dentry_unlink_ok:
  assumes ok: "tree_ok v" and d: "v_dirs v a = Some d" and run: "dentry_unlink a c v = Some (r, v')"
  shows "tree_ok v' \<and> keeps_entries v v' \<and> v_next v' = v_next v
    \<and> (if c = ''.'' \<or> c = ''..'' then r = Inl EINVAL \<and> v' = v
       else r = Inr () \<and> entries v' = link_entry a c None (entries v))"
  using run d ok remove_child [OF ok d, of c] keeps_set_children [of v a]
  by (auto simp: dentry_unlink_def split: if_splits)

lemma dentry_remove_dir_ok:
  assumes ok: "tree_ok v" and run: "dentry_remove_dir a b v = Some (r, v')"
  shows "tree_ok v' \<and> keeps_entries v v' \<and> v_next v' = v_next v
    \<and> (\<exists>d e. v_dirs v a = Some d \<and> v_dirs v b = Some e \<and> dd_parent e = Some a
        \<and> (if length (dd_children d) = 2 then r = Inl ENOTEMPTY \<and> v' = v
           else r = Inr () \<and> entries v' = link_entry a (dd_name e) None (entries v)))"
proof -
  obtain d e where d: "v_dirs v a = Some d" and e: "v_dirs v b = Some e"
    using run by (auto simp: dentry_remove_dir_def split: option.splits)
  show ?thesis
    using run d e ok remove_child [OF ok d, of "dd_name e"] keeps_set_children [of v a]
    by (auto simp: dentry_remove_dir_def split: if_splits)
qed

lemma add_children_ok:
  assumes "tree_ok v" "v_dirs v a = Some d" "bt_inv cs" "\<And>name r. bt_get cs name = Some r \<Longrightarrow> linked v a name r"
    and "add_children a xs cs v = (cs', v')" "distinct (map fst xs)" "\<forall>x \<in> set xs. bt_get cs (fst x) = None"
  shows "tree_ok v' \<and> keeps_entries v v' \<and> v_next v \<le> v_next v' \<and> v_dirs v' a = Some d \<and> bt_inv cs'
    \<and> entries v' = entries v \<and> (\<forall>name r. bt_get cs' name = Some r \<longrightarrow> linked v' a name r)
    \<and> (\<forall>name r. bt_get cs name = Some r \<longrightarrow> bt_get cs' name = Some r)"
  using assms
proof (induction xs arbitrary: cs v)
  case (Cons x xs)
  obtain name y where x: "x = (name, y)" by (cases x)
  obtain node v1 where add: "add_fat_inode y v = (node, v1)" by fastforce
  obtain r v2 where new: "entry_for a name node v1 = (r, v2)" by fastforce
  note step = add_fat_inode_step [OF add]
  note s = inode_step_ok [OF conjunct1 [OF step]]
  have d1: "v_dirs v1 a = Some d" using Cons.prems(2) s by simp
  note e = entry_for_ok [OF s(1) [OF Cons.prems(1)] d1 conjunct2 [OF step] new]
  have keep: "keeps_entries v v2" by (rule keeps_entries_trans [OF s(2) e(2)])
  have rest: "add_children a xs (bt_insert name r cs) v2 = (cs', v')"
    using Cons.prems(5) by (simp add: x add new)
  have links: "linked v2 a n q" if "bt_get (bt_insert name r cs) n = Some q" for n q
    using that Cons.prems(4) linked_keeps [OF keep] e(3) by (auto split: if_splits)
  have fresh: "bt_get cs name = None" using Cons.prems(7) x by simp
  have IH: "tree_ok v' \<and> keeps_entries v2 v' \<and> v_next v2 \<le> v_next v' \<and> v_dirs v' a = Some d \<and> bt_inv cs'
    \<and> entries v' = entries v2 \<and> (\<forall>name r. bt_get cs' name = Some r \<longrightarrow> linked v' a name r)
    \<and> (\<forall>n q. bt_get (bt_insert name r cs) n = Some q \<longrightarrow> bt_get cs' n = Some q)"
    by (rule Cons.IH [OF e(1,4) _ links rest]) (use Cons.prems x in \<open>auto simp: image_iff\<close>)
  have "keeps_entries v v'" using keeps_entries_trans [OF keep] IH by blast
  moreover have "bt_get cs' n = Some q" if "bt_get cs n = Some q" for n q
    using IH that fresh by (metis bt_get_insert fun_upd_apply option.distinct(1))
  ultimately show ?case using IH e(5,6) s(3,6) by simp
qed simp

lemma read_dir_items_fresh:
  assumes "read_dir_items ch F present n items = Some (xs, n')"
  shows "distinct (map fst xs) \<and> fst ` set xs \<inter> present = {}"
  using assms
proof (induction ch F present n items arbitrary: xs n' rule: read_dir_items.induct)
  case (4 ch F present n d items)
  obtain name d' where t: "take_name d = (name, d')" by fastforce
  show ?case
  proof (cases "name \<in> present")
    case True
    then show ?thesis using 4(1) [OF t [symmetric] True] 4(3) by (simp add: t)
  next
    case False
    obtain node m ys where n: "(if is_dir d' then map_option (\<lambda>(x, n). (FatDirInode x, n)) (FatDir_from_dir_entry ch F d' n)
          else map_option (\<lambda>(x, n). (FatFileInode x, n)) (FatFile_from_dir_entry ch F d' n)) = Some (node, m)"
      and ys: "read_dir_items ch F (insert name present) m items = Some (ys, n')" and xs: "xs = (name, node) # ys"
      using 4(3) False by (auto simp: t bind_eq_Some_conv simp del: map_option_eq_Some)
    show ?thesis
      using 4(2) [OF t [symmetric] False n refl ys] False xs by auto
  qed
qed auto

lemma dentry_read_dir_ok:
  assumes ok: "tree_ok v" and run: "dentry_read_dir env a v = Some v'"
  shows "tree_ok v' \<and> keeps_entries v v' \<and> v_next v \<le> v_next v'
    \<and> (\<forall>b name r. entries v b name = Some r \<longrightarrow> entries v' b name = Some r)
    \<and> (\<forall>b. b \<noteq> a \<longrightarrow> entries v' b = entries v b)"
proof -
  obtain d x where d: "v_dirs v a = Some d" and x: "v_dir_inodes v (dd_inode d) = Some x"
    using run by (auto simp: dentry_read_dir_def split: option.splits)
  show ?thesis
  proof (cases x)
    case (FatDirI dir)
    obtain xs n where items: "read_dir_items (e_chrono env) (v_fat v) (set (bt_keys (dd_children d))) (v_inode_number v)
          (dir_entry_iter (e_utf16 env) (e_dev env) (v_fat v) (fd_clusters dir)) = Some (xs, n)"
      using run d x FatDirI by (auto simp: dentry_read_dir_def split: option.splits)
    let ?u = "v\<lparr> v_inode_number := n \<rparr>"
    obtain cs v1 where add: "add_children a xs (dd_children d) ?u = (cs, v1)" by fastforce
    have v': "v' = touch_dir (e_now env) (dd_inode d) (set_children a cs v1)"
      using run d x FatDirI items add by (simp add: dentry_read_dir_def)
    note u = inode_step_ok [OF inode_step_number [of v n]]
    note names = read_dir_items_fresh [OF items]
    have none: "\<forall>x \<in> set xs. bt_get (dd_children d) (fst x) = None"
      using names dom_bt_get [of "dd_children d"] by (auto simp: bt_keys_def)
    have du: "v_dirs ?u a = Some d" using d by simp
    have links: "linked ?u a name r" if "bt_get (dd_children d) name = Some r" for name r
      using linked_keeps [OF u(2) tree_ok_dir(5) [OF ok d that]] .
    note A = add_children_ok [OF u(1) [OF ok] du tree_ok_dir(2) [OF ok d] links add conjunct1 [OF names] none]
    have d1: "v_dirs v1 a = Some d" using A by blast
    have ok2: "tree_ok (set_children a cs v1)"
      by (rule tree_ok_set_children [OF _ d1]) (use A in blast)+
    note t = inode_step_ok [OF touch_dir_step [of "set_children a cs v1" "e_now env" "dd_inode d"], folded v']
    have E: "entries v' = (entries v)(a := bt_get cs)"
      using t(3) entries_set_children [OF d1] A u(3) by simp
    have "keeps_entries v v'"
      using keeps_entries_trans [OF keeps_entries_trans [OF u(2)] keeps_entries_trans [OF keeps_set_children t(2)]] A by blast
    then show ?thesis
      using t(1) [OF ok2] t(6) A E d by (auto simp: entries_def)
  qed (use run d x ok in \<open>simp add: dentry_read_dir_def\<close>)
qed

lemma dentry_rename_dir_ok:
  assumes ok: "tree_ok v" and run: "dentry_rename_dir a new_dir new_name v = Some (r, v')"
  shows "tree_ok v' \<and> keeps_entries v v' \<and> v_next v \<le> v_next v'
    \<and> (\<exists>d. v_dirs v a = Some d
        \<and> (case dd_parent d of
             None \<Rightarrow> r = Inl EBUSY \<and> v' = v
           | Some p \<Rightarrow> r = Inr 0 \<and> entries v' = link_entry new_dir new_name (Some (DDir (v_next v)))
                (link_entry p (dd_name d) None (entries v))
                \<and> (\<exists>e. v_dirs v' (v_next v) = Some e \<and> dd_children e = [] \<and> dd_inode e = dd_inode d)))"
proof -
  obtain d where d: "v_dirs v a = Some d"
    using run by (auto simp: dentry_rename_dir_def split: option.splits)
  show ?thesis
  proof (cases "dd_parent d")
    case None
    then show ?thesis using run d ok by (simp add: dentry_rename_dir_def)
  next
    case (Some p)
    obtain od where od: "v_dirs v p = Some od" and nd0: "v_dirs v new_dir \<noteq> None"
      using run d Some by (auto simp: dentry_rename_dir_def split: option.splits)
    define v1 where "v1 = set_children p (bt_remove (dd_name d) (dd_children od)) v"
    obtain b v2 where new: "new_dentry_dir (Some new_dir) new_name (dd_inode d) v1 = (b, v2)" by fastforce
    note r1 = remove_child [OF ok od, of "dd_name d", folded v1_def]
    have k1: "keeps_entries v v1" unfolding v1_def by (rule keeps_set_children)
    have n1: "v_next v1 = v_next v" "v_dir_inodes v1 = v_dir_inodes v" by (simp_all add: v1_def)
    have nd1: "v_dirs v1 new_dir \<noteq> None" by (rule keeps_dir [OF k1 nd0])
    have i1: "v_dir_inodes v1 (dd_inode d) \<noteq> None" using tree_ok_dir(4) [OF ok d] n1 by simp
    note r2 = new_dentry_dir_ok [OF r1(1) _ i1 new]
    have p1: "v_dirs v1 q \<noteq> None" if "Some new_dir = Some q" for q using that nd1 by simp
    note R2 = r2 [OF p1]
    obtain nd where nd: "v_dirs v2 new_dir = Some nd" using keeps_dir [OF R2(2) nd1] by blast
    have b: "b = v_next v" using R2(3) n1 by simp
    have v': "r = Inr 0" "v' = set_children new_dir (bt_insert new_name (DDir b) (dd_children nd)) v2"
      using run d Some od nd0 new nd by (auto simp: dentry_rename_dir_def v1_def Let_def)
    have l: "linked v2 new_dir new_name (DDir b)" using R2(6) by (simp add: linked_def)
    note r3 = insert_child [OF R2(1) nd l, folded v'(2)]
    have k3: "keeps_entries v2 v'" unfolding v'(2) by (rule keeps_set_children)
    have "new_dir \<noteq> b" using tree_ok_dir(1) [OF ok] nd0 b by (metis not_None_eq nat_neq_iff)
    then have e: "v_dirs v' b = Some \<lparr> dd_parent = Some new_dir, dd_name = new_name, dd_children = [], dd_inode = dd_inode d \<rparr>"
      by (simp add: v'(2) set_children_dirs [OF nd] R2(6))
    have "keeps_entries v v'" by (rule keeps_entries_trans [OF k1 keeps_entries_trans [OF R2(2) k3]])
    moreover have "entries v' = link_entry new_dir new_name (Some (DDir b)) (link_entry p (dd_name d) None (entries v))"
      using r3(2) entries_new_dir [OF r1(1) new] r1(2) by simp
    moreover have "v_next v' = Suc (v_next v)" using R2(4) n1 by (simp add: v'(2))
    ultimately show ?thesis using r3(1) v'(1) d Some e b by simp
  qed
qed

lemma dentry_rename_bytes_ok:
  assumes ok: "tree_ok v" and run: "dentry_rename_bytes a new_dir new_name v = Some (r, v')"
  shows "tree_ok v' \<and> keeps_entries v v' \<and> v_next v \<le> v_next v'
    \<and> (\<exists>f. v_files v a = Some f \<and> r = Inr 0
        \<and> entries v' = link_entry new_dir new_name (Some (DBytes (v_next v)))
             (link_entry (db_parent f) (db_name f) None (entries v))
        \<and> (\<exists>g. v_files v' (v_next v) = Some g \<and> db_inode g = db_inode f))"
proof -
  obtain f od where f: "v_files v a = Some f" and od: "v_dirs v (db_parent f) = Some od" and nd0: "v_dirs v new_dir \<noteq> None"
    using run by (auto simp: dentry_rename_bytes_def split: option.splits)
  define v1 where "v1 = set_children (db_parent f) (bt_remove (db_name f) (dd_children od)) v"
  obtain b v2 where new: "new_dentry_bytes new_dir new_name (db_inode f) v1 = (b, v2)" by fastforce
  note r1 = remove_child [OF ok od, of "db_name f", folded v1_def]
  have k1: "keeps_entries v v1" unfolding v1_def by (rule keeps_set_children)
  have n1: "v_next v1 = v_next v" "v_bytes_inodes v1 = v_bytes_inodes v" by (simp_all add: v1_def)
  have nd1: "v_dirs v1 new_dir \<noteq> None" by (rule keeps_dir [OF k1 nd0])
  have i1: "v_bytes_inodes v1 (db_inode f) \<noteq> None" using tree_okD(2) [OF ok f] n1 by (simp add: file_ok_def)
  note R2 = new_dentry_bytes_ok [OF r1(1) nd1 i1 new]
  obtain nd where nd: "v_dirs v2 new_dir = Some nd" using keeps_dir [OF R2(2) nd1] by blast
  have b: "b = v_next v" using R2(3) n1 by simp
  have v': "r = Inr 0" "v' = set_children new_dir (bt_insert new_name (DBytes b) (dd_children nd)) v2"
    using run f od nd0 new nd by (auto simp: dentry_rename_bytes_def v1_def Let_def)
  have l: "linked v2 new_dir new_name (DBytes b)" using R2(6) by (simp add: linked_def)
  note r3 = insert_child [OF R2(1) nd l, folded v'(2)]
  have k3: "keeps_entries v2 v'" unfolding v'(2) by (rule keeps_set_children)
  have g: "v_files v' b = Some \<lparr> db_parent = new_dir, db_name = new_name, db_inode = db_inode f \<rparr>"
    by (simp add: v'(2) R2(6))
  have "keeps_entries v v'" by (rule keeps_entries_trans [OF k1 keeps_entries_trans [OF R2(2) k3]])
  moreover have "entries v' = link_entry new_dir new_name (Some (DBytes b)) (link_entry (db_parent f) (db_name f) None (entries v))"
    using r3(2) entries_new_bytes [OF new] r1(2) by simp
  moreover have "v_next v' = Suc (v_next v)" using R2(4) n1 by (simp add: v'(2))
  ultimately show ?thesis using r3(1) v'(1) f g b by simp
qed

section \<open>The names of directories, abstractly\<close>

text \<open>
  C14: The entries implement a map from a directory and a name to an entry.  On a well-formed
  tree every operation that returns leaves a well-formed tree, in which each entry there was
  has its parent, its name and its inode, and it acts on the map as its contract says.  A lookup
  of \<^verbatim>\<open>.\<close> and \<^verbatim>\<open>..\<close> gives the directory and its parent, the root being its own parent; a lookup
  of another name gives the entry the name has, and otherwise enters what it finds.  Making a
  directory or a file fails or links a new entry under a free name.  Unlinking clears one name.
  Removing a directory clears its name in its parent.  Renaming clears the old name and links
  a new entry with the same inode under the new one.
\<close>

theorem namespace_refinement:
  assumes "tree_ok v"
  shows "(\<forall>a c r v' d. v_dirs v a = Some d \<longrightarrow> dentry_lookup env a c v = Some (r, v') \<longrightarrow>
      tree_ok v' \<and> keeps_entries v v'
      \<and> (if c = ''.'' then r = Some (DDir a) \<and> entries v' = entries v
         else if c = ''..'' then r = Some (DDir (case dd_parent d of Some p \<Rightarrow> p | None \<Rightarrow> a)) \<and> entries v' = entries v
         else entries v' = link_entry a c r (entries v) \<and> (\<forall>x. entries v a c = Some x \<longrightarrow> r = Some x)))
    \<and> (\<forall>a c r v' d. v_dirs v a = Some d \<longrightarrow> dentry_mkdir env a c v = Some (r, v') \<longrightarrow>
      tree_ok v' \<and> keeps_entries v v'
      \<and> (case r of Inl e \<Rightarrow> entries v' = entries v
         | Inr b \<Rightarrow> c \<noteq> ''.'' \<and> c \<noteq> ''..'' \<and> entries v a c = None \<and> b = v_next v
             \<and> entries v' = link_entry a c (Some (DDir b)) (entries v)))
    \<and> (\<forall>a c m r v' d. v_dirs v a = Some d \<longrightarrow> dentry_mknod env a c m v = Some (r, v') \<longrightarrow>
      tree_ok v' \<and> keeps_entries v v'
      \<and> (case r of Inl e \<Rightarrow> entries v' = entries v
         | Inr b \<Rightarrow> c \<noteq> ''.'' \<and> c \<noteq> ''..'' \<and> entries v a c = None \<and> b = v_next v
             \<and> entries v' = link_entry a c (Some (DBytes b)) (entries v)))
    \<and> (\<forall>a c r v' d. v_dirs v a = Some d \<longrightarrow> dentry_unlink a c v = Some (r, v') \<longrightarrow>
      tree_ok v' \<and> keeps_entries v v'
      \<and> (if c = ''.'' \<or> c = ''..'' then r = Inl EINVAL \<and> v' = v
         else r = Inr () \<and> entries v' = link_entry a c None (entries v)))
    \<and> (\<forall>a b r v'. dentry_remove_dir a b v = Some (r, v') \<longrightarrow>
      tree_ok v' \<and> keeps_entries v v'
      \<and> (case r of Inl e \<Rightarrow> v' = v
         | Inr _ \<Rightarrow> \<exists>e. v_dirs v b = Some e \<and> dd_parent e = Some a \<and> entries v' = link_entry a (dd_name e) None (entries v)))
    \<and> (\<forall>a new_dir new_name r v'. dentry_rename_dir a new_dir new_name v = Some (r, v') \<longrightarrow>
      tree_ok v' \<and> keeps_entries v v'
      \<and> (\<exists>d. v_dirs v a = Some d
         \<and> (case dd_parent d of
              None \<Rightarrow> r = Inl EBUSY \<and> v' = v
            | Some p \<Rightarrow> r = Inr 0 \<and> entries v' = link_entry new_dir new_name (Some (DDir (v_next v)))
                 (link_entry p (dd_name d) None (entries v))
                \<and> (\<exists>e. v_dirs v' (v_next v) = Some e \<and> dd_inode e = dd_inode d))))
    \<and> (\<forall>a new_dir new_name r v'. dentry_rename_bytes a new_dir new_name v = Some (r, v') \<longrightarrow>
      tree_ok v' \<and> keeps_entries v v'
      \<and> (\<exists>f. v_files v a = Some f \<and> r = Inr 0
         \<and> entries v' = link_entry new_dir new_name (Some (DBytes (v_next v)))
              (link_entry (db_parent f) (db_name f) None (entries v))
         \<and> (\<exists>g. v_files v' (v_next v) = Some g \<and> db_inode g = db_inode f)))"
  apply (intro conjI)
  subgoal using dentry_lookup_ok [OF assms] by blast
  subgoal using dentry_mkdir_ok [OF assms] by blast
  subgoal using dentry_mknod_ok [OF assms] by blast
  subgoal using dentry_unlink_ok [OF assms] by blast
  subgoal using dentry_remove_dir_ok [OF assms] by (fastforce split: if_splits)
  subgoal using dentry_rename_dir_ok [OF assms] by (fastforce split: option.splits)
  subgoal using dentry_rename_bytes_ok [OF assms] by blast
  done

text \<open>A small tree: the root holds the directory \<^verbatim>\<open>a\<close>, and this holds the directory \<^verbatim>\<open>b\<close>.\<close>

definition demo_meta :: InodeMeta where
  "demo_meta = fst (InodeMeta_new Dir 0)"

definition demo_dir :: "nat option \<Rightarrow> string \<Rightarrow> (string, dref) btree \<Rightarrow> nat \<Rightarrow> dentry_dir" where
  "demo_dir p n cs i = \<lparr> dd_parent = p, dd_name = n, dd_children = cs, dd_inode = i \<rparr>"

definition demo_vfs :: vfs where
  "demo_vfs = \<lparr> v_dirs = [0 \<mapsto> demo_dir None ''/'' [(''a'', DDir 1)] 0, 1 \<mapsto> demo_dir (Some 0) ''a'' [(''b'', DDir 2)] 1,
       2 \<mapsto> demo_dir (Some 1) ''b'' [] 2],
     v_files = (\<lambda>_. None), v_next = 3, v_dir_inodes = [0 \<mapsto> TmpDirI demo_meta, 1 \<mapsto> TmpDirI demo_meta, 2 \<mapsto> TmpDirI demo_meta],
     v_bytes_inodes = (\<lambda>_. None), v_next_inode = 3, v_inode_number = 3, v_fat = demo_fat \<rparr>"

lemma demo_vfs_ok: "tree_ok demo_vfs"
  by (auto simp: tree_ok_def dir_ok_def linked_def demo_vfs_def demo_dir_def bt_get_Cons bt_inv_Cons split: if_splits)

definition demo_env :: "(nat, nat) fs_env" where
  "demo_env = \<lparr> e_chrono = demo_chrono, e_utf16 = (\<lambda>_. None), e_dev = (\<lambda>_. []), e_now = \<lparr> ts_sec = 1, ts_nsec = 2 \<rparr> \<rparr>"

theorem namespace_refinement_witness:
  "tree_ok demo_vfs
    \<and> (\<exists>v'. dentry_mkdir demo_env 1 ''c'' demo_vfs = Some (Inr 3, v') \<and> tree_ok v'
        \<and> entries v' = link_entry 1 ''c'' (Some (DDir 3)) (entries demo_vfs))"
proof -
  have d: "v_dirs demo_vfs 1 = Some (demo_dir (Some 0) ''a'' [(''b'', DDir 2)] 1)" by (simp add: demo_vfs_def)
  obtain v' where mk: "dentry_mkdir demo_env 1 ''c'' demo_vfs = Some (Inr 3, v')"
    by (simp add: dentry_mkdir_def inode_mkdir_def new_dir_inode_def new_dentry_dir_def TmpDir_new_def InodeMeta_new_def
        demo_vfs_def demo_dir_def bt_get_Cons)
  have "tree_ok v' \<and> entries v' = link_entry 1 ''c'' (Some (DDir 3)) (entries demo_vfs)"
    using conjunct1 [OF conjunct2 [OF namespace_refinement [OF demo_vfs_ok, of demo_env]], rule_format, OF d mk] by simp
  then show ?thesis using mk demo_vfs_ok by blast
qed

text \<open>A directory renamed in a memory file system loses its contents: the new entry has no
  children, and the inode of a memory directory knows of none.\<close>

lemma renamed_dir_is_empty:
  assumes "tree_ok v" "v_dirs v a = Some d" "v_dir_inodes v (dd_inode d) = Some (TmpDirI meta)"
    and "dentry_rename_dir a new_dir new_name v = Some (Inr x, v')" and "name \<noteq> ''.''" "name \<noteq> ''..''"
  shows "map_option fst (dentry_lookup env (v_next v) name v') = Some None"
proof -
  obtain e where e: "v_dirs v' (v_next v) = Some e" "dd_children e = []" "dd_inode e = dd_inode d"
    using dentry_rename_dir_ok [OF assms(1,4)] assms(2) by (auto split: option.splits)
  have "v_dir_inodes v' = v_dir_inodes v"
    using assms(4) by (auto simp: dentry_rename_dir_def new_dentry_dir_def Let_def split: option.splits)
  then show ?thesis
    using e assms(3,5,6) by (simp add: dentry_lookup_def Let_def inode_lookup_def touch_dir_def)
qed

text \<open>Whether a directory may be removed depends on the number of entries of its parent, and not
  on its own entries.\<close>

lemma remove_dir_ignores_contents:
  "map_option fst (dentry_remove_dir 0 1 demo_vfs) = Some (Inr ())" "entries demo_vfs 1 ''b'' \<noteq> None"
  by (simp_all add: dentry_remove_dir_def demo_vfs_def demo_dir_def entries_def bt_get_Cons)

end
