(* ===== verification/Vfs.thy ===== *)
theory Vfs
  imports Dentry FileTable
begin

text \<open>
  The virtual file system: walking paths, mounting and unmounting
  (\<^verbatim>\<open>crates/libkernel/src/fs/mod.rs\<close>), the file systems that live in memory
  (\<^verbatim>\<open>crates/fs/tmpfs\<close>, \<^verbatim>\<open>devfs\<close>, \<^verbatim>\<open>procfs\<close>) and the mounts made at boot
  (\<^verbatim>\<open>init_vfs\<close> of \<^verbatim>\<open>crates/kernel/src/glue.rs\<close>).

  An operation that may fail gives an error number or a result, and the state in both cases;
  None is a panic.  The paths of directories and the walk along a path are shown to be inverse
  to each other, and every operation keeps the tree of entries well-formed.
\<close>

section \<open>Paths\<close>

text \<open>Composition of operations with errors: the operator \<^verbatim>\<open>?\<close> of the source.\<close>

definition sbind :: "((errno + 'a) \<times> 's) option \<Rightarrow> ('a \<Rightarrow> 's \<Rightarrow> ((errno + 'b) \<times> 's) option) \<Rightarrow> ((errno + 'b) \<times> 's) option" where
  "sbind m k = (case m of
     None \<Rightarrow> None
   | Some (Inl e, s) \<Rightarrow> Some (Inl e, s)
   | Some (Inr x, s) \<Rightarrow> k x s)"

fun split_on :: "char \<Rightarrow> string \<Rightarrow> string list" where
  "split_on c [] = [[]]"
| "split_on c (x # xs) = (if x = c then [] # split_on c xs
     else (case split_on c xs of [] \<Rightarrow> [[x]] | w # ws \<Rightarrow> (x # w) # ws))"

definition trim_start_matches :: "char \<Rightarrow> string \<Rightarrow> string" where
  "trim_start_matches c s = dropWhile (\<lambda>x. x = c) s"

definition trim_end_matches :: "char \<Rightarrow> string \<Rightarrow> string" where
  "trim_end_matches c s = rev (dropWhile (\<lambda>x. x = c) (rev s))"

definition components :: "string \<Rightarrow> string list" where
  "components path = filter (\<lambda>c. c \<noteq> []) (split_on CHR ''/'' (trim_end_matches CHR ''/'' (trim_start_matches CHR ''/'' path)))"

datatype last_type = Normal | Dot | DotDot | Root

record path_to_inode =
  p2i_dir :: nat
  p2i_last_type :: last_type
  p2i_last_component :: string

fun walk_components :: "('d, 't) fs_env \<Rightarrow> nat \<Rightarrow> string \<Rightarrow> string list \<Rightarrow> vfs \<Rightarrow> ((errno + nat \<times> string) \<times> vfs) option" where
  "walk_components env dir curr_component [] v = Some (Inr (dir, curr_component), v)"
| "walk_components env dir curr_component (next_component # rest) v =
    (case dentry_lookup env dir curr_component v of
       None \<Rightarrow> None
     | Some (Some (DDir next_dir), v') \<Rightarrow> walk_components env next_dir next_component rest v'
     | Some (Some (DBytes _), v') \<Rightarrow> Some (Inl ENOTDIR, v')
     | Some (None, v') \<Rightarrow> Some (Inl ENOENT, v'))"

definition last_type_of :: "string \<Rightarrow> last_type" where
  "last_type_of c = (if c = ''.'' then Dot else if c = ''..'' then DotDot else Normal)"

definition path_walk :: "('d, 't) fs_env \<Rightarrow> nat \<Rightarrow> string \<Rightarrow> vfs \<Rightarrow> ((errno + path_to_inode) \<times> vfs) option" where
  "path_walk env start_dir path v = (case components path of
     [] \<Rightarrow> Some (Inr \<lparr> p2i_dir = start_dir, p2i_last_type = Root, p2i_last_component = ''.'' \<rparr>, v)
   | c # cs \<Rightarrow> sbind (walk_components env start_dir c cs v) (\<lambda>(dir, c') v'.
       Some (Inr \<lparr> p2i_dir = dir, p2i_last_type = last_type_of c', p2i_last_component = c' \<rparr>, v')))"

text \<open>What a call resolves a path against: the root of the tree, the working directory and the
  descriptors of the process, and the directory of each open directory stream.\<close>

record fs_ctx =
  ctx_root :: nat
  ctx_cwd :: nat
  ctx_fds :: fd_table
  ctx_dirs :: "nat \<Rightarrow> nat option"

definition AT_FDCWD :: nat where
  "AT_FDCWD = usize_limit - 100"

definition resolve_path_with_dir_fd ::
  "('d, 't) fs_env \<Rightarrow> fs_ctx \<Rightarrow> nat \<Rightarrow> string \<Rightarrow> vfs \<Rightarrow> ((errno + path_to_inode) \<times> vfs) option" where
  "resolve_path_with_dir_fd env ctx dir_fd path v =
    (if path = [] then Some (Inl ENOENT, v)
     else if hd path = CHR ''/'' then path_walk env (ctx_root ctx) path v
     else if dir_fd = AT_FDCWD then path_walk env (ctx_cwd ctx) path v
     else (case fd_get dir_fd (ctx_fds ctx) of
         None \<Rightarrow> Some (Inl EBADF, v)
       | Some base \<Rightarrow> (case fd_file base of
           DirFile k \<Rightarrow> (case ctx_dirs ctx k of None \<Rightarrow> None | Some a \<Rightarrow> path_walk env a path v)
         | _ \<Rightarrow> Some (Inl ENOTDIR, v))))"

text \<open>A lookup whose failure is an error of the call.\<close>

definition lookup_or_enoent :: "('d, 't) fs_env \<Rightarrow> nat \<Rightarrow> string \<Rightarrow> vfs \<Rightarrow> ((errno + dref) \<times> vfs) option" where
  "lookup_or_enoent env a c v = (case dentry_lookup env a c v of
     None \<Rightarrow> None
   | Some (None, v') \<Rightarrow> Some (Inl ENOENT, v')
   | Some (Some r, v') \<Rightarrow> Some (Inr r, v'))"

definition find_file :: "('d, 't) fs_env \<Rightarrow> fs_ctx \<Rightarrow> string \<Rightarrow> vfs \<Rightarrow> ((errno + dref) \<times> vfs) option" where
  "find_file env ctx path v = sbind (resolve_path_with_dir_fd env ctx AT_FDCWD path v) (\<lambda>p v'.
     lookup_or_enoent env (p2i_dir p) (p2i_last_component p) v')"

section \<open>File systems\<close>

record FileSystem =
  fs_root_dentry :: nat
  fs_device_path :: string
  fs_fs_type :: string
  fs_mounted_dentry :: "dref option"
  fs_mount_point :: string

type_synonym fs_constructor_fun = "nat \<Rightarrow> string \<Rightarrow> string \<Rightarrow> vfs \<Rightarrow> ((errno + FileSystem) \<times> vfs) option"

definition new_tmp_fs :: "TimeSpec \<Rightarrow> fs_constructor_fun" where
  "new_tmp_fs now parent name device_path v =
    (case TmpDir_new now (v_inode_number v) of (meta, n) \<Rightarrow>
     (case new_dir_inode (TmpDirI meta) (v\<lparr> v_inode_number := n \<rparr>) of (i, v1) \<Rightarrow>
     (case new_dentry_dir (Some parent) name i v1 of (root_dentry, v2) \<Rightarrow>
     (case dentry_path v2 root_dentry of
        None \<Rightarrow> None
      | Some mount_point \<Rightarrow> Some (Inr \<lparr> fs_root_dentry = root_dentry, fs_device_path = device_path, fs_fs_type = ''tmpfs'',
          fs_mounted_dentry = None, fs_mount_point = mount_point \<rparr>, v2)))))"

text \<open>The inodes of the files that the kernel provides itself.\<close>

definition page_sized_meta :: "TimeSpec \<Rightarrow> InodeMode \<Rightarrow> nat \<Rightarrow> InodeMeta \<times> nat" where
  "page_sized_meta now m n = (case InodeMeta_new m n of (meta, n') \<Rightarrow>
     (meta\<lparr> data_len := PAGE_SIZE, access_time := now, change_time := now, modify_time := now \<rparr>, n'))"

definition MountsInode_new :: "TimeSpec \<Rightarrow> nat \<Rightarrow> bytes_inode \<times> nat" where
  "MountsInode_new now n = (case page_sized_meta now Regular n of (meta, n') \<Rightarrow> (MountsI meta, n'))"

definition MeminfoInode_new :: "TimeSpec \<Rightarrow> nat \<Rightarrow> bytes_inode \<times> nat" where
  "MeminfoInode_new now n = (case page_sized_meta now Regular n of (meta, n') \<Rightarrow> (MeminfoI meta, n'))"

definition RtcInode_new :: "TimeSpec \<Rightarrow> nat \<Rightarrow> bytes_inode \<times> nat" where
  "RtcInode_new now n = (case page_sized_meta now CharDevice n of (meta, n') \<Rightarrow> (RtcI meta, n'))"

definition TtyInode_new :: "nat \<Rightarrow> bytes_inode \<times> nat" where
  "TtyInode_new n = (case InodeMeta_new CharDevice n of (meta, n') \<Rightarrow> (TtyI meta, n'))"

definition add_child :: "nat \<Rightarrow> string \<Rightarrow> (nat \<Rightarrow> bytes_inode \<times> nat) \<Rightarrow> vfs \<Rightarrow> vfs" where
  "add_child root_dentry name mk v =
    (case mk (v_inode_number v) of (inode, n) \<Rightarrow>
     (case new_bytes_inode inode (v\<lparr> v_inode_number := n \<rparr>) of (i, v1) \<Rightarrow>
     (case new_dentry_bytes root_dentry name i v1 of (child, v2) \<Rightarrow>
     (case v_dirs v2 root_dentry of
        None \<Rightarrow> v2
      | Some d \<Rightarrow> set_children root_dentry (bt_insert name (DBytes child) (dd_children d)) v2))))"

definition new_dev_fs :: "TimeSpec \<Rightarrow> fs_constructor_fun" where
  "new_dev_fs now parent name device_path v =
    sbind (new_tmp_fs now parent name device_path v) (\<lambda>fs v1.
      let v2 = add_child (fs_root_dentry fs) ''tty'' TtyInode_new v1;
          v3 = add_child (fs_root_dentry fs) ''rtc'' (RtcInode_new now) v2
      in Some (Inr (fs\<lparr> fs_fs_type := ''devtmpfs'' \<rparr>), v3))"

definition new_proc_fs :: "TimeSpec \<Rightarrow> fs_constructor_fun" where
  "new_proc_fs now parent name device_path v =
    sbind (new_tmp_fs now parent name device_path v) (\<lambda>fs v1.
      let v2 = add_child (fs_root_dentry fs) ''mounts'' (MountsInode_new now) v1;
          v3 = add_child (fs_root_dentry fs) ''meminfo'' (MeminfoInode_new now) v2
      in Some (Inr (fs\<lparr> fs_fs_type := ''proc'' \<rparr>), v3))"

section \<open>Mounting\<close>

text \<open>The keys of the mount table are entries, compared by the identity of the object.\<close>

type_synonym mount_table = "dref \<Rightarrow> FileSystem option"

definition dref_parent :: "vfs \<Rightarrow> dref \<Rightarrow> nat option" where
  "dref_parent v r = (case r of
     DDir b \<Rightarrow> (case v_dirs v b of None \<Rightarrow> None | Some d \<Rightarrow> dd_parent d)
   | DBytes b \<Rightarrow> map_option db_parent (v_files v b))"

definition dref_name :: "vfs \<Rightarrow> dref \<Rightarrow> string option" where
  "dref_name v r = (case r of
     DDir b \<Rightarrow> map_option dd_name (v_dirs v b)
   | DBytes b \<Rightarrow> map_option db_name (v_files v b))"

definition mount_at :: "fs_constructor_fun \<Rightarrow> nat \<Rightarrow> string \<Rightarrow> string \<Rightarrow> dref option \<Rightarrow> vfs \<times> mount_table
    \<Rightarrow> ((errno + unit) \<times> vfs \<times> mount_table) option" where
  "mount_at create_fs parent name device_path mounted s = (case s of (v, mt) \<Rightarrow>
    (case create_fs parent name device_path v of
       None \<Rightarrow> None
     | Some (Inl e, v1) \<Rightarrow> Some (Inl e, v1, mt)
     | Some (Inr fs, v1) \<Rightarrow> (case v_dirs v1 parent of
         None \<Rightarrow> None
       | Some d \<Rightarrow> Some (Inr (),
           set_children parent (bt_insert name (DDir (fs_root_dentry fs)) (dd_children d)) v1,
           mt(DDir (fs_root_dentry fs) \<mapsto> fs\<lparr> fs_mounted_dentry := mounted \<rparr>)))))"

text \<open>The flags of a mount are left out: their type has no bits.\<close>

definition vfs_mount :: "('d, 't) fs_env \<Rightarrow> fs_ctx \<Rightarrow> string \<Rightarrow> string \<Rightarrow> fs_constructor_fun \<Rightarrow> vfs \<times> mount_table
    \<Rightarrow> ((errno + unit) \<times> vfs \<times> mount_table) option" where
  "vfs_mount env ctx mount_point device_path create_fs s = (case s of (v, mt) \<Rightarrow>
    (case resolve_path_with_dir_fd env ctx AT_FDCWD mount_point v of
       None \<Rightarrow> None
     | Some (Inl e, v1) \<Rightarrow> Some (Inl e, v1, mt)
     | Some (Inr p2i, v1) \<Rightarrow> (case dentry_lookup env (p2i_dir p2i) (p2i_last_component p2i) v1 of
         None \<Rightarrow> None
       | Some (None, v2) \<Rightarrow> mount_at create_fs (p2i_dir p2i) (p2i_last_component p2i) device_path None (v2, mt)
       | Some (Some r, v2) \<Rightarrow>
           if mt r \<noteq> None then Some (Inl EBUSY, v2, mt)
           else (case (dref_parent v2 r, dref_name v2 r) of
               (Some parent, Some own_name) \<Rightarrow>
                 mount_at create_fs parent
                   (if p2i_last_component p2i \<noteq> ''.'' \<and> p2i_last_component p2i \<noteq> ''..'' then own_name else p2i_last_component p2i)
                   device_path (Some r) (v2, mt)
             | _ \<Rightarrow> None))))"

definition vfs_unmount :: "('d, 't) fs_env \<Rightarrow> fs_ctx \<Rightarrow> string \<Rightarrow> vfs \<times> mount_table
    \<Rightarrow> ((errno + unit) \<times> vfs \<times> mount_table) option" where
  "vfs_unmount env ctx mount_point s = (case s of (v, mt) \<Rightarrow>
    (case find_file env ctx mount_point v of
       None \<Rightarrow> None
     | Some (Inl e, v1) \<Rightarrow> Some (Inl e, v1, mt)
     | Some (Inr dentry, v1) \<Rightarrow> (case mt dentry of
         None \<Rightarrow> Some (Inl EINVAL, v1, mt)
       | Some fs \<Rightarrow>
           (let mt' = mt(dentry := None) in
            case fs_mounted_dentry fs of
              None \<Rightarrow> Some (Inr (), v1, mt')
            | Some mounted \<Rightarrow> (case (dref_parent v1 dentry, dref_name v1 mounted) of
                (Some parent, Some name) \<Rightarrow> (case v_dirs v1 parent of
                    None \<Rightarrow> None
                  | Some d \<Rightarrow> if bt_get (dd_children d) name = None then None
                      else Some (Inr (), set_children parent (bt_insert name mounted (dd_children d)) v1, mt'))
              | _ \<Rightarrow> None)))))"

definition is_mount_root :: "mount_table \<Rightarrow> dref \<Rightarrow> bool" where
  "is_mount_root mt r \<longleftrightarrow> mt r \<noteq> None"

text \<open>\<^verbatim>\<open>mounted_root_of\<close>: up to the nearest entry in the mount table.  A panic when there is none.  The
  comparison of the addresses makes the walk end; it always holds in a well-formed store
  (\<open>tree_ok\<close>).\<close>

function mounted_root_of_dir :: "vfs \<Rightarrow> mount_table \<Rightarrow> nat \<Rightarrow> dref option" where
  "mounted_root_of_dir v mt a =
    (if mt (DDir a) \<noteq> None then Some (DDir a)
     else (case v_dirs v a of
         None \<Rightarrow> None
       | Some d \<Rightarrow> (case dd_parent d of
           None \<Rightarrow> None
         | Some p \<Rightarrow> if p < a then mounted_root_of_dir v mt p else None)))"
  by pat_completeness auto

termination
  by (relation "measure (\<lambda>(v, mt, a). a)") auto

declare mounted_root_of_dir.simps [simp del]

definition mounted_root_of :: "vfs \<Rightarrow> mount_table \<Rightarrow> dref \<Rightarrow> dref option" where
  "mounted_root_of v mt r = (if mt r \<noteq> None then Some r
     else (case r of
         DDir a \<Rightarrow> mounted_root_of_dir v mt a
       | DBytes b \<Rightarrow> (case v_files v b of None \<Rightarrow> None | Some f \<Rightarrow> mounted_root_of_dir v mt (db_parent f))))"

definition same_mounted_fs :: "vfs \<Rightarrow> mount_table \<Rightarrow> dref \<Rightarrow> dref \<Rightarrow> bool option" where
  "same_mounted_fs v mt a b = (case (mounted_root_of v mt a, mounted_root_of v mt b) of
     (Some x, Some y) \<Rightarrow> Some (x = y)
   | _ \<Rightarrow> None)"

text \<open>\<^verbatim>\<open>init_vfs\<close>: the FAT file system of the device at the root, then \<^verbatim>\<open>/dev\<close> and \<^verbatim>\<open>/proc\<close>.\<close>

definition empty_vfs :: "FileAllocTable \<Rightarrow> nat \<Rightarrow> vfs" where
  "empty_vfs F n = \<lparr> v_dirs = (\<lambda>_. None), v_files = (\<lambda>_. None), v_next = 0, v_dir_inodes = (\<lambda>_. None),
     v_bytes_inodes = (\<lambda>_. None), v_next_inode = 0, v_inode_number = n, v_fat = F \<rparr>"

definition root_fs :: "(nat \<Rightarrow> bytes) \<Rightarrow> nat \<Rightarrow> (FileSystem \<times> vfs) option" where
  "root_fs dev n = (case new_fat32_fs dev n of
     Inl _ \<Rightarrow> None
   | Inr (F, root, n') \<Rightarrow> (case new_dir_inode (FatDirI root) (empty_vfs F n') of (i, v1) \<Rightarrow>
       (case new_dentry_dir None ''/'' i v1 of (root_dentry, v2) \<Rightarrow>
       (case dentry_path v2 root_dentry of
          None \<Rightarrow> None
        | Some mount_point \<Rightarrow> Some (\<lparr> fs_root_dentry = root_dentry, fs_device_path = ''/dev/mmcblk0'', fs_fs_type = ''vfat'',
            fs_mounted_dentry = None, fs_mount_point = mount_point \<rparr>, v2)))))"

definition mount_unwrap :: "('d, 't) fs_env \<Rightarrow> fs_ctx \<Rightarrow> string \<Rightarrow> string \<Rightarrow> fs_constructor_fun \<Rightarrow> vfs \<times> mount_table
    \<Rightarrow> (vfs \<times> mount_table) option" where
  "mount_unwrap env ctx mount_point device_path create_fs s =
    (case vfs_mount env ctx mount_point device_path create_fs s of
       Some (Inr _, s') \<Rightarrow> Some s'
     | _ \<Rightarrow> None)"

definition init_vfs :: "('d, 't) fs_env \<Rightarrow> nat \<Rightarrow> (nat \<times> vfs \<times> mount_table) option" where
  "init_vfs env n = (case root_fs (e_dev env) n of
     None \<Rightarrow> None
   | Some (fs, v) \<Rightarrow>
       (let root = fs_root_dentry fs;
            ctx = \<lparr> ctx_root = root, ctx_cwd = root, ctx_fds = \<lparr> files = [], fd_rlimit = \<lparr> rlim_curr = 0, rlim_max = 0 \<rparr> \<rparr>,
                    ctx_dirs = (\<lambda>_. None) \<rparr>;
            mt = (\<lambda>_. None)(DDir root \<mapsto> fs)
        in case mount_unwrap env ctx ''/dev'' ''udev'' (new_dev_fs (e_now env)) (v, mt) of
             None \<Rightarrow> None
           | Some s \<Rightarrow> map_option (\<lambda>(v', mt'). (root, v', mt'))
               (mount_unwrap env ctx ''/proc'' ''proc'' (new_proc_fs (e_now env)) s)))"

section \<open>Printing and walking paths\<close>

definition valid_name :: "string \<Rightarrow> bool" where
  "valid_name n \<longleftrightarrow> n \<noteq> [] \<and> CHR ''/'' \<notin> set n \<and> n \<noteq> ''.'' \<and> n \<noteq> ''..''"

lemma sbind_simps [simp]:
  "sbind None k = None" "sbind (Some (Inl e, s)) k = Some (Inl e, s)" "sbind (Some (Inr x, s)) k = k x s"
  by (simp_all add: sbind_def)

lemma split_on_free: "c \<notin> set x \<Longrightarrow> split_on c x = [x]"
  by (induction x) auto

lemma split_on_append: "c \<notin> set x \<Longrightarrow> split_on c (x @ c # ys) = x # split_on c ys"
  by (induction x) auto

lemma split_intersperse:
  assumes "ns \<noteq> []" "\<forall>n \<in> set ns. CHR ''/'' \<notin> set n"
  shows "split_on CHR ''/'' (intersperse ''/'' ns) = ns"
  using assms
proof (induction "''/''" ns rule: intersperse.induct)
  case (3 x y xs)
  then show ?case using split_on_append [of "CHR ''/''" x] by simp
qed (simp_all add: split_on_free)

lemma valid_name_ends: "valid_name n \<Longrightarrow> n \<noteq> [] \<and> hd n \<noteq> CHR ''/'' \<and> last n \<noteq> CHR ''/''"
  unfolding valid_name_def by (metis hd_in_set last_in_set)

lemma intersperse_ends:
  assumes "ns \<noteq> []" "\<forall>n \<in> set ns. valid_name n"
  shows "intersperse ''/'' ns \<noteq> [] \<and> hd (intersperse ''/'' ns) \<noteq> CHR ''/'' \<and> last (intersperse ''/'' ns) \<noteq> CHR ''/''"
  using assms
proof (induction "''/''" ns rule: intersperse.induct)
  case (2 x)
  then show ?case using valid_name_ends [of x] by simp
next
  case (3 x y xs)
  then show ?case using valid_name_ends [of x] by simp
qed simp

lemma dropWhile_hd: "xs \<noteq> [] \<Longrightarrow> hd xs \<noteq> c \<Longrightarrow> dropWhile (\<lambda>x. x = c) xs = xs"
  by (cases xs) auto

lemma components_path:
  assumes "\<forall>n \<in> set ns. valid_name n"
  shows "components (''/'' @ intersperse ''/'' ns) = ns"
proof (cases "ns = []")
  case False
  let ?s = "intersperse ''/'' ns"
  note ends = intersperse_ends [OF False assms]
  have start: "trim_start_matches CHR ''/'' (''/'' @ ?s) = ?s"
    using ends by (simp add: trim_start_matches_def dropWhile_hd)
  have "dropWhile (\<lambda>x. x = CHR ''/'') (rev ?s) = rev ?s"
    using ends by (intro dropWhile_hd) (simp_all add: hd_rev)
  then have finish: "trim_end_matches CHR ''/'' ?s = ?s" by (simp add: trim_end_matches_def)
  have "split_on CHR ''/'' ?s = ns"
    using split_intersperse [OF False] assms by (simp add: valid_name_def)
  moreover have "filter (\<lambda>c. c \<noteq> []) ns = ns"
    using assms by (auto simp: filter_id_conv valid_name_def)
  ultimately show ?thesis unfolding components_def start finish by simp
qed (simp add: components_def trim_start_matches_def trim_end_matches_def)

text \<open>The directory reached along names.\<close>

fun follow :: "vfs \<Rightarrow> nat \<Rightarrow> string list \<Rightarrow> nat option" where
  "follow v a [] = Some a"
| "follow v a (n # ns) = (case entries v a n of Some (DDir b) \<Rightarrow> follow v b ns | _ \<Rightarrow> None)"

lemma follow_append: "follow v a (xs @ ys) = (case follow v a xs of None \<Rightarrow> None | Some b \<Rightarrow> follow v b ys)"
  by (induction xs arbitrary: a) (auto split: option.split dref.split)

lemma follow_cong: "entries v' = entries v \<Longrightarrow> follow v' a ns = follow v a ns"
  by (induction ns arbitrary: a) (auto split: option.split dref.split)

lemma entries_dir:
  assumes "tree_ok v" "entries v a n = Some (DDir b)"
  shows "\<exists>e. v_dirs v b = Some e \<and> dd_parent e = Some a \<and> dd_name e = n" "a < b"
proof -
  have "linked v a n (DDir b)" by (rule entries_linked [OF assms])
  then show ex: "\<exists>e. v_dirs v b = Some e \<and> dd_parent e = Some a \<and> dd_name e = n"
    by (auto simp: linked_def split: option.splits)
  then show "a < b" using tree_ok_dir(3) [OF assms(1)] by blast
qed

lemma follow_dir:
  assumes "tree_ok v" "v_dirs v a \<noteq> None" "follow v a ns = Some b"
  shows "v_dirs v b \<noteq> None"
  using assms
proof (induction ns arbitrary: a)
  case (Cons n ns)
  then obtain c where c: "entries v a n = Some (DDir c)" "follow v c ns = Some b"
    by (auto split: option.splits dref.splits)
  then show ?case using Cons.IH [OF Cons.prems(1), of c] entries_dir(1) [OF Cons.prems(1) c(1)] by auto
qed simp

lemma follow_names:
  assumes ok: "tree_ok v" and root: "v_dirs v root = Some r" "dd_parent r = None"
  shows "follow v root ns = Some a \<Longrightarrow> parent_names v a = Some ns"
proof (induction ns arbitrary: a rule: rev_induct)
  case Nil
  then show ?case using root by (simp add: parent_names.simps)
next
  case (snoc n ns)
  then obtain p where p: "follow v root ns = Some p" "entries v p n = Some (DDir a)"
    by (auto simp: follow_append split: option.splits dref.splits)
  obtain e where "v_dirs v a = Some e" "dd_parent e = Some p" "dd_name e = n" "p < a"
    using entries_dir [OF ok p(2)] by blast
  then show ?case using snoc.IH [OF p(1)] by (simp add: parent_names.simps [of v a])
qed

text \<open>A name that is present is found without a change to the tree.\<close>

lemma lookup_present:
  assumes "tree_ok v" "entries v a c = Some r" "valid_name c"
  shows "\<exists>v'. dentry_lookup env a c v = Some (Some r, v') \<and> inode_step v v'"
proof -
  obtain d where d: "v_dirs v a = Some d" "bt_get (dd_children d) c = Some r"
    using assms(2) by (auto simp: entries_def split: option.splits)
  then show ?thesis
    using assms(3) touch_dir_step [of v "e_now env" "dd_inode d"]
    by (simp add: dentry_lookup_def Let_def valid_name_def)
qed

lemma lookup_dot:
  assumes "v_dirs v a \<noteq> None"
  shows "\<exists>v'. dentry_lookup env a ''.'' v = Some (Some (DDir a), v') \<and> inode_step v v'"
proof -
  obtain d where "v_dirs v a = Some d" using assms by blast
  then show ?thesis using touch_dir_step [of v "e_now env" "dd_inode d"] by (simp add: dentry_lookup_def Let_def)
qed

lemma walk_present:
  assumes "tree_ok v" "follow v a (c # cs) = Some b" "\<forall>n \<in> set (c # cs). valid_name n"
  shows "\<exists>dir v'. walk_components env a c cs v = Some (Inr (dir, last (c # cs)), v') \<and> inode_step v v'
    \<and> entries v dir (last (c # cs)) = Some (DDir b)"
  using assms
proof (induction cs arbitrary: a c v)
  case Nil
  then show ?case using inode_step_refl [of v] by (auto split: option.splits dref.splits)
next
  case (Cons x xs)
  obtain e where e: "entries v a c = Some (DDir e)" and rest: "follow v e (x # xs) = Some b"
    using Cons.prems(2) by (auto split: option.splits dref.splits simp del: follow.simps(2) simp: follow.simps(2) [of _ _ c])
  have "valid_name c" using Cons.prems(3) by simp
  then obtain v1 where look: "dentry_lookup env a c v = Some (Some (DDir e), v1)" and s1: "inode_step v v1"
    using lookup_present [OF Cons.prems(1) e] by blast
  note i1 = inode_step_ok [OF s1]
  have "follow v1 e (x # xs) = Some b" using rest unfolding follow_cong [OF i1(3)] .
  then obtain dir v' where w: "walk_components env e x xs v1 = Some (Inr (dir, last (x # xs)), v')"
    and s2: "inode_step v1 v'" and l: "entries v1 dir (last (x # xs)) = Some (DDir b)"
    using Cons.IH [OF i1(1) [OF Cons.prems(1)], of e x] Cons.prems(3) by auto
  have "walk_components env a c (x # xs) v = Some (Inr (dir, last (c # x # xs)), v')"
    using look w by simp
  moreover have "entries v dir (last (c # x # xs)) = Some (DDir b)" using l i1(3) by simp
  ultimately show ?case using inode_step_trans [OF s1 s2] by blast
qed

lemma find_path:
  assumes ok: "tree_ok v" and a: "follow v (ctx_root ctx) ns = Some a" "\<forall>n \<in> set ns. valid_name n"
    and root: "v_dirs v (ctx_root ctx) \<noteq> None"
  shows "\<exists>v'. find_file env ctx (''/'' @ intersperse ''/'' ns) v = Some (Inr (DDir a), v') \<and> inode_step v v'"
proof (cases ns)
  case Nil
  then have "components (''/'' @ intersperse ''/'' ns) = []" using components_path [OF a(2)] by simp
  then show ?thesis
    using lookup_dot [OF root, of env] a(1) Nil
    by (auto simp: find_file_def resolve_path_with_dir_fd_def path_walk_def lookup_or_enoent_def)
next
  case (Cons c cs)
  obtain dir v1 where w: "walk_components env (ctx_root ctx) c cs v = Some (Inr (dir, last ns), v1)"
    and s1: "inode_step v v1" and l: "entries v dir (last ns) = Some (DDir a)"
    using walk_present [OF ok, of "ctx_root ctx" c cs a env] a Cons by auto
  note i1 = inode_step_ok [OF s1]
  have "valid_name (last ns)" using a(2) Cons last_in_set [of ns] by blast
  then obtain v2 where look: "dentry_lookup env dir (last ns) v1 = Some (Some (DDir a), v2)" and s2: "inode_step v1 v2"
    using lookup_present [OF i1(1) [OF ok], of dir "last ns" "DDir a" env] l i1(3) by auto
  have "find_file env ctx (''/'' @ intersperse ''/'' ns) v = Some (Inr (DDir a), v2)"
    using w look components_path [OF a(2)]
    by (simp add: find_file_def resolve_path_with_dir_fd_def path_walk_def lookup_or_enoent_def Cons)
  then show ?thesis using inode_step_trans [OF s1 s2] by blast
qed

text \<open>
  C15: Paths round trip.  For a directory that is reached from the root along valid names,
  \<^verbatim>\<open>path\<close> prints the absolute path made of these names, and looking this path up from any
  working directory finds this very directory again.  The lookup succeeds, and it leaves the
  names of the tree as they are.
\<close>

theorem path_roundtrip:
  assumes "tree_ok v" "v_dirs v (ctx_root ctx) = Some r" "dd_parent r = None"
    and "follow v (ctx_root ctx) ns = Some a" "\<forall>n \<in> set ns. valid_name n"
  shows "dentry_path v a = Some (''/'' @ intersperse ''/'' ns)
    \<and> (\<exists>v'. find_file env ctx (''/'' @ intersperse ''/'' ns) v = Some (Inr (DDir a), v')
        \<and> entries v' = entries v \<and> tree_ok v')"
proof (rule conjI)
  show "dentry_path v a = Some (''/'' @ intersperse ''/'' ns)"
    using follow_names [OF assms(1-4)] by (simp add: dentry_path_def)
  show "\<exists>v'. find_file env ctx (''/'' @ intersperse ''/'' ns) v = Some (Inr (DDir a), v')
      \<and> entries v' = entries v \<and> tree_ok v'"
    using find_path [OF assms(1,4,5), of env] assms(2) inode_step_ok(1,3) assms(1) by fastforce
qed

section \<open>Steps of the tree\<close>

definition dref_ok :: "vfs \<Rightarrow> dref \<Rightarrow> bool" where
  "dref_ok v r = (case r of DDir b \<Rightarrow> v_dirs v b \<noteq> None | DBytes b \<Rightarrow> v_files v b \<noteq> None)"

definition tree_step :: "vfs \<Rightarrow> vfs \<Rightarrow> bool" where
  "tree_step v v' \<longleftrightarrow> tree_ok v' \<and> keeps_entries v v' \<and> v_next v \<le> v_next v'"

lemma tree_step_refl: "tree_ok v \<Longrightarrow> tree_step v v"
  by (simp add: tree_step_def)

lemma tree_step_trans: "tree_step u v \<Longrightarrow> tree_step v w \<Longrightarrow> tree_step u w"
  unfolding tree_step_def using keeps_entries_trans order_trans by blast

lemma tree_step_inodes: "tree_ok v \<Longrightarrow> inode_step v v' \<Longrightarrow> tree_step v v'"
  using inode_step_ok by (simp add: tree_step_def)

lemma linked_ok: "linked v a n r \<Longrightarrow> dref_ok v r"
  by (auto simp: linked_def dref_ok_def split: dref.splits option.splits)

lemma dref_ok_keeps: "keeps_entries v v' \<Longrightarrow> dref_ok v r \<Longrightarrow> dref_ok v' r"
  using keeps_dir [of v v'] by (cases r) (auto simp: dref_ok_def keeps_entries_def)

lemma dref_parent_keeps: "keeps_entries v v' \<Longrightarrow> dref_parent v r = Some p \<Longrightarrow> dref_parent v' r = Some p"
  unfolding dref_parent_def keeps_entries_def by (fastforce split: dref.splits option.splits)

lemma dref_linked: "dref_parent v r = Some p \<Longrightarrow> dref_name v r = Some n \<Longrightarrow> linked v p n r"
  by (auto simp: dref_parent_def dref_name_def linked_def split: dref.splits option.splits)

lemma dref_parent_dir: "tree_ok v \<Longrightarrow> dref_parent v r = Some p \<Longrightarrow> v_dirs v p \<noteq> None"
  using tree_ok_dir(3) [of v] tree_okD(2) [of v]
  by (fastforce simp: dref_parent_def file_ok_def split: dref.splits option.splits)

lemma dentry_lookup_step:
  assumes ok: "tree_ok v" and run: "dentry_lookup env a c v = Some (r, v')"
  shows "tree_step v v' \<and> (\<forall>x. r = Some x \<longrightarrow> dref_ok v' x)"
proof -
  obtain d where d: "v_dirs v a = Some d" using run by (auto simp: dentry_lookup_def split: option.splits)
  note L = dentry_lookup_ok [OF ok d run]
  have "dref_ok v' x" if x: "r = Some x" for x
  proof (cases "c = ''.'' \<or> c = ''..''")
    case True
    have "v_dirs v (case dd_parent d of Some p \<Rightarrow> p | None \<Rightarrow> a) \<noteq> None"
      using tree_ok_dir(3) [OF ok d] d by (auto split: option.split)
    then have "dref_ok v x" using L x True d by (auto simp: dref_ok_def split: if_splits)
    then show ?thesis using L dref_ok_keeps by blast
  next
    case False
    then have "entries v' a c = Some x" using L x by (simp add: link_entry_def)
    then show ?thesis using L linked_ok [OF entries_linked] by blast
  qed
  then show ?thesis using L by (simp add: tree_step_def)
qed

lemma walk_step:
  assumes "tree_ok v" "v_dirs v a \<noteq> None" "walk_components env a c cs v = Some (r, v')"
  shows "tree_step v v' \<and> (\<forall>dir n. r = Inr (dir, n) \<longrightarrow> v_dirs v' dir \<noteq> None)"
  using assms
proof (induction cs arbitrary: a c v)
  case Nil
  then show ?case by (auto simp: tree_step_refl)
next
  case (Cons x xs)
  obtain q v1 where look: "dentry_lookup env a c v = Some (q, v1)"
    using Cons.prems(3) by (auto split: option.splits)
  note L = dentry_lookup_step [OF Cons.prems(1) look]
  have ok1: "tree_ok v1" using L by (simp add: tree_step_def)
  show ?case
  proof (cases "\<exists>b. q = Some (DDir b)")
    case True
    then obtain b where q: "q = Some (DDir b)" by blast
    have "v_dirs v1 b \<noteq> None" using L q by (simp add: dref_ok_def)
    then show ?thesis
      using Cons.IH [OF ok1, of b x] Cons.prems(3) look q tree_step_trans conjunct1 [OF L] by simp
  next
    case False
    then have "\<exists>e. r = Inl e \<and> v' = v1"
      using Cons.prems(3) look by (auto split: option.splits dref.splits)
    then show ?thesis using L by auto
  qed
qed

lemma path_walk_step:
  assumes "tree_ok v" "v_dirs v a \<noteq> None" "path_walk env a path v = Some (r, v')"
  shows "tree_step v v' \<and> (\<forall>p. r = Inr p \<longrightarrow> v_dirs v' (p2i_dir p) \<noteq> None)"
proof (cases "components path")
  case Nil
  then show ?thesis using assms by (auto simp: path_walk_def tree_step_refl)
next
  case (Cons c cs)
  obtain q v1 where w: "walk_components env a c cs v = Some (q, v1)"
    using assms(3) Cons by (auto simp: path_walk_def sbind_def split: option.splits)
  have "v' = v1" "\<And>p. r = Inr p \<Longrightarrow> \<exists>n. q = Inr (p2i_dir p, n)"
    using assms(3) Cons w by (auto simp: path_walk_def sbind_def split: sum.splits)
  then show ?thesis using walk_step [OF assms(1,2) w] by blast
qed

definition ctx_ok :: "vfs \<Rightarrow> fs_ctx \<Rightarrow> bool" where
  "ctx_ok v ctx \<longleftrightarrow> v_dirs v (ctx_root ctx) \<noteq> None \<and> v_dirs v (ctx_cwd ctx) \<noteq> None
     \<and> (\<forall>k a. ctx_dirs ctx k = Some a \<longrightarrow> v_dirs v a \<noteq> None)"

lemma ctx_ok_step: "tree_step v v' \<Longrightarrow> ctx_ok v ctx \<Longrightarrow> ctx_ok v' ctx"
  unfolding ctx_ok_def tree_step_def using keeps_dir by blast

lemma resolve_step:
  assumes "tree_ok v" "ctx_ok v ctx" "resolve_path_with_dir_fd env ctx dir_fd path v = Some (r, v')"
  shows "tree_step v v' \<and> (\<forall>p. r = Inr p \<longrightarrow> v_dirs v' (p2i_dir p) \<noteq> None)"
proof -
  have walk: ?thesis if "path_walk env a path v = Some (r, v')" "v_dirs v a \<noteq> None" for a
    by (rule path_walk_step [OF assms(1) that(2,1)])
  have "(\<exists>e. r = Inl e \<and> v' = v) \<or> (\<exists>a. path_walk env a path v = Some (r, v') \<and> v_dirs v a \<noteq> None)"
    using assms(2,3) unfolding resolve_path_with_dir_fd_def ctx_ok_def
    by (auto split: if_splits option.splits kfile.splits)
  then show ?thesis using walk tree_step_refl [OF assms(1)] by blast
qed

lemma lookup_or_enoent_step:
  assumes "tree_ok v" "lookup_or_enoent env a c v = Some (r, v')"
  shows "tree_step v v' \<and> (\<forall>x. r = Inr x \<longrightarrow> dref_ok v' x)"
  using assms(2) by (auto simp: lookup_or_enoent_def split: option.splits dest!: dentry_lookup_step [OF assms(1)])

lemma find_file_step:
  assumes ok: "tree_ok v" and ctx: "ctx_ok v ctx" and run: "find_file env ctx path v = Some (r, v')"
  shows "tree_step v v' \<and> (\<forall>x. r = Inr x \<longrightarrow> dref_ok v' x)"
proof -
  obtain q v1 where res: "resolve_path_with_dir_fd env ctx AT_FDCWD path v = Some (q, v1)"
    using run by (auto simp: find_file_def sbind_def split: option.splits)
  note R = resolve_step [OF ok ctx res]
  have ok1: "tree_ok v1" using R by (simp add: tree_step_def)
  show ?thesis
  proof (cases q)
    case (Inl e)
    then show ?thesis using run res R by (auto simp: find_file_def)
  next
    case (Inr p)
    then have "lookup_or_enoent env (p2i_dir p) (p2i_last_component p) v1 = Some (r, v')"
      using run res by (simp add: find_file_def)
    then show ?thesis using lookup_or_enoent_step [OF ok1] tree_step_trans [OF conjunct1 [OF R]] by blast
  qed
qed

section \<open>The contract of a file system constructor\<close>

text \<open>\<^verbatim>\<open>mount\<close> takes the constructor of the file system as an argument.  The constructor makes a
  new root entry with the parent and the name it is given, and leaves the names of the
  existing directories alone.\<close>

locale fs_constructor =
  fixes create_fs :: fs_constructor_fun
  assumes created: "tree_ok v \<Longrightarrow> v_dirs v parent \<noteq> None \<Longrightarrow> \<exists>fs v'. create_fs parent name device v = Some (Inr fs, v')
    \<and> tree_step v v' \<and> fs_root_dentry fs = v_next v \<and> linked v' parent name (DDir (fs_root_dentry fs))
    \<and> (\<forall>b. b < v_next v \<longrightarrow> entries v' b = entries v b)"
begin

text \<open>Mounting at a name of a directory: it succeeds, the name leads to the new file system, and
  every other name of the directories there were is unchanged.\<close>

lemma mount_at_ok:
  assumes ok: "tree_ok v" and parent: "v_dirs v parent \<noteq> None"
  shows "\<exists>v' fs. mount_at create_fs parent name device mounted (v, mt)
      = Some (Inr (), v', mt(DDir (v_next v) \<mapsto> fs\<lparr> fs_mounted_dentry := mounted \<rparr>))
    \<and> tree_step v v' \<and> fs_root_dentry fs = v_next v \<and> linked v' parent name (DDir (v_next v))
    \<and> (\<forall>b. b < v_next v \<longrightarrow> entries v' b = link_entry parent name (Some (DDir (v_next v))) (entries v) b)"
proof -
  obtain fs v1 where c: "create_fs parent name device v = Some (Inr fs, v1)" and s1: "tree_step v v1"
    and root: "fs_root_dentry fs = v_next v" and l: "linked v1 parent name (DDir (fs_root_dentry fs))"
    and e1: "\<forall>b. b < v_next v \<longrightarrow> entries v1 b = entries v b"
    using created [OF ok parent] by blast
  have ok1: "tree_ok v1" and k1: "keeps_entries v v1" using s1 by (simp_all add: tree_step_def)
  obtain d where d: "v_dirs v1 parent = Some d" using keeps_dir [OF k1 parent] by blast
  define v' where "v' = set_children parent (bt_insert name (DDir (fs_root_dentry fs)) (dd_children d)) v1"
  note i = insert_child [OF ok1 d l, folded v'_def]
  have k2: "keeps_entries v1 v'" unfolding v'_def by (rule keeps_set_children)
  have n2: "v_next v' = v_next v1" by (simp add: v'_def)
  have s2: "tree_step v1 v'" using i(1) k2 n2 by (simp add: tree_step_def)
  have lt: "parent < v_next v" using parent tree_ok_dir(1) [OF ok] by blast
  have "entries v' b = link_entry parent name (Some (DDir (v_next v))) (entries v) b" if "b < v_next v" for b
    using that i(2) e1 lt root by (simp add: link_entry_def)
  moreover have "mount_at create_fs parent name device mounted (v, mt)
      = Some (Inr (), v', mt(DDir (v_next v) \<mapsto> fs\<lparr> fs_mounted_dentry := mounted \<rparr>))"
    using c d root by (simp add: mount_at_def v'_def)
  ultimately show ?thesis using root tree_step_trans [OF s1 s2] linked_keeps [OF k2 l] by auto
qed

end

text \<open>The constructors of the memory file systems keep this contract.\<close>

lemma parent_names_total:
  assumes ok: "tree_ok v"
  shows "v_dirs v a \<noteq> None \<Longrightarrow> parent_names v a \<noteq> None"
proof (induction a rule: less_induct)
  case (less a)
  then obtain d where d: "v_dirs v a = Some d" by blast
  show ?case
  proof (cases "dd_parent d")
    case (Some p)
    then show ?thesis
      using less.IH [of p] tree_ok_dir(3) [OF ok d Some] d by (simp add: parent_names.simps [of v a])
  qed (simp add: parent_names.simps [of v a] d)
qed

lemma new_tmp_fs_ok:
  assumes ok: "tree_ok v" and parent: "v_dirs v parent \<noteq> None"
  shows "\<exists>fs v'. new_tmp_fs now parent name device v = Some (Inr fs, v')
    \<and> tree_step v v' \<and> fs_root_dentry fs = v_next v \<and> linked v' parent name (DDir (fs_root_dentry fs))
    \<and> (\<forall>b. b < v_next v \<longrightarrow> entries v' b = entries v b)"
proof -
  obtain meta n where t: "TmpDir_new now (v_inode_number v) = (meta, n)" by fastforce
  obtain i v1 where i: "new_dir_inode (TmpDirI meta) (v\<lparr> v_inode_number := n \<rparr>) = (i, v1)" by fastforce
  obtain a v2 where a: "new_dentry_dir (Some parent) name i v1 = (a, v2)" by fastforce
  have s1: "inode_step v v1" and i1: "v_dir_inodes v1 i \<noteq> None"
    using new_dir_inode_step [OF i] inode_step_trans [OF inode_step_number] by blast+
  note u1 = inode_step_ok [OF s1]
  have p1: "v_dirs v1 q \<noteq> None" if "Some parent = Some q" for q using that parent u1(4) by simp
  note N = new_dentry_dir_ok [OF u1(1) [OF ok] p1 i1 a]
  have "dentry_path v2 a \<noteq> None"
    using parent_names_total [OF N(1), of a] N(6) by (simp add: dentry_path_def)
  then obtain m where m: "dentry_path v2 a = Some m" by blast
  have s: "tree_step v v2"
    using N(1,4) u1(6) keeps_entries_trans [OF u1(2) N(2)] by (simp add: tree_step_def)
  have l: "linked v2 parent name (DDir a)" using N(6) by (simp add: linked_def)
  have e: "entries v2 = entries v" using entries_new_dir [OF u1(1) [OF ok] a] u1(3) by simp
  have run: "new_tmp_fs now parent name device v = Some (Inr \<lparr> fs_root_dentry = a, fs_device_path = device,
      fs_fs_type = ''tmpfs'', fs_mounted_dentry = None, fs_mount_point = m \<rparr>, v2)"
    using t i a m by (simp add: new_tmp_fs_def)
  have root: "a = v_next v" using N(3) u1(6) by simp
  show ?thesis
    by (rule exI, rule exI, rule conjI, rule run) (use s l e root in simp)
qed

lemma add_child_ok:
  assumes ok: "tree_ok v" and d: "v_dirs v root \<noteq> None"
  shows "tree_step v (add_child root name mk v)"
    and "b \<noteq> root \<Longrightarrow> entries (add_child root name mk v) b = entries v b"
proof -
  obtain x n where x: "mk (v_inode_number v) = (x, n)" by fastforce
  obtain i v1 where i: "new_bytes_inode x (v\<lparr> v_inode_number := n \<rparr>) = (i, v1)" by fastforce
  obtain c v2 where c: "new_dentry_bytes root name i v1 = (c, v2)" by fastforce
  have s1: "inode_step v v1" and i1: "v_bytes_inodes v1 i \<noteq> None"
    using new_bytes_inode_step [OF i] inode_step_trans [OF inode_step_number] by blast+
  note u1 = inode_step_ok [OF s1]
  have d1: "v_dirs v1 root \<noteq> None" using d u1(4) by simp
  note N = new_dentry_bytes_ok [OF u1(1) [OF ok] d1 i1 c]
  obtain e where e: "v_dirs v2 root = Some e" using d1 N(5) by auto
  define w where "w = set_children root (bt_insert name (DBytes c) (dd_children e)) v2"
  have w: "add_child root name mk v = w" using x i c e by (simp add: add_child_def w_def)
  have l: "linked v2 root name (DBytes c)" using N(6) by (simp add: linked_def)
  note I = insert_child [OF N(1) e l, folded w_def]
  have "keeps_entries v w"
    using keeps_entries_trans [OF keeps_entries_trans [OF u1(2) N(2)]] keeps_set_children unfolding w_def by blast
  moreover have "v_next w = Suc (v_next v)" using N(4) u1(6) by (simp add: w_def)
  ultimately show "tree_step v (add_child root name mk v)" using I(1) w by (simp add: tree_step_def)
  show "entries (add_child root name mk v) b = entries v b" if "b \<noteq> root"
    using that I(2) entries_new_bytes [OF c] u1(3) w by (simp add: link_entry_def)
qed

lemma two_children_ok:
  assumes ok: "tree_ok v" and parent: "v_dirs v parent \<noteq> None"
  shows "\<exists>fs v'. sbind (new_tmp_fs now parent name device v) (\<lambda>fs v1.
      let v2 = add_child (fs_root_dentry fs) n1 mk1 v1; v3 = add_child (fs_root_dentry fs) n2 mk2 v2
      in Some (Inr (fs\<lparr> fs_fs_type := ty \<rparr>), v3)) = Some (Inr fs, v')
    \<and> tree_step v v' \<and> fs_root_dentry fs = v_next v \<and> linked v' parent name (DDir (fs_root_dentry fs))
    \<and> (\<forall>b. b < v_next v \<longrightarrow> entries v' b = entries v b)"
proof -
  obtain fs v1 where run: "new_tmp_fs now parent name device v = Some (Inr fs, v1)" and s1: "tree_step v v1"
    and root: "fs_root_dentry fs = v_next v" and l: "linked v1 parent name (DDir (fs_root_dentry fs))"
    and e1: "\<forall>b. b < v_next v \<longrightarrow> entries v1 b = entries v b"
    using new_tmp_fs_ok [OF ok parent] by blast
  define v2 where "v2 = add_child (fs_root_dentry fs) n1 mk1 v1"
  define v3 where "v3 = add_child (fs_root_dentry fs) n2 mk2 v2"
  have ok1: "tree_ok v1" using s1 by (simp add: tree_step_def)
  have d1: "v_dirs v1 (fs_root_dentry fs) \<noteq> None" using l by (auto simp: linked_def split: option.splits)
  note A = add_child_ok [OF ok1 d1, where name = n1 and mk = mk1, folded v2_def]
  have ok2: "tree_ok v2" and k2: "keeps_entries v1 v2" using A(1) by (simp_all add: tree_step_def)
  note B = add_child_ok [OF ok2 keeps_dir [OF k2 d1], where name = n2 and mk = mk2, folded v3_def]
  have k3: "keeps_entries v1 v3" using k2 B(1) keeps_entries_trans by (auto simp: tree_step_def)
  have "entries v3 b = entries v b" if "b < v_next v" for b using that A(2) B(2) e1 root by simp
  then show ?thesis
    using run root tree_step_trans [OF s1 tree_step_trans [OF A(1) B(1)]] linked_keeps [OF k3 l]
    by (simp add: v2_def v3_def)
qed

interpretation tmp: fs_constructor "new_tmp_fs now" for now
  by unfold_locales (rule new_tmp_fs_ok)

interpretation dev: fs_constructor "new_dev_fs now" for now
  by unfold_locales (unfold new_dev_fs_def, rule two_children_ok)

interpretation proc: fs_constructor "new_proc_fs now" for now
  by unfold_locales (unfold new_proc_fs_def, rule two_children_ok)

section \<open>Mount tables\<close>

text \<open>A key is the root entry of its file system, and the entry that the mount covers has the
  same parent.\<close>

definition mounts_ok :: "vfs \<Rightarrow> mount_table \<Rightarrow> bool" where
  "mounts_ok v mt \<longleftrightarrow> (\<forall>r fs. mt r = Some fs \<longrightarrow> r = DDir (fs_root_dentry fs) \<and> dref_ok v r
     \<and> (\<forall>m. fs_mounted_dentry fs = Some m \<longrightarrow> (\<exists>p. dref_parent v r = Some p \<and> dref_parent v m = Some p)))"

lemma mounts_ok_keeps: "keeps_entries v v' \<Longrightarrow> mounts_ok v mt \<Longrightarrow> mounts_ok v' mt"
  unfolding mounts_ok_def using dref_ok_keeps dref_parent_keeps by blast

lemma mounts_ok_step: "tree_step v v' \<Longrightarrow> mounts_ok v mt \<Longrightarrow> mounts_ok v' mt"
  unfolding tree_step_def using mounts_ok_keeps by blast

lemma mounts_ok_remove: "mounts_ok v mt \<Longrightarrow> mounts_ok v (mt(d := None))"
  by (simp add: mounts_ok_def)

lemma mounts_ok_covered:
  "mounts_ok v mt \<Longrightarrow> mt d = Some fs \<Longrightarrow> fs_mounted_dentry fs = Some m \<Longrightarrow>
    \<exists>p. dref_parent v d = Some p \<and> dref_parent v m = Some p"
  unfolding mounts_ok_def by blast

lemma mounts_fresh:
  assumes "tree_ok v" "mounts_ok v mt"
  shows "mt (DDir (v_next v)) = None"
proof (cases "mt (DDir (v_next v))")
  case (Some fs)
  then have "dref_ok v (DDir (v_next v))" using assms(2) by (auto simp: mounts_ok_def)
  then show ?thesis using tree_ok_fresh(1) [OF assms(1), of "v_next v"] by (simp add: dref_ok_def)
qed simp

context fs_constructor
begin

lemma mount_at_step:
  assumes ok: "tree_ok v" and parent: "v_dirs v parent \<noteq> None" and mts: "mounts_ok v mt"
    and mounted: "\<And>m. mounted = Some m \<Longrightarrow> dref_parent v m = Some parent"
    and run: "mount_at create_fs parent name device mounted (v, mt) = Some (r, v', mt')"
  shows "tree_step v v' \<and> mounts_ok v' mt'"
proof -
  obtain v1 fs where at: "mount_at create_fs parent name device mounted (v, mt)
      = Some (Inr (), v1, mt(DDir (v_next v) \<mapsto> fs\<lparr> fs_mounted_dentry := mounted \<rparr>))"
    and s: "tree_step v v1" and root: "fs_root_dentry fs = v_next v" and l: "linked v1 parent name (DDir (v_next v))"
    using mount_at_ok [OF ok parent] by blast
  have eq: "v' = v1" "mt' = mt(DDir (v_next v) \<mapsto> fs\<lparr> fs_mounted_dentry := mounted \<rparr>)" using run at by simp_all
  have keep: "keeps_entries v v1" using s by (simp add: tree_step_def)
  have p: "dref_parent v1 (DDir (v_next v)) = Some parent"
    using l by (auto simp: linked_def dref_parent_def split: option.splits)
  have m: "dref_parent v1 m = Some parent" if "mounted = Some m" for m
    by (rule dref_parent_keeps [OF keep mounted [OF that]])
  show ?thesis
    using s mounts_ok_step [OF s mts] root linked_ok [OF l] p m unfolding eq by (auto simp: mounts_ok_def)
qed

lemma mount_step:
  assumes ok: "tree_ok v" and ctx: "ctx_ok v ctx" and mts: "mounts_ok v mt"
    and run: "vfs_mount env ctx mount_point device create_fs (v, mt) = Some (r, v', mt')"
  shows "tree_step v v' \<and> mounts_ok v' mt'"
proof -
  obtain q v1 where res: "resolve_path_with_dir_fd env ctx AT_FDCWD mount_point v = Some (q, v1)"
    using run by (auto simp: vfs_mount_def split: option.splits)
  note R = resolve_step [OF ok ctx res]
  have ok1: "tree_ok v1" using R by (simp add: tree_step_def)
  show ?thesis
  proof (cases q)
    case (Inl e)
    then show ?thesis using run res R mounts_ok_step [OF conjunct1 [OF R] mts] by (simp add: vfs_mount_def)
  next
    case (Inr p)
    obtain x v2 where look: "dentry_lookup env (p2i_dir p) (p2i_last_component p) v1 = Some (x, v2)"
      using run res Inr by (auto simp: vfs_mount_def split: option.splits)
    note L = dentry_lookup_step [OF ok1 look]
    have s2: "tree_step v v2" using tree_step_trans R L by blast
    have ok2: "tree_ok v2" using L by (simp add: tree_step_def)
    note m2 = mounts_ok_step [OF s2 mts]
    have finish: ?thesis
      if "mount_at create_fs parent name device mounted (v2, mt) = Some (r, v', mt')" "v_dirs v2 parent \<noteq> None"
        "\<And>m. mounted = Some m \<Longrightarrow> dref_parent v2 m = Some parent" for parent name mounted
      using mount_at_step [OF ok2 that(2) m2 that(3) that(1)] tree_step_trans [OF s2] by blast
    show ?thesis
    proof (cases x)
      case None
      have "v_dirs v2 (p2i_dir p) \<noteq> None"
        using R Inr L keeps_dir [of v1 v2] by (auto simp: tree_step_def)
      then show ?thesis using run res Inr look None by (intro finish) (auto simp: vfs_mount_def)
    next
      case (Some y)
      show ?thesis
      proof (cases "mt y")
        case None
        obtain parent n where pn: "dref_parent v2 y = Some parent" "dref_name v2 y = Some n"
          using run res Inr look Some None by (auto simp: vfs_mount_def split: option.splits)
        show ?thesis
          using run res Inr look Some None pn dref_parent_dir [OF ok2 pn(1)]
          by (intro finish [of parent _ "Some y"]) (auto simp: vfs_mount_def)
      next
        case (Some fs)
        then show ?thesis using run res Inr look \<open>x = Some y\<close> s2 m2 by (simp add: vfs_mount_def)
      qed
    qed
  qed
qed

end

lemma unmount_step:
  assumes ok: "tree_ok v" and ctx: "ctx_ok v ctx" and mts: "mounts_ok v mt"
    and run: "vfs_unmount env ctx mount_point (v, mt) = Some (r, v', mt')"
  shows "tree_step v v' \<and> mounts_ok v' mt'"
proof -
  obtain q v1 where look: "find_file env ctx mount_point v = Some (q, v1)"
    using run by (auto simp: vfs_unmount_def split: option.splits)
  note F = find_file_step [OF ok ctx look]
  have ok1: "tree_ok v1" using F by (simp add: tree_step_def)
  note m1 = mounts_ok_step [OF conjunct1 [OF F] mts]
  show ?thesis
  proof (cases "\<exists>d fs m. q = Inr d \<and> mt d = Some fs \<and> fs_mounted_dentry fs = Some m")
    case False
    then have "v' = v1 \<and> (mt' = mt \<or> (\<exists>d. mt' = mt(d := None)))"
      using run look by (auto simp: vfs_unmount_def Let_def split: sum.splits option.splits)
    then show ?thesis using F m1 mounts_ok_remove by blast
  next
    case True
    then obtain d fs m where q: "q = Inr d" and fs: "mt d = Some fs" and m: "fs_mounted_dentry fs = Some m" by blast
    obtain p where p: "dref_parent v1 d = Some p" "dref_parent v1 m = Some p"
      using mounts_ok_covered [OF m1 fs m] by blast
    obtain n e where n: "dref_name v1 m = Some n" and e: "v_dirs v1 p = Some e"
      using run look q fs m p by (auto simp: vfs_unmount_def Let_def split: option.splits)
    have v': "v' = set_children p (bt_insert n m (dd_children e)) v1" and mt': "mt' = mt(d := None)"
      using run look q fs m p n e by (auto simp: vfs_unmount_def Let_def split: if_splits)
    note I = insert_child [OF ok1 e dref_linked [OF p(2) n], folded v']
    have "tree_step v1 v'" using I(1) keeps_set_children unfolding v' by (simp add: tree_step_def)
    then show ?thesis
      using tree_step_trans [OF conjunct1 [OF F]] mounts_ok_step m1 mounts_ok_remove unfolding mt' by blast
  qed
qed

section \<open>Mounting and unmounting\<close>

lemma resolve_present:
  assumes ok: "tree_ok v" and a: "follow v (ctx_root ctx) (ns @ [n]) = Some a" "\<forall>x \<in> set (ns @ [n]). valid_name x"
  shows "\<exists>p v1. resolve_path_with_dir_fd env ctx AT_FDCWD (''/'' @ intersperse ''/'' (ns @ [n])) v
      = Some (Inr \<lparr> p2i_dir = p, p2i_last_type = Normal, p2i_last_component = n \<rparr>, v1)
    \<and> inode_step v v1 \<and> entries v p n = Some (DDir a)"
proof -
  obtain c cs where cs: "ns @ [n] = c # cs" by (cases "ns @ [n]") auto
  have last: "last (c # cs) = n" using cs by (metis last_snoc)
  obtain dir v1 where w: "walk_components env (ctx_root ctx) c cs v = Some (Inr (dir, n), v1)"
    and s1: "inode_step v v1" and l: "entries v dir n = Some (DDir a)"
    using walk_present [OF ok a [unfolded cs], of env] unfolding last by blast
  have "last_type_of n = Normal" using a(2) by (simp add: last_type_of_def valid_name_def)
  then have "resolve_path_with_dir_fd env ctx AT_FDCWD (''/'' @ intersperse ''/'' (ns @ [n])) v
      = Some (Inr \<lparr> p2i_dir = dir, p2i_last_type = Normal, p2i_last_component = n \<rparr>, v1)"
    using w components_path [OF a(2)] by (simp add: resolve_path_with_dir_fd_def path_walk_def cs)
  then show ?thesis using s1 l by blast
qed

lemma follow_below:
  assumes "tree_ok v" "follow v a ns = Some p" "\<And>b. b < p \<Longrightarrow> entries v' b = entries v b"
  shows "a \<le> p \<and> follow v' a ns = Some p"
  using assms(2)
proof (induction ns arbitrary: a)
  case (Cons n ns)
  then obtain b where b: "entries v a n = Some (DDir b)" "follow v b ns = Some p"
    by (auto split: option.splits dref.splits)
  have "b \<le> p \<and> follow v' b ns = Some p" by (rule Cons.IH [OF b(2)])
  moreover have "a < b" by (rule entries_dir(2) [OF assms(1) b(1)])
  ultimately show ?case using assms(3) [of a] b by auto
qed simp

context fs_constructor
begin

lemma mounted_and_unmounted:
  assumes ok: "tree_ok v" and ctx: "ctx_ok v ctx" and mts: "mounts_ok v mt"
    and at: "follow v (ctx_root ctx) (ns @ [n]) = Some a" "\<forall>x \<in> set (ns @ [n]). valid_name x" and free: "mt (DDir a) = None"
  shows "\<exists>v1 mt1. vfs_mount env ctx (''/'' @ intersperse ''/'' (ns @ [n])) device create_fs (v, mt) = Some (Inr (), v1, mt1)
    \<and> tree_step v v1 \<and> mounts_ok v1 mt1 \<and> mt1 (DDir (v_next v)) \<noteq> None
    \<and> follow v1 (ctx_root ctx) (ns @ [n]) = Some (v_next v)
    \<and> (\<exists>v2. vfs_unmount env' ctx (''/'' @ intersperse ''/'' (ns @ [n])) (v1, mt1) = Some (Inr (), v2, mt)
        \<and> (\<forall>b. b < v_next v \<longrightarrow> entries v2 b = entries v b))"
proof -
  let ?path = "''/'' @ intersperse ''/'' (ns @ [n])"
  obtain p u1 where res: "resolve_path_with_dir_fd env ctx AT_FDCWD ?path v
      = Some (Inr \<lparr> p2i_dir = p, p2i_last_type = Normal, p2i_last_component = n \<rparr>, u1)"
    and su1: "inode_step v u1" and pn: "entries v p n = Some (DDir a)"
    using resolve_present [OF ok at, of env] by blast
  note i1 = inode_step_ok [OF su1]
  have n: "valid_name n" using at(2) by simp
  obtain u2 where look: "dentry_lookup env p n u1 = Some (Some (DDir a), u2)" and su2: "inode_step u1 u2"
    using lookup_present [OF i1(1) [OF ok] _ n, of p "DDir a" env] pn i1(3) by auto
  have su: "inode_step v u2" by (rule inode_step_trans [OF su1 su2])
  note i2 = inode_step_ok [OF su]
  note ok2 = i2(1) [OF ok]
  obtain e where e: "v_dirs v a = Some e" "dd_parent e = Some p" "dd_name e = n"
    using entries_dir(1) [OF ok pn] by blast
  have par: "dref_parent u2 (DDir a) = Some p" "dref_name u2 (DDir a) = Some n"
    using e i2(4) by (simp_all add: dref_parent_def dref_name_def)
  have pd: "v_dirs u2 p \<noteq> None" by (rule dref_parent_dir [OF ok2 par(1)])
  obtain v1 fs where m: "mount_at create_fs p n device (Some (DDir a)) (u2, mt)
      = Some (Inr (), v1, mt(DDir (v_next u2) \<mapsto> fs\<lparr> fs_mounted_dentry := Some (DDir a) \<rparr>))"
    and s1: "tree_step u2 v1" and root: "fs_root_dentry fs = v_next u2" and l1: "linked v1 p n (DDir (v_next u2))"
    and e1: "\<forall>b. b < v_next u2 \<longrightarrow> entries v1 b = link_entry p n (Some (DDir (v_next u2))) (entries u2) b"
    using mount_at_ok [OF ok2 pd, of n device "Some (DDir a)" mt] by blast
  define mt1 where "mt1 = mt(DDir (v_next v) \<mapsto> fs\<lparr> fs_mounted_dentry := Some (DDir a) \<rparr>)"
  have mount: "vfs_mount env ctx ?path device create_fs (v, mt) = Some (Inr (), v1, mt1)"
    using res look free par m n i2(6) by (simp add: vfs_mount_def valid_name_def mt1_def)
  note S = mount_step [OF ok ctx mts mount]
  have ok1: "tree_ok v1" using S by (simp add: tree_step_def)
  have plt: "p < v_next v" using pd i2(4) tree_ok_dir(1) [OF ok] by auto
  have E1: "entries v1 b = link_entry p n (Some (DDir (v_next v))) (entries v) b" if "b < v_next v" for b
    using e1 that i2(3,6) by simp
  obtain p' where p': "follow v (ctx_root ctx) ns = Some p'" "entries v p' n = Some (DDir a)"
    using at(1) by (auto simp: follow_append split: option.splits dref.splits)
  have "p' = p" using entries_dir(1) [OF ok p'(2)] e by auto
  then have to_p: "follow v1 (ctx_root ctx) ns = Some p"
    using follow_below [OF ok p'(1)] E1 plt by (simp add: link_entry_def)
  have E1p: "entries v1 p n = Some (DDir (v_next v))" using E1 [OF plt] by (simp add: link_entry_def)
  have f1: "follow v1 (ctx_root ctx) (ns @ [n]) = Some (v_next v)"
    using to_p E1p by (simp add: follow_append)
  have ctx1: "ctx_ok v1 ctx" using ctx_ok_step S ctx by blast
  obtain w1 where find: "find_file env' ctx ?path v1 = Some (Inr (DDir (v_next v)), w1)" and sw: "inode_step v1 w1"
    using find_path [OF ok1 f1 at(2), of env'] ctx1 by (auto simp: ctx_ok_def)
  note iw = inode_step_ok [OF sw]
  have pw: "dref_parent w1 (DDir (v_next v)) = Some p"
    using l1 i2(6) iw(4) by (auto simp: linked_def dref_parent_def split: option.splits)
  have keep: "keeps_entries v w1" using S iw(2) keeps_entries_trans by (auto simp: tree_step_def)
  obtain cs where aw: "v_dirs w1 a = Some (e\<lparr> dd_children := cs \<rparr>)"
    using keep e(1) unfolding keeps_entries_def by blast
  have nw: "dref_name w1 (DDir a) = Some n" and la: "linked w1 p n (DDir a)"
    using aw e by (simp_all add: dref_name_def linked_def)
  obtain d where d: "v_dirs w1 p = Some d" using dref_parent_dir [OF iw(1) [OF ok1] pw] by blast
  have dn: "bt_get (dd_children d) n \<noteq> None" using E1p unfolding iw(3) [symmetric] by (simp add: entries_def d)
  define v2 where "v2 = set_children p (bt_insert n (DDir a) (dd_children d)) w1"
  have "mt1(DDir (v_next v) := None) = mt" using mounts_fresh [OF ok mts] by (auto simp: mt1_def)
  then have un: "vfs_unmount env' ctx ?path (v1, mt1) = Some (Inr (), v2, mt)"
    using find pw nw d dn by (simp add: vfs_unmount_def mt1_def v2_def)
  have "entries v2 b = entries v b" if b: "b < v_next v" for b
    using insert_child(2) [OF iw(1) [OF ok1] d la] iw(3) E1 [OF b] E1 [OF plt] pn
    by (auto simp: v2_def link_entry_def fun_eq_iff)
  then show ?thesis using mount S f1 un by (auto simp: mt1_def)
qed

end

text \<open>
  C16: Mounting and unmounting round trip.  Let a directory that is not a mount root be reached
  from the root along at least one valid name.  Mounting a memory file system at
  its path succeeds, and the path then leads to the new root of the file system, an entry there
  was not before, which is in the mount table.  Unmounting this path then succeeds, gives the old
  mount table back and every name of the directories there were leads where it led before.
\<close>

theorem mount_unmount_roundtrip:
  assumes "tree_ok v" "ctx_ok v ctx" "mounts_ok v mt"
    and "follow v (ctx_root ctx) (ns @ [n]) = Some a" "\<forall>x \<in> set (ns @ [n]). valid_name x" "mt (DDir a) = None"
    and "create = new_tmp_fs now \<or> create = new_dev_fs now \<or> create = new_proc_fs now"
  shows "\<exists>v1 mt1. vfs_mount env ctx (''/'' @ intersperse ''/'' (ns @ [n])) device create (v, mt) = Some (Inr (), v1, mt1)
    \<and> tree_ok v1 \<and> mounts_ok v1 mt1 \<and> v_dirs v (v_next v) = None \<and> mt1 (DDir (v_next v)) \<noteq> None
    \<and> follow v1 (ctx_root ctx) (ns @ [n]) = Some (v_next v)
    \<and> (\<exists>v2. vfs_unmount env' ctx (''/'' @ intersperse ''/'' (ns @ [n])) (v1, mt1) = Some (Inr (), v2, mt)
        \<and> (\<forall>b. v_dirs v b \<noteq> None \<longrightarrow> entries v2 b = entries v b))"
proof -
  note fresh = tree_ok_fresh(1) [OF assms(1) order_refl]
  have lt: "b < v_next v" if "v_dirs v b \<noteq> None" for b using that tree_ok_dir(1) [OF assms(1)] by blast
  note tmp = tmp.mounted_and_unmounted [OF assms(1-6), of env device now env']
  note dev = dev.mounted_and_unmounted [OF assms(1-6), of env device now env']
  note proc = proc.mounted_and_unmounted [OF assms(1-6), of env device now env']
  show ?thesis using assms(7) tmp dev proc fresh lt unfolding tree_step_def by blast
qed

section \<open>Instances\<close>

definition demo_ctx :: fs_ctx where
  "demo_ctx = \<lparr> ctx_root = 0, ctx_cwd = 1, ctx_fds = with_stdio 0, ctx_dirs = (\<lambda>_. None) \<rparr>"

lemma demo_follow: "follow demo_vfs 0 [''a'', ''b''] = Some 2"
  by (simp add: demo_vfs_def demo_dir_def entries_def bt_get_Cons)

lemma demo_names: "\<forall>n \<in> set [''a'', ''b'']. valid_name n"
  by (simp add: valid_name_def)

lemma demo_ctx_ok: "ctx_ok demo_vfs demo_ctx"
  by (simp add: ctx_ok_def demo_ctx_def demo_vfs_def)

theorem path_roundtrip_witness:
  "tree_ok demo_vfs \<and> dentry_path demo_vfs 2 = Some ''/a/b''
    \<and> (\<exists>v'. find_file demo_env demo_ctx ''/a/b'' demo_vfs = Some (Inr (DDir 2), v') \<and> entries v' = entries demo_vfs)"
proof -
  have r: "v_dirs demo_vfs (ctx_root demo_ctx) = Some (demo_dir None ''/'' [(''a'', DDir 1)] 0)"
    "dd_parent (demo_dir None ''/'' [(''a'', DDir 1)] 0) = None" "ctx_root demo_ctx = 0"
    by (simp_all add: demo_vfs_def demo_ctx_def demo_dir_def)
  show ?thesis
    using path_roundtrip [OF demo_vfs_ok r(1,2) demo_follow [folded r(3)] demo_names, of demo_env] demo_vfs_ok by auto
qed

theorem mount_unmount_roundtrip_witness:
  "\<exists>v1 mt1. vfs_mount demo_env demo_ctx ''/a/b'' ''none'' (new_proc_fs (e_now demo_env)) (demo_vfs, \<lambda>_. None) = Some (Inr (), v1, mt1)
    \<and> mt1 (DDir 3) \<noteq> None \<and> follow v1 0 [''a'', ''b''] = Some 3
    \<and> (\<exists>v2. vfs_unmount demo_env demo_ctx ''/a/b'' (v1, mt1) = Some (Inr (), v2, \<lambda>_. None)
        \<and> entries v2 0 = entries demo_vfs 0 \<and> entries v2 1 = entries demo_vfs 1 \<and> entries v2 2 = entries demo_vfs 2)"
proof -
  have f: "follow demo_vfs (ctx_root demo_ctx) ([''a''] @ [''b'']) = Some 2"
    using demo_follow by (simp add: demo_ctx_def)
  have n: "\<forall>x \<in> set ([''a''] @ [''b'']). valid_name x" using demo_names by simp
  have m: "mounts_ok demo_vfs (\<lambda>_. None)" by (simp add: mounts_ok_def)
  have dirs: "v_dirs demo_vfs 0 \<noteq> None" "v_dirs demo_vfs 1 \<noteq> None" "v_dirs demo_vfs 2 \<noteq> None" "v_next demo_vfs = 3"
    "ctx_root demo_ctx = 0"
    by (simp_all add: demo_vfs_def demo_ctx_def)
  show ?thesis
    using mount_unmount_roundtrip [OF demo_vfs_ok demo_ctx_ok m f n, of "new_proc_fs (e_now demo_env)" "e_now demo_env" demo_env "''none''" demo_env]
      dirs by simp blast
qed

text \<open>Mounting at \<^verbatim>\<open>.\<close> links the new file system under the name \<^verbatim>\<open>.\<close> of the parent, where no path
  leads: the working directory keeps its place.\<close>

lemma mount_dot_unreachable:
  assumes ok: "tree_ok v" and cwd: "v_dirs v (ctx_cwd ctx) = Some d" "dd_parent d = Some p" and free: "mt (DDir (ctx_cwd ctx)) = None"
  shows "\<exists>v' mt'. vfs_mount env ctx ''.'' device (new_tmp_fs now) (v, mt) = Some (Inr (), v', mt')
    \<and> (\<forall>b name. v_dirs v b \<noteq> None \<longrightarrow> name \<noteq> ''.'' \<longrightarrow> entries v' b name = entries v b name)"
proof -
  have c: "components ''.'' = [''.'']" by (simp add: components_def trim_start_matches_def trim_end_matches_def)
  have res: "resolve_path_with_dir_fd env ctx AT_FDCWD ''.'' v
      = Some (Inr \<lparr> p2i_dir = ctx_cwd ctx, p2i_last_type = Dot, p2i_last_component = ''.'' \<rparr>, v)"
    by (simp add: resolve_path_with_dir_fd_def path_walk_def c last_type_of_def)
  have "v_dirs v (ctx_cwd ctx) \<noteq> None" using cwd by simp
  then obtain u where look: "dentry_lookup env (ctx_cwd ctx) ''.'' v = Some (Some (DDir (ctx_cwd ctx)), u)" and s: "inode_step v u"
    using lookup_dot by blast
  note i = inode_step_ok [OF s]
  have par: "dref_parent u (DDir (ctx_cwd ctx)) = Some p" "dref_name u (DDir (ctx_cwd ctx)) = Some (dd_name d)"
    using cwd i(4) by (simp_all add: dref_parent_def dref_name_def)
  have pd: "v_dirs u p \<noteq> None" by (rule dref_parent_dir [OF i(1) [OF ok] par(1)])
  obtain v' fs where m: "mount_at (new_tmp_fs now) p ''.'' device (Some (DDir (ctx_cwd ctx))) (u, mt)
      = Some (Inr (), v', mt(DDir (v_next u) \<mapsto> fs\<lparr> fs_mounted_dentry := Some (DDir (ctx_cwd ctx)) \<rparr>))"
    and e: "\<forall>b. b < v_next u \<longrightarrow> entries v' b = link_entry p ''.'' (Some (DDir (v_next u))) (entries u) b"
    using tmp.mount_at_ok [OF i(1) [OF ok] pd] by blast
  have "entries v' b name = entries v b name" if "v_dirs v b \<noteq> None" "name \<noteq> ''.''" for b name
    using e that tree_ok_dir(1) [OF ok] i(3,6) by (auto simp: link_entry_def)
  then show ?thesis using res look free par m by (auto simp: vfs_mount_def)
qed

end
