(* ===== verification/Pipe.thy ===== *)
theory Pipe
  imports Inode
begin

text \<open>
  Pipes: \<^verbatim>\<open>crates/libkernel/src/fs/pipe.rs\<close>.  A pipe is a bounded channel of bytes with a read
  end and a write end.  The channel is the crate \<^verbatim>\<open>async_channel\<close> and is a parameter: a record
  of its two operations over a state of its own, with the documented behaviour of a bounded
  queue as the hypothesis \<^verbatim>\<open>channel_spec\<close>.

  Reading is a future: each poll takes bytes until the buffer is full, the channel is closed
  and empty, or the channel is empty, in which case the future stays pending and remembers
  how many bytes it has.  Writing never waits: the branch of the source that would wait for
  room is unreachable, since the loop before it ends the call as soon as the channel is full.
\<close>

section \<open>The channel\<close>

datatype recv_result = Received "8 word" | Closed | Empty

record 'c channel_ops =
  try_send :: "8 word \<Rightarrow> 'c \<Rightarrow> bool \<times> 'c"
  recv :: "'c \<Rightarrow> recv_result \<times> 'c"

text \<open>The documented behaviour: the queue holds at most its capacity, \<^verbatim>\<open>try_send\<close> appends
  unless the queue is full or closed, and receiving takes the oldest byte, reports that the
  channel is closed only when it is empty, and waits otherwise.\<close>

definition channel_spec :: "'c channel_ops \<Rightarrow> ('c \<Rightarrow> 8 word list) \<Rightarrow> ('c \<Rightarrow> bool) \<Rightarrow> nat \<Rightarrow> bool" where
  "channel_spec ops queue closed cap \<longleftrightarrow>
    (\<forall>b c. length (queue c) \<le> cap \<longrightarrow>
       (case try_send ops b c of (ok, c') \<Rightarrow>
          ok = (length (queue c) < cap \<and> \<not> closed c) \<and> closed c' = closed c
          \<and> queue c' = (if ok then queue c @ [b] else queue c)))
    \<and> (\<forall>c. case recv ops c of (r, c') \<Rightarrow> closed c' = closed c
         \<and> (case queue c of [] \<Rightarrow> r = (if closed c then Closed else Empty) \<and> queue c' = []
            | b # bs \<Rightarrow> r = Received b \<and> queue c' = bs))"

definition PIPE_CAPACITY :: nat where
  "PIPE_CAPACITY = 16384"

datatype pipe_inner = ReadEnd | WriteEnd

record 'c pipe =
  pipe_meta :: InodeMeta
  pipe_chan :: 'c

section \<open>Reading\<close>

text \<open>The future of \<^verbatim>\<open>Pipe::read\<close>: the number of bytes it has stored so far.  A poll gives the
  result of the call, or None when it stays pending.\<close>

function read_poll ::
  "'c channel_ops \<Rightarrow> 'm read_buffer \<Rightarrow> nat \<Rightarrow> 'c \<Rightarrow> 'm \<Rightarrow> (fault + nat) option \<times> nat \<times> 'c \<times> 'm" where
  "read_poll ops buf n_read c m =
    (if n_read < rb_len buf
     then (case recv ops c of
         (Received b, c') \<Rightarrow> (case rb_put buf n_read [b] m of
             Inl f \<Rightarrow> (Some (Inl f), n_read, c', m)
           | Inr m' \<Rightarrow> read_poll ops buf (n_read + 1) c' m')
       | (Closed, c') \<Rightarrow> (Some (Inr n_read), n_read, c', m)
       | (Empty, c') \<Rightarrow> (None, n_read, c', m))
     else (Some (Inr n_read), n_read, c, m))"
  by pat_completeness auto

termination
  by (relation "measure (\<lambda>(ops, buf, n_read, c, m). rb_len buf - n_read)") auto

declare read_poll.simps [simp del]

definition pipe_read ::
  "'c channel_ops \<Rightarrow> TimeSpec \<Rightarrow> pipe_inner \<Rightarrow> 'm read_buffer \<Rightarrow> nat \<Rightarrow> 'c pipe \<Rightarrow> 'm
    \<Rightarrow> (fault + nat) option \<times> nat \<times> 'c pipe \<times> 'm" where
  "pipe_read ops now which buf n_read p m =
    (if which \<noteq> ReadEnd then (Some (Err EBADF), n_read, p, m)
     else (case read_poll ops buf n_read (pipe_chan p) m of (r, n, c, m') \<Rightarrow>
       (r, n, (case r of
            Some (Inr _) \<Rightarrow> p\<lparr> pipe_chan := c, pipe_meta := (pipe_meta p)\<lparr> access_time := now \<rparr> \<rparr>
          | _ \<Rightarrow> p\<lparr> pipe_chan := c \<rparr>), m')))"

section \<open>Writing\<close>

fun send_loop :: "'c channel_ops \<Rightarrow> bytes \<Rightarrow> nat \<Rightarrow> 'c \<Rightarrow> nat \<times> 'c" where
  "send_loop ops [] this_n_write c = (this_n_write, c)"
| "send_loop ops (b # bs) this_n_write c =
    (case try_send ops b c of
       (False, c') \<Rightarrow> (this_n_write + 1, c')
     | (True, c') \<Rightarrow> send_loop ops bs (this_n_write + 1) c')"

definition pipe_write ::
  "'c channel_ops \<Rightarrow> TimeSpec \<Rightarrow> pipe_inner \<Rightarrow> write_buffer \<Rightarrow> 'c pipe \<Rightarrow> (fault + nat) \<times> 'c pipe" where
  "pipe_write ops now which buf p =
    (if which \<noteq> WriteEnd then (Err EBADF, p)
     else (case wb_get buf 0 (wb_len buf) of
         Inl f \<Rightarrow> (Inl f, p)
       | Inr data \<Rightarrow> (case send_loop ops data 0 (pipe_chan p) of (n, c) \<Rightarrow>
           (Ok n, p\<lparr> pipe_chan := c, pipe_meta := (pipe_meta p)\<lparr> modify_time := now \<rparr> \<rparr>))))"

definition make_pipe :: "TimeSpec \<Rightarrow> 'c \<Rightarrow> nat \<Rightarrow> 'c pipe \<times> nat" where
  "make_pipe now chan inode_number =
    (let (meta, inode_number') = InodeMeta_new Fifo inode_number
     in (\<lparr> pipe_meta = meta\<lparr> data_len := PIPE_CAPACITY, change_time := now \<rparr>, pipe_chan = chan \<rparr>, inode_number'))"

section \<open>The bytes of a pipe\<close>

lemma recv_cases:
  assumes "channel_spec ops queue closed cap"
  shows "queue c = [] \<Longrightarrow> \<exists>c'. recv ops c = (if closed c then Closed else Empty, c') \<and> queue c' = [] \<and> closed c' = closed c"
    and "queue c = b # bs \<Longrightarrow> \<exists>c'. recv ops c = (Received b, c') \<and> queue c' = bs \<and> closed c' = closed c"
proof -
  obtain r c' where r: "recv ops c = (r, c')" by fastforce
  have "case recv ops c of (r, c') \<Rightarrow> closed c' = closed c
         \<and> (case queue c of [] \<Rightarrow> r = (if closed c then Closed else Empty) \<and> queue c' = []
            | b # bs \<Rightarrow> r = Received b \<and> queue c' = bs)"
    using conjunct2 [OF assms [unfolded channel_spec_def]] by (rule spec)
  then show "queue c = [] \<Longrightarrow> \<exists>c'. recv ops c = (if closed c then Closed else Empty, c') \<and> queue c' = [] \<and> closed c' = closed c"
    "queue c = b # bs \<Longrightarrow> \<exists>c'. recv ops c = (Received b, c') \<and> queue c' = bs \<and> closed c' = closed c"
    unfolding r by simp_all
qed

lemma try_send_cases:
  assumes "channel_spec ops queue closed cap" "length (queue c) \<le> cap"
  shows "length (queue c) < cap \<Longrightarrow> \<not> closed c \<Longrightarrow> \<exists>c'. try_send ops b c = (True, c') \<and> queue c' = queue c @ [b] \<and> closed c' = closed c"
    and "length (queue c) = cap \<or> closed c \<Longrightarrow> \<exists>c'. try_send ops b c = (False, c') \<and> queue c' = queue c \<and> closed c' = closed c"
proof -
  obtain ok c' where r: "try_send ops b c = (ok, c')" by fastforce
  have "case try_send ops b c of (ok, c') \<Rightarrow>
          ok = (length (queue c) < cap \<and> \<not> closed c) \<and> closed c' = closed c
          \<and> queue c' = (if ok then queue c @ [b] else queue c)"
    by (rule mp [OF spec [OF spec [OF conjunct1 [OF assms(1) [unfolded channel_spec_def]]]] assms(2)])
  then show "length (queue c) < cap \<Longrightarrow> \<not> closed c \<Longrightarrow> \<exists>c'. try_send ops b c = (True, c') \<and> queue c' = queue c @ [b] \<and> closed c' = closed c"
    "length (queue c) = cap \<or> closed c \<Longrightarrow> \<exists>c'. try_send ops b c = (False, c') \<and> queue c' = queue c \<and> closed c' = closed c"
    unfolding r by auto
qed

text \<open>One poll of a read into a kernel buffer.\<close>

lemma read_poll_eq:
  assumes spec: "channel_spec ops queue closed cap"
  shows "n_read \<le> len \<Longrightarrow> length m = len \<Longrightarrow>
    \<exists>c'. let k = min (len - n_read) (length (queue c)) in
      read_poll ops (kernel_read_buffer len) n_read c m
        = (if n_read + k = len \<or> closed c then Some (Inr (n_read + k)) else None, n_read + k, c',
           take n_read m @ take k (queue c) @ drop (n_read + k) m)
      \<and> queue c' = drop k (queue c) \<and> closed c' = closed c"
proof (induction "len - n_read" arbitrary: n_read c m)
  case 0
  then have "n_read = len" by simp
  then show ?case using 0 by (simp add: read_poll.simps kernel_read_buffer_def)
next
  case (Suc d)
  then have lt: "n_read < len" by simp
  have rl: "rb_len (kernel_read_buffer len) = len" by (simp add: kernel_read_buffer_def)
  show ?case
  proof (cases "queue c")
    case Nil
    then show ?thesis
      using recv_cases(1) [OF spec Nil] lt Suc.prems
      by (auto simp: read_poll.simps [of ops _ n_read] rl Let_def)
  next
    case (Cons b bs)
    obtain c1 where c1: "recv ops c = (Received b, c1)" "queue c1 = bs" "closed c1 = closed c"
      using recv_cases(2) [OF spec Cons] by blast
    let ?m = "take n_read m @ [b] @ drop (n_read + 1) m"
    have put: "rb_put (kernel_read_buffer len) n_read [b] m = Inr ?m"
      using lt Suc.prems by (simp add: kernel_read_buffer_def)
    have step: "read_poll ops (kernel_read_buffer len) n_read c m = read_poll ops (kernel_read_buffer len) (n_read + 1) c1 ?m"
      using lt c1 put by (simp add: read_poll.simps [of ops _ n_read] rl)
    define k where "k = min (len - (n_read + 1)) (length bs)"
    have "d = len - (n_read + 1)" "n_read + 1 \<le> len" "length ?m = len" using Suc.hyps(2) lt Suc.prems by auto
    from Suc.hyps(1) [OF this, of c1] obtain c' where
      IH: "read_poll ops (kernel_read_buffer len) (n_read + 1) c1 ?m
        = (if n_read + 1 + k = len \<or> closed c then Some (Inr (n_read + 1 + k)) else None, n_read + 1 + k, c',
           take (n_read + 1) ?m @ take k bs @ drop (n_read + 1 + k) ?m)"
      "queue c' = drop k bs" "closed c' = closed c" unfolding Let_def c1(2,3) k_def by blast
    have buf: "take (n_read + 1) ?m = take n_read m @ [b]" "drop (n_read + 1 + k) ?m = drop (n_read + 1 + k) m"
      using lt Suc.prems by (simp_all add: add.commute)
    have "min (len - n_read) (length (queue c)) = Suc k"
    proof -
      have "len - n_read = Suc (len - (n_read + 1))" using lt by simp
      then show ?thesis using Cons by (simp add: k_def)
    qed
    then show ?thesis unfolding Let_def step IH(1) buf using IH(2,3) Cons by simp
  qed
qed

lemma send_loop_eq:
  assumes spec: "channel_spec ops queue closed cap"
  shows "length (queue c) \<le> cap \<Longrightarrow> \<not> closed c \<Longrightarrow>
    \<exists>c'. let room = cap - length (queue c) in
      send_loop ops bs n c = (n + (if length bs \<le> room then length bs else room + 1), c')
      \<and> queue c' = queue c @ take room bs \<and> closed c' = closed c"
proof (induction bs arbitrary: n c)
  case (Cons b bs)
  show ?case
  proof (cases "length (queue c) < cap")
    case True
    obtain c1 where c1: "try_send ops b c = (True, c1)" "queue c1 = queue c @ [b]" "closed c1 = closed c"
      using try_send_cases(1) [OF spec Cons.prems(1) True Cons.prems(2)] by blast
    have room: "cap - length (queue c) = Suc (cap - length (queue c1))" using True c1(2) by simp
    have "length (queue c1) \<le> cap" "\<not> closed c1" using True c1 Cons.prems(2) by simp_all
    from Cons.IH [OF this, of "n + 1"] show ?thesis
      unfolding Let_def room using c1 by auto
  next
    case False
    then have full: "length (queue c) = cap" using Cons.prems(1) by simp
    obtain c1 where "try_send ops b c = (False, c1)" "queue c1 = queue c" "closed c1 = closed c"
      using try_send_cases(2) [OF spec Cons.prems(1)] full by blast
    then show ?thesis using full by (simp add: Let_def)
  qed
qed simp


fun write_all :: "'c channel_ops \<Rightarrow> TimeSpec \<Rightarrow> bytes list \<Rightarrow> 'c pipe \<Rightarrow> nat res list \<times> 'c pipe" where
  "write_all ops now [] p = ([], p)"
| "write_all ops now (bs # bss) p =
    (case pipe_write ops now WriteEnd (kernel_write_buffer bs) p of (r, p') \<Rightarrow>
      (case write_all ops now bss p' of (rs, p'') \<Rightarrow> (r # rs, p'')))"

lemma pipe_write_eq:
  assumes spec: "channel_spec ops queue closed cap" and q: "length (queue (pipe_chan p)) \<le> cap" "\<not> closed (pipe_chan p)"
  shows "\<exists>p'. let room = cap - length (queue (pipe_chan p)) in
    pipe_write ops now WriteEnd (kernel_write_buffer bs) p
      = (Ok (if length bs \<le> room then length bs else room + 1), p')
    \<and> queue (pipe_chan p') = queue (pipe_chan p) @ take room bs \<and> closed (pipe_chan p') = closed (pipe_chan p)"
  using send_loop_eq [OF spec q, of bs 0]
  by (auto simp: pipe_write_def kernel_write_buffer_def Let_def)

lemma write_all_eq:
  assumes spec: "channel_spec ops queue closed cap"
  shows "length (queue (pipe_chan p)) + length (concat bss) \<le> cap \<Longrightarrow> \<not> closed (pipe_chan p) \<Longrightarrow>
    \<exists>p'. write_all ops now bss p = (map (\<lambda>bs. Ok (length bs)) bss, p')
      \<and> queue (pipe_chan p') = queue (pipe_chan p) @ concat bss \<and> closed (pipe_chan p') = closed (pipe_chan p)"
proof (induction bss arbitrary: p)
  case (Cons bs bss)
  have "length (queue (pipe_chan p)) \<le> cap" and fits: "length bs \<le> cap - length (queue (pipe_chan p))"
    using Cons.prems(1) by auto
  from pipe_write_eq [OF spec this(1) Cons.prems(2), of now bs] fits obtain p1 where
    p1: "pipe_write ops now WriteEnd (kernel_write_buffer bs) p = (Ok (length bs), p1)"
    "queue (pipe_chan p1) = queue (pipe_chan p) @ bs" "closed (pipe_chan p1) = closed (pipe_chan p)"
    by (auto simp: Let_def)
  have "length (queue (pipe_chan p1)) + length (concat bss) \<le> cap" "\<not> closed (pipe_chan p1)"
    using Cons.prems p1 by auto
  from Cons.IH [OF this] p1 show ?case by auto
qed simp

text \<open>C29: a pipe delivers what was written, in order, and a reader that has to wait is served.
  Writes that fit into the pipe together are accepted in full.  A read of at most that many
  bytes completes at once with the first bytes written.  A read of more stays pending, with
  all bytes so far in its buffer; a later poll, after another write that brings enough bytes,
  completes it with the rest in place, and so does a poll after the write end is gone, with
  the bytes that came.\<close>

theorem pipe_delivers:
  assumes spec: "channel_spec ops queue closed cap"
    and p: "queue (pipe_chan p) = []" "\<not> closed (pipe_chan p)"
    and fits: "length (concat bss) + length extra \<le> cap" and m: "length m = len"
  shows "\<exists>p1 p2 m2. write_all ops now bss p = (map (\<lambda>bs. Ok (length bs)) bss, p1)
    \<and> (len \<le> length (concat bss) \<longrightarrow>
        (\<exists>p'. pipe_read ops now ReadEnd (kernel_read_buffer len) 0 p1 m
          = (Some (Ok len), len, p', take len (concat bss))
          \<and> queue (pipe_chan p') = drop len (concat bss)))
    \<and> (length (concat bss) < len \<longrightarrow>
        pipe_read ops now ReadEnd (kernel_read_buffer len) 0 p1 m = (None, length (concat bss), p2, m2)
        \<and> (len \<le> length (concat bss) + length extra \<longrightarrow>
            (\<exists>p3 p4. pipe_write ops now WriteEnd (kernel_write_buffer extra) p2 = (Ok (length extra), p3)
              \<and> pipe_read ops now ReadEnd (kernel_read_buffer len) (length (concat bss)) p3 m2
                = (Some (Ok len), len, p4, take len (concat bss @ extra))))
        \<and> (\<forall>c. queue c = queue (pipe_chan p2) \<and> closed c \<longrightarrow>
            (\<exists>p4. pipe_read ops now ReadEnd (kernel_read_buffer len) (length (concat bss)) (p2\<lparr> pipe_chan := c \<rparr>) m2
              = (Some (Ok (length (concat bss))), length (concat bss), p4,
                 concat bss @ drop (length (concat bss)) m))))"
proof -
  let ?q = "concat bss"
  have "length (queue (pipe_chan p)) + length ?q \<le> cap" using p(1) fits by simp
  from write_all_eq [OF spec this p(2), of now] p obtain p1 where
    p1: "write_all ops now bss p = (map (\<lambda>bs. Ok (length bs)) bss, p1)"
    "queue (pipe_chan p1) = ?q" "\<not> closed (pipe_chan p1)" by auto
  from read_poll_eq [OF spec, of 0 len m "pipe_chan p1"] m p1(2,3) obtain c1 where
    r1: "read_poll ops (kernel_read_buffer len) 0 (pipe_chan p1) m
      = (if len \<le> length ?q then Some (Inr len) else None, min len (length ?q), c1,
         take (min len (length ?q)) ?q @ drop (min len (length ?q)) m)"
    "queue c1 = drop (min len (length ?q)) ?q" "\<not> closed c1" by (auto simp: Let_def min_def split: if_splits)
  show ?thesis
  proof (cases "len \<le> length ?q")
    case True
    then have "min len (length ?q) = len" by simp
    then show ?thesis using True p1(1) r1 m by (auto simp: pipe_read_def)
  next
    case False
    define p2 where "p2 = p1\<lparr> pipe_chan := c1 \<rparr>"
    define m2 where "m2 = ?q @ drop (length ?q) m"
    have mn: "min len (length ?q) = length ?q" using False by simp
    have pend: "pipe_read ops now ReadEnd (kernel_read_buffer len) 0 p1 m = (None, length ?q, p2, m2)"
      using r1(1) False unfolding mn by (simp add: pipe_read_def p2_def m2_def)
    have c2: "queue (pipe_chan p2) = []" "\<not> closed (pipe_chan p2)" using r1(2,3) mn by (simp_all add: p2_def)
    have m2: "length m2 = len" "length ?q \<le> len" using False m by (simp_all add: m2_def)
    have served: "\<exists>p3 p4. pipe_write ops now WriteEnd (kernel_write_buffer extra) p2 = (Ok (length extra), p3)
        \<and> pipe_read ops now ReadEnd (kernel_read_buffer len) (length ?q) p3 m2
          = (Some (Ok len), len, p4, take len (?q @ extra))" if enough: "len \<le> length ?q + length extra"
    proof -
      obtain p3 where p3: "pipe_write ops now WriteEnd (kernel_write_buffer extra) p2 = (Ok (length extra), p3)"
        "queue (pipe_chan p3) = extra" "\<not> closed (pipe_chan p3)"
        using pipe_write_eq [OF spec, of p2 now extra] c2 fits by (auto simp: Let_def)
      have k: "min (len - length ?q) (length extra) = len - length ?q" using enough by simp
      from read_poll_eq [OF spec m2(2,1), of "pipe_chan p3"] p3(2,3) obtain c3 where
        "read_poll ops (kernel_read_buffer len) (length ?q) (pipe_chan p3) m2
          = (Some (Inr len), len, c3, take (length ?q) m2 @ take (len - length ?q) extra @ drop len m2)"
        using m2(2) unfolding Let_def p3(2) k by auto
      moreover have "take (length ?q) m2 = ?q" "drop len m2 = []" using m2(1) by (simp_all add: m2_def)
      ultimately show ?thesis using p3(1) m2(2) by (auto simp: pipe_read_def)
    qed
    have closing: "\<exists>p4. pipe_read ops now ReadEnd (kernel_read_buffer len) (length ?q) (p2\<lparr> pipe_chan := c \<rparr>) m2
        = (Some (Ok (length ?q)), length ?q, p4, ?q @ drop (length ?q) m)" if "queue c = queue (pipe_chan p2)" "closed c" for c
    proof -
      have "queue c = []" using that(1) c2(1) by simp
      from read_poll_eq [OF spec m2(2,1), of c] this that(2) show ?thesis
        by (auto simp: pipe_read_def m2_def Let_def)
    qed
    show ?thesis using False p1(1) pend served closing by auto
  qed
qed

text \<open>A write that does not fit reports one byte more than the pipe took.\<close>

lemma pipe_write_overcounts:
  assumes spec: "channel_spec ops queue closed cap" and q: "length (queue (pipe_chan p)) \<le> cap" "\<not> closed (pipe_chan p)"
    and full: "cap - length (queue (pipe_chan p)) < length bs"
  shows "\<exists>p' n. pipe_write ops now WriteEnd (kernel_write_buffer bs) p = (Ok (Suc n), p')
    \<and> queue (pipe_chan p') = queue (pipe_chan p) @ take n bs \<and> n = cap - length (queue (pipe_chan p))"
  using pipe_write_eq [OF spec q, of now bs] full by (auto simp: Let_def)

text \<open>A channel that is a list.\<close>

definition list_channel :: "nat \<Rightarrow> (8 word list \<times> bool) channel_ops" where
  "list_channel cap = \<lparr>
     try_send = (\<lambda>b c. case c of (q, cl) \<Rightarrow> if length q < cap \<and> \<not> cl then (True, (q @ [b], cl)) else (False, (q, cl))),
     recv = (\<lambda>c. case c of ([], cl) \<Rightarrow> (if cl then Closed else Empty, ([], cl)) | (b # q, cl) \<Rightarrow> (Received b, (q, cl))) \<rparr>"

lemma list_channel_spec: "channel_spec (list_channel cap) fst snd cap"
  by (auto simp: channel_spec_def list_channel_def split: list.splits prod.splits)

theorem pipe_delivers_witness:
  "\<exists>p1 p2 m2 p3 p4. write_all (list_channel 16) zero_time [[1, 2], [3]] (fst (make_pipe zero_time ([], False) 0))
      = ([Ok 2, Ok 1], p1)
    \<and> pipe_read (list_channel 16) zero_time ReadEnd (kernel_read_buffer 5) 0 p1 [0, 0, 0, 0, 0] = (None, 3, p2, m2)
    \<and> pipe_write (list_channel 16) zero_time WriteEnd (kernel_write_buffer [4, 5, 6]) p2 = (Ok 3, p3)
    \<and> pipe_read (list_channel 16) zero_time ReadEnd (kernel_read_buffer 5) 3 p3 m2 = (Some (Ok 5), 5, p4, [1, 2, 3, 4, 5])"
proof -
  have p: "fst (pipe_chan (fst (make_pipe zero_time ([] :: 8 word list, False) 0))) = []"
    "\<not> snd (pipe_chan (fst (make_pipe zero_time ([] :: 8 word list, False) 0)))"
    by (simp_all add: make_pipe_def InodeMeta_new_def)
  have f: "length (concat [[1, 2], [3 :: 8 word]]) + length [4, 5, 6 :: 8 word] \<le> 16"
    "length [0, 0, 0, 0, 0 :: 8 word] = 5" by simp_all
  have L: "length (concat [[1, 2], [3 :: 8 word]]) = 3" "length [4, 5, 6 :: 8 word] = 3"
    "map (\<lambda>bs. Ok (length bs)) [[1, 2], [3 :: 8 word]] = [Ok 2, Ok 1]"
    "take 5 (concat [[1, 2], [3]] @ [4, 5, 6]) = [1, 2, 3, 4, 5 :: 8 word]" by simp_all
  from pipe_delivers [OF list_channel_spec p f, of zero_time, unfolded L] show ?thesis by auto
qed

end
