(* ===== verification/FsSyscalls.thy ===== *)
theory FsSyscalls
  imports Vfs Pipe
begin

text \<open>
  The file system calls that work on names and descriptors
  (\<^verbatim>\<open>crates/kernel/src/syscall/fs.rs\<close>), for the process that makes them.  The state is the file
  system together with the working directory and the descriptor table of the process and the
  open files they share.  A path is what the check of the user's string gave: an error, or the
  string.  A call gives an error number or a result, and the state in both cases; None is a panic.
\<close>

section \<open>The state\<close>

record seekable_file =
  sk_dentry :: nat
  sk_offset :: nat

record dir_file =
  df_dentry :: nat
  df_index :: nat

record kfs =
  k_vfs :: vfs
  k_mounts :: mount_table
  k_root :: nat
  k_cwd :: nat
  k_fds :: fd_table
  k_dirs :: "nat \<Rightarrow> dir_file option"
  k_seekables :: "nat \<Rightarrow> seekable_file option"
  k_pipes :: "nat \<Rightarrow> InodeMeta option"
  k_next_file :: nat
  k_frames :: nat

definition ctx_of :: "kfs \<Rightarrow> fs_ctx" where
  "ctx_of k = \<lparr> ctx_root = k_root k, ctx_cwd = k_cwd k, ctx_fds = k_fds k,
     ctx_dirs = (\<lambda>i. map_option df_dentry (k_dirs k i)) \<rparr>"

definition on_vfs :: "(vfs \<Rightarrow> ('a \<times> vfs) option) \<Rightarrow> kfs \<Rightarrow> ('a \<times> kfs) option" where
  "on_vfs f k = map_option (\<lambda>(r, v). (r, k\<lparr> k_vfs := v \<rparr>)) (f (k_vfs k))"

definition with_path :: "errno + string \<Rightarrow> (string \<Rightarrow> kfs \<Rightarrow> ((errno + 'a) \<times> kfs) option) \<Rightarrow> kfs \<Rightarrow> ((errno + 'a) \<times> kfs) option" where
  "with_path path f k = (case path of Inl e \<Rightarrow> Some (Inl e, k) | Inr s \<Rightarrow> f s k)"

definition resolve :: "('d, 't) fs_env \<Rightarrow> nat \<Rightarrow> string \<Rightarrow> kfs \<Rightarrow> ((errno + path_to_inode) \<times> kfs) option" where
  "resolve env dir_fd path k = on_vfs (resolve_path_with_dir_fd env (ctx_of k) dir_fd path) k"

definition lookup_last :: "('d, 't) fs_env \<Rightarrow> path_to_inode \<Rightarrow> kfs \<Rightarrow> ((errno + dref) \<times> kfs) option" where
  "lookup_last env p k = on_vfs (lookup_or_enoent env (p2i_dir p) (p2i_last_component p)) k"

definition try_lookup_last :: "('d, 't) fs_env \<Rightarrow> path_to_inode \<Rightarrow> kfs \<Rightarrow> (dref option \<times> kfs) option" where
  "try_lookup_last env p k = on_vfs (dentry_lookup env (p2i_dir p) (p2i_last_component p)) k"

definition new_open_file :: "kfile \<Rightarrow> open_flags \<Rightarrow> kfs \<Rightarrow> ((errno + nat) \<times> kfs) option" where
  "new_open_file f flags k = (case fd_add (fd_new f flags) (k_fds k) of
     None \<Rightarrow> None
   | Some (None, t) \<Rightarrow> Some (Inl EMFILE, k\<lparr> k_fds := t \<rparr>)
   | Some (Some fd, t) \<Rightarrow> Some (Inr fd, k\<lparr> k_fds := t \<rparr>))"

section \<open>Names\<close>

definition sys_mkdirat :: "('d, 't) fs_env \<Rightarrow> nat \<Rightarrow> errno + string \<Rightarrow> kfs \<Rightarrow> ((errno + nat) \<times> kfs) option" where
  "sys_mkdirat env dir_fd path = with_path path (\<lambda>s k.
     sbind (resolve env dir_fd s k) (\<lambda>p k1.
     sbind (on_vfs (dentry_mkdir env (p2i_dir p) (p2i_last_component p)) k1) (\<lambda>_ k2. Some (Inr 0, k2))))"

definition sys_chdir :: "('d, 't) fs_env \<Rightarrow> errno + string \<Rightarrow> kfs \<Rightarrow> ((errno + nat) \<times> kfs) option" where
  "sys_chdir env path = with_path path (\<lambda>s k.
     sbind (resolve env AT_FDCWD s k) (\<lambda>p k1.
     sbind (lookup_last env p k1) (\<lambda>r k2. case r of
       DDir a \<Rightarrow> Some (Inr 0, k2\<lparr> k_cwd := a \<rparr>)
     | DBytes _ \<Rightarrow> Some (Inl ENOTDIR, k2))))"

text \<open>\<^verbatim>\<open>getcwd\<close>: the arguments are the address of the user's buffer, its bytes and what the check
  of the buffer gives; the result comes with the bytes of the buffer after the call.\<close>

definition blit :: "bytes \<Rightarrow> nat \<Rightarrow> bytes \<Rightarrow> bytes option" where
  "blit buf i bs = (if i + length bs \<le> length buf then Some (take i buf @ bs @ drop (i + length bs) buf) else None)"

fun blit_names :: "bytes \<Rightarrow> nat \<Rightarrow> bytes list \<Rightarrow> (bytes \<times> nat) option" where
  "blit_names buf curr_pos [] = Some (buf, curr_pos)"
| "blit_names buf curr_pos (n # ns) = (case blit buf curr_pos n of
     None \<Rightarrow> None
   | Some buf' \<Rightarrow> blit_names buf' (curr_pos + length n) ns)"

fun intersperse_list :: "'a \<Rightarrow> 'a list \<Rightarrow> 'a list" where
  "intersperse_list s [] = []"
| "intersperse_list s [x] = [x]"
| "intersperse_list s (x # y # xs) = x # s # intersperse_list s (y # xs)"

definition as_bytes :: "string \<Rightarrow> bytes" where
  "as_bytes s = map (\<lambda>c. word_of_nat (of_char c)) s"

definition sys_getcwd :: "nat \<Rightarrow> bytes \<Rightarrow> errno + unit \<Rightarrow> kfs \<Rightarrow> ((errno + nat) \<times> bytes) option" where
  "sys_getcwd addr buf checked k = do {
     dirs \<leftarrow> parent_names (k_vfs k) (k_cwd k);
     let path_len = 2 + sum_list (map length dirs) + (length dirs - 1);
     if length buf < path_len then Some (Inl ERANGE, buf)
     else (case checked of
         Inl e \<Rightarrow> Some (Inl e, buf)
       | Inr _ \<Rightarrow> do {
           buf1 \<leftarrow> blit buf 0 (as_bytes ''/'');
           (buf2, pos) \<leftarrow> blit_names buf1 1 (intersperse_list (as_bytes ''/'') (map as_bytes dirs));
           buf3 \<leftarrow> blit buf2 pos [0];
           Some (Inr addr, buf3)
         })
   }"

definition AT_SYMLINK_NOFOLLOW :: "32 word" where "AT_SYMLINK_NOFOLLOW = 0x100"
definition AT_REMOVEDIR :: "32 word" where "AT_REMOVEDIR = 0x200"
definition AT_SYMLINK_FOLLOW :: "32 word" where "AT_SYMLINK_FOLLOW = 0x400"
definition AT_NO_AUTOMOUNT :: "32 word" where "AT_NO_AUTOMOUNT = 0x800"
definition AT_EMPTY_PATH :: "32 word" where "AT_EMPTY_PATH = 0x1000"

definition fstat_flags_from_bits :: "32 word \<Rightarrow> 32 word option" where
  "fstat_flags_from_bits b =
    (if b AND (AT_SYMLINK_NOFOLLOW OR AT_REMOVEDIR OR AT_SYMLINK_FOLLOW OR AT_NO_AUTOMOUNT OR AT_EMPTY_PATH) = b
     then Some b else None)"

definition sys_unlinkat :: "('d, 't) fs_env \<Rightarrow> nat \<Rightarrow> errno + string \<Rightarrow> 32 word \<Rightarrow> kfs \<Rightarrow> ((errno + nat) \<times> kfs) option" where
  "sys_unlinkat env dir_fd path flags = with_path path (\<lambda>s k. case fstat_flags_from_bits flags of
     None \<Rightarrow> None
   | Some fl \<Rightarrow> sbind (resolve env dir_fd s k) (\<lambda>p k1.
       if has_flag fl AT_REMOVEDIR
       then (case p2i_last_type p of
           Dot \<Rightarrow> Some (Inl EINVAL, k1)
         | DotDot \<Rightarrow> Some (Inl ENOTEMPTY, k1)
         | Root \<Rightarrow> Some (Inl EBUSY, k1)
         | Normal \<Rightarrow> sbind (lookup_last env p k1) (\<lambda>r k2.
             if is_mount_root (k_mounts k2) r then Some (Inl EBUSY, k2)
             else (case r of
                 DBytes _ \<Rightarrow> Some (Inl ENOTDIR, k2)
               | DDir b \<Rightarrow> sbind (on_vfs (dentry_remove_dir (p2i_dir p) b) k2) (\<lambda>_ k3. Some (Inr 0, k3)))))
       else if p2i_last_type p \<noteq> Normal then Some (Inl EISDIR, k1)
       else sbind (lookup_last env p k1) (\<lambda>r k2.
         if is_mount_root (k_mounts k2) r then Some (Inl EBUSY, k2)
         else (case r of
             DDir _ \<Rightarrow> Some (Inl EISDIR, k2)
           | DBytes b \<Rightarrow> (case v_files (k_vfs k2) b of
               None \<Rightarrow> None
             | Some f \<Rightarrow> sbind (on_vfs (dentry_unlink (db_parent f) (db_name f)) k2) (\<lambda>_ k3. Some (Inr 0, k3)))))))"

text \<open>\<^verbatim>\<open>MountFlags\<close> and \<^verbatim>\<open>UnmountFlags\<close> have no flag, so that every other number than 0 is refused by
  a panic.\<close>

datatype FileSystemType = VFat | TmpFs | DevTmpFs | ProcFs

definition FileSystemType_from_str :: "string \<Rightarrow> errno + FileSystemType" where
  "FileSystemType_from_str s =
    (if s = ''vfat'' then Inr VFat else if s = ''tmpfs'' then Inr TmpFs
     else if s = ''devtmpfs'' then Inr DevTmpFs else if s = ''proc'' then Inr ProcFs else Inl ENODEV)"

definition constructor_of :: "TimeSpec \<Rightarrow> FileSystemType \<Rightarrow> fs_constructor_fun" where
  "constructor_of now t = (case t of VFat \<Rightarrow> new_tmp_fs now | TmpFs \<Rightarrow> new_tmp_fs now
     | DevTmpFs \<Rightarrow> new_dev_fs now | ProcFs \<Rightarrow> new_proc_fs now)"

definition on_mounts :: "(vfs \<times> mount_table \<Rightarrow> ((errno + unit) \<times> vfs \<times> mount_table) option) \<Rightarrow> kfs
    \<Rightarrow> ((errno + nat) \<times> kfs) option" where
  "on_mounts f k = (case f (k_vfs k, k_mounts k) of
     None \<Rightarrow> None
   | Some (r, v, mt) \<Rightarrow> Some (case r of Inl e \<Rightarrow> Inl e | Inr _ \<Rightarrow> Inr 0, k\<lparr> k_vfs := v, k_mounts := mt \<rparr>))"

definition sys_mount :: "('d, 't) fs_env \<Rightarrow> errno + string \<Rightarrow> errno + string \<Rightarrow> errno + string \<Rightarrow> 32 word
    \<Rightarrow> (errno + string) option \<Rightarrow> kfs \<Rightarrow> ((errno + nat) \<times> kfs) option" where
  "sys_mount env source target fs_type flags data =
    with_path source (\<lambda>src. with_path target (\<lambda>tgt. with_path fs_type (\<lambda>ty k.
      case FileSystemType_from_str ty of
        Inl e \<Rightarrow> Some (Inl e, k)
      | Inr t \<Rightarrow> if flags \<noteq> 0 then None
          else with_path (case data of None \<Rightarrow> Inr '''' | Some d \<Rightarrow> d) (\<lambda>_.
            on_mounts (vfs_mount env (ctx_of k) tgt src (constructor_of (e_now env) t))) k)))"

definition sys_umount :: "('d, 't) fs_env \<Rightarrow> errno + string \<Rightarrow> 32 word \<Rightarrow> kfs \<Rightarrow> ((errno + nat) \<times> kfs) option" where
  "sys_umount env target flags k = (if flags \<noteq> 0 then None
     else with_path target (\<lambda>tgt k. on_mounts (vfs_unmount env (ctx_of k) tgt) k) k)"

section \<open>Opening\<close>

definition bytes_meta :: "bytes_inode \<Rightarrow> InodeMeta" where
  "bytes_meta i = (case i of FatFileI f \<Rightarrow> ff_meta f | MountsI m \<Rightarrow> m | MeminfoI m \<Rightarrow> m | TtyI m \<Rightarrow> m | RtcI m \<Rightarrow> m)"

definition set_bytes_meta :: "InodeMeta \<Rightarrow> bytes_inode \<Rightarrow> bytes_inode" where
  "set_bytes_meta meta i = (case i of FatFileI f \<Rightarrow> FatFileI (f\<lparr> ff_meta := meta \<rparr>) | MountsI _ \<Rightarrow> MountsI meta
     | MeminfoI _ \<Rightarrow> MeminfoI meta | TtyI _ \<Rightarrow> TtyI meta | RtcI _ \<Rightarrow> RtcI meta)"

text \<open>\<^verbatim>\<open>resize\<close> on an inode: FAT files are truncated, and the default of the trait is an error.\<close>

definition default_truncate :: "nat \<Rightarrow> InodeMeta \<Rightarrow> unit \<Rightarrow> ((fault + unit) \<times> InodeMeta \<times> unit) option" where
  "default_truncate len meta b = Some (Inl (Errno EINVAL), meta, b)"

definition put_bytes_inode :: "nat \<Rightarrow> bytes_inode \<Rightarrow> kfs \<Rightarrow> kfs" where
  "put_bytes_inode i x k = k\<lparr> k_vfs := (k_vfs k)\<lparr> v_bytes_inodes := (v_bytes_inodes (k_vfs k))(i \<mapsto> x) \<rparr> \<rparr>"

definition inode_resize :: "('d, 't) fs_env \<Rightarrow> nat \<Rightarrow> nat \<Rightarrow> kfs \<Rightarrow> ((fault + unit) \<times> kfs) option" where
  "inode_resize env i len k = (case v_bytes_inodes (k_vfs k) i of
     None \<Rightarrow> None
   | Some (FatFileI f) \<Rightarrow>
       (case resize (fat_truncate (e_now env)) len (ff_meta f) (ff_clusters f, v_fat (k_vfs k)) (k_frames k) of
          None \<Rightarrow> None
        | Some (r, meta, (clusters, F), frames) \<Rightarrow>
            (let k1 = put_bytes_inode i (FatFileI (f\<lparr> ff_meta := meta, ff_clusters := clusters \<rparr>)) k
             in Some (r, k1\<lparr> k_vfs := (k_vfs k1)\<lparr> v_fat := F \<rparr>, k_frames := frames \<rparr>)))
   | Some x \<Rightarrow>
       (case resize default_truncate len (bytes_meta x) () (k_frames k) of
          None \<Rightarrow> None
        | Some (r, meta, _, frames) \<Rightarrow> Some (r, (put_bytes_inode i (set_bytes_meta meta x) k)\<lparr> k_frames := frames \<rparr>)))"

definition open_seekable :: "nat \<Rightarrow> open_flags \<Rightarrow> kfs \<Rightarrow> ((errno + nat) \<times> kfs) option" where
  "open_seekable b flags k = (let s = k_next_file k in
     new_open_file (SeekableFile s) flags
       (k\<lparr> k_seekables := (k_seekables k)(s \<mapsto> \<lparr> sk_dentry = b, sk_offset = 0 \<rparr>), k_next_file := Suc s \<rparr>))"

definition open_dir :: "nat \<Rightarrow> open_flags \<Rightarrow> kfs \<Rightarrow> ((errno + nat) \<times> kfs) option" where
  "open_dir a flags k = (let s = k_next_file k in
     new_open_file (DirFile s) flags
       (k\<lparr> k_dirs := (k_dirs k)(s \<mapsto> \<lparr> df_dentry = a, df_index = 0 \<rparr>), k_next_file := Suc s \<rparr>))"

definition open_bytes :: "('d, 't) fs_env \<Rightarrow> nat \<Rightarrow> open_flags \<Rightarrow> kfs \<Rightarrow> ((errno + nat) \<times> kfs) option" where
  "open_bytes env b flags k =
    (if has_flag flags O_DIRECTORY then Some (Inl ENOTDIR, k)
     else do {
       f \<leftarrow> v_files (k_vfs k) b;
       x \<leftarrow> v_bytes_inodes (k_vfs k) (db_inode f);
       let m = mode (bytes_meta x);
       wr \<leftarrow> (if has_flag flags O_TRUNCATE then map_option snd (read_write flags) else Some False);
       (r, k1) \<leftarrow> (if wr \<and> m = Regular then inode_resize env (db_inode f) 0 k else Some (Inr (), k));
       (case r of
          Inl Panic \<Rightarrow> None
        | Inl (Errno e) \<Rightarrow> Some (Inl e, k1)
        | Inr _ \<Rightarrow> if m = Regular \<or> m = BlockDevice then open_seekable b flags k1
            else new_open_file (StreamFile b) flags k1)
     })"

definition open_existing :: "('d, 't) fs_env \<Rightarrow> open_flags \<Rightarrow> dref \<Rightarrow> kfs \<Rightarrow> ((errno + nat) \<times> kfs) option" where
  "open_existing env fl r k =
    (if has_flag fl (O_CREATE OR O_EXCL) then Some (Inl EEXIST, k)
     else (case r of
         DDir a \<Rightarrow> if fl AND (O_WRONLY OR O_RDWR) \<noteq> 0 then Some (Inl EISDIR, k) else open_dir a fl k
       | DBytes b \<Rightarrow> open_bytes env b fl k))"

definition open_missing :: "('d, 't) fs_env \<Rightarrow> open_flags \<Rightarrow> path_to_inode \<Rightarrow> kfs \<Rightarrow> ((errno + nat) \<times> kfs) option" where
  "open_missing env fl p k =
    (if \<not> has_flag fl O_CREATE then Some (Inl ENOENT, k)
     else sbind (on_vfs (dentry_mknod env (p2i_dir p) (p2i_last_component p) Regular) k) (\<lambda>b k'. open_seekable b fl k'))"

definition sys_openat :: "('d, 't) fs_env \<Rightarrow> nat \<Rightarrow> errno + string \<Rightarrow> 32 word \<Rightarrow> kfs \<Rightarrow> ((errno + nat) \<times> kfs) option" where
  "sys_openat env dir_fd path flags = with_path path (\<lambda>s k. case open_flags_from_bits flags of
     None \<Rightarrow> None
   | Some fl \<Rightarrow>
       if fl AND (O_ASYNC OR O_DSYNC) \<noteq> 0 then None
       else sbind (resolve env dir_fd s k) (\<lambda>p k1. case try_lookup_last env p k1 of
           None \<Rightarrow> None
         | Some (found, k2) \<Rightarrow> (case found of Some r \<Rightarrow> open_existing env fl r k2 | None \<Rightarrow> open_missing env fl p k2)))"

section \<open>Renaming\<close>

definition RENAME_NOREPLACE :: "32 word" where "RENAME_NOREPLACE = 1"
definition RENAME_EXCHANGE :: "32 word" where "RENAME_EXCHANGE = 2"
definition RENAME_WHITEOUT :: "32 word" where "RENAME_WHITEOUT = 4"

definition renameat2_flags_from_bits :: "32 word \<Rightarrow> 32 word option" where
  "renameat2_flags_from_bits b = (if b AND (RENAME_NOREPLACE OR RENAME_EXCHANGE OR RENAME_WHITEOUT) = b then Some b else None)"

text \<open>Whether a directory is \<open>a\<close> or below it.  The comparison of the addresses makes the walk end; it
  always holds in a well-formed store (\<open>tree_ok\<close>).\<close>

function is_below :: "vfs \<Rightarrow> nat \<Rightarrow> nat \<Rightarrow> bool" where
  "is_below v a b = (if b = a then True else (case v_dirs v b of
     None \<Rightarrow> False
   | Some d \<Rightarrow> (case dd_parent d of None \<Rightarrow> False | Some p \<Rightarrow> if p < b then is_below v a p else False)))"
  by pat_completeness auto

termination
  by (relation "measure (\<lambda>(v, a, b). b)") auto

declare is_below.simps [simp del]

text \<open>Two entries are the same when they are the same directory, or files with the same inode.\<close>

definition same_dentry :: "vfs \<Rightarrow> dref \<Rightarrow> dref \<Rightarrow> bool" where
  "same_dentry v x y = (case (x, y) of
     (DDir a, DDir b) \<Rightarrow> a = b
   | (DBytes a, DBytes b) \<Rightarrow> map_option db_inode (v_files v a) = map_option db_inode (v_files v b)
   | _ \<Rightarrow> False)"

definition do_rename :: "32 word \<Rightarrow> dref \<Rightarrow> path_to_inode \<Rightarrow> dref option \<Rightarrow> kfs \<Rightarrow> ((errno + nat) \<times> kfs) option" where
  "do_rename flags old_dentry new_p2i new_dentry k = (case old_dentry of
     DDir a \<Rightarrow>
       if is_below (k_vfs k) a (p2i_dir new_p2i) then Some (Inl EINVAL, k)
       else (case new_dentry of
           Some _ \<Rightarrow> Some (Inl (if has_flag flags RENAME_NOREPLACE then EEXIST else UNSUPPORTED), k)
         | None \<Rightarrow> on_vfs (dentry_rename_dir a (p2i_dir new_p2i) (p2i_last_component new_p2i)) k)
   | DBytes b \<Rightarrow> (case new_dentry of
         Some r \<Rightarrow>
           if has_flag flags RENAME_NOREPLACE then Some (Inl EEXIST, k)
           else (case r of
               DDir _ \<Rightarrow> Some (Inl EISDIR, k)
             | DBytes _ \<Rightarrow> on_vfs (dentry_rename_bytes b (p2i_dir new_p2i) (p2i_last_component new_p2i)) k)
       | None \<Rightarrow> on_vfs (dentry_rename_bytes b (p2i_dir new_p2i) (p2i_last_component new_p2i)) k))"

definition rename_to :: "('d, 't) fs_env \<Rightarrow> 32 word \<Rightarrow> dref \<Rightarrow> path_to_inode \<Rightarrow> kfs \<Rightarrow> ((errno + nat) \<times> kfs) option" where
  "rename_to env flags old_dentry new_p2i k =
    (if p2i_last_type new_p2i \<noteq> Normal then Some (Inl EBUSY, k)
     else (case try_lookup_last env new_p2i k of
         None \<Rightarrow> None
       | Some (new_dentry, k1) \<Rightarrow>
           (case new_dentry of
              Some r \<Rightarrow>
                if same_dentry (k_vfs k1) old_dentry r then Some (Inr 0, k1)
                else if is_mount_root (k_mounts k1) r then Some (Inl EBUSY, k1)
                else (case same_mounted_fs (k_vfs k1) (k_mounts k1) old_dentry r of
                    None \<Rightarrow> None
                  | Some same \<Rightarrow> if \<not> same then Some (Inl EXDEV, k1) else do_rename flags old_dentry new_p2i new_dentry k1)
            | None \<Rightarrow> (case same_mounted_fs (k_vfs k1) (k_mounts k1) old_dentry (DDir (p2i_dir new_p2i)) of
                  None \<Rightarrow> None
                | Some same \<Rightarrow> if \<not> same then Some (Inl EXDEV, k1) else do_rename flags old_dentry new_p2i new_dentry k1))))"

definition sys_renameat2 :: "('d, 't) fs_env \<Rightarrow> nat \<Rightarrow> errno + string \<Rightarrow> nat \<Rightarrow> errno + string \<Rightarrow> 32 word \<Rightarrow> kfs
    \<Rightarrow> ((errno + nat) \<times> kfs) option" where
  "sys_renameat2 env old_dir_fd old_path new_dir_fd new_path flags k = (case renameat2_flags_from_bits flags of
     None \<Rightarrow> Some (Inl EINVAL, k)
   | Some fl \<Rightarrow>
       if fl AND (RENAME_EXCHANGE OR RENAME_WHITEOUT) \<noteq> 0 then Some (Inl UNSUPPORTED, k)
       else with_path old_path (\<lambda>old. with_path new_path (\<lambda>new k.
         sbind (resolve env old_dir_fd old k) (\<lambda>old_p2i k1.
           if p2i_last_type old_p2i \<noteq> Normal then Some (Inl EBUSY, k1)
           else sbind (lookup_last env old_p2i k1) (\<lambda>old_dentry k2.
             if is_mount_root (k_mounts k2) old_dentry then Some (Inl EBUSY, k2)
             else sbind (resolve env new_dir_fd new k2) (\<lambda>new_p2i k3. rename_to env fl old_dentry new_p2i k3))))) k)"

section \<open>Descriptors\<close>

definition sys_close :: "nat \<Rightarrow> kfs \<Rightarrow> ((errno + nat) \<times> kfs) option" where
  "sys_close fd k = (case fd_remove fd (k_fds k) of
     (None, t) \<Rightarrow> Some (Inl EBADF, k\<lparr> k_fds := t \<rparr>)
   | (Some _, t) \<Rightarrow> Some (Inr 0, k\<lparr> k_fds := t \<rparr>))"

definition sys_dup :: "nat \<Rightarrow> kfs \<Rightarrow> ((errno + nat) \<times> kfs) option" where
  "sys_dup old_fd k = (case fd_get old_fd (k_fds k) of
     None \<Rightarrow> Some (Inl EBADF, k)
   | Some desc \<Rightarrow> (case fd_add desc (k_fds k) of
       None \<Rightarrow> None
     | Some (None, t) \<Rightarrow> Some (Inl EMFILE, k\<lparr> k_fds := t \<rparr>)
     | Some (Some fd, t) \<Rightarrow> Some (Inr fd, k\<lparr> k_fds := t \<rparr>)))"

definition sys_dup3 :: "nat \<Rightarrow> nat \<Rightarrow> 32 word \<Rightarrow> kfs \<Rightarrow> ((errno + nat) \<times> kfs) option" where
  "sys_dup3 old_fd new_fd flags k = (case open_flags_from_bits flags of
     None \<Rightarrow> None
   | Some fl \<Rightarrow> (case fd_get old_fd (k_fds k) of
       None \<Rightarrow> Some (Inl EBADF, k)
     | Some desc \<Rightarrow>
         if old_fd = new_fd then Some (Inl EINVAL, k)
         else Some (Inr new_fd, k\<lparr> k_fds := snd (fd_insert new_fd (set_close_on_exec (has_flag fl O_CLOEXEC) desc) (k_fds k)) \<rparr>)))"

definition F_DUPFD :: nat where "F_DUPFD = 0"
definition F_GETFD :: nat where "F_GETFD = 1"
definition F_SETFD :: nat where "F_SETFD = 2"
definition F_GETFL :: nat where "F_GETFL = 3"
definition F_DUPFD_CLOEXEC :: nat where "F_DUPFD_CLOEXEC = 1030"

definition sys_fcntl64 :: "nat \<Rightarrow> nat \<Rightarrow> nat \<Rightarrow> kfs \<Rightarrow> ((errno + nat) \<times> kfs) option" where
  "sys_fcntl64 fd cmd arg k =
    (if cmd = F_DUPFD \<or> cmd = F_DUPFD_CLOEXEC
     then (case fd_get fd (k_fds k) of
         None \<Rightarrow> Some (Inl EBADF, k)
       | Some desc \<Rightarrow> (case add_from (if cmd = F_DUPFD_CLOEXEC then set_close_on_exec True desc else desc) arg (k_fds k) of
           None \<Rightarrow> None
         | Some (None, t) \<Rightarrow> Some (Inl EMFILE, k\<lparr> k_fds := t \<rparr>)
         | Some (Some n, t) \<Rightarrow> Some (Inr n, k\<lparr> k_fds := t \<rparr>)))
     else if cmd = F_GETFD
     then (case fd_get fd (k_fds k) of
         None \<Rightarrow> Some (Inl EBADF, k)
       | Some desc \<Rightarrow> Some (Inr (if has_flag (fd_flags desc) O_CLOEXEC then 1 else 0), k))
     else if cmd = F_SETFD
     then (case fd_get fd (k_fds k) of
         None \<Rightarrow> Some (Inl EBADF, k)
       | Some desc \<Rightarrow> Some (Inr 0, k\<lparr> k_fds := snd (fd_insert fd (set_close_on_exec (odd arg) desc) (k_fds k)) \<rparr>))
     else if cmd = F_GETFL
     then (case fd_get fd (k_fds k) of
         None \<Rightarrow> Some (Inl EBADF, k)
       | Some desc \<Rightarrow> Some (Inr (unat (fd_flags desc)), k))
     else Some (Inl EINVAL, k))"

section \<open>Metadata\<close>

record Stat =
  st_dev :: nat
  st_ino :: nat
  st_mode :: "32 word"
  st_nlink :: nat
  st_uid :: nat
  st_gid :: nat
  st_rdev :: nat
  st_size :: nat
  st_blksize :: nat
  st_blocks :: nat
  st_atime :: TimeSpec
  st_mtime :: TimeSpec
  st_ctime :: TimeSpec

definition BLOCK_SIZE :: nat where "BLOCK_SIZE = 512"

fun stat_mode :: "InodeMode \<Rightarrow> 32 word" where
  "stat_mode Regular = push_bit 15 1"
| "stat_mode Dir = push_bit 14 1"
| "stat_mode SymbolLink = push_bit 15 1 OR push_bit 13 1"
| "stat_mode Socket = push_bit 15 1 OR push_bit 14 1"
| "stat_mode Fifo = push_bit 12 1"
| "stat_mode BlockDevice = push_bit 14 1 OR push_bit 13 1"
| "stat_mode CharDevice = push_bit 13 1"

definition stat_from_meta :: "InodeMeta \<Rightarrow> Stat" where
  "stat_from_meta meta = \<lparr> st_dev = 114514, st_ino = ino meta, st_mode = stat_mode (mode meta), st_nlink = 1, st_uid = 0,
     st_gid = 0, st_rdev = 0, st_size = data_len meta, st_blksize = BLOCK_SIZE, st_blocks = div_ceil (data_len meta) BLOCK_SIZE,
     st_atime = access_time meta, st_mtime = modify_time meta, st_ctime = change_time meta \<rparr>"

definition dref_meta :: "vfs \<Rightarrow> dref \<Rightarrow> InodeMeta option" where
  "dref_meta v r = (case r of
     DDir a \<Rightarrow> do { d \<leftarrow> v_dirs v a; i \<leftarrow> v_dir_inodes v (dd_inode d); Some (dir_meta i) }
   | DBytes b \<Rightarrow> do { f \<leftarrow> v_files v b; i \<leftarrow> v_bytes_inodes v (db_inode f); Some (bytes_meta i) })"

definition file_meta :: "kfs \<Rightarrow> kfile \<Rightarrow> InodeMeta option" where
  "file_meta k f = (case f of
     DirFile i \<Rightarrow> do { d \<leftarrow> k_dirs k i; dref_meta (k_vfs k) (DDir (df_dentry d)) }
   | SeekableFile i \<Rightarrow> do { d \<leftarrow> k_seekables k i; dref_meta (k_vfs k) (DBytes (sk_dentry d)) }
   | PipeFile e \<Rightarrow> k_pipes k (case e of pipe_end.ReadEnd i \<Rightarrow> i | pipe_end.WriteEnd i \<Rightarrow> i)
   | StreamFile b \<Rightarrow> dref_meta (k_vfs k) (DBytes b))"

text \<open>The result of \<^verbatim>\<open>newfstatat\<close> and \<^verbatim>\<open>newfstat\<close> is what is written to the user's buffer; \<open>checked\<close>
  is the check of the buffer.\<close>

definition sys_newfstatat :: "('d, 't) fs_env \<Rightarrow> nat \<Rightarrow> errno + string \<Rightarrow> errno + unit \<Rightarrow> nat \<Rightarrow> kfs \<Rightarrow> ((errno + Stat) \<times> kfs) option" where
  "sys_newfstatat env dir_fd path checked flags k =
    (case (if flags < 2 ^ 32 then fstat_flags_from_bits (word_of_nat flags) else None) of
       None \<Rightarrow> Some (Inl EINVAL, k)
     | Some fl \<Rightarrow> with_path path (\<lambda>s k.
         if s = [] \<and> \<not> has_flag fl AT_EMPTY_PATH then Some (Inl ENOENT, k)
         else (case checked of
             Inl e \<Rightarrow> Some (Inl e, k)
           | Inr _ \<Rightarrow>
               if s = [] then (case fd_get dir_fd (k_fds k) of
                   None \<Rightarrow> Some (Inl EBADF, k)
                 | Some d \<Rightarrow> map_option (\<lambda>m. (Inr (stat_from_meta m), k)) (file_meta k (fd_file d)))
               else sbind (resolve env dir_fd s k) (\<lambda>p k1. sbind (lookup_last env p k1) (\<lambda>r k2.
                 map_option (\<lambda>m. (Inr (stat_from_meta m), k2)) (dref_meta (k_vfs k2) r))))) k)"

definition sys_newfstat :: "nat \<Rightarrow> errno + unit \<Rightarrow> kfs \<Rightarrow> ((errno + Stat) \<times> kfs) option" where
  "sys_newfstat fd checked k = (case fd_get fd (k_fds k) of
     None \<Rightarrow> Some (Inl EBADF, k)
   | Some d \<Rightarrow> (case file_meta k (fd_file d) of
       None \<Rightarrow> None
     | Some m \<Rightarrow> Some (case checked of Inl e \<Rightarrow> Inl e | Inr _ \<Rightarrow> Inr (stat_from_meta m), k)))"

definition sys_faccessat :: "('d, 't) fs_env \<Rightarrow> nat \<Rightarrow> errno + string \<Rightarrow> 32 word \<Rightarrow> kfs \<Rightarrow> ((errno + nat) \<times> kfs) option" where
  "sys_faccessat env dir_fd path m k = (if m AND 7 \<noteq> m then Some (Inl EINVAL, k)
     else with_path path (\<lambda>s k. sbind (resolve env dir_fd s k) (\<lambda>p k1. sbind (lookup_last env p k1) (\<lambda>_ k2. Some (Inr 0, k2)))) k)"

definition UTIME_NOW :: int where "UTIME_NOW = 1073741823"
definition UTIME_OMIT :: int where "UTIME_OMIT = 1073741822"

definition set_times :: "TimeSpec option \<Rightarrow> TimeSpec option \<Rightarrow> InodeMeta \<Rightarrow> InodeMeta" where
  "set_times new_atime new_mtime meta =
    (let m1 = (case new_atime of None \<Rightarrow> meta | Some t \<Rightarrow> meta\<lparr> access_time := t \<rparr>)
     in case new_mtime of None \<Rightarrow> m1 | Some t \<Rightarrow> m1\<lparr> modify_time := t \<rparr>)"

definition update_dref_meta :: "(InodeMeta \<Rightarrow> InodeMeta) \<Rightarrow> dref \<Rightarrow> vfs \<Rightarrow> vfs option" where
  "update_dref_meta g r v = (case r of
     DDir a \<Rightarrow> do {
       d \<leftarrow> v_dirs v a; i \<leftarrow> v_dir_inodes v (dd_inode d);
       Some (v\<lparr> v_dir_inodes := (v_dir_inodes v)(dd_inode d \<mapsto> set_dir_meta (g (dir_meta i)) i) \<rparr>) }
   | DBytes b \<Rightarrow> do {
       f \<leftarrow> v_files v b; i \<leftarrow> v_bytes_inodes v (db_inode f);
       Some (v\<lparr> v_bytes_inodes := (v_bytes_inodes v)(db_inode f \<mapsto> set_bytes_meta (g (bytes_meta i)) i) \<rparr>) })"

text \<open>The times the user gives.  The second of the pair decides whether the time of modification
  is set, and the source sets it to the first.\<close>

definition new_times :: "TimeSpec \<Rightarrow> (errno + TimeSpec \<times> TimeSpec) option \<Rightarrow> errno + TimeSpec option \<times> TimeSpec option" where
  "new_times now tms = (case tms of
     None \<Rightarrow> Inr (Some now, Some now)
   | Some (Inl e) \<Rightarrow> Inl e
   | Some (Inr (atime, mtime)) \<Rightarrow> Inr
       (if ts_nsec atime = UTIME_NOW then Some now else if ts_nsec atime = UTIME_OMIT then None else Some atime,
        if ts_nsec mtime = UTIME_NOW then Some now else if ts_nsec mtime = UTIME_OMIT then None else Some atime))"

definition sys_utimensat :: "('d, 't) fs_env \<Rightarrow> nat \<Rightarrow> errno + string \<Rightarrow> (errno + TimeSpec \<times> TimeSpec) option \<Rightarrow> nat \<Rightarrow> kfs
    \<Rightarrow> ((errno + nat) \<times> kfs) option" where
  "sys_utimensat env dir_fd path tms flags k =
    (case (if flags < 2 ^ 32 then fstat_flags_from_bits (word_of_nat flags) else None) of
       None \<Rightarrow> Some (Inl EINVAL, k)
     | Some fl \<Rightarrow> with_path path (\<lambda>s k.
         if s = [] \<and> \<not> has_flag fl AT_EMPTY_PATH then Some (Inl ENOENT, k)
         else sbind (resolve env dir_fd s k) (\<lambda>p k1. sbind (lookup_last env p k1) (\<lambda>r k2.
           case new_times (e_now env) tms of
             Inl e \<Rightarrow> Some (Inl e, k2)
           | Inr (a, m) \<Rightarrow> map_option (\<lambda>v. (Inr 0, k2\<lparr> k_vfs := v \<rparr>)) (update_dref_meta (set_times a m) r (k_vfs k2))))) k)"

record FsStat =
  f_bsize :: nat
  f_flags :: nat
  f_namelen :: nat

definition NAME_MAX :: nat where "NAME_MAX = 255"

text \<open>\<^verbatim>\<open>statfs64\<close> walks from the root, also along a relative path, up to the nearest mount root.  No
  flag of a file system is defined, so that the flags are always 0.\<close>

definition sys_statfs64 :: "('d, 't) fs_env \<Rightarrow> errno + string \<Rightarrow> errno + unit \<Rightarrow> kfs \<Rightarrow> ((errno + FsStat) \<times> kfs) option" where
  "sys_statfs64 env path checked = with_path path (\<lambda>s k.
     sbind (on_vfs (path_walk env (k_root k) s) k) (\<lambda>p k1. sbind (lookup_last env p k1) (\<lambda>r k2.
       case mounted_root_of (k_vfs k2) (k_mounts k2) r of
         None \<Rightarrow> None
       | Some _ \<Rightarrow> Some (case checked of Inl e \<Rightarrow> Inl e
           | Inr _ \<Rightarrow> Inr \<lparr> f_bsize = BLOCK_SIZE, f_flags = 0, f_namelen = NAME_MAX \<rparr>, k2))))"

section \<open>Offsets and pipes\<close>

datatype SeekFrom = Start nat | End int | Current int

definition checked_add_signed :: "nat \<Rightarrow> int \<Rightarrow> nat option" where
  "checked_add_signed a d = (let x = int a + d in if 0 \<le> x \<and> x < 2 ^ 64 then Some (nat x) else None)"

definition set_offset :: "nat \<Rightarrow> nat \<Rightarrow> kfs \<Rightarrow> kfs" where
  "set_offset i pos k = (case k_seekables k i of
     None \<Rightarrow> k
   | Some s \<Rightarrow> k\<lparr> k_seekables := (k_seekables k)(i \<mapsto> s\<lparr> sk_offset := pos \<rparr>) \<rparr>)"

definition fd_seek :: "SeekFrom \<Rightarrow> kfile \<Rightarrow> kfs \<Rightarrow> ((errno + nat) \<times> kfs) option" where
  "fd_seek pos f k = (case f of
     SeekableFile i \<Rightarrow> do {
       s \<leftarrow> k_seekables k i;
       meta \<leftarrow> dref_meta (k_vfs k) (DBytes (sk_dentry s));
       Some (case (case pos of
            Start p \<Rightarrow> Some p
          | End off \<Rightarrow> checked_add_signed (data_len meta) off
          | Current off \<Rightarrow> checked_add_signed (sk_offset s) off) of
           None \<Rightarrow> (Inl EOVERFLOW, k)
         | Some p \<Rightarrow> (Inr p, set_offset i p k)) }
   | StreamFile _ \<Rightarrow> Some (Inl ESPIPE, k)
   | PipeFile _ \<Rightarrow> Some (Inl ESPIPE, k)
   | DirFile _ \<Rightarrow> None)"

definition sys_lseek :: "nat \<Rightarrow> int \<Rightarrow> nat \<Rightarrow> kfs \<Rightarrow> ((errno + nat) \<times> kfs) option" where
  "sys_lseek fd offset whence k = (case fd_get fd (k_fds k) of
     None \<Rightarrow> Some (Inl EBADF, k)
   | Some d \<Rightarrow>
       if whence = 0 then fd_seek (Start (nat (offset mod 2 ^ 64))) (fd_file d) k
       else if whence = 2 then fd_seek (End offset) (fd_file d) k
       else if whence = 1 then fd_seek (Current offset) (fd_file d) k
       else Some (Inl EINVAL, k))"

text \<open>\<^verbatim>\<open>pipe2\<close>: the numbers are what is written to the user's array.\<close>

definition sys_pipe2 :: "('d, 't) fs_env \<Rightarrow> errno + unit \<Rightarrow> 32 word \<Rightarrow> kfs \<Rightarrow> ((errno + nat list) \<times> kfs) option" where
  "sys_pipe2 env checked flags k = (case checked of
     Inl e \<Rightarrow> Some (Inl e, k)
   | Inr _ \<Rightarrow> (case open_flags_from_bits flags of
       None \<Rightarrow> None
     | Some fl \<Rightarrow>
         (case make_pipe (e_now env) () (v_inode_number (k_vfs k)) of (p, n) \<Rightarrow>
           (let i = k_next_file k;
                k1 = k\<lparr> k_pipes := (k_pipes k)(i \<mapsto> pipe_meta p), k_next_file := Suc i, k_vfs := (k_vfs k)\<lparr> v_inode_number := n \<rparr> \<rparr>
            in case add_many [fd_new (PipeFile (pipe_end.ReadEnd i)) (with_read_only fl),
                              fd_new (PipeFile (pipe_end.WriteEnd i)) (with_write_only fl)] (k_fds k1) of
                 None \<Rightarrow> None
               | Some (None, t) \<Rightarrow> Some (Inl EMFILE, k1\<lparr> k_fds := t \<rparr>)
               | Some (Some fds, t) \<Rightarrow> Some (Inr fds, k1\<lparr> k_fds := t \<rparr>)))))"

section \<open>The invariant of the file system\<close>

definition file_open :: "kfs \<Rightarrow> kfile \<Rightarrow> bool" where
  "file_open k f = (case f of
     DirFile i \<Rightarrow> k_dirs k i \<noteq> None
   | SeekableFile i \<Rightarrow> k_seekables k i \<noteq> None
   | StreamFile b \<Rightarrow> v_files (k_vfs k) b \<noteq> None
   | PipeFile e \<Rightarrow> k_pipes k (case e of pipe_end.ReadEnd i \<Rightarrow> i | pipe_end.WriteEnd i \<Rightarrow> i) \<noteq> None)"

text \<open>The tree is well-formed, the root has no parent, the working directory and the directory or
  file of every open file exist, the mount table fits the tree, and every descriptor refers to
  an open file.\<close>

definition kfs_ok :: "kfs \<Rightarrow> bool" where
  "kfs_ok k \<longleftrightarrow> tree_ok (k_vfs k) \<and> mounts_ok (k_vfs k) (k_mounts k)
     \<and> (\<exists>r. v_dirs (k_vfs k) (k_root k) = Some r \<and> dd_parent r = None)
     \<and> v_dirs (k_vfs k) (k_cwd k) \<noteq> None
     \<and> (\<forall>i f. k_dirs k i = Some f \<longrightarrow> v_dirs (k_vfs k) (df_dentry f) \<noteq> None)
     \<and> (\<forall>i f. k_seekables k i = Some f \<longrightarrow> v_files (k_vfs k) (sk_dentry f) \<noteq> None)
     \<and> bt_inv (files (k_fds k)) \<and> (\<forall>fd d. fd_get fd (k_fds k) = Some d \<longrightarrow> file_open k (fd_file d))"

lemma kfs_ok_tree: "kfs_ok k \<Longrightarrow> tree_ok (k_vfs k)"
  and kfs_ok_mounts: "kfs_ok k \<Longrightarrow> mounts_ok (k_vfs k) (k_mounts k)"
  and kfs_ok_ctx: "kfs_ok k \<Longrightarrow> ctx_ok (k_vfs k) (ctx_of k)"
  by (auto simp: kfs_ok_def ctx_ok_def ctx_of_def)

lemma keeps_file: "keeps_entries v v' \<Longrightarrow> v_files v b \<noteq> None \<Longrightarrow> v_files v' b \<noteq> None"
  unfolding keeps_entries_def by fastforce

lemma kfs_ok_step:
  assumes ok: "kfs_ok k" and s: "tree_step (k_vfs k) v" and m: "mounts_ok v mt"
  shows "kfs_ok (k\<lparr> k_vfs := v, k_mounts := mt \<rparr>)"
proof -
  have keep: "keeps_entries (k_vfs k) v" and t: "tree_ok v" using s by (simp_all add: tree_step_def)
  note d = keeps_dir [OF keep] and f = keeps_file [OF keep]
  obtain r0 where r0: "v_dirs (k_vfs k) (k_root k) = Some r0" "dd_parent r0 = None" using ok by (auto simp: kfs_ok_def)
  obtain cs where r: "v_dirs v (k_root k) = Some (r0\<lparr> dd_children := cs \<rparr>)"
    using r0(1) keep unfolding keeps_entries_def by blast
  have o: "file_open k x \<Longrightarrow> file_open (k\<lparr> k_vfs := v, k_mounts := mt \<rparr>) x" for x
    using f by (cases x) (auto simp: file_open_def)
  show ?thesis
    unfolding kfs_ok_def
  proof (intro conjI allI impI)
    show "\<exists>r. v_dirs (k_vfs (k\<lparr> k_vfs := v, k_mounts := mt \<rparr>)) (k_root (k\<lparr> k_vfs := v, k_mounts := mt \<rparr>)) = Some r \<and> dd_parent r = None"
      using r r0(2) by simp
  qed (use ok t m d f o in \<open>simp_all add: kfs_ok_def\<close>)
qed

lemma file_open_cwd: "file_open (k\<lparr> k_cwd := a \<rparr>) f = file_open k f"
  by (simp add: file_open_def split: kfile.split)

lemma kfs_ok_cwd: "kfs_ok k \<Longrightarrow> v_dirs (k_vfs k) a \<noteq> None \<Longrightarrow> kfs_ok (k\<lparr> k_cwd := a \<rparr>)"
  by (simp add: kfs_ok_def file_open_cwd)

lemma kfs_ok_vfs:
  assumes "kfs_ok k" "tree_step (k_vfs k) v"
  shows "kfs_ok (k\<lparr> k_vfs := v \<rparr>)"
  using kfs_ok_step [OF assms mounts_ok_step [OF assms(2) kfs_ok_mounts [OF assms(1)]]] by simp

text \<open>What holds of a call that returns: the invariant, and a fact on its result.\<close>

definition holds :: "((errno + 'a) \<times> kfs) option \<Rightarrow> ('a \<Rightarrow> kfs \<Rightarrow> bool) \<Rightarrow> bool" where
  "holds m P = (\<forall>r k. m = Some (r, k) \<longrightarrow> kfs_ok k \<and> (\<forall>x. r = Inr x \<longrightarrow> P x k))"

lemma holdsD: "holds m P \<Longrightarrow> m = Some (r, k) \<Longrightarrow> kfs_ok k"
  by (simp add: holds_def)

lemma holds_simps [simp]:
  "holds None P" "holds (Some (Inl e, k)) P \<longleftrightarrow> kfs_ok k" "holds (Some (Inr x, k)) P \<longleftrightarrow> kfs_ok k \<and> P x k"
  by (auto simp: holds_def)

lemma holds_mono: "holds m P \<Longrightarrow> (\<And>x k. P x k \<Longrightarrow> Q x k) \<Longrightarrow> holds m Q"
  by (simp add: holds_def)

lemma holds_sbind:
  assumes "holds m P" "\<And>x k. kfs_ok k \<Longrightarrow> P x k \<Longrightarrow> holds (f x k) Q"
  shows "holds (sbind m f) Q"
proof (cases m)
  case (Some p)
  obtain r k where "p = (r, k)" by (cases p)
  then show ?thesis using assms Some by (cases r) simp_all
qed simp

lemma holds_bind: "(\<And>x. m = Some x \<Longrightarrow> holds (f x) P) \<Longrightarrow> holds (Option.bind m f) P"
  by (cases m) simp_all

lemma holds_with_path: "kfs_ok k \<Longrightarrow> (\<And>s. holds (f s k) P) \<Longrightarrow> holds (with_path path f k) P"
  by (simp add: with_path_def split: sum.split)

lemma holds_on_vfs:
  assumes "kfs_ok k" "\<And>r v. f (k_vfs k) = Some (r, v) \<Longrightarrow> tree_step (k_vfs k) v \<and> (\<forall>x. r = Inr x \<longrightarrow> P x v)"
  shows "holds (on_vfs f k) (\<lambda>x k'. P x (k_vfs k'))"
  using assms(2) kfs_ok_vfs [OF assms(1)] by (auto simp: holds_def on_vfs_def)

lemma holds_resolve:
  "kfs_ok k \<Longrightarrow> holds (resolve env dir_fd path k) (\<lambda>p k'. v_dirs (k_vfs k') (p2i_dir p) \<noteq> None)"
  unfolding resolve_def
  by (rule holds_on_vfs, assumption, rule resolve_step) (auto intro: kfs_ok_tree kfs_ok_ctx)

lemma holds_lookup_last: "kfs_ok k \<Longrightarrow> holds (lookup_last env p k) (\<lambda>r k'. dref_ok (k_vfs k') r)"
  unfolding lookup_last_def
  by (rule holds_on_vfs, assumption, rule lookup_or_enoent_step) (auto intro: kfs_ok_tree)

lemma try_lookup_last_ok:
  assumes "kfs_ok k" "try_lookup_last env p k = Some (r, k')"
  shows "kfs_ok k' \<and> (\<forall>x. r = Some x \<longrightarrow> dref_ok (k_vfs k') x)"
  using assms(2) kfs_ok_vfs [OF assms(1)]
  by (auto simp: try_lookup_last_def on_vfs_def dest!: dentry_lookup_step [OF kfs_ok_tree [OF assms(1)]])

lemma holds_try_lookup:
  assumes "kfs_ok k" "\<And>found k'. kfs_ok k' \<Longrightarrow> (\<forall>x. found = Some x \<longrightarrow> dref_ok (k_vfs k') x) \<Longrightarrow> holds (f found k') P"
  shows "holds (case try_lookup_last env p k of None \<Rightarrow> None | Some (found, k') \<Rightarrow> f found k') P"
proof (cases "try_lookup_last env p k")
  case (Some x)
  obtain found k' where x: "x = (found, k')" by (cases x)
  have "kfs_ok k' \<and> (\<forall>x. found = Some x \<longrightarrow> dref_ok (k_vfs k') x)"
    by (rule try_lookup_last_ok [OF assms(1), where env = env and p = p]) (simp add: Some x)
  then show ?thesis using assms(2) [of k' found] by (simp add: Some x)
qed simp

lemma holds_mkdir: "kfs_ok k \<Longrightarrow> holds (on_vfs (dentry_mkdir env a c) k) (\<lambda>_ _. True)"
proof (rule holds_on_vfs, assumption)
  fix r v assume k: "kfs_ok k" and run: "dentry_mkdir env a c (k_vfs k) = Some (r, v)"
  then obtain d where "v_dirs (k_vfs k) a = Some d" by (auto simp: dentry_mkdir_def split: option.splits)
  then show "tree_step (k_vfs k) v \<and> (\<forall>x. r = Inr x \<longrightarrow> True)"
    using dentry_mkdir_ok [OF kfs_ok_tree [OF k] _ run] by (simp add: tree_step_def)
qed

lemma holds_mknod: "kfs_ok k \<Longrightarrow> holds (on_vfs (dentry_mknod env a c m) k) (\<lambda>b k'. v_files (k_vfs k') b \<noteq> None)"
proof (rule holds_on_vfs, assumption)
  fix r v assume k: "kfs_ok k" and run: "dentry_mknod env a c m (k_vfs k) = Some (r, v)"
  then obtain d where "v_dirs (k_vfs k) a = Some d" by (auto simp: dentry_mknod_def split: option.splits)
  note M = dentry_mknod_ok [OF kfs_ok_tree [OF k] this run]
  have "v_files v b \<noteq> None" if "r = Inr b" for b
  proof -
    have "entries v a c = Some (DBytes b)" using M that by (simp add: link_entry_def)
    then have "dref_ok v (DBytes b)" using linked_ok [OF entries_linked] M by blast
    then show ?thesis by (simp add: dref_ok_def)
  qed
  then show "tree_step (k_vfs k) v \<and> (\<forall>x. r = Inr x \<longrightarrow> v_files v x \<noteq> None)" using M by (simp add: tree_step_def)
qed

lemma holds_unlink: "kfs_ok k \<Longrightarrow> holds (on_vfs (dentry_unlink a c) k) (\<lambda>_ _. True)"
proof (rule holds_on_vfs, assumption)
  fix r v assume k: "kfs_ok k" and run: "dentry_unlink a c (k_vfs k) = Some (r, v)"
  then obtain d where "v_dirs (k_vfs k) a = Some d" by (auto simp: dentry_unlink_def split: option.splits)
  then show "tree_step (k_vfs k) v \<and> (\<forall>x. r = Inr x \<longrightarrow> True)"
    using dentry_unlink_ok [OF kfs_ok_tree [OF k] _ run] by (simp add: tree_step_def)
qed

lemma holds_remove_dir: "kfs_ok k \<Longrightarrow> holds (on_vfs (dentry_remove_dir a b) k) (\<lambda>_ _. True)"
  by (rule holds_on_vfs, assumption) (auto simp: tree_step_def dest!: dentry_remove_dir_ok [OF kfs_ok_tree])

lemma holds_rename_dir: "kfs_ok k \<Longrightarrow> holds (on_vfs (dentry_rename_dir a b n) k) (\<lambda>_ _. True)"
  by (rule holds_on_vfs, assumption) (auto simp: tree_step_def dest!: dentry_rename_dir_ok [OF kfs_ok_tree])

lemma holds_rename_bytes: "kfs_ok k \<Longrightarrow> holds (on_vfs (dentry_rename_bytes a b n) k) (\<lambda>_ _. True)"
  by (rule holds_on_vfs, assumption) (auto simp: tree_step_def dest!: dentry_rename_bytes_ok [OF kfs_ok_tree])

lemma holds_mkdirat: "kfs_ok k \<Longrightarrow> holds (sys_mkdirat env dir_fd path k) (\<lambda>_ _. True)"
  unfolding sys_mkdirat_def
  by (intro holds_with_path holds_sbind [OF holds_resolve] holds_sbind [OF holds_mkdir]) simp_all

lemma holds_chdir: "kfs_ok k \<Longrightarrow> holds (sys_chdir env path k) (\<lambda>_ _. True)"
  unfolding sys_chdir_def
  by (intro holds_with_path holds_sbind [OF holds_resolve] holds_sbind [OF holds_lookup_last])
    (auto simp: dref_ok_def split: dref.split intro!: kfs_ok_cwd)

lemma holds_unlinkat: "kfs_ok k \<Longrightarrow> holds (sys_unlinkat env dir_fd path flags k) (\<lambda>_ _. True)"
proof -
  have unlink: "holds (sbind (lookup_last env p k1) (\<lambda>r k2.
         if is_mount_root (k_mounts k2) r then Some (Inl EBUSY, k2)
         else (case r of
             DDir _ \<Rightarrow> Some (Inl EISDIR, k2)
           | DBytes b \<Rightarrow> (case v_files (k_vfs k2) b of
               None \<Rightarrow> None
             | Some f \<Rightarrow> sbind (on_vfs (dentry_unlink (db_parent f) (db_name f)) k2) (\<lambda>_ k3. Some (Inr (0::nat), k3)))))) (\<lambda>_ _. True)"
    if "kfs_ok k1" for k1 p
    by (rule holds_sbind [OF holds_lookup_last [OF that]])
      (auto split: dref.split option.split intro!: holds_sbind [OF holds_unlink])
  have dir: "holds (sbind (lookup_last env p k1) (\<lambda>r k2.
             if is_mount_root (k_mounts k2) r then Some (Inl EBUSY, k2)
             else (case r of
                 DBytes _ \<Rightarrow> Some (Inl ENOTDIR, k2)
               | DDir b \<Rightarrow> sbind (on_vfs (dentry_remove_dir (p2i_dir p) b) k2) (\<lambda>_ k3. Some (Inr (0::nat), k3))))) (\<lambda>_ _. True)"
    if "kfs_ok k1" for k1 p
    by (rule holds_sbind [OF holds_lookup_last [OF that]])
      (auto split: dref.split intro!: holds_sbind [OF holds_remove_dir])
  show "kfs_ok k \<Longrightarrow> holds (sys_unlinkat env dir_fd path flags k) (\<lambda>_ _. True)"
    unfolding sys_unlinkat_def
    by (rule holds_with_path, assumption)
      (auto split: option.split last_type.split intro!: holds_sbind [OF holds_resolve] unlink dir)
qed

lemma holds_on_mounts:
  assumes "kfs_ok k" "\<And>r v mt. f (k_vfs k, k_mounts k) = Some (r, v, mt) \<Longrightarrow> tree_step (k_vfs k) v \<and> mounts_ok v mt"
  shows "holds (on_mounts f k) (\<lambda>_ _. True)"
  using assms(2) kfs_ok_step [OF assms(1)] by (auto simp: on_mounts_def holds_def split: option.splits prod.splits)

lemma constructor_mount_step:
  assumes "tree_ok v" "ctx_ok v ctx" "mounts_ok v mt"
    and "vfs_mount env ctx mount_point device (constructor_of now t) (v, mt) = Some (r, v', mt')"
  shows "tree_step v v' \<and> mounts_ok v' mt'"
  using assms tmp.mount_step [OF assms(1-3)] dev.mount_step [OF assms(1-3)] proc.mount_step [OF assms(1-3)]
  by (cases t) (simp_all add: constructor_of_def)

lemma holds_vfs_mount: "kfs_ok k \<Longrightarrow> holds (on_mounts (vfs_mount env (ctx_of k) tgt src (constructor_of now t)) k) (\<lambda>_ _. True)"
  by (rule holds_on_mounts, assumption, rule constructor_mount_step) (auto intro: kfs_ok_tree kfs_ok_ctx kfs_ok_mounts)

lemma holds_vfs_unmount: "kfs_ok k \<Longrightarrow> holds (on_mounts (vfs_unmount env (ctx_of k) tgt) k) (\<lambda>_ _. True)"
  by (rule holds_on_mounts, assumption, rule unmount_step) (auto intro: kfs_ok_tree kfs_ok_ctx kfs_ok_mounts)

lemma holds_mount: "kfs_ok k \<Longrightarrow> holds (sys_mount env source target fs_type flags data k) (\<lambda>_ _. True)"
  unfolding sys_mount_def by (intro holds_with_path) (auto split: sum.split intro!: holds_with_path holds_vfs_mount)

lemma holds_umount: "kfs_ok k \<Longrightarrow> holds (sys_umount env target flags k) (\<lambda>_ _. True)"
  unfolding sys_umount_def by (auto intro!: holds_with_path holds_vfs_unmount)

lemma file_open_fds: "file_open (k\<lparr> k_fds := t \<rparr>) f = file_open k f"
  by (simp add: file_open_def split: kfile.split)

lemma kfs_ok_fds:
  assumes "kfs_ok k" "bt_inv (files t)" "\<And>fd d. fd_get fd t = Some d \<Longrightarrow> file_open k (fd_file d)"
  shows "kfs_ok (k\<lparr> k_fds := t \<rparr>)"
  using assms by (simp add: kfs_ok_def file_open_fds)

lemma kfs_ok_descriptor: "kfs_ok k \<Longrightarrow> fd_get fd (k_fds k) = Some d \<Longrightarrow> file_open k (fd_file d)"
  and kfs_ok_fd_inv: "kfs_ok k \<Longrightarrow> bt_inv (files (k_fds k))"
  by (simp_all add: kfs_ok_def)

lemma kfs_ok_fd_insert:
  assumes "kfs_ok k" "file_open k (fd_file d)"
  shows "kfs_ok (k\<lparr> k_fds := (k_fds k)\<lparr> files := bt_insert fd d (files (k_fds k)) \<rparr> \<rparr>)"
  using assms kfs_ok_descriptor [OF assms(1)] kfs_ok_fd_inv [OF assms(1)]
  by (intro kfs_ok_fds) (auto simp: fd_get_def split: if_splits)

lemma add_from_ok:
  assumes "kfs_ok k" "file_open k (fd_file d)" "add_from d from (k_fds k) = Some (r, t)"
  shows "kfs_ok (k\<lparr> k_fds := t \<rparr>)"
  using assms(3) assms(1) kfs_ok_fd_insert [OF assms(1,2)]
  by (auto simp: add_from_def bind_eq_Some_conv split: if_splits)

lemma holds_new_open_file:
  assumes "kfs_ok k" "file_open k f"
  shows "holds (new_open_file f flags k) (\<lambda>_ _. True)"
  using add_from_ok [OF assms(1), of "fd_new f flags" 0] assms(2)
  by (auto simp: new_open_file_def fd_add_def fd_new_def holds_def split: option.splits)

lemma holds_open_seekable:
  assumes k: "kfs_ok k" and b: "v_files (k_vfs k) b \<noteq> None"
  shows "holds (open_seekable b flags k) (\<lambda>_ _. True)"
proof -
  let ?s = "k_next_file k"
  let ?k = "k\<lparr> k_seekables := (k_seekables k)(?s \<mapsto> \<lparr> sk_dentry = b, sk_offset = 0 \<rparr>), k_next_file := Suc ?s \<rparr>"
  have "file_open k f \<Longrightarrow> file_open ?k f" for f by (auto simp: file_open_def split: kfile.splits)
  then have "kfs_ok ?k" using k b by (simp add: kfs_ok_def)
  moreover have "file_open ?k (SeekableFile ?s)" by (simp add: file_open_def)
  ultimately show ?thesis unfolding open_seekable_def Let_def by (rule holds_new_open_file)
qed

lemma holds_open_dir:
  assumes k: "kfs_ok k" and a: "v_dirs (k_vfs k) a \<noteq> None"
  shows "holds (open_dir a flags k) (\<lambda>_ _. True)"
proof -
  let ?s = "k_next_file k"
  let ?k = "k\<lparr> k_dirs := (k_dirs k)(?s \<mapsto> \<lparr> df_dentry = a, df_index = 0 \<rparr>), k_next_file := Suc ?s \<rparr>"
  have "file_open k f \<Longrightarrow> file_open ?k f" for f by (auto simp: file_open_def split: kfile.splits)
  then have "kfs_ok ?k" using k a by (simp add: kfs_ok_def)
  moreover have "file_open ?k (DirFile ?s)" by (simp add: file_open_def)
  ultimately show ?thesis unfolding open_dir_def Let_def by (rule holds_new_open_file)
qed

lemma file_open_frames: "file_open (k\<lparr> k_frames := n \<rparr>) f = file_open k f"
  by (simp add: file_open_def split: kfile.split)

lemma kfs_ok_frames: "kfs_ok (k\<lparr> k_frames := n \<rparr>) = kfs_ok k"
  by (simp add: kfs_ok_def file_open_frames)

lemma put_bytes_step:
  assumes "v_bytes_inodes v i \<noteq> None"
  shows "inode_step v (v\<lparr> v_bytes_inodes := (v_bytes_inodes v)(i \<mapsto> x), v_fat := F \<rparr>)"
    "inode_step v (v\<lparr> v_bytes_inodes := (v_bytes_inodes v)(i \<mapsto> x) \<rparr>)"
  using assms by (auto simp: inode_step_def)

lemma inode_resize_ok:
  assumes k: "kfs_ok k" and run: "inode_resize env i len k = Some (r, k')"
  shows "kfs_ok k' \<and> v_files (k_vfs k') = v_files (k_vfs k)"
proof -
  obtain x v frames where x: "v_bytes_inodes (k_vfs k) i \<noteq> None" and k': "k' = k\<lparr> k_vfs := v, k_frames := frames \<rparr>"
    and v: "inode_step (k_vfs k) v"
    using run put_bytes_step [of "k_vfs k" i]
    by (auto simp: inode_resize_def put_bytes_inode_def Let_def split: option.splits bytes_inode.splits prod.splits)
  note s = inode_step_ok [OF v]
  have "kfs_ok (k\<lparr> k_vfs := v \<rparr>)" by (rule kfs_ok_vfs [OF k tree_step_inodes [OF kfs_ok_tree [OF k] v]])
  then show ?thesis using kfs_ok_frames s(5) by (simp add: k')
qed

lemma holds_open_bytes:
  assumes k: "kfs_ok k" and b: "v_files (k_vfs k) b \<noteq> None"
  shows "holds (open_bytes env b flags k) (\<lambda>_ _. True)"
proof -
  have finish: "holds (case r of Inl Panic \<Rightarrow> None | Inl (Errno e) \<Rightarrow> Some (Inl e, k1)
        | Inr _ \<Rightarrow> if m = Regular \<or> m = BlockDevice then open_seekable b flags k1 else new_open_file (StreamFile b) flags k1) (\<lambda>_ _. True)"
    if "kfs_ok k1" "v_files (k_vfs k1) = v_files (k_vfs k)" for r :: "fault + unit" and k1 m
    using that b by (auto split: sum.split fault.split intro!: holds_open_seekable holds_new_open_file simp: file_open_def)
  have resized: "kfs_ok k1 \<and> v_files (k_vfs k1) = v_files (k_vfs k)"
    if "(if c then inode_resize env i 0 k else Some (Inr (), k)) = Some (r, k1)" for c i r k1
    using that k by (cases c) (auto dest!: inode_resize_ok [OF k])
  show ?thesis
    unfolding open_bytes_def using k
    by (auto intro!: holds_bind holds_open_seekable holds_new_open_file simp: Let_def file_open_def dest!: resized intro: finish)
qed

lemma holds_open_existing: "kfs_ok k \<Longrightarrow> dref_ok (k_vfs k) r \<Longrightarrow> holds (open_existing env fl r k) (\<lambda>_ _. True)"
  by (auto simp: open_existing_def dref_ok_def split: dref.split intro!: holds_open_dir holds_open_bytes)

lemma holds_open_missing: "kfs_ok k \<Longrightarrow> holds (open_missing env fl p k) (\<lambda>_ _. True)"
  by (auto simp: open_missing_def intro!: holds_sbind [OF holds_mknod] holds_open_seekable)

lemma holds_openat: "kfs_ok k \<Longrightarrow> holds (sys_openat env dir_fd path flags k) (\<lambda>_ _. True)"
proof -
  have open_last: "holds (case try_lookup_last env p k1 of None \<Rightarrow> None
      | Some (found, k2) \<Rightarrow> (case found of Some r \<Rightarrow> open_existing env fl r k2 | None \<Rightarrow> open_missing env fl p k2)) (\<lambda>_ _. True)"
    if "kfs_ok k1" for p k1 fl
    by (rule holds_try_lookup [OF that]) (auto split: option.split intro!: holds_open_existing holds_open_missing)
  show "kfs_ok k \<Longrightarrow> holds (sys_openat env dir_fd path flags k) (\<lambda>_ _. True)"
    unfolding sys_openat_def
    by (rule holds_with_path, assumption, split option.split, intro conjI impI allI)
      (simp_all add: holds_sbind [OF holds_resolve] open_last)
qed

lemma holds_do_rename: "kfs_ok k \<Longrightarrow> holds (do_rename flags old p new k) (\<lambda>_ _. True)"
  by (auto simp: do_rename_def split: dref.split option.split intro!: holds_rename_dir holds_rename_bytes)

lemma holds_rename_to: "kfs_ok k \<Longrightarrow> holds (rename_to env flags old p k) (\<lambda>_ _. True)"
proof -
  have to: "holds (case same_mounted_fs v mt old r of None \<Rightarrow> None
      | Some same \<Rightarrow> if \<not> same then Some (Inl EXDEV, k1) else do_rename flags old p found k1) (\<lambda>_ _. True)"
    if "kfs_ok k1" for k1 r found v mt
    using that holds_do_rename by (simp split: option.split)
  show "kfs_ok k \<Longrightarrow> holds (rename_to env flags old p k) (\<lambda>_ _. True)"
    unfolding rename_to_def
    by (simp, rule impI, erule holds_try_lookup, split option.split) (simp add: to)
qed

lemma holds_renameat2: "kfs_ok k \<Longrightarrow> holds (sys_renameat2 env fd1 path1 fd2 path2 flags k) (\<lambda>_ _. True)"
  by (auto simp: sys_renameat2_def split: option.split
      intro!: holds_with_path holds_sbind [OF holds_resolve] holds_sbind [OF holds_lookup_last] holds_rename_to)

lemma holds_close: "kfs_ok k \<Longrightarrow> holds (sys_close fd k) (\<lambda>_ _. True)"
proof -
  assume k: "kfs_ok k"
  have "kfs_ok (k\<lparr> k_fds := (k_fds k)\<lparr> files := bt_remove fd (files (k_fds k)) \<rparr> \<rparr>)"
    using kfs_ok_fd_inv [OF k] kfs_ok_descriptor [OF k]
    by (intro kfs_ok_fds [OF k]) (auto simp: fd_get_def bt_get_remove split: if_splits)
  then show ?thesis by (auto simp: sys_close_def fd_remove_def split: option.split)
qed

lemma holds_dup: "kfs_ok k \<Longrightarrow> holds (sys_dup fd k) (\<lambda>_ _. True)"
  by (auto simp: sys_dup_def fd_add_def holds_def split: option.splits intro: add_from_ok kfs_ok_descriptor)

lemma set_close_on_exec_file [simp]: "fd_file (set_close_on_exec b d) = fd_file d"
  by (simp add: set_close_on_exec_def)

lemma holds_dup3: "kfs_ok k \<Longrightarrow> holds (sys_dup3 fd1 fd2 flags k) (\<lambda>_ _. True)"
  by (auto simp: sys_dup3_def fd_insert_def split: option.split intro!: kfs_ok_fd_insert dest: kfs_ok_descriptor)

lemma holds_fcntl: "kfs_ok k \<Longrightarrow> holds (sys_fcntl64 fd cmd arg k) (\<lambda>_ _. True)"
proof -
  assume k: "kfs_ok k"
  have dup: "kfs_ok (k\<lparr> k_fds := t \<rparr>)"
    if "fd_get fd (k_fds k) = Some d" "add_from (if b then set_close_on_exec True d else d) arg (k_fds k) = Some (r, t)" for d b r t
    using add_from_ok [OF k _ that(2)] kfs_ok_descriptor [OF k that(1)] by simp
  have set: "kfs_ok (k\<lparr> k_fds := snd (fd_insert fd (set_close_on_exec b d) (k_fds k)) \<rparr>)"
    if "fd_get fd (k_fds k) = Some d" for d b
    using kfs_ok_fd_insert [OF k] kfs_ok_descriptor [OF k that] by (simp add: fd_insert_def)
  show ?thesis
  proof (cases "cmd = F_DUPFD \<or> cmd = F_DUPFD_CLOEXEC")
    case True
    then have eq: "sys_fcntl64 fd cmd arg k = (case fd_get fd (k_fds k) of
         None \<Rightarrow> Some (Inl EBADF, k)
       | Some desc \<Rightarrow> (case add_from (if cmd = F_DUPFD_CLOEXEC then set_close_on_exec True desc else desc) arg (k_fds k) of
           None \<Rightarrow> None
         | Some (None, t) \<Rightarrow> Some (Inl EMFILE, k\<lparr> k_fds := t \<rparr>)
         | Some (Some n, t) \<Rightarrow> Some (Inr n, k\<lparr> k_fds := t \<rparr>)))"
      unfolding sys_fcntl64_def by (rule if_P)
    show ?thesis unfolding eq holds_def using k dup by (fastforce split: option.splits)
  next
    case False
    then show ?thesis using k set by (simp add: sys_fcntl64_def split: option.split)
  qed
qed

lemma holds_newfstatat: "kfs_ok k \<Longrightarrow> holds (sys_newfstatat env dir_fd path checked flags k) (\<lambda>_ _. True)"
proof -
  have stat: "holds (map_option (\<lambda>m. (Inr (stat_from_meta m), k1)) x) (\<lambda>_ _. True)" if "kfs_ok k1" for k1 x
    using that by (cases x) simp_all
  have walk: "holds (sbind (resolve env dir_fd s k) (\<lambda>p k1. sbind (lookup_last env p k1) (\<lambda>r k2.
      map_option (\<lambda>m. (Inr (stat_from_meta m), k2)) (dref_meta (k_vfs k2) r)))) (\<lambda>_ _. True)" if "kfs_ok k" for s k
    using that by (intro holds_sbind [OF holds_resolve] holds_sbind [OF holds_lookup_last] stat)
  assume "kfs_ok k"
  then show ?thesis
    by (auto simp: sys_newfstatat_def split: option.split sum.split intro!: holds_with_path stat walk)
qed

lemma holds_newfstat: "kfs_ok k \<Longrightarrow> holds (sys_newfstat fd checked k) (\<lambda>_ _. True)"
  by (auto simp: sys_newfstat_def holds_def split: option.splits)

lemma holds_faccessat: "kfs_ok k \<Longrightarrow> holds (sys_faccessat env dir_fd path m k) (\<lambda>_ _. True)"
  unfolding sys_faccessat_def
  by (simp, intro impI holds_with_path holds_sbind [OF holds_resolve] holds_sbind [OF holds_lookup_last]) simp_all

lemma update_dref_meta_step: "update_dref_meta g r v = Some v' \<Longrightarrow> inode_step v v'"
  by (auto simp: update_dref_meta_def inode_step_def bind_eq_Some_conv split: dref.splits)

lemma holds_utimensat: "kfs_ok k \<Longrightarrow> holds (sys_utimensat env dir_fd path tms flags k) (\<lambda>_ _. True)"
proof -
  have upd: "holds (map_option (\<lambda>v. (Inr 0, k1\<lparr> k_vfs := v \<rparr>)) (update_dref_meta g r (k_vfs k1))) (\<lambda>_ _. True)"
    if "kfs_ok k1" for k1 g r
    using kfs_ok_vfs [OF that tree_step_inodes [OF kfs_ok_tree [OF that] update_dref_meta_step]]
    by (cases "update_dref_meta g r (k_vfs k1)") simp_all
  have walk: "holds (sbind (resolve env dir_fd s k) (\<lambda>p k1. sbind (lookup_last env p k1) (\<lambda>r k2.
      case new_times (e_now env) tms of Inl e \<Rightarrow> Some (Inl e, k2)
        | Inr (a, m) \<Rightarrow> map_option (\<lambda>v. (Inr 0, k2\<lparr> k_vfs := v \<rparr>)) (update_dref_meta (set_times a m) r (k_vfs k2))))) (\<lambda>_ _. True)"
    if "kfs_ok k" for s k
    using that upd by (intro holds_sbind [OF holds_resolve] holds_sbind [OF holds_lookup_last]) (auto split: sum.split)
  assume "kfs_ok k"
  then show ?thesis
    by (auto simp: sys_utimensat_def split: option.split intro!: holds_with_path walk)
qed

lemma holds_statfs64: "kfs_ok k \<Longrightarrow> holds (sys_statfs64 env path checked k) (\<lambda>_ _. True)"
proof -
  assume k: "kfs_ok k"
  have walk: "holds (on_vfs (path_walk env (k_root k) s) k) (\<lambda>p k'. v_dirs (k_vfs k') (p2i_dir p) \<noteq> None)" for s
    by (rule holds_on_vfs [OF k], rule path_walk_step) (use k in \<open>auto simp: kfs_ok_def\<close>)
  show ?thesis
    unfolding sys_statfs64_def
    by (rule holds_with_path [OF k], rule holds_sbind [OF walk], rule holds_sbind [OF holds_lookup_last])
      (auto split: option.split sum.split)
qed

lemma file_open_offset: "file_open (set_offset i pos k) f = file_open k f"
  by (auto simp: file_open_def set_offset_def split: kfile.split option.split)

lemma kfs_ok_offset: "kfs_ok k \<Longrightarrow> kfs_ok (set_offset i pos k)"
  using file_open_offset [of i pos k]
  by (auto simp: kfs_ok_def set_offset_def split: option.splits)

lemma holds_lseek: "kfs_ok k \<Longrightarrow> holds (sys_lseek fd offset whence k) (\<lambda>_ _. True)"
proof -
  assume k: "kfs_ok k"
  have "holds (fd_seek pos f k) (\<lambda>_ _. True)" for pos f
    using k kfs_ok_offset [OF k] by (auto simp: fd_seek_def split: kfile.split option.split intro!: holds_bind)
  then show ?thesis using k by (simp add: sys_lseek_def split: option.split)
qed

lemma fold_insert_facts:
  assumes "bt_inv (m :: (nat, file_descriptor) btree)"
  shows "bt_inv (fold (\<lambda>(n, d). bt_insert n d) xs m)"
    "bt_get (fold (\<lambda>(n, d). bt_insert n d) xs m) n = Some d \<Longrightarrow> bt_get m n = Some d \<or> d \<in> snd ` set xs"
  using assms
proof (induction xs arbitrary: m)
  case (Cons x xs)
  obtain a b where x: "x = (a, b)" by (cases x)
  {
    case 1
    then show ?case using Cons.IH(1) x by simp
  next
    case 2
    then show ?case using Cons.IH(2) [of "bt_insert a b m"] x by (auto split: if_splits)
  }
qed simp_all

lemma add_many_ok:
  assumes "kfs_ok k" "\<And>d. d \<in> set ds \<Longrightarrow> file_open k (fd_file d)" "add_many ds (k_fds k) = Some (r, t)"
  shows "kfs_ok (k\<lparr> k_fds := t \<rparr>)"
proof -
  note ins = fold_insert_facts [OF kfs_ok_fd_inv [OF assms(1)]]
  show ?thesis
  proof (cases r)
    case None
    then show ?thesis using assms(1,3) by (auto simp: add_many_def bind_eq_Some_conv split: if_splits)
  next
    case (Some ns)
    then have t: "t = (k_fds k)\<lparr> files := fold (\<lambda>(n, d). bt_insert n d) (zip ns ds) (files (k_fds k)) \<rparr>"
      using assms(3) by (auto simp: add_many_def bind_eq_Some_conv split: if_splits)
    have "file_open k (fd_file d)" if got: "fd_get fd t = Some d" for fd d
    proof -
      have "bt_get (files (k_fds k)) fd = Some d \<or> d \<in> snd ` set (zip ns ds)" using ins(2) got by (simp add: fd_get_def t)
      then show ?thesis
        using kfs_ok_descriptor [OF assms(1)] assms(2) by (auto simp: fd_get_def dest!: set_zip_rightD)
    qed
    then show ?thesis using ins(1) by (intro kfs_ok_fds [OF assms(1)]) (simp_all add: t)
  qed
qed

lemma holds_pipe2: "kfs_ok k \<Longrightarrow> holds (sys_pipe2 env checked flags k) (\<lambda>_ _. True)"
proof -
  assume k: "kfs_ok k"
  let ?k = "\<lambda>p n. k\<lparr> k_pipes := (k_pipes k)(k_next_file k \<mapsto> p), k_next_file := Suc (k_next_file k),
      k_vfs := (k_vfs k)\<lparr> v_inode_number := n \<rparr> \<rparr>"
  have k1: "kfs_ok (k\<lparr> k_vfs := (k_vfs k)\<lparr> v_inode_number := n \<rparr> \<rparr>)" for n
    by (rule kfs_ok_vfs [OF k tree_step_inodes [OF kfs_ok_tree [OF k] inode_step_number]])
  have "file_open (k\<lparr> k_vfs := (k_vfs k)\<lparr> v_inode_number := n \<rparr> \<rparr>) f \<Longrightarrow> file_open (?k p n) f" for f p n
    by (auto simp: file_open_def split: kfile.splits)
  then have k2: "kfs_ok (?k p n)" for p n using k1 [of n] by (simp add: kfs_ok_def)
  have add: "kfs_ok ((?k p n)\<lparr> k_fds := t \<rparr>)"
    if "add_many [fd_new (PipeFile (pipe_end.ReadEnd (k_next_file k))) f, fd_new (PipeFile (pipe_end.WriteEnd (k_next_file k))) g]
      (k_fds k) = Some (r, t)" for p n f g r t
    by (rule add_many_ok [OF k2, of "[fd_new (PipeFile (pipe_end.ReadEnd (k_next_file k))) f,
          fd_new (PipeFile (pipe_end.WriteEnd (k_next_file k))) g]" n p r])
      (use that in \<open>auto simp: file_open_def fd_new_def\<close>)
  show ?thesis
    using k by (auto simp: sys_pipe2_def Let_def split: sum.split option.split prod.split intro: add)
qed

section \<open>Sequences of calls\<close>

datatype fs_call =
    Mkdirat nat "errno + string" | Chdir "errno + string" | Unlinkat nat "errno + string" "32 word"
  | Mount "errno + string" "errno + string" "errno + string" "32 word" "(errno + string) option"
  | Umount "errno + string" "32 word" | Openat nat "errno + string" "32 word"
  | Renameat2 nat "errno + string" nat "errno + string" "32 word"
  | Close nat | Dup nat | Dup3 nat nat "32 word" | Fcntl64 nat nat nat
  | Newfstatat nat "errno + string" "errno + unit" nat | Newfstat nat "errno + unit" | Faccessat nat "errno + string" "32 word"
  | Utimensat nat "errno + string" "(errno + TimeSpec \<times> TimeSpec) option" nat | Statfs64 "errno + string" "errno + unit"
  | Lseek nat int nat | Pipe2 "errno + unit" "32 word"

text \<open>A call that writes to the user's memory returns 0.\<close>

definition return_0 :: "((errno + 'a) \<times> kfs) option \<Rightarrow> ((errno + nat) \<times> kfs) option" where
  "return_0 m = sbind m (\<lambda>_ k. Some (Inr 0, k))"

fun fs_exec :: "('d, 't) fs_env \<Rightarrow> fs_call \<Rightarrow> kfs \<Rightarrow> ((errno + nat) \<times> kfs) option" where
  "fs_exec env (Mkdirat fd path) k = sys_mkdirat env fd path k"
| "fs_exec env (Chdir path) k = sys_chdir env path k"
| "fs_exec env (Unlinkat fd path flags) k = sys_unlinkat env fd path flags k"
| "fs_exec env (Mount src tgt ty flags data) k = sys_mount env src tgt ty flags data k"
| "fs_exec env (Umount tgt flags) k = sys_umount env tgt flags k"
| "fs_exec env (Openat fd path flags) k = sys_openat env fd path flags k"
| "fs_exec env (Renameat2 fd1 path1 fd2 path2 flags) k = sys_renameat2 env fd1 path1 fd2 path2 flags k"
| "fs_exec env (Close fd) k = sys_close fd k"
| "fs_exec env (Dup fd) k = sys_dup fd k"
| "fs_exec env (Dup3 fd1 fd2 flags) k = sys_dup3 fd1 fd2 flags k"
| "fs_exec env (Fcntl64 fd cmd arg) k = sys_fcntl64 fd cmd arg k"
| "fs_exec env (Newfstatat fd path checked flags) k = return_0 (sys_newfstatat env fd path checked flags k)"
| "fs_exec env (Newfstat fd checked) k = return_0 (sys_newfstat fd checked k)"
| "fs_exec env (Faccessat fd path m) k = sys_faccessat env fd path m k"
| "fs_exec env (Utimensat fd path tms flags) k = sys_utimensat env fd path tms flags k"
| "fs_exec env (Statfs64 path checked) k = return_0 (sys_statfs64 env path checked k)"
| "fs_exec env (Lseek fd offset whence) k = sys_lseek fd offset whence k"
| "fs_exec env (Pipe2 checked flags) k = return_0 (sys_pipe2 env checked flags k)"

text \<open>Calls one after the other, each with the device and the clock of its time; None when one of
  them panics.\<close>

fun fs_run :: "(('d, 't) fs_env \<times> fs_call) list \<Rightarrow> kfs \<Rightarrow> kfs option" where
  "fs_run [] k = Some k"
| "fs_run ((env, c) # cs) k = (case fs_exec env c k of None \<Rightarrow> None | Some (r, k') \<Rightarrow> fs_run cs k')"

lemma holds_return_0: "holds m (\<lambda>_ _. True) \<Longrightarrow> holds (return_0 m) (\<lambda>_ _. True)"
  unfolding return_0_def by (erule holds_sbind) simp

lemmas holds_calls = holds_mkdirat holds_chdir holds_unlinkat holds_mount holds_umount holds_openat holds_renameat2
  holds_close holds_dup holds_dup3 holds_fcntl holds_faccessat holds_utimensat holds_lseek
  holds_newfstatat [THEN holds_return_0] holds_newfstat [THEN holds_return_0] holds_statfs64 [THEN holds_return_0]
  holds_pipe2 [THEN holds_return_0]

lemma holds_exec: "kfs_ok k \<Longrightarrow> holds (fs_exec env c k) (\<lambda>_ _. True)"
  by (cases c) (simp_all add: holds_calls)

lemma fs_exec_ok: "kfs_ok k \<Longrightarrow> fs_exec env c k = Some (r, k') \<Longrightarrow> kfs_ok k'"
  by (rule holdsD [OF holds_exec])

lemma fs_run_ok: "fs_run cs k = Some k' \<Longrightarrow> kfs_ok k \<Longrightarrow> kfs_ok k'"
  by (induction cs k rule: fs_run.induct) (auto split: option.splits prod.splits dest: fs_exec_ok)

text \<open>
  The invariant of the file system.  Any sequence of the calls that make, remove, rename,
  open and mount things or work on descriptors keeps it, whatever their arguments, whether they
  succeed or fail, and whatever the device holds: the tree of entries is well-formed, the root
  has no parent, the working directory and what every open file refers to exist, the mount table
  fits the tree, and every descriptor refers to an open file.
\<close>

theorem fs_invariant:
  assumes "kfs_ok k" "fs_run cs k = Some k'"
  shows "kfs_ok k'"
  using fs_run_ok [OF assms(2,1)] .

section \<open>The working directory\<close>

lemma blit_eq: "length bs \<le> length post \<Longrightarrow> blit (pre @ post) (length pre) bs = Some (pre @ bs @ drop (length bs) post)"
  by (simp add: blit_def)

lemma blit_names_eq:
  "length (concat ns) \<le> length post \<Longrightarrow> blit_names (pre @ post) (length pre) ns
    = Some (pre @ concat ns @ drop (length (concat ns)) post, length pre + length (concat ns))"
proof (induction ns arbitrary: pre post)
  case (Cons n ns)
  have "blit_names ((pre @ n) @ drop (length n) post) (length (pre @ n)) ns
      = Some ((pre @ n) @ concat ns @ drop (length (concat ns)) (drop (length n) post), length (pre @ n) + length (concat ns))"
    using Cons.prems by (intro Cons.IH) simp
  then show ?case using Cons.prems blit_eq [of n post pre] by (simp add: add.commute add.left_commute)
qed simp

lemma concat_intersperse: "concat (intersperse_list (as_bytes s) (map as_bytes ns)) = as_bytes (intersperse s ns)"
  by (induction s ns rule: intersperse.induct) (simp_all add: as_bytes_def)

lemma length_intersperse: "length (intersperse ''/'' ns) = sum_list (map length ns) + (length ns - 1)"
  by (induction "''/''" ns rule: intersperse.induct) simp_all

lemma length_as_bytes [simp]: "length (as_bytes s) = length s"
  by (simp add: as_bytes_def)

lemma as_bytes_append: "as_bytes (x @ y) = as_bytes x @ as_bytes y"
  by (simp add: as_bytes_def)

lemma getcwd_eq:
  assumes names: "parent_names (k_vfs k) (k_cwd k) = Some ns" and path: "path = ''/'' @ intersperse ''/'' ns"
  shows "sys_getcwd addr buf (Inr ()) k =
    (if length buf \<le> length path then Some (Inl ERANGE, buf)
     else Some (Inr addr, as_bytes path @ [0] @ drop (length path + 1) buf))"
proof (cases "length buf \<le> length path")
  case True
  then show ?thesis
    using names path by (simp add: sys_getcwd_def length_intersperse)
next
  case False
  define slash where "slash = as_bytes ''/''"
  define txt_bytes where "txt_bytes = as_bytes (intersperse ''/'' ns)"
  have l: "length slash = 1" "length txt_bytes = sum_list (map length ns) + (length ns - 1)" "length path = length txt_bytes + 1"
    by (simp_all add: slash_def txt_bytes_def path length_intersperse)
  have ns: "concat (intersperse_list slash (map as_bytes ns)) = txt_bytes"
    by (simp add: slash_def txt_bytes_def concat_intersperse)
  have eq: "as_bytes path = slash @ txt_bytes" unfolding path as_bytes_append slash_def txt_bytes_def ..
  have room: "length slash \<le> length buf" "length txt_bytes \<le> length (drop 1 buf)" "1 \<le> length (drop (length txt_bytes) (drop 1 buf))"
    using False l by simp_all
  have b1: "blit buf 0 slash = Some (slash @ drop 1 buf)" using blit_eq [of slash buf "[]"] room l by simp
  have b2: "blit_names (slash @ drop 1 buf) 1 (intersperse_list slash (map as_bytes ns))
      = Some (slash @ txt_bytes @ drop (length txt_bytes) (drop 1 buf), 1 + length txt_bytes)"
    using blit_names_eq [of "intersperse_list slash (map as_bytes ns)" "drop 1 buf" slash] room l(1) unfolding ns by simp
  have b3: "blit (slash @ txt_bytes @ drop (length txt_bytes) (drop 1 buf)) (1 + length txt_bytes) [0]
      = Some (slash @ txt_bytes @ [0] @ drop (length path + 1) buf)"
    using blit_eq [of "[0]" "drop (length txt_bytes) (drop 1 buf)" "slash @ txt_bytes"] room l by simp
  have "\<not> length buf < 2 + sum_list (map length ns) + (length ns - 1)" using False l by simp
  then have "sys_getcwd addr buf (Inr ()) k = Some (Inr addr, slash @ txt_bytes @ [0] @ drop (length path + 1) buf)"
    using names b1 b2 b3 by (simp add: sys_getcwd_def slash_def [symmetric] del: append.simps)
  then show ?thesis using False eq by simp
qed

text \<open>
  C17: The working directory round trips through its path.  Changing to the absolute path of a
  directory that is reached from the root along valid names succeeds and makes it the working
  directory.  Asking for the working directory then writes exactly this path and a zero byte at
  the start of the buffer, and nothing behind it; with a buffer that has no room for both, the
  call is an error and the buffer keeps its bytes.  The pointers of both calls are taken to pass
  their checks.
\<close>

theorem chdir_getcwd_roundtrip:
  assumes "kfs_ok k" "follow (k_vfs k) (k_root k) ns = Some a" "\<forall>n \<in> set ns. valid_name n"
    and "path = ''/'' @ intersperse ''/'' ns"
  shows "\<exists>k'. sys_chdir env (Inr path) k = Some (Inr 0, k') \<and> kfs_ok k' \<and> k_cwd k' = a
    \<and> sys_getcwd addr buf (Inr ()) k' =
        (if length buf \<le> length path then Some (Inl ERANGE, buf)
         else Some (Inr addr, as_bytes path @ [0] @ drop (length path + 1) buf))"
proof -
  obtain r where root: "v_dirs (k_vfs k) (k_root k) = Some r" "dd_parent r = None" using assms(1) by (auto simp: kfs_ok_def)
  have f: "follow (k_vfs k) (ctx_root (ctx_of k)) ns = Some a" using assms(2) by (simp add: ctx_of_def)
  obtain v' where find: "find_file env (ctx_of k) path (k_vfs k) = Some (Inr (DDir a), v')" and s: "inode_step (k_vfs k) v'"
    using find_path [OF kfs_ok_tree [OF assms(1)] f assms(3), of env] root assms(4) by (auto simp: ctx_of_def)
  let ?k = "k\<lparr> k_vfs := v', k_cwd := a \<rparr>"
  have run: "sys_chdir env (Inr path) k = Some (Inr 0, ?k)"
    using find by (auto simp: sys_chdir_def with_path_def resolve_def lookup_last_def on_vfs_def find_file_def sbind_def
        split: option.splits prod.splits sum.splits)
  have "kfs_ok ?k" using holdsD [OF holds_chdir [OF assms(1)] run] .
  moreover have "parent_names v' a = Some ns"
    using follow_names [OF inode_step_ok(1) [OF s kfs_ok_tree [OF assms(1)]], of "k_root k" r ns a] root
      follow_cong [OF inode_step_ok(3) [OF s]] assms(2) inode_step_ok(4) [OF s] by simp
  ultimately show ?thesis using run getcwd_eq [of ?k ns path addr buf] assms(4) by auto
qed

section \<open>Instances\<close>

definition demo_kfs :: kfs where
  "demo_kfs = \<lparr> k_vfs = demo_vfs, k_mounts = (\<lambda>_. None), k_root = 0, k_cwd = 0,
     k_fds = \<lparr> files = [], fd_rlimit = \<lparr> rlim_curr = 16, rlim_max = 16 \<rparr> \<rparr>, k_dirs = (\<lambda>_. None), k_seekables = (\<lambda>_. None),
     k_pipes = (\<lambda>_. None), k_next_file = 0, k_frames = 8 \<rparr>"

lemma demo_kfs_ok: "kfs_ok demo_kfs"
  using demo_vfs_ok by (simp add: kfs_ok_def demo_kfs_def mounts_ok_def fd_get_def) (simp add: demo_vfs_def demo_dir_def)

theorem fs_invariant_witness:
  "kfs_ok demo_kfs \<and> (\<exists>k'. fs_run [(demo_env, Pipe2 (Inr ()) 0), (demo_env, Dup3 0 7 0x80000), (demo_env, Close 0),
      (demo_env, Chdir (Inl EFAULT))] demo_kfs = Some k' \<and> kfs_ok k')"
proof -
  have "\<exists>k'. fs_run [(demo_env, Pipe2 (Inr ()) 0), (demo_env, Dup3 0 7 0x80000), (demo_env, Close 0),
      (demo_env, Chdir (Inl EFAULT))] demo_kfs = Some k'"
    by (simp add: sys_pipe2_def sys_dup3_def sys_close_def sys_chdir_def with_path_def return_0_def open_flags_from_bits_def
        open_flags_all_def open_flag_defs make_pipe_def Let_def add_many_def uadd_def usize_limit_def demo_kfs_def
        fd_get_def fd_insert_def fd_remove_def bt_keys_def bt_get_Cons numeral_2_eq_2 split: prod.split)
  then show ?thesis using fs_invariant [OF demo_kfs_ok] demo_kfs_ok by blast
qed

theorem chdir_getcwd_roundtrip_witness:
  "\<exists>k'. sys_chdir demo_env (Inr ''/a/b'') demo_kfs = Some (Inr 0, k') \<and> k_cwd k' = 2
    \<and> sys_getcwd 4096 [1, 1, 1, 1, 1, 1, 1, 1] (Inr ()) k' = Some (Inr 4096, [47, 97, 47, 98, 0, 1, 1, 1])"
proof -
  have f: "follow (k_vfs demo_kfs) (k_root demo_kfs) [''a'', ''b''] = Some 2"
    using demo_follow by (simp add: demo_kfs_def)
  have b: "as_bytes ''/a/b'' = [47, 97, 47, 98]" by (simp add: as_bytes_def)
  show ?thesis
    using chdir_getcwd_roundtrip [OF demo_kfs_ok f demo_names refl, of demo_env 4096 "[1, 1, 1, 1, 1, 1, 1, 1]"] b
    by auto
qed

text \<open>Unmounting the root succeeds, since the root of the first file system covers nothing.  The
  walk up to a mount root then finds none, which is a panic of a later call.\<close>

lemma umount_root_panics:
  assumes "kfs_ok k" "k_mounts k = [DDir (k_root k) \<mapsto> fs]" "fs_mounted_dentry fs = None"
  shows "\<exists>k'. sys_umount env (Inr ''/'') 0 k = Some (Inr 0, k') \<and> sys_statfs64 env (Inr ''/'') checked k' = None"
proof -
  obtain r where root: "v_dirs (k_vfs k) (k_root k) = Some r" "dd_parent r = None" using assms(1) by (auto simp: kfs_ok_def)
  have c: "components ''/'' = []" by (simp add: components_def trim_start_matches_def trim_end_matches_def)
  obtain v' where find: "find_file env (ctx_of k) ''/'' (k_vfs k) = Some (Inr (DDir (k_root k)), v')" and s: "inode_step (k_vfs k) v'"
    using find_path [OF kfs_ok_tree [OF assms(1)], of "ctx_of k" "[]" "k_root k" env] root by (auto simp: ctx_of_def)
  let ?k = "k\<lparr> k_vfs := v', k_mounts := (k_mounts k)(DDir (k_root k) := None) \<rparr>"
  have un: "sys_umount env (Inr ''/'') 0 k = Some (Inr 0, ?k)"
    using find assms(2,3) by (simp add: sys_umount_def with_path_def on_mounts_def vfs_unmount_def)
  have root': "v_dirs v' (k_root k) = Some r" using root inode_step_ok(4) [OF s] by simp
  obtain w where look: "dentry_lookup env (k_root k) ''.'' v' = Some (Some (DDir (k_root k)), w)" and t: "inode_step v' w"
    using lookup_dot [of v' "k_root k" env] root' by auto
  have "v_dirs w (k_root k) = Some r" using root' inode_step_ok(4) [OF t] by simp
  then have "mounted_root_of w ((k_mounts k)(DDir (k_root k) := None)) (DDir (k_root k)) = None"
    using root(2) by (simp add: mounted_root_of_def mounted_root_of_dir.simps)
  then have "sys_statfs64 env (Inr ''/'') checked ?k = None"
    using look by (simp add: sys_statfs64_def with_path_def on_vfs_def path_walk_def c lookup_last_def lookup_or_enoent_def)
  then show ?thesis using un by blast
qed

text \<open>A time of modification given by the user is ignored: the source stores the time of access.\<close>

lemma utimensat_swaps:
  assumes "ts_nsec mtime \<noteq> UTIME_NOW" "ts_nsec mtime \<noteq> UTIME_OMIT"
  shows "\<exists>a. new_times now (Some (Inr (atime, mtime))) = Inr (a, Some atime)"
  using assms by (simp add: new_times_def)

text \<open>A negative offset from the start is stored as a position near the end of the address range.\<close>

lemma lseek_negative:
  assumes "fd_get fd (k_fds k) = Some d" "fd_file d = SeekableFile i" "k_seekables k i = Some s"
    "dref_meta (k_vfs k) (DBytes (sk_dentry s)) = Some meta"
  shows "\<exists>k'. sys_lseek fd (- 1) 0 k = Some (Inr (2 ^ 64 - 1), k')"
  using assms by (simp add: sys_lseek_def fd_seek_def zmod_minus1)

text \<open>A duplicate made by \<^verbatim>\<open>dup\<close> has the flag that closes it on \<^verbatim>\<open>exec\<close> when the original has it.\<close>

lemma dup_keeps_cloexec:
  assumes "fd_get fd (k_fds k) = Some d" "sys_dup fd k = Some (Inr n, k')" "bt_inv (files (k_fds k))"
  shows "fd_get n (k_fds k') = Some d"
  using assms by (auto simp: sys_dup_def fd_add_def add_from_def fd_get_def bind_eq_Some_conv split: option.splits if_splits)

end
