(* ===== verification/Devices.thy ===== *)
theory Devices
  imports Vfs
begin

text \<open>
  The files the kernel provides itself: the terminal (\<^verbatim>\<open>crates/fs/devfs/src/tty.rs\<close> over
  \<^verbatim>\<open>crates/drivers/qemu_uart\<close>), the clock (\<^verbatim>\<open>rtc.rs\<close>), and the two text files of
  \<^verbatim>\<open>crates/fs/procfs\<close>.

  The queue of received bytes is the crate \<^verbatim>\<open>heapless\<close> and is a parameter with the documented
  behaviour of a bounded queue (\<^verbatim>\<open>deque_spec\<close>).  A waker is the number of the task it wakes.  What
  the check of a user's buffer or pointer gives is an argument, and so is the order in which the
  hash map of the mounts is iterated.
\<close>

section \<open>The terminal\<close>

record 'q deque_ops =
  push_back :: "8 word \<Rightarrow> 'q \<Rightarrow> 'q"
  pop_front :: "'q \<Rightarrow> 8 word option \<times> 'q"

text \<open>A byte that does not fit is dropped: the result of \<^verbatim>\<open>push_back\<close> is ignored.\<close>

definition deque_spec :: "'q deque_ops \<Rightarrow> ('q \<Rightarrow> 8 word list) \<Rightarrow> nat \<Rightarrow> bool" where
  "deque_spec ops queue cap \<longleftrightarrow>
    (\<forall>b q. queue (push_back ops b q) = (if length (queue q) < cap then queue q @ [b] else queue q))
    \<and> (\<forall>q. case pop_front ops q of (r, q') \<Rightarrow>
         (case queue q of [] \<Rightarrow> r = None \<and> queue q' = [] | b # bs \<Rightarrow> r = Some b \<and> queue q' = bs))"

definition TTY_BUFFER_LEN :: nat where "TTY_BUFFER_LEN = 128"

record 'q tty =
  tty_queue :: 'q
  tty_waker :: "nat option"

text \<open>The interrupt handler of the serial port: the byte received, and the task to wake.\<close>

definition uart_handle_irq :: "'q deque_ops \<Rightarrow> 8 word \<Rightarrow> 'q tty \<Rightarrow> nat option \<times> 'q tty" where
  "uart_handle_irq ops ch t = (tty_waker t, t\<lparr> tty_queue := push_back ops ch (tty_queue t), tty_waker := None \<rparr>)"

definition register_waker :: "nat \<Rightarrow> 'q tty \<Rightarrow> nat option \<times> 'q tty" where
  "register_waker w t = (tty_waker t, t\<lparr> tty_waker := Some w \<rparr>)"

fun get_bytes :: "'q deque_ops \<Rightarrow> nat \<Rightarrow> 'q \<Rightarrow> bytes \<times> 'q" where
  "get_bytes ops 0 q = ([], q)"
| "get_bytes ops (Suc n) q = (case pop_front ops q of
     (None, q') \<Rightarrow> ([], q')
   | (Some b, q') \<Rightarrow> (case get_bytes ops n q' of (bs, q'') \<Rightarrow> (b # bs, q'')))"

text \<open>One poll of \<^verbatim>\<open>TtyFuture\<close> for the task \<open>w\<close>: None when it stays pending; the task woken because
  its place was taken.\<close>

definition tty_poll :: "'q deque_ops \<Rightarrow> nat \<Rightarrow> errno + unit \<Rightarrow> nat \<Rightarrow> 'q tty \<Rightarrow> (errno + bytes) option \<times> nat option \<times> 'q tty" where
  "tty_poll ops w checked len t = (case checked of
     Inl e \<Rightarrow> (Some (Inl e), None, t)
   | Inr _ \<Rightarrow> (case get_bytes ops len (tty_queue t) of (bs, q) \<Rightarrow>
       (let t' = t\<lparr> tty_queue := q \<rparr> in
        if bs \<noteq> [] then (Some (Inr bs), None, t')
        else (case register_waker w t' of (old, t'') \<Rightarrow> (None, old, t'')))))"

text \<open>Writing to the terminal prints a text, and a byte string that is not one is a panic.\<close>

definition tty_write :: "bytes \<Rightarrow> (nat \<times> bytes) option" where
  "tty_write bs = (if utf8_valid (map unat bs) then Some (length bs, bs) else None)"

section \<open>Control of the terminal\<close>

record Termios =
  iflag :: "32 word"
  oflag :: "32 word"
  cflag :: "32 word"
  lflag :: "32 word"
  line :: "8 word"
  cc :: "8 word list"

record WinSize =
  ws_row :: "16 word"
  ws_col :: "16 word"
  xpixel :: "16 word"
  ypixel :: "16 word"

record tty_inner =
  fg_pgid :: nat
  win_size :: WinSize
  termios :: Termios

definition tty_inner_new :: tty_inner where
  "tty_inner_new = \<lparr> fg_pgid = 1,
     win_size = \<lparr> ws_row = 67, ws_col = 120, xpixel = 0, ypixel = 0 \<rparr>,
     termios = \<lparr> iflag = 0x6D02, oflag = 5, cflag = 0x4BF, lflag = 0x8A3B, line = 0,
       cc = [3, 28, 127, 21, 4, 0, 1, 0, 17, 19, 26, 255, 18, 15, 23, 22, 255, 0, 0] \<rparr> \<rparr>"

definition TCGETS :: nat where "TCGETS = 0x5401"
definition TCSETS :: nat where "TCSETS = 0x5402"
definition TCSETSW :: nat where "TCSETSW = 0x5403"
definition TCSETSF :: nat where "TCSETSF = 0x5404"
definition TCGETA :: nat where "TCGETA = 0x5405"
definition TCSBRK :: nat where "TCSBRK = 0x5409"
definition TIOCGPGRP :: nat where "TIOCGPGRP = 0x540F"
definition TIOCSPGRP :: nat where "TIOCSPGRP = 0x5410"
definition TIOCGWINSZ :: nat where "TIOCGWINSZ = 0x5413"
definition TIOCSWINSZ :: nat where "TIOCSWINSZ = 0x5414"

lemmas ioctl_defs = TCGETS_def TCSETS_def TCSETSW_def TCSETSF_def TCGETA_def TCSBRK_def TIOCGPGRP_def TIOCSPGRP_def
  TIOCGWINSZ_def TIOCSWINSZ_def

text \<open>What a control call writes to the user, and what the memory behind its argument reads as: the
  argument is a pointer to one of three structures.\<close>

datatype ioctl_value = TermiosV Termios | PgidV nat | WinSizeV WinSize

record user_arg =
  arg_addr :: nat
  arg_mut :: "errno + unit"
  arg_termios :: "errno + Termios"
  arg_pgid :: "errno + nat"
  arg_winsize :: "errno + WinSize"

definition arg_out :: "user_arg \<Rightarrow> ioctl_value \<Rightarrow> errno + ioctl_value option" where
  "arg_out a x = (if arg_addr a = 0 then Inl EINVAL else map_sum id (\<lambda>_. Some x) (arg_mut a))"

definition arg_in :: "user_arg \<Rightarrow> (user_arg \<Rightarrow> errno + 'a) \<Rightarrow> errno + 'a" where
  "arg_in a f = (if arg_addr a = 0 then Inl EINVAL else f a)"

definition tty_ioctl :: "nat \<Rightarrow> user_arg \<Rightarrow> tty_inner \<Rightarrow> ((errno + ioctl_value option) \<times> tty_inner) option" where
  "tty_ioctl cmd a t =
    (if cmd = TCGETS \<or> cmd = TCGETA then Some (arg_out a (TermiosV (termios t)), t)
     else if cmd = TCSETS \<or> cmd = TCSETSW \<or> cmd = TCSETSF
     then Some (case arg_in a arg_termios of Inl e \<Rightarrow> (Inl e, t) | Inr x \<Rightarrow> (Inr None, t\<lparr> termios := x \<rparr>))
     else if cmd = TIOCGPGRP then Some (arg_out a (PgidV (fg_pgid t)), t)
     else if cmd = TIOCSPGRP
     then Some (case arg_in a arg_pgid of Inl e \<Rightarrow> (Inl e, t) | Inr x \<Rightarrow> (Inr None, t\<lparr> fg_pgid := x \<rparr>))
     else if cmd = TIOCGWINSZ then Some (arg_out a (WinSizeV (win_size t)), t)
     else if cmd = TIOCSWINSZ
     then Some (case arg_in a arg_winsize of Inl e \<Rightarrow> (Inl e, t) | Inr x \<Rightarrow> (Inr None, t\<lparr> win_size := x \<rparr>))
     else if cmd = TCSBRK then Some (Inr None, t)
     else None)"

section \<open>The clock and the text files\<close>

definition DUMMY_MEMINFO :: string where
  "DUMMY_MEMINFO =
     ''MemTotal:'' @ [CHR 9] @ ''1919810KB'' @ [CHR 10] @ ''MemFree:'' @ [CHR 9] @ ''114514KB'' @ [CHR 10]
     @ ''MemAvailable:'' @ [CHR 9] @ ''142857KB'' @ [CHR 10] @ ''Buffers:'' @ [CHR 9] @ ''10000KB'' @ [CHR 10]
     @ ''Cached:'' @ [CHR 9] @ ''20000KB'' @ [CHR 10] @ ''SwapCached:'' @ [CHR 9] @ ''30000KB'' @ [CHR 10]
     @ ''SwapTotal:'' @ [CHR 9] @ ''40000KB'' @ [CHR 10] @ ''SwapFree:'' @ [CHR 9] @ ''50000KB'' @ [CHR 10]
     @ ''Shmem:'' @ [CHR 9] @ ''60000KB'' @ [CHR 10] @ ''Slab:'' @ [CHR 9] @ ''70000KB'' @ [CHR 10]"

text \<open>A line of \<^verbatim>\<open>/proc/mounts\<close>: the flags of a file system print as \<^verbatim>\<open>rw\<close>.\<close>

definition mount_line :: "FileSystem \<Rightarrow> string" where
  "mount_line fs = fs_device_path fs @ '' '' @ fs_mount_point fs @ '' '' @ fs_fs_type fs @ '' rw 0 0'' @ [CHR 10]"

definition mounts_info :: "(mount_table \<Rightarrow> FileSystem list) \<Rightarrow> mount_table \<Rightarrow> string" where
  "mounts_info order mt = concat (map mount_line (order mt))"

text \<open>Both files are read into a page of the cache: at offset 0, with a buffer that holds the whole
  text, and a panic otherwise.\<close>

definition text_read_inode_at :: "bytes \<Rightarrow> backend_read" where
  "text_read_inode_at info offset buf =
    (if offset = 0 \<and> length info \<le> length buf then (info @ drop (length info) buf, Inr (length info)) else (buf, Inl Panic))"

definition rtc_read_inode_at :: "'m read_buffer \<Rightarrow> 'm \<Rightarrow> (fault + nat) \<times> 'm" where
  "rtc_read_inode_at buf m = (case rb_put buf 0 (replicate (rb_len buf) 0) m of
     Inl f \<Rightarrow> (Inl f, m)
   | Inr m' \<Rightarrow> (Inr (rb_len buf), m'))"

section \<open>Readers of the terminal are woken\<close>

text \<open>Interrupts and polls in any order, with a log: the bytes the queue has accepted, the bytes
  the readers got, and the tasks that sleep, that is, whose last poll was pending and that have not
  been woken since.\<close>

datatype tty_event = Irq "8 word" | Poll nat nat

record 'q tty_log =
  lg_tty :: "'q tty"
  lg_accepted :: bytes
  lg_delivered :: bytes
  lg_sleeping :: "nat set"

fun tty_step :: "'q deque_ops \<Rightarrow> ('q \<Rightarrow> 8 word list) \<Rightarrow> tty_event \<Rightarrow> 'q tty_log \<Rightarrow> 'q tty_log" where
  "tty_step ops queue (Irq b) l = (case uart_handle_irq ops b (lg_tty l) of (woken, t) \<Rightarrow>
     l\<lparr> lg_tty := t, lg_sleeping := lg_sleeping l - set_option woken,
        lg_accepted := (if length (queue (tty_queue (lg_tty l))) < TTY_BUFFER_LEN then lg_accepted l @ [b] else lg_accepted l) \<rparr>)"
| "tty_step ops queue (Poll w len) l = (case tty_poll ops w (Inr ()) len (lg_tty l) of
     (Some (Inr bs), woken, t) \<Rightarrow>
       l\<lparr> lg_tty := t, lg_delivered := lg_delivered l @ bs, lg_sleeping := lg_sleeping l - {w} \<rparr>
   | (_, woken, t) \<Rightarrow> l\<lparr> lg_tty := t, lg_sleeping := insert w (lg_sleeping l) - set_option woken \<rparr>)"

definition tty_log_ok :: "('q \<Rightarrow> 8 word list) \<Rightarrow> 'q tty_log \<Rightarrow> bool" where
  "tty_log_ok queue l \<longleftrightarrow> lg_accepted l = lg_delivered l @ queue (tty_queue (lg_tty l))
     \<and> length (queue (tty_queue (lg_tty l))) \<le> TTY_BUFFER_LEN
     \<and> lg_sleeping l \<subseteq> set_option (tty_waker (lg_tty l))
     \<and> (tty_waker (lg_tty l) \<noteq> None \<longrightarrow> queue (tty_queue (lg_tty l)) = [])"

lemma pop_front_cases:
  assumes "deque_spec ops queue cap"
  shows "queue q = [] \<Longrightarrow> \<exists>q'. pop_front ops q = (None, q') \<and> queue q' = []"
    and "queue q = b # bs \<Longrightarrow> \<exists>q'. pop_front ops q = (Some b, q') \<and> queue q' = bs"
proof -
  have *: "case pop_front ops q of (r, q') \<Rightarrow>
      (case queue q of [] \<Rightarrow> r = None \<and> queue q' = [] | b # bs \<Rightarrow> r = Some b \<and> queue q' = bs)"
    using conjunct2 [OF assms [unfolded deque_spec_def]] by (rule spec)
  show "queue q = [] \<Longrightarrow> \<exists>q'. pop_front ops q = (None, q') \<and> queue q' = []"
    "queue q = b # bs \<Longrightarrow> \<exists>q'. pop_front ops q = (Some b, q') \<and> queue q' = bs"
    using * by (cases "pop_front ops q"; simp)+
qed

lemma get_bytes_eq:
  assumes spec: "deque_spec ops queue cap"
  shows "\<exists>q'. get_bytes ops n q = (take n (queue q), q') \<and> queue q' = drop n (queue q)"
proof (induction n arbitrary: q)
  case (Suc n)
  show ?case
  proof (cases "queue q")
    case Nil
    then show ?thesis using pop_front_cases(1) [OF spec Nil] by auto
  next
    case (Cons b bs)
    obtain q1 where q1: "pop_front ops q = (Some b, q1)" "queue q1 = bs" using pop_front_cases(2) [OF spec Cons] by blast
    obtain q2 where "get_bytes ops n q1 = (take n bs, q2)" "queue q2 = drop n bs" using Suc [of q1] q1(2) by auto
    then show ?thesis using q1 Cons by simp
  qed
qed simp

lemma tty_irq_ok:
  assumes spec: "deque_spec ops queue TTY_BUFFER_LEN" and ok: "tty_log_ok queue l"
  shows "tty_log_ok queue (tty_step ops queue (Irq b) l)"
proof -
  have "queue (push_back ops b q) = (if length (queue q) < TTY_BUFFER_LEN then queue q @ [b] else queue q)" for q
    using spec unfolding deque_spec_def by blast
  then show ?thesis using ok by (auto simp: tty_log_ok_def uart_handle_irq_def)
qed

lemma tty_poll_ok:
  assumes spec: "deque_spec ops queue TTY_BUFFER_LEN" and ok: "tty_log_ok queue l" and len: "0 < len"
  shows "tty_log_ok queue (tty_step ops queue (Poll w len) l)"
proof -
  let ?q = "tty_queue (lg_tty l)"
  obtain q' where q': "get_bytes ops len ?q = (take len (queue ?q), q')" "queue q' = drop len (queue ?q)"
    using get_bytes_eq [OF spec] by blast
  show ?thesis
  proof (cases "queue ?q = []")
    case True
    then show ?thesis using ok q' by (auto simp: tty_log_ok_def tty_poll_def register_waker_def Let_def)
  next
    case False
    then have "tty_waker (lg_tty l) = None" "lg_sleeping l = {}" using ok by (auto simp: tty_log_ok_def)
    then show ?thesis using ok q' False len by (auto simp: tty_log_ok_def tty_poll_def Let_def)
  qed
qed

definition tty_log_new :: "'q \<Rightarrow> 'q tty_log" where
  "tty_log_new q = \<lparr> lg_tty = \<lparr> tty_queue = q, tty_waker = None \<rparr>, lg_accepted = [], lg_delivered = [], lg_sleeping = {} \<rparr>"

lemma tty_run_ok:
  assumes spec: "deque_spec ops queue TTY_BUFFER_LEN"
  shows "(\<forall>w len. Poll w len \<in> set es \<longrightarrow> 0 < len) \<Longrightarrow> tty_log_ok queue l \<Longrightarrow> tty_log_ok queue (fold (tty_step ops queue) es l)"
proof (induction es arbitrary: l)
  case (Cons e es)
  have "tty_log_ok queue (tty_step ops queue e l)"
    by (cases e) (use Cons.prems tty_irq_ok [OF spec] tty_poll_ok [OF spec] in auto)
  then show ?case using Cons by simp
qed simp

text \<open>
  C30: The terminal loses no wake-up and no accepted byte.  In every sequence of serial port
  interrupts and polls of readers with a buffer, from the empty terminal on: what the readers got
  followed by what is queued is what was accepted, at most 128 bytes are queued, at most one
  reader sleeps, it is the one whose waker is registered, and no reader sleeps while a byte is
  queued.
\<close>

theorem tty_no_lost_wakeup:
  assumes "deque_spec ops queue TTY_BUFFER_LEN" "queue q = []" "\<forall>w len. Poll w len \<in> set es \<longrightarrow> 0 < len"
  defines "l \<equiv> fold (tty_step ops queue) es (tty_log_new q)"
  shows "lg_accepted l = lg_delivered l @ queue (tty_queue (lg_tty l))
    \<and> length (queue (tty_queue (lg_tty l))) \<le> TTY_BUFFER_LEN
    \<and> lg_sleeping l \<subseteq> set_option (tty_waker (lg_tty l))
    \<and> (lg_sleeping l \<noteq> {} \<longrightarrow> queue (tty_queue (lg_tty l)) = [])"
proof -
  have "tty_log_ok queue (tty_log_new q)" using assms(2) by (simp add: tty_log_ok_def tty_log_new_def)
  then have "tty_log_ok queue l" unfolding l_def by (rule tty_run_ok [OF assms(1,3)])
  then show ?thesis by (auto simp: tty_log_ok_def)
qed

definition list_deque :: "8 word list deque_ops" where
  "list_deque = \<lparr> push_back = (\<lambda>b q. if length q < TTY_BUFFER_LEN then q @ [b] else q),
     pop_front = (\<lambda>q. case q of [] \<Rightarrow> (None, []) | b # bs \<Rightarrow> (Some b, bs)) \<rparr>"

lemma list_deque_spec: "deque_spec list_deque id TTY_BUFFER_LEN"
  by (simp add: deque_spec_def list_deque_def split: list.split)

theorem tty_no_lost_wakeup_witness:
  "deque_spec list_deque id TTY_BUFFER_LEN \<and>
   (let l = fold (tty_step list_deque id) [Poll 7 4, Irq 104, Irq 105, Poll 7 4, Poll 8 1] (tty_log_new [])
    in lg_delivered l = [104, 105] \<and> lg_sleeping l = {8} \<and> lg_sleeping l \<subseteq> set_option (tty_waker (lg_tty l)))"
proof -
  let ?es = "[Poll 7 4, Irq 104, Irq 105, Poll 7 4, Poll 8 1]"
  have "\<forall>w len. Poll w len \<in> set ?es \<longrightarrow> 0 < len" by auto
  note run = tty_no_lost_wakeup [OF list_deque_spec _ this, of "[]"]
  show ?thesis
    using run list_deque_spec
    by (simp add: Let_def tty_log_new_def tty_poll_def uart_handle_irq_def register_waker_def list_deque_def
        TTY_BUFFER_LEN_def eval_nat_numeral)
qed

text \<open>A read with an empty buffer sleeps although a byte is there.\<close>

lemma empty_read_sleeps:
  "tty_poll list_deque w (Inr ()) 0 \<lparr> tty_queue = [b], tty_waker = None \<rparr>
    = (None, None, \<lparr> tty_queue = [b], tty_waker = Some w \<rparr>)"
  by (simp add: tty_poll_def register_waker_def)

lemma tty_write_not_text: "\<not> utf8_valid (map unat bs) \<Longrightarrow> tty_write bs = None"
  by (simp add: tty_write_def)

end
