(* ===== verification/UserCheck.thy ===== *)
theory UserCheck
  imports UserStack DirEntry
begin

text \<open>
  Checks of user pointers: \<^verbatim>\<open>crates/libkernel/src/memory/user_check.rs\<close>.  Before the kernel reads
  or writes the memory of a process it touches one byte of each page of the range, with a trap
  entry that turns a fault into a result, and lets the memory space handle the fault.

  The access itself is done by the hardware, which is a parameter: the exception number of the
  trap, or none when the access succeeds.  The decoding of exception numbers belongs to the
  crate \<^verbatim>\<open>riscv\<close> and is a parameter too.  The hypothesis \<^verbatim>\<open>mmu_spec\<close> states what the privileged
  architecture says of them: an access to a user page traps unless the page table maps it with
  the rights needed.
\<close>

section \<open>Touching a byte\<close>

datatype riscv_exception = StoreFault | StorePageFault | InstructionPageFault | LoadPageFault | OtherException

record 'fa mmu =
  probe :: "bool \<Rightarrow> nat \<Rightarrow> memory_space \<Rightarrow> 'fa machine \<Rightarrow> nat option"
  from_number :: "nat \<Rightarrow> riscv_exception option"

definition user_memory_exception ::
  "'fa platform \<Rightarrow> nat \<Rightarrow> riscv_exception \<Rightarrow> memory_space \<Rightarrow> 'fa machine
    \<Rightarrow> ((errno + unit) \<times> memory_space \<times> 'fa machine) option" where
  "user_memory_exception P addr e ms M =
    (if e = OtherException then Some (Inl EFAULT, ms, M)
     else do {
       (ok, ms', M') \<leftarrow> handle_memory_exception P addr (e = StoreFault) ms M;
       Some (if ok then Inr () else Inl EFAULT, ms', M')
     })"

definition try_user_byte ::
  "'fa platform \<Rightarrow> 'fa mmu \<Rightarrow> bool \<Rightarrow> nat \<Rightarrow> memory_space \<Rightarrow> 'fa machine
    \<Rightarrow> ((errno + unit) \<times> memory_space \<times> 'fa machine) option" where
  "try_user_byte P mmu wr addr ms M = (case probe mmu wr addr ms M of
     None \<Rightarrow> Some (Inr (), ms, M)
   | Some scause \<Rightarrow>
       if 2 ^ 63 \<le> scause then None
       else (case from_number mmu scause of
           None \<Rightarrow> Some (Inl EFAULT, ms, M)
         | Some e \<Rightarrow> user_memory_exception P addr e ms M))"

definition try_read_user_byte where
  "try_read_user_byte P mmu = try_user_byte P mmu False"

definition try_write_user_byte where
  "try_write_user_byte P mmu = try_user_byte P mmu True"

section \<open>Checking a range\<close>

text \<open>The loop of the checks: one byte of every page from the start on.  The end is in the lower
  half of the addresses, so that the address does not overflow.\<close>

function check_loop ::
  "(nat \<Rightarrow> memory_space \<Rightarrow> 'fa machine \<Rightarrow> ((errno + unit) \<times> memory_space \<times> 'fa machine) option)
    \<Rightarrow> nat \<Rightarrow> nat \<Rightarrow> memory_space \<Rightarrow> 'fa machine \<Rightarrow> ((errno + unit) \<times> memory_space \<times> 'fa machine) option" where
  "check_loop try va user_addr_end ms M =
    (if va < user_addr_end
     then (case try va ms M of
         None \<Rightarrow> None
       | Some (Inl e, ms', M') \<Rightarrow> Some (Inl e, ms', M')
       | Some (Inr _, ms', M') \<Rightarrow> check_loop try (va + PAGE_SIZE) user_addr_end ms' M')
     else Some (Inr (), ms, M))"
  by pat_completeness auto

termination
  by (relation "measure (\<lambda>(try, va, user_addr_end, ms, M). user_addr_end - va)") (auto simp: PAGE_SIZE_def)

declare check_loop.simps [simp del]

definition check_read_impl ::
  "'fa platform \<Rightarrow> 'fa mmu \<Rightarrow> nat \<Rightarrow> nat \<Rightarrow> nat \<Rightarrow> memory_space \<Rightarrow> 'fa machine
    \<Rightarrow> ((errno + unit) \<times> memory_space \<times> 'fa machine) option" where
  "check_read_impl P mmu sz user_addr_start len ms M = do {
     n \<leftarrow> umul len sz;
     user_addr_end \<leftarrow> uadd user_addr_start n;
     if LOW_ADDRESS_END < user_addr_end then Some (Inl EFAULT, ms, M)
     else check_loop (try_read_user_byte P mmu) user_addr_start user_addr_end ms M
   }"

definition check_write_impl ::
  "'fa platform \<Rightarrow> 'fa mmu \<Rightarrow> nat \<Rightarrow> nat \<Rightarrow> nat \<Rightarrow> memory_space \<Rightarrow> 'fa machine
    \<Rightarrow> ((errno + unit) \<times> memory_space \<times> 'fa machine) option" where
  "check_write_impl P mmu sz user_addr_start len ms M = do {
     n \<leftarrow> umul len sz;
     user_addr_end \<leftarrow> uadd user_addr_start n;
     if LOW_ADDRESS_END < user_addr_end then Some (Inl EFAULT, ms, M)
     else check_loop (try_write_user_byte P mmu) user_addr_start user_addr_end ms M
   }"

text \<open>The methods of a checked pointer.  sz is the size of what it points to.\<close>

definition check_ptr where
  "check_ptr P mmu sz addr ms M = do {
     e \<leftarrow> uadd addr sz;
     if LOW_ADDRESS_END < e then Some (Inl EFAULT, ms, M) else check_read_impl P mmu sz addr 1 ms M
   }"

definition check_ptr_mut where
  "check_ptr_mut P mmu sz addr ms M = check_write_impl P mmu sz addr 1 ms M"

definition check_slice where
  "check_slice P mmu sz addr len ms M = check_read_impl P mmu sz addr len ms M"

definition check_slice_mut where
  "check_slice_mut P mmu sz addr len ms M = check_write_impl P mmu sz addr len ms M"

text \<open>\<^verbatim>\<open>add\<close> and \<^verbatim>\<open>slice\<close>: the outer None is an overflow of the product, the inner one the answer of
  the method.\<close>

definition user_add :: "nat \<Rightarrow> nat \<Rightarrow> nat \<Rightarrow> nat option option" where
  "user_add sz addr count = do {
     offset \<leftarrow> umul sz count;
     Some (uadd addr offset)
   }"

definition user_slice :: "nat \<Rightarrow> nat \<Rightarrow> nat \<Rightarrow> nat \<Rightarrow> nat \<Rightarrow> (nat \<times> nat) option option" where
  "user_slice sz addr len start_i end_i =
    (if len < end_i \<or> end_i < start_i then Some None
     else map_option (map_option (\<lambda>first. (first, end_i - start_i))) (user_add sz addr start_i))"

section \<open>Strings\<close>

fun scan_zero :: "memory \<Rightarrow> nat \<Rightarrow> nat \<Rightarrow> nat" where
  "scan_zero m va 0 = va"
| "scan_zero m va (Suc n) = (if m va = 0 then va else scan_zero m (va + 1) n)"

definition check_cstr_end :: "memory \<Rightarrow> nat \<Rightarrow> nat" where
  "check_cstr_end m start =
    (let next_page = push_bit PAGE_SIZE_BITS (drop_bit PAGE_SIZE_BITS start) + PAGE_SIZE
     in scan_zero m start (next_page - start))"

function cstr_loop ::
  "'fa platform \<Rightarrow> 'fa mmu \<Rightarrow> nat \<Rightarrow> nat \<Rightarrow> memory_space \<Rightarrow> 'fa machine
    \<Rightarrow> ((errno + nat) \<times> memory_space \<times> 'fa machine) option" where
  "cstr_loop P mmu start va ms M = (case try_read_user_byte P mmu va ms M of
     None \<Rightarrow> None
   | Some (Inl e, ms', M') \<Rightarrow> Some (Inl e, ms', M')
   | Some (Inr _, ms', M') \<Rightarrow>
       (let e = check_cstr_end (user_mem ms' M') va in
        if va < e \<and> e mod PAGE_SIZE = 0
        then (if LOW_ADDRESS_END \<le> e then Some (Inl EFAULT, ms', M')
              else if MAX_PATHNAME_LEN < e - start then Some (Inl ENAMETOOLONG, ms', M')
              else cstr_loop P mmu start e ms' M')
        else Some (Inr e, ms', M')))"
  by pat_completeness auto

termination
  by (relation "measure (\<lambda>(P, mmu, start, va, ms, M). LOW_ADDRESS_END - va)") auto

declare cstr_loop.simps [simp del]

definition check_cstr ::
  "'fa platform \<Rightarrow> 'fa mmu \<Rightarrow> nat \<Rightarrow> memory_space \<Rightarrow> 'fa machine \<Rightarrow> ((errno + bytes) \<times> memory_space \<times> 'fa machine) option" where
  "check_cstr P mmu start ms M =
    (if LOW_ADDRESS_END \<le> start then Some (Inl EFAULT, ms, M)
     else (case cstr_loop P mmu start start ms M of
         None \<Rightarrow> None
       | Some (Inl e, ms', M') \<Rightarrow> Some (Inl e, ms', M')
       | Some (Inr e, ms', M') \<Rightarrow>
           (let bs = map (user_mem ms' M') [start..<e]
            in Some (if utf8_valid (map unat bs) then Inr bs else Inl EINVAL, ms', M'))))"

section \<open>The hardware\<close>

definition access_ok :: "bool \<Rightarrow> nat \<Rightarrow> memory_space \<Rightarrow> 'fa machine \<Rightarrow> bool" where
  "access_ok wr addr ms M = (case pt_lookup (mem M) (ms_table ms) (vpn_floor addr) of
     None \<Rightarrow> False
   | Some (p, fl) \<Rightarrow> fl AND PTE_U \<noteq> 0 \<and> fl AND PTE_R \<noteq> 0 \<and> (wr \<longrightarrow> fl AND PTE_W \<noteq> 0))"

text \<open>An access below the end of the user's addresses succeeds when the page table allows it, and
  is a page fault otherwise: number 15 for a store to a readable page, 13 for a load.\<close>

definition mmu_spec :: "'fa mmu \<Rightarrow> bool" where
  "mmu_spec mmu \<longleftrightarrow> from_number mmu 13 = Some LoadPageFault \<and> from_number mmu 15 = Some StorePageFault
     \<and> (\<forall>wr addr ms M. addr < LOW_ADDRESS_END \<longrightarrow> probe mmu wr addr ms M =
          (if access_ok wr addr ms M then None else Some (if wr \<and> access_ok False addr ms M then 15 else 13)))"

section \<open>Faults in lazily allocated areas\<close>

definition in_area :: "memory_space \<Rightarrow> vpn \<Rightarrow> bool" where
  "in_area ms v \<longleftrightarrow> (\<exists>(k, a) \<in> set (user_areas ms). k \<le> v \<and> v < vpn_end a)"

definition area_perm :: "memory_space \<Rightarrow> vpn \<Rightarrow> map_permission \<Rightarrow> bool" where
  "area_perm ms v pr \<longleftrightarrow> (\<exists>(k, a) \<in> set (user_areas ms). k \<le> v \<and> v < vpn_end a \<and> perm a = pr)"

definition areas_lazy :: "memory_space \<Rightarrow> bool" where
  "areas_lazy ms \<longleftrightarrow> (\<forall>(k, a) \<in> set (user_areas ms). area_ty a = Lazy)"

text \<open>The space after a check: the same areas, and every page that was mapped is mapped as before
  and holds what it held.\<close>

definition extends :: "memory_space \<Rightarrow> 'fa machine \<Rightarrow> memory_space \<Rightarrow> 'fa machine \<Rightarrow> bool" where
  "extends ms M ms' M' \<longleftrightarrow> (\<forall>v pr. area_perm ms' v pr = area_perm ms v pr) \<and> (areas_lazy ms \<longrightarrow> areas_lazy ms')
     \<and> (\<forall>va. va < LOW_ADDRESS_END \<longrightarrow> pt_lookup (mem M) (ms_table ms) (vpn_floor va) \<noteq> None \<longrightarrow>
          pt_lookup (mem M') (ms_table ms') (vpn_floor va) = pt_lookup (mem M) (ms_table ms) (vpn_floor va)
          \<and> user_mem ms' M' va = user_mem ms M va)"

lemma extends_refl [simp]: "extends ms M ms M"
  by (simp add: extends_def)

lemma extends_trans: "extends ms M ms1 M1 \<Longrightarrow> extends ms1 M1 ms2 M2 \<Longrightarrow> extends ms M ms2 M2"
  unfolding extends_def by simp

lemma in_area_perm: "in_area ms v \<longleftrightarrow> (\<exists>pr. area_perm ms v pr)"
  by (auto simp: in_area_def area_perm_def)

lemma extends_in_area: "extends ms M ms' M' \<Longrightarrow> in_area ms' v = in_area ms v"
  by (simp add: extends_def in_area_perm)

lemma low_user_vpn: "va < LOW_ADDRESS_END \<Longrightarrow> user_vpn (vpn_floor va)"
  by (simp add: user_vpn_def vpn_floor_div LOW_ADDRESS_END_def)

lemma mapped_owner:
  assumes ok: "ms_ok P free ms M" and lazy: "areas_lazy ms" and v: "user_vpn v"
    and m: "pt_lookup (mem M) (ms_table ms) v \<noteq> None"
  shows "\<exists>p pr. ms_owns (user_areas ms) v p pr \<and> area_perm ms v pr"
proof -
  note d = ms_okD [OF ok]
  have "v \<in> ms_pages (user_areas ms)" using d(3) [OF v] m by blast
  then obtain k a where ka: "(k, a) \<in> set (user_areas ms)" "v \<in> area_pages a" by (auto simp: ms_pages_def)
  have aok: "area_ok k a" by (rule areas_ok_area [OF d(1) ka(1)])
  have "area_ty a = Lazy" using lazy ka(1) by (auto simp: areas_lazy_def)
  then have "v \<in> fst ` set (unbacked_map a)" using aok ka(2) by (simp add: area_ok_def area_pages_def)
  then obtain p where p: "bt_get (unbacked_map a) v = Some p" using dom_bt_get [of "unbacked_map a"] by auto
  have "k \<le> v \<and> v < vpn_end a" using area_ok_pages [OF aok] ka(2) aok by (auto simp: area_ok_def)
  then show ?thesis using ka(1) p by (auto simp: ms_owns_def area_perm_def)
qed

lemma ensure_allocated_area:
  assumes "ensure_allocated P v a pt M = Some (p, a', pt', M')"
  shows "vpn_end a' = vpn_end a \<and> perm a' = perm a \<and> area_ty a' = area_ty a"
  using assms by (auto simp: ensure_allocated_def bind_eq_Some_conv split: option.splits if_splits)

lemma area_fault:
  assumes bs: "buddy_spec P free" and ok: "ms_ok P free ms M" and lazy: "areas_lazy ms"
    and addr: "addr < LOW_ADDRESS_END" and can: "can_alloc P (3 + n) (falloc M)" and area: "area_perm ms (vpn_floor addr) pr"
  shows "\<exists>p ms' M'. handle_memory_exception P addr False ms M = Some (True, ms', M') \<and> ms_ok P free ms' M'
    \<and> extends ms M ms' M' \<and> can_alloc P n (falloc M')
    \<and> pt_lookup (mem M') (ms_table ms') (vpn_floor addr) = Some (p, pte_flags_from pr OR PTE_V)"
proof -
  let ?v = "vpn_floor addr"
  note d = ms_okD [OF ok]
  obtain k a where ka: "(k, a) \<in> set (user_areas ms)" "k \<le> ?v" "?v < vpn_end a" "perm a = pr"
    using area by (auto simp: area_perm_def)
  have l: "area_ty a = Lazy" using lazy ka(1) by (auto simp: areas_lazy_def)
  have can3: "can_alloc P 3 (falloc M)" by (rule can_alloc_mono [OF can]) simp
  obtain p ms' M' where run: "handle_memory_exception P addr False ms M = Some (True, ms', M')"
    and ok': "ms_ok P free ms' M'" and look: "pt_lookup (mem M') (ms_table ms') ?v = Some (p, pte_flags_from (perm a) OR PTE_V)"
    and others: "\<And>w. user_vpn w \<Longrightarrow> w \<noteq> ?v \<Longrightarrow> pt_lookup (mem M') (ms_table ms') w = pt_lookup (mem M) (ms_table ms) w"
    and keeps: "\<And>w q pr x. ms_owns (user_areas ms) w q pr \<Longrightarrow> x div 4096 = q \<Longrightarrow> mem M' x = mem M x"
    by (rule handle_fault_inside [OF bs ok can3 ka(1-3) l]) (rule that)
  have ll: "bt_last_le ?v (user_areas ms) = Some (k, a)" by (rule last_le_area [OF d(1) ka(1-3)])
  obtain p' a' pt' where en: "ensure_allocated P ?v a (ms_table ms) M = Some (p', a', pt', M')"
    and ms': "ms' = \<lparr>ms_table = pt', user_areas = bt_insert k a' (user_areas ms)\<rparr>"
    using run ka(3) l by (auto simp: handle_memory_exception_def Let_def ll bind_eq_Some_conv)
  note ea = ensure_allocated_area [OF en]
  have set': "set (user_areas ms') = insert (k, a') {x \<in> set (user_areas ms). fst x \<noteq> k}"
    using set_bt_insert [OF areas_ok_inv [OF d(1)]] by (simp add: ms')
  have set0: "set (user_areas ms) = insert (k, a) {x \<in> set (user_areas ms). fst x \<noteq> k}"
    by (rule set_split_key [OF areas_ok_inv [OF d(1)] ka(1)])
  have perms: "area_perm ms' v q = area_perm ms v q" for v q
    unfolding area_perm_def set' by (subst set0) (auto simp: ea)
  have lz: "areas_lazy ms'" using lazy l unfolding areas_lazy_def set' by (auto simp: ea)
  have uv: "user_vpn ?v" by (rule low_user_vpn [OF addr])
  have nomap: "pt_lookup (mem M) (ms_table ms) ?v = None" if "bt_get (unbacked_map a) ?v = None"
  proof (rule ccontr)
    assume "pt_lookup (mem M) (ms_table ms) ?v \<noteq> None"
    then obtain q r where "ms_owns (user_areas ms) ?v q r" using mapped_owner [OF ok lazy uv] by blast
    then show False using page_of_area(2) [OF d(1) ka(1-3)] that by simp
  qed
  have can': "can_alloc P (Suc (Suc (Suc n))) (falloc M)" using can by (simp add: numeral_3_eq_3)
  have "can_alloc P n (falloc M')"
    using ensure_allocated_total [OF bs d(2) uv l nomap can'] en by (metis option.inject prod.inject)
  moreover have "extends ms M ms' M'"
    unfolding extends_def
  proof (intro conjI allI impI perms lz)
    fix va assume va: "va < LOW_ADDRESS_END" and m: "pt_lookup (mem M) (ms_table ms) (vpn_floor va) \<noteq> None"
    obtain q r where own: "ms_owns (user_areas ms) (vpn_floor va) q r"
      using mapped_owner [OF ok lazy low_user_vpn [OF va] m] by blast
    note before = d(4) [OF own]
    show same: "pt_lookup (mem M') (ms_table ms') (vpn_floor va) = pt_lookup (mem M) (ms_table ms) (vpn_floor va)"
    proof (cases "vpn_floor va = ?v")
      case True
      then have "bt_get (unbacked_map a) ?v = Some q" using own page_of_area(2) [OF d(1) ka(1-3)] by simp
      then have "M' = M \<and> pt' = ms_table ms"
        using en ensure_allocated_old [OF l, of ?v q P "ms_table ms" M] by simp
      then show ?thesis by (simp add: ms')
    qed (simp add: others [OF low_user_vpn [OF va]])
    show "user_mem ms' M' va = user_mem ms M va"
      using same before keeps [OF own, of "q * 4096 + va mod 4096"] by (simp add: user_mem_def vpn_floor_div PAGE_SIZE_def)
  qed
  ultimately show ?thesis using run ok' look ka(4) by blast
qed

section \<open>What a check shows\<close>

text \<open>The page of an address is mapped with the permission of its area.\<close>

definition page_mapped :: "memory_space \<Rightarrow> 'fa machine \<Rightarrow> vpn \<Rightarrow> bool" where
  "page_mapped ms M v \<longleftrightarrow>
    (\<exists>p pr. area_perm ms v pr \<and> pt_lookup (mem M) (ms_table ms) v = Some (p, pte_flags_from pr OR PTE_V))"

lemma page_mapped_extends:
  assumes "extends ms M ms' M'" "va < LOW_ADDRESS_END" "page_mapped ms M (vpn_floor va)"
  shows "page_mapped ms' M' (vpn_floor va)"
proof -
  obtain p pr where "area_perm ms (vpn_floor va) pr"
    "pt_lookup (mem M) (ms_table ms) (vpn_floor va) = Some (p, pte_flags_from pr OR PTE_V)"
    using assms(3) by (auto simp: page_mapped_def)
  then show ?thesis using assms(1,2) by (auto simp: page_mapped_def extends_def)
qed

lemma touch_byte:
  assumes bs: "buddy_spec P free" and ok: "ms_ok P free ms M" and lazy: "areas_lazy ms" and hw: "mmu_spec mmu"
    and addr: "addr < LOW_ADDRESS_END" and can: "can_alloc P (3 + n) (falloc M)"
  shows "in_area ms (vpn_floor addr) \<Longrightarrow> \<exists>ms' M'. try_user_byte P mmu wr addr ms M = Some (Inr (), ms', M')
      \<and> ms_ok P free ms' M' \<and> extends ms M ms' M' \<and> can_alloc P n (falloc M') \<and> page_mapped ms' M' (vpn_floor addr)"
    and "\<not> in_area ms (vpn_floor addr) \<Longrightarrow> try_user_byte P mmu wr addr ms M = Some (Inl EFAULT, ms, M)"
proof -
  let ?v = "vpn_floor addr"
  have fault: "try_user_byte P mmu wr addr ms M = do {
       (ok, ms', M') \<leftarrow> handle_memory_exception P addr False ms M;
       Some (if ok then Inr () else Inl EFAULT, ms', M') }" if "\<not> access_ok wr addr ms M"
    using hw addr that by (auto simp: mmu_spec_def try_user_byte_def user_memory_exception_def)
  show "\<exists>ms' M'. try_user_byte P mmu wr addr ms M = Some (Inr (), ms', M') \<and> ms_ok P free ms' M'
      \<and> extends ms M ms' M' \<and> can_alloc P n (falloc M') \<and> page_mapped ms' M' ?v" if inside: "in_area ms ?v"
  proof (cases "access_ok wr addr ms M")
    case True
    then have m: "pt_lookup (mem M) (ms_table ms) ?v \<noteq> None" by (auto simp: access_ok_def split: option.splits)
    obtain p pr where own: "ms_owns (user_areas ms) ?v p pr" "area_perm ms ?v pr"
      using mapped_owner [OF ok lazy low_user_vpn [OF addr] m] by blast
    have "page_mapped ms M ?v" using ms_okD(4) [OF ok own(1)] own(2) by (auto simp: page_mapped_def)
    moreover have "can_alloc P n (falloc M)" by (rule can_alloc_mono [OF can]) simp
    ultimately show ?thesis using True hw addr ok by (simp add: mmu_spec_def try_user_byte_def)
  next
    case False
    obtain pr where pr: "area_perm ms ?v pr" using inside by (auto simp: in_area_perm)
    obtain p ms' M' where h: "handle_memory_exception P addr False ms M = Some (True, ms', M')" "ms_ok P free ms' M'"
      and e: "extends ms M ms' M'" and c: "can_alloc P n (falloc M')"
      and l: "pt_lookup (mem M') (ms_table ms') ?v = Some (p, pte_flags_from pr OR PTE_V)"
      using area_fault [OF bs ok lazy addr can pr] by blast
    have "area_perm ms' ?v pr" using e pr by (simp add: extends_def)
    then have "page_mapped ms' M' ?v" using l by (auto simp: page_mapped_def)
    then show ?thesis using fault [OF False] h e c by simp
  qed
  show "try_user_byte P mmu wr addr ms M = Some (Inl EFAULT, ms, M)" if out: "\<not> in_area ms ?v"
  proof -
    have "\<not> access_ok wr addr ms M"
    proof
      assume "access_ok wr addr ms M"
      then have "pt_lookup (mem M) (ms_table ms) ?v \<noteq> None" by (auto simp: access_ok_def split: option.splits)
      then show False using mapped_owner [OF ok lazy low_user_vpn [OF addr]] out by (auto simp: in_area_perm)
    qed
    moreover have "handle_memory_exception P addr False ms M = Some (False, ms, M)"
      by (rule handle_fault_outside [OF ms_okD(1) [OF ok]]) (use out in \<open>auto simp: in_area_def\<close>)
    ultimately show ?thesis using fault by simp
  qed
qed

lemma check_loop_spec:
  assumes bs: "buddy_spec P free" and hw: "mmu_spec mmu" and low: "e \<le> LOW_ADDRESS_END"
  shows "ms_ok P free ms M \<Longrightarrow> areas_lazy ms \<Longrightarrow> can_alloc P (3 * k) (falloc M) \<Longrightarrow> e \<le> va + PAGE_SIZE * k \<Longrightarrow>
    \<exists>r ms' M'. check_loop (try_user_byte P mmu wr) va e ms M = Some (r, ms', M')
      \<and> ms_ok P free ms' M' \<and> extends ms M ms' M'
      \<and> (if \<forall>i. va + PAGE_SIZE * i < e \<longrightarrow> in_area ms (vpn_floor (va + PAGE_SIZE * i))
         then r = Inr () \<and> (\<forall>i. va + PAGE_SIZE * i < e \<longrightarrow> page_mapped ms' M' (vpn_floor (va + PAGE_SIZE * i)))
         else r = Inl EFAULT)"
proof (induction k arbitrary: va ms M)
  case 0
  then show ?case by (auto simp: check_loop.simps)
next
  case (Suc k)
  show ?case
  proof (cases "va < e")
    case False
    then show ?thesis using Suc.prems(1) by (auto simp: check_loop.simps)
  next
    case True
    have addr: "va < LOW_ADDRESS_END" using True low by simp
    have can: "can_alloc P (3 + 3 * k) (falloc M)" using Suc.prems(3) by simp
    note touch = touch_byte [OF bs Suc.prems(1,2) hw addr can, of wr]
    have split: "(\<forall>i. va + PAGE_SIZE * i < e \<longrightarrow> Q (va + PAGE_SIZE * i)) \<longleftrightarrow>
        Q va \<and> (\<forall>i. va + PAGE_SIZE + PAGE_SIZE * i < e \<longrightarrow> Q (va + PAGE_SIZE + PAGE_SIZE * i))" for Q
    proof (rule iffI)
      assume A: "\<forall>i. va + PAGE_SIZE * i < e \<longrightarrow> Q (va + PAGE_SIZE * i)"
      show "Q va \<and> (\<forall>i. va + PAGE_SIZE + PAGE_SIZE * i < e \<longrightarrow> Q (va + PAGE_SIZE + PAGE_SIZE * i))"
        using spec [OF A, of 0] True spec [OF A, of "Suc _"] by (simp add: add.assoc)
    next
      assume B: "Q va \<and> (\<forall>i. va + PAGE_SIZE + PAGE_SIZE * i < e \<longrightarrow> Q (va + PAGE_SIZE + PAGE_SIZE * i))"
      show "\<forall>i. va + PAGE_SIZE * i < e \<longrightarrow> Q (va + PAGE_SIZE * i)"
      proof
        fix i show "va + PAGE_SIZE * i < e \<longrightarrow> Q (va + PAGE_SIZE * i)" using B by (cases i) (simp_all add: add.assoc)
      qed
    qed
    show ?thesis
    proof (cases "in_area ms (vpn_floor va)")
      case False
      have "check_loop (try_user_byte P mmu wr) va e ms M = Some (Inl EFAULT, ms, M)"
        using True touch(2) [OF False] by (simp add: check_loop.simps [of _ va])
      then show ?thesis using False Suc.prems(1) True split [of "\<lambda>x. in_area ms (vpn_floor x)"] by auto
    next
      case here: True
      obtain ms1 M1 where t: "try_user_byte P mmu wr va ms M = Some (Inr (), ms1, M1)" "ms_ok P free ms1 M1"
        and e1: "extends ms M ms1 M1" and c1: "can_alloc P (3 * k) (falloc M1)" and m1: "page_mapped ms1 M1 (vpn_floor va)"
        using touch(1) [OF here] by blast
      have lz: "areas_lazy ms1" using e1 Suc.prems(2) by (simp add: extends_def)
      have len: "e \<le> va + PAGE_SIZE + PAGE_SIZE * k" using Suc.prems(4) by simp
      obtain r ms' M' where rest: "check_loop (try_user_byte P mmu wr) (va + PAGE_SIZE) e ms1 M1 = Some (r, ms', M')"
        "ms_ok P free ms' M'" and e2: "extends ms1 M1 ms' M'"
        and res: "if \<forall>i. va + PAGE_SIZE + PAGE_SIZE * i < e \<longrightarrow> in_area ms1 (vpn_floor (va + PAGE_SIZE + PAGE_SIZE * i))
         then r = Inr () \<and> (\<forall>i. va + PAGE_SIZE + PAGE_SIZE * i < e \<longrightarrow> page_mapped ms' M' (vpn_floor (va + PAGE_SIZE + PAGE_SIZE * i)))
         else r = Inl EFAULT"
        using Suc.IH [OF t(2) lz c1 len] by blast
      have run: "check_loop (try_user_byte P mmu wr) va e ms M = Some (r, ms', M')"
        using True t rest by (simp add: check_loop.simps [of _ va])
      have m': "page_mapped ms' M' (vpn_floor va)" by (rule page_mapped_extends [OF e2 addr m1])
      show ?thesis
        unfolding split [of "\<lambda>x. in_area ms (vpn_floor x)"] split [of "\<lambda>x. page_mapped ms' M' (vpn_floor x)" for ms' M']
        using run rest(2) extends_trans [OF e1 e2] res here m' extends_in_area [OF e1] by auto
    qed
  qed
qed

text \<open>Every page of the range of a check that starts on a page boundary is touched.\<close>

lemma aligned_pages_touched:
  assumes "addr mod PAGE_SIZE = 0" "addr \<le> va" "va < e"
  shows "\<exists>i. addr + PAGE_SIZE * i < e \<and> vpn_floor va = vpn_floor (addr + PAGE_SIZE * i)"
proof (intro exI conjI)
  let ?i = "(va - addr) div PAGE_SIZE"
  obtain q where q: "addr = PAGE_SIZE * q" using assms(1) by auto
  have "PAGE_SIZE * ?i \<le> va - addr" by simp
  then show "addr + PAGE_SIZE * ?i < e" using assms(2,3) by linarith
  have "va div PAGE_SIZE = q + ?i"
    using assms(2) by (simp add: q PAGE_SIZE_def div_plus_div_distrib_dvd_left [symmetric] flip: div_add_self1)
  then show "vpn_floor va = vpn_floor (addr + PAGE_SIZE * ?i)"
    by (simp add: vpn_floor_div q PAGE_SIZE_def)
qed

text \<open>
  C33: a check of a user's range, for reading or for writing.  A range whose end is not a 64-bit
  number is a panic of the kernel.  A range that ends behind the user's half of the addresses is
  refused and nothing changes.  Otherwise, in a space of lazily
  allocated areas and with enough frames, the check does not panic and succeeds exactly when every
  page it touches lies in an area; it then leaves these pages mapped with the permission of
  their area, which are all pages of the range when the start is on a page boundary.  The space
  stays well-formed, keeps its areas, and what was mapped keeps its frame and its contents.
\<close>

theorem user_check_correct:
  assumes bs: "buddy_spec P free" and ok: "ms_ok P free ms M" and lazy: "areas_lazy ms" and hw: "mmu_spec mmu"
    and can: "can_alloc P (3 * div_ceil (len * sz) PAGE_SIZE) (falloc M)"
    and check: "check \<in> {check_slice, check_slice_mut}"
  shows "if 2 ^ 64 \<le> addr + len * sz then check P mmu sz addr len ms M = None
    else if LOW_ADDRESS_END < addr + len * sz then check P mmu sz addr len ms M = Some (Inl EFAULT, ms, M)
    else \<exists>r ms' M'. check P mmu sz addr len ms M = Some (r, ms', M')
      \<and> ms_ok P free ms' M' \<and> extends ms M ms' M'
      \<and> r = (if \<forall>i. addr + PAGE_SIZE * i < addr + len * sz \<longrightarrow> in_area ms (vpn_floor (addr + PAGE_SIZE * i))
             then Inr () else Inl EFAULT)
      \<and> (r = Inr () \<longrightarrow> (\<forall>i. addr + PAGE_SIZE * i < addr + len * sz \<longrightarrow> page_mapped ms' M' (vpn_floor (addr + PAGE_SIZE * i))))
      \<and> (r = Inr () \<longrightarrow> addr mod PAGE_SIZE = 0 \<longrightarrow>
          (\<forall>va. addr \<le> va \<longrightarrow> va < addr + len * sz \<longrightarrow> page_mapped ms' M' (vpn_floor va)))"
proof (cases "2 ^ 64 \<le> addr + len * sz")
  case True
  then have "check_slice P mmu sz addr len ms M = None" "check_slice_mut P mmu sz addr len ms M = None"
    by (simp_all add: check_slice_def check_slice_mut_def check_read_impl_def check_write_impl_def umul_def uadd_def usize_limit_def)
  then show ?thesis using True check by auto
next
  case fits: False
  let ?e = "addr + len * sz"
  have "check_slice P mmu sz addr len ms M = (if LOW_ADDRESS_END < ?e then Some (Inl EFAULT, ms, M)
      else check_loop (try_user_byte P mmu False) addr ?e ms M)"
    "check_slice_mut P mmu sz addr len ms M = (if LOW_ADDRESS_END < ?e then Some (Inl EFAULT, ms, M)
      else check_loop (try_user_byte P mmu True) addr ?e ms M)"
    using fits by (simp_all add: check_slice_def check_slice_mut_def check_read_impl_def check_write_impl_def
        try_read_user_byte_def try_write_user_byte_def umul_def uadd_def usize_limit_def)
  then obtain wr where run: "check P mmu sz addr len ms M = (if LOW_ADDRESS_END < ?e then Some (Inl EFAULT, ms, M)
      else check_loop (try_user_byte P mmu wr) addr ?e ms M)"
    using check by auto
  show ?thesis
  proof (cases "LOW_ADDRESS_END < ?e")
    case False
    have len: "?e \<le> addr + PAGE_SIZE * div_ceil (len * sz) PAGE_SIZE"
      using div_ceil_ge [of PAGE_SIZE "len * sz"] by (simp add: PAGE_SIZE_def mult.commute)
    obtain r ms' M' where res: "check_loop (try_user_byte P mmu wr) addr ?e ms M = Some (r, ms', M')"
      "ms_ok P free ms' M'" "extends ms M ms' M'"
      and r: "if \<forall>i. addr + PAGE_SIZE * i < ?e \<longrightarrow> in_area ms (vpn_floor (addr + PAGE_SIZE * i))
         then r = Inr () \<and> (\<forall>i. addr + PAGE_SIZE * i < ?e \<longrightarrow> page_mapped ms' M' (vpn_floor (addr + PAGE_SIZE * i)))
         else r = Inl EFAULT"
      using check_loop_spec [OF bs hw _ ok lazy can len, of wr] False by fastforce
    have pages: "r = Inr () \<longrightarrow> (\<forall>i. addr + PAGE_SIZE * i < ?e \<longrightarrow> page_mapped ms' M' (vpn_floor (addr + PAGE_SIZE * i)))"
      using r by (auto split: if_splits)
    have "r = Inr () \<longrightarrow> addr mod PAGE_SIZE = 0 \<longrightarrow> (\<forall>va. addr \<le> va \<longrightarrow> va < ?e \<longrightarrow> page_mapped ms' M' (vpn_floor va))"
      using pages aligned_pages_touched [of addr _ ?e] by fastforce
    moreover have "r = (if \<forall>i. addr + PAGE_SIZE * i < ?e \<longrightarrow> in_area ms (vpn_floor (addr + PAGE_SIZE * i))
             then Inr () else Inl EFAULT)"
      using r by (auto split: if_splits)
    ultimately show ?thesis using fits False run res pages by auto
  qed (use fits in \<open>simp add: run\<close>)
qed

text \<open>A memory management unit that follows the page table.\<close>

definition table_mmu :: "'fa mmu" where
  "table_mmu = \<lparr>probe = (\<lambda>wr addr ms M. if access_ok wr addr ms M then None
       else Some (if wr \<and> access_ok False addr ms M then 15 else 13)),
     from_number = (\<lambda>n. if n = 13 then Some LoadPageFault else if n = 15 then Some StorePageFault else None)\<rparr>"

lemma table_mmu_spec: "mmu_spec table_mmu"
  by (simp add: mmu_spec_def table_mmu_def)

theorem user_check_correct_witness:
  "\<exists>ms' M'. check_slice_mut list_platform table_mmu 8 0x12000 2 demo_ms demo_M = Some (Inr (), ms', M')
     \<and> page_mapped ms' M' 0x12"
proof -
  have v: "vpn_floor (0x12000 + PAGE_SIZE * i) = 0x12 + i" for i by (simp add: vpn_floor_div PAGE_SIZE_def)
  have lazy: "areas_lazy demo_ms" by (simp add: areas_lazy_def demo_ms_def vm_area_new_def)
  have can: "can_alloc list_platform (3 * div_ceil (2 * 8) PAGE_SIZE) (falloc demo_M)"
    by (simp add: div_ceil_def PAGE_SIZE_def demo_M_def numeral_3_eq_3)
  have inside: "0x12000 + PAGE_SIZE * i < 0x12000 + 2 * 8 \<Longrightarrow> i = 0" for i by (simp add: PAGE_SIZE_def)
  have area: "in_area demo_ms 0x12" by (simp add: in_area_def demo_ms_def vm_area_new_def)
  have pages: "\<forall>i. 0x12000 + PAGE_SIZE * i < 0x12000 + 2 * 8 \<longrightarrow> in_area demo_ms (vpn_floor (0x12000 + PAGE_SIZE * i))"
    unfolding v using inside area by fastforce
  show ?thesis
    using user_check_correct [OF list_platform_spec demo_ms_ok lazy table_mmu_spec can, of check_slice_mut "0x12000"]
      v [of 0] pages
    by (auto simp: LOW_ADDRESS_END_def dest: spec [of _ 0])
qed

section \<open>What a check does not show\<close>

text \<open>The pages touched are those of the start plus multiples of the page size: of two bytes
  across a page boundary only the first page is touched, and the check succeeds when the second
  page is in no area.\<close>

lemma last_page_unprobed:
  "\<exists>ms' M'. check_slice list_platform table_mmu 1 0x1FFFF 2 demo_ms demo_M = Some (Inr (), ms', M')
     \<and> \<not> in_area ms' (vpn_floor 0x20000)"
proof -
  have lazy: "areas_lazy demo_ms" by (simp add: areas_lazy_def demo_ms_def vm_area_new_def)
  have can: "can_alloc list_platform (3 * 1) (falloc demo_M)" by (simp add: demo_M_def numeral_3_eq_3)
  have v: "vpn_floor 0x1FFFF = 0x1F" "vpn_floor 0x20000 = 0x20" by (simp_all add: vpn_floor_div)
  have one: "0x1FFFF + PAGE_SIZE * i < 0x20001 \<longleftrightarrow> i = 0" for i by (auto simp: PAGE_SIZE_def)
  have area: "in_area demo_ms 0x1F" "\<not> in_area demo_ms 0x20"
    by (simp_all add: in_area_def demo_ms_def vm_area_new_def)
  have "0x20001 \<le> LOW_ADDRESS_END" "0x20001 \<le> 0x1FFFF + PAGE_SIZE * 1" by (simp_all add: LOW_ADDRESS_END_def PAGE_SIZE_def)
  from check_loop_spec [OF list_platform_spec table_mmu_spec this(1) demo_ms_ok lazy can this(2), of False]
  obtain ms' M' where "check_loop (try_user_byte list_platform table_mmu False) 0x1FFFF 0x20001 demo_ms demo_M = Some (Inr (), ms', M')"
    "extends demo_ms demo_M ms' M'"
    by (auto simp: one v area)
  then show ?thesis
    using area by (auto simp: v extends_in_area check_slice_def check_read_impl_def try_read_user_byte_def umul_def uadd_def
        usize_limit_def LOW_ADDRESS_END_def)
qed

text \<open>After the fault is handled the access is not repeated, and the space is not told that it was a
  store: a check for writing succeeds on every page of an area, whatever its permission.\<close>

lemma write_check_ignores_permission:
  assumes "buddy_spec P free" "ms_ok P free ms M" "areas_lazy ms" "mmu_spec mmu" "addr < LOW_ADDRESS_END"
    "can_alloc P 3 (falloc M)" "area_perm ms (vpn_floor addr) pr" "pr AND PERM_W = 0"
  shows "\<exists>ms' M'. check_ptr_mut P mmu 1 addr ms M = Some (Inr (), ms', M') \<and> area_perm ms' (vpn_floor addr) pr"
proof -
  have one: "addr + PAGE_SIZE * i < addr + 1 \<longleftrightarrow> i = 0" for i by (auto simp: PAGE_SIZE_def)
  have can: "can_alloc P (3 * 1) (falloc M)" using assms(6) by simp
  have e: "addr + 1 \<le> LOW_ADDRESS_END" "addr + 1 \<le> addr + PAGE_SIZE * 1" using assms(5) by (simp_all add: PAGE_SIZE_def)
  have "in_area ms (vpn_floor addr)" using assms(7) by (auto simp: in_area_perm)
  then obtain ms' M' where "check_loop (try_user_byte P mmu True) addr (addr + 1) ms M = Some (Inr (), ms', M')" "extends ms M ms' M'"
    using check_loop_spec [OF assms(1,4) e(1) assms(2,3) can e(2), of True] by (auto simp: one)
  then show ?thesis
    using assms(5,7) by (auto simp: check_ptr_mut_def check_write_impl_def try_write_user_byte_def umul_def uadd_def
        usize_limit_def LOW_ADDRESS_END_def extends_def)
qed

end
