(* ===== verification/FileIo.thy ===== *)
theory FileIo
  imports FsSyscalls Devices UserCheck
begin

text \<open>
  Reading and writing through descriptors: \<^verbatim>\<open>FileDescriptor\<close> of \<^verbatim>\<open>crates/libkernel/src/fs/file.rs\<close> and
  the calls \<^verbatim>\<open>read\<close>, \<^verbatim>\<open>write\<close>, \<^verbatim>\<open>readv\<close>, \<^verbatim>\<open>writev\<close>, \<^verbatim>\<open>sendfile64\<close>, \<^verbatim>\<open>ppoll\<close> and \<^verbatim>\<open>ioctl\<close> of
  \<^verbatim>\<open>crates/kernel/src/syscall/fs.rs\<close>, over the page cache, pipes and the devices.

  A call is a future.  A poll of it gives its result, or the point where it waits: at a pipe, with
  the number of bytes it has, or at the terminal.  The state is the file system, the channel of
  every pipe (an empty one for the numbers that are not used yet), the terminal, what was printed
  and the tasks that were woken.  The memory of the program is what the program
  sees, a function from addresses to bytes; whether a range passes the check of a user pointer is
  a parameter.
\<close>

section \<open>The state\<close>

record ('d, 't, 'c, 'q) io_env =
  io_fs_env :: "('d, 't) fs_env"
  io_chan :: "'c channel_ops"
  io_deque :: "'q deque_ops"
  io_order :: "mount_table \<Rightarrow> FileSystem list"
  io_task :: nat

record ('c, 'q) kio =
  io_kfs :: kfs
  io_chans :: "nat \<Rightarrow> 'c"
  io_tty :: "'q tty"
  io_ttys :: "nat \<Rightarrow> tty_inner"
  io_out :: bytes
  io_woken :: "nat list"

text \<open>Where a read stores its bytes: a buffer of the kernel or of the user.  A user's buffer is
  checked, slice by slice, before it is written.\<close>

record 'm dest =
  d_user :: bool
  d_len :: nat
  d_check :: "nat \<Rightarrow> nat \<Rightarrow> 'm \<Rightarrow> fault + unit"
  d_store :: "nat \<Rightarrow> bytes \<Rightarrow> 'm \<Rightarrow> 'm"

definition dest_put :: "'m dest \<Rightarrow> nat \<Rightarrow> bytes \<Rightarrow> 'm \<Rightarrow> fault + 'm" where
  "dest_put d i bs m = (case d_check d i (i + length bs) m of Inl f \<Rightarrow> Inl f | Inr _ \<Rightarrow> Inr (d_store d i bs m))"

definition dest_buffer :: "'m dest \<Rightarrow> 'm read_buffer" where
  "dest_buffer d = \<lparr> rb_len = d_len d, rb_put = dest_put d \<rparr>"

definition kernel_dest :: "nat \<Rightarrow> bytes dest" where
  "kernel_dest n = \<lparr> d_user = False, d_len = n,
     d_check = (\<lambda>i j m. if j \<le> length m then Inr () else Inl Panic),
     d_store = (\<lambda>i bs m. take i m @ bs @ drop (i + length bs) m) \<rparr>"

record user_view =
  uv_read :: "nat \<Rightarrow> nat \<Rightarrow> fault + unit"
  uv_write :: "nat \<Rightarrow> nat \<Rightarrow> fault + unit"

definition user_range :: "(nat \<Rightarrow> nat \<Rightarrow> fault + unit) \<Rightarrow> nat \<Rightarrow> nat \<Rightarrow> nat \<Rightarrow> nat \<Rightarrow> fault + unit" where
  "user_range check addr len i j = (case user_slice 1 addr len i j of
     Some (Some (first, n)) \<Rightarrow> check first n
   | _ \<Rightarrow> Inl Panic)"

definition user_dest :: "user_view \<Rightarrow> nat \<Rightarrow> nat \<Rightarrow> memory dest" where
  "user_dest uv addr len = \<lparr> d_user = True, d_len = len,
     d_check = (\<lambda>i j m. user_range (uv_write uv) addr len i j),
     d_store = (\<lambda>i bs m. wr_bytes (addr + i) bs m) \<rparr>"

definition user_source :: "user_view \<Rightarrow> nat \<Rightarrow> nat \<Rightarrow> memory \<Rightarrow> write_buffer" where
  "user_source uv addr len m = \<lparr> wb_len = len,
     wb_get = (\<lambda>i n. case user_range (uv_read uv) addr len i (i + n) of
        Inl f \<Rightarrow> Inl f | Inr _ \<Rightarrow> Inr (rd_bytes m (addr + i) n)) \<rparr>"

datatype read_fut = Fresh | PipeWait nat | TtyWait

datatype 'f poll = Ready "fault + nat" | Pending 'f

section \<open>Inodes\<close>

definition io_put_inode :: "nat \<Rightarrow> bytes_inode \<Rightarrow> nat \<Rightarrow> ('c, 'q) kio \<Rightarrow> ('c, 'q) kio" where
  "io_put_inode i x nframes s = s\<lparr> io_kfs := (put_bytes_inode i x (io_kfs s))\<lparr> k_frames := nframes \<rparr> \<rparr>"

text \<open>What the page cache of an inode reads: the clusters of a file, or the text of a file of
  \<^verbatim>\<open>procfs\<close>.\<close>

definition backend_of :: "('d, 't, 'c, 'q) io_env \<Rightarrow> kfs \<Rightarrow> bytes_inode \<Rightarrow> backend_read" where
  "backend_of env k x = (case x of
     FatFileI f \<Rightarrow> fat_read_inode_at (e_dev (io_fs_env env)) (v_fat (k_vfs k)) (ff_clusters f)
   | MountsI _ \<Rightarrow> text_read_inode_at (as_bytes (mounts_info (io_order env) (k_mounts k)))
   | MeminfoI _ \<Rightarrow> text_read_inode_at (as_bytes DUMMY_MEMINFO)
   | _ \<Rightarrow> (\<lambda>offset buf. (buf, Inl Panic)))"

text \<open>\<^verbatim>\<open>TtyInode::read_inode_at\<close>: the first poll sets the time, and only a user reads a terminal.\<close>

definition tty_read ::
  "('d, 't, 'c, 'q) io_env \<Rightarrow> 'm dest \<Rightarrow> read_fut \<Rightarrow> nat \<Rightarrow> InodeMeta \<Rightarrow> ('c, 'q) kio \<Rightarrow> 'm
    \<Rightarrow> (read_fut poll \<times> ('c, 'q) kio \<times> 'm) option" where
  "tty_read env d fut i meta s m =
    (if \<not> d_user d then None
     else (let s1 = (if fut = TtyWait then s
                     else io_put_inode i (TtyI (meta\<lparr> access_time := e_now (io_fs_env env) \<rparr>)) (k_frames (io_kfs s)) s)
       in case d_check d 0 (d_len d) m of
            Inl f \<Rightarrow> Some (Ready (Inl f), s1, m)
          | Inr _ \<Rightarrow> (case tty_poll (io_deque env) (io_task env) (Inr ()) (d_len d) (io_tty s1) of
              (r, woken, t) \<Rightarrow>
                (let s2 = s1\<lparr> io_tty := t, io_woken := io_woken s1 @ (case woken of None \<Rightarrow> [] | Some w \<Rightarrow> [w]) \<rparr>
                 in case r of
                      Some (Inr bs) \<Rightarrow> Some (Ready (Inr (length bs)), s2, d_store d 0 bs m)
                    | Some (Inl e) \<Rightarrow> Some (Ready (Err e), s2, m)
                    | None \<Rightarrow> Some (Pending TtyWait, s2, m)))))"

text \<open>\<^verbatim>\<open>read_at\<close> of an inode.  A device has no page cache and reads by itself.\<close>

definition inode_read_at ::
  "('d, 't, 'c, 'q) io_env \<Rightarrow> 'm dest \<Rightarrow> read_fut \<Rightarrow> nat \<Rightarrow> nat \<Rightarrow> ('c, 'q) kio \<Rightarrow> 'm
    \<Rightarrow> (read_fut poll \<times> ('c, 'q) kio \<times> 'm) option" where
  "inode_read_at env d fut offset i s m = (case v_bytes_inodes (k_vfs (io_kfs s)) i of
     None \<Rightarrow> None
   | Some (TtyI meta) \<Rightarrow>
       if data_len meta < offset then Some (Ready (Inr 0), s, m) else tty_read env d fut i meta s m
   | Some x \<Rightarrow>
       (case read_at (backend_of env (io_kfs s) x)
               (\<lambda>_ m. case x of RtcI _ \<Rightarrow> rtc_read_inode_at (dest_buffer d) m | _ \<Rightarrow> (Inl Panic, m))
               (e_now (io_fs_env env)) (dest_buffer d) offset (bytes_meta x) (k_frames (io_kfs s)) m of
          None \<Rightarrow> None
        | Some (r, m', meta, nframes) \<Rightarrow> Some (Ready r, io_put_inode i (set_bytes_meta meta x) nframes s, m')))"

definition tty_write_inode ::
  "('d, 't, 'c, 'q) io_env \<Rightarrow> write_buffer \<Rightarrow> nat \<Rightarrow> InodeMeta \<Rightarrow> ('c, 'q) kio \<Rightarrow> ((fault + nat) \<times> ('c, 'q) kio) option" where
  "tty_write_inode env b i meta s =
    (let s1 = io_put_inode i (TtyI (meta\<lparr> modify_time := e_now (io_fs_env env) \<rparr>)) (k_frames (io_kfs s)) s
     in case wb_get b 0 (wb_len b) of
          Inl f \<Rightarrow> Some (Inl f, s1)
        | Inr bs \<Rightarrow> (case tty_write bs of
            None \<Rightarrow> None
          | Some (n, printed) \<Rightarrow> Some (Inr n, s1\<lparr> io_out := io_out s1 @ printed \<rparr>)))"

definition inode_write_at ::
  "('d, 't, 'c, 'q) io_env \<Rightarrow> write_buffer \<Rightarrow> nat \<Rightarrow> nat \<Rightarrow> ('c, 'q) kio \<Rightarrow> ((fault + nat) \<times> ('c, 'q) kio) option" where
  "inode_write_at env b offset i s = (case v_bytes_inodes (k_vfs (io_kfs s)) i of
     None \<Rightarrow> None
   | Some (TtyI meta) \<Rightarrow> tty_write_inode env b i meta s
   | Some x \<Rightarrow>
       (case write_at (backend_of env (io_kfs s) x) (\<lambda>_. case x of RtcI _ \<Rightarrow> Err EBADF | _ \<Rightarrow> Inl Panic)
               (e_now (io_fs_env env)) b offset (bytes_meta x) (k_frames (io_kfs s)) of
          None \<Rightarrow> None
        | Some (r, meta, nframes) \<Rightarrow> Some (r, io_put_inode i (set_bytes_meta meta x) nframes s)))"

section \<open>Descriptors\<close>

definition pipe_of :: "pipe_end \<Rightarrow> nat \<times> pipe_inner" where
  "pipe_of e = (case e of pipe_end.ReadEnd i \<Rightarrow> (i, pipe_inner.ReadEnd) | pipe_end.WriteEnd i \<Rightarrow> (i, pipe_inner.WriteEnd))"

definition the_pipe :: "nat \<Rightarrow> ('c, 'q) kio \<Rightarrow> 'c pipe option" where
  "the_pipe i s = map_option (\<lambda>meta. \<lparr> pipe_meta = meta, pipe_chan = io_chans s i \<rparr>) (k_pipes (io_kfs s) i)"

definition put_pipe :: "nat \<Rightarrow> 'c pipe \<Rightarrow> ('c, 'q) kio \<Rightarrow> ('c, 'q) kio" where
  "put_pipe i p s = s\<lparr> io_kfs := (io_kfs s)\<lparr> k_pipes := (k_pipes (io_kfs s))(i \<mapsto> pipe_meta p) \<rparr>,
     io_chans := (io_chans s)(i := pipe_chan p) \<rparr>"

definition on_offset :: "nat \<Rightarrow> nat \<Rightarrow> ('c, 'q) kio \<Rightarrow> ('c, 'q) kio" where
  "on_offset i pos s = s\<lparr> io_kfs := set_offset i pos (io_kfs s) \<rparr>"

definition bytes_inode_of :: "nat \<Rightarrow> ('c, 'q) kio \<Rightarrow> nat option" where
  "bytes_inode_of b s = map_option db_inode (v_files (k_vfs (io_kfs s)) b)"

definition fd_read ::
  "('d, 't, 'c, 'q) io_env \<Rightarrow> 'm dest \<Rightarrow> read_fut \<Rightarrow> file_descriptor \<Rightarrow> ('c, 'q) kio \<Rightarrow> 'm
    \<Rightarrow> (read_fut poll \<times> ('c, 'q) kio \<times> 'm) option" where
  "fd_read env d fut desc s m = (case fd_file desc of
     DirFile _ \<Rightarrow> Some (Ready (Err EBADF), s, m)
   | PipeFile e \<Rightarrow> (case pipe_of e of (i, which) \<Rightarrow> do {
       p \<leftarrow> the_pipe i s;
       let n_read = (case fut of PipeWait n \<Rightarrow> n | _ \<Rightarrow> 0);
       (case pipe_read (io_chan env) (e_now (io_fs_env env)) which (dest_buffer d) n_read p m of
          (r, n, p', m') \<Rightarrow> Some (case r of None \<Rightarrow> Pending (PipeWait n) | Some x \<Rightarrow> Ready x, put_pipe i p' s, m')) })
   | SeekableFile i \<Rightarrow> do {
       f \<leftarrow> k_seekables (io_kfs s) i;
       inode \<leftarrow> bytes_inode_of (sk_dentry f) s;
       (r, s', m') \<leftarrow> inode_read_at env d fut (sk_offset f) inode s m;
       (case r of
          Ready (Inr nread) \<Rightarrow> do {
            pos \<leftarrow> uadd (sk_offset f) nread;
            Some (r, on_offset i pos s', m') }
        | _ \<Rightarrow> Some (r, s', m')) }
   | StreamFile b \<Rightarrow> do {
       inode \<leftarrow> bytes_inode_of b s;
       inode_read_at env d fut 0 inode s m })"

definition fd_read_at ::
  "('d, 't, 'c, 'q) io_env \<Rightarrow> 'm dest \<Rightarrow> read_fut \<Rightarrow> nat \<Rightarrow> file_descriptor \<Rightarrow> ('c, 'q) kio \<Rightarrow> 'm
    \<Rightarrow> (read_fut poll \<times> ('c, 'q) kio \<times> 'm) option" where
  "fd_read_at env d fut offset desc s m = (case fd_file desc of
     SeekableFile i \<Rightarrow> do {
       f \<leftarrow> k_seekables (io_kfs s) i;
       inode \<leftarrow> bytes_inode_of (sk_dentry f) s;
       inode_read_at env d fut offset inode s m }
   | DirFile _ \<Rightarrow> Some (Ready (Err EBADF), s, m)
   | _ \<Rightarrow> Some (Ready (Err ESPIPE), s, m))"

definition fd_write ::
  "('d, 't, 'c, 'q) io_env \<Rightarrow> write_buffer \<Rightarrow> file_descriptor \<Rightarrow> ('c, 'q) kio \<Rightarrow> ((fault + nat) \<times> ('c, 'q) kio) option" where
  "fd_write env b desc s = (case fd_file desc of
     SeekableFile i \<Rightarrow> do {
       f \<leftarrow> k_seekables (io_kfs s) i;
       inode \<leftarrow> bytes_inode_of (sk_dentry f) s;
       x \<leftarrow> v_bytes_inodes (k_vfs (io_kfs s)) inode;
       let offset = (if has_flag (fd_flags desc) O_APPEND then data_len (bytes_meta x) else sk_offset f);
       (r, s') \<leftarrow> inode_write_at env b offset inode (on_offset i offset s);
       (case r of
          Inr nwrite \<Rightarrow> do {
            pos \<leftarrow> uadd offset nwrite;
            Some (r, on_offset i pos s') }
        | Inl _ \<Rightarrow> Some (r, s')) }
   | StreamFile f \<Rightarrow> do {
       inode \<leftarrow> bytes_inode_of f s;
       inode_write_at env b 0 inode s }
   | PipeFile e \<Rightarrow> (case pipe_of e of (i, which) \<Rightarrow> do {
       p \<leftarrow> the_pipe i s;
       (case pipe_write (io_chan env) (e_now (io_fs_env env)) which b p of (r, p') \<Rightarrow> Some (r, put_pipe i p' s)) })
   | DirFile _ \<Rightarrow> Some (Err EBADF, s))"

definition fd_ioctl :: "nat \<Rightarrow> user_arg \<Rightarrow> file_descriptor \<Rightarrow> ('c, 'q) kio \<Rightarrow> ((errno + ioctl_value option) \<times> ('c, 'q) kio) option" where
  "fd_ioctl request argp desc s = do {
     meta \<leftarrow> file_meta (io_kfs s) (fd_file desc);
     if mode meta \<noteq> CharDevice then Some (Inl ENOTTY, s)
     else (case fd_file desc of
         StreamFile b \<Rightarrow> do {
           i \<leftarrow> bytes_inode_of b s;
           x \<leftarrow> v_bytes_inodes (k_vfs (io_kfs s)) i;
           (case x of
              TtyI _ \<Rightarrow> map_option (\<lambda>(r, t). (r, s\<lparr> io_ttys := (io_ttys s)(i := t) \<rparr>)) (tty_ioctl request argp (io_ttys s i))
            | RtcI _ \<Rightarrow> Some (Inr None, s)
            | _ \<Rightarrow> Some (Inl ENOTTY, s)) }
       | _ \<Rightarrow> Some (Inl ENOTTY, s))
   }"

section \<open>The calls\<close>

definition sys_ioctl :: "nat \<Rightarrow> nat \<Rightarrow> user_arg \<Rightarrow> ('c, 'q) kio \<Rightarrow> ((errno + ioctl_value option) \<times> ('c, 'q) kio) option" where
  "sys_ioctl fd request argp s = (case fd_get fd (k_fds (io_kfs s)) of
     None \<Rightarrow> Some (Inl EBADF, s)
   | Some desc \<Rightarrow> fd_ioctl request argp desc s)"

definition prepare_io :: "bool \<Rightarrow> nat \<Rightarrow> ('c, 'q) kio \<Rightarrow> (errno + file_descriptor) option" where
  "prepare_io READ fd s = (case fd_get fd (k_fds (io_kfs s)) of
     None \<Rightarrow> Some (Inl EBADF)
   | Some desc \<Rightarrow>
       map_option (\<lambda>ok. if ok then Inr desc else Inl EBADF) (if READ then fd_readable desc else fd_writable desc))"

definition sys_read ::
  "('d, 't, 'c, 'q) io_env \<Rightarrow> user_view \<Rightarrow> nat \<Rightarrow> nat \<Rightarrow> nat \<Rightarrow> ('c, 'q) kio \<Rightarrow> memory
    \<Rightarrow> (read_fut poll \<times> ('c, 'q) kio \<times> memory) option" where
  "sys_read env uv fd addr len s m = (case prepare_io True fd s of
     None \<Rightarrow> None
   | Some (Inl e) \<Rightarrow> Some (Ready (Err e), s, m)
   | Some (Inr desc) \<Rightarrow> fd_read env (user_dest uv addr len) Fresh desc s m)"

definition sys_write ::
  "('d, 't, 'c, 'q) io_env \<Rightarrow> user_view \<Rightarrow> nat \<Rightarrow> nat \<Rightarrow> nat \<Rightarrow> ('c, 'q) kio \<Rightarrow> memory \<Rightarrow> ((fault + nat) \<times> ('c, 'q) kio) option" where
  "sys_write env uv fd addr len s m = (case prepare_io False fd s of
     None \<Rightarrow> None
   | Some (Inl e) \<Rightarrow> Some (Err e, s)
   | Some (Inr desc) \<Rightarrow> fd_write env (user_source uv addr len m) desc s)"

definition IOVEC_SIZE :: nat where "IOVEC_SIZE = 16"

text \<open>The next buffer of a vector: None when it is empty and passed over.\<close>

definition next_iovec :: "user_view \<Rightarrow> nat \<Rightarrow> memory \<Rightarrow> fault + (nat \<times> nat) option" where
  "next_iovec uv addr m = (case uv_read uv addr IOVEC_SIZE of
     Inl f \<Rightarrow> Inl f
   | Inr _ \<Rightarrow> (let iov_base = unat (rd64 m addr); iov_len = unat (rd64 m (addr + 8))
       in if iov_len = 0 then Inr None else if iov_base = 0 then Err EINVAL else Inr (Some (iov_base, iov_len))))"

text \<open>A vector read that waits remembers the buffers that are left, the address of the current
  element, the bytes read so far, and the buffer it is reading into.  The clock is read once for
  the whole call, where the code reads it for every buffer.\<close>

record readv_fut =
  rv_left :: nat
  rv_addr :: nat
  rv_total :: nat
  rv_buf :: "(nat \<times> nat) option"
  rv_fut :: read_fut

fun readv_loop ::
  "('d, 't, 'c, 'q) io_env \<Rightarrow> user_view \<Rightarrow> file_descriptor \<Rightarrow> nat \<Rightarrow> nat \<Rightarrow> nat \<Rightarrow> (nat \<times> nat) option \<Rightarrow> read_fut
    \<Rightarrow> ('c, 'q) kio \<Rightarrow> memory \<Rightarrow> (readv_fut poll \<times> ('c, 'q) kio \<times> memory) option" where
  "readv_loop env uv desc 0 addr tot_read cur fut s m = Some (Ready (Inr tot_read), s, m)"
| "readv_loop env uv desc (Suc n) addr tot_read cur fut s m =
    (case (case cur of Some c \<Rightarrow> Inr (Some c) | None \<Rightarrow> next_iovec uv addr m) of
       Inl f \<Rightarrow> Some (Ready (Inl f), s, m)
     | Inr None \<Rightarrow> (case user_add IOVEC_SIZE addr 1 of
           None \<Rightarrow> None
         | Some None \<Rightarrow> Some (Ready (Err EINVAL), s, m)
         | Some (Some next_addr) \<Rightarrow> readv_loop env uv desc n next_addr tot_read None Fresh s m)
     | Inr (Some (iov_base, iov_len)) \<Rightarrow>
         (case fd_read env (user_dest uv iov_base iov_len) fut desc s m of
            None \<Rightarrow> None
          | Some (Pending fut', s', m') \<Rightarrow>
              Some (Pending \<lparr> rv_left = Suc n, rv_addr = addr, rv_total = tot_read,
                rv_buf = Some (iov_base, iov_len), rv_fut = fut' \<rparr>, s', m')
          | Some (Ready (Inl f), s', m') \<Rightarrow> Some (Ready (Inl f), s', m')
          | Some (Ready (Inr nread), s', m') \<Rightarrow>
              if nread = 0 then Some (Ready (Inr tot_read), s', m')
              else (case uadd tot_read nread of
                  None \<Rightarrow> None
                | Some tot \<Rightarrow> (case user_add IOVEC_SIZE addr 1 of
                      None \<Rightarrow> None
                    | Some None \<Rightarrow> Some (Ready (Err EINVAL), s', m')
                    | Some (Some next_addr) \<Rightarrow> readv_loop env uv desc n next_addr tot None Fresh s' m'))))"

definition sys_readv ::
  "('d, 't, 'c, 'q) io_env \<Rightarrow> user_view \<Rightarrow> nat \<Rightarrow> nat \<Rightarrow> nat \<Rightarrow> ('c, 'q) kio \<Rightarrow> memory
    \<Rightarrow> (readv_fut poll \<times> ('c, 'q) kio \<times> memory) option" where
  "sys_readv env uv fd io_vec vec_len s m = (case prepare_io True fd s of
     None \<Rightarrow> None
   | Some (Inl e) \<Rightarrow> Some (Ready (Err e), s, m)
   | Some (Inr desc) \<Rightarrow> readv_loop env uv desc vec_len io_vec 0 None Fresh s m)"

definition readv_resume ::
  "('d, 't, 'c, 'q) io_env \<Rightarrow> user_view \<Rightarrow> file_descriptor \<Rightarrow> readv_fut \<Rightarrow> ('c, 'q) kio \<Rightarrow> memory
    \<Rightarrow> (readv_fut poll \<times> ('c, 'q) kio \<times> memory) option" where
  "readv_resume env uv desc r = readv_loop env uv desc (rv_left r) (rv_addr r) (rv_total r) (rv_buf r) (rv_fut r)"

fun writev_loop ::
  "('d, 't, 'c, 'q) io_env \<Rightarrow> user_view \<Rightarrow> file_descriptor \<Rightarrow> memory \<Rightarrow> nat \<Rightarrow> nat \<Rightarrow> nat \<Rightarrow> ('c, 'q) kio
    \<Rightarrow> ((fault + nat) \<times> ('c, 'q) kio) option" where
  "writev_loop env uv desc m 0 addr total_write s = Some (Inr total_write, s)"
| "writev_loop env uv desc m (Suc n) addr total_write s = (case next_iovec uv addr m of
     Inl f \<Rightarrow> Some (Inl f, s)
   | Inr buf \<Rightarrow>
       (case (case buf of None \<Rightarrow> Some (Inr 0, s)
                | Some (iov_base, iov_len) \<Rightarrow> fd_write env (user_source uv iov_base iov_len m) desc s) of
          None \<Rightarrow> None
        | Some (Inl f, s') \<Rightarrow> Some (Inl f, s')
        | Some (Inr nwrite, s') \<Rightarrow> (case uadd total_write nwrite of
            None \<Rightarrow> None
          | Some tot \<Rightarrow> (case user_add IOVEC_SIZE addr 1 of
                None \<Rightarrow> None
              | Some None \<Rightarrow> Some (Err EINVAL, s')
              | Some (Some next_addr) \<Rightarrow> writev_loop env uv desc m n next_addr tot s'))))"

definition sys_writev ::
  "('d, 't, 'c, 'q) io_env \<Rightarrow> user_view \<Rightarrow> nat \<Rightarrow> nat \<Rightarrow> nat \<Rightarrow> ('c, 'q) kio \<Rightarrow> memory \<Rightarrow> ((fault + nat) \<times> ('c, 'q) kio) option" where
  "sys_writev env uv fd io_vec vec_len s m = (case prepare_io False fd s of
     None \<Rightarrow> None
   | Some (Inl e) \<Rightarrow> Some (Err e, s)
   | Some (Inr desc) \<Rightarrow> writev_loop env uv desc m vec_len io_vec 0 s)"

text \<open>\<^verbatim>\<open>sendfile64\<close> between the two descriptors.  The kernel's buffer \<open>buf\<close> is not initialised: it is an
  argument, as long as the count, and allocating it is taken to succeed.  A call that waits for its
  source keeps the buffer.\<close>

definition sendfile_read ::
  "('d, 't, 'c, 'q) io_env \<Rightarrow> user_view \<Rightarrow> file_descriptor \<Rightarrow> nat option \<Rightarrow> read_fut \<Rightarrow> bytes \<Rightarrow> ('c, 'q) kio \<Rightarrow> memory
    \<Rightarrow> (read_fut poll \<times> bytes \<times> ('c, 'q) kio \<times> memory) option" where
  "sendfile_read env uv source offset_ptr fut buf s m = (case offset_ptr of
     None \<Rightarrow> map_option (\<lambda>(r, s', buf'). (r, buf', s', m)) (fd_read env (kernel_dest (length buf)) fut source s buf)
   | Some p \<Rightarrow> (case uv_read uv p 8 of
       Inl f \<Rightarrow> Some (Ready (Inl f), buf, s, m)
     | Inr _ \<Rightarrow> (let offset = unat (rd64 m p) in
         case fd_read_at env (kernel_dest (length buf)) fut offset source s buf of
           None \<Rightarrow> None
         | Some (Ready (Inr n_read), s', buf') \<Rightarrow> (case uv_write uv p 8 of
             Inl f \<Rightarrow> Some (Ready (Inl f), buf', s', m)
           | Inr _ \<Rightarrow> (case uadd offset n_read of
               None \<Rightarrow> None
             | Some o' \<Rightarrow> Some (Ready (Inr n_read), buf', s', wr64 p (word_of_nat o') m)))
         | Some (r, s', buf') \<Rightarrow> Some (r, buf', s', m))))"

definition sendfile_poll ::
  "('d, 't, 'c, 'q) io_env \<Rightarrow> user_view \<Rightarrow> file_descriptor \<Rightarrow> file_descriptor \<Rightarrow> nat option \<Rightarrow> read_fut \<Rightarrow> bytes
    \<Rightarrow> ('c, 'q) kio \<Rightarrow> memory \<Rightarrow> ((read_fut \<times> bytes) poll \<times> ('c, 'q) kio \<times> memory) option" where
  "sendfile_poll env uv source target offset_ptr fut buf s m =
    (case sendfile_read env uv source offset_ptr fut buf s m of
       None \<Rightarrow> None
     | Some (Pending f, buf', s', m') \<Rightarrow> Some (Pending (f, buf'), s', m')
     | Some (Ready (Inl f), buf', s', m') \<Rightarrow> Some (Ready (Inl f), s', m')
     | Some (Ready (Inr n_read), buf', s', m') \<Rightarrow>
         map_option (\<lambda>(r, s''). (Ready r, s'', m')) (fd_write env (kernel_write_buffer (take n_read buf')) target s'))"

definition sys_sendfile64 ::
  "('d, 't, 'c, 'q) io_env \<Rightarrow> user_view \<Rightarrow> nat \<Rightarrow> nat \<Rightarrow> nat option \<Rightarrow> bytes \<Rightarrow> ('c, 'q) kio \<Rightarrow> memory
    \<Rightarrow> ((read_fut \<times> bytes) poll \<times> ('c, 'q) kio \<times> memory) option" where
  "sys_sendfile64 env uv out_fd in_fd offset_ptr buf s m = (case prepare_io True in_fd s of
     None \<Rightarrow> None
   | Some (Inl e) \<Rightarrow> Some (Ready (Err e), s, m)
   | Some (Inr source) \<Rightarrow> (case prepare_io False out_fd s of
       None \<Rightarrow> None
     | Some (Inl e) \<Rightarrow> Some (Ready (Err e), s, m)
     | Some (Inr target) \<Rightarrow> sendfile_poll env uv source target offset_ptr Fresh buf s m))"

subsection \<open>Polling descriptors\<close>

definition POLLIN :: "16 word" where "POLLIN = 1"
definition POLLPRI :: "16 word" where "POLLPRI = 2"
definition POLLOUT :: "16 word" where "POLLOUT = 4"
definition POLLERR :: "16 word" where "POLLERR = 8"
definition POLLHUP :: "16 word" where "POLLHUP = 16"
definition POLLNVAL :: "16 word" where "POLLNVAL = 32"

definition poll_events_from_bits :: "16 word \<Rightarrow> 16 word option" where
  "poll_events_from_bits b =
    (if b AND (POLLIN OR POLLPRI OR POLLOUT OR POLLERR OR POLLHUP OR POLLNVAL) = b then Some b else None)"

record PollFd =
  poll_fd :: int
  poll_events :: "16 word"
  poll_revents :: "16 word"

text \<open>Every open descriptor is ready for what is asked.\<close>

definition poll_one :: "fd_table \<Rightarrow> PollFd \<Rightarrow> (PollFd \<times> nat) option" where
  "poll_one t p =
    (if poll_fd p < 0 then Some (p\<lparr> poll_revents := 0 \<rparr>, 0)
     else (case fd_get (nat (poll_fd p)) t of
         None \<Rightarrow> Some (p\<lparr> poll_revents := POLLNVAL \<rparr>, 0)
       | Some _ \<Rightarrow> (case poll_events_from_bits (poll_events p) of
           None \<Rightarrow> None
         | Some events \<Rightarrow> Some (p\<lparr> poll_revents := events AND (POLLIN OR POLLOUT) \<rparr>, 1))))"

fun poll_all :: "fd_table \<Rightarrow> PollFd list \<Rightarrow> (PollFd list \<times> nat) option" where
  "poll_all t [] = Some ([], 0)"
| "poll_all t (p # ps) = do {
     (p', n) \<leftarrow> poll_one t p;
     (ps', k) \<leftarrow> poll_all t ps;
     Some (p' # ps', n + k)
   }"

text \<open>The arguments: the timeout as it was read, the elements of the user's array and the check of
  the array.  The result comes with the elements after the call.\<close>

definition sys_ppoll :: "(errno + TimeSpec) option \<Rightarrow> PollFd list \<Rightarrow> errno + unit \<Rightarrow> kfs \<Rightarrow> ((errno + nat) \<times> PollFd list) option" where
  "sys_ppoll timeout fds checked k = (case timeout of
     Some (Inl e) \<Rightarrow> Some (Inl e, fds)
   | _ \<Rightarrow>
       if (case timeout of Some (Inr t) \<Rightarrow> ts_sec t < 0 \<or> (ts_sec t = 0 \<and> ts_nsec t < 0) | _ \<Rightarrow> False)
       then Some (Inl EINVAL, fds)
       else if fd_limit (k_fds k) \<le> length fds then Some (Inl EINVAL, fds)
       else (case checked of
           Inl e \<Rightarrow> Some (Inl e, fds)
         | Inr _ \<Rightarrow> map_option (\<lambda>(ps, n). (Inr n, ps)) (poll_all (k_fds k) fds)))"

end
