(* ===== verification/FileCopy.thy ===== *)
theory FileCopy
  imports FileIo
begin

text \<open>
  What the calls that read and write whole files do, over the page cache: a vector read is one
  read of the total length, scattered over its buffers, and \<^verbatim>\<open>sendfile64\<close> copies.
\<close>

section \<open>Bytes of a range of pages\<close>

text \<open>What reading a range through the page cache delivers when no page fails.\<close>

function fetch :: "backend_read \<Rightarrow> nat \<Rightarrow> nat \<Rightarrow> page_cache \<times> nat \<Rightarrow> (bytes \<times> page_cache \<times> nat) option" where
  "fetch rd a b c = (if a < b
     then (let n = min (b - a) (PAGE_SIZE - a mod PAGE_SIZE) in
       case load_page rd (a div PAGE_SIZE) c of
         Some (Inr page, c') \<Rightarrow>
           map_option (\<lambda>(bs, c''). (slice (page_bytes page) (a mod PAGE_SIZE) (a mod PAGE_SIZE + n) @ bs, c'')) (fetch rd (a + n) b c')
       | _ \<Rightarrow> None)
     else Some ([], c))"
  by pat_completeness auto

termination
proof (relation "measure (\<lambda>(rd, a, b, c). b - a)")
  show "wf (measure (\<lambda>(rd, a, b, c). b - a))" by simp
next
  fix rd a b c n
  assume "a < b" and n: "n = min (b - a) (PAGE_SIZE - a mod PAGE_SIZE)"
  moreover have "a mod PAGE_SIZE < PAGE_SIZE" by simp
  ultimately have "0 < n" by simp
  then show "((rd, a + n, b, c'), rd, a, b, c) \<in> measure (\<lambda>(rd, a, b, c). b - a)" for c' using \<open>a < b\<close> by simp
qed

declare fetch.simps [simp del]

lemma fetch_empty [simp]: "b \<le> a \<Longrightarrow> fetch rd a b c = Some ([], c)"
  by (simp add: fetch.simps)

lemma load_page_again:
  assumes "load_page rd p c = Some (Inr page, c')"
  shows "load_page rd p c' = Some (Inr page, c')"
proof -
  obtain q pages fr where g: "get_or_init_page p c = Some (q, pages, fr)"
    using assms by (auto simp: load_page_def bind_eq_Some_conv)
  have get: "bt_get pages p = Some q"
    using g by (auto simp: get_or_init_page_def pc_create_def Let_def split: option.splits prod.splits if_splits)
  show ?thesis
    using assms g get
    by (auto simp: load_page_def get_or_init_page_def Let_def split: if_splits prod.splits sum.splits)
qed

definition keeps_length :: "backend_read \<Rightarrow> bool" where
  "keeps_length rd \<longleftrightarrow> (\<forall>offset buf buf' n. rd offset buf = (buf', Inr n) \<longrightarrow> length buf' = length buf)"

lemma load_page_length:
  assumes rd: "keeps_length rd" and ok: "cache_ok (fst c)" and load: "load_page rd p c = Some (Inr page, c')"
  shows "length (page_bytes page) = PAGE_SIZE \<and> cache_ok (fst c')"
proof -
  obtain q pages fr where g: "get_or_init_page p c = Some (q, pages, fr)"
    using load by (auto simp: load_page_def bind_eq_Some_conv)
  have q: "page_ok q" "cache_ok pages"
    using g ok by (auto simp: get_or_init_page_def pc_create_def Let_def cache_ok_def page_ok_def
        split: option.splits prod.splits if_splits)
  show ?thesis
  proof (cases "page_state q = Invalid")
    case True
    obtain bs n where r: "rd (shl64 p PAGE_SIZE_BITS) (page_bytes q) = (bs, Inr n)"
      using load g True by (auto simp: load_page_def Let_def split: prod.splits sum.splits)
    then have "length bs = PAGE_SIZE" using rd q(1) unfolding keeps_length_def page_ok_def by metis
    then show ?thesis
      using load g True r q(2) by (auto simp: load_page_def Let_def cache_ok_def page_ok_def split: if_splits)
  next
    case False
    then show ?thesis using load g q by (auto simp: load_page_def page_ok_def)
  qed
qed

lemma fetch_step:
  assumes "fetch rd a b c = Some (bs, c')" "a < b"
  defines "n \<equiv> min (b - a) (PAGE_SIZE - a mod PAGE_SIZE)"
  obtains page c1 bs1 where "load_page rd (a div PAGE_SIZE) c = Some (Inr page, c1)" "fetch rd (a + n) b c1 = Some (bs1, c')"
    "bs = slice (page_bytes page) (a mod PAGE_SIZE) (a mod PAGE_SIZE + n) @ bs1"
  using assms by (auto simp: fetch.simps [of rd a b] Let_def split: option.splits sum.splits prod.splits)

lemma fetch_length:
  assumes rd: "keeps_length rd"
  shows "cache_ok (fst c) \<Longrightarrow> fetch rd a b c = Some (bs, c') \<Longrightarrow> length bs = b - a \<and> cache_ok (fst c')"
proof (induction "b - a" arbitrary: a bs c rule: less_induct)
  case less
  show ?case
  proof (cases "a < b")
    case True
    define n where "n = min (b - a) (PAGE_SIZE - a mod PAGE_SIZE)"
    have n: "0 < n" "a + n \<le> b" "a mod PAGE_SIZE + n \<le> PAGE_SIZE"
      using chunk_facts [OF True n_def] by metis+
    obtain page c1 bs1 where l: "load_page rd (a div PAGE_SIZE) c = Some (Inr page, c1)"
      "fetch rd (a + n) b c1 = Some (bs1, c')" "bs = slice (page_bytes page) (a mod PAGE_SIZE) (a mod PAGE_SIZE + n) @ bs1"
      using fetch_step [OF less.prems(2) True] unfolding n_def by blast
    note p = load_page_length [OF rd less.prems(1) l(1)]
    have "b - (a + n) < b - a" using n True by linarith
    then have "length bs1 = b - (a + n) \<and> cache_ok (fst c')" using less.hyps l(2) p by blast
    then show ?thesis using l(3) n p by simp
  qed (use less.prems in simp)
qed

lemma fetch_split:
  assumes "fetch rd a b c = Some (bs, c')" "a \<le> k" "k \<le> b"
  shows "\<exists>bs1 c1 bs2. fetch rd a k c = Some (bs1, c1) \<and> fetch rd k b c1 = Some (bs2, c') \<and> bs = bs1 @ bs2"
  using assms
proof (induction "b - a" arbitrary: a bs c rule: less_induct)
  case less
  show ?case
  proof (cases "a < k")
    case False
    then show ?thesis using less.prems by simp
  next
    case True
    then have ab: "a < b" using less.prems(3) by simp
    define n where "n = min (b - a) (PAGE_SIZE - a mod PAGE_SIZE)"
    obtain q r where q: "a div PAGE_SIZE = q" "a mod PAGE_SIZE = r" "a = q * PAGE_SIZE + r" "r < PAGE_SIZE"
      and n: "0 < n" "a + n \<le> b" "r + n \<le> PAGE_SIZE" "a + n < b \<Longrightarrow> r + n = PAGE_SIZE"
      using chunk_facts [OF ab n_def] by metis
    obtain page c1 bs1 where l: "load_page rd q c = Some (Inr page, c1)" "fetch rd (a + n) b c1 = Some (bs1, c')"
      "bs = slice (page_bytes page) r (r + n) @ bs1"
      using fetch_step [OF less.prems(1) ab] unfolding n_def q(1,2) by blast
    show ?thesis
    proof (cases "a + n \<le> k")
      case True
      have dec: "b - (a + n) < b - a" using n(1) ab by linarith
      obtain x c2 y where x: "fetch rd (a + n) k c1 = Some (x, c2)" "fetch rd k b c2 = Some (y, c')" "bs1 = x @ y"
        using less.hyps [OF dec l(2) True less.prems(3)] by blast
      have "min (k - a) (PAGE_SIZE - r) = n"
      proof (cases "a + n < b")
        case False
        then have "k = b" using True less.prems(3) by simp
        then show ?thesis by (simp add: n_def q(2))
      qed (use True n(4) in auto)
      then have "fetch rd a k c = Some (slice (page_bytes page) r (r + n) @ x, c2)"
        using \<open>a < k\<close> l(1) x(1) by (simp add: fetch.simps [of rd a k] q(1,2) Let_def)
      then show ?thesis using x l(3) by simp
    next
      case False
      then have k: "a < k" "k < a + n" using True by simp_all
      have kd: "k div PAGE_SIZE = q" "k mod PAGE_SIZE = r + (k - a)"
        using page_split [of "r + (k - a)" q] k q(3) n(3) by (simp_all add: add.assoc [symmetric])
      have m1: "min (k - a) (PAGE_SIZE - r) = k - a" using k n(3) by simp
      have m2: "min (b - k) (PAGE_SIZE - (r + (k - a))) = a + n - k"
        using k n by (cases "a + n < b") (auto simp: min_def)
      have "fetch rd a k c = Some (slice (page_bytes page) r (r + (k - a)), c1)"
        using True l(1) m1 by (simp add: fetch.simps [of rd a k] q(1,2) Let_def)
      moreover have "fetch rd k b c1 = Some (slice (page_bytes page) (r + (k - a)) (r + (k - a) + (a + n - k)) @ bs1, c')"
        using k n(2) l(2) load_page_again [OF l(1)] m2 by (simp add: fetch.simps [of rd k b] kd Let_def)
      moreover have "slice (page_bytes page) r (r + n)
          = slice (page_bytes page) r (r + (k - a)) @ slice (page_bytes page) (r + (k - a)) (r + (k - a) + (a + n - k))"
        using k take_add [of "k - a" "a + n - k" "drop r (page_bytes page)"] by (simp add: slice_def add.commute)
      ultimately show ?thesis using l(3) by simp
    qed
  qed
qed

section \<open>Reading into a user's buffer\<close>

definition buffer_ok :: "user_view \<Rightarrow> nat \<Rightarrow> nat \<Rightarrow> bool" where
  "buffer_ok uv addr len \<longleftrightarrow> addr + len < usize_limit
     \<and> (\<forall>i j. i \<le> j \<and> j \<le> len \<longrightarrow> uv_write uv (addr + i) (j - i) = Inr ())"

lemma user_dest_put:
  assumes "buffer_ok uv addr len" "i + length bs \<le> len"
  shows "rb_put (dest_buffer (user_dest uv addr len)) i bs m = Inr (wr_bytes (addr + i) bs m)"
proof -
  have "user_slice 1 addr len i (i + length bs) = Some (Some (addr + i, length bs))"
    using assms by (auto simp: user_slice_def user_add_def umul_def uadd_def buffer_ok_def)
  moreover have "uv_write uv (addr + i) (i + length bs - i) = Inr ()"
    using assms unfolding buffer_ok_def by (metis le_add1)
  ultimately show ?thesis
    by (simp add: dest_buffer_def dest_put_def user_dest_def user_range_def)
qed

lemma wr_bytes_append: "wr_bytes (a + length x) y (wr_bytes a x m) = wr_bytes a (x @ y) m"
  by (auto simp: wr_bytes_def fun_eq_iff nth_append)

lemma wr_bytes_Nil [simp]: "wr_bytes a [] m = m"
  by (auto simp: wr_bytes_def fun_eq_iff)

lemma read_loop_step:
  fixes offset :: nat
  assumes "nread < read_end"
  defines "a \<equiv> offset + nread"
  defines "n \<equiv> min (offset + read_end - a) (PAGE_SIZE - a mod PAGE_SIZE)"
  shows "read_loop rd buf offset read_end nread c m = (case load_page rd (a div PAGE_SIZE) c of
     None \<Rightarrow> None
   | Some (Inl f, c') \<Rightarrow> Some (Inl f, m, c')
   | Some (Inr page, c') \<Rightarrow> (case rb_put buf nread (slice (page_bytes page) (a mod PAGE_SIZE) (a mod PAGE_SIZE + n)) m of
       Inl f \<Rightarrow> Some (Inl f, m, c')
     | Inr m' \<Rightarrow> read_loop rd buf offset read_end (nread + n) c' m'))"
proof -
  have in_page: "x AND PAGE_OFFSET_MASK = x mod PAGE_SIZE" "drop_bit PAGE_SIZE_BITS x = x div PAGE_SIZE" for x :: nat
    by (simp_all add: in_page_offset_mod page_id_div PAGE_SIZE_def)
  have left: "offset + read_end - (offset + nread) = read_end - nread" by simp
  show ?thesis
    unfolding n_def a_def left read_loop.simps [of rd buf offset read_end nread] in_page Let_def if_P [OF assms(1)] ..
qed

lemma read_loop_fetch:
  assumes rd: "keeps_length rd" and buf: "buffer_ok uv addr len"
  shows "cache_ok (fst c) \<Longrightarrow> nread \<le> read_end \<Longrightarrow> read_end \<le> len \<Longrightarrow>
    fetch rd (offset + nread) (offset + read_end) c = Some (bs, c') \<Longrightarrow>
    read_loop rd (dest_buffer (user_dest uv addr len)) offset read_end nread c m
      = Some (Inr read_end, wr_bytes (addr + nread) bs m, c')"
proof (induction "read_end - nread" arbitrary: nread c bs m rule: less_induct)
  case less
  show ?case
  proof (cases "nread < read_end")
    case False
    then show ?thesis using less.prems by (simp add: read_loop.simps)
  next
    case True
    define a where "a = offset + nread"
    define n where "n = min (offset + read_end - a) (PAGE_SIZE - a mod PAGE_SIZE)"
    have lt: "a < offset + read_end" using True by (simp add: a_def)
    have n: "0 < n" "a + n \<le> offset + read_end" "a mod PAGE_SIZE + n \<le> PAGE_SIZE"
      using chunk_facts [OF lt n_def] by metis+
    obtain page c1 bs1 where l: "load_page rd (a div PAGE_SIZE) c = Some (Inr page, c1)"
      "fetch rd (a + n) (offset + read_end) c1 = Some (bs1, c')"
      "bs = slice (page_bytes page) (a mod PAGE_SIZE) (a mod PAGE_SIZE + n) @ bs1"
      using fetch_step [OF less.prems(4) [folded a_def] lt] unfolding n_def by blast
    let ?x = "slice (page_bytes page) (a mod PAGE_SIZE) (a mod PAGE_SIZE + n)"
    note p = load_page_length [OF rd less.prems(1) l(1)]
    have len: "length ?x = n" using p n(3) by simp
    have le: "nread + n \<le> read_end" using n(2) by (simp add: a_def)
    have put: "rb_put (dest_buffer (user_dest uv addr len)) nread ?x m = Inr (wr_bytes (addr + nread) ?x m)"
      using user_dest_put [OF buf] len le less.prems(3) by simp
    have dec: "read_end - (nread + n) < read_end - nread" using n(1) True by linarith
    have an: "a + n = offset + (nread + n)" by (simp add: a_def)
    have ok1: "cache_ok (fst c1)" using p by blast
    have "read_loop rd (dest_buffer (user_dest uv addr len)) offset read_end nread c m
        = read_loop rd (dest_buffer (user_dest uv addr len)) offset read_end (nread + n) c1 (wr_bytes (addr + nread) ?x m)"
      unfolding read_loop_step [OF True] a_def [symmetric] n_def [symmetric] using l(1) put by simp
    also have "\<dots> = Some (Inr read_end, wr_bytes (addr + (nread + n)) bs1 (wr_bytes (addr + nread) ?x m), c')"
      by (rule less.hyps [OF dec ok1 le less.prems(3)]) (use l(2) an in simp)
    also have "wr_bytes (addr + (nread + n)) bs1 (wr_bytes (addr + nread) ?x m) = wr_bytes (addr + nread) bs m"
      using wr_bytes_append [of "addr + nread" ?x bs1 m] l(3) len by (simp add: add.assoc)
    finally show ?thesis .
  qed
qed

lemma read_loop_fetched:
  assumes buf: "buffer_ok uv addr len"
  shows "nread \<le> read_end \<Longrightarrow>
    read_loop rd (dest_buffer (user_dest uv addr len)) offset read_end nread c m = Some (Inr k, m', c') \<Longrightarrow>
    k = read_end \<and> (\<exists>bs. fetch rd (offset + nread) (offset + read_end) c = Some (bs, c'))"
proof (induction "read_end - nread" arbitrary: nread c m rule: less_induct)
  case less
  show ?case
  proof (cases "nread < read_end")
    case False
    then show ?thesis using less.prems by (simp add: read_loop.simps)
  next
    case True
    define a where "a = offset + nread"
    define n where "n = min (offset + read_end - a) (PAGE_SIZE - a mod PAGE_SIZE)"
    have lt: "a < offset + read_end" using True by (simp add: a_def)
    have n: "0 < n" "a + n \<le> offset + read_end"
      using chunk_facts [OF lt n_def] by metis+
    obtain page c1 m1 where l: "load_page rd (a div PAGE_SIZE) c = Some (Inr page, c1)"
      "read_loop rd (dest_buffer (user_dest uv addr len)) offset read_end (nread + n) c1 m1 = Some (Inr k, m', c')"
      using less.prems(2) unfolding read_loop_step [OF True] a_def [symmetric] n_def [symmetric]
      by (auto split: option.splits sum.splits)
    have dec: "read_end - (nread + n) < read_end - nread" "nread + n \<le> read_end"
      using n True by (auto simp: a_def)
    obtain bs where "k = read_end" "fetch rd (a + n) (offset + read_end) c1 = Some (bs, c')"
      using less.hyps [OF dec l(2)] by (auto simp: a_def add.assoc)
    then show ?thesis using l(1) lt unfolding a_def [symmetric] by (auto simp: fetch.simps [of rd a] n_def Let_def)
  qed
qed

subsection \<open>The backends keep the length of a page\<close>

lemma read_sectors_length:
  "(\<And>b. length (dev b) = SECTOR_SIZE) \<Longrightarrow> read_sectors dev ids n page = Some (page', n', full) \<Longrightarrow> length page' = length page"
  by (induction dev ids n page rule: read_sectors.induct) (auto simp: Let_def split: if_splits)

lemma read_page_loop_length:
  assumes dev: "\<And>b. length (dev b) = SECTOR_SIZE"
  shows "read_page_loop dev F cs i off n page = Some (page', n') \<Longrightarrow> length page' = length page"
proof (induction "length cs - i" arbitrary: i off n page rule: less_induct)
  case less
  note run = less.prems [unfolded read_page_loop.simps [of dev F cs i off n page]]
  show ?case
  proof (cases "length cs \<le> i")
    case False
    then obtain x y z p k full where r: "read_sectors dev [z..<y] n page = Some (p, k, full)"
      and rest: "if full then Some (p, k) = Some (page', n') else read_page_loop dev F cs (i + 1) 0 k p = Some (page', n')"
      using run by (auto split: option.splits prod.splits bool.splits)
    have "length p = length page" by (rule read_sectors_length [OF dev r])
    moreover have "\<not> full \<Longrightarrow> length page' = length p"
      using less.hyps [of "i + 1" 0 k p] False rest by simp
    ultimately show ?thesis using rest by (cases full) auto
  qed (use run in simp)
qed

lemma fat_keeps_length: "(\<And>b. length (dev b) = SECTOR_SIZE) \<Longrightarrow> keeps_length (fat_read_inode_at dev F cs)"
  by (auto simp: keeps_length_def fat_read_inode_at_def read_page_def bind_eq_Some_conv
      split: if_splits option.splits dest!: read_page_loop_length [rotated])

lemma backend_keeps_length:
  "(\<And>b. length (e_dev (io_fs_env env) b) = SECTOR_SIZE) \<Longrightarrow> keeps_length (backend_of env k x)"
  by (auto simp: backend_of_def fat_keeps_length split: bytes_inode.split)
    (auto simp: keeps_length_def text_read_inode_at_def split: if_splits)

section \<open>A vector read is one read\<close>

text \<open>An open regular file, and its state after some reads: the inode has a time of access and a
  page cache, and the file an offset.\<close>

definition open_regular :: "('c, 'q) kio \<Rightarrow> file_descriptor \<Rightarrow> nat \<Rightarrow> nat \<Rightarrow> bytes_inode \<Rightarrow> bool" where
  "open_regular s desc i inode x \<longleftrightarrow> fd_file desc = SeekableFile i
     \<and> (\<exists>f. k_seekables (io_kfs s) i = Some f \<and> bytes_inode_of (sk_dentry f) s = Some inode
            \<and> sk_offset f \<le> data_len (bytes_meta x))
     \<and> v_bytes_inodes (k_vfs (io_kfs s)) inode = Some x \<and> mode (bytes_meta x) = Regular \<and> (\<forall>meta. x \<noteq> TtyI meta)
     \<and> cache_ok (page_cache (bytes_meta x)) \<and> data_len (bytes_meta x) < usize_limit"

definition file_at :: "nat \<Rightarrow> nat \<Rightarrow> bytes_inode \<Rightarrow> ('c, 'q) kio \<Rightarrow> TimeSpec \<Rightarrow> page_cache \<times> nat \<Rightarrow> nat \<Rightarrow> ('c, 'q) kio" where
  "file_at i inode x s t c pos = on_offset i pos (io_put_inode inode
     (set_bytes_meta ((bytes_meta x)\<lparr> page_cache := fst c, access_time := t \<rparr>) x) (snd c) s)"

definition offset_of :: "nat \<Rightarrow> ('c, 'q) kio \<Rightarrow> nat" where
  "offset_of i s = (case k_seekables (io_kfs s) i of None \<Rightarrow> 0 | Some f \<Rightarrow> sk_offset f)"

lemma bytes_meta_set [simp]: "bytes_meta (set_bytes_meta meta x) = meta"
  by (cases x) (simp_all add: bytes_meta_def set_bytes_meta_def)

lemma set_bytes_meta_again [simp]: "set_bytes_meta a (set_bytes_meta b x) = set_bytes_meta a x"
  by (cases x) (simp_all add: set_bytes_meta_def)

lemma set_bytes_meta_same [simp]: "set_bytes_meta (bytes_meta x) x = x"
  by (cases x) (simp_all add: bytes_meta_def set_bytes_meta_def)

lemma set_bytes_meta_tty: "set_bytes_meta meta x = TtyI meta' \<Longrightarrow> \<exists>meta. x = TtyI meta"
  by (cases x) (simp_all add: set_bytes_meta_def)

lemma backend_of_set [simp]: "backend_of env k (set_bytes_meta meta x) = backend_of env k x"
  by (cases x) (simp_all add: backend_of_def set_bytes_meta_def)

lemma file_at_fields:
  assumes "k_seekables (io_kfs s) i = Some f"
  shows "k_seekables (io_kfs (file_at i inode x s t c pos)) i = Some (f\<lparr> sk_offset := pos \<rparr>)"
    "bytes_inode_of b (file_at i inode x s t c pos) = bytes_inode_of b s"
    "v_bytes_inodes (k_vfs (io_kfs (file_at i inode x s t c pos))) inode
      = Some (set_bytes_meta ((bytes_meta x)\<lparr> page_cache := fst c, access_time := t \<rparr>) x)"
    "k_frames (io_kfs (file_at i inode x s t c pos)) = snd c"
    "backend_of env (io_kfs (file_at i inode x s t c pos)) y = backend_of env (io_kfs s) y"
  using assms
  by (simp_all add: file_at_def on_offset_def set_offset_def io_put_inode_def put_bytes_inode_def bytes_inode_of_def backend_of_def
      split: bytes_inode.split)

lemma file_at_again:
  assumes "k_seekables (io_kfs s) i = Some f"
  shows "on_offset i pos' (io_put_inode inode (set_bytes_meta ((bytes_meta x)\<lparr> page_cache := p, access_time := t' \<rparr>) x) n
      (file_at i inode x s t c pos)) = file_at i inode x s t' (p, n) pos'"
  using assms by (simp add: file_at_def on_offset_def set_offset_def io_put_inode_def put_bytes_inode_def)

lemma file_at_start:
  assumes "open_regular s desc i inode x"
  shows "file_at i inode x s (access_time (bytes_meta x)) (page_cache (bytes_meta x), k_frames (io_kfs s)) (offset_of i s) = s"
  using assms
  by (auto simp: open_regular_def file_at_def offset_of_def on_offset_def set_offset_def io_put_inode_def put_bytes_inode_def
      fun_upd_idem)

lemma inode_read_at_regular:
  assumes "v_bytes_inodes (k_vfs (io_kfs s)) inode = Some x" "\<forall>meta. x \<noteq> TtyI meta"
    and "\<And>direct. read_at (backend_of env (io_kfs s) x) direct (e_now (io_fs_env env)) (dest_buffer d) pos
      (bytes_meta x) (k_frames (io_kfs s)) m = Some (r, m', meta', n)"
  shows "inode_read_at env d fut pos inode s m = Some (Ready r, io_put_inode inode (set_bytes_meta meta' x) n s, m')"
  using assms by (cases x) (simp_all add: inode_read_at_def)

lemma fd_read_file:
  assumes op: "open_regular s desc i inode x" and dev: "\<And>b. length (e_dev (io_fs_env env) b) = SECTOR_SIZE"
    and buf: "buffer_ok uv addr len" and c: "cache_ok (fst c)" and pos: "pos \<le> data_len (bytes_meta x)"
  defines "n \<equiv> min len (data_len (bytes_meta x) - pos)"
  assumes f: "fetch (backend_of env (io_kfs s) x) pos (pos + n) c = Some (bs, c')"
  shows "fd_read env (user_dest uv addr len) Fresh desc (file_at i inode x s t c pos) m
    = Some (Ready (Inr n), file_at i inode x s (e_now (io_fs_env env)) c' (pos + n), wr_bytes addr bs m)"
proof -
  let ?rd = "backend_of env (io_kfs s) x" and ?meta = "(bytes_meta x)\<lparr> page_cache := fst c, access_time := t \<rparr>"
  obtain g where g: "fd_file desc = SeekableFile i" "k_seekables (io_kfs s) i = Some g" "bytes_inode_of (sk_dentry g) s = Some inode"
    "mode (bytes_meta x) = Regular" "\<forall>meta. x \<noteq> TtyI meta" "data_len (bytes_meta x) < usize_limit"
    using op by (auto simp: open_regular_def)
  have "read_loop ?rd (dest_buffer (user_dest uv addr len)) pos n 0 c m = Some (Inr n, wr_bytes addr bs m, c')"
    using read_loop_fetch [OF backend_keeps_length [OF dev] buf c, of 0 n _ _ pos bs c'] f by (simp add: n_def)
  moreover have "rb_len (dest_buffer (user_dest uv addr len)) = len" by (simp add: dest_buffer_def user_dest_def)
  ultimately have read: "read_at ?rd direct (e_now (io_fs_env env)) (dest_buffer (user_dest uv addr len)) pos ?meta (snd c) m
      = Some (Inr n, wr_bytes addr bs m,
          (bytes_meta x)\<lparr> page_cache := fst c', access_time := e_now (io_fs_env env) \<rparr>, snd c')" for direct
    using pos g(4) by (cases c') (simp add: read_at_def n_def)
  have not_tty: "\<forall>meta. set_bytes_meta ?meta x \<noteq> TtyI meta" using g(5) set_bytes_meta_tty by metis
  have inode: "inode_read_at env (user_dest uv addr len) Fresh pos inode (file_at i inode x s t c pos) m
      = Some (Ready (Inr n), io_put_inode inode
          (set_bytes_meta ((bytes_meta x)\<lparr> page_cache := fst c', access_time := e_now (io_fs_env env) \<rparr>) (set_bytes_meta ?meta x))
          (snd c') (file_at i inode x s t c pos), wr_bytes addr bs m)"
    by (rule inode_read_at_regular [OF file_at_fields(3) [OF g(2)] not_tty]) (simp add: file_at_fields(4,5) [OF g(2)] read)
  have "uadd pos n = Some (pos + n)" using pos g(6) by (simp add: n_def uadd_def)
  then show ?thesis
    using g(1,3) inode file_at_fields(1,2) [OF g(2)] file_at_again [OF g(2)] by (simp add: fd_read_def)
qed

lemma fd_read_fetched:
  assumes op: "open_regular s desc i inode x" and buf: "buffer_ok uv addr len"
    and run: "fd_read env (user_dest uv addr len) Fresh desc s m = Some (Ready (Inr k), s', m')"
  defines "n \<equiv> min len (data_len (bytes_meta x) - offset_of i s)"
  shows "\<exists>bs c'. fetch (backend_of env (io_kfs s) x) (offset_of i s) (offset_of i s + n)
    (page_cache (bytes_meta x), k_frames (io_kfs s)) = Some (bs, c')"
proof -
  obtain g where g: "fd_file desc = SeekableFile i" "k_seekables (io_kfs s) i = Some g" "bytes_inode_of (sk_dentry g) s = Some inode"
    "v_bytes_inodes (k_vfs (io_kfs s)) inode = Some x" "sk_offset g \<le> data_len (bytes_meta x)"
    "mode (bytes_meta x) = Regular" "\<forall>meta. x \<noteq> TtyI meta"
    using op by (auto simp: open_regular_def)
  have o: "offset_of i s = sk_offset g" using g(2) by (simp add: offset_of_def)
  have l: "rb_len (dest_buffer (user_dest uv addr len)) = len" by (simp add: dest_buffer_def user_dest_def)
  obtain r s1 m1 where i: "inode_read_at env (user_dest uv addr len) Fresh (sk_offset g) inode s m = Some (r, s1, m1)"
    using run g(1-3) by (auto simp: fd_read_def bind_eq_Some_conv)
  have "r = Ready (Inr k) \<and> m1 = m'"
    using run g(1-3) i by (cases r; cases "case r of Ready y \<Rightarrow> y") (auto simp: fd_read_def bind_eq_Some_conv)
  with i have "inode_read_at env (user_dest uv addr len) Fresh (sk_offset g) inode s m = Some (Ready (Inr k), s1, m')" by simp
  then obtain direct meta fr where "read_at (backend_of env (io_kfs s) x) direct (e_now (io_fs_env env))
      (dest_buffer (user_dest uv addr len)) (sk_offset g) (bytes_meta x) (k_frames (io_kfs s)) m = Some (Inr k, m', meta, fr)"
    using g(4,7) by (auto simp: inode_read_at_def split: option.splits bytes_inode.splits)
  then obtain c' where "read_loop (backend_of env (io_kfs s) x) (dest_buffer (user_dest uv addr len)) (sk_offset g) n 0
      (page_cache (bytes_meta x), k_frames (io_kfs s)) m = Some (Inr k, m', c')"
    using g(5,6) l by (auto simp: read_at_def n_def o Let_def split: option.splits sum.splits)
  from read_loop_fetched [OF buf _ this] show ?thesis unfolding o by auto
qed

fun scatter :: "(nat \<times> nat) list \<Rightarrow> bytes \<Rightarrow> memory \<Rightarrow> memory" where
  "scatter [] bs m = m"
| "scatter ((addr, len) # vs) bs m = scatter vs (drop len bs) (wr_bytes addr (take len bs) m)"

lemma scatter_Nil [simp]: "scatter vs [] m = m"
  by (induction vs) auto

text \<open>A vector in memory, with checked buffers that do not overlap it.\<close>

fun vector_at :: "user_view \<Rightarrow> memory \<Rightarrow> nat \<Rightarrow> (nat \<times> nat) list \<Rightarrow> bool" where
  "vector_at uv m addr [] \<longleftrightarrow> True"
| "vector_at uv m addr ((b, l) # vs) \<longleftrightarrow> uv_read uv addr IOVEC_SIZE = Inr () \<and> unat (rd64 m addr) = b
     \<and> unat (rd64 m (addr + 8)) = l \<and> addr + IOVEC_SIZE < usize_limit \<and> (l \<noteq> 0 \<longrightarrow> b \<noteq> 0 \<and> buffer_ok uv b l)
     \<and> vector_at uv m (addr + IOVEC_SIZE) vs"

definition apart :: "nat \<Rightarrow> nat \<Rightarrow> (nat \<times> nat) list \<Rightarrow> bool" where
  "apart addr n vs \<longleftrightarrow> (\<forall>(b, l) \<in> set vs. b + l \<le> addr \<or> addr + n * IOVEC_SIZE \<le> b)"

lemma rd64_outside: "a + length bs \<le> p \<or> p + 8 \<le> a \<Longrightarrow> rd64 (wr_bytes a bs m) p = rd64 m p"
  by (rule rd64_cong) (auto simp: wr_bytes_def)

lemma vector_at_wr:
  "a + length bs \<le> addr \<or> addr + length vs * IOVEC_SIZE \<le> a \<Longrightarrow> vector_at uv m addr vs \<Longrightarrow> vector_at uv (wr_bytes a bs m) addr vs"
proof (induction vs arbitrary: addr)
  case (Cons v vs)
  obtain b l where v: "v = (b, l)" by (cases v)
  have "a + length bs \<le> addr + IOVEC_SIZE \<or> addr + IOVEC_SIZE + length vs * IOVEC_SIZE \<le> a"
    "rd64 (wr_bytes a bs m) addr = rd64 m addr" "rd64 (wr_bytes a bs m) (addr + 8) = rd64 m (addr + 8)"
    using Cons.prems(1) by (auto intro!: rd64_outside simp: IOVEC_SIZE_def)
  then show ?case using Cons.IH Cons.prems(2) by (simp add: v)
qed simp

lemma apart_Cons:
  "apart addr (Suc n) ((b, l) # vs) \<Longrightarrow> apart (addr + IOVEC_SIZE) n vs"
  "apart addr (Suc n) ((b, l) # vs) \<Longrightarrow> b + l \<le> addr + IOVEC_SIZE \<or> addr + IOVEC_SIZE + n * IOVEC_SIZE \<le> b"
  by (fastforce simp: apart_def)+

lemma readv_loop_file:
  assumes op: "open_regular s desc i inode x" and dev: "\<And>b. length (e_dev (io_fs_env env) b) = SECTOR_SIZE"
  defines "rd \<equiv> backend_of env (io_kfs s) x" and "flen \<equiv> data_len (bytes_meta x)"
  shows "vector_at uv m addr vs \<Longrightarrow> apart addr (length vs) vs \<Longrightarrow> cache_ok (fst c) \<Longrightarrow> pos \<le> flen \<Longrightarrow> tot + flen < usize_limit + pos \<Longrightarrow>
    n = min (sum_list (map snd vs)) (flen - pos) \<Longrightarrow> fetch rd pos (pos + n) c = Some (bs, c') \<Longrightarrow>
    readv_loop env uv desc (length vs) addr tot None Fresh (file_at i inode x s t c pos) m
      = Some (Ready (Inr (tot + n)),
          file_at i inode x s (if sum_list (map snd vs) = 0 then t else e_now (io_fs_env env)) c' (pos + n), scatter vs bs m)"
proof (induction vs arbitrary: m addr c pos tot n bs t)
  case (Cons v vs)
  obtain b l where v: "v = (b, l)" by (cases v)
  have next_addr: "user_add IOVEC_SIZE addr 1 = Some (Some (addr + IOVEC_SIZE))"
    using Cons.prems(1) by (simp add: v user_add_def umul_def uadd_def IOVEC_SIZE_def usize_limit_def)
  note ap = apart_Cons [OF Cons.prems(2) [unfolded v list.size add_Suc_right add_0_right]]
  show ?case
  proof (cases "l = 0")
    case True
    then have "next_iovec uv addr m = Inr None" using Cons.prems(1) by (simp add: v next_iovec_def)
    moreover have "wr_bytes b [] m = m" by simp
    ultimately show ?thesis
      using Cons.IH [of m "addr + IOVEC_SIZE" c pos tot n bs t] Cons.prems ap(1) next_addr True by (simp add: v)
  next
    case False
    define n1 where "n1 = min l (flen - pos)"
    have iov: "next_iovec uv addr m = Inr (Some (b, l))" and buf: "buffer_ok uv b l"
      using Cons.prems(1) False by (auto simp: v next_iovec_def Let_def)
    have n1: "pos \<le> pos + n1" "pos + n1 \<le> pos + n" using Cons.prems(6) by (auto simp: n1_def v)
    obtain x1 c1 x2 where f: "fetch rd pos (pos + n1) c = Some (x1, c1)" "fetch rd (pos + n1) (pos + n) c1 = Some (x2, c')"
      "bs = x1 @ x2" using fetch_split [OF Cons.prems(7) n1] by blast
    note len = fetch_length [OF backend_keeps_length [OF dev, of "io_kfs s" x, folded rd_def] Cons.prems(3) f(1)]
    let ?s = "file_at i inode x s (e_now (io_fs_env env)) c1 (pos + n1)" and ?m = "wr_bytes b x1 m"
    have rd: "fd_read env (user_dest uv b l) Fresh desc (file_at i inode x s t c pos) m = Some (Ready (Inr n1), ?s, ?m)"
      using fd_read_file [OF op dev buf Cons.prems(3), of pos x1 c1 t m] Cons.prems(4) f(1)
      by (simp add: n1_def flen_def rd_def)
    show ?thesis
    proof (cases "n1 = 0")
      case True
      then have "n = 0" using False Cons.prems(6) by (simp add: n1_def v)
      then show ?thesis using True f rd iov False Cons.prems(7) by (simp add: v)
    next
      case n1_pos: False
      have tot: "uadd tot n1 = Some (tot + n1)" using Cons.prems(4,5) by (simp add: uadd_def n1_def)
      have x1: "length x1 = n1" using len by simp
      have vec: "vector_at uv ?m (addr + IOVEC_SIZE) vs"
        by (rule vector_at_wr) (use ap(2) x1 Cons.prems(1) in \<open>auto simp: v n1_def\<close>)
      have "n = n1 + min (sum_list (map snd vs)) (flen - (pos + n1))" using Cons.prems(4,6) by (cases "l \<le> flen - pos") (auto simp: n1_def v)
      then obtain n2 where n2: "n = n1 + n2" "n2 = min (sum_list (map snd vs)) (flen - (pos + n1))" by blast
      have "readv_loop env uv desc (length vs) (addr + IOVEC_SIZE) (tot + n1) None Fresh ?s ?m
        = Some (Ready (Inr (tot + n1 + n2)),
            file_at i inode x s (e_now (io_fs_env env)) c' (pos + n1 + n2), scatter vs x2 ?m)"
        using Cons.IH [OF vec ap(1) _ _ _ n2(2), of c1 "tot + n1" x2 "e_now (io_fs_env env)"] len f(2) Cons.prems(4,5) n2(1)
        by (simp add: n1_def add.assoc)
      moreover have "scatter vs x2 ?m = scatter ((b, l) # vs) bs m"
      proof (cases "n1 = l")
        case False
        then have "n2 = 0" using n2(2) by (auto simp: n1_def)
        then have "x2 = []" using f(2) n2(1) by simp
        then show ?thesis using f(3) x1 by (simp add: n1_def)
      qed (use f(3) x1 in simp)
      ultimately show ?thesis using rd iov n1_pos tot next_addr n2(1) False by (simp add: v add.assoc)
    qed
  qed
qed (simp add: Let_def)

text \<open>
  C21: A vector read is one read, when nobody else uses the descriptor meanwhile and the clock shows
  the same time throughout.  For an open regular file with its offset inside the file, and a
  vector of checked buffers in the program's memory that do not overlap the vector and are not all
  empty: when one read
  of the total length succeeds, the vector read succeeds with the same number of bytes, puts the
  same bytes into its buffers one after the other, and leaves the file system in the same state,
  the page cache, the frames that are left, the offset and the time of access included.
\<close>

theorem readv_is_read:
  assumes fd: "fd_get fd (k_fds (io_kfs s)) = Some desc" and op: "open_regular s desc i inode x"
    and dev: "\<And>b. length (e_dev (io_fs_env env) b) = SECTOR_SIZE"
    and vec: "vector_at uv m io_vec vs" "apart io_vec (length vs) vs"
    and len: "len = sum_list (map snd vs)" "0 < len" and buf: "buffer_ok uv addr len"
    and run: "sys_read env uv fd addr len s m0 = Some (Ready (Inr n), s', m')"
  shows "sys_readv env uv fd io_vec (length vs) s m = Some (Ready (Inr n), s', scatter vs (rd_bytes m' addr n) m)"
proof -
  let ?pos = "offset_of i s" and ?c = "(page_cache (bytes_meta x), k_frames (io_kfs s))"
  have facts: "cache_ok (fst ?c)" "?pos \<le> data_len (bytes_meta x)" "data_len (bytes_meta x) < usize_limit"
    using op by (auto simp: open_regular_def offset_of_def)
  have prep: "prepare_io True fd s = Some (Inr desc)" and one: "fd_read env (user_dest uv addr len) Fresh desc s m0 = Some (Ready (Inr n), s', m')"
    using run fd by (auto simp: sys_read_def prepare_io_def split: option.splits if_splits)
  let ?n = "min len (data_len (bytes_meta x) - ?pos)"
  obtain bs c' where f: "fetch (backend_of env (io_kfs s) x) ?pos (?pos + ?n) ?c = Some (bs, c')"
    using fd_read_fetched [OF op buf one] by blast
  have "fd_read env (user_dest uv addr len) Fresh desc s m0
      = Some (Ready (Inr ?n), file_at i inode x s (e_now (io_fs_env env)) c' (?pos + ?n), wr_bytes addr bs m0)"
    using fd_read_file [OF op dev buf facts(1,2) f, of "access_time (bytes_meta x)"] unfolding file_at_start [OF op] .
  from trans [OF sym [OF one] this]
  have eq: "n = ?n" "s' = file_at i inode x s (e_now (io_fs_env env)) c' (?pos + ?n)" "m' = wr_bytes addr bs m0"
    by simp_all
  have "length bs = n" using fetch_length [OF backend_keeps_length [OF dev] facts(1) f] eq(1) by simp
  then have "rd_bytes m' addr n = bs" using rd_bytes_wr_bytes_same [of addr bs m0] eq(3) by simp
  moreover have "readv_loop env uv desc (length vs) io_vec 0 None Fresh s m = Some (Ready (Inr ?n), s', scatter vs bs m)"
    using readv_loop_file [OF op dev vec facts(1,2) _ refl f [unfolded len(1)],
        where tot = 0 and t = "access_time (bytes_meta x)"] facts(3) len
    unfolding file_at_start [OF op] eq(2) by (simp del: sum_list_eq_0_iff)
  ultimately show ?thesis using prep eq(1) by (simp add: sys_readv_def)
qed

subsection \<open>An example\<close>

definition demo_page :: bytes where
  "demo_page = [1, 2, 3] @ replicate (PAGE_SIZE - 3) 0"

definition demo_file :: bytes_inode where
  "demo_file = FatFileI \<lparr> ff_meta = \<lparr> ino = 9, mode = Regular, page_cache = [(0, \<lparr> page_bytes = demo_page, page_state = Synced \<rparr>)],
     data_len = 3, access_time = zero_time, modify_time = zero_time, change_time = zero_time \<rparr>, ff_clusters = [2, 3, 5] \<rparr>"

definition demo_kio :: "(8 word list \<times> bool, 8 word list) kio" where
  "demo_kio = \<lparr> io_kfs = demo_kfs\<lparr> k_vfs := demo_vfs\<lparr> v_files := [7 \<mapsto> \<lparr> db_parent = 0, db_name = ''f'', db_inode = 9 \<rparr>],
       v_bytes_inodes := [9 \<mapsto> demo_file] \<rparr>,
       k_fds := \<lparr> files = [(3, fd_new (SeekableFile 0) O_RDONLY)], fd_rlimit = \<lparr> rlim_curr = 16, rlim_max = 16 \<rparr> \<rparr>,
       k_seekables := [0 \<mapsto> \<lparr> sk_dentry = 7, sk_offset = 0 \<rparr>] \<rparr>,
     io_chans = (\<lambda>_. ([], False)), io_tty = \<lparr> tty_queue = [], tty_waker = None \<rparr>, io_ttys = (\<lambda>_. tty_inner_new), io_out = [],
     io_woken = [] \<rparr>"

definition demo_io_env :: "(nat, nat, 8 word list \<times> bool, 8 word list) io_env" where
  "demo_io_env = \<lparr> io_fs_env = demo_env\<lparr> e_dev := demo_disk \<rparr>, io_chan = list_channel PIPE_CAPACITY, io_deque = list_deque,
     io_order = (\<lambda>_. []), io_task = 1 \<rparr>"

definition demo_uv :: user_view where
  "demo_uv = \<lparr> uv_read = (\<lambda>_ _. Inr ()), uv_write = (\<lambda>_ _. Inr ()) \<rparr>"

definition demo_vector :: memory where
  "demo_vector = wr64 256 8192 (wr64 264 1 (wr64 272 12288 (wr64 280 4 (\<lambda>_. 0))))"

lemma demo_page_length [simp]: "length demo_page = PAGE_SIZE"
  by (simp add: demo_page_def PAGE_SIZE_def)

lemma demo_cache_ok: "cache_ok (page_cache (bytes_meta demo_file))"
  by (simp add: demo_file_def bytes_meta_def cache_ok_def page_ok_def bt_get_Cons bt_inv_Cons)

lemma demo_open: "open_regular demo_kio (fd_new (SeekableFile 0) O_RDONLY) 0 9 demo_file"
  using demo_cache_ok
  by (simp add: open_regular_def demo_kio_def bytes_inode_of_def fd_new_def)
    (simp add: demo_file_def bytes_meta_def usize_limit_def)

lemma demo_vector_at: "vector_at demo_uv demo_vector 256 [(8192, 1), (12288, 4)]" "apart 256 2 [(8192, 1), (12288, 4)]"
  by (simp_all add: demo_vector_def demo_uv_def IOVEC_SIZE_def rd64_wr64_same rd64_wr64_other buffer_ok_def usize_limit_def apart_def)

lemma demo_disk_length: "length (e_dev (io_fs_env demo_io_env) b) = SECTOR_SIZE"
  using demo_chain_ok by (simp add: demo_io_env_def chain_ok_def)

lemma demo_read:
  "\<exists>s'. sys_read demo_io_env demo_uv 3 4096 5 demo_kio m = Some (Ready (Inr 3), s', wr_bytes 4096 [1, 2, 3] m)"
proof -
  have buf: "buffer_ok demo_uv 4096 5" by (simp add: buffer_ok_def demo_uv_def usize_limit_def)
  let ?c = "(page_cache (bytes_meta demo_file), k_frames (io_kfs demo_kio))"
  have c: "cache_ok (fst ?c)" using demo_cache_ok by simp
  have "slice demo_page 0 3 = [1, 2, 3]" by (simp add: demo_page_def slice_def)
  then have f: "fetch rd 0 3 ?c = Some ([1, 2, 3], ?c)" for rd
    by (simp add: fetch.simps [of rd 0 3] load_page_def get_or_init_page_def demo_file_def bytes_meta_def bt_get_Cons PAGE_SIZE_def)
  have o: "offset_of 0 demo_kio = 0" "data_len (bytes_meta demo_file) = 3"
    by (simp_all add: offset_of_def demo_kio_def demo_file_def bytes_meta_def)
  have "fd_get 3 (k_fds (io_kfs demo_kio)) = Some (fd_new (SeekableFile 0) O_RDONLY)"
    by (simp add: demo_kio_def fd_get_def bt_get_Cons)
  moreover have "fd_readable (fd_new (SeekableFile 0) O_RDONLY) = Some True"
    by (simp add: fd_readable_def fd_new_def read_write_def O_RDONLY_def)
  ultimately show ?thesis
    using fd_read_file [OF demo_open demo_disk_length buf c,
        of 0 "[1, 2, 3]" ?c "access_time (bytes_meta demo_file)" m] f o file_at_start [OF demo_open]
    by (simp add: sys_read_def prepare_io_def)
qed

theorem readv_is_read_witness:
  "\<exists>s'. sys_read demo_io_env demo_uv 3 4096 5 demo_kio (\<lambda>_. 0) = Some (Ready (Inr 3), s', wr_bytes 4096 [1, 2, 3] (\<lambda>_. 0))
    \<and> sys_readv demo_io_env demo_uv 3 256 2 demo_kio demo_vector
      = Some (Ready (Inr 3), s', wr_bytes 12288 [2, 3] (wr_bytes 8192 [1] demo_vector))"
proof -
  obtain s' where r: "sys_read demo_io_env demo_uv 3 4096 5 demo_kio (\<lambda>_. 0) = Some (Ready (Inr 3), s', wr_bytes 4096 [1, 2, 3] (\<lambda>_. 0))"
    using demo_read by blast
  have fd: "fd_get 3 (k_fds (io_kfs demo_kio)) = Some (fd_new (SeekableFile 0) O_RDONLY)"
    by (simp add: demo_kio_def fd_get_def bt_get_Cons)
  have "buffer_ok demo_uv 4096 5" by (simp add: buffer_ok_def demo_uv_def usize_limit_def)
  moreover have "rd_bytes (wr_bytes 4096 [1, 2, 3] (\<lambda>_. 0)) 4096 3 = [1, 2, 3]"
    using rd_bytes_wr_bytes_same [of 4096 "[1, 2, 3]" "\<lambda>_. 0"] by (simp add: eval_nat_numeral)
  ultimately show ?thesis
    using r readv_is_read [OF fd demo_open demo_disk_length demo_vector_at(1) _ _ _ _ r] demo_vector_at(2)
    by (simp add: numeral_2_eq_2)
qed

section \<open>Copying between files\<close>

text \<open>A byte of a file of the disk as a reader sees it, and the length of the file.\<close>

definition fat_byte :: "('d, 't, 'c, 'q) io_env \<Rightarrow> ('c, 'q) kio \<Rightarrow> nat \<Rightarrow> nat \<Rightarrow> 8 word" where
  "fat_byte env s inode k = (case v_bytes_inodes (k_vfs (io_kfs s)) inode of
     Some (FatFileI f) \<Rightarrow> view (page_cache (ff_meta f))
       (chain_byte (e_dev (io_fs_env env)) (v_fat (k_vfs (io_kfs s))) (ff_clusters f)) k
   | _ \<Rightarrow> 0)"

definition fat_len :: "('c, 'q) kio \<Rightarrow> nat \<Rightarrow> nat" where
  "fat_len s inode = (case v_bytes_inodes (k_vfs (io_kfs s)) inode of Some x \<Rightarrow> data_len (bytes_meta x) | None \<Rightarrow> 0)"

lemma kernel_dest_buffer: "dest_buffer (kernel_dest n) = kernel_read_buffer n"
  by (auto simp: dest_buffer_def kernel_dest_def kernel_read_buffer_def dest_put_def fun_eq_iff)

lemma read_at_direct: "mode meta = Regular \<Longrightarrow> read_at rd direct now buf off meta n m = read_at rd direct' now buf off meta n m"
  by (simp add: read_at_def)

lemma inode_read_fat:
  assumes op: "open_regular s desc i inode (FatFileI f)" and pos: "pos \<le> data_len (ff_meta f)"
    and ok: "chain_ok (e_dev (io_fs_env env)) (v_fat (k_vfs (io_kfs s))) (ff_clusters f)"
    and len: "data_len (ff_meta f) \<le> 536870912 * PAGE_SIZE" and frames: "length buf div PAGE_SIZE + 2 \<le> k_frames (io_kfs s)"
  defines "n \<equiv> min (length buf) (data_len (ff_meta f) - pos)"
  shows "\<exists>pages fr. inode_read_at env (kernel_dest (length buf)) Fresh pos inode s buf
      = Some (Ready (Inr n),
          io_put_inode inode (FatFileI (f\<lparr> ff_meta := (ff_meta f)\<lparr> page_cache := pages, access_time := e_now (io_fs_env env) \<rparr> \<rparr>)) fr s,
          map (\<lambda>k. fat_byte env s inode (pos + k)) [0..<n] @ drop n buf)
    \<and> k_frames (io_kfs s) \<le> fr + (length buf div PAGE_SIZE + 2)
    \<and> view pages (chain_byte (e_dev (io_fs_env env)) (v_fat (k_vfs (io_kfs s))) (ff_clusters f))
      = view (page_cache (ff_meta f)) (chain_byte (e_dev (io_fs_env env)) (v_fat (k_vfs (io_kfs s))) (ff_clusters f))"
proof -
  let ?dev = "e_dev (io_fs_env env)" and ?F = "v_fat (k_vfs (io_kfs s))" and ?cs = "ff_clusters f" and ?meta = "ff_meta f"
  let ?now = "e_now (io_fs_env env)"
  have g: "v_bytes_inodes (k_vfs (io_kfs s)) inode = Some (FatFileI f)" "mode ?meta = Regular" "cache_ok (page_cache ?meta)"
    using op by (auto simp: open_regular_def bytes_meta_def)
  have lim: "data_len ?meta \<le> fat_page_limit ?dev ?F ?cs * PAGE_SIZE" using len ok by (simp add: fat_page_limit_def)
  have "missing (page_cache ?meta) pos (pos + n) \<le> n div PAGE_SIZE + 2"
    using missing_bound [of "page_cache ?meta" pos "pos + n"] by simp
  also have "\<dots> \<le> length buf div PAGE_SIZE + 2" by (simp add: n_def div_le_mono)
  finally have miss: "missing (page_cache ?meta) pos (pos + n) \<le> length buf div PAGE_SIZE + 2" .
  obtain pages fr where
    read: "read_at (fat_read_inode_at ?dev ?F ?cs) (\<lambda>_ m. (Inl Panic, m)) ?now (kernel_read_buffer (length buf)) pos ?meta
        (k_frames (io_kfs s)) buf
      = Some (Inr n, map (\<lambda>k. view (page_cache ?meta) (chain_byte ?dev ?F ?cs) (pos + k)) [0..<n] @ drop n buf,
          ?meta\<lparr> page_cache := pages, access_time := ?now \<rparr>, fr)"
    and c: "view pages (chain_byte ?dev ?F ?cs) = view (page_cache ?meta) (chain_byte ?dev ?F ?cs)"
      "fr = k_frames (io_kfs s) - missing (page_cache ?meta) pos (pos + n)"
    using fat.read_at_ok [OF g(2,3) pos lim refl, where frames = "k_frames (io_kfs s)" and now = ?now and m = buf
        and rd_direct = "\<lambda>_ m. (Inl Panic, m)"] miss frames
    unfolding n_def [symmetric] by auto
  note read = read_at_direct [OF g(2), THEN trans, OF read]
  have "inode_read_at env (kernel_dest (length buf)) Fresh pos inode s buf
      = Some (Ready (Inr n), io_put_inode inode (set_bytes_meta (?meta\<lparr> page_cache := pages, access_time := ?now \<rparr>) (FatFileI f)) fr s,
          map (\<lambda>k. fat_byte env s inode (pos + k)) [0..<n] @ drop n buf)"
    by (rule inode_read_at_regular [OF g(1)])
      (use read in \<open>simp_all add: backend_of_def bytes_meta_def kernel_dest_buffer fat_byte_def g(1)\<close>)
  moreover have "k_frames (io_kfs s) \<le> fr + (length buf div PAGE_SIZE + 2)" using c(2) miss by simp
  ultimately show ?thesis using c(1) by (intro exI [of _ pages] exI [of _ fr]) (simp add: set_bytes_meta_def)
qed

text \<open>Where \<^verbatim>\<open>sendfile64\<close> starts to read and to write, and that its reading half delivers the bytes.\<close>

definition source_pos :: "nat option \<Rightarrow> memory \<Rightarrow> nat \<Rightarrow> ('c, 'q) kio \<Rightarrow> nat" where
  "source_pos offset_ptr m i s = (case offset_ptr of None \<Rightarrow> offset_of i s | Some p \<Rightarrow> unat (rd64 m p))"

definition target_pos :: "file_descriptor \<Rightarrow> nat \<Rightarrow> nat \<Rightarrow> ('c, 'q) kio \<Rightarrow> nat" where
  "target_pos desc j jnode s = (if has_flag (fd_flags desc) O_APPEND then fat_len s jnode else offset_of j s)"

lemma sendfile_read_fat:
  assumes op: "open_regular s src i inode (FatFileI f)"
    and ptr: "\<forall>p. offset_ptr = Some p \<longrightarrow> uv_read uv p 8 = Inr () \<and> uv_write uv p 8 = Inr () \<and> unat (rd64 m p) \<le> data_len (ff_meta f)"
    and ok: "chain_ok (e_dev (io_fs_env env)) (v_fat (k_vfs (io_kfs s))) (ff_clusters f)"
    and len: "data_len (ff_meta f) \<le> 536870912 * PAGE_SIZE" and frames: "length buf div PAGE_SIZE + 2 \<le> k_frames (io_kfs s)"
  defines "pos \<equiv> source_pos offset_ptr m i s"
  defines "n \<equiv> min (length buf) (data_len (ff_meta f) - pos)"
  obtains pages fr a where "sendfile_read env uv src offset_ptr Fresh buf s m
      = Some (Ready (Inr n), map (\<lambda>k. fat_byte env s inode (pos + k)) [0..<n] @ drop n buf,
          (if offset_ptr = None then on_offset i (pos + n) else (\<lambda>s. s))
            (io_put_inode inode (FatFileI (f\<lparr> ff_meta := (ff_meta f)\<lparr> page_cache := pages, access_time := e_now (io_fs_env env) \<rparr> \<rparr>)) fr s),
          case offset_ptr of None \<Rightarrow> m | Some p \<Rightarrow> wr64 p (word_of_nat (pos + n)) m)"
    "k_frames (io_kfs s) \<le> fr + (length buf div PAGE_SIZE + 2)"
    "view pages (chain_byte (e_dev (io_fs_env env)) (v_fat (k_vfs (io_kfs s))) (ff_clusters f))
      = view (page_cache (ff_meta f)) (chain_byte (e_dev (io_fs_env env)) (v_fat (k_vfs (io_kfs s))) (ff_clusters f))"
proof -
  obtain g where g: "fd_file src = SeekableFile i" "k_seekables (io_kfs s) i = Some g" "bytes_inode_of (sk_dentry g) s = Some inode"
    "sk_offset g = offset_of i s" "offset_of i s \<le> data_len (ff_meta f)" "data_len (ff_meta f) < usize_limit"
    using op by (auto simp: open_regular_def bytes_meta_def offset_of_def)
  have pos: "pos \<le> data_len (ff_meta f)" using g(5) ptr by (auto simp: pos_def source_pos_def split: option.split)
  have add: "uadd pos n = Some (pos + n)" using pos g(6) by (simp add: n_def uadd_def)
  from inode_read_fat [OF op pos ok len frames] obtain pages fr where
    r: "inode_read_at env (kernel_dest (length buf)) Fresh pos inode s buf
      = Some (Ready (Inr n),
          io_put_inode inode (FatFileI (f\<lparr> ff_meta := (ff_meta f)\<lparr> page_cache := pages, access_time := e_now (io_fs_env env) \<rparr> \<rparr>)) fr s,
          map (\<lambda>k. fat_byte env s inode (pos + k)) [0..<n] @ drop n buf)"
    and rest: "k_frames (io_kfs s) \<le> fr + (length buf div PAGE_SIZE + 2)"
      "view pages (chain_byte (e_dev (io_fs_env env)) (v_fat (k_vfs (io_kfs s))) (ff_clusters f))
      = view (page_cache (ff_meta f)) (chain_byte (e_dev (io_fs_env env)) (v_fat (k_vfs (io_kfs s))) (ff_clusters f))"
    unfolding n_def by blast
  show thesis
  proof (rule that [OF _ rest])
    show "sendfile_read env uv src offset_ptr Fresh buf s m
      = Some (Ready (Inr n), map (\<lambda>k. fat_byte env s inode (pos + k)) [0..<n] @ drop n buf,
          (if offset_ptr = None then on_offset i (pos + n) else (\<lambda>s. s))
            (io_put_inode inode (FatFileI (f\<lparr> ff_meta := (ff_meta f)\<lparr> page_cache := pages, access_time := e_now (io_fs_env env) \<rparr> \<rparr>)) fr s),
          case offset_ptr of None \<Rightarrow> m | Some p \<Rightarrow> wr64 p (word_of_nat (pos + n)) m)"
    proof (cases offset_ptr)
      case None
      then have "pos = offset_of i s" by (simp add: pos_def source_pos_def)
      then show ?thesis using None r add g(1-4) by (simp add: sendfile_read_def fd_read_def)
    next
      case (Some p)
      then have "pos = unat (rd64 m p)" by (simp add: pos_def source_pos_def)
      then show ?thesis using Some r add g(1-3) ptr by (simp add: sendfile_read_def fd_read_at_def)
    qed
  qed
qed

lemma inode_write_at_regular:
  assumes "v_bytes_inodes (k_vfs (io_kfs s)) inode = Some (FatFileI f)"
    and "write_at (fat_read_inode_at (e_dev (io_fs_env env)) (v_fat (k_vfs (io_kfs s))) (ff_clusters f)) (\<lambda>_. Inl Panic)
      (e_now (io_fs_env env)) b pos (ff_meta f) (k_frames (io_kfs s)) = Some (r, meta', n)"
  shows "inode_write_at env b pos inode s = Some (r, io_put_inode inode (FatFileI (f\<lparr> ff_meta := meta' \<rparr>)) n s)"
  using assms by (simp add: inode_write_at_def backend_of_def bytes_meta_def set_bytes_meta_def)

lemma fd_write_fat:
  assumes op: "open_regular s desc j inode (FatFileI f)"
    and ok: "chain_ok (e_dev (io_fs_env env)) (v_fat (k_vfs (io_kfs s))) (ff_clusters f)"
    and fits: "pos + length bs \<le> 536870912 * PAGE_SIZE" and frames: "length bs div PAGE_SIZE + 2 \<le> k_frames (io_kfs s)"
    and pos: "pos = target_pos desc j inode s"
  shows "\<exists>meta' n. fd_write env (kernel_write_buffer bs) desc s
      = Some (Inr (length bs), on_offset j (pos + length bs) (io_put_inode inode (FatFileI (f\<lparr> ff_meta := meta' \<rparr>)) n (on_offset j pos s)))
    \<and> data_len meta' = max (data_len (ff_meta f)) (pos + length bs)
    \<and> (\<forall>k < length bs. view (page_cache meta') (chain_byte (e_dev (io_fs_env env)) (v_fat (k_vfs (io_kfs s))) (ff_clusters f))
          (pos + k) = bs ! k)
    \<and> (\<forall>k. k div PAGE_SIZE \<notin> touched pos (pos + length bs) \<longrightarrow>
          view (page_cache meta') (chain_byte (e_dev (io_fs_env env)) (v_fat (k_vfs (io_kfs s))) (ff_clusters f)) k
          = view (page_cache (ff_meta f)) (chain_byte (e_dev (io_fs_env env)) (v_fat (k_vfs (io_kfs s))) (ff_clusters f)) k)"
proof -
  let ?dev = "e_dev (io_fs_env env)" and ?F = "v_fat (k_vfs (io_kfs s))" and ?cs = "ff_clusters f"
  let ?s = "on_offset j pos s"
  obtain g where g: "fd_file desc = SeekableFile j" "k_seekables (io_kfs s) j = Some g" "bytes_inode_of (sk_dentry g) s = Some inode"
    "sk_offset g = offset_of j s" "v_bytes_inodes (k_vfs (io_kfs s)) inode = Some (FatFileI f)" "mode (ff_meta f) = Regular"
    "cache_ok (page_cache (ff_meta f))"
    using op by (auto simp: open_regular_def bytes_meta_def offset_of_def)
  have at: "(if has_flag (fd_flags desc) O_APPEND then data_len (bytes_meta (FatFileI f)) else sk_offset g) = pos"
    using g(4,5) by (simp add: pos target_pos_def fat_len_def)
  have lim: "pos + length bs \<le> fat_page_limit ?dev ?F ?cs * PAGE_SIZE" "pos + length bs + PAGE_SIZE \<le> usize_limit"
    using ok fits by (simp_all add: fat_page_limit_def PAGE_SIZE_def usize_limit_def)
  have "missing (page_cache (ff_meta f)) pos (pos + length bs) \<le> k_frames (io_kfs s)"
    using missing_bound [of "page_cache (ff_meta f)" pos "pos + length bs"] frames by simp
  from fat.write_at_ok [OF g(6,7) lim this, where wr_direct = "\<lambda>_. Inl Panic" and now = "e_now (io_fs_env env)"]
  obtain meta' n where w: "write_at (fat_read_inode_at ?dev ?F ?cs) (\<lambda>_. Inl Panic) (e_now (io_fs_env env)) (kernel_write_buffer bs) pos
      (ff_meta f) (k_frames (io_kfs s)) = Some (Inr (length bs), meta', n)"
    and m': "data_len meta' = max (data_len (ff_meta f)) (pos + length bs)"
      "\<forall>i. pos \<le> i \<and> i < pos + length bs \<longrightarrow> view (page_cache meta') (chain_byte ?dev ?F ?cs) i = bs ! (i - pos)"
      "\<forall>i. i div PAGE_SIZE \<notin> touched pos (pos + length bs) \<longrightarrow>
         view (page_cache meta') (chain_byte ?dev ?F ?cs) i = view (page_cache (ff_meta f)) (chain_byte ?dev ?F ?cs) i"
    by (auto simp: touched_def)
  have same: "v_bytes_inodes (k_vfs (io_kfs ?s)) inode = Some (FatFileI f)" "k_frames (io_kfs ?s) = k_frames (io_kfs s)"
    "v_fat (k_vfs (io_kfs ?s)) = ?F"
    using g(2,5) by (simp_all add: on_offset_def set_offset_def)
  have "inode_write_at env (kernel_write_buffer bs) pos inode ?s
      = Some (Inr (length bs), io_put_inode inode (FatFileI (f\<lparr> ff_meta := meta' \<rparr>)) n ?s)"
    by (rule inode_write_at_regular [OF same(1)]) (use w in \<open>simp add: same\<close>)
  moreover have "uadd pos (length bs) = Some (pos + length bs)" using lim(2) by (simp add: uadd_def PAGE_SIZE_def)
  ultimately have "fd_write env (kernel_write_buffer bs) desc s
      = Some (Inr (length bs), on_offset j (pos + length bs) (io_put_inode inode (FatFileI (f\<lparr> ff_meta := meta' \<rparr>)) n ?s))"
    using g(1-3,5) at by (simp add: fd_write_def Let_def)
  then show ?thesis using m' by (intro exI [of _ meta'] exI [of _ n]) auto
qed

text \<open>
  C20: \<^verbatim>\<open>sendfile64\<close> copies.  Take two different files of the disk, open for reading and for
  writing, with sound cluster chains, offsets and offset pointer not behind the ends of their files,
  no position behind two to the power of 41, a pointer that passes its checks, and enough frames for
  the pages of both.
  The call reads from the offset of the source, or from the number at the offset pointer if one is
  given, and writes at the offset of the target, or at its end if it is open with O_APPEND.  It
  returns the number of bytes that the source has from its position on, at most the count; the
  target holds these bytes from its position on, is as long as that needs, and keeps every byte of
  the pages that are not written; its offset is set behind the bytes.  With an offset pointer the
  number there grows by the result and the offset of the source stays; without one the offset of the
  source moves and the memory of the program stays.  The contents of the source do not change.
\<close>

theorem sendfile_copies:
  assumes fds: "fd_get in_fd (k_fds (io_kfs s)) = Some src" "fd_get out_fd (k_fds (io_kfs s)) = Some dst"
      "fd_readable src = Some True" "fd_writable dst = Some True"
    and src: "open_regular s src i inode (FatFileI f)" and dst: "open_regular s dst j jnode (FatFileI g)" and other: "inode \<noteq> jnode"
    and ptr: "\<forall>p. offset_ptr = Some p \<longrightarrow> uv_read uv p 8 = Inr () \<and> uv_write uv p 8 = Inr () \<and> unat (rd64 m p) \<le> data_len (ff_meta f)"
    and ok: "chain_ok (e_dev (io_fs_env env)) (v_fat (k_vfs (io_kfs s))) (ff_clusters f)"
      "chain_ok (e_dev (io_fs_env env)) (v_fat (k_vfs (io_kfs s))) (ff_clusters g)"
    and fits: "data_len (ff_meta f) \<le> 536870912 * PAGE_SIZE" "target_pos dst j jnode s + length buf \<le> 536870912 * PAGE_SIZE"
    and frames: "2 * (length buf div PAGE_SIZE + 2) \<le> k_frames (io_kfs s)"
  defines "a \<equiv> source_pos offset_ptr m i s" and "b \<equiv> target_pos dst j jnode s"
  defines "n \<equiv> min (length buf) (data_len (ff_meta f) - a)"
  shows "\<exists>s'. sys_sendfile64 env uv out_fd in_fd offset_ptr buf s m
      = Some (Ready (Inr n), s', case offset_ptr of None \<Rightarrow> m | Some p \<Rightarrow> wr64 p (word_of_nat (a + n)) m)
    \<and> (\<forall>k < n. fat_byte env s' jnode (b + k) = fat_byte env s inode (a + k))
    \<and> (\<forall>k. k div PAGE_SIZE \<notin> touched b (b + n) \<longrightarrow> fat_byte env s' jnode k = fat_byte env s jnode k)
    \<and> fat_len s' jnode = max (fat_len s jnode) (b + n)
    \<and> offset_of i s' = (if offset_ptr = None then a + n else offset_of i s) \<and> offset_of j s' = b + n
    \<and> fat_byte env s' inode = fat_byte env s inode \<and> fat_len s' inode = fat_len s inode"
proof -
  let ?bs = "map (\<lambda>k. fat_byte env s inode (a + k)) [0..<n]"
  have half: "length buf div PAGE_SIZE + 2 \<le> k_frames (io_kfs s)" using frames by simp
  obtain pages fr where
    read: "sendfile_read env uv src offset_ptr Fresh buf s m
      = Some (Ready (Inr n), ?bs @ drop n buf,
          (if offset_ptr = None then on_offset i (a + n) else (\<lambda>s. s))
            (io_put_inode inode (FatFileI (f\<lparr> ff_meta := (ff_meta f)\<lparr> page_cache := pages, access_time := e_now (io_fs_env env) \<rparr> \<rparr>)) fr s),
          case offset_ptr of None \<Rightarrow> m | Some p \<Rightarrow> wr64 p (word_of_nat (a + n)) m)"
    and c: "k_frames (io_kfs s) \<le> fr + (length buf div PAGE_SIZE + 2)"
      "view pages (chain_byte (e_dev (io_fs_env env)) (v_fat (k_vfs (io_kfs s))) (ff_clusters f))
        = view (page_cache (ff_meta f)) (chain_byte (e_dev (io_fs_env env)) (v_fat (k_vfs (io_kfs s))) (ff_clusters f))"
    using sendfile_read_fat [OF src ptr ok(1) fits(1) half] unfolding n_def a_def by blast
  define s1 where "s1 = (if offset_ptr = None then on_offset i (a + n) else (\<lambda>s. s))
            (io_put_inode inode (FatFileI (f\<lparr> ff_meta := (ff_meta f)\<lparr> page_cache := pages, access_time := e_now (io_fs_env env) \<rparr> \<rparr>)) fr s)"
  obtain x y where x: "k_seekables (io_kfs s) i = Some x" "bytes_inode_of (sk_dentry x) s = Some inode"
    and y: "k_seekables (io_kfs s) j = Some y" "bytes_inode_of (sk_dentry y) s = Some jnode"
    using src dst by (auto simp: open_regular_def)
  have ij: "i \<noteq> j" using x y other by auto
  have inodes: "v_bytes_inodes (k_vfs (io_kfs s)) inode = Some (FatFileI f)" "v_bytes_inodes (k_vfs (io_kfs s)) jnode = Some (FatFileI g)"
    using src dst by (auto simp: open_regular_def)
  have s1: "k_seekables (io_kfs s1) = (k_seekables (io_kfs s))(i \<mapsto> if offset_ptr = None then x\<lparr> sk_offset := a + n \<rparr> else x)"
    "v_bytes_inodes (k_vfs (io_kfs s1)) = (v_bytes_inodes (k_vfs (io_kfs s)))
      (inode \<mapsto> FatFileI (f\<lparr> ff_meta := (ff_meta f)\<lparr> page_cache := pages, access_time := e_now (io_fs_env env) \<rparr> \<rparr>))"
    "k_frames (io_kfs s1) = fr" "v_fat (k_vfs (io_kfs s1)) = v_fat (k_vfs (io_kfs s))" "v_files (k_vfs (io_kfs s1)) = v_files (k_vfs (io_kfs s))"
    using x(1) by (auto simp: s1_def on_offset_def set_offset_def io_put_inode_def put_bytes_inode_def)
  have at: "b = target_pos dst j jnode s1" using ij other by (simp add: b_def target_pos_def offset_of_def fat_len_def s1)
  have dst1: "open_regular s1 dst j jnode (FatFileI g)"
    using dst ij other by (simp add: open_regular_def s1 bytes_inode_of_def)
  have "length ?bs = n" by simp
  moreover have "n \<le> length buf" by (simp add: n_def)
  moreover have "length buf div PAGE_SIZE + 2 \<le> k_frames (io_kfs s1)"
    using le_trans [OF frames c(1)] unfolding s1(3) mult_2 by (rule add_le_imp_le_right)
  moreover have "n div PAGE_SIZE \<le> length buf div PAGE_SIZE" by (rule div_le_mono) (simp add: n_def)
  ultimately obtain meta' fr' where
    wr: "fd_write env (kernel_write_buffer ?bs) dst s1
      = Some (Inr n, on_offset j (b + n) (io_put_inode jnode (FatFileI (g\<lparr> ff_meta := meta' \<rparr>)) fr' (on_offset j b s1)))"
    and m': "data_len meta' = max (data_len (ff_meta g)) (b + n)"
      "\<forall>k < n. view (page_cache meta') (chain_byte (e_dev (io_fs_env env)) (v_fat (k_vfs (io_kfs s))) (ff_clusters g)) (b + k) = ?bs ! k"
      "\<forall>k. k div PAGE_SIZE \<notin> touched b (b + n) \<longrightarrow>
          view (page_cache meta') (chain_byte (e_dev (io_fs_env env)) (v_fat (k_vfs (io_kfs s))) (ff_clusters g)) k
          = view (page_cache (ff_meta g)) (chain_byte (e_dev (io_fs_env env)) (v_fat (k_vfs (io_kfs s))) (ff_clusters g)) k"
    using fd_write_fat [OF dst1 _ _ _ at, of env ?bs] ok(2) fits(2) [folded b_def] by (auto simp: s1(4))
  define s2 where "s2 = on_offset j (b + n) (io_put_inode jnode (FatFileI (g\<lparr> ff_meta := meta' \<rparr>)) fr' (on_offset j b s1))"
  have s2: "k_seekables (io_kfs s2) = (k_seekables (io_kfs s1))(j \<mapsto> y\<lparr> sk_offset := b + n \<rparr>)"
    "v_bytes_inodes (k_vfs (io_kfs s2)) = (v_bytes_inodes (k_vfs (io_kfs s1)))(jnode \<mapsto> FatFileI (g\<lparr> ff_meta := meta' \<rparr>))"
    "v_fat (k_vfs (io_kfs s2)) = v_fat (k_vfs (io_kfs s))"
    using y(1) ij s1(1,4) by (simp_all add: s2_def on_offset_def set_offset_def io_put_inode_def put_bytes_inode_def)
  have "sys_sendfile64 env uv out_fd in_fd offset_ptr buf s m
      = Some (Ready (Inr n), s2, case offset_ptr of None \<Rightarrow> m | Some p \<Rightarrow> wr64 p (word_of_nat (a + n)) m)"
    using fds read [folded s1_def] wr [folded s2_def] by (simp add: sys_sendfile64_def prepare_io_def sendfile_poll_def)
  moreover have "\<forall>k < n. fat_byte env s2 jnode (b + k) = fat_byte env s inode (a + k)"
    using m'(2) by (simp add: fat_byte_def [of env s2] s2)
  moreover have "\<forall>k. k div PAGE_SIZE \<notin> touched b (b + n) \<longrightarrow> fat_byte env s2 jnode k = fat_byte env s jnode k"
    using m'(3) by (simp add: fat_byte_def s2 inodes)
  moreover have "fat_byte env s2 inode = fat_byte env s inode"
    using c(2) other by (simp add: fat_byte_def fun_eq_iff s2 s1 inodes)
  ultimately show ?thesis
    using m'(1) other ij inodes x(1) by (intro exI [of _ s2]) (simp add: fat_len_def offset_of_def s2 s1 bytes_meta_def)
qed

definition demo_empty :: FatFile where
  "demo_empty = \<lparr> ff_meta = \<lparr> ino = 10, mode = Regular, page_cache = [], data_len = 0, access_time = zero_time,
     modify_time = zero_time, change_time = zero_time \<rparr>, ff_clusters = [] \<rparr>"

definition demo_two_files :: "(8 word list \<times> bool, 8 word list) kio" where
  "demo_two_files = demo_kio\<lparr> io_kfs := demo_kfs\<lparr> k_vfs := demo_vfs\<lparr>
       v_files := [7 \<mapsto> \<lparr> db_parent = 0, db_name = ''f'', db_inode = 9 \<rparr>, 8 \<mapsto> \<lparr> db_parent = 0, db_name = ''g'', db_inode = 10 \<rparr>],
       v_bytes_inodes := [9 \<mapsto> demo_file, 10 \<mapsto> FatFileI demo_empty] \<rparr>,
       k_fds := \<lparr> files = [(3, fd_new (SeekableFile 0) O_RDONLY), (4, fd_new (SeekableFile 1) O_WRONLY)],
         fd_rlimit = \<lparr> rlim_curr = 16, rlim_max = 16 \<rparr> \<rparr>,
       k_seekables := [0 \<mapsto> \<lparr> sk_dentry = 7, sk_offset = 0 \<rparr>, 1 \<mapsto> \<lparr> sk_dentry = 8, sk_offset = 0 \<rparr>] \<rparr> \<rparr>"

definition demo_full :: FatFile where
  "demo_full = (case demo_file of FatFileI f \<Rightarrow> f | _ \<Rightarrow> demo_empty)"

lemma demo_file_full: "demo_file = FatFileI demo_full"
  by (simp add: demo_full_def demo_file_def)

lemma demo_two_open:
  "open_regular demo_two_files (fd_new (SeekableFile 0) O_RDONLY) 0 9 (FatFileI demo_full)"
  "open_regular demo_two_files (fd_new (SeekableFile 1) O_WRONLY) 1 10 (FatFileI demo_empty)"
  using demo_cache_ok
  by (simp_all add: open_regular_def demo_two_files_def demo_kio_def bytes_inode_of_def fd_new_def demo_file_full)
    (simp_all add: demo_full_def demo_empty_def demo_file_def bytes_meta_def usize_limit_def cache_ok_def)

theorem sendfile_copies_witness:
  "\<exists>s'. sys_sendfile64 demo_io_env demo_uv 4 3 (Some 256) [0, 0, 0, 0, 0] demo_two_files (wr64 256 1 (\<lambda>_. 0))
      = Some (Ready (Inr 2), s', wr64 256 3 (wr64 256 1 (\<lambda>_. 0)))
    \<and> map (fat_byte demo_io_env s' 10) [0..<2] = [2, 3] \<and> fat_len s' 10 = 2 \<and> offset_of 0 s' = 0"
proof -
  let ?s = demo_two_files and ?buf = "[0, 0, 0, 0, 0] :: bytes" and ?m = "wr64 256 1 (\<lambda>_. 0)"
  have fds: "fd_get 3 (k_fds (io_kfs ?s)) = Some (fd_new (SeekableFile 0) O_RDONLY)"
    "fd_get 4 (k_fds (io_kfs ?s)) = Some (fd_new (SeekableFile 1) O_WRONLY)"
    "fd_readable (fd_new (SeekableFile 0) O_RDONLY) = Some True" "fd_writable (fd_new (SeekableFile 1) O_WRONLY) = Some True"
    by (simp_all add: demo_two_files_def demo_kio_def fd_get_def bt_get_Cons fd_readable_def fd_writable_def fd_new_def read_write_def
        has_flag_def O_RDONLY_def O_WRONLY_def O_APPEND_def)
  have F: "v_fat (k_vfs (io_kfs ?s)) = demo_fat" "k_frames (io_kfs ?s) = 8"
    by (simp_all add: demo_two_files_def demo_kio_def demo_vfs_def demo_kfs_def)
  have dev: "e_dev (io_fs_env demo_io_env) = demo_disk" by (simp add: demo_io_env_def)
  have ok: "chain_ok demo_disk demo_fat (ff_clusters demo_full)" "chain_ok demo_disk demo_fat (ff_clusters demo_empty)"
    using demo_chain_ok by (simp_all add: demo_full_def demo_file_def demo_empty_def chain_ok_def)
  have off: "offset_of 0 ?s = 0" "offset_of 1 ?s = 0" "data_len (ff_meta demo_full) = 3" "fat_len ?s 10 = 0"
    by (simp_all add: offset_of_def demo_two_files_def demo_kio_def demo_full_def demo_file_def fat_len_def bytes_meta_def demo_empty_def)
  have n: "min (length ?buf) (3 - 1) = 2" by simp
  have pos: "source_pos (Some 256) ?m 0 ?s = 1" "target_pos (fd_new (SeekableFile 1) O_WRONLY) 1 10 ?s = 0"
    using off by (simp_all add: source_pos_def rd64_wr64_same target_pos_def fd_new_def has_flag_def O_WRONLY_def O_APPEND_def)
  have ptr: "\<forall>p. Some 256 = Some p \<longrightarrow> uv_read demo_uv p 8 = Inr () \<and> uv_write demo_uv p 8 = Inr ()
      \<and> unat (rd64 ?m p) \<le> data_len (ff_meta demo_full)" by (simp add: demo_uv_def rd64_wr64_same off)
  note copy = sendfile_copies [OF fds demo_two_open _ ptr ok [folded F(1) dev], of ?buf, unfolded pos off F(2) n]
  have "9 \<noteq> (10 :: nat)" "3 \<le> 536870912 * PAGE_SIZE" "0 + length ?buf \<le> 536870912 * PAGE_SIZE" "2 * (length ?buf div PAGE_SIZE + 2) \<le> 8"
    by (simp_all add: PAGE_SIZE_def)
  from copy [OF this] obtain s' where
    s': "sys_sendfile64 demo_io_env demo_uv 4 3 (Some 256) ?buf ?s ?m = Some (Ready (Inr 2), s', wr64 256 (word_of_nat (1 + 2)) ?m)"
      "\<forall>k < 2. fat_byte demo_io_env s' 10 (0 + k) = fat_byte demo_io_env ?s 9 (1 + k)" "fat_len s' 10 = max 0 (0 + 2)" "offset_of 0 s' = 0"
    unfolding option.case by (elim exE conjE) (rule that; simp)
  have "fat_byte demo_io_env ?s 9 k = [1, 2, 3] ! k" if "k < 3" for k
  proof -
    have "[1, 2, 3 :: 8 word] ! k = demo_page ! k"
      using that unfolding demo_page_def by (simp only: nth_append) simp
    then show ?thesis using that
      by (simp add: fat_byte_def demo_two_files_def demo_kio_def demo_file_def view_def cached_page_def bt_get_Cons PAGE_SIZE_def)
  qed
  then have v: "fat_byte demo_io_env s' 10 0 = 2" "fat_byte demo_io_env s' 10 1 = 3" using s'(2) by simp_all
  have "map (fat_byte demo_io_env s' 10) [0..<2] = [fat_byte demo_io_env s' 10 0, fat_byte demo_io_env s' 10 1]"
    by (simp add: upt_rec numeral_2_eq_2)
  also have "\<dots> = [2, 3]" using v by simp
  finally show ?thesis using s'(1,3,4) by auto
qed

end
