(* ===== verification/Dirents.thy ===== *)
theory Dirents
  imports FsSyscalls
begin

text \<open>
  Listing a directory: \<^verbatim>\<open>DirFile::getdirents\<close> of \<^verbatim>\<open>crates/libkernel/src/fs/file.rs\<close> and the call
  \<^verbatim>\<open>getdents64\<close>.  The records are written into the user's buffer one after another, each at an
  address that is a multiple of the alignment of \<^verbatim>\<open>Dirent64\<close>, and an open directory remembers how
  many children it has delivered.

  A decoder of the format (\<^verbatim>\<open>parse_dirents\<close>) is the reference: what a call writes decodes to the
  next children of the directory, and calls that follow each other deliver all of them.
\<close>

section \<open>Writing records\<close>

fun to_le_bytes :: "nat \<Rightarrow> nat \<Rightarrow> bytes" where
  "to_le_bytes 0 x = []"
| "to_le_bytes (Suc n) x = word_of_nat x # to_le_bytes n (x div 256)"

definition D_NAME_OFFSET :: nat where "D_NAME_OFFSET = 19"

definition DIRENT_ALIGN :: nat where "DIRENT_ALIGN = 8"

text \<open>The fields of a record at a position of the buffer; \<^verbatim>\<open>d_off\<close>, the eight bytes behind the inode
  number, is left as it is.\<close>

definition put_dirent :: "bytes \<Rightarrow> nat \<Rightarrow> nat \<Rightarrow> InodeMeta \<Rightarrow> bytes \<Rightarrow> bytes option" where
  "put_dirent buf pos d_reclen meta name = do {
     buf \<leftarrow> blit buf pos (to_le_bytes 8 (ino meta));
     buf \<leftarrow> blit buf (pos + 16) (to_le_bytes 2 d_reclen);
     buf \<leftarrow> blit buf (pos + 18) [ucast (drop_bit 12 (stat_mode (mode meta)))];
     buf \<leftarrow> blit buf (pos + D_NAME_OFFSET) name;
     blit buf (pos + D_NAME_OFFSET + length name) [0]
   }"

fun dirent_loop :: "vfs \<Rightarrow> nat \<Rightarrow> (string \<times> dref) list \<Rightarrow> nat \<Rightarrow> nat \<Rightarrow> bytes \<Rightarrow> (nat \<times> nat \<times> bytes) option" where
  "dirent_loop v addr [] pos dirent_index buf = Some (pos, dirent_index, buf)"
| "dirent_loop v addr ((name, child) # children) pos dirent_index buf = do {
     let name_len = min (length name) NAME_MAX;
     rec_end \<leftarrow> uadd (addr + pos) (D_NAME_OFFSET + name_len + 1);
     if addr + length buf < rec_end then Some (pos, dirent_index, buf)
     else do {
       next_rec \<leftarrow> next_multiple_of rec_end DIRENT_ALIGN;
       let d_reclen = next_rec - (addr + pos);
       meta \<leftarrow> dref_meta v child;
       buf \<leftarrow> put_dirent buf pos d_reclen meta (take name_len (as_bytes name));
       dirent_loop v addr children (pos + d_reclen) (dirent_index + 1) buf
     }
   }"

definition getdirents :: "('d, 't) fs_env \<Rightarrow> nat \<Rightarrow> nat \<Rightarrow> bytes \<Rightarrow> kfs \<Rightarrow> (nat \<times> bytes \<times> kfs) option" where
  "getdirents env i addr buf k = do {
     dir \<leftarrow> k_dirs k i;
     v \<leftarrow> dentry_read_dir env (df_dentry dir) (k_vfs k);
     d \<leftarrow> v_dirs v (df_dentry dir);
     (n, dirent_index, buf) \<leftarrow> dirent_loop v addr (drop (df_index dir) (dd_children d)) 0 (df_index dir) buf;
     Some (n, buf, k\<lparr> k_vfs := v, k_dirs := (k_dirs k)(i \<mapsto> dir\<lparr> df_index := dirent_index \<rparr>) \<rparr>)
   }"

text \<open>The arguments are the address of the user's buffer, its bytes and what the check of the buffer
  gives; the result comes with the bytes of the buffer after the call.\<close>

definition sys_getdents64 :: "('d, 't) fs_env \<Rightarrow> nat \<Rightarrow> nat \<Rightarrow> bytes \<Rightarrow> errno + unit \<Rightarrow> kfs
    \<Rightarrow> ((errno + nat) \<times> bytes \<times> kfs) option" where
  "sys_getdents64 env fd addr buf checked k = (case map_option fd_file (fd_get fd (k_fds k)) of
     Some (DirFile i) \<Rightarrow> (case checked of
         Inl e \<Rightarrow> Some (Inl e, buf, k)
       | Inr _ \<Rightarrow> map_option (\<lambda>(n, buf, k). (Inr n, buf, k)) (getdirents env i addr buf k))
   | _ \<Rightarrow> Some (Inl EBADF, buf, k))"

section \<open>The format\<close>

record dirent =
  d_ino :: nat
  d_type :: "8 word"
  d_name :: bytes

definition dirent_at :: "bytes \<Rightarrow> dirent" where
  "dirent_at bs = \<lparr> d_ino = from_le_bytes (take 8 bs), d_type = bs ! 18,
     d_name = takeWhile (\<lambda>b. b \<noteq> 0) (drop D_NAME_OFFSET bs) \<rparr>"

text \<open>A record says how long it is, and the next one follows it.\<close>

function parse_dirents :: "bytes \<Rightarrow> dirent list option" where
  "parse_dirents bs =
    (if bs = [] then Some []
     else (let n = from_le_bytes (slice bs 16 18) in
       if 20 \<le> n \<and> n \<le> length bs
       then map_option (Cons (dirent_at (take n bs))) (parse_dirents (drop n bs))
       else None))"
  by pat_completeness auto

termination
  by (relation "measure length") auto

declare parse_dirents.simps [simp del]

text \<open>The record a child should get.\<close>

definition child_dirent :: "vfs \<Rightarrow> string \<times> dref \<Rightarrow> dirent" where
  "child_dirent v c = (case dref_meta v (snd c) of
     None \<Rightarrow> \<lparr> d_ino = 0, d_type = 0, d_name = [] \<rparr>
   | Some meta \<Rightarrow> \<lparr> d_ino = ino meta, d_type = ucast (drop_bit 12 (stat_mode (mode meta))), d_name = as_bytes (fst c) \<rparr>)"

definition rec_len :: "string \<Rightarrow> nat" where
  "rec_len name = (D_NAME_OFFSET + length name + 1 + 7) div 8 * 8"

definition name_fits :: "string \<Rightarrow> bool" where
  "name_fits name \<longleftrightarrow> length name \<le> NAME_MAX \<and> 0 \<notin> set (as_bytes name)"

text \<open>How many of the children fit.\<close>

fun dirents_fit :: "nat \<Rightarrow> (string \<times> dref) list \<Rightarrow> nat" where
  "dirents_fit room [] = 0"
| "dirents_fit room ((name, c) # cs) = (if room < rec_len name then 0 else Suc (dirents_fit (room - rec_len name) cs))"

section \<open>A record round trips\<close>

lemma length_to_le_bytes [simp]: "length (to_le_bytes n x) = n"
  by (induction n arbitrary: x) auto

lemma from_to_le_bytes: "x < 256 ^ n \<Longrightarrow> from_le_bytes (to_le_bytes n x) = x"
proof (induction n arbitrary: x)
  case (Suc n)
  have "x div 256 < 256 ^ n" using Suc.prems by (simp add: div_less_iff_less_mult mult.commute)
  moreover have "unat (word_of_nat x :: 8 word) = x mod 256" by (simp add: unat_of_nat)
  ultimately show ?case using Suc.IH by simp
qed simp

lemma blit_length: "blit buf i bs = Some buf' \<Longrightarrow> length buf' = length buf"
  by (auto simp: blit_def split: if_splits)

lemma blit_Some: "i + length bs \<le> length buf \<Longrightarrow> blit buf i bs = Some (take i buf @ bs @ drop (i + length bs) buf)"
  by (simp add: blit_def)

lemma split_block: "n \<le> length xs \<Longrightarrow> \<exists>a b. xs = a @ b \<and> length a = n"
  by (metis append_take_drop_id length_take min.absorb2)

lemma split_blocks:
  assumes "i + j + k + l + m \<le> length xs"
  obtains a b c d e r where "xs = a @ b @ c @ d @ e @ r" "length a = i" "length b = j" "length c = k" "length d = l" "length e = m"
proof -
  obtain a r1 where a: "xs = a @ r1" "length a = i" using split_block [of i xs] assms by auto
  obtain b r2 where b: "r1 = b @ r2" "length b = j" using split_block [of j r1] assms a by auto
  obtain c r3 where c: "r2 = c @ r3" "length c = k" using split_block [of k r2] assms a b by auto
  obtain d r4 where d: "r3 = d @ r4" "length d = l" using split_block [of l r3] assms a b c by auto
  obtain e r where "r4 = e @ r" "length e = m" using split_block [of m r4] assms a b c d by auto
  then show thesis using that a b c d by simp
qed

text \<open>The bytes of a record, up to the field that is not written and the padding.\<close>

lemma put_dirent_eq:
  assumes "pos + D_NAME_OFFSET + length name + 1 \<le> length buf"
  shows "put_dirent buf pos n meta name = Some (take pos buf
    @ to_le_bytes 8 (ino meta) @ take 8 (drop (pos + 8) buf) @ to_le_bytes 2 n
    @ ucast (drop_bit 12 (stat_mode (mode meta))) # name @ 0 # drop (pos + D_NAME_OFFSET + length name + 1) buf)"
proof -
  obtain a b c d f r where buf: "buf = a @ b @ c @ d @ f @ r"
    and l: "length a = pos" "length b = 8" "length c = 8" "length d = 2" "length f = length name + 2"
    using assms by (auto simp: D_NAME_OFFSET_def intro: split_blocks [of pos 8 8 2 "length name + 2" buf])
  obtain e f' g where f: "f = e # f' @ [g]" and l': "length f' = length name"
    using l(5) by (cases f; cases "tl f" rule: rev_cases) auto
  show ?thesis
    unfolding put_dirent_def buf f using l l'
    by (simp add: blit_def D_NAME_OFFSET_def del: to_le_bytes.simps)
qed

lemma round_up_less: "m mod 8 = 0 \<Longrightarrow> m < (x + 7) div 8 * 8 \<longleftrightarrow> m < (x :: nat)"
proof -
  assume "m mod 8 = 0"
  then obtain q where q: "m = 8 * q" by auto
  have "Suc q \<le> (x + 7) div 8 \<longleftrightarrow> Suc q * 8 \<le> x + 7" by (rule less_eq_div_iff_mult_less_eq) simp
  then show ?thesis unfolding q by linarith
qed

lemma next_multiple_of_8:
  assumes "base mod 8 = 0" "base + x + 8 < usize_limit"
  shows "next_multiple_of (base + x) 8 = Some (base + (x + 7) div 8 * 8)"
proof -
  obtain q where q: "base = 8 * q" using assms(1) by auto
  have m: "x mod 8 < 8" "x = 8 * (x div 8) + x mod 8" by simp_all
  have "(x + 7) div 8 = x div 8 + (x mod 8 + 7) div 8" using div_mult_self3 [of 8 "x div 8" "x mod 8 + 7"] by simp
  moreover have "(x mod 8 + 7) div 8 = (if x mod 8 = 0 then 0 else 1)"
    using m(1) by (auto intro: div_nat_eqI)
  ultimately have "(x + 7) div 8 * 8 = x + (if x mod 8 = 0 then 0 else 8 - x mod 8)"
    using m by (cases "x mod 8 = 0"; simp; linarith)
  then show ?thesis using assms(2) m(1) by (auto simp: next_multiple_of_def uadd_def q add.assoc)
qed

lemma rec_len_bounds: "name_fits name \<Longrightarrow> 20 + length name \<le> rec_len name \<and> rec_len name < 300"
proof -
  have "n \<le> 255 \<Longrightarrow> 20 + n \<le> (27 + n) div 8 * 8 \<and> (27 + n) div 8 * 8 < 300" for n :: nat
    using div_mult_mod_eq [of "27 + n" 8] mod_less_divisor [of 8 "27 + n"] by linarith
  then show "name_fits name \<Longrightarrow> 20 + length name \<le> rec_len name \<and> rec_len name < 300"
    by (simp add: name_fits_def rec_len_def D_NAME_OFFSET_def NAME_MAX_def)
qed

lemma rec_len_mod: "rec_len name mod 8 = 0"
  by (simp add: rec_len_def)

lemma parse_first:
  assumes name: "name_fits name" and meta: "dref_meta v c = Some meta" "ino meta < 2 ^ 64"
    and len: "length off = 8" "length pad = rec_len name - 20 - length name"
  shows "parse_dirents (to_le_bytes 8 (ino meta) @ off @ to_le_bytes 2 (rec_len name)
      @ ucast (drop_bit 12 (stat_mode (mode meta))) # as_bytes name @ 0 # pad @ rest)
    = map_option (Cons (child_dirent v (name, c))) (parse_dirents rest)"
proof -
  let ?t = "ucast (drop_bit 12 (stat_mode (mode meta))) :: 8 word"
  let ?r = "to_le_bytes 8 (ino meta) @ off @ to_le_bytes 2 (rec_len name) @ ?t # as_bytes name @ 0 # pad"
  note b = rec_len_bounds [OF name]
  have lr: "length ?r = rec_len name" using len b by (simp, linarith)
  have reclen: "from_le_bytes (slice (?r @ rest) 16 18) = rec_len name"
    using len(1) b from_to_le_bytes [of "rec_len name" 2] by (simp add: slice_def del: to_le_bytes.simps)
  have nz: "\<forall>x \<in> set (as_bytes name). x \<noteq> 0" using name by (auto simp: name_fits_def)
  have "takeWhile (\<lambda>b. b \<noteq> 0) (as_bytes name @ 0 # pad) = as_bytes name" using nz by (simp add: takeWhile_append2)
  then have "dirent_at ?r = child_dirent v (name, c)"
    using len(1) meta from_to_le_bytes [of "ino meta" 8]
    by (simp add: dirent_at_def child_dirent_def D_NAME_OFFSET_def nth_append del: to_le_bytes.simps)
  then have "parse_dirents (?r @ rest) = map_option (Cons (child_dirent v (name, c))) (parse_dirents rest)"
    using reclen lr b by (subst parse_dirents.simps) (simp add: Let_def del: to_le_bytes.simps append_assoc)
  then show ?thesis by simp
qed

lemma dirent_loop_spec:
  assumes "addr mod 8 = 0" "addr + length buf + 300 < usize_limit" "length buf mod 8 = 0"
    and "\<forall>(name, c) \<in> set cs. name_fits name \<and> (\<exists>meta. dref_meta v c = Some meta \<and> ino meta < 2 ^ 64)"
    and "pos mod 8 = 0" "pos \<le> length buf"
  shows "\<exists>n buf'. dirent_loop v addr cs pos idx buf = Some (n, idx + dirents_fit (length buf - pos) cs, buf')
    \<and> pos \<le> n \<and> n \<le> length buf \<and> length buf' = length buf \<and> take pos buf' = take pos buf \<and> drop n buf' = drop n buf
    \<and> parse_dirents (drop pos (take n buf')) = Some (map (child_dirent v) (take (dirents_fit (length buf - pos) cs) cs))"
  using assms
proof (induction cs arbitrary: pos idx buf)
  case Nil
  then show ?case by (simp add: parse_dirents.simps)
next
  case (Cons x cs)
  obtain name c where x: "x = (name, c)" by fastforce
  obtain meta where name: "name_fits name" and meta: "dref_meta v c = Some meta" "ino meta < 2 ^ 64"
    using Cons.prems(4) by (auto simp: x)
  note b = rec_len_bounds [OF name]
  have ll: "min (length name) NAME_MAX = length name" using name by (simp add: name_fits_def)
  have base: "(addr + pos) mod 8 = 0" using Cons.prems(1,5) by presburger
  have add: "uadd (addr + pos) (D_NAME_OFFSET + length name + 1) = Some (addr + pos + (D_NAME_OFFSET + length name + 1))"
    using Cons.prems(2,6) b by (simp add: uadd_def D_NAME_OFFSET_def)
  have room: "(length buf - pos) mod 8 = 0" using Cons.prems(3,5,6) by presburger
  have brk: "addr + length buf < addr + pos + (D_NAME_OFFSET + length name + 1) \<longleftrightarrow> length buf - pos < rec_len name"
    using round_up_less [OF room, of "D_NAME_OFFSET + length name + 1"] Cons.prems(6) by (simp add: rec_len_def) linarith
  have next_rec: "next_multiple_of (addr + pos + (D_NAME_OFFSET + length name + 1)) DIRENT_ALIGN = Some (addr + pos + rec_len name)"
    using next_multiple_of_8 [OF base, of "D_NAME_OFFSET + length name + 1"] Cons.prems(2,6) name
    by (simp add: DIRENT_ALIGN_def rec_len_def D_NAME_OFFSET_def name_fits_def NAME_MAX_def)
  let ?p = "pos + rec_len name"
  have step: "dirent_loop v addr (x # cs) pos idx buf = (if length buf - pos < rec_len name then Some (pos, idx, buf)
      else do { meta \<leftarrow> dref_meta v c; buf \<leftarrow> put_dirent buf pos (rec_len name) meta (as_bytes name);
                dirent_loop v addr cs ?p (idx + 1) buf })"
    unfolding x dirent_loop.simps Let_def ll add bind.bind_lunit brk next_rec by simp
  show ?case
  proof (cases "length buf - pos < rec_len name")
    case True
    then show ?thesis using Cons.prems(6) step by (simp add: x parse_dirents.simps)
  next
    case False
    obtain rest where rest: "put_dirent buf pos (rec_len name) meta (as_bytes name) = Some rest" "length rest = length buf"
      "take pos rest = take pos buf" "drop ?p rest = drop ?p buf"
      "\<exists>off pad. length off = 8 \<and> length pad = rec_len name - 20 - length name \<and> drop pos (take ?p rest)
        = to_le_bytes 8 (ino meta) @ off @ to_le_bytes 2 (rec_len name)
          @ ucast (drop_bit 12 (stat_mode (mode meta))) # as_bytes name @ 0 # pad"
    proof -
      obtain a t where a: "buf = a @ t" "length a = pos" using split_block [of pos buf] Cons.prems(6) by auto
      obtain o' r where o': "t = o' @ r" "length o' = rec_len name" using split_block [of "rec_len name" t] False a by auto
      obtain o1 t1 where o1: "o' = o1 @ t1" "length o1 = 8" using split_block [of 8 o'] b o' by auto
      obtain o2 t2 where o2: "t1 = o2 @ t2" "length o2 = 8" using split_block [of 8 t1] b o' o1 by auto
      obtain o3 o4 where o3: "t2 = o3 @ o4" "length o3 = 4 + length name" using split_block [of "4 + length name" t2] b o' o1 o2 by auto
      obtain R where R: "R = to_le_bytes 8 (ino meta) @ o2 @ to_le_bytes 2 (rec_len name)
          @ ucast (drop_bit 12 (stat_mode (mode meta))) # as_bytes name @ 0 # o4" by blast
      have o4: "length o4 = rec_len name - 20 - length name" using o' o1 o2 o3 by simp
      have lR: "length R = rec_len name" using o2 o4 b by (simp add: R) linarith
      have "put_dirent buf pos (rec_len name) meta (as_bytes name) = Some (a @ R @ r)"
        using put_dirent_eq [of pos "as_bytes name" buf "rec_len name" meta] a o' o1 o2 o3
        by (simp add: R D_NAME_OFFSET_def del: to_le_bytes.simps)
      then show thesis
      proof (rule that)
        show "length (a @ R @ r) = length buf" "take pos (a @ R @ r) = take pos buf" "drop ?p (a @ R @ r) = drop ?p buf"
          using a o' lR by simp_all
        have "drop pos (take ?p (a @ R @ r)) = R" using a lR by simp
        then show "\<exists>off pad. length off = 8 \<and> length pad = rec_len name - 20 - length name \<and> drop pos (take ?p (a @ R @ r))
          = to_le_bytes 8 (ino meta) @ off @ to_le_bytes 2 (rec_len name)
            @ ucast (drop_bit 12 (stat_mode (mode meta))) # as_bytes name @ 0 # pad"
          using R o2(2) o4 by blast
      qed
    qed
    obtain off pad where first: "length off = 8" "length pad = rec_len name - 20 - length name"
      "drop pos (take ?p rest) = to_le_bytes 8 (ino meta) @ off @ to_le_bytes 2 (rec_len name)
          @ ucast (drop_bit 12 (stat_mode (mode meta))) # as_bytes name @ 0 # pad"
      using rest(5) by blast
    have "?p mod 8 = 0" "?p \<le> length rest" using Cons.prems(5,6) False rec_len_mod rest(2) by (auto simp: mod_add_eq)
    then obtain n buf' where rec: "dirent_loop v addr cs ?p (idx + 1) rest
        = Some (n, idx + 1 + dirents_fit (length rest - ?p) cs, buf')"
      and n: "?p \<le> n" "n \<le> length rest" "length buf' = length rest" "take ?p buf' = take ?p rest" "drop n buf' = drop n rest"
      and parse: "parse_dirents (drop ?p (take n buf')) = Some (map (child_dirent v) (take (dirents_fit (length rest - ?p) cs) cs))"
      using Cons.IH [of rest ?p "idx + 1"] Cons.prems rest(2) by auto
    have fit: "dirents_fit (length buf - pos) (x # cs) = Suc (dirents_fit (length rest - ?p) cs)"
      using False by (simp add: x rest(2))
    have "drop n rest = drop n buf"
      using n(1) rest(4) by (metis drop_drop le_add_diff_inverse2)
    moreover have "take pos buf' = take pos buf"
      using n(1,4) rest(3) by (metis le_add1 take_take min.absorb1)
    moreover have "drop pos (take n buf') = drop pos (take ?p rest) @ drop ?p (take n buf')"
    proof -
      have "take n buf' = take ?p buf' @ drop ?p (take n buf')"
        using n(1) by (metis append_take_drop_id min.absorb1 take_take)
      then show ?thesis using n(2,3) \<open>?p \<le> length rest\<close> unfolding n(4)
        by (metis append_take_drop_id drop_append diff_is_0_eq drop0 le_add1 length_take min.absorb2)
    qed
    moreover have "parse_dirents (drop pos (take ?p rest) @ drop ?p (take n buf'))
        = map_option (Cons (child_dirent v (name, c))) (parse_dirents (drop ?p (take n buf')))"
      unfolding first(3) using parse_first [OF name meta first(1,2)] by simp
    ultimately show ?thesis
      using rec n rest(1,2) step False meta(1) parse unfolding fit by (auto simp: x)
  qed
qed

section \<open>Listing a directory\<close>

lemma dref_meta_linked:
  assumes "tree_ok v" "v_dirs v a = Some d" "(name, c) \<in> set (dd_children d)"
  shows "dref_meta v c \<noteq> None"
proof -
  note ok = tree_ok_dir [OF assms(1,2)]
  have "bt_get (dd_children d) name = Some c" using assms(3) ok(2) by (simp add: bt_get_in)
  from ok(5) [OF this] have l: "linked v a name c" .
  show ?thesis
  proof (cases c)
    case (DDir b)
    then obtain e where "v_dirs v b = Some e" using l by (auto simp: linked_def split: option.splits)
    moreover then obtain i where "v_dir_inodes v (dd_inode e) = Some i" using tree_ok_dir(4) [OF assms(1)] by blast
    ultimately show ?thesis using DDir by (simp add: dref_meta_def)
  next
    case (DBytes b)
    then obtain f where "v_files v b = Some f" using l by (auto simp: linked_def split: option.splits)
    moreover then obtain i where "v_bytes_inodes v (db_inode f) = Some i"
      using tree_okD(2) [OF assms(1)] by (auto simp: file_ok_def)
    ultimately show ?thesis using DBytes by (simp add: dref_meta_def)
  qed
qed

lemma dirents_fit_le: "dirents_fit room cs \<le> length cs"
  by (induction room cs rule: dirents_fit.induct) auto

lemma dirents_fit_pos: "cs \<noteq> [] \<Longrightarrow> name_fits (fst (hd cs)) \<Longrightarrow> 300 \<le> room \<Longrightarrow> 0 < dirents_fit room cs"
  using rec_len_bounds by (cases cs) fastforce+

lemma kfs_ok_dir_index:
  assumes "kfs_ok k" "k_dirs k i = Some f"
  shows "kfs_ok (k\<lparr> k_dirs := (k_dirs k)(i \<mapsto> f\<lparr> df_index := j \<rparr>) \<rparr>)"
proof -
  have "file_open (k\<lparr> k_dirs := (k_dirs k)(i \<mapsto> f\<lparr> df_index := j \<rparr>) \<rparr>) = file_open k"
    using assms(2) by (intro ext) (simp add: file_open_def split: kfile.split)
  then show ?thesis using assms unfolding kfs_ok_def by auto
qed

text \<open>The loop stops at a record that does not fit, and at no other.\<close>

lemma dirent_loop_index: "dirent_loop v addr cs pos idx buf = Some (n, idx', buf') \<Longrightarrow> idx \<le> idx'"
  by (induction cs arbitrary: pos idx buf) (fastforce simp: bind_eq_Some_conv Let_def split: if_splits)+

lemma put_dirent_length: "put_dirent buf pos n meta name = Some buf' \<Longrightarrow> length buf' = length buf"
  by (auto simp: put_dirent_def bind_eq_Some_conv dest!: blit_length)

lemma dirent_loop_stops:
  "dirent_loop v addr cs pos idx buf = Some (n, idx + m, buf') \<Longrightarrow> m < length cs \<Longrightarrow>
     length buf < n + (D_NAME_OFFSET + min (length (fst (cs ! m))) NAME_MAX + 1)"
proof (induction cs arbitrary: pos idx buf m)
  case (Cons x cs)
  obtain name c where x: "x = (name, c)" by (cases x)
  let ?e = "D_NAME_OFFSET + min (length name) NAME_MAX + 1"
  show ?case
  proof (cases "addr + length buf < addr + pos + ?e")
    case True
    then show ?thesis using Cons.prems by (auto simp: x uadd_def Let_def bind_eq_Some_conv split: if_splits)
  next
    case False
    then obtain r buf1 where r: "dirent_loop v addr cs (pos + r) (idx + 1) buf1 = Some (n, idx + m, buf')" "length buf1 = length buf"
      using Cons.prems(1) by (auto simp: x uadd_def Let_def bind_eq_Some_conv dest: put_dirent_length split: if_splits)
    have "idx + 1 \<le> idx + m" using dirent_loop_index [OF r(1)] .
    then obtain k where k: "m = Suc k" by (cases m) auto
    then show ?thesis using Cons.IH [of "pos + r" "idx + 1" buf1 k] r Cons.prems(2) by simp
  qed
qed simp

text \<open>The children that reading the directory leads to, and what a call needs of them: names that
  fit a record, and inode numbers of 64 bits.\<close>

definition listed :: "('d, 't) fs_env \<Rightarrow> nat \<Rightarrow> vfs \<Rightarrow> (string \<times> dref) list option" where
  "listed env a v = do { v' \<leftarrow> dentry_read_dir env a v; d \<leftarrow> v_dirs v' a; Some (dd_children d) }"

definition dirents_ok :: "('d, 't) fs_env \<Rightarrow> nat \<Rightarrow> vfs \<Rightarrow> bool" where
  "dirents_ok env a v = (case dentry_read_dir env a v of
     None \<Rightarrow> False
   | Some v' \<Rightarrow> (case v_dirs v' a of
       None \<Rightarrow> False
     | Some d \<Rightarrow> \<forall>(name, c) \<in> set (dd_children d). name_fits name
         \<and> (case dref_meta v' c of None \<Rightarrow> True | Some meta \<Rightarrow> ino meta < 2 ^ 64)))"

text \<open>
  C28: Listing a directory.  Let a descriptor refer to an open directory that can be read, whose
  names fit a record, and let the buffer be aligned, at an address of the user.  The call
  succeeds; the bytes it reports lie in the buffer and decode to the records of the next children
  of the directory, with their inode numbers, types and names, as many as fit: if children are
  left, the header, the name and the final zero of the next one do not fit behind them; the bytes
  behind the records are untouched; the position of the open directory advances by the number of
  records, and the state stays well-formed.  With a buffer of at least 300 bytes the call reports 0
  only when all children have been delivered.
\<close>

theorem getdents_roundtrip:
  assumes ok: "kfs_ok k" and fd: "fd_get fd (k_fds k) = Some d" "fd_file d = DirFile i" "k_dirs k i = Some f"
    and names: "dirents_ok env (df_dentry f) (k_vfs k)"
    and addr: "addr mod 8 = 0" "length buf mod 8 = 0" "addr + length buf \<le> LOW_ADDRESS_END"
  shows "\<exists>n buf' k' m cs. sys_getdents64 env fd addr buf (Inr ()) k = Some (Inr n, buf', k')
    \<and> listed env (df_dentry f) (k_vfs k) = Some cs \<and> n \<le> length buf \<and> length buf' = length buf \<and> drop n buf' = drop n buf
    \<and> parse_dirents (take n buf') = Some (map (child_dirent (k_vfs k')) (take m (drop (df_index f) cs)))
    \<and> m \<le> length cs - df_index f
    \<and> (df_index f + m < length cs \<longrightarrow> length buf < n + (D_NAME_OFFSET + length (fst (cs ! (df_index f + m))) + 1))
    \<and> k_dirs k' i = Some (f\<lparr> df_index := df_index f + m \<rparr>) \<and> kfs_ok k'
    \<and> (300 \<le> length buf \<longrightarrow> (n = 0 \<longleftrightarrow> length cs \<le> df_index f))"
proof -
  let ?a = "df_dentry f"
  obtain v e where v: "dentry_read_dir env ?a (k_vfs k) = Some v" "v_dirs v ?a = Some e"
    and cs: "\<forall>(name, c) \<in> set (dd_children e). name_fits name
         \<and> (case dref_meta v c of None \<Rightarrow> True | Some meta \<Rightarrow> ino meta < 2 ^ 64)"
    using names by (auto simp: dirents_ok_def split: option.splits)
  have tree: "tree_ok v" "keeps_entries (k_vfs k) v" "v_next (k_vfs k) \<le> v_next v" using dentry_read_dir_ok [OF kfs_ok_tree [OF ok] v(1)] by blast+
  let ?cs = "drop (df_index f) (dd_children e)"
  have cs': "\<forall>(name, c) \<in> set ?cs. name_fits name \<and> (\<exists>meta. dref_meta v c = Some meta \<and> ino meta < 2 ^ 64)"
    using cs dref_meta_linked [OF tree(1) v(2)] by (fastforce dest: in_set_dropD)
  have lim: "addr + length buf + 300 < usize_limit" using addr(3) by (simp add: LOW_ADDRESS_END_def usize_limit_def)
  let ?m = "dirents_fit (length buf) ?cs"
  obtain n buf' where run: "dirent_loop v addr ?cs 0 (df_index f) buf = Some (n, df_index f + ?m, buf')"
    and n: "n \<le> length buf" "length buf' = length buf" "drop n buf' = drop n buf"
    and parse: "parse_dirents (take n buf') = Some (map (child_dirent v) (take ?m ?cs))"
    using dirent_loop_spec [OF addr(1) lim addr(2) cs', of 0 "df_index f"] by auto
  let ?k = "k\<lparr> k_vfs := v, k_dirs := (k_dirs k)(i \<mapsto> f\<lparr> df_index := df_index f + ?m \<rparr>) \<rparr>"
  have "sys_getdents64 env fd addr buf (Inr ()) k = Some (Inr n, buf', ?k)"
    using fd v run by (simp add: sys_getdents64_def getdirents_def)
  moreover have "listed env ?a (k_vfs k) = Some (dd_children e)" using v by (simp add: listed_def)
  moreover have "kfs_ok ?k"
    using kfs_ok_dir_index [OF kfs_ok_vfs [OF ok], of v i f "df_index f + ?m"] fd(3) tree by (simp add: tree_step_def)
  moreover have "?m \<le> length (dd_children e) - df_index f" using dirents_fit_le [of "length buf" ?cs] by simp
  moreover have "length buf < n + (D_NAME_OFFSET + length (fst (dd_children e ! (df_index f + ?m))) + 1)"
    if "df_index f + ?m < length (dd_children e)"
  proof -
    have "?m < length ?cs" using that by simp
    moreover have "dd_children e ! (df_index f + ?m) \<in> set (dd_children e)" using that by simp
    then have "length (fst (dd_children e ! (df_index f + ?m))) \<le> NAME_MAX" using cs by (force simp: name_fits_def)
    ultimately show ?thesis using dirent_loop_stops [OF run] by simp
  qed
  moreover have "300 \<le> length buf \<longrightarrow> (n = 0 \<longleftrightarrow> length (dd_children e) \<le> df_index f)"
  proof
    assume room: "300 \<le> length buf"
    have "n = 0 \<longleftrightarrow> take ?m ?cs = []"
    proof
      assume "n = 0" then show "take ?m ?cs = []" using parse by (simp add: parse_dirents.simps)
    next
      assume "take ?m ?cs = []"
      then have "parse_dirents (take n buf') = Some []" using parse by simp
      then have "take n buf' = []" by (auto simp: parse_dirents.simps [of "take n buf'"] Let_def split: if_splits)
      then show "n = 0" using n room by auto
    qed
    also have "\<dots> \<longleftrightarrow> ?cs = []"
    proof (cases "?cs = []")
      case False
      then have "name_fits (fst (hd ?cs))" using cs' by (cases ?cs) auto
      then show ?thesis using dirents_fit_pos [OF False _ room] False by auto
    qed simp
    finally show "n = 0 \<longleftrightarrow> length (dd_children e) \<le> df_index f" by simp
  qed
  ultimately show ?thesis using n parse by (intro exI [of _ n] exI [of _ buf'] exI [of _ ?k] exI [of _ ?m] exI [of _ "dd_children e"]) simp
qed

definition demo_listing :: kfs where
  "demo_listing = demo_kfs\<lparr> k_fds := \<lparr> files = [(3, fd_new (DirFile 0) 0)], fd_rlimit = \<lparr> rlim_curr = 16, rlim_max = 16 \<rparr> \<rparr>,
     k_dirs := [0 \<mapsto> \<lparr> df_dentry = 0, df_index = 0 \<rparr>], k_next_file := 1 \<rparr>"

lemma demo_listing_ok: "kfs_ok demo_listing"
  using demo_kfs_ok
  by (auto simp: kfs_ok_def demo_listing_def fd_get_def fd_new_def bt_get_Cons bt_inv_Cons file_open_def split: if_splits)
    (auto simp: demo_kfs_def demo_vfs_def demo_dir_def)

theorem getdents_roundtrip_witness:
  "\<exists>n buf' k'. sys_getdents64 demo_env 3 4096 (replicate 24 7) (Inr ()) demo_listing = Some (Inr n, buf', k')
    \<and> map_option (map d_name) (parse_dirents (take n buf')) = Some [[97]]"
proof -
  have fd: "fd_get 3 (k_fds demo_listing) = Some (fd_new (DirFile 0) 0)" "fd_file (fd_new (DirFile 0) 0) = DirFile 0"
    "k_dirs demo_listing 0 = Some \<lparr> df_dentry = 0, df_index = 0 \<rparr>"
    by (simp_all add: demo_listing_def fd_get_def fd_new_def bt_get_Cons)
  have list: "dentry_read_dir demo_env 0 (k_vfs demo_listing) = Some demo_vfs" "v_dirs demo_vfs 0 = Some (demo_dir None ''/'' [(''a'', DDir 1)] 0)"
    by (simp_all add: dentry_read_dir_def demo_listing_def demo_kfs_def demo_vfs_def demo_dir_def)
  have meta: "dref_meta demo_vfs (DDir 1) = Some Dentry.demo_meta" by (simp add: dref_meta_def demo_vfs_def demo_dir_def)
  have ok: "dirents_ok demo_env (df_dentry \<lparr> df_dentry = 0, df_index = 0 \<rparr>) (k_vfs demo_listing)"
    using list meta by (simp add: dirents_ok_def demo_dir_def name_fits_def NAME_MAX_def as_bytes_def Dentry.demo_meta_def InodeMeta_new_def)
  have h: "(4096 :: nat) mod 8 = 0" "length (replicate 24 (7 :: 8 word)) mod 8 = 0" "4096 + length (replicate 24 (7 :: 8 word)) \<le> LOW_ADDRESS_END"
    by (simp_all add: LOW_ADDRESS_END_def)
  obtain n buf' k' m cs where run: "sys_getdents64 demo_env 3 4096 (replicate 24 7) (Inr ()) demo_listing = Some (Inr n, buf', k')"
    and cs: "listed demo_env 0 (k_vfs demo_listing) = Some cs"
    and p: "parse_dirents (take n buf') = Some (map (child_dirent (k_vfs k')) (take m (drop 0 cs)))" and len: "length buf' = 24"
    using getdents_roundtrip [OF demo_listing_ok fd ok h] by (elim exE conjE) (rule that; simp)
  have cs': "cs = [(''a'', DDir 1)]" using cs list by (simp add: listed_def demo_dir_def)
  have "k_vfs k' = demo_vfs \<and> 0 < n"
    using run fd list meta by (auto simp: sys_getdents64_def getdirents_def demo_dir_def bind_eq_Some_conv uadd_def usize_limit_def
        D_NAME_OFFSET_def NAME_MAX_def next_multiple_of_def DIRENT_ALIGN_def)
  moreover from this len p have "m \<noteq> 0" by (cases "m = 0") (auto simp: parse_dirents.simps [of "take n buf'"] Let_def split: if_splits)
  ultimately show ?thesis using run p meta cs'
    by (cases m) (auto simp: child_dirent_def as_bytes_def)
qed

text \<open>The end of a record is compared with the end of the buffer before it is rounded up, so that the
  number reported can be larger than the buffer.\<close>

lemma getdents_overruns:
  assumes "dref_meta v c = Some meta" "addr mod 8 = 0" "addr + 100 < usize_limit" "length buf = 21"
  shows "\<exists>buf'. dirent_loop v addr [(''a'', c)] 0 0 buf = Some (24, 1, buf')"
proof -
  have "next_multiple_of (addr + 21) 8 = Some (addr + 24)"
    using next_multiple_of_8 [OF assms(2), of 21] assms(3) by simp
  moreover have "uadd (addr + 0) 21 = Some (addr + 21)" using assms(3) by (simp add: uadd_def)
  moreover obtain b where "put_dirent buf 0 24 meta [97] = Some b"
    using put_dirent_eq [of 0 "[97]" buf 24 meta] assms(4) by (simp add: D_NAME_OFFSET_def)
  ultimately show ?thesis
    using assms(1,4) by (simp add: D_NAME_OFFSET_def NAME_MAX_def DIRENT_ALIGN_def Let_def as_bytes_def)
qed

end
