(* ===== verification/IoSystem.thy ===== *)
theory IoSystem
  imports FileCopy Dirents
begin

text \<open>
  The file system calls and the input and output calls together: the steps of a process on its
  files, with the interrupts of the serial port, and the well-formedness they keep.
\<close>

section \<open>Well-formed states\<close>

text \<open>The file system is well-formed, no pipe holds more than its capacity and the terminal no more
  than its buffer.  \<open>cq\<close> and \<open>tq\<close> are the contents of a channel and of the queue of the terminal.\<close>

definition io_ok :: "('c \<Rightarrow> bytes) \<Rightarrow> ('q \<Rightarrow> bytes) \<Rightarrow> ('c, 'q) kio \<Rightarrow> bool" where
  "io_ok cq tq s \<longleftrightarrow> kfs_ok (io_kfs s) \<and> (\<forall>i. length (cq (io_chans s i)) \<le> PIPE_CAPACITY)
     \<and> length (tq (tty_queue (io_tty s))) \<le> TTY_BUFFER_LEN"

definition env_ok :: "('c \<Rightarrow> bytes) \<Rightarrow> ('q \<Rightarrow> bytes) \<Rightarrow> ('d, 't, 'c, 'q) io_env \<Rightarrow> bool" where
  "env_ok cq tq env \<longleftrightarrow> (\<exists>closed. channel_spec (io_chan env) cq closed PIPE_CAPACITY) \<and> deque_spec (io_deque env) tq TTY_BUFFER_LEN"

lemma io_ok_kfs: "io_ok cq tq s \<Longrightarrow> kfs_ok (io_kfs s)"
  by (simp add: io_ok_def)

lemma io_ok_update: "io_ok cq tq s \<Longrightarrow> kfs_ok k \<Longrightarrow> io_ok cq tq (s\<lparr> io_kfs := k \<rparr>)"
  by (simp add: io_ok_def)

lemma io_ok_offset: "io_ok cq tq s \<Longrightarrow> io_ok cq tq (on_offset i pos s)"
  by (simp add: on_offset_def io_ok_def kfs_ok_offset)

lemma kfs_ok_put_bytes: "kfs_ok k \<Longrightarrow> v_bytes_inodes (k_vfs k) i \<noteq> None \<Longrightarrow> kfs_ok (put_bytes_inode i x k)"
  unfolding put_bytes_inode_def by (rule kfs_ok_vfs) (auto intro!: tree_step_inodes put_bytes_step(2) kfs_ok_tree)

lemma io_ok_put_inode:
  assumes "io_ok cq tq s" "v_bytes_inodes (k_vfs (io_kfs s)) i \<noteq> None"
  shows "io_ok cq tq (io_put_inode i x n s)"
  using assms kfs_ok_put_bytes [of "io_kfs s" i x] by (simp add: io_put_inode_def io_ok_def kfs_ok_frames)

lemma kfs_ok_pipe: "kfs_ok k \<Longrightarrow> kfs_ok (k\<lparr> k_pipes := (k_pipes k)(i \<mapsto> meta) \<rparr>)"
proof -
  assume k: "kfs_ok k"
  have "file_open k f \<Longrightarrow> file_open (k\<lparr> k_pipes := (k_pipes k)(i \<mapsto> meta) \<rparr>) f" for f
    by (auto simp: file_open_def split: kfile.splits)
  then show ?thesis using k by (simp add: kfs_ok_def)
qed

lemma io_ok_put_pipe: "io_ok cq tq s \<Longrightarrow> length (cq (pipe_chan p)) \<le> PIPE_CAPACITY \<Longrightarrow> io_ok cq tq (put_pipe i p s)"
  by (simp add: put_pipe_def io_ok_def kfs_ok_pipe)

section \<open>The queues stay within their bounds\<close>

lemma read_poll_queue:
  assumes spec: "channel_spec ops queue closed cap"
  shows "read_poll ops buf n c m = (r, n', c', m') \<Longrightarrow> length (queue c') \<le> length (queue c)"
proof (induction "rb_len buf - n" arbitrary: n c m rule: less_induct)
  case less
  show ?case
  proof (cases "n < rb_len buf")
    case False
    then show ?thesis using less.prems by (simp add: read_poll.simps)
  next
    case True
    show ?thesis
    proof (cases "queue c")
      case Nil
      then show ?thesis using recv_cases(1) [OF spec Nil] less.prems True by (auto simp: read_poll.simps split: if_splits)
    next
      case (Cons b bs)
      obtain c1 where c1: "recv ops c = (Received b, c1)" "queue c1 = bs" using recv_cases(2) [OF spec Cons] by blast
      show ?thesis
      proof (cases "rb_put buf n [b] m")
        case (Inr m1)
        then have "read_poll ops buf (n + 1) c1 m1 = (r, n', c', m')"
          using less.prems True c1(1) by (subst (asm) read_poll.simps) simp
        then have "length (queue c') \<le> length (queue c1)" using less.hyps [of "n + 1"] True by simp
        then show ?thesis using c1(2) Cons by simp
      qed (use less.prems True c1 Cons in \<open>simp add: read_poll.simps\<close>)
    qed
  qed
qed

lemma send_loop_queue:
  assumes spec: "channel_spec ops queue closed cap"
  shows "length (queue c) \<le> cap \<Longrightarrow> send_loop ops bs n c = (n', c') \<Longrightarrow> length (queue c') \<le> cap"
proof (induction bs arbitrary: n c)
  case (Cons b bs)
  show ?case
  proof (cases "length (queue c) < cap \<and> \<not> closed c")
    case True
    then obtain c1 where "try_send ops b c = (True, c1)" "queue c1 = queue c @ [b]"
      using try_send_cases(1) [OF spec Cons.prems(1)] by blast
    then show ?thesis using Cons.IH [of c1 "Suc n"] Cons.prems True by simp
  next
    case False
    then obtain c1 where "try_send ops b c = (False, c1)" "queue c1 = queue c"
      using try_send_cases(2) [OF spec Cons.prems(1), of b] Cons.prems(1) by auto
    then show ?thesis using Cons.prems by auto
  qed
qed simp

lemma pipe_read_queue:
  assumes "channel_spec ops queue closed cap" "pipe_read ops now which buf n p m = (r, n', p', m')"
  shows "length (queue (pipe_chan p')) \<le> length (queue (pipe_chan p))"
  using assms(2) read_poll_queue [OF assms(1)]
  by (auto simp: pipe_read_def split: if_splits prod.splits option.splits sum.splits)

lemma pipe_write_queue:
  assumes "channel_spec ops queue closed cap" "pipe_write ops now which b p = (r, p')" "length (queue (pipe_chan p)) \<le> cap"
  shows "length (queue (pipe_chan p')) \<le> cap"
  using assms(2,3) send_loop_queue [OF assms(1) assms(3)]
  by (auto simp: pipe_write_def split: if_splits sum.splits prod.splits)

lemma tty_poll_queue:
  assumes "deque_spec ops queue cap" "tty_poll ops w checked len t = (r, woken, t')"
  shows "length (queue (tty_queue t')) \<le> length (queue (tty_queue t))"
proof (cases checked)
  case (Inr u)
  obtain q' where "get_bytes ops len (tty_queue t) = (take len (queue (tty_queue t)), q')" "queue q' = drop len (queue (tty_queue t))"
    using get_bytes_eq [OF assms(1)] by blast
  then show ?thesis using assms(2) Inr by (auto simp: tty_poll_def register_waker_def Let_def split: if_splits)
qed (use assms(2) in \<open>simp add: tty_poll_def\<close>)

lemma tty_irq_queue:
  assumes "deque_spec ops queue cap" "uart_handle_irq ops b t = (w, t')" "length (queue (tty_queue t)) \<le> cap"
  shows "length (queue (tty_queue t')) \<le> cap"
proof -
  have "queue (push_back ops b q) = (if length (queue q) < cap then queue q @ [b] else queue q)" for q
    using assms(1) unfolding deque_spec_def by blast
  then show ?thesis using assms(2,3) by (auto simp: uart_handle_irq_def)
qed

section \<open>The operations keep the state well-formed\<close>

lemma tty_read_ok:
  assumes env: "env_ok cq tq env" and s: "io_ok cq tq s" "v_bytes_inodes (k_vfs (io_kfs s)) i \<noteq> None"
    and run: "tty_read env d fut i meta s m = Some (r, s', m')"
  shows "io_ok cq tq s'"
proof -
  define s1 where "s1 = (if fut = TtyWait then s
    else io_put_inode i (TtyI (meta\<lparr> access_time := e_now (io_fs_env env) \<rparr>)) (k_frames (io_kfs s)) s)"
  have ok: "io_ok cq tq s1" using s io_ok_put_inode [OF s] by (simp add: s1_def)
  obtain p woken t where poll: "tty_poll (io_deque env) (io_task env) (Inr ()) (d_len d) (io_tty s1) = (p, woken, t)"
    using prod_cases3 by blast
  have "length (tq (tty_queue t)) \<le> TTY_BUFFER_LEN"
    using tty_poll_queue [OF _ poll, of tq TTY_BUFFER_LEN] env ok by (auto simp: env_ok_def io_ok_def)
  then have "io_ok cq tq (s1\<lparr> io_tty := t, io_woken := w \<rparr>)" for w using ok by (simp add: io_ok_def)
  moreover have "s' = s1 \<or> s' = s1\<lparr> io_tty := t, io_woken := io_woken s1 @ (case woken of None \<Rightarrow> [] | Some w \<Rightarrow> [w]) \<rparr>"
    using run unfolding tty_read_def s1_def [symmetric] Let_def poll by (auto split: if_splits sum.splits option.splits)
  ultimately show ?thesis using ok by metis
qed

lemma inode_read_at_ok:
  assumes env: "env_ok cq tq env" and s: "io_ok cq tq s" and run: "inode_read_at env d fut off i s m = Some (r, s', m')"
  shows "io_ok cq tq s'"
proof -
  obtain x where x: "v_bytes_inodes (k_vfs (io_kfs s)) i = Some x" using run by (auto simp: inode_read_at_def split: option.splits)
  then have "io_ok cq tq (io_put_inode i y n s)" for y n using io_ok_put_inode [OF s] by simp
  then show ?thesis
    using run s x tty_read_ok [OF env s, of i]
    by (cases x) (auto simp: inode_read_at_def split: option.splits if_splits)
qed

lemma inode_write_at_ok:
  assumes s: "io_ok cq tq s" and run: "inode_write_at env b off i s = Some (r, s')"
  shows "io_ok cq tq s'"
proof -
  obtain x where x: "v_bytes_inodes (k_vfs (io_kfs s)) i = Some x" using run by (auto simp: inode_write_at_def split: option.splits)
  then have put: "io_ok cq tq (io_put_inode i y n s)" for y n using io_ok_put_inode [OF s] by simp
  then have "io_ok cq tq ((io_put_inode i y n s)\<lparr> io_out := out \<rparr>)" for y n out by (simp add: io_ok_def)
  with put show ?thesis
    using run x by (cases x) (auto simp: inode_write_at_def tty_write_inode_def Let_def split: option.splits sum.splits)
qed

lemma the_pipe_queue: "io_ok cq tq s \<Longrightarrow> the_pipe i s = Some p \<Longrightarrow> length (cq (pipe_chan p)) \<le> PIPE_CAPACITY"
  by (auto simp: the_pipe_def io_ok_def)

lemma fd_read_ok:
  assumes env: "env_ok cq tq env" and s: "io_ok cq tq s" and run: "fd_read env d fut desc s m = Some (r, s', m')"
  shows "io_ok cq tq s'"
proof (cases "fd_file desc")
  case (PipeFile e)
  obtain i which where e: "pipe_of e = (i, which)" by fastforce
  obtain p where p: "the_pipe i s = Some p" using run PipeFile e by (auto simp: fd_read_def bind_eq_Some_conv)
  obtain q n p' m1 where q: "pipe_read (io_chan env) (e_now (io_fs_env env)) which (dest_buffer d)
      (case fut of PipeWait n \<Rightarrow> n | _ \<Rightarrow> 0) p m = (q, n, p', m1)" using prod_cases4 by blast
  obtain closed where spec: "channel_spec (io_chan env) cq closed PIPE_CAPACITY" using env by (auto simp: env_ok_def)
  have "length (cq (pipe_chan p')) \<le> PIPE_CAPACITY"
    using pipe_read_queue [OF spec q] the_pipe_queue [OF s p] by simp
  moreover have "s' = put_pipe i p' s" using run PipeFile e p q by (auto simp: fd_read_def bind_eq_Some_conv Let_def)
  ultimately show ?thesis using io_ok_put_pipe [OF s] by simp
next
  case (SeekableFile i)
  then obtain off inode q s1 m1 where read: "inode_read_at env d fut off inode s m = Some (q, s1, m1)"
    and s': "(case q of Ready (Inr n) \<Rightarrow> do { pos \<leftarrow> uadd off n; Some (q, on_offset i pos s1, m1) } | _ \<Rightarrow> Some (q, s1, m1))
      = Some (r, s', m')"
    using run by (auto simp: fd_read_def bind_eq_Some_conv)
  have "s' = s1 \<or> (\<exists>pos. s' = on_offset i pos s1)"
    using s' by (auto simp: bind_eq_Some_conv split: poll.splits sum.splits)
  then show ?thesis using inode_read_at_ok [OF env s read] io_ok_offset by auto
qed (use run s inode_read_at_ok [OF env s] in \<open>auto simp: fd_read_def bind_eq_Some_conv\<close>)

lemma fd_read_at_ok:
  assumes "env_ok cq tq env" "io_ok cq tq s" "fd_read_at env d fut off desc s m = Some (r, s', m')"
  shows "io_ok cq tq s'"
  using assms(2,3) inode_read_at_ok [OF assms(1,2)] by (auto simp: fd_read_at_def bind_eq_Some_conv split: kfile.splits)

lemma fd_write_ok:
  assumes env: "env_ok cq tq env" and s: "io_ok cq tq s" and run: "fd_write env b desc s = Some (r, s')"
  shows "io_ok cq tq s'"
proof (cases "fd_file desc")
  case (PipeFile e)
  obtain i which where e: "pipe_of e = (i, which)" by fastforce
  obtain p where p: "the_pipe i s = Some p" using run PipeFile e by (auto simp: fd_write_def bind_eq_Some_conv)
  obtain q p' where q: "pipe_write (io_chan env) (e_now (io_fs_env env)) which b p = (q, p')" by fastforce
  obtain closed where spec: "channel_spec (io_chan env) cq closed PIPE_CAPACITY" using env by (auto simp: env_ok_def)
  have "length (cq (pipe_chan p')) \<le> PIPE_CAPACITY" by (rule pipe_write_queue [OF spec q the_pipe_queue [OF s p]])
  moreover have "s' = put_pipe i p' s" using run PipeFile e p q by (auto simp: fd_write_def bind_eq_Some_conv)
  ultimately show ?thesis using io_ok_put_pipe [OF s] by simp
next
  case (SeekableFile i)
  then obtain off inode q s1 where w: "inode_write_at env b off inode (on_offset i off s) = Some (q, s1)"
    and s': "(case q of Inr n \<Rightarrow> do { pos \<leftarrow> uadd off n; Some (q, on_offset i pos s1) } | Inl _ \<Rightarrow> Some (q, s1)) = Some (r, s')"
    using run by (auto simp: fd_write_def bind_eq_Some_conv Let_def)
  have s': "s' = s1 \<or> (\<exists>pos. s' = on_offset i pos s1)"
    using s' by (auto simp: bind_eq_Some_conv split: sum.splits)
  have "io_ok cq tq s1" by (rule inode_write_at_ok [OF io_ok_offset [OF s] w])
  then show ?thesis using s' io_ok_offset by auto
qed (use run s inode_write_at_ok [OF s] in \<open>auto simp: fd_write_def bind_eq_Some_conv\<close>)

lemma readv_loop_ok:
  assumes env: "env_ok cq tq env"
  shows "io_ok cq tq s \<Longrightarrow> readv_loop env uv desc n addr tot cur fut s m = Some (r, s', m') \<Longrightarrow> io_ok cq tq s'"
proof (induction n arbitrary: addr tot cur fut s m)
  case (Suc n)
  let ?next = "case cur of Some c \<Rightarrow> Inr (Some c) | None \<Rightarrow> next_iovec uv addr m"
  show ?case
  proof (cases ?next)
    case (Inr b)
    show ?thesis
    proof (cases b)
      case None
      then show ?thesis using Suc.prems Inr Suc.IH by (auto split: option.splits)
    next
      case (Some v)
      obtain base len where v: "v = (base, len)" by (cases v)
      obtain q s1 m1 where rd: "fd_read env (user_dest uv base len) fut desc s m = Some (q, s1, m1)"
        using Suc.prems(2) Inr Some v by (auto split: option.splits)
      note s1 = fd_read_ok [OF env Suc.prems(1) rd]
      show ?thesis
      proof (cases q)
        case (Ready y)
        then show ?thesis
          using Suc.prems(2) Inr Some v rd s1 Suc.IH [OF s1] by (cases y) (auto split: option.splits if_splits)
      qed (use Suc.prems(2) Inr Some v rd s1 in auto)
    qed
  qed (use Suc.prems in auto)
qed simp

lemma writev_loop_ok:
  assumes env: "env_ok cq tq env"
  shows "io_ok cq tq s \<Longrightarrow> writev_loop env uv desc m n addr tot s = Some (r, s') \<Longrightarrow> io_ok cq tq s'"
proof (induction n arbitrary: addr tot s)
  case (Suc n)
  show ?case
  proof (cases "next_iovec uv addr m")
    case (Inr b)
    let ?w = "case b of None \<Rightarrow> Some (Inr 0, s) | Some (base, len) \<Rightarrow> fd_write env (user_source uv base len m) desc s"
    obtain q s1 where w: "?w = Some (q, s1)" using Suc.prems(2) Inr by (auto split: option.splits)
    have s1: "io_ok cq tq s1" using w Suc.prems(1) fd_write_ok [OF env Suc.prems(1)] by (auto split: option.splits prod.splits)
    show ?thesis
      using Suc.prems(2) Inr w s1 Suc.IH [OF s1] by (cases q) (auto split: option.splits)
  qed (use Suc.prems in auto)
qed simp

lemma sendfile_poll_ok:
  assumes env: "env_ok cq tq env" and s: "io_ok cq tq s" and run: "sendfile_poll env uv source target ptr fut buf s m = Some (r, s', m')"
  shows "io_ok cq tq s'"
proof -
  obtain q b s1 m1 where read: "sendfile_read env uv source ptr fut buf s m = Some (q, b, s1, m1)"
    using run by (auto simp: sendfile_poll_def split: option.splits)
  have s1: "io_ok cq tq s1"
    using read s fd_read_ok [OF env s] fd_read_at_ok [OF env s]
    by (auto simp: sendfile_read_def Let_def split: option.splits sum.splits poll.splits)
  show ?thesis
    using run read s1 fd_write_ok [OF env s1] by (auto simp: sendfile_poll_def split: poll.splits sum.splits)
qed

lemma ioctl_ok:
  assumes s: "io_ok cq tq s" and run: "sys_ioctl fd req arg s = Some (r, s')"
  shows "io_ok cq tq s'"
proof (cases "s' = s")
  case False
  then obtain b i x where x: "bytes_inode_of b s = Some i" "v_bytes_inodes (k_vfs (io_kfs s)) i = Some x"
    "(case x of TtyI _ \<Rightarrow> map_option (\<lambda>(r, t). (r, s\<lparr> io_ttys := (io_ttys s)(i := t) \<rparr>)) (tty_ioctl req arg (io_ttys s i))
      | RtcI _ \<Rightarrow> Some (Inr None, s) | _ \<Rightarrow> Some (Inl ENOTTY, s)) = Some (r, s')"
    using run by (auto simp: sys_ioctl_def fd_ioctl_def bind_eq_Some_conv split: option.splits if_splits kfile.splits)
  then show ?thesis using s False by (cases x) (auto simp: io_ok_def)
qed (use s in simp)

lemma getdirents_ok:
  assumes k: "kfs_ok k" and run: "getdirents env i addr buf k = Some (n, buf', k')"
  shows "kfs_ok k'"
proof -
  obtain d v j where d: "k_dirs k i = Some d" and v: "dentry_read_dir env (df_dentry d) (k_vfs k) = Some v"
    and k': "k' = k\<lparr> k_vfs := v, k_dirs := (k_dirs k)(i \<mapsto> d\<lparr> df_index := j \<rparr>) \<rparr>"
    using run by (auto simp: getdirents_def bind_eq_Some_conv)
  note r = dentry_read_dir_ok [OF kfs_ok_tree [OF k] v]
  have "kfs_ok (k\<lparr> k_vfs := v \<rparr>)" by (rule kfs_ok_vfs [OF k]) (use r in \<open>auto simp: tree_step_def\<close>)
  from kfs_ok_dir_index [OF this, of i d j] d show ?thesis by (simp add: k')
qed

lemma getdents_ok: "kfs_ok k \<Longrightarrow> sys_getdents64 env fd addr buf checked k = Some (r, buf', k') \<Longrightarrow> kfs_ok k'"
  using getdirents_ok by (auto simp: sys_getdents64_def split: option.splits kfile.splits sum.splits)

section \<open>All steps\<close>

text \<open>A step of a process on its files, with its memory, or an interrupt of the serial port.  A call
  that waits is taken up again by the steps that resume it.\<close>

inductive io_step :: "('d, 't, 'c, 'q) io_env set \<Rightarrow> ('c, 'q) kio \<times> memory \<Rightarrow> ('c, 'q) kio \<times> memory \<Rightarrow> bool"
  for envs where
  fs_call: "env \<in> envs \<Longrightarrow> fs_exec (io_fs_env env) c (io_kfs s) = Some (r, k) \<Longrightarrow> io_step envs (s, m) (s\<lparr> io_kfs := k \<rparr>, m')"
| getdents: "env \<in> envs \<Longrightarrow> sys_getdents64 (io_fs_env env) fd addr buf checked (io_kfs s) = Some (r, buf', k)
    \<Longrightarrow> io_step envs (s, m) (s\<lparr> io_kfs := k \<rparr>, m')"
| read_call: "env \<in> envs \<Longrightarrow> sys_read env uv fd addr len s m = Some (r, s', m') \<Longrightarrow> io_step envs (s, m) (s', m')"
| read_again: "env \<in> envs \<Longrightarrow> fd_read env d fut desc s m = Some (r, s', m') \<Longrightarrow> io_step envs (s, m) (s', m')"
| write_call: "env \<in> envs \<Longrightarrow> sys_write env uv fd addr len s m = Some (r, s') \<Longrightarrow> io_step envs (s, m) (s', m)"
| readv: "env \<in> envs \<Longrightarrow> sys_readv env uv fd addr n s m = Some (r, s', m') \<Longrightarrow> io_step envs (s, m) (s', m')"
| readv_again: "env \<in> envs \<Longrightarrow> readv_resume env uv desc fut s m = Some (r, s', m') \<Longrightarrow> io_step envs (s, m) (s', m')"
| writev: "env \<in> envs \<Longrightarrow> sys_writev env uv fd addr n s m = Some (r, s') \<Longrightarrow> io_step envs (s, m) (s', m)"
| sendfile: "env \<in> envs \<Longrightarrow> sys_sendfile64 env uv out_fd in_fd ptr buf s m = Some (r, s', m')
    \<Longrightarrow> io_step envs (s, m) (s', m')"
| sendfile_again: "env \<in> envs \<Longrightarrow> sendfile_poll env uv source target ptr fut buf s m = Some (r, s', m')
    \<Longrightarrow> io_step envs (s, m) (s', m')"
| ioctl: "sys_ioctl fd req arg s = Some (r, s') \<Longrightarrow> io_step envs (s, m) (s', m')"
| irq: "env \<in> envs \<Longrightarrow> uart_handle_irq (io_deque env) b (io_tty s) = (w, t)
    \<Longrightarrow> io_step envs (s, m) (s\<lparr> io_tty := t, io_woken := io_woken s @ (case w of None \<Rightarrow> [] | Some x \<Rightarrow> [x]) \<rparr>, m)"

inductive_cases io_stepE: "io_step envs s s'"

lemma io_step_ok:
  assumes env: "\<And>env. env \<in> envs \<Longrightarrow> env_ok cq tq env"
  shows "io_step envs s s' \<Longrightarrow> io_ok cq tq (fst s) \<Longrightarrow> io_ok cq tq (fst s')"
proof (induction rule: io_step.induct)
  case (fs_call env c s r k m m')
  then show ?case using fs_exec_ok io_ok_kfs io_ok_update by fastforce
next
  case (getdents env fd addr buf checked s r buf' k m m')
  then show ?case using getdents_ok io_ok_kfs io_ok_update by fastforce
next
  case (read_call env uv fd addr len s m r s' m')
  then show ?case by (auto simp: sys_read_def split: option.splits sum.splits dest: fd_read_ok [OF env])
next
  case (read_again env d fut desc s m r s' m')
  then show ?case by (auto dest: fd_read_ok [OF env])
next
  case (write_call env uv fd addr len s m r s')
  then show ?case by (auto simp: sys_write_def split: option.splits sum.splits dest: fd_write_ok [OF env])
next
  case (readv env uv fd addr n s m r s' m')
  then show ?case by (auto simp: sys_readv_def split: option.splits sum.splits dest: readv_loop_ok [OF env])
next
  case (readv_again env uv desc fut s m r s' m')
  then show ?case by (auto simp: readv_resume_def dest: readv_loop_ok [OF env])
next
  case (writev env uv fd addr n s m r s')
  then show ?case by (auto simp: sys_writev_def split: option.splits sum.splits dest: writev_loop_ok [OF env])
next
  case (sendfile env uv out_fd in_fd ptr buf s m r s' m')
  then show ?case by (auto simp: sys_sendfile64_def split: option.splits sum.splits dest: sendfile_poll_ok [OF env])
next
  case (sendfile_again env uv source target ptr fut buf s m r s' m')
  then show ?case by (auto dest: sendfile_poll_ok [OF env])
next
  case (ioctl fd req arg s r s' m m')
  then show ?case using ioctl_ok by fastforce
next
  case (irq env b s w t m)
  then show ?case using env [of env] by (auto simp: io_ok_def env_ok_def dest: tty_irq_queue)
qed

text \<open>
  C13: The files of a process stay well-formed.  Any sequence of the file system calls, of reads,
  writes, vector reads and writes, copies between files, control calls and resumptions of waiting
  calls, with any arguments, any contents of the disk and any contents of the program's memory,
  and with interrupts of the serial port in between, keeps the invariant: the tree of names and
  the mount table are well-formed, every open file and every descriptor refers to something that
  exists, no pipe holds more than its capacity and the terminal no more than its buffer.
\<close>

theorem files_well_formed:
  assumes "(io_step envs)\<^sup>*\<^sup>* (s, m) (s', m')" "io_ok cq tq s" "\<And>env. env \<in> envs \<Longrightarrow> env_ok cq tq env"
  shows "kfs_ok (io_kfs s') \<and> (\<forall>i. length (cq (io_chans s' i)) \<le> PIPE_CAPACITY)
    \<and> length (tq (tty_queue (io_tty s'))) \<le> TTY_BUFFER_LEN"
proof -
  have "io_ok cq tq (fst (s', m'))"
    using assms(1) by (induction rule: rtranclp_induct) (use assms(2) io_step_ok [OF assms(3)] in auto)
  then show ?thesis by (simp add: io_ok_def)
qed

definition demo_io :: "(8 word list \<times> bool, 8 word list) kio" where
  "demo_io = demo_kio\<lparr> io_kfs := demo_kfs \<rparr>"

lemma demo_io_ok: "io_ok fst id demo_io"
  using demo_kfs_ok by (simp add: io_ok_def demo_io_def demo_kio_def)

lemma demo_env_ok: "env_ok fst id demo_io_env"
  using list_channel_spec [of PIPE_CAPACITY] list_deque_spec by (auto simp: env_ok_def demo_io_env_def)

definition demo_piped :: "nat \<Rightarrow> kfs \<Rightarrow> kfs" where
  "demo_piped i k = k\<lparr> k_pipes := (k_pipes k)(i \<mapsto> pipe_meta (fst (make_pipe (e_now demo_env) () (v_inode_number (k_vfs k))))),
     k_next_file := Suc i, k_vfs := (k_vfs k)\<lparr> v_inode_number := Suc (v_inode_number (k_vfs k)) \<rparr>,
     k_fds := \<lparr> files = [(0, fd_new (PipeFile (pipe_end.ReadEnd i)) 0), (1, fd_new (PipeFile (pipe_end.WriteEnd i)) 1)],
       fd_rlimit = \<lparr> rlim_curr = 16, rlim_max = 16 \<rparr> \<rparr> \<rparr>"

lemma demo_pipe2: "fs_exec (io_fs_env demo_io_env) (Pipe2 (Inr ()) 0) demo_kfs = Some (Inr 0, demo_piped 0 demo_kfs)"
  by (simp add: return_0_def sys_pipe2_def demo_kfs_def demo_piped_def make_pipe_def InodeMeta_new_def open_flags_from_bits_def
      add_many_def demo_io_env_def demo_env_def Let_def uadd_def usize_limit_def bt_keys_def with_read_only_def with_write_only_def
      O_WRONLY_def O_RDWR_def)

definition demo_pipe_io :: "8 word list \<Rightarrow> InodeMeta \<Rightarrow> (8 word list \<times> bool, 8 word list) kio" where
  "demo_pipe_io bs meta = put_pipe 0 \<lparr> pipe_meta = meta, pipe_chan = (bs, False) \<rparr> (demo_io\<lparr> io_kfs := demo_piped 0 demo_kfs \<rparr>)"

lemma demo_pipe_io_simps:
  "prepare_io True 0 (demo_pipe_io bs meta) = Some (Inr (fd_new (PipeFile (pipe_end.ReadEnd 0)) 0))"
  "prepare_io False 1 (demo_pipe_io bs meta) = Some (Inr (fd_new (PipeFile (pipe_end.WriteEnd 0)) 1))"
  "the_pipe 0 (demo_pipe_io bs meta) = Some \<lparr> pipe_meta = meta, pipe_chan = (bs, False) \<rparr>"
  "put_pipe 0 \<lparr> pipe_meta = meta', pipe_chan = (bs', False) \<rparr> (demo_pipe_io bs meta) = demo_pipe_io bs' meta'"
  by (simp_all add: demo_pipe_io_def put_pipe_def the_pipe_def demo_piped_def fd_get_def bt_get_Cons prepare_io_def
      fd_readable_def fd_writable_def fd_new_def read_write_def)

lemma demo_piped_io:
  "demo_io\<lparr> io_kfs := demo_piped 0 demo_kfs \<rparr> = demo_pipe_io [] (pipe_meta (fst (make_pipe (e_now demo_env) () (v_inode_number (k_vfs demo_kfs)))))"
  by (simp add: demo_pipe_io_def put_pipe_def demo_piped_def demo_io_def demo_kio_def fun_upd_idem)

lemma demo_pipe_write:
  "\<exists>meta'. sys_write demo_io_env demo_uv 1 4096 2 (demo_pipe_io [] meta) (wr_bytes 4096 [7, 8] m)
    = Some (Inr 2, demo_pipe_io [7, 8] meta')"
proof -
  have get: "wb_get (user_source demo_uv 4096 2 (wr_bytes 4096 [7, 8] m)) 0 2 = Inr [7, 8]"
    "wb_len (user_source demo_uv 4096 2 (wr_bytes 4096 [7, 8] m)) = 2"
    using rd_bytes_wr_bytes_same [of 4096 "[7, 8]" m]
    by (simp_all add: user_source_def user_range_def demo_uv_def user_slice_def user_add_def umul_def uadd_def usize_limit_def
        numeral_2_eq_2)
  have "send_loop (io_chan demo_io_env) [7, 8] 0 ([], False) = (2, [7, 8], False)"
    by (simp add: demo_io_env_def list_channel_def PIPE_CAPACITY_def)
  then show ?thesis
    using get unfolding sys_write_def demo_pipe_io_simps
    by (auto simp: demo_pipe_io_simps fd_write_def pipe_of_def pipe_write_def fd_new_def simp del: send_loop.simps)
qed

lemma demo_pipe_read:
  "\<exists>meta'. sys_read demo_io_env demo_uv 0 8192 2 (demo_pipe_io [7, 8] meta) m
    = Some (Ready (Inr 2), demo_pipe_io [] meta', wr_bytes 8192 [7, 8] m)"
proof -
  have len: "rb_len (dest_buffer (user_dest demo_uv 8192 2)) = 2" by (simp add: dest_buffer_def user_dest_def)
  have ok: "buffer_ok demo_uv 8192 2" by (simp add: buffer_ok_def demo_uv_def usize_limit_def)
  have put: "rb_put (dest_buffer (user_dest demo_uv 8192 2)) 0 [7] m = Inr (wr_bytes 8192 [7] m)"
    "rb_put (dest_buffer (user_dest demo_uv 8192 2)) 1 [8] m' = Inr (wr_bytes 8193 [8] m')" for m'
    using user_dest_put [OF ok, of 0 "[7]" m] user_dest_put [OF ok, of 1 "[8]" m'] by simp_all
  have recv: "recv (io_chan demo_io_env) ([7, 8], False) = (Received 7, [8], False)"
    "recv (io_chan demo_io_env) ([8], False) = (Received 8, [], False)"
    by (simp_all add: demo_io_env_def list_channel_def)
  have "read_poll (io_chan demo_io_env) (dest_buffer (user_dest demo_uv 8192 2)) 0 ([7, 8], False) m
      = (Some (Inr 2), 2, ([], False), wr_bytes 8193 [8] (wr_bytes 8192 [7] m))"
    using len put recv by (simp add: read_poll.simps numeral_2_eq_2)
  then show ?thesis
    using wr_bytes_append [of 8192 "[7]" "[8]" m]
    by (auto simp: sys_read_def demo_pipe_io_simps fd_read_def pipe_of_def pipe_read_def fd_new_def)
qed

theorem files_well_formed_witness:
  "\<exists>s'. (io_step {demo_io_env})\<^sup>*\<^sup>* (demo_io, wr_bytes 4096 [7, 8] (\<lambda>_. 0))
      (s', wr_bytes 8192 [7, 8] (wr_bytes 4096 [7, 8] (\<lambda>_. 0)))
    \<and> kfs_ok (io_kfs s') \<and> (\<forall>i. length (fst (io_chans s' i)) \<le> PIPE_CAPACITY)"
proof -
  let ?m = "wr_bytes 4096 [7, 8] (\<lambda>_. 0)"
  obtain meta1 where s1: "demo_io\<lparr> io_kfs := demo_piped 0 demo_kfs \<rparr> = demo_pipe_io [] meta1" using demo_piped_io by blast
  obtain meta2 where w: "sys_write demo_io_env demo_uv 1 4096 2 (demo_pipe_io [] meta1) ?m = Some (Inr 2, demo_pipe_io [7, 8] meta2)"
    using demo_pipe_write by blast
  obtain meta3 where r: "sys_read demo_io_env demo_uv 0 8192 2 (demo_pipe_io [7, 8] meta2) ?m
      = Some (Ready (Inr 2), demo_pipe_io [] meta3, wr_bytes 8192 [7, 8] ?m)"
    using demo_pipe_read by blast
  have "fs_exec (io_fs_env demo_io_env) (Pipe2 (Inr ()) 0) (io_kfs demo_io) = Some (Inr 0, demo_piped 0 demo_kfs)"
    using demo_pipe2 by (simp add: demo_io_def)
  from io_step.fs_call [OF _ this, of "{demo_io_env}" ?m ?m] s1
  have "io_step {demo_io_env} (demo_io, ?m) (demo_pipe_io [] meta1, ?m)" by simp
  moreover have "io_step {demo_io_env} (demo_pipe_io [] meta1, ?m) (demo_pipe_io [7, 8] meta2, ?m)"
    by (rule io_step.write_call [OF _ w]) simp
  moreover have "io_step {demo_io_env} (demo_pipe_io [7, 8] meta2, ?m) (demo_pipe_io [] meta3, wr_bytes 8192 [7, 8] ?m)"
    by (rule io_step.read_call [OF _ r]) simp
  ultimately have run: "(io_step {demo_io_env})\<^sup>*\<^sup>* (demo_io, ?m) (demo_pipe_io [] meta3, wr_bytes 8192 [7, 8] ?m)" by simp
  then show ?thesis using files_well_formed [OF run demo_io_ok] demo_env_ok by auto
qed

end
