(* ===== verification/Clock.thy ===== *)
theory Clock
  imports DirEntry
begin

text \<open>
  The clock and the timers: \<^verbatim>\<open>crates/arch/riscv_time\<close>, \<^verbatim>\<open>crates/utils/executor/src/time\<close> and the calls of
  \<^verbatim>\<open>crates/kernel/src/syscall/time.rs\<close>.

  The reading of the time register, in ticks of 100 nanoseconds, is the argument \<open>t\<close> of the functions.
  The binary heap of timers is a list sorted by expiry: which of two timers with the same expiry
  comes first is not specified by the heap, and both are woken by the same loop.  A waker is the
  number of the task it wakes.
\<close>

section \<open>Readings of the clock\<close>

definition CLOCK_FREQ :: nat where "CLOCK_FREQ = 10000000"
definition TICKS_PER_SEC :: nat where "TICKS_PER_SEC = 100"
definition MILLI_PER_SEC :: nat where "MILLI_PER_SEC = 1000"
definition MICRO_PER_SEC :: nat where "MICRO_PER_SEC = 1000 * MILLI_PER_SEC"
definition NANO_PER_SEC :: nat where "NANO_PER_SEC = 1000 * MICRO_PER_SEC"

lemmas clock_defs = CLOCK_FREQ_def TICKS_PER_SEC_def MILLI_PER_SEC_def MICRO_PER_SEC_def NANO_PER_SEC_def

definition get_time_ns :: "nat \<Rightarrow> nat option" where
  "get_time_ns t = map_option (\<lambda>x. x div CLOCK_FREQ) (umul t NANO_PER_SEC)"

definition get_time_us :: "nat \<Rightarrow> nat option" where
  "get_time_us t = map_option (\<lambda>x. x div CLOCK_FREQ) (umul t MICRO_PER_SEC)"

definition get_time_ms :: "nat \<Rightarrow> nat option" where
  "get_time_ms t = map_option (\<lambda>x. x div CLOCK_FREQ) (umul t MILLI_PER_SEC)"

text \<open>The tick at which the next timer interrupt is asked for.\<close>

definition set_next_trigger :: "nat \<Rightarrow> nat option" where
  "set_next_trigger t = uadd t (CLOCK_FREQ div TICKS_PER_SEC)"

text \<open>\<^verbatim>\<open>Duration\<close> of the standard library: seconds and less than a second of nanoseconds.\<close>

record duration =
  du_secs :: nat
  du_nanos :: nat

definition duration_new :: "nat \<Rightarrow> nat \<Rightarrow> duration option" where
  "duration_new secs nanos = do {
     s \<leftarrow> uadd secs (nanos div NANO_PER_SEC);
     Some \<lparr> du_secs = s, du_nanos = nanos mod NANO_PER_SEC \<rparr>
   }"

definition duration_from_nanos :: "nat \<Rightarrow> duration" where
  "duration_from_nanos n = \<lparr> du_secs = n div NANO_PER_SEC, du_nanos = n mod NANO_PER_SEC \<rparr>"

definition as_millis :: "duration \<Rightarrow> nat" where
  "as_millis d = du_secs d * MILLI_PER_SEC + du_nanos d div 1000000"

definition time_spec_from :: "duration \<Rightarrow> TimeSpec" where
  "time_spec_from d = \<lparr> ts_sec = int (du_secs d), ts_nsec = int (du_nanos d) \<rparr>"

definition duration_try_from :: "TimeSpec \<Rightarrow> (errno + duration) option" where
  "duration_try_from v =
    (if ts_sec v < 0 \<or> ts_nsec v < 0 \<or> int NANO_PER_SEC < ts_nsec v then Some (Inl EINVAL)
     else map_option Inr (duration_new (nat (ts_sec v)) (nat (ts_nsec v))))"

definition curr_time :: "nat \<Rightarrow> duration option" where
  "curr_time t = map_option duration_from_nanos (get_time_ns t)"

definition curr_time_spec :: "nat \<Rightarrow> TimeSpec option" where
  "curr_time_spec t = map_option time_spec_from (curr_time t)"

section \<open>Timers\<close>

record timer =
  expire_ms :: nat
  timer_waker :: nat

record timer_future =
  fut_expire_ms :: nat
  timer_activated :: bool

definition timers_push :: "timer \<Rightarrow> timer list \<Rightarrow> timer list" where
  "timers_push = insort_key expire_ms"

text \<open>The loop of \<^verbatim>\<open>check_timer\<close>: the tasks that are woken and the timers that stay.\<close>

fun pop_expired :: "nat \<Rightarrow> timer list \<Rightarrow> nat list \<times> timer list" where
  "pop_expired curr_ms [] = ([], [])"
| "pop_expired curr_ms (x # xs) =
    (if expire_ms x \<le> curr_ms then (case pop_expired curr_ms xs of (ws, ys) \<Rightarrow> (timer_waker x # ws, ys))
     else ([], x # xs))"

definition check_timer :: "nat \<Rightarrow> timer list \<Rightarrow> (nat list \<times> timer list) option" where
  "check_timer t timers = map_option (\<lambda>curr_ms. pop_expired curr_ms timers) (get_time_ms t)"

text \<open>A poll of the future by the task \<open>w\<close>: whether it is ready, the future and the timers.\<close>

definition timer_poll :: "nat \<Rightarrow> nat \<Rightarrow> timer_future \<Rightarrow> timer list \<Rightarrow> (bool \<times> timer_future \<times> timer list) option" where
  "timer_poll w t f timers = do {
     now \<leftarrow> get_time_ms t;
     if now < fut_expire_ms f then
       Some (if timer_activated f then (False, f, timers)
             else (False, f\<lparr> timer_activated := True \<rparr>,
               timers_push \<lparr> expire_ms = fut_expire_ms f, timer_waker = w \<rparr> timers))
     else Some (True, f, timers)
   }"

definition sleep :: "nat \<Rightarrow> duration \<Rightarrow> timer_future option" where
  "sleep t d = do {
     curr_ms \<leftarrow> get_time_ms t;
     e \<leftarrow> uadd curr_ms (as_millis d mod 2 ^ 64);
     Some \<lparr> fut_expire_ms = e, timer_activated = False \<rparr>
   }"

section \<open>The calls\<close>

text \<open>The argument of a call that reads or writes through a pointer is what its check gives.  The
  result of a call that writes is the value it writes.\<close>

definition sys_nanosleep :: "errno + TimeSpec \<Rightarrow> nat \<Rightarrow> (errno + timer_future) option" where
  "sys_nanosleep req t = (case req of
     Inl e \<Rightarrow> Some (Inl e)
   | Inr v \<Rightarrow> (case duration_try_from v of
       None \<Rightarrow> None
     | Some (Inl e) \<Rightarrow> Some (Inl e)
     | Some (Inr d) \<Rightarrow> map_option Inr (sleep t d)))"

definition sys_get_time_of_day :: "errno + unit \<Rightarrow> nat \<Rightarrow> nat \<Rightarrow> (errno + nat \<times> nat) option" where
  "sys_get_time_of_day checked tz t = (if tz \<noteq> 0 then None else case checked of
     Inl e \<Rightarrow> Some (Inl e)
   | Inr _ \<Rightarrow> map_option (\<lambda>us. Inr (us div MICRO_PER_SEC, us mod MICRO_PER_SEC)) (get_time_us t))"

definition sys_clock_gettime :: "nat \<Rightarrow> errno + unit \<Rightarrow> nat \<Rightarrow> (errno + TimeSpec) option" where
  "sys_clock_gettime clock_id checked t = (if clock_id \<noteq> 0 then None else case checked of
     Inl e \<Rightarrow> Some (Inl e)
   | Inr _ \<Rightarrow> map_option (\<lambda>ns. Inr \<lparr> ts_sec = int (ns div NANO_PER_SEC), ts_nsec = int (ns mod NANO_PER_SEC) \<rparr>) (get_time_ns t))"

record Tms =
  tms_utime :: nat
  tms_stime :: nat
  tms_cutime :: nat
  tms_cstime :: nat

definition sys_times :: "errno + unit \<Rightarrow> nat \<Rightarrow> errno + Tms" where
  "sys_times checked ticks = map_sum id (\<lambda>_. \<lparr> tms_utime = ticks div 4, tms_stime = ticks div 4,
     tms_cutime = ticks div 4, tms_cstime = ticks div 4 \<rparr>) checked"

section \<open>How long the clock runs\<close>

lemma get_time_ns_eq: "get_time_ns t = (if t < 18446744074 then Some (t * 100) else None)"
proof (cases "t < 18446744074")
  case True
  then have "t * 1000000000 < 18446744073709551616" by simp
  then show ?thesis using True by (simp add: get_time_ns_def checked clock_defs)
next
  case False
  then have "18446744073709551616 \<le> t * 1000000000" by simp
  then show ?thesis using False by (simp add: get_time_ns_def checked clock_defs)
qed

lemma get_time_ms_eq: "get_time_ms t = (if t * 1000 < 18446744073709551616 then Some (t div 10000) else None)"
proof -
  have "t * 1000 div 10000000 = t div 10000" using div_mult_mult2 [of 1000 t 10000] by simp
  then show ?thesis by (simp add: get_time_ms_def checked clock_defs)
qed

lemma get_time_us_eq: "get_time_us t = (if t * 1000000 < 18446744073709551616 then Some (t div 10) else None)"
proof -
  have "t * 1000000 div 10000000 = t div 10" using div_mult_mult2 [of 1000000 t 10] by simp
  then show ?thesis by (simp add: get_time_us_def checked clock_defs)
qed

text \<open>
  C32: The clock.  For the first 1844 seconds and 674 milliseconds after the start (18446744073 ticks
  of 100 nanoseconds) the time in the metadata of files and the time of \<^verbatim>\<open>clock_gettime\<close> are the
  ticks in seconds and nanoseconds, with less than a second of nanoseconds; from the next
  tick on every reading in nanoseconds panics.  The readings in microseconds, of
  \<^verbatim>\<open>gettimeofday\<close>, agree with it to the microsecond.
\<close>

theorem clock_bounds:
  "(t \<le> 18446744073 \<longrightarrow>
      curr_time_spec t = Some \<lparr> ts_sec = int (t div 10000000), ts_nsec = int (t mod 10000000 * 100) \<rparr>
      \<and> sys_clock_gettime 0 (Inr ()) t = Some (Inr \<lparr> ts_sec = int (t div 10000000), ts_nsec = int (t mod 10000000 * 100) \<rparr>)
      \<and> sys_get_time_of_day (Inr ()) 0 t = Some (Inr (t div 10000000, t mod 10000000 div 10))
      \<and> int (t mod 10000000 * 100) < 1000000000)
   \<and> (18446744073 < t \<longrightarrow> curr_time_spec t = None \<and> sys_clock_gettime 0 (Inr ()) t = None)"
proof -
  have a: "t * 100 div 1000000000 = t div 10000000" "t * 100 mod 1000000000 = t mod 10000000 * 100"
    using div_mult_mult2 [of 100 t 10000000] mult_mod_left [of t 10000000 100] by simp_all
  have b: "t div 10 div 1000000 = t div 10000000" "t div 10 mod 1000000 = t mod 10000000 div 10"
    using mod_mult2_eq [of t 10 1000000] by (simp_all add: div_mult2_eq [symmetric])
  have c: "t mod 10000000 < 10000000" by simp
  show ?thesis
    using a b c by (auto simp: curr_time_spec_def curr_time_def time_spec_from_def duration_from_nanos_def
        sys_clock_gettime_def sys_get_time_of_day_def get_time_ns_eq get_time_us_eq clock_defs)
qed

theorem clock_bounds_witness:
  "curr_time_spec 18446744073 = Some \<lparr> ts_sec = 1844, ts_nsec = 674407300 \<rparr> \<and> curr_time_spec 18446744074 = None"
  using clock_bounds [of 18446744073] clock_bounds [of 18446744074] by simp

section \<open>Sleeping tasks are woken\<close>

text \<open>Tasks that sleep, poll their futures and are woken by timer interrupts, each at a reading of
  the clock.  A task sleeps when its last poll was not ready and it has not been woken since;
  it may be polled at any time, since something else may wake it.\<close>

datatype sleep_event = Start nat TimeSpec | PollSleep nat | Tick

record sleep_log =
  sl_now :: nat
  sl_timers :: "timer list"
  sl_futures :: "nat \<rightharpoonup> timer_future"
  sl_asleep :: "nat set"

fun sleep_step :: "nat \<times> sleep_event \<Rightarrow> sleep_log \<Rightarrow> sleep_log option" where
  "sleep_step (t, Start w req) l = (if w \<in> dom (sl_futures l) then Some (l\<lparr> sl_now := t \<rparr>) else
     (case sys_nanosleep (Inr req) t of
        None \<Rightarrow> None
      | Some (Inl e) \<Rightarrow> Some (l\<lparr> sl_now := t \<rparr>)
      | Some (Inr f) \<Rightarrow> Some (l\<lparr> sl_now := t, sl_futures := (sl_futures l)(w \<mapsto> f) \<rparr>)))"
| "sleep_step (t, PollSleep w) l = (case sl_futures l w of
     None \<Rightarrow> Some (l\<lparr> sl_now := t \<rparr>)
   | Some f \<Rightarrow> (case timer_poll w t f (sl_timers l) of
       None \<Rightarrow> None
     | Some (True, f', ts) \<Rightarrow> Some (l\<lparr> sl_now := t, sl_timers := ts, sl_futures := (sl_futures l)(w := None),
         sl_asleep := sl_asleep l - {w} \<rparr>)
     | Some (False, f', ts) \<Rightarrow> Some (l\<lparr> sl_now := t, sl_timers := ts, sl_futures := (sl_futures l)(w \<mapsto> f'),
         sl_asleep := insert w (sl_asleep l) \<rparr>)))"
| "sleep_step (t, Tick) l = (case check_timer t (sl_timers l) of
     None \<Rightarrow> None
   | Some (ws, ts) \<Rightarrow> Some (l\<lparr> sl_now := t, sl_timers := ts, sl_asleep := sl_asleep l - set ws \<rparr>))"

fun sleep_run :: "(nat \<times> sleep_event) list \<Rightarrow> sleep_log \<Rightarrow> sleep_log option" where
  "sleep_run [] l = Some l"
| "sleep_run (e # es) l = Option.bind (sleep_step e l) (sleep_run es)"

definition sleep_new :: sleep_log where
  "sleep_new = \<lparr> sl_now = 0, sl_timers = [], sl_futures = (\<lambda>_. None), sl_asleep = {} \<rparr>"

definition sleep_ok :: "sleep_log \<Rightarrow> bool" where
  "sleep_ok l \<longleftrightarrow> sorted (map expire_ms (sl_timers l))
     \<and> (\<forall>w f. sl_futures l w = Some f \<and> timer_activated f \<longrightarrow>
          sl_now l div 10000 < fut_expire_ms f \<longrightarrow> \<lparr> expire_ms = fut_expire_ms f, timer_waker = w \<rparr> \<in> set (sl_timers l))
     \<and> (\<forall>w \<in> sl_asleep l. \<exists>f. sl_futures l w = Some f \<and> timer_activated f
          \<and> \<lparr> expire_ms = fut_expire_ms f, timer_waker = w \<rparr> \<in> set (sl_timers l))"

text \<open>What the timers promise: a timer that is pushed is held until it is due, and a check at a
  time wakes exactly the tasks of the timers that are due then.\<close>

locale timer_heap =
  fixes push :: "timer \<Rightarrow> 'q \<Rightarrow> 'q"
    and pop_due :: "nat \<Rightarrow> 'q \<Rightarrow> nat list \<times> 'q"
    and timers :: "'q \<Rightarrow> timer set"
    and invar :: "'q \<Rightarrow> bool"
  assumes timers_push: "timers (push x q) = insert x (timers q)"
    and invar_push: "invar q \<Longrightarrow> invar (push x q)"
    and pop_wakers: "invar q \<Longrightarrow> pop_due now q = (ws, q') \<Longrightarrow> set ws = timer_waker ` {x \<in> timers q. expire_ms x \<le> now}"
    and pop_timers: "invar q \<Longrightarrow> pop_due now q = (ws, q') \<Longrightarrow> timers q' = {x \<in> timers q. now < expire_ms x}"
    and invar_pop: "invar q \<Longrightarrow> pop_due now q = (ws, q') \<Longrightarrow> invar q'"
begin

lemma due_woken:
  "invar q \<Longrightarrow> pop_due now q = (ws, q') \<Longrightarrow> x \<in> timers q \<Longrightarrow> expire_ms x \<le> now \<Longrightarrow> timer_waker x \<in> set ws"
  using pop_wakers by auto

lemma unwoken_kept:
  "invar q \<Longrightarrow> pop_due now q = (ws, q') \<Longrightarrow> x \<in> timers q \<Longrightarrow> timer_waker x \<notin> set ws \<Longrightarrow> x \<in> timers q'"
  using pop_wakers pop_timers by fastforce

lemma future_kept:
  "invar q \<Longrightarrow> pop_due now q = (ws, q') \<Longrightarrow> x \<in> timers q \<Longrightarrow> now < expire_ms x \<Longrightarrow> x \<in> timers q'"
  using pop_timers by simp

end

lemma pop_expired_sorted:
  assumes "sorted (map expire_ms ts)" "pop_expired now ts = (ws, ts')"
  shows "set ws = timer_waker ` {x \<in> set ts. expire_ms x \<le> now} \<and> set ts' = {x \<in> set ts. now < expire_ms x}
    \<and> sorted (map expire_ms ts')"
  using assms by (induction ts arbitrary: ws) (fastforce split: if_splits prod.splits)+

interpretation heap: timer_heap timers_push pop_expired set "\<lambda>ts. sorted (map expire_ms ts)"
  by unfold_locales
    (auto simp: timers_push_def sorted_insort_key set_insort_key dest: pop_expired_sorted)

lemma timer_poll_cases:
  assumes "timer_poll w t f ts = Some (r, f', ts')"
  shows "fut_expire_ms f' = fut_expire_ms f" "r \<longleftrightarrow> fut_expire_ms f \<le> t div 10000"
    "\<not> r \<Longrightarrow> timer_activated f'"
    "ts' = (if \<not> r \<and> \<not> timer_activated f then timers_push \<lparr> expire_ms = fut_expire_ms f, timer_waker = w \<rparr> ts else ts)"
  using assms by (auto simp: timer_poll_def get_time_ms_eq split: if_splits)

lemma check_timer_pop: "check_timer t ts = Some (ws, ts') \<Longrightarrow> pop_expired (t div 10000) ts = (ws, ts')"
  by (auto simp: check_timer_def get_time_ms_eq split: if_splits)

lemma sleep_future_new: "sys_nanosleep req t = Some (Inr f) \<Longrightarrow> \<not> timer_activated f"
  by (auto simp: sys_nanosleep_def sleep_def bind_eq_Some_conv split: sum.splits option.splits)

lemma sleep_step_ok:
  assumes "sleep_step (t, e) l = Some l'" "sleep_ok l" "sl_now l \<le> t"
  shows "sleep_ok l' \<and> sl_now l' = t"
proof -
  have "sl_now l div 10000 \<le> t div 10000" using assms(3) by (rule div_le_mono)
  then have act: "\<lparr> expire_ms = fut_expire_ms f, timer_waker = w \<rparr> \<in> set (sl_timers l)"
    if "sl_futures l w = Some f" "timer_activated f" "t div 10000 < fut_expire_ms f" for w f
    using assms(2) that by (fastforce simp: sleep_ok_def)
  have srt: "sorted (map expire_ms (sl_timers l))" using assms(2) by (simp add: sleep_ok_def)
  have asl: "\<exists>f. sl_futures l w = Some f \<and> timer_activated f \<and> \<lparr> expire_ms = fut_expire_ms f, timer_waker = w \<rparr> \<in> set (sl_timers l)"
    if "w \<in> sl_asleep l" for w using assms(2) that by (simp add: sleep_ok_def)
  have now: "sleep_ok (l\<lparr> sl_now := t \<rparr>)" using act srt asl by (simp add: sleep_ok_def)
  show ?thesis
  proof (cases e)
    case (Start w req)
    have "sleep_ok (l\<lparr> sl_now := t, sl_futures := (sl_futures l)(w \<mapsto> f) \<rparr>)"
      if "w \<notin> dom (sl_futures l)" "\<not> timer_activated f" for f
      using act srt that by (auto simp: sleep_ok_def domIff dest!: asl)
    then show ?thesis using assms(1) Start now
      by (auto dest: sleep_future_new split: option.splits sum.splits if_splits)
  next
    case (PollSleep w)
    have "sleep_ok (l\<lparr> sl_now := t, sl_timers := ts, sl_futures := (sl_futures l)(w := None), sl_asleep := sl_asleep l - {w} \<rparr>)"
      if "sl_futures l w = Some f" "timer_poll w t f (sl_timers l) = Some (True, f', ts)" for f f' ts
      using timer_poll_cases(4) [OF that(2)] act srt asl by (simp add: sleep_ok_def)
    moreover have "sleep_ok (l\<lparr> sl_now := t, sl_timers := ts, sl_futures := (sl_futures l)(w \<mapsto> f'), sl_asleep := insert w (sl_asleep l) \<rparr>)"
      if "sl_futures l w = Some f" "timer_poll w t f (sl_timers l) = Some (False, f', ts)" for f f' ts
    proof -
      note p = timer_poll_cases [OF that(2)]
      have ts: "\<lparr> expire_ms = fut_expire_ms f', timer_waker = w \<rparr> \<in> set ts" "set (sl_timers l) \<subseteq> set ts"
          "sorted (map expire_ms ts)"
        using p(1,2,4) act [OF that(1)] srt by (auto simp: not_le heap.timers_push heap.invar_push)
      then show ?thesis using act p(3) by (auto simp: sleep_ok_def subset_iff dest!: asl)
    qed
    ultimately show ?thesis using assms(1) PollSleep now by (auto split: option.splits bool.splits)
  next
    case Tick
    then obtain ws ts where c: "check_timer t (sl_timers l) = Some (ws, ts)"
      and l': "l' = l\<lparr> sl_now := t, sl_timers := ts, sl_asleep := sl_asleep l - set ws \<rparr>"
      using assms(1) by (auto split: option.splits)
    note c' = srt check_timer_pop [OF c]
    have "sl_asleep l' \<subseteq> sl_asleep l" "\<And>w. w \<in> sl_asleep l' \<Longrightarrow> w \<notin> set ws" by (auto simp: l')
    then show ?thesis using act heap.invar_pop [OF c'] heap.future_kept [OF c'] heap.unwoken_kept [OF c'] unfolding l'
      by (fastforce simp: sleep_ok_def dest!: asl)
  qed
qed

lemma sleep_run_ok:
  "sleep_run es l = Some l' \<Longrightarrow> sleep_ok l \<Longrightarrow> sorted (sl_now l # map fst es) \<Longrightarrow> sleep_ok l'"
proof (induction es arbitrary: l)
  case (Cons e es)
  obtain l1 where 1: "sleep_step e l = Some l1" "sleep_run es l1 = Some l'" using Cons.prems(1) by (auto simp: bind_eq_Some_conv)
  have "sleep_ok l1 \<and> sl_now l1 = fst e"
    using sleep_step_ok [of "fst e" "snd e" l l1] 1(1) Cons.prems(2,3) by simp
  then show ?case using Cons.IH [OF 1(2)] Cons.prems(3) by simp
qed simp

text \<open>
  C31: No sleeper is forgotten.  In every sequence of \<^verbatim>\<open>nanosleep\<close> calls, polls and timer interrupts
  at readings of the clock that do not go backwards: a task that sleeps has its timer in the
  heap, the first timer interrupt at or after the expiry wakes it, and then its next poll is ready
  and not put off again.
\<close>

theorem sleepers_wake:
  assumes "sleep_run es sleep_new = Some l" "sorted (map fst es)" "w \<in> sl_asleep l"
  shows "\<exists>f. sl_futures l w = Some f \<and> \<lparr> expire_ms = fut_expire_ms f, timer_waker = w \<rparr> \<in> set (sl_timers l)
    \<and> (\<forall>t l' t'. fut_expire_ms f * 10000 \<le> t \<and> sleep_step (t, Tick) l = Some l' \<and> t \<le> t' \<and> t' * 1000 < 2 ^ 64
        \<longrightarrow> w \<notin> sl_asleep l' \<and> timer_poll w t' f (sl_timers l') = Some (True, f, sl_timers l'))"
proof -
  have ok: "sleep_ok l" using sleep_run_ok [OF assms(1)] assms(2) by (simp add: sleep_new_def sleep_ok_def)
  then obtain f where f: "sl_futures l w = Some f" "\<lparr> expire_ms = fut_expire_ms f, timer_waker = w \<rparr> \<in> set (sl_timers l)"
    using assms(3) by (auto simp: sleep_ok_def)
  have "w \<notin> sl_asleep l' \<and> timer_poll w t' f (sl_timers l') = Some (True, f, sl_timers l')"
    if t: "fut_expire_ms f * 10000 \<le> t" "sleep_step (t, Tick) l = Some l'" "t \<le> t'" "t' * 1000 < 2 ^ 64" for t l' t'
  proof -
    obtain ws ts where c: "check_timer t (sl_timers l) = Some (ws, ts)"
      and l': "l' = l\<lparr> sl_now := t, sl_timers := ts, sl_asleep := sl_asleep l - set ws \<rparr>"
      using t(2) by (auto split: option.splits)
    have le: "fut_expire_ms f \<le> t div 10000" "fut_expire_ms f \<le> t' div 10000"
      using t(1,3) by (simp_all add: less_eq_div_iff_mult_less_eq)
    have "w \<in> set ws" using heap.due_woken [OF _ check_timer_pop [OF c] f(2)] ok le(1) by (simp add: sleep_ok_def)
    then show ?thesis using le(2) t(4) by (simp add: l' timer_poll_def get_time_ms_eq not_less)
  qed
  then show ?thesis using f by blast
qed

text \<open>Two tasks: the first sleeps ten milliseconds and the second twenty; the interrupt after fifteen
  wakes the first only.\<close>

definition demo_sleep :: "(nat \<times> sleep_event) list" where
  "demo_sleep = [(0, Start 1 \<lparr> ts_sec = 0, ts_nsec = 10000000 \<rparr>), (0, PollSleep 1),
     (0, Start 2 \<lparr> ts_sec = 0, ts_nsec = 20000000 \<rparr>), (5000, PollSleep 2), (150000, Tick)]"

lemma demo_sleep_run:
  "sleep_run demo_sleep sleep_new = Some \<lparr> sl_now = 150000, sl_timers = [\<lparr> expire_ms = 20, timer_waker = 2 \<rparr>],
     sl_futures = [1 \<mapsto> \<lparr> fut_expire_ms = 10, timer_activated = True \<rparr>, 2 \<mapsto> \<lparr> fut_expire_ms = 20, timer_activated = True \<rparr>],
     sl_asleep = {2} \<rparr>"
  by (simp add: demo_sleep_def sleep_new_def sys_nanosleep_def duration_try_from_def duration_new_def sleep_def
      as_millis_def timer_poll_def check_timer_def get_time_ms_eq timers_push_def checked clock_defs) auto

theorem sleepers_wake_witness:
  "\<exists>l f. sleep_run demo_sleep sleep_new = Some l \<and> sl_asleep l = {2} \<and> sl_futures l 2 = Some f \<and> fut_expire_ms f = 20
    \<and> (\<exists>l'. sleep_step (200000, Tick) l = Some l' \<and> 2 \<notin> sl_asleep l' \<and> timer_poll 2 200000 f (sl_timers l') = Some (True, f, sl_timers l'))"
proof -
  note r = demo_sleep_run
  have "sorted (map fst demo_sleep)" by (simp add: demo_sleep_def)
  from sleepers_wake [OF r this, of 2] obtain l' where
    "sleep_step (200000, Tick) (the (sleep_run demo_sleep sleep_new)) = Some l'" "2 \<notin> sl_asleep l'"
    "timer_poll 2 200000 \<lparr> fut_expire_ms = 20, timer_activated = True \<rparr> (sl_timers l')
      = Some (True, \<lparr> fut_expire_ms = 20, timer_activated = True \<rparr>, sl_timers l')"
    unfolding r by (auto simp: check_timer_def get_time_ms_eq timer_poll_def)
  then show ?thesis unfolding r by auto
qed

text \<open>The expiry counts whole milliseconds on both sides: a task that asks for less than one is
  not put to sleep at all.\<close>

lemma nanosleep_too_short:
  "sys_nanosleep (Inr \<lparr> ts_sec = 0, ts_nsec = 999999 \<rparr>) t = Some (Inr f) \<Longrightarrow> timer_poll w t f ts = Some (True, f, ts)"
  by (auto simp: sys_nanosleep_def duration_try_from_def duration_new_def sleep_def as_millis_def timer_poll_def
      get_time_ms_eq checked clock_defs split: if_splits)

end
