(* ===== verification/Spec2Isabelle.thy ===== *)
theory Spec2Isabelle
  imports System IoSystem Clock
begin

text \<open>
  Verification of the \<^verbatim>\<open>asynclear\<close> kernel, an operating system kernel for RISC-V written in Rust
  (\<^verbatim>\<open>src/crates\<close>).

  \<^bold>\<open>The program.\<close>  User processes run in address spaces of their own and enter the kernel by system
  calls, page faults and signals.  The crate \<^verbatim>\<open>libkernel\<close> holds the kernel's objects: physical
  frames, page tables and address spaces (\<^verbatim>\<open>memory\<close>), threads and processes, signals, and the
  file system layer with directory entries, inodes, a page cache, pipes and file descriptors
  (\<^verbatim>\<open>fs\<close>).  \<^verbatim>\<open>kernel\<close> holds the system calls.  \<^verbatim>\<open>fs/*\<close> and \<^verbatim>\<open>utils/fat32\<close> are the file systems behind
  the inodes.

  \<^bold>\<open>How the code is modelled.\<close>  A \<^verbatim>\<open>usize\<close> is a natural number below two to the power of 64 with
  checked arithmetic (\<^verbatim>\<open>uadd\<close>, \<^verbatim>\<open>usub\<close>, \<^verbatim>\<open>umul\<close>): the kernel is built with overflow checks and debug
  assertions, so that an overflow, a failed assertion, an \<^verbatim>\<open>unwrap\<close> of nothing and a \<^verbatim>\<open>todo!\<close> are
  panics.  Bit patterns (page table entries, flags, masks, registers) are words of their width.
  A function that returns or panics is an \<^verbatim>\<open>option\<close>, None being the panic; an error number is the
  left side of a sum; where the state survives an error, the result is a pair of both.  A
  structure is a record and an enum a datatype.  A \<^verbatim>\<open>BTreeMap\<close> is a sorted association list (theory
  \<^verbatim>\<open>Btree\<close>, with a contract as a locale).  Objects behind shared pointers are addresses in a store
  where identity matters: directory entries and inodes (\<^verbatim>\<open>Dentry\<close>), processes by their identifier
  (\<^verbatim>\<open>Process\<close>).  Physical memory is a function from addresses to bytes, and page tables live in it.
  A kernel function holds the locks of what it changes for its whole duration and is one step;
  the theorems of \<^verbatim>\<open>System\<close> and \<^verbatim>\<open>IoSystem\<close> quantify over all sequences of the steps listed there.

  \<^bold>\<open>Parameters.\<close>  What belongs to other crates or to the hardware is an argument with a named
  hypothesis: the buddy allocator (\<^verbatim>\<open>buddy_spec\<close>), the memory management unit and the decoding of
  exceptions (\<^verbatim>\<open>mmu_spec\<close>), the channel of a pipe (\<^verbatim>\<open>channel_spec\<close>), the queue of the serial port
  (\<^verbatim>\<open>deque_spec\<close>), the block device (a function from numbers to blocks), UTF-16 decoding,
  the calendar, the clock, the parser of program files.  Each hypothesis is shown to hold of a
  concrete instance (\<^verbatim>\<open>list_platform\<close>, \<^verbatim>\<open>table_mmu\<close>), which the witnesses of the theorems use.

  \<^bold>\<open>The theories\<close>, with the sources they model:

  \<^item> \<^verbatim>\<open>Prelude\<close>: checked arithmetic, errors, byte-addressed memory, constants
    (\<^verbatim>\<open>utils/common/config.rs\<close>, \<^verbatim>\<open>utils/defines/error.rs\<close>).  \<^verbatim>\<open>Btree\<close>: ordered maps.
  \<^item> \<^verbatim>\<open>IdAllocator\<close> (\<^verbatim>\<open>utils/idallocator\<close>): identifiers are handed out once and recycled.
  \<^item> \<^verbatim>\<open>Address\<close>, \<^verbatim>\<open>Frame\<close>, \<^verbatim>\<open>PageTable\<close>, \<^verbatim>\<open>VmArea\<close>, \<^verbatim>\<open>MemorySpace\<close> (\<^verbatim>\<open>libkernel/memory\<close>): from addresses to
    address spaces.  The page tables in memory refine a map from pages to frames and flags, and
    the well-formedness of a space (\<^verbatim>\<open>ms_ok\<close>) says that its areas do not overlap, that exactly
    their pages are mapped, with the area's permission, and that no frame has two owners.
    \<^verbatim>\<open>SpaceUnmap\<close>, \<^verbatim>\<open>SpaceFork\<close>, \<^verbatim>\<open>SpaceBrk\<close> and \<^verbatim>\<open>SpaceConfine\<close> prove the operations on spaces and that
    they touch nothing but their own and free frames; \<^verbatim>\<open>ElfLoad\<close> that the segments of an executable
    are loaded as its headers say; \<^verbatim>\<open>UserStack\<close> what a new program finds on its stack; \<^verbatim>\<open>MemSyscalls\<close> has the
    calls; \<^verbatim>\<open>UserCheck\<close> the checks of user pointers.
  \<^item> \<^verbatim>\<open>TrapContext\<close>, \<^verbatim>\<open>Signals\<close> (\<^verbatim>\<open>libkernel/trap\<close>, \<^verbatim>\<open>signal\<close>, \<^verbatim>\<open>kernel/syscall/signal.rs\<close>): the saved
    registers, the delivery of signals and the return from a handler.
  \<^item> \<^verbatim>\<open>Process\<close>, \<^verbatim>\<open>ProcessTree\<close>, \<^verbatim>\<open>System\<close> (\<^verbatim>\<open>libkernel/process\<close>, \<^verbatim>\<open>thread\<close>,
    \<^verbatim>\<open>kernel/syscall/process.rs\<close>): fork, exit and wait refine operations of an abstract tree.
    \<^verbatim>\<open>System\<close> has a step relation (\<^verbatim>\<open>kstep\<close>) for clone, exit, wait4, mmap without \<^verbatim>\<open>MAP_SHARED\<close>, munmap,
    brk where the heap has room, page faults and stores of the program, the invariant of processes
    and spaces along all runs of such steps, and the isolation of a process from the steps of the
    others.  It is not the step relation of the whole kernel: exec, the calls on files and the signals
    are no steps of it, and shared mappings and a brk without room, which breaks the invariant (lemma
    \<^verbatim>\<open>brk_overlaps\<close>), are excluded.  \<^verbatim>\<open>exec\<close> and \<^verbatim>\<open>init_process\<close> are defined in \<^verbatim>\<open>Process\<close>; there is no theorem
    about \<^verbatim>\<open>exec\<close> as a whole, only about its loading of the segments and its stack, and none that
    \<^verbatim>\<open>init_process\<close> establishes the invariant.
  \<^item> \<^verbatim>\<open>FileTable\<close> (\<^verbatim>\<open>libkernel/fs/file.rs\<close>), \<^verbatim>\<open>Pipe\<close> (\<^verbatim>\<open>fs/pipe.rs\<close>), \<^verbatim>\<open>Inode\<close> (\<^verbatim>\<open>fs/inode.rs\<close>,
    \<^verbatim>\<open>fs/page_cache.rs\<close>): descriptors, pipes, and reading and writing through the page cache.
  \<^item> \<^verbatim>\<open>Fat\<close>, \<^verbatim>\<open>FatMount\<close>, \<^verbatim>\<open>DirEntry\<close> (\<^verbatim>\<open>utils/fat32\<close>) and \<^verbatim>\<open>FatVfs\<close> (\<^verbatim>\<open>fs/fat32_vfs\<close>): cluster chains,
    their allocation and release, mounting, directory entries with long names, and files of the
    disk behind the page cache.
  \<^item> \<^verbatim>\<open>Dentry\<close> (\<^verbatim>\<open>fs/dentry.rs\<close>), \<^verbatim>\<open>Vfs\<close> (\<^verbatim>\<open>fs/mod.rs\<close>, \<^verbatim>\<open>fs/tmpfs\<close>, \<^verbatim>\<open>devfs\<close>, \<^verbatim>\<open>procfs\<close>), \<^verbatim>\<open>FsSyscalls\<close>
    (\<^verbatim>\<open>kernel/syscall/fs.rs\<close>): the name space as a tree in a store that refines a map, paths,
    mounts, and the invariant of the file system under every sequence of calls.  \<^verbatim>\<open>Dirents\<close>: listing
    a directory through \<^verbatim>\<open>getdents64\<close>.
  \<^item> \<^verbatim>\<open>Devices\<close> (\<^verbatim>\<open>fs/devfs\<close>, \<^verbatim>\<open>fs/procfs\<close>, \<^verbatim>\<open>drivers/qemu_uart\<close>): the terminal with its interrupt handler,
    the clock and the text files of \<^verbatim>\<open>procfs\<close>; no reader of the terminal sleeps while a byte is
    queued.
  \<^item> \<^verbatim>\<open>FileIo\<close> (\<^verbatim>\<open>libkernel/fs/file.rs\<close>, \<^verbatim>\<open>kernel/syscall/fs.rs\<close>): the calls that move data (\<^verbatim>\<open>read\<close>,
    \<^verbatim>\<open>write\<close>, \<^verbatim>\<open>readv\<close>, \<^verbatim>\<open>writev\<close>, \<^verbatim>\<open>sendfile64\<close>, \<^verbatim>\<open>ppoll\<close>, \<^verbatim>\<open>ioctl\<close>) as futures over the page cache, the
    pipes and the devices.  \<^verbatim>\<open>FileCopy\<close>: a vector read is one read into the buffers one after the
    other, and \<^verbatim>\<open>sendfile64\<close> copies one file into another.  \<^verbatim>\<open>IoSystem\<close>: every sequence of calls,
    polls and interrupts keeps the state of the files well formed.
  \<^item> \<^verbatim>\<open>Clock\<close> (\<^verbatim>\<open>arch/riscv_time\<close>, \<^verbatim>\<open>utils/executor/time\<close>, \<^verbatim>\<open>kernel/syscall/time.rs\<close>): for how long the
    clock can be read, and that no sleeping task is forgotten.

  \<^bold>\<open>Bounds and termination.\<close>  Loops over data are structural or have a measure.  Where a loop may
  run forever, its definition is a partial function with values in \<^verbatim>\<open>option\<close> (the walk along a
  cluster chain) and the theorem says when it ends.  Theorems that need memory ask that a number
  of frames can be allocated (\<^verbatim>\<open>can_alloc\<close>): three for a page (itself and two tables), one more for
  the root of a new space; with less the code panics.

  \<^bold>\<open>Simplifications.\<close>  A call reads the clock once.  The frames of the page cache are a count, apart
  from the frame allocator of the address spaces.  In the calls on files the check of a user pointer
  is an argument without effects; its effects on the space are the subject of \<^verbatim>\<open>UserCheck\<close>.  The status
  word of wait4 is part of the result instead of written to memory, and a waited process is
  released at once.  A signal goes to the suitable thread with the smallest number, where the code
  goes by the order of a hash map.  Walks to the parents of a directory compare addresses so that
  they end, which changes nothing in a well-formed store.  Log lines are left out with the panics that
  formatting them can be.  The flags of a mount, which have no bits, are left out, and the buffer of
  sendfile64 is taken to be allocated.

  \<^bold>\<open>Not modelled.\<close>  The virtio driver, the interrupt controller and the registers of the serial
  port, the assembly of the trap entry, activation of page tables and TLB flushes: their effect
  is defined by hardware.  The queue of the executor, whose scheduling is that of the crate \<^verbatim>\<open>async-task\<close>: the
  model takes steps in any order instead.  Spin locks, since modelled operations are atomic.
  Tracing and console output, which only print.  The programs under \<^verbatim>\<open>user\<close> and the build tool
  \<^verbatim>\<open>xtask\<close>.
\<close>

end
